(* ===== verification/Prelude.thy ===== *)
theory Prelude
  imports Complex_Main "HOL-Library.Word" "HOL-Library.Signed_Division" "HOL-Library.Sublist"
begin

text \<open>
  What the components of the development share: the error values that stand for
  \<open>pq_async::exception\<close>, positional notation (the value of a list of digits in a given
  base, most significant digit first) with the lemmas that carry every digit loop of the
  library, C's integer conversions, and the interface of a three-way comparison.

  Positional notation is used with base 10000 (the digits of \<open>pq_async::numeric\<close>), 10 (its
  text form) and 256 (the bytes on the wire).
\<close>

section \<open>Errors\<close>

text \<open>
  Every throw of the library raises \<open>pq_async::exception\<close> (or its subclass
  \<open>connection_pool_assign_exception\<close>) with a message; a call that throws is a value
  \<open>Inl\<close> of this type. The use of a null or dangling pointer, which C++ leaves undefined, is
  a value of its own, so that a theorem can say that it does not happen.
\<close>

datatype pq_error =
    PqException string
  | PoolAssignException string
  | UndefinedBehaviour string

type_synonym 'a result = "pq_error + 'a"

definition bind_result :: "'a result \<Rightarrow> ('a \<Rightarrow> 'b result) \<Rightarrow> 'b result" where
  "bind_result m f = (case m of Inl e \<Rightarrow> Inl e | Inr x \<Rightarrow> f x)"

lemma bind_result_simps [simp]:
  "bind_result (Inl e) f = Inl e"
  "bind_result (Inr x) f = f x"
  by (simp_all add: bind_result_def)

lemma bind_result_Inr_iff:
  "bind_result m f = Inr y \<longleftrightarrow> (\<exists>x. m = Inr x \<and> f x = Inr y)"
  by (cases m) auto

section \<open>C integers\<close>

text \<open>
  The conversion to a signed type of \<open>w\<close> bits: two's complement wrap-around, which is what
  GCC does where the standard leaves it to the implementation.
\<close>

definition wrap_s :: "nat \<Rightarrow> int \<Rightarrow> int" where
  "wrap_s w x = (x + 2 ^ (w - 1)) mod 2 ^ w - 2 ^ (w - 1)"

abbreviation i16 :: "int \<Rightarrow> int" where "i16 \<equiv> wrap_s 16"
abbreviation i32 :: "int \<Rightarrow> int" where "i32 \<equiv> wrap_s 32"
abbreviation i64 :: "int \<Rightarrow> int" where "i64 \<equiv> wrap_s 64"

definition in_s :: "nat \<Rightarrow> int \<Rightarrow> bool" where
  "in_s w x \<longleftrightarrow> - (2 ^ (w - 1)) \<le> x \<and> x < 2 ^ (w - 1)"

lemma wrap_s_id: "0 < w \<Longrightarrow> in_s w x \<Longrightarrow> wrap_s w x = x"
proof -
  assume w: "0 < w" and x: "in_s w x"
  then obtain v where v: "w = Suc v" by (cases w) auto
  have "(x + 2 ^ v) mod (2 * 2 ^ v) = x + 2 ^ v"
    using x v by (intro mod_pos_pos_trivial) (auto simp: in_s_def)
  then show ?thesis by (simp add: wrap_s_def v)
qed

lemma wrap_s_in_s: "0 < w \<Longrightarrow> in_s w (wrap_s w x)"
proof -
  assume "0 < w"
  then obtain v where v: "w = Suc v" by (cases w) auto
  have "0 \<le> (x + 2 ^ v) mod (2 * 2 ^ v :: int)" and "(x + 2 ^ v) mod (2 * 2 ^ v) < (2 * 2 ^ v :: int)"
    by simp_all
  then show ?thesis by (simp add: wrap_s_def in_s_def v)
qed

lemma i16_id: "- 32768 \<le> x \<Longrightarrow> x < 32768 \<Longrightarrow> i16 x = x"
  by (rule wrap_s_id) (simp_all add: in_s_def)

lemma i32_id: "- 2147483648 \<le> x \<Longrightarrow> x < 2147483648 \<Longrightarrow> i32 x = x"
  by (rule wrap_s_id) (simp_all add: in_s_def)

lemma i64_id: "- 9223372036854775808 \<le> x \<Longrightarrow> x < 9223372036854775808 \<Longrightarrow> i64 x = x"
  by (rule wrap_s_id) (simp_all add: in_s_def)

text \<open>
  C's \<open>/\<close> and \<open>%\<close> truncate towards zero: \<open>sdiv\<close> and \<open>smod\<close> of the library. On
  operands that are not negative they are \<open>div\<close> and \<open>mod\<close>.
\<close>

lemma sdiv_nonneg: "0 \<le> a \<Longrightarrow> 0 \<le> b \<Longrightarrow> (a::int) sdiv b = a div b"
  by (cases "a = 0"; cases "b = 0") (auto simp: signed_divide_int_def sgn_if)

lemma smod_nonneg: "0 \<le> a \<Longrightarrow> 0 \<le> b \<Longrightarrow> (a::int) smod b = a mod b"
  by (cases "a = 0"; cases "b = 0") (auto simp: signed_modulo_int_def sgn_if)

lemma div_less_iff: "0 < q \<Longrightarrow> k div q < p \<longleftrightarrow> k < p * q" for k p q :: int
proof -
  assume q: "0 < q"
  then have "(k + q * - p) div q = - p + k div q" by (intro div_mult_self2) simp
  moreover have "(k + q * - p) div q < 0 \<longleftrightarrow> k + q * - p < 0" using q by (rule pos_imp_zdiv_neg_iff)
  ultimately show ?thesis by (simp add: mult.commute)
qed

lemma le_div_iff: "0 < q \<Longrightarrow> p \<le> k div q \<longleftrightarrow> p * q \<le> k" for k p q :: int
  using div_less_iff [of q k p] by (simp add: not_less [symmetric])

section \<open>Positional notation\<close>

text \<open>The value of a digit list in base \<open>b\<close>, the most significant digit first.\<close>

primrec bval :: "int \<Rightarrow> int list \<Rightarrow> int" where
  "bval b [] = 0"
| "bval b (d # ds) = d * b ^ length ds + bval b ds"

definition digits_ok :: "int \<Rightarrow> int list \<Rightarrow> bool" where
  "digits_ok b ds \<longleftrightarrow> (\<forall>d \<in> set ds. 0 \<le> d \<and> d < b)"

lemma digits_ok_simps [simp]:
  "digits_ok b []"
  "digits_ok b (d # ds) \<longleftrightarrow> 0 \<le> d \<and> d < b \<and> digits_ok b ds"
  "digits_ok b (xs @ ys) \<longleftrightarrow> digits_ok b xs \<and> digits_ok b ys"
  "digits_ok b (rev ds) \<longleftrightarrow> digits_ok b ds"
  by (auto simp: digits_ok_def)

lemma digits_ok_take [simp, intro]: "digits_ok b ds \<Longrightarrow> digits_ok b (take n ds)"
  by (auto simp: digits_ok_def dest: in_set_takeD)

lemma digits_ok_drop [simp, intro]: "digits_ok b ds \<Longrightarrow> digits_ok b (drop n ds)"
  by (auto simp: digits_ok_def dest: in_set_dropD)

lemma digits_ok_replicate [simp]: "digits_ok b (replicate n 0) \<longleftrightarrow> n = 0 \<or> 0 < b"
  by (auto simp: digits_ok_def)

lemma digits_ok_nth: "digits_ok b ds \<Longrightarrow> i < length ds \<Longrightarrow> 0 \<le> ds ! i \<and> ds ! i < b"
  by (auto simp: digits_ok_def)

lemma bval_append: "bval b (xs @ ys) = bval b xs * b ^ length ys + bval b ys"
  by (induction xs) (simp_all add: power_add algebra_simps)

lemma bval_snoc [simp]: "bval b (xs @ [d]) = bval b xs * b + d"
  by (simp add: bval_append)

lemma bval_replicate_0 [simp]: "bval b (replicate n 0) = 0"
  by (induction n) simp_all

lemma bval_nonneg: "digits_ok b ds \<Longrightarrow> 0 \<le> bval b ds"
proof (induction ds)
  case (Cons d ds)
  then have "0 \<le> b" by simp
  with Cons show ?case by simp
qed simp

lemma bval_less: "digits_ok b ds \<Longrightarrow> 0 < b \<Longrightarrow> bval b ds < b ^ length ds"
proof (induction ds)
  case (Cons d ds)
  then have "bval b ds < b ^ length ds" and "d + 1 \<le> b" by auto
  then have "(d + 1) * b ^ length ds \<le> b * b ^ length ds"
    using Cons.prems by (intro mult_right_mono) auto
  with \<open>bval b ds < b ^ length ds\<close> show ?case by (simp add: algebra_simps)
qed simp

lemma bval_ge_hd: "digits_ok b (d # ds) \<Longrightarrow> d * b ^ length ds \<le> bval b (d # ds)"
  using bval_nonneg [of b ds] by simp

lemma bval_lower: "digits_ok b ds \<Longrightarrow> ds \<noteq> [] \<Longrightarrow> hd ds \<noteq> 0 \<Longrightarrow> b ^ (length ds - 1) \<le> bval b ds"
proof (cases ds)
  case (Cons d es)
  assume a: "digits_ok b ds" "hd ds \<noteq> 0"
  then have "1 * b ^ length es \<le> d * b ^ length es" using Cons by (intro mult_right_mono) auto
  also have "\<dots> \<le> bval b ds" using bval_ge_hd [of b d es] a Cons by blast
  finally show ?thesis using Cons by simp
qed simp

lemma bval_pos: "digits_ok b (d # ds) \<Longrightarrow> d \<noteq> 0 \<Longrightarrow> 0 < bval b (d # ds)"
proof -
  assume a: "digits_ok b (d # ds)" "d \<noteq> 0"
  then have "0 < d * b ^ length ds" by (auto simp: digits_ok_def)
  with bval_ge_hd [OF a(1)] show ?thesis by linarith
qed

lemma bval_eq_0_iff: "digits_ok b ds \<Longrightarrow> 0 < b \<Longrightarrow> bval b ds = 0 \<longleftrightarrow> (\<forall>d \<in> set ds. d = 0)"
proof (induction ds)
  case (Cons d ds)
  then have "0 \<le> bval b ds" "0 \<le> d * b ^ length ds" by (auto intro: bval_nonneg)
  then have "bval b (d # ds) = 0 \<longleftrightarrow> d * b ^ length ds = 0 \<and> bval b ds = 0"
    unfolding bval.simps by (intro add_nonneg_eq_0_iff)
  with Cons show ?case by auto
qed simp

lemma bval_split: "bval b ds = bval b (take n ds) * b ^ (length ds - n) + bval b (drop n ds)"
proof -
  have "bval b ds = bval b (take n ds @ drop n ds)" by (simp only: append_take_drop_id)
  also have "\<dots> = bval b (take n ds) * b ^ (length ds - n) + bval b (drop n ds)"
    by (simp only: bval_append length_drop)
  finally show ?thesis .
qed

lemma bval_take_div:
  "digits_ok b ds \<Longrightarrow> 0 < b \<Longrightarrow> bval b (take n ds) = bval b ds div b ^ (length ds - n)"
proof -
  assume a: "digits_ok b ds" "0 < b"
  have "0 \<le> bval b (drop n ds)" and "bval b (drop n ds) < b ^ (length ds - n)"
    using a bval_less [of b "drop n ds"] bval_nonneg [of b "drop n ds"] by auto
  then have "(bval b (take n ds) * b ^ (length ds - n) + bval b (drop n ds)) div b ^ (length ds - n)
    = bval b (take n ds)"
    by (metis (no_types) a(2) add.commute add_0 div_mult_self1 div_pos_pos_trivial less_le not_less)
  then show ?thesis by (metis bval_split)
qed

lemma bval_inject:
  "digits_ok b xs \<Longrightarrow> digits_ok b ys \<Longrightarrow> length xs = length ys \<Longrightarrow> 0 < b \<Longrightarrow>
   bval b xs = bval b ys \<Longrightarrow> xs = ys"
proof (induction xs ys rule: list_induct2')
  case (4 x xs y ys)
  then have len: "length xs = length ys" and "0 < b"
    and eq: "x * b ^ length ys + bval b xs = y * b ^ length ys + bval b ys"
    by auto
  have "0 \<le> bval b xs" "bval b xs < b ^ length ys" "0 \<le> bval b ys" "bval b ys < b ^ length ys"
    using "4.prems" len bval_less [of b xs] bval_less [of b ys] by (auto intro: bval_nonneg)
  then have "(bval b xs + b ^ length ys * x) div b ^ length ys = x"
    and "(bval b ys + b ^ length ys * y) div b ^ length ys = y"
    using \<open>0 < b\<close> by (simp_all add: div_add1_eq)
  with eq have "x = y" by (simp add: algebra_simps)
  with eq 4 len show ?case by simp
qed simp_all

section \<open>Scaling by powers of the base\<close>

text \<open>
  Rational values are written \<open>A * 10 powi e\<close> with an integer \<open>A\<close>; these are the rules
  that move a power of ten between the two factors.
\<close>

lemma powi_10000: "(10000::rat) powi k = 10 powi (4 * k)"
proof -
  have "(10::rat) powi 4 = 10000" by (simp add: power_int_def)
  then show ?thesis by (simp only: power_int_mult)
qed

lemma powi_split: "(10::rat) powi (a + b) = 10 powi a * 10 powi b"
  by (simp add: power_int_add)

lemma powi_nat: "0 \<le> e \<Longrightarrow> (10::rat) powi e = of_int (10 ^ nat e)"
  by (simp add: power_int_def)

lemma powi_neg: "e \<le> 0 \<Longrightarrow> (10::rat) powi e = 1 / of_int (10 ^ nat (- e))"
  by (auto simp: power_int_def inverse_eq_divide power_one_over)

lemma powi_10_pos [simp]: "0 < (10::rat) powi e"
  by simp

lemma round_quot:
  assumes "0 < k"
  shows "round (of_int a / of_int (10 ^ k) :: rat) = (a + 5 * 10 ^ (k - 1)) div 10 ^ k"
proof -
  have "(of_int a / of_int (10 ^ k) + 1 / 2 :: rat) = of_int (a + 5 * 10 ^ (k - 1)) / of_int (10 ^ k)"
    using assms by (cases k) (simp_all add: field_simps)
  then show ?thesis unfolding round_def by (simp only: floor_divide_of_int_eq)
qed

lemma floor_div_int: "0 < n \<Longrightarrow> \<lfloor>x / of_int n\<rfloor> = \<lfloor>x\<rfloor> div n" for x :: rat
proof (rule antisym)
  assume n: "0 < n"
  then have "of_int \<lfloor>x / of_int n\<rfloor> * of_int n \<le> x" by (simp add: pos_le_divide_eq [symmetric])
  then have "\<lfloor>x / of_int n\<rfloor> * n \<le> \<lfloor>x\<rfloor>" by (simp add: le_floor_iff)
  then show "\<lfloor>x / of_int n\<rfloor> \<le> \<lfloor>x\<rfloor> div n" using n by (simp add: le_div_iff)
  have "(\<lfloor>x\<rfloor> div n) * n \<le> \<lfloor>x\<rfloor>" using n by (simp add: le_div_iff [symmetric])
  then have "of_int (\<lfloor>x\<rfloor> div n) * of_int n \<le> x" unfolding le_floor_iff by simp
  then show "\<lfloor>x\<rfloor> div n \<le> \<lfloor>x / of_int n\<rfloor>" using n by (simp add: le_floor_iff pos_le_divide_eq)
qed

section \<open>Three-way comparison\<close>

text \<open>
  The interface of the comparison functions of the library (\<open>cmp_var\<close>,
  \<open>macaddr_cmp_internal\<close>, \<open>network_cmp_internal\<close>, ...): on the values that are
  well formed, the sign of the result is the order of a key. The laws the six comparison
  operators need follow once and for all.
\<close>

locale cmp_by_key =
  fixes ok :: "'a \<Rightarrow> bool"
    and cmp :: "'a \<Rightarrow> 'a \<Rightarrow> int"
    and key :: "'a \<Rightarrow> 'k::linorder"
  assumes cmp_neg: "ok a \<Longrightarrow> ok b \<Longrightarrow> cmp a b < 0 \<longleftrightarrow> key a < key b"
    and cmp_pos: "ok a \<Longrightarrow> ok b \<Longrightarrow> 0 < cmp a b \<longleftrightarrow> key b < key a"
begin

lemma cmp_zero: "ok a \<Longrightarrow> ok b \<Longrightarrow> cmp a b = 0 \<longleftrightarrow> key a = key b"
  using cmp_neg [of a b] cmp_pos [of a b] by (metis less_irrefl linorder_less_linear)

lemma cmp_le: "ok a \<Longrightarrow> ok b \<Longrightarrow> cmp a b \<le> 0 \<longleftrightarrow> key a \<le> key b"
  using cmp_pos [of a b] by (simp add: not_less [symmetric])

lemma cmp_refl: "ok a \<Longrightarrow> cmp a a = 0"
  by (simp add: cmp_zero)

lemma cmp_swap: "ok a \<Longrightarrow> ok b \<Longrightarrow> sgn (cmp b a) = - sgn (cmp a b)"
proof (cases "key a" "key b" rule: linorder_cases)
  case less
  moreover assume "ok a" "ok b"
  ultimately have "cmp a b < 0" "0 < cmp b a" using cmp_neg [of a b] cmp_pos [of b a] by simp_all
  then show ?thesis by simp
next
  case equal
  moreover assume "ok a" "ok b"
  ultimately have "cmp a b = 0" "cmp b a = 0" using cmp_zero [of a b] cmp_zero [of b a] by simp_all
  then show ?thesis by simp
next
  case greater
  moreover assume "ok a" "ok b"
  ultimately have "0 < cmp a b" "cmp b a < 0" using cmp_pos [of a b] cmp_neg [of b a] by simp_all
  then show ?thesis by simp
qed

lemma cmp_trans_le:
  "ok a \<Longrightarrow> ok b \<Longrightarrow> ok c \<Longrightarrow> cmp a b \<le> 0 \<Longrightarrow> cmp b c \<le> 0 \<Longrightarrow> cmp a c \<le> 0"
  by (auto simp: cmp_le)

lemma cmp_total_order:
  assumes "ok a" "ok b" "ok c"
  shows "cmp a a = 0 \<and> sgn (cmp b a) = - sgn (cmp a b) \<and>
    (cmp a b \<le> 0 \<longrightarrow> cmp b c \<le> 0 \<longrightarrow> cmp a c \<le> 0) \<and>
    (cmp a b < 0 \<longrightarrow> cmp b c \<le> 0 \<longrightarrow> cmp a c < 0)"
proof (intro conjI impI)
  show "cmp a a = 0" using assms(1) by (rule cmp_refl)
  show "sgn (cmp b a) = - sgn (cmp a b)" using assms(1,2) by (rule cmp_swap)
  show "cmp a c \<le> 0" if "cmp a b \<le> 0" "cmp b c \<le> 0"
    using assms that by (rule cmp_trans_le)
  show "cmp a c < 0" if "cmp a b < 0" "cmp b c \<le> 0"
    using assms that cmp_neg [of a b] cmp_le [of b c] cmp_neg [of a c] by simp
qed

end

section \<open>Invariants of step relations\<close>

text \<open>
  The stateful components are step relations. What every step keeps holds in every state that
  a run from an initial state reaches.
\<close>

locale step_invariant =
  fixes init :: "'s \<Rightarrow> bool"
    and step :: "'s \<Rightarrow> 's \<Rightarrow> bool"
    and inv :: "'s \<Rightarrow> bool"
  assumes init_inv: "init s \<Longrightarrow> inv s"
    and step_inv: "inv s \<Longrightarrow> step s t \<Longrightarrow> inv t"
begin

lemma run_inv: "step\<^sup>*\<^sup>* s t \<Longrightarrow> inv s \<Longrightarrow> inv t"
  by (induction rule: rtranclp_induct) (auto intro: step_inv)

lemma reachable_inv: "init s \<Longrightarrow> step\<^sup>*\<^sup>* s t \<Longrightarrow> inv t"
  using run_inv init_inv by blast

end

end
