(* ===== verification/Numeric_Core.thy ===== *)
theory Numeric_Core
  imports Prelude
begin

text \<open>
  The data type \<open>pq_async::numeric\<close> (\<open>src/pg_type_numeric_def.cpp\<close> and its header): an
  arbitrary precision decimal kept as base-10000 digits, and the lowest level of its
  operations: \<open>zero_var\<close>, \<open>strip_var\<close>, \<open>round_var\<close>, \<open>trunc_var\<close>, \<open>cmp_abs\<close> and
  \<open>cmp_var\<close>.

  A \<open>numeric\<close> of the code has a buffer \<open>buf\<close>, a pointer \<open>digits\<close> into it and a count
  \<open>ndigits\<close>; the model keeps the \<open>ndigits\<close> digits that \<open>digits\<close> points at as a list, so
  \<open>ndigits\<close> is its length. The one cell of the buffer in front of the digits that the code
  reads, the spare digit of \<open>round_var\<close>, is written out in the model of \<open>round_var\<close>.
  \<open>weight\<close>, \<open>sign\<close> and \<open>dscale\<close> are the fields of the code.
\<close>

section \<open>Data\<close>

abbreviation (input) NBASE :: int where "NBASE \<equiv> 10000"
abbreviation (input) HALF_NBASE :: int where "HALF_NBASE \<equiv> 5000"
abbreviation (input) DEC_DIGITS :: int where "DEC_DIGITS \<equiv> 4"

abbreviation (input) NUMERIC_POS :: int where "NUMERIC_POS \<equiv> 0"
abbreviation (input) NUMERIC_NEG :: int where "NUMERIC_NEG \<equiv> 16384"
abbreviation (input) NUMERIC_NAN :: int where "NUMERIC_NAN \<equiv> 49152"

record numeric =
  weight :: int
  sign :: int
  dscale :: int
  digits :: "int list"

definition ndigits :: "numeric \<Rightarrow> int" where
  "ndigits v = int (length (digits v))"

text \<open>The default constructor, \<open>numeric::nan\<close> and \<open>numeric::is_nan\<close>.\<close>

definition numeric_init :: numeric where
  "numeric_init = \<lparr>weight = 0, sign = NUMERIC_POS, dscale = 0, digits = []\<rparr>"

definition numeric_nan :: numeric where
  "numeric_nan = numeric_init\<lparr>sign := NUMERIC_NAN\<rparr>"

definition is_nan :: "numeric \<Rightarrow> bool" where
  "is_nan v \<longleftrightarrow> sign v = NUMERIC_NAN"

text \<open>\<open>zero_var\<close> leaves \<open>dscale\<close> alone.\<close>

definition zero_var :: "numeric \<Rightarrow> numeric" where
  "zero_var v = v\<lparr>digits := [], weight := 0, sign := NUMERIC_POS\<rparr>"

section \<open>strip\_var\<close>

fun strip_leading :: "int list \<Rightarrow> int \<Rightarrow> int list \<times> int" where
  "strip_leading [] w = ([], w)"
| "strip_leading (d # ds) w = (if d = 0 then strip_leading ds (w - 1) else (d # ds, w))"

fun strip_trailing :: "int list \<Rightarrow> int list" where
  "strip_trailing ds =
     (if ds \<noteq> [] \<and> last ds = 0 then strip_trailing (butlast ds) else ds)"

declare strip_trailing.simps [simp del]

definition strip_var :: "numeric \<Rightarrow> numeric" where
  "strip_var v =
     (let (ds, w) = strip_leading (digits v) (weight v);
          ds' = strip_trailing ds
      in if ds' = [] then v\<lparr>sign := NUMERIC_POS, weight := 0, digits := []\<rparr>
         else v\<lparr>weight := w, digits := ds'\<rparr>)"

section \<open>round\_var and trunc\_var\<close>

definition round_powers :: "int list" where
  "round_powers = [0, 1000, 100, 10]"

text \<open>
  The loop that propagates a carry to the left. \<open>buf\<close> is the digits with the spare digit
  in front, so that the cell \<open>digits[k - 1]\<close> of the code is \<open>buf ! k\<close>; the second argument
  is \<open>ndigits + 1\<close>. The loop of the code stops at the spare digit, which is 0 and takes
  the carry; a result of 0 is the code's \<open>ndigits = -1\<close>.
\<close>

fun carry_loop :: "int \<Rightarrow> nat \<Rightarrow> int list \<Rightarrow> nat \<times> int list" where
  "carry_loop carry 0 buf = (0, buf)"
| "carry_loop carry (Suc k) buf =
     (if carry = 0 then (Suc k, buf)
      else let c = carry + buf ! k
           in if c \<ge> NBASE then carry_loop 1 k (buf[k := c - NBASE])
              else carry_loop 0 k (buf[k := c]))"

text \<open>
  The part of \<open>round_var\<close> that rounds within the kept digits: the carry, \<open>ndigits + 1\<close> and
  the buffer (spare digit first) when the carry loop starts.
\<close>

definition round_last :: "int list \<Rightarrow> nat \<Rightarrow> nat \<Rightarrow> int \<times> nat \<times> int list" where
  "round_last ds nd di =
     (let buf = 0 # take nd ds
      in if di = 0 then (if ds ! nd \<ge> HALF_NBASE then 1 else 0, nd + 1, buf)
         else let pow10 = round_powers ! di;
                  i = nd - 1;
                  extra = (ds ! i) smod pow10;
                  d = ds ! i - extra
              in if extra \<ge> pow10 sdiv 2
                 then if pow10 + d \<ge> NBASE then (1, i + 1, buf[nd := pow10 + d - NBASE])
                      else (0, i + 1, buf[nd := pow10 + d])
                 else (0, i + 1, buf[nd := d]))"

definition round_var :: "numeric \<Rightarrow> int \<Rightarrow> numeric" where
  "round_var v rscale =
     (let di = (weight v + 1) * DEC_DIGITS + rscale
      in if di < 0 then v\<lparr>dscale := rscale, digits := [], weight := 0, sign := NUMERIC_POS\<rparr>
         else let nd = (di + DEC_DIGITS - 1) sdiv DEC_DIGITS;
                  dm = di smod DEC_DIGITS
              in if nd < ndigits v \<or> (nd = ndigits v \<and> dm > 0)
                 then let (carry, k, buf) = round_last (digits v) (nat nd) (nat dm);
                          (k', buf') = carry_loop carry k buf
                      in if k' = 0 then v\<lparr>dscale := rscale, digits := buf', weight := weight v + 1\<rparr>
                         else v\<lparr>dscale := rscale, digits := tl buf'\<rparr>
                 else v\<lparr>dscale := rscale\<rparr>)"

definition trunc_var :: "numeric \<Rightarrow> int \<Rightarrow> numeric" where
  "trunc_var v rscale =
     (let di = (weight v + 1) * DEC_DIGITS + rscale
      in if di \<le> 0 then v\<lparr>dscale := rscale, digits := [], weight := 0, sign := NUMERIC_POS\<rparr>
         else let nd = (di + DEC_DIGITS - 1) sdiv DEC_DIGITS
              in if nd \<le> ndigits v
                 then let ds = take (nat nd) (digits v);
                          dm = di smod DEC_DIGITS
                      in if dm > 0
                         then let pow10 = round_powers ! nat dm;
                                  i = nat nd - 1;
                                  extra = (ds ! i) smod pow10
                              in v\<lparr>dscale := rscale, digits := ds[i := ds ! i - extra]\<rparr>
                         else v\<lparr>dscale := rscale, digits := ds\<rparr>
                 else v\<lparr>dscale := rscale\<rparr>)"

section \<open>Comparison\<close>

text \<open>
  The first two loops of \<open>cmp_abs_common\<close>: the side with the larger weight is scanned until
  the weights agree or its digits run out. The result is \<open>None\<close> when a digit other than 0
  was found (the code returns), or the digits left and the weight reached.
\<close>

fun cmp_skip :: "int list \<Rightarrow> int \<Rightarrow> int \<Rightarrow> (int list \<times> int) option" where
  "cmp_skip [] w w' = Some ([], w)"
| "cmp_skip (d # ds) w w' =
     (if w > w' then (if d \<noteq> 0 then None else cmp_skip ds (w - 1) w') else Some (d # ds, w))"

text \<open>The loop over common digits; \<open>Inl\<close> is the value returned, \<open>Inr\<close> the digits left.\<close>

fun cmp_common :: "int list \<Rightarrow> int list \<Rightarrow> int + (int list \<times> int list)" where
  "cmp_common (d1 # ds1) (d2 # ds2) =
     (if d1 - d2 \<noteq> 0 then Inl (if d1 - d2 > 0 then 1 else -1) else cmp_common ds1 ds2)"
| "cmp_common ds1 ds2 = Inr (ds1, ds2)"

definition cmp_rest :: "int list \<Rightarrow> int list \<Rightarrow> int" where
  "cmp_rest ds1 ds2 =
     (if \<exists>d \<in> set ds1. d \<noteq> 0 then 1 else if \<exists>d \<in> set ds2. d \<noteq> 0 then -1 else 0)"

definition cmp_abs_common :: "int list \<Rightarrow> int \<Rightarrow> int list \<Rightarrow> int \<Rightarrow> int" where
  "cmp_abs_common ds1 w1 ds2 w2 =
     (case cmp_skip ds1 w1 w2 of None \<Rightarrow> 1
      | Some (ds1, w1) \<Rightarrow>
          (case cmp_skip ds2 w2 w1 of None \<Rightarrow> -1
           | Some (ds2, w2) \<Rightarrow>
               (if w1 = w2
                then (case cmp_common ds1 ds2 of Inl r \<Rightarrow> r | Inr (ds1, ds2) \<Rightarrow> cmp_rest ds1 ds2)
                else cmp_rest ds1 ds2)))"

definition cmp_abs :: "numeric \<Rightarrow> numeric \<Rightarrow> int" where
  "cmp_abs v1 v2 = cmp_abs_common (digits v1) (weight v1) (digits v2) (weight v2)"

definition cmp_var_common ::
    "int list \<Rightarrow> int \<Rightarrow> int \<Rightarrow> int list \<Rightarrow> int \<Rightarrow> int \<Rightarrow> int" where
  "cmp_var_common ds1 w1 sign1 ds2 w2 sign2 =
     (if ds1 = [] then
        (if ds2 = [] then 0 else if sign2 = NUMERIC_NEG then 1 else -1)
      else if ds2 = [] then (if sign1 = NUMERIC_POS then 1 else -1)
      else if sign1 = NUMERIC_POS then
        (if sign2 = NUMERIC_NEG then 1 else cmp_abs_common ds1 w1 ds2 w2)
      else if sign2 = NUMERIC_POS then -1
      else cmp_abs_common ds2 w2 ds1 w1)"

definition cmp_var :: "numeric \<Rightarrow> numeric \<Rightarrow> int" where
  "cmp_var v1 v2 =
     cmp_var_common (digits v1) (weight v1) (sign v1) (digits v2) (weight v2) (sign v2)"

text \<open>The comparison operators go through \<open>numeric::cmp\<close>, which makes the same call.\<close>

definition numeric_cmp :: "numeric \<Rightarrow> numeric \<Rightarrow> int" where
  "numeric_cmp v1 v2 =
     cmp_var_common (digits v1) (weight v1) (sign v1) (digits v2) (weight v2) (sign v2)"

definition numeric_eq :: "numeric \<Rightarrow> numeric \<Rightarrow> bool" where
  "numeric_eq a b \<longleftrightarrow> numeric_cmp a b = 0"

definition numeric_ne :: "numeric \<Rightarrow> numeric \<Rightarrow> bool" where
  "numeric_ne a b \<longleftrightarrow> numeric_cmp a b \<noteq> 0"

definition numeric_lt :: "numeric \<Rightarrow> numeric \<Rightarrow> bool" where
  "numeric_lt a b \<longleftrightarrow> numeric_cmp a b < 0"

definition numeric_gt :: "numeric \<Rightarrow> numeric \<Rightarrow> bool" where
  "numeric_gt a b \<longleftrightarrow> numeric_cmp a b > 0"

definition numeric_le :: "numeric \<Rightarrow> numeric \<Rightarrow> bool" where
  "numeric_le a b \<longleftrightarrow> numeric_cmp a b \<le> 0"

definition numeric_ge :: "numeric \<Rightarrow> numeric \<Rightarrow> bool" where
  "numeric_ge a b \<longleftrightarrow> numeric_cmp a b \<ge> 0"

section \<open>The value of a numeric\<close>

text \<open>
  The rational number a \<open>numeric\<close> denotes, and the invariant its operations keep: every
  digit is below \<open>NBASE\<close> and the sign is one of the two signs of a number.
  \<open>num_norm\<close> is the normal form \<open>strip_var\<close> produces.
\<close>

definition absval :: "numeric \<Rightarrow> rat" where
  "absval v = of_int (bval NBASE (digits v)) * 10 powi (4 * (weight v + 1 - ndigits v))"

definition sgnval :: "numeric \<Rightarrow> rat" where
  "sgnval v = (if sign v = NUMERIC_NEG then -1 else 1)"

definition numval :: "numeric \<Rightarrow> rat" where
  "numval v = sgnval v * absval v"

definition num_ok :: "numeric \<Rightarrow> bool" where
  "num_ok v \<longleftrightarrow> digits_ok NBASE (digits v) \<and> (sign v = NUMERIC_POS \<or> sign v = NUMERIC_NEG)"

definition num_norm :: "numeric \<Rightarrow> bool" where
  "num_norm v \<longleftrightarrow>
     (if digits v = [] then weight v = 0 \<and> sign v = NUMERIC_POS
      else hd (digits v) \<noteq> 0 \<and> last (digits v) \<noteq> 0)"

lemma absval_nonneg: "digits_ok NBASE (digits v) \<Longrightarrow> 0 \<le> absval v"
  by (simp add: absval_def bval_nonneg)

lemma abs_numval: "digits_ok NBASE (digits v) \<Longrightarrow> \<bar>numval v\<bar> = absval v"
  by (simp add: numval_def sgnval_def abs_mult absval_nonneg)

lemma absval_scaled:
  "absval v * 10 powi r = of_int (bval NBASE (digits v)) * 10 powi (4 * (weight v + 1) + r - 4 * ndigits v)"
proof -
  have "4 * (weight v + 1) + r - 4 * ndigits v = 4 * (weight v + 1 - ndigits v) + r" by simp
  then show ?thesis unfolding absval_def by (simp only: powi_split mult.assoc)
qed

lemma absval_less: "digits_ok NBASE (digits v) \<Longrightarrow> absval v < 10 powi (4 * (weight v + 1))"
proof -
  assume "digits_ok NBASE (digits v)"
  then have "bval NBASE (digits v) < NBASE ^ length (digits v)" by (rule bval_less) simp
  then have "of_int (bval NBASE (digits v)) < (of_int (NBASE ^ length (digits v)) :: rat)"
    by (simp only: of_int_less_iff)
  also have "of_int (NBASE ^ length (digits v)) = (10::rat) powi (4 * ndigits v)"
    by (simp add: powi_nat ndigits_def nat_mult_distrib power_mult)
  finally have "absval v < 10 powi (4 * ndigits v) * 10 powi (4 * (weight v + 1 - ndigits v))"
    unfolding absval_def by (intro mult_strict_right_mono) simp_all
  also have "\<dots> = 10 powi (4 * (weight v + 1))"
    by (simp add: powi_split [symmetric] algebra_simps)
  finally show ?thesis .
qed

section \<open>strip\_var normalises and keeps the value\<close>

lemma strip_leading_props:
  assumes "strip_leading ds w = (ds', w')"
  shows "bval b ds' = bval b ds" and "w' - int (length ds') = w - int (length ds)"
    and "ds' \<noteq> [] \<Longrightarrow> hd ds' \<noteq> 0" and "\<exists>n. ds = replicate n 0 @ ds'"
proof -
  have "bval b ds' = bval b ds \<and> w' - int (length ds') = w - int (length ds) \<and>
    (ds' \<noteq> [] \<longrightarrow> hd ds' \<noteq> 0) \<and> (\<exists>n. ds = replicate n 0 @ ds')"
    using assms
  proof (induction ds w rule: strip_leading.induct)
    case (2 d ds w)
    show ?case
    proof (cases "d = 0")
      case True
      with 2 have IH: "bval b ds' = bval b ds" "w' - int (length ds') = w - 1 - int (length ds)"
        "ds' \<noteq> [] \<longrightarrow> hd ds' \<noteq> 0" "\<exists>n. ds = replicate n 0 @ ds'" by simp_all
      from IH(4) obtain n where "d # ds = replicate (Suc n) 0 @ ds'" using True by auto
      then have "\<exists>n. d # ds = replicate n 0 @ ds'" by blast
      with IH(1,2,3) True show ?thesis by simp
    next
      case False
      then have "d # ds = replicate 0 0 @ d # ds" by simp
      with 2 False show ?thesis by (auto simp del: replicate_0)
    qed
  qed (auto intro: exI [of _ 0])
  then show "bval b ds' = bval b ds" and "w' - int (length ds') = w - int (length ds)"
    and "ds' \<noteq> [] \<Longrightarrow> hd ds' \<noteq> 0" and "\<exists>n. ds = replicate n 0 @ ds'"
    by auto
qed

lemma strip_trailing_props:
  shows "\<exists>n. ds = strip_trailing ds @ replicate n 0"
    and "strip_trailing ds \<noteq> [] \<Longrightarrow> last (strip_trailing ds) \<noteq> 0"
proof -
  have "(\<exists>n. ds = strip_trailing ds @ replicate n 0) \<and>
    (strip_trailing ds \<noteq> [] \<longrightarrow> last (strip_trailing ds) \<noteq> 0)"
  proof (induction ds rule: strip_trailing.induct)
    case (1 ds)
    show ?case
    proof (cases "ds \<noteq> [] \<and> last ds = 0")
      case True
      with 1 obtain n where n: "butlast ds = strip_trailing (butlast ds) @ replicate n 0" by auto
      from True have "ds = butlast ds @ [0]" by (metis append_butlast_last_id)
      also have "\<dots> = strip_trailing (butlast ds) @ replicate (Suc n) 0"
        using n by (metis append.assoc replicate_Suc replicate_append_same)
      finally have "ds = strip_trailing (butlast ds) @ replicate (Suc n) 0" .
      moreover have "strip_trailing ds = strip_trailing (butlast ds)"
        using True by (simp add: strip_trailing.simps [of ds])
      ultimately have "\<exists>n. ds = strip_trailing ds @ replicate n 0" by metis
      with 1 True \<open>strip_trailing ds = strip_trailing (butlast ds)\<close> show ?thesis by simp
    next
      case False
      then have "strip_trailing ds = ds" by (auto simp: strip_trailing.simps [of ds])
      with False show ?thesis by (auto intro: exI [of _ 0])
    qed
  qed
  then show "\<exists>n. ds = strip_trailing ds @ replicate n 0"
    and "strip_trailing ds \<noteq> [] \<Longrightarrow> last (strip_trailing ds) \<noteq> 0" by auto
qed

lemma strip_trailing_hd: "strip_trailing ds \<noteq> [] \<Longrightarrow> hd (strip_trailing ds) = hd ds"
  by (metis hd_append2 strip_trailing_props(1))

lemma dscale_strip_var [simp]: "dscale (strip_var v) = dscale v"
  by (simp add: strip_var_def Let_def split: prod.split)

lemma strip_var_norm: "num_norm (strip_var v)"
proof -
  obtain ds w where s: "strip_leading (digits v) (weight v) = (ds, w)" by fastforce
  show ?thesis
  proof (cases "strip_trailing ds = []")
    case False
    then have "ds \<noteq> []" by (metis append_is_Nil_conv strip_trailing_props(1) strip_trailing.simps)
    with s False strip_leading_props(3) [OF s] strip_trailing_props(2) [of ds] strip_trailing_hd [of ds]
    show ?thesis by (simp add: strip_var_def num_norm_def Let_def)
  qed (use s in \<open>simp add: strip_var_def num_norm_def Let_def\<close>)
qed

lemma absval_strip_var [simp]: "absval (strip_var v) = absval v"
proof -
  obtain ds w where s: "strip_leading (digits v) (weight v) = (ds, w)" by fastforce
  obtain n where n: "ds = strip_trailing ds @ replicate n 0" using strip_trailing_props(1) by blast
  have bv: "bval NBASE (digits v) = bval NBASE (strip_trailing ds) * NBASE ^ n"
    using strip_leading_props(1) [OF s, of NBASE] n bval_append [of NBASE "strip_trailing ds" "replicate n 0"]
    by simp
  have w: "weight v - ndigits v = w - int (length (strip_trailing ds)) - int n"
    using strip_leading_props(2) [OF s] arg_cong [OF n, of length] by (simp add: ndigits_def)
  have p: "(of_int (NBASE ^ n) :: rat) = 10 powi (4 * int n)"
    by (simp add: powi_nat nat_mult_distrib power_mult)
  have "absval v = of_int (bval NBASE (strip_trailing ds)) *
     (10 powi (4 * int n) * 10 powi (4 * (weight v + 1 - ndigits v)))"
    unfolding absval_def bv of_int_mult p by simp
  also have "\<dots> = of_int (bval NBASE (strip_trailing ds)) * 10 powi (4 * (w + 1 - int (length (strip_trailing ds))))"
    unfolding powi_split [symmetric] using w by (intro arg_cong2 [where f = "(*)"] arg_cong [where f = "\<lambda>e. 10 powi e"]) simp_all
  finally have "absval v = \<dots>" .
  then show ?thesis using s by (simp add: strip_var_def absval_def ndigits_def Let_def)
qed

lemma absval_0_sgn: "digits_ok NBASE (digits v) \<Longrightarrow> digits (strip_var v) = [] \<Longrightarrow> absval v = 0"
  by (metis absval_def absval_strip_var bval.simps(1) mult_zero_left of_int_0)

lemma sign_strip_var: "digits (strip_var v) \<noteq> [] \<Longrightarrow> sign (strip_var v) = sign v"
  by (auto simp: strip_var_def Let_def split: prod.splits if_splits)

lemma numval_strip_var [simp]: "numval (strip_var v) = numval v"
proof (cases "digits (strip_var v) = []")
  case True
  then have "absval (strip_var v) = 0" by (simp add: absval_def)
  then show ?thesis by (simp add: numval_def)
next
  case False
  then show ?thesis by (simp add: numval_def sgnval_def sign_strip_var)
qed

lemma digits_ok_strip_var: "digits_ok NBASE (digits v) \<Longrightarrow> digits_ok NBASE (digits (strip_var v))"
proof -
  obtain ds w where s: "strip_leading (digits v) (weight v) = (ds, w)" by fastforce
  obtain n m where "digits v = replicate m 0 @ ds" "ds = strip_trailing ds @ replicate n 0"
    using strip_leading_props(4) [OF s] strip_trailing_props(1) by blast
  moreover assume "digits_ok NBASE (digits v)"
  ultimately have "digits_ok NBASE (strip_trailing ds)" by (metis digits_ok_simps(3))
  then show ?thesis using s by (simp add: strip_var_def Let_def)
qed

lemma num_ok_strip_var: "num_ok v \<Longrightarrow> num_ok (strip_var v)"
  using digits_ok_strip_var [of v] sign_strip_var [of v] strip_var_norm [of v]
  by (auto simp: num_ok_def num_norm_def split: if_splits)

section \<open>round\_var rounds half away from zero\<close>

lemma bval_update:
  "k < length ds \<Longrightarrow> bval b (ds[k := x]) = bval b ds + (x - ds ! k) * b ^ (length ds - 1 - k)"
proof (induction ds arbitrary: k)
  case (Cons d ds)
  show ?case
  proof (cases k)
    case (Suc j)
    with Cons have "bval b (ds[j := x]) = bval b ds + (x - ds ! j) * b ^ (length ds - 1 - j)" by simp
    with Suc Cons.prems show ?thesis by simp
  qed (simp add: algebra_simps)
qed simp

lemma digits_ok_update: "digits_ok b ds \<Longrightarrow> 0 \<le> x \<Longrightarrow> x < b \<Longrightarrow> digits_ok b (ds[k := x])"
  by (auto simp: digits_ok_def dest: subsetD [OF set_update_subset_insert])

lemma carry_loop_props:
  assumes "carry_loop c k buf = (k', buf')" and "digits_ok NBASE buf" and "k \<le> length buf"
    and "buf \<noteq> []" and "buf ! 0 = 0" and "c = 0 \<or> c = 1 \<and> 0 < k"
  shows "length buf' = length buf \<and> digits_ok NBASE buf' \<and>
    bval NBASE buf' = bval NBASE buf + c * NBASE ^ (length buf - k) \<and>
    (k' = 0 \<longrightarrow> k = 0 \<or> buf' ! 0 = 1) \<and> (k' \<noteq> 0 \<longrightarrow> buf' ! 0 = 0)"
  using assms
proof (induction c k buf rule: carry_loop.induct)
  case (2 c k buf)
  show ?case
  proof (cases "c = 0")
    case False
    with "2.prems" have c: "c = 1" and k: "k < length buf" by auto
    have d: "0 \<le> buf ! k" "buf ! k < NBASE" using "2.prems" k digits_ok_nth by blast+
    have pow: "NBASE ^ (length buf - k) = NBASE * NBASE ^ (length buf - Suc k)"
      using k by (simp add: Suc_diff_Suc [symmetric])
    show ?thesis
    proof (cases "1 + buf ! k \<ge> NBASE")
      case True
      with d have e: "buf ! k = NBASE - 1" by simp
      with "2.prems" have k0: "0 < k" by (cases k) auto
      let ?b = "buf[k := 1 + buf ! k - NBASE]"
      have r: "carry_loop 1 k ?b = (k', buf')" using "2.prems" c True by simp
      have "length buf' = length ?b \<and> digits_ok NBASE buf' \<and>
        bval NBASE buf' = bval NBASE ?b + 1 * NBASE ^ (length ?b - k) \<and>
        (k' = 0 \<longrightarrow> k = 0 \<or> buf' ! 0 = 1) \<and> (k' \<noteq> 0 \<longrightarrow> buf' ! 0 = 0)"
        using "2.IH"(1) [OF False refl] "2.prems" c True k k0 e r by (simp add: digits_ok_update)
      then show ?thesis using k0 k pow c e by (simp add: bval_update)
    next
      case True: False
      let ?b = "buf[k := 1 + buf ! k]"
      have r: "(k', buf') = (k, ?b)" using "2.prems" c True by (cases k) auto
      show ?thesis
        using r c k d True "2.prems" by (cases k) (auto simp: bval_update digits_ok_update)
    qed
  qed (use "2.prems" in auto)
qed auto

lemma round_powers_pow: "0 < di \<Longrightarrow> di < 4 \<Longrightarrow> round_powers ! di = 10 ^ (4 - di)"
proof -
  assume "0 < di" "di < 4"
  then consider "di = 1" | "di = 2" | "di = 3" by linarith
  then show ?thesis by cases (simp_all add: round_powers_def numeral_2_eq_2 numeral_3_eq_3)
qed

lemma div_unique_int: "0 \<le> r \<Longrightarrow> r < (b::int) \<Longrightarrow> (q * b + r) div b = q"
  by (simp add: div_add1_eq)

lemma round_half_digit:
  assumes "0 \<le> x" "x < p" "even p" "0 < m" "0 \<le> l" "l < (m::int)"
  shows "((q * p + x) * m + l + p div 2 * m) div (p * m) = (if p div 2 \<le> x then q + 1 else q)"
proof -
  obtain h where h: "p = 2 * h" using assms(3) by (elim evenE)
  show ?thesis
  proof (cases "h \<le> x")
    case True
    have "(x - h) * m + l < (x - h + 1) * m" using assms by (simp add: algebra_simps)
    also have "\<dots> \<le> p * m" using assms h by (intro mult_right_mono) auto
    finally have lt: "(x - h) * m + l < p * m" .
    have nn: "0 \<le> (x - h) * m + l" using assms True by simp
    have eq: "(q * p + x) * m + l + h * m = (q + 1) * (p * m) + ((x - h) * m + l)"
      using h by (simp add: algebra_simps)
    have "((q * p + x) * m + l + h * m) div (p * m) = q + 1"
      unfolding eq by (rule div_unique_int [OF nn lt])
    then show ?thesis using True h by simp
  next
    case False
    then have "(x + 1) * m \<le> h * m" using assms by (intro mult_right_mono) auto
    then have lt: "x * m + l + h * m < p * m" using assms h by (simp add: algebra_simps)
    have nn: "0 \<le> x * m + l + h * m" using assms h by simp
    have eq: "(q * p + x) * m + l + h * m = q * (p * m) + (x * m + l + h * m)"
      by (simp add: algebra_simps)
    have "((q * p + x) * m + l + h * m) div (p * m) = q"
      unfolding eq by (rule div_unique_int [OF nn lt])
    then show ?thesis using False h by simp
  qed
qed

text \<open>
  What \<open>round_last\<close> hands to the carry loop: the buffer, with the pending carry added, is the
  rounded quotient at the requested decimal position, first when the position is the end of a
  base-10000 digit, then when it is inside the last kept digit.
\<close>

lemma round_last_aligned:
  assumes ok: "digits_ok NBASE ds" and nd: "nd < length ds"
  defines "e \<equiv> 4 * (length ds - nd)"
  shows "(bval NBASE ds + 5 * 10 ^ (e - 1)) div 10 ^ e
    = bval NBASE (take nd ds) + (if HALF_NBASE \<le> ds ! nd then 1 else 0)"
proof -
  let ?H = "bval NBASE (take nd ds)" and ?L = "bval NBASE (drop (Suc nd) ds)"
    and ?m = "NBASE ^ (length ds - Suc nd)" and ?d = "ds ! nd"
  have spl: "bval NBASE ds = (?H * NBASE + ?d) * ?m + ?L"
    using bval_split [of NBASE ds "Suc nd"] nd by (simp add: take_Suc_conv_app_nth)
  have L: "0 \<le> ?L" "?L < ?m"
    using ok bval_less [of NBASE "drop (Suc nd) ds"] by (auto intro: bval_nonneg)
  have d: "0 \<le> ?d" "?d < NBASE" using ok nd digits_ok_nth by auto
  have e': "e = Suc (4 * (length ds - Suc nd) + 3)" using nd by (simp add: e_def)
  have p: "10 ^ e = NBASE * ?m" and h: "5 * 10 ^ (e - 1) = NBASE div 2 * ?m"
    unfolding e' by (simp_all add: power_add power_mult)
  have "(bval NBASE ds + 5 * 10 ^ (e - 1)) div 10 ^ e = (if NBASE div 2 \<le> ?d then ?H + 1 else ?H)"
    unfolding p h spl using d L by (intro round_half_digit) simp_all
  then show ?thesis by simp
qed

lemma round_pow_cases: "0 < dm \<Longrightarrow> dm < 4 \<Longrightarrow> (10::int) ^ (4 - dm) \<in> {1000, 100, 10}"
proof -
  assume "0 < dm" "dm < 4"
  then consider "dm = 1" | "dm = 2" | "dm = 3" by linarith
  then show ?thesis by cases simp_all
qed

lemma round_cell_le:
  fixes p b d :: int
  assumes "p dvd b" and "0 < p" and "d < b"
  shows "p + (d - d mod p) \<le> b"
proof -
  obtain q where q: "b = p * q" using assms(1) by (elim dvdE)
  have "d div p < q"
  proof (rule ccontr)
    assume "\<not> d div p < q"
    then have "p * q \<le> p * (d div p)" using assms(2) by (intro mult_left_mono) auto
    moreover have "p * (d div p) \<le> d" using assms(2) by (simp add: minus_mod_eq_mult_div [symmetric])
    ultimately have "b \<le> d" by (simp add: q)
    with assms(3) show False by simp
  qed
  then have "p * (d div p + 1) \<le> p * q" using assms(2) by (intro mult_left_mono) auto
  then show ?thesis by (simp add: q minus_mod_eq_mult_div algebra_simps)
qed

lemma round_last_within:
  assumes ok: "digits_ok NBASE ds" and i: "i < length ds" and dm: "0 < dm" "dm < 4"
  defines "e \<equiv> 4 * (length ds - Suc i) + (4 - dm)" and "p \<equiv> 10 ^ (4 - dm)"
  shows "(bval NBASE ds + 5 * 10 ^ (e - 1)) div 10 ^ e * p =
    bval NBASE (take i ds) * NBASE + (ds ! i - ds ! i mod p) + (if p div 2 \<le> ds ! i mod p then p else 0)"
proof -
  have p: "p \<in> {1000, 100, 10}" using dm by (simp only: p_def round_pow_cases)
  let ?H = "bval NBASE (take i ds)" and ?L = "bval NBASE (drop (Suc i) ds)"
    and ?m = "NBASE ^ (length ds - Suc i)" and ?d = "ds ! i"
  have spl: "bval NBASE ds = (?H * NBASE + ?d) * ?m + ?L"
    using bval_split [of NBASE ds "Suc i"] i by (simp add: take_Suc_conv_app_nth)
  have L: "0 \<le> ?L" "?L < ?m"
    using ok bval_less [of NBASE "drop (Suc i) ds"] by (auto intro: bval_nonneg)
  have e': "e = Suc (4 * (length ds - Suc i) + (3 - dm))" using dm by (simp add: e_def)
  have pe: "10 ^ e = p * ?m" by (simp add: e_def p_def power_add power_mult mult.commute)
  have h: "5 * 10 ^ (e - 1) = p div 2 * ?m"
    unfolding e' p_def by (simp add: power_add power_mult) (use dm in \<open>auto simp: less_Suc_eq numeral_eq_Suc\<close>)
  have q: "?H * NBASE + ?d = (?H * (NBASE div p) + ?d div p) * p + ?d mod p"
    using p by (auto simp: algebra_simps)
  have "(bval NBASE ds + 5 * 10 ^ (e - 1)) div 10 ^ e =
      (if p div 2 \<le> ?d mod p then ?H * (NBASE div p) + ?d div p + 1 else ?H * (NBASE div p) + ?d div p)"
    unfolding pe h spl q using p L by (intro round_half_digit) auto
  moreover have "?d - ?d mod p = ?d div p * p" by (simp add: minus_mod_eq_div_mult)
  moreover have "?H * NBASE = ?H * (NBASE div p) * p" using p by auto
  ultimately show ?thesis by (simp add: algebra_simps)
qed

lemma round_last_props:
  assumes ok: "digits_ok NBASE ds" and nd: "nd < length ds \<or> nd = length ds \<and> 0 < dm"
    and dm: "dm < 4" "0 < dm \<Longrightarrow> 0 < nd"
    and r: "round_last ds nd dm = (c, k, buf)"
    and e: "e = 4 * (length ds - nd) + (if dm = 0 then 0 else 4 - dm)"
  shows "digits_ok NBASE buf \<and> length buf = nd + 1 \<and> buf ! 0 = 0 \<and> k \<le> length buf \<and>
    (c = 0 \<or> c = 1) \<and> 0 < k \<and> bval NBASE buf + c * NBASE ^ (length buf - k) =
      (bval NBASE ds + 5 * 10 ^ (e - 1)) div 10 ^ e * 10 ^ (if dm = 0 then 0 else 4 - dm)"
proof (cases "dm = 0")
  case True
  then show ?thesis using r nd ok e round_last_aligned [of ds nd]
    by (auto simp: round_last_def Let_def split: if_splits)
next
  case False
  define i where "i = nd - 1"
  define p where "p = (10::int) ^ (4 - dm)"
  have i: "nd = Suc i" "i < length ds" using False nd dm by (auto simp: i_def)
  have p: "p \<in> {1000, 100, 10}" and rp: "round_powers ! dm = p"
    using False dm by (simp_all only: p_def round_pow_cases round_powers_pow)
  have d: "0 \<le> ds ! i" "ds ! i < NBASE" using ok i digits_ok_nth by auto
  have buf: "(0 # take nd ds)[nd := y] = 0 # take i ds @ [y]" for y
    using i by (simp add: take_Suc_conv_app_nth list_update_append)
  have le: "p + (ds ! i - ds ! i mod p) \<le> NBASE" using p d by (intro round_cell_le) auto
  have ex: "(ds ! i) smod p = ds ! i mod p" and hf: "p sdiv 2 = p div 2"
    using p d by (auto simp: smod_nonneg sdiv_nonneg)
  have Q: "(bval NBASE ds + 5 * 10 ^ (e - 1)) div 10 ^ e * p =
    bval NBASE (take i ds) * NBASE + (ds ! i - ds ! i mod p) + (if p div 2 \<le> ds ! i mod p then p else 0)"
    using round_last_within [OF ok i(2), of dm] False dm e i by (simp add: p_def)
  define y where "y = ds ! i - ds ! i mod p"
  have m: "0 \<le> y" "y < NBASE" "p + y \<le> NBASE" "0 < p"
    using p d le zmod_le_nonneg_dividend [of "ds ! i" p] by (auto simp: y_def)
  have "(c, k, buf) =
     (if p div 2 \<le> ds ! i mod p
      then if p + y \<ge> NBASE then (1, nd, 0 # take i ds @ [p + y - NBASE])
           else (0, nd, 0 # take i ds @ [p + y])
      else (0, nd, 0 # take i ds @ [y]))"
    using False unfolding r [symmetric] round_last_def Let_def rp buf
    by (simp only: i(1) diff_Suc_1 ex hf y_def) (simp add: buf [unfolded i(1)] i(1))
  then show ?thesis
    using False i m Q ok unfolding y_def [symmetric] p_def [symmetric]
    by (simp add: p_def [symmetric] split: if_splits)
qed

text \<open>
  The two sides of \<open>round_var\<close>: digits are dropped and the kept ones rounded, or nothing is
  dropped because the value has no digits beyond the requested position.
\<close>

lemma round_quot_powi:
  assumes "e = nat (n - di)" and "di < n"
  shows "round (of_int a * (10::rat) powi (di - n)) = (a + 5 * 10 ^ (e - 1)) div 10 ^ e"
proof -
  have "of_int a * (10::rat) powi (di - n) = of_int a / of_int (10 ^ e)"
    using assms by (simp add: powi_neg)
  then show ?thesis using assms round_quot [of e a] by simp
qed

lemma integral_powi:
  "0 \<le> k \<Longrightarrow> (of_int a * (10::rat) powi k) = of_int (a * 10 ^ nat k)"
  by (simp add: powi_nat)

lemma powi_cancel [simp]: "(10::rat) powi a * 10 powi (- a) = 1" "(10::rat) powi (- a) * 10 powi a = 1"
  by (simp_all add: power_int_minus)

text \<open>The shape of \<open>di\<close> in \<open>round_var\<close> and \<open>trunc_var\<close>.\<close>

lemma di_shape:
  fixes di :: int
  assumes "0 \<le> di"
  defines "nd \<equiv> (di + DEC_DIGITS - 1) sdiv DEC_DIGITS" and "dm \<equiv> di smod DEC_DIGITS"
  shows "0 \<le> nd" and "0 \<le> dm" and "dm < 4" and "0 < dm \<Longrightarrow> 0 < nd"
    and "di = 4 * nd - (if dm = 0 then 0 else 4 - dm)"
proof -
  have "nd = (di + 3) div 4" "dm = di mod 4"
    using assms(1) by (simp_all add: nd_def dm_def sdiv_nonneg smod_nonneg)
  then show "0 \<le> nd" and "0 \<le> dm" and "dm < 4" and "0 < dm \<Longrightarrow> 0 < nd"
    and "di = 4 * nd - (if dm = 0 then 0 else 4 - dm)"
    using assms(1) by (simp_all, presburger+)
qed

lemma absval_kept:
  assumes "absval v' = of_int b * 10 powi (4 * (weight v + 1 - nd))"
    and "b = q * 10 ^ k" and "(weight v + 1) * DEC_DIGITS + r = 4 * nd - int k"
  shows "absval v' = of_int q * 10 powi (- r)"
proof -
  have "- r = int k + 4 * (weight v + 1 - nd)" using assms(3) by simp
  then show ?thesis using assms(1,2) by (simp only: powi_split) (simp add: powi_nat)
qed

lemma round_scaled:
  assumes "di = (weight v + 1) * DEC_DIGITS + r"
  shows "absval v * 10 powi r = of_int (bval NBASE (digits v)) * 10 powi (di - 4 * ndigits v)"
  unfolding absval_scaled assms by (simp add: algebra_simps)

lemma keep_integral:
  assumes di: "di = (weight v + 1) * DEC_DIGITS + r" and "4 * ndigits v \<le> di"
  shows "absval v * 10 powi r \<in> \<int>"
    and "absval v * 10 powi r * 10 powi (- r) = absval v"
proof -
  have "absval v * 10 powi r = of_int (bval NBASE (digits v) * 10 ^ nat (di - 4 * ndigits v))"
    unfolding round_scaled [OF di] using assms by (intro integral_powi) simp
  then show "absval v * 10 powi r \<in> \<int>" by simp
  show "absval v * 10 powi r * 10 powi (- r) = absval v"
    by (simp only: mult.assoc powi_cancel mult_1_right)
qed

lemma round_drop:
  assumes ok: "digits_ok NBASE (digits v)" and di: "di = (weight v + 1) * DEC_DIGITS + r" "0 \<le> di"
    and nd: "nd = (di + DEC_DIGITS - 1) sdiv DEC_DIGITS" and dm: "dm = di smod DEC_DIGITS"
    and drop: "nd < ndigits v \<or> (nd = ndigits v \<and> dm > 0)"
    and rl: "round_last (digits v) (nat nd) (nat dm) = (c, k, buf)" and cl: "carry_loop c k buf = (k', buf')"
  shows "digits_ok NBASE buf'" and "int (length buf') = nd + 1"
    and "k' = 0 \<or> buf' ! 0 = 0"
    and "of_int (bval NBASE buf') * 10 powi (4 * (weight v + 1 - nd)) =
      (of_int (round (absval v * 10 powi r)) * 10 powi (- r) :: rat)"
proof -
  let ?A = "bval NBASE (digits v)"
  note sh = di_shape [OF di(2), folded nd dm]
  define z where "z = (if nat dm = 0 then 0 else 4 - nat dm)"
  define e where "e = 4 * (length (digits v) - nat nd) + z"
  have pre: "nat nd < length (digits v) \<or> nat nd = length (digits v) \<and> 0 < nat dm" "nat dm < 4"
    "0 < nat dm \<Longrightarrow> 0 < nat nd"
    using sh drop by (auto simp: ndigits_def)
  have rp: "digits_ok NBASE buf" "length buf = nat nd + 1" "buf ! 0 = 0" "k \<le> length buf"
    "c = 0 \<or> c = 1" "0 < k" "bval NBASE buf + c * NBASE ^ (length buf - k) =
      (?A + 5 * 10 ^ (e - 1)) div 10 ^ e * 10 ^ z"
    using round_last_props [OF ok pre rl e_def [unfolded z_def]] unfolding z_def by blast+
  have cp: "length buf' = nat nd + 1" "digits_ok NBASE buf'" "k' = 0 \<or> buf' ! 0 = 0"
    "bval NBASE buf' = (?A + 5 * 10 ^ (e - 1)) div 10 ^ e * 10 ^ z"
    using carry_loop_props [OF cl rp(1,4) _ rp(3)] rp(2,5,6,7) by (cases "buf = []"; auto)+
  then show "digits_ok NBASE buf'" and "int (length buf') = nd + 1" and "k' = 0 \<or> buf' ! 0 = 0"
    using sh(1) by auto
  have diz: "di = 4 * nd - int z" using sh by (auto simp: z_def)
  have "e = nat (4 * ndigits v - di)" "di < 4 * ndigits v"
    using drop sh diz by (auto simp: e_def ndigits_def z_def)
  then have Q: "round (absval v * 10 powi r) = (?A + 5 * 10 ^ (e - 1)) div 10 ^ e"
    unfolding round_scaled [OF di(1)] by (rule round_quot_powi)
  have "- r = int z + 4 * (weight v + 1 - nd)" using di diz by simp
  then show "of_int (bval NBASE buf') * 10 powi (4 * (weight v + 1 - nd)) =
      (of_int (round (absval v * 10 powi r)) * 10 powi (- r) :: rat)"
    unfolding Q cp(4) by (simp only: powi_split) (simp add: powi_nat)
qed

lemma round_tiny:
  assumes ok: "digits_ok NBASE (digits v)" and di: "di = (weight v + 1) * DEC_DIGITS + r" "di < 0"
  shows "round (absval v * 10 powi r) = 0"
proof -
  have "absval v * 10 powi r < 10 powi (4 * (weight v + 1)) * 10 powi r"
    using absval_less [OF ok] by (intro mult_strict_right_mono) simp_all
  also have "\<dots> = 10 powi di" unfolding powi_split [symmetric] di by (simp add: algebra_simps)
  also have "\<dots> \<le> 10 powi (-1)" using di by (intro power_int_increasing) auto
  finally show ?thesis
    using absval_nonneg [OF ok] by (simp add: round_def floor_eq_iff power_int_minus)
qed

lemma absval_round_var:
  assumes ok: "digits_ok NBASE (digits v)"
  shows "absval (round_var v r) = of_int (round (absval v * 10 powi r)) * 10 powi (- r)
    \<and> digits_ok NBASE (digits (round_var v r))"
proof -
  define di where "di = (weight v + 1) * DEC_DIGITS + r"
  define nd where "nd = (di + DEC_DIGITS - 1) sdiv DEC_DIGITS"
  define dm where "dm = di smod DEC_DIGITS"
  note rv = round_var_def [of v r, unfolded Let_def, folded di_def, folded nd_def dm_def]
  consider "di < 0" | "0 \<le> di" "nd < ndigits v \<or> (nd = ndigits v \<and> dm > 0)"
    | "0 \<le> di" "\<not> (nd < ndigits v \<or> (nd = ndigits v \<and> dm > 0))" by linarith
  then show ?thesis
  proof cases
    case 1
    then have "absval (round_var v r) = 0 \<and> digits (round_var v r) = []" by (simp add: rv absval_def)
    with round_tiny [OF ok di_def 1] show ?thesis by simp
  next
    case 2
    obtain c k buf where rl: "round_last (digits v) (nat nd) (nat dm) = (c, k, buf)" by (metis prod_cases3)
    obtain k' buf' where cl: "carry_loop c k buf = (k', buf')" by fastforce
    note rd = round_drop [OF ok di_def 2(1) nd_def dm_def 2(2) rl cl]
    obtain b bs where b: "buf' = b # bs" using rd(2) di_shape(1) [OF 2(1)] by (cases buf') (auto simp: nd_def)
    have r: "round_var v r = (if k' = 0 then v\<lparr>dscale := r, digits := buf', weight := weight v + 1\<rparr>
        else v\<lparr>dscale := r, digits := tl buf'\<rparr>)"
      using 2 rl cl by (simp add: rv)
    have "absval (round_var v r) = of_int (bval NBASE buf') * 10 powi (4 * (weight v + 1 - nd))"
      using rd(2,3) b by (auto simp: r absval_def ndigits_def algebra_simps)
    moreover have "digits_ok NBASE (digits (round_var v r))" using rd(1) b by (auto simp: r)
    ultimately show ?thesis by (simp only: rd(4))
  next
    case 3
    then have "4 * ndigits v \<le> di" using di_shape [OF 3(1), folded nd_def dm_def] by auto
    note ki = keep_integral [OF di_def this]
    have "round_var v r = v\<lparr>dscale := r\<rparr>" unfolding rv using 3 by auto
    moreover have "of_int (round (absval v * 10 powi r)) = absval v * 10 powi r"
      using ki(1) by (auto elim!: Ints_cases)
    ultimately show ?thesis using ok ki(2) by (simp add: absval_def ndigits_def)
  qed
qed

lemma sgnval_numval: "sgnval v * absval v = numval v" "sgnval v * sgnval v = 1"
  by (simp_all add: numval_def sgnval_def)

lemma dscale_round_var [simp]: "dscale (round_var v r) = r"
  by (simp add: round_var_def Let_def split: prod.split)

lemma sign_round_var: "sign (round_var v r) = sign v \<or> absval (round_var v r) = 0 \<and> sign (round_var v r) = NUMERIC_POS"
  by (auto simp: round_var_def Let_def absval_def split: prod.split)

lemma numval_of_absval: "sign v' = sign v \<or> absval v' = 0 \<and> sign v' = NUMERIC_POS \<Longrightarrow> numval v' = sgnval v * absval v'"
  by (auto simp: numval_def sgnval_def)

lemma num_ok_round_var: "num_ok v \<Longrightarrow> num_ok (round_var v r)"
  using absval_round_var [of v r] sign_round_var [of v r] by (auto simp: num_ok_def)

lemma numval_round_var:
  "num_ok v \<Longrightarrow> numval (round_var v r) = sgnval v * (of_int (round (absval v * 10 powi r)) * 10 powi (- r))"
  using absval_round_var [of v r] numval_of_absval [OF sign_round_var, of v r] by (simp add: num_ok_def)

section \<open>trunc\_var truncates towards zero\<close>

lemma floor_quot_powi:
  assumes "e = nat (n - di)" and "di \<le> n"
  shows "\<lfloor>of_int a * (10::rat) powi (di - n)\<rfloor> = a div 10 ^ e"
proof -
  have "of_int a * (10::rat) powi (di - n) = of_int a / of_int (10 ^ e)"
    using assms by (simp add: powi_neg)
  then show ?thesis by (simp only: floor_divide_of_int_eq)
qed

lemma trunc_within:
  assumes ok: "digits_ok NBASE ds" and i: "i < length ds" and dm: "0 < dm" "dm < 4"
  defines "e \<equiv> 4 * (length ds - Suc i) + (4 - dm)" and "p \<equiv> 10 ^ (4 - dm)"
  shows "bval NBASE ds div 10 ^ e * p = bval NBASE (take i ds @ [ds ! i - ds ! i mod p])"
proof -
  have p: "p \<in> {1000, 100, 10}" using dm by (simp only: p_def round_pow_cases)
  let ?H = "bval NBASE (take i ds)" and ?d = "ds ! i"
  have "bval NBASE ds div 10 ^ e = bval NBASE ds div NBASE ^ (length ds - Suc i) div p"
    by (simp add: e_def p_def power_add power_mult zdiv_zmult2_eq)
  also have "\<dots> = (?H * NBASE + ?d) div p"
    using bval_take_div [of NBASE ds "Suc i"] ok i by (simp add: take_Suc_conv_app_nth)
  also have "?H * NBASE + ?d = ?d + ?H * (NBASE div p) * p" using p by auto
  also have "(?d + ?H * (NBASE div p) * p) div p = ?H * (NBASE div p) + ?d div p"
    using p by (subst div_mult_self1) auto
  finally have "bval NBASE ds div 10 ^ e * p = ?H * (NBASE div p * p) + ?d div p * p"
    by (simp add: algebra_simps)
  moreover have "?d - ?d mod p = ?d div p * p" by (simp add: minus_mod_eq_div_mult)
  ultimately show ?thesis using p by auto
qed

lemma trunc_digits:
  assumes ok: "digits_ok NBASE (digits v)" and di: "di = (weight v + 1) * DEC_DIGITS + r" "0 < di"
    and nd: "nd = (di + DEC_DIGITS - 1) sdiv DEC_DIGITS" and dm: "dm = di smod DEC_DIGITS"
    and drop: "nd \<le> ndigits v"
    and z: "z = (if nat dm = 0 then 0 else 4 - nat dm)" and e: "e = 4 * (length (digits v) - nat nd) + z"
    and ds: "ds = digits (trunc_var v r)"
  shows "digits_ok NBASE ds \<and> int (length ds) = nd \<and>
    bval NBASE ds = bval NBASE (digits v) div 10 ^ e * 10 ^ z"
proof -
  have "0 \<le> di" using di(2) by simp
  note sh = di_shape [OF this, folded nd dm]
  note tv = trunc_var_def [of v r, unfolded Let_def, folded di(1), folded nd dm]
  show ?thesis
  proof (cases "dm = 0")
    case True
    have "bval NBASE (digits v) div 10 ^ e = bval NBASE (take (nat nd) (digits v))"
      using bval_take_div [of NBASE "digits v" "nat nd"] ok True by (simp add: e z power_mult)
    then show ?thesis using di drop True sh ok by (simp add: ds tv z ndigits_def)
  next
    case False
    define i where "i = nat nd - 1"
    define p where "p = (10::int) ^ (4 - nat dm)"
    have i: "nat nd = Suc i" "i < length (digits v)" "0 < nat dm" "nat dm < 4" "nd = int (Suc i)"
      using sh drop False by (auto simp: i_def ndigits_def)
    have d: "0 \<le> digits v ! i" "digits v ! i < NBASE" "0 < p" using ok i digits_ok_nth by (auto simp: p_def)
    have "ds = (take (Suc i) (digits v))[i := digits v ! i - (digits v ! i) smod p]"
      using di drop False sh i by (simp add: ds tv round_powers_pow p_def)
    then have ds': "ds = take i (digits v) @ [digits v ! i - digits v ! i mod p]"
      using i d by (simp add: take_Suc_conv_app_nth list_update_append smod_nonneg)
    have "bval NBASE (digits v) div 10 ^ e * p = bval NBASE ds"
      using trunc_within [OF ok i(2-4)] i(1,3) by (simp add: ds' e z p_def)
    moreover have "0 \<le> digits v ! i - digits v ! i mod p" "digits v ! i - digits v ! i mod p < NBASE"
      using d zmod_le_nonneg_dividend [of "digits v ! i" p] pos_mod_sign [of p "digits v ! i"] by linarith+
    ultimately show ?thesis using ds' ok i(2,3,5) by (simp add: z p_def)
  qed
qed

lemma trunc_drop:
  assumes ok: "digits_ok NBASE (digits v)" and di: "di = (weight v + 1) * DEC_DIGITS + r" "0 < di"
    and nd: "nd = (di + DEC_DIGITS - 1) sdiv DEC_DIGITS" and dm: "dm = di smod DEC_DIGITS"
    and drop: "nd \<le> ndigits v" and ds: "ds = digits (trunc_var v r)"
  shows "digits_ok NBASE ds" and "int (length ds) = nd"
    and "of_int (bval NBASE ds) * 10 powi (4 * (weight v + 1 - nd)) =
      (of_int \<lfloor>absval v * 10 powi r\<rfloor> * 10 powi (- r) :: rat)"
proof -
  have "0 \<le> di" using di(2) by simp
  note sh = di_shape [OF this, folded nd dm]
  define z where "z = (if nat dm = 0 then 0 else 4 - nat dm)"
  define e where "e = 4 * (length (digits v) - nat nd) + z"
  note td = trunc_digits [OF ok di nd dm drop z_def e_def ds]
  from td show "digits_ok NBASE ds" and "int (length ds) = nd" by auto
  have diz: "di = 4 * nd - int z" using sh by (auto simp: z_def)
  have "e = nat (4 * ndigits v - di)" "di \<le> 4 * ndigits v"
    using drop sh diz by (auto simp: e_def ndigits_def z_def)
  then have "\<lfloor>absval v * 10 powi r\<rfloor> = bval NBASE (digits v) div 10 ^ e"
    unfolding round_scaled [OF di(1)] by (rule floor_quot_powi)
  moreover have "- r = int z + 4 * (weight v + 1 - nd)" using di diz by simp
  ultimately show "of_int (bval NBASE ds) * 10 powi (4 * (weight v + 1 - nd)) =
      (of_int \<lfloor>absval v * 10 powi r\<rfloor> * 10 powi (- r) :: rat)"
    using td by (simp only: powi_split) (simp add: powi_nat)
qed

lemma absval_trunc_var:
  assumes ok: "digits_ok NBASE (digits v)"
  shows "absval (trunc_var v r) = of_int \<lfloor>absval v * 10 powi r\<rfloor> * 10 powi (- r)
    \<and> digits_ok NBASE (digits (trunc_var v r))"
proof -
  define di where "di = (weight v + 1) * DEC_DIGITS + r"
  define nd where "nd = (di + DEC_DIGITS - 1) sdiv DEC_DIGITS"
  define dm where "dm = di smod DEC_DIGITS"
  note tv = trunc_var_def [of v r, unfolded Let_def, folded di_def, folded nd_def dm_def]
  consider "di \<le> 0" | "0 < di" "nd \<le> ndigits v" | "0 < di" "ndigits v < nd" by linarith
  then show ?thesis
  proof cases
    case 1
    have "absval v * 10 powi r < 10 powi (4 * (weight v + 1)) * 10 powi r"
      using absval_less [OF ok] by (intro mult_strict_right_mono) simp_all
    also have "\<dots> = 10 powi di" unfolding powi_split [symmetric] di_def by (simp add: algebra_simps)
    also have "\<dots> \<le> 10 powi 0" using 1 by (intro power_int_increasing) auto
    finally have "\<lfloor>absval v * 10 powi r\<rfloor> = 0"
      using absval_nonneg [OF ok] by (simp add: floor_eq_iff)
    moreover have "absval (trunc_var v r) = 0 \<and> digits (trunc_var v r) = []"
      using 1 by (simp add: tv absval_def)
    ultimately show ?thesis by simp
  next
    case 2
    note td = trunc_drop [OF ok di_def 2(1) nd_def dm_def 2(2) refl]
    have "weight (trunc_var v r) = weight v" using 2 by (simp add: tv)
    then have "absval (trunc_var v r) =
        of_int (bval NBASE (digits (trunc_var v r))) * 10 powi (4 * (weight v + 1 - nd))"
      using td(2) by (simp add: absval_def ndigits_def)
    then show ?thesis using td(1) by (simp only: td(3))
  next
    case 3
    then have "4 * ndigits v \<le> di" using di_shape [of di, folded nd_def dm_def] by auto
    note ki = keep_integral [OF di_def this]
    have t: "trunc_var v r = v\<lparr>dscale := r\<rparr>" unfolding tv using 3 by auto
    then have "absval (trunc_var v r) = absval v" by (simp add: absval_def ndigits_def)
    moreover have "of_int \<lfloor>absval v * 10 powi r\<rfloor> = absval v * 10 powi r"
      using ki(1) by (auto elim!: Ints_cases)
    ultimately have "absval (trunc_var v r) = of_int \<lfloor>absval v * 10 powi r\<rfloor> * 10 powi (- r)"
      by (simp only: ki(2))
    then show ?thesis using ok t by simp
  qed
qed

lemma dscale_trunc_var [simp]: "dscale (trunc_var v r) = r"
  by (simp add: trunc_var_def Let_def)

lemma sign_trunc_var: "sign (trunc_var v r) = sign v \<or> absval (trunc_var v r) = 0 \<and> sign (trunc_var v r) = NUMERIC_POS"
  by (auto simp: trunc_var_def Let_def absval_def)

lemma num_ok_trunc_var: "num_ok v \<Longrightarrow> num_ok (trunc_var v r)"
  using absval_trunc_var [of v r] sign_trunc_var [of v r] by (auto simp: num_ok_def)

lemma numval_trunc_var:
  "num_ok v \<Longrightarrow> numval (trunc_var v r) = sgnval v * (of_int \<lfloor>absval v * 10 powi r\<rfloor> * 10 powi (- r))"
  using absval_trunc_var [of v r] numval_of_absval [OF sign_trunc_var, of v r] by (simp add: num_ok_def)

section \<open>cmp\_var decides the order of the values\<close>

text \<open>The magnitude of a digit list whose first digit has weight \<open>w\<close>.\<close>

definition wval :: "int list \<Rightarrow> int \<Rightarrow> rat" where
  "wval ds w = of_int (bval NBASE ds) * 10 powi (4 * (w + 1 - int (length ds)))"

lemma absval_wval: "absval v = wval (digits v) (weight v)"
  by (simp add: absval_def wval_def ndigits_def)

lemma wval_Nil [simp]: "wval [] w = 0"
  by (simp add: wval_def)

lemma wval_Cons: "wval (d # ds) w = of_int d * 10 powi (4 * w) + wval ds (w - 1)"
proof -
  have "(of_int (d * NBASE ^ length ds) :: rat) * 10 powi (4 * (w + 1 - int (length (d # ds))))
      = of_int d * (10 powi (4 * int (length ds)) * 10 powi (4 * (w - int (length ds))))"
    by (simp add: powi_nat nat_mult_distrib power_mult)
  also have "\<dots> = of_int d * 10 powi (4 * w)" unfolding powi_split [symmetric] by (simp add: algebra_simps)
  finally show ?thesis by (simp add: wval_def ring_distribs)
qed

lemma wval_nonneg: "digits_ok NBASE ds \<Longrightarrow> 0 \<le> wval ds w"
  by (simp add: wval_def bval_nonneg)

lemma wval_less: "digits_ok NBASE ds \<Longrightarrow> wval ds w < 10 powi (4 * (w + 1))"
  using absval_less [of "\<lparr>weight = w, sign = 0, dscale = 0, digits = ds\<rparr>"] by (simp add: absval_wval)

lemma wval_less': "digits_ok NBASE ds \<Longrightarrow> w < w' \<Longrightarrow> wval ds w < 10 powi (4 * w')"
proof -
  assume a: "digits_ok NBASE ds" "w < w'"
  note wval_less [OF a(1), of w]
  also have "(10::rat) powi (4 * (w + 1)) \<le> 10 powi (4 * w')"
    using a(2) by (intro power_int_increasing) auto
  finally show ?thesis .
qed

lemma wval_ge: "digits_ok NBASE (d # ds) \<Longrightarrow> d \<noteq> 0 \<Longrightarrow> 10 powi (4 * w) \<le> wval (d # ds) w"
proof -
  assume a: "digits_ok NBASE (d # ds)" "d \<noteq> 0"
  then have "1 \<le> d" by auto
  then have "1 * 10 powi (4 * w) \<le> (of_int d :: rat) * 10 powi (4 * w)"
    by (intro mult_right_mono) simp_all
  moreover have "0 \<le> wval ds (w - 1)" using a by (simp add: wval_nonneg)
  ultimately show ?thesis unfolding wval_Cons by linarith
qed

lemma wval_pos_iff: "digits_ok NBASE ds \<Longrightarrow> 0 < wval ds w \<longleftrightarrow> (\<exists>d \<in> set ds. d \<noteq> 0)"
  using bval_nonneg [of NBASE ds] bval_eq_0_iff [of NBASE ds]
  by (auto simp: wval_def zero_less_mult_iff less_le)

text \<open>The three-way order of two rationals.\<close>

definition order3 :: "rat \<Rightarrow> rat \<Rightarrow> int" where
  "order3 x y = (if x < y then -1 else if y < x then 1 else 0)"

lemma cmp_skip_None:
  "digits_ok NBASE ds \<Longrightarrow> cmp_skip ds w w' = None \<Longrightarrow> 10 powi (4 * (w' + 1)) \<le> wval ds w"
proof (induction ds w w' rule: cmp_skip.induct)
  case (2 d ds w w')
  then have w: "w' < w" by (auto split: if_splits)
  show ?case
  proof (cases "d = 0")
    case True
    with 2 w show ?thesis by (simp add: wval_Cons)
  next
    case False
    have "(10::rat) powi (4 * (w' + 1)) \<le> 10 powi (4 * w)" using w by (intro power_int_increasing) auto
    also have "\<dots> \<le> wval (d # ds) w" using 2 False by (intro wval_ge)
    finally show ?thesis .
  qed
qed simp

lemma cmp_skip_Some:
  assumes "cmp_skip ds w w' = Some (ds', v)"
  shows "wval ds' v = wval ds w \<and> (digits_ok NBASE ds \<longrightarrow> digits_ok NBASE ds') \<and>
    (w \<le> w' \<longrightarrow> ds' = ds \<and> v = w) \<and> (w' < w \<longrightarrow> w' \<le> v \<and> (v = w' \<or> ds' = []))"
  using assms by (induction ds w w' rule: cmp_skip.induct) (auto simp: wval_Cons split: if_splits)

lemma cmp_common_Inl:
  "cmp_common ds1 ds2 = Inl r \<Longrightarrow> digits_ok NBASE ds1 \<Longrightarrow> digits_ok NBASE ds2 \<Longrightarrow>
   r = order3 (wval ds1 w) (wval ds2 w)"
proof (induction ds1 ds2 arbitrary: w rule: cmp_common.induct)
  case (1 d1 ds1 d2 ds2)
  note nn = wval_nonneg [of ds1 "w - 1"] wval_nonneg [of ds2 "w - 1"]
    and lt = wval_less [of ds1 "w - 1"] wval_less [of ds2 "w - 1"]
  have step: "wval xs (w - 1) < of_int (e - d) * 10 powi (4 * w) + wval ys (w - 1)"
    if "d < e" "digits_ok NBASE xs" "digits_ok NBASE ys" for d e xs ys
  proof -
    have "wval xs (w - 1) < 1 * 10 powi (4 * w)" using wval_less [of xs "w - 1"] that by simp
    also have "\<dots> \<le> of_int (e - d) * 10 powi (4 * w)" using that by (intro mult_right_mono) simp_all
    finally show ?thesis using wval_nonneg [of ys "w - 1"] that by simp
  qed
  consider "d1 = d2" | "d1 < d2" | "d2 < d1" by linarith
  then show ?case
  proof cases
    case 1
    with "1.IH" [of "w - 1"] "1.prems" show ?thesis by (simp add: wval_Cons order3_def)
  next
    case 2
    with step [of d1 d2 ds1 ds2] "1.prems" show ?thesis
      by (simp add: wval_Cons order3_def left_diff_distrib split: if_splits)
  next
    case 3
    with step [of d2 d1 ds2 ds1] "1.prems" show ?thesis
      by (simp add: wval_Cons order3_def left_diff_distrib split: if_splits)
  qed
qed auto

lemma cmp_common_Inr:
  "cmp_common ds1 ds2 = Inr (es1, es2) \<Longrightarrow> digits_ok NBASE ds1 \<Longrightarrow> digits_ok NBASE ds2 \<Longrightarrow>
   (es1 = [] \<or> es2 = []) \<and> digits_ok NBASE es1 \<and> digits_ok NBASE es2 \<and>
   (\<exists>v. order3 (wval ds1 w) (wval ds2 w) = order3 (wval es1 v) (wval es2 v))"
proof (induction ds1 ds2 arbitrary: w rule: cmp_common.induct)
  case (1 d1 ds1 d2 ds2)
  then have d: "d1 = d2" by (auto split: if_splits)
  then have "order3 (wval (d1 # ds1) w) (wval (d2 # ds2) w) = order3 (wval ds1 (w - 1)) (wval ds2 (w - 1))"
    by (simp add: wval_Cons order3_def)
  with 1 d show ?case by simp
qed auto

lemma cmp_rest_order:
  "digits_ok NBASE ds1 \<Longrightarrow> digits_ok NBASE ds2 \<Longrightarrow> ds1 = [] \<or> ds2 = [] \<Longrightarrow>
   cmp_rest ds1 ds2 = order3 (wval ds1 w1) (wval ds2 w2)"
  using wval_pos_iff [of ds1 w1] wval_pos_iff [of ds2 w2] wval_nonneg [of ds1 w1] wval_nonneg [of ds2 w2]
  by (auto simp: cmp_rest_def order3_def)

lemma cmp_abs_common_order:
  assumes ok: "digits_ok NBASE ds1" "digits_ok NBASE ds2"
  shows "cmp_abs_common ds1 w1 ds2 w2 = order3 (wval ds1 w1) (wval ds2 w2)"
proof (cases "cmp_skip ds1 w1 w2")
  case None
  have "wval ds2 w2 < wval ds1 w1"
    using cmp_skip_None [OF ok(1) None] wval_less [OF ok(2), of w2] by simp
  then show ?thesis using None by (simp add: cmp_abs_common_def order3_def)
next
  case s1: (Some p)
  obtain es1 v1 where p: "p = (es1, v1)" by fastforce
  note k1 = cmp_skip_Some [OF s1 [unfolded p]]
  show ?thesis
  proof (cases "cmp_skip ds2 w2 v1")
    case None
    have "wval es1 v1 < wval ds2 w2"
      using cmp_skip_None [OF ok(2) None] wval_less [of es1 v1] k1 ok by simp
    then show ?thesis using s1 p None k1 by (simp add: cmp_abs_common_def order3_def)
  next
    case s2: (Some q)
    obtain es2 v2 where q: "q = (es2, v2)" by fastforce
    note k2 = cmp_skip_Some [OF s2 [unfolded q]]
    have o: "order3 (wval ds1 w1) (wval ds2 w2) = order3 (wval es1 v1) (wval es2 v2)"
      using k1 k2 by simp
    have e: "digits_ok NBASE es1" "digits_ok NBASE es2" using k1 k2 ok by auto
    show ?thesis
    proof (cases "v1 = v2")
      case True
      then show ?thesis
      proof (cases "cmp_common es1 es2")
        case (Inl r)
        with cmp_common_Inl [OF Inl e, of v1] True o s1 s2 p q show ?thesis by (simp add: cmp_abs_common_def)
      next
        case (Inr xy)
        obtain x y where xy: "xy = (x, y)" by fastforce
        obtain v where c: "x = [] \<or> y = []" "digits_ok NBASE x" "digits_ok NBASE y"
          "order3 (wval es1 v1) (wval es2 v1) = order3 (wval x v) (wval y v)"
          using cmp_common_Inr [OF Inr [unfolded xy] e, of v1] by auto
        with cmp_rest_order [OF c(2,3,1), of v v] True o s1 s2 p q Inr xy
        show ?thesis by (simp add: cmp_abs_common_def)
      qed
    next
      case False
      then have "es1 = [] \<or> es2 = []" using k1 k2 by (cases "w1 \<le> w2"; cases "w2 \<le> v1") auto
      with cmp_rest_order [OF e, of v1 v2] False o s1 s2 p q show ?thesis by (simp add: cmp_abs_common_def)
    qed
  qed
qed

lemma cmp_abs_order:
  "digits_ok NBASE (digits v1) \<Longrightarrow> digits_ok NBASE (digits v2) \<Longrightarrow> cmp_abs v1 v2 = order3 (absval v1) (absval v2)"
  by (simp add: cmp_abs_def cmp_abs_common_order absval_wval)

text \<open>
  A value of the library in its normal form: what parsing and every arithmetic operation
  return. What the operations rely on is less, \<open>num_lead\<close>: the first digit is not zero and
  a zero has no digits (\<open>int64_to_numericvar\<close> does not strip trailing zero digits).
\<close>

definition num_wf :: "numeric \<Rightarrow> bool" where
  "num_wf v \<longleftrightarrow> num_ok v \<and> num_norm v"

definition num_lead :: "numeric \<Rightarrow> bool" where
  "num_lead v \<longleftrightarrow> num_ok v \<and> (if digits v = [] then sign v = NUMERIC_POS else hd (digits v) \<noteq> 0)"

definition num_nz :: "numeric \<Rightarrow> bool" where
  "num_nz v \<longleftrightarrow> digits v = [] \<or> (\<exists>d \<in> set (digits v). d \<noteq> 0)"

lemma num_wf_ok: "num_wf v \<Longrightarrow> num_ok v"
  by (simp add: num_wf_def)

lemma num_wf_digits: "num_wf v \<Longrightarrow> digits_ok NBASE (digits v)"
  by (simp add: num_wf_def num_ok_def)

lemma num_wf_lead: "num_wf v \<Longrightarrow> num_lead v"
  by (auto simp: num_wf_def num_lead_def num_norm_def split: if_splits)

lemma num_lead_ok: "num_lead v \<Longrightarrow> num_ok v"
  by (simp add: num_lead_def)

lemma num_lead_digits: "num_lead v \<Longrightarrow> digits_ok NBASE (digits v)"
  by (simp add: num_lead_def num_ok_def)

lemma num_lead_nz: "num_lead v \<Longrightarrow> num_nz v"
  by (auto simp: num_lead_def num_nz_def split: if_splits intro!: bexI [of _ "hd (digits v)"])

lemma num_wf_nz: "num_wf v \<Longrightarrow> num_nz v"
  by (intro num_lead_nz num_wf_lead)

lemma num_wf_strip_var: "num_ok v \<Longrightarrow> num_wf (strip_var v)"
  by (simp add: num_wf_def num_ok_strip_var strip_var_norm)

lemma absval_pos: "num_ok v \<Longrightarrow> num_nz v \<Longrightarrow> digits v \<noteq> [] \<Longrightarrow> 0 < absval v"
  by (auto simp: absval_wval num_nz_def num_ok_def wval_pos_iff)

lemma cmp_var_order:
  assumes "num_ok a" "num_nz a" "num_ok b" "num_nz b"
  shows "cmp_var a b = order3 (numval a) (numval b)"
proof -
  have pos: "digits v \<noteq> [] \<longrightarrow> 0 < absval v" "digits v = [] \<longrightarrow> absval v = 0" if "v = a \<or> v = b" for v
    using that assms absval_pos by (auto simp: absval_def)
  have sg: "sign a = NUMERIC_POS \<or> sign a = NUMERIC_NEG" "sign b = NUMERIC_POS \<or> sign b = NUMERIC_NEG"
    using assms by (auto simp: num_ok_def)
  have "cmp_abs_common (digits a) (weight a) (digits b) (weight b) = order3 (absval a) (absval b)"
    "cmp_abs_common (digits b) (weight b) (digits a) (weight a) = order3 (absval b) (absval a)"
    using assms by (simp_all add: num_ok_def cmp_abs_common_order absval_wval)
  then show ?thesis
    using pos [of a] pos [of b] sg
    by (auto simp: cmp_var_def cmp_var_common_def numval_def sgnval_def order3_def)
qed

lemma numeric_cmp_var: "numeric_cmp = cmp_var"
  by (rule ext)+ (simp add: numeric_cmp_def cmp_var_def)

lemma order3_simps [simp]:
  "order3 x y < 0 \<longleftrightarrow> x < y" "0 < order3 x y \<longleftrightarrow> y < x" "order3 x y = 0 \<longleftrightarrow> x = y"
  by (auto simp: order3_def)

interpretation num_cmp: cmp_by_key num_lead numeric_cmp numval
proof
  fix a b :: numeric
  assume "num_lead a" "num_lead b"
  then have "numeric_cmp a b = order3 (numval a) (numval b)"
    by (simp add: numeric_cmp_var cmp_var_order num_lead_ok num_lead_nz)
  then show "numeric_cmp a b < 0 \<longleftrightarrow> numval a < numval b" and "0 < numeric_cmp a b \<longleftrightarrow> numval b < numval a"
    by simp_all
qed

section \<open>The normal form is unique\<close>

lemma wval_inject:
  "digits_ok NBASE ds1 \<Longrightarrow> digits_ok NBASE ds2 \<Longrightarrow> wval ds1 w = wval ds2 w \<Longrightarrow>
   (ds1 \<noteq> [] \<longrightarrow> last ds1 \<noteq> 0) \<Longrightarrow> (ds2 \<noteq> [] \<longrightarrow> last ds2 \<noteq> 0) \<Longrightarrow> ds1 = ds2"
proof (induction ds1 ds2 arbitrary: w rule: list_induct2')
  case (2 d ds)
  then have "0 < wval (d # ds) w" by (subst wval_pos_iff) (auto intro!: bexI [of _ "last (d # ds)"])
  with 2 show ?case by simp
next
  case (3 d ds)
  then have "0 < wval (d # ds) w" by (subst wval_pos_iff) (auto intro!: bexI [of _ "last (d # ds)"])
  with 3 show ?case by simp
next
  case (4 d1 ds1 d2 ds2)
  have "d1 = d2"
  proof (rule ccontr)
    assume "d1 \<noteq> d2"
    then have "cmp_common (d1 # ds1) (d2 # ds2) \<in> {Inl 1, Inl (-1)}" by simp
    with cmp_common_Inl [OF _ "4.prems"(1,2), of _ w] "4.prems"(3) show False by (auto simp: order3_def)
  qed
  with "4.prems"(3) have "wval ds1 (w - 1) = wval ds2 (w - 1)" by (simp add: wval_Cons)
  with "4.IH" [of "w - 1"] "4.prems" \<open>d1 = d2\<close> show ?case by (cases ds1; cases ds2) auto
qed simp

lemma weight_bounds:
  assumes "num_lead v" "digits v \<noteq> []"
  shows "10 powi (4 * weight v) \<le> absval v" and "absval v < 10 powi (4 * (weight v + 1))"
proof -
  obtain d ds where d: "digits v = d # ds" "d \<noteq> 0"
    using assms by (cases "digits v") (auto simp: num_lead_def)
  show "10 powi (4 * weight v) \<le> absval v"
    using wval_ge [of d ds "weight v"] d num_lead_digits [OF assms(1)] by (simp add: absval_wval)
  show "absval v < 10 powi (4 * (weight v + 1))"
    using assms by (intro absval_less num_lead_digits)
qed

lemma absval_weight_le:
  assumes "num_lead a" "digits a \<noteq> []" "num_lead b" "digits b \<noteq> []" "absval a \<le> absval b"
  shows "weight a \<le> weight b"
proof (rule ccontr)
  assume "\<not> weight a \<le> weight b"
  then have "(10::rat) powi (4 * (weight b + 1)) \<le> 10 powi (4 * weight a)"
    by (intro power_int_increasing) auto
  with weight_bounds(2) [OF assms(3,4)] weight_bounds(1) [OF assms(1,2)] assms(5) show False by linarith
qed

lemma numval_inject:
  assumes a: "num_wf a" and b: "num_wf b" and eq: "numval a = numval b"
  shows "sign a = sign b" and "weight a = weight b" and "digits a = digits b"
proof -
  have av: "absval a = absval b"
    using eq abs_numval [OF num_wf_digits [OF a]] abs_numval [OF num_wf_digits [OF b]] by simp
  have pos: "0 < absval v \<longleftrightarrow> digits v \<noteq> []" if "num_wf v" for v
    using that absval_pos [OF num_wf_ok num_wf_nz, of v] by (auto simp: absval_def)
  have "sign a = sign b \<and> weight a = weight b \<and> digits a = digits b"
  proof (cases "digits a = []")
    case True
    then have "digits b = []" using av pos [OF a] pos [OF b] by simp
    with True a b show ?thesis by (simp add: num_wf_def num_norm_def)
  next
    case False
    then have nb: "digits b \<noteq> []" using av pos [OF a] pos [OF b] by simp
    then have w: "weight a = weight b"
      using absval_weight_le [OF num_wf_lead [OF a] False num_wf_lead [OF b] nb]
        absval_weight_le [OF num_wf_lead [OF b] nb num_wf_lead [OF a] False] av by simp
    have "digits a = digits b"
      using wval_inject [OF num_wf_digits [OF a] num_wf_digits [OF b], of "weight a"] a b av w
      by (auto simp: absval_wval num_wf_def num_norm_def)
    moreover have "sign a = sign b"
      using eq av pos [OF a] False a b by (auto simp: numval_def sgnval_def num_wf_def num_ok_def split: if_splits)
    ultimately show ?thesis using w by simp
  qed
  then show "sign a = sign b" and "weight a = weight b" and "digits a = digits b" by simp_all
qed

section \<open>The digits behind the point\<close>

text \<open>
  In normal form a value that has at most \<open>s\<close> decimals has no more base-\<open>NBASE\<close> digits
  behind the point than these decimals need.
\<close>

lemma scaled_shape:
  assumes wf: "num_wf v" and ne: "digits v \<noteq> []" and N: "absval v * 10 powi s = of_int N"
  shows "4 * (ndigits v - weight v - 1) < s + 4"
proof (rule ccontr)
  define k where "k = nat (4 * (ndigits v - weight v - 1) - s - 4)"
  define b where "b = bval NBASE (digits v)"
  assume "\<not> 4 * (ndigits v - weight v - 1) < s + 4"
  then have k: "4 * (weight v + 1 - ndigits v) + s = - (int k + 4)" by (simp add: k_def)
  have "of_int b * (10::rat) powi (- (int k + 4)) = of_int N"
    using N unfolding absval_def b_def [symmetric] mult.assoc powi_split [symmetric] k .
  then have "of_int N * 10 powi (int k + 4) = of_int b * (10 powi (- (int k + 4)) * (10::rat) powi (int k + 4))"
    by (simp only: mult.assoc [symmetric])
  also have "\<dots> = of_int b" by (simp only: powi_cancel mult_1_right)
  also have "(10::rat) powi (int k + 4) = of_int (10 ^ k * NBASE)" by (simp add: powi_split)
  finally have "N * 10 ^ k * NBASE = b" by (simp only: of_int_mult [symmetric] of_int_eq_iff mult.assoc)
  then have "b mod NBASE = 0" by auto
  moreover have "b = bval NBASE (butlast (digits v)) * NBASE + last (digits v)"
    using ne bval_snoc [of NBASE "butlast (digits v)" "last (digits v)"] by (simp add: b_def)
  moreover have "last (digits v) \<noteq> 0" "0 \<le> last (digits v)" "last (digits v) < NBASE"
    using wf ne by (auto simp: num_wf_def num_norm_def num_ok_def digits_ok_def)
  ultimately show False by simp
qed

section \<open>Properties\<close>

text \<open>
  C24: \<open>round_var\<close> rounds the magnitude half away from zero to \<open>rscale\<close> decimal digits,
  keeps the sign, stores \<open>rscale\<close> as the display scale and keeps every digit below
  \<open>NBASE\<close>, for positive and negative scales and for carries that run through all digits.
\<close>

theorem round_var_correct:
  assumes "num_ok v"
  shows "numval (round_var v r) = sgnval v * (of_int (round (absval v * 10 powi r)) * 10 powi (- r))
    \<and> dscale (round_var v r) = r \<and> num_ok (round_var v r)"
  using assms by (simp add: numval_round_var num_ok_round_var)

theorem round_var_correct_witness:
  "round_var \<lparr>weight = 0, sign = 16384, dscale = 4, digits = [9999, 9999]\<rparr> 2
     = \<lparr>weight = 1, sign = 16384, dscale = 2, digits = [1, 0, 0]\<rparr>
   \<and> numval (round_var \<lparr>weight = 0, sign = 16384, dscale = 4, digits = [9999, 9999]\<rparr> 2) = - 10000"
proof
  have r: "round (absval \<lparr>weight = 0, sign = 16384, dscale = 4, digits = [9999, 9999]\<rparr> * 10 powi 2) = 1000000"
    unfolding round_def by (simp add: absval_def ndigits_def power_int_def floor_eq_iff power_one_over)
  show "round_var \<lparr>weight = 0, sign = 16384, dscale = 4, digits = [9999, 9999]\<rparr> 2
     = \<lparr>weight = 1, sign = 16384, dscale = 2, digits = [1, 0, 0]\<rparr>"
    by code_simp
  show "numval (round_var \<lparr>weight = 0, sign = 16384, dscale = 4, digits = [9999, 9999]\<rparr> 2) = - 10000"
    using round_var_correct [of "\<lparr>weight = 0, sign = 16384, dscale = 4, digits = [9999, 9999]\<rparr>" 2] r
    by (simp add: num_ok_def sgnval_def power_int_def power_one_over)
qed

text \<open>
  \<open>trunc_var\<close> truncates the magnitude towards zero at \<open>rscale\<close> decimal digits, keeps
  the sign, stores \<open>rscale\<close> as the display scale and keeps every digit below \<open>NBASE\<close>.
\<close>

theorem trunc_var_correct:
  assumes "num_ok v"
  shows "numval (trunc_var v r) = sgnval v * (of_int \<lfloor>absval v * 10 powi r\<rfloor> * 10 powi (- r))
    \<and> dscale (trunc_var v r) = r \<and> num_ok (trunc_var v r)"
  using assms by (simp add: numval_trunc_var num_ok_trunc_var)

theorem trunc_var_correct_witness:
  "trunc_var \<lparr>weight = 0, sign = 0, dscale = 4, digits = [12, 3999]\<rparr> 1
     = \<lparr>weight = 0, sign = 0, dscale = 1, digits = [12, 3000]\<rparr>
   \<and> numval (trunc_var \<lparr>weight = 0, sign = 0, dscale = 4, digits = [12, 3999]\<rparr> 1) = 123 / 10"
proof
  have r: "\<lfloor>absval \<lparr>weight = 0, sign = 0, dscale = 4, digits = [12, 3999]\<rparr> * 10 powi 1\<rfloor> = 123"
    by (simp add: absval_def ndigits_def power_int_def floor_eq_iff power_one_over)
  show "trunc_var \<lparr>weight = 0, sign = 0, dscale = 4, digits = [12, 3999]\<rparr> 1
     = \<lparr>weight = 0, sign = 0, dscale = 1, digits = [12, 3000]\<rparr>"
    by code_simp
  show "numval (trunc_var \<lparr>weight = 0, sign = 0, dscale = 4, digits = [12, 3999]\<rparr> 1) = 123 / 10"
    using trunc_var_correct [of "\<lparr>weight = 0, sign = 0, dscale = 4, digits = [12, 3999]\<rparr>" 1] r
    by (simp add: num_ok_def sgnval_def power_int_def power_one_over)
qed

text \<open>
  \<open>strip_var\<close> brings every variable into the normal form (no zero digit at either end,
  a zero has weight 0 and the positive sign) and changes neither its value nor its display
  scale.
\<close>

theorem strip_var_correct:
  "num_norm (strip_var v) \<and> numval (strip_var v) = numval v \<and> dscale (strip_var v) = dscale v"
  by (simp add: strip_var_norm)

text \<open>
  C40: The comparison operators of \<open>numeric\<close> are those of the numbers: each of the six
  agrees with the order of the values, on variables that are not NaN and have no leading zero digit.
\<close>

theorem numeric_compare_correct:
  assumes "num_lead a" "num_lead b"
  shows "(numeric_eq a b \<longleftrightarrow> numval a = numval b) \<and> (numeric_ne a b \<longleftrightarrow> numval a \<noteq> numval b)
    \<and> (numeric_lt a b \<longleftrightarrow> numval a < numval b) \<and> (numeric_gt a b \<longleftrightarrow> numval a > numval b)
    \<and> (numeric_le a b \<longleftrightarrow> numval a \<le> numval b) \<and> (numeric_ge a b \<longleftrightarrow> numval a \<ge> numval b)"
  using num_cmp.cmp_zero [OF assms] num_cmp.cmp_neg [OF assms] num_cmp.cmp_pos [OF assms]
  by (auto simp: numeric_eq_def numeric_ne_def numeric_lt_def numeric_gt_def numeric_le_def numeric_ge_def)

theorem numeric_compare_correct_witness:
  "numeric_lt \<lparr>weight = 1, sign = 16384, dscale = 0, digits = [1]\<rparr>
      \<lparr>weight = 0, sign = 16384, dscale = 1, digits = [1, 5000]\<rparr>
   \<and> numval \<lparr>weight = 1, sign = 16384, dscale = 0, digits = [1]\<rparr>
      < numval \<lparr>weight = 0, sign = 16384, dscale = 1, digits = [1, 5000]\<rparr>"
proof -
  have "numeric_lt \<lparr>weight = 1, sign = 16384, dscale = 0, digits = [1]\<rparr>
      \<lparr>weight = 0, sign = 16384, dscale = 1, digits = [1, 5000]\<rparr>" by code_simp
  then show ?thesis
    using numeric_compare_correct [of "\<lparr>weight = 1, sign = 16384, dscale = 0, digits = [1]\<rparr>"
      "\<lparr>weight = 0, sign = 16384, dscale = 1, digits = [1, 5000]\<rparr>"]
    by (simp add: num_lead_def num_ok_def)
qed

text \<open>
  the representation is canonical: two variables in normal form compare equal exactly
  when sign, weight and digits agree, whatever their display scales.
\<close>

theorem numeric_eq_canonical:
  assumes "num_wf a" "num_wf b"
  shows "numeric_eq a b \<longleftrightarrow> sign a = sign b \<and> weight a = weight b \<and> digits a = digits b"
proof
  assume "numeric_eq a b"
  then have "numval a = numval b" by (simp add: numeric_eq_def num_cmp.cmp_zero num_wf_lead assms)
  then show "sign a = sign b \<and> weight a = weight b \<and> digits a = digits b"
    using numval_inject [OF assms] by blast
next
  assume "sign a = sign b \<and> weight a = weight b \<and> digits a = digits b"
  then have "numval a = numval b" by (simp add: numval_def sgnval_def absval_def ndigits_def)
  then show "numeric_eq a b" by (simp add: numeric_eq_def num_cmp.cmp_zero num_wf_lead assms)
qed

theorem numeric_eq_canonical_witness:
  "numeric_eq \<lparr>weight = 0, sign = 0, dscale = 1, digits = [1, 5000]\<rparr>
     \<lparr>weight = 0, sign = 0, dscale = 3, digits = [1, 5000]\<rparr>"
  using numeric_eq_canonical [of "\<lparr>weight = 0, sign = 0, dscale = 1, digits = [1, 5000]\<rparr>"
      "\<lparr>weight = 0, sign = 0, dscale = 3, digits = [1, 5000]\<rparr>"]
  by (simp add: num_wf_def num_ok_def num_norm_def)

end
