(* ===== verification/Numeric_Arith.thy ===== *)
theory Numeric_Arith
  imports Numeric_Core
begin

text \<open>
  Addition, subtraction and multiplication of \<open>pq_async::numeric\<close>: \<open>add_abs\<close>, \<open>sub_abs\<close>,
  \<open>add_var\<close>, \<open>sub_var\<close> and \<open>mul_var\<close>. The functions write their result through a pointer;
  here they take the old result and return the new one. The accumulators of \<open>mul_var\<close> are C
  \<open>int\<close>s and are kept at 32 bits (\<open>i32\<close>), so its correctness includes that they never
  overflow.
\<close>

section \<open>add\_abs and sub\_abs\<close>

text \<open>The operand digit at index \<open>i\<close>, 0 outside the operand.\<close>

definition digit_at :: "int list \<Rightarrow> int \<Rightarrow> int" where
  "digit_at ds i = (if 0 \<le> i \<and> i < int (length ds) then ds ! nat i else 0)"

text \<open>
  The loops over the result digits, from the least significant one: \<open>n\<close> digits are still
  to be produced, \<open>acc\<close> holds the ones stored so far.
\<close>

fun add_loop :: "int list \<Rightarrow> int list \<Rightarrow> nat \<Rightarrow> int \<Rightarrow> int \<Rightarrow> int \<Rightarrow> int list \<Rightarrow> int list \<times> int" where
  "add_loop ds1 ds2 0 i1 i2 carry acc = (acc, carry)"
| "add_loop ds1 ds2 (Suc n) i1 i2 carry acc =
     (let c = carry + digit_at ds1 (i1 - 1) + digit_at ds2 (i2 - 1)
      in if c \<ge> NBASE then add_loop ds1 ds2 n (i1 - 1) (i2 - 1) 1 ((c - NBASE) # acc)
         else add_loop ds1 ds2 n (i1 - 1) (i2 - 1) 0 (c # acc))"

fun sub_loop :: "int list \<Rightarrow> int list \<Rightarrow> nat \<Rightarrow> int \<Rightarrow> int \<Rightarrow> int \<Rightarrow> int list \<Rightarrow> int list \<times> int" where
  "sub_loop ds1 ds2 0 i1 i2 borrow acc = (acc, borrow)"
| "sub_loop ds1 ds2 (Suc n) i1 i2 borrow acc =
     (let b = borrow + digit_at ds1 (i1 - 1) - digit_at ds2 (i2 - 1)
      in if b < 0 then sub_loop ds1 ds2 n (i1 - 1) (i2 - 1) (-1) ((b + NBASE) # acc)
         else sub_loop ds1 ds2 n (i1 - 1) (i2 - 1) 0 (b # acc))"

definition rscale_of :: "numeric \<Rightarrow> int" where
  "rscale_of v = ndigits v - weight v - 1"

definition add_abs :: "numeric \<Rightarrow> numeric \<Rightarrow> numeric \<Rightarrow> numeric" where
  "add_abs var1 var2 result =
     (let res_weight = max (weight var1) (weight var2) + 1;
          res_dscale = max (dscale var1) (dscale var2);
          res_rscale = max (rscale_of var1) (rscale_of var2);
          n = res_rscale + res_weight + 1;
          res_ndigits = (if n \<le> 0 then 1 else n);
          (ds, carry) = add_loop (digits var1) (digits var2) (nat res_ndigits)
             (res_rscale + weight var1 + 1) (res_rscale + weight var2 + 1) 0 []
      in strip_var (result\<lparr>digits := ds, weight := res_weight, dscale := res_dscale\<rparr>))"

definition sub_abs :: "numeric \<Rightarrow> numeric \<Rightarrow> numeric \<Rightarrow> numeric" where
  "sub_abs var1 var2 result =
     (let res_weight = weight var1;
          res_dscale = max (dscale var1) (dscale var2);
          res_rscale = max (rscale_of var1) (rscale_of var2);
          n = res_rscale + res_weight + 1;
          res_ndigits = (if n \<le> 0 then 1 else n);
          (ds, borrow) = sub_loop (digits var1) (digits var2) (nat res_ndigits)
             (res_rscale + weight var1 + 1) (res_rscale + weight var2 + 1) 0 []
      in strip_var (result\<lparr>digits := ds, weight := res_weight, dscale := res_dscale\<rparr>))"

section \<open>add\_var and sub\_var\<close>

text \<open>
  The code's \<open>switch (cmp_abs(var1, var2))\<close>, which both functions repeat with the sign to
  store for each outcome: \<open>gt\<close> when the first magnitude is larger, \<open>lt\<close> when the second is.
\<close>

definition sub_by_magnitude :: "int \<Rightarrow> int \<Rightarrow> numeric \<Rightarrow> numeric \<Rightarrow> numeric \<Rightarrow> numeric" where
  "sub_by_magnitude gt lt var1 var2 result =
     (let c = cmp_abs var1 var2
      in if c = 0 then (zero_var result)\<lparr>dscale := max (dscale var1) (dscale var2)\<rparr>
         else if c = 1 then (sub_abs var1 var2 result)\<lparr>sign := gt\<rparr>
         else if c = -1 then (sub_abs var2 var1 result)\<lparr>sign := lt\<rparr>
         else result)"

definition add_var :: "numeric \<Rightarrow> numeric \<Rightarrow> numeric \<Rightarrow> numeric" where
  "add_var var1 var2 result =
     (if sign var1 = NUMERIC_POS then
        if sign var2 = NUMERIC_POS then (add_abs var1 var2 result)\<lparr>sign := NUMERIC_POS\<rparr>
        else sub_by_magnitude NUMERIC_POS NUMERIC_NEG var1 var2 result
      else
        if sign var2 = NUMERIC_POS then sub_by_magnitude NUMERIC_NEG NUMERIC_POS var1 var2 result
        else (add_abs var1 var2 result)\<lparr>sign := NUMERIC_NEG\<rparr>)"

definition sub_var :: "numeric \<Rightarrow> numeric \<Rightarrow> numeric \<Rightarrow> numeric" where
  "sub_var var1 var2 result =
     (if sign var1 = NUMERIC_POS then
        if sign var2 = NUMERIC_NEG then (add_abs var1 var2 result)\<lparr>sign := NUMERIC_POS\<rparr>
        else sub_by_magnitude NUMERIC_POS NUMERIC_NEG var1 var2 result
      else
        if sign var2 = NUMERIC_NEG then sub_by_magnitude NUMERIC_NEG NUMERIC_POS var1 var2 result
        else (add_abs var1 var2 result)\<lparr>sign := NUMERIC_NEG\<rparr>)"

section \<open>mul\_var\<close>

abbreviation (input) INT_MAX :: int where "INT_MAX \<equiv> 2147483647"

text \<open>
  The carry propagation pass, from the last cell to the first: the first argument is the
  number of cells still to visit.
\<close>

fun carry_pass :: "nat \<Rightarrow> int \<Rightarrow> int list \<Rightarrow> int list \<times> int" where
  "carry_pass 0 carry dig = (dig, carry)"
| "carry_pass (Suc i) carry dig =
     (let newdig = i32 (dig ! i + carry)
      in if newdig \<ge> NBASE
         then let c = newdig sdiv NBASE in carry_pass i c (dig[i := i32 (newdig - i32 (c * NBASE))])
         else carry_pass i 0 (dig[i := newdig]))"

text \<open>The inner loop, \<open>i2\<close> counting down; the cell is \<open>dig[i1 + i2 + 2]\<close>.\<close>

fun mul_inner :: "int \<Rightarrow> int list \<Rightarrow> nat \<Rightarrow> nat \<Rightarrow> int list \<Rightarrow> int list" where
  "mul_inner d1 ds2 i1 0 dig = dig"
| "mul_inner d1 ds2 i1 (Suc i2) dig =
     mul_inner d1 ds2 i1 i2
       (dig[i1 + i2 + 2 := i32 (dig ! (i1 + i2 + 2) + i32 (d1 * ds2 ! i2))])"

text \<open>The outer loop over the digits of \<open>var1\<close>, \<open>i1\<close> counting down, with its normalisation.\<close>

fun mul_outer :: "int list \<Rightarrow> int list \<Rightarrow> nat \<Rightarrow> nat \<Rightarrow> int list \<Rightarrow> int \<Rightarrow> int list" where
  "mul_outer ds1 ds2 rn 0 dig maxdig = dig"
| "mul_outer ds1 ds2 rn (Suc i1) dig maxdig =
     (let d1 = ds1 ! i1
      in if d1 = 0 then mul_outer ds1 ds2 rn i1 dig maxdig
         else let m = i32 (maxdig + d1);
                  (dig, m) = (if m > (INT_MAX - INT_MAX sdiv NBASE) sdiv (NBASE - 1)
                              then (fst (carry_pass rn 0 dig), 1 + d1) else (dig, m))
              in mul_outer ds1 ds2 rn i1
                   (mul_inner d1 ds2 i1 (min (length ds2) (rn - i1 - 2)) dig) m)"

text \<open>
  The digits of the product for operands that are not zero, \<open>rn\<close> of them; the last pass
  stores the carried digits into the 16-bit digits of the result.
\<close>

definition mul_digits :: "int list \<Rightarrow> int list \<Rightarrow> nat \<Rightarrow> int list" where
  "mul_digits ds1 ds2 rn =
     map i16 (fst (carry_pass rn 0
       (mul_outer ds1 ds2 rn (min (length ds1) (rn - 2)) (replicate rn 0) 0)))"

definition mul_var :: "numeric \<Rightarrow> numeric \<Rightarrow> numeric \<Rightarrow> int \<Rightarrow> numeric" where
  "mul_var var1 var2 result rscale =
     (let (var1, var2) = (if ndigits var1 > ndigits var2 then (var2, var1) else (var1, var2))
      in if ndigits var1 = 0 \<or> ndigits var2 = 0 then (zero_var result)\<lparr>dscale := rscale\<rparr>
         else let res_sign = (if sign var1 = sign var2 then NUMERIC_POS else NUMERIC_NEG);
                  res_weight = weight var1 + weight var2 + 2;
                  maxdigits = res_weight + 1 + (rscale + DEC_DIGITS - 1) sdiv DEC_DIGITS + 2;
                  res_ndigits = min (ndigits var1 + ndigits var2 + 1) maxdigits
              in if res_ndigits < 3 then (zero_var result)\<lparr>dscale := rscale\<rparr>
                 else strip_var (round_var
                   (result\<lparr>digits := mul_digits (digits var1) (digits var2) (nat res_ndigits),
                           weight := res_weight, sign := res_sign\<rparr>) rscale))"

section \<open>The digit windows of the addition loops\<close>

text \<open>
  \<open>win ds i n\<close> is the number the \<open>n\<close> cells left of index \<open>i\<close> stand for, the last one with
  weight 0: what the loops of \<open>add_abs\<close> and \<open>sub_abs\<close> read of one operand.
\<close>

fun win :: "int list \<Rightarrow> int \<Rightarrow> nat \<Rightarrow> int" where
  "win ds i 0 = 0"
| "win ds i (Suc n) = digit_at ds (i - 1) + NBASE * win ds (i - 1) n"

lemma digit_at_bounds: "digits_ok NBASE ds \<Longrightarrow> 0 \<le> digit_at ds i \<and> digit_at ds i < NBASE"
  using digits_ok_nth [of NBASE ds "nat i"] by (auto simp: digit_at_def)

lemma win_left: "i \<le> 0 \<Longrightarrow> win ds i n = 0"
  by (induction n arbitrary: i) (auto simp: digit_at_def)

lemma win_take:
  "i \<le> length ds \<Longrightarrow> i \<le> n \<Longrightarrow> win ds (int i) n = bval NBASE (take i ds)"
proof (induction n arbitrary: i)
  case (Suc n)
  show ?case
  proof (cases i)
    case 0
    then show ?thesis using win_left [of 0 ds "Suc n"] by simp
  next
    case i: (Suc k)
    then have "digit_at ds (int i - 1) = ds ! k" and "int i - 1 = int k"
      using Suc.prems by (simp_all add: digit_at_def)
    with Suc.IH [of k] Suc.prems show ?thesis by (simp add: i take_Suc_conv_app_nth)
  qed
qed simp

lemma win_all:
  "int (length ds) \<le> i \<Longrightarrow> i \<le> int n \<Longrightarrow> win ds i n = bval NBASE ds * NBASE ^ nat (i - int (length ds))"
proof (induction n arbitrary: i)
  case (Suc n)
  show ?case
  proof (cases "i = int (length ds)")
    case True
    with win_take [of "length ds" ds "Suc n"] Suc.prems show ?thesis by simp
  next
    case False
    then have "digit_at ds (i - 1) = 0" and e: "nat (i - int (length ds)) = Suc (nat (i - 1 - int (length ds)))"
      using Suc.prems by (simp_all add: digit_at_def)
    with Suc.IH [of "i - 1"] Suc.prems False show ?thesis by simp
  qed
qed (cases ds; simp)

lemma win_Nil [simp]: "win [] i n = 0"
  by (induction n arbitrary: i) (simp_all add: digit_at_def)

lemma add_loop_value:
  assumes "digits_ok NBASE ds1" "digits_ok NBASE ds2"
  shows "add_loop ds1 ds2 n i1 i2 c acc = (acc', c') \<Longrightarrow> c \<in> {0, 1} \<Longrightarrow> digits_ok NBASE acc \<Longrightarrow>
    length acc' = n + length acc \<and> digits_ok NBASE acc' \<and> c' \<in> {0, 1} \<and>
    bval NBASE acc' + c' * NBASE ^ (length acc + n)
      = bval NBASE acc + (win ds1 i1 n + win ds2 i2 n + c) * NBASE ^ length acc"
proof (induction n arbitrary: i1 i2 c acc)
  case (Suc n)
  define t where "t = c + digit_at ds1 (i1 - 1) + digit_at ds2 (i2 - 1)"
  define k where "k = (if t \<ge> NBASE then 1 else 0 :: int)"
  have t: "0 \<le> t" "t < 2 * NBASE"
    using Suc.prems digit_at_bounds [OF assms(1), of "i1 - 1"] digit_at_bounds [OF assms(2), of "i2 - 1"]
    by (auto simp: t_def)
  then have d: "digits_ok NBASE ((t - NBASE * k) # acc)" using Suc.prems by (auto simp: k_def)
  have "add_loop ds1 ds2 n (i1 - 1) (i2 - 1) k ((t - NBASE * k) # acc) = (acc', c')"
    using Suc.prems(1) by (auto simp: t_def k_def Let_def split: if_splits)
  from Suc.IH [OF this _ d] have IH: "length acc' = n + length acc + 1" "digits_ok NBASE acc'" "c' \<in> {0, 1}"
    "bval NBASE acc' + c' * NBASE ^ (length acc + 1 + n) = bval NBASE ((t - NBASE * k) # acc)
      + (win ds1 (i1 - 1) n + win ds2 (i2 - 1) n + k) * NBASE ^ (length acc + 1)"
    by (auto simp: k_def)
  have "bval NBASE ((t - NBASE * k) # acc) + (win ds1 (i1 - 1) n + win ds2 (i2 - 1) n + k) * NBASE ^ (length acc + 1)
    = bval NBASE acc + (t + NBASE * (win ds1 (i1 - 1) n + win ds2 (i2 - 1) n)) * NBASE ^ length acc"
    by (simp add: algebra_simps)
  also have "t + NBASE * (win ds1 (i1 - 1) n + win ds2 (i2 - 1) n) = win ds1 i1 (Suc n) + win ds2 i2 (Suc n) + c"
    by (simp add: t_def)
  finally show ?case using IH by simp
qed simp

lemma sub_loop_value:
  assumes "digits_ok NBASE ds1" "digits_ok NBASE ds2"
  shows "sub_loop ds1 ds2 n i1 i2 c acc = (acc', c') \<Longrightarrow> c \<in> {0, -1} \<Longrightarrow> digits_ok NBASE acc \<Longrightarrow>
    length acc' = n + length acc \<and> digits_ok NBASE acc' \<and> c' \<in> {0, -1} \<and>
    bval NBASE acc' + c' * NBASE ^ (length acc + n)
      = bval NBASE acc + (win ds1 i1 n - win ds2 i2 n + c) * NBASE ^ length acc"
proof (induction n arbitrary: i1 i2 c acc)
  case (Suc n)
  define t where "t = c + digit_at ds1 (i1 - 1) - digit_at ds2 (i2 - 1)"
  define k where "k = (if t < 0 then -1 else 0 :: int)"
  have t: "- NBASE \<le> t" "t < NBASE"
    using Suc.prems digit_at_bounds [OF assms(1), of "i1 - 1"] digit_at_bounds [OF assms(2), of "i2 - 1"]
    by (auto simp: t_def)
  then have d: "digits_ok NBASE ((t - NBASE * k) # acc)" using Suc.prems by (auto simp: k_def)
  have "sub_loop ds1 ds2 n (i1 - 1) (i2 - 1) k ((t - NBASE * k) # acc) = (acc', c')"
    using Suc.prems(1) by (auto simp: t_def k_def Let_def split: if_splits)
  from Suc.IH [OF this _ d] have IH: "length acc' = n + length acc + 1" "digits_ok NBASE acc'" "c' \<in> {0, -1}"
    "bval NBASE acc' + c' * NBASE ^ (length acc + 1 + n) = bval NBASE ((t - NBASE * k) # acc)
      + (win ds1 (i1 - 1) n - win ds2 (i2 - 1) n + k) * NBASE ^ (length acc + 1)"
    by (auto simp: k_def)
  have "bval NBASE ((t - NBASE * k) # acc) + (win ds1 (i1 - 1) n - win ds2 (i2 - 1) n + k) * NBASE ^ (length acc + 1)
    = bval NBASE acc + (t + NBASE * (win ds1 (i1 - 1) n - win ds2 (i2 - 1) n)) * NBASE ^ length acc"
    by (simp add: algebra_simps)
  also have "t + NBASE * (win ds1 (i1 - 1) n - win ds2 (i2 - 1) n) = win ds1 i1 (Suc n) - win ds2 i2 (Suc n) + c"
    by (simp add: t_def)
  finally show ?case using IH by simp
qed simp

section \<open>add\_abs and sub\_abs are exact\<close>

text \<open>The digits of a variable as an integer, aligned at \<open>rs\<close> base-\<open>NBASE\<close> digits after the point.\<close>

definition aligned :: "numeric \<Rightarrow> int \<Rightarrow> int" where
  "aligned v rs = bval NBASE (digits v) * NBASE ^ nat (rs - rscale_of v)"

lemma absval_aligned:
  "rscale_of v \<le> rs \<Longrightarrow> absval v = of_int (aligned v rs) * 10 powi (- 4 * rs)"
proof -
  assume "rscale_of v \<le> rs"
  then have "(of_int (NBASE ^ nat (rs - rscale_of v)) :: rat) = 10 powi (4 * (rs - rscale_of v))"
    using powi_10000 [of "rs - rscale_of v"] by (simp add: power_int_def)
  moreover have "4 * (rs - rscale_of v) + - 4 * rs = 4 * (weight v + 1 - ndigits v)"
    by (simp add: rscale_of_def)
  ultimately show ?thesis unfolding aligned_def absval_def of_int_mult
    by (simp only: mult.assoc powi_split [symmetric])
qed

lemma win_aligned:
  "rscale_of v \<le> rs \<Longrightarrow> rs + weight v + 1 \<le> int n \<or> digits v = [] \<Longrightarrow> win (digits v) (rs + weight v + 1) n = aligned v rs"
proof (cases "digits v = []")
  case False
  assume a: "rscale_of v \<le> rs" "rs + weight v + 1 \<le> int n \<or> digits v = []"
  then have "rs + weight v + 1 - int (length (digits v)) = rs - rscale_of v"
    by (simp add: rscale_of_def ndigits_def)
  with win_all [of "digits v" "rs + weight v + 1" n] a False show ?thesis
    by (simp add: aligned_def rscale_of_def ndigits_def)
qed (simp add: aligned_def)

lemma aligned_less:
  assumes "digits_ok NBASE (digits v)" "rscale_of v \<le> rs" "rs + weight v + 1 \<le> int n"
  shows "aligned v rs < NBASE ^ n"
proof -
  have e: "nat (rs + weight v + 1) = length (digits v) + nat (rs - rscale_of v)"
    using assms by (simp add: rscale_of_def ndigits_def)
  have "bval NBASE (digits v) < NBASE ^ length (digits v)" using assms by (intro bval_less) simp_all
  then have "aligned v rs < NBASE ^ length (digits v) * NBASE ^ nat (rs - rscale_of v)"
    unfolding aligned_def by (intro mult_strict_right_mono) simp_all
  also have "\<dots> = NBASE ^ nat (rs + weight v + 1)" by (simp add: e power_add)
  also have "\<dots> \<le> NBASE ^ n" using assms by (intro power_increasing) simp_all
  finally show ?thesis .
qed

lemma aligned_nonneg: "digits_ok NBASE (digits v) \<Longrightarrow> 0 \<le> aligned v rs"
  by (simp add: aligned_def bval_nonneg)

lemma rscale_ndigits: "rscale_of v + weight v + 1 = ndigits v" "0 \<le> ndigits v"
  by (simp_all add: rscale_of_def ndigits_def)

lemma absval_of_digits:
  assumes "int (length ds) = rs + w + 1" "digits v = ds" "weight v = w"
  shows "absval v = of_int (bval NBASE ds) * 10 powi (- 4 * rs)"
  using assms by (simp add: absval_def ndigits_def)

lemma add_abs_props:
  assumes a: "digits_ok NBASE (digits a)" and b: "digits_ok NBASE (digits b)"
  shows "absval (add_abs a b r) = absval a + absval b"
    and "digits_ok NBASE (digits (add_abs a b r))" and "num_norm (add_abs a b r)"
    and "dscale (add_abs a b r) = max (dscale a) (dscale b)"
proof -
  define rs where "rs = max (rscale_of a) (rscale_of b)"
  define w where "w = max (weight a) (weight b) + 1"
  define n where "n = nat (rs + w + 1)"
  have le: "rscale_of a \<le> rs" "rscale_of b \<le> rs" by (simp_all add: rs_def)
  have n: "0 < n" "int n = rs + w + 1" "rs + weight a + 1 \<le> int (n - 1)" "rs + weight b + 1 \<le> int (n - 1)"
    using le rscale_ndigits [of a] rscale_ndigits [of b] by (simp_all add: n_def w_def of_nat_diff max_def)
  obtain ds c where l: "add_loop (digits a) (digits b) n (rs + weight a + 1) (rs + weight b + 1) 0 [] = (ds, c)"
    by fastforce
  have *: "length ds = n" "digits_ok NBASE ds" "c \<in> {0, 1}"
    "bval NBASE ds + c * NBASE ^ n = aligned a rs + aligned b rs"
    using add_loop_value [OF a b l] win_aligned [of a rs n] win_aligned [of b rs n] le n by auto
  have "aligned a rs + aligned b rs < 2 * NBASE ^ (n - 1)"
    using aligned_less [OF a le(1) n(3)] aligned_less [OF b le(2) n(4)] by simp
  also have "\<dots> \<le> NBASE ^ n" using n(1) by (cases n) simp_all
  finally have c: "c = 0" using * bval_nonneg [OF *(2)] by auto
  have eq: "add_abs a b r = strip_var (r\<lparr>digits := ds, weight := w, dscale := max (dscale a) (dscale b)\<rparr>)"
    using l n(1,2) by (simp add: add_abs_def Let_def rs_def [symmetric] w_def [symmetric] n_def)
  have "absval (add_abs a b r) = of_int (bval NBASE ds) * 10 powi (- 4 * rs)"
    unfolding eq absval_strip_var by (rule absval_of_digits) (use * n in simp_all)
  also have "bval NBASE ds = aligned a rs + aligned b rs" using * c by simp
  finally show "absval (add_abs a b r) = absval a + absval b"
    using absval_aligned [OF le(1)] absval_aligned [OF le(2)] by (simp add: distrib_right)
  show "digits_ok NBASE (digits (add_abs a b r))" unfolding eq by (rule digits_ok_strip_var) (use * in simp)
  show "num_norm (add_abs a b r)" and "dscale (add_abs a b r) = max (dscale a) (dscale b)"
    unfolding eq by (simp_all add: strip_var_norm)
qed

lemma sub_abs_props:
  assumes a: "digits_ok NBASE (digits a)" "digits a \<noteq> []" and b: "digits_ok NBASE (digits b)"
    and w: "digits b \<noteq> [] \<longrightarrow> weight b \<le> weight a" and ge: "absval b \<le> absval a"
  shows "absval (sub_abs a b r) = absval a - absval b"
    and "digits_ok NBASE (digits (sub_abs a b r))" and "num_norm (sub_abs a b r)"
    and "dscale (sub_abs a b r) = max (dscale a) (dscale b)"
proof -
  define rs where "rs = max (rscale_of a) (rscale_of b)"
  define n where "n = nat (rs + weight a + 1)"
  have le: "rscale_of a \<le> rs" "rscale_of b \<le> rs" by (simp_all add: rs_def)
  have "0 < ndigits a" using a by (simp add: ndigits_def)
  then have n: "0 < n" "int n = rs + weight a + 1" "rs + weight b + 1 \<le> int n \<or> digits b = []"
    using le w rscale_ndigits [of a] by (auto simp: n_def)
  obtain ds c where l: "sub_loop (digits a) (digits b) n (rs + weight a + 1) (rs + weight b + 1) 0 [] = (ds, c)"
    by fastforce
  have *: "length ds = n" "digits_ok NBASE ds" "c \<in> {0, -1}"
    "bval NBASE ds + c * NBASE ^ n = aligned a rs - aligned b rs"
    using sub_loop_value [OF a(1) b l] win_aligned [of a rs n] win_aligned [of b rs n] le n by auto
  have "aligned b rs \<le> aligned a rs"
    using ge absval_aligned [OF le(1)] absval_aligned [OF le(2)] by simp
  then have c: "c = 0" using * bval_less [OF *(2)] by auto
  have eq: "sub_abs a b r = strip_var (r\<lparr>digits := ds, weight := weight a, dscale := max (dscale a) (dscale b)\<rparr>)"
    using l n(1,2) by (simp add: sub_abs_def Let_def rs_def [symmetric] n_def)
  have "absval (sub_abs a b r) = of_int (bval NBASE ds) * 10 powi (- 4 * rs)"
    unfolding eq absval_strip_var by (rule absval_of_digits) (use * n in simp_all)
  also have "bval NBASE ds = aligned a rs - aligned b rs" using * c by simp
  finally show "absval (sub_abs a b r) = absval a - absval b"
    using absval_aligned [OF le(1)] absval_aligned [OF le(2)] by (simp add: left_diff_distrib)
  show "digits_ok NBASE (digits (sub_abs a b r))" unfolding eq by (rule digits_ok_strip_var) (use * in simp)
  show "num_norm (sub_abs a b r)" and "dscale (sub_abs a b r) = max (dscale a) (dscale b)"
    unfolding eq by (simp_all add: strip_var_norm)
qed

section \<open>add\_var and sub\_var are exact\<close>

lemma num_wf_sign:
  "digits_ok NBASE (digits v) \<Longrightarrow> num_norm v \<Longrightarrow> digits v \<noteq> [] \<or> s = NUMERIC_POS \<Longrightarrow>
   s = NUMERIC_POS \<or> s = NUMERIC_NEG \<Longrightarrow> num_wf (v\<lparr>sign := s\<rparr>)"
  by (auto simp: num_wf_def num_ok_def num_norm_def)

lemma numval_sign: "numval (v\<lparr>sign := s\<rparr>) = (if s = NUMERIC_NEG then -1 else 1) * absval v"
  by (simp add: numval_def sgnval_def absval_def ndigits_def)

lemma absval_pos_digits: "0 < absval v \<Longrightarrow> digits v \<noteq> []"
  by (auto simp: absval_def)

lemma sub_abs_wf:
  assumes "num_lead a" "num_lead b" "absval b < absval a" "s = NUMERIC_POS \<or> s = NUMERIC_NEG"
  shows "absval (sub_abs a b r) = absval a - absval b" "num_wf ((sub_abs a b r)\<lparr>sign := s\<rparr>)"
    and "dscale (sub_abs a b r) = max (dscale a) (dscale b)"
proof -
  have d: "digits_ok NBASE (digits a)" "digits_ok NBASE (digits b)" using assms by (simp_all add: num_lead_digits)
  then have "0 < absval a" using assms absval_nonneg [of b] by simp
  then have ne: "digits a \<noteq> []" by (rule absval_pos_digits)
  then have w: "digits b \<noteq> [] \<longrightarrow> weight b \<le> weight a" using assms absval_weight_le [of b a] by simp
  note p = sub_abs_props [OF d(1) ne d(2) w less_imp_le [OF assms(3)]]
  show "absval (sub_abs a b r) = absval a - absval b" by (rule p)
  then have "digits (sub_abs a b r) \<noteq> []" using assms by (intro absval_pos_digits) simp
  with p assms show "num_wf ((sub_abs a b r)\<lparr>sign := s\<rparr>)" by (intro num_wf_sign) auto
  show "dscale (sub_abs a b r) = max (dscale a) (dscale b)" by (rule p)
qed

text \<open>What a result variable is to hold: a value in normal form with its display scale.\<close>

definition num_is :: "numeric \<Rightarrow> rat \<Rightarrow> int \<Rightarrow> bool" where
  "num_is v x s \<longleftrightarrow> num_wf v \<and> numval v = x \<and> dscale v = s"

lemma num_is_sign:
  "num_wf (v\<lparr>sign := s\<rparr>) \<Longrightarrow> (if s = NUMERIC_NEG then -1 else 1) * absval v = x \<Longrightarrow> dscale v = d \<Longrightarrow>
   num_is (v\<lparr>sign := s\<rparr>) x d"
  by (simp add: num_is_def numval_sign)

lemma zero_var_is: "num_is ((zero_var v)\<lparr>dscale := d\<rparr>) 0 d"
  by (simp add: num_is_def zero_var_def num_wf_def num_ok_def num_norm_def numval_def absval_def)

lemma sub_by_magnitude_is:
  assumes "num_lead a" "num_lead b" and s: "s = NUMERIC_POS \<and> t = NUMERIC_NEG \<or> s = NUMERIC_NEG \<and> t = NUMERIC_POS"
  shows "num_is (sub_by_magnitude s t a b r)
    ((if s = NUMERIC_NEG then -1 else 1) * (absval a - absval b)) (max (dscale a) (dscale b))"
proof -
  have c: "cmp_abs a b = order3 (absval a) (absval b)" using assms by (simp add: cmp_abs_order num_lead_digits)
  consider "absval a = absval b" | "absval b < absval a" | "absval a < absval b" by linarith
  then show ?thesis
  proof cases
    case 1
    then show ?thesis using c zero_var_is by (simp add: sub_by_magnitude_def order3_def)
  next
    case 2
    with c have "sub_by_magnitude s t a b r = (sub_abs a b r)\<lparr>sign := s\<rparr>"
      by (simp add: sub_by_magnitude_def order3_def)
    moreover have "s = NUMERIC_POS \<or> s = NUMERIC_NEG" using s by blast
    ultimately show ?thesis using sub_abs_wf [OF assms(1,2) 2, of s r] by (auto intro!: num_is_sign)
  next
    case 3
    with c have "sub_by_magnitude s t a b r = (sub_abs b a r)\<lparr>sign := t\<rparr>"
      by (simp add: sub_by_magnitude_def order3_def)
    moreover have "t = NUMERIC_POS \<or> t = NUMERIC_NEG" using s by blast
    ultimately show ?thesis using sub_abs_wf [OF assms(2,1) 3, of t r] s
      by (auto intro!: num_is_sign simp: max.commute)
  qed
qed

lemma add_abs_is:
  assumes "num_lead a" "num_lead b" "s = NUMERIC_POS \<or> s = NUMERIC_NEG \<and> sign a = NUMERIC_NEG"
  shows "num_is ((add_abs a b r)\<lparr>sign := s\<rparr>)
    ((if s = NUMERIC_NEG then -1 else 1) * (absval a + absval b)) (max (dscale a) (dscale b))"
proof (rule num_is_sign)
  have d: "digits_ok NBASE (digits a)" "digits_ok NBASE (digits b)" using assms by (simp_all add: num_lead_digits)
  note p = add_abs_props [OF d, of r]
  have "digits (add_abs a b r) \<noteq> [] \<or> s = NUMERIC_POS"
  proof (rule disjCI)
    assume "s \<noteq> NUMERIC_POS"
    then have "digits a \<noteq> []" using assms by (auto simp: num_lead_def split: if_splits)
    then have "0 < absval a" using assms by (intro absval_pos num_lead_ok num_lead_nz)
    then show "digits (add_abs a b r) \<noteq> []"
      using p(1) absval_nonneg [OF d(2)] by (intro absval_pos_digits) simp
  qed
  with p assms show "num_wf ((add_abs a b r)\<lparr>sign := s\<rparr>)" by (intro num_wf_sign) auto
qed (use assms add_abs_props in \<open>auto simp: num_lead_digits\<close>)

lemma add_var_is:
  assumes "num_lead a" "num_lead b"
  shows "num_is (add_var a b r) (numval a + numval b) (max (dscale a) (dscale b))"
proof -
  have "sign a = NUMERIC_POS \<or> sign a = NUMERIC_NEG" "sign b = NUMERIC_POS \<or> sign b = NUMERIC_NEG"
    using assms by (auto simp: num_lead_def num_ok_def)
  moreover have comm: "- absval b - absval a = - absval a - absval b" by simp
  ultimately show ?thesis
    using add_abs_is [OF assms, of NUMERIC_POS r] add_abs_is [OF assms, of NUMERIC_NEG r]
      sub_by_magnitude_is [OF assms, of NUMERIC_POS NUMERIC_NEG r]
      sub_by_magnitude_is [OF assms, of NUMERIC_NEG NUMERIC_POS r]
    by (auto simp: add_var_def numval_def sgnval_def comm)
qed

lemma sub_var_is:
  assumes "num_lead a" "num_lead b"
  shows "num_is (sub_var a b r) (numval a - numval b) (max (dscale a) (dscale b))"
proof -
  have "sign a = NUMERIC_POS \<or> sign a = NUMERIC_NEG" "sign b = NUMERIC_POS \<or> sign b = NUMERIC_NEG"
    using assms by (auto simp: num_lead_def num_ok_def)
  then show ?thesis
    using add_abs_is [OF assms, of NUMERIC_POS r] add_abs_is [OF assms, of NUMERIC_NEG r]
      sub_by_magnitude_is [OF assms, of NUMERIC_POS NUMERIC_NEG r]
      sub_by_magnitude_is [OF assms, of NUMERIC_NEG NUMERIC_POS r]
    by (auto simp: sub_var_def numval_def sgnval_def)
qed

section \<open>The accumulator of mul\_var\<close>

text \<open>
  The largest value of \<open>maxdig\<close>: \<open>(INT_MAX - INT_MAX / NBASE) / (NBASE - 1)\<close>. No cell of
  the accumulator exceeds \<open>maxdig * (NBASE - 1)\<close>, so no cell, no sum of a cell and a carry
  and no product of two digits leaves the range of \<open>int\<close>.
\<close>

abbreviation (input) MAXDIG :: int where "MAXDIG \<equiv> 214748"

definition cells_ok :: "int \<Rightarrow> int list \<Rightarrow> bool" where
  "cells_ok m dig \<longleftrightarrow> (\<forall>x \<in> set dig. 0 \<le> x \<and> x \<le> m * (NBASE - 1))"

lemma cells_ok_nth: "cells_ok m dig \<Longrightarrow> i < length dig \<Longrightarrow> 0 \<le> dig ! i \<and> dig ! i \<le> m * (NBASE - 1)"
  by (auto simp: cells_ok_def)

lemma cells_ok_digits: "digits_ok NBASE dig \<Longrightarrow> cells_ok 1 dig"
  by (force simp: cells_ok_def digits_ok_def)

lemma cells_ok_mono: "cells_ok m dig \<Longrightarrow> m \<le> m' \<Longrightarrow> cells_ok m' dig"
  by (force simp: cells_ok_def)

lemma maxdig_limit: "(INT_MAX - INT_MAX sdiv NBASE) sdiv (NBASE - 1) = MAXDIG"
  by (simp add: signed_divide_int_def)

lemma carry_step:
  assumes "0 \<le> x" "x \<le> MAXDIG * (NBASE - 1)" "0 \<le> c" "c \<le> MAXDIG"
  shows "i32 (x + c) = x + c" "(x + c) sdiv NBASE = (x + c) div NBASE"
    and "i32 ((x + c) div NBASE * NBASE) = (x + c) div NBASE * NBASE"
    and "i32 (x + c - (x + c) div NBASE * NBASE) = (x + c) mod NBASE"
    and "0 \<le> (x + c) div NBASE" "(x + c) div NBASE \<le> MAXDIG"
proof -
  have b: "0 \<le> x + c" "x + c \<le> 2147480000" using assms by simp_all
  show "i32 (x + c) = x + c" using b by (intro i32_id) simp_all
  show "(x + c) sdiv NBASE = (x + c) div NBASE" using b by (intro sdiv_nonneg) simp_all
  have m: "(x + c) div NBASE * NBASE = x + c - (x + c) mod NBASE" by (simp add: minus_mod_eq_div_mult)
  have r: "0 \<le> (x + c) mod NBASE" "(x + c) mod NBASE < NBASE" "(x + c) mod NBASE \<le> x + c"
    using b by (simp_all add: zmod_le_nonneg_dividend)
  show "i32 ((x + c) div NBASE * NBASE) = (x + c) div NBASE * NBASE"
    unfolding m using r b by (intro i32_id) linarith+
  show "i32 (x + c - (x + c) div NBASE * NBASE) = (x + c) mod NBASE"
    using r by (simp add: m i32_id)
  show "0 \<le> (x + c) div NBASE" "(x + c) div NBASE \<le> MAXDIG" using b by linarith+
qed

lemma carry_pass_value:
  "carry_pass i c dig = (dig', c') \<Longrightarrow> i \<le> length dig \<Longrightarrow> 0 \<le> c \<Longrightarrow> c \<le> MAXDIG \<Longrightarrow>
   cells_ok MAXDIG (take i dig) \<Longrightarrow>
   length dig' = length dig \<and> drop i dig' = drop i dig \<and> digits_ok NBASE (take i dig') \<and> 0 \<le> c' \<and>
   bval NBASE (take i dig') + c' * NBASE ^ i = bval NBASE (take i dig) + c"
proof (induction i arbitrary: c dig)
  case (Suc i)
  define x where "x = dig ! i"
  define k where "k = (x + c) div NBASE"
  define d where "d = (x + c) mod NBASE"
  have i: "i < length dig" using Suc.prems by simp
  have tk: "take (Suc i) dig = take i dig @ [x]" using i by (simp add: x_def take_Suc_conv_app_nth)
  have x: "0 \<le> x" "x \<le> MAXDIG * (NBASE - 1)" using Suc.prems(5) by (auto simp: tk cells_ok_def)
  note st = carry_step [OF x Suc.prems(3,4)]
  have small: "k = 0 \<and> d = x + c" if "x + c < NBASE" using that x Suc.prems(3) by (simp add: k_def d_def)
  have rec: "carry_pass i k (dig[i := d]) = (dig', c')"
    using Suc.prems(1) st small by (auto simp: Let_def x_def k_def d_def split: if_splits)
  have IH: "length dig' = length dig" "drop i dig' = drop i (dig[i := d])" "digits_ok NBASE (take i dig')" "0 \<le> c'"
    "bval NBASE (take i dig') + c' * NBASE ^ i = bval NBASE (take i dig) + k"
    using Suc.IH [OF rec] i st Suc.prems(5) by (auto simp: k_def tk cells_ok_def)
  have "dig' ! i = hd (drop i dig')" using i IH(1) by (simp add: hd_drop_conv_nth)
  then have di: "dig' ! i = d" using i IH(2) by (simp add: hd_drop_conv_nth)
  then have tk': "take (Suc i) dig' = take i dig' @ [d]" using i IH(1) by (simp add: take_Suc_conv_app_nth)
  have "drop (Suc i) dig' = drop (Suc i) dig" using IH(2) i by (metis drop_Suc drop_update_cancel lessI tl_drop)
  moreover have "digits_ok NBASE (take (Suc i) dig')" using IH(3) by (simp add: tk' d_def)
  moreover have "bval NBASE (take (Suc i) dig') + c' * NBASE ^ Suc i
      = (bval NBASE (take i dig') + c' * NBASE ^ i) * NBASE + d" by (simp add: tk' algebra_simps)
  moreover have "k * NBASE + d = x + c" by (simp add: k_def d_def)
  ultimately show ?case using IH by (simp add: tk algebra_simps)
qed simp

lemma carry_pass_normalises:
  assumes "cells_ok MAXDIG dig" "bval NBASE dig < NBASE ^ length dig" "carry_pass (length dig) 0 dig = (dig', c')"
  shows "length dig' = length dig" "digits_ok NBASE dig'" "bval NBASE dig' = bval NBASE dig" "c' = 0"
proof -
  have *: "length dig' = length dig" "digits_ok NBASE dig'" "0 \<le> c'"
    "bval NBASE dig' + c' * NBASE ^ length dig = bval NBASE dig"
    using carry_pass_value [OF assms(3)] assms(1) by auto
  show "c' = 0"
  proof (rule ccontr)
    assume "c' \<noteq> 0"
    then have "1 * NBASE ^ length dig \<le> c' * NBASE ^ length dig" using *(3) by (intro mult_right_mono) auto
    then show False using assms(2) * bval_nonneg [OF *(2)] by linarith
  qed
  with * show "length dig' = length dig" "digits_ok NBASE dig'" "bval NBASE dig' = bval NBASE dig" by simp_all
qed

lemma digit_product:
  assumes "0 \<le> d" "d < NBASE" "0 \<le> e" "e < NBASE"
  shows "0 \<le> d * e" "d * e \<le> d * (NBASE - 1)" "d * e \<le> (NBASE - 1) * (NBASE - 1)"
  using assms mult_mono [of d "NBASE - 1" e "NBASE - 1"] by (simp_all add: mult_left_mono)

lemma mul_inner_value:
  assumes "digits_ok NBASE ds2" "0 \<le> d1" "d1 < NBASE" "cells_ok m0 dig" "m0 + d1 \<le> MAXDIG" "0 \<le> m0"
    "m \<le> length ds2" "i1 + m + 2 \<le> length dig"
  shows "length (mul_inner d1 ds2 i1 m dig) = length dig \<and> cells_ok (m0 + d1) (mul_inner d1 ds2 i1 m dig) \<and>
    bval NBASE (mul_inner d1 ds2 i1 m dig)
      = bval NBASE dig + d1 * bval NBASE (take m ds2) * NBASE ^ (length dig - 2 - i1 - m)"
proof -
  have "length (mul_inner d1 ds2 i1 m dig) = length dig \<and> cells_ok (m0 + d1) (mul_inner d1 ds2 i1 m dig) \<and>
    bval NBASE (mul_inner d1 ds2 i1 m dig)
      = bval NBASE dig + d1 * bval NBASE (take m ds2) * NBASE ^ (length dig - 2 - i1 - m)"
    if "cells_ok (m0 + d1) dig" "cells_ok m0 (take (i1 + m + 2) dig)" "m \<le> length ds2" "i1 + m + 2 \<le> length dig" for m dig
    using that
  proof (induction m arbitrary: dig)
    case (Suc m)
    define j where "j = i1 + m + 2"
    define p where "p = d1 * ds2 ! m"
    have j: "j < length dig" using Suc.prems by (simp add: j_def)
    have e: "0 \<le> ds2 ! m" "ds2 ! m < NBASE" using digits_ok_nth [OF assms(1), of m] Suc.prems by auto
    note p = digit_product [OF assms(2,3) e, folded p_def]
    have x: "0 \<le> dig ! j" "dig ! j \<le> m0 * (NBASE - 1)"
      using cells_ok_nth [OF Suc.prems(2), of j] j by (simp_all add: j_def)
    have lim: "m0 * (NBASE - 1) + d1 * (NBASE - 1) \<le> MAXDIG * (NBASE - 1)" using assms(5) by simp
    have "i32 p = p" using p by (intro i32_id) simp_all
    moreover have "i32 (dig ! j + p) = dig ! j + p" using p x lim by (intro i32_id) simp_all
    ultimately have rec: "mul_inner d1 ds2 i1 (Suc m) dig = mul_inner d1 ds2 i1 m (dig[j := dig ! j + p])"
      by (simp add: j_def p_def)
    have sub: "set (take (i1 + m + 2) dig) \<subseteq> set (take (i1 + Suc m + 2) dig)"
      by (rule set_take_subset_set_take) simp
    have "cells_ok (m0 + d1) (dig[j := dig ! j + p])"
      using Suc.prems(1) x p by (auto simp: cells_ok_def algebra_simps dest!: set_update_subset_insert [THEN subsetD])
    moreover have "cells_ok m0 (take (i1 + m + 2) (dig[j := dig ! j + p]))"
      using Suc.prems(2) sub unfolding cells_ok_def j_def by (simp add: subset_iff)
    moreover have "bval NBASE (dig[j := dig ! j + p]) = bval NBASE dig + p * NBASE ^ (length dig - 1 - j)"
      using j by (simp add: bval_update)
    moreover have "d1 * bval NBASE (take (Suc m) ds2) * NBASE ^ (length dig - 2 - i1 - Suc m)
      = d1 * bval NBASE (take m ds2) * NBASE ^ (length dig - 2 - i1 - m) + p * NBASE ^ (length dig - 1 - j)"
    proof -
      have "length dig - 2 - i1 - m = Suc (length dig - 1 - j)" "length dig - 2 - i1 - Suc m = length dig - 1 - j"
        using j by (simp_all add: j_def)
      then show ?thesis using Suc.prems(3) by (simp add: take_Suc_conv_app_nth p_def algebra_simps)
    qed
    ultimately show ?case using Suc.IH [of "dig[j := dig ! j + p]"] Suc.prems unfolding rec by simp
  qed simp
  moreover have "cells_ok m0 (take (i1 + m + 2) dig)" using assms(4) by (auto simp: cells_ok_def dest: in_set_takeD)
  ultimately show ?thesis using assms cells_ok_mono [OF assms(4), of "m0 + d1"] by simp
qed

text \<open>
  What the accumulator holds when the digits of \<open>var1\<close> from index \<open>k\<close> on are done, where
  \<open>s\<close> is the number of product digits that are not computed: cells within their bound, and
  a value that falls short of the exact partial product by at most \<open>slack\<close> units of the
  last computed digit. Nothing is missing when \<open>s = 0\<close>.
\<close>

definition mul_slack :: "nat \<Rightarrow> nat \<Rightarrow> nat \<Rightarrow> int" where
  "mul_slack s K k = (if s = 0 then 0 else NBASE + (int K - int k) * (NBASE - 1))"

definition mul_inv :: "int list \<Rightarrow> int list \<Rightarrow> nat \<Rightarrow> nat \<Rightarrow> nat \<Rightarrow> int list \<Rightarrow> int \<Rightarrow> bool" where
  "mul_inv ds1 ds2 rn s k dig m \<longleftrightarrow>
     length dig = rn \<and> cells_ok m dig \<and> 0 \<le> m \<and> m \<le> MAXDIG \<and> bval NBASE dig < NBASE ^ (rn - 1 - k) \<and>
     bval NBASE dig * NBASE ^ s \<le> bval NBASE (drop k ds1) * bval NBASE ds2 \<and>
     bval NBASE (drop k ds1) * bval NBASE ds2
       \<le> (bval NBASE dig + mul_slack s (min (length ds1) (rn - 2)) k) * NBASE ^ s"

lemma mul_inv_start:
  assumes ok: "digits_ok NBASE ds1" "digits_ok NBASE ds2" and ne: "ds2 \<noteq> []"
    and rn: "3 \<le> rn" "rn + s = length ds1 + length ds2 + 1"
  shows "mul_inv ds1 ds2 rn s (min (length ds1) (rn - 2)) (replicate rn 0) 0"
proof (cases "length ds1 \<le> rn - 2")
  case True
  then show ?thesis using rn by (auto simp: mul_inv_def cells_ok_def mul_slack_def min_def)
next
  case False
  have e: "(length ds1 - (rn - 2)) + length ds2 = s + 1" "s \<noteq> 0" using rn False ne by (cases ds2; simp)+
  have nn: "0 \<le> bval NBASE (drop (rn - 2) ds1)" "0 \<le> bval NBASE ds2" using ok by (auto intro: bval_nonneg)
  have "bval NBASE (drop (rn - 2) ds1) * bval NBASE ds2 \<le> NBASE ^ (length ds1 - (rn - 2)) * NBASE ^ length ds2"
    using ok bval_less [of NBASE "drop (rn - 2) ds1"] bval_less [of NBASE ds2] nn
    by (intro mult_mono) auto
  also have "\<dots> = NBASE * NBASE ^ s" using e(1) by (simp add: power_add [symmetric])
  finally show ?thesis using rn False e(2) nn by (auto simp: mul_inv_def cells_ok_def mul_slack_def min_def)
qed

lemma mul_contrib:
  assumes ok: "digits_ok NBASE ds2" "0 \<le> d" "d < NBASE"
    and i: "i < n1" "i + 2 < rn" and rn: "rn + s = n1 + length ds2 + 1" and m: "m = min (length ds2) (rn - i - 2)"
  obtains rem where "0 \<le> rem" "rem \<le> (if s = 0 then 0 else (NBASE - 1) * NBASE ^ s)"
    "d * NBASE ^ (n1 - 1 - i) * bval NBASE ds2
      = d * bval NBASE (take m ds2) * NBASE ^ (rn - 2 - i - m) * NBASE ^ s + rem"
proof
  define rem where "rem = d * (NBASE ^ (n1 - 1 - i) * bval NBASE (drop m ds2))"
  have nn: "0 \<le> bval NBASE (drop m ds2)" using ok by (auto intro: bval_nonneg)
  then show "0 \<le> rem" using ok by (simp add: rem_def)
  show "rem \<le> (if s = 0 then 0 else (NBASE - 1) * NBASE ^ s)"
  proof (cases "length ds2 \<le> rn - i - 2")
    case True
    then show ?thesis by (simp add: rem_def m)
  next
    case False
    then have e: "(n1 - 1 - i) + (length ds2 - m) = s" "s \<noteq> 0" using i rn m by simp_all
    have "bval NBASE (drop m ds2) \<le> NBASE ^ (length ds2 - m)"
      using ok bval_less [of NBASE "drop m ds2"] by (simp add: less_imp_le)
    then have "NBASE ^ (n1 - 1 - i) * bval NBASE (drop m ds2) \<le> NBASE ^ s"
      unfolding e(1) [symmetric] power_add by (intro mult_left_mono) simp_all
    then have "rem \<le> (NBASE - 1) * NBASE ^ s"
      unfolding rem_def using ok nn by (intro mult_mono) simp_all
    then show ?thesis using e(2) by simp
  qed
  have "(n1 - 1 - i) + (length ds2 - m) = (rn - 2 - i - m) + s" using i rn m by auto
  then have p: "NBASE ^ (n1 - 1 - i) * NBASE ^ (length ds2 - m) = NBASE ^ (rn - 2 - i - m) * NBASE ^ s"
    by (simp add: power_add [symmetric])
  have "d * NBASE ^ (n1 - 1 - i) * bval NBASE ds2
    = d * bval NBASE (take m ds2) * (NBASE ^ (n1 - 1 - i) * NBASE ^ (length ds2 - m)) + rem"
    unfolding rem_def by (subst bval_split [of _ _ m]) (simp add: algebra_simps)
  then show "d * NBASE ^ (n1 - 1 - i) * bval NBASE ds2
      = d * bval NBASE (take m ds2) * NBASE ^ (rn - 2 - i - m) * NBASE ^ s + rem"
    unfolding p by (simp add: mult.assoc)
qed

lemma mul_step_bound:
  assumes "digits_ok NBASE ds2" "0 \<le> d" "d < NBASE" "i + m + 2 \<le> rn" "i + 2 < rn"
    and "x < NBASE ^ (rn - 1 - Suc i)"
  shows "x + d * bval NBASE (take m ds2) * NBASE ^ (rn - 2 - i - m) < NBASE ^ (rn - 1 - i)"
proof -
  have "bval NBASE (take m ds2) \<le> NBASE ^ length (take m ds2)"
    using assms(1) bval_less [of NBASE "take m ds2"] by (simp add: less_imp_le)
  also have "\<dots> \<le> NBASE ^ m" by (intro power_increasing) simp_all
  finally have "bval NBASE (take m ds2) * NBASE ^ (rn - 2 - i - m) \<le> NBASE ^ m * NBASE ^ (rn - 2 - i - m)"
    by (intro mult_right_mono) simp_all
  also have "\<dots> = NBASE ^ (rn - 2 - i)" using assms(4) by (simp add: power_add [symmetric])
  finally have "d * (bval NBASE (take m ds2) * NBASE ^ (rn - 2 - i - m)) \<le> (NBASE - 1) * NBASE ^ (rn - 2 - i)"
    using assms by (intro mult_mono) (simp_all add: bval_nonneg digits_ok_take)
  moreover have "rn - 1 - i = Suc (rn - 2 - i)" "rn - 1 - Suc i = rn - 2 - i" using assms(5) by simp_all
  ultimately show ?thesis using assms(6) by (simp add: mult.assoc)
qed

lemma mul_inv_step:
  assumes ok: "digits_ok NBASE ds1" "digits_ok NBASE ds2" and rn: "rn + s = length ds1 + length ds2 + 1"
    and i: "i < length ds1" "i + 2 < rn"
    and inv: "mul_inv ds1 ds2 rn s (Suc i) dig m0" and m0: "m0 + ds1 ! i \<le> MAXDIG"
  shows "mul_inv ds1 ds2 rn s i (mul_inner (ds1 ! i) ds2 i (min (length ds2) (rn - i - 2)) dig) (m0 + ds1 ! i)"
proof -
  define d where "d = ds1 ! i"
  define m where "m = min (length ds2) (rn - i - 2)"
  define c where "c = d * bval NBASE (take m ds2) * NBASE ^ (rn - 2 - i - m)"
  define sl where "sl = mul_slack s (min (length ds1) (rn - 2))"
  have d: "0 \<le> d" "d < NBASE" using digits_ok_nth [OF ok(1) i(1)] by (simp_all add: d_def)
  have inv': "length dig = rn" "cells_ok m0 dig" "0 \<le> m0" "bval NBASE dig < NBASE ^ (rn - 1 - Suc i)"
    "bval NBASE dig * NBASE ^ s \<le> bval NBASE (drop (Suc i) ds1) * bval NBASE ds2"
    "bval NBASE (drop (Suc i) ds1) * bval NBASE ds2 \<le> (bval NBASE dig + sl (Suc i)) * NBASE ^ s"
    using inv by (simp_all add: mul_inv_def sl_def)
  have "i + m + 2 \<le> rn" using i by (simp add: m_def)
  then have inner: "length (mul_inner d ds2 i m dig) = rn" "cells_ok (m0 + d) (mul_inner d ds2 i m dig)"
    "bval NBASE (mul_inner d ds2 i m dig) = bval NBASE dig + c"
    using mul_inner_value [OF ok(2) d inv'(2) m0 [folded d_def] inv'(3), of m i] inv'(1) by (simp_all add: m_def c_def)
  have bound: "bval NBASE dig + c < NBASE ^ (rn - 1 - i)"
    unfolding c_def using ok d i inv'(4) by (intro mul_step_bound) (simp_all add: m_def)
  obtain rem where rem: "0 \<le> rem" "rem \<le> (if s = 0 then 0 else (NBASE - 1) * NBASE ^ s)"
    "d * NBASE ^ (length ds1 - 1 - i) * bval NBASE ds2 = c * NBASE ^ s + rem"
    using mul_contrib [OF ok(2) d i rn m_def] unfolding c_def by metis
  have "drop i ds1 = d # drop (Suc i) ds1" using i(1) by (simp add: d_def Cons_nth_drop_Suc)
  then have "bval NBASE (drop i ds1) * bval NBASE ds2
    = d * NBASE ^ (length ds1 - 1 - i) * bval NBASE ds2 + bval NBASE (drop (Suc i) ds1) * bval NBASE ds2"
    by (simp add: distrib_right)
  then have ex: "bval NBASE (drop i ds1) * bval NBASE ds2
    = c * NBASE ^ s + rem + bval NBASE (drop (Suc i) ds1) * bval NBASE ds2" using rem(3) by simp
  have sl: "sl i * NBASE ^ s = sl (Suc i) * NBASE ^ s + (if s = 0 then 0 else (NBASE - 1) * NBASE ^ s)"
    by (simp add: sl_def mul_slack_def algebra_simps)
  have "(bval NBASE dig + c) * NBASE ^ s \<le> bval NBASE (drop i ds1) * bval NBASE ds2"
    unfolding ex distrib_right using rem(1) inv'(5) by linarith
  moreover have "bval NBASE (drop i ds1) * bval NBASE ds2 \<le> (bval NBASE dig + c + sl i) * NBASE ^ s"
    unfolding ex distrib_right sl using rem(2) inv'(6) [unfolded distrib_right] by linarith
  ultimately show ?thesis
    using inner bound inv'(3) d m0 by (simp add: mul_inv_def d_def m_def sl_def)
qed

lemma mul_inv_skip:
  assumes "i < length ds1" "i + 2 < rn" "ds1 ! i = 0" "mul_inv ds1 ds2 rn s (Suc i) dig m"
  shows "mul_inv ds1 ds2 rn s i dig m"
proof -
  have "drop i ds1 = 0 # drop (Suc i) ds1" using assms by (simp add: Cons_nth_drop_Suc [symmetric])
  then have d: "bval NBASE (drop i ds1) = bval NBASE (drop (Suc i) ds1)" by simp
  have "mul_slack s k (Suc i) * NBASE ^ s \<le> mul_slack s k i * NBASE ^ s" for k
    by (intro mult_right_mono) (simp_all add: mul_slack_def)
  moreover have "(NBASE::int) ^ (rn - 1 - Suc i) \<le> NBASE ^ (rn - 1 - i)"
    by (intro power_increasing) simp_all
  ultimately show ?thesis
    using assms(4) unfolding mul_inv_def d distrib_right by (meson add_left_mono less_le_trans order_trans)
qed

lemma mul_inv_carry:
  assumes inv: "mul_inv ds1 ds2 rn s k dig m"
  shows "length (fst (carry_pass rn 0 dig)) = rn" "digits_ok NBASE (fst (carry_pass rn 0 dig))"
    and "bval NBASE (fst (carry_pass rn 0 dig)) = bval NBASE dig"
proof -
  obtain dig' c' where p: "carry_pass (length dig) 0 dig = (dig', c')" by fastforce
  have b: "bval NBASE dig < NBASE ^ (rn - 1 - k)" and l: "length dig = rn" and c: "cells_ok MAXDIG dig"
    using inv by (auto simp: mul_inv_def intro: cells_ok_mono)
  have "(NBASE::int) ^ (rn - 1 - k) \<le> NBASE ^ rn" by (intro power_increasing) simp_all
  with b have "bval NBASE dig < NBASE ^ length dig" unfolding l by (rule less_le_trans)
  from carry_pass_normalises [OF c this p] p l
  show "length (fst (carry_pass rn 0 dig)) = rn" "digits_ok NBASE (fst (carry_pass rn 0 dig))"
    and "bval NBASE (fst (carry_pass rn 0 dig)) = bval NBASE dig" by simp_all
qed

lemma mul_inv_normalise:
  "mul_inv ds1 ds2 rn s k dig m \<Longrightarrow> mul_inv ds1 ds2 rn s k (fst (carry_pass rn 0 dig)) 1"
  using mul_inv_carry [of ds1 ds2 rn s k dig m] by (auto simp: mul_inv_def cells_ok_digits)

lemma mul_outer_value:
  assumes ok: "digits_ok NBASE ds1" "digits_ok NBASE ds2" and rn: "rn + s = length ds1 + length ds2 + 1"
  shows "k \<le> length ds1 \<Longrightarrow> k + 2 \<le> rn \<Longrightarrow> mul_inv ds1 ds2 rn s k dig m \<Longrightarrow>
    \<exists>m'. mul_inv ds1 ds2 rn s 0 (mul_outer ds1 ds2 rn k dig m) m'"
proof (induction k arbitrary: dig m)
  case (Suc i)
  then have i: "i < length ds1" "i + 2 < rn" "i \<le> length ds1" "i + 2 \<le> rn" by simp_all
  define d where "d = ds1 ! i"
  have d: "0 \<le> d" "d < NBASE" using digits_ok_nth [OF ok(1) i(1)] by (simp_all add: d_def)
  have m: "0 \<le> m" "m \<le> MAXDIG" using Suc.prems by (simp_all add: mul_inv_def)
  then have s32: "i32 (m + d) = m + d" using d by (intro i32_id) simp_all
  let ?inner = "\<lambda>dig. mul_inner d ds2 i (min (length ds2) (rn - i - 2)) dig"
  note eq = mul_outer.simps(2) [of ds1 ds2 rn i dig m, unfolded Let_def maxdig_limit, folded d_def, unfolded s32]
  note step = mul_inv_step [OF ok rn i(1,2), folded d_def]
  consider "d = 0" | "d \<noteq> 0" "m + d \<le> MAXDIG" | "d \<noteq> 0" "MAXDIG < m + d" by linarith
  then show ?case
  proof cases
    case 1
    then have "mul_inv ds1 ds2 rn s i dig m" using mul_inv_skip [OF i(1,2) _ Suc.prems(3)] by (simp add: d_def)
    then show ?thesis using Suc.IH [OF i(3,4)] 1 unfolding eq by simp
  next
    case 2
    then show ?thesis using Suc.IH [OF i(3,4) step [OF Suc.prems(3)]] unfolding eq by simp
  next
    case 3
    then show ?thesis using Suc.IH [OF i(3,4) step [OF mul_inv_normalise [OF Suc.prems(3)]]] d unfolding eq by simp
  qed
qed auto

text \<open>The digits of the product: below \<open>NBASE\<close>, and exact when none is cut off.\<close>

lemma mul_digits_value:
  assumes ok: "digits_ok NBASE ds1" "digits_ok NBASE ds2" "ds2 \<noteq> []"
    and rn: "3 \<le> rn" "rn + s = length ds1 + length ds2 + 1"
  shows "length (mul_digits ds1 ds2 rn) = rn" "digits_ok NBASE (mul_digits ds1 ds2 rn)"
    and "bval NBASE (mul_digits ds1 ds2 rn) * NBASE ^ s \<le> bval NBASE ds1 * bval NBASE ds2"
    and "bval NBASE ds1 * bval NBASE ds2
      \<le> (bval NBASE (mul_digits ds1 ds2 rn) + mul_slack s (min (length ds1) (rn - 2)) 0) * NBASE ^ s"
proof -
  define K where "K = min (length ds1) (rn - 2)"
  define dig where "dig = mul_outer ds1 ds2 rn K (replicate rn 0) 0"
  have "K \<le> length ds1" "K + 2 \<le> rn" using rn by (simp_all add: K_def)
  from mul_outer_value [OF ok(1,2) rn(2) this mul_inv_start [OF ok rn, folded K_def]]
  obtain m where inv: "mul_inv ds1 ds2 rn s 0 dig m" by (auto simp: dig_def)
  note * = mul_inv_carry [OF inv]
  have "map i16 (fst (carry_pass rn 0 dig)) = fst (carry_pass rn 0 dig)"
    using *(2) by (intro map_idI i16_id) (auto simp: digits_ok_def)
  then have "mul_digits ds1 ds2 rn = fst (carry_pass rn 0 dig)" by (simp add: mul_digits_def dig_def K_def)
  then show "length (mul_digits ds1 ds2 rn) = rn" "digits_ok NBASE (mul_digits ds1 ds2 rn)"
    and "bval NBASE (mul_digits ds1 ds2 rn) * NBASE ^ s \<le> bval NBASE ds1 * bval NBASE ds2"
    and "bval NBASE ds1 * bval NBASE ds2
      \<le> (bval NBASE (mul_digits ds1 ds2 rn) + mul_slack s (min (length ds1) (rn - 2)) 0) * NBASE ^ s"
    using inv * by (simp_all add: mul_inv_def)
qed

section \<open>mul\_var: exact rounding, and the error when digits are cut off\<close>

text \<open>
  The product before it is rounded, for operands that are not zero: \<open>mul_raw\<close> is the
  variable handed to \<open>round_var\<close>.
\<close>

definition mul_ndigits :: "numeric \<Rightarrow> numeric \<Rightarrow> int \<Rightarrow> int" where
  "mul_ndigits a b r = min (ndigits a + ndigits b + 1) (weight a + weight b + 2 + 1 + (r + DEC_DIGITS - 1) sdiv DEC_DIGITS + 2)"

lemma mul_ndigits_alt:
  "mul_ndigits a b r = min (ndigits a + ndigits b + 1) (weight a + weight b + 5 + (r + 3) sdiv 4)"
proof -
  have "weight a + weight b + 2 + 1 + (r + 4 - 1) sdiv 4 + 2 = weight a + weight b + 5 + (r + 3) sdiv 4"
    by (simp add: add.commute)
  then show ?thesis unfolding mul_ndigits_def by (rule arg_cong)
qed

definition mul_raw :: "numeric \<Rightarrow> numeric \<Rightarrow> numeric \<Rightarrow> int \<Rightarrow> numeric" where
  "mul_raw a b res r = res\<lparr>digits := mul_digits (digits a) (digits b) (nat (mul_ndigits a b r)),
     weight := weight a + weight b + 2, sign := (if sign a = sign b then NUMERIC_POS else NUMERIC_NEG)\<rparr>"

lemma mul_var_swap: "ndigits b < ndigits a \<Longrightarrow> mul_var a b res r = mul_var b a res r"
  by (simp add: mul_var_def)

lemma mul_var_ordered:
  "ndigits a \<le> ndigits b \<Longrightarrow> mul_var a b res r =
     (if ndigits a = 0 \<or> ndigits b = 0 \<or> mul_ndigits a b r < 3 then (zero_var res)\<lparr>dscale := r\<rparr>
      else strip_var (round_var (mul_raw a b res r) r))"
  by (simp add: mul_var_def mul_raw_def mul_ndigits_def Let_def)

lemma sgnval_mul_raw:
  "num_ok a \<Longrightarrow> num_ok b \<Longrightarrow> sgnval (mul_raw a b res r) = sgnval a * sgnval b"
  by (auto simp: sgnval_def mul_raw_def num_ok_def)

lemma absval_mult:
  "absval a * absval b = of_int (bval NBASE (digits a) * bval NBASE (digits b))
     * 10 powi (4 * (weight a + weight b + 2 - ndigits a - ndigits b))"
proof -
  have "4 * (weight a + weight b + 2 - ndigits a - ndigits b)
    = 4 * (weight a + 1 - ndigits a) + 4 * (weight b + 1 - ndigits b)" by simp
  then have p: "(10::rat) powi (4 * (weight a + weight b + 2 - ndigits a - ndigits b))
    = 10 powi (4 * (weight a + 1 - ndigits a)) * 10 powi (4 * (weight b + 1 - ndigits b))"
    by (simp only: powi_split)
  show ?thesis unfolding p absval_def by (simp only: of_int_mult ac_simps)
qed

lemma mul_raw_bounds:
  assumes ok: "num_ok a" "num_ok b" "digits b \<noteq> []" and n: "3 \<le> mul_ndigits a b r"
  defines "s \<equiv> nat (ndigits a + ndigits b + 1 - mul_ndigits a b r)"
    and "u \<equiv> (10::rat) powi (4 * (weight a + weight b + 3 - mul_ndigits a b r))"
  shows "num_ok (mul_raw a b res r)"
    and "absval (mul_raw a b res r) \<le> absval a * absval b"
    and "absval a * absval b
      \<le> absval (mul_raw a b res r) + of_int (mul_slack s (min (length (digits a)) (nat (mul_ndigits a b r) - 2)) 0) * u"
proof -
  define rn where "rn = nat (mul_ndigits a b r)"
  define V where "V = bval NBASE (mul_digits (digits a) (digits b) rn)"
  define e where "e = (10::rat) powi (4 * (weight a + weight b + 2 - ndigits a - ndigits b))"
  define sl where "sl = mul_slack s (min (length (digits a)) (rn - 2)) 0"
  have "mul_ndigits a b r \<le> ndigits a + ndigits b + 1" by (simp add: mul_ndigits_alt)
  then have rn: "3 \<le> rn" "rn + s = length (digits a) + length (digits b) + 1" "int rn = mul_ndigits a b r"
    using n by (simp_all add: rn_def s_def ndigits_def nat_eq_iff)
  have d: "digits_ok NBASE (digits a)" "digits_ok NBASE (digits b)" using ok by (simp_all add: num_ok_def)
  note md = mul_digits_value [OF d ok(3) rn(1,2)]
  show "num_ok (mul_raw a b res r)" using md(2) by (simp add: num_ok_def mul_raw_def rn_def)
  have "4 * (weight a + weight b + 3 - mul_ndigits a b r)
    = 4 * int s + 4 * (weight a + weight b + 2 - ndigits a - ndigits b)"
    using rn(2,3) by (simp add: ndigits_def)
  then have "u = 10 powi (4 * int s) * e" unfolding u_def e_def by (simp only: powi_split)
  then have u: "u = of_int (NBASE ^ s) * e" using powi_10000 [of "int s"] by simp
  have e: "0 < e" by (simp add: e_def)
  have av: "absval (mul_raw a b res r) = of_int V * u"
    using md(1) n by (simp add: absval_def mul_raw_def ndigits_def V_def u_def rn_def algebra_simps)
  have "of_int (V * NBASE ^ s) * e \<le> absval a * absval b"
    using md(3) e unfolding absval_mult e_def [symmetric] V_def
    by (intro mult_right_mono) (simp_all only: of_int_le_iff less_imp_le)
  then show "absval (mul_raw a b res r) \<le> absval a * absval b"
    unfolding av u by (simp only: of_int_mult mult.assoc)
  have "absval a * absval b \<le> of_int ((V + sl) * NBASE ^ s) * e"
    using md(4) e unfolding absval_mult e_def [symmetric] V_def sl_def
    by (intro mult_right_mono) (simp_all only: of_int_le_iff less_imp_le)
  then show "absval a * absval b \<le> absval (mul_raw a b res r)
      + of_int (mul_slack s (min (length (digits a)) (nat (mul_ndigits a b r) - 2)) 0) * u"
    unfolding av u sl_def rn_def [symmetric] by (simp only: of_int_mult of_int_add distrib_right mult.assoc)
qed

lemma strip_round_is:
  assumes "num_ok v"
  shows "num_is (strip_var (round_var v r)) (sgnval v * (of_int (round (absval v * 10 powi r)) * 10 powi (- r))) r"
  using assms by (simp add: num_is_def num_wf_strip_var num_ok_round_var numval_round_var)

lemma mul_var_exact_ordered:
  assumes wf: "num_lead a" "num_lead b" and le: "ndigits a \<le> ndigits b"
    and exact: "rscale_of a + rscale_of b \<le> (r + 3) sdiv 4 + 2"
  shows "num_is (mul_var a b res r)
    (sgnval a * sgnval b * (of_int (round (absval a * absval b * 10 powi r)) * 10 powi (- r))) r"
proof (cases "digits a = [] \<or> digits b = []")
  case True
  then have "absval a * absval b = 0" "mul_var a b res r = (zero_var res)\<lparr>dscale := r\<rparr>"
    using le by (auto simp: mul_var_ordered ndigits_def absval_def)
  then show ?thesis using zero_var_is [of r res] by (simp only:) simp
next
  case False
  then have "1 \<le> ndigits a" "1 \<le> ndigits b" by (auto simp: ndigits_def Suc_le_eq)
  then have n: "mul_ndigits a b r = ndigits a + ndigits b + 1" "3 \<le> mul_ndigits a b r"
    using exact by (simp_all add: mul_ndigits_alt rscale_of_def)
  have ok: "num_ok a" "num_ok b" using wf by (simp_all add: num_lead_ok)
  have "absval (mul_raw a b res r) = absval a * absval b"
    using mul_raw_bounds [OF ok _ n(2)] False n(1) by (intro antisym) (auto simp: mul_slack_def)
  moreover have "mul_var a b res r = strip_var (round_var (mul_raw a b res r) r)"
    using le n(2) False by (simp add: mul_var_ordered ndigits_def)
  ultimately show ?thesis
    using strip_round_is [OF mul_raw_bounds(1) [OF ok _ n(2)], of res r] False sgnval_mul_raw [OF ok] by simp
qed

lemma mul_var_exact_is:
  assumes "num_lead a" "num_lead b" "rscale_of a + rscale_of b \<le> (r + 3) sdiv 4 + 2"
  shows "num_is (mul_var a b res r)
    (sgnval a * sgnval b * (of_int (round (absval a * absval b * 10 powi r)) * 10 powi (- r))) r"
  using mul_var_exact_ordered [OF assms(1,2) _ assms(3)] mul_var_exact_ordered [OF assms(2,1), of r res] assms(3)
    mul_var_swap [of b a res r]
  by (cases "ndigits a \<le> ndigits b") (simp_all add: mult.commute add.commute)

lemma ceil4_ge: "r \<le> 4 * ((r + 3) sdiv 4)" for r :: int
proof (cases "0 \<le> r + 3")
  case True
  then show ?thesis by (simp add: sdiv_nonneg)
next
  case False
  then have "(r + 3) sdiv 4 = - (- (r + 3) div 4)" by (simp add: signed_divide_int_def sgn_if)
  then show ?thesis by linarith
qed

lemma powi_mono: "a \<le> b \<Longrightarrow> (10::rat) powi a \<le> 10 powi b"
  by (rule power_int_increasing) simp_all

lemma round_error: "\<bar>of_int (round (x * 10 powi r)) * 10 powi (- r) - x\<bar> \<le> 1 / 2 * (10::rat) powi (- r)"
proof -
  have "x = x * 10 powi r * 10 powi (- r)" by (simp add: mult.assoc)
  then have "of_int (round (x * 10 powi r)) * 10 powi (- r) - x
    = (of_int (round (x * 10 powi r)) - x * 10 powi r) * 10 powi (- r)"
    by (simp add: left_diff_distrib)
  then have "\<bar>of_int (round (x * 10 powi r)) * 10 powi (- r) - x\<bar>
    = \<bar>(of_int (round (x * 10 powi r)) - x * 10 powi r) * 10 powi (- r)\<bar>" by (rule arg_cong)
  also have "\<dots> = \<bar>of_int (round (x * 10 powi r)) - x * 10 powi r\<bar> * 10 powi (- r)" by (simp add: abs_mult)
  also have "\<dots> \<le> 1 / 2 * 10 powi (- r)" by (intro mult_right_mono of_int_round_abs_le) simp
  finally show ?thesis .
qed

lemma mul_slack_error:
  assumes "length (digits a) \<le> 9999" "3 \<le> mul_ndigits a b r"
  defines "s \<equiv> nat (ndigits a + ndigits b + 1 - mul_ndigits a b r)"
    and "u \<equiv> (10::rat) powi (4 * (weight a + weight b + 3 - mul_ndigits a b r))"
  shows "of_int (mul_slack s (min (length (digits a)) (nat (mul_ndigits a b r) - 2)) 0) * u \<le> 10 powi (- r)"
proof (cases "s = 0")
  case False
  define c where "c = (r + 3) sdiv 4"
  have "mul_ndigits a b r = weight a + weight b + 5 + c" using False by (simp add: s_def mul_ndigits_alt c_def min_def split: if_splits)
  then have u: "u = 10 powi (- 8 + - 4 * c)" unfolding u_def by (intro arg_cong [where f = "power_int 10"]) simp
  have "mul_slack s (min (length (digits a)) (nat (mul_ndigits a b r) - 2)) 0 \<le> 10 ^ 8"
    using False assms(1) by (simp add: mul_slack_def)
  then have "of_int (mul_slack s (min (length (digits a)) (nat (mul_ndigits a b r) - 2)) 0) \<le> (of_int (10 ^ 8) :: rat)"
    by (simp only: of_int_le_iff)
  also have "\<dots> = 10 powi 8" by (simp add: power_int_def)
  finally have "of_int (mul_slack s (min (length (digits a)) (nat (mul_ndigits a b r) - 2)) 0) * u \<le> 10 powi 8 * u"
    by (intro mult_right_mono) (simp_all add: u)
  also have "\<dots> = 10 powi (- 4 * c)" unfolding u powi_split [symmetric] by simp
  also have "\<dots> \<le> 10 powi (- r)" using ceil4_ge [of r] by (intro powi_mono) (simp add: c_def)
  finally show ?thesis .
qed (simp add: mul_slack_def)

lemma mul_tiny:
  assumes "num_ok a" "num_ok b" "digits a \<noteq> []" "digits b \<noteq> []" "mul_ndigits a b r < 3"
  shows "absval a * absval b \<le> 10 powi (- r)"
proof -
  have d: "digits_ok NBASE (digits a)" "digits_ok NBASE (digits b)" using assms by (simp_all add: num_ok_def)
  have "1 \<le> ndigits a" "1 \<le> ndigits b" using assms by (auto simp: ndigits_def Suc_le_eq)
  then have w: "weight a + weight b + 2 \<le> - ((r + 3) sdiv 4)" using assms(5) by (simp add: mul_ndigits_alt)
  have "absval a * absval b \<le> 10 powi (4 * (weight a + 1)) * 10 powi (4 * (weight b + 1))"
    using d absval_less [OF d(1)] absval_less [OF d(2)] by (intro mult_mono) (simp_all add: absval_nonneg)
  also have "\<dots> = 10 powi (4 * (weight a + weight b + 2))"
    unfolding powi_split [symmetric] by (intro arg_cong [where f = "power_int 10"]) simp
  also have "\<dots> \<le> 10 powi (- r)" using w ceil4_ge [of r] by (intro powi_mono) simp
  finally show ?thesis .
qed

lemma mul_var_error_ordered:
  assumes wf: "num_lead a" "num_lead b" and le: "ndigits a \<le> ndigits b" and n: "length (digits a) \<le> 9999"
  shows "num_wf (mul_var a b res r) \<and> dscale (mul_var a b res r) = r \<and>
    \<bar>numval (mul_var a b res r) - numval a * numval b\<bar> \<le> 3 / 2 * 10 powi (- r)"
proof -
  have ok: "num_ok a" "num_ok b" using wf by (simp_all add: num_lead_ok)
  have ab: "numval a * numval b = sgnval a * sgnval b * (absval a * absval b)" by (simp add: numval_def)
  have sg: "\<bar>sgnval a * sgnval b\<bar> = 1" by (simp add: sgnval_def)
  consider "digits a = [] \<or> digits b = []" | "digits a \<noteq> []" "digits b \<noteq> []" "mul_ndigits a b r < 3"
    | "digits a \<noteq> []" "digits b \<noteq> []" "3 \<le> mul_ndigits a b r" by linarith
  then show ?thesis
  proof cases
    case 1
    then show ?thesis using le zero_var_is [of r res]
      by (auto simp: mul_var_ordered ndigits_def num_is_def numval_def absval_def)
  next
    case 2
    then have "mul_var a b res r = (zero_var res)\<lparr>dscale := r\<rparr>" using le by (simp add: mul_var_ordered)
    moreover have "\<bar>numval a * numval b\<bar> \<le> 10 powi (- r)"
      using mul_tiny [OF ok 2] absval_nonneg [of a] absval_nonneg [of b] ok
      by (simp add: abs_mult abs_numval num_ok_def)
    moreover have "(0::rat) < 10 powi (- r)" by simp
    ultimately show ?thesis using zero_var_is [of r res] unfolding num_is_def by auto
  next
    case 3
    define V where "V = absval (mul_raw a b res r)"
    define R where "R = of_int (round (V * 10 powi r)) * (10::rat) powi (- r)"
    note b = mul_raw_bounds [OF ok 3(2,3), where res = res]
    have V: "V \<le> absval a * absval b" "absval a * absval b \<le> V + 10 powi (- r)"
      using b mul_slack_error [OF n 3(3)] unfolding V_def by (auto intro: order_trans)
    have "mul_var a b res r = strip_var (round_var (mul_raw a b res r) r)"
      using le 3 by (simp add: mul_var_ordered ndigits_def)
    then have mi: "num_is (mul_var a b res r) (sgnval a * sgnval b * R) r"
      using strip_round_is [OF b(1), of r] by (simp add: sgnval_mul_raw [OF ok] R_def V_def)
    then have "\<bar>numval (mul_var a b res r) - numval a * numval b\<bar> = \<bar>sgnval a * sgnval b * (R - absval a * absval b)\<bar>"
      unfolding ab num_is_def by (simp add: right_diff_distrib)
    also have "\<dots> = \<bar>R - absval a * absval b\<bar>" using sg by (simp add: abs_mult)
    also have "\<dots> \<le> 3 / 2 * 10 powi (- r)" using round_error [of V r, folded R_def] V by linarith
    finally show ?thesis using mi by (simp add: num_is_def)
  qed
qed

lemma mul_var_error_is:
  assumes "num_lead a" "num_lead b" "length (digits a) \<le> 9999 \<or> length (digits b) \<le> 9999"
  shows "num_wf (mul_var a b res r) \<and> dscale (mul_var a b res r) = r \<and>
    \<bar>numval (mul_var a b res r) - numval a * numval b\<bar> \<le> 3 / 2 * 10 powi (- r)"
proof (cases "ndigits a \<le> ndigits b")
  case True
  then have "length (digits a) \<le> 9999" using assms(3) by (auto simp: ndigits_def)
  with True show ?thesis using mul_var_error_ordered [OF assms(1,2)] by blast
next
  case False
  then have le: "ndigits b \<le> ndigits a" and n: "length (digits b) \<le> 9999" using assms(3) by (auto simp: ndigits_def)
  have "mul_var a b res r = mul_var b a res r" using False by (intro mul_var_swap) simp
  then show ?thesis using mul_var_error_ordered [OF assms(2,1) le n, of res r] by (simp add: mult.commute)
qed

section \<open>Properties\<close>

text \<open>
  C25: \<open>add_var\<close> adds exactly: the result is in normal form, its value is the sum of the
  values for every combination of signs and weights, and its display scale is the larger one
  of the operands; the previous contents of the result variable do not matter.
\<close>

theorem add_var_correct:
  assumes "num_lead a" "num_lead b"
  shows "num_wf (add_var a b res) \<and> numval (add_var a b res) = numval a + numval b
    \<and> dscale (add_var a b res) = max (dscale a) (dscale b)"
  using add_var_is [OF assms, of res] by (simp add: num_is_def)

theorem add_var_correct_witness:
  "add_var \<lparr>weight = 0, sign = 0, dscale = 1, digits = [9999, 5000]\<rparr>
     \<lparr>weight = -1, sign = 0, dscale = 2, digits = [5000]\<rparr> numeric_init
     = \<lparr>weight = 1, sign = 0, dscale = 2, digits = [1]\<rparr>
   \<and> numval (add_var \<lparr>weight = 0, sign = 0, dscale = 1, digits = [9999, 5000]\<rparr>
      \<lparr>weight = -1, sign = 0, dscale = 2, digits = [5000]\<rparr> numeric_init) = 10000"
  using add_var_correct [of "\<lparr>weight = 0, sign = 0, dscale = 1, digits = [9999, 5000]\<rparr>"
      "\<lparr>weight = -1, sign = 0, dscale = 2, digits = [5000]\<rparr>" numeric_init]
  by (simp add: num_lead_def num_ok_def numval_def sgnval_def absval_def ndigits_def
      power_int_def power_one_over) code_simp

text \<open>
  \<open>sub_var\<close> subtracts exactly: the result is in normal form (an exact zero is the
  positive zero without digits), its value is the difference of the values for every
  combination of signs and magnitudes, and its display scale is the larger one.
\<close>

theorem sub_var_correct:
  assumes "num_lead a" "num_lead b"
  shows "num_wf (sub_var a b res) \<and> numval (sub_var a b res) = numval a - numval b
    \<and> dscale (sub_var a b res) = max (dscale a) (dscale b)"
  using sub_var_is [OF assms, of res] by (simp add: num_is_def)

theorem sub_var_correct_witness:
  "sub_var \<lparr>weight = -1, sign = 0, dscale = 4, digits = [1]\<rparr>
     \<lparr>weight = 1, sign = 0, dscale = 0, digits = [1]\<rparr> numeric_init
     = \<lparr>weight = 0, sign = 16384, dscale = 4, digits = [9999, 9999]\<rparr>
   \<and> numval (sub_var \<lparr>weight = -1, sign = 0, dscale = 4, digits = [1]\<rparr>
      \<lparr>weight = 1, sign = 0, dscale = 0, digits = [1]\<rparr> numeric_init) = 1 / 10000 - 10000"
proof
  show "sub_var \<lparr>weight = -1, sign = 0, dscale = 4, digits = [1]\<rparr>
     \<lparr>weight = 1, sign = 0, dscale = 0, digits = [1]\<rparr> numeric_init
     = \<lparr>weight = 0, sign = 16384, dscale = 4, digits = [9999, 9999]\<rparr>" by code_simp
  have "numval \<lparr>weight = -1, sign = 0, dscale = 4, digits = [1]\<rparr> = 1 / 10000"
    and "numval \<lparr>weight = 1, sign = 0, dscale = 0, digits = [1]\<rparr> = 10000"
    by (simp_all add: numval_def sgnval_def absval_def ndigits_def power_int_def power_one_over)
  then show "numval (sub_var \<lparr>weight = -1, sign = 0, dscale = 4, digits = [1]\<rparr>
      \<lparr>weight = 1, sign = 0, dscale = 0, digits = [1]\<rparr> numeric_init) = 1 / 10000 - 10000"
    using sub_var_correct [of "\<lparr>weight = -1, sign = 0, dscale = 4, digits = [1]\<rparr>"
      "\<lparr>weight = 1, sign = 0, dscale = 0, digits = [1]\<rparr>" numeric_init]
    by (simp add: num_lead_def num_ok_def)
qed

text \<open>
  C26: \<open>mul_var\<close> returns the product rounded half away from zero to \<open>rscale\<close> decimal digits
  whenever the product has at most two base-\<open>NBASE\<close> digits more behind the point than
  \<open>rscale\<close> asks for. The 32-bit accumulator never overflows, whatever the lengths.
\<close>

theorem mul_var_exact:
  assumes "num_lead a" "num_lead b" "rscale_of a + rscale_of b \<le> (r + 3) sdiv 4 + 2"
  shows "num_wf (mul_var a b res r) \<and> dscale (mul_var a b res r) = r \<and>
    numval (mul_var a b res r)
      = sgnval a * sgnval b * (of_int (round (\<bar>numval a * numval b\<bar> * 10 powi r)) * 10 powi (- r))"
  using mul_var_exact_is [OF assms, of res] assms(1,2)
  by (simp add: num_is_def abs_mult abs_numval num_lead_digits)

theorem mul_var_exact_witness:
  "mul_var \<lparr>weight = 0, sign = 16384, dscale = 2, digits = [9999, 9900]\<rparr>
     \<lparr>weight = 0, sign = 0, dscale = 1, digits = [1, 5000]\<rparr> numeric_init 2
     = \<lparr>weight = 1, sign = 16384, dscale = 2, digits = [1, 4999, 9900]\<rparr>
   \<and> num_wf (mul_var \<lparr>weight = 0, sign = 16384, dscale = 2, digits = [9999, 9900]\<rparr>
     \<lparr>weight = 0, sign = 0, dscale = 1, digits = [1, 5000]\<rparr> numeric_init 2)"
proof
  show "mul_var \<lparr>weight = 0, sign = 16384, dscale = 2, digits = [9999, 9900]\<rparr>
     \<lparr>weight = 0, sign = 0, dscale = 1, digits = [1, 5000]\<rparr> numeric_init 2
     = \<lparr>weight = 1, sign = 16384, dscale = 2, digits = [1, 4999, 9900]\<rparr>" by code_simp
  show "num_wf (mul_var \<lparr>weight = 0, sign = 16384, dscale = 2, digits = [9999, 9900]\<rparr>
     \<lparr>weight = 0, sign = 0, dscale = 1, digits = [1, 5000]\<rparr> numeric_init 2)"
    by (rule conjunct1 [OF mul_var_exact])
      (simp_all add: num_lead_def num_ok_def rscale_of_def ndigits_def signed_divide_int_def)
qed

text \<open>
  when \<open>mul_var\<close> cuts off low-order digits of the product, the result stays within one
  and a half units of the last requested decimal of the exact product, as long as the
  shorter operand has fewer than \<open>NBASE\<close> digits.
\<close>

theorem mul_var_error_bound:
  assumes "num_lead a" "num_lead b" "length (digits a) \<le> 9999 \<or> length (digits b) \<le> 9999"
  shows "num_wf (mul_var a b res r) \<and> dscale (mul_var a b res r) = r \<and>
    \<bar>numval (mul_var a b res r) - numval a * numval b\<bar> \<le> 3 / 2 * 10 powi (- r)"
  using assms by (rule mul_var_error_is)

theorem mul_var_error_bound_witness:
  "mul_var \<lparr>weight = -1, sign = 0, dscale = 16, digits = [3333, 3333, 3333, 3333]\<rparr>
     \<lparr>weight = -1, sign = 0, dscale = 4, digits = [3333]\<rparr> numeric_init 0
     = \<lparr>weight = 0, sign = 0, dscale = 0, digits = []\<rparr>
   \<and> \<bar>numval (mul_var \<lparr>weight = -1, sign = 0, dscale = 16, digits = [3333, 3333, 3333, 3333]\<rparr>
     \<lparr>weight = -1, sign = 0, dscale = 4, digits = [3333]\<rparr> numeric_init 0)
     - numval \<lparr>weight = -1, sign = 0, dscale = 16, digits = [3333, 3333, 3333, 3333]\<rparr>
       * numval \<lparr>weight = -1, sign = 0, dscale = 4, digits = [3333]\<rparr>\<bar> \<le> 3 / 2 * 10 powi 0"
proof
  show "mul_var \<lparr>weight = -1, sign = 0, dscale = 16, digits = [3333, 3333, 3333, 3333]\<rparr>
     \<lparr>weight = -1, sign = 0, dscale = 4, digits = [3333]\<rparr> numeric_init 0
     = \<lparr>weight = 0, sign = 0, dscale = 0, digits = []\<rparr>" by code_simp
qed (use mul_var_error_bound [of "\<lparr>weight = -1, sign = 0, dscale = 16, digits = [3333, 3333, 3333, 3333]\<rparr>"
      "\<lparr>weight = -1, sign = 0, dscale = 4, digits = [3333]\<rparr>" numeric_init 0]
      in \<open>simp add: num_lead_def num_ok_def\<close>)

end
