(* ===== verification/Numeric_Int.thy ===== *)
theory Numeric_Int
  imports Numeric_Core
begin

text \<open>
  The conversions between \<open>numeric\<close> and the integer types: \<open>pg_sub_s64_overflow\<close>,
  \<open>pg_mul_s64_overflow\<close> (the portable branch, the one that is compiled: neither
  \<open>HAVE__BUILTIN_OP_OVERFLOW\<close> nor \<open>HAVE_INT128\<close> is defined by the build),
  \<open>numericvar_to_int64\<close>, \<open>numericvar_to_int32\<close>, \<open>int64_to_numericvar\<close> and the members
  that call them. A 64-bit integer is an \<open>int\<close> with its range \<open>in_s 64\<close>; the arithmetic
  that the code does at that width is wrapped with \<open>i64\<close>.
\<close>

section \<open>Overflow checks\<close>

abbreviation (input) PG_INT64_MAX :: int where "PG_INT64_MAX \<equiv> 9223372036854775807"
abbreviation (input) PG_INT64_MIN :: int where "PG_INT64_MIN \<equiv> - 9223372036854775808"
abbreviation (input) PG_INT32_MAX :: int where "PG_INT32_MAX \<equiv> 2147483647"
abbreviation (input) PG_INT32_MIN :: int where "PG_INT32_MIN \<equiv> - 2147483648"

text \<open>The flag returned and the value stored through the pointer.\<close>

definition pg_sub_s64_overflow :: "int \<Rightarrow> int \<Rightarrow> bool \<times> int" where
  "pg_sub_s64_overflow a b =
     (if (a < 0 \<and> b > 0 \<and> a < PG_INT64_MIN + b) \<or> (a > 0 \<and> b < 0 \<and> a > PG_INT64_MAX + b)
      then (True, 24301) else (False, i64 (a - b)))"

definition pg_mul_s64_overflow :: "int \<Rightarrow> int \<Rightarrow> bool \<times> int" where
  "pg_mul_s64_overflow a b =
     (if (a > PG_INT32_MAX \<or> a < PG_INT32_MIN \<or> b > PG_INT32_MAX \<or> b < PG_INT32_MIN) \<and>
         a \<noteq> 0 \<and> a \<noteq> 1 \<and> b \<noteq> 0 \<and> b \<noteq> 1 \<and>
         ((a > 0 \<and> b > 0 \<and> a > PG_INT64_MAX sdiv b) \<or>
          (a > 0 \<and> b < 0 \<and> b < PG_INT64_MIN sdiv a) \<or>
          (a < 0 \<and> b > 0 \<and> a < PG_INT64_MIN sdiv b) \<or>
          (a < 0 \<and> b < 0 \<and> a < PG_INT64_MAX sdiv b))
      then (True, 24301) else (False, i64 (a * b)))"

section \<open>numeric to integer\<close>

text \<open>The loop over the digits before the point, at index \<open>i\<close> with \<open>n\<close> rounds left.\<close>

fun to_int64_loop :: "int list \<Rightarrow> nat \<Rightarrow> nat \<Rightarrow> int \<Rightarrow> int option" where
  "to_int64_loop ds i 0 val = Some val"
| "to_int64_loop ds i (Suc n) val =
     (let (o1, val) = pg_mul_s64_overflow val NBASE
      in if o1 then None
         else if i < length ds
              then let (o2, val) = pg_sub_s64_overflow val (ds ! i)
                   in if o2 then None else to_int64_loop ds (Suc i) n val
              else to_int64_loop ds (Suc i) n val)"

definition numericvar_to_int64 :: "numeric \<Rightarrow> int option" where
  "numericvar_to_int64 var =
     (let rounded = strip_var (round_var var 0)
      in if ndigits rounded = 0 then Some 0
         else case to_int64_loop (digits rounded) 1 (nat (weight rounded)) (- hd (digits rounded)) of
                None \<Rightarrow> None
              | Some val \<Rightarrow>
                  if sign rounded \<noteq> NUMERIC_NEG
                  then (if val = PG_INT64_MIN then None else Some (i64 (- val)))
                  else Some val)"

definition numericvar_to_int32 :: "numeric \<Rightarrow> int result" where
  "numericvar_to_int32 var =
     (case numericvar_to_int64 var of
        None \<Rightarrow> Inl (PqException ''integer out of range'')
      | Some val \<Rightarrow>
          (if i32 val \<noteq> val then Inl (PqException ''integer out of range'') else Inr (i32 val)))"

definition operator_int64 :: "numeric \<Rightarrow> int result" where
  "operator_int64 v =
     (case numericvar_to_int64 v of
        Some r \<Rightarrow> Inr r
      | None \<Rightarrow> Inl (PqException ''Unable to convert to int64!''))"

definition operator_int32 :: "numeric \<Rightarrow> int result" where
  "operator_int32 v = numericvar_to_int32 v"

section \<open>integer to numeric\<close>

text \<open>The digits of an unsigned value, stored from the end of the buffer.\<close>

fun u64_digits :: "nat \<Rightarrow> int list \<Rightarrow> int list" where
  "u64_digits uval acc =
     (let newuval = uval div 10000;
          acc = int (uval - newuval * 10000) # acc
      in if newuval \<noteq> 0 then u64_digits newuval acc else acc)"

declare u64_digits.simps [simp del]

definition int64_to_numericvar :: "int \<Rightarrow> numeric \<Rightarrow> numeric" where
  "int64_to_numericvar val var =
     (let (sg, uval) = (if val < 0 then (NUMERIC_NEG, i64 (- val) mod 2 ^ 64) else (NUMERIC_POS, val))
      in if val = 0 then var\<lparr>sign := sg, dscale := 0, digits := [], weight := 0\<rparr>
         else let ds = u64_digits (nat uval) []
              in var\<lparr>sign := sg, dscale := 0, digits := ds, weight := int (length ds) - 1\<rparr>)"

definition from_int64 :: "int \<Rightarrow> numeric" where
  "from_int64 val = int64_to_numericvar val numeric_init"

definition from_int32 :: "int \<Rightarrow> numeric" where
  "from_int32 val = from_int64 val"

section \<open>The overflow checks are exact\<close>

lemma in_s_64: "in_s 64 x \<longleftrightarrow> PG_INT64_MIN \<le> x \<and> x \<le> PG_INT64_MAX"
  by (auto simp: in_s_def)

lemma pg_sub_s64_overflow_exact:
  assumes "in_s 64 a" "in_s 64 b" "a \<noteq> 0 \<or> b \<noteq> PG_INT64_MIN"
  shows "fst (pg_sub_s64_overflow a b) \<longleftrightarrow> \<not> in_s 64 (a - b)"
    and "in_s 64 (a - b) \<Longrightarrow> snd (pg_sub_s64_overflow a b) = a - b"
  using assms by (auto simp: pg_sub_s64_overflow_def in_s_64 i64_id)

lemma sdiv_neg2: "0 < a \<Longrightarrow> b < 0 \<Longrightarrow> a sdiv b = - (a div - b)" for a b :: int
  by (simp add: signed_divide_int_def)

lemma small_product:
  assumes "PG_INT32_MIN \<le> a" "a \<le> PG_INT32_MAX" "PG_INT32_MIN \<le> b" "b \<le> PG_INT32_MAX"
  shows "in_s 64 (a * b)"
proof -
  have "\<bar>a * b\<bar> \<le> 2147483648 * 2147483648" unfolding abs_mult using assms by (intro mult_mono) auto
  then show ?thesis unfolding in_s_64 by linarith
qed

lemma pg_mul_s64_overflow_exact:
  assumes "in_s 64 a" "in_s 64 b"
  shows "fst (pg_mul_s64_overflow a b) \<longleftrightarrow> \<not> in_s 64 (a * b)"
    and "in_s 64 (a * b) \<Longrightarrow> snd (pg_mul_s64_overflow a b) = a * b"
proof -
  have "fst (pg_mul_s64_overflow a b) \<longleftrightarrow> \<not> in_s 64 (a * b)"
  proof (cases "a = 0 \<or> a = 1 \<or> b = 0 \<or> b = 1 \<or>
      (PG_INT32_MIN \<le> a \<and> a \<le> PG_INT32_MAX \<and> PG_INT32_MIN \<le> b \<and> b \<le> PG_INT32_MAX)")
    case True
    then have "in_s 64 (a * b)" using assms small_product [of a b] by (auto simp: in_s_64)
    with True show ?thesis by (auto simp: pg_mul_s64_overflow_def)
  next
    case False
    consider "0 < a" "0 < b" | "0 < a" "b < 0" | "a < 0" "0 < b" | "a < 0" "b < 0" using False by linarith
    then show ?thesis
    proof cases
      case 1
      then have "0 < a * b" by simp
      then have "PG_INT64_MIN \<le> a * b" by linarith
      with 1 False show ?thesis using div_less_iff [of b PG_INT64_MAX a]
        by (auto simp: pg_mul_s64_overflow_def in_s_64 sdiv_nonneg)
    next
      case 2
      then have "a * b < 0" by (simp add: mult_pos_neg)
      then have "a * b \<le> PG_INT64_MAX" by linarith
      with 2 False show ?thesis using div_less_iff [of a "- PG_INT64_MIN" "- b"]
        by (auto simp: pg_mul_s64_overflow_def in_s_64 sdiv_nonneg mult.commute)
    next
      case 3
      then have "a * b < 0" by (simp add: mult_neg_pos)
      then have "a * b \<le> PG_INT64_MAX" by linarith
      with 3 False show ?thesis using div_less_iff [of b "- PG_INT64_MIN" "- a"]
        by (auto simp: pg_mul_s64_overflow_def in_s_64 sdiv_nonneg)
    next
      case 4
      then have "0 < a * b" by (simp add: mult_neg_neg)
      then have "PG_INT64_MIN \<le> a * b" by linarith
      with 4 False show ?thesis using div_less_iff [of "- b" PG_INT64_MAX "- a"]
        by (auto simp: pg_mul_s64_overflow_def in_s_64 sdiv_neg2)
    qed
  qed
  then show "fst (pg_mul_s64_overflow a b) \<longleftrightarrow> \<not> in_s 64 (a * b)"
    and "in_s 64 (a * b) \<Longrightarrow> snd (pg_mul_s64_overflow a b) = a * b"
    by (auto simp: pg_mul_s64_overflow_def in_s_64 i64_id split: if_splits)
qed

section \<open>numericvar\_to\_int64 rounds and checks the range\<close>

text \<open>The first \<open>i\<close> digits before the point as an integer; digits that were stripped count as 0.\<close>

fun lead_int :: "int list \<Rightarrow> nat \<Rightarrow> int" where
  "lead_int ds 0 = 0"
| "lead_int ds (Suc i) = lead_int ds i * NBASE + (if i < length ds then ds ! i else 0)"

lemma lead_int_nonneg: "digits_ok NBASE ds \<Longrightarrow> 0 \<le> lead_int ds i"
  by (induction i) (auto simp: digits_ok_def)

lemma lead_int_mono: "digits_ok NBASE ds \<Longrightarrow> lead_int ds i \<le> lead_int ds (i + n)"
proof (induction n)
  case (Suc n)
  have "lead_int ds (i + n) * 1 \<le> lead_int ds (i + n) * NBASE"
    using Suc.prems by (intro mult_left_mono lead_int_nonneg) simp_all
  moreover have "0 \<le> (if i + n < length ds then ds ! (i + n) else 0)"
    using digits_ok_nth [OF Suc.prems, of "i + n"] by simp
  ultimately show ?case using Suc by simp
qed simp

lemma lead_int_bval:
  "length ds \<le> i \<Longrightarrow> lead_int ds i = bval NBASE ds * NBASE ^ (i - length ds)"
proof -
  have "lead_int ds i = bval NBASE (take i ds)" if "i \<le> length ds" for i
    using that by (induction i) (simp_all add: take_Suc_conv_app_nth)
  then have base: "lead_int ds (length ds) = bval NBASE ds" by simp
  have "lead_int ds (length ds + n) = bval NBASE ds * NBASE ^ n" for n
    by (induction n) (simp_all add: base)
  then show "length ds \<le> i \<Longrightarrow> ?thesis" by (metis le_add_diff_inverse)
qed

lemma to_int64_loop_exact:
  assumes "digits_ok NBASE ds" "in_s 64 (- lead_int ds i)"
  shows "to_int64_loop ds i n (- lead_int ds i)
    = (if in_s 64 (- lead_int ds (i + n)) then Some (- lead_int ds (i + n)) else None)"
  using assms(2)
proof (induction n arbitrary: i)
  case (Suc n)
  define v where "v = lead_int ds i"
  define d where "d = (if i < length ds then ds ! i else 0)"
  have v: "0 \<le> v" using assms by (simp add: v_def lead_int_nonneg)
  have d: "0 \<le> d" "d < NBASE" using digits_ok_nth [OF assms(1), of i] by (auto simp: d_def)
  have nxt: "lead_int ds (Suc i) = v * NBASE + d" by (simp add: v_def d_def)
  have le: "v * NBASE + d \<le> lead_int ds (i + Suc n)" using lead_int_mono [OF assms(1), of "Suc i" n] nxt by simp
  have r: "in_s 64 (- v)" "in_s 64 NBASE" "in_s 64 d" using Suc.prems d by (simp_all add: v_def in_s_64)
  note mul = pg_mul_s64_overflow_exact [OF r(1,2)]
  show ?case
  proof (cases "in_s 64 (- v * NBASE)")
    case False
    then have "\<not> in_s 64 (- lead_int ds (i + Suc n))" using v d le by (auto simp: in_s_64)
    with False mul show ?thesis by (simp add: v_def split_def)
  next
    case True
    have "- v * NBASE \<noteq> 0 \<or> d \<noteq> PG_INT64_MIN" using d by simp
    note sub = pg_sub_s64_overflow_exact [OF True r(3) this]
    show ?thesis
    proof (cases "in_s 64 (- (v * NBASE + d))")
      case False
      then have "\<not> in_s 64 (- lead_int ds (i + Suc n))" using v d le by (auto simp: in_s_64)
      moreover have "i < length ds" using False True by (cases "i < length ds") (simp_all add: d_def)
      ultimately show ?thesis using True mul sub False by (simp add: v_def d_def split_def Let_def)
    next
      case ok: True
      have "to_int64_loop ds i (Suc n) (- v) = to_int64_loop ds (Suc i) n (- lead_int ds (Suc i))"
        unfolding nxt using True mul sub ok d by (cases "i < length ds") (simp_all add: d_def split_def Let_def)
      then show ?thesis using Suc.IH [of "Suc i"] ok unfolding nxt v_def by simp
    qed
  qed
qed simp

text \<open>In normal form an integer has no digits behind the point.\<close>

lemma integral_shape:
  assumes wf: "num_wf v" and ne: "digits v \<noteq> []" and N: "absval v = of_int N"
  shows "ndigits v \<le> weight v + 1" and "N = lead_int (digits v) (nat (weight v + 1))"
proof -
  show le: "ndigits v \<le> weight v + 1" using scaled_shape [OF wf ne, of 0 N] N by simp
  have "0 < ndigits v" using ne by (simp add: ndigits_def)
  define k where "k = nat (weight v + 1 - ndigits v)"
  have "weight v + 1 - ndigits v = int k" using le by (simp add: k_def)
  then have "absval v = of_int (bval NBASE (digits v)) * of_int (NBASE ^ k)"
    unfolding absval_def powi_10000 [symmetric] by (simp only: power_int_of_nat of_int_power of_int_numeral)
  then have "N = bval NBASE (digits v) * NBASE ^ k" unfolding N by (simp only: of_int_mult [symmetric] of_int_eq_iff)
  moreover have "nat (weight v + 1) - length (digits v) = k" using le by (simp add: k_def ndigits_def nat_diff_distrib')
  ultimately show "N = lead_int (digits v) (nat (weight v + 1))"
    using le lead_int_bval [of "digits v" "nat (weight v + 1)"] by (simp add: ndigits_def nat_le_iff)
qed

lemma numericvar_to_int64_exact:
  assumes "num_ok v"
  shows "numericvar_to_int64 v = (let x = (if sign v = NUMERIC_NEG then -1 else 1) * round (absval v)
     in if in_s 64 x then Some x else None)"
proof -
  define R where "R = strip_var (round_var v 0)"
  define N where "N = round (absval v)"
  have wf: "num_wf R" using assms by (simp add: R_def num_wf_strip_var num_ok_round_var)
  have av: "absval R = of_int N"
    using absval_round_var [of v 0] assms by (simp add: R_def N_def num_ok_def)
  have N0: "0 \<le> N" using av absval_nonneg [OF num_wf_digits [OF wf]] by simp
  show ?thesis
  proof (cases "digits R = []")
    case True
    then have "N = 0" using av by (simp add: absval_def)
    with True show ?thesis by (simp add: numericvar_to_int64_def R_def [symmetric] N_def [symmetric] ndigits_def in_s_64)
  next
    case False
    note sh = integral_shape [OF wf False av]
    obtain d ds where d: "digits R = d # ds" using False by (cases "digits R") auto
    have "0 < ndigits R" using False by (simp add: ndigits_def)
    then have w: "nat (weight R + 1) = 1 + nat (weight R)" using sh(1) by simp
    have dok: "digits_ok NBASE (digits R)" using wf by (rule num_wf_digits)
    have hd: "- hd (digits R) = - lead_int (digits R) 1" "in_s 64 (- lead_int (digits R) 1)"
      using dok by (simp_all add: d in_s_64)
    have "absval (round_var v 0) \<noteq> 0" using absval_pos [OF num_wf_ok num_wf_nz, OF wf wf False] by (simp add: R_def)
    then have sg: "sign R = sign v" using sign_round_var [of v 0] sign_strip_var False by (auto simp: R_def)
    note lp = to_int64_loop_exact [OF dok hd(2), of "nat (weight R)", folded hd(1) w, folded sh(2)]
    show ?thesis
      using lp False N0 d sg by (auto simp: numericvar_to_int64_def R_def [symmetric] N_def [symmetric] ndigits_def in_s_64 i64_id Let_def)
  qed
qed

section \<open>int64\_to\_numericvar is exact\<close>

lemma u64_digits_value:
  "\<exists>ds. u64_digits n acc = ds @ acc \<and> bval NBASE ds = int n \<and> digits_ok NBASE ds \<and> ds \<noteq> [] \<and> (0 < n \<longrightarrow> hd ds \<noteq> 0)"
proof (induction n acc rule: u64_digits.induct)
  case (1 n acc)
  define q where "q = n div 10000"
  define d where "d = int (n - q * 10000)"
  have d: "0 \<le> d" "d < NBASE" "int n = int q * NBASE + d" by (simp_all add: q_def d_def)
  have step: "u64_digits n acc = (if q \<noteq> 0 then u64_digits q (d # acc) else d # acc)"
    by (subst u64_digits.simps) (simp add: q_def d_def Let_def)
  show ?case
  proof (cases "q = 0")
    case True
    then show ?thesis using step d by (intro exI [of _ "[d]"]) auto
  next
    case False
    with 1 obtain ds where ds: "u64_digits q (d # acc) = ds @ d # acc" "bval NBASE ds = int q" "digits_ok NBASE ds"
      "ds \<noteq> []" "hd ds \<noteq> 0" by (force simp: q_def d_def)
    then show ?thesis using step d False by (intro exI [of _ "ds @ [d]"]) auto
  qed
qed

text \<open>The buffer of \<open>int64_to_numericvar\<close> has \<open>20 / DEC_DIGITS\<close> cells, which is enough.\<close>

lemma u64_digits_length: "0 < n \<Longrightarrow> n < 2 ^ 64 \<Longrightarrow> length (u64_digits n []) \<le> 5"
proof -
  assume n: "0 < n" "n < 2 ^ 64"
  obtain ds where ds: "u64_digits n [] = ds" "bval NBASE ds = int n" "digits_ok NBASE ds" "ds \<noteq> []" "hd ds \<noteq> 0"
    using u64_digits_value [of n "[]"] n by auto
  have "NBASE ^ (length ds - 1) \<le> int n" using bval_lower [OF ds(3,4,5)] ds(2) by simp
  also have "\<dots> < int (2 ^ 64)" using n(2) by (simp only: of_nat_less_iff)
  also have "\<dots> \<le> NBASE ^ 5" by simp
  finally have "length ds - 1 < 5" by (rule power_less_imp_less_exp [rotated]) simp
  then show ?thesis using ds(1) by simp
qed

lemma uval_of: "in_s 64 val \<Longrightarrow> val \<noteq> 0 \<Longrightarrow>
   (if val < 0 then i64 (- val) mod 2 ^ 64 else val) = \<bar>val\<bar>"
proof (cases "val = PG_INT64_MIN")
  case True
  then show ?thesis by (simp add: wrap_s_def)
next
  case False
  assume "in_s 64 val" "val \<noteq> 0"
  with False show ?thesis by (simp add: in_s_64 i64_id)
qed

lemma int64_to_numericvar_is:
  assumes "in_s 64 val"
  shows "num_lead (int64_to_numericvar val var)" "numval (int64_to_numericvar val var) = of_int val"
    and "dscale (int64_to_numericvar val var) = 0" "length (digits (int64_to_numericvar val var)) \<le> 5"
proof -
  have "num_lead (int64_to_numericvar val var) \<and> numval (int64_to_numericvar val var) = of_int val
    \<and> dscale (int64_to_numericvar val var) = 0 \<and> length (digits (int64_to_numericvar val var)) \<le> 5"
  proof (cases "val = 0")
    case True
    then show ?thesis by (simp add: int64_to_numericvar_def num_lead_def num_ok_def numval_def absval_def)
  next
    case False
    define n where "n = nat \<bar>val\<bar>"
    have n: "0 < n" "int n = \<bar>val\<bar>" using False by (simp_all add: n_def)
    have n64: "n < 2 ^ 64" using assms unfolding n_def in_s_64 by (simp add: nat_less_iff) linarith
    obtain ds where ds: "u64_digits n [] = ds" "bval NBASE ds = int n" "digits_ok NBASE ds" "ds \<noteq> []" "hd ds \<noteq> 0"
      using u64_digits_value [of n "[]"] n by auto
    have "int64_to_numericvar val var = var\<lparr>sign := (if val < 0 then NUMERIC_NEG else NUMERIC_POS), dscale := 0,
        digits := ds, weight := int (length ds) - 1\<rparr>"
      using uval_of [OF assms False] False ds(1) by (auto simp: int64_to_numericvar_def n_def Let_def split: if_splits)
    moreover have "length ds \<le> 5" using u64_digits_length [OF n(1) n64] ds(1) by simp
    ultimately show ?thesis using ds n(2)
      by (simp add: num_lead_def num_ok_def numval_def sgnval_def absval_def ndigits_def)
  qed
  then show "num_lead (int64_to_numericvar val var)" "numval (int64_to_numericvar val var) = of_int val"
    and "dscale (int64_to_numericvar val var) = 0" "length (digits (int64_to_numericvar val var)) \<le> 5" by simp_all
qed

section \<open>Properties\<close>

text \<open>
  C27: \<open>numericvar_to_int64\<close> rounds half away from zero to an integer and returns it exactly
  when it fits into 64 bits, the smallest 64-bit integer included; otherwise it reports
  overflow. Its overflow checks never misfire on the way.
\<close>

theorem numericvar_to_int64_correct:
  assumes "num_ok v"
  shows "numericvar_to_int64 v = (let x = (if sign v = NUMERIC_NEG then -1 else 1) * round \<bar>numval v\<bar>
     in if - (2 ^ 63) \<le> x \<and> x < 2 ^ 63 then Some x else None)"
  using numericvar_to_int64_exact [OF assms] assms by (simp add: abs_numval num_ok_def in_s_def)

theorem numericvar_to_int64_correct_witness:
  "numericvar_to_int64 \<lparr>weight = 4, sign = 16384, dscale = 1, digits = [922, 3372, 368, 5477, 5808, 4999]\<rparr>
     = Some (- 9223372036854775808)
   \<and> numericvar_to_int64 \<lparr>weight = 4, sign = 0, dscale = 1, digits = [922, 3372, 368, 5477, 5808, 4999]\<rparr> = None"
proof -
  have r: "round \<bar>numval \<lparr>weight = 4, sign = s, dscale = 1, digits = [922, 3372, 368, 5477, 5808, 4999]\<rparr>\<bar>
      = 9223372036854775808" for s
    unfolding round_def
    by (subst abs_numval) (simp_all add: absval_def ndigits_def power_int_def power_one_over floor_eq_iff)
  show ?thesis
    using numericvar_to_int64_correct [of "\<lparr>weight = 4, sign = 16384, dscale = 1, digits = [922, 3372, 368, 5477, 5808, 4999]\<rparr>"]
      numericvar_to_int64_correct [of "\<lparr>weight = 4, sign = 0, dscale = 1, digits = [922, 3372, 368, 5477, 5808, 4999]\<rparr>"]
    by (simp add: num_ok_def r)
qed

text \<open>
  \<open>int64_to_numericvar\<close> represents every 64-bit integer exactly, without overrunning
  its buffer of five digits, and \<open>numericvar_to_int64\<close> reads it back; a 32-bit integer
  also comes back through \<open>numericvar_to_int32\<close>, which refuses every other one.
\<close>

theorem int64_roundtrip:
  assumes "in_s 64 x"
  shows "numval (int64_to_numericvar x var) = of_int x \<and> length (digits (int64_to_numericvar x var)) \<le> 5
    \<and> numericvar_to_int64 (int64_to_numericvar x var) = Some x
    \<and> numericvar_to_int32 (int64_to_numericvar x var)
        = (if in_s 32 x then Inr x else Inl (PqException ''integer out of range''))"
proof -
  note i = int64_to_numericvar_is [OF assms, of var]
  have ok: "num_ok (int64_to_numericvar x var)" using i(1) by (rule num_lead_ok)
  have "sign (int64_to_numericvar x var) = (if x < 0 then NUMERIC_NEG else NUMERIC_POS)"
    by (simp add: int64_to_numericvar_def Let_def)
  moreover have "absval (int64_to_numericvar x var) = of_int \<bar>x\<bar>"
    using abs_numval [OF num_lead_digits [OF i(1)]] i(2) by simp
  ultimately have "numericvar_to_int64 (int64_to_numericvar x var) = Some x"
    using numericvar_to_int64_exact [OF ok] assms by (simp add: abs_if round_of_int del: of_int_abs)
  moreover have "i32 x = x \<longleftrightarrow> in_s 32 x" using wrap_s_id [of 32 x] wrap_s_in_s [of 32 x] by auto
  ultimately show ?thesis using i by (simp add: numericvar_to_int32_def)
qed

theorem int64_roundtrip_witness:
  "numericvar_to_int64 (int64_to_numericvar (- 9223372036854775808) numeric_init) = Some (- 9223372036854775808)
   \<and> numericvar_to_int32 (int64_to_numericvar 2147483648 numeric_init) = Inl (PqException ''integer out of range'')"
  using int64_roundtrip [of "- 9223372036854775808" numeric_init] int64_roundtrip [of 2147483648 numeric_init]
  by (simp add: in_s_def)

text \<open>
  the portable overflow check of the multiplication is exact: for 64-bit operands it
  reports overflow if and only if the product does not fit, and stores the product otherwise.
\<close>

theorem pg_mul_s64_overflow_correct:
  assumes "in_s 64 a" "in_s 64 b"
  shows "(fst (pg_mul_s64_overflow a b) \<longleftrightarrow> \<not> in_s 64 (a * b)) \<and>
    (in_s 64 (a * b) \<longrightarrow> snd (pg_mul_s64_overflow a b) = a * b)"
  using pg_mul_s64_overflow_exact [OF assms] by blast

theorem pg_mul_s64_overflow_correct_witness:
  "fst (pg_mul_s64_overflow (- 922337203685477581) 10000) \<and> \<not> fst (pg_mul_s64_overflow (- 922337203685477) 10000)"
  using pg_mul_s64_overflow_correct [of "- 922337203685477581" 10000]
    pg_mul_s64_overflow_correct [of "- 922337203685477" 10000]
  by (simp add: in_s_def)

text \<open>
  the portable overflow check of the subtraction has one gap: subtracting the smallest
  64-bit integer from 0 overflows and is not reported; every other overflow is, and nothing
  else is.
\<close>

theorem pg_sub_s64_overflow_gap:
  assumes "in_s 64 a" "in_s 64 b"
  shows "fst (pg_sub_s64_overflow a b) \<longleftrightarrow> \<not> in_s 64 (a - b) \<and> \<not> (a = 0 \<and> b = - (2 ^ 63))"
  using assms pg_sub_s64_overflow_exact(1) [OF assms] by (auto simp: pg_sub_s64_overflow_def in_s_64)

theorem pg_sub_s64_overflow_gap_witness:
  "\<not> fst (pg_sub_s64_overflow 0 (- 9223372036854775808)) \<and> fst (pg_sub_s64_overflow 1 (- 9223372036854775808))"
  using pg_sub_s64_overflow_gap [of 0 "- 9223372036854775808"] pg_sub_s64_overflow_gap [of 1 "- 9223372036854775808"]
  by (simp add: in_s_def)

end
