(* ===== verification/C_Chars.thy ===== *)
theory C_Chars
  imports Prelude
begin

text \<open>
  The part of the C library that the text conversions use: character classes, the value of a
  digit, and the conversions \<open>%u\<close>, \<open>%x\<close> and \<open>%02x\<close> of \<open>printf\<close>. A C string is the
  list of its characters in front of the terminating NUL.
\<close>

section \<open>Decimal digits\<close>

definition c_isdigit :: "char \<Rightarrow> bool" where
  "c_isdigit c \<longleftrightarrow> 48 \<le> (of_char c :: int) \<and> (of_char c :: int) \<le> 57"

definition c_isspace :: "char \<Rightarrow> bool" where
  "c_isspace c \<longleftrightarrow> (of_char c :: int) = 32 \<or> 9 \<le> (of_char c :: int) \<and> (of_char c :: int) \<le> 13"

definition to_digit :: "char \<Rightarrow> int" where
  "to_digit c = of_char c - 48"

definition digit_char :: "int \<Rightarrow> char" where
  "digit_char d = char_of (d + 48)"

lemma digit_char_props:
  assumes "0 \<le> d" "d < 10"
  shows "c_isdigit (digit_char d)" "to_digit (digit_char d) = d" "digit_char d \<noteq> CHR ''.''"
    "digit_char d \<noteq> CHR ''-''" "digit_char d \<noteq> CHR ''+''" "digit_char d \<noteq> CHR 0x00" "\<not> c_isspace (digit_char d)"
    "(of_char (digit_char d) :: int) = d + 48"
proof -
  have "(of_char (digit_char d) :: int) = (d + 48) mod 256" by (simp add: digit_char_def)
  then have o: "(of_char (digit_char d) :: int) = d + 48" using assms by simp
  have ne: "digit_char d \<noteq> c" if "(of_char c :: int) < 48" for c using o assms that by auto
  show "c_isdigit (digit_char d)" "to_digit (digit_char d) = d" "\<not> c_isspace (digit_char d)"
    using o assms by (simp_all add: c_isdigit_def to_digit_def c_isspace_def)
  show "digit_char d \<noteq> CHR ''.''" "digit_char d \<noteq> CHR ''-''" "digit_char d \<noteq> CHR ''+''" "digit_char d \<noteq> CHR 0x00"
    by (rule ne, simp)+
  show "(of_char (digit_char d) :: int) = d + 48" by (rule o)
qed

lemma not_digit_dot [simp]: "\<not> c_isdigit CHR ''.''" "\<not> c_isdigit CHR ''+''" "\<not> c_isdigit CHR ''-''"
  by (simp_all add: c_isdigit_def)

lemma digit_run:
  assumes "digits_ok 10 es" "rest = [] \<or> \<not> c_isdigit (hd rest)"
  shows "takeWhile c_isdigit (map digit_char es @ rest) = map digit_char es"
    "dropWhile c_isdigit (map digit_char es @ rest) = rest" "map (to_digit \<circ> digit_char) es = es"
proof -
  have all: "\<forall>c \<in> set (map digit_char es). c_isdigit c" using assms(1) digit_char_props(1) by (auto simp: digits_ok_def)
  have "takeWhile c_isdigit rest = []" "dropWhile c_isdigit rest = rest" using assms(2) by (cases rest; simp)+
  with all show "takeWhile c_isdigit (map digit_char es @ rest) = map digit_char es"
    "dropWhile c_isdigit (map digit_char es @ rest) = rest" by (simp_all add: takeWhile_append dropWhile_append)
  show "map (to_digit \<circ> digit_char) es = es" using assms(1) digit_char_props(2) by (intro map_idI) (auto simp: digits_ok_def)
qed

lemma digit_char_of:
  assumes "c_isdigit c"
  shows "digit_char (to_digit c) = c" "0 \<le> to_digit c" "to_digit c < 10"
  using assms by (simp_all add: c_isdigit_def to_digit_def digit_char_def)

section \<open>Hexadecimal digits\<close>

text \<open>The value of a hexadecimal digit of either case.\<close>

definition hex_value :: "char \<Rightarrow> int option" where
  "hex_value c =
    (let n = of_char c :: int in
     if 48 \<le> n \<and> n \<le> 57 then Some (n - 48)
     else if 65 \<le> n \<and> n \<le> 70 then Some (n - 55)
     else if 97 \<le> n \<and> n \<le> 102 then Some (n - 87)
     else None)"

definition c_isxdigit :: "char \<Rightarrow> bool" where
  "c_isxdigit c \<longleftrightarrow> hex_value c \<noteq> None"

text \<open>What \<open>printf\<close> writes for a digit.\<close>

definition hex_char :: "int \<Rightarrow> char" where
  "hex_char d = char_of (if d < 10 then d + 48 else d + 87)"

lemma hex_char_props:
  assumes "0 \<le> d" "d < 16"
  shows "hex_value (hex_char d) = Some d" "hex_char d \<noteq> CHR '':''" "hex_char d \<noteq> CHR ''.''"
    "hex_char d \<noteq> CHR ''/''" "hex_char d \<noteq> CHR ''-''" "\<not> c_isspace (hex_char d)" "hex_char d \<noteq> CHR 0x00"
proof -
  have o: "(of_char (hex_char d) :: int) = (if d < 10 then d + 48 else d + 87)"
    using assms by (auto simp: hex_char_def)
  show "hex_value (hex_char d) = Some d" using o assms by (auto simp: hex_value_def Let_def)
  have ne: "hex_char d \<noteq> c" if "(of_char c :: int) < 48 \<or> (of_char c :: int) = 58" for c
    using o assms that by (auto split: if_splits)
  show "hex_char d \<noteq> CHR '':''" "hex_char d \<noteq> CHR ''.''" "hex_char d \<noteq> CHR ''/''"
    "hex_char d \<noteq> CHR ''-''" "hex_char d \<noteq> CHR 0x00"
    by (rule ne, simp)+
  show "\<not> c_isspace (hex_char d)" using o assms by (auto simp: c_isspace_def split: if_splits)
qed

lemma hex_of_digit_char: "0 \<le> d \<Longrightarrow> d < 10 \<Longrightarrow> hex_value (digit_char d) = Some d"
  using digit_char_props(8) [of d] by (simp add: hex_value_def Let_def)

lemma hex_value_bounds: "hex_value c = Some n \<Longrightarrow> 0 \<le> n \<and> n < 16"
  by (auto simp: hex_value_def Let_def split: if_splits)

section \<open>Printing numbers\<close>

text \<open>The digits of a number in a base, without leading zeros; those of 0 are a single 0.\<close>

function base_digits :: "int \<Rightarrow> int \<Rightarrow> int list" where
  "base_digits b n = (if n < b \<or> b < 2 then [n] else base_digits b (n div b) @ [n mod b])"
  by auto

termination
proof (relation "measure (\<lambda>(b, n). nat n)")
  show "((b, n div b), b, n) \<in> measure (\<lambda>(b, n). nat n)" if "\<not> (n < b \<or> b < 2)" for b n :: int
  proof -
    have "n div b < n" using that by (intro int_div_less_self) auto
    moreover have "0 \<le> n div b" using that by (intro pos_imp_zdiv_nonneg_iff [THEN iffD2]) auto
    ultimately show ?thesis by simp
  qed
qed simp

declare base_digits.simps [simp del]

lemma base_digits_props:
  assumes "2 \<le> b" "0 \<le> n"
  shows "bval b (base_digits b n) = n \<and> digits_ok b (base_digits b n) \<and> base_digits b n \<noteq> [] \<and>
    (hd (base_digits b n) = 0 \<longrightarrow> n = 0)"
  using assms
proof (induction b n rule: base_digits.induct)
  case (1 b n)
  show ?case
  proof (cases "n < b")
    case True
    then show ?thesis using 1 by (simp add: base_digits.simps [of b n])
  next
    case False
    then have q: "0 \<le> n div b" "n div b \<noteq> 0"
      using 1 by (auto simp: pos_imp_zdiv_nonneg_iff div_int_pos_iff zdiv_eq_0_iff)
    then have IH: "bval b (base_digits b (n div b)) = n div b \<and> digits_ok b (base_digits b (n div b)) \<and>
      base_digits b (n div b) \<noteq> [] \<and> (hd (base_digits b (n div b)) = 0 \<longrightarrow> n div b = 0)"
      using 1 False by simp
    moreover have "base_digits b n = base_digits b (n div b) @ [n mod b]"
      using False 1(2) by (subst base_digits.simps) simp
    ultimately show ?thesis using 1(2) q by (simp add: div_mult_mod_eq)
  qed
qed

lemma base_digits_zero [simp]: "2 \<le> b \<Longrightarrow> base_digits b 0 = [0]"
  by (simp add: base_digits.simps)

lemma base_digits_length:
  assumes "2 \<le> b" "0 \<le> n" "n < b ^ k" "0 < k"
  shows "length (base_digits b n) \<le> k"
proof (rule ccontr)
  assume long: "\<not> length (base_digits b n) \<le> k"
  have p: "bval b (base_digits b n) = n" "digits_ok b (base_digits b n)" "base_digits b n \<noteq> []"
    "hd (base_digits b n) = 0 \<longrightarrow> n = 0"
    using base_digits_props [OF assms(1,2)] by auto
  have "n \<noteq> 0" using long assms(1,4) by (cases "n = 0") auto
  then have "b ^ (length (base_digits b n) - 1) \<le> n" using bval_lower [OF p(2,3)] p by auto
  moreover have "b ^ k \<le> b ^ (length (base_digits b n) - 1)"
    using long assms(1) by (intro power_increasing) auto
  ultimately show False using assms(3) by linarith
qed

definition fmt_u :: "int \<Rightarrow> string" where
  "fmt_u n = map digit_char (base_digits 10 n)"

definition fmt_x :: "int \<Rightarrow> string" where
  "fmt_x n = map hex_char (base_digits 16 n)"

definition fmt_02x :: "int \<Rightarrow> string" where
  "fmt_02x n = (if n < 16 then CHR ''0'' # fmt_x n else fmt_x n)"

lemma char_of_48 [simp]: "char_of (48 :: int) = CHR ''0''"
  by code_simp

lemma fmt_02x_byte:
  assumes "0 \<le> n" "n < 256"
  shows "fmt_02x n = [hex_char (n div 16), hex_char (n mod 16)]"
proof (cases "n < 16")
  case True
  then show ?thesis using assms by (simp add: fmt_02x_def fmt_x_def base_digits.simps hex_char_def)
next
  case False
  have "n div 16 < 16" using assms by linarith
  then show ?thesis using False by (simp add: fmt_02x_def fmt_x_def base_digits.simps)
qed

lemma fmt_u_props:
  assumes "0 \<le> n"
  shows "fmt_u n = map digit_char (base_digits 10 n)" "fmt_u n \<noteq> []" "\<forall>c \<in> set (fmt_u n). c_isdigit c"
  using base_digits_props [of 10 n] assms by (auto simp: fmt_u_def digits_ok_def digit_char_props)

end
