(* ===== verification/Numeric_Text.thy ===== *)
theory Numeric_Text
  imports Numeric_Arith C_Chars
begin

text \<open>
  The text form of \<open>numeric\<close>: \<open>set_var_from_str\<close>, the constructor from a string,
  \<open>get_str_from_var\<close> and \<open>decimal_parts_to\<close>. A C string is the list of its characters in
  front of the terminating NUL; a pointer into it is the rest of the list, and the character
  read at its end is NUL.
\<close>

section \<open>\<open>strtol\<close>\<close>

text \<open>
  \<open>strtol(cp, &endptr, 10)\<close>: \<open>None\<close> when there is nothing to convert (\<open>endptr == cp\<close>), else
  the value, limited to the range of \<open>long\<close>, and the rest of the string.
\<close>

definition strtol10 :: "string \<Rightarrow> (int \<times> string) option" where
  "strtol10 s =
     (let s1 = dropWhile c_isspace s;
          (neg, s2) = (case s1 of [] \<Rightarrow> (False, [])
             | c # cs \<Rightarrow> if c = CHR ''-'' then (True, cs) else if c = CHR ''+'' then (False, cs) else (False, c # cs));
          ds = takeWhile c_isdigit s2;
          n = bval 10 (map to_digit ds)
      in if ds = [] then None
         else Some (max (- (2 ^ 63)) (min (2 ^ 63 - 1) (if neg then - n else n)), dropWhile c_isdigit s2))"

section \<open>set\_var\_from\_str\<close>

abbreviation (input) syntax_error :: pq_error where
  "syntax_error \<equiv> PqException ''invalid input syntax for type numeric''"

text \<open>
  The loop over digits and the decimal point: the decimal digits stored so far, \<open>dweight\<close> and
  \<open>dscale\<close>.
\<close>

fun scan_digits :: "string \<Rightarrow> bool \<Rightarrow> int list \<Rightarrow> int \<Rightarrow> int \<Rightarrow> (string \<times> int list \<times> int \<times> int) result" where
  "scan_digits [] have_dp ds dweight dsc = Inr ([], ds, dweight, dsc)"
| "scan_digits (c # cs) have_dp ds dweight dsc =
     (if c_isdigit c
      then if \<not> have_dp then scan_digits cs have_dp (ds @ [to_digit c]) (dweight + 1) dsc
           else scan_digits cs have_dp (ds @ [to_digit c]) dweight (dsc + 1)
      else if c = CHR ''.''
      then if have_dp then Inl syntax_error else scan_digits cs True ds dweight dsc
      else Inr (c # cs, ds, dweight, dsc))"

text \<open>The exponent, if any: the rest of the string, \<open>dweight\<close> and \<open>dscale\<close> adjusted.\<close>

definition scan_exponent :: "string \<Rightarrow> int \<Rightarrow> int \<Rightarrow> (string \<times> int \<times> int) result" where
  "scan_exponent cp dweight dsc =
     (case cp of [] \<Rightarrow> Inr (cp, dweight, dsc)
      | c # cs \<Rightarrow>
          if c = CHR ''e'' \<or> c = CHR ''E''
          then case strtol10 cs of None \<Rightarrow> Inl syntax_error
               | Some (ex, cp) \<Rightarrow>
                   if ex \<ge> INT_MAX sdiv 2 \<or> ex \<le> - (INT_MAX sdiv 2) then Inl syntax_error
                   else Inr (cp, dweight + ex, if dsc - ex < 0 then 0 else dsc - ex)
          else Inr (cp, dweight, dsc))"

text \<open>
  The conversion to base \<open>NBASE\<close>: \<open>xs\<close> is the decimal digits from index \<open>DEC_DIGITS - offset\<close>
  of the padded buffer on.
\<close>

fun nbase_groups :: "nat \<Rightarrow> int list \<Rightarrow> int list" where
  "nbase_groups 0 xs = []"
| "nbase_groups (Suc n) xs =
     (((xs ! 0 * 10 + xs ! 1) * 10 + xs ! 2) * 10 + xs ! 3) # nbase_groups n (drop 4 xs)"

definition dec_weight :: "int \<Rightarrow> int" where
  "dec_weight dweight =
     (if dweight \<ge> 0 then (dweight + 1 + DEC_DIGITS - 1) sdiv DEC_DIGITS - 1
      else - ((- dweight - 1) sdiv DEC_DIGITS + 1))"

definition var_from_decimal :: "int \<Rightarrow> int list \<Rightarrow> int \<Rightarrow> int \<Rightarrow> numeric \<Rightarrow> numeric" where
  "var_from_decimal sg ds dweight dsc dest =
     (let w = dec_weight dweight;
          offset = (w + 1) * DEC_DIGITS - (dweight + 1);
          n = (int (length ds) + offset + DEC_DIGITS - 1) sdiv DEC_DIGITS;
          decdigits = replicate 4 0 @ ds @ replicate 3 0
      in strip_var (dest\<lparr>digits := nbase_groups (nat n) (drop (nat (DEC_DIGITS - offset)) decdigits),
           sign := sg, weight := w, dscale := dsc\<rparr>))"

definition scan_sign :: "string \<Rightarrow> int \<times> string" where
  "scan_sign cp =
     (case cp of [] \<Rightarrow> (NUMERIC_POS, [])
      | c # cs \<Rightarrow> if c = CHR ''+'' then (NUMERIC_POS, cs)
                   else if c = CHR ''-'' then (NUMERIC_NEG, cs) else (NUMERIC_POS, c # cs))"

text \<open>The new contents of \<open>dest\<close> and the position returned.\<close>

definition set_var_from_str :: "string \<Rightarrow> numeric \<Rightarrow> (numeric \<times> string) result" where
  "set_var_from_str cp dest =
     (let (sg, cp) = scan_sign cp;
          (have_dp, cp) = (case cp of [] \<Rightarrow> (False, []) | c # cs \<Rightarrow> if c = CHR ''.'' then (True, cs) else (False, c # cs))
      in if cp = [] \<or> \<not> c_isdigit (hd cp) then Inl syntax_error
         else bind_result (scan_digits cp have_dp [] (-1) 0) (\<lambda>(cp, ds, dweight, dsc).
              bind_result (scan_exponent cp dweight dsc) (\<lambda>(cp, dweight, dsc).
                Inr (var_from_decimal sg ds dweight dsc dest, cp))))"

section \<open>The constructor from a string\<close>

text \<open>
  \<open>pg_strncasecmp\<close> compares bytes; in the C locale no byte above 127 is a letter, so only
  ASCII letters are folded.
\<close>

definition fold_case :: "int \<Rightarrow> int" where
  "fold_case ch = (if 65 \<le> ch \<and> ch \<le> 90 then ch + 32 else ch)"

fun pg_strncasecmp :: "string \<Rightarrow> string \<Rightarrow> nat \<Rightarrow> int" where
  "pg_strncasecmp s1 s2 0 = 0"
| "pg_strncasecmp s1 s2 (Suc n) =
     (let ch1 = (case s1 of [] \<Rightarrow> 0 | c # _ \<Rightarrow> of_char c);
          ch2 = (case s2 of [] \<Rightarrow> 0 | c # _ \<Rightarrow> of_char c)
      in if ch1 \<noteq> ch2 \<and> fold_case ch1 \<noteq> fold_case ch2 then fold_case ch1 - fold_case ch2
         else if (if ch1 \<noteq> ch2 then fold_case ch1 else ch1) = 0 then 0
         else pg_strncasecmp (tl s1) (tl s2) n)"

definition numeric_of_string :: "string \<Rightarrow> numeric" where
  "numeric_of_string s =
     (let cp = dropWhile c_isspace (takeWhile (\<lambda>c. c \<noteq> CHR 0x00) s)
      in if pg_strncasecmp cp ''NaN'' 3 = 0 then numeric_init\<lparr>sign := NUMERIC_NAN\<rparr>
         else case set_var_from_str cp numeric_init of
                Inl _ \<Rightarrow> numeric_init\<lparr>sign := NUMERIC_NAN\<rparr>
              | Inr (v, cp) \<Rightarrow> if \<exists>c \<in> set cp. \<not> c_isspace c then v\<lparr>sign := NUMERIC_NAN\<rparr> else v)"

section \<open>get\_str\_from\_var\<close>

text \<open>The four decimal digits of a base-\<open>NBASE\<close> digit; \<open>putit\<close> is false while leading zeroes are suppressed.\<close>

definition put_group :: "bool \<Rightarrow> int \<Rightarrow> int list" where
  "put_group putit dig =
     (let d1 = dig sdiv 1000; dig = dig - d1 * 1000; p1 = (putit \<or> d1 > 0);
          d2 = dig sdiv 100; dig = dig - d2 * 100; p2 = (p1 \<or> d2 > 0);
          d3 = dig sdiv 10; dig = dig - d3 * 10; p3 = (p2 \<or> d3 > 0)
      in (if p1 then [d1] else []) @ (if p2 then [d2] else []) @ (if p3 then [d3] else []) @ [dig])"

definition whole_digits :: "numeric \<Rightarrow> int list" where
  "whole_digits var =
     (if weight var < 0 then [0]
      else concat (map (\<lambda>d. put_group (d > 0) (digit_at (digits var) d)) [0..weight var]))"

text \<open>All digits the loop puts out behind the point, a multiple of \<open>DEC_DIGITS\<close>.\<close>

definition frac_groups :: "numeric \<Rightarrow> int list" where
  "frac_groups var =
     (let d = weight var + 1
      in concat (map (\<lambda>j. put_group True (digit_at (digits var) (d + int j)))
           [0..<nat ((dscale var + DEC_DIGITS - 1) div DEC_DIGITS)]))"

definition get_str_from_var :: "numeric \<Rightarrow> string" where
  "get_str_from_var var =
     (if sign var = NUMERIC_NEG then [CHR ''-''] else []) @ map digit_char (whole_digits var) @
     (if dscale var > 0 then CHR ''.'' # map digit_char (take (nat (dscale var)) (frac_groups var)) else [])"

text \<open>The size of the buffer, and the number of cells written, the terminating NUL included.\<close>

definition str_alloc :: "numeric \<Rightarrow> int" where
  "str_alloc var =
     (let i = (weight var + 1) * DEC_DIGITS in (if i \<le> 0 then 1 else i) + dscale var + DEC_DIGITS + 2)"

definition str_written :: "numeric \<Rightarrow> int" where
  "str_written var =
     (if sign var = NUMERIC_NEG then 1 else 0) + int (length (whole_digits var)) +
     (if dscale var > 0 then 1 + max (int (length (frac_groups var))) (dscale var + 1) else 1)"

text \<open>
  \<open>decimal_parts_to\<close>: the sign flag, the whole part (with its sign) and the decimals.
  \<open>trim\<close> stands for \<open>md::trim\<close>.
\<close>

definition decimal_parts_to :: "(string \<Rightarrow> string) \<Rightarrow> numeric \<Rightarrow> bool \<times> string \<times> string" where
  "decimal_parts_to trim v =
     (let res = get_str_from_var v
      in (take 1 res \<noteq> ''-'', trim (takeWhile (\<lambda>c. c \<noteq> CHR ''.'') res),
          trim (tl (dropWhile (\<lambda>c. c \<noteq> CHR ''.'') res))))"

section \<open>Decimal digits to base NBASE\<close>

lemma nbase_groups_value:
  "4 * n \<le> length xs \<Longrightarrow> digits_ok 10 xs \<Longrightarrow>
   length (nbase_groups n xs) = n \<and> digits_ok NBASE (nbase_groups n xs) \<and>
   bval NBASE (nbase_groups n xs) = bval 10 (take (4 * n) xs)"
proof (induction n arbitrary: xs)
  case (Suc n)
  then have "Suc (Suc (Suc (Suc 0))) \<le> length xs" by simp
  then obtain a b c d ys where xs: "xs = a # b # c # d # ys" by (auto simp: Suc_le_length_iff)
  have IH: "length (nbase_groups n ys) = n" "digits_ok NBASE (nbase_groups n ys)"
    "bval NBASE (nbase_groups n ys) = bval 10 (take (4 * n) ys)"
    using Suc.IH [of ys] Suc.prems by (simp_all add: xs)
  have "(10::int) ^ (4 * n) = NBASE ^ n" by (simp add: power_mult)
  then have pw: "(10::int) ^ (n * 4) = NBASE ^ n" by (simp only: mult.commute)
  have "4 * Suc n = Suc (Suc (Suc (Suc (4 * n))))" by simp
  then have "take (4 * Suc n) xs = a # b # c # d # take (4 * n) ys" by (simp only: xs take_Suc_Cons)
  moreover have "length (take (4 * n) ys) = 4 * n" using Suc.prems by (simp add: xs)
  ultimately show ?case using IH Suc.prems by (simp add: xs pw algebra_simps)
qed simp

lemma dec_weight_offset:
  shows "0 \<le> (dec_weight dw + 1) * 4 - (dw + 1)" and "(dec_weight dw + 1) * 4 - (dw + 1) \<le> 3"
proof -
  have "0 \<le> (dec_weight dw + 1) * 4 - (dw + 1) \<and> (dec_weight dw + 1) * 4 - (dw + 1) \<le> 3"
  proof (cases "0 \<le> dw")
    case True
    then have "dec_weight dw = (dw + 4) div 4 - 1" by (simp add: dec_weight_def sdiv_nonneg)
    then show ?thesis by presburger
  next
    case False
    then have "dec_weight dw = - ((- dw - 1) div 4 + 1)" by (simp add: dec_weight_def sdiv_nonneg)
    then show ?thesis by presburger
  qed
  then show "0 \<le> (dec_weight dw + 1) * 4 - (dw + 1)" and "(dec_weight dw + 1) * 4 - (dw + 1) \<le> 3" by simp_all
qed

lemma var_from_decimal_is:
  assumes ds: "digits_ok 10 ds" "ds \<noteq> []" and sg: "sg = NUMERIC_POS \<or> sg = NUMERIC_NEG"
  shows "num_is (var_from_decimal sg ds dw dsc dest)
    ((if sg = NUMERIC_NEG then -1 else 1) * (of_int (bval 10 ds) * 10 powi (dw + 1 - int (length ds)))) dsc"
proof -
  define w where "w = dec_weight dw"
  define off where "off = nat ((w + 1) * 4 - (dw + 1))"
  define n where "n = (length ds + off + 3) div 4"
  define pad where "pad = 4 * n - (off + length ds)"
  define xs where "xs = replicate off 0 @ ds @ replicate 3 (0::int)"
  have off: "int off = (w + 1) * 4 - (dw + 1)" "off \<le> 3" using dec_weight_offset [of dw] by (simp_all add: off_def w_def)
  have n: "4 * n = off + length ds + pad" "pad \<le> 3" by (simp_all add: n_def pad_def)
  have "(int (length ds) + int off + 4 - 1) sdiv 4 = int n" by (simp add: sdiv_nonneg n_def zdiv_int)
  then have nn: "nat ((int (length ds) + int off + 4 - 1) sdiv 4) = n" by simp
  have "nat (4 - int off) = 4 - off" by simp
  then have drop: "drop (nat (4 - int off)) (replicate 4 0 @ ds @ replicate 3 0) = xs"
    using off(2) by (simp add: xs_def)
  define v where "v = dest\<lparr>digits := nbase_groups n xs, sign := sg, weight := w, dscale := dsc\<rparr>"
  have eq: "var_from_decimal sg ds dw dsc dest = strip_var v"
    unfolding var_from_decimal_def Let_def w_def [symmetric] off(1) [symmetric] nn drop v_def ..
  have xl: "4 * n \<le> length xs" "digits_ok 10 xs" using n ds by (simp_all add: xs_def)
  note g = nbase_groups_value [OF xl]
  have "take (4 * n) xs = replicate off 0 @ ds @ replicate pad 0" using n by (simp add: xs_def min_def)
  then have b: "bval NBASE (nbase_groups n xs) = bval 10 ds * 10 ^ pad" using g by (simp add: bval_append)
  have ok: "num_ok v" using g sg by (simp add: num_ok_def v_def)
  have "4 * int n = int off + int (length ds) + int pad" using arg_cong [OF n(1), of int] by simp
  then have "4 * (w + 1 - int n) + int pad = dw + 1 - int (length ds)" using off(1) by (simp add: algebra_simps)
  then have p: "(10::rat) powi (dw + 1 - int (length ds)) = 10 powi int pad * 10 powi (4 * (w + 1 - int n))"
    by (simp only: powi_split [symmetric] add.commute)
  have "absval v = of_int (bval 10 ds) * 10 powi (dw + 1 - int (length ds))"
    unfolding absval_def p using b g by (simp add: v_def ndigits_def)
  then have "numval v = (if sg = NUMERIC_NEG then -1 else 1) * (of_int (bval 10 ds) * 10 powi (dw + 1 - int (length ds)))"
    by (simp add: numval_def sgnval_def v_def)
  moreover have "dscale v = dsc" by (simp add: v_def)
  ultimately show ?thesis using ok by (simp add: num_is_def eq num_wf_strip_var)
qed

section \<open>The scanner\<close>

definition stops :: "string \<Rightarrow> bool" where
  "stops rest \<longleftrightarrow> rest = [] \<or> \<not> c_isdigit (hd rest) \<and> hd rest \<noteq> CHR ''.''"

lemma scan_digits_run:
  "digits_ok 10 xs \<Longrightarrow> scan_digits (map digit_char xs @ rest) dp ds dw sc
     = scan_digits rest dp (ds @ xs) (if dp then dw else dw + int (length xs)) (if dp then sc + int (length xs) else sc)"
proof (induction xs arbitrary: ds dw sc)
  case (Cons x xs)
  then show ?case by (cases dp) (simp_all add: digit_char_props algebra_simps)
qed simp

lemma scan_digits_stop: "stops rest \<Longrightarrow> scan_digits rest dp ds dw sc = Inr (rest, ds, dw, sc)"
  by (cases rest) (auto simp: stops_def)

text \<open>
  The texts that are numbers: an optional sign, digits with at most one point among or around
  them (but not alone), and an optional exponent.
\<close>

definition sign_text :: "bool \<Rightarrow> string" where
  "sign_text neg = (if neg then ''-'' else [])"

definition point_text :: "int list option \<Rightarrow> string" where
  "point_text fp = (case fp of None \<Rightarrow> [] | Some fs \<Rightarrow> CHR ''.'' # map digit_char fs)"

definition frac_of :: "int list option \<Rightarrow> int list" where
  "frac_of fp = (case fp of None \<Rightarrow> [] | Some fs \<Rightarrow> fs)"


lemma scan_number:
  assumes "digits_ok 10 ip" "digits_ok 10 (frac_of fp)" "stops rest"
  shows "scan_digits (map digit_char ip @ point_text fp @ rest) False [] (-1) 0
    = Inr (rest, ip @ frac_of fp, int (length ip) - 1, int (length (frac_of fp)))"
proof (cases fp)
  case None
  then show ?thesis using assms by (simp add: scan_digits_run scan_digits_stop point_text_def frac_of_def)
next
  case (Some fs)
  then show ?thesis using assms by (simp add: scan_digits_run scan_digits_stop point_text_def frac_of_def)
qed

lemma set_var_from_str_number:
  assumes ip: "digits_ok 10 ip" "ip \<noteq> []" and fp: "digits_ok 10 (frac_of fp)" and rest: "stops rest"
  shows "set_var_from_str (sign_text neg @ map digit_char ip @ point_text fp @ rest) dest =
    bind_result (scan_exponent rest (int (length ip) - 1) (int (length (frac_of fp))))
      (\<lambda>(cp, dw, dsc). Inr (var_from_decimal (if neg then NUMERIC_NEG else NUMERIC_POS) (ip @ frac_of fp) dw dsc dest, cp))"
proof -
  obtain d ds where d: "ip = d # ds" using ip by (cases ip) auto
  define body where "body = map digit_char ip @ point_text fp @ rest"
  have hd: "body = digit_char d # tl body" "body \<noteq> []" by (simp_all add: body_def d)
  have dd: "0 \<le> d" "d < 10" using ip d by simp_all
  have sg: "scan_sign (sign_text neg @ body) = (if neg then NUMERIC_NEG else NUMERIC_POS, body)"
    using digit_char_props [OF dd] by (subst (1 2) hd(1)) (simp add: scan_sign_def sign_text_def)
  have "(case body of [] \<Rightarrow> (False, []) | c # cs \<Rightarrow> if c = CHR ''.'' then (True, cs) else (False, c # cs)) = (False, body)"
    using digit_char_props [OF dd] by (subst (1 2) hd(1)) simp
  moreover have "c_isdigit (hd body)" using digit_char_props [OF dd] by (simp add: body_def d)
  ultimately show ?thesis
    using scan_number [OF ip(1) fp rest, folded body_def] hd(2)
    by (simp add: set_var_from_str_def sg body_def [symmetric])
qed

section \<open>What is printed\<close>

lemma put_group_value:
  assumes "0 \<le> d" "d < NBASE"
  shows "digits_ok 10 (put_group p d)" "bval 10 (put_group p d) = d" "put_group p d \<noteq> []"
    "length (put_group p d) \<le> 4" "p \<Longrightarrow> length (put_group p d) = 4"
proof -
  define a r1 b r2 c e where q: "a = d div 1000" "r1 = d mod 1000" "b = r1 div 100" "r2 = r1 mod 100"
    "c = r2 div 10" "e = r2 mod 10"
  have s: "d = a * 1000 + r1" "r1 = b * 100 + r2" "r2 = c * 10 + e"
    unfolding q by (simp_all only: div_mult_mod_eq)
  have r: "0 \<le> a" "a < 10" "0 \<le> b" "b < 10" "0 \<le> c" "c < 10" "0 \<le> e" "e < 10" "0 \<le> r1" "0 \<le> r2"
    using assms by (simp_all add: q)
  have q1: "d sdiv 1000 = a" "r1 sdiv 100 = b" "r2 sdiv 10 = c"
    unfolding q(1,3,5) using assms(1) r(9,10) by (simp_all only: sdiv_nonneg zero_le_numeral)
  have q2: "d - a * 1000 = r1" "r1 - b * 100 = r2" "r2 - c * 10 = e" using s by linarith+
  have d: "d = a * 1000 + b * 100 + c * 10 + e" using s by linarith
  have "put_group p d = (if p \<or> a > 0 then [a] else []) @ (if p \<or> a > 0 \<or> b > 0 then [b] else [])
    @ (if p \<or> a > 0 \<or> b > 0 \<or> c > 0 then [c] else []) @ [e]"
    unfolding put_group_def Let_def q1 q2 by (simp add: disj_assoc)
  then show "digits_ok 10 (put_group p d)" "bval 10 (put_group p d) = d" "put_group p d \<noteq> []"
    "length (put_group p d) \<le> 4" "p \<Longrightarrow> length (put_group p d) = 4"
    using r(1,2,3,4,5,6,7,8) by (auto simp: d)
qed

lemma groups_value:
  "digits_ok NBASE ds \<Longrightarrow> digits_ok 10 (concat (map (put_group True) ds)) \<and>
   length (concat (map (put_group True) ds)) = 4 * length ds \<and> bval 10 (concat (map (put_group True) ds)) = bval NBASE ds"
proof (induction ds)
  case (Cons d ds)
  then have "bval 10 (put_group True d) = d" "length (put_group True d) = 4" "digits_ok 10 (put_group True d)"
    by (simp_all add: put_group_value)
  with Cons show ?case by (simp add: bval_append power_mult)
qed simp

lemma digit_at_list: "digits_ok NBASE ds \<Longrightarrow> digits_ok NBASE (map (digit_at ds) is)"
  using digit_at_bounds [of ds] by (auto simp: digits_ok_def)

lemma bval_upto_win: "bval NBASE (map (digit_at ds) [i - int n..i - 1]) = win ds i n"
proof (induction n arbitrary: i)
  case (Suc n)
  have "[i - int (Suc n)..i - 1] = [i - 1 - int n..i - 1 - 1] @ [i - 1]"
    using upto_rec2 [of "i - int (Suc n)" "i - 1"] by (simp add: algebra_simps)
  then show ?case using Suc [of "i - 1"] by simp
qed simp

lemma upt_upto: "map (\<lambda>j. d + int j) [0..<n] = [d..d + int n - 1]"
proof (induction n)
  case (Suc n)
  then show ?case using upto_rec2 [of d "d + int n"] by simp
qed simp

lemma frac_groups_list:
  "frac_groups v = concat (map (put_group True) (map (digit_at (digits v))
     [weight v + 1..weight v + 1 + int (nat ((dscale v + 3) div 4)) - 1]))"
proof -
  have "map (\<lambda>j. put_group True (digit_at (digits v) (weight v + 1 + int j))) [0..<n]
    = map (put_group True) (map (digit_at (digits v)) [weight v + 1..weight v + 1 + int n - 1])" for n
    unfolding upt_upto [symmetric] by simp
  then show ?thesis unfolding frac_groups_def Let_def by (simp add: add.commute)
qed

lemma whole_digits_list:
  "0 \<le> weight v \<Longrightarrow> whole_digits v = put_group False (digit_at (digits v) 0)
     @ concat (map (put_group True) (map (digit_at (digits v)) [1..weight v]))"
proof -
  assume w: "0 \<le> weight v"
  have "map (\<lambda>d. put_group (d > 0) (digit_at (digits v) d)) [1..weight v]
    = map (put_group True) (map (digit_at (digits v)) [1..weight v])" by simp
  moreover have "[0..weight v] = 0 # [1..weight v]" using w upto_rec1 [of 0 "weight v"] by simp
  ultimately show ?thesis using w unfolding whole_digits_def by (simp only: list.map concat.simps less_irrefl if_False not_less [symmetric])
qed

lemma win_floor:
  assumes ok: "digits_ok NBASE (digits v)" and i: "i = weight v + 1 + int G" "i \<le> int n"
  shows "win (digits v) i n = \<lfloor>absval v * 10 powi (4 * int G)\<rfloor>"
proof -
  define l where "l = length (digits v)"
  have "4 * (weight v + 1 - ndigits v) + 4 * int G = 4 * (i - int l)" by (simp add: i ndigits_def l_def)
  then have av: "absval v * 10 powi (4 * int G) = of_int (bval NBASE (digits v)) * 10 powi (4 * (i - int l))"
    unfolding absval_def by (simp only: mult.assoc powi_split [symmetric])
  consider "i \<le> 0" | "0 \<le> i" "i \<le> int l" | "int l \<le> i" by linarith
  then show ?thesis
  proof cases
    case 1
    have "absval v * 10 powi (4 * int G) < 10 powi (4 * (weight v + 1)) * 10 powi (4 * int G)"
      using absval_less [OF ok] by (intro mult_strict_right_mono) simp_all
    also have "\<dots> = 10 powi (4 * i)" unfolding powi_split [symmetric] by (simp add: i)
    also have "\<dots> \<le> 10 powi 0" using 1 by (intro powi_mono) simp
    finally have "\<lfloor>absval v * 10 powi (4 * int G)\<rfloor> = 0"
      using absval_nonneg [OF ok] by (simp add: floor_eq_iff)
    with 1 show ?thesis by (simp add: win_left)
  next
    case 2
    define k where "k = nat i"
    have k: "i = int k" "k \<le> l" using 2 by (simp_all add: k_def)
    have "10 powi (4 * (i - int l)) = 1 / (of_int (NBASE ^ (l - k)) :: rat)"
      unfolding powi_10000 [symmetric] using k by (simp add: power_int_def nat_diff_distrib' power_one_over inverse_eq_divide flip: of_nat_diff)
    then have "\<lfloor>absval v * 10 powi (4 * int G)\<rfloor> = bval NBASE (digits v) div NBASE ^ (l - k)"
      unfolding av using floor_div_int [of "NBASE ^ (l - k)" "of_int (bval NBASE (digits v))"] by simp
    also have "\<dots> = bval NBASE (take k (digits v))" using bval_take_div [OF ok, of k] by (simp add: l_def)
    also have "\<dots> = win (digits v) i n" using win_take [of k "digits v" n] k i(2) by (simp add: l_def)
    finally show ?thesis by simp
  next
    case 3
    have "10 powi (4 * (i - int l)) = (of_int (NBASE ^ nat (i - int l)) :: rat)"
      unfolding powi_10000 [symmetric] using 3 by (simp add: power_int_def)
    then have "absval v * 10 powi (4 * int G) = of_int (bval NBASE (digits v) * NBASE ^ nat (i - int l))"
      unfolding av by simp
    then show ?thesis using win_all [of "digits v" i n] 3 i(2) by (simp add: l_def floor_of_int del: of_int_mult)
  qed
qed

text \<open>The whole part and the digit groups behind the point, read as one decimal number.\<close>

lemma printed_groups:
  assumes ok: "digits_ok NBASE (digits v)" and G: "G = nat ((dscale v + 3) div 4)"
  shows "digits_ok 10 (whole_digits v)" "digits_ok 10 (frac_groups v)" "whole_digits v \<noteq> []"
    and "length (frac_groups v) = 4 * G"
    and "bval 10 (whole_digits v @ frac_groups v) = \<lfloor>absval v * 10 powi (4 * int G)\<rfloor>"
proof -
  define ds where "ds = digits v"
  define w where "w = weight v"
  define fr where "fr = map (digit_at ds) [w + 1..w + 1 + int G - 1]"
  have dok: "digits_ok NBASE (map (digit_at ds) is)" for "is" using ok by (simp add: ds_def digit_at_list)
  have fg: "frac_groups v = concat (map (put_group True) fr)" by (simp add: frac_groups_list fr_def ds_def w_def G)
  note fv = groups_value [OF dok [of "[w + 1..w + 1 + int G - 1]"], folded fr_def fg]
  then show "digits_ok 10 (frac_groups v)" and len: "length (frac_groups v) = 4 * G" by (simp_all add: fr_def)
  have d0: "0 \<le> digit_at ds 0" "digit_at ds 0 < NBASE" using digit_at_bounds [of ds 0] ok by (simp_all add: ds_def)
  have "digits_ok 10 (whole_digits v) \<and> whole_digits v \<noteq> []"
  proof (cases "w < 0")
    case False
    then have "whole_digits v = put_group False (digit_at ds 0) @ concat (map (put_group True) (map (digit_at ds) [1..w]))"
      using whole_digits_list [of v] by (simp add: ds_def w_def)
    with put_group_value(1,3) [OF d0, of False] groups_value [OF dok [of "[1..w]"]] show ?thesis
      by (simp only: digits_ok_simps append_is_Nil_conv simp_thms)
  qed (simp add: whole_digits_def w_def)
  then show "digits_ok 10 (whole_digits v)" "whole_digits v \<noteq> []" by simp_all
  show "bval 10 (whole_digits v @ frac_groups v) = \<lfloor>absval v * 10 powi (4 * int G)\<rfloor>"
  proof (cases "w < 0")
    case True
    have "bval 10 (whole_digits v @ frac_groups v) = bval NBASE fr"
      using True fv by (simp add: whole_digits_def w_def)
    also have "\<dots> = win ds (w + 1 + int G) G" using bval_upto_win [of ds "w + 1 + int G" G] by (simp add: fr_def)
    also have "\<dots> = \<lfloor>absval v * 10 powi (4 * int G)\<rfloor>" unfolding ds_def using True
      by (intro win_floor [OF ok]) (simp_all add: w_def)
    finally show ?thesis .
  next
    case False
    define n where "n = nat (w + 1 + int G)"
    have "whole_digits v @ frac_groups v = put_group False (digit_at ds 0)
        @ concat (map (put_group True) (map (digit_at ds) ([1..w] @ [w + 1..w + 1 + int G - 1])))"
      using False by (simp add: whole_digits_list fg fr_def ds_def w_def)
    also have "[1..w] @ [w + 1..w + 1 + int G - 1] = [1..w + int G]"
      using False upto_split2 [of 1 w "w + int G"] by (cases "w = 0") (simp_all add: algebra_simps)
    finally have "bval 10 (whole_digits v @ frac_groups v)
      = digit_at ds 0 * NBASE ^ nat (w + int G) + bval NBASE (map (digit_at ds) [1..w + int G])"
      using put_group_value(2) [OF d0, of False] groups_value [OF dok [of "[1..w + int G]"]]
      by (simp add: bval_append power_mult)
    also have "\<dots> = bval NBASE (map (digit_at ds) [0..w + int G])"
      using False upto_rec1 [of 0 "w + int G"] by simp
    also have "\<dots> = win ds (w + 1 + int G) n"
      using bval_upto_win [of ds "w + 1 + int G" n] False by (simp add: n_def algebra_simps)
    also have "\<dots> = \<lfloor>absval v * 10 powi (4 * int G)\<rfloor>" unfolding ds_def using False
      by (intro win_floor [OF ok]) (simp_all add: w_def n_def)
    finally show ?thesis .
  qed
qed

text \<open>
  What \<open>get_str_from_var\<close> prints: the digits of the value truncated to \<open>dscale\<close> decimals,
  exactly \<open>dscale\<close> of them behind the point.
\<close>

definition shown_frac :: "numeric \<Rightarrow> int list option" where
  "shown_frac v = (if dscale v > 0 then Some (take (nat (dscale v)) (frac_groups v)) else None)"

lemma get_str_shape:
  "get_str_from_var v = sign_text (sign v = NUMERIC_NEG) @ map digit_char (whole_digits v) @ point_text (shown_frac v)"
  by (simp add: get_str_from_var_def sign_text_def point_text_def shown_frac_def)

lemma shown_value:
  assumes ok: "digits_ok NBASE (digits v)" and sc: "0 \<le> dscale v"
  shows "digits_ok 10 (frac_of (shown_frac v))" "int (length (frac_of (shown_frac v))) = dscale v"
    and "bval 10 (whole_digits v @ frac_of (shown_frac v)) = \<lfloor>absval v * 10 powi dscale v\<rfloor>"
proof -
  define G where "G = nat ((dscale v + 3) div 4)"
  define n where "n = nat (dscale v)"
  note pg = printed_groups [OF ok G_def]
  have "dscale v \<le> 4 * ((dscale v + 3) div 4)" by presburger
  then have n: "n \<le> 4 * G" "int n = dscale v" using sc by (simp_all add: n_def G_def nat_le_iff)
  have fr: "frac_of (shown_frac v) = take n (frac_groups v)"
    using sc by (simp add: shown_frac_def frac_of_def n_def)
  show "digits_ok 10 (frac_of (shown_frac v))" unfolding fr using pg(2) by (rule digits_ok_take)
  show "int (length (frac_of (shown_frac v))) = dscale v" unfolding fr using pg(4) n by simp
  define all where "all = whole_digits v @ frac_groups v"
  have "whole_digits v @ frac_of (shown_frac v) = take (length (whole_digits v) + n) all"
    by (simp add: fr all_def)
  then have "bval 10 (whole_digits v @ frac_of (shown_frac v)) = bval 10 all div 10 ^ (4 * G - n)"
    using bval_take_div [of 10 all "length (whole_digits v) + n"] pg(1,2,4) by (simp add: all_def)
  also have "\<dots> = \<lfloor>absval v * 10 powi (4 * int G) / of_int (10 ^ (4 * G - n))\<rfloor>"
    unfolding all_def pg(5) by (rule floor_div_int [symmetric]) simp
  also have "absval v * 10 powi (4 * int G) / of_int (10 ^ (4 * G - n)) = absval v * 10 powi dscale v"
  proof -
    have "(of_int (10 ^ (4 * G - n)) :: rat) = 10 powi (4 * int G - int n)"
      using n by (simp add: power_int_def nat_diff_distrib' nat_mult_distrib)
    moreover have "4 * int G = dscale v + (4 * int G - int n)" using n by simp
    then have "(10::rat) powi (4 * int G) = 10 powi dscale v * 10 powi (4 * int G - int n)" by (metis powi_split)
    ultimately show ?thesis by simp
  qed
  finally show "bval 10 (whole_digits v @ frac_of (shown_frac v)) = \<lfloor>absval v * 10 powi dscale v\<rfloor>" .
qed

lemma set_var_printed:
  assumes ok: "num_ok v" and sc: "0 \<le> dscale v" and rest: "stops rest" "rest = [] \<or> hd rest \<notin> {CHR ''e'', CHR ''E''}"
  shows "\<exists>u. set_var_from_str (get_str_from_var v @ rest) dest = Inr (u, rest) \<and>
    num_is u (sgnval v * (of_int \<lfloor>absval v * 10 powi dscale v\<rfloor> * 10 powi (- dscale v))) (dscale v)"
proof -
  have d: "digits_ok NBASE (digits v)" using ok by (simp add: num_ok_def)
  note pg = printed_groups [OF d refl] and sv = shown_value [OF d sc]
  define u where "u = var_from_decimal (if sign v = NUMERIC_NEG then NUMERIC_NEG else NUMERIC_POS)
     (whole_digits v @ frac_of (shown_frac v)) (int (length (whole_digits v)) - 1) (dscale v) dest"
  have "scan_exponent rest dw sc = Inr (rest, dw, sc)" for dw sc
    using rest(2) by (cases rest) (auto simp: scan_exponent_def)
  then have "set_var_from_str (get_str_from_var v @ rest) dest = Inr (u, rest)"
    using set_var_from_str_number [OF pg(1,3) sv(1) rest(1), of "sign v = NUMERIC_NEG" dest] sv(2)
    by (simp add: get_str_shape u_def)
  moreover have "num_is u (sgnval v * (of_int \<lfloor>absval v * 10 powi dscale v\<rfloor> * 10 powi (- dscale v))) (dscale v)"
    using var_from_decimal_is [of "whole_digits v @ frac_of (shown_frac v)"
        "if sign v = NUMERIC_NEG then NUMERIC_NEG else NUMERIC_POS" "int (length (whole_digits v)) - 1" "dscale v" dest]
      pg(1,3) sv by (cases "sign v = NUMERIC_NEG") (simp_all add: u_def sgnval_def)
  ultimately show ?thesis by blast
qed

lemma printed_chars:
  assumes ok: "num_ok v" and sc: "0 \<le> dscale v"
  shows "get_str_from_var v \<noteq> []" "\<forall>c \<in> set (get_str_from_var v). c \<noteq> CHR 0x00"
    "\<not> c_isspace (hd (get_str_from_var v))" "pg_strncasecmp (get_str_from_var v) ''NaN'' 3 \<noteq> 0"
proof -
  have d: "digits_ok NBASE (digits v)" using ok by (simp add: num_ok_def)
  note pg = printed_groups [OF d refl] and sv = shown_value [OF d sc]
  have nz: "c \<noteq> CHR 0x00" if "c \<in> digit_char ` set ds" "digits_ok 10 ds" for c ds
    using that digit_char_props(6) by (force simp: digits_ok_def)
  show "get_str_from_var v \<noteq> []" using pg(3) by (simp add: get_str_shape)
  show "\<forall>c \<in> set (get_str_from_var v). c \<noteq> CHR 0x00"
    using pg(1) sv(1) nz by (auto simp: get_str_shape sign_text_def point_text_def frac_of_def split: option.splits)
  obtain e es where e: "whole_digits v = e # es" using pg(3) by (cases "whole_digits v") auto
  then have "0 \<le> e" "e < 10" using pg(1) by simp_all
  note ec = digit_char_props [OF this]
  show "\<not> c_isspace (hd (get_str_from_var v))"
    using ec by (simp add: get_str_shape sign_text_def e) (simp add: c_isspace_def)
  show "pg_strncasecmp (get_str_from_var v) ''NaN'' 3 \<noteq> 0"
    using ec(8) \<open>e < 10\<close> by (simp add: get_str_shape sign_text_def e fold_case_def numeral_3_eq_3 Let_def)
qed

lemma numeric_of_printed:
  assumes ok: "num_ok v" and sc: "0 \<le> dscale v"
  shows "num_is (numeric_of_string (get_str_from_var v))
    (sgnval v * (of_int \<lfloor>absval v * 10 powi dscale v\<rfloor> * 10 powi (- dscale v))) (dscale v)"
proof -
  note pc = printed_chars [OF ok sc]
  have tw: "takeWhile (\<lambda>c. c \<noteq> CHR 0x00) (get_str_from_var v) = get_str_from_var v"
    using pc(2) by (simp add: takeWhile_eq_all_conv)
  have dw: "dropWhile c_isspace (get_str_from_var v) = get_str_from_var v"
    using pc(1,3) by (cases "get_str_from_var v") simp_all
  obtain u where u: "set_var_from_str (get_str_from_var v) numeric_init = Inr (u, [])"
    "num_is u (sgnval v * (of_int \<lfloor>absval v * 10 powi dscale v\<rfloor> * 10 powi (- dscale v))) (dscale v)"
    using set_var_printed [OF ok sc, of "[]" numeric_init] by (auto simp: stops_def)
  then have "numeric_of_string (get_str_from_var v) = u"
    using pc(4) unfolding numeric_of_string_def tw dw Let_def by simp
  with u(2) show ?thesis by simp
qed

section \<open>Numbers with an exponent and surrounding space\<close>

text \<open>An exponent: its sign and digits.\<close>

definition exp_text :: "(bool \<times> int list) option \<Rightarrow> string" where
  "exp_text ex = (case ex of None \<Rightarrow> [] | Some (neg, es) \<Rightarrow> CHR ''e'' # sign_text neg @ map digit_char es)"

definition exp_value :: "(bool \<times> int list) option \<Rightarrow> int" where
  "exp_value ex = (case ex of None \<Rightarrow> 0 | Some (neg, es) \<Rightarrow> if neg then - bval 10 es else bval 10 es)"

definition exp_ok :: "(bool \<times> int list) option \<Rightarrow> bool" where
  "exp_ok ex \<longleftrightarrow> (case ex of None \<Rightarrow> True | Some (neg, es) \<Rightarrow> es \<noteq> [] \<and> digits_ok 10 es \<and> bval 10 es < 1073741823)"

lemma minus_no_space: "\<not> c_isspace CHR ''-''"
  by (simp add: c_isspace_def)

lemma strtol10_text:
  assumes es: "digits_ok 10 es" "es \<noteq> []" "bval 10 es < 1073741823" and rest: "rest = [] \<or> \<not> c_isdigit (hd rest)"
  shows "strtol10 (sign_text neg @ map digit_char es @ rest) = Some (if neg then - bval 10 es else bval 10 es, rest)"
proof -
  obtain d ds where d: "es = d # ds" using es(2) by (cases es) auto
  then have "0 \<le> d" "d < 10" using es(1) by simp_all
  note dc = digit_char_props [OF this]
  define body where "body = map digit_char es @ rest"
  have body: "body = digit_char d # tl body" by (simp add: body_def d)
  have "dropWhile c_isspace (sign_text neg @ body) = sign_text neg @ body"
    using dc minus_no_space by (subst (1 2) body) (simp add: sign_text_def)
  moreover have "(case sign_text neg @ body of [] \<Rightarrow> (False, [])
      | c # cs \<Rightarrow> if c = CHR ''-'' then (True, cs) else if c = CHR ''+'' then (False, cs) else (False, c # cs)) = (neg, body)"
    using dc by (subst (1 2) body) (simp add: sign_text_def)
  moreover have "0 \<le> bval 10 es" using es(1) by (rule bval_nonneg)
  ultimately show ?thesis
    using digit_run [OF es(1) rest] es(2,3) unfolding strtol10_def Let_def body_def by (simp add: max_def min_def)
qed

lemma exponent_letter: "\<not> c_isdigit CHR ''e''" "\<not> c_isspace CHR ''e''" "\<not> c_isspace CHR ''E''" "\<not> c_isspace CHR 0x00"
  by (simp_all add: c_isdigit_def c_isspace_def)

lemma space_not: "c_isspace c \<Longrightarrow> \<not> c_isdigit c \<and> c \<noteq> CHR ''.'' \<and> c \<noteq> CHR ''e'' \<and> c \<noteq> CHR ''E'' \<and> c \<noteq> CHR 0x00"
  by (auto simp: c_isspace_def c_isdigit_def)

lemma spaces_hd: "\<forall>c \<in> set sp. c_isspace c \<Longrightarrow> sp = [] \<or> \<not> c_isdigit (hd sp) \<and> hd sp \<noteq> CHR ''.'' \<and> hd sp \<noteq> CHR ''e'' \<and> hd sp \<noteq> CHR ''E''"
  using space_not by (cases sp) auto

lemma scan_exponent_text:
  assumes ex: "exp_ok ex" and sp: "\<forall>c \<in> set sp. c_isspace c"
  shows "scan_exponent (exp_text ex @ sp) dw dsc
    = Inr (sp, dw + exp_value ex, if ex = None then dsc else max 0 (dsc - exp_value ex))"
proof (cases ex)
  case None
  then show ?thesis using spaces_hd [OF sp] by (cases sp) (auto simp: scan_exponent_def exp_text_def exp_value_def)
next
  case (Some p)
  obtain neg es where p: "p = (neg, es)" by fastforce
  have es: "digits_ok 10 es" "es \<noteq> []" "bval 10 es < 1073741823" using ex by (simp_all add: exp_ok_def Some p)
  have lim: "INT_MAX sdiv 2 = 1073741823" by (simp add: signed_divide_int_def)
  have "strtol10 (sign_text neg @ map digit_char es @ sp) = Some (exp_value ex, sp)"
    using strtol10_text [OF es, of sp neg] spaces_hd [OF sp] by (auto simp: exp_value_def Some p)
  moreover have "- 1073741823 < exp_value ex" "exp_value ex < 1073741823"
    using es bval_nonneg [OF es(1)] by (simp_all add: exp_value_def Some p)
  ultimately show ?thesis
    unfolding scan_exponent_def lim by (simp add: exp_text_def Some p max_def)
qed

lemma scan_exponent_stops: "exp_ok ex \<Longrightarrow> \<forall>c \<in> set sp. c_isspace c \<Longrightarrow> stops (exp_text ex @ sp)"
  using spaces_hd [of sp] exponent_letter(1) by (cases ex) (auto simp: stops_def exp_text_def)

definition number_text :: "bool \<Rightarrow> int list \<Rightarrow> int list option \<Rightarrow> (bool \<times> int list) option \<Rightarrow> string" where
  "number_text neg ip fp ex = sign_text neg @ map digit_char ip @ point_text fp @ exp_text ex"

lemma number_text_hd:
  assumes "digits_ok 10 ip" "ip \<noteq> []"
  shows "number_text neg ip fp ex \<noteq> []" "\<not> c_isspace (hd (number_text neg ip fp ex))"
    "pg_strncasecmp (number_text neg ip fp ex @ rest) ''NaN'' 3 \<noteq> 0"
proof -
  obtain d ds where d: "ip = d # ds" using assms(2) by (cases ip) auto
  then have r: "0 \<le> d" "d < 10" using assms(1) by simp_all
  note dc = digit_char_props [OF r]
  show "number_text neg ip fp ex \<noteq> []" by (simp add: number_text_def d)
  show "\<not> c_isspace (hd (number_text neg ip fp ex))"
    using dc by (simp add: number_text_def sign_text_def d) (simp add: c_isspace_def)
  show "pg_strncasecmp (number_text neg ip fp ex @ rest) ''NaN'' 3 \<noteq> 0"
    using dc(8) r by (simp add: number_text_def sign_text_def d fold_case_def numeral_3_eq_3 Let_def)
qed

lemma number_text_nul:
  assumes "digits_ok 10 ip" "digits_ok 10 (frac_of fp)" "exp_ok ex"
  shows "\<forall>c \<in> set (number_text neg ip fp ex). c \<noteq> CHR 0x00"
proof -
  have nz: "c \<noteq> CHR 0x00" if "c \<in> digit_char ` set ds" "digits_ok 10 ds" for c ds
    using that digit_char_props(6) by (force simp: digits_ok_def)
  show ?thesis using assms nz
    by (auto simp: number_text_def sign_text_def point_text_def exp_text_def frac_of_def exp_ok_def split: option.splits if_splits)
qed

lemma numeric_of_number:
  assumes ip: "digits_ok 10 ip" "ip \<noteq> []" and fp: "digits_ok 10 (frac_of fp)" and ex: "exp_ok ex"
    and sp: "\<forall>c \<in> set sp1. c_isspace c" "\<forall>c \<in> set sp2. c_isspace c"
  shows "num_is (numeric_of_string (sp1 @ number_text neg ip fp ex @ sp2))
    ((if neg then -1 else 1) * (of_int (bval 10 (ip @ frac_of fp)) * 10 powi (exp_value ex - int (length (frac_of fp)))))
    (if ex = None then int (length (frac_of fp)) else max 0 (int (length (frac_of fp)) - exp_value ex))"
proof -
  define t where "t = number_text neg ip fp ex"
  define e where "e = exp_value ex"
  define dsc where "dsc = (if ex = None then int (length (frac_of fp)) else max 0 (int (length (frac_of fp)) - e))"
  define u where "u = var_from_decimal (if neg then NUMERIC_NEG else NUMERIC_POS) (ip @ frac_of fp)
    (int (length ip) - 1 + e) dsc numeric_init"
  note hd = number_text_hd [OF ip, of neg fp ex, folded t_def]
  have tw: "takeWhile (\<lambda>c. c \<noteq> CHR 0x00) (sp1 @ t @ sp2) = sp1 @ t @ sp2"
    using sp number_text_nul [OF ip(1) fp ex, of neg, folded t_def] exponent_letter(4)
    by (subst takeWhile_eq_all_conv) auto
  have "dropWhile c_isspace (t @ sp2) = t @ sp2" using hd(1,2) by (cases t) simp_all
  then have dw: "dropWhile c_isspace (sp1 @ t @ sp2) = t @ sp2" using sp(1) by (simp add: dropWhile_append)
  have "set_var_from_str (t @ sp2) numeric_init = Inr (u, sp2)"
    using set_var_from_str_number [OF ip fp scan_exponent_stops [OF ex sp(2)], of neg numeric_init]
      scan_exponent_text [OF ex sp(2)] by (simp add: t_def number_text_def u_def dsc_def e_def)
  then have "numeric_of_string (sp1 @ t @ sp2) = u"
    using hd(3) [of sp2] sp(2) unfolding numeric_of_string_def tw dw Let_def by auto
  moreover have "num_is u ((if neg then -1 else 1) * (of_int (bval 10 (ip @ frac_of fp)) * 10 powi (e - int (length (frac_of fp))))) dsc"
    using var_from_decimal_is [of "ip @ frac_of fp" "if neg then NUMERIC_NEG else NUMERIC_POS" "int (length ip) - 1 + e" dsc numeric_init]
      ip fp by (cases neg) (simp_all add: u_def)
  ultimately show ?thesis unfolding t_def dsc_def e_def by (simp only:)
qed

section \<open>Properties\<close>

text \<open>
  C6: printing and parsing are inverse: a value in normal form whose decimals all fit into its
  display scale is read back as the same variable, field by field.
\<close>

theorem numeric_print_parse:
  assumes wf: "num_wf v" and sc: "0 \<le> dscale v" and fits: "absval v * 10 powi dscale v = of_int n"
  shows "numeric_of_string (get_str_from_var v) = v"
proof -
  have "num_is (numeric_of_string (get_str_from_var v)) (sgnval v * (of_int n * 10 powi (- dscale v))) (dscale v)"
    using numeric_of_printed [OF num_wf_ok [OF wf] sc] by (simp add: fits)
  moreover have "of_int n * 10 powi (- dscale v) = absval v" by (simp add: fits [symmetric] mult.assoc)
  ultimately have i: "num_wf (numeric_of_string (get_str_from_var v))"
    "numval (numeric_of_string (get_str_from_var v)) = numval v" "dscale (numeric_of_string (get_str_from_var v)) = dscale v"
    by (simp_all add: num_is_def numval_def)
  show ?thesis using numval_inject [OF i(1) wf i(2)] i(3) by (intro numeric.equality) simp_all
qed

theorem numeric_print_parse_witness:
  "get_str_from_var \<lparr>weight = 0, sign = 16384, dscale = 3, digits = [12, 500]\<rparr> = ''-12.050''
   \<and> numeric_of_string ''-12.050'' = \<lparr>weight = 0, sign = 16384, dscale = 3, digits = [12, 500]\<rparr>"
proof -
  have "get_str_from_var \<lparr>weight = 0, sign = 16384, dscale = 3, digits = [12, 500]\<rparr> = ''-12.050''" by code_simp
  moreover have "absval \<lparr>weight = 0, sign = 16384, dscale = 3, digits = [12, 500]\<rparr> * 10 powi 3 = of_int 12050"
    by (simp add: absval_def ndigits_def power_int_def power_one_over)
  ultimately show ?thesis
    using numeric_print_parse [of "\<lparr>weight = 0, sign = 16384, dscale = 3, digits = [12, 500]\<rparr>" 12050]
    by (simp add: num_wf_def num_ok_def num_norm_def)
qed

text \<open>
  \<open>get_str_from_var\<close> shows exactly \<open>dscale\<close> decimals, the value truncated towards zero
  there: what is printed reads back as that truncated value, in normal form and with the same
  display scale.
\<close>

theorem get_str_truncates:
  assumes "num_ok v" "0 \<le> dscale v"
  shows "num_wf (numeric_of_string (get_str_from_var v)) \<and> dscale (numeric_of_string (get_str_from_var v)) = dscale v
    \<and> numval (numeric_of_string (get_str_from_var v))
        = sgnval v * (of_int \<lfloor>\<bar>numval v\<bar> * 10 powi dscale v\<rfloor> * 10 powi (- dscale v))"
  using numeric_of_printed [OF assms] assms(1) by (simp add: num_is_def abs_numval num_ok_def)

theorem get_str_truncates_witness:
  "get_str_from_var \<lparr>weight = -1, sign = 0, dscale = 1, digits = [9999]\<rparr> = ''0.9''
   \<and> num_wf (numeric_of_string ''0.9'')"
proof -
  have "get_str_from_var \<lparr>weight = -1, sign = 0, dscale = 1, digits = [9999]\<rparr> = ''0.9''" by code_simp
  then show ?thesis using get_str_truncates [of "\<lparr>weight = -1, sign = 0, dscale = 1, digits = [9999]\<rparr>"]
    by (simp add: num_ok_def)
qed

text \<open>
  The constructor reads every decimal number, with optional sign, decimals, exponent and
  surrounding space, as exactly that number in normal form, and derives its display scale
  from the digits behind the point and the exponent.
\<close>

theorem numeric_parse_correct:
  assumes "digits_ok 10 ip" "ip \<noteq> []" "digits_ok 10 (frac_of fp)" "exp_ok ex"
    and "\<forall>c \<in> set sp1. c_isspace c" "\<forall>c \<in> set sp2. c_isspace c"
  shows "num_wf (numeric_of_string (sp1 @ number_text neg ip fp ex @ sp2))
    \<and> numval (numeric_of_string (sp1 @ number_text neg ip fp ex @ sp2))
      = (if neg then -1 else 1) * (of_int (bval 10 (ip @ frac_of fp)) * 10 powi (exp_value ex - int (length (frac_of fp))))
    \<and> dscale (numeric_of_string (sp1 @ number_text neg ip fp ex @ sp2))
      = (if ex = None then int (length (frac_of fp)) else max 0 (int (length (frac_of fp)) - exp_value ex))"
  using numeric_of_number [OF assms, of neg] by (simp add: num_is_def)

theorem numeric_parse_correct_witness:
  "numeric_of_string ('' '' @ number_text True [1, 2] (Some [5]) (Some (True, [3])) @ '' '')
     = \<lparr>weight = -1, sign = 16384, dscale = 4, digits = [125]\<rparr>
   \<and> number_text True [1, 2] (Some [5]) (Some (True, [3])) = ''-12.5e-3''
   \<and> num_wf (numeric_of_string ('' '' @ number_text True [1, 2] (Some [5]) (Some (True, [3])) @ '' ''))"
proof (intro conjI)
  show "numeric_of_string ('' '' @ number_text True [1, 2] (Some [5]) (Some (True, [3])) @ '' '')
     = \<lparr>weight = -1, sign = 16384, dscale = 4, digits = [125]\<rparr>" by code_simp
  show "number_text True [1, 2] (Some [5]) (Some (True, [3])) = ''-12.5e-3''" by code_simp
  show "num_wf (numeric_of_string ('' '' @ number_text True [1, 2] (Some [5]) (Some (True, [3])) @ '' ''))"
    by (rule conjunct1 [OF numeric_parse_correct]) (simp_all add: frac_of_def exp_ok_def c_isspace_def)
qed

lemma whole_digits_length:
  assumes "digits_ok NBASE (digits v)"
  shows "int (length (whole_digits v)) \<le> max 1 (4 * (weight v + 1))"
proof (cases "weight v < 0")
  case False
  have d0: "0 \<le> digit_at (digits v) 0" "digit_at (digits v) 0 < NBASE" using digit_at_bounds [OF assms, of 0] by simp_all
  have "length (whole_digits v) \<le> 4 + 4 * nat (weight v)"
    using False put_group_value(4) [OF d0, of False] groups_value [OF digit_at_list [OF assms, of "[1..weight v]"]]
    by (simp add: whole_digits_list)
  then have "int (length (whole_digits v)) \<le> int (4 + 4 * nat (weight v))" by (simp only: of_nat_le_iff)
  then show ?thesis using False by simp
qed (simp add: whole_digits_def)

text \<open>
  \<open>get_str_from_var\<close> never writes past the buffer it allocates, the excess digits of the
  last group and the terminating NUL included.
\<close>

theorem get_str_buffer_bound:
  assumes "digits_ok NBASE (digits v)" "0 \<le> dscale v"
  shows "str_written v \<le> str_alloc v \<and> int (length (get_str_from_var v)) + 1 \<le> str_written v"
proof -
  define G where "G = nat ((dscale v + 3) div 4)"
  note pg = printed_groups [OF assms(1) G_def] and wl = whole_digits_length [OF assms(1)]
  have "4 * ((dscale v + 3) div 4) \<le> dscale v + 3" by presburger
  then have G: "int (length (frac_groups v)) \<le> dscale v + 3" using assms(2) pg(4) by (simp add: G_def)
  have "str_written v \<le> 1 + max 1 (4 * (weight v + 1)) + 1 + (dscale v + 3)"
    using wl G assms(2) unfolding str_written_def by (auto simp: max_def split: if_splits)
  also have "\<dots> \<le> str_alloc v" by (simp add: str_alloc_def Let_def)
  finally have "str_written v \<le> str_alloc v" .
  moreover have "int (length (get_str_from_var v)) + 1 \<le> str_written v"
    using assms(2) by (simp add: get_str_from_var_def str_written_def le_max_iff_disj min_def le_nat_iff)
  ultimately show ?thesis by simp
qed

theorem get_str_buffer_bound_witness:
  "str_written \<lparr>weight = 1, sign = 16384, dscale = 1, digits = [1234, 5678, 9000]\<rparr>
     \<le> str_alloc \<lparr>weight = 1, sign = 16384, dscale = 1, digits = [1234, 5678, 9000]\<rparr>"
  using get_str_buffer_bound [of "\<lparr>weight = 1, sign = 16384, dscale = 1, digits = [1234, 5678, 9000]\<rparr>"]
  by simp

end
