(* ===== verification/Numeric_Div.thy ===== *)
theory Numeric_Div
  imports Numeric_Arith
begin

text \<open>
  Division of \<open>pq_async::numeric\<close>: \<open>div_var\<close>, which is Knuth's algorithm 4.3.1D with a fast
  path for divisors of one digit. The workspace \<open>dividend\<close> (with the spare cell
  \<open>dividend[0]\<close>) and \<open>divisor\<close> (with the zero at \<open>divisor[0]\<close>) are lists, and the loops that
  run from the last cell to the first take the number of cells still to visit.
\<close>

section \<open>The loops of div\_var\<close>

text \<open>Multiplication of the first cells by the scaling factor \<open>d\<close>, with the carry out.\<close>

fun scale_loop :: "int \<Rightarrow> nat \<Rightarrow> int \<Rightarrow> int list \<Rightarrow> int list \<times> int" where
  "scale_loop d 0 carry xs = (xs, carry)"
| "scale_loop d (Suc i) carry xs =
     (let carry = carry + xs ! i * d
      in scale_loop d i (carry sdiv NBASE) (xs[i := carry smod NBASE]))"

text \<open>
  The loop that adjusts \<open>qhat\<close>. Its guard computes in \<open>int\<close>; it is false for \<open>qhat = 0\<close>,
  where both sides are products of values that are not negative.
\<close>

fun qhat_loop :: "int \<Rightarrow> int \<Rightarrow> int \<Rightarrow> int \<Rightarrow> nat \<Rightarrow> nat" where
  "qhat_loop divisor1 divisor2 next2digits third 0 = 0"
| "qhat_loop divisor1 divisor2 next2digits third (Suc q) =
     (let qhat = int (Suc q)
      in if i32 (divisor2 * qhat)
            > i32 (i32 (i32 (next2digits - i32 (qhat * divisor1)) * NBASE) + third)
         then qhat_loop divisor1 divisor2 next2digits third q else Suc q)"

text \<open>Subtraction of \<open>qhat\<close> times the divisor from the window of the dividend at \<open>j\<close>.\<close>

fun mulsub :: "int list \<Rightarrow> nat \<Rightarrow> int \<Rightarrow> nat \<Rightarrow> int \<Rightarrow> int \<Rightarrow> int list \<Rightarrow> int list \<times> int \<times> int" where
  "mulsub divisor j qhat 0 carry borrow dividend = (dividend, carry, borrow)"
| "mulsub divisor j qhat (Suc i) carry borrow dividend =
     (let carry = carry + divisor ! i * qhat;
          borrow = borrow - carry smod NBASE + dividend ! (j + i);
          carry = carry sdiv NBASE
      in if borrow < 0 then mulsub divisor j qhat i carry (-1) (dividend[j + i := borrow + NBASE])
         else mulsub divisor j qhat i carry 0 (dividend[j + i := borrow]))"

text \<open>Adding the divisor back.\<close>

fun addback :: "int list \<Rightarrow> nat \<Rightarrow> nat \<Rightarrow> int \<Rightarrow> int list \<Rightarrow> int list \<times> int" where
  "addback divisor j 0 carry dividend = (dividend, carry)"
| "addback divisor j (Suc i) carry dividend =
     (let carry = carry + dividend ! (j + i) + divisor ! i
      in if carry \<ge> NBASE then addback divisor j i 1 (dividend[j + i := carry - NBASE])
         else addback divisor j i 0 (dividend[j + i := carry]))"

text \<open>One round of the main loop: the quotient digit and the new dividend.\<close>

definition div_step :: "int list \<Rightarrow> nat \<Rightarrow> int list \<Rightarrow> int \<times> int list" where
  "div_step divisor j dividend =
     (let divisor1 = divisor ! 1; divisor2 = divisor ! 2;
          next2digits = dividend ! j * NBASE + dividend ! (j + 1)
      in if next2digits = 0 then (0, dividend)
         else let qhat = (if dividend ! j = divisor1 then NBASE - 1 else next2digits sdiv divisor1);
                  qhat = int (qhat_loop divisor1 divisor2 next2digits (dividend ! (j + 2)) (nat qhat))
              in if qhat > 0
                 then let (dividend, carry, borrow) = mulsub divisor j qhat (length divisor) 0 0 dividend
                      in if borrow \<noteq> 0 then (qhat - 1, fst (addback divisor j (length divisor) 0 dividend))
                         else (qhat, dividend)
                 else (qhat, dividend))"

fun div_loop :: "int list \<Rightarrow> nat \<Rightarrow> nat \<Rightarrow> int list \<Rightarrow> int list" where
  "div_loop divisor 0 j dividend = []"
| "div_loop divisor (Suc n) j dividend =
     (let (q, dividend) = div_step divisor j dividend in q # div_loop divisor n (Suc j) dividend)"

text \<open>The fast path: \<open>xs\<close> is the dividend from \<open>dividend[1]\<close> on.\<close>

fun div_fast_path :: "int \<Rightarrow> nat \<Rightarrow> int \<Rightarrow> int list \<Rightarrow> int list" where
  "div_fast_path divisor1 0 carry xs = []"
| "div_fast_path divisor1 (Suc n) carry xs =
     (let carry = carry * NBASE + hd xs
      in carry sdiv divisor1 # div_fast_path divisor1 n (carry smod divisor1) (tl xs))"

text \<open>
  The scaling step: both numbers are multiplied by \<open>d\<close> when the first divisor digit is
  below \<open>HALF_NBASE\<close>; \<open>n1\<close> is the number of digits of the dividend that can be nonzero.
\<close>

definition div_scale :: "nat \<Rightarrow> int list \<Rightarrow> int list \<Rightarrow> int list \<times> int list" where
  "div_scale n1 divisor dividend =
     (if divisor ! 1 < HALF_NBASE
      then let d = NBASE sdiv (divisor ! 1 + 1)
           in (hd divisor # fst (scale_loop d (length (tl divisor)) 0 (tl divisor)),
               fst (scale_loop d (n1 + 1) 0 dividend))
      else (divisor, dividend))"

text \<open>The quotient digits for the operand digits, \<open>m\<close> of them.\<close>

definition div_digits :: "int list \<Rightarrow> int list \<Rightarrow> nat \<Rightarrow> int list" where
  "div_digits ds1 ds2 m =
     (let div_ndigits = max (m + length ds2) (length ds1);
          dividend = 0 # ds1 @ replicate (div_ndigits - length ds1) 0;
          divisor = 0 # ds2
      in if length ds2 = 1 then div_fast_path (divisor ! 1) m 0 (tl dividend)
         else let (divisor, dividend) = div_scale (length ds1) divisor dividend
              in div_loop divisor m 0 dividend)"

definition div_var :: "numeric \<Rightarrow> numeric \<Rightarrow> numeric \<Rightarrow> int \<Rightarrow> bool \<Rightarrow> numeric result" where
  "div_var var1 var2 result rscale rnd =
     (if ndigits var2 = 0 \<or> digits var2 ! 0 = 0 then Inl (PqException ''division by zero'')
      else if ndigits var1 = 0 then Inr ((zero_var result)\<lparr>dscale := rscale\<rparr>)
      else let res_sign = (if sign var1 = sign var2 then NUMERIC_POS else NUMERIC_NEG);
               res_weight = weight var1 - weight var2;
               res_ndigits = max (res_weight + 1 + (rscale + DEC_DIGITS - 1) sdiv DEC_DIGITS) 1;
               res_ndigits = (if rnd then res_ndigits + 1 else res_ndigits);
               v = result\<lparr>digits := div_digits (digits var1) (digits var2) (nat res_ndigits),
                          weight := res_weight, sign := res_sign\<rparr>
           in Inr (strip_var (if rnd then round_var v rscale else trunc_var v rscale)))"

section \<open>Scaling\<close>

lemma take_drop_update:
  "i < length xs \<Longrightarrow> take (Suc i) (xs[i := x]) = take i xs @ [x]" "drop (Suc i) (xs[i := x]) = drop (Suc i) xs"
  by (simp_all add: take_Suc_conv_app_nth)

lemma scale_loop_value:
  "scale_loop d i c xs = (xs', c') \<Longrightarrow> i \<le> length xs \<Longrightarrow> 0 \<le> d \<Longrightarrow> 0 \<le> c \<Longrightarrow> digits_ok NBASE xs \<Longrightarrow>
   length xs' = length xs \<and> drop i xs' = drop i xs \<and> digits_ok NBASE xs' \<and> 0 \<le> c' \<and>
   bval NBASE (take i xs') + c' * NBASE ^ i = bval NBASE (take i xs) * d + c"
proof (induction i arbitrary: c xs)
  case (Suc i)
  define t where "t = c + xs ! i * d"
  have i: "i < length xs" using Suc.prems by simp
  have "0 \<le> xs ! i" using digits_ok_nth [OF Suc.prems(5) i] by simp
  then have t: "0 \<le> t" "t sdiv NBASE = t div NBASE" "t smod NBASE = t mod NBASE"
    using Suc.prems by (simp_all add: t_def sdiv_nonneg smod_nonneg)
  have rec: "scale_loop d i (t div NBASE) (xs[i := t mod NBASE]) = (xs', c')"
    using Suc.prems(1) t(2,3) by (simp add: t_def Let_def)
  have ok: "digits_ok NBASE (xs[i := t mod NBASE])" using Suc.prems by (intro digits_ok_update) simp_all
  have IH: "length xs' = length xs" "drop i xs' = drop i (xs[i := t mod NBASE])" "digits_ok NBASE xs'" "0 \<le> c'"
    "bval NBASE (take i xs') + c' * NBASE ^ i = bval NBASE (take i xs) * d + t div NBASE"
    using Suc.IH [OF rec _ _ _ ok] i t(1) Suc.prems(3) by simp_all
  have x: "xs' ! i = t mod NBASE" using IH(1,2) i by (metis hd_drop_conv_nth length_list_update nth_list_update_eq)
  have dr: "drop (Suc i) xs' = drop (Suc i) xs" using IH(2) i
    by (metis drop_Suc drop_update_cancel lessI tl_drop)
  have "bval NBASE (take (Suc i) xs') + c' * NBASE ^ Suc i
      = (bval NBASE (take i xs') + c' * NBASE ^ i) * NBASE + t mod NBASE"
    using i IH(1) x by (simp add: take_Suc_conv_app_nth algebra_simps)
  also have "\<dots> = bval NBASE (take i xs) * d * NBASE + t" unfolding IH(5) by (simp add: algebra_simps)
  also have "\<dots> = bval NBASE (take (Suc i) xs) * d + c"
    using i by (simp add: take_Suc_conv_app_nth t_def algebra_simps)
  finally show ?case using IH dr by simp
qed simp

lemma scale_all:
  assumes "digits_ok NBASE xs" "0 \<le> d" "n \<le> length xs" "drop n xs = replicate (length xs - n) 0"
    "bval NBASE xs * d < NBASE ^ length xs"
  shows "length (fst (scale_loop d n 0 xs)) = length xs" "digits_ok NBASE (fst (scale_loop d n 0 xs))"
    "bval NBASE (fst (scale_loop d n 0 xs)) = bval NBASE xs * d"
proof -
  obtain ys c where s: "scale_loop d n 0 xs = (ys, c)" by fastforce
  note sv = scale_loop_value [OF s assms(3,2) order_refl assms(1)]
  define k where "k = length xs - n"
  have xs: "bval NBASE xs = bval NBASE (take n xs) * NBASE ^ k"
    by (subst bval_split [of _ _ n]) (simp add: assms(4) k_def)
  have ys: "bval NBASE ys = bval NBASE (take n ys) * NBASE ^ k"
    by (subst bval_split [of _ _ n]) (use sv assms(4) in \<open>simp add: k_def\<close>)
  have len: "length xs = n + k" using assms(3) by (simp add: k_def)
  have "bval NBASE ys + c * NBASE ^ length xs = (bval NBASE (take n ys) + c * NBASE ^ n) * NBASE ^ k"
    by (simp add: ys len power_add distrib_right)
  also have "\<dots> = bval NBASE xs * d" using sv by (simp add: xs)
  finally have eq: "bval NBASE ys + c * NBASE ^ length xs = bval NBASE xs * d" .
  have "c = 0"
  proof (rule ccontr)
    assume "c \<noteq> 0"
    then have "1 * NBASE ^ length xs \<le> c * NBASE ^ length xs" using sv by (intro mult_right_mono) auto
    moreover have "0 \<le> bval NBASE ys" using sv by (intro bval_nonneg) simp
    ultimately show False using eq assms(5) by linarith
  qed
  with eq sv s show "length (fst (scale_loop d n 0 xs)) = length xs" "digits_ok NBASE (fst (scale_loop d n 0 xs))"
    "bval NBASE (fst (scale_loop d n 0 xs)) = bval NBASE xs * d" by simp_all
qed

section \<open>The quotient digit estimate\<close>

text \<open>
  \<open>D\<close> is the window of the dividend and \<open>V\<close> the divisor; \<open>n2\<close> and \<open>u\<close> are the first two
  digits and the third digit of \<open>D\<close>, \<open>v1\<close> and \<open>v2\<close> the first two digits of \<open>V\<close>, \<open>e\<close> what
  follows them counts in.
\<close>

definition lead3 :: "int \<Rightarrow> int \<Rightarrow> int \<Rightarrow> int \<Rightarrow> int \<Rightarrow> int \<Rightarrow> int \<Rightarrow> bool" where
  "lead3 D V e n2 u v1 v2 \<longleftrightarrow>
     0 < e \<and> (n2 * NBASE + u) * e \<le> D \<and> D < (n2 * NBASE + u + 1) * e \<and>
     (v1 * NBASE + v2) * e \<le> V \<and> V < (v1 * NBASE + v2 + 1) * e \<and>
     0 \<le> n2 \<and> 0 \<le> u \<and> u < NBASE \<and> 0 < v1 \<and> v1 < NBASE \<and> 0 \<le> v2 \<and> v2 < NBASE"

lemma lead3_V_pos: "lead3 D V e n2 u v1 v2 \<Longrightarrow> 0 < V"
proof -
  assume l: "lead3 D V e n2 u v1 v2"
  then have "0 < (v1 * NBASE + v2) * e" by (auto simp: lead3_def intro!: mult_pos_pos)
  moreover have "(v1 * NBASE + v2) * e \<le> V" using l by (simp add: lead3_def)
  ultimately show ?thesis by (rule less_le_trans)
qed

lemma qhat_guard_true:
  assumes l: "lead3 D V e n2 u v1 v2" and g: "v2 * q > (n2 - q * v1) * NBASE + u" and q: "0 \<le> q"
  shows "D div V < q"
proof -
  have "n2 * NBASE + u + 1 \<le> q * (v1 * NBASE + v2)" using g by (simp add: algebra_simps)
  then have "(n2 * NBASE + u + 1) * e \<le> q * (v1 * NBASE + v2) * e" using l by (intro mult_right_mono) (simp_all add: lead3_def)
  also have "\<dots> = q * ((v1 * NBASE + v2) * e)" by simp
  also have "\<dots> \<le> q * V" using l q by (intro mult_left_mono) (simp_all add: lead3_def)
  finally have "D < q * V" using l by (simp add: lead3_def)
  then show ?thesis using lead3_V_pos [OF l] by (simp add: div_less_iff)
qed

lemma qhat_guard_false:
  assumes l: "lead3 D V e n2 u v1 v2" and g: "v2 * q \<le> (n2 - q * v1) * NBASE + u" and q: "0 \<le> q" "q \<le> NBASE"
  shows "q - 1 \<le> D div V"
proof -
  have e: "0 < e" and v: "1 \<le> v1" "0 \<le> v2" using l by (simp_all add: lead3_def)
  have "q * (v1 * NBASE + v2) \<le> n2 * NBASE + u" using g by (simp add: algebra_simps)
  then have "q * (v1 * NBASE + v2) * e \<le> (n2 * NBASE + u) * e" using e by (intro mult_right_mono) simp_all
  also have "\<dots> \<le> D" using l by (simp add: lead3_def)
  finally have a: "q * (v1 * NBASE + v2) * e \<le> D" .
  have "q * V \<le> q * ((v1 * NBASE + v2 + 1) * e)" using l q by (intro mult_left_mono) (simp_all add: lead3_def)
  also have "\<dots> = q * (v1 * NBASE + v2) * e + q * e" by (simp add: algebra_simps)
  also have "\<dots> \<le> D + NBASE * e" using a q e by (intro add_mono mult_right_mono) simp_all
  finally have b: "q * V \<le> D + NBASE * e" .
  have "NBASE * e \<le> (v1 * NBASE + v2) * e" using v e by (intro mult_right_mono) simp_all
  also have "\<dots> \<le> V" using l by (simp add: lead3_def)
  finally have "(q - 1) * V \<le> D" using b by (simp add: left_diff_distrib)
  then show ?thesis using lead3_V_pos [OF l] by (simp add: le_div_iff)
qed

text \<open>The guard as it is computed in 32 bits, under the bound the loop keeps.\<close>

lemma qhat_guard_i32:
  assumes "0 \<le> q" "q < NBASE" "0 \<le> v2" "v2 < NBASE" "0 < v1" "v1 < NBASE" "0 \<le> u" "u < NBASE"
    "0 \<le> n2 - q * v1" "n2 - q * v1 < 2 * NBASE"
  shows "i32 (v2 * q) > i32 (i32 (i32 (n2 - i32 (q * v1)) * NBASE) + u)
    \<longleftrightarrow> v2 * q > (n2 - q * v1) * NBASE + u"
proof -
  have "v2 * q \<le> NBASE * NBASE" "q * v1 \<le> NBASE * NBASE" "0 \<le> v2 * q" "0 \<le> q * v1"
    using assms mult_mono [of v2 NBASE q NBASE] mult_mono [of q NBASE v1 NBASE] by simp_all
  moreover have "0 \<le> (n2 - q * v1) * NBASE" "(n2 - q * v1) * NBASE < 2 * NBASE * NBASE"
    using assms(9,10) by simp_all
  ultimately show ?thesis using assms(7,8,9,10) by (simp add: i32_id)
qed

lemma qhat_loop_props:
  assumes l: "lead3 D V e n2 u v1 v2" and q: "int q < NBASE" "D div V \<le> int q"
    and r: "0 \<le> n2 - int q * v1" "n2 - int q * v1 < 2 * NBASE"
  shows "D div V \<le> int (qhat_loop v1 v2 n2 u q) \<and> int (qhat_loop v1 v2 n2 u q) \<le> D div V + 1
    \<and> int (qhat_loop v1 v2 n2 u q) < NBASE"
  using q r
proof (induction q)
  case 0
  have "0 \<le> D div V"
  proof -
    have "0 \<le> (n2 * NBASE + u) * e" using l by (auto simp: lead3_def)
    also have "\<dots> \<le> D" using l by (simp add: lead3_def)
    finally have "0 \<le> D" .
    then show ?thesis using lead3_V_pos [OF l] by (simp add: pos_imp_zdiv_nonneg_iff)
  qed
  with 0 show ?case by simp
next
  case (Suc q)
  define qh where "qh = int (Suc q)"
  have b: "0 \<le> v2" "v2 < NBASE" "0 < v1" "v1 < NBASE" "0 \<le> u" "u < NBASE" using l by (simp_all add: lead3_def)
  have "0 \<le> qh" by (simp add: qh_def)
  note gi = qhat_guard_i32 [OF this Suc.prems(1) [folded qh_def] b Suc.prems(3,4) [folded qh_def]]
  show ?case
  proof (cases "v2 * qh > (n2 - qh * v1) * NBASE + u")
    case True
    then have eq: "qhat_loop v1 v2 n2 u (Suc q) = qhat_loop v1 v2 n2 u q" using gi by (simp add: qh_def)
    have "D div V < qh" using l True by (intro qhat_guard_true) (simp_all add: qh_def)
    moreover have "(n2 - qh * v1) * NBASE < NBASE * NBASE"
      using True b Suc.prems(1) mult_mono [of v2 NBASE qh NBASE] by (simp add: qh_def)
    then have "n2 - int q * v1 < 2 * NBASE" using b by (simp add: qh_def algebra_simps)
    moreover have "0 \<le> n2 - int q * v1" using Suc.prems(3) b by (simp add: algebra_simps)
    ultimately show ?thesis unfolding eq using Suc.IH Suc.prems(1) by (simp add: qh_def)
  next
    case False
    then have eq: "qhat_loop v1 v2 n2 u (Suc q) = Suc q" using gi by (simp add: qh_def)
    have "v2 * qh \<le> (n2 - qh * v1) * NBASE + u" using False by (simp only: not_less)
    then have "qh - 1 \<le> D div V" using l Suc.prems(1) by (intro qhat_guard_false) (simp_all add: qh_def)
    then show ?thesis unfolding eq using Suc.prems by (simp add: qh_def)
  qed
qed

text \<open>The first estimate, before the loop.\<close>

lemma qhat_start:
  assumes l: "lead3 D V e (u0 * NBASE + u1) u v1 v2" and u: "0 \<le> u0" "0 \<le> u1" "u1 < NBASE" and D: "D < V * NBASE"
  defines "q \<equiv> (if u0 = v1 then NBASE - 1 else (u0 * NBASE + u1) sdiv v1)"
  shows "0 \<le> q" "q < NBASE" "D div V \<le> q" "0 \<le> u0 * NBASE + u1 - q * v1" "u0 * NBASE + u1 - q * v1 < 2 * NBASE"
proof -
  define n2 where "n2 = u0 * NBASE + u1"
  have v: "0 < v1" "v1 < NBASE" "v2 < NBASE" "0 < e" using l by (simp_all add: lead3_def)
  have "(n2 * NBASE + u) * e < (v1 * NBASE + v2 + 1) * NBASE * e"
  proof -
    have "(n2 * NBASE + u) * e \<le> D" using l by (simp add: lead3_def n2_def)
    also have "D < V * NBASE" by (rule D)
    also have "\<dots> < (v1 * NBASE + v2 + 1) * e * NBASE" using l by (simp add: lead3_def)
    finally show ?thesis by (simp add: mult.commute mult.left_commute)
  qed
  then have "n2 * NBASE + u < (v1 * NBASE + v2 + 1) * NBASE" using v(4) by (simp add: mult_less_cancel_right)
  then have le: "u0 \<le> v1" using u l v by (simp add: n2_def lead3_def)
  have Dq: "D div V \<le> x" if "D < (x + 1) * V" for x using that lead3_V_pos [OF l] by (simp add: div_less_iff [symmetric])
  have "0 \<le> q \<and> q < NBASE \<and> D div V \<le> q \<and> 0 \<le> n2 - q * v1 \<and> n2 - q * v1 < 2 * NBASE"
  proof (cases "u0 = v1")
    case True
    moreover have "D div V \<le> NBASE - 1" using D by (intro Dq) (simp add: mult.commute)
    ultimately show ?thesis using u v by (simp add: q_def n2_def)
  next
    case False
    have n0: "0 \<le> n2" using u by (simp add: n2_def)
    have q: "q = n2 div v1" using False n0 v by (simp add: q_def n2_def sdiv_nonneg)
    have "u0 + 1 \<le> v1" using le False by simp
    then have "(u0 + 1) * NBASE \<le> v1 * NBASE" by (intro mult_right_mono) simp_all
    then have "n2 < NBASE * v1" using u by (simp add: n2_def)
    then have "q < NBASE" using v by (simp add: q div_less_iff)
    have "n2 + 1 \<le> (q + 1) * v1" using v unfolding q by (simp add: div_less_iff [symmetric] zless_imp_add1_zle)
    then have "(n2 + 1) * (NBASE * e) \<le> (q + 1) * v1 * (NBASE * e)" using v by (intro mult_right_mono) simp_all
    moreover have "(n2 * NBASE + u + 1) * e \<le> (n2 + 1) * (NBASE * e)"
    proof -
      have "(n2 * NBASE + u + 1) * e \<le> ((n2 + 1) * NBASE) * e" using l v by (intro mult_right_mono) (simp_all add: lead3_def)
      then show ?thesis by (simp only: mult.assoc)
    qed
    moreover have "(q + 1) * ((v1 * NBASE + v2) * e) \<le> (q + 1) * V"
      using l n0 v by (intro mult_left_mono) (simp_all add: lead3_def q pos_imp_zdiv_nonneg_iff)
    moreover have "(q + 1) * v1 * (NBASE * e) \<le> (q + 1) * ((v1 * NBASE + v2) * e)"
    proof -
      have "(q + 1) * (v1 * NBASE * e) \<le> (q + 1) * ((v1 * NBASE + v2) * e)"
        using l n0 v by (intro mult_left_mono mult_right_mono) (simp_all add: lead3_def q pos_imp_zdiv_nonneg_iff)
      then show ?thesis by (simp add: mult.assoc)
    qed
    ultimately have "D < (q + 1) * V" using l [unfolded lead3_def n2_def [symmetric]] by linarith
    moreover have "n2 - q * v1 = n2 mod v1" by (simp add: q minus_div_mult_eq_mod)
    moreover have "n2 mod v1 < 2 * NBASE" using pos_mod_bound [OF v(1), of n2] v(2) by linarith
    ultimately show ?thesis using v n0 \<open>q < NBASE\<close> Dq [of q]
      by (simp add: q pos_imp_zdiv_nonneg_iff)
  qed
  then show "0 \<le> q" "q < NBASE" "D div V \<le> q" "0 \<le> u0 * NBASE + u1 - q * v1" "u0 * NBASE + u1 - q * v1 < 2 * NBASE"
    by (simp_all add: n2_def)
qed

section \<open>Subtracting and adding back\<close>

abbreviation window :: "nat \<Rightarrow> nat \<Rightarrow> int list \<Rightarrow> int" where
  "window j k xs \<equiv> bval NBASE (take k (drop j xs))"

lemma window_update:
  assumes "j + i < length xs"
  shows "take i (drop j (xs[j + i := x])) = take i (drop j xs)" "take j (xs[j + i := x]) = take j xs"
    "take (Suc i) (drop j xs) = take i (drop j xs) @ [xs ! (j + i)]"
  using assms by (simp_all add: drop_update_swap take_Suc_conv_app_nth)

lemma window_after:
  assumes "j + i < length xs" "length ys = length xs" "drop (j + i) ys = drop (j + i) (xs[j + i := x])"
  shows "take (Suc i) (drop j ys) = take i (drop j ys) @ [x]" "drop (j + Suc i) ys = drop (j + Suc i) xs"
proof -
  have "ys ! (j + i) = x" using assms by (metis hd_drop_conv_nth length_list_update nth_list_update_eq)
  then show "take (Suc i) (drop j ys) = take i (drop j ys) @ [x]" using assms by (simp add: take_Suc_conv_app_nth)
  have "drop (Suc (j + i)) ys = drop (Suc (j + i)) xs"
    using assms(3) by (metis drop_Suc drop_update_cancel lessI tl_drop)
  then show "drop (j + Suc i) ys = drop (j + Suc i) xs" by simp
qed

lemma mulsub_value:
  assumes dr: "digits_ok NBASE dr" and q: "0 \<le> q"
  shows "mulsub dr j q k c b dv = (dv', c', b') \<Longrightarrow> k \<le> length dr \<Longrightarrow> j + k \<le> length dv \<Longrightarrow>
    digits_ok NBASE dv \<Longrightarrow> 0 \<le> c \<Longrightarrow> b \<in> {0, -1} \<Longrightarrow>
    length dv' = length dv \<and> digits_ok NBASE dv' \<and> b' \<in> {0, -1} \<and> take j dv' = take j dv \<and>
    drop (j + k) dv' = drop (j + k) dv \<and> c' = (bval NBASE (take k dr) * q + c) div NBASE ^ k \<and>
    window j k dv' + (b' - c') * NBASE ^ k = window j k dv + b - bval NBASE (take k dr) * q - c"
proof (induction k arbitrary: c b dv)
  case (Suc i)
  define t where "t = c + dr ! i * q"
  define s where "s = b - t mod NBASE + dv ! (j + i)"
  define b1 where "b1 = (if s < 0 then -1 else 0 :: int)"
  define x where "x = s - b1 * NBASE"
  have ji: "j + i < length dv" and ri: "i < length dr" using Suc.prems by simp_all
  have d: "0 \<le> dr ! i" "0 \<le> dv ! (j + i)" "dv ! (j + i) < NBASE"
    using digits_ok_nth [OF dr ri] digits_ok_nth [OF Suc.prems(4) ji] by simp_all
  then have t: "0 \<le> t" "t sdiv NBASE = t div NBASE" "t smod NBASE = t mod NBASE"
    using Suc.prems(5) q by (simp_all add: t_def sdiv_nonneg smod_nonneg)
  have "0 \<le> t mod NBASE" "t mod NBASE < NBASE" by simp_all
  then have s: "- NBASE \<le> s" "s < NBASE" using d Suc.prems(6) by (auto simp: s_def)
  then have x: "0 \<le> x" "x < NBASE" by (simp_all add: x_def b1_def)
  have rec: "mulsub dr j q i (t div NBASE) b1 (dv[j + i := x]) = (dv', c', b')"
    using Suc.prems(1) t(2,3) by (auto simp: Let_def t_def s_def b1_def x_def split: if_splits)
  have ok: "digits_ok NBASE (dv[j + i := x])" using Suc.prems(4) x by (intro digits_ok_update)
  note up = window_update [OF ji]
  have pre: "0 \<le> t div NBASE" "b1 \<in> {0, -1}" using t(1) by (simp_all add: b1_def)
  have il: "i \<le> length dr" "j + i \<le> length (dv[j + i := x])" using Suc.prems(2,3) by simp_all
  from Suc.IH [OF rec il ok pre, unfolded up length_list_update]
  have IH: "length dv' = length dv" "digits_ok NBASE dv'" "b' \<in> {0, -1}" "take j dv' = take j dv"
    "drop (j + i) dv' = drop (j + i) (dv[j + i := x])"
    "c' = (bval NBASE (take i dr) * q + t div NBASE) div NBASE ^ i"
    "window j i dv' + (b' - c') * NBASE ^ i = window j i dv + b1 - bval NBASE (take i dr) * q - t div NBASE"
    by blast+
  note wa = window_after [OF ji IH(1,5)]
  have r: "bval NBASE (take (Suc i) dr) = bval NBASE (take i dr) * NBASE + dr ! i"
    using ri by (simp add: take_Suc_conv_app_nth)
  have "bval NBASE (take (Suc i) dr) * q + c = t + NBASE * (bval NBASE (take i dr) * q)"
    by (simp add: r t_def algebra_simps)
  then have "(bval NBASE (take (Suc i) dr) * q + c) div NBASE ^ Suc i
    = (t + NBASE * (bval NBASE (take i dr) * q)) div NBASE div NBASE ^ i" by (simp add: zdiv_zmult2_eq)
  also have "\<dots> = c'" unfolding IH(6) by (simp add: add.commute)
  finally have c': "c' = (bval NBASE (take (Suc i) dr) * q + c) div NBASE ^ Suc i" by simp
  have "window j (Suc i) dv' + (b' - c') * NBASE ^ Suc i = (window j i dv' + (b' - c') * NBASE ^ i) * NBASE + x"
    by (simp add: wa(1) algebra_simps)
  also have "\<dots> = (window j i dv - bval NBASE (take i dr) * q) * NBASE + (s - NBASE * (t div NBASE))"
    unfolding IH(7) by (simp add: x_def algebra_simps)
  also have "s - NBASE * (t div NBASE) = b + dv ! (j + i) - t"
    using div_mult_mod_eq [of t NBASE] unfolding s_def by linarith
  also have "(window j i dv - bval NBASE (take i dr) * q) * NBASE + (b + dv ! (j + i) - t)
      = window j (Suc i) dv + b - bval NBASE (take (Suc i) dr) * q - c"
    unfolding up(3) r by (simp add: t_def algebra_simps)
  finally show ?case using IH(1,2,3,4) wa(2) c' by blast
qed simp

lemma addback_value:
  assumes dr: "digits_ok NBASE dr"
  shows "addback dr j k c dv = (dv', c') \<Longrightarrow> k \<le> length dr \<Longrightarrow> j + k \<le> length dv \<Longrightarrow>
    digits_ok NBASE dv \<Longrightarrow> c \<in> {0, 1} \<Longrightarrow>
    length dv' = length dv \<and> digits_ok NBASE dv' \<and> c' \<in> {0, 1} \<and> take j dv' = take j dv \<and>
    drop (j + k) dv' = drop (j + k) dv \<and>
    window j k dv' + c' * NBASE ^ k = window j k dv + bval NBASE (take k dr) + c"
proof (induction k arbitrary: c dv)
  case (Suc i)
  define s where "s = c + dv ! (j + i) + dr ! i"
  define c1 where "c1 = (if s \<ge> NBASE then 1 else 0 :: int)"
  define x where "x = s - c1 * NBASE"
  have ji: "j + i < length dv" and ri: "i < length dr" using Suc.prems by simp_all
  have d: "0 \<le> dr ! i" "dr ! i < NBASE" "0 \<le> dv ! (j + i)" "dv ! (j + i) < NBASE"
    using digits_ok_nth [OF dr ri] digits_ok_nth [OF Suc.prems(4) ji] by simp_all
  then have x: "0 \<le> x" "x < NBASE" using Suc.prems(5) by (auto simp: x_def c1_def s_def)
  have rec: "addback dr j i c1 (dv[j + i := x]) = (dv', c')"
    using Suc.prems(1) by (auto simp: Let_def s_def c1_def x_def split: if_splits)
  have ok: "digits_ok NBASE (dv[j + i := x])" using Suc.prems(4) x by (intro digits_ok_update)
  note up = window_update [OF ji]
  have pre: "c1 \<in> {0, 1}" by (simp add: c1_def)
  have il: "i \<le> length dr" "j + i \<le> length (dv[j + i := x])" using Suc.prems(2,3) by simp_all
  from Suc.IH [OF rec il ok pre, unfolded up length_list_update]
  have IH: "length dv' = length dv" "digits_ok NBASE dv'" "c' \<in> {0, 1}" "take j dv' = take j dv"
    "drop (j + i) dv' = drop (j + i) (dv[j + i := x])"
    "window j i dv' + c' * NBASE ^ i = window j i dv + bval NBASE (take i dr) + c1"
    by blast+
  note wa = window_after [OF ji IH(1,5)]
  have "window j (Suc i) dv' + c' * NBASE ^ Suc i = (window j i dv' + c' * NBASE ^ i) * NBASE + x"
    by (simp add: wa(1) algebra_simps)
  also have "\<dots> = window j (Suc i) dv + bval NBASE (take (Suc i) dr) + c"
    unfolding IH(6) up(3) using ri by (simp add: take_Suc_conv_app_nth x_def s_def algebra_simps)
  finally show ?case using IH(1,2,3,4) wa(2) by blast
qed simp

section \<open>One round and the main loop\<close>

text \<open>
  A round at \<open>j\<close> on a window \<open>D\<close> below \<open>V * NBASE\<close> delivers the quotient digit \<open>D div V\<close> and
  leaves the remainder \<open>D mod V\<close> in the window; \<open>n\<close> is the number of divisor digits.
\<close>

definition divisor_ok :: "int list \<Rightarrow> nat \<Rightarrow> bool" where
  "divisor_ok dr n \<longleftrightarrow> length dr = Suc n \<and> 2 \<le> n \<and> digits_ok NBASE dr \<and> dr ! 0 = 0 \<and> dr ! 1 \<noteq> 0"

lemma divisor_lead:
  assumes "divisor_ok dr n"
  shows "bval NBASE dr = (dr ! 1 * NBASE + dr ! 2) * NBASE ^ (n - 2) + bval NBASE (drop 3 dr)"
    and "0 \<le> bval NBASE (drop 3 dr)" "bval NBASE (drop 3 dr) < NBASE ^ (n - 2)"
    and "0 < dr ! 1" "dr ! 1 < NBASE" "0 \<le> dr ! 2" "dr ! 2 < NBASE"
proof -
  have "Suc (Suc (Suc 0)) \<le> length dr" using assms by (simp add: divisor_ok_def)
  then obtain a b c ds where dr: "dr = a # b # c # ds" by (auto simp: Suc_le_length_iff)
  have a: "a = 0" "n = Suc (Suc (length ds))" "digits_ok NBASE ds" "b \<noteq> 0" "0 \<le> b" "b < NBASE" "0 \<le> c" "c < NBASE"
    using assms by (simp_all add: divisor_ok_def dr)
  have d3: "drop 3 dr = ds" by (simp add: dr numeral_3_eq_3)
  show "bval NBASE dr = (dr ! 1 * NBASE + dr ! 2) * NBASE ^ (n - 2) + bval NBASE (drop 3 dr)"
    unfolding d3 by (simp add: dr a algebra_simps)
  show "0 \<le> bval NBASE (drop 3 dr)" "bval NBASE (drop 3 dr) < NBASE ^ (n - 2)"
    unfolding d3 using a bval_nonneg [OF a(3)] bval_less [OF a(3)] by simp_all
  show "0 < dr ! 1" "dr ! 1 < NBASE" "0 \<le> dr ! 2" "dr ! 2 < NBASE" using a by (simp_all add: dr)
qed

lemma window_lead:
  assumes "digits_ok NBASE dv" "j + n < length dv" "2 \<le> n"
  shows "window j (Suc n) dv = ((dv ! j * NBASE + dv ! (j + 1)) * NBASE + dv ! (j + 2)) * NBASE ^ (n - 2)
      + window (j + 3) (n - 2) dv"
    and "0 \<le> window (j + 3) (n - 2) dv" "window (j + 3) (n - 2) dv < NBASE ^ (n - 2)"
proof -
  have "take (Suc n) (drop j dv) = dv ! j # dv ! (j + 1) # dv ! (j + 2) # take (n - 2) (drop (j + 3) dv)"
  proof -
    have "drop j dv = dv ! j # dv ! Suc j # dv ! Suc (Suc j) # drop (Suc (Suc (Suc j))) dv"
      using assms by (simp add: Cons_nth_drop_Suc)
    moreover obtain m where "n = Suc (Suc m)" using assms(3) by (metis Suc_le_D numeral_2_eq_2 Suc_le_mono)
    ultimately show ?thesis by (simp add: numeral_3_eq_3)
  qed
  moreover have len: "length (take (n - 2) (drop (j + 3) dv)) = n - 2" using assms by simp
  ultimately show "window j (Suc n) dv = ((dv ! j * NBASE + dv ! (j + 1)) * NBASE + dv ! (j + 2)) * NBASE ^ (n - 2)
      + window (j + 3) (n - 2) dv"
    by (simp add: algebra_simps)
  show "0 \<le> window (j + 3) (n - 2) dv" "window (j + 3) (n - 2) dv < NBASE ^ (n - 2)"
    using assms(1) len bval_nonneg [of NBASE "take (n - 2) (drop (j + 3) dv)"]
      bval_less [of NBASE "take (n - 2) (drop (j + 3) dv)"] by (simp_all add: digits_ok_take digits_ok_drop)
qed

text \<open>What a round has to establish of the new dividend.\<close>

definition round_ok :: "nat \<Rightarrow> nat \<Rightarrow> int list \<Rightarrow> int list \<Rightarrow> int \<Rightarrow> bool" where
  "round_ok j k dv dv' r \<longleftrightarrow> length dv' = length dv \<and> digits_ok NBASE dv' \<and> take j dv' = take j dv \<and>
     drop (j + k) dv' = drop (j + k) dv \<and> window j k dv' = r"

lemma subtract_round:
  assumes dr: "divisor_ok dr n" and dv: "digits_ok NBASE dv" "j + n < length dv"
    and V: "V = bval NBASE dr" and D: "D = window j (Suc n) dv" "D < V * NBASE"
    and q: "D div V \<le> q" "q \<le> D div V + 1" "0 < q" "q < NBASE"
    and ms: "mulsub dr j q (Suc n) 0 0 dv = (dv1, c, b)"
  shows "b = 0 \<Longrightarrow> q = D div V \<and> round_ok j (Suc n) dv dv1 (D mod V)"
    and "b \<noteq> 0 \<Longrightarrow> q - 1 = D div V \<and> round_ok j (Suc n) dv (fst (addback dr j (Suc n) 0 dv1)) (D mod V)"
proof -
  have dk: "digits_ok NBASE dr" "length dr = Suc n" "dr ! 0 = 0" using dr by (simp_all add: divisor_ok_def)
  then obtain ds where ds: "dr = 0 # ds" "length ds = n" "digits_ok NBASE ds" by (cases dr) auto
  have V0: "0 < V" using divisor_lead(1,2,4,6) [OF dr] V by (simp add: add_pos_nonneg)
  have Vn: "V < NBASE ^ n" using bval_less [OF ds(3)] ds V by simp
  define B where "B = (NBASE ^ Suc n :: int)"
  have qV: "q * V < B"
  proof -
    have "q * V < NBASE * NBASE ^ n" using q Vn V0 by (intro mult_strict_mono) simp_all
    then show ?thesis by (simp add: B_def)
  qed
  have k: "Suc n \<le> length dr" "j + Suc n \<le> length dv" using dk dv by simp_all
  have "0 \<le> q" using q by simp
  have z: "(0::int) \<in> {0, -1}" by simp
  have tk: "take (Suc n) dr = dr" using dk(2) by simp
  from mulsub_value [OF dk(1) \<open>0 \<le> q\<close> ms k dv(1) order_refl z, folded D(1) B_def, unfolded tk add_0_right diff_0_right, folded V]
  have m: "length dv1 = length dv" "digits_ok NBASE dv1" "b \<in> {0, -1}" "take j dv1 = take j dv"
    "drop (j + Suc n) dv1 = drop (j + Suc n) dv" "c = V * q div B" "window j (Suc n) dv1 + (b - c) * B = D - V * q"
    by blast+
  have "c = 0" unfolding m(6) using qV V0 q by (simp add: mult.commute div_pos_pos_trivial)
  with m(7) have w: "window j (Suc n) dv1 + b * B = D - V * q" by simp
  have wd: "0 \<le> window j (Suc n) dv1" "window j (Suc n) dv1 < B"
    using m(1,2) k bval_nonneg [of NBASE "take (Suc n) (drop j dv1)"] bval_less [of NBASE "take (Suc n) (drop j dv1)"]
    by (simp_all add: B_def digits_ok_take digits_ok_drop)
  have Dm: "D = V * (D div V) + D mod V" "0 \<le> D mod V" "D mod V < V" using V0 by simp_all
  show "q = D div V \<and> round_ok j (Suc n) dv dv1 (D mod V)" if "b = 0"
  proof -
    have "V * q \<le> D" using w wd that by simp
    then have "q \<le> D div V" using V0 by (simp add: le_div_iff mult.commute)
    then have "q = D div V" using q by simp
    moreover from this have "window j (Suc n) dv1 = D mod V" using w that by (simp add: minus_mult_div_eq_mod)
    ultimately show ?thesis using m by (simp add: round_ok_def)
  qed
  show "q - 1 = D div V \<and> round_ok j (Suc n) dv (fst (addback dr j (Suc n) 0 dv1)) (D mod V)" if "b \<noteq> 0"
  proof -
    have b: "b = -1" using m(3) that by simp
    then have "D < V * q" using w wd by simp
    then have "D div V < q" using V0 by (simp add: div_less_iff mult.commute)
    then have qe: "q = D div V + 1" using q by simp
    obtain dv2 c2 where ab: "addback dr j (Suc n) 0 dv1 = (dv2, c2)" by fastforce
    have k1: "j + Suc n \<le> length dv1" using k m by simp
    from addback_value [OF dk(1) ab k(1) k1 m(2), folded B_def] dk(2)
    have a: "length dv2 = length dv1" "digits_ok NBASE dv2" "c2 \<in> {0, 1}" "take j dv2 = take j dv1"
      "drop (j + Suc n) dv2 = drop (j + Suc n) dv1" "window j (Suc n) dv2 + c2 * B = window j (Suc n) dv1 + V"
      by (simp_all add: V)
    have w2: "0 \<le> window j (Suc n) dv2" "window j (Suc n) dv2 < B"
      using a(1,2) k1 bval_nonneg [of NBASE "take (Suc n) (drop j dv2)"] bval_less [of NBASE "take (Suc n) (drop j dv2)"]
      by (simp_all add: B_def digits_ok_take digits_ok_drop)
    have "V * q = V * (D div V) + V" by (simp add: qe distrib_left)
    then have "window j (Suc n) dv1 + V = B + D mod V" using w [unfolded b] Dm(1) by linarith
    then have "c2 = 1" "window j (Suc n) dv2 = D mod V" using a(3,6) w2 Dm(2) by auto
    then show ?thesis using a m ab qe by (simp add: round_ok_def)
  qed
qed

lemma div_step_zero:
  "round_ok j k dv dv D" if "D = window j k dv" "digits_ok NBASE dv"
  using that by (simp add: round_ok_def)

lemma div_step_ok:
  assumes dr: "divisor_ok dr n" and dv: "digits_ok NBASE dv" "j + n < length dv"
    and V: "V = bval NBASE dr" and D: "D = window j (Suc n) dv" "D < V * NBASE"
    and st: "div_step dr j dv = (q, dv')"
  shows "q = D div V \<and> round_ok j (Suc n) dv dv' (D mod V)"
proof -
  define e where "e = (NBASE ^ (n - 2) :: int)"
  define n2 where "n2 = dv ! j * NBASE + dv ! (j + 1)"
  have n: "2 \<le> n" "length dr = Suc n" using dr by (simp_all add: divisor_ok_def)
  note dl = divisor_lead [OF dr, folded V e_def] and wl = window_lead [OF dv n(1), folded D(1) n2_def e_def]
  have u: "0 \<le> dv ! j" "0 \<le> dv ! (j + 1)" "dv ! (j + 1) < NBASE" "0 \<le> dv ! (j + 2)" "dv ! (j + 2) < NBASE"
    using dv n(1) digits_ok_nth [OF dv(1), of j] digits_ok_nth [OF dv(1), of "j + 1"] digits_ok_nth [OF dv(1), of "j + 2"]
    by simp_all
  have e: "0 < e" by (simp add: e_def)
  have l: "lead3 D V e n2 (dv ! (j + 2)) (dr ! 1) (dr ! 2)"
    unfolding lead3_def using dl wl u e by (simp add: n2_def distrib_right)
  note V0 = lead3_V_pos [OF l]
  have D0: "0 \<le> D" unfolding D(1) using dv by (simp add: bval_nonneg digits_ok_take digits_ok_drop)
  have small: "D div V = 0 \<Longrightarrow> D mod V = D" using V0 div_mult_mod_eq [of D V] by simp
  show ?thesis
  proof (cases "n2 = 0")
    case True
    have "D < (dv ! (j + 2) + 1) * e" using wl True by (simp add: distrib_right)
    also have "\<dots> \<le> (dr ! 1 * NBASE + dr ! 2) * e" using dl u e by (intro mult_right_mono) simp_all
    also have "\<dots> \<le> V" using dl by simp
    finally have "D div V = 0" using D0 by simp
    moreover have "q = 0" "dv' = dv" using st True by (simp_all add: div_step_def n2_def Let_def)
    ultimately show ?thesis using small div_step_zero [OF D(1) dv(1)] by simp
  next
    case False
    define q0 where "q0 = (if dv ! j = dr ! 1 then NBASE - 1 else n2 sdiv dr ! 1)"
    define qh where "qh = int (qhat_loop (dr ! 1) (dr ! 2) n2 (dv ! (j + 2)) (nat q0))"
    note qs = qhat_start [OF l [unfolded n2_def] u(1,2,3) D(2), folded n2_def, folded q0_def]
    have q: "D div V \<le> qh" "qh \<le> D div V + 1" "qh < NBASE"
      using qhat_loop_props [OF l, of "nat q0"] qs by (simp_all add: qh_def)
    obtain dv1 c b where ms: "mulsub dr j qh (Suc n) 0 0 dv = (dv1, c, b)" by (metis prod_cases3)
    note sd = div_step_def [of dr j dv, unfolded Let_def, folded n2_def, folded q0_def, folded qh_def]
    have st': "(if qh > 0 then if b \<noteq> 0 then (qh - 1, fst (addback dr j (Suc n) 0 dv1)) else (qh, dv1) else (qh, dv)) = (q, dv')"
      using st [unfolded sd n(2) ms prod.case] False by (simp only: if_False)
    show ?thesis
    proof (cases "qh > 0")
      case True
      note sr = subtract_round [OF dr dv V D q(1,2) True q(3) ms]
      show ?thesis using st' True sr by (cases "b = 0") simp_all
    next
      case False
      then have "qh = 0" by (simp add: qh_def)
      moreover have "0 \<le> D div V" using D0 V0 by (simp add: pos_imp_zdiv_nonneg_iff)
      ultimately have "D div V = 0" using q(1) by simp
      then show ?thesis using st' small div_step_zero [OF D(1) dv(1)] \<open>qh = 0\<close> by simp
    qed
  qed
qed

lemma bval_take_add: "bval NBASE (take (a + k) xs) = bval NBASE (take a xs) * NBASE ^ length (take k (drop a xs)) + window a k xs"
  by (simp only: take_add bval_append)

lemma div_loop_value:
  assumes dr: "divisor_ok dr n" and V: "V = bval NBASE dr"
  shows "n + j + m \<le> length dv \<Longrightarrow> digits_ok NBASE dv \<Longrightarrow> bval NBASE (take (n + j) dv) < V \<Longrightarrow>
    length (div_loop dr m j dv) = m \<and> digits_ok NBASE (div_loop dr m j dv) \<and>
    bval NBASE (div_loop dr m j dv) = bval NBASE (take (n + j + m) dv) div V"
proof (induction m arbitrary: j dv)
  case 0
  have "0 \<le> bval NBASE (take (n + j) dv)" using 0 by (simp add: bval_nonneg digits_ok_take)
  with 0 show ?case by simp
next
  case (Suc m)
  define D where "D = window j (Suc n) dv"
  define T where "T = window (n + j + 1) m dv"
  obtain q dv' where st: "div_step dr j dv = (q, dv')" by fastforce
  have jn: "j + n < length dv" using Suc.prems(1) by simp
  have ok: "digits_ok NBASE (take k (drop i dv))" for i k using Suc.prems(2) by (simp add: digits_ok_take digits_ok_drop)
  have tj: "0 \<le> bval NBASE (take j dv)" using Suc.prems(2) by (simp add: bval_nonneg digits_ok_take)
  have V0: "0 < V" using Suc.prems(3) bval_nonneg [of NBASE "take (n + j) dv"] Suc.prems(2) by (simp add: digits_ok_take)
  have Vn: "V < NBASE ^ n"
  proof -
    obtain ds where "dr = 0 # ds" "length ds = n" "digits_ok NBASE ds" using dr by (cases dr) (auto simp: divisor_ok_def)
    then show ?thesis using bval_less [of NBASE ds] V by simp
  qed
  define X where "X = bval NBASE (take (n + j) dv)"
  have x: "0 \<le> dv ! (n + j)" "dv ! (n + j) < NBASE" using digits_ok_nth [OF Suc.prems(2), of "n + j"] jn by simp_all
  have "bval NBASE (take (j + Suc n) dv) = X * NBASE + dv ! (n + j)"
    using jn by (simp add: X_def take_Suc_conv_app_nth add.commute)
  moreover have "X * NBASE + dv ! (n + j) < V * NBASE" using Suc.prems(3) x by (simp add: X_def)
  moreover have split: "bval NBASE (take (j + Suc n) dv) = bval NBASE (take j dv) * NBASE ^ Suc n + D"
    using jn bval_take_add [of j "Suc n" dv] by (simp add: D_def)
  ultimately have lt: "bval NBASE (take j dv) * NBASE ^ Suc n + D < V * NBASE" by simp
  have D0: "0 \<le> D" unfolding D_def using ok by (rule bval_nonneg)
  have z: "bval NBASE (take j dv) = 0"
  proof (rule ccontr)
    assume "bval NBASE (take j dv) \<noteq> 0"
    then have "1 * NBASE ^ Suc n \<le> bval NBASE (take j dv) * NBASE ^ Suc n" using tj by (intro mult_right_mono) simp_all
    moreover have "V * NBASE < NBASE ^ Suc n" using Vn by simp
    ultimately show False using lt D0 by linarith
  qed
  then have DV: "D < V * NBASE" using lt by simp
  note so = div_step_ok [OF dr Suc.prems(2) jn V D_def DV st]
  then have r: "length dv' = length dv" "digits_ok NBASE dv'" "take j dv' = take j dv"
    "drop (j + Suc n) dv' = drop (j + Suc n) dv" "window j (Suc n) dv' = D mod V" and q: "q = D div V"
    by (simp_all add: round_ok_def)
  have D': "bval NBASE (take (n + Suc j) dv') = D mod V"
    using bval_take_add [of j "Suc n" dv'] r z by (simp add: add.commute)
  have T': "window (n + j + 1) m dv' = T" using r(4) by (simp add: T_def add.commute)
  have len: "length (take m (drop (n + j + 1) dv)) = m" using Suc.prems(1) by simp
  have full: "bval NBASE (take (n + j + Suc m) dv) = D * NBASE ^ m + T"
    using bval_take_add [of "n + j + 1" m dv] split z len by (simp add: T_def add.commute add.left_commute)
  have full': "bval NBASE (take (n + Suc j + m) dv') = (D mod V) * NBASE ^ m + T"
    using bval_take_add [of "n + j + 1" m dv'] D' T' len r(1) by (simp add: add.commute add.left_commute)
  have "bval NBASE (take (n + Suc j) dv') < V" unfolding D' using V0 by simp
  then have IH: "length (div_loop dr m (Suc j) dv') = m" "digits_ok NBASE (div_loop dr m (Suc j) dv')"
    "bval NBASE (div_loop dr m (Suc j) dv') = ((D mod V) * NBASE ^ m + T) div V"
    using Suc.IH [of "Suc j" dv'] Suc.prems(1) r(1,2) full' by simp_all
  have "q * NBASE ^ m + ((D mod V) * NBASE ^ m + T) div V = ((D mod V) * NBASE ^ m + T + V * (q * NBASE ^ m)) div V"
    using V0 by simp
  also have "(D mod V) * NBASE ^ m + T + V * (q * NBASE ^ m) = (V * (D div V) + D mod V) * NBASE ^ m + T"
    unfolding q by (simp only: distrib_right ac_simps)
  also have "\<dots> = D * NBASE ^ m + T" by simp
  finally have "q * NBASE ^ m + bval NBASE (div_loop dr m (Suc j) dv') = bval NBASE (take (n + j + Suc m) dv) div V"
    unfolding IH(3) full .
  moreover have "0 \<le> q" "q < NBASE" unfolding q using D0 V0 DV by (simp_all add: pos_imp_zdiv_nonneg_iff div_less_iff mult.commute)
  ultimately show ?case using IH(1,2) st by simp
qed

section \<open>The quotient digits\<close>

lemma div_fast_path_value:
  assumes d: "0 < d"
  shows "m \<le> length xs \<Longrightarrow> digits_ok NBASE xs \<Longrightarrow> 0 \<le> c \<Longrightarrow> c < d \<Longrightarrow>
    length (div_fast_path d m c xs) = m \<and> digits_ok NBASE (div_fast_path d m c xs) \<and>
    bval NBASE (div_fast_path d m c xs) = (c * NBASE ^ m + bval NBASE (take m xs)) div d"
proof (induction m arbitrary: c xs)
  case 0
  then show ?case using d by simp
next
  case (Suc m)
  then obtain x ys where xs: "xs = x # ys" by (cases xs) auto
  define t where "t = c * NBASE + x"
  have x: "0 \<le> x" "x < NBASE" using Suc.prems by (simp_all add: xs)
  then have t: "0 \<le> t" "t sdiv d = t div d" "t smod d = t mod d"
    using Suc.prems d by (simp_all add: t_def sdiv_nonneg smod_nonneg)
  have IH: "length (div_fast_path d m (t mod d) ys) = m" "digits_ok NBASE (div_fast_path d m (t mod d) ys)"
    "bval NBASE (div_fast_path d m (t mod d) ys) = (t mod d * NBASE ^ m + bval NBASE (take m ys)) div d"
    using Suc.IH [of ys "t mod d"] Suc.prems d by (simp_all add: xs)
  have "t < d * NBASE"
  proof -
    have "(c + 1) * NBASE \<le> d * NBASE" using Suc.prems by (intro mult_right_mono) simp_all
    then show ?thesis using x by (simp add: t_def)
  qed
  then have q: "0 \<le> t div d" "t div d < NBASE" using t d by (simp_all add: pos_imp_zdiv_nonneg_iff div_less_iff mult.commute)
  have "t div d * NBASE ^ m + (t mod d * NBASE ^ m + bval NBASE (take m ys)) div d
    = (t mod d * NBASE ^ m + bval NBASE (take m ys) + d * (t div d * NBASE ^ m)) div d" using d by simp
  also have "t mod d * NBASE ^ m + bval NBASE (take m ys) + d * (t div d * NBASE ^ m)
    = (d * (t div d) + t mod d) * NBASE ^ m + bval NBASE (take m ys)" by (simp only: distrib_right ac_simps)
  also have "\<dots> = c * NBASE ^ Suc m + bval NBASE (take (Suc m) xs)"
    using Suc.prems(1) by (simp add: t_def xs distrib_right)
  finally show ?case using IH q t(2,3) by (simp add: xs t_def Let_def)
qed

lemma scale_factor:
  fixes b :: int
  assumes "1 \<le> b" "b < HALF_NBASE"
  defines "d \<equiv> NBASE sdiv (b + 1)"
  shows "1 \<le> d" "d * (b + 1) \<le> NBASE" "d < NBASE"
proof -
  have d: "d = NBASE div (b + 1)" using assms(1) by (simp add: d_def sdiv_nonneg)
  show d1: "1 \<le> d" unfolding d using assms by (simp add: le_div_iff)
  show db: "d * (b + 1) \<le> NBASE" unfolding d using assms by (simp add: le_div_iff [symmetric])
  have "d * 2 \<le> d * (b + 1)" using assms d1 by (intro mult_left_mono) simp_all
  then show "d < NBASE" using db by linarith
qed

lemma scaled_divisor:
  assumes ds2: "digits_ok NBASE ds2" "2 \<le> length ds2" "1 \<le> hd ds2" "hd ds2 < HALF_NBASE"
  defines "d \<equiv> NBASE sdiv (hd ds2 + 1)"
  defines "dr \<equiv> 0 # fst (scale_loop d (length ds2) 0 ds2)"
  shows "divisor_ok dr (length ds2)" "bval NBASE dr = bval NBASE ds2 * d"
proof -
  define n where "n = length ds2"
  note d = scale_factor [OF ds2(3,4), folded d_def]
  obtain b es where es: "ds2 = b # es" using ds2(2) by (cases ds2) auto
  have len: "length es = n - 1" "1 \<le> n" using ds2(2) by (simp_all add: n_def es)
  have "bval NBASE es < NBASE ^ (n - 1)" using bval_less [of NBASE es] ds2(1) len by (simp add: es)
  then have "bval NBASE ds2 < (b + 1) * NBASE ^ (n - 1)" by (simp add: es len distrib_right)
  then have "bval NBASE ds2 * d < (b + 1) * NBASE ^ (n - 1) * d" using d(1) by simp
  also have "\<dots> = d * (b + 1) * NBASE ^ (n - 1)" by simp
  also have "\<dots> \<le> NBASE * NBASE ^ (n - 1)" using d(2) by (intro mult_right_mono) (simp_all add: es)
  also have "\<dots> = NBASE ^ n" using len by (cases n) simp_all
  finally have "bval NBASE ds2 * d < NBASE ^ length ds2" by (simp add: n_def)
  from scale_all [OF ds2(1) _ order_refl _ this] d(1)
  have sr: "length dr = Suc n" "digits_ok NBASE dr" "bval NBASE dr = bval NBASE ds2 * d"
    by (simp_all add: dr_def n_def)
  show "bval NBASE dr = bval NBASE ds2 * d" by (rule sr)
  have "dr ! 1 \<noteq> 0"
  proof
    assume z: "dr ! 1 = 0"
    obtain x xs where x: "dr = 0 # x # xs"
      using sr(1) len(2) by (cases "tl dr") (auto simp: dr_def)
    have "length xs = n - 1" "bval NBASE dr = bval NBASE xs" "digits_ok NBASE xs" using z sr(1,2) x by simp_all
    then have "bval NBASE dr < NBASE ^ (n - 1)" using bval_less [of NBASE xs] by simp
    moreover have "NBASE ^ (n - 1) \<le> bval NBASE ds2" using bval_lower [OF ds2(1)] ds2(3) by (simp add: es n_def)
    moreover have "bval NBASE ds2 * 1 \<le> bval NBASE ds2 * d"
      using d(1) bval_nonneg [OF ds2(1)] by (intro mult_left_mono) simp_all
    ultimately show False using sr(3) by linarith
  qed
  then show "divisor_ok dr (length ds2)" using sr ds2(2) by (simp add: divisor_ok_def n_def dr_def)
qed

lemma div_scale_value:
  assumes ds2: "digits_ok NBASE ds2" "2 \<le> length ds2" "hd ds2 \<noteq> 0" and ds1: "digits_ok NBASE ds1"
    and dv: "dv = 0 # ds1 @ replicate k 0"
  obtains d dr' dv' where "div_scale (length ds1) (0 # ds2) dv = (dr', dv')" "0 < d"
    "divisor_ok dr' (length ds2)" "bval NBASE dr' = bval NBASE ds2 * d"
    "length dv' = length dv" "digits_ok NBASE dv'" "bval NBASE dv' = bval NBASE dv * d"
proof (cases "hd ds2 < HALF_NBASE")
  case False
  have h: "ds2 ! 0 = hd ds2" using ds2(2) by (cases ds2) simp_all
  have "div_scale (length ds1) (0 # ds2) dv = (0 # ds2, dv)" using False by (simp add: div_scale_def h)
  moreover have "divisor_ok (0 # ds2) (length ds2)"
    using ds2 by (cases ds2) (simp_all add: divisor_ok_def)
  ultimately show ?thesis using that [of _ _ 1] ds1 by (simp add: dv)
next
  case True
  have h: "ds2 ! 0 = hd ds2" "1 \<le> hd ds2" using ds2 by (cases ds2; simp)+
  define d where "d = NBASE sdiv (hd ds2 + 1)"
  define dr' where "dr' = 0 # fst (scale_loop d (length ds2) 0 ds2)"
  define dv' where "dv' = fst (scale_loop d (length ds1 + 1) 0 dv)"
  note d = scale_factor [OF h(2) True, folded d_def]
    and sd = scaled_divisor [OF ds2(1,2) h(2) True, folded d_def, folded dr'_def]
  have dvok: "digits_ok NBASE dv" using ds1 by (simp add: dv)
  have "bval NBASE dv < NBASE ^ (length dv - 1)" using bval_less [of NBASE "ds1 @ replicate k 0"] ds1 by (simp add: dv)
  then have "bval NBASE dv * d < NBASE ^ (length dv - 1) * NBASE"
    using d bval_nonneg [OF dvok] by (intro mult_strict_mono) simp_all
  then have "bval NBASE dv * d < NBASE ^ length dv" by (simp add: dv)
  from scale_all [OF dvok _ _ _ this, of "length ds1 + 1"] d
  have sv: "length dv' = length dv" "digits_ok NBASE dv'" "bval NBASE dv' = bval NBASE dv * d"
    by (simp_all add: dv'_def dv)
  have "div_scale (length ds1) (0 # ds2) dv = (dr', dv')"
    using True by (simp add: div_scale_def Let_def h d_def dr'_def dv'_def)
  then show ?thesis using that [of dr' dv' d] d sd sv by simp
qed

text \<open>
  The quotient of the two digit strings, aligned so that \<open>m\<close> digits come out; \<open>div_rest\<close>
  is the number of dividend digits that are left over.
\<close>

definition div_total :: "int list \<Rightarrow> int list \<Rightarrow> nat \<Rightarrow> nat" where
  "div_total ds1 ds2 m = max (m + length ds2) (length ds1)"

lemma div_digits_value:
  fixes m :: nat
  assumes ds1: "digits_ok NBASE ds1" and ds2: "digits_ok NBASE ds2" "ds2 \<noteq> []" "hd ds2 \<noteq> 0"
  defines "N \<equiv> div_total ds1 ds2 m"
  shows "length (div_digits ds1 ds2 m) = m" "digits_ok NBASE (div_digits ds1 ds2 m)"
    and "bval NBASE (div_digits ds1 ds2 m) = bval NBASE ds1 * NBASE ^ (N - length ds1)
      div (bval NBASE ds2 * NBASE ^ (N + 1 - (length ds2 + m)))"
proof -
  define n where "n = length ds2"
  define V where "V = bval NBASE ds2"
  define F where "F = bval NBASE ds1 * NBASE ^ (N - length ds1)"
  define R where "R = N + 1 - (n + m)"
  define ys where "ys = ds1 @ replicate (N - length ds1) 0"
  define dv where "dv = 0 # ys"
  have N: "length ds1 \<le> N" "m + n \<le> N" by (simp_all add: N_def div_total_def n_def)
  have ysF: "bval NBASE ys = F" "length ys = N" "digits_ok NBASE ys" "0 \<le> F"
    using N ds1 by (simp_all add: ys_def F_def bval_append bval_nonneg)
  have dvF: "bval NBASE dv = F" "length dv = N + 1" "digits_ok NBASE dv" using ysF by (simp_all add: dv_def)
  obtain b es where es: "ds2 = b # es" using ds2 by (cases ds2) auto
  have b: "0 < b" "b < NBASE" using ds2 by (auto simp: es)
  have V1: "NBASE ^ (n - 1) \<le> V" using bval_lower [OF ds2] by (simp add: V_def n_def)
  then have V0: "0 < V" by (rule less_le_trans [rotated]) simp
  have dd: "div_digits ds1 ds2 m = (if n = 1 then div_fast_path b m 0 ys
      else let (divisor, dividend) = div_scale (length ds1) (0 # ds2) dv in div_loop divisor m 0 dividend)"
    by (simp add: div_digits_def Let_def n_def dv_def ys_def N_def div_total_def es)
  have "length (div_digits ds1 ds2 m) = m \<and> digits_ok NBASE (div_digits ds1 ds2 m) \<and>
    bval NBASE (div_digits ds1 ds2 m) = F div (V * NBASE ^ R)"
  proof (cases "n = 1")
    case True
    then have Vb: "V = b" "R = N - m" "m \<le> N" using N by (simp_all add: V_def es n_def R_def)
    have "bval NBASE (take m ys) div b = F div (V * NBASE ^ R)"
      using bval_take_div [OF ysF(3), of m] ysF(1,2) Vb b zdiv_zmult2_eq [of V F "NBASE ^ R"] by (simp add: mult.commute)
    then show ?thesis using div_fast_path_value [OF b(1) _ ysF(3) order_refl b(1), of m] True Vb ysF(2) by (simp add: dd)
  next
    case False
    then have n2: "2 \<le> length ds2" using ds2(2) by (cases ds2; cases "tl ds2") (auto simp: n_def)
    obtain d dr' dv' where sc: "div_scale (length ds1) (0 # ds2) dv = (dr', dv')" "0 < d"
      "divisor_ok dr' (length ds2)" "bval NBASE dr' = V * d"
      "length dv' = length dv" "digits_ok NBASE dv'" "bval NBASE dv' = F * d"
      using div_scale_value [OF ds2(1) n2 ds2(3) ds1, of dv] dvF(1) by (metis V_def dv_def ys_def)
    have tk: "bval NBASE (take a dv') = F * d div NBASE ^ (N + 1 - a)" for a
      using bval_take_div [OF sc(6), of a] sc(5,7) dvF(2) by simp
    have "F < NBASE ^ N" using bval_less [OF ysF(3)] ysF by simp
    then have "F * d < NBASE ^ N * d" using sc(2) by simp
    also have "NBASE ^ N = NBASE ^ (n - 1) * NBASE ^ (N + 1 - n)"
      using N ds2 by (simp add: power_add [symmetric] n_def es)
    also have "NBASE ^ (n - 1) * NBASE ^ (N + 1 - n) * d \<le> V * NBASE ^ (N + 1 - n) * d"
      using V1 sc(2) by (intro mult_right_mono) simp_all
    finally have "F * d < V * d * NBASE ^ (N + 1 - n)" by (simp add: mult.commute mult.left_commute)
    then have "bval NBASE (take n dv') < V * d" unfolding tk by (simp add: div_less_iff)
    then have dl: "length (div_loop dr' m 0 dv') = m" "digits_ok NBASE (div_loop dr' m 0 dv')"
      "bval NBASE (div_loop dr' m 0 dv') = bval NBASE (take (n + m) dv') div (V * d)"
      using div_loop_value [OF sc(3) sc(4) [symmetric], of 0 m dv'] N sc(5,6) dvF(2) by (simp_all add: n_def)
    have "bval NBASE (take (n + m) dv') div (V * d) = F * d div (NBASE ^ R * (V * d))"
      unfolding tk R_def using V0 sc(2) by (simp add: zdiv_zmult2_eq)
    also have "\<dots> = (d * F) div (d * (V * NBASE ^ R))" by (simp add: ac_simps)
    also have "\<dots> = F div (V * NBASE ^ R)" using sc(2) by (intro div_mult_mult1) simp
    finally show ?thesis using dl sc(1) False by (simp add: dd)
  qed
  then show "length (div_digits ds1 ds2 m) = m" "digits_ok NBASE (div_digits ds1 ds2 m)"
    and "bval NBASE (div_digits ds1 ds2 m) = bval NBASE ds1 * NBASE ^ (N - length ds1)
      div (bval NBASE ds2 * NBASE ^ (N + 1 - (length ds2 + m)))"
    by (simp_all add: F_def V_def R_def n_def)
qed

section \<open>div\_var returns the quotient\<close>

text \<open>The quotient of the values before it is rounded or truncated.\<close>

lemma quotient_floor:
  assumes a: "digits_ok NBASE (digits a)" and b: "digits_ok NBASE (digits b)" "digits b \<noteq> []" "hd (digits b) \<noteq> 0"
    and v: "digits v = div_digits (digits a) (digits b) m" "weight v = weight a - weight b"
  defines "k \<equiv> int m - 1 - weight v"
  shows "digits_ok NBASE (digits v)"
    and "absval v = of_int \<lfloor>absval a / absval b * 10 powi (4 * k)\<rfloor> * 10 powi (- 4 * k)"
proof -
  define N where "N = div_total (digits a) (digits b) m"
  define R where "R = N + 1 - (length (digits b) + m)"
  define F where "F = bval NBASE (digits a) * NBASE ^ (N - length (digits a))"
  define V where "V = bval NBASE (digits b)"
  note dd = div_digits_value [OF a b, of m, folded N_def, folded R_def F_def V_def]
  show "digits_ok NBASE (digits v)" using dd(2) v by simp
  have V0: "0 < V"
  proof -
    have "(0::int) < NBASE ^ (length (digits b) - 1)" by simp
    also have "\<dots> \<le> V" unfolding V_def using b by (rule bval_lower)
    finally show ?thesis .
  qed
  have N: "length (digits a) \<le> N" "length (digits b) + m \<le> N" by (simp_all add: N_def div_total_def)
  have pw: "(of_int (NBASE ^ i) :: rat) = 10 powi (4 * int i)" for i using powi_10000 [of "int i"] by simp
  define ea eb where e: "ea = 4 * (weight a + 1 - ndigits a)" "eb = 4 * (weight b + 1 - ndigits b)"
  have "4 * k + ea + 4 * int R = 4 * int (N - length (digits a)) + eb"
    using N v(2) by (simp add: k_def e R_def ndigits_def of_nat_diff)
  then have "(10::rat) powi (4 * k) * 10 powi ea * 10 powi (4 * int R) = 10 powi (4 * int (N - length (digits a))) * 10 powi eb"
    by (simp only: powi_split [symmetric])
  then have "absval a / absval b * 10 powi (4 * k) = of_int F / of_int (V * NBASE ^ R)"
    using V0 unfolding absval_def e [symmetric] V_def [symmetric] F_def of_int_mult pw
    by (simp add: divide_simps) (simp add: ac_simps)
  then have fl: "\<lfloor>absval a / absval b * 10 powi (4 * k)\<rfloor> = F div (V * NBASE ^ R)"
    by (simp only: floor_divide_of_int_eq)
  have "4 * (weight v + 1 - ndigits v) = - 4 * k" using dd(1) v by (simp add: k_def ndigits_def)
  then have "absval v = of_int (F div (V * NBASE ^ R)) * 10 powi (- 4 * k)"
    unfolding absval_def [of v] using dd(3) v(1) by simp
  then show "absval v = of_int \<lfloor>absval a / absval b * 10 powi (4 * k)\<rfloor> * 10 powi (- 4 * k)"
    unfolding fl .
qed

text \<open>Rounding or truncating a value that was cut off further right changes nothing.\<close>

lemma floor_cut:
  assumes "r \<le> p"
  shows "\<lfloor>of_int \<lfloor>x * 10 powi p\<rfloor> * (10::rat) powi (- p) * 10 powi r\<rfloor> = \<lfloor>x * (10::rat) powi r\<rfloor>"
proof -
  define n where "n = (10 ^ nat (p - r) :: int)"
  have n: "0 < n" "(of_int n :: rat) = 10 powi (p - r)" using assms by (simp_all add: n_def power_int_def)
  have "10 powi (- p) * 10 powi r = (10::rat) powi (- (p - r))" unfolding powi_split [symmetric] by simp
  also have "\<dots> = inverse (of_int n)" unfolding n(2) by (rule power_int_minus)
  finally have i: "10 powi (- p) * 10 powi r = 1 / (of_int n :: rat)" by (simp add: inverse_eq_divide)
  have "(10::rat) powi p = 10 powi r * of_int n" unfolding n(2) powi_split [symmetric] by simp
  then have "x * 10 powi p / of_int n = x * 10 powi r" using n(1) by simp
  then show ?thesis
    using floor_div_int [OF n(1), of "x * 10 powi p"] floor_divide_of_int_eq [of "\<lfloor>x * 10 powi p\<rfloor>" n]
    by (simp add: mult.assoc i)
qed

lemma round_cut:
  assumes "r < p"
  shows "round (of_int \<lfloor>x * 10 powi p\<rfloor> * (10::rat) powi (- p) * 10 powi r) = round (x * (10::rat) powi r)"
proof -
  define h where "h = (5 * 10 ^ (nat (p - r) - 1) :: int)"
  have "(10::rat) powi (p - r) = of_int (2 * h)"
    using assms by (cases "nat (p - r)") (simp_all add: h_def power_int_def)
  moreover have "(10::rat) powi p = 10 powi (p - r) * 10 powi r" unfolding powi_split [symmetric] by simp
  ultimately have hp: "(10::rat) powi (- r) * 10 powi p = of_int (2 * h)" by (simp add: mult.commute mult.left_commute)
  define y where "y = x + 1 / 2 * 10 powi (- r)"
  have "y * 10 powi p = x * 10 powi p + of_int h"
    unfolding y_def distrib_right mult.assoc hp by simp
  then have "\<lfloor>y * 10 powi p\<rfloor> = \<lfloor>x * 10 powi p\<rfloor> + h" by simp
  then have "of_int \<lfloor>y * 10 powi p\<rfloor> * 10 powi (- p) = of_int \<lfloor>x * 10 powi p\<rfloor> * 10 powi (- p) + 1 / 2 * (10::rat) powi (- r)"
  proof -
    have "of_int h * (10::rat) powi (- p) = 1 / 2 * (of_int (2 * h) * 10 powi (- p))" by simp
    also have "\<dots> = 1 / 2 * 10 powi (- r)" unfolding hp [symmetric] by (simp add: mult.assoc)
    finally show ?thesis using \<open>\<lfloor>y * 10 powi p\<rfloor> = \<lfloor>x * 10 powi p\<rfloor> + h\<close> by (simp add: distrib_right)
  qed
  then have "of_int \<lfloor>y * 10 powi p\<rfloor> * 10 powi (- p) * 10 powi r
      = of_int \<lfloor>x * 10 powi p\<rfloor> * 10 powi (- p) * 10 powi r + (1 / 2 :: rat)" by (simp add: distrib_right mult.assoc)
  moreover have "y * 10 powi r = x * 10 powi r + 1 / 2" by (simp add: y_def distrib_right mult.assoc)
  ultimately show ?thesis
    unfolding round_def using floor_cut [of r p y] assms by simp
qed

text \<open>The rounding mode of \<open>div_var\<close>, on a magnitude.\<close>

definition to_scale :: "bool \<Rightarrow> int \<Rightarrow> rat \<Rightarrow> rat" where
  "to_scale rnd r x = of_int (if rnd then round (x * 10 powi r) else \<lfloor>x * 10 powi r\<rfloor>) * 10 powi (- r)"

lemma trunc_strip_is:
  assumes "num_ok v"
  shows "num_is (strip_var (if rnd then round_var v r else trunc_var v r)) (sgnval v * to_scale rnd r (absval v)) r"
  using assms by (simp add: num_is_def num_wf_strip_var num_ok_round_var num_ok_trunc_var numval_round_var numval_trunc_var to_scale_def)

lemma div_var_zero: "digits b = [] \<or> hd (digits b) = 0 \<Longrightarrow> div_var a b res r rnd = Inl (PqException ''division by zero'')"
  by (cases "digits b") (auto simp: div_var_def ndigits_def)

lemma div_var_is:
  assumes a: "num_ok a" and b: "num_ok b" "digits b \<noteq> []" "hd (digits b) \<noteq> 0"
  shows "\<exists>v. div_var a b res r rnd = Inr v \<and> num_is v (sgnval a * sgnval b * to_scale rnd r (absval a / absval b)) r"
proof (cases "digits a = []")
  case True
  then show ?thesis using b zero_var_is [of r res]
    by (cases "digits b") (auto simp: div_var_def ndigits_def absval_def to_scale_def)
next
  case False
  define c where "c = (r + 4 - 1) sdiv 4"
  define m0 where "m0 = max (weight a - weight b + 1 + c) 1"
  define m where "m = nat (if rnd then m0 + 1 else m0)"
  define v where "v = res\<lparr>digits := div_digits (digits a) (digits b) m, weight := weight a - weight b,
     sign := (if sign a = sign b then NUMERIC_POS else NUMERIC_NEG)\<rparr>"
  have d: "digits_ok NBASE (digits a)" "digits_ok NBASE (digits b)" using a b by (simp_all add: num_ok_def)
  have vs: "digits v = div_digits (digits a) (digits b) m" "weight v = weight a - weight b" by (simp_all add: v_def)
  define k where "k = int m - 1 - weight v"
  note qf = quotient_floor [OF d b(2,3) vs, folded k_def]
  have "r \<le> 4 * c" using ceil4_ge [of r] by (simp add: c_def add.commute)
  moreover have "weight v + 1 + c \<le> m0" "1 \<le> m0" by (simp_all add: m0_def v_def)
  ultimately have k: "r \<le> 4 * k" "rnd \<Longrightarrow> r < 4 * k" by (auto simp: k_def m_def)
  have "div_var a b res r rnd = Inr (strip_var (if rnd then round_var v r else trunc_var v r))"
    using b False by (cases "digits b") (simp_all add: div_var_def Let_def ndigits_def v_def m_def m0_def c_def)
  moreover have "num_ok v" using qf(1) by (simp add: num_ok_def v_def)
  moreover have "sgnval v = sgnval a * sgnval b" using a b by (auto simp: sgnval_def v_def num_ok_def)
  moreover have "to_scale rnd r (absval v) = to_scale rnd r (absval a / absval b)"
    unfolding qf(2) to_scale_def using k round_cut [of r "4 * k" "absval a / absval b"] floor_cut [of r "4 * k" "absval a / absval b"]
    by (cases rnd) simp_all
  ultimately show ?thesis using trunc_strip_is [of v rnd r] by auto
qed

end
