(* ===== verification/Numeric_Ops.thy ===== *)
theory Numeric_Ops
  imports Numeric_Int Numeric_Text Numeric_Div
begin

text \<open>
  What is built from the exact operations: \<open>mod_var\<close>, \<open>ceil_var\<close>, \<open>floor_var\<close>,
  \<open>select_div_scale\<close> and the operators of the class. The operations that need only exact
  addition and subtraction, truncation and comparison are verified against the interface
  \<open>exact_arith\<close>, which is interpreted on the model of the library.
\<close>

section \<open>Definitions\<close>

definition const_one :: numeric where
  "const_one = numeric_of_string ''1''"

definition mod_var :: "numeric \<Rightarrow> numeric \<Rightarrow> numeric \<Rightarrow> numeric result" where
  "mod_var var1 var2 result =
     bind_result (div_var var1 var2 numeric_init 0 False) (\<lambda>tmp.
       Inr (sub_var var1 (mul_var var2 tmp tmp (dscale var2)) result))"

definition ceil_var :: "numeric \<Rightarrow> numeric" where
  "ceil_var var =
     (let tmp = trunc_var var 0
      in if sign var = NUMERIC_POS \<and> numeric_cmp var tmp \<noteq> 0 then add_var tmp const_one tmp else tmp)"

definition floor_var :: "numeric \<Rightarrow> numeric" where
  "floor_var var =
     (let tmp = trunc_var var 0
      in if sign var = NUMERIC_NEG \<and> numeric_cmp var tmp \<noteq> 0 then sub_var tmp const_one tmp else tmp)"

text \<open>The weight and the value of the first digit that is not zero, \<open>i\<close> digits into the variable.\<close>

fun first_digit :: "int list \<Rightarrow> int \<Rightarrow> int \<times> int" where
  "first_digit [] w = (0, 0)"
| "first_digit (d # ds) w = (if d \<noteq> 0 then (w, d) else first_digit ds (w - 1))"

definition select_div_scale :: "numeric \<Rightarrow> numeric \<Rightarrow> int" where
  "select_div_scale var1 var2 =
     (let (weight1, firstdigit1) = first_digit (digits var1) (weight var1);
          (weight2, firstdigit2) = first_digit (digits var2) (weight var2);
          qweight = weight1 - weight2;
          qweight = (if firstdigit1 \<le> firstdigit2 then qweight - 1 else qweight);
          rscale = 16 - qweight * DEC_DIGITS;
          rscale = max rscale (dscale var1);
          rscale = max rscale (dscale var2);
          rscale = max rscale 0
      in min rscale 1000)"

text \<open>
  The operators. A compound assignment computes into a temporary and copies it over \<open>*this\<close>,
  so its result is the new value of the left operand.
\<close>

definition numeric_add :: "numeric \<Rightarrow> numeric \<Rightarrow> numeric" where
  "numeric_add a b = add_var a b numeric_init"

definition numeric_sub :: "numeric \<Rightarrow> numeric \<Rightarrow> numeric" where
  "numeric_sub a b = sub_var a b numeric_init"

definition numeric_mul :: "numeric \<Rightarrow> numeric \<Rightarrow> numeric" where
  "numeric_mul a b = mul_var a b numeric_init (max (dscale a) (dscale b))"

definition numeric_div :: "numeric \<Rightarrow> numeric \<Rightarrow> numeric result" where
  "numeric_div a b = div_var a b numeric_init (max (dscale a) (dscale b)) False"

definition numeric_mod :: "numeric \<Rightarrow> numeric \<Rightarrow> numeric result" where
  "numeric_mod a b = mod_var a b numeric_init"

definition copy_var_to_var :: "numeric \<Rightarrow> numeric \<Rightarrow> numeric" where
  "copy_var_to_var src dest = dest\<lparr>weight := weight src, sign := sign src, dscale := dscale src, digits := digits src\<rparr>"

definition numeric_add_assign :: "numeric \<Rightarrow> numeric \<Rightarrow> numeric" where
  "numeric_add_assign this b = copy_var_to_var (add_var this b numeric_init) this"

definition numeric_sub_assign :: "numeric \<Rightarrow> numeric \<Rightarrow> numeric" where
  "numeric_sub_assign this b = copy_var_to_var (sub_var this b numeric_init) this"

definition numeric_mul_assign :: "numeric \<Rightarrow> numeric \<Rightarrow> numeric" where
  "numeric_mul_assign this b =
     copy_var_to_var (mul_var this b numeric_init (max (dscale this) (dscale b))) this"

definition numeric_div_assign :: "numeric \<Rightarrow> numeric \<Rightarrow> numeric result" where
  "numeric_div_assign this b =
     bind_result (div_var this b numeric_init (max (dscale this) (dscale b)) False) (\<lambda>tmp.
       Inr (copy_var_to_var tmp this))"

definition numeric_mod_assign :: "numeric \<Rightarrow> numeric \<Rightarrow> numeric result" where
  "numeric_mod_assign this b =
     bind_result (mod_var this b numeric_init) (\<lambda>tmp. Inr (copy_var_to_var tmp this))"

text \<open>Increment and decrement; the postfix forms return the old value and leave the new one.\<close>

definition numeric_inc :: "numeric \<Rightarrow> numeric" where
  "numeric_inc this = copy_var_to_var (add_var this const_one numeric_init) this"

definition numeric_post_inc :: "numeric \<Rightarrow> numeric \<times> numeric" where
  "numeric_post_inc this = (let res = this in (res, numeric_inc this))"

definition numeric_dec :: "numeric \<Rightarrow> numeric" where
  "numeric_dec this = copy_var_to_var (sub_var this const_one numeric_init) this"

definition numeric_post_dec :: "numeric \<Rightarrow> numeric \<times> numeric" where
  "numeric_post_dec this = (let res = this in (res, numeric_dec this))"

section \<open>The interface of exact arithmetic\<close>

lemma ceiling_floor: "\<lceil>x\<rceil> = (if x \<in> \<int> then \<lfloor>x\<rfloor> else \<lfloor>x\<rfloor> + 1)" for x :: rat
proof (cases "x \<in> \<int>")
  case False
  then have "x \<noteq> of_int \<lfloor>x\<rfloor>" by (metis Ints_of_int)
  with False show ?thesis by (simp add: ceiling_altdef)
qed (auto elim!: Ints_cases)

locale exact_arith = cmp_by_key ok cmp val
  for ok :: "'a \<Rightarrow> bool" and cmp :: "'a \<Rightarrow> 'a \<Rightarrow> int" and val :: "'a \<Rightarrow> rat" +
  fixes add sub :: "'a \<Rightarrow> 'a \<Rightarrow> 'a" and trunc :: "'a \<Rightarrow> 'a" and one :: 'a
  assumes add_ok: "ok a \<Longrightarrow> ok b \<Longrightarrow> ok (add a b)" and add_val: "ok a \<Longrightarrow> ok b \<Longrightarrow> val (add a b) = val a + val b"
    and sub_ok: "ok a \<Longrightarrow> ok b \<Longrightarrow> ok (sub a b)" and sub_val: "ok a \<Longrightarrow> ok b \<Longrightarrow> val (sub a b) = val a - val b"
    and trunc_ok: "ok a \<Longrightarrow> ok (trunc a)"
    and trunc_val: "ok a \<Longrightarrow> val (trunc a) = of_int (if val a < 0 then \<lceil>val a\<rceil> else \<lfloor>val a\<rfloor>)"
    and one_ok: "ok one" and one_val: "val one = 1"
begin

lemma trunc_cmp: "ok a \<Longrightarrow> cmp a (trunc a) = 0 \<longleftrightarrow> val a \<in> \<int>"
proof -
  assume a: "ok a"
  then have "cmp a (trunc a) = 0 \<longleftrightarrow> val a = of_int (if val a < 0 then \<lceil>val a\<rceil> else \<lfloor>val a\<rfloor>)"
    by (simp add: cmp_zero trunc_ok trunc_val)
  then show ?thesis by (auto elim!: Ints_cases simp: Ints_def)
qed

lemma ceil_ok: "ok a \<Longrightarrow> ok (if p \<and> cmp a (trunc a) \<noteq> 0 then add (trunc a) one else trunc a)"
  by (simp add: add_ok trunc_ok one_ok)

lemma ceil_val:
  assumes "ok a" "p \<longleftrightarrow> 0 \<le> val a"
  shows "val (if p \<and> cmp a (trunc a) \<noteq> 0 then add (trunc a) one else trunc a) = of_int \<lceil>val a\<rceil>"
  using assms ceiling_floor [of "val a"] by (auto simp: trunc_cmp add_val trunc_ok one_ok trunc_val one_val)

lemma floor_ok: "ok a \<Longrightarrow> ok (if p \<and> cmp a (trunc a) \<noteq> 0 then sub (trunc a) one else trunc a)"
  by (simp add: sub_ok trunc_ok one_ok)

lemma floor_val:
  assumes "ok a" "p \<longleftrightarrow> val a < 0"
  shows "val (if p \<and> cmp a (trunc a) \<noteq> 0 then sub (trunc a) one else trunc a) = of_int \<lfloor>val a\<rfloor>"
  using assms ceiling_floor [of "val a"] by (auto simp: trunc_cmp sub_val trunc_ok one_ok trunc_val one_val)

end

section \<open>The library provides it\<close>

lemma const_one_eq: "const_one = \<lparr>weight = 0, sign = 0, dscale = 0, digits = [1]\<rparr>"
  by code_simp

lemma num_lead_trunc: "num_lead v \<Longrightarrow> num_lead (trunc_var v 0)"
proof -
  assume v: "num_lead v"
  have ok: "num_ok (trunc_var v 0)" using v by (intro num_ok_trunc_var num_lead_ok)
  define di where "di = (weight v + 1) * 4"
  have dm: "di smod 4 = 0" by (simp add: di_def signed_modulo_int_def signed_divide_int_def)
  show ?thesis
  proof (cases "di \<le> 0")
    case True
    then show ?thesis by (simp add: trunc_var_def di_def num_lead_def num_ok_def)
  next
    case False
    have "(di + 4 - 1) sdiv 4 = weight v + 1" using False by (simp add: sdiv_nonneg di_def)
    then have "digits (trunc_var v 0) = (if weight v + 1 \<le> ndigits v then take (nat (weight v + 1)) (digits v) else digits v)"
      "sign (trunc_var v 0) = sign v"
      using False dm by (simp_all add: trunc_var_def di_def Let_def)
    moreover have "0 < nat (weight v + 1)" using False by (simp add: di_def)
    ultimately show ?thesis using v ok by (auto simp: num_lead_def split: if_splits)
  qed
qed

lemma num_lead_sign: "num_lead v \<Longrightarrow> sign v = NUMERIC_NEG \<longleftrightarrow> numval v < 0"
proof -
  assume v: "num_lead v"
  have "0 \<le> absval v" using v by (intro absval_nonneg num_lead_digits)
  moreover have "digits v \<noteq> [] \<Longrightarrow> 0 < absval v" using v by (intro absval_pos num_lead_ok num_lead_nz)
  ultimately show ?thesis using v by (auto simp: num_lead_def num_ok_def numval_def sgnval_def split: if_splits)
qed

interpretation num_exact: exact_arith num_lead numeric_cmp numval
  "\<lambda>a b. add_var a b a" "\<lambda>a b. sub_var a b a" "\<lambda>v. trunc_var v 0" const_one
proof
  fix a b :: numeric
  assume a: "num_lead a"
  show "num_lead (add_var a b a)" "numval (add_var a b a) = numval a + numval b"
    "num_lead (sub_var a b a)" "numval (sub_var a b a) = numval a - numval b" if "num_lead b"
    using add_var_is [OF a that, of a] sub_var_is [OF a that, of a] by (simp_all add: num_is_def num_wf_lead)
  show "num_lead (trunc_var a 0)" using a by (rule num_lead_trunc)
  have "numval (trunc_var a 0) = sgnval a * of_int \<lfloor>absval a\<rfloor>" using numval_trunc_var [OF num_lead_ok [OF a], of 0] by simp
  moreover have "numval a = sgnval a * absval a" by (rule numval_def)
  ultimately show "numval (trunc_var a 0) = of_int (if numval a < 0 then \<lceil>numval a\<rceil> else \<lfloor>numval a\<rfloor>)"
    unfolding num_lead_sign [OF a, symmetric] by (simp add: sgnval_def ceiling_minus)
qed (simp_all add: const_one_eq num_lead_def num_ok_def numval_def sgnval_def absval_def ndigits_def)

section \<open>mod\_var\<close>

text \<open>A value all of whose decimals are covered by its display scale.\<close>

definition num_shown :: "numeric \<Rightarrow> bool" where
  "num_shown v \<longleftrightarrow> 0 \<le> dscale v \<and> absval v * 10 powi dscale v = of_int \<lfloor>absval v * 10 powi dscale v\<rfloor>"

lemma num_shownE:
  assumes "num_shown v" obtains n where "absval v * 10 powi dscale v = of_int n"
  using assms by (auto simp: num_shown_def)

lemma rscale_shown:
  assumes "num_wf v" "absval v * 10 powi s = of_int n" "0 \<le> s"
  shows "rscale_of v \<le> (s + 3) sdiv 4"
proof (cases "digits v = []")
  case True
  then have "rscale_of v = -1" using assms(1) by (simp add: rscale_of_def ndigits_def num_wf_def num_norm_def)
  moreover have "0 \<le> (s + 3) sdiv 4" using assms(3) by (simp add: sdiv_nonneg)
  ultimately show ?thesis by simp
next
  case False
  from scaled_shape [OF assms(1) this assms(2)] assms(3) show ?thesis by (simp add: rscale_of_def sdiv_nonneg)
qed

lemma abs_sgnval [simp]: "\<bar>sgnval v\<bar> = 1"
  by (simp add: sgnval_def)

lemma mod_var_is:
  assumes a: "num_lead a" and b: "num_wf b" "num_shown b" "digits b \<noteq> []"
  shows "\<exists>v. mod_var a b res = Inr v \<and>
    num_is v (numval a - sgnval a * sgnval b * of_int \<lfloor>absval a / absval b\<rfloor> * numval b) (max (dscale a) (dscale b))"
proof -
  define t where "t = sgnval a * sgnval b * of_int \<lfloor>absval a / absval b\<rfloor>"
  have hb: "hd (digits b) \<noteq> 0" using b by (auto simp: num_wf_def num_norm_def)
  obtain q where q: "div_var a b numeric_init 0 False = Inr q" "num_is q t 0"
    using div_var_is [OF num_lead_ok [OF a] num_wf_ok [OF b(1)] b(3) hb, of numeric_init 0 False]
    by (auto simp: to_scale_def t_def)
  have qwf: "num_wf q" "numval q = t" using q(2) by (simp_all add: num_is_def)
  define k where "k = \<lfloor>absval a / absval b\<rfloor>"
  have "0 \<le> absval a / absval b" using num_lead_digits [OF a] num_wf_digits [OF b(1)] by (simp add: absval_nonneg)
  then have "0 \<le> k" by (simp add: k_def)
  have aq: "absval q = of_int k"
    using abs_numval [OF num_wf_digits [OF qwf(1)]] qwf(2) \<open>0 \<le> k\<close> by (simp add: t_def abs_mult k_def)
  obtain n where n: "absval b * 10 powi dscale b = of_int n" using b(2) by (rule num_shownE)
  have s: "0 \<le> dscale b" using b(2) by (simp add: num_shown_def)
  have "rscale_of q \<le> (0 + 3) sdiv 4" using rscale_shown [of q 0 k] qwf(1) aq by simp
  then have "rscale_of b + rscale_of q \<le> (dscale b + 3) sdiv 4 + 2"
    using rscale_shown [OF b(1) n s] by (simp add: sdiv_nonneg)
  note mi = mul_var_exact_is [OF num_wf_lead [OF b(1)] num_wf_lead [OF qwf(1)] this, of q]
  have bq: "absval b * absval q * 10 powi dscale b = of_int (n * k)" using n by (simp add: aq mult.commute mult.left_commute)
  have "of_int (round (absval b * absval q * 10 powi dscale b)) * 10 powi (- dscale b) = of_int (n * k) * (10::rat) powi (- dscale b)"
    unfolding bq by (simp only: round_of_int)
  also have "\<dots> = absval b * absval q" unfolding bq [symmetric] by (simp add: mult.assoc)
  finally have m: "num_is (mul_var b q q (dscale b)) (sgnval b * sgnval q * (absval b * absval q)) (dscale b)"
    using mi by (simp only:)
  have vb: "sgnval b * sgnval q * (absval b * absval q) = t * numval b"
    unfolding qwf(2) [symmetric] numval_def by (simp only: ac_simps)
  have mwf: "num_wf (mul_var b q q (dscale b))" "numval (mul_var b q q (dscale b)) = t * numval b"
    "dscale (mul_var b q q (dscale b)) = dscale b"
    using m unfolding vb num_is_def by simp_all
  have "num_is (sub_var a (mul_var b q q (dscale b)) res) (numval a - t * numval b) (max (dscale a) (dscale b))"
    using sub_var_is [OF a num_wf_lead [OF mwf(1)], of res] mwf(2,3) by simp
  then show ?thesis using q(1) by (simp add: mod_var_def t_def)
qed

section \<open>select\_div\_scale\<close>

lemma first_digit_bounds:
  assumes "digits_ok NBASE ds" "\<exists>d \<in> set ds. d \<noteq> 0" "first_digit ds w = (w', d)"
  shows "1 \<le> d" "d < NBASE" "of_int d * 10 powi (4 * w') \<le> wval ds w" "wval ds w < of_int (d + 1) * 10 powi (4 * w')"
proof -
  have "1 \<le> d \<and> d < NBASE \<and> of_int d * 10 powi (4 * w') \<le> wval ds w \<and> wval ds w < of_int (d + 1) * 10 powi (4 * w')"
    using assms
  proof (induction ds w rule: first_digit.induct)
    case (2 e ds w)
    show ?case
    proof (cases "e = 0")
      case True
      with 2 show ?thesis by (simp add: wval_Cons)
    next
      case False
      then have "d = e" "w' = w" using 2 by auto
      moreover have "0 \<le> wval ds (w - 1)" "wval ds (w - 1) < 10 powi (4 * w)"
        using 2 wval_nonneg [of ds "w - 1"] wval_less [of ds "w - 1"] by simp_all
      ultimately show ?thesis using 2 False by (simp add: wval_Cons distrib_right)
    qed
  qed simp
  then show "1 \<le> d" "d < NBASE" "of_int d * 10 powi (4 * w') \<le> wval ds w" "wval ds w < of_int (d + 1) * 10 powi (4 * w')"
    by simp_all
qed

lemma qweight_estimate:
  fixes x y :: rat
  assumes d: "1 \<le> d1" "d2 < NBASE" "1 \<le> d2"
    and x: "of_int d1 * 10 powi (4 * w1) \<le> x" and y: "0 < y" "y < of_int (d2 + 1) * 10 powi (4 * w2)"
  defines "qw \<equiv> (if d1 \<le> d2 then w1 - w2 - 1 else w1 - w2)"
  shows "10 powi (4 * qw) < x / y"
proof -
  define e where "e = (if d1 \<le> d2 then 1 else 0 :: int)"
  have "of_int (d2 + 1) \<le> (of_int d1 :: rat) * 10 powi (4 * e)"
  proof (cases "d1 \<le> d2")
    case True
    have "of_int (d2 + 1) \<le> (of_int NBASE :: rat)" using d by (simp only: of_int_le_iff)
    also have "\<dots> \<le> of_int d1 * of_int NBASE" using d by simp
    finally show ?thesis using True by (simp add: e_def power_int_def)
  qed (simp add: e_def del: of_int_add)
  then have "10 powi (4 * (qw + w2)) * of_int (d2 + 1) \<le> 10 powi (4 * (qw + w2)) * (of_int d1 * (10::rat) powi (4 * e))"
    by (intro mult_left_mono) simp_all
  also have "10 powi (4 * (qw + w2)) * (of_int d1 * (10::rat) powi (4 * e)) = of_int d1 * 10 powi (4 * (qw + w2) + 4 * e)"
    by (simp only: powi_split ac_simps)
  also have "4 * (qw + w2) + 4 * e = 4 * w1" by (simp add: qw_def e_def)
  finally have "10 powi (4 * (qw + w2)) * of_int (d2 + 1) \<le> x" using x by simp
  moreover have "10 powi (4 * qw) * y < 10 powi (4 * qw) * (of_int (d2 + 1) * 10 powi (4 * w2))"
    using y by (intro mult_strict_left_mono) simp_all
  moreover have "10 powi (4 * qw) * (of_int (d2 + 1) * 10 powi (4 * w2)) = 10 powi (4 * (qw + w2)) * (of_int (d2 + 1) :: rat)"
    unfolding distrib_left [of 4] powi_split by (simp only: ac_simps)
  ultimately have "10 powi (4 * qw) * y < x" by linarith
  then show ?thesis using y by (simp add: pos_less_divide_eq)
qed

section \<open>Properties\<close>

text \<open>
  C2: \<open>div_var\<close> returns the quotient rounded half away from zero, or truncated towards zero,
  at exactly \<open>rscale\<close> decimals, in normal form, for divisors of any length; it throws exactly
  for a divisor without digits or with a leading zero digit.
\<close>

theorem div_var_correct:
  assumes "num_ok a" "num_ok b"
  shows "div_var a b res r rnd = Inl (PqException ''division by zero'') \<and> (digits b = [] \<or> hd (digits b) = 0)
    \<or> (\<exists>v. div_var a b res r rnd = Inr v \<and> digits b \<noteq> [] \<and> hd (digits b) \<noteq> 0 \<and> num_wf v \<and> dscale v = r \<and>
         numval v = sgnval a * sgnval b *
           of_int (if rnd then round (absval a / absval b * 10 powi r) else \<lfloor>absval a / absval b * 10 powi r\<rfloor>) * 10 powi (- r))"
proof (cases "digits b = [] \<or> hd (digits b) = 0")
  case True
  then show ?thesis using div_var_zero by simp
next
  case False
  then obtain v where "div_var a b res r rnd = Inr v"
    "num_is v (sgnval a * sgnval b * to_scale rnd r (absval a / absval b)) r"
    using div_var_is [OF assms, of res r rnd] by auto
  with False show ?thesis by (simp add: num_is_def to_scale_def mult.assoc)
qed

theorem div_var_correct_witness:
  "div_var \<lparr>weight = 1, sign = 0, dscale = 0, digits = [1]\<rparr> \<lparr>weight = 1, sign = 16384, dscale = 0, digits = [3, 7]\<rparr>
     numeric_init 5 True = Inr \<lparr>weight = -1, sign = 16384, dscale = 5, digits = [3332, 6000]\<rparr>
   \<and> num_wf \<lparr>weight = -1, sign = 16384, dscale = 5, digits = [3332, 6000]\<rparr>"
proof -
  have e: "div_var \<lparr>weight = 1, sign = 0, dscale = 0, digits = [1]\<rparr> \<lparr>weight = 1, sign = 16384, dscale = 0, digits = [3, 7]\<rparr>
     numeric_init 5 True = Inr \<lparr>weight = -1, sign = 16384, dscale = 5, digits = [3332, 6000]\<rparr>" by code_simp
  show ?thesis
    using div_var_correct [of "\<lparr>weight = 1, sign = 0, dscale = 0, digits = [1]\<rparr>"
        "\<lparr>weight = 1, sign = 16384, dscale = 0, digits = [3, 7]\<rparr>" numeric_init 5 True] e
    by (simp add: num_ok_def)
qed

text \<open>
  \<open>mod_var\<close> is exact: for a divisor whose decimals are all shown, the result is the
  dividend minus the truncated quotient times the divisor, so it has the sign of the dividend
  and is smaller in magnitude than the divisor.
\<close>

theorem mod_var_correct:
  assumes a: "num_lead a" and b: "num_wf b" "num_shown b" "digits b \<noteq> []"
  shows "\<exists>v. mod_var a b res = Inr v \<and> num_wf v \<and> dscale v = max (dscale a) (dscale b) \<and>
    numval v = numval a - sgnval a * sgnval b * of_int \<lfloor>absval a / absval b\<rfloor> * numval b \<and>
    \<bar>numval v\<bar> < \<bar>numval b\<bar> \<and> 0 \<le> sgnval a * numval v"
proof -
  define k where "k = \<lfloor>absval a / absval b\<rfloor>"
  obtain v where v: "mod_var a b res = Inr v"
    "num_is v (numval a - sgnval a * sgnval b * of_int k * numval b) (max (dscale a) (dscale b))"
    using mod_var_is [OF a b, of res] by (auto simp: k_def)
  have pb: "0 < absval b" using b by (intro absval_pos num_wf_ok num_wf_nz)
  have k: "of_int k \<le> absval a / absval b" "absval a / absval b < of_int k + 1"
    unfolding k_def using floor_correct [of "absval a / absval b"] by simp_all
  have "of_int k * absval b \<le> absval a" "absval a < (of_int k + 1) * absval b"
    using k pb by (simp_all add: pos_le_divide_eq pos_divide_less_eq)
  then have r: "0 \<le> absval a - of_int k * absval b" "absval a - of_int k * absval b < absval b"
    by (simp_all add: distrib_right)
  have "numval v = sgnval a * absval a - sgnval a * (sgnval b * sgnval b) * of_int k * absval b"
    using v(2) by (simp add: num_is_def numval_def ac_simps)
  then have nv: "numval v = sgnval a * (absval a - of_int k * absval b)" by (simp add: sgnval_numval(2) right_diff_distrib)
  have "\<bar>numval v\<bar> < absval b" unfolding nv abs_mult using r by simp
  moreover have "\<bar>numval b\<bar> = absval b" using b by (simp add: abs_numval num_wf_digits)
  moreover have "0 \<le> sgnval a * numval v" unfolding nv mult.assoc [symmetric] sgnval_numval(2) using r(1) by simp
  ultimately show ?thesis using v by (auto simp: num_is_def k_def)
qed

theorem mod_var_correct_witness:
  "mod_var \<lparr>weight = 0, sign = 16384, dscale = 1, digits = [7, 5000]\<rparr> \<lparr>weight = 0, sign = 0, dscale = 0, digits = [2]\<rparr>
     numeric_init = Inr \<lparr>weight = 0, sign = 16384, dscale = 1, digits = [1, 5000]\<rparr>
   \<and> num_wf \<lparr>weight = 0, sign = 16384, dscale = 1, digits = [1, 5000]\<rparr>"
proof -
  have e: "mod_var \<lparr>weight = 0, sign = 16384, dscale = 1, digits = [7, 5000]\<rparr> \<lparr>weight = 0, sign = 0, dscale = 0, digits = [2]\<rparr>
     numeric_init = Inr \<lparr>weight = 0, sign = 16384, dscale = 1, digits = [1, 5000]\<rparr>" by code_simp
  have "num_shown \<lparr>weight = 0, sign = 0, dscale = 0, digits = [2]\<rparr>"
    by (simp add: num_shown_def absval_def ndigits_def)
  then show ?thesis
    using mod_var_correct [of "\<lparr>weight = 0, sign = 16384, dscale = 1, digits = [7, 5000]\<rparr>"
        "\<lparr>weight = 0, sign = 0, dscale = 0, digits = [2]\<rparr>" numeric_init] e
    by (simp add: num_lead_def num_wf_def num_ok_def num_norm_def)
qed

text \<open>
  \<open>ceil_var\<close> and \<open>floor_var\<close> return the least integer above and the greatest integer
  below the argument, for both signs.
\<close>

theorem ceil_floor_correct:
  assumes "num_lead v"
  shows "num_lead (ceil_var v) \<and> numval (ceil_var v) = of_int \<lceil>numval v\<rceil>
    \<and> num_lead (floor_var v) \<and> numval (floor_var v) = of_int \<lfloor>numval v\<rfloor>"
proof -
  define p where "p \<longleftrightarrow> sign v = NUMERIC_POS"
  define n where "n \<longleftrightarrow> sign v = NUMERIC_NEG"
  have pn: "p \<longleftrightarrow> 0 \<le> numval v" "n \<longleftrightarrow> numval v < 0"
    using assms num_lead_sign [OF assms] by (auto simp: p_def n_def num_lead_def num_ok_def)
  show ?thesis
    using num_exact.ceil_ok [OF assms, of p] num_exact.ceil_val [OF assms pn(1)]
      num_exact.floor_ok [OF assms, of n] num_exact.floor_val [OF assms pn(2)]
    by (simp add: ceil_var_def floor_var_def Let_def p_def n_def)
qed

theorem ceil_floor_correct_witness:
  "ceil_var \<lparr>weight = 0, sign = 16384, dscale = 1, digits = [1, 5000]\<rparr> = \<lparr>weight = 0, sign = 16384, dscale = 0, digits = [1]\<rparr>
   \<and> numval (floor_var \<lparr>weight = 0, sign = 16384, dscale = 1, digits = [1, 5000]\<rparr>) = - 2"
proof
  show "ceil_var \<lparr>weight = 0, sign = 16384, dscale = 1, digits = [1, 5000]\<rparr> = \<lparr>weight = 0, sign = 16384, dscale = 0, digits = [1]\<rparr>"
    by code_simp
  have "\<lfloor>numval \<lparr>weight = 0, sign = 16384, dscale = 1, digits = [1, 5000]\<rparr>\<rfloor> = - 2"
    by (simp add: numval_def sgnval_def absval_def ndigits_def power_int_def power_one_over floor_eq_iff)
  then show "numval (floor_var \<lparr>weight = 0, sign = 16384, dscale = 1, digits = [1, 5000]\<rparr>) = - 2"
    using ceil_floor_correct [of "\<lparr>weight = 0, sign = 16384, dscale = 1, digits = [1, 5000]\<rparr>"]
    by (simp add: num_lead_def num_ok_def)
qed

text \<open>
  \<open>select_div_scale\<close> always lies between 0 and 1000, and unless it is cut at 1000 the
  quotient shown with that many decimals has more than 16 significant digits.
\<close>

theorem select_div_scale_correct:
  assumes a: "num_ok a" "\<exists>d \<in> set (digits a). d \<noteq> 0" and b: "num_ok b" "\<exists>d \<in> set (digits b). d \<noteq> 0"
  shows "0 \<le> select_div_scale a b \<and> select_div_scale a b \<le> 1000 \<and>
    (select_div_scale a b < 1000 \<longrightarrow>
       dscale a \<le> select_div_scale a b \<and> dscale b \<le> select_div_scale a b \<and>
       10 ^ 16 < absval a / absval b * 10 powi select_div_scale a b)"
proof -
  obtain w1 d1 where f1: "first_digit (digits a) (weight a) = (w1, d1)" by fastforce
  obtain w2 d2 where f2: "first_digit (digits b) (weight b) = (w2, d2)" by fastforce
  have d: "digits_ok NBASE (digits a)" "digits_ok NBASE (digits b)" using a b by (simp_all add: num_ok_def)
  note fa = first_digit_bounds [OF d(1) a(2) f1, folded absval_wval] and fb = first_digit_bounds [OF d(2) b(2) f2, folded absval_wval]
  define qw where "qw = (if d1 \<le> d2 then w1 - w2 - 1 else w1 - w2)"
  define rs where "rs = max (max (max (16 - qw * 4) (dscale a)) (dscale b)) 0"
  have sel: "select_div_scale a b = min rs 1000" by (simp add: select_div_scale_def f1 f2 rs_def qw_def Let_def)
  have "0 < absval b" using b by (simp add: absval_wval wval_pos_iff num_ok_def)
  from qweight_estimate [OF fa(1) fb(2,1) fa(3) this fb(4), folded qw_def]
  have q: "10 powi (4 * qw) < absval a / absval b" .
  have big: "10 ^ 16 < absval a / absval b * 10 powi rs"
  proof -
    have "(10::rat) ^ 16 = 10 powi (4 * qw) * 10 powi (16 - qw * 4)" unfolding powi_split [symmetric] by simp
    also have "\<dots> \<le> 10 powi (4 * qw) * 10 powi rs" by (intro mult_left_mono powi_mono) (simp_all add: rs_def)
    also have "\<dots> < absval a / absval b * 10 powi rs" using q by (intro mult_strict_right_mono) simp_all
    finally show ?thesis .
  qed
  have r: "0 \<le> rs" "dscale a \<le> rs" "dscale b \<le> rs" by (simp_all add: rs_def)
  show ?thesis
  proof (cases "rs < 1000")
    case True
    then have "min rs 1000 = rs" by simp
    then show ?thesis unfolding sel using r big True by (simp only: less_imp_le simp_thms)
  next
    case False
    then have "min rs 1000 = 1000" by simp
    then show ?thesis unfolding sel by (simp only: less_irrefl simp_thms) simp
  qed
qed

theorem select_div_scale_correct_witness:
  "select_div_scale \<lparr>weight = 0, sign = 0, dscale = 0, digits = [1]\<rparr> \<lparr>weight = 0, sign = 0, dscale = 0, digits = [3]\<rparr> = 20
   \<and> (10::rat) ^ 16 < absval \<lparr>weight = 0, sign = 0, dscale = 0, digits = [1]\<rparr>
       / absval \<lparr>weight = 0, sign = 0, dscale = 0, digits = [3]\<rparr> * 10 powi 20"
proof -
  have e: "select_div_scale \<lparr>weight = 0, sign = 0, dscale = 0, digits = [1]\<rparr> \<lparr>weight = 0, sign = 0, dscale = 0, digits = [3]\<rparr> = 20"
    by code_simp
  show ?thesis
    using select_div_scale_correct [of "\<lparr>weight = 0, sign = 0, dscale = 0, digits = [1]\<rparr>" "\<lparr>weight = 0, sign = 0, dscale = 0, digits = [3]\<rparr>"]
    by (simp add: e num_ok_def)
qed

end
