(* ===== verification/Numeric_Fast.thy ===== *)
theory Numeric_Fast
  imports Numeric_Ops
begin

text \<open>
  The approximate division of \<open>pq_async::numeric\<close>: \<open>div_var_fast\<close>, which the transcendental
  functions use. It estimates each quotient digit with \<open>double\<close> arithmetic and keeps the
  workspace \<open>div\<close> as \<open>int\<close> cells whose carries are propagated late.

  \<open>round_double\<close> is the rounding of the exact result of an operation to a \<open>double\<close>: 53 bits,
  to the nearest, ties to even. The exponents that occur are far from the limits of the type.
  The loops take the rounding as the argument \<open>fl\<close>; the analysis needs only its relative error
  (locale \<open>double_arith\<close>), and \<open>round_double\<close> is shown to keep it.
\<close>

section \<open>Rounding to a double\<close>

function bit_count :: "int \<Rightarrow> int" where
  "bit_count n = (if n \<le> 0 then 0 else 1 + bit_count (n div 2))"
  by pat_completeness auto
termination by (relation "measure nat") auto

declare bit_count.simps [simp del]

text \<open>The exponent \<open>e\<close> with \<open>2 powi e \<le> x < 2 powi (e + 1)\<close>, for positive \<open>x\<close>.\<close>

definition ilog2 :: "rat \<Rightarrow> int" where
  "ilog2 x =
     (let (a, b) = quotient_of x; e = bit_count a - bit_count b
      in if 2 powi e \<le> x then e else e - 1)"

definition round_even :: "rat \<Rightarrow> int" where
  "round_even y =
     (let f = \<lfloor>y\<rfloor>; r = y - of_int f
      in if r < 1 / 2 \<or> r = 1 / 2 \<and> even f then f else f + 1)"

definition round_double :: "rat \<Rightarrow> rat" where
  "round_double x =
     (if x = 0 then 0 else let u = 2 powi (ilog2 \<bar>x\<bar> - 52) in of_int (round_even (x / u)) * u)"

section \<open>div\_var\_fast\<close>

text \<open>
  The loops that collect three further cells into a \<open>double\<close>, from index \<open>i\<close> on; cells
  behind the end count as zero.
\<close>

fun fl_cells :: "(rat \<Rightarrow> rat) \<Rightarrow> int list \<Rightarrow> nat \<Rightarrow> nat \<Rightarrow> rat \<Rightarrow> rat" where
  "fl_cells fl xs i 0 f = f"
| "fl_cells fl xs i (Suc k) f =
     (let f = fl (f * 10000);
          f = (if i < length xs then fl (f + of_int (xs ! i)) else f)
      in fl_cells fl xs (i + 1) k f)"

definition fl_four :: "(rat \<Rightarrow> rat) \<Rightarrow> int list \<Rightarrow> nat \<Rightarrow> rat" where
  "fl_four fl xs i = fl_cells fl xs (i + 1) 3 (of_int (xs ! i))"

text \<open>The quotient digit: the product truncated towards minus infinity.\<close>

definition quot_digit :: "(rat \<Rightarrow> rat) \<Rightarrow> rat \<Rightarrow> int list \<Rightarrow> nat \<Rightarrow> int" where
  "quot_digit fl finv xs qi =
     (let f = fl (fl_four fl xs qi * finv)
      in if f \<ge> 0 then i32 \<lfloor>f\<rfloor> else i32 (i32 (- \<lfloor>- f\<rfloor>) - 1))"

text \<open>The carry and the digit that remains of a cell, which may be negative.\<close>

definition carry_split :: "int \<Rightarrow> int \<times> int" where
  "carry_split newdig =
     (if newdig < 0 then let c = - ((- newdig - 1) sdiv NBASE) - 1 in (c, i32 (newdig - i32 (c * NBASE)))
      else if newdig \<ge> NBASE then let c = newdig sdiv NBASE in (c, i32 (newdig - i32 (c * NBASE)))
      else (0, newdig))"

text \<open>The carry propagation over the \<open>k\<close> cells from index \<open>lo\<close> on, from the last to the first.\<close>

fun div_carry :: "nat \<Rightarrow> nat \<Rightarrow> int \<Rightarrow> int list \<Rightarrow> int list \<times> int" where
  "div_carry lo 0 carry xs = (xs, carry)"
| "div_carry lo (Suc k) carry xs =
     (let (carry, newdig) = carry_split (i32 (xs ! (lo + k) + carry))
      in div_carry lo k carry (xs[lo + k := newdig]))"

text \<open>Subtraction of \<open>q\<close> times the divisor digits from the cells at \<open>i\<close>.\<close>

fun sub_multiple :: "int \<Rightarrow> int list \<Rightarrow> nat \<Rightarrow> int list \<Rightarrow> int list" where
  "sub_multiple q [] i xs = xs"
| "sub_multiple q (d # ds) i xs = sub_multiple q ds (i + 1) (xs[i := i32 (xs ! i - i32 (q * d))])"

text \<open>
  The quotient digit of a round with the workspace and \<open>maxdiv\<close>: when the cells threaten to
  overflow, the carries behind \<open>div[qi]\<close> are propagated and the digit is computed again.
\<close>

definition next_digit :: "(rat \<Rightarrow> rat) \<Rightarrow> rat \<Rightarrow> nat \<Rightarrow> nat \<Rightarrow> int list \<Rightarrow> int \<Rightarrow> int \<times> int list \<times> int" where
  "next_digit fl finv n qi xs maxdiv =
     (let q = quot_digit fl finv xs qi
      in if q = 0 then (q, xs, maxdiv)
         else let maxdiv = i32 (maxdiv + \<bar>q\<bar>)
              in if maxdiv > (INT_MAX - INT_MAX sdiv NBASE - 1) sdiv (NBASE - 1)
                 then let (xs, carry) = div_carry (qi + 1) (n - qi) 0 xs;
                          xs = xs[qi := i32 (xs ! qi + carry)];
                          q = quot_digit fl finv xs qi
                      in (q, xs, i32 (1 + \<bar>q\<bar>))
                 else (q, xs, maxdiv))"

text \<open>
  A round of the main loop. The product \<open>div[qi] * NBASE\<close> may overflow; the addition that
  follows takes it back into range.
\<close>

definition fast_step :: "(rat \<Rightarrow> rat) \<Rightarrow> rat \<Rightarrow> int list \<Rightarrow> nat \<Rightarrow> nat \<Rightarrow> int list \<Rightarrow> int \<Rightarrow> int list \<times> int" where
  "fast_step fl finv ds2 n qi xs maxdiv =
     (let (q, xs, maxdiv) = next_digit fl finv n qi xs maxdiv;
          xs = (if q \<noteq> 0 then sub_multiple q (take (min (length ds2) (n - qi + 1)) ds2) qi xs else xs);
          xs = xs[qi + 1 := i32 (xs ! (qi + 1) + i32 (xs ! qi * NBASE))];
          xs = xs[qi := q]
      in (xs, maxdiv))"

fun fast_loop :: "(rat \<Rightarrow> rat) \<Rightarrow> rat \<Rightarrow> int list \<Rightarrow> nat \<Rightarrow> nat \<Rightarrow> nat \<Rightarrow> int list \<Rightarrow> int \<Rightarrow> int list" where
  "fast_loop fl finv ds2 n 0 qi xs maxdiv = xs"
| "fast_loop fl finv ds2 n (Suc k) qi xs maxdiv =
     (let (xs, maxdiv) = fast_step fl finv ds2 n qi xs maxdiv
      in fast_loop fl finv ds2 n k (qi + 1) xs maxdiv)"

text \<open>The \<open>n + 1\<close> digits of the quotient and the carry out, which the code asserts to be zero.\<close>

definition fast_digits :: "(rat \<Rightarrow> rat) \<Rightarrow> int list \<Rightarrow> int list \<Rightarrow> nat \<Rightarrow> int list \<times> int" where
  "fast_digits fl ds1 ds2 n =
     (let xs = 0 # ds1 @ replicate (n - length ds1) 0;
          finv = fl (1 / fl_four fl ds2 0);
          xs = fast_loop fl finv ds2 n n 0 xs 1;
          xs = xs[n := quot_digit fl finv xs n]
      in div_carry 0 (n + 1) 0 xs)"

definition fast_ndigits :: "numeric \<Rightarrow> numeric \<Rightarrow> int \<Rightarrow> int" where
  "fast_ndigits var1 var2 rscale =
     max (ndigits var1) (max 4 (weight var1 - weight var2 + 1 + 1 + (rscale + DEC_DIGITS - 1) sdiv DEC_DIGITS + 4))"

definition div_var_fast_with :: "(rat \<Rightarrow> rat) \<Rightarrow> numeric \<Rightarrow> numeric \<Rightarrow> numeric \<Rightarrow> int \<Rightarrow> bool \<Rightarrow> numeric result" where
  "div_var_fast_with fl var1 var2 result rscale rnd =
     (if ndigits var2 = 0 \<or> digits var2 ! 0 = 0 then Inl (PqException ''division by zero'')
      else if ndigits var1 = 0 then Inr ((zero_var result)\<lparr>dscale := rscale\<rparr>)
      else let res_sign = (if sign var1 = sign var2 then NUMERIC_POS else NUMERIC_NEG);
               res_weight = weight var1 - weight var2 + 1;
               (ds, carry) = fast_digits fl (digits var1) (digits var2) (nat (fast_ndigits var1 var2 rscale));
               v = result\<lparr>digits := ds, weight := res_weight, sign := res_sign\<rparr>
           in if carry \<noteq> 0 then Inl (UndefinedBehaviour ''assertion failed: carry == 0'')
              else Inr (strip_var (if rnd then round_var v rscale else trunc_var v rscale)))"

definition div_var_fast :: "numeric \<Rightarrow> numeric \<Rightarrow> numeric \<Rightarrow> int \<Rightarrow> bool \<Rightarrow> numeric result" where
  "div_var_fast = div_var_fast_with round_double"

section \<open>The error of the rounding\<close>

lemma bit_count_nonneg: "0 \<le> bit_count n"
  by (induction n rule: bit_count.induct) (subst bit_count.simps, simp)

lemma bit_count_bounds:
  "0 < n \<Longrightarrow> 2 powi (bit_count n - 1) \<le> (of_int n :: rat) \<and> (of_int n :: rat) < 2 powi bit_count n"
proof (induction n rule: bit_count.induct)
  case (1 n)
  show ?case
  proof (cases "n = 1")
    case True
    then show ?thesis by (simp add: bit_count.simps [of 1] bit_count.simps [of 0])
  next
    case False
    let ?m = "n div 2"
    have IH: "2 powi (bit_count ?m - 1) \<le> (of_int ?m :: rat)" "(of_int ?m :: rat) < 2 powi bit_count ?m"
      using 1 False by auto
    have b: "bit_count n = 1 + bit_count ?m" using 1(2) by (simp add: bit_count.simps [of n])
    have p: "(2::rat) powi bit_count ?m = 2 * 2 powi (bit_count ?m - 1)" "(2::rat) powi (1 + bit_count ?m) = 2 * 2 powi bit_count ?m"
      by (simp_all add: power_int_diff power_int_add)
    have "2 * ?m \<le> n" "n \<le> 2 * ?m + 1" by linarith+
    then have "of_int (2 * ?m) \<le> (of_int n :: rat)" "of_int n \<le> (of_int (2 * ?m + 1) :: rat)" by (simp_all only: of_int_le_iff)
    moreover have "(of_int ?m :: rat) + 1 \<le> 2 powi bit_count ?m"
    proof -
      have q: "(2::rat) powi bit_count ?m = of_int (2 ^ nat (bit_count ?m))" using bit_count_nonneg [of ?m] by (simp add: power_int_def)
      then have "?m < 2 ^ nat (bit_count ?m)" using IH(2) by (simp only: of_int_less_iff)
      then have "of_int (?m + 1) \<le> (of_int (2 ^ nat (bit_count ?m)) :: rat)" unfolding of_int_le_iff by linarith
      then show ?thesis unfolding q by simp
    qed
    ultimately show ?thesis using IH p unfolding b by simp
  qed
qed

lemma ilog2_bounds:
  assumes "0 < x"
  shows "2 powi ilog2 x \<le> x" "x < 2 powi (ilog2 x + 1)"
proof -
  obtain a b where q: "quotient_of x = (a, b)" by fastforce
  then have b: "0 < b" and x: "x = of_int a / of_int b" by (simp_all add: quotient_of_denom_pos quotient_of_div)
  with assms have a: "0 < a" by (simp add: zero_less_divide_iff)
  define k where "k = bit_count a" define l where "l = bit_count b" define e where "e = k - l"
  have ab: "2 powi (k - 1) \<le> (of_int a :: rat)" "(of_int a :: rat) < 2 powi k"
    "2 powi (l - 1) \<le> (of_int b :: rat)" "(of_int b :: rat) < 2 powi l"
    using bit_count_bounds [OF a] bit_count_bounds [OF b] by (simp_all add: k_def l_def)
  have "2 powi (e - 1) * of_int b \<le> 2 powi (e - 1) * (2::rat) powi l" using ab by (intro mult_left_mono) simp_all
  also have "\<dots> = 2 powi (k - 1)" by (simp add: e_def power_int_add [symmetric])
  finally have lo: "2 powi (e - 1) \<le> x" using ab(1) b by (simp add: x pos_le_divide_eq)
  have "(2::rat) powi k = 2 powi (e + 1) * 2 powi (l - 1)" by (simp add: e_def power_int_add [symmetric])
  also have "\<dots> \<le> 2 powi (e + 1) * of_int b" using ab by (intro mult_left_mono) simp_all
  finally have hi: "x < 2 powi (e + 1)" using ab(2) b by (simp add: x pos_divide_less_eq)
  show "2 powi ilog2 x \<le> x" "x < 2 powi (ilog2 x + 1)"
    using lo hi by (simp_all add: ilog2_def q Let_def e_def k_def l_def)
qed

lemma round_even_error: "\<bar>of_int (round_even y) - y\<bar> \<le> 1 / 2"
  using of_int_floor_le [of y] floor_correct [of y] by (auto simp: round_even_def Let_def abs_le_iff)

lemma round_double_error: "\<bar>round_double x - x\<bar> \<le> \<bar>x\<bar> / 2 ^ 53"
proof (cases "x = 0")
  case False
  define u :: rat where "u = 2 powi (ilog2 \<bar>x\<bar> - 52)"
  have u: "0 < u" "u * 2 ^ 52 \<le> \<bar>x\<bar>" using ilog2_bounds(1) [of "\<bar>x\<bar>"] False by (simp_all add: u_def power_int_diff)
  have "round_double x - x = (of_int (round_even (x / u)) - x / u) * u"
    using u(1) False by (simp add: round_double_def u_def [symmetric] left_diff_distrib)
  then have "\<bar>round_double x - x\<bar> = \<bar>of_int (round_even (x / u)) - x / u\<bar> * u" using u(1) by (simp add: abs_mult)
  also have "\<dots> \<le> 1 / 2 * u" using u(1) round_even_error by (intro mult_right_mono) simp_all
  also have "\<dots> \<le> \<bar>x\<bar> / 2 ^ 53" using u(2) by simp
  finally show ?thesis .
qed (simp add: round_double_def)

section \<open>Workspaces as fractions\<close>

text \<open>The value of cells, the first one counting in units; cells may have any sign and size.\<close>

primrec fval :: "int list \<Rightarrow> rat" where
  "fval [] = 0"
| "fval (c # cs) = of_int c + fval cs / 10000"

lemma fval_append: "fval (xs @ ys) = fval xs + fval ys / 10000 ^ length xs"
  by (induction xs) (simp_all add: field_simps)

lemma fval_bval: "fval xs * 10000 ^ length xs = 10000 * of_int (bval NBASE xs)"
  by (induction xs) (simp_all add: algebra_simps)

lemma fval_bound: "(\<And>c. c \<in> set cs \<Longrightarrow> \<bar>of_int c\<bar> \<le> m) \<Longrightarrow> 0 \<le> m \<Longrightarrow> \<bar>fval cs\<bar> \<le> m * (10000 / 9999)"
proof (induction cs)
  case (Cons c cs)
  then have "\<bar>of_int c\<bar> \<le> m" "\<bar>fval cs\<bar> \<le> m * (10000 / 9999)" by simp_all
  moreover have "\<bar>of_int c + fval cs / 10000\<bar> \<le> \<bar>of_int c\<bar> + \<bar>fval cs\<bar> / 10000"
    using abs_triangle_ineq [of "of_int c" "fval cs / 10000"] by simp
  ultimately show ?case by simp
qed simp

lemma fval_replicate_0 [simp]: "fval (replicate n 0) = 0"
  by (induction n) simp_all

lemma fval_nonneg: "digits_ok NBASE ds \<Longrightarrow> 0 \<le> fval ds"
  by (induction ds) simp_all

lemma fval_less: "digits_ok NBASE ds \<Longrightarrow> fval ds < 10000"
proof (induction ds)
  case (Cons d ds)
  then have "d \<le> 9999" "fval ds < 10000" by simp_all
  then have "of_int d \<le> (of_int 9999 :: rat)" by (simp only: of_int_le_iff)
  with \<open>fval ds < 10000\<close> show ?case by simp
qed simp

lemma fval_ge: "digits_ok NBASE (d # ds) \<Longrightarrow> of_int d \<le> fval (d # ds)"
  using fval_nonneg [of ds] by simp

lemma fval_take_drop: "fval xs = fval (take k xs) + fval (drop k xs) / 10000 ^ length (take k xs)"
  by (subst append_take_drop_id [of k, symmetric]) (rule fval_append)

text \<open>What the first cells leave out.\<close>

lemma fval_take_digits:
  assumes "digits_ok NBASE ds" "k \<noteq> 0"
  shows "fval (take k ds) \<le> fval ds" "fval ds \<le> fval (take k ds) + 10000 / 10000 ^ k"
proof -
  have d: "0 \<le> fval (drop k ds)" "fval (drop k ds) < 10000" using assms by (simp_all add: fval_nonneg fval_less)
  have "fval (take k ds) \<le> fval ds \<and> fval ds \<le> fval (take k ds) + 10000 / 10000 ^ k"
  proof (cases "length ds \<le> k")
    case False
    then have "fval ds = fval (take k ds) + fval (drop k ds) / 10000 ^ k" using fval_take_drop [of ds k] by (simp add: min_def)
    with d show ?thesis by (simp add: divide_right_mono)
  qed simp
  then show "fval (take k ds) \<le> fval ds" "fval ds \<le> fval (take k ds) + 10000 / 10000 ^ k" by simp_all
qed

section \<open>The estimate of a quotient digit\<close>

locale double_arith =
  fixes fl :: "rat \<Rightarrow> rat"
  assumes fl_error: "\<bar>fl x - x\<bar> \<le> \<bar>x\<bar> / 2 ^ 53"
begin

lemma fl_error_le: "\<bar>x\<bar> \<le> m \<Longrightarrow> \<bar>fl x - x\<bar> \<le> m / 2 ^ 53"
  by (rule order_trans [OF fl_error]) (simp add: divide_right_mono)

lemma fl_step:
  assumes "\<bar>f - e\<bar> \<le> d" "\<bar>e\<bar> \<le> m" "d \<le> m" "\<bar>x\<bar> \<le> m'"
  shows "\<bar>fl (fl (f * 10000) + x) - (e * 10000 + x)\<bar> \<le> d * 10000 + (60000 * m + m') / 2 ^ 53"
    and "\<bar>fl (f * 10000) - e * 10000\<bar> \<le> d * 10000 + (60000 * m + m') / 2 ^ 53"
proof -
  define v v' where "v = m / 2 ^ 53" and "v' = m' / 2 ^ 53"
  have b: "- d \<le> f - e" "f - e \<le> d" "- m \<le> e" "e \<le> m" "- m' \<le> x" "x \<le> m'" using assms by linarith+
  then have v: "0 \<le> v" "0 \<le> v'" "v \<le> m" by (simp_all add: v_def v'_def)
  have eq: "(60000 * m + m') / 2 ^ 53 = 60000 * v + v'" "20000 * m / 2 ^ 53 = 20000 * v"
    "(40000 * m + m') / 2 ^ 53 = 40000 * v + v'"
    by (simp_all add: v_def v'_def add_divide_distrib)
  have "\<bar>f * 10000\<bar> \<le> 20000 * m" using b assms(3) by (intro abs_leI) linarith+
  then have "\<bar>fl (f * 10000) - f * 10000\<bar> \<le> 20000 * v" unfolding eq(2) [symmetric] by (rule fl_error_le)
  then have a: "- (20000 * v) \<le> fl (f * 10000) - f * 10000" "fl (f * 10000) - f * 10000 \<le> 20000 * v" by linarith+
  show "\<bar>fl (f * 10000) - e * 10000\<bar> \<le> d * 10000 + (60000 * m + m') / 2 ^ 53"
    unfolding eq using a b v by (intro abs_leI) linarith+
  have "\<bar>fl (f * 10000) + x\<bar> \<le> 40000 * m + m'" using a b v assms(3) by (intro abs_leI) linarith+
  then have "\<bar>fl (fl (f * 10000) + x) - (fl (f * 10000) + x)\<bar> \<le> 40000 * v + v'"
    unfolding eq(3) [symmetric] by (rule fl_error_le)
  then have "- (40000 * v + v') \<le> fl (fl (f * 10000) + x) - (fl (f * 10000) + x)"
    "fl (fl (f * 10000) + x) - (fl (f * 10000) + x) \<le> 40000 * v + v'" by linarith+
  then show "\<bar>fl (fl (f * 10000) + x) - (e * 10000 + x)\<bar> \<le> d * 10000 + (60000 * m + m') / 2 ^ 53"
    unfolding eq using a b v by (intro abs_leI) linarith+
qed

end

interpretation ieee: double_arith round_double
  by unfold_locales (rule round_double_error)

text \<open>Cells behind the end count as zero.\<close>

definition cell :: "int list \<Rightarrow> nat \<Rightarrow> rat" where
  "cell xs i = (if i < length xs then of_int (xs ! i) else 0)"

lemma fval_drop: "fval (drop i xs) = cell xs i + fval (drop (Suc i) xs) / 10000"
  by (cases "i < length xs") (simp_all add: cell_def Cons_nth_drop_Suc [symmetric])

lemma fval_take_cell: "fval (take (Suc k) (drop i xs)) = cell xs i + fval (take k (drop (Suc i) xs)) / 10000"
  by (cases "i < length xs") (simp_all add: cell_def Cons_nth_drop_Suc [symmetric])

lemma fval_four: "fval (take 4 (drop i xs)) * 1000000000000 =
    ((cell xs i * 10000 + cell xs (i + 1)) * 10000 + cell xs (i + 2)) * 10000 + cell xs (i + 3)"
proof -
  have "(4::nat) = Suc (Suc (Suc (Suc 0)))" by simp
  then show ?thesis by (simp only: fval_take_cell) (simp add: field_simps numeral_eq_Suc)
qed

context double_arith
begin

lemma fl_four_error:
  assumes i: "i < length xs" and a: "\<bar>cell xs i\<bar> \<le> a" and c: "\<And>j. i < j \<Longrightarrow> \<bar>cell xs j\<bar> \<le> a * 10000"
  shows "\<bar>fl_four fl xs i - fval (take 4 (drop i xs)) * 1000000000000\<bar> \<le> a / 100"
proof -
  define g where "g f j = (let f = fl (f * 10000) in if j < length xs then fl (f + of_int (xs ! j)) else f)" for f j
  have g: "\<bar>g f j - (e * 10000 + cell xs j)\<bar> \<le> d * 10000 + (60000 * m + a * 10000) / 2 ^ 53"
    if "\<bar>f - e\<bar> \<le> d" "\<bar>e\<bar> \<le> m" "d \<le> m" "i < j" for f e d m j
    using fl_step [OF that(1-3) c [OF that(4)]] by (simp add: g_def cell_def split: if_splits)
  define e1 e2 where "e1 = cell xs i * 10000 + cell xs (i + 1)" and "e2 = e1 * 10000 + cell xs (i + 2)"
  define d1 d2 where "d1 = (60000 * a + a * 10000) / 2 ^ 53" and "d2 = d1 * 10000 + (60000 * (20000 * a) + a * 10000) / 2 ^ 53"
  have a0: "0 \<le> a" using a by linarith
  have 0: "cell xs i = of_int (xs ! i)" using i by (simp add: cell_def)
  have 1: "\<bar>g (cell xs i) (i + 1) - e1\<bar> \<le> d1"
    using g [of "cell xs i" "cell xs i" 0 a "i + 1"] a a0 by (simp add: e1_def d1_def)
  have d1: "0 \<le> d1" "d1 \<le> a" using a0 by (simp_all add: d1_def)
  have m1: "\<bar>e1\<bar> \<le> 20000 * a" using a c [of "i + 1"] unfolding e1_def by (intro abs_leI) linarith+
  have 2: "\<bar>g (g (cell xs i) (i + 1)) (i + 2) - e2\<bar> \<le> d2"
    using g [OF 1 m1, of "i + 2"] d1 a0 by (simp add: e2_def d2_def)
  have d2: "d2 \<le> a" using a0 by (simp add: d2_def d1_def)
  have m2: "\<bar>e2\<bar> \<le> 300000000 * a" using m1 c [of "i + 2"] a0 unfolding e2_def by (intro abs_leI) linarith+
  have 3: "\<bar>g (g (g (cell xs i) (i + 1)) (i + 2)) (i + 3) - (e2 * 10000 + cell xs (i + 3))\<bar>
      \<le> d2 * 10000 + (60000 * (300000000 * a) + a * 10000) / 2 ^ 53"
    using g [OF 2 m2, of "i + 3"] d2 a0 by simp
  have "fl_four fl xs i = g (g (g (cell xs i) (i + 1)) (i + 2)) (i + 3)"
    by (simp add: fl_four_def numeral_3_eq_3 0 g_def Let_def numeral_eq_Suc)
  moreover have "fval (take 4 (drop i xs)) * 1000000000000 = e2 * 10000 + cell xs (i + 3)"
    by (simp only: fval_four e2_def e1_def)
  moreover have "d2 * 10000 + (60000 * (300000000 * a) + a * 10000) / 2 ^ 53 \<le> a / 100" using a0 by (simp add: d2_def d1_def)
  ultimately show ?thesis using 3 by linarith
qed

end

text \<open>
  \<open>cell_limit\<close> is what the test of \<open>maxdiv\<close> leaves for a cell; \<open>leads ds\<close> holds for the digits
  of a divisor without leading zero.
\<close>

abbreviation cell_limit :: int where "cell_limit \<equiv> 2147265252"

definition leads :: "int list \<Rightarrow> bool" where
  "leads ds \<longleftrightarrow> digits_ok NBASE ds \<and> ds \<noteq> [] \<and> hd ds \<noteq> 0"

lemma leads_fval: "leads ds \<Longrightarrow> 1 \<le> fval ds \<and> fval ds < 10000"
proof -
  assume l: "leads ds"
  then obtain d ds' where ds: "ds = d # ds'" "digits_ok NBASE (d # ds')" "1 \<le> d" by (cases ds) (auto simp: leads_def)
  then have "(1::rat) \<le> of_int d" by simp
  then show ?thesis using fval_ge [OF ds(2)] fval_less [OF ds(2)] unfolding ds(1) by linarith
qed

lemma cell_bound: "(\<And>c. c \<in> set xs \<Longrightarrow> \<bar>c\<bar> \<le> m) \<Longrightarrow> 0 \<le> m \<Longrightarrow> \<bar>cell xs i\<bar> \<le> of_int m"
  by (simp add: cell_def of_int_abs [symmetric] del: of_int_abs)

lemma cells_above: "(\<And>c. c \<in> set (drop (Suc q) xs) \<Longrightarrow> \<bar>c\<bar> \<le> m) \<Longrightarrow> 0 \<le> m \<Longrightarrow> q < j \<Longrightarrow> \<bar>cell xs j\<bar> \<le> of_int m"
proof -
  assume m: "\<And>c. c \<in> set (drop (Suc q) xs) \<Longrightarrow> \<bar>c\<bar> \<le> m" "0 \<le> m" and j: "q < j"
  then have "cell xs j = cell (drop (Suc q) xs) (j - Suc q)" by (auto simp: cell_def)
  then show ?thesis using cell_bound [of "drop (Suc q) xs" m, OF m] by simp
qed

lemma rest_bound:
  assumes "\<And>c. c \<in> set cs \<Longrightarrow> \<bar>c\<bar> \<le> cell_limit"
  shows "\<bar>fval cs\<bar> \<le> 2147500000"
proof -
  have "\<bar>fval cs\<bar> \<le> 2147265252 * (10000 / 9999)"
  proof (rule fval_bound)
    show "\<bar>of_int c\<bar> \<le> (2147265252::rat)" if "c \<in> set cs" for c
      using assms [OF that] of_int_le_iff [of "\<bar>c\<bar>" cell_limit, where ?'a = rat] by simp
  qed simp
  then show ?thesis by simp
qed

lemma top_cell:
  assumes "\<bar>fval (drop q xs)\<bar> \<le> x" "\<And>c. c \<in> set (drop (Suc q) xs) \<Longrightarrow> \<bar>c\<bar> \<le> cell_limit"
  shows "\<bar>cell xs q\<bar> \<le> x + 214750"
proof -
  have "\<bar>fval (drop (Suc q) xs)\<bar> \<le> 2147500000" using assms(2) by (rule rest_bound)
  then show ?thesis using assms(1) fval_drop [of q xs] unfolding abs_le_iff by linarith
qed

context double_arith
begin

lemma quot_estimate:
  assumes ds: "leads ds" and q: "q < length xs" and x: "\<bar>fval (drop q xs)\<bar> \<le> 20300 * fval ds"
    and c: "\<And>c. c \<in> set (drop (Suc q) xs) \<Longrightarrow> \<bar>c\<bar> \<le> cell_limit"
  shows "\<bar>fl (fl_four fl xs q * fl (1 / fl_four fl ds 0)) - fval (drop q xs) / fval ds\<bar> \<le> 1 / 1000"
proof -
  define X W where "X = fval (drop q xs)" and "W = fval ds"
  define F G where "F = fl_four fl xs q" and "G = fl_four fl ds 0"
  have W: "1 \<le> W" "W < 10000" using leads_fval [OF ds] by (simp_all add: W_def)
  have dd: "digits_ok NBASE ds" "ds \<noteq> []" using ds by (simp_all add: leads_def)
  have "\<bar>X\<bar> \<le> 20300 * 10000" using x W by (simp add: X_def W_def)
  then have top: "\<bar>cell xs q\<bar> \<le> 300000000" using top_cell [of q xs 203000000, OF _ c] by (simp add: X_def)
  have F: "\<bar>F - X * 1000000000000\<bar> \<le> 4000000"
  proof -
    have "\<bar>cell xs j\<bar> \<le> 300000000 * 10000" if "q < j" for j
    proof -
      have "\<bar>cell xs j\<bar> \<le> of_int cell_limit" using c that by (intro cells_above [of q]) simp_all
      then show ?thesis by simp
    qed
    with top have f: "\<bar>F - fval (take 4 (drop q xs)) * 1000000000000\<bar> \<le> 3000000"
      using fl_four_error [OF q, of 300000000] by (simp add: F_def)
    define R where "R = fval (drop 4 (drop q xs))"
    have "\<bar>R\<bar> \<le> 2147500000"
      unfolding R_def by (rule rest_bound, rule c, rule set_drop_subset_set_drop [of "Suc q" "4 + q", THEN subsetD]) simp_all
    moreover have "X = fval (take 4 (drop q xs)) + R / 10000 ^ length (take 4 (drop q xs))"
      unfolding X_def R_def by (rule fval_take_drop)
    moreover have "R = 0 \<or> length (take 4 (drop q xs)) = 4" by (cases "4 \<le> length (drop q xs)") (simp_all add: R_def)
    ultimately have "\<bar>X - fval (take 4 (drop q xs))\<bar> \<le> 1 / 1000000" by (auto simp: abs_le_iff)
    with f show ?thesis unfolding abs_le_iff by linarith
  qed
  have G: "\<bar>G - W * 1000000000000\<bar> \<le> 101"
  proof -
    have "\<bar>cell ds j\<bar> \<le> of_int 9999" for j using dd by (intro cell_bound) (auto simp: digits_ok_def)
    then have "\<bar>cell ds j\<bar> \<le> 10000" "\<bar>cell ds j\<bar> \<le> 10000 * 10000" for j
      by (rule order_trans, simp)+
    then have f: "\<bar>G - fval (take 4 ds) * 1000000000000\<bar> \<le> 100"
      using fl_four_error [of 0 ds 10000] dd(2) by (simp add: G_def)
    have "fval (take 4 ds) \<le> W" "W \<le> fval (take 4 ds) + 1 / 1000000000000"
      using fval_take_digits [OF dd(1), of 4] by (simp_all add: W_def)
    with f show ?thesis unfolding abs_le_iff by linarith
  qed
  define k r where "k = X / W" and "r = F / G"
  have k: "\<bar>k\<bar> \<le> 20300" "X = k * W" using x W by (simp_all add: k_def X_def [symmetric] W_def [symmetric] abs_divide pos_divide_le_eq)
  have G0: "999999999000 \<le> G" using G W unfolding abs_le_iff by linarith
  have "\<bar>r - k\<bar> \<le> 1 / 10000"
  proof -
    have "(r - k) * G = (F - X * 1000000000000) - k * (G - W * 1000000000000)"
      using G0 by (simp add: r_def k(2) algebra_simps)
    moreover have "\<bar>k * (G - W * 1000000000000)\<bar> \<le> 20300 * 101" unfolding abs_mult using k(1) G by (intro mult_mono) simp_all
    ultimately have "\<bar>(r - k) * G\<bar> \<le> 7000000" using F unfolding abs_le_iff by linarith
    then have "\<bar>r - k\<bar> * 999999999000 \<le> 7000000"
      using mult_left_mono [OF G0, of "\<bar>r - k\<bar>"] G0 by (simp add: abs_mult)
    then show ?thesis by simp
  qed
  moreover have "\<bar>F * fl (1 / G) - r\<bar> \<le> 1 / 10000"
  proof -
    have "F * fl (1 / G) - r = F * (fl (1 / G) - 1 / G)" by (simp add: r_def right_diff_distrib)
    then have "\<bar>F * fl (1 / G) - r\<bar> = \<bar>F\<bar> * \<bar>fl (1 / G) - 1 / G\<bar>" by (simp add: abs_mult)
    also have "\<dots> \<le> \<bar>F\<bar> * (\<bar>1 / G\<bar> / 2 ^ 53)" by (intro mult_left_mono fl_error) simp
    also have "\<dots> = \<bar>r\<bar> / 2 ^ 53" by (simp add: r_def abs_divide)
    also have "\<bar>r\<bar> \<le> 30000" using \<open>\<bar>r - k\<bar> \<le> 1 / 10000\<close> k(1) unfolding abs_le_iff by linarith
    then have "\<bar>r\<bar> / 2 ^ 53 \<le> 1 / 10000" by simp
    finally show ?thesis .
  qed
  ultimately have p: "\<bar>F * fl (1 / G) - k\<bar> \<le> 2 / 10000" unfolding abs_le_iff by linarith
  then have "\<bar>F * fl (1 / G)\<bar> \<le> 30000" using k(1) unfolding abs_le_iff by linarith
  then have "\<bar>fl (F * fl (1 / G)) - F * fl (1 / G)\<bar> \<le> 30000 / 2 ^ 53" by (rule fl_error_le)
  also have "\<dots> \<le> 1 / 10000" by simp
  finally have "\<bar>fl (F * fl (1 / G)) - k\<bar> \<le> 1 / 1000" using p by linarith
  then show ?thesis by (simp only: F_def G_def k_def X_def W_def)
qed

end

lemma quot_digit_estimate:
  fixes f y :: rat
  assumes "\<bar>f - y\<bar> \<le> 1 / 1000" "\<bar>y\<bar> \<le> 20300"
    and "d = (if f \<ge> 0 then i32 \<lfloor>f\<rfloor> else i32 (i32 (- \<lfloor>- f\<rfloor>) - 1))"
  shows "- (1 / 1000) \<le> y - of_int d" "y - of_int d \<le> 1 + 1 / 1000" "\<bar>d\<bar> \<le> 20302"
    "of_int \<bar>d\<bar> \<le> \<bar>y\<bar> + 2"
proof -
  define e where "e = (if f \<ge> 0 then \<lfloor>f\<rfloor> else - \<lfloor>- f\<rfloor> - 1)"
  have e: "of_int e \<le> f" "f \<le> of_int e + 1"
    using floor_correct [of f] floor_correct [of "- f"] by (simp_all add: e_def) linarith+
  have y: "y - 1 / 1000 \<le> f" "f \<le> y + 1 / 1000" "- 20300 \<le> y" "y \<le> 20300" using assms(1,2) by linarith+
  have "of_int e \<le> (of_int 20301 :: rat)" "of_int (- 20302) \<le> (of_int e :: rat)" using e y by simp_all
  then have b: "- 20302 \<le> e" "e \<le> 20301" by (simp_all only: of_int_le_iff)
  have "d = e" using b unfolding assms(3) e_def by (auto simp: i32_id)
  with e y b show "- (1 / 1000) \<le> y - of_int d" "y - of_int d \<le> 1 + 1 / 1000" "\<bar>d\<bar> \<le> 20302"
    "of_int \<bar>d\<bar> \<le> \<bar>y\<bar> + 2" by simp_all
qed

section \<open>The carry propagation\<close>

lemma carry_cell:
  assumes "\<bar>c\<bar> \<le> cell_limit" "\<bar>k\<bar> \<le> 214748"
  shows "carry_split (i32 (c + k)) = ((c + k) div NBASE, (c + k) mod NBASE)"
    and "\<bar>(c + k) div NBASE\<bar> \<le> 214748"
proof -
  define x where "x = c + k"
  have x: "\<bar>x\<bar> \<le> 2147480000" using assms by (simp add: x_def)
  then have i: "i32 x = x" by (intro i32_id) simp_all
  have q: "\<bar>x div NBASE\<bar> \<le> 214748" using x by linarith
  then show "\<bar>(c + k) div NBASE\<bar> \<le> 214748" by (simp add: x_def)
  have neg: "- ((- x - 1) sdiv NBASE) - 1 = x div NBASE" if "x < 0"
  proof -
    have "(- x - 1) sdiv NBASE = (- x - 1) div NBASE" using that by (intro sdiv_nonneg) simp_all
    then show ?thesis by linarith
  qed
  have pos: "x sdiv NBASE = x div NBASE" if "\<not> x < 0" using that by (intro sdiv_nonneg) simp_all
  have m: "i32 (x - i32 (x div NBASE * NBASE)) = x mod NBASE"
  proof -
    have "i32 (x div NBASE * NBASE) = x div NBASE * NBASE" using q by (intro i32_id) simp_all
    moreover have "x - x div NBASE * NBASE = x mod NBASE" by (simp add: minus_div_mult_eq_mod)
    moreover have "i32 (x mod NBASE) = x mod NBASE" by (intro i32_id) (use pos_mod_bound [of NBASE x] in simp_all)
    ultimately show ?thesis by simp
  qed
  show "carry_split (i32 (c + k)) = ((c + k) div NBASE, (c + k) mod NBASE)"
    using neg pos m by (auto simp: carry_split_def Let_def i x_def [symmetric])
qed

lemma div_carry_value:
  "div_carry lo k c xs = (xs', c') \<Longrightarrow> lo + k \<le> length xs \<Longrightarrow>
   (\<And>x. x \<in> set (take k (drop lo xs)) \<Longrightarrow> \<bar>x\<bar> \<le> cell_limit) \<Longrightarrow> \<bar>c\<bar> \<le> 214748 \<Longrightarrow>
   length xs' = length xs \<and> take lo xs' = take lo xs \<and> drop (lo + k) xs' = drop (lo + k) xs \<and>
   digits_ok NBASE (take k (drop lo xs')) \<and> \<bar>c'\<bar> \<le> 214748 \<and>
   bval NBASE (take k (drop lo xs')) + c' * NBASE ^ k = bval NBASE (take k (drop lo xs)) + c"
proof (induction k arbitrary: c xs)
  case (Suc k)
  have i: "lo + k < length xs" using Suc.prems(2) by simp
  note up = window_update [OF i]
  define t where "t = xs ! (lo + k) + c"
  define ys where "ys = xs[lo + k := t mod NBASE]"
  have x: "\<bar>xs ! (lo + k)\<bar> \<le> cell_limit" using Suc.prems(3) up(3) by simp
  note cc = carry_cell [OF x Suc.prems(4), folded t_def]
  have rec: "div_carry lo k (t div NBASE) ys = (xs', c')"
    using Suc.prems(1) by (simp add: cc(1) t_def [symmetric] ys_def)
  have low: "\<bar>x\<bar> \<le> cell_limit" if "x \<in> set (take k (drop lo ys))" for x
    using that Suc.prems(3) [of x] up by (simp add: ys_def)
  have "lo + k \<le> length ys" using i by (simp add: ys_def)
  from Suc.IH [OF rec this low cc(2)]
  have IH: "length xs' = length xs" "take lo xs' = take lo xs" "drop (lo + k) xs' = drop (lo + k) ys"
    "digits_ok NBASE (take k (drop lo xs'))" "\<bar>c'\<bar> \<le> 214748"
    "bval NBASE (take k (drop lo xs')) + c' * NBASE ^ k = bval NBASE (take k (drop lo xs)) + t div NBASE"
    by (simp_all add: ys_def up)
  note wa = window_after [OF i IH(1) IH(3) [unfolded ys_def]]
  have "bval NBASE (take (Suc k) (drop lo xs')) + c' * NBASE ^ Suc k
      = (bval NBASE (take k (drop lo xs')) + c' * NBASE ^ k) * NBASE + t mod NBASE"
    by (simp add: wa(1) algebra_simps)
  also have "\<dots> = bval NBASE (take k (drop lo xs)) * NBASE + t"
    unfolding IH(6) using div_mult_mod_eq [of t NBASE] by (simp add: distrib_right)
  also have "\<dots> = bval NBASE (take (Suc k) (drop lo xs)) + c" by (simp add: up(3) t_def)
  finally show ?case using IH wa by simp
qed simp

lemma fval_carry:
  assumes "length ds = length cs" "cs \<noteq> []" "bval NBASE ds + k * NBASE ^ length cs = bval NBASE cs"
  shows "fval ds = fval cs - 10000 * of_int k"
proof -
  have "10000 * of_int (bval NBASE ds + k * NBASE ^ length cs) = (10000 * of_int (bval NBASE cs) :: rat)" unfolding assms(3) ..
  then have "fval ds * 10000 ^ length cs + 10000 * of_int k * 10000 ^ length cs = fval cs * 10000 ^ length cs"
    using fval_bval [of ds] fval_bval [of cs] assms(1) by (simp add: distrib_left)
  then have "(fval ds + 10000 * of_int k) * 10000 ^ length cs = fval cs * 10000 ^ length cs" by (simp add: distrib_right)
  then have "fval ds + 10000 * of_int k = fval cs" by simp
  then show ?thesis by simp
qed

section \<open>Subtracting a multiple of the divisor\<close>

fun sub_list :: "int \<Rightarrow> int list \<Rightarrow> int list \<Rightarrow> int list" where
  "sub_list q [] cs = cs"
| "sub_list q (d # ds) cs = (hd cs - q * d) # sub_list q ds (tl cs)"

lemma sub_list_fval: "length ds \<le> length cs \<Longrightarrow> fval (sub_list q ds cs) = fval cs - of_int q * fval ds"
proof (induction q ds cs rule: sub_list.induct)
  case (2 q d ds cs)
  then show ?case by (cases cs) (simp_all add: field_simps)
qed simp

lemma sub_list_length: "length ds \<le> length cs \<Longrightarrow> length (sub_list q ds cs) = length cs"
  by (induction q ds cs rule: sub_list.induct) auto

lemma digit_multiple: "0 \<le> d \<Longrightarrow> d < NBASE \<Longrightarrow> \<bar>q * d\<bar> \<le> \<bar>q\<bar> * 9999" for q d :: int
  unfolding abs_mult by (intro mult_left_mono) simp_all

lemma sub_list_bound:
  "x \<in> set (sub_list q ds cs) \<Longrightarrow> length ds \<le> length cs \<Longrightarrow> digits_ok NBASE ds \<Longrightarrow>
   (\<And>c. c \<in> set cs \<Longrightarrow> \<bar>c\<bar> \<le> m) \<Longrightarrow> \<bar>x\<bar> \<le> m + \<bar>q\<bar> * 9999"
proof (induction q ds cs rule: sub_list.induct)
  case (1 q cs)
  then have "\<bar>x\<bar> \<le> m" by simp
  then show ?case by linarith
next
  case (2 q d ds cs)
  then obtain c cs' where cs: "cs = c # cs'" by (cases cs) auto
  have "\<bar>c\<bar> \<le> m" using 2(5) cs by simp
  moreover have "\<bar>q * d\<bar> \<le> \<bar>q\<bar> * 9999" using 2(4) by (intro digit_multiple) simp_all
  ultimately have "\<bar>c - q * d\<bar> \<le> m + \<bar>q\<bar> * 9999" by linarith
  then show ?case using 2 cs by auto
qed

lemma sub_multiple_list:
  "i + length ds \<le> length xs \<Longrightarrow> digits_ok NBASE ds \<Longrightarrow> \<bar>q\<bar> \<le> 20302 \<Longrightarrow>
   (\<And>c. c \<in> set (take (length ds) (drop i xs)) \<Longrightarrow> \<bar>c\<bar> + \<bar>q\<bar> * 9999 \<le> 2147483647) \<Longrightarrow>
   length (sub_multiple q ds i xs) = length xs \<and> take i (sub_multiple q ds i xs) = take i xs \<and>
   drop i (sub_multiple q ds i xs) = sub_list q ds (drop i xs)"
proof (induction q ds i xs rule: sub_multiple.induct)
  case (2 q d ds i xs)
  have i: "i < length xs" using 2(2) by simp
  have dr: "drop i xs = xs ! i # drop (Suc i) xs" using i by (simp add: Cons_nth_drop_Suc)
  have p: "\<bar>q * d\<bar> \<le> \<bar>q\<bar> * 9999" using 2(3) by (intro digit_multiple) simp_all
  have "\<bar>xs ! i\<bar> + \<bar>q\<bar> * 9999 \<le> 2147483647" using 2(5) dr by simp
  then have x: "i32 (xs ! i - i32 (q * d)) = xs ! i - q * d" using p 2(4) by (simp add: i32_id)
  define ys where "ys = xs[i := xs ! i - q * d]"
  have "length (sub_multiple q ds (i + 1) ys) = length ys \<and> take (i + 1) (sub_multiple q ds (i + 1) ys) = take (i + 1) ys \<and>
      drop (i + 1) (sub_multiple q ds (i + 1) ys) = sub_list q ds (drop (i + 1) ys)"
    using 2(1) [unfolded x] 2(2-5) dr by (simp add: ys_def)
  then have r: "length (sub_multiple q ds (i + 1) ys) = length xs" "take (i + 1) (sub_multiple q ds (i + 1) ys) = take (i + 1) ys"
      "drop (i + 1) (sub_multiple q ds (i + 1) ys) = sub_list q ds (drop (Suc i) xs)"
    by (simp_all add: ys_def)
  have "sub_multiple q ds (i + 1) ys ! i = xs ! i - q * d"
    using r(2) i by (metis Suc_eq_plus1 lessI nth_list_update_eq nth_take ys_def)
  then have "drop i (sub_multiple q ds (i + 1) ys) = (xs ! i - q * d) # sub_list q ds (drop (Suc i) xs)"
    using r(1,3) i by (simp add: Cons_nth_drop_Suc [symmetric])
  moreover have "take i (sub_multiple q ds (i + 1) ys) = take i xs"
    using arg_cong [OF r(2), of "take i"] by (simp add: ys_def min_def)
  ultimately show ?case using r(1) by (simp add: x ys_def [symmetric] dr)
qed simp

section \<open>A round of the main loop\<close>

definition slack :: "nat \<Rightarrow> nat \<Rightarrow> rat" where
  "slack n qi = (if qi < n then 10100 else 20300)"

definition fast_inv :: "int list \<Rightarrow> nat \<Rightarrow> nat \<Rightarrow> int list \<Rightarrow> int \<Rightarrow> bool" where
  "fast_inv ds2 n qi xs maxdiv \<longleftrightarrow>
     length xs = n + 1 \<and> qi \<le> n \<and> 1 \<le> maxdiv \<and> maxdiv \<le> 214748 \<and>
     (\<forall>c \<in> set (drop (Suc qi) xs). \<bar>c\<bar> \<le> maxdiv * 9999) \<and>
     \<bar>fval (drop qi xs)\<bar> \<le> slack n qi * fval ds2 \<and> (\<forall>c \<in> set (take qi xs). \<bar>c\<bar> \<le> 20302)"

lemma fast_inv_cells: "fast_inv ds2 n qi xs maxdiv \<Longrightarrow> c \<in> set (drop (Suc qi) xs) \<Longrightarrow> \<bar>c\<bar> \<le> cell_limit"
  unfolding fast_inv_def by (elim conjE, drule (1) bspec) linarith

lemma maxdiv_limit: "(INT_MAX - INT_MAX sdiv NBASE - 1) sdiv (NBASE - 1) = 214748"
  by (simp add: sdiv_nonneg)

definition is_estimate :: "int list \<Rightarrow> int list \<Rightarrow> int \<Rightarrow> bool" where
  "is_estimate ds2 cs q \<longleftrightarrow>
     \<bar>fval cs - of_int q * fval ds2\<bar> \<le> (1 + 1 / 1000) * fval ds2 \<and> \<bar>q\<bar> \<le> 20302 \<and>
     of_int \<bar>q\<bar> * fval ds2 \<le> \<bar>fval cs\<bar> + 2 * fval ds2"

context double_arith
begin

lemma quot_digit_is:
  assumes "leads ds2" "qi < length xs" "\<bar>fval (drop qi xs)\<bar> \<le> slack n qi * fval ds2"
    and "\<And>c. c \<in> set (drop (Suc qi) xs) \<Longrightarrow> \<bar>c\<bar> \<le> cell_limit"
  shows "is_estimate ds2 (drop qi xs) (quot_digit fl (fl (1 / fl_four fl ds2 0)) xs qi)"
proof -
  define X W where "X = fval (drop qi xs)" and "W = fval ds2"
  define q where "q = quot_digit fl (fl (1 / fl_four fl ds2 0)) xs qi"
  have W: "1 \<le> W" using leads_fval [OF assms(1)] by (simp add: W_def)
  have "slack n qi * W \<le> 20300 * W" using W by (intro mult_right_mono) (simp_all add: slack_def)
  then have X: "\<bar>X\<bar> \<le> 20300 * W" using assms(3) by (simp add: X_def W_def)
  define y where "y = X / W"
  have y: "X = y * W" "\<bar>y\<bar> \<le> 20300" using X W by (simp_all add: y_def abs_divide pos_divide_le_eq)
  have "\<bar>fl (fl_four fl xs qi * fl (1 / fl_four fl ds2 0)) - y\<bar> \<le> 1 / 1000"
    using quot_estimate [OF assms(1,2) X [unfolded X_def W_def] assms(4)] by (simp add: y_def X_def W_def)
  note e = quot_digit_estimate [OF this y(2), of q]
  have q: "- (1 / 1000) \<le> y - of_int q" "y - of_int q \<le> 1 + 1 / 1000" "\<bar>q\<bar> \<le> 20302" "of_int \<bar>q\<bar> \<le> \<bar>y\<bar> + 2"
    using e by (simp_all add: q_def quot_digit_def Let_def)
  have "X - of_int q * W = (y - of_int q) * W" by (simp add: y(1) left_diff_distrib)
  moreover have "\<bar>y - of_int q\<bar> \<le> 1 + 1 / 1000" using q(1,2) by (intro abs_leI) linarith+
  then have "\<bar>y - of_int q\<bar> * W \<le> (1 + 1 / 1000) * W" using W by (intro mult_right_mono) simp_all
  ultimately have "\<bar>X - of_int q * W\<bar> \<le> (1 + 1 / 1000) * W" using W by (simp add: abs_mult)
  moreover have "of_int \<bar>q\<bar> * W \<le> (\<bar>y\<bar> + 2) * W" using q(4) W by (intro mult_right_mono) simp_all
  then have "of_int \<bar>q\<bar> * W \<le> \<bar>X\<bar> + 2 * W" using W by (simp add: y(1) abs_mult distrib_right)
  ultimately show ?thesis using q(3) by (simp add: is_estimate_def X_def W_def q_def)
qed

lemma top_limit:
  assumes "leads ds2" "fast_inv ds2 n qi xs maxdiv" "qi < n"
  shows "\<bar>xs ! qi\<bar> \<le> 101214750"
proof -
  have "\<bar>cell xs qi\<bar> \<le> 101000000 + 214750"
  proof (rule top_cell [OF _ fast_inv_cells [OF assms(2)]])
    have "slack n qi * fval ds2 \<le> 10100 * 10000"
      using leads_fval [OF assms(1)] assms(3) by (intro mult_mono) (simp_all add: slack_def)
    then show "\<bar>fval (drop qi xs)\<bar> \<le> 101000000" using assms(2) by (simp add: fast_inv_def)
  qed
  then have "\<bar>of_int (xs ! qi)\<bar> \<le> (of_int 101214750 :: rat)" using assms(2,3) by (simp add: cell_def fast_inv_def)
  then show ?thesis by (simp only: of_int_abs [symmetric] of_int_le_iff)
qed

text \<open>The propagation of the carries behind \<open>div[qi]\<close> keeps the value and leaves digits.\<close>

lemma normalised:
  assumes ds: "leads ds2" and inv: "fast_inv ds2 n qi xs maxdiv" and qi: "qi < n"
    and dc: "div_carry (Suc qi) (n - qi) 0 xs = (ys, c)"
  defines "zs \<equiv> ys[qi := i32 (ys ! qi + c)]"
  shows "length zs = n + 1" "take qi zs = take qi xs" "fval (drop qi zs) = fval (drop qi xs)"
    "\<And>d. d \<in> set (drop (Suc qi) zs) \<Longrightarrow> \<bar>d\<bar> \<le> 9999"
proof -
  have len: "length xs = n + 1" using inv by (simp add: fast_inv_def)
  have all: "take (n - qi) (drop (Suc qi) xs) = drop (Suc qi) xs" using len by simp
  have l: "length ys = n + 1" using div_carry_value [OF dc] fast_inv_cells [OF inv] len qi by (simp add: all)
  then have "take (n - qi) (drop (Suc qi) ys) = drop (Suc qi) ys" by simp
  then have dv: "take (Suc qi) ys = take (Suc qi) xs" "digits_ok NBASE (drop (Suc qi) ys)" "\<bar>c\<bar> \<le> 214748"
    "bval NBASE (drop (Suc qi) ys) + c * NBASE ^ (n - qi) = bval NBASE (drop (Suc qi) xs)"
    using div_carry_value [OF dc] fast_inv_cells [OF inv] len qi by (simp_all add: all)
  have yq: "ys ! qi = xs ! qi" using dv(1) by (metis lessI nth_take)
  have fv: "fval (drop (Suc qi) ys) = fval (drop (Suc qi) xs) - 10000 * of_int c"
    using l dv(4) len qi by (intro fval_carry) simp_all
  have top: "i32 (xs ! qi + c) = xs ! qi + c" using top_limit [OF ds inv qi] dv(3) by (intro i32_id) simp_all
  show z: "length zs = n + 1" "take qi zs = take qi xs"
    using l len qi arg_cong [OF dv(1), of "take qi"] by (simp_all add: zs_def min_def)
  have zd: "drop (Suc qi) zs = drop (Suc qi) ys" "zs ! qi = xs ! qi + c" using l qi by (simp_all add: zs_def yq top)
  show "fval (drop qi zs) = fval (drop qi xs)"
    using fval_drop [of qi zs] fval_drop [of qi xs] z zd fv len qi by (simp add: cell_def diff_divide_distrib)
  show "\<bar>d\<bar> \<le> 9999" if "d \<in> set (drop (Suc qi) zs)" for d using that dv(2) zd(1) by (auto simp: digits_ok_def)
qed

lemma next_digit_props:
  assumes ds: "leads ds2" and inv: "fast_inv ds2 n qi xs maxdiv" and qi: "qi < n"
    and nd: "next_digit fl (fl (1 / fl_four fl ds2 0)) n qi xs maxdiv = (q, xs', m')"
  shows "length xs' = n + 1 \<and> take qi xs' = take qi xs \<and> fval (drop qi xs') = fval (drop qi xs) \<and>
    is_estimate ds2 (drop qi xs') q \<and> 1 \<le> m' \<and> m' \<le> 214748 \<and>
    (\<forall>c \<in> set (drop (Suc qi) xs'). \<bar>c\<bar> + \<bar>q\<bar> * 9999 \<le> m' * 9999)"
proof -
  define r where "r = fl (1 / fl_four fl ds2 0)"
  have len: "length xs = n + 1" and m: "1 \<le> maxdiv" "maxdiv \<le> 214748"
    and cs: "\<And>c. c \<in> set (drop (Suc qi) xs) \<Longrightarrow> \<bar>c\<bar> \<le> maxdiv * 9999"
    and X: "\<bar>fval (drop qi xs)\<bar> \<le> slack n qi * fval ds2" using inv by (simp_all add: fast_inv_def)
  define p where "p = quot_digit fl r xs qi"
  have p: "is_estimate ds2 (drop qi xs) p"
    unfolding p_def r_def by (rule quot_digit_is [OF ds _ X fast_inv_cells [OF inv]]) (use len qi in simp_all)
  then have pb: "\<bar>p\<bar> \<le> 20302" by (simp add: is_estimate_def)
  have i: "i32 (maxdiv + \<bar>p\<bar>) = maxdiv + \<bar>p\<bar>" using pb m by (intro i32_id) simp_all
  consider "p = 0" | "p \<noteq> 0" "maxdiv + \<bar>p\<bar> \<le> 214748" | "p \<noteq> 0" "214748 < maxdiv + \<bar>p\<bar>" by linarith
  then show ?thesis
  proof cases
    case 1
    then show ?thesis using nd p len m cs
      unfolding next_digit_def r_def [symmetric] p_def [symmetric] by (auto simp: Let_def)
  next
    case 2
    then have "q = p \<and> xs' = xs \<and> m' = maxdiv + \<bar>p\<bar>"
      using nd unfolding next_digit_def r_def [symmetric] p_def [symmetric] by (auto simp: Let_def maxdiv_limit i)
    then show ?thesis using 2 p len m cs by (auto simp: distrib_right)
  next
    case 3
    obtain ys c where dc: "div_carry (Suc qi) (n - qi) 0 xs = (ys, c)" by fastforce
    define zs where "zs = ys[qi := i32 (ys ! qi + c)]"
    define s where "s = quot_digit fl r zs qi"
    note z = normalised [OF ds inv qi dc, folded zs_def]
    have s: "is_estimate ds2 (drop qi zs) s"
      unfolding s_def r_def by (rule quot_digit_is [OF ds, where n = n]) (use z X qi in \<open>fastforce+\<close>)
    then have sb: "\<bar>s\<bar> \<le> 20302" by (simp add: is_estimate_def)
    then have "i32 (1 + \<bar>s\<bar>) = 1 + \<bar>s\<bar>" by (intro i32_id) simp_all
    then have "q = s \<and> xs' = zs \<and> m' = 1 + \<bar>s\<bar>"
      using nd 3 dc unfolding next_digit_def r_def [symmetric] p_def [symmetric]
      by (auto simp: Let_def maxdiv_limit i zs_def [symmetric] s_def [symmetric])
    then show ?thesis using s sb z by (auto simp: distrib_right)
  qed
qed

end

text \<open>The part of the divisor that a round subtracts, and what the round leaves out of it.\<close>

definition kept :: "int list \<Rightarrow> nat \<Rightarrow> nat \<Rightarrow> int list" where
  "kept ds2 n qi = take (min (length ds2) (n - qi + 1)) ds2"

lemma kept_props:
  assumes "leads ds2"
  shows "digits_ok NBASE (kept ds2 n qi)" "length (kept ds2 n qi) \<le> n - qi + 1" "kept ds2 n qi \<noteq> []"
    "0 \<le> fval ds2 - fval (kept ds2 n qi)" "fval ds2 - fval (kept ds2 n qi) \<le> 1 / 10000 ^ (n - qi)"
proof -
  have ok: "digits_ok NBASE ds2" "ds2 \<noteq> []" using assms by (simp_all add: leads_def)
  then show "digits_ok NBASE (kept ds2 n qi)" "length (kept ds2 n qi) \<le> n - qi + 1" "kept ds2 n qi \<noteq> []"
    by (auto simp: kept_def)
  have c: "kept ds2 n qi = take (n - qi + 1) ds2" by (simp add: kept_def min_def)
  show "0 \<le> fval ds2 - fval (kept ds2 n qi)" "fval ds2 - fval (kept ds2 n qi) \<le> 1 / 10000 ^ (n - qi)"
    using fval_take_digits [OF ok(1), of "n - qi + 1"] by (simp_all add: c)
qed

lemma sub_list_0: "length ds \<le> length cs \<Longrightarrow> sub_list 0 ds cs = cs"
  by (induction "0::int" ds cs rule: sub_list.induct) (auto simp: Suc_le_length_iff)

text \<open>The fold of the remaining top cell into the next one, whose intermediate product may wrap.\<close>

lemma i32_fold: "- 2147483648 \<le> b + a \<Longrightarrow> b + a < 2147483648 \<Longrightarrow> i32 (b + i32 a) = b + a"
proof -
  assume "- 2147483648 \<le> b + a" "b + a < 2147483648"
  then have "i32 (b + a) = b + a" by (rule i32_id)
  moreover have "i32 (b + i32 a) = i32 (b + a)"
  proof -
    have "b + ((a + 2147483648) mod 4294967296 - 2147483648) + 2147483648 = b + (a + 2147483648) mod 4294967296" by simp
    then show ?thesis by (simp add: wrap_s_def mod_simps add.assoc)
  qed
  ultimately show ?thesis by simp
qed

lemma estimate_bounds:
  assumes "leads ds2" "\<bar>fval cs\<bar> \<le> 10100 * fval ds2" "is_estimate ds2 cs q"
  shows "of_int \<bar>q\<bar> \<le> (10102::rat)" "\<bar>fval cs - of_int q * fval (kept ds2 n qi)\<bar> \<le> 20300"
proof -
  define W u v where "W = fval ds2" and "u = of_int q * (W - fval (kept ds2 n qi))" and "v = fval cs - of_int q * W"
  have W: "1 \<le> W" "W < 10000" using leads_fval [OF assms(1)] by (simp_all add: W_def)
  have q: "\<bar>v\<bar> \<le> (1 + 1 / 1000) * W" "of_int \<bar>q\<bar> * W \<le> \<bar>fval cs\<bar> + 2 * W"
    using assms(3) by (simp_all add: is_estimate_def W_def v_def)
  have "of_int \<bar>q\<bar> * W \<le> 10102 * W" using q(2) assms(2) by (simp add: W_def)
  then show q': "of_int \<bar>q\<bar> \<le> (10102::rat)" using W by (simp only: mult_le_cancel_right_pos)
  have "(1::rat) / 10000 ^ (n - qi) \<le> 1" by simp
  then have "\<bar>W - fval (kept ds2 n qi)\<bar> \<le> 1"
    using kept_props(4,5) [OF assms(1), of n qi] unfolding W_def by (intro abs_leI) linarith+
  with q' have "\<bar>u\<bar> \<le> 10102 * 1" unfolding u_def abs_mult by (intro mult_mono) simp_all
  moreover have "fval cs - of_int q * fval (kept ds2 n qi) = v + u" by (simp add: u_def v_def algebra_simps)
  ultimately show "\<bar>fval cs - of_int q * fval (kept ds2 n qi)\<bar> \<le> 20300"
    using abs_le_D1 [OF q(1)] abs_le_D2 [OF q(1)] W by (simp add: abs_le_iff)
qed

lemma round_subtracts:
  assumes ds: "leads ds2" and zs: "length zs = n + 1" "qi < n" "\<bar>zs ! qi\<bar> \<le> 101214750" and q: "\<bar>q\<bar> \<le> 20302" and m: "m \<le> 214748"
    and c: "\<And>c. c \<in> set (drop (Suc qi) zs) \<Longrightarrow> \<bar>c\<bar> + \<bar>q\<bar> * 9999 \<le> m * 9999"
  defines "us \<equiv> (if q \<noteq> 0 then sub_multiple q (kept ds2 n qi) qi zs else zs)"
  shows "\<exists>a b rest. drop qi us = a # b # rest \<and> length us = n + 1 \<and> take qi us = take qi zs \<and>
    fval (a # b # rest) = fval (drop qi zs) - of_int q * fval (kept ds2 n qi) \<and> (\<forall>x \<in> set (b # rest). \<bar>x\<bar> \<le> m * 9999)"
proof -
  define cs es where "cs = drop qi zs" and "es = sub_list q (kept ds2 n qi) cs"
  have csl: "length (kept ds2 n qi) \<le> length cs" "length cs = n - qi + 1" "cs = zs ! qi # drop (Suc qi) zs"
    using zs(1,2) kept_props(2) [OF ds, of n qi] by (simp_all add: cs_def Cons_nth_drop_Suc)
  have "\<bar>x\<bar> + \<bar>q\<bar> * 9999 \<le> 2147483647" if "x \<in> set (take (length (kept ds2 n qi)) (drop qi zs))" for x
  proof -
    have "x = zs ! qi \<or> x \<in> set (drop (Suc qi) zs)" using in_set_takeD [OF that] csl(3) by (simp add: cs_def)
    then show ?thesis using zs(3) q m c [of x] by (elim disjE) linarith+
  qed
  then have "length (sub_multiple q (kept ds2 n qi) qi zs) = length zs \<and> take qi (sub_multiple q (kept ds2 n qi) qi zs) = take qi zs \<and>
      drop qi (sub_multiple q (kept ds2 n qi) qi zs) = es"
    unfolding es_def cs_def using csl(1,2) zs(1,2) q kept_props(1,2) [OF ds, of n qi] by (intro sub_multiple_list) simp_all
  then have us: "length us = n + 1" "take qi us = take qi zs" "drop qi us = es"
    using zs(1) csl(1) by (auto simp: us_def es_def cs_def sub_list_0)
  have esf: "fval es = fval cs - of_int q * fval (kept ds2 n qi)" unfolding es_def using csl(1) by (rule sub_list_fval)
  have "length es = n - qi + 1" using us zs(2) by (simp add: us(3) [symmetric])
  then obtain a b rest where es: "es = a # b # rest" using zs(2) by (cases es; cases "tl es") auto
  obtain d ds' where dd: "kept ds2 n qi = d # ds'" using kept_props(3) [OF ds] by (cases "kept ds2 n qi") auto
  then have tl: "b # rest = sub_list q ds' (drop (Suc qi) zs)" using es csl(3) by (simp add: es_def)
  have "digits_ok NBASE ds'" "length ds' \<le> length (drop (Suc qi) zs)"
    using kept_props(1) [OF ds, of n qi] dd csl(1,3) by simp_all
  then have "\<bar>x\<bar> \<le> (m * 9999 - \<bar>q\<bar> * 9999) + \<bar>q\<bar> * 9999" if "x \<in> set (b # rest)" for x
    using that c unfolding tl by (intro sub_list_bound [of x q ds' "drop (Suc qi) zs"]) fastforce+
  then have "\<forall>x \<in> set (b # rest). \<bar>x\<bar> \<le> m * 9999" by simp
  with us es esf show ?thesis by (intro exI [of _ a] exI [of _ b] exI [of _ rest]) (simp only: cs_def)
qed

context double_arith
begin

lemma fast_step_props:
  assumes ds: "leads ds2" and inv: "fast_inv ds2 n qi xs maxdiv" and qi: "qi < n"
    and st: "fast_step fl (fl (1 / fl_four fl ds2 0)) ds2 n qi xs maxdiv = (ys, m')"
  shows "\<exists>q. length ys = n + 1 \<and> take (Suc qi) ys = take qi xs @ [q] \<and> \<bar>q\<bar> \<le> 20302 \<and> of_int \<bar>q\<bar> \<le> (10102::rat) \<and>
    fval (drop (Suc qi) ys) = 10000 * (fval (drop qi xs) - of_int q * fval (kept ds2 n qi)) \<and>
    \<bar>fval (drop qi xs) - of_int q * fval ds2\<bar> \<le> (1 + 1 / 1000) * fval ds2 \<and>
    1 \<le> m' \<and> m' \<le> 214748 \<and> (\<forall>c \<in> set (drop (Suc (Suc qi)) ys). \<bar>c\<bar> \<le> m' * 9999)"
proof -
  define r where "r = fl (1 / fl_four fl ds2 0)"
  obtain q zs m where nd: "next_digit fl r n qi xs maxdiv = (q, zs, m)" by (cases "next_digit fl r n qi xs maxdiv")
  have np: "length zs = n + 1" "take qi zs = take qi xs" "fval (drop qi zs) = fval (drop qi xs)" "is_estimate ds2 (drop qi zs) q"
    "1 \<le> m" "m \<le> 214748" "\<And>c. c \<in> set (drop (Suc qi) zs) \<Longrightarrow> \<bar>c\<bar> + \<bar>q\<bar> * 9999 \<le> m * 9999"
    using next_digit_props [OF ds inv qi nd [unfolded r_def]] by simp_all
  have X: "\<bar>fval (drop qi zs)\<bar> \<le> 10100 * fval ds2" using inv qi np(3) by (simp add: fast_inv_def slack_def)
  note eb = estimate_bounds(1) [OF ds X np(4)] estimate_bounds(2) [OF ds X np(4), of n qi]
  have q: "\<bar>q\<bar> \<le> 20302" "\<bar>fval (drop qi xs) - of_int q * fval ds2\<bar> \<le> (1 + 1 / 1000) * fval ds2"
    using np(3,4) by (simp_all add: is_estimate_def)
  have "fast_inv ds2 n qi zs 214748"
    using np inv qi by (fastforce simp: fast_inv_def)
  note top = top_limit [OF ds this qi]
  define us where "us = (if q \<noteq> 0 then sub_multiple q (kept ds2 n qi) qi zs else zs)"
  obtain a b rest where us: "drop qi us = a # b # rest" "length us = n + 1" "take qi us = take qi xs"
    "fval (a # b # rest) = fval (drop qi zs) - of_int q * fval (kept ds2 n qi)" "\<forall>x \<in> set (b # rest). \<bar>x\<bar> \<le> m * 9999"
    using round_subtracts [OF ds np(1) qi top q(1) np(6,7), folded us_def] np(2) by metis
  have "fval (a # b # rest) * 10000 = of_int (b + a * NBASE) + fval rest / 10000" by (simp add: field_simps)
  moreover have "\<bar>fval rest\<bar> \<le> 2147500000" using us(5) np(6) by (intro rest_bound) fastforce
  ultimately have "\<bar>of_int (b + a * NBASE)\<bar> \<le> (of_int 203214750 :: rat)"
    using eb(2) unfolding us(4) [symmetric] by (simp only: abs_le_iff) (simp del: fval.simps)
  then have "\<bar>b + a * NBASE\<bar> \<le> 203214750" by (simp only: of_int_abs [symmetric] of_int_le_iff)
  then have fold: "i32 (b + i32 (a * NBASE)) = b + a * NBASE" by (intro i32_fold) simp_all
  have dr: "drop (Suc qi) us = b # rest" "drop (Suc (Suc qi)) us = rest" using us(1) by (metis drop_Suc list.sel(3) tl_drop)+
  have "us ! qi = a" "us ! Suc qi = b" using us(1,2) dr(1) qi by (metis Suc_less_eq hd_drop_conv_nth less_SucI Suc_eq_plus1 list.sel(1))+
  moreover have "m' = m \<and> ys = us[qi + 1 := i32 (us ! (qi + 1) + i32 (us ! qi * NBASE)), qi := q]"
    using st nd unfolding fast_step_def r_def [symmetric] us_def kept_def by (auto simp: Let_def)
  ultimately have ys: "m' = m" "ys = us[qi + 1 := b + a * NBASE, qi := q]" by (simp_all add: fold)
  have d: "drop (Suc qi) ys = (b + a * NBASE) # rest" "drop (Suc (Suc qi)) ys = rest"
    using dr us(2) qi by (simp_all add: ys drop_update_swap)
  have t: "take (Suc qi) ys = take qi xs @ [q]" "length ys = n + 1" using us(2,3) qi by (simp_all add: ys take_Suc_conv_app_nth)
  have "fval (drop (Suc qi) ys) = 10000 * fval (a # b # rest)" by (simp add: d)
  then have "fval (drop (Suc qi) ys) = 10000 * (fval (drop qi xs) - of_int q * fval (kept ds2 n qi))" by (simp only: us(4) np(3))
  then show ?thesis using d t np(5,6) q eb(1) us(5) ys(1) by (intro exI [of _ q]) simp
qed

end

text \<open>How far the digits found so far and the cells that remain are from the number \<open>x\<close>.\<close>

definition drift :: "int list \<Rightarrow> rat \<Rightarrow> nat \<Rightarrow> int list \<Rightarrow> rat" where
  "drift ds2 x qi xs = x - (fval ds2 * fval (take qi xs) + fval (drop qi xs) / 10000 ^ qi)"

context double_arith
begin

lemma fast_step_inv:
  assumes ds: "leads ds2" and inv: "fast_inv ds2 n qi xs maxdiv" and qi: "qi < n" and n: "2 \<le> n"
    and st: "fast_step fl (fl (1 / fl_four fl ds2 0)) ds2 n qi xs maxdiv = (ys, m')"
  shows "fast_inv ds2 n (Suc qi) ys m'" "\<bar>drift ds2 x (Suc qi) ys - drift ds2 x qi xs\<bar> \<le> 10102 / 10000 ^ n"
proof -
  obtain q where q: "length ys = n + 1" "take (Suc qi) ys = take qi xs @ [q]" "\<bar>q\<bar> \<le> 20302" "of_int \<bar>q\<bar> \<le> (10102::rat)"
    "fval (drop (Suc qi) ys) = 10000 * (fval (drop qi xs) - of_int q * fval (kept ds2 n qi))"
    "\<bar>fval (drop qi xs) - of_int q * fval ds2\<bar> \<le> (1 + 1 / 1000) * fval ds2"
    "1 \<le> m'" "m' \<le> 214748" "\<forall>c \<in> set (drop (Suc (Suc qi)) ys). \<bar>c\<bar> \<le> m' * 9999"
    using fast_step_props [OF ds inv qi st] by blast
  define W u v where "W = fval ds2" and "u = of_int q * (W - fval (kept ds2 n qi))" and "v = fval (drop qi xs) - of_int q * W"
  have W: "1 \<le> W" using leads_fval [OF ds] by (simp add: W_def)
  have lq: "length (take qi xs) = qi" "length xs = n + 1" using inv qi by (simp_all add: fast_inv_def)
  have u: "\<bar>u\<bar> \<le> 10102 * (1 / 10000 ^ (n - qi))"
  proof -
    have "\<bar>W - fval (kept ds2 n qi)\<bar> \<le> 1 / 10000 ^ (n - qi)"
      using kept_props(4,5) [OF ds, of n qi] by (simp add: W_def)
    with q(4) show ?thesis unfolding u_def abs_mult by (intro mult_mono) simp_all
  qed
  have f: "fval (drop (Suc qi) ys) = 10000 * (v + u)" by (simp add: q(5) u_def v_def algebra_simps)
  have "\<bar>v + u\<bar> \<le> (if Suc qi < n then 101 / 100 else 203 / 100) * W"
  proof (cases "Suc qi < n")
    case True
    then have "(10000::rat) ^ 2 \<le> 10000 ^ (n - qi)" by (intro power_increasing) simp_all
    then have "10102 * (1 / (10000::rat) ^ (n - qi)) \<le> 10102 * (1 / 10000 ^ 2)"
      by (intro mult_left_mono divide_left_mono) simp_all
    with u have "\<bar>u\<bar> \<le> 10102 * (1 / 10000 ^ 2)" by (rule order_trans)
    then have "\<bar>u\<bar> \<le> 2 / 1000" by simp
    then show ?thesis using True q(6) [folded W_def, folded v_def] W abs_triangle_ineq [of v u] by simp
  next
    case False
    then have "n - qi = 1" using qi by simp
    then have "\<bar>u\<bar> \<le> 10102 / 10000" using u by simp
    then show ?thesis using False q(6) [folded W_def, folded v_def] W abs_triangle_ineq [of v u] by simp
  qed
  then have "\<bar>fval (drop (Suc qi) ys)\<bar> \<le> slack n (Suc qi) * W" unfolding f abs_mult
    by (simp add: slack_def split: if_splits)
  moreover have "\<forall>c \<in> set (take (Suc qi) ys). \<bar>c\<bar> \<le> 20302" using q(2,3) inv by (auto simp: fast_inv_def)
  ultimately show "fast_inv ds2 n (Suc qi) ys m'" using q(1,7-9) qi by (simp add: fast_inv_def W_def)
  have "drift ds2 x (Suc qi) ys - drift ds2 x qi xs = - u / 10000 ^ qi"
  proof -
    have "fval (take (Suc qi) ys) = fval (take qi xs) + of_int q / 10000 ^ qi" using qi by (simp add: q(2) fval_append lq min_def)
    then show ?thesis unfolding drift_def f W_def [symmetric]
      by (simp add: v_def distrib_left add_divide_distrib diff_divide_distrib mult.commute)
  qed
  then have "\<bar>drift ds2 x (Suc qi) ys - drift ds2 x qi xs\<bar> = \<bar>u\<bar> / 10000 ^ qi" by simp
  also have "\<dots> \<le> 10102 * (1 / 10000 ^ (n - qi)) / 10000 ^ qi" using u by (intro divide_right_mono) simp_all
  also have "\<dots> = 10102 / 10000 ^ n" using qi by (simp add: power_add [symmetric])
  finally show "\<bar>drift ds2 x (Suc qi) ys - drift ds2 x qi xs\<bar> \<le> 10102 / 10000 ^ n" .
qed

lemma fast_loop_inv:
  assumes ds: "leads ds2" and n: "2 \<le> n"
  shows "fast_inv ds2 n qi xs maxdiv \<Longrightarrow> qi + k = n \<Longrightarrow> \<bar>drift ds2 x qi xs\<bar> \<le> of_nat qi * (10102 / 10000 ^ n) \<Longrightarrow>
    \<exists>m. fast_inv ds2 n n (fast_loop fl (fl (1 / fl_four fl ds2 0)) ds2 n k qi xs maxdiv) m \<and>
      \<bar>drift ds2 x n (fast_loop fl (fl (1 / fl_four fl ds2 0)) ds2 n k qi xs maxdiv)\<bar> \<le> of_nat n * (10102 / 10000 ^ n)"
proof (induction k arbitrary: qi xs maxdiv)
  case (Suc k)
  obtain ys m where st: "fast_step fl (fl (1 / fl_four fl ds2 0)) ds2 n qi xs maxdiv = (ys, m)" by fastforce
  have qi: "qi < n" using Suc.prems(2) by simp
  note s = fast_step_inv [OF ds Suc.prems(1) qi n st]
  have "\<bar>drift ds2 x (Suc qi) ys\<bar> \<le> of_nat (Suc qi) * (10102 / 10000 ^ n)"
    using s(2) [of x] Suc.prems(3) abs_triangle_ineq [of "drift ds2 x (Suc qi) ys - drift ds2 x qi xs" "drift ds2 x qi xs"]
    by (simp add: add_divide_distrib distrib_right)
  then show ?case using Suc.IH [OF s(1)] Suc.prems(2) by (simp add: st)
qed auto

end

section \<open>The quotient\<close>

lemma steps_small: "10102 * (of_nat m + 4) + 2 \<le> (10000::rat) ^ (m + 2)"
proof (induction m)
  case (Suc m)
  have "10102 * (of_nat (Suc m) + 4) + 2 \<le> 10000 * (10102 * (of_nat m + 4) + 2 :: rat)" by simp
  also have "\<dots> \<le> 10000 * 10000 ^ (m + 2)" using Suc.IH by (intro mult_left_mono) simp_all
  finally show ?case by simp
qed simp

lemma fast_inv_start:
  assumes "leads ds1" "leads ds2" "length ds1 \<le> n" "0 < n"
  shows "fast_inv ds2 n 0 (0 # ds1 @ replicate (n - length ds1) 0) 1"
    "fval (0 # ds1 @ replicate (n - length ds1) 0) = fval ds1 / 10000"
proof -
  show f: "fval (0 # ds1 @ replicate (n - length ds1) 0) = fval ds1 / 10000" by (simp add: fval_append)
  have "\<bar>fval ds1 / 10000\<bar> \<le> slack n 0 * fval ds2"
    using leads_fval [OF assms(1)] leads_fval [OF assms(2)] assms(4) by (simp add: slack_def)
  moreover have "\<bar>c\<bar> \<le> 9999" if "c \<in> set ds1" for c using that assms(1) by (auto simp: leads_def digits_ok_def)
  ultimately show "fast_inv ds2 n 0 (0 # ds1 @ replicate (n - length ds1) 0) 1"
    using f assms(3) by (auto simp: fast_inv_def)
qed

context double_arith
begin

lemma fast_cells:
  assumes ds: "leads ds1" "leads ds2" and n: "length ds1 \<le> n" "2 \<le> n"
  defines "r \<equiv> fl (1 / fl_four fl ds2 0)"
  defines "xs \<equiv> fast_loop fl r ds2 n n 0 (0 # ds1 @ replicate (n - length ds1) 0) 1"
  defines "ys \<equiv> xs[n := quot_digit fl r xs n]"
  shows "length ys = n + 1" "\<And>c. c \<in> set ys \<Longrightarrow> \<bar>c\<bar> \<le> 20302"
    "\<bar>fval ds1 / fval ds2 / 10000 - fval ys\<bar> \<le> (10102 * of_nat n + 2) / 10000 ^ n"
proof -
  define x W q where "x = fval ds1 / 10000" and "W = fval ds2" and "q = quot_digit fl r xs n"
  have "0 < n" using n(2) by simp
  note s = fast_inv_start [OF ds n(1) this]
  have "drift ds2 x 0 (0 # ds1 @ replicate (n - length ds1) 0) = 0" by (simp add: drift_def x_def s(2) del: fval.simps(2))
  then obtain m where m: "fast_inv ds2 n n xs m" "\<bar>drift ds2 x n xs\<bar> \<le> of_nat n * (10102 / 10000 ^ n)"
    using fast_loop_inv [OF ds(2) n(2) s(1), of n x] by (auto simp: xs_def r_def)
  have len: "length xs = n + 1" and X: "\<bar>fval (drop n xs)\<bar> \<le> slack n n * W" and c: "\<And>c. c \<in> set (take n xs) \<Longrightarrow> \<bar>c\<bar> \<le> 20302"
    using m(1) by (simp_all add: fast_inv_def W_def)
  have "is_estimate ds2 (drop n xs) q"
    unfolding q_def r_def by (rule quot_digit_is [OF ds(2) _ X [unfolded W_def]]) (use len in simp_all)
  then have q: "\<bar>fval (drop n xs) - of_int q * W\<bar> \<le> (1 + 1 / 1000) * W" "\<bar>q\<bar> \<le> 20302"
    by (simp_all add: is_estimate_def W_def)
  have ys: "ys = take n xs @ [q]" using len by (simp add: ys_def q_def [symmetric] upd_conv_take_nth_drop)
  with len c q(2) show "length ys = n + 1" "\<And>c. c \<in> set ys \<Longrightarrow> \<bar>c\<bar> \<le> 20302" by auto
  have W: "1 \<le> W" using leads_fval [OF ds(2)] by (simp add: W_def)
  have "fval ys = fval (take n xs) + of_int q / 10000 ^ n" using len by (simp add: ys fval_append)
  then have "(x / W - fval ys) * W = drift ds2 x n xs + (fval (drop n xs) - of_int q * W) / 10000 ^ n"
    using W by (simp add: drift_def W_def [symmetric] left_diff_distrib distrib_right distrib_left diff_divide_distrib mult.commute right_diff_distrib)
  moreover have "\<bar>(fval (drop n xs) - of_int q * W) / 10000 ^ n\<bar> \<le> (1 + 1 / 1000) * W / 10000 ^ n"
    using divide_right_mono [OF q(1), of "10000 ^ n"] by (simp only: abs_divide power_abs abs_numeral) simp
  ultimately have "\<bar>(x / W - fval ys) * W\<bar> \<le> of_nat n * (10102 / 10000 ^ n) + (1 + 1 / 1000) * W / 10000 ^ n"
    using order_trans [OF abs_triangle_ineq add_mono, OF m(2)] by presburger
  also have "\<dots> \<le> (10102 * of_nat n + 2) / 10000 ^ n * W"
  proof -
    have "of_nat n * 10102 * 1 \<le> of_nat n * 10102 * W" using W by (intro mult_left_mono) simp_all
    then have "of_nat n * 10102 + (1 + 1 / 1000) * W \<le> (10102 * of_nat n + 2) * W" using W by (simp add: algebra_simps)
    then have "(of_nat n * 10102 + (1 + 1 / 1000) * W) / 10000 ^ n \<le> (10102 * of_nat n + 2) * W / 10000 ^ n"
      by (rule divide_right_mono) simp
    then show ?thesis by (simp only: times_divide_eq_right times_divide_eq_left add_divide_distrib [symmetric])
  qed
  finally have "\<bar>x / W - fval ys\<bar> * W \<le> (10102 * of_nat n + 2) / 10000 ^ n * W" using W by (simp add: abs_mult)
  then have "\<bar>x / W - fval ys\<bar> \<le> (10102 * of_nat n + 2) / 10000 ^ n" using W by (simp only: mult_le_cancel_right_pos)
  moreover have "x / W = fval ds1 / fval ds2 / 10000" by (simp add: x_def W_def)
  ultimately show "\<bar>fval ds1 / fval ds2 / 10000 - fval ys\<bar> \<le> (10102 * of_nat n + 2) / 10000 ^ n" by simp
qed

lemma fast_digits_value:
  assumes ds: "leads ds1" "leads ds2" and n: "length ds1 \<le> n" "4 \<le> n"
  shows "\<exists>ds. fast_digits fl ds1 ds2 n = (ds, 0) \<and> digits_ok NBASE ds \<and>
    \<bar>fval ds1 / fval ds2 / 10000 - fval ds\<bar> \<le> (10102 * of_nat n + 2) / 10000 ^ n"
proof -
  define e where "e = (10102 * of_nat n + 2) / (10000::rat) ^ n"
  define r where "r = fl (1 / fl_four fl ds2 0)"
  define xs where "xs = fast_loop fl r ds2 n n 0 (0 # ds1 @ replicate (n - length ds1) 0) 1"
  define ys where "ys = xs[n := quot_digit fl r xs n]"
  have "2 \<le> n" using n(2) by simp
  note y = fast_cells [OF ds n(1) this, folded r_def, folded xs_def, folded ys_def, folded e_def]
  obtain zs c where dc: "div_carry 0 (n + 1) 0 ys = (zs, c)" by fastforce
  have small: "\<bar>x\<bar> \<le> cell_limit" if "x \<in> set (take (n + 1) (drop 0 ys))" for x
    using y(2) [of x] in_set_takeD [OF that] by simp
  have "0 + (n + 1) \<le> length ys" using y(1) by simp
  from div_carry_value [OF dc this small]
  have dv: "length zs = n + 1" "digits_ok NBASE (take (n + 1) zs)"
    "bval NBASE (take (n + 1) zs) + c * NBASE ^ (n + 1) = bval NBASE (take (n + 1) ys)"
    unfolding drop_0 add_0 add_0_right by (simp_all only: y(1) abs_zero)
  then have "take (n + 1) zs = zs" "take (n + 1) ys = ys" using y(1) by simp_all
  with dv have zs: "length zs = n + 1" "digits_ok NBASE zs" "bval NBASE zs + c * NBASE ^ length ys = bval NBASE ys"
    using y(1) by simp_all
  have f: "fval zs = fval ys - 10000 * of_int c" using zs(1,3) y(1) by (intro fval_carry) auto
  have z: "0 \<le> fval zs" "fval zs < 10000" using zs(2) by (simp_all add: fval_nonneg fval_less)
  have W: "1 \<le> fval ds1" "fval ds1 < 10000" "1 \<le> fval ds2" "fval ds2 < 10000" using leads_fval ds by auto
  have e: "e \<le> 1 / 100000000"
  proof -
    have "10102 * of_nat n + 2 \<le> (10000::rat) ^ (n - 2)"
      using steps_small [of "n - 4"] n(2) by (simp add: Suc_diff_Suc numeral_eq_Suc of_nat_diff)
    then have "e \<le> 10000 ^ (n - 2) / 10000 ^ n" unfolding e_def by (rule divide_right_mono) simp
    also have "\<dots> = 1 / 10000 ^ 2" using n(2) by (simp add: power_diff)
    finally show ?thesis by simp
  qed
  have "fval ds1 / fval ds2 \<le> fval ds1 / 1" using W by (intro divide_left_mono) simp_all
  then have hi: "fval ds1 / fval ds2 / 10000 \<le> 1" using W by simp
  have "1 / 10000 \<le> fval ds1 / fval ds2" using W by (intro frac_le) simp_all
  then have lo: "1 / 100000000 \<le> fval ds1 / fval ds2 / 10000" by (simp add: mult.commute)
  have "0 \<le> fval ys" "fval ys < 10000" using y(3) e lo hi by (simp_all only: abs_le_iff) linarith+
  then have "- 1 < (of_int c :: rat)" "of_int c < (1::rat)" using f z by linarith+
  then have "c = 0" by linarith
  moreover have "fast_digits fl ds1 ds2 n = (zs, c)"
    using dc by (simp only: fast_digits_def Let_def r_def [symmetric] xs_def [symmetric] ys_def [symmetric])
  ultimately show ?thesis using f y(3) zs(2) by (intro exI [of _ zs]) (simp add: e_def)
qed

end

section \<open>Properties\<close>

lemma wval_fval: "wval ds w = fval ds * 10 powi (4 * w)"
proof (induction ds arbitrary: w)
  case (Cons d ds)
  have "(10::rat) powi (4 * (w - 1)) = 10 powi (4 * w) / 10000" by (simp add: right_diff_distrib power_int_diff)
  with Cons show ?case by (simp add: wval_Cons distrib_right)
qed simp

lemma to_scale_error: "\<bar>to_scale rnd r x - x\<bar> \<le> (if rnd then 1 / 2 else 1) * 10 powi (- r)"
proof (cases rnd)
  case False
  define t where "t = x * 10 powi r"
  have "x = t * 10 powi (- r)" by (simp add: t_def mult.assoc)
  moreover have "to_scale rnd r x = of_int \<lfloor>t\<rfloor> * 10 powi (- r)" using False by (simp add: to_scale_def t_def)
  ultimately have "to_scale rnd r x - x = (of_int \<lfloor>t\<rfloor> - t) * 10 powi (- r)" by (simp only: left_diff_distrib)
  then have "\<bar>to_scale rnd r x - x\<bar> = \<bar>of_int \<lfloor>t\<rfloor> - t\<bar> * 10 powi (- r)" by (simp only: abs_mult) simp
  also have "\<dots> \<le> 1 * 10 powi (- r)" using floor_correct [of t] by (intro mult_right_mono) (simp_all add: abs_le_iff)
  finally show ?thesis using False by simp
qed (use round_error [of x r] in \<open>simp add: to_scale_def\<close>)

text \<open>The error of the quotient before it is rounded, in units of the last decimal.\<close>

definition fast_error :: "numeric \<Rightarrow> numeric \<Rightarrow> int \<Rightarrow> rat" where
  "fast_error a b r = (10102 * of_int (fast_ndigits a b r) + 2) / 10 ^ 20"

lemma fast_error_units:
  assumes "n = fast_ndigits a b r" "4 \<le> n"
  shows "(10102 * of_nat (nat n) + 2) / 10000 ^ nat n * 10 powi (4 * (weight a - weight b + 1)) \<le> fast_error a b r * 10 powi (- r)"
proof -
  define c where "c = (r + 3) sdiv 4"
  have n: "weight a - weight b + 1 + 1 + c + 4 \<le> n" using assms(1) by (simp add: fast_ndigits_def c_def add.commute [of 3 r])
  have p: "(10000::rat) ^ nat n = 10 powi (4 * n)" using assms(2) by (simp add: powi_nat nat_mult_distrib power_mult)
  have "10 powi (4 * (weight a - weight b + 1)) / (10000::rat) ^ nat n = 10 powi (4 * (weight a - weight b + 1) - 4 * n)"
    by (simp add: p power_int_diff)
  also have "\<dots> \<le> 10 powi (- r - 20)" using n ceil4_ge [of r] by (intro powi_mono) (simp add: c_def)
  also have "\<dots> = 10 powi (- r) / 10 ^ 20" by (simp add: power_int_diff)
  finally have "(10102 * of_int n + 2 :: rat) * (10 powi (4 * (weight a - weight b + 1)) / 10000 ^ nat n) \<le> (10102 * of_int n + 2) * (10 powi (- r) / 10 ^ 20)"
    using assms(2) by (intro mult_left_mono) simp_all
  then show ?thesis using assms by (simp add: fast_error_def)
qed

lemma fast_value:
  assumes a: "num_ok a" "leads (digits a)" and b: "num_ok b" "leads (digits b)"
  shows "\<exists>v. div_var_fast a b res r rnd = Inr (strip_var (if rnd then round_var v r else trunc_var v r)) \<and> num_ok v \<and>
    sgnval v = sgnval a * sgnval b \<and> \<bar>absval v - absval a / absval b\<bar> \<le> fast_error a b r * 10 powi (- r)"
proof -
  define n W where "n = fast_ndigits a b r" and "W = fval (digits b)"
  have n: "4 \<le> n" "ndigits a \<le> n" by (simp_all add: n_def fast_ndigits_def)
  then have "length (digits a) \<le> nat n" "4 \<le> nat n" by (simp_all add: ndigits_def)
  from ieee.fast_digits_value [OF a(2) b(2) this] obtain ds where ds: "fast_digits round_double (digits a) (digits b) (nat n) = (ds, 0)"
    "digits_ok NBASE ds" "\<bar>fval (digits a) / W / 10000 - fval ds\<bar> \<le> (10102 * of_nat (nat n) + 2) / 10000 ^ nat n"
    by (auto simp: W_def)
  define v where "v = res\<lparr>digits := ds, weight := weight a - weight b + 1,
    sign := if sign a = sign b then NUMERIC_POS else NUMERIC_NEG\<rparr>"
  have "ndigits b \<noteq> 0" "digits b ! 0 \<noteq> 0" "ndigits a \<noteq> 0" using a(2) b(2) by (auto simp: leads_def ndigits_def hd_conv_nth)
  then have r: "div_var_fast a b res r rnd = Inr (strip_var (if rnd then round_var v r else trunc_var v r))"
    using ds(1) by (simp add: div_var_fast_def div_var_fast_with_def Let_def n_def [symmetric] v_def)
  have v: "num_ok v" "sgnval v = sgnval a * sgnval b" using ds(2) a(1) b(1) by (auto simp: num_ok_def v_def sgnval_def)
  define p where "p = (10::rat) powi (4 * (weight a - weight b + 1))"
  have av: "absval v = fval ds * p" by (simp add: absval_wval wval_fval v_def p_def)
  have "absval a / absval b = fval (digits a) / W * (10 powi (4 * weight a) / 10 powi (4 * weight b))"
    by (simp add: absval_wval wval_fval W_def)
  also have "\<dots> = fval (digits a) / W / 10000 * p" by (simp add: p_def distrib_left right_diff_distrib power_int_add power_int_diff)
  finally have "absval a / absval b - absval v = (fval (digits a) / W / 10000 - fval ds) * p" by (simp only: av left_diff_distrib)
  then have "\<bar>absval a / absval b - absval v\<bar> = \<bar>fval (digits a) / W / 10000 - fval ds\<bar> * p" by (simp only: abs_mult) (simp add: p_def)
  also have "\<dots> \<le> (10102 * of_nat (nat n) + 2) / 10000 ^ nat n * p" using ds(3) by (intro mult_right_mono) (simp_all add: p_def)
  also have "\<dots> \<le> fast_error a b r * 10 powi (- r)" unfolding p_def by (rule fast_error_units [OF n_def n(1)])
  finally show ?thesis using r v by (auto simp: abs_minus_commute)
qed

text \<open>
  C3: The approximate division is accurate: for a divisor without leading zero digit
  \<open>div_var_fast\<close> returns a number in normal form with \<open>rscale\<close> decimals that differs from the
  exact quotient by at most half a unit of the last decimal (a whole unit when it truncates) and
  an error that is far below it: a quotient of \<open>n\<close> digits adds about \<open>10102 * n / 10 ^ 20\<close>
  units. So no estimate of a digit is off by more than the cells can hold, the 32-bit arithmetic
  loses nothing, and the final assertion never fails. A divisor with a leading zero digit throws.
\<close>

theorem div_var_fast_accurate:
  assumes "num_lead a" "num_ok b"
  shows "if digits b = [] \<or> hd (digits b) = 0 then div_var_fast a b res r rnd = Inl (PqException ''division by zero'')
    else \<exists>v. div_var_fast a b res r rnd = Inr v \<and> num_wf v \<and> dscale v = r \<and>
      \<bar>numval v - numval a / numval b\<bar> \<le> ((if rnd then 1 / 2 else 1) + fast_error a b r) * 10 powi (- r)"
proof -
  consider "digits b = [] \<or> hd (digits b) = 0" | "leads (digits b)" "digits a = []" | "leads (digits b)" "leads (digits a)" "num_ok a"
    using assms by (cases "digits a = []") (auto simp: leads_def num_ok_def num_lead_def)
  then show ?thesis
  proof cases
    case 1
    then show ?thesis by (cases "digits b") (auto simp: div_var_fast_def div_var_fast_with_def ndigits_def)
  next
    case 2
    then have b: "digits b \<noteq> [] \<and> hd (digits b) \<noteq> 0" by (simp add: leads_def)
    with 2 have "div_var_fast a b res r rnd = Inr ((zero_var res)\<lparr>dscale := r\<rparr>)" "numval a = 0"
      by (auto simp: div_var_fast_def div_var_fast_with_def ndigits_def numval_def absval_def hd_conv_nth)
    moreover have "0 \<le> fast_error a b r" by (simp add: fast_error_def fast_ndigits_def)
    ultimately show ?thesis using b zero_var_is [of r res] by (simp add: num_is_def)
  next
    case 3
    define s where "s = sgnval a * sgnval b"
    obtain v where v: "div_var_fast a b res r rnd = Inr (strip_var (if rnd then round_var v r else trunc_var v r))" "num_ok v"
      "sgnval v = s" "\<bar>absval v - absval a / absval b\<bar> \<le> fast_error a b r * 10 powi (- r)"
      using fast_value [OF 3(3,2) assms(2) 3(1)] unfolding s_def by blast
    define z where "z = to_scale rnd r (absval v)"
    have d: "\<bar>z - absval a / absval b\<bar> \<le> ((if rnd then 1 / 2 else 1) + fast_error a b r) * 10 powi (- r)"
      using to_scale_error [of rnd r "absval v"] v(4) unfolding distrib_right z_def by linarith
    have "s * z - numval a / numval b = s * (z - absval a / absval b)"
      by (simp add: s_def numval_def sgnval_def right_diff_distrib)
    then have "\<bar>s * z - numval a / numval b\<bar> = \<bar>z - absval a / absval b\<bar>" by (simp add: abs_mult s_def sgnval_def)
    with d trunc_strip_is [OF v(2), of rnd r, unfolded v(3), folded z_def] 3(1) v(1) show ?thesis by (simp add: num_is_def leads_def)
  qed
qed

theorem div_var_fast_accurate_witness:
  "\<exists>v. div_var_fast \<lparr>weight = 0, sign = 0, dscale = 0, digits = [10]\<rparr> \<lparr>weight = 0, sign = 16384, dscale = 0, digits = [3]\<rparr>
     numeric_init 20 True = Inr v \<and> \<bar>numval v + 10 / 3\<bar> \<le> (1 / 2 + 1 / 10 ^ 14) * 10 powi (- 20)"
proof -
  define a b where "a = \<lparr>weight = 0, sign = 0, dscale = 0, digits = [10::int]\<rparr>"
    and "b = \<lparr>weight = 0, sign = 16384, dscale = 0, digits = [3::int]\<rparr>"
  have "num_lead a" "num_ok b" "\<not> (digits b = [] \<or> hd (digits b) = 0)" by (simp_all add: a_def b_def num_lead_def num_ok_def)
  with div_var_fast_accurate [OF this(1,2), of numeric_init 20 True] obtain v
    where v: "div_var_fast a b numeric_init 20 True = Inr v" "\<bar>numval v - numval a / numval b\<bar> \<le> (1 / 2 + fast_error a b 20) * 10 powi (- 20)"
    by auto
  have q: "numval a / numval b = - (10 / 3)" by (simp add: a_def b_def numval_def sgnval_def absval_def ndigits_def)
  have "fast_error a b 20 \<le> 1 / 10 ^ 14" by (simp add: fast_error_def fast_ndigits_def a_def b_def ndigits_def sdiv_nonneg)
  then have "(1 / 2 + fast_error a b 20) * 10 powi (- 20) \<le> (1 / 2 + 1 / 10 ^ 14) * 10 powi (- 20)" by (intro mult_right_mono) simp_all
  with v(2) have "\<bar>numval v + 10 / 3\<bar> \<le> (1 / 2 + 1 / 10 ^ 14) * 10 powi (- 20)" unfolding q by simp
  with v(1) show ?thesis unfolding a_def b_def by blast
qed

end
