(* ===== verification/Connection.thy ===== *)
theory Connection
  imports Prelude
begin

text \<open>
  One connection of the pool: class \<open>connection\<close> of \<open>data_connection_pool.h\<close> with its
  operations in \<open>data_connection_pool.cpp\<close>. A method that changes the object and may throw
  returns the object as the throw leaves it, beside the result.

  libpq is not part of the repository: what it answers during a call is an argument, the record
  \<open>env\<close>, together with the reading of the system clock. Nothing is assumed of it; the
  properties hold for every answer.
\<close>

section \<open>What a call sees of libpq and of the clock\<close>

text \<open>
  \<open>PQexec_ok sql\<close> says that \<open>PQresultStatus(PQexec(conn, sql))\<close> is
  \<open>PGRES_COMMAND_OK\<close>; a null \<open>PGconn\<close> makes \<open>PQexec\<close> return null, whose status is
  a fatal error.
\<close>

record env =
  now :: int
  PQstatus_ok :: bool
  PQconnectdb_ok :: "string \<Rightarrow> bool"
  PQsetnonblocking_fails :: bool
  PQsocket :: int
  PQexec_ok :: "string \<Rightarrow> bool"
  PQerrorMessage :: string

section \<open>State\<close>

text \<open>
  \<open>c_conn\<close> says that the \<open>PGconn\<close> pointer is not null. \<open>c_owner\<close> is the database
  object that \<open>_owner\<close> points to, by its number.
\<close>

record connection =
  c_res :: int
  c_running :: int
  c_id :: string
  c_connection_string :: string
  c_in_transaction :: bool
  c_conn :: bool
  c_sock_fd :: int
  c_owner :: "nat option"
  c_last_modification_date :: int

definition connection_init :: "env \<Rightarrow> string \<Rightarrow> string \<Rightarrow> connection" where
  "connection_init e cid cs = \<lparr> c_res = 0, c_running = 0, c_id = cid, c_connection_string = cs,
     c_in_transaction = False, c_conn = False, c_sock_fd = - 1, c_owner = None,
     c_last_modification_date = now e \<rparr>"

section \<open>Operations\<close>

definition is_opened :: "env \<Rightarrow> connection \<Rightarrow> bool" where
  "is_opened e c \<longleftrightarrow> c_conn c \<and> PQstatus_ok e"

definition touch :: "env \<Rightarrow> connection \<Rightarrow> connection" where
  "touch e c = c \<lparr> c_last_modification_date := now e \<rparr>"

definition close_connection :: "env \<Rightarrow> connection \<Rightarrow> connection" where
  "close_connection e c =
    (let c = touch e c in
     if \<not> c_conn c then c else c \<lparr> c_conn := False, c_in_transaction := False \<rparr>)"

text \<open>
  The handle of a failed connection is closed first; a handle that is still good is kept; a new
  one that cannot be opened is freed before the throw, but not when only the switch to
  non-blocking mode fails.
\<close>

definition open_connection :: "env \<Rightarrow> connection \<Rightarrow> unit result \<times> connection" where
  "open_connection e c =
    (let c = touch e c;
         c = (if c_conn c \<and> \<not> PQstatus_ok e then close_connection e c else c) in
     if c_conn c then (Inr (), c)
     else if PQconnectdb_ok e (c_connection_string c) then
       if PQsetnonblocking_fails e then
         (Inl (PqException ''Unable to set connection to non blocking''), c \<lparr> c_conn := True \<rparr>)
       else (Inr (), c \<lparr> c_conn := True, c_sock_fd := PQsocket e \<rparr>)
     else (Inl (PqException (PQerrorMessage e)), c \<lparr> c_conn := False \<rparr>))"

definition reserve :: "env \<Rightarrow> connection \<Rightarrow> connection" where
  "reserve e c = touch e (c \<lparr> c_running := 2 \<rparr>)"

definition start_work :: "env \<Rightarrow> connection \<Rightarrow> connection" where
  "start_work e c =
    touch e (if c_running c = 0 \<or> c_running c = 2 then c \<lparr> c_running := 1 \<rparr> else c)"

definition stop_work :: "env \<Rightarrow> connection \<Rightarrow> connection" where
  "stop_work e c = touch e (c \<lparr> c_running := 0 \<rparr>)"

definition running :: "connection \<Rightarrow> bool" where
  "running c \<longleftrightarrow> c_running c \<noteq> 0"

definition can_be_stolen :: "connection \<Rightarrow> bool" where
  "can_be_stolen c \<longleftrightarrow> \<not> c_in_transaction c \<and> c_running c = 0"

definition in_transaction :: "connection \<Rightarrow> bool" where
  "in_transaction c \<longleftrightarrow> c_in_transaction c"

definition lock :: "env \<Rightarrow> connection \<Rightarrow> bool \<times> connection" where
  "lock e c = (if c_res c = 0 then (True, stop_work e (c \<lparr> c_res := 1 \<rparr>)) else (False, c))"

definition PQexec :: "env \<Rightarrow> connection \<Rightarrow> string \<Rightarrow> bool" where
  "PQexec e c sql \<longleftrightarrow> c_conn c \<and> PQexec_ok e sql"

definition release :: "env \<Rightarrow> connection \<Rightarrow> unit result \<times> connection" where
  "release e c =
    (let c = c \<lparr> c_owner := None \<rparr> in
     if c_in_transaction c \<and> \<not> PQexec e c ''ROLLBACK'' then
       (Inl (PqException (PQerrorMessage e)), c)
     else
       (let c = (if c_in_transaction c then c \<lparr> c_in_transaction := False \<rparr> else c);
            c = (if 0 < c_res c then c \<lparr> c_res := 0 \<rparr> else c) in
        (Inr (), stop_work e c)))"

text \<open>The time limit is \<open>now() - seconds(-15)\<close>, fifteen seconds in the future (the clock is
  in milliseconds).\<close>

definition is_dead :: "env \<Rightarrow> connection \<Rightarrow> bool" where
  "is_dead e c \<longleftrightarrow>
    \<not> (c_in_transaction c \<or> 0 < c_res c) \<and> c_last_modification_date c < now e - (- 15000)"

subsection \<open>Transactions\<close>

definition begin_transaction :: "env \<Rightarrow> connection \<Rightarrow> unit result \<times> connection" where
  "begin_transaction e c =
    (if c_in_transaction c then (Inl (PqException ''Already in a transaction!''), c)
     else case open_connection e c of
       (Inl err, c) \<Rightarrow> (Inl err, c)
     | (Inr _, c) \<Rightarrow>
         if PQexec e c ''BEGIN'' then (Inr (), c \<lparr> c_in_transaction := True \<rparr>)
         else (Inl (PqException (PQerrorMessage e)), c))"

text \<open>\<open>commit_transaction\<close> and \<open>rollback_transaction\<close> differ in the command only.\<close>

definition end_transaction :: "string \<Rightarrow> env \<Rightarrow> connection \<Rightarrow> unit result \<times> connection" where
  "end_transaction sql e c =
    (let c = touch e c in
     if \<not> c_in_transaction c then (Inl (PqException ''Not in a transaction!''), c)
     else if PQexec e c sql then (Inr (), c \<lparr> c_in_transaction := False \<rparr>)
     else (Inl (PqException (PQerrorMessage e)), c))"

definition commit_transaction :: "env \<Rightarrow> connection \<Rightarrow> unit result \<times> connection" where
  "commit_transaction = end_transaction ''COMMIT''"

definition rollback_transaction :: "env \<Rightarrow> connection \<Rightarrow> unit result \<times> connection" where
  "rollback_transaction = end_transaction ''ROLLBACK''"

definition set_savepoint :: "env \<Rightarrow> string \<Rightarrow> connection \<Rightarrow> unit result \<times> connection" where
  "set_savepoint e name c =
    (let c = touch e c in
     if \<not> c_in_transaction c then (Inl (PqException ''Not in a transaction!''), c)
     else if PQexec e c (''SAVEPOINT '' @ name) then (Inr (), c)
     else (Inl (PqException (PQerrorMessage e)), c))"

definition release_savepoint :: "env \<Rightarrow> string \<Rightarrow> connection \<Rightarrow> unit result \<times> connection" where
  "release_savepoint e name c =
    (let c = touch e c in
     if \<not> c_in_transaction c then (Inl (PqException ''Not in a transaction!''), c)
     else if PQexec e c (''RELEASE SAVEPOINT '' @ name) then (Inr (), c)
     else (Inl (PqException (PQerrorMessage e)), c))"

text \<open>\<open>rollback_savepoint\<close> returns normally when the command fails.\<close>

definition rollback_savepoint :: "env \<Rightarrow> string \<Rightarrow> connection \<Rightarrow> unit result \<times> connection" where
  "rollback_savepoint e name c =
    (let c = touch e c in
     if \<not> c_in_transaction c then (Inl (PqException ''Not in a transaction!''), c)
     else if PQexec e c (''ROLLBACK TO SAVEPOINT '' @ name) then (Inr (), c)
     else (Inr (), c))"

subsection \<open>\<open>connection_lock_t\<close>\<close>

definition connection_lock_ctor :: "env \<Rightarrow> connection \<Rightarrow> unit result \<times> connection" where
  "connection_lock_ctor e c =
    (if c_running c = 1 then
       (Inl (PqException ''unable to lock the connection because it's already locked''), c)
     else (Inr (), start_work e c))"

definition connection_lock_dtor :: "env \<Rightarrow> connection \<Rightarrow> connection" where
  "connection_lock_dtor e c = stop_work e c"

section \<open>What every operation keeps\<close>

text \<open>
  The invariant of the object: \<open>_res\<close> is 0 or 1, \<open>_running\<close> is 0 (idle), 1 (locked) or 2
  (reserved), and a transaction needs an open handle.
\<close>

definition conn_ok :: "connection \<Rightarrow> bool" where
  "conn_ok c \<longleftrightarrow> c_res c \<in> {0, 1} \<and> c_running c \<in> {0, 1, 2} \<and> (c_in_transaction c \<longrightarrow> c_conn c)"

text \<open>
  The contract of a method of \<open>connection\<close> seen from the pool: it keeps the invariant and the
  two fields that never change after construction. The pool's lemmas are proved from it once
  for all methods.
\<close>

locale conn_method =
  fixes f :: "connection \<Rightarrow> connection"
  assumes keeps_ok: "conn_ok c \<Longrightarrow> conn_ok (f c)"
    and keeps_id: "c_id (f c) = c_id c"
    and keeps_string: "c_connection_string (f c) = c_connection_string c"

text \<open>
  The methods that work on a connection without passing it on keep its reservation and its
  owner as well.
\<close>

locale conn_work = conn_method +
  assumes keeps_res: "c_res (f c) = c_res c"
    and keeps_owner: "c_owner (f c) = c_owner c"

lemmas conn_defs = touch_def close_connection_def open_connection_def reserve_def start_work_def
  stop_work_def lock_def release_def begin_transaction_def end_transaction_def
  commit_transaction_def rollback_transaction_def set_savepoint_def release_savepoint_def
  rollback_savepoint_def connection_lock_ctor_def connection_lock_dtor_def Let_def

interpretation lock: conn_method "\<lambda>c. snd (lock e c)" for e
  by unfold_locales (auto simp: conn_defs conn_ok_def)

interpretation release: conn_method "\<lambda>c. snd (release e c)" for e
  by unfold_locales (auto simp: conn_defs conn_ok_def)

interpretation reserve: conn_work "reserve e" for e
  by unfold_locales (auto simp: conn_defs conn_ok_def)

interpretation start_work: conn_work "start_work e" for e
  by unfold_locales (auto simp: conn_defs conn_ok_def)

interpretation stop_work: conn_work "stop_work e" for e
  by unfold_locales (auto simp: conn_defs conn_ok_def)

interpretation open_connection: conn_work "\<lambda>c. snd (open_connection e c)" for e
  by unfold_locales (auto simp: conn_defs conn_ok_def)

interpretation begin_transaction: conn_work "\<lambda>c. snd (begin_transaction e c)" for e
  by unfold_locales
    (auto simp: conn_defs conn_ok_def PQexec_def split: prod.splits sum.splits if_splits)

interpretation end_transaction: conn_work "\<lambda>c. snd (end_transaction sql e c)" for sql e
  by unfold_locales (auto simp: conn_defs conn_ok_def)

interpretation set_savepoint: conn_work "\<lambda>c. snd (set_savepoint e name c)" for e name
  by unfold_locales (auto simp: conn_defs conn_ok_def)

interpretation release_savepoint: conn_work "\<lambda>c. snd (release_savepoint e name c)" for e name
  by unfold_locales (auto simp: conn_defs conn_ok_def)

interpretation rollback_savepoint: conn_work "\<lambda>c. snd (rollback_savepoint e name c)" for e name
  by unfold_locales (auto simp: conn_defs conn_ok_def)

interpretation lock_ctor: conn_work "\<lambda>c. snd (connection_lock_ctor e c)" for e
  by unfold_locales (auto simp: conn_defs conn_ok_def)

interpretation set_owner: conn_method "c_owner_update (\<lambda>_. d)" for d
  by unfold_locales (auto simp: conn_ok_def)

lemma connection_init_ok [simp]: "conn_ok (connection_init e cid cs)"
  by (simp add: connection_init_def conn_ok_def)

section \<open>Transactions\<close>

text \<open>
  The transaction flag follows the commands that succeed: \<open>begin_transaction\<close> returns
  normally exactly when it takes the flag from off to on, \<open>commit_transaction\<close> and
  \<open>rollback_transaction\<close> exactly when they take it from on to off; a call that throws leaves
  the flag as it was, and outside a transaction the last two throw whatever the server says.
\<close>

theorem transaction_flag:
  assumes "conn_ok c"
  shows "(fst (begin_transaction e c) = Inr () \<longleftrightarrow>
      \<not> c_in_transaction c \<and> c_in_transaction (snd (begin_transaction e c))) \<and>
    (fst (begin_transaction e c) \<noteq> Inr () \<longrightarrow>
      c_in_transaction (snd (begin_transaction e c)) = c_in_transaction c) \<and>
    (\<forall>f \<in> {commit_transaction e, rollback_transaction e}.
      (fst (f c) = Inr () \<longleftrightarrow> c_in_transaction c \<and> \<not> c_in_transaction (snd (f c))) \<and>
      (fst (f c) \<noteq> Inr () \<longrightarrow> c_in_transaction (snd (f c)) = c_in_transaction c) \<and>
      (\<not> c_in_transaction c \<longrightarrow> fst (f c) = Inl (PqException ''Not in a transaction!'')))"
  using assms by (auto simp: conn_defs PQexec_def conn_ok_def split: prod.splits sum.splits if_splits)

text \<open>
  \<open>rollback_savepoint\<close> reports nothing: inside a transaction it returns normally whether
  or not the server could roll back, while \<open>set_savepoint\<close> and \<open>release_savepoint\<close> return
  normally exactly when the command succeeded.
\<close>

theorem rollback_savepoint_silent:
  assumes "c_in_transaction c"
  shows "fst (rollback_savepoint e name c) = Inr () \<and>
    (fst (set_savepoint e name c) = Inr () \<longleftrightarrow> PQexec e c (''SAVEPOINT '' @ name)) \<and>
    (fst (release_savepoint e name c) = Inr () \<longleftrightarrow> PQexec e c (''RELEASE SAVEPOINT '' @ name))"
  using assms by (auto simp: conn_defs PQexec_def)

definition open_sample :: connection where
  "open_sample = \<lparr> c_res = 1, c_running = 1, c_id = ''0'', c_connection_string = ''host=db'',
     c_in_transaction = True, c_conn = True, c_sock_fd = 7, c_owner = Some 0,
     c_last_modification_date = 0 \<rparr>"

definition failing_env :: env where
  "failing_env = \<lparr> now = 1, PQstatus_ok = True, PQconnectdb_ok = (\<lambda>_. True),
     PQsetnonblocking_fails = False, PQsocket = 7, PQexec_ok = (\<lambda>_. False), PQerrorMessage = ''lost'' \<rparr>"

theorem transaction_flag_witness:
  "fst (commit_transaction failing_env open_sample) \<noteq> Inr () \<and>
   c_in_transaction (snd (commit_transaction failing_env open_sample))"
proof -
  have "conn_ok open_sample" by (simp add: open_sample_def conn_ok_def)
  moreover have "fst (commit_transaction failing_env open_sample) \<noteq> Inr ()"
    by (simp add: conn_defs PQexec_def open_sample_def failing_env_def)
  ultimately show ?thesis using transaction_flag [of open_sample failing_env] by (simp add: open_sample_def)
qed

theorem rollback_savepoint_silent_witness:
  "fst (rollback_savepoint failing_env ''a'' open_sample) = Inr () \<and>
   fst (set_savepoint failing_env ''a'' open_sample) \<noteq> Inr ()"
  using rollback_savepoint_silent [of open_sample failing_env "''a''"]
  by (simp add: open_sample_def failing_env_def PQexec_def)

end
