(* ===== verification/Pool.thy ===== *)
theory Pool
  imports Connection "HOL-Library.List_Lexorder" "HOL-Library.Char_ord"
begin

text \<open>
  The connection pool: class \<open>connection_pool\<close> of \<open>data_connection_pool.h\<close> and
  \<open>data_connection_pool.cpp\<close>. Connections and database objects are shared through pointers
  (a connection points to its owner, a database to its connection), so the state is an explicit
  store: a connection's address is the number of its creation (\<open>s_next_id\<close>), from which
  \<open>md::num_to_str\<close>, a function outside the repository and a parameter here, makes its id.

  Every operation runs under the pool's mutex (or on one thread), so it is one atomic step.
\<close>

section \<open>State\<close>

text \<open>
  Of a \<open>database_t\<close> the pool sees the pointer \<open>_conn\<close>. \<open>next_conn\<close> is
  \<open>s_next_id + 1\<close>.
\<close>

record pool =
  conns :: "nat \<Rightarrow> connection option"
  pools :: "string \<Rightarrow> nat list option"
  db_conn :: "nat \<Rightarrow> nat option"
  next_conn :: nat
  last_stolen_conn_id :: string
  max_conn :: int

text \<open>Following a pointer, and calling a method on the object it points to.\<close>

definition conn_at :: "pool \<Rightarrow> nat \<Rightarrow> connection" where
  "conn_at s p = the (conns s p)"

definition upd_conn :: "nat \<Rightarrow> (connection \<Rightarrow> connection) \<Rightarrow> pool \<Rightarrow> pool" where
  "upd_conn p f s = s \<lparr> conns := (conns s)(p \<mapsto> f (conn_at s p)) \<rparr>"

definition set_db_conn :: "nat \<Rightarrow> nat option \<Rightarrow> pool \<Rightarrow> pool" where
  "set_db_conn d x s = s \<lparr> db_conn := (db_conn s)(d := x) \<rparr>"

text \<open>\<open>if(con->_owner) con->_owner->_conn = NULL;\<close>\<close>

definition clear_owner_conn :: "nat \<Rightarrow> pool \<Rightarrow> pool" where
  "clear_owner_conn p s =
    (case c_owner (conn_at s p) of None \<Rightarrow> s | Some d \<Rightarrow> set_db_conn d None s)"

text \<open>The destructor closes the handle; the object is gone.\<close>

definition delete_connection :: "nat \<Rightarrow> pool \<Rightarrow> pool" where
  "delete_connection p s = s \<lparr> conns := (conns s)(p := None) \<rparr>"

definition new_connection :: "(int \<Rightarrow> string) \<Rightarrow> env \<Rightarrow> string \<Rightarrow> pool \<Rightarrow> nat \<times> pool" where
  "new_connection num_to_str e cs s =
    (let p = next_conn s in
     (p, s \<lparr> conns := (conns s)(p \<mapsto> connection_init e (num_to_str (int p)) cs),
             next_conn := p + 1 \<rparr>))"

section \<open>Operations\<close>

subsection \<open>Finding the pool of a connection string and cleaning it up\<close>

definition find_pool :: "string \<Rightarrow> pool \<Rightarrow> nat list \<times> pool" where
  "find_pool cs s = (case pools s cs of
     None \<Rightarrow> ([], s \<lparr> pools := (pools s)(cs \<mapsto> []) \<rparr>)
   | Some l \<Rightarrow> (l, s))"

text \<open>
  \<open>for(i = size - 1; i > 4; --i)\<close>: the loop visits the positions above 4 from the last one
  down, deletes a dead connection and erases its entry.
\<close>

fun clean_loop :: "env \<Rightarrow> nat \<Rightarrow> nat list \<Rightarrow> pool \<Rightarrow> nat list \<times> pool" where
  "clean_loop e i l s =
    (if i \<le> 4 then (l, s)
     else
       let p = l ! i in
       if is_dead e (conn_at s p) then
         clean_loop e (i - 1) (take i l @ drop (Suc i) l) (delete_connection p (clear_owner_conn p s))
       else clean_loop e (i - 1) l s)"

declare clean_loop.simps [simp del]

definition clean_dead :: "env \<Rightarrow> string \<Rightarrow> nat list \<Rightarrow> pool \<Rightarrow> nat list \<times> pool" where
  "clean_dead e cs l s =
    (let (l', s') = (if 4 < length l then clean_loop e (length l - 1) l s else (l, s)) in
     (l', s' \<lparr> pools := (pools s')(cs \<mapsto> l') \<rparr>))"

definition get_opened_connection_count :: "env \<Rightarrow> string \<Rightarrow> pool \<Rightarrow> int \<times> pool" where
  "get_opened_connection_count e cs s =
    (let (l, s) = find_pool cs s;
         (l, s) = clean_dead e cs l s in
     (int (length (filter (\<lambda>p. c_res (conn_at s p) = 1) l)), s))"

subsection \<open>Handing out a connection\<close>

definition push_new :: "(int \<Rightarrow> string) \<Rightarrow> env \<Rightarrow> string \<Rightarrow> nat list \<Rightarrow> pool \<Rightarrow> nat \<times> pool" where
  "push_new num_to_str e cs l s =
    (let (p, s) = new_connection num_to_str e cs s in
     (p, s \<lparr> pools := (pools s)(cs \<mapsto> l @ [p]) \<rparr>))"

text \<open>The loop that takes the first connection whose \<open>lock()\<close> succeeds.\<close>

primrec reuse_loop :: "env \<Rightarrow> nat \<Rightarrow> nat list \<Rightarrow> pool \<Rightarrow> (nat \<times> pool) option" where
  "reuse_loop e owner [] s = None"
| "reuse_loop e owner (p # l) s =
    (case lock e (conn_at s p) of
       (True, c) \<Rightarrow> Some (p, upd_conn p (\<lambda>_. c \<lparr> c_owner := Some owner \<rparr>) s)
     | (False, c) \<Rightarrow> reuse_loop e owner l s)"

text \<open>The order of stealing: ids above the last stolen one first, compared as strings.\<close>

definition steal_order :: "nat list \<Rightarrow> pool \<Rightarrow> nat list" where
  "steal_order l s =
    filter (\<lambda>p. last_stolen_conn_id s < c_id (conn_at s p)) l @
    filter (\<lambda>p. c_id (conn_at s p) \<le> last_stolen_conn_id s) l"

definition steal :: "env \<Rightarrow> nat \<Rightarrow> nat \<Rightarrow> pool \<Rightarrow> pool" where
  "steal e owner p s =
    (let s = clear_owner_conn p s;
         s = upd_conn p (\<lambda>c. reserve e (c \<lparr> c_owner := Some owner \<rparr>)) s in
     s \<lparr> last_stolen_conn_id := c_id (conn_at s p) \<rparr>)"

primrec steal_pass :: "env \<Rightarrow> nat \<Rightarrow> nat list \<Rightarrow> pool \<Rightarrow> (nat \<times> pool) option" where
  "steal_pass e owner [] s = None"
| "steal_pass e owner (p # l) s =
    (if can_be_stolen (conn_at s p) then Some (p, steal e owner p s) else steal_pass e owner l s)"

text \<open>
  The \<open>do ... while(timeout_date > now())\<close> around it. The list holds the clock readings of
  the loop's condition; None means that the loop wants another pass after the last reading.
  Inr None is the loop left without a connection.
\<close>

primrec steal_wait ::
  "env \<Rightarrow> nat \<Rightarrow> int \<Rightarrow> int list \<Rightarrow> nat list \<Rightarrow> pool \<Rightarrow> (nat \<times> pool) option option" where
  "steal_wait e owner timeout_date [] l s =
    (case steal_pass e owner l s of Some r \<Rightarrow> Some (Some r) | None \<Rightarrow> None)"
| "steal_wait e owner timeout_date (t # ts) l s =
    (case steal_pass e owner l s of
       Some r \<Rightarrow> Some (Some r)
     | None \<Rightarrow> if t < timeout_date then steal_wait e owner timeout_date ts l s else Some None)"

definition INT32_MAX :: int where "INT32_MAX = 2147483647"

text \<open>
  The three stages of \<open>_get_connection\<close>. The first makes the first connection of an empty
  pool; the second takes a free one or makes another, without an owner; the third steals.
\<close>

definition create_first ::
  "(int \<Rightarrow> string) \<Rightarrow> env \<Rightarrow> nat \<Rightarrow> string \<Rightarrow> nat list \<Rightarrow> pool \<Rightarrow> nat option \<times> nat list \<times> pool" where
  "create_first num_to_str e owner cs l s =
    (if length l = 0 then
       (let (p, s) = push_new num_to_str e cs l s;
            (ok, c) = lock e (conn_at s p) in
        if ok then (Some p, l @ [p], upd_conn p (\<lambda>_. c \<lparr> c_owner := Some owner \<rparr>) s)
        else (None, l @ [p], s))
     else (None, l, s))"

definition create_more ::
  "(int \<Rightarrow> string) \<Rightarrow> env \<Rightarrow> string \<Rightarrow> nat list \<Rightarrow> pool \<Rightarrow> nat result \<times> pool" where
  "create_more num_to_str e cs l s =
    (let (p, s) = push_new num_to_str e cs l s;
         (ok, c) = lock e (conn_at s p) in
     if ok then (Inr p, upd_conn p (\<lambda>_. c) s)
     else (Inl (PqException ''pq_async::connection_pool: unable to assign a connection''), s))"

definition steal_stage ::
  "(int \<Rightarrow> string) \<Rightarrow> env \<Rightarrow> int list \<Rightarrow> nat \<Rightarrow> string \<Rightarrow> int \<Rightarrow> nat list \<Rightarrow> pool \<Rightarrow>
   (nat result \<times> pool) option" where
  "steal_stage num_to_str e clk owner cs timeout_ms l s =
    (let timeout_ms = (if timeout_ms \<le> 0 then INT32_MAX else timeout_ms);
         timeout_date = now e - timeout_ms in
     case steal_wait e owner timeout_date clk (steal_order l s) s of
       None \<Rightarrow> None
     | Some (Some (p, s)) \<Rightarrow> Some (Inr p, s)
     | Some None \<Rightarrow>
         (let (n, s) = get_opened_connection_count e cs s in
          Some (Inl (PoolAssignException
            (''unable to assign a connection because max connection '' @
             ''count reached, connection count is '' @ [CHR 0x27] @ num_to_str n @ [CHR 0x27])), s)))"

text \<open>
  \<open>_get_connection\<close>. \<open>clk\<close> holds the clock readings of the stealing loop. The result is
  None when the loop has not ended within these readings.
\<close>

definition get_connection ::
  "(int \<Rightarrow> string) \<Rightarrow> env \<Rightarrow> int list \<Rightarrow> nat \<Rightarrow> string \<Rightarrow> int \<Rightarrow> pool \<Rightarrow> (nat result \<times> pool) option"
where
  "get_connection num_to_str e clk owner cs timeout_ms s =
    (let (l, s) = find_pool cs s;
         (l, s) = clean_dead e cs l s;
         con_size = int (length l) in
     case create_first num_to_str e owner cs l s of
       (Some p, _, s) \<Rightarrow> Some (Inr p, s)
     | (None, l, s) \<Rightarrow>
         if con_size < max_conn s then
           (case reuse_loop e owner l s of
              Some (p, s) \<Rightarrow> Some (Inr p, s)
            | None \<Rightarrow> Some (create_more num_to_str e cs l s))
         else steal_stage num_to_str e clk owner cs timeout_ms l s)"

subsection \<open>Destruction\<close>

text \<open>
  The destructor's loop over one pool: \<open>for(i = 0; i < size; ++i)\<close> deletes the entry at
  \<open>i\<close> and erases it, then moves on. What is left in the vector is lost with it.
\<close>

function destroy_loop :: "nat \<Rightarrow> nat list \<Rightarrow> pool \<Rightarrow> nat list \<times> pool" where
  "destroy_loop i l s =
    (if i < length l then
       let p = l ! i in
       destroy_loop (i + 1) (take i l @ drop (Suc i) l) (delete_connection p (clear_owner_conn p s))
     else (l, s))"
  by auto

termination
  by (relation "measure (\<lambda>(i, l, s). length l - i)") auto

declare destroy_loop.simps [simp del]

section \<open>Well-formed pools\<close>

text \<open>
  Each pool lists distinct live connections of its connection string, at most \<open>_max_conn\<close> of
  them (one where \<open>_max_conn\<close> is smaller than one), and every live connection is listed.
\<close>

definition listed :: "pool \<Rightarrow> string \<Rightarrow> nat \<Rightarrow> bool" where
  "listed s cs p \<longleftrightarrow> (\<exists>l. pools s cs = Some l \<and> p \<in> set l)"

definition pool_wf :: "pool \<Rightarrow> bool" where
  "pool_wf s \<longleftrightarrow>
    (\<forall>cs l. pools s cs = Some l \<longrightarrow> distinct l \<and> int (length l) \<le> max 1 (max_conn s) \<and>
       (\<forall>p \<in> set l. \<exists>c. conns s p = Some c \<and> c_connection_string c = cs)) \<and>
    (\<forall>p c. conns s p = Some c \<longrightarrow>
       conn_ok c \<and> p < next_conn s \<and> listed s (c_connection_string c) p)"

lemma pool_wfD:
  assumes "pool_wf s" "pools s cs = Some l"
  shows "distinct l" "int (length l) \<le> max 1 (max_conn s)"
    "p \<in> set l \<Longrightarrow> conns s p = Some (conn_at s p) \<and> c_connection_string (conn_at s p) = cs"
  using assms unfolding pool_wf_def conn_at_def by fastforce+

lemma pool_wf_conn:
  assumes "pool_wf s" "conns s p = Some c"
  shows "conn_ok c" "p < next_conn s" "listed s (c_connection_string c) p"
  using assms unfolding pool_wf_def by blast+

text \<open>Methods of \<open>connection\<close>, called through a live pointer, keep a pool well formed.\<close>

context conn_method
begin

lemma wf_upd: "pool_wf s \<Longrightarrow> conns s p \<noteq> None \<Longrightarrow> pool_wf (upd_conn p f s)"
proof -
  assume wf: "pool_wf s" and "conns s p \<noteq> None"
  then obtain c where c: "conns s p = Some c" by auto
  have u: "conns (upd_conn p f s) q = (if q = p then Some (f c) else conns s q)"
    "pools (upd_conn p f s) = pools s" "max_conn (upd_conn p f s) = max_conn s"
    "next_conn (upd_conn p f s) = next_conn s"
    "listed (upd_conn p f s) cs q = listed s cs q" for q cs
    by (simp_all add: upd_conn_def conn_at_def c listed_def)
  show ?thesis
    unfolding pool_wf_def u
  proof (intro conjI allI impI ballI)
    fix cs l q assume l: "pools s cs = Some l"
    then show "distinct l" "int (length l) \<le> max 1 (max_conn s)" using pool_wfD [OF wf] by auto
    assume "q \<in> set l"
    then show "\<exists>c'. (if q = p then Some (f c) else conns s q) = Some c' \<and> c_connection_string c' = cs"
      using pool_wfD(3) [OF wf l] c keeps_string by auto
  next
    fix q c' assume "(if q = p then Some (f c) else conns s q) = Some c'"
    then show "conn_ok c'" "q < next_conn s" "listed s (c_connection_string c') q"
      using pool_wf_conn [OF wf] c keeps_ok keeps_string by (auto split: if_splits)
  qed
qed

end

lemma wf_set_db_conn [simp]: "pool_wf (set_db_conn d x s) \<longleftrightarrow> pool_wf s"
  by (simp add: pool_wf_def set_db_conn_def listed_def)

lemma set_db_conn_simps [simp]:
  "conns (set_db_conn d x s) = conns s" "pools (set_db_conn d x s) = pools s"
  "max_conn (set_db_conn d x s) = max_conn s" "next_conn (set_db_conn d x s) = next_conn s"
  "last_stolen_conn_id (set_db_conn d x s) = last_stolen_conn_id s"
  "db_conn (set_db_conn d x s) = (db_conn s)(d := x)"
  by (simp_all add: set_db_conn_def)

lemma clear_owner_conn_simps [simp]:
  "conns (clear_owner_conn p s) = conns s" "pools (clear_owner_conn p s) = pools s"
  "max_conn (clear_owner_conn p s) = max_conn s" "next_conn (clear_owner_conn p s) = next_conn s"
  "last_stolen_conn_id (clear_owner_conn p s) = last_stolen_conn_id s"
  "conn_at (clear_owner_conn p s) = conn_at s"
  "db_conn (clear_owner_conn p s) =
     (\<lambda>d. if c_owner (conn_at s p) = Some d then None else db_conn s d)"
  by (auto simp: clear_owner_conn_def conn_at_def split: option.split)

lemma wf_clear_owner_conn [simp]: "pool_wf (clear_owner_conn p s) \<longleftrightarrow> pool_wf s"
  by (simp add: clear_owner_conn_def split: option.split)

section \<open>The clean-up\<close>

text \<open>
  What the clean-up removes: the dead connections from the sixth position on. Their owners lose
  the pointer; nothing else changes.
\<close>

definition dead_tail :: "env \<Rightarrow> nat list \<Rightarrow> pool \<Rightarrow> nat set" where
  "dead_tail e l s = {p \<in> set (drop 5 l). is_dead e (conn_at s p)}"

definition drop_conns :: "nat set \<Rightarrow> pool \<Rightarrow> pool" where
  "drop_conns D s = s \<lparr> conns := (\<lambda>p. if p \<in> D then None else conns s p),
     db_conn := (\<lambda>d. if \<exists>p \<in> D. c_owner (conn_at s p) = Some d then None else db_conn s d) \<rparr>"

lemma drop_conns_empty [simp]: "drop_conns {} s = s"
  by (simp add: drop_conns_def)

lemma drop_conns_insert:
  assumes "p \<notin> D"
  shows "drop_conns D (delete_connection p (clear_owner_conn p s)) = drop_conns (insert p D) s"
proof -
  have "conn_at (delete_connection p (clear_owner_conn p s)) q = conn_at s q" if "q \<in> D" for q
    using that assms by (auto simp: conn_at_def delete_connection_def)
  then have "(\<exists>q \<in> D. c_owner (conn_at (delete_connection p (clear_owner_conn p s)) q) = Some d)
      \<longleftrightarrow> (\<exists>q \<in> D. c_owner (conn_at s q) = Some d)" for d
    by auto
  then show ?thesis
    by (auto simp: drop_conns_def delete_connection_def fun_eq_iff clear_owner_conn_def set_db_conn_def
        intro!: pool.equality split: option.split)
qed

lemma conn_at_delete [simp]: "q \<noteq> p \<Longrightarrow> conn_at (delete_connection p s) q = conn_at s q"
  by (simp add: conn_at_def delete_connection_def)

lemma clean_loop_eq:
  "distinct l \<Longrightarrow> 4 \<le> i \<Longrightarrow> i < length l \<Longrightarrow>
   clean_loop e i l s =
     (take 5 l @ filter (\<lambda>p. \<not> is_dead e (conn_at s p)) (drop 5 (take (Suc i) l)) @ drop (Suc i) l,
      drop_conns {p \<in> set (drop 5 (take (Suc i) l)). is_dead e (conn_at s p)} s)"
proof (induction i arbitrary: l s)
  case (Suc j)
  show ?case
  proof (cases "Suc j = 4")
    case True
    then show ?thesis by (simp add: clean_loop.simps)
  next
    case False
    define p where "p = l ! Suc j"
    define s1 where "s1 = delete_connection p (clear_owner_conn p s)"
    define l1 where "l1 = take (Suc j) l @ drop (Suc (Suc j)) l"
    have j: "4 \<le> j" "Suc j < length l" using False Suc.prems by auto
    have tk: "take (Suc (Suc j)) l = take (Suc j) l @ [p]"
      using j by (simp add: p_def take_Suc_conv_app_nth)
    then have dr: "drop 5 (take (Suc (Suc j)) l) = drop 5 (take (Suc j) l) @ [p]" using j by simp
    have "distinct (take (Suc (Suc j)) l)" using Suc.prems(1) by (rule distinct_take)
    then have pnew: "p \<notin> set (take (Suc j) l)" unfolding tk by simp
    then have pnew5: "p \<notin> set (drop 5 (take (Suc j) l))" by (meson in_set_dropD)
    show ?thesis
    proof (cases "is_dead e (conn_at s p)")
      case True
      have "set (take (Suc j) l) \<inter> set (drop (Suc (Suc j)) l) = {}"
        using Suc.prems(1) by (rule set_take_disj_set_drop_if_distinct) simp
      then have l1: "distinct l1" "j < length l1" "take 5 l1 = take 5 l"
        "take (Suc j) l1 = take (Suc j) l" "drop (Suc j) l1 = drop (Suc (Suc j)) l"
        using Suc.prems(1) j by (simp_all add: l1_def min_def)
      have same: "is_dead e (conn_at s1 q) \<longleftrightarrow> is_dead e (conn_at s q)"
        if "q \<in> set (drop 5 (take (Suc j) l))" for q
        using that pnew5 by (cases "q = p") (auto simp: s1_def)
      have "clean_loop e (Suc j) l s = clean_loop e j l1 s1"
        using True j by (subst clean_loop.simps) (simp add: Let_def p_def s1_def l1_def)
      also have "\<dots> = (take 5 l @ filter (\<lambda>p. \<not> is_dead e (conn_at s p)) (drop 5 (take (Suc j) l))
          @ drop (Suc (Suc j)) l,
        drop_conns {p \<in> set (drop 5 (take (Suc j) l)). is_dead e (conn_at s p)} s1)"
        unfolding Suc.IH [OF l1(1) j(1) l1(2)] l1 using same by (auto cong: filter_cong conj_cong)
      also have "drop_conns {p \<in> set (drop 5 (take (Suc j) l)). is_dead e (conn_at s p)} s1
        = drop_conns {p \<in> set (drop 5 (take (Suc (Suc j)) l)). is_dead e (conn_at s p)} s"
        unfolding s1_def dr using True pnew5
        by (subst drop_conns_insert) (auto intro!: arg_cong [where f = "\<lambda>D. drop_conns D s"])
      finally show ?thesis using True by (simp add: dr)
    next
      case False
      have "clean_loop e (Suc j) l s = clean_loop e j l s"
        using False j by (subst clean_loop.simps) (simp add: Let_def p_def)
      moreover have "drop (Suc j) l = p # drop (Suc (Suc j)) l"
        using j by (simp add: p_def Cons_nth_drop_Suc)
      moreover have "{q \<in> set (drop 5 (take (Suc (Suc j)) l)). is_dead e (conn_at s q)}
        = {q \<in> set (drop 5 (take (Suc j) l)). is_dead e (conn_at s q)}"
        unfolding dr using False by auto
      ultimately show ?thesis using Suc.IH [OF Suc.prems(1) j(1)] j False by (simp add: dr)
    qed
  qed
qed simp

definition cleaned :: "env \<Rightarrow> nat list \<Rightarrow> pool \<Rightarrow> nat list" where
  "cleaned e l s = take 5 l @ filter (\<lambda>p. \<not> is_dead e (conn_at s p)) (drop 5 l)"

definition set_pool :: "string \<Rightarrow> nat list \<Rightarrow> pool \<Rightarrow> pool" where
  "set_pool cs l s = s \<lparr> pools := (pools s)(cs \<mapsto> l) \<rparr>"

lemma clean_dead_eq:
  assumes "distinct l"
  shows "clean_dead e cs l s = (cleaned e l s, set_pool cs (cleaned e l s) (drop_conns (dead_tail e l s) s))"
proof (cases "4 < length l")
  case True
  then show ?thesis
    using clean_loop_eq [OF assms, of "length l - 1" e s]
    by (simp add: clean_dead_def cleaned_def dead_tail_def set_pool_def)
next
  case False
  then show ?thesis by (simp add: clean_dead_def cleaned_def dead_tail_def set_pool_def)
qed

text \<open>The pool of a connection string after the lookup and the clean-up that open every call.\<close>

definition pool_list :: "string \<Rightarrow> pool \<Rightarrow> nat list" where
  "pool_list cs s = (case pools s cs of None \<Rightarrow> [] | Some l \<Rightarrow> l)"

definition tidy :: "env \<Rightarrow> string \<Rightarrow> pool \<Rightarrow> pool" where
  "tidy e cs s = set_pool cs (cleaned e (pool_list cs s) s)
     (drop_conns (dead_tail e (pool_list cs s) s) s)"

lemma pool_list_wf:
  assumes "pool_wf s"
  shows "distinct (pool_list cs s)" "int (length (pool_list cs s)) \<le> max 1 (max_conn s)"
    "p \<in> set (pool_list cs s) \<Longrightarrow>
       conns s p = Some (conn_at s p) \<and> c_connection_string (conn_at s p) = cs"
  using pool_wfD [OF assms] by (cases "pools s cs"; simp add: pool_list_def)+

lemma tidy_simps [simp]:
  "pools (tidy e cs s) = (pools s)(cs \<mapsto> cleaned e (pool_list cs s) s)"
  "max_conn (tidy e cs s) = max_conn s" "next_conn (tidy e cs s) = next_conn s"
  "last_stolen_conn_id (tidy e cs s) = last_stolen_conn_id s"
  "conns (tidy e cs s) p = (if p \<in> dead_tail e (pool_list cs s) s then None else conns s p)"
  by (simp_all add: tidy_def set_pool_def drop_conns_def)

lemma pool_list_tidy [simp]: "pool_list cs (tidy e cs s) = cleaned e (pool_list cs s) s"
  by (simp add: pool_list_def)

lemma conn_at_tidy: "p \<notin> dead_tail e (pool_list cs s) s \<Longrightarrow> conn_at (tidy e cs s) p = conn_at s p"
  by (simp add: conn_at_def)

lemma set_cleaned:
  assumes "distinct l"
  shows "set (cleaned e l s) = set l - dead_tail e l s"
proof -
  have "set (take 5 l) \<inter> set (drop 5 l) = {}"
    using assms by (rule set_take_disj_set_drop_if_distinct) simp
  moreover have "set l = set (take 5 l) \<union> set (drop 5 l)"
    using set_append [of "take 5 l" "drop 5 l"] by simp
  ultimately show ?thesis by (auto simp: cleaned_def dead_tail_def)
qed

lemma cleaned_distinct:
  assumes "distinct l"
  shows "distinct (cleaned e l s)" "length (cleaned e l s) \<le> length l"
proof -
  have "set (take 5 l) \<inter> set (drop 5 l) = {}"
    using assms by (rule set_take_disj_set_drop_if_distinct) simp
  then show "distinct (cleaned e l s)" using assms by (auto simp: cleaned_def)
  have "length (filter (\<lambda>p. \<not> is_dead e (conn_at s p)) (drop 5 l)) \<le> length (drop 5 l)"
    by (rule length_filter_le)
  then show "length (cleaned e l s) \<le> length l" unfolding cleaned_def by (cases "length l \<le> 5") simp_all
qed

lemma cleaned_conn_at:
  assumes "pool_wf s" "p \<in> set (cleaned e (pool_list cs s) s)"
  shows "conn_at (tidy e cs s) p = conn_at s p" "conns (tidy e cs s) p = Some (conn_at s p)"
    "p \<in> set (pool_list cs s)"
  using assms pool_list_wf(1,3) [OF assms(1)] set_cleaned [of "pool_list cs s" e s]
  by (auto simp: conn_at_tidy)

lemma find_clean:
  assumes "pool_wf s"
  shows "(case find_pool cs s of (l, s) \<Rightarrow> clean_dead e cs l s)
    = (cleaned e (pool_list cs s) s, tidy e cs s)"
  using pool_list_wf(1) [OF assms, of cs]
  by (auto simp: find_pool_def clean_dead_eq tidy_def pool_list_def cleaned_def dead_tail_def
      set_pool_def split: option.splits)

lemma wf_tidy [simp, intro]:
  assumes "pool_wf s"
  shows "pool_wf (tidy e cs s)"
proof -
  note wf = pool_list_wf [OF assms]
  note cl = cleaned_distinct [OF wf(1) [of cs], of e s] set_cleaned [OF wf(1) [of cs], of e s]
  have oth: "l = pool_list cs' s \<and> p \<notin> dead_tail e (pool_list cs s) s"
    if "cs' \<noteq> cs" "pools s cs' = Some l" "p \<in> set l" for cs' l p
  proof
    show l: "l = pool_list cs' s" using that by (simp add: pool_list_def)
    have "c_connection_string (conn_at s p) = cs'" using wf(3) [of p cs'] that l by simp
    then show "p \<notin> dead_tail e (pool_list cs s) s"
      using wf(3) [of p cs] that by (auto simp: dead_tail_def dest: in_set_dropD)
  qed
  show ?thesis unfolding pool_wf_def tidy_simps
  proof (intro conjI allI impI ballI)
    fix cs' l p assume l: "((pools s)(cs \<mapsto> cleaned e (pool_list cs s) s)) cs' = Some l"
    show "distinct l" using l cl(1) pool_wfD(1) [OF assms, of cs'] by (cases "cs' = cs") auto
    have "int (length (cleaned e (pool_list cs s) s)) \<le> max 1 (max_conn s)"
      using cl(2) wf(2) [of cs] by linarith
    then show "int (length l) \<le> max 1 (max_conn s)"
      using l pool_wfD(2) [OF assms, of cs'] by (cases "cs' = cs") auto
    assume "p \<in> set l"
    then show "\<exists>c. (if p \<in> dead_tail e (pool_list cs s) s then None else conns s p) = Some c \<and>
      c_connection_string c = cs'"
      using l oth [of cs' l p] wf(3) [of p] cl(3) by (auto split: if_splits)
  next
    fix p c assume "(if p \<in> dead_tail e (pool_list cs s) s then None else conns s p) = Some c"
    then have c: "conns s p = Some c" "p \<notin> dead_tail e (pool_list cs s) s" by (auto split: if_splits)
    then show "conn_ok c" "p < next_conn s" using pool_wf_conn [OF assms] by blast+
    from pool_wf_conn(3) [OF assms c(1)] c(2) show "listed (tidy e cs s) (c_connection_string c) p"
      using cl(3) by (auto simp: listed_def pool_list_def)
  qed
qed

lemma tidy_idem:
  assumes "pool_wf s"
  shows "cleaned e (cleaned e (pool_list cs s) s) (tidy e cs s) = cleaned e (pool_list cs s) s"
    "tidy e cs (tidy e cs s) = tidy e cs s"
proof -
  define l where "l = pool_list cs s"
  define l' where "l' = cleaned e l s"
  have same: "conn_at (tidy e cs s) p = conn_at s p" if "p \<in> set l'" for p
    using cleaned_conn_at(1) [OF assms] that by (simp add: l'_def l_def)
  have dl: "p \<in> set l' \<and> \<not> is_dead e (conn_at s p)" if "p \<in> set (drop 5 l')" for p
  proof (cases "5 \<le> length l")
    case True
    then have "drop 5 l' = filter (\<lambda>p. \<not> is_dead e (conn_at s p)) (drop 5 l)"
      by (simp add: l'_def cleaned_def)
    with that in_set_dropD [OF that] show ?thesis by simp
  next
    case False
    then show ?thesis using that by (simp add: l'_def cleaned_def)
  qed
  have none: "dead_tail e l' (tidy e cs s) = {}"
    using dl same by (auto simp: dead_tail_def)
  have "filter (\<lambda>p. \<not> is_dead e (conn_at (tidy e cs s) p)) (drop 5 l') = drop 5 l'"
    using dl same by (intro filter_True) auto
  then show clean: "cleaned e (cleaned e (pool_list cs s) s) (tidy e cs s) = cleaned e (pool_list cs s) s"
    by (simp add: cleaned_def [of e l'] flip: l_def l'_def)
  show "tidy e cs (tidy e cs s) = tidy e cs s"
    using none clean
    by (subst (1) tidy_def) (simp add: l'_def l_def set_pool_def fun_upd_idem)
qed

section \<open>Which connection is handed out\<close>

text \<open>
  The specification of \<open>_get_connection\<close>: a decision on the cleaned pool, and what it does to
  the state. \<open>First\<close> and \<open>Grow\<close> make a connection, with and without an owner.
\<close>

datatype assignment = First | Reuse nat | Grow | Steal nat | Refuse

definition policy :: "nat list \<Rightarrow> pool \<Rightarrow> assignment" where
  "policy l s =
    (if l = [] then First
     else if int (length l) < max_conn s then
       (case find (\<lambda>p. c_res (conn_at s p) = 0) l of Some p \<Rightarrow> Reuse p | None \<Rightarrow> Grow)
     else
       (case find (\<lambda>p. can_be_stolen (conn_at s p)) (steal_order l s) of
          Some p \<Rightarrow> Steal p | None \<Rightarrow> Refuse))"

definition add_conn :: "(int \<Rightarrow> string) \<Rightarrow> env \<Rightarrow> nat option \<Rightarrow> string \<Rightarrow> nat list \<Rightarrow> pool \<Rightarrow> pool" where
  "add_conn num_to_str e ow cs l s =
    (let p = next_conn s in
     s \<lparr> conns := (conns s)(p \<mapsto> connection_init e (num_to_str (int p)) cs \<lparr> c_res := 1, c_owner := ow \<rparr>),
         next_conn := p + 1, pools := (pools s)(cs \<mapsto> l @ [p]) \<rparr>)"

definition take_conn :: "env \<Rightarrow> nat \<Rightarrow> nat \<Rightarrow> pool \<Rightarrow> pool" where
  "take_conn e owner p s = upd_conn p (\<lambda>c. (stop_work e (c \<lparr> c_res := 1 \<rparr>)) \<lparr> c_owner := Some owner \<rparr>) s"

definition refusal :: "(int \<Rightarrow> string) \<Rightarrow> nat list \<Rightarrow> pool \<Rightarrow> pq_error" where
  "refusal num_to_str l s = PoolAssignException
    (''unable to assign a connection because max connection '' @
     ''count reached, connection count is '' @ [CHR 0x27] @
     num_to_str (int (length (filter (\<lambda>p. c_res (conn_at s p) = 1) l))) @ [CHR 0x27])"

definition assign ::
  "(int \<Rightarrow> string) \<Rightarrow> env \<Rightarrow> nat \<Rightarrow> string \<Rightarrow> nat list \<Rightarrow> pool \<Rightarrow> nat result \<times> pool" where
  "assign num_to_str e owner cs l s =
    (case policy l s of
       First \<Rightarrow> (Inr (next_conn s), add_conn num_to_str e (Some owner) cs l s)
     | Reuse p \<Rightarrow> (Inr p, take_conn e owner p s)
     | Grow \<Rightarrow> (Inr (next_conn s), add_conn num_to_str e None cs l s)
     | Steal p \<Rightarrow> (Inr p, steal e owner p s)
     | Refuse \<Rightarrow> (Inl (refusal num_to_str l s), s))"

lemma steal_pass_find:
  "steal_pass e owner l s =
    map_option (\<lambda>p. (p, steal e owner p s)) (find (\<lambda>p. can_be_stolen (conn_at s p)) l)"
  by (induction l) simp_all

lemma reuse_loop_find:
  "reuse_loop e owner l s =
    map_option (\<lambda>p. (p, take_conn e owner p s)) (find (\<lambda>p. c_res (conn_at s p) = 0) l)"
  by (induction l) (simp_all add: lock_def take_conn_def upd_conn_def stop_work_def touch_def)

lemma create_first_eq:
  "create_first num_to_str e owner cs l s =
    (if l = [] then (Some (next_conn s), [next_conn s], add_conn num_to_str e (Some owner) cs l s)
     else (None, l, s))"
  by (simp add: create_first_def push_new_def new_connection_def Let_def lock_def conn_at_def
      connection_init_def add_conn_def upd_conn_def stop_work_def touch_def)

lemma create_more_eq:
  "create_more num_to_str e cs l s = (Inr (next_conn s), add_conn num_to_str e None cs l s)"
  by (simp add: create_more_def push_new_def new_connection_def Let_def lock_def conn_at_def
      connection_init_def add_conn_def upd_conn_def stop_work_def touch_def)

text \<open>
  The stealing loop is left after its first pass whenever the clock does not run backwards: its
  time limit lies in the past.
\<close>

lemma steal_wait_once:
  assumes "timeout_date \<le> t"
  shows "steal_wait e owner timeout_date (t # ts) l s = Some (steal_pass e owner l s)"
  using assms by (simp split: option.split)

lemma opened_count_tidy:
  assumes "pool_wf s"
  shows "get_opened_connection_count e cs s =
    (int (length (filter (\<lambda>p. c_res (conn_at (tidy e cs s) p) = 1) (cleaned e (pool_list cs s) s))),
     tidy e cs s)"
  unfolding get_opened_connection_count_def
  using find_clean [OF assms, where cs = cs and e = e] by (simp add: Let_def split_beta)

lemma count_tidy:
  assumes "pool_wf s"
  shows "get_opened_connection_count e cs (tidy e cs s) =
    (int (length (filter (\<lambda>p. c_res (conn_at (tidy e cs s) p) = 1) (cleaned e (pool_list cs s) s))),
     tidy e cs s)"
  using opened_count_tidy [OF wf_tidy [OF assms]] tidy_idem [OF assms] by simp

lemma steal_stage_eq:
  fixes cs :: string
  assumes "pool_wf s" "now e \<le> t"
  defines "l \<equiv> cleaned e (pool_list cs s) s"
  shows "steal_stage num_to_str e (t # ts) owner cs timeout_ms l (tidy e cs s) =
    Some (case find (\<lambda>p. can_be_stolen (conn_at (tidy e cs s) p)) (steal_order l (tidy e cs s)) of
        Some p \<Rightarrow> (Inr p, steal e owner p (tidy e cs s))
      | None \<Rightarrow> (Inl (refusal num_to_str l (tidy e cs s)), tidy e cs s))"
proof -
  define timeout_date where
    "timeout_date = now e - (if timeout_ms \<le> 0 then INT32_MAX else timeout_ms)"
  have "timeout_date \<le> t" using assms(2) by (auto simp: timeout_date_def INT32_MAX_def)
  note once = steal_wait_once [OF this]
  show ?thesis
    unfolding steal_stage_def Let_def [of "if timeout_ms \<le> 0 then INT32_MAX else timeout_ms"]
      timeout_date_def [symmetric] Let_def [of timeout_date] once steal_pass_find
    by (simp add: count_tidy [OF assms(1)] refusal_def l_def split: option.split)
qed

lemma get_connection_assign:
  assumes "pool_wf s" "now e \<le> t"
  shows "get_connection num_to_str e (t # ts) owner cs timeout_ms s =
    Some (assign num_to_str e owner cs (cleaned e (pool_list cs s) s) (tidy e cs s))"
proof -
  define l where "l = cleaned e (pool_list cs s) s"
  have st: "get_connection num_to_str e (t # ts) owner cs timeout_ms s =
    (case create_first num_to_str e owner cs l (tidy e cs s) of
       (Some p, _, s) \<Rightarrow> Some (Inr p, s)
     | (None, l', s) \<Rightarrow>
         if int (length l) < max_conn s then
           (case reuse_loop e owner l' s of
              Some (p, s) \<Rightarrow> Some (Inr p, s)
            | None \<Rightarrow> Some (create_more num_to_str e cs l' s))
         else steal_stage num_to_str e (t # ts) owner cs timeout_ms l' s)"
  proof -
    obtain l0 s0 where fp: "find_pool cs s = (l0, s0)" by (cases "find_pool cs s")
    then have "clean_dead e cs l0 s0 = (l, tidy e cs s)"
      using find_clean [OF assms(1), where cs = cs and e = e] by (simp add: l_def)
    with fp show ?thesis by (simp add: get_connection_def)
  qed
  show ?thesis
    unfolding st l_def [symmetric]
    using steal_stage_eq [OF assms, of num_to_str ts owner cs timeout_ms]
    by (simp add: create_first_eq create_more_eq reuse_loop_find assign_def policy_def
        l_def [symmetric] split: option.split)
qed

section \<open>Every call keeps the pool well formed\<close>

interpretation take: conn_method "\<lambda>c. (stop_work e (c \<lparr> c_res := 1 \<rparr>)) \<lparr> c_owner := Some d \<rparr>" for e d
  by unfold_locales (auto simp: conn_defs conn_ok_def)

interpretation stolen: conn_method "\<lambda>c. reserve e (c \<lparr> c_owner := Some d \<rparr>)" for e d
  by unfold_locales (auto simp: conn_defs conn_ok_def)

lemma add_conn_simps [simp]:
  "conns (add_conn num_to_str e ow cs l s) = (conns s)(next_conn s \<mapsto>
     connection_init e (num_to_str (int (next_conn s))) cs \<lparr> c_res := 1, c_owner := ow \<rparr>)"
  "pools (add_conn num_to_str e ow cs l s) = (pools s)(cs \<mapsto> l @ [next_conn s])"
  "max_conn (add_conn num_to_str e ow cs l s) = max_conn s"
  "next_conn (add_conn num_to_str e ow cs l s) = Suc (next_conn s)"
  "db_conn (add_conn num_to_str e ow cs l s) = db_conn s"
  by (simp_all add: add_conn_def Let_def)

lemma wf_add_conn:
  assumes wf: "pool_wf s" and l: "pools s cs = Some l" and room: "l = [] \<or> int (length l) < max_conn s"
  shows "pool_wf (add_conn num_to_str e ow cs l s)"
proof -
  let ?n = "next_conn s"
  have fresh: "conns s ?n = None" using pool_wf_conn(2) [OF wf, of ?n] by (cases "conns s ?n") auto
  have old: "p \<noteq> ?n" if "conns s p = Some c" for p c using that fresh by auto
  show ?thesis
    unfolding pool_wf_def add_conn_simps
  proof (intro conjI allI impI ballI)
    fix cs' l' p assume l': "((pools s)(cs \<mapsto> l @ [?n])) cs' = Some l'"
    show "distinct l'"
      using l' l pool_wfD(1,3) [OF wf, of cs'] fresh by (cases "cs' = cs") auto
    show "int (length l') \<le> max 1 (max_conn s)"
      using l' l room pool_wfD(2) [OF wf, of cs'] by (cases "cs' = cs") auto
    assume "p \<in> set l'"
    then show "\<exists>c. ((conns s)(?n \<mapsto> connection_init e (num_to_str (int ?n)) cs \<lparr>c_res := 1, c_owner := ow\<rparr>)) p
      = Some c \<and> c_connection_string c = cs'"
      using l' l pool_wfD(3) [OF wf, of cs' _ p] old
      by (cases "cs' = cs") (auto simp: connection_init_def split: if_splits)
  next
    fix p c assume c: "((conns s)(?n \<mapsto> connection_init e (num_to_str (int ?n)) cs
      \<lparr>c_res := 1, c_owner := ow\<rparr>)) p = Some c"
    show "conn_ok c" "p < Suc ?n"
      using c pool_wf_conn [OF wf, of p c] by (auto simp: connection_init_def conn_ok_def split: if_splits)
    show "listed (add_conn num_to_str e ow cs l s) (c_connection_string c) p"
      using c pool_wf_conn(3) [OF wf, of p c] l
      by (auto simp: listed_def connection_init_def split: if_splits)
  qed
qed

lemma upd_conn_simps [simp]:
  "pools (upd_conn p f s) = pools s" "max_conn (upd_conn p f s) = max_conn s"
  "next_conn (upd_conn p f s) = next_conn s" "db_conn (upd_conn p f s) = db_conn s"
  "conns (upd_conn p f s) q = (if q = p then Some (f (conn_at s p)) else conns s q)"
  "conn_at (upd_conn p f s) q = (if q = p then f (conn_at s p) else conn_at s q)"
  by (simp_all add: upd_conn_def conn_at_def)

lemma pool_wf_last_stolen [simp]: "pool_wf (s \<lparr> last_stolen_conn_id := x \<rparr>) \<longleftrightarrow> pool_wf s"
  by (simp add: pool_wf_def listed_def)

lemma steal_simps [simp]:
  "conns (steal e d p s) q =
     (if q = p then Some (reserve e (conn_at s p \<lparr> c_owner := Some d \<rparr>)) else conns s q)"
  "pools (steal e d p s) = pools s" "max_conn (steal e d p s) = max_conn s"
  "next_conn (steal e d p s) = next_conn s"
  "db_conn (steal e d p s) = (\<lambda>x. if c_owner (conn_at s p) = Some x then None else db_conn s x)"
  by (simp_all add: steal_def Let_def)

lemma conn_at_steal [simp]:
  "conn_at (steal e d p s) p = reserve e (conn_at s p \<lparr> c_owner := Some d \<rparr>)"
  by (simp add: conn_at_def [of "steal e d p s"])

lemma wf_steal: "pool_wf s \<Longrightarrow> conns s p \<noteq> None \<Longrightarrow> pool_wf (steal e d p s)"
  using stolen.wf_upd [of "clear_owner_conn p s" p e d] by (simp add: steal_def Let_def)

lemma set_steal_order: "set (steal_order l s) = set l"
  by (auto simp: steal_order_def)

lemma policy_cases:
  assumes "policy l s = a"
  shows "case a of
      First \<Rightarrow> l = []
    | Reuse p \<Rightarrow> p \<in> set l \<and> c_res (conn_at s p) = 0 \<and> int (length l) < max_conn s
    | Grow \<Rightarrow> l \<noteq> [] \<and> int (length l) < max_conn s \<and> (\<forall>p \<in> set l. c_res (conn_at s p) \<noteq> 0)
    | Steal p \<Rightarrow> p \<in> set l \<and> can_be_stolen (conn_at s p) \<and> max_conn s \<le> int (length l)
    | Refuse \<Rightarrow> l \<noteq> [] \<and> max_conn s \<le> int (length l) \<and> (\<forall>p \<in> set l. \<not> can_be_stolen (conn_at s p))"
  using assms set_steal_order [of l s]
  by (auto simp: policy_def find_None_iff find_Some_iff split: if_splits option.splits
      assignment.splits dest: nth_mem)

lemma wf_assign:
  assumes wf: "pool_wf s" and l: "pools s cs = Some l"
  shows "pool_wf (snd (assign num_to_str e owner cs l s))"
proof (cases "policy l s")
  case First
  with policy_cases [OF First] show ?thesis using wf_add_conn [OF wf l] by (simp add: assign_def)
next
  case (Reuse p)
  with policy_cases [OF Reuse] pool_wfD(3) [OF wf l, of p] show ?thesis
    using take.wf_upd [OF wf, where p = p and e = e and d = owner] by (simp add: assign_def take_conn_def)
next
  case Grow
  with policy_cases [OF Grow] show ?thesis using wf_add_conn [OF wf l] by (simp add: assign_def)
next
  case (Steal p)
  with policy_cases [OF Steal] pool_wfD(3) [OF wf l, of p] show ?thesis
    using wf_steal [OF wf, where p = p and e = e and d = owner] by (simp add: assign_def)
next
  case Refuse
  then show ?thesis using wf by (simp add: assign_def)
qed

lemma wf_assign_tidy:
  assumes "pool_wf s"
  shows "pool_wf (snd (assign num_to_str e owner cs (cleaned e (pool_list cs s) s) (tidy e cs s)))"
  using assms by (intro wf_assign) simp_all

section \<open>Properties of handing out connections\<close>

text \<open>
  C5: \<open>_get_connection\<close> implements the decision \<open>policy\<close> on the cleaned pool: the first
  connection of an empty pool, else the first free one or a new one while there is room, else
  the first in stealing order that is idle and not in a transaction, else the exception with the
  number of reserved connections. It returns after one reading of the clock: the wait announced
  by \<open>timeout_ms\<close> never takes place, whatever its value.
\<close>

theorem get_connection_refines:
  assumes "pool_wf s" "now e \<le> t"
  shows "get_connection num_to_str e [t] owner cs timeout_ms s =
    Some (assign num_to_str e owner cs (cleaned e (pool_list cs s) s) (tidy e cs s))"
  using assms by (rule get_connection_assign)

lemma assign_frame:
  assumes "assign num_to_str e owner cs l s = (Inr p, s')" "q \<noteq> p"
  shows "conns s' q = conns s q"
  using assms by (auto simp: assign_def take_conn_def split: assignment.splits)

lemma tidy_frame:
  assumes "pool_wf s"
  shows "conns (tidy e cs s) q = conns s q \<or>
    conns (tidy e cs s) q = None \<and> (\<exists>c. conns s q = Some c \<and> c_res c = 0 \<and> \<not> c_in_transaction c)"
proof (cases "q \<in> dead_tail e (pool_list cs s) s")
  case True
  then have q: "conns s q = Some (conn_at s q)" "is_dead e (conn_at s q)"
    using pool_list_wf(3) [OF assms, of q cs] by (auto simp: dead_tail_def dest: in_set_dropD)
  then show ?thesis using True pool_wf_conn(1) [OF assms q(1)] by (auto simp: is_dead_def conn_ok_def)
qed simp

lemma policy_tidy_at:
  assumes "pool_wf s" "p \<in> set (cleaned e (pool_list cs s) s)"
  shows "conns s p = Some (conn_at (tidy e cs s) p)"
  using cleaned_conn_at [OF assms] pool_list_wf(3) [OF assms(1), of p cs] by simp

lemma assign_result:
  assumes "assign num_to_str e owner cs l s = (Inr p, s')" "pools s cs = Some l"
  shows "listed s' cs p \<and> (p = next_conn s \<or>
    p \<in> set l \<and> (c_res (conn_at s p) = 0 \<or> can_be_stolen (conn_at s p)))"
  using assms policy_cases [OF refl, of l s]
  by (auto simp: assign_def listed_def take_conn_def split: assignment.splits)

text \<open>
  A connection that \<open>_get_connection\<close> hands out belongs to the pool of its connection
  string, and was new, or not reserved, or idle and outside a transaction: work in progress and
  open transactions are never taken from their owner. No other connection changes, except that
  unreserved ones without a transaction may be deleted; the pool stays well formed.
\<close>

theorem get_connection_safe:
  assumes "pool_wf s" "now e \<le> t"
    and "get_connection num_to_str e [t] owner cs timeout_ms s = Some (Inr p, s')"
  shows "pool_wf s' \<and> listed s' cs p \<and>
    (case conns s p of None \<Rightarrow> p = next_conn s
      | Some c \<Rightarrow> c_res c = 0 \<or> \<not> c_in_transaction c \<and> c_running c = 0) \<and>
    (\<forall>q. q \<noteq> p \<longrightarrow> conns s' q = conns s q \<or>
      conns s' q = None \<and> (\<exists>c. conns s q = Some c \<and> c_res c = 0 \<and> \<not> c_in_transaction c))"
proof -
  let ?l = "cleaned e (pool_list cs s) s" and ?s = "tidy e cs s"
  have a: "assign num_to_str e owner cs ?l ?s = (Inr p, s')"
    using get_connection_assign [OF assms(1,2)] assms(3) by simp
  have fresh: "conns s (next_conn s) = None"
    using pool_wf_conn(2) [OF assms(1), of "next_conn s"] by (cases "conns s (next_conn s)") auto
  have "pool_wf s'" "listed s' cs p"
    using wf_assign_tidy [OF assms(1), of num_to_str e owner cs] assign_result [OF a] a by simp_all
  moreover from assign_result [OF a] have "case conns s p of None \<Rightarrow> p = next_conn s
      | Some c \<Rightarrow> c_res c = 0 \<or> \<not> c_in_transaction c \<and> c_running c = 0"
    using policy_tidy_at [OF assms(1), of p e cs] fresh by (auto simp: can_be_stolen_def)
  moreover have "\<forall>q. q \<noteq> p \<longrightarrow> conns s' q = conns s q \<or>
      conns s' q = None \<and> (\<exists>c. conns s q = Some c \<and> c_res c = 0 \<and> \<not> c_in_transaction c)"
    using assign_frame [OF a] tidy_frame [OF assms(1)] by simp
  ultimately show ?thesis by blast
qed

text \<open>
  \<open>_get_connection\<close> throws exactly when the cleaned pool is full and every connection
  of it is at work or in a transaction. It then throws \<open>connection_pool_assign_exception\<close>,
  which makes the caller try again, and hands out nothing.
\<close>

theorem get_connection_refuses:
  assumes "pool_wf s" "now e \<le> t" "0 < max_conn s"
  shows "get_connection num_to_str e [t] owner cs timeout_ms s = Some (Inl err, s') \<longleftrightarrow>
    max_conn s \<le> int (length (cleaned e (pool_list cs s) s)) \<and>
    (\<forall>p \<in> set (cleaned e (pool_list cs s) s). c_in_transaction (conn_at s p) \<or> c_running (conn_at s p) \<noteq> 0) \<and>
    err = refusal num_to_str (cleaned e (pool_list cs s) s) (tidy e cs s) \<and> s' = tidy e cs s"
proof -
  define l where "l = cleaned e (pool_list cs s) s"
  have "get_connection num_to_str e [t] owner cs timeout_ms s = Some (Inl err, s') \<longleftrightarrow>
    policy l (tidy e cs s) = Refuse \<and> err = refusal num_to_str l (tidy e cs s) \<and> s' = tidy e cs s"
    using get_connection_assign [OF assms(1,2), of num_to_str "[]" owner cs timeout_ms]
    by (auto simp: assign_def l_def split: assignment.splits)
  moreover have "policy l (tidy e cs s) = Refuse \<longleftrightarrow>
    max_conn s \<le> int (length l) \<and> (\<forall>p \<in> set l. \<not> can_be_stolen (conn_at (tidy e cs s) p))"
    using assms(3) policy_cases [OF refl, of l "tidy e cs s"]
    by (cases "policy l (tidy e cs s)") auto
  ultimately show ?thesis
    using cleaned_conn_at(1) [OF assms(1)] by (auto simp: can_be_stolen_def l_def)
qed

text \<open>
  A full pool hands out its free connections by stealing, not by locking them: a connection
  handed out by a full pool keeps the reservation count it had. A free one stays unreserved
  while it is in use, and \<open>lock\<close> on it succeeds again.
\<close>

theorem full_pool_does_not_reserve:
  assumes "pool_wf s" "now e \<le> t" "0 < max_conn s"
    and "max_conn s \<le> int (length (cleaned e (pool_list cs s) s))"
    and "get_connection num_to_str e [t] owner cs timeout_ms s = Some (Inr p, s')"
  shows "c_res (conn_at s' p) = c_res (conn_at s p) \<and> c_running (conn_at s' p) = 2 \<and>
    (fst (lock e (conn_at s' p)) \<longleftrightarrow> c_res (conn_at s p) = 0)"
proof -
  let ?l = "cleaned e (pool_list cs s) s" and ?s = "tidy e cs s"
  have a: "assign num_to_str e owner cs ?l ?s = (Inr p, s')"
    using get_connection_assign [OF assms(1,2)] assms(5) by simp
  then have "policy ?l ?s = Steal p"
    using policy_cases [OF refl, of ?l ?s] assms(3,4) by (cases "policy ?l ?s") (auto simp: assign_def)
  then have "p \<in> set ?l" "s' = steal e owner p ?s"
    using a policy_cases [of ?l ?s "Steal p"] by (auto simp: assign_def)
  then show ?thesis
    using cleaned_conn_at(1) [OF assms(1), of p e cs]
    by (simp add: reserve_def touch_def lock_def)
qed

section \<open>Housekeeping\<close>

text \<open>
  For the clean-up every connection that is not reserved and not in a transaction is dead,
  however recently it was used, as long as it was not used more than fifteen seconds in the
  future: the fifteen seconds of grace have the wrong sign.
\<close>

theorem is_dead_without_grace:
  assumes "conn_ok c" "c_last_modification_date c \<le> now e"
  shows "is_dead e c \<longleftrightarrow> c_res c = 0 \<and> \<not> c_in_transaction c"
  using assms by (auto simp: is_dead_def conn_ok_def)

text \<open>
  \<open>get_opened_connection_count\<close> returns the number of reserved connections of the
  connection string; the clean-up it runs first does not change that number.
\<close>

theorem opened_count_correct:
  assumes "pool_wf s"
  shows "get_opened_connection_count e cs s =
    (int (card {p. listed s cs p \<and> c_res (conn_at s p) = 1}), tidy e cs s)"
proof -
  let ?l = "cleaned e (pool_list cs s) s"
  have "get_opened_connection_count e cs s =
    (int (length (filter (\<lambda>p. c_res (conn_at (tidy e cs s) p) = 1) ?l)), tidy e cs s)"
    by (rule opened_count_tidy [OF assms])
  moreover have "length (filter (\<lambda>p. c_res (conn_at (tidy e cs s) p) = 1) ?l)
    = card (set (filter (\<lambda>p. c_res (conn_at (tidy e cs s) p) = 1) ?l))"
    using cleaned_distinct(1) [OF pool_list_wf(1) [OF assms]] by (simp add: distinct_card del: set_filter)
  moreover have "set (filter (\<lambda>p. c_res (conn_at (tidy e cs s) p) = 1) ?l)
    = {p. listed s cs p \<and> c_res (conn_at s p) = 1}"
    using set_cleaned [OF pool_list_wf(1) [OF assms, of cs], of e s] cleaned_conn_at(1) [OF assms]
    by (auto simp: listed_def pool_list_def dead_tail_def is_dead_def split: option.splits)
  ultimately show ?thesis by simp
qed

subsection \<open>Destruction\<close>

text \<open>The entries at odd positions.\<close>

fun odds :: "'a list \<Rightarrow> 'a list" where
  "odds (x # y # l) = y # odds l"
| "odds _ = []"

fun evens :: "'a list \<Rightarrow> 'a list" where
  "evens (x # y # l) = x # evens l"
| "evens l = l"

lemma set_evens: "set (evens l) \<subseteq> set l"
  by (induction l rule: evens.induct) auto

lemma destroy_loop_eq:
  "distinct (xs @ l) \<Longrightarrow> i = length xs \<Longrightarrow>
   destroy_loop i (xs @ l) s = (xs @ odds l, drop_conns (set (evens l)) s)"
proof (induction l arbitrary: xs i s rule: odds.induct [case_names two none one])
  case (two x y l)
  have "destroy_loop i (xs @ x # y # l) s
    = destroy_loop (Suc i) ((xs @ [y]) @ l) (delete_connection x (clear_owner_conn x s))"
    using two by (subst destroy_loop.simps) simp
  also have "\<dots> = ((xs @ [y]) @ odds l, drop_conns (set (evens l)) (delete_connection x (clear_owner_conn x s)))"
    using two.prems by (intro two.IH) auto
  finally show ?case using two.prems set_evens [of l] by (subst (asm) drop_conns_insert) auto
next
  case (one x)
  then show ?case
    using drop_conns_insert [of x "{}" s] by (subst destroy_loop.simps) (simp add: destroy_loop.simps)
qed (simp add: destroy_loop.simps)

text \<open>
  The destructor of the pool deletes only every other connection of each vector, the one at
  position 0 first, because its loop both erases the current entry and advances. The connections
  at odd positions are never closed, although the vector that holds them is deleted.
\<close>

theorem destroy_leaks:
  assumes "distinct l" "q \<in> set l" "\<forall>p \<in> set l. conns s p \<noteq> None"
  shows "fst (destroy_loop 0 l s) = odds l \<and>
    (conns (snd (destroy_loop 0 l s)) q \<noteq> None \<longleftrightarrow> q \<in> set (odds l))"
proof -
  have "set l = set (evens l) \<union> set (odds l) \<and> (distinct l \<longrightarrow> set (evens l) \<inter> set (odds l) = {})"
  proof (induction l rule: odds.induct)
    case (1 x y l)
    moreover have "set (evens l) \<subseteq> set l" "set (odds l) \<subseteq> set l" using 1 by auto
    ultimately show ?case by auto
  qed auto
  then show ?thesis
    using assms destroy_loop_eq [of "[]" l 0 s] by (auto simp: drop_conns_def)
qed

subsection \<open>The static instance\<close>

text \<open>
  \<open>s_instance\<close> is null, points to the pool, or points to a pool that was deleted:
  \<open>destroy\<close> deletes the instance and leaves the pointer as it is. The counters that are
  static members survive it.
\<close>

datatype instance_ptr = Null | Live | Freed

record pool_static =
  s_init :: bool
  s_instance :: instance_ptr
  s_pool :: pool

definition init_pool :: "int \<Rightarrow> pool_static \<Rightarrow> pool_static" where
  "init_pool max_pool_conn_count st =
    (if s_init st then st
     else st \<lparr> s_instance := Live, s_init := True,
               s_pool := s_pool st \<lparr> pools := Map.empty, max_conn := max_pool_conn_count \<rparr> \<rparr>)"

definition DEFAULT_CONNECTION_POOL_MAX_CONN :: int where "DEFAULT_CONNECTION_POOL_MAX_CONN = 20"

definition init_default :: "pool_static \<Rightarrow> pool_static" where
  "init_default st = init_pool DEFAULT_CONNECTION_POOL_MAX_CONN st"

text \<open>The destructor over all pools; the list holds the connection strings of the map in order.\<close>

primrec destroy_pools :: "string list \<Rightarrow> pool \<Rightarrow> pool" where
  "destroy_pools [] s = s \<lparr> pools := Map.empty \<rparr>"
| "destroy_pools (cs # css) s =
    destroy_pools css (snd (destroy_loop 0 (case pools s cs of None \<Rightarrow> [] | Some l \<Rightarrow> l) s))"

definition destroy :: "string list \<Rightarrow> pool_static \<Rightarrow> pool_static result" where
  "destroy css st =
    (case s_instance st of
       Null \<Rightarrow> Inr (st \<lparr> s_init := False \<rparr>)
     | Live \<Rightarrow> Inr (st \<lparr> s_pool := destroy_pools css (s_pool st), s_instance := Freed, s_init := False \<rparr>)
     | Freed \<Rightarrow> Inl (UndefinedBehaviour ''delete of a deleted connection_pool''))"

text \<open>
  The life cycle of the static pool: \<open>init\<close> after \<open>init\<close> keeps the first pool and its
  limit; \<open>destroy\<close> allows a new \<open>init\<close>, but a second \<open>destroy\<close> in a row deletes the
  same object again, because the pointer is not reset.
\<close>

theorem pool_life_cycle:
  "init_pool n (init_pool m st) = init_pool m st \<and>
   (s_instance st \<noteq> Freed \<longrightarrow> (\<exists>st'. destroy css st = Inr st' \<and>
      s_init (init_pool n st') \<and> s_instance (init_pool n st') = Live \<and>
      max_conn (s_pool (init_pool n st')) = n)) \<and>
   (s_instance st = Live \<longrightarrow> (\<exists>st'. destroy css st = Inr st' \<and>
      destroy css st' = Inl (UndefinedBehaviour ''delete of a deleted connection_pool'')))"
  by (cases "s_instance st") (simp_all add: init_pool_def destroy_def)

section \<open>Examples\<close>

text \<open>A pool of two with both connections owned; the first is idle, the second at work.\<close>

definition sample_env :: env where
  "sample_env = \<lparr> now = 1000, PQstatus_ok = True, PQconnectdb_ok = (\<lambda>_. True),
     PQsetnonblocking_fails = False, PQsocket = 7, PQexec_ok = (\<lambda>_. True), PQerrorMessage = ''error'' \<rparr>"

definition sample_str :: "int \<Rightarrow> string" where
  "sample_str n = [char_of (48 + nat n)]"

definition sample_conn :: "nat \<Rightarrow> int \<Rightarrow> connection" where
  "sample_conn n r = connection_init sample_env (sample_str (int n)) ''host=db''
     \<lparr> c_res := 1, c_running := r, c_conn := True, c_owner := Some n \<rparr>"

definition sample_pool :: pool where
  "sample_pool = \<lparr> conns = [0 \<mapsto> sample_conn 0 0, 1 \<mapsto> sample_conn 1 1],
     pools = [''host=db'' \<mapsto> [0, 1]], db_conn = [0 \<mapsto> 0, 1 \<mapsto> 1], next_conn = 2,
     last_stolen_conn_id = [], max_conn = 2 \<rparr>"

lemma sample_pool_wf: "pool_wf sample_pool"
  by (auto simp: pool_wf_def sample_pool_def sample_conn_def connection_init_def conn_ok_def
      listed_def split: if_splits)

lemma sample_cleaned:
  "cleaned sample_env (pool_list ''host=db'' sample_pool) sample_pool = [0, 1]"
  by (simp add: cleaned_def pool_list_def sample_pool_def)

lemma sample_steal:
  "get_connection sample_str sample_env [1000] 5 ''host=db'' 1 sample_pool =
    Some (Inr 0, steal sample_env 5 0 (tidy sample_env ''host=db'' sample_pool))"
proof -
  have "policy [0, 1] (tidy sample_env ''host=db'' sample_pool) = Steal 0"
    by (simp add: policy_def steal_order_def conn_at_def dead_tail_def pool_list_def sample_pool_def
        sample_conn_def connection_init_def can_be_stolen_def sample_str_def)
  then show ?thesis
    using get_connection_assign [OF sample_pool_wf, of sample_env 1000 sample_str "[]" 5 "''host=db''" 1]
    by (simp add: assign_def sample_cleaned) (simp add: sample_env_def)
qed

theorem get_connection_refines_witness:
  "get_connection sample_str sample_env [1000] 5 ''host=db'' 1 sample_pool =
    Some (assign sample_str sample_env 5 ''host=db'' [0, 1] (tidy sample_env ''host=db'' sample_pool))"
  using get_connection_refines [OF sample_pool_wf, of sample_env 1000 sample_str 5 "''host=db''" 1]
  by (simp add: sample_cleaned) (simp add: sample_env_def)

theorem get_connection_safe_witness:
  "pool_wf (steal sample_env 5 0 (tidy sample_env ''host=db'' sample_pool)) \<and>
   listed (steal sample_env 5 0 (tidy sample_env ''host=db'' sample_pool)) ''host=db'' 0"
  using get_connection_safe [OF sample_pool_wf _ sample_steal] by (simp add: sample_env_def)

definition sample_busy :: pool where
  "sample_busy = sample_pool \<lparr> conns := [0 \<mapsto> sample_conn 0 2, 1 \<mapsto> sample_conn 1 1] \<rparr>"

lemma sample_busy_wf: "pool_wf sample_busy"
  by (auto simp: pool_wf_def sample_busy_def sample_pool_def sample_conn_def connection_init_def
      conn_ok_def listed_def split: if_splits)

theorem get_connection_refuses_witness:
  "get_connection sample_str sample_env [1000] 5 ''host=db'' 1 sample_busy =
     Some (Inl (refusal sample_str [0, 1] (tidy sample_env ''host=db'' sample_busy)),
           tidy sample_env ''host=db'' sample_busy)"
proof -
  have "cleaned sample_env (pool_list ''host=db'' sample_busy) sample_busy = [0, 1]"
    by (simp add: cleaned_def pool_list_def sample_busy_def sample_pool_def)
  then show ?thesis
    using get_connection_refuses [OF sample_busy_wf, of sample_env 1000 sample_str 5 "''host=db''" 1]
    by (simp add: sample_env_def sample_busy_def sample_pool_def sample_conn_def
        connection_init_def conn_at_def)
qed

definition sample_free :: pool where
  "sample_free = sample_pool \<lparr> conns := [0 \<mapsto> (sample_conn 0 0) \<lparr> c_res := 0 \<rparr>, 1 \<mapsto> sample_conn 1 1] \<rparr>"

lemma sample_free_wf: "pool_wf sample_free"
  by (auto simp: pool_wf_def sample_free_def sample_pool_def sample_conn_def connection_init_def
      conn_ok_def listed_def split: if_splits)

theorem full_pool_does_not_reserve_witness:
  "c_res (conn_at (snd (assign sample_str sample_env 5 ''host=db'' [0, 1]
     (tidy sample_env ''host=db'' sample_free))) 0) = 0"
proof -
  have l: "cleaned sample_env (pool_list ''host=db'' sample_free) sample_free = [0, 1]"
    by (simp add: cleaned_def pool_list_def sample_free_def sample_pool_def)
  have "policy [0, 1] (tidy sample_env ''host=db'' sample_free) = Steal 0"
    by (simp add: policy_def steal_order_def conn_at_def dead_tail_def pool_list_def sample_free_def
        sample_pool_def sample_conn_def connection_init_def can_be_stolen_def sample_str_def)
  then have "get_connection sample_str sample_env [1000] 5 ''host=db'' 1 sample_free =
    Some (Inr 0, snd (assign sample_str sample_env 5 ''host=db'' [0, 1] (tidy sample_env ''host=db'' sample_free)))"
    using get_connection_assign [OF sample_free_wf, of sample_env 1000 sample_str "[]" 5 "''host=db''" 1]
    by (simp add: assign_def l) (simp add: sample_env_def)
  from full_pool_does_not_reserve [OF sample_free_wf _ _ _ this] l show ?thesis
    by (simp add: sample_env_def) (simp add: sample_free_def sample_pool_def conn_at_def)
qed

theorem is_dead_without_grace_witness:
  "is_dead sample_env (connection_init sample_env ''0'' ''host=db'')"
  using is_dead_without_grace [of "connection_init sample_env ''0'' ''host=db''" sample_env]
  by (simp add: connection_init_def conn_ok_def)

theorem opened_count_correct_witness:
  "get_opened_connection_count sample_env ''host=db'' sample_pool =
    (int (card {p. listed sample_pool ''host=db'' p \<and> c_res (conn_at sample_pool p) = 1}),
     tidy sample_env ''host=db'' sample_pool)"
  using opened_count_correct [OF sample_pool_wf] by simp

theorem destroy_leaks_witness:
  "fst (destroy_loop 0 [0, 1] sample_pool) = [1] \<and> conns (snd (destroy_loop 0 [0, 1] sample_pool)) 1 \<noteq> None"
  using destroy_leaks [of "[0, 1]" 1 sample_pool] by (simp add: sample_pool_def)

theorem pool_life_cycle_witness:
  "\<exists>st'. destroy [] \<lparr> s_init = True, s_instance = Live, s_pool = sample_pool \<rparr> = Inr st' \<and>
     destroy [] st' = Inl (UndefinedBehaviour ''delete of a deleted connection_pool'')"
  using pool_life_cycle [of 1 1 "\<lparr> s_init = True, s_instance = Live, s_pool = sample_pool \<rparr>" "[]"]
  by simp

end
