(* ===== verification/Session.thy ===== *)
theory Session
  imports Pool
begin

text \<open>
  Database objects at work on the pool: the synchronous part of class \<open>database_t\<close> in
  \<open>database.h\<close> (\<open>open_connection\<close>, \<open>close\<close>, transactions and savepoints) together with
  the \<open>connection_lock\<close> objects it hands out. A system is the pool, the databases and the
  locks; its runs interleave the calls of all databases.

  \<open>wait_for_sync\<close>, with which these calls begin, runs queued tasks of the event loop, which is
  outside the repository; the calls are modelled with an empty queue.
\<close>

section \<open>State\<close>

text \<open>
  A \<open>connection_lock\<close> is a shared pointer to a \<open>connection_lock_t\<close>: a lock is modelled by
  the connection it points to and its use count.
\<close>

record system =
  sys_pool :: pool
  db_string :: "nat \<Rightarrow> string"
  db_lock :: "nat \<Rightarrow> nat option"
  locks :: "nat \<Rightarrow> (nat \<times> nat) option"
  next_lock :: nat

definition sys_init :: "int \<Rightarrow> (nat \<Rightarrow> string) \<Rightarrow> system" where
  "sys_init m strs = \<lparr> sys_pool = \<lparr> conns = Map.empty, pools = Map.empty, db_conn = Map.empty,
       next_conn = 0, last_stolen_conn_id = [], max_conn = m \<rparr>,
     db_string = strs, db_lock = Map.empty, locks = Map.empty, next_lock = 0 \<rparr>"

section \<open>Operations\<close>

text \<open>A method called through \<open>_conn\<close> of database \<open>d\<close>.\<close>

definition on_conn ::
  "nat \<Rightarrow> (connection \<Rightarrow> 'a result \<times> connection) \<Rightarrow> system \<Rightarrow> 'a result \<times> system" where
  "on_conn d f s =
    (case db_conn (sys_pool s) d of
       None \<Rightarrow> (Inl (UndefinedBehaviour ''null connection''), s)
     | Some p \<Rightarrow>
         (case conns (sys_pool s) p of
            None \<Rightarrow> (Inl (UndefinedBehaviour ''dangling connection''), s)
          | Some c \<Rightarrow> (fst (f c), s \<lparr> sys_pool := upd_conn p (\<lambda>c. snd (f c)) (sys_pool s) \<rparr>)))"

text \<open>A copy of a lock, and the end of one; the last one runs the destructor.\<close>

definition copy_lock :: "nat \<Rightarrow> system \<Rightarrow> system" where
  "copy_lock k s = s \<lparr> locks := (locks s)(k := map_option (\<lambda>(p, n). (p, n + 1)) (locks s k)) \<rparr>"

definition drop_lock :: "env \<Rightarrow> nat \<Rightarrow> system \<Rightarrow> unit result \<times> system" where
  "drop_lock e k s =
    (case locks s k of
       None \<Rightarrow> (Inl (UndefinedBehaviour ''expired lock''), s)
     | Some (p, n) \<Rightarrow>
         if 1 < n then (Inr (), s \<lparr> locks := (locks s)(k \<mapsto> (p, n - 1)) \<rparr>)
         else case conns (sys_pool s) p of
           None \<Rightarrow> (Inl (UndefinedBehaviour ''dangling connection''), s)
         | Some c \<Rightarrow> (Inr (), s \<lparr> locks := (locks s)(k := None),
             sys_pool := upd_conn p (connection_lock_dtor e) (sys_pool s) \<rparr>))"

text \<open>\<open>_lock.reset()\<close>\<close>

definition reset_lock :: "env \<Rightarrow> nat \<Rightarrow> system \<Rightarrow> unit result \<times> system" where
  "reset_lock e d s =
    (case db_lock s d of
       None \<Rightarrow> (Inr (), s)
     | Some k \<Rightarrow> drop_lock e k (s \<lparr> db_lock := (db_lock s)(d := None) \<rparr>))"

text \<open>\<open>if(_conn == NULL) _conn = connection_pool::get_connection(...)\<close>\<close>

definition acquire ::
  "(int \<Rightarrow> string) \<Rightarrow> env \<Rightarrow> int list \<Rightarrow> nat \<Rightarrow> int \<Rightarrow> system \<Rightarrow> (unit result \<times> system) option" where
  "acquire num_to_str e clk d timeout_ms s =
    (if db_conn (sys_pool s) d = None then
       (case get_connection num_to_str e clk d (db_string s d) timeout_ms (sys_pool s) of
          None \<Rightarrow> None
        | Some (Inl err, P) \<Rightarrow> Some (Inl err, s \<lparr> sys_pool := P \<rparr>)
        | Some (Inr p, P) \<Rightarrow> Some (Inr (), s \<lparr> sys_pool := set_db_conn d (Some p) P \<rparr>))
     else Some (Inr (), s))"

text \<open>The lock object over \<open>_conn\<close>; a throw of its constructor leaves no lock behind.\<close>

definition make_lock :: "env \<Rightarrow> nat \<Rightarrow> system \<Rightarrow> nat result \<times> system" where
  "make_lock e d s =
    (case on_conn d (connection_lock_ctor e) s of
       (Inl err, s) \<Rightarrow> (Inl err, s)
     | (Inr _, s) \<Rightarrow>
         (Inr (next_lock s), s \<lparr> locks := (locks s)(next_lock s :=
              map_option (\<lambda>p. (p, 1)) (db_conn (sys_pool s) d)), next_lock := next_lock s + 1 \<rparr>))"

text \<open>
  The rest of \<open>open_connection\<close> once \<open>_conn\<close> is set: the lock is made, then the
  connection is opened; when that throws, the lock goes out of scope.
\<close>

definition lock_and_open :: "env \<Rightarrow> nat \<Rightarrow> system \<Rightarrow> nat result \<times> system" where
  "lock_and_open e d s =
    (case make_lock e d s of
       (Inl err, s) \<Rightarrow> (Inl err, s)
     | (Inr k, s) \<Rightarrow>
         (case on_conn d (open_connection e) s of
            (Inl err, s) \<Rightarrow> (Inl err, snd (drop_lock e k s))
          | (Inr _, s) \<Rightarrow> (Inr k, s)))"

definition db_open_connection ::
  "(int \<Rightarrow> string) \<Rightarrow> env \<Rightarrow> int list \<Rightarrow> nat \<Rightarrow> int \<Rightarrow> system \<Rightarrow> (nat result \<times> system) option" where
  "db_open_connection num_to_str e clk d timeout_ms s =
    (case db_lock s d of
       Some k \<Rightarrow> Some (Inr k, copy_lock k s)
     | None \<Rightarrow>
         (case acquire num_to_str e clk d timeout_ms s of
            None \<Rightarrow> None
          | Some (Inl err, s) \<Rightarrow> Some (Inl err, s)
          | Some (Inr _, s) \<Rightarrow>
              (case on_conn d (\<lambda>c. (Inr (), reserve e c)) s of
                 (Inl err, s) \<Rightarrow> Some (Inl err, s)
               | (Inr _, s) \<Rightarrow>
                   (case acquire num_to_str e clk d timeout_ms s of
                      None \<Rightarrow> None
                    | Some (Inl err, s) \<Rightarrow> Some (Inl err, s)
                    | Some (Inr _, s) \<Rightarrow> Some (lock_and_open e d s)))))"

definition db_close :: "env \<Rightarrow> nat \<Rightarrow> system \<Rightarrow> unit result \<times> system" where
  "db_close e d s =
    (if db_conn (sys_pool s) d = None then (Inr (), s)
     else case on_conn d (release e) s of
       (Inl err, s) \<Rightarrow> (Inl err, s)
     | (Inr _, s) \<Rightarrow> (Inr (), s \<lparr> sys_pool := set_db_conn d None (sys_pool s) \<rparr>))"

definition db_working :: "nat \<Rightarrow> system \<Rightarrow> bool" where
  "db_working d s = (case db_conn (sys_pool s) d of
     None \<Rightarrow> False | Some p \<Rightarrow> running (conn_at (sys_pool s) p))"

definition db_in_transaction :: "nat \<Rightarrow> system \<Rightarrow> bool" where
  "db_in_transaction d s = (case db_conn (sys_pool s) d of
     None \<Rightarrow> False | Some p \<Rightarrow> in_transaction (conn_at (sys_pool s) p))"

definition PQ_ASYNC_DEFAULT_TIMEOUT_MS :: int where "PQ_ASYNC_DEFAULT_TIMEOUT_MS = 5000"

text \<open>\<open>begin\<close>: the old value of \<open>_lock\<close> is dropped by the assignment.\<close>

definition db_begin ::
  "(int \<Rightarrow> string) \<Rightarrow> env \<Rightarrow> int list \<Rightarrow> nat \<Rightarrow> system \<Rightarrow> (unit result \<times> system) option" where
  "db_begin num_to_str e clk d s =
    (case db_open_connection num_to_str e clk d PQ_ASYNC_DEFAULT_TIMEOUT_MS s of
       None \<Rightarrow> None
     | Some (Inl err, s) \<Rightarrow> Some (Inl err, s)
     | Some (Inr k, s) \<Rightarrow>
         (case reset_lock e d s of
            (Inl err, s) \<Rightarrow> Some (Inl err, s)
          | (Inr _, s) \<Rightarrow>
              Some (on_conn d (begin_transaction e) (s \<lparr> db_lock := (db_lock s)(d \<mapsto> k) \<rparr>))))"

text \<open>\<open>commit\<close> and \<open>rollback\<close> drop the lock when the command has succeeded.\<close>

definition db_end ::
  "(connection \<Rightarrow> unit result \<times> connection) \<Rightarrow> env \<Rightarrow> nat \<Rightarrow> system \<Rightarrow> unit result \<times> system" where
  "db_end f e d s =
    (case on_conn d f s of
       (Inl err, s) \<Rightarrow> (Inl err, s)
     | (Inr _, s) \<Rightarrow> reset_lock e d s)"

definition db_commit :: "env \<Rightarrow> nat \<Rightarrow> system \<Rightarrow> unit result \<times> system" where
  "db_commit e d s = db_end (commit_transaction e) e d s"

definition db_rollback :: "env \<Rightarrow> nat \<Rightarrow> system \<Rightarrow> unit result \<times> system" where
  "db_rollback e d s = db_end (rollback_transaction e) e d s"

definition db_set_savepoint :: "env \<Rightarrow> nat \<Rightarrow> string \<Rightarrow> system \<Rightarrow> unit result \<times> system" where
  "db_set_savepoint e d name s = on_conn d (set_savepoint e name) s"

definition db_release_savepoint :: "env \<Rightarrow> nat \<Rightarrow> string \<Rightarrow> system \<Rightarrow> unit result \<times> system" where
  "db_release_savepoint e d name s = on_conn d (release_savepoint e name) s"

definition db_rollback_savepoint :: "env \<Rightarrow> nat \<Rightarrow> string \<Rightarrow> system \<Rightarrow> unit result \<times> system" where
  "db_rollback_savepoint e d name s = on_conn d (rollback_savepoint e name) s"

section \<open>Runs\<close>

text \<open>The calls a program makes, each on a database or a lock.\<close>

datatype op =
    Open nat int
  | Close nat
  | Begin nat
  | Commit nat
  | Rollback nat
  | SetSavepoint nat string
  | ReleaseSavepoint nat string
  | RollbackSavepoint nat string
  | DropLock nat
  | OpenedCount string

fun sys_exec :: "(int \<Rightarrow> string) \<Rightarrow> env \<Rightarrow> int list \<Rightarrow> op \<Rightarrow> system \<Rightarrow> (unit result \<times> system) option" where
  "sys_exec num_to_str e clk (Open d timeout_ms) s =
    map_option (\<lambda>(r, s). (map_sum id (\<lambda>_. ()) r, s)) (db_open_connection num_to_str e clk d timeout_ms s)"
| "sys_exec num_to_str e clk (Close d) s = Some (db_close e d s)"
| "sys_exec num_to_str e clk (Begin d) s = db_begin num_to_str e clk d s"
| "sys_exec num_to_str e clk (Commit d) s = Some (db_commit e d s)"
| "sys_exec num_to_str e clk (Rollback d) s = Some (db_rollback e d s)"
| "sys_exec num_to_str e clk (SetSavepoint d name) s = Some (db_set_savepoint e d name s)"
| "sys_exec num_to_str e clk (ReleaseSavepoint d name) s = Some (db_release_savepoint e d name s)"
| "sys_exec num_to_str e clk (RollbackSavepoint d name) s = Some (db_rollback_savepoint e d name s)"
| "sys_exec num_to_str e clk (DropLock k) s = Some (drop_lock e k s)"
| "sys_exec num_to_str e clk (OpenedCount cs) s =
    Some (Inr (), s \<lparr> sys_pool := snd (get_opened_connection_count e cs (sys_pool s)) \<rparr>)"

definition undefined_behaviour :: "'a result \<Rightarrow> bool" where
  "undefined_behaviour r = (case r of Inl (UndefinedBehaviour m) \<Rightarrow> True | _ \<Rightarrow> False)"

text \<open>
  What a call that asks the pool for a connection may steal, if it steals one.
\<close>

definition may_steal :: "(connection \<Rightarrow> bool) \<Rightarrow> env \<Rightarrow> nat \<Rightarrow> system \<Rightarrow> bool" where
  "may_steal ok e d s =
    (case policy (cleaned e (pool_list (db_string s d) (sys_pool s)) (sys_pool s))
            (tidy e (db_string s d) (sys_pool s)) of
       Steal p \<Rightarrow> ok (conn_at (sys_pool s) p)
     | _ \<Rightarrow> True)"

fun allowed :: "(connection \<Rightarrow> bool) \<Rightarrow> env \<Rightarrow> op \<Rightarrow> system \<Rightarrow> bool" where
  "allowed ok e (Open d timeout_ms) s = may_steal ok e d s"
| "allowed ok e (Begin d) s = may_steal ok e d s"
| "allowed ok e _ s = True"

text \<open>
  A step is one call with any answers of libpq, with a clock that does not run backwards and
  without undefined behaviour. \<open>ok\<close> restricts what is stolen; the system as it is has
  \<open>any_conn\<close>.
\<close>

inductive sys_step ::
  "(connection \<Rightarrow> bool) \<Rightarrow> (int \<Rightarrow> string) \<Rightarrow> system \<Rightarrow> system \<Rightarrow> bool"
  for ok num_to_str where
  call: "sys_exec num_to_str e [t] a s = Some (r, s') \<Longrightarrow> now e \<le> t \<Longrightarrow> \<not> undefined_behaviour r \<Longrightarrow>
    allowed ok e a s \<Longrightarrow> sys_step ok num_to_str s s'"

definition any_conn :: "connection \<Rightarrow> bool" where
  "any_conn c = True"

text \<open>The calls made by the databases of a set; the end of a lock and the count belong to nobody.\<close>

fun made_by :: "(nat \<Rightarrow> bool) \<Rightarrow> op \<Rightarrow> bool" where
  "made_by who (Open d timeout_ms) = who d"
| "made_by who (Close d) = who d"
| "made_by who (Begin d) = who d"
| "made_by who (Commit d) = who d"
| "made_by who (Rollback d) = who d"
| "made_by who (SetSavepoint d name) = who d"
| "made_by who (ReleaseSavepoint d name) = who d"
| "made_by who (RollbackSavepoint d name) = who d"
| "made_by who _ = True"

section \<open>Invariants of the system\<close>

text \<open>
  What the pool promises to the invariants of a system: a property of pools that survives each
  of the things the calls of some databases do to the pool survives these calls. The calls are
  taken apart once, here; the properties below are interpretations.
\<close>

locale sys_invariant =
  fixes J :: "pool \<Rightarrow> bool"
    and ok :: "connection \<Rightarrow> bool"
    and who :: "nat \<Rightarrow> bool"
  assumes J_wf: "J P \<Longrightarrow> pool_wf P"
    and J_tidy: "J P \<Longrightarrow> J (tidy e cs P)"
    and J_work: "J P \<Longrightarrow> who d \<Longrightarrow> conn_work f \<Longrightarrow> db_conn P d = Some p \<Longrightarrow> conns P p \<noteq> None \<Longrightarrow>
      J (upd_conn p f P)"
    and J_idle: "J P \<Longrightarrow> conns P p \<noteq> None \<Longrightarrow> J (upd_conn p (stop_work e) P)"
    and J_release: "J P \<Longrightarrow> who d \<Longrightarrow> db_conn P d = Some p \<Longrightarrow> conns P p \<noteq> None \<Longrightarrow>
      fst (release e (conn_at P p)) = Inl err \<Longrightarrow> J (upd_conn p (\<lambda>c. snd (release e c)) P)"
    and J_close: "J P \<Longrightarrow> who d \<Longrightarrow> db_conn P d = Some p \<Longrightarrow> conns P p \<noteq> None \<Longrightarrow>
      fst (release e (conn_at P p)) = Inr () \<Longrightarrow>
      J (set_db_conn d None (upd_conn p (\<lambda>c. snd (release e c)) P))"
    and J_assign: "J P \<Longrightarrow> who d \<Longrightarrow> db_conn P d = None \<Longrightarrow> pools P cs = Some l \<Longrightarrow>
      (\<And>q. policy l P = Steal q \<Longrightarrow> ok (conn_at P q)) \<Longrightarrow>
      assign num_to_str e d cs l P = (Inr p, P') \<Longrightarrow> J (set_db_conn d (Some p) P')"
begin

lemma on_conn_work:
  assumes "J (sys_pool s)" "who d" "conn_work (\<lambda>c. snd (f c))"
  shows "J (sys_pool (snd (on_conn d f s)))"
  using assms J_work [OF assms] by (auto simp: on_conn_def split: option.split)

lemma drop_lock_J: "J (sys_pool s) \<Longrightarrow> J (sys_pool (snd (drop_lock e k s)))"
  using J_idle [of "sys_pool s"]
  by (auto simp: drop_lock_def connection_lock_dtor_def [abs_def] split: option.split)

lemma reset_lock_J: "J (sys_pool s) \<Longrightarrow> J (sys_pool (snd (reset_lock e d s)))"
  using drop_lock_J [of "s \<lparr> db_lock := (db_lock s)(d := None) \<rparr>"]
  by (auto simp: reset_lock_def split: option.split)

lemma acquire_J:
  assumes "J (sys_pool s)" "now e \<le> t" "may_steal ok e d s" "who d"
    and "acquire num_to_str e [t] d timeout_ms s = Some (r, s')"
  shows "J (sys_pool s')"
proof (cases "db_conn (sys_pool s) d = None")
  case True
  let ?P = "sys_pool s" and ?cs = "db_string s d"
  let ?T = "tidy e ?cs ?P" and ?l = "cleaned e (pool_list ?cs ?P) ?P"
  have none: "db_conn ?T d = None" using True by (simp add: tidy_def set_pool_def drop_conns_def)
  have may: "ok (conn_at ?T q)" if "policy ?l ?T = Steal q" for q
    using assms(3) that policy_cases [OF that] cleaned_conn_at(1) [OF J_wf [OF assms(1)], of q e ?cs]
    by (simp add: may_steal_def)
  obtain x P where a: "assign num_to_str e d ?cs ?l ?T = (x, P)" by fastforce
  have "P = ?T" if "x = Inl err" for err
    using a that by (auto simp: assign_def split: assignment.splits)
  moreover have "J (set_db_conn d (Some p) P)" if "x = Inr p" for p
    by (rule J_assign [OF J_tidy [OF assms(1)] assms(4) none _ may]) (use a that in auto)
  ultimately show ?thesis
    using assms(5) True a J_tidy [OF assms(1), of e ?cs]
      get_connection_assign [OF J_wf [OF assms(1)] assms(2), of num_to_str "[]" d ?cs timeout_ms]
    by (auto simp: acquire_def split: sum.splits)
next
  case False
  then show ?thesis using assms(1,5) by (auto simp: acquire_def)
qed

lemma lock_and_open_J:
  assumes "J (sys_pool s)" "who d"
  shows "J (sys_pool (snd (lock_and_open e d s)))"
proof -
  have m: "J (sys_pool (snd (make_lock e d s)))"
    using on_conn_work [OF assms lock_ctor.conn_work_axioms, of e]
    by (auto simp: make_lock_def split: prod.splits sum.splits)
  obtain r s1 where s1: "make_lock e d s = (r, s1)" by fastforce
  obtain r2 s2 where s2: "on_conn d (open_connection e) s1 = (r2, s2)" by fastforce
  have "J (sys_pool s1)" using m s1 by simp
  moreover from this have "J (sys_pool s2)"
    using on_conn_work [OF _ assms(2) open_connection.conn_work_axioms, of s1 e] s2 by simp
  ultimately show ?thesis
    using s1 s2 drop_lock_J [of s2 e] by (simp add: lock_and_open_def split: sum.split)
qed

lemma db_open_connection_J:
  assumes J: "J (sys_pool s)" and t: "now e \<le> t" and may: "may_steal ok e d s"
    and d: "who d" and op: "db_open_connection num_to_str e [t] d timeout_ms s = Some (r, s')"
  shows "J (sys_pool s')"
proof (cases "db_lock s d")
  case (Some k)
  then show ?thesis using J op by (auto simp: db_open_connection_def copy_lock_def)
next
  case None
  from op None obtain r1 s1 where s1: "acquire num_to_str e [t] d timeout_ms s = Some (r1, s1)"
    by (auto simp: db_open_connection_def split: option.splits)
  have J1: "J (sys_pool s1)" using acquire_J [OF J t may d s1] .
  obtain r2 s2 where s2: "on_conn d (\<lambda>c. (Inr (), reserve e c)) s1 = (r2, s2)" by fastforce
  have J2: "J (sys_pool s2)"
    using on_conn_work [OF J1 d, of "\<lambda>c. (Inr (), reserve e c)"] reserve.conn_work_axioms s2 by simp
  have again: "acquire num_to_str e [t] d timeout_ms s2 = Some (Inr (), s2)" if "r2 = Inr ()"
    using s2 that by (auto simp: on_conn_def acquire_def split: option.splits)
  show ?thesis
    using op None s1 s2 again J1 J2 lock_and_open_J [OF J2 d, of e]
    by (auto simp: db_open_connection_def split: sum.splits)
qed

lemma db_begin_J:
  assumes J: "J (sys_pool s)" and t: "now e \<le> t" and may: "may_steal ok e d s"
    and d: "who d" and op: "db_begin num_to_str e [t] d s = Some (r, s')"
  shows "J (sys_pool s')"
proof -
  from op obtain r1 s1 where
    s1: "db_open_connection num_to_str e [t] d PQ_ASYNC_DEFAULT_TIMEOUT_MS s = Some (r1, s1)"
    by (auto simp: db_begin_def split: option.splits)
  have J1: "J (sys_pool s1)" using db_open_connection_J [OF J t may d s1] .
  obtain r2 s2 where s2: "reset_lock e d s1 = (r2, s2)" by fastforce
  have J2: "J (sys_pool s2)" using reset_lock_J [OF J1, of e d] s2 by simp
  have "J (sys_pool s')"
    if "on_conn d (begin_transaction e) (s2 \<lparr> db_lock := (db_lock s2)(d \<mapsto> k) \<rparr>) = (r, s')" for k
    using on_conn_work [OF _ d begin_transaction.conn_work_axioms,
        of "s2 \<lparr> db_lock := (db_lock s2)(d \<mapsto> k) \<rparr>" e] J2 that by simp
  then show ?thesis
    using op s1 s2 J1 J2 by (auto simp: db_begin_def split: sum.splits)
qed

lemma db_close_J:
  assumes "J (sys_pool s)" "who d"
  shows "J (sys_pool (snd (db_close e d s)))"
  using assms J_release [OF assms] J_close [OF assms]
  by (auto simp: db_close_def on_conn_def conn_at_def split: option.splits sum.splits)

lemma db_end_J:
  assumes "J (sys_pool s)" "who d" "conn_work (\<lambda>c. snd (f c))"
  shows "J (sys_pool (snd (db_end f e d s)))"
proof -
  obtain r s1 where s1: "on_conn d f s = (r, s1)" by fastforce
  then have "J (sys_pool s1)" using on_conn_work [OF assms] by simp
  then show ?thesis using s1 reset_lock_J [of s1 e d] by (simp add: db_end_def split: sum.split)
qed

lemma exec_J:
  assumes J: "J (sys_pool s)" and a: "sys_exec num_to_str e [t] a s = Some (r, s')" and t: "now e \<le> t"
    and ok: "allowed ok e a s" and who: "made_by who a"
  shows "J (sys_pool s')"
proof (cases a)
  case (Open d timeout_ms)
  then show ?thesis using a ok who db_open_connection_J [OF J t] by auto
next
  case (Begin d)
  then show ?thesis using a ok who db_begin_J [OF J t] by auto
next
  case (Close d)
  then show ?thesis using a who db_close_J [OF J, of d e] by simp
next
  case (Commit d)
  then show ?thesis
    using a who db_end_J [OF J _ end_transaction.conn_work_axioms, of d "''COMMIT''" e e]
    by (simp add: db_commit_def commit_transaction_def)
next
  case (Rollback d)
  then show ?thesis
    using a who db_end_J [OF J _ end_transaction.conn_work_axioms, of d "''ROLLBACK''" e e]
    by (simp add: db_rollback_def rollback_transaction_def)
next
  case (SetSavepoint d name)
  then show ?thesis using a who on_conn_work [OF J _ set_savepoint.conn_work_axioms, of d e name]
    by (simp add: db_set_savepoint_def)
next
  case (ReleaseSavepoint d name)
  then show ?thesis using a who on_conn_work [OF J _ release_savepoint.conn_work_axioms, of d e name]
    by (simp add: db_release_savepoint_def)
next
  case (RollbackSavepoint d name)
  then show ?thesis using a who on_conn_work [OF J _ rollback_savepoint.conn_work_axioms, of d e name]
    by (simp add: db_rollback_savepoint_def)
next
  case (DropLock k)
  then show ?thesis using a drop_lock_J [OF J, of e k] by simp
next
  case (OpenedCount cs)
  then show ?thesis using a J_tidy [OF J, of e cs] opened_count_tidy [OF J_wf [OF J], of e cs] by auto
qed

end

lemma made_by_anyone [simp]: "made_by (\<lambda>_. True) a"
  by (cases a) simp_all

section \<open>The pool stays well formed\<close>

lemma assign_max_conn: "max_conn (snd (assign num_to_str e d cs l P)) = max_conn P"
  by (simp add: assign_def take_conn_def split: assignment.split)

interpretation wf_inv: sys_invariant "\<lambda>P. pool_wf P \<and> max_conn P = m" any_conn "\<lambda>_. True" for m
proof
  show "pool_wf (upd_conn p f P) \<and> max_conn (upd_conn p f P) = m"
    if "pool_wf P \<and> max_conn P = m" "conn_work f" "db_conn P d = Some p" "conns P p \<noteq> None" for P f d p
    using that conn_method.wf_upd [OF conn_work.axioms(1)] by simp
  show "pool_wf (set_db_conn d (Some p) P') \<and> max_conn (set_db_conn d (Some p) P') = m"
    if "pool_wf P \<and> max_conn P = m" "pools P cs = Some l" "assign num_to_str e d cs l P = (Inr p, P')"
    for P d cs l num_to_str e p P'
    using that wf_assign [of P cs l num_to_str e d] assign_max_conn [of num_to_str e d cs l P] by simp
qed (simp_all add: stop_work.wf_upd release.wf_upd)

definition init_of :: "int \<Rightarrow> system \<Rightarrow> bool" where
  "init_of m s \<longleftrightarrow> (\<exists>strs. s = sys_init m strs)"

interpretation wf_run: step_invariant "init_of m" "sys_step any_conn num_to_str"
    "\<lambda>s. pool_wf (sys_pool s) \<and> max_conn (sys_pool s) = m" for m num_to_str
proof
  show "pool_wf (sys_pool s) \<and> max_conn (sys_pool s) = m" if "init_of m s" for s
    using that by (auto simp: init_of_def sys_init_def pool_wf_def)
  show "pool_wf (sys_pool t) \<and> max_conn (sys_pool t) = m"
    if "pool_wf (sys_pool s) \<and> max_conn (sys_pool s) = m" "sys_step any_conn num_to_str s t" for s t
    using that(2) wf_inv.exec_J [OF that(1)] by cases simp
qed

text \<open>
  C10: Whatever calls the databases of a program make, in whatever order and with whatever
  answers of libpq, each pool lists distinct live connections of its own connection string, and
  at most \<open>_max_conn\<close> of them (one when \<open>_max_conn\<close> is smaller).
\<close>

theorem pool_bounded:
  assumes "(sys_step any_conn num_to_str)\<^sup>*\<^sup>* (sys_init m strs) s" "pools (sys_pool s) cs = Some l"
  shows "int (length l) \<le> max 1 m \<and> distinct l \<and>
    (\<forall>p \<in> set l. \<exists>c. conns (sys_pool s) p = Some c \<and> conn_ok c \<and> c_connection_string c = cs)"
proof -
  have wf: "pool_wf (sys_pool s)" "max_conn (sys_pool s) = m"
    using wf_run.reachable_inv [of m "sys_init m strs"] assms(1) by (auto simp: init_of_def)
  then show ?thesis
    using pool_wfD [OF wf(1) assms(2)] pool_wf_conn(1) [OF wf(1)] by auto
qed

section \<open>Who holds a connection\<close>

text \<open>
  A database holds a connection when its \<open>_conn\<close> points to it. The pool keeps track of that
  through \<open>_res\<close> and \<open>_owner\<close>: a held connection is reserved, its owner is the holder or
  null, and no connection has two holders; an owner holds the connection; what is not reserved
  is in no transaction.
\<close>

definition owned :: "pool \<Rightarrow> bool" where
  "owned P \<longleftrightarrow> pool_wf P \<and>
    (\<forall>d p. db_conn P d = Some p \<longrightarrow>
       (\<exists>c. conns P p = Some c \<and> c_res c = 1 \<and> (c_owner c = None \<or> c_owner c = Some d))) \<and>
    (\<forall>d d' p. db_conn P d = Some p \<longrightarrow> db_conn P d' = Some p \<longrightarrow> d = d') \<and>
    (\<forall>p c. conns P p = Some c \<longrightarrow>
       (\<forall>d. c_owner c = Some d \<longrightarrow> db_conn P d = Some p) \<and> (c_res c = 0 \<longrightarrow> \<not> c_in_transaction c))"

lemma ownedD:
  assumes "owned P"
  shows "pool_wf P"
    and "db_conn P d = Some p \<Longrightarrow>
      conns P p = Some (conn_at P p) \<and> c_res (conn_at P p) = 1 \<and>
      (c_owner (conn_at P p) = None \<or> c_owner (conn_at P p) = Some d)"
    and "db_conn P d = Some p \<Longrightarrow> db_conn P d' = Some p \<Longrightarrow> d = d'"
    and "conns P p = Some c \<Longrightarrow> c_owner c = Some d \<Longrightarrow> db_conn P d = Some p"
    and "conns P p = Some c \<Longrightarrow> c_res c = 0 \<Longrightarrow> \<not> c_in_transaction c"
  using assms unfolding owned_def conn_at_def by (auto, force+)

text \<open>
  The steals that keep this: of a connection that has an owner and is reserved.
\<close>

definition has_owner :: "connection \<Rightarrow> bool" where
  "has_owner c \<longleftrightarrow> c_owner c \<noteq> None \<and> c_res c = 1"

lemma unreserved_unowned:
  assumes "owned P" "conns P p = Some c" "c_res c = 0"
  shows "c_owner c = None" "db_conn P d \<noteq> Some p"
proof -
  show "db_conn P d \<noteq> Some p" using ownedD(2) [OF assms(1), of d p] assms(2,3) by auto
  show "c_owner c = None"
  proof (cases "c_owner c")
    case (Some d)
    from ownedD(2) [OF assms(1) ownedD(4) [OF assms(1,2) Some]] assms(2,3) show ?thesis by simp
  qed
qed

lemma owned_tidy:
  assumes "owned P"
  shows "owned (tidy e cs P)" "db_conn (tidy e cs P) = db_conn P"
proof -
  have dead: "conns P p = Some (conn_at P p) \<and> c_res (conn_at P p) = 0"
    if "p \<in> dead_tail e (pool_list cs P) P" for p
  proof -
    have p: "p \<in> set (pool_list cs P)" "is_dead e (conn_at P p)"
      using that in_set_dropD by (auto simp: dead_tail_def)
    then have c: "conns P p = Some (conn_at P p)"
      using pool_list_wf(3) [OF ownedD(1) [OF assms] p(1)] by simp
    with pool_wf_conn(1) [OF ownedD(1) [OF assms] c] p(2) show ?thesis
      by (auto simp: is_dead_def conn_ok_def)
  qed
  then have "c_owner (conn_at P p) = None" if "p \<in> dead_tail e (pool_list cs P) P" for p
    using unreserved_unowned(1) [OF assms] that by blast
  then show db: "db_conn (tidy e cs P) = db_conn P"
    by (auto simp: tidy_def set_pool_def drop_conns_def fun_eq_iff)
  have "p \<notin> dead_tail e (pool_list cs P) P" if "db_conn P d = Some p" for d p
    using that dead [of p] unreserved_unowned(2) [OF assms, of p] by blast
  then show "owned (tidy e cs P)"
    using assms unfolding owned_def db by (auto split: if_splits)
qed

lemma ownedI:
  assumes "pool_wf P"
    and "\<And>d p. db_conn P d = Some p \<Longrightarrow>
      \<exists>c. conns P p = Some c \<and> c_res c = 1 \<and> (c_owner c = None \<or> c_owner c = Some d)"
    and "\<And>d d' p. db_conn P d = Some p \<Longrightarrow> db_conn P d' = Some p \<Longrightarrow> d = d'"
    and "\<And>p c d. conns P p = Some c \<Longrightarrow> c_owner c = Some d \<Longrightarrow> db_conn P d = Some p"
    and "\<And>p c. conns P p = Some c \<Longrightarrow> c_res c = 0 \<Longrightarrow> \<not> c_in_transaction c"
  shows "owned P"
  using assms unfolding owned_def by blast

text \<open>
  Every operation changes one connection and the pointers to it; what it has to satisfy for that
  connection is enough.
\<close>

lemma owned_change:
  assumes P: "owned P" and wf: "pool_wf P'"
    and conns: "\<And>q. conns P' q = (if q = p then Some c' else conns P q)"
    and held: "\<And>d. db_conn P' d = Some p \<Longrightarrow> c_res c' = 1 \<and> (c_owner c' = None \<or> c_owner c' = Some d)"
    and uniq: "\<And>d d'. db_conn P' d = Some p \<Longrightarrow> db_conn P' d' = Some p \<Longrightarrow> d = d'"
    and others: "\<And>d q. q \<noteq> p \<Longrightarrow> db_conn P' d = Some q \<Longrightarrow> db_conn P d = Some q"
    and own: "\<And>d. c_owner c' = Some d \<Longrightarrow> db_conn P' d = Some p"
    and keep: "\<And>d q c. q \<noteq> p \<Longrightarrow> conns P q = Some c \<Longrightarrow> c_owner c = Some d \<Longrightarrow> db_conn P' d = Some q"
    and tx: "c_res c' = 0 \<Longrightarrow> \<not> c_in_transaction c'"
  shows "owned P'"
proof (rule ownedI)
  show "pool_wf P'" by (rule wf)
next
  fix d q assume q: "db_conn P' d = Some q"
  show "\<exists>c. conns P' q = Some c \<and> c_res c = 1 \<and> (c_owner c = None \<or> c_owner c = Some d)"
    using held q ownedD(2) [OF P others [OF _ q]] by (cases "q = p") (auto simp: conns)
next
  fix d d' q assume q: "db_conn P' d = Some q" "db_conn P' d' = Some q"
  show "d = d'"
    using uniq q ownedD(3) [OF P others [OF _ q(1)] others [OF _ q(2)]] by (cases "q = p") auto
next
  fix q c d assume q: "conns P' q = Some c" "c_owner c = Some d"
  show "db_conn P' d = Some q"
    using own keep q by (cases "q = p") (auto simp: conns)
next
  fix q c assume q: "conns P' q = Some c" "c_res c = 0"
  show "\<not> c_in_transaction c"
    using tx q ownedD(5) [OF P, of q c] by (cases "q = p") (auto simp: conns)
qed

lemma owned_upd:
  assumes P: "owned P" and p: "conns P p = Some c" and f: "conn_work f"
    and tx: "c_res c = 0 \<longrightarrow> \<not> c_in_transaction (f c)"
  shows "owned (upd_conn p f P)"
proof (rule owned_change [OF P, of _ p "f c"])
  have c: "conn_at P p = c" using p by (simp add: conn_at_def)
  note fc = conn_work.keeps_res [OF f, of c] conn_work.keeps_owner [OF f, of c]
  show "pool_wf (upd_conn p f P)"
    using conn_method.wf_upd [OF conn_work.axioms(1) [OF f] ownedD(1) [OF P]] p by simp
  show "c_res (f c) = 1 \<and> (c_owner (f c) = None \<or> c_owner (f c) = Some d)"
    if "db_conn (upd_conn p f P) d = Some p" for d
    using ownedD(2) [OF P, of d p] that fc c by simp
  show "d = d'" if "db_conn (upd_conn p f P) d = Some p" "db_conn (upd_conn p f P) d' = Some p" for d d'
    using ownedD(3) [OF P, of d p d'] that by simp
  show "db_conn (upd_conn p f P) d = Some p" if "c_owner (f c) = Some d" for d
    using ownedD(4) [OF P p] that fc by simp
  show "\<not> c_in_transaction (f c)" if "c_res (f c) = 0" using tx that fc by simp
qed (use p ownedD(4) [OF P] in \<open>auto simp: conn_at_def\<close>)

lemma release_split:
  "release e c =
    (if c_in_transaction c \<and> \<not> PQexec e c ''ROLLBACK'' then
       (Inl (PqException (PQerrorMessage e)), c \<lparr> c_owner := None \<rparr>)
     else (Inr (), c \<lparr> c_owner := None, c_in_transaction := False, c_res := min 0 (c_res c),
       c_running := 0, c_last_modification_date := now e \<rparr>))"
  by (cases c) (auto simp: release_def Let_def stop_work_def touch_def PQexec_def)

lemma owned_release:
  assumes P: "owned P" and d: "db_conn P d = Some p" and err: "fst (release e (conn_at P p)) = Inl err"
  shows "owned (upd_conn p (\<lambda>c. snd (release e c)) P)"
proof (rule owned_change [OF P, of _ p "snd (release e (conn_at P p))"])
  note p = ownedD(2) [OF P d]
  have r: "snd (release e (conn_at P p)) = conn_at P p \<lparr> c_owner := None \<rparr>"
    using err by (auto simp: release_split split: if_splits)
  show "pool_wf (upd_conn p (\<lambda>c. snd (release e c)) P)"
    using release.wf_upd [OF ownedD(1) [OF P], of p e] p by simp
  show "c_res (snd (release e (conn_at P p))) = 1 \<and>
      (c_owner (snd (release e (conn_at P p))) = None \<or> c_owner (snd (release e (conn_at P p))) = Some d')"
    for d' using p by (simp add: r)
  show "\<not> c_in_transaction (snd (release e (conn_at P p)))"
    if "c_res (snd (release e (conn_at P p))) = 0" using p that by (simp add: r)
  show "d1 = d2" if "db_conn (upd_conn p (\<lambda>c. snd (release e c)) P) d1 = Some p"
    "db_conn (upd_conn p (\<lambda>c. snd (release e c)) P) d2 = Some p" for d1 d2
    using ownedD(3) [OF P, of d1 p d2] that by simp
  show "db_conn (upd_conn p (\<lambda>c. snd (release e c)) P) d' = Some p"
    if "c_owner (snd (release e (conn_at P p))) = Some d'" for d' using that by (simp add: r)
qed (simp_all add: ownedD(4) [OF P])

lemma owned_close:
  assumes P: "owned P" and d: "db_conn P d = Some p" and r: "fst (release e (conn_at P p)) = Inr ()"
  shows "owned (set_db_conn d None (upd_conn p (\<lambda>c. snd (release e c)) P))"
proof (rule owned_change [OF P, of _ p "snd (release e (conn_at P p))"])
  note p = ownedD(2) [OF P d]
  show "pool_wf (set_db_conn d None (upd_conn p (\<lambda>c. snd (release e c)) P))"
    using release.wf_upd [OF ownedD(1) [OF P], of p e] p by simp
  have "d' = d" if "db_conn P d' = Some p" for d' using ownedD(3) [OF P that d] .
  then show "c_res (snd (release e (conn_at P p))) = 1 \<and>
      (c_owner (snd (release e (conn_at P p))) = None \<or> c_owner (snd (release e (conn_at P p))) = Some d')"
    if "db_conn (set_db_conn d None (upd_conn p (\<lambda>c. snd (release e c)) P)) d' = Some p" for d'
    using that by (auto split: if_splits)
  show "db_conn (set_db_conn d None (upd_conn p (\<lambda>c. snd (release e c)) P)) d' = Some q"
    if "q \<noteq> p" "conns P q = Some c" "c_owner c = Some d'" for d' q c
    using ownedD(4) [OF P that(2,3)] that(1) d by auto
qed (use r ownedD(3) [OF P] in \<open>auto simp: release_split split: if_splits\<close>)

lemma owned_add:
  assumes P: "owned P" and d: "db_conn P d = None" and wf: "pool_wf (add_conn num_to_str e ow cs l P)"
    and ow: "ow = None \<or> ow = Some d"
  shows "owned (set_db_conn d (Some (next_conn P)) (add_conn num_to_str e ow cs l P))"
    (is "owned ?P'")
proof -
  let ?c = "connection_init e (num_to_str (int (next_conn P))) cs \<lparr> c_res := 1, c_owner := ow \<rparr>"
  have "conns P (next_conn P) = None"
    using pool_wf_conn(2) [OF ownedD(1) [OF P], of "next_conn P"]
    by (cases "conns P (next_conn P)") auto
  then have held: "d' = d" if "db_conn ?P' d' = Some (next_conn P)" for d'
    using that ownedD(2) [OF P, of d' "next_conn P"] by (auto split: if_splits)
  have keep: "db_conn ?P' d' = Some q" if "conns P q = Some c" "c_owner c = Some d'" for d' q c
    using ownedD(4) [OF P that] d by auto
  show ?thesis
  proof (rule owned_change [OF P, of _ "next_conn P" ?c])
    show "pool_wf ?P'" using wf by simp
    show "d1 = d2" if "db_conn ?P' d1 = Some (next_conn P)" "db_conn ?P' d2 = Some (next_conn P)" for d1 d2
      using held [OF that(1)] held [OF that(2)] by simp
    show "c_res ?c = 1 \<and> (c_owner ?c = None \<or> c_owner ?c = Some d')"
      if "db_conn ?P' d' = Some (next_conn P)" for d'
      using ow held [OF that] by (auto simp: connection_init_def)
    show "db_conn ?P' d' = Some q" if "conns P q = Some c" "c_owner c = Some d'" for d' q c
      using keep that .
  qed (use ow in \<open>auto split: if_splits\<close>)
qed

lemma owned_pass:
  assumes P: "owned P" and d: "db_conn P d = None" and p: "conns P p = Some c" and wf: "pool_wf P'"
    and conns: "\<And>q. conns P' q = (if q = p then Some c' else conns P q)"
    and db: "db_conn P' = (\<lambda>x. if c_owner c = Some x then None else db_conn P x)"
    and free: "c_res c = 0 \<or> c_owner c \<noteq> None" and c': "c_res c' = 1" "c_owner c' = Some d"
  shows "owned (set_db_conn d (Some p) P')"
proof -
  have held: "c_owner c = Some d'" if "db_conn P d' = Some p" for d'
    using that free unreserved_unowned(2) [OF P p, of d'] ownedD(2) [OF P that] p by auto
  have keep: "d' \<noteq> d \<and> c_owner c \<noteq> Some d' \<and> db_conn P d' = Some q"
    if "conns P q = Some x" "q \<noteq> p" "c_owner x = Some d'" for q x d'
    using ownedD(4) [OF P that(1,3)] ownedD(4) [OF P p, of d'] d that(2) by auto
  show ?thesis
    by (rule owned_change [OF P, of _ p c'])
      (use wf c' held keep in \<open>auto simp: conns db split: if_splits\<close>)
qed

interpretation own_inv: sys_invariant owned has_owner "\<lambda>_. True"
proof
  show "owned (upd_conn p f P)"
    if "owned P" "conn_work f" "db_conn P d = Some p" for P f d p
    using ownedD(2) [OF that(1,3)] by (intro owned_upd that) auto
  show "owned (upd_conn p (stop_work e) P)" if "owned P" "conns P p \<noteq> None" for P p e
    using that owned_upd [OF that(1) _ stop_work.conn_work_axioms] ownedD(5) [OF that(1)]
    by (auto simp: stop_work_def touch_def)
  show "owned (set_db_conn d (Some p) P')"
    if P: "owned P" and d: "db_conn P d = None" and l: "pools P cs = Some l"
      and ok: "\<And>q. policy l P = Steal q \<Longrightarrow> has_owner (conn_at P q)"
      and a: "assign num_to_str e d cs l P = (Inr p, P')"
    for P d cs l num_to_str e p P'
  proof -
    have wf: "pool_wf P'" using wf_assign [OF ownedD(1) [OF P] l, of num_to_str e d] a by simp
    have live: "conns P q = Some (conn_at P q)" if "q \<in> set l" for q
      using pool_wfD(3) [OF ownedD(1) [OF P] l that] by simp
    show ?thesis
    proof (cases "policy l P")
      case (Reuse q)
      then have q: "p = q" "P' = take_conn e d q P" "c_res (conn_at P q) = 0" "q \<in> set l"
        using a policy_cases [OF Reuse] by (auto simp: assign_def)
      then have "c_owner (conn_at P q) = None" using unreserved_unowned(1) [OF P live] by simp
      then show ?thesis using q wf live
        by (intro owned_pass [OF P d, of p "conn_at P q" P'
              "(stop_work e (conn_at P q \<lparr> c_res := 1 \<rparr>)) \<lparr> c_owner := Some d \<rparr>"])
          (auto simp: take_conn_def stop_work_def touch_def)
    next
      case (Steal q)
      then have q: "p = q" "P' = steal e d q P" "q \<in> set l"
        using a policy_cases [OF Steal] by (auto simp: assign_def)
      then show ?thesis using ok [OF Steal] wf live
        by (intro owned_pass [OF P d, of p "conn_at P q" P' "reserve e (conn_at P q \<lparr> c_owner := Some d \<rparr>)"])
          (auto simp: has_owner_def reserve_def touch_def)
    qed (use a wf owned_add [OF P d, of num_to_str e _ cs l] in \<open>auto simp: assign_def\<close>)
  qed
qed (auto simp: ownedD(1) owned_tidy(1) owned_release owned_close)

lemma owned_init: "owned (sys_pool (sys_init m strs))"
  by (simp add: owned_def sys_init_def pool_wf_def)

interpretation own_run: step_invariant "init_of m" "sys_step has_owner num_to_str"
    "\<lambda>s. owned (sys_pool s)" for m num_to_str
proof
  show "owned (sys_pool s)" if "init_of m s" for s
    using that owned_init by (auto simp: init_of_def)
  show "owned (sys_pool t)" if "owned (sys_pool s)" "sys_step has_owner num_to_str s t" for s t
    using that(2) own_inv.exec_J [OF that(1)] by cases simp
qed

lemma reachable_owned:
  "(sys_step has_owner num_to_str)\<^sup>*\<^sup>* (sys_init m strs) s \<Longrightarrow> owned (sys_pool s)"
  using own_run.reachable_inv [of m "sys_init m strs"] by (auto simp: init_of_def)

text \<open>
  C19: As long as only connections with a recorded owner are stolen, a connection is never
  held by two databases, a held connection is never deleted and stays reserved.
\<close>

theorem exclusive_holder:
  assumes "(sys_step has_owner num_to_str)\<^sup>*\<^sup>* (sys_init m strs) s"
    and "db_conn (sys_pool s) d = Some p" "db_conn (sys_pool s) d' = Some p"
  shows "d = d' \<and> (\<exists>c. conns (sys_pool s) p = Some c \<and> c_res c = 1)"
  using ownedD(2,3) [OF reachable_owned [OF assms(1)] assms(2)] assms(3) by auto

subsection \<open>Transactions are isolated\<close>

text \<open>Database \<open>d\<close> holds \<open>p\<close> in a transaction; the calls of the others leave it so.\<close>

definition in_tx :: "nat \<Rightarrow> nat \<Rightarrow> pool \<Rightarrow> bool" where
  "in_tx d p P \<longleftrightarrow> owned P \<and> db_conn P d = Some p \<and> c_in_transaction (conn_at P p)"

lemma in_tx_upd:
  assumes "in_tx d p P" "owned P'" "db_conn P' d = db_conn P d" "conns P' p = conns P p"
  shows "in_tx d p P'"
  using assms by (simp add: in_tx_def conn_at_def)

lemma in_tx_other: "in_tx d p P \<Longrightarrow> db_conn P d' = Some q \<Longrightarrow> d' \<noteq> d \<Longrightarrow> q \<noteq> p"
  unfolding in_tx_def using ownedD(3) by blast

lemma in_tx_live: "in_tx d p P \<Longrightarrow> conns P p = Some (conn_at P p) \<and> c_res (conn_at P p) = 1"
  unfolding in_tx_def using ownedD(2) by blast

lemma in_tx_tidy:
  assumes "in_tx d p P"
  shows "in_tx d p (tidy e cs P)"
proof (rule in_tx_upd [OF assms])
  have P: "owned P" using assms by (simp add: in_tx_def)
  show "owned (tidy e cs P)" "db_conn (tidy e cs P) d = db_conn P d" using owned_tidy [OF P] by simp_all
  show "conns (tidy e cs P) p = conns P p"
    using tidy_frame [OF ownedD(1) [OF P], of e cs p] in_tx_live [OF assms] by auto
qed

lemma in_tx_assign:
  assumes tx: "in_tx d p P" and d': "d' \<noteq> d" "db_conn P d' = None" and l: "pools P cs = Some l"
    and ok: "\<And>q. policy l P = Steal q \<Longrightarrow> has_owner (conn_at P q)"
    and a: "assign num_to_str e d' cs l P = (Inr q, P')"
  shows "in_tx d p (set_db_conn d' (Some q) P')"
proof (rule in_tx_upd [OF tx])
  have P: "owned P" using tx by (simp add: in_tx_def)
  show "owned (set_db_conn d' (Some q) P')"
    by (rule own_inv.J_assign [OF P _ d'(2) l ok a]) simp_all
  have p: "db_conn P d = Some p" "c_in_transaction (conn_at P p)" "conns P (next_conn P) = None"
    using tx pool_wf_conn(2) [OF ownedD(1) [OF P], of "next_conn P"]
    by (cases "conns P (next_conn P)"; auto simp: in_tx_def)+
  have "q \<noteq> p"
    using assign_result [OF a l] in_tx_live [OF tx] p by (auto simp: can_be_stolen_def)
  then show "conns (set_db_conn d' (Some q) P') p = conns P p"
    using assign_frame [OF a] by simp
  have "c_owner (conn_at P x) \<noteq> Some d" if "policy l P = Steal x" for x
    using ownedD(4) [OF P, of x "conn_at P x" d] pool_wfD(3) [OF ownedD(1) [OF P] l, of x]
      policy_cases [OF that] p by (auto simp: can_be_stolen_def)
  then show "db_conn (set_db_conn d' (Some q) P') d = db_conn P d"
    using a d' by (auto simp: assign_def take_conn_def split: assignment.splits)
qed

interpretation tx_inv: sys_invariant "in_tx d p" has_owner "\<lambda>d'. d' \<noteq> d" for d p
proof
  fix P assume tx: "in_tx d p P"
  then have P: "owned P" by (simp add: in_tx_def)
  show "pool_wf P" using ownedD(1) [OF P] .
  show "in_tx d p (tidy e cs P)" for e cs using tx by (rule in_tx_tidy)
  show "in_tx d p (upd_conn q f P)" if "d' \<noteq> d" "conn_work f" "db_conn P d' = Some q" for f d' q
    using in_tx_upd [OF tx] in_tx_other [OF tx that(3,1)] own_inv.J_work [OF P _ that(2,3)]
      ownedD(2) [OF P that(3)] by simp
  show "in_tx d p (upd_conn q (stop_work e) P)" if "conns P q \<noteq> None" for q e
    using tx own_inv.J_idle [OF P that] by (auto simp: in_tx_def stop_work_def touch_def)
  show "in_tx d p (upd_conn q (\<lambda>c. snd (release e c)) P)"
    if "d' \<noteq> d" "db_conn P d' = Some q" "fst (release e (conn_at P q)) = Inl err" for d' q e err
    using in_tx_upd [OF tx] in_tx_other [OF tx that(2,1)] owned_release [OF P that(2,3)] by simp
  show "in_tx d p (set_db_conn d' None (upd_conn q (\<lambda>c. snd (release e c)) P))"
    if "d' \<noteq> d" "db_conn P d' = Some q" "fst (release e (conn_at P q)) = Inr ()" for d' q e
    using in_tx_upd [OF tx] in_tx_other [OF tx that(2,1)] owned_close [OF P that(2,3)] that(1) by simp
  show "in_tx d p (set_db_conn d' (Some q) P')"
    if "d' \<noteq> d" "db_conn P d' = None" "pools P cs = Some l"
      "\<And>q. policy l P = Steal q \<Longrightarrow> has_owner (conn_at P q)"
      "assign num_to_str e d' cs l P = (Inr q, P')" for d' cs l num_to_str e q P'
    using in_tx_assign [OF tx that] .
qed

text \<open>
  C1: A transaction is isolated from the other databases, as long as the pool steals only connections with a
  recorded owner: while database \<open>d\<close> is in a transaction, no call of another database, no end of a lock and no
  count takes its connection or its transaction away. Without the condition it fails (\<open>shared_transaction_lost\<close>).
\<close>

theorem transaction_isolated:
  assumes "(sys_step has_owner num_to_str)\<^sup>*\<^sup>* (sys_init m strs) s"
    and "db_conn (sys_pool s) d = Some p" "db_in_transaction d s"
    and "sys_exec num_to_str e [t] a s = Some (r, s')" "now e \<le> t" "allowed has_owner e a s"
    and "made_by (\<lambda>d'. d' \<noteq> d) a"
  shows "db_conn (sys_pool s') d = Some p \<and> db_in_transaction d s'"
proof -
  have "in_tx d p (sys_pool s)"
    using reachable_owned [OF assms(1)] assms(2,3)
    by (simp add: in_tx_def db_in_transaction_def in_transaction_def)
  then have "in_tx d p (sys_pool s')" using tx_inv.exec_J assms(4-7) by blast
  then show ?thesis by (simp add: in_tx_def db_in_transaction_def in_transaction_def)
qed

section \<open>Runs that break the contract\<close>

text \<open>A sequence of calls under one environment, as an executable run.\<close>

fun run_ops :: "(connection \<Rightarrow> bool) \<Rightarrow> (int \<Rightarrow> string) \<Rightarrow> env \<Rightarrow> op list \<Rightarrow> system \<Rightarrow> system option" where
  "run_ops ok num_to_str e [] s = Some s"
| "run_ops ok num_to_str e (a # as) s =
    (if \<not> allowed ok e a s then None
     else case sys_exec num_to_str e [now e] a s of
       None \<Rightarrow> None
     | Some (r, s) \<Rightarrow> if undefined_behaviour r then None else run_ops ok num_to_str e as s)"

lemma may_steal_any [simp]: "may_steal any_conn e d s"
  by (simp add: may_steal_def any_conn_def split: assignment.split)

lemma allowed_any [simp]: "allowed any_conn e a s"
  by (cases a) simp_all

lemma run_ops_steps:
  "run_ops ok num_to_str e as s = Some s' \<Longrightarrow> (sys_step ok num_to_str)\<^sup>*\<^sup>* s s'"
proof (induction "as" arbitrary: s)
  case (Cons a "as")
  then obtain r s1 where "sys_exec num_to_str e [now e] a s = Some (r, s1)" "allowed ok e a s"
    "\<not> undefined_behaviour r" and rest: "run_ops ok num_to_str e as s1 = Some s'"
    by (auto split: option.splits if_splits)
  then have "sys_step ok num_to_str s s1" by (intro sys_step.call) auto
  with Cons.IH [OF rest] show ?case by (rule converse_rtranclp_into_rtranclp [rotated])
qed simp

lemma run_ops_reach:
  assumes "map_option f (run_ops ok num_to_str e as s) = Some x"
  shows "\<exists>s'. (sys_step ok num_to_str)\<^sup>*\<^sup>* s s' \<and> f s' = x"
  using assms run_ops_steps by blast

definition one_host :: "int \<Rightarrow> system" where
  "one_host m = sys_init m (\<lambda>_. ''host=db'')"

lemmas run_defs = one_host_def sys_init_def sample_env_def sample_str_def db_open_connection_def
  acquire_def get_connection_def find_pool_def clean_dead_def create_first_eq create_more_eq add_conn_def
  reuse_loop_find take_conn_def steal_stage_def steal_pass_find steal_order_def steal_def
  clear_owner_conn_def can_be_stolen_def on_conn_def lock_and_open_def make_lock_def drop_lock_def
  connection_init_def conn_at_def upd_conn_def set_db_conn_def conn_defs undefined_behaviour_def
  copy_lock_def

lemmas tx_run_defs = db_begin_def reset_lock_def PQexec_def db_in_transaction_def in_transaction_def tidy_def set_pool_def
  drop_conns_def dead_tail_def get_opened_connection_count_def db_close_def

lemma shared_run:
  "map_option (\<lambda>s. (db_conn (sys_pool s) 1, db_conn (sys_pool s) 2))
     (run_ops any_conn sample_str sample_env [Open 0 5000, Open 1 5000, DropLock 1, Open 2 5000] (one_host 2))
   = Some (Some 1, Some 1)"
  by (simp add: run_defs)

text \<open>
  Two databases can hold the same connection. The second connection of a pool is handed
  out without an owner; when it is stolen, its holder is not told. With a limit of two
  connections: three databases open, the second has dropped its lock, the third steals.
\<close>

theorem shared_connection:
  "\<exists>s. (sys_step any_conn sample_str)\<^sup>*\<^sup>* (one_host 2) s \<and>
     db_conn (sys_pool s) 1 = Some 1 \<and> db_conn (sys_pool s) 2 = Some 1"
  using run_ops_reach [OF shared_run] by auto

definition shared_begin :: "op list" where
  "shared_begin = [Open 0 5000, Open 1 5000, DropLock 1, Open 2 5000, Begin 1]"

lemma shared_begin_run:
  "map_option (\<lambda>s. (db_conn (sys_pool s) 1, db_in_transaction 1 s))
     (run_ops any_conn sample_str sample_env shared_begin (one_host 2)) = Some (Some 1, True)"
  "map_option (\<lambda>s. (db_conn (sys_pool s) 1, db_in_transaction 1 s))
     (run_ops any_conn sample_str sample_env (shared_begin @ [Close 2]) (one_host 2)) = Some (Some 1, False)"
  by (simp_all add: shared_begin_def run_defs tx_run_defs)

text \<open>
  Then a transaction is not isolated either: the condition of \<open>transaction_isolated\<close> on what is stolen is needed. The
  second database starts a transaction on the shared connection, and the close of the third rolls it back.
\<close>

theorem shared_transaction_lost:
  "\<exists>s s'. run_ops any_conn sample_str sample_env shared_begin (one_host 2) = Some s \<and> db_in_transaction 1 s \<and>
     run_ops any_conn sample_str sample_env (shared_begin @ [Close 2]) (one_host 2) = Some s' \<and> \<not> db_in_transaction 1 s'"
  using shared_begin_run by auto

lemma two_locks_run:
  "map_option (\<lambda>s. (locks s 1, can_be_stolen (conn_at (sys_pool s) 0)))
     (run_ops any_conn sample_str sample_env [Open 0 5000, Open 0 5000, DropLock 0] (one_host 2))
   = Some (Some (0, 1), True)"
  by (simp add: run_defs)

text \<open>
  A lock does not protect its connection. \<open>open_connection\<close> on a database that holds a
  locked connection reserves it again, which hides the lock from the check of
  \<open>connection_lock_t\<close>: a second lock is made, and the end of the first marks the connection
  idle while the second is still alive.
\<close>

theorem lock_not_exclusive:
  "\<exists>s. (sys_step any_conn sample_str)\<^sup>*\<^sup>* (one_host 2) s \<and>
     locks s 1 = Some (0, 1) \<and> can_be_stolen (conn_at (sys_pool s) 0)"
  using run_ops_reach [OF two_locks_run] by auto

section \<open>Examples\<close>

lemma two_open_run:
  "map_option (\<lambda>s. pools (sys_pool s) ''host=db'')
     (run_ops any_conn sample_str sample_env [Open 0 1, Open 1 1] (one_host 2)) = Some (Some [0, 1])"
  by (simp add: run_defs)

theorem pool_bounded_witness:
  "\<exists>s :: system. pools (sys_pool s) ''host=db'' = Some [0, 1] \<and> conn_ok (conn_at (sys_pool s) 1)"
proof -
  from run_ops_reach [OF two_open_run] obtain s
    where s: "(sys_step any_conn sample_str)\<^sup>*\<^sup>* (sys_init 2 (\<lambda>_. ''host=db'')) s"
      "pools (sys_pool s) ''host=db'' = Some [0, 1]"
    by (auto simp: one_host_def)
  from pool_bounded [OF s] have "conn_ok (conn_at (sys_pool s) 1)" by (auto simp: conn_at_def)
  with s(2) show ?thesis by blast
qed

lemma owned_run:
  "map_option (\<lambda>s. db_conn (sys_pool s) 0)
     (run_ops has_owner sample_str sample_env [Open 0 1] (one_host 2)) = Some (Some 0)"
  by (simp add: run_defs may_steal_def policy_def cleaned_def pool_list_def)

theorem exclusive_holder_witness:
  "\<exists>(s :: system) c. db_conn (sys_pool s) 0 = Some 0 \<and> conns (sys_pool s) 0 = Some c \<and> c_res c = 1"
proof -
  from run_ops_reach [OF owned_run] obtain s
    where s: "(sys_step has_owner sample_str)\<^sup>*\<^sup>* (sys_init 2 (\<lambda>_. ''host=db'')) s"
      "db_conn (sys_pool s) 0 = Some 0"
    by (auto simp: one_host_def)
  from exclusive_holder [OF s(1) s(2) s(2)] obtain c
    where "conns (sys_pool s) 0 = Some c" "c_res c = 1" by blast
  with s(2) show ?thesis by blast
qed

lemma begin_run:
  "map_option (\<lambda>s. (db_conn (sys_pool s) 0, db_in_transaction 0 s, may_steal has_owner sample_env 1 s,
       sys_exec sample_str sample_env [1000] (Open 1 1) s = None))
     (run_ops has_owner sample_str sample_env [Begin 0] (one_host 1)) = Some (Some 0, True, True, False)"
  by (simp add: run_defs may_steal_def policy_def cleaned_def pool_list_def db_begin_def reset_lock_def
      PQexec_def db_in_transaction_def in_transaction_def tidy_def set_pool_def drop_conns_def dead_tail_def
      get_opened_connection_count_def)

theorem transaction_isolated_witness:
  "\<exists>s s' r. sys_exec sample_str sample_env [1000] (Open 1 1) s = Some (r, s') \<and>
     db_in_transaction 0 s \<and> db_conn (sys_pool s') 0 = Some 0 \<and> db_in_transaction 0 s'"
proof -
  from run_ops_reach [OF begin_run] obtain s
    where s: "(sys_step has_owner sample_str)\<^sup>*\<^sup>* (sys_init 1 (\<lambda>_. ''host=db'')) s"
      "db_conn (sys_pool s) 0 = Some 0" "db_in_transaction 0 s" "may_steal has_owner sample_env 1 s"
      "sys_exec sample_str sample_env [1000] (Open 1 1) s \<noteq> None"
    by (auto simp: one_host_def)
  from s(5) obtain r s' where x: "sys_exec sample_str sample_env [1000] (Open 1 1) s = Some (r, s')" by auto
  then have "db_conn (sys_pool s') 0 = Some 0 \<and> db_in_transaction 0 s'"
    using transaction_isolated [OF s(1,2,3) x] s(4) by (simp add: sample_env_def)
  with s(3) x show ?thesis by blast
qed

end
