(* ===== verification/Net_Addr.thy ===== *)
theory Net_Addr
  imports C_Chars "HOL-Library.List_Lexorder" "HOL-Library.Product_Lexorder" "HOL-Library.Monad_Syntax"
begin

text \<open>
  Network addresses: classes \<open>cidr\<close> and \<open>inet\<close> of \<open>pg_type_net_def.h\<close> and
  \<open>pg_type_net_def.cpp\<close> with the parsers and printers for IPv4 and IPv6 (\<open>inet_net_pton\<close>,
  \<open>inet_cidr_pton\<close>, \<open>inet_net_ntop\<close>), the check of a network address and the order.

  Bytes are integers from 0 to 255. A parser returns the bytes it writes and the prefix length,
  or None where the code returns -1; a destination is zero where nothing is written, as the
  constructors initialise it.
\<close>

section \<open>State\<close>

datatype net_family = Pq_net_family_none | Pq_net_family_inet | Pq_net_family_inet6

text \<open>\<open>cidr\<close> and \<open>inet\<close> have the same members.\<close>

record netaddr =
  na_family :: net_family
  na_bits :: int
  na_ipaddr :: "int list"

section \<open>Parsing IPv4\<close>

text \<open>The loop over the digits of an octet, left when the value exceeds 255.\<close>

primrec eat_octet :: "int \<Rightarrow> string \<Rightarrow> (int \<times> string) option" where
  "eat_octet tmp [] = Some (tmp, [])"
| "eat_octet tmp (c # cs) =
    (if c_isdigit c then
       (let tmp = tmp * 10 + to_digit c in if tmp > 255 then None else eat_octet tmp cs)
     else Some (tmp, c # cs))"

text \<open>The loop over the digits of a prefix length, in 32-bit arithmetic.\<close>

primrec eat_bits :: "int \<Rightarrow> string \<Rightarrow> int \<times> string" where
  "eat_bits bits [] = (bits, [])"
| "eat_bits bits (c # cs) =
    (if c_isdigit c then eat_bits (i32 (i32 (bits * 10) + to_digit c)) cs else (bits, c # cs))"

text \<open>
  The prefix length after the mantissa: -1 when there is none, None when what follows is not a
  prefix length or exceeds 32.
\<close>

definition v4_prefix :: "string \<Rightarrow> int list \<Rightarrow> int option" where
  "v4_prefix src out =
    (case src of
       [] \<Rightarrow> Some (- 1)
     | ch # src \<Rightarrow>
         if ch = CHR ''/'' \<and> src \<noteq> [] \<and> c_isdigit (hd src) \<and> out \<noteq> [] then
           (let (bits, rest) = eat_bits 0 src in
            if rest \<noteq> [] then None else if bits > 32 then None else Some bits)
         else None)"

text \<open>The mantissa of \<open>inet_net_pton_ipv4\<close>; \<open>size\<close> counts the octets still free.\<close>

primrec net_octets :: "nat \<Rightarrow> string \<Rightarrow> int list \<Rightarrow> (string \<times> int list) option" where
  "net_octets 0 src out =
    (if src \<noteq> [] \<and> c_isdigit (hd src) then None else Some (src, out))"
| "net_octets (Suc sz) src out =
    (if src \<noteq> [] \<and> c_isdigit (hd src) then
       (case eat_octet 0 src of
          None \<Rightarrow> None
        | Some (tmp, src) \<Rightarrow>
            (case src of
               [] \<Rightarrow> Some ([], out @ [tmp])
             | ch # rest \<Rightarrow>
                 if ch = CHR ''/'' then Some (src, out @ [tmp])
                 else if ch \<noteq> CHR ''.'' then None
                 else net_octets sz rest (out @ [tmp])))
     else Some (src, out))"

definition pad :: "nat \<Rightarrow> int list \<Rightarrow> int list" where
  "pad n out = out @ replicate (n - length out) 0"

definition inet_net_pton_ipv4 :: "string \<Rightarrow> (int list \<times> int) option" where
  "inet_net_pton_ipv4 src =
    (case net_octets 4 src [] of
       None \<Rightarrow> None
     | Some (src, out) \<Rightarrow>
         (case v4_prefix src out of
            None \<Rightarrow> None
          | Some bits \<Rightarrow>
              if bits = - 1 \<and> length out \<noteq> 4 then None
              else
                let bits = (if bits = - 1 then 32 else bits) in
                if out = [] then None
                else if bits sdiv 8 > int (length out) then None
                else Some (pad 4 out, bits)))"

text \<open>The hexadecimal form of a network number: pairs of digits, an odd last one padded.\<close>

primrec cidr_nybbles :: "string \<Rightarrow> nat \<Rightarrow> int option \<Rightarrow> int list \<Rightarrow> (string \<times> int list) option" where
  "cidr_nybbles [] sz dirty out =
    (case dirty of
       None \<Rightarrow> Some ([], out)
     | Some tmp \<Rightarrow> if sz = 0 then None else Some ([], out @ [tmp * 16]))"
| "cidr_nybbles (ch # src) sz dirty out =
    (case hex_value ch of
       Some n \<Rightarrow>
         (case dirty of
            None \<Rightarrow> cidr_nybbles src sz (Some n) out
          | Some tmp \<Rightarrow>
              if sz = 0 then None else cidr_nybbles src (sz - 1) None (out @ [tmp * 16 + n]))
     | None \<Rightarrow>
         (case dirty of
            None \<Rightarrow> Some (ch # src, out)
          | Some tmp \<Rightarrow> if sz = 0 then None else Some (ch # src, out @ [tmp * 16])))"

text \<open>The dotted form; a point must be followed by a digit.\<close>

primrec cidr_octets :: "nat \<Rightarrow> string \<Rightarrow> int list \<Rightarrow> (string \<times> int list) option" where
  "cidr_octets 0 src out = None"
| "cidr_octets (Suc sz) src out =
    (case eat_octet 0 src of
       None \<Rightarrow> None
     | Some (tmp, src) \<Rightarrow>
         (case src of
            [] \<Rightarrow> Some ([], out @ [tmp])
          | ch # rest \<Rightarrow>
              if ch = CHR ''/'' then Some (src, out @ [tmp])
              else if ch \<noteq> CHR ''.'' then None
              else if rest = [] \<or> \<not> c_isdigit (hd rest) then None
              else cidr_octets sz rest (out @ [tmp])))"

text \<open>The width of the network class, widened to the octets that were given.\<close>

definition class_bits :: "int list \<Rightarrow> int" where
  "class_bits out =
    (let o0 = hd out;
         bits = (if o0 \<ge> 240 then 32 else if o0 \<ge> 224 then 8 else if o0 \<ge> 192 then 24
                 else if o0 \<ge> 128 then 16 else 8);
         bits = (if bits < int (length out) * 8 then int (length out) * 8 else bits) in
     if bits = 8 \<and> o0 = 224 then 4 else bits)"

definition cidr_mantissa :: "string \<Rightarrow> nat \<Rightarrow> (string \<times> int list) option" where
  "cidr_mantissa src sz =
    (case src of
       [] \<Rightarrow> None
     | ch # rest \<Rightarrow>
         if ch = CHR ''0'' \<and> rest \<noteq> [] \<and> (hd rest = CHR ''x'' \<or> hd rest = CHR ''X'') \<and>
            tl rest \<noteq> [] \<and> c_isxdigit (hd (tl rest)) then
           if sz = 0 then None else cidr_nybbles (tl rest) sz None []
         else if c_isdigit ch then cidr_octets sz src []
         else None)"

definition inet_cidr_pton_ipv4 :: "string \<Rightarrow> nat \<Rightarrow> (int list \<times> int) option" where
  "inet_cidr_pton_ipv4 src sz =
    (case cidr_mantissa src sz of
       None \<Rightarrow> None
     | Some (src, out) \<Rightarrow>
         (case v4_prefix src out of
            None \<Rightarrow> None
          | Some bits \<Rightarrow>
              if out = [] then None
              else
                let bits = (if bits = - 1 then class_bits out else bits);
                    more = nat ((bits - int (length out) * 8 + 7) div 8) in
                if sz - length out < more then None
                else Some (out @ replicate more 0, bits)))"

section \<open>Parsing IPv6\<close>

text \<open>\<open>getbits\<close>: decimal digits without leading zeros, at most 128, to the end of the text.\<close>

primrec getbits_loop :: "string \<Rightarrow> nat \<Rightarrow> int \<Rightarrow> int option" where
  "getbits_loop [] n val = (if n = 0 then None else Some val)"
| "getbits_loop (ch # src) n val =
    (if c_isdigit ch then
       if n \<noteq> 0 \<and> val = 0 then None
       else (let val = val * 10 + to_digit ch in if val > 128 then None else getbits_loop src (n + 1) val)
     else None)"

definition getbits :: "string \<Rightarrow> int option" where
  "getbits src = getbits_loop src 0 0"

text \<open>
  \<open>getv4\<close>: the octets written and the prefix length, -1 when none is given. An octet is
  written without a check that it has a digit.
\<close>

primrec getv4_loop :: "string \<Rightarrow> nat \<Rightarrow> int \<Rightarrow> int list \<Rightarrow> (int list \<times> int) option" where
  "getv4_loop [] n val out =
    (if n = 0 \<or> length out > 3 then None else Some (out @ [val], - 1))"
| "getv4_loop (ch # src) n val out =
    (if c_isdigit ch then
       if n \<noteq> 0 \<and> val = 0 then None
       else (let val = val * 10 + to_digit ch in if val > 255 then None else getv4_loop src (n + 1) val out)
     else if ch = CHR ''.'' \<or> ch = CHR ''/'' then
       if length out > 3 then None
       else if ch = CHR ''/'' then map_option (\<lambda>b. (out @ [val], b)) (getbits src)
       else getv4_loop src 0 0 (out @ [val])
     else None)"

definition getv4 :: "string \<Rightarrow> (int list \<times> int) option" where
  "getv4 src = getv4_loop src 0 0 []"

text \<open>
  The main loop. \<open>out\<close> is what stands in front of \<open>tp\<close>, \<open>colonp\<close> the position of the double
  colon, \<open>curtok\<close> the start of the current token. The result has the pending group, if any.
\<close>

record v6_state =
  v6_curtok :: string
  v6_group :: "int option"
  v6_ndigits :: nat
  v6_out :: "int list"
  v6_colonp :: "nat option"
  v6_bits :: int

definition put_word :: "int \<Rightarrow> int list" where
  "put_word val = [(val div 256) mod 256, val mod 256]"

primrec v6_loop :: "string \<Rightarrow> v6_state \<Rightarrow> v6_state option" where
  "v6_loop [] st = Some st"
| "v6_loop (ch # src) st =
    (case hex_value ch of
       Some n \<Rightarrow>
         (let val = (case v6_group st of None \<Rightarrow> 0 | Some v \<Rightarrow> v) * 16 + n in
          if v6_ndigits st + 1 > 4 then None
          else v6_loop src (st \<lparr> v6_group := Some val, v6_ndigits := v6_ndigits st + 1 \<rparr>))
     | None \<Rightarrow>
         if ch = CHR '':'' then
           (case v6_group st of
              None \<Rightarrow>
                if v6_colonp st \<noteq> None then None
                else v6_loop src (st \<lparr> v6_curtok := src, v6_colonp := Some (length (v6_out st)) \<rparr>)
            | Some val \<Rightarrow>
                if src = [] then None
                else if length (v6_out st) + 2 > 16 then None
                else v6_loop src (st \<lparr> v6_curtok := src, v6_out := v6_out st @ put_word val,
                       v6_group := None, v6_ndigits := 0 \<rparr>))
         else if ch = CHR ''.'' \<and> length (v6_out st) + 4 \<le> 16 \<and> getv4 (v6_curtok st) \<noteq> None then
           (case getv4 (v6_curtok st) of
              None \<Rightarrow> None
            | Some (octs, bits) \<Rightarrow>
                Some (st \<lparr> v6_out := v6_out st @ pad 4 octs, v6_group := None, v6_bits := bits \<rparr>))
         else if ch = CHR ''/'' then map_option (\<lambda>b. st \<lparr> v6_bits := b \<rparr>) (getbits src)
         else None)"

definition v6_start :: "string \<Rightarrow> v6_state" where
  "v6_start src = \<lparr> v6_curtok = src, v6_group = None, v6_ndigits = 0, v6_out = [],
     v6_colonp = None, v6_bits = - 1 \<rparr>"

text \<open>
  What follows the loop: the last group, the default prefix length, and the move of what came
  after the double colon to the end.
\<close>

definition v6_finish :: "v6_state \<Rightarrow> (int list \<times> int) option" where
  "v6_finish st =
    (case v6_group st of
       Some val \<Rightarrow> if length (v6_out st) + 2 > 16 then None else Some (v6_out st @ put_word val)
     | None \<Rightarrow> Some (v6_out st)) \<bind>
    (\<lambda>out.
      let bits = (if v6_bits st = - 1 then 128 else v6_bits st) in
      case v6_colonp st of
        None \<Rightarrow> if length out \<noteq> 16 then None else Some (out, bits)
      | Some colonp \<Rightarrow>
          if length out = 16 then None
          else Some (take colonp out @ replicate (16 - length out) 0 @ drop colonp out, bits))"

definition inet_cidr_pton_ipv6 :: "string \<Rightarrow> nat \<Rightarrow> (int list \<times> int) option" where
  "inet_cidr_pton_ipv6 src sz =
    (if sz < 16 then None
     else
       (case src of
          c # src' \<Rightarrow>
            if c = CHR '':'' then if src' = [] \<or> hd src' \<noteq> CHR '':'' then None else Some src'
            else Some src
        | [] \<Rightarrow> Some src) \<bind>
       (\<lambda>src. v6_loop src (v6_start src) \<bind> v6_finish))"

definition inet_net_pton_ipv6 :: "string \<Rightarrow> (int list \<times> int) option" where
  "inet_net_pton_ipv6 src = inet_cidr_pton_ipv6 src 16"

section \<open>Printing\<close>

text \<open>
  The buffer sizes: \<open>sizeof\<close> of the format string counts its final NUL. None stands for
  \<open>EMSGSIZE\<close> and \<open>EINVAL\<close>.
\<close>

definition tmp_size :: nat where "tmp_size = 50"

primrec ntop_octets :: "int list \<Rightarrow> bool \<Rightarrow> nat \<Rightarrow> (string \<times> nat) option" where
  "ntop_octets [] later sz = Some ([], sz)"
| "ntop_octets (b # src) later sz =
    (if sz \<le> 5 then None
     else
       let t = (if later then ''.'' else []) @ fmt_u b in
       map_option (\<lambda>(s, sz). (t @ s, sz)) (ntop_octets src True (sz - length t)))"

definition inet_net_ntop_ipv4 :: "int list \<Rightarrow> int \<Rightarrow> nat \<Rightarrow> string option" where
  "inet_net_ntop_ipv4 src bits sz =
    (if bits < 0 \<or> bits > 32 then None
     else case ntop_octets (take 4 src) False sz of
       None \<Rightarrow> None
     | Some (dst, sz) \<Rightarrow>
         if bits \<noteq> 32 then if sz \<le> 4 then None else Some (dst @ ''/'' @ fmt_u bits)
         else Some dst)"

primrec decoct_loop :: "int list \<Rightarrow> nat \<Rightarrow> string option" where
  "decoct_loop [] sz = Some []"
| "decoct_loop (b # src) sz =
    (if sz \<le> 5 then None
     else
       let t = fmt_u b @ (if src = [] then [] else ''.'') in
       map_option (\<lambda>s. t @ s) (decoct_loop src (sz - length t)))"

text \<open>The longest run of zero words: the loop over the words with the best and current run.\<close>

definition words_of :: "int list \<Rightarrow> int list" where
  "words_of src = map (\<lambda>i. src ! (2 * i) * 256 + src ! (2 * i + 1)) [0..<8]"

type_synonym run = "int \<times> int"

definition better :: "run \<Rightarrow> run \<Rightarrow> run" where
  "better best cur = (if fst best = - 1 \<or> snd cur > snd best then cur else best)"

primrec run_loop :: "int list \<Rightarrow> int \<Rightarrow> run \<Rightarrow> run \<Rightarrow> run" where
  "run_loop [] i best cur = (if fst cur \<noteq> - 1 then better best cur else best)"
| "run_loop (w # ws) i best cur =
    (if w = 0 then
       run_loop ws (i + 1) best (if fst cur = - 1 then (i, 1) else (fst cur, snd cur + 1))
     else if fst cur \<noteq> - 1 then run_loop ws (i + 1) (better best cur) (- 1, snd cur)
     else run_loop ws (i + 1) best cur)"

definition best_run :: "int list \<Rightarrow> run" where
  "best_run ws =
    (let best = run_loop ws 0 (- 1, 0) (- 1, 0) in
     if fst best \<noteq> - 1 \<and> snd best < 2 then (- 1, snd best) else best)"

text \<open>
  The formatting loop from word \<open>i\<close> on; \<open>used\<close> is \<open>tp - tmp\<close>. The encapsulated IPv4 form
  ends it.
\<close>

primrec v6_format :: "nat \<Rightarrow> int list \<Rightarrow> int list \<Rightarrow> run \<Rightarrow> int \<Rightarrow> nat \<Rightarrow> string option" where
  "v6_format 0 src ws best i used = Some []"
| "v6_format (Suc n) src ws best i used =
    (if fst best \<noteq> - 1 \<and> i \<ge> fst best \<and> i < fst best + snd best then
       (let t = (if i = fst best then '':'' else []) in
        map_option (\<lambda>s. t @ s) (v6_format n src ws best (i + 1) (used + length t)))
     else
       let t = (if i \<noteq> 0 then '':'' else []) in
       if i = 6 \<and> fst best = 0 \<and> (snd best = 6 \<or> snd best = 7 \<and> ws ! 7 \<noteq> 1 \<or> snd best = 5 \<and> ws ! 5 = 65535)
       then map_option (\<lambda>s. t @ s) (decoct_loop (drop 12 src) (tmp_size - (used + length t)))
       else
         let t = t @ fmt_x (ws ! nat i) in
         map_option (\<lambda>s. t @ s) (v6_format n src ws best (i + 1) (used + length t)))"

definition inet_net_ntop_ipv6 :: "int list \<Rightarrow> int \<Rightarrow> nat \<Rightarrow> string option" where
  "inet_net_ntop_ipv6 src bits sz =
    (if bits < - 1 \<or> bits > 128 then None
     else
       let ws = words_of src; best = best_run ws in
       case v6_format 8 src ws best 0 0 of
         None \<Rightarrow> None
       | Some tmp \<Rightarrow>
           let tmp = tmp @ (if fst best \<noteq> - 1 \<and> fst best + snd best = 8 then '':'' else []) @
                     (if bits \<noteq> - 1 \<and> bits \<noteq> 128 then ''/'' @ fmt_u bits else []) in
           if length tmp > sz then None else Some tmp)"

section \<open>The check of a network address\<close>

text \<open>
  \<open>mask >>= nbits\<close> on \<open>0xff\<close>, and \<open>a & mask\<close> with a mask of the low bits, are written with
  \<open>div\<close> and \<open>mod\<close>.
\<close>

primrec mask_loop :: "int list \<Rightarrow> int \<Rightarrow> bool" where
  "mask_loop [] msk = True"
| "mask_loop (b # a) msk = (if b mod (msk + 1) \<noteq> 0 then False else mask_loop a 255)"

definition address_ok :: "int list \<Rightarrow> int \<Rightarrow> net_family \<Rightarrow> bool" where
  "address_ok a bits family =
    (let maxbits = (if family = Pq_net_family_inet then 32 else 128);
         maxbytes = (if family = Pq_net_family_inet then 4 else 16) in
     if bits = maxbits then True
     else
       let byte = bits sdiv 8; nbits = bits smod 8;
           msk = (if bits \<noteq> 0 then 255 div 2 ^ nat nbits else 255) in
       mask_loop (drop (nat byte) (take maxbytes a)) msk)"

section \<open>Construction and conversion\<close>

definition af_of :: "string \<Rightarrow> net_family" where
  "af_of src = (if CHR '':'' \<in> set src then Pq_net_family_inet6 else Pq_net_family_inet)"

text \<open>\<open>_bits\<close> is an unsigned byte: the result -1 of a failed parse becomes 255.\<close>

definition inet_net_pton :: "net_family \<Rightarrow> string \<Rightarrow> nat option \<Rightarrow> (int list \<times> int) option" where
  "inet_net_pton af src sz =
    (case af of
       Pq_net_family_inet \<Rightarrow>
         (case sz of None \<Rightarrow> inet_net_pton_ipv4 src | Some n \<Rightarrow> inet_cidr_pton_ipv4 src n)
     | Pq_net_family_inet6 \<Rightarrow>
         (case sz of None \<Rightarrow> inet_net_pton_ipv6 src | Some n \<Rightarrow> inet_cidr_pton_ipv6 src n)
     | Pq_net_family_none \<Rightarrow> None)"

definition u8_bits :: "(int list \<times> int) option \<Rightarrow> int" where
  "u8_bits r = (case r of None \<Rightarrow> - 1 | Some (_, bits) \<Rightarrow> bits) mod 256"

text \<open>The limit is \<open>(PGSQL_AF_INET ? 32 : 128)\<close>, which is 32 for both families.\<close>

definition inet_of_string :: "string \<Rightarrow> netaddr result" where
  "inet_of_string src =
    (let af = af_of src; r = inet_net_pton af src None; bits = u8_bits r in
     if bits < 0 \<or> bits > 32 then Inl (PqException ''invalid input syntax for type inet'')
     else Inr \<lparr> na_family = af, na_bits = bits,
            na_ipaddr = pad 16 (case r of None \<Rightarrow> [] | Some (a, _) \<Rightarrow> a) \<rparr>)"

definition cidr_of_string :: "string \<Rightarrow> netaddr result" where
  "cidr_of_string src =
    (let af = af_of src;
         r = inet_net_pton af src (Some (if af = Pq_net_family_inet then 4 else 16));
         bits = u8_bits r;
         a = pad 16 (case r of None \<Rightarrow> [] | Some (a, _) \<Rightarrow> a) in
     if bits < 0 \<or> bits > 32 then Inl (PqException ''invalid input syntax for type cidr'')
     else if \<not> address_ok a bits af then Inl (PqException
       (''invalid external '' @ [CHR 0x22] @ ''cidr'' @ [CHR 0x22] @
        '' value, Value has bits set to right of mask.''))
     else Inr \<lparr> na_family = af, na_bits = bits, na_ipaddr = a \<rparr>)"

definition inet_net_ntop :: "netaddr \<Rightarrow> string option" where
  "inet_net_ntop a =
    (if na_family a = Pq_net_family_inet then inet_net_ntop_ipv4 (na_ipaddr a) (na_bits a) tmp_size
     else inet_net_ntop_ipv6 (na_ipaddr a) (na_bits a) tmp_size)"

definition inet_to_string :: "netaddr \<Rightarrow> string result" where
  "inet_to_string a =
    (case inet_net_ntop a of
       None \<Rightarrow> Inl (PqException ''could not format inet value'')
     | Some dst \<Rightarrow> Inr dst)"

definition cidr_to_string :: "netaddr \<Rightarrow> string result" where
  "cidr_to_string a =
    (case inet_net_ntop a of
       None \<Rightarrow> Inl (PqException ''could not format inet value'')
     | Some tmp \<Rightarrow> if CHR ''/'' \<in> set tmp then Inr tmp else Inr (tmp @ ''/'' @ fmt_u (na_bits a)))"

section \<open>Order\<close>

text \<open>\<open>memcmp\<close> over the first bytes; only the sign of its result is specified.\<close>

primrec memcmp :: "nat \<Rightarrow> int list \<Rightarrow> int list \<Rightarrow> int" where
  "memcmp 0 l r = 0"
| "memcmp (Suc n) l r =
    (if hd l < hd r then - 1 else if hd l > hd r then 1 else memcmp n (tl l) (tl r))"

text \<open>The loop over the remaining bits; \<open>IS_HIGHBIT_SET\<close> looks at bit 7 of the shifted byte.\<close>

definition highbit :: "int \<Rightarrow> bool" where
  "highbit b \<longleftrightarrow> (b mod 256) div 128 = 1"

primrec bit_loop :: "nat \<Rightarrow> int \<Rightarrow> int \<Rightarrow> int" where
  "bit_loop 0 lb rb = 0"
| "bit_loop (Suc n) lb rb =
    (if highbit lb \<noteq> highbit rb then if highbit lb then 1 else - 1
     else bit_loop n (lb * 2) (rb * 2))"

definition bitncmp :: "int list \<Rightarrow> int list \<Rightarrow> nat \<Rightarrow> int" where
  "bitncmp l r n =
    (let b = n div 8; x = memcmp b l r in
     if x \<noteq> 0 \<or> n mod 8 = 0 then x else bit_loop (n mod 8) (l ! b) (r ! b))"

definition AF_INET :: int where "AF_INET = 2"

definition family_af :: "net_family \<Rightarrow> int" where
  "family_af f = (if f = Pq_net_family_inet then AF_INET else AF_INET + 1)"

definition network_cmp_internal :: "netaddr \<Rightarrow> netaddr \<Rightarrow> int" where
  "network_cmp_internal a1 a2 =
    (if na_family a1 = na_family a2 then
       let order = bitncmp (na_ipaddr a1) (na_ipaddr a2) (nat (min (na_bits a1) (na_bits a2))) in
       if order \<noteq> 0 then order
       else
         let order = na_bits a1 - na_bits a2 in
         if order \<noteq> 0 then order
         else bitncmp (na_ipaddr a1) (na_ipaddr a2)
                (if na_family a1 = Pq_net_family_inet then 32 else 128)
     else family_af (na_family a1) - family_af (na_family a2))"

definition net_eq :: "netaddr \<Rightarrow> netaddr \<Rightarrow> bool" where
  "net_eq a b \<longleftrightarrow> network_cmp_internal a b = 0"

definition net_ne :: "netaddr \<Rightarrow> netaddr \<Rightarrow> bool" where
  "net_ne a b \<longleftrightarrow> network_cmp_internal a b \<noteq> 0"

definition net_lt :: "netaddr \<Rightarrow> netaddr \<Rightarrow> bool" where
  "net_lt a b \<longleftrightarrow> network_cmp_internal a b < 0"

definition net_gt :: "netaddr \<Rightarrow> netaddr \<Rightarrow> bool" where
  "net_gt a b \<longleftrightarrow> network_cmp_internal a b > 0"

definition net_le :: "netaddr \<Rightarrow> netaddr \<Rightarrow> bool" where
  "net_le a b \<longleftrightarrow> network_cmp_internal a b \<le> 0"

definition net_ge :: "netaddr \<Rightarrow> netaddr \<Rightarrow> bool" where
  "net_ge a b \<longleftrightarrow> network_cmp_internal a b \<ge> 0"

text \<open>Element access: the check lets the index \<open>size()\<close> pass.\<close>

definition net_size :: "netaddr \<Rightarrow> nat" where
  "net_size a = (if na_family a = Pq_net_family_inet then 4 else 16)"

definition net_at :: "netaddr \<Rightarrow> nat \<Rightarrow> int result" where
  "net_at a idx =
    (if idx > net_size a then Inl (PqException ''index is out of bound!'')
     else if idx < 16 then Inr (na_ipaddr a ! idx)
     else Inl (UndefinedBehaviour ''read past _ipaddr''))"

section \<open>Numbers in texts\<close>

definition bytes_ok :: "nat \<Rightarrow> int list \<Rightarrow> bool" where
  "bytes_ok n a \<longleftrightarrow> length a = n \<and> digits_ok 256 a"

definition not_digit :: "string \<Rightarrow> bool" where
  "not_digit rest \<longleftrightarrow> rest = [] \<or> \<not> c_isdigit (hd rest)"

lemma not_digit_simps [simp]: "not_digit []" "not_digit (c # cs) \<longleftrightarrow> \<not> c_isdigit c"
  by (simp_all add: not_digit_def)

lemma slash_colon_no_digit [simp]: "\<not> c_isdigit CHR ''/''" "\<not> c_isdigit CHR '':''"
  by (simp_all add: c_isdigit_def)

lemma bval_Cons_ge: "digits_ok b (d # ds) \<Longrightarrow> 0 \<le> tmp \<Longrightarrow> tmp * b + d \<le> tmp * b ^ length (d # ds) + bval b (d # ds)"
proof -
  assume a: "digits_ok b (d # ds)" "0 \<le> tmp"
  then have b: "1 \<le> b" by simp
  then have p: "1 \<le> b ^ length ds" by (simp add: one_le_power)
  have "tmp * b * 1 \<le> tmp * b * b ^ length ds" using p a(2) b by (intro mult_left_mono) auto
  moreover have "d * 1 \<le> d * b ^ length ds" using p a(1) by (intro mult_left_mono) auto
  ultimately show ?thesis using bval_nonneg [of b ds] a(1) by (simp add: mult.assoc)
qed

lemma eat_octet_run:
  "digits_ok 10 ds \<Longrightarrow> 0 \<le> tmp \<Longrightarrow> tmp * 10 ^ length ds + bval 10 ds \<le> 255 \<Longrightarrow> not_digit rest \<Longrightarrow>
   eat_octet tmp (map digit_char ds @ rest) = Some (tmp * 10 ^ length ds + bval 10 ds, rest)"
proof (induction ds arbitrary: tmp)
  case Nil
  then show ?case by (cases rest) simp_all
next
  case (Cons d ds)
  then have d: "0 \<le> d" "d < 10" by simp_all
  have le: "tmp * 10 + d \<le> 255" using bval_Cons_ge [OF Cons.prems(1,2)] Cons.prems(3) by linarith
  have "(tmp * 10 + d) * 10 ^ length ds + bval 10 ds = tmp * 10 ^ length (d # ds) + bval 10 (d # ds)"
    by (simp add: algebra_simps)
  then show ?case using Cons d le by (simp add: digit_char_props [OF d])
qed

lemma eat_bits_run:
  "digits_ok 10 ds \<Longrightarrow> 0 \<le> bits \<Longrightarrow> bits * 10 ^ length ds + bval 10 ds \<le> 255 \<Longrightarrow> not_digit rest \<Longrightarrow>
   eat_bits bits (map digit_char ds @ rest) = (bits * 10 ^ length ds + bval 10 ds, rest)"
proof (induction ds arbitrary: bits)
  case Nil
  then show ?case by (cases rest) simp_all
next
  case (Cons d ds)
  then have d: "0 \<le> d" "d < 10" by simp_all
  have le: "bits * 10 + d \<le> 255" using bval_Cons_ge [OF Cons.prems(1,2)] Cons.prems(3) by linarith
  then have "i32 (bits * 10) = bits * 10" "i32 (bits * 10 + d) = bits * 10 + d"
    using Cons.prems(2) d by (simp_all add: i32_id)
  moreover have "(bits * 10 + d) * 10 ^ length ds + bval 10 ds = bits * 10 ^ length (d # ds) + bval 10 (d # ds)"
    by (simp add: algebra_simps)
  ultimately show ?case using Cons d le by (simp add: digit_char_props [OF d])
qed

lemma dec_text:
  assumes "0 \<le> n"
  shows "fmt_u n = map digit_char (base_digits 10 n)" "digits_ok 10 (base_digits 10 n)"
    "bval 10 (base_digits 10 n) = n" "base_digits 10 n \<noteq> []"
  using base_digits_props [of 10 n] assms by (simp_all add: fmt_u_def)

lemma fmt_u_hd:
  assumes "0 \<le> n"
  shows "fmt_u n \<noteq> []" "c_isdigit (hd (fmt_u n @ rest))" "c_isdigit (hd (fmt_u n))"
  using fmt_u_props(2,3) [OF assms] by (cases "fmt_u n"; simp)+

lemma eat_octet_u: "0 \<le> n \<Longrightarrow> n < 256 \<Longrightarrow> not_digit rest \<Longrightarrow> eat_octet 0 (fmt_u n @ rest) = Some (n, rest)"
  using eat_octet_run [of "base_digits 10 n" 0 rest] dec_text [of n] by simp

lemma eat_bits_u: "0 \<le> n \<Longrightarrow> n < 256 \<Longrightarrow> not_digit rest \<Longrightarrow> eat_bits 0 (fmt_u n @ rest) = (n, rest)"
  using eat_bits_run [of "base_digits 10 n" 0 rest] dec_text [of n] by simp

lemma v4_prefix_u:
  assumes "0 \<le> bits" "bits \<le> 32" "out \<noteq> []"
  shows "v4_prefix (''/'' @ fmt_u bits) out = Some bits"
  using assms eat_bits_u [of bits "[]"] fmt_u_hd(1) [of bits] fmt_u_hd(2) [of bits "[]"] by (simp add: v4_prefix_def)

lemma fmt_u_length: "0 \<le> n \<Longrightarrow> n < 1000 \<Longrightarrow> length (fmt_u n) \<le> 3"
  using base_digits_length [of 10 n 3] by (simp add: fmt_u_def)

lemma fmt_u_chars: "0 \<le> n \<Longrightarrow> c \<in> set (fmt_u n) \<Longrightarrow> c \<noteq> CHR '':'' \<and> c \<noteq> CHR ''/'' \<and> c \<noteq> CHR ''.''"
  using fmt_u_props(3) [of n] by (auto simp: c_isdigit_def)

section \<open>IPv4 round trips\<close>

definition v4_text :: "int \<Rightarrow> int \<Rightarrow> int \<Rightarrow> int \<Rightarrow> string" where
  "v4_text a b c d = fmt_u a @ ''.'' @ fmt_u b @ ''.'' @ fmt_u c @ ''.'' @ fmt_u d"

lemma eat_octet_dot:
  assumes "0 \<le> n" "n < 256"
  shows "eat_octet 0 (fmt_u n @ CHR ''.'' # rest) = Some (n, CHR ''.'' # rest)"
    "rest = [] \<or> hd rest = CHR ''/'' \<Longrightarrow> eat_octet 0 (fmt_u n @ rest) = Some (n, rest)"
  using eat_octet_u [OF assms] by (auto simp: not_digit_def)

lemma net_octets_step:
  assumes "0 \<le> n" "n < 256"
  shows "net_octets (Suc sz) (fmt_u n @ ''.'' @ rest) out = net_octets sz rest (out @ [n])"
    "rest = [] \<or> hd rest = CHR ''/'' \<Longrightarrow> net_octets (Suc sz) (fmt_u n @ rest) out = Some (rest, out @ [n])"
proof -
  have hd: "fmt_u n @ x \<noteq> [] \<and> c_isdigit (hd (fmt_u n @ x))" for x using fmt_u_hd [OF assms(1)] by simp
  show "net_octets (Suc sz) (fmt_u n @ ''.'' @ rest) out = net_octets sz rest (out @ [n])"
    unfolding net_octets.simps using hd [of "''.'' @ rest"] eat_octet_dot(1) [OF assms] by simp
  assume "rest = [] \<or> hd rest = CHR ''/''"
  then show "net_octets (Suc sz) (fmt_u n @ rest) out = Some (rest, out @ [n])"
    unfolding net_octets.simps using hd [of rest] eat_octet_dot(2) [OF assms, of rest] by (cases rest) simp_all
qed

lemma cidr_octets_step:
  assumes "0 \<le> n" "n < 256"
  shows "rest \<noteq> [] \<Longrightarrow> c_isdigit (hd rest) \<Longrightarrow>
      cidr_octets (Suc sz) (fmt_u n @ ''.'' @ rest) out = cidr_octets sz rest (out @ [n])"
    "rest = [] \<or> hd rest = CHR ''/'' \<Longrightarrow> cidr_octets (Suc sz) (fmt_u n @ rest) out = Some (rest, out @ [n])"
  using eat_octet_dot(1) [OF assms, of rest] eat_octet_dot(2) [OF assms, of rest]
  by (simp, cases rest) simp_all

declare net_octets.simps(2) [simp del] cidr_octets.simps(2) [simp del]

lemma v4_octets:
  assumes "digits_ok 256 [a, b, c, d]" "rest = [] \<or> hd rest = CHR ''/''"
  shows "net_octets 4 (v4_text a b c d @ rest) [] = Some (rest, [a, b, c, d])"
    "cidr_octets 4 (v4_text a b c d @ rest) [] = Some (rest, [a, b, c, d])"
proof -
  have n: "4 = Suc (Suc (Suc (Suc 0)))" by simp
  have "net_octets 4 (fmt_u a @ ''.'' @ (fmt_u b @ ''.'' @ (fmt_u c @ ''.'' @ (fmt_u d @ rest)))) []
      = Some (rest, [] @ [a] @ [b] @ [c] @ [d])"
    unfolding n using assms by (simp add: net_octets_step del: append_Cons)
  then show "net_octets 4 (v4_text a b c d @ rest) [] = Some (rest, [a, b, c, d])"
    by (simp add: v4_text_def)
  have "cidr_octets 4 (fmt_u a @ ''.'' @ (fmt_u b @ ''.'' @ (fmt_u c @ ''.'' @ (fmt_u d @ rest)))) []
      = Some (rest, [] @ [a] @ [b] @ [c] @ [d])"
    unfolding n using assms
    by (simp add: cidr_octets_step(1) cidr_octets_step(2) fmt_u_hd del: append_Cons)
  then show "cidr_octets 4 (v4_text a b c d @ rest) [] = Some (rest, [a, b, c, d])"
    by (simp add: v4_text_def)
qed

lemma ntop_v4:
  assumes "digits_ok 256 [a, b, c, d]"
  shows "\<exists>sz. ntop_octets [a, b, c, d] False tmp_size = Some (v4_text a b c d, sz) \<and> 4 < sz"
proof -
  have "length (fmt_u x) \<le> 3" if "x \<in> {a, b, c, d}" for x
    using that assms by (intro fmt_u_length) auto
  then have "length (fmt_u a) \<le> 3" "length (fmt_u b) \<le> 3" "length (fmt_u c) \<le> 3" "length (fmt_u d) \<le> 3"
    by simp_all
  then show ?thesis by (simp add: tmp_size_def v4_text_def Let_def) arith
qed

lemma v4_text_chars:
  assumes "digits_ok 256 [a, b, c, d]"
  shows "CHR '':'' \<notin> set (v4_text a b c d)" "CHR ''/'' \<notin> set (v4_text a b c d)"
    "v4_text a b c d \<noteq> []" "c_isdigit (hd (v4_text a b c d))"
    "\<not> (hd (tl (v4_text a b c d @ rest)) \<in> {CHR ''x'', CHR ''X''} \<and> hd (v4_text a b c d) = CHR ''0'')"
proof -
  have d: "0 \<le> x" if "x \<in> {a, b, c, d}" for x using assms that by auto
  show "CHR '':'' \<notin> set (v4_text a b c d)" "CHR ''/'' \<notin> set (v4_text a b c d)"
    using fmt_u_chars d by (fastforce simp: v4_text_def)+
  show "v4_text a b c d \<noteq> []" "c_isdigit (hd (v4_text a b c d))"
    using fmt_u_hd [of a] d [of a] by (simp_all add: v4_text_def)
  obtain x xs where x: "fmt_u a = x # xs" using fmt_u_hd(1) [of a] d [of a] by (cases "fmt_u a") auto
  have "c_isdigit y" if "y \<in> set xs" for y using that fmt_u_props(3) [of a] d [of a] x by simp
  then have "hd (tl (v4_text a b c d @ rest)) = CHR ''.'' \<or> c_isdigit (hd (tl (v4_text a b c d @ rest)))"
    by (cases xs) (auto simp: v4_text_def x)
  then show "\<not> (hd (tl (v4_text a b c d @ rest)) \<in> {CHR ''x'', CHR ''X''} \<and> hd (v4_text a b c d) = CHR ''0'')"
    by (auto simp: c_isdigit_def)
qed

lemma sdiv_8: "0 \<le> (bits::int) \<Longrightarrow> bits sdiv 8 = bits div 8"
  by (simp add: sdiv_nonneg)

definition v4_addr :: "int \<Rightarrow> int \<Rightarrow> int \<Rightarrow> int \<Rightarrow> int \<Rightarrow> netaddr" where
  "v4_addr a b c d bits = \<lparr> na_family = Pq_net_family_inet, na_bits = bits, na_ipaddr = pad 16 [a, b, c, d] \<rparr>"

lemma inet_net_ntop_v4:
  assumes "digits_ok 256 [a, b, c, d]" "0 \<le> bits" "bits \<le> 32"
  shows "inet_net_ntop (v4_addr a b c d bits) =
    Some (v4_text a b c d @ (if bits = 32 then [] else ''/'' @ fmt_u bits))"
proof -
  obtain sz where "ntop_octets [a, b, c, d] False tmp_size = Some (v4_text a b c d, sz)" "4 < sz"
    using ntop_v4 [OF assms(1)] by blast
  moreover have "take 4 (pad 16 [a, b, c, d]) = [a, b, c, d]" by (simp add: pad_def)
  ultimately show ?thesis using assms(2,3)
    by (simp add: inet_net_ntop_def inet_net_ntop_ipv4_def v4_addr_def del: ntop_octets.simps)
qed

lemma pton_v4:
  assumes ok: "digits_ok 256 [a, b, c, d]" and bits: "0 \<le> bits" "bits \<le> 32"
  shows "inet_net_pton_ipv4 (v4_text a b c d @ (if bits = 32 then [] else ''/'' @ fmt_u bits))
      = Some ([a, b, c, d], bits)"
    "inet_cidr_pton_ipv4 (v4_text a b c d @ ''/'' @ fmt_u bits) 4 = Some ([a, b, c, d], bits)"
proof -
  have "bits div 8 \<le> 4" using bits(2) by linarith
  then show "inet_net_pton_ipv4 (v4_text a b c d @ (if bits = 32 then [] else ''/'' @ fmt_u bits))
      = Some ([a, b, c, d], bits)"
    using v4_octets(1) [OF ok] v4_prefix_u [OF bits, of "[a, b, c, d]"] bits
    by (auto simp: inet_net_pton_ipv4_def v4_prefix_def pad_def sdiv_8)
  let ?t = "v4_text a b c d @ ''/'' @ fmt_u bits"
  obtain x t where t: "?t = x # t" using v4_text_chars(3) [OF ok] by (cases ?t) auto
  then have x: "x = hd (v4_text a b c d)" "t = tl (v4_text a b c d @ ''/'' @ fmt_u bits)"
    using v4_text_chars(3) [OF ok] by (cases "v4_text a b c d"; simp)+
  have "c_isdigit x" "\<not> (hd t \<in> {CHR ''x'', CHR ''X''} \<and> x = CHR ''0'')"
    using v4_text_chars(4) [OF ok] v4_text_chars(5) [OF ok, of "''/'' @ fmt_u bits"] unfolding x by simp_all
  then have "cidr_mantissa ?t 4 = cidr_octets 4 ?t []"
    unfolding t by (auto simp: cidr_mantissa_def)
  moreover have "nat ((bits - 32 + 7) div 8) = 0" using bits(2) by simp
  ultimately show "inet_cidr_pton_ipv4 ?t 4 = Some ([a, b, c, d], bits)"
    using v4_octets(2) [OF ok, of "''/'' @ fmt_u bits"] v4_prefix_u [OF bits, of "[a, b, c, d]"] bits
    by (simp add: inet_cidr_pton_ipv4_def)
qed

lemma af_of_v4:
  assumes "digits_ok 256 [a, b, c, d]" "0 \<le> bits"
  shows "af_of (v4_text a b c d) = Pq_net_family_inet"
    "af_of (v4_text a b c d @ CHR ''/'' # fmt_u bits) = Pq_net_family_inet"
  using v4_text_chars(1) [OF assms(1)] fmt_u_chars [OF assms(2), of "CHR '':''"] by (auto simp: af_of_def)

text \<open>
  IPv4 addresses survive the text form: every \<open>inet\<close> is read back as it was, and every
  \<open>cidr\<close> without bits to the right of its mask is too, always printed with its prefix length.
\<close>

theorem ipv4_roundtrip:
  assumes "digits_ok 256 [a, b, c, d]" "0 \<le> bits" "bits \<le> 32"
  shows "bind_result (inet_to_string (v4_addr a b c d bits)) inet_of_string = Inr (v4_addr a b c d bits) \<and>
    (address_ok (na_ipaddr (v4_addr a b c d bits)) bits Pq_net_family_inet \<longrightarrow>
     bind_result (cidr_to_string (v4_addr a b c d bits)) cidr_of_string = Inr (v4_addr a b c d bits))"
proof
  note n = inet_net_ntop_v4 [OF assms]
  have b: "u8_bits (Some ([a, b, c, d], bits)) = bits" using assms(2,3) by (simp add: u8_bits_def)
  show "bind_result (inet_to_string (v4_addr a b c d bits)) inet_of_string = Inr (v4_addr a b c d bits)"
  proof -
    define t where "t = v4_text a b c d @ (if bits = 32 then [] else ''/'' @ fmt_u bits)"
    have "inet_to_string (v4_addr a b c d bits) = Inr t" by (simp add: inet_to_string_def n t_def)
    moreover have "af_of t = Pq_net_family_inet" using af_of_v4 [OF assms(1,2)] by (simp add: t_def)
    ultimately show ?thesis
      using pton_v4(1) [OF assms] b assms(2,3)
      by (simp add: inet_of_string_def inet_net_pton_def v4_addr_def t_def [symmetric])
  qed
  show "address_ok (na_ipaddr (v4_addr a b c d bits)) bits Pq_net_family_inet \<longrightarrow>
    bind_result (cidr_to_string (v4_addr a b c d bits)) cidr_of_string = Inr (v4_addr a b c d bits)"
  proof
    assume ok: "address_ok (na_ipaddr (v4_addr a b c d bits)) bits Pq_net_family_inet"
    have "cidr_to_string (v4_addr a b c d bits) = Inr (v4_text a b c d @ ''/'' @ fmt_u bits)"
      using v4_text_chars(2) [OF assms(1)] by (auto simp: cidr_to_string_def n) (simp add: v4_addr_def)
    then show "bind_result (cidr_to_string (v4_addr a b c d bits)) cidr_of_string = Inr (v4_addr a b c d bits)"
      using pton_v4(2) [OF assms] af_of_v4(2) [OF assms(1,2)] b assms(2,3) ok
      by (simp add: cidr_of_string_def inet_net_pton_def v4_addr_def)
  qed
qed

theorem ipv4_roundtrip_witness:
  "cidr_to_string (v4_addr 10 1 0 0 16) = Inr ''10.1.0.0/16'' \<and>
   bind_result (inet_to_string (v4_addr 10 1 0 0 16)) inet_of_string = Inr (v4_addr 10 1 0 0 16) \<and>
   bind_result (cidr_to_string (v4_addr 10 1 0 0 16)) cidr_of_string = Inr (v4_addr 10 1 0 0 16)"
proof (intro conjI)
  have ok: "address_ok (na_ipaddr (v4_addr 10 1 0 0 16)) 16 Pq_net_family_inet" by code_simp
  show "cidr_to_string (v4_addr 10 1 0 0 16) = Inr ''10.1.0.0/16''" by code_simp
  show "bind_result (inet_to_string (v4_addr 10 1 0 0 16)) inet_of_string = Inr (v4_addr 10 1 0 0 16)"
    "bind_result (cidr_to_string (v4_addr 10 1 0 0 16)) cidr_of_string = Inr (v4_addr 10 1 0 0 16)"
    using ipv4_roundtrip [of 10 1 0 0 16] ok by simp_all
qed

section \<open>Addresses as bit strings\<close>

text \<open>
  The bits of a byte, the highest first, as the loop of \<open>bitncmp\<close> sees them, and those of an
  address. The order of addresses is the lexicographic order of their bits.
\<close>

definition top_bit :: "int \<Rightarrow> int" where
  "top_bit x = (if highbit x then 1 else 0)"

primrec shift_bits :: "nat \<Rightarrow> int \<Rightarrow> int list" where
  "shift_bits 0 x = []"
| "shift_bits (Suc n) x = top_bit x # shift_bits n (x * 2)"

definition bits_of :: "int list \<Rightarrow> int list" where
  "bits_of a = concat (map (shift_bits 8) a)"

lemma length_shift_bits [simp]: "length (shift_bits n x) = n"
  by (induction n arbitrary: x) simp_all

lemma digits_ok_shift_bits [simp]: "digits_ok 2 (shift_bits n x)"
  by (induction n arbitrary: x) (simp_all add: top_bit_def)

lemma take_shift_bits: "k \<le> n \<Longrightarrow> take k (shift_bits n x) = shift_bits k x"
proof (induction n arbitrary: k x)
  case (Suc n)
  then show ?case by (cases k) simp_all
qed simp

lemma top_bit_eq: "top_bit x = (x mod 256) div 128"
proof -
  have "0 \<le> x mod 256" "x mod 256 < 256" by simp_all
  then have "(x mod 256) div 128 = 0 \<or> (x mod 256) div 128 = 1" by linarith
  then show ?thesis by (auto simp: top_bit_def highbit_def)
qed

lemma double_mod: "(x * 2) mod 256 = 2 * ((x mod 256) mod 128)" for x :: int
proof -
  have "(x * 2) mod (128 * 2) = (x mod 128) * 2" by (simp only: mult_mod_left)
  moreover have "(x mod 256) mod 128 = x mod 128" by (rule mod_mod_cancel) simp
  ultimately show ?thesis by simp
qed

lemma bval_shift_bits:
  assumes "n \<le> 8"
  shows "bval 2 (shift_bits n x) = (x mod 256) div 2 ^ (8 - n)"
  using assms
proof (induction n arbitrary: x)
  case 0
  then show ?case by simp
next
  case (Suc n)
  define y where "y = x mod 256"
  define h z where "h = y div 128" and "z = y mod 128"
  have p: "(2::int) ^ (8 - n) = 2 * 2 ^ (7 - n)" "(128::int) = 2 ^ n * 2 ^ (7 - n)"
    using Suc.prems by (simp_all add: power_Suc [symmetric] power_add [symmetric] Suc_diff_le del: power_Suc)
  have "bval 2 (shift_bits (Suc n) x) = h * 2 ^ n + (2 * z) div (2 * 2 ^ (7 - n))"
    using Suc by (simp add: top_bit_eq double_mod y_def h_def z_def p(1))
  also have "\<dots> = h * 2 ^ n + z div 2 ^ (7 - n)" by simp
  also have "\<dots> = (z + h * 2 ^ n * 2 ^ (7 - n)) div 2 ^ (7 - n)" by simp
  also have "z + h * 2 ^ n * 2 ^ (7 - n) = y" using p(2) by (simp add: h_def z_def mult.assoc)
  finally show ?case by (simp add: y_def)
qed

lemma bval_byte: "0 \<le> x \<Longrightarrow> x < 256 \<Longrightarrow> bval 2 (shift_bits 8 x) = x"
  using bval_shift_bits [of 8 x] by simp

lemma length_bits_of [simp]: "length (bits_of a) = 8 * length a"
  by (induction a) (simp_all add: bits_of_def)

lemma bits_of_simps [simp]: "bits_of [] = []" "bits_of (x # a) = shift_bits 8 x @ bits_of a"
  by (simp_all add: bits_of_def)

lemma bits_of_append: "bits_of (a @ b) = bits_of a @ bits_of b"
  by (simp add: bits_of_def)

lemma take_bits_of:
  assumes "n div 8 < length a \<or> n mod 8 = 0 \<and> n div 8 \<le> length a"
  shows "take n (bits_of a) = bits_of (take (n div 8) a) @ shift_bits (n mod 8) (a ! (n div 8))"
  using assms
proof (induction a arbitrary: n)
  case Nil
  then show ?case by simp
next
  case (Cons x a)
  show ?case
  proof (cases "n < 8")
    case True
    then show ?thesis by (simp add: take_shift_bits)
  next
    case False
    then obtain m where m: "n = 8 + m" using le_Suc_ex by (metis not_less)
    then show ?thesis using Cons by (simp add: take_shift_bits)
  qed
qed

section \<open>Lexicographic order\<close>

lemma lex_append:
  fixes u v :: "'a::linorder list"
  assumes "length u = length v"
  shows "u @ x < v @ y \<longleftrightarrow> u < v \<or> u = v \<and> x < y"
  using assms by (induction u v rule: list_induct2) auto

lemma lex_bval:
  assumes "digits_ok b xs" "digits_ok b ys" "length xs = length ys" "0 < b"
  shows "xs < ys \<longleftrightarrow> bval b xs < bval b ys"
  using assms(3,1,2)
proof (induction xs ys rule: list_induct2)
  case (Cons x xs y ys)
  have l: "bval b xs < b ^ length ys" "bval b ys < b ^ length ys" "0 \<le> bval b xs" "0 \<le> bval b ys"
    using Cons bval_less [of b xs] bval_less [of b ys] assms(4) by (auto intro: bval_nonneg)
  have *: "u * b ^ length ys + p < v * b ^ length ys + q"
    if "u < v" "p < b ^ length ys" "0 \<le> q" for u v p q :: int
  proof -
    have "(u + 1) * b ^ length ys \<le> v * b ^ length ys" using that assms(4) by (intro mult_right_mono) auto
    then show ?thesis using that by (simp add: algebra_simps)
  qed
  show ?case
  proof (cases x y rule: linorder_cases)
    case less
    then show ?thesis using * [OF less l(1,4)] Cons.hyps by simp
  next
    case equal
    then show ?thesis using Cons by simp
  next
    case greater
    then show ?thesis using * [OF greater l(2,3)] Cons.hyps by auto
  qed
qed simp

lemma shift_bits_order:
  assumes "0 \<le> x" "x < 256" "0 \<le> y" "y < 256"
  shows "shift_bits 8 x < shift_bits 8 y \<longleftrightarrow> x < y" "shift_bits 8 x = shift_bits 8 y \<longleftrightarrow> x = y"
proof -
  show "shift_bits 8 x < shift_bits 8 y \<longleftrightarrow> x < y"
    using lex_bval [of 2 "shift_bits 8 x" "shift_bits 8 y"] bval_byte assms by simp
  show "shift_bits 8 x = shift_bits 8 y \<longleftrightarrow> x = y"
    using bval_byte [OF assms(1,2)] bval_byte [OF assms(3,4)] by metis
qed

text \<open>A comparison of two lists by the sign of its result.\<close>

definition sign_order :: "int \<Rightarrow> 'a::linorder \<Rightarrow> 'a \<Rightarrow> bool" where
  "sign_order x a b \<longleftrightarrow> (x < 0 \<longleftrightarrow> a < b) \<and> (x > 0 \<longleftrightarrow> b < a)"

lemma sign_order_zero: "sign_order x a b \<Longrightarrow> x = 0 \<longleftrightarrow> a = b"
  unfolding sign_order_def by (metis linorder_less_linear less_irrefl)

lemma memcmp_order:
  assumes "n \<le> length l" "n \<le> length r" "digits_ok 256 l" "digits_ok 256 r"
  shows "sign_order (memcmp n l r) (bits_of (take n l)) (bits_of (take n r))"
  using assms
proof (induction n arbitrary: l r)
  case (Suc n)
  then obtain x l' y r' where lr: "l = x # l'" "r = y # r'" by (cases l; cases r; auto)
  note o = shift_bits_order [of x y] shift_bits_order [of y x]
  have IH: "sign_order (memcmp n l' r') (bits_of (take n l')) (bits_of (take n r'))"
    using Suc lr by (intro Suc.IH) auto
  show ?case using IH o Suc.prems lr by (auto simp: sign_order_def lex_append)
qed (simp add: sign_order_def)

lemma bit_loop_order: "sign_order (bit_loop n lb rb) (shift_bits n lb) (shift_bits n rb)"
proof (induction n arbitrary: lb rb)
  case (Suc n)
  then show ?case by (auto simp: sign_order_def top_bit_def)
qed (simp add: sign_order_def)

lemma bitncmp_order:
  assumes "bytes_ok 16 l" "bytes_ok 16 r" "n \<le> 128"
  shows "sign_order (bitncmp l r n) (take n (bits_of l)) (take n (bits_of r))"
proof -
  have lr: "length l = 16" "length r = 16" "digits_ok 256 l" "digits_ok 256 r"
    using assms by (simp_all add: bytes_ok_def)
  have n: "n div 8 < 16 \<or> n mod 8 = 0 \<and> n div 8 \<le> 16" using assms(3) by (cases "n = 128") auto
  let ?b = "n div 8"
  have m: "sign_order (memcmp ?b l r) (bits_of (take ?b l)) (bits_of (take ?b r))"
    using n lr by (intro memcmp_order) auto
  have k: "sign_order (bit_loop (n mod 8) (l ! ?b) (r ! ?b)) (shift_bits (n mod 8) (l ! ?b)) (shift_bits (n mod 8) (r ! ?b))"
    by (rule bit_loop_order)
  have len: "length (bits_of (take ?b l)) = length (bits_of (take ?b r))" using lr by simp
  show ?thesis
    using m k sign_order_zero [OF m] n lr unfolding take_bits_of [of n l] take_bits_of [of n r]
    by (auto simp: bitncmp_def Let_def take_bits_of sign_order_def lex_append [OF len] lex_append [OF len [symmetric]])
qed

section \<open>The order of addresses\<close>

definition max_bits :: "net_family \<Rightarrow> int" where
  "max_bits f = (if f = Pq_net_family_inet then 32 else 128)"

definition net_ok :: "netaddr \<Rightarrow> bool" where
  "net_ok a \<longleftrightarrow> na_family a \<noteq> Pq_net_family_none \<and> bytes_ok 16 (na_ipaddr a) \<and>
     0 \<le> na_bits a \<and> na_bits a \<le> max_bits (na_family a)"

text \<open>
  Addresses are ordered by family, then by the bits of the network part, a shorter network
  before the longer ones it contains, then by all bits.
\<close>

definition net_key :: "netaddr \<Rightarrow> int \<times> int list \<times> int list" where
  "net_key a = (family_af (na_family a), take (nat (na_bits a)) (bits_of (na_ipaddr a)),
     take (nat (max_bits (na_family a))) (bits_of (na_ipaddr a)))"

lemma prefix_order:
  fixes u v :: "int list"
  assumes "sign_order x (take m u) (take m v)" "m = min i j" "i \<le> length u" "j \<le> length v"
  shows "x \<noteq> 0 \<Longrightarrow> sign_order x (take i u) (take j v)"
    "x = 0 \<Longrightarrow> i \<noteq> j \<Longrightarrow> sign_order (int i - int j) (take i u) (take j v)"
    "x = 0 \<Longrightarrow> i = j \<Longrightarrow> take i u = take j v"
proof -
  define p q where "p = drop m (take i u)" and "q = drop m (take j v)"
  have t: "take i u = take m u @ p" "take j v = take m v @ q"
  proof -
    have e: "take m (take i u) = take m u" "take m (take j v) = take m v" using assms(2) by simp_all
    show "take i u = take m u @ p" unfolding e(1) [symmetric] p_def by (rule append_take_drop_id [symmetric])
    show "take j v = take m v @ q" unfolding e(2) [symmetric] q_def by (rule append_take_drop_id [symmetric])
  qed
  have pq: "length p = i - m" "length q = j - m" using assms by (simp_all add: p_def q_def)
  have len: "length (take m u) = length (take m v)" using assms by simp
  note lex = lex_append [OF len, of p q] lex_append [OF len [symmetric], of q p]
  show "sign_order x (take i u) (take j v)" if "x \<noteq> 0"
    unfolding t using that assms(1) sign_order_zero [OF assms(1)] lex
    by (auto simp: sign_order_def)
  show "sign_order (int i - int j) (take i u) (take j v)" if "x = 0" "i \<noteq> j"
  proof (cases "i < j")
    case True
    then have "p = []" "q \<noteq> []" using pq assms(2) by auto
    then show ?thesis unfolding t using lex sign_order_zero [OF assms(1)] that True
      by (cases q) (auto simp: sign_order_def)
  next
    case False
    then have "q = []" "p \<noteq> []" using pq assms(2) that by auto
    then show ?thesis unfolding t using lex sign_order_zero [OF assms(1)] that False
      by (cases p) (auto simp: sign_order_def)
  qed
  show "take i u = take j v" if "x = 0" "i = j"
    using that assms(2) sign_order_zero [OF assms(1)] by simp
qed

lemma network_cmp_order:
  assumes "net_ok a" "net_ok b"
  shows "sign_order (network_cmp_internal a b) (net_key a) (net_key b)"
proof (cases "na_family a = na_family b")
  case False
  then show ?thesis
    using assms by (auto simp: network_cmp_internal_def sign_order_def net_key_def family_af_def net_ok_def
        AF_INET_def) (metis net_family.exhaust)+
next
  case True
  let ?u = "bits_of (na_ipaddr a)" and ?v = "bits_of (na_ipaddr b)"
  define i j where "i = nat (na_bits a)" and "j = nat (na_bits b)"
  define x where "x = bitncmp (na_ipaddr a) (na_ipaddr b) (min i j)"
  define k where "k = nat (max_bits (na_family a))"
  have bytes: "bytes_ok 16 (na_ipaddr a)" "bytes_ok 16 (na_ipaddr b)"
    and le: "i \<le> 128" "j \<le> 128" "k \<le> 128" and ij: "na_bits a = int i" "na_bits b = int j"
    using assms by (auto simp: net_ok_def i_def j_def k_def max_bits_def split: if_splits)
  have len: "length ?u = 128" "length ?v = 128" using bytes by (simp_all add: bytes_ok_def)
  have so: "sign_order x (take (min i j) ?u) (take (min i j) ?v)"
    unfolding x_def using le by (intro bitncmp_order bytes) auto
  note p = prefix_order [OF so refl] 
  have full: "sign_order (bitncmp (na_ipaddr a) (na_ipaddr b) k) (take k ?u) (take k ?v)"
    using le by (intro bitncmp_order bytes) auto
  have cmp: "network_cmp_internal a b = (if x \<noteq> 0 then x else if i \<noteq> j then int i - int j
      else bitncmp (na_ipaddr a) (na_ipaddr b) k)"
    using True by (auto simp: network_cmp_internal_def Let_def x_def ij min_def k_def max_bits_def)
  have key: "net_key a = (family_af (na_family a), take i ?u, take k ?u)"
    "net_key b = (family_af (na_family a), take j ?v, take k ?v)"
    using True by (simp_all add: net_key_def i_def j_def k_def)
  show ?thesis
  proof (cases "x \<noteq> 0 \<or> i \<noteq> j")
    case True
    then have s: "sign_order (network_cmp_internal a b) (take i ?u) (take j ?v)"
      using p(1,2) le len unfolding cmp by auto
    then have "network_cmp_internal a b \<noteq> 0" using True unfolding cmp by auto
    then show ?thesis using s sign_order_zero [OF s] unfolding key by (auto simp: sign_order_def)
  next
    case False
    then have "take i ?u = take j ?v" using p(3) le len by simp
    then show ?thesis using full False unfolding key cmp by (simp add: sign_order_def)
  qed
qed

interpretation net_cmp: cmp_by_key net_ok network_cmp_internal net_key
  using network_cmp_order by unfold_locales (auto simp: sign_order_def)

lemma bits_of_inj:
  assumes "bits_of a = bits_of b" "digits_ok 256 a" "digits_ok 256 b"
  shows "a = b"
proof -
  have "8 * length a = 8 * length b" using arg_cong [OF assms(1), of length] by simp
  then have "length a = length b" by simp
  then show ?thesis using assms
  proof (induction a b rule: list_induct2)
    case (Cons x a y b)
    then show ?case using shift_bits_order(2) [of x y] by auto
  qed simp
qed

lemma take_bits_of_byte: "k \<le> length a \<Longrightarrow> take (8 * k) (bits_of a) = bits_of (take k a)"
  using take_bits_of [of "8 * k" a] by auto

definition net_bytes :: "netaddr \<Rightarrow> int list" where
  "net_bytes a = take (net_size a) (na_ipaddr a)"

lemma net_key_inj:
  assumes "net_ok a" "net_ok b"
  shows "net_key a = net_key b \<longleftrightarrow>
    na_family a = na_family b \<and> na_bits a = na_bits b \<and> net_bytes a = net_bytes b"
proof -
  have k: "nat (max_bits (na_family x)) = 8 * net_size x" "net_size x \<le> 16" for x :: netaddr
    by (simp_all add: max_bits_def net_size_def)
  have x: "length (na_ipaddr x) = 16" "digits_ok 256 (na_ipaddr x)" "0 \<le> na_bits x" "nat (na_bits x) \<le> 128"
    if "net_ok x" for x
    using that by (auto simp: net_ok_def bytes_ok_def max_bits_def split: if_splits)
  have key: "net_key x = (family_af (na_family x), take (nat (na_bits x)) (bits_of (na_ipaddr x)),
      bits_of (net_bytes x))" if "net_ok x" for x
    using take_bits_of_byte [of "net_size x" "na_ipaddr x"] k [of x] x [OF that]
    by (simp add: net_key_def net_bytes_def)
  have take: "length (take (nat (na_bits x)) (bits_of (na_ipaddr x))) = nat (na_bits x)" if "net_ok x" for x
    using x [OF that] by simp
  have prefix: "take (nat (na_bits x)) (bits_of (na_ipaddr x)) = take (nat (na_bits x)) (bits_of (net_bytes x))"
    if "net_ok x" for x
  proof -
    have "bits_of (net_bytes x) = take (8 * net_size x) (bits_of (na_ipaddr x))"
      using take_bits_of_byte [of "net_size x" "na_ipaddr x"] k(2) [of x] x [OF that] by (simp add: net_bytes_def)
    moreover have "nat (na_bits x) \<le> 8 * net_size x" 
      using that by (auto simp: net_ok_def nat_le_iff max_bits_def net_size_def split: if_splits)
    ultimately show ?thesis by (simp add: min_def)
  qed
  show ?thesis
  proof
    assume "net_key a = net_key b"
    then have e: "family_af (na_family a) = family_af (na_family b)" "bits_of (net_bytes a) = bits_of (net_bytes b)"
      "nat (na_bits a) = nat (na_bits b)"
      using take [OF assms(1)] take [OF assms(2)] unfolding key [OF assms(1)] key [OF assms(2)] by auto
    then show "na_family a = na_family b \<and> na_bits a = na_bits b \<and> net_bytes a = net_bytes b"
      using bits_of_inj [OF e(2)] x [OF assms(1)] x [OF assms(2)] assms
      by (cases "na_family a"; cases "na_family b")
        (auto simp: family_af_def net_ok_def net_bytes_def digits_ok_take)
  next
    assume "na_family a = na_family b \<and> na_bits a = na_bits b \<and> net_bytes a = net_bytes b"
    then show "net_key a = net_key b"
      unfolding key [OF assms(1)] key [OF assms(2)] prefix [OF assms(1)] prefix [OF assms(2)] by simp
  qed
qed

text \<open>
  C28: The comparison operators of \<open>cidr\<close> and \<open>inet\<close> are a total order: by family, then by
  the network bits with a network before the longer ones it contains, then by all bits. Two
  addresses are equal exactly when family, prefix length and address bytes agree.
\<close>

theorem net_order:
  assumes "net_ok a" "net_ok b"
  shows "(net_lt a b \<longleftrightarrow> net_key a < net_key b) \<and> (net_gt a b \<longleftrightarrow> net_key b < net_key a) \<and>
    (net_le a b \<longleftrightarrow> net_key a \<le> net_key b) \<and> (net_ge a b \<longleftrightarrow> net_key b \<le> net_key a) \<and>
    (net_eq a b \<longleftrightarrow> na_family a = na_family b \<and> na_bits a = na_bits b \<and> net_bytes a = net_bytes b) \<and>
    (net_ne a b \<longleftrightarrow> \<not> net_eq a b)"
  using net_cmp.cmp_neg [OF assms] net_cmp.cmp_pos [OF assms] net_cmp.cmp_zero [OF assms]
    net_cmp.cmp_le [OF assms] net_key_inj [OF assms]
  by (simp add: net_lt_def net_gt_def net_le_def net_ge_def net_eq_def net_ne_def not_less [symmetric])

theorem net_order_witness:
  "net_lt (v4_addr 10 0 0 0 8) (v4_addr 10 0 0 0 16) \<and> net_key (v4_addr 10 0 0 0 8) < net_key (v4_addr 10 0 0 0 16)"
proof -
  have "net_ok (v4_addr 10 0 0 0 8)" "net_ok (v4_addr 10 0 0 0 16)" "net_lt (v4_addr 10 0 0 0 8) (v4_addr 10 0 0 0 16)"
    by code_simp+
  then show ?thesis using net_order [of "v4_addr 10 0 0 0 8" "v4_addr 10 0 0 0 16"] by simp
qed

section \<open>Network addresses\<close>

lemma mod_bits:
  assumes "0 \<le> x" "x < 256" "r \<le> 8"
  shows "x mod 2 ^ (8 - r) = 0 \<longleftrightarrow> (\<forall>b \<in> set (drop r (shift_bits 8 x)). b = 0)"
proof -
  have d: "digits_ok 2 (drop r (shift_bits 8 x))" by (simp add: digits_ok_drop)
  have "bval 2 (drop r (shift_bits 8 x)) < 2 ^ (8 - r)" "0 \<le> bval 2 (drop r (shift_bits 8 x))"
    using bval_less [OF d] bval_nonneg [OF d] by simp_all
  moreover have "x = bval 2 (take r (shift_bits 8 x)) * 2 ^ (8 - r) + bval 2 (drop r (shift_bits 8 x))"
    using bval_split [of 2 "shift_bits 8 x" r] bval_byte [OF assms(1,2)] by simp
  ultimately have "x mod 2 ^ (8 - r) = bval 2 (drop r (shift_bits 8 x))"
    by (metis mod_mult_self3 mod_pos_pos_trivial)
  then show ?thesis using bval_eq_0_iff [OF d] by simp
qed

lemma mask_loop_bits:
  "digits_ok 256 a \<Longrightarrow> r \<le> 8 \<Longrightarrow> mask_loop a (2 ^ (8 - r) - 1) \<longleftrightarrow>
   (case a of [] \<Rightarrow> True | x # a \<Rightarrow> \<forall>b \<in> set (drop r (shift_bits 8 x) @ bits_of a). b = 0)"
proof (induction a arbitrary: r)
  case (Cons x a)
  have "mask_loop a 255 \<longleftrightarrow> (\<forall>b \<in> set (bits_of a). b = 0)"
    using Cons.IH [of 0] Cons.prems by (cases a) simp_all
  then show ?case using mod_bits [of x r] Cons.prems by auto
qed simp

text \<open>
  \<open>address_ok\<close> holds exactly when no bit of the address to the right of the mask is set.
\<close>

theorem address_ok_correct:
  assumes "bytes_ok 16 a" "0 \<le> bits" "bits \<le> max_bits f"
  shows "address_ok a bits f \<longleftrightarrow>
    (\<forall>b \<in> set (drop (nat bits) (bits_of (take (nat (max_bits f) div 8) a))). b = 0)"
proof -
  define m where "m = nat (max_bits f) div 8"
  define n where "n = nat bits"
  have m: "max_bits f = 8 * int m" "m = (if f = Pq_net_family_inet then 4 else 16)"
    by (simp_all add: m_def max_bits_def)
  have n: "bits = int n" "n \<le> 8 * m" using assms(2,3) m(1) by (auto simp: n_def)
  have a: "length (take m a) = m" "digits_ok 256 (take m a)"
    using assms(1) m(2) by (auto simp: bytes_ok_def)
  have r: "n mod 8 \<in> {0, 1, 2, 3, 4, 5, 6, 7}" by auto
  then have mask: "(255::int) div 2 ^ (n mod 8) = 2 ^ (8 - n mod 8) - 1" by auto
  have ok: "address_ok a bits f \<longleftrightarrow> n = 8 * m \<or> mask_loop (drop (n div 8) (take m a)) (2 ^ (8 - n mod 8) - 1)"
    using mask m n by (auto simp: address_ok_def Let_def sdiv_nonneg smod_nonneg nat_div_distrib nat_mod_distrib)
  show ?thesis
  proof (cases "n = 8 * m")
    case True
    then show ?thesis using ok a by (simp add: m_def [symmetric] n_def [symmetric])
  next
    case False
    define k where "k = n div 8"
    have k: "k < m" using n(2) False by (auto simp: k_def)
    have split: "take m a = take k (take m a) @ take m a ! k # drop (Suc k) (take m a)"
      using k a(1) by (intro id_take_nth_drop) simp
    then have "bits_of (take m a) = bits_of (take k (take m a)) @ shift_bits 8 (take m a ! k) @ bits_of (drop (Suc k) (take m a))"
      by (metis bits_of_append bits_of_simps(2))
    moreover have "length (bits_of (take k (take m a))) = 8 * k" "n = 8 * k + n mod 8"
      using k a(1) by (simp_all add: k_def)
    ultimately have bits: "drop n (bits_of (take m a)) = drop (n mod 8) (shift_bits 8 (take m a ! k)) @ bits_of (drop (Suc k) (take m a))"
      using r by (auto simp: drop_append)
    have "drop k (take m a) = take m a ! k # drop (Suc k) (take m a)"
      by (rule Cons_nth_drop_Suc [symmetric]) (use k a(1) in simp)
    moreover have "mask_loop (drop k (take m a)) (2 ^ (8 - n mod 8) - 1) \<longleftrightarrow>
        (case drop k (take m a) of [] \<Rightarrow> True
         | x # a \<Rightarrow> \<forall>b \<in> set (drop (n mod 8) (shift_bits 8 x) @ bits_of a). b = 0)"
      using a(2) by (intro mask_loop_bits digits_ok_drop) simp_all
    ultimately show ?thesis
      using ok False bits
      by (simp only: m_def [symmetric] n_def [symmetric] k_def [symmetric] list.case simp_thms)
  qed
qed

theorem address_ok_correct_witness:
  "\<not> address_ok (10 # 1 # replicate 14 0) 12 Pq_net_family_inet \<and>
   (address_ok (10 # 1 # replicate 14 0) 12 Pq_net_family_inet \<longleftrightarrow>
    (\<forall>b \<in> set (drop (nat 12) (bits_of (take (nat (max_bits Pq_net_family_inet) div 8) (10 # 1 # replicate 14 0)))). b = 0))"
proof (rule conjI)
  show "\<not> address_ok (10 # 1 # replicate 14 0) 12 Pq_net_family_inet" by code_simp
qed (rule address_ok_correct; simp add: bytes_ok_def max_bits_def)

end
