(* ===== verification/Net_V6.thy ===== *)
theory Net_V6
  imports Net_Addr
begin

text \<open>
  The text form of IPv6 addresses: what \<open>inet_net_ntop_ipv6\<close> prints, with the longest run of
  zero words as a double colon and an embedded IPv4 address in dotted form,
  \<open>inet_cidr_pton_ipv6\<close> reads back; and what the constructors of \<open>cidr\<close> and \<open>inet\<close> make
  of it.
\<close>

section \<open>Reading numbers\<close>

lemma shifted_pos: "0 < x \<Longrightarrow> 0 \<le> h \<Longrightarrow> 0 < x * 10 + h" for x h :: int
  by simp

lemma getbits_run:
  "digits_ok 10 ds \<Longrightarrow> 0 \<le> val \<Longrightarrow> val * 10 ^ length ds + bval 10 ds \<le> 128 \<Longrightarrow> (n \<noteq> 0 \<longrightarrow> ds \<noteq> [] \<longrightarrow> val \<noteq> 0) \<Longrightarrow>
   (ds \<noteq> [] \<longrightarrow> tl ds \<noteq> [] \<longrightarrow> val * 10 + hd ds \<noteq> 0) \<Longrightarrow> n \<noteq> 0 \<or> ds \<noteq> [] \<Longrightarrow>
   getbits_loop (map digit_char ds) n val = Some (val * 10 ^ length ds + bval 10 ds)"
proof (induction ds arbitrary: n val)
  case (Cons d ds)
  then have d: "0 \<le> d" "d < 10" by simp_all
  have le: "val * 10 + d \<le> 128" using bval_Cons_ge [OF Cons.prems(1,2)] Cons.prems(3) by linarith
  have e: "(val * 10 + d) * 10 ^ length ds + bval 10 ds = val * 10 ^ length (d # ds) + bval 10 (d # ds)"
    by (simp add: algebra_simps)
  have "getbits_loop (map digit_char ds) (Suc n) (val * 10 + d) = Some ((val * 10 + d) * 10 ^ length ds + bval 10 ds)"
  proof (rule Cons.IH)
    show "ds \<noteq> [] \<longrightarrow> tl ds \<noteq> [] \<longrightarrow> (val * 10 + d) * 10 + hd ds \<noteq> 0"
    proof (intro impI)
      assume "ds \<noteq> []"
      then have "0 < val * 10 + d" "0 \<le> hd ds" using Cons.prems d by (cases ds; auto)+
      then have "0 < (val * 10 + d) * 10 + hd ds" by (rule shifted_pos)
      then show "(val * 10 + d) * 10 + hd ds \<noteq> 0" by simp
    qed
  qed (use Cons.prems d e in auto)
  then show ?case using Cons.prems d le e by (auto simp: digit_char_props [OF d])
qed simp

lemma no_leading_zero:
  assumes "0 \<le> n" "tl (base_digits 10 n) \<noteq> []"
  shows "hd (base_digits 10 n) \<noteq> 0"
  using assms base_digits_props [of 10 n] by (cases "n = 0") auto

lemma getbits_u:
  assumes "0 \<le> n" "n \<le> 128"
  shows "getbits (fmt_u n) = Some n"
proof -
  have "getbits_loop (map digit_char (base_digits 10 n)) 0 0 = Some (0 * 10 ^ length (base_digits 10 n) + bval 10 (base_digits 10 n))"
    using dec_text [OF assms(1)] no_leading_zero [OF assms(1)] assms by (intro getbits_run) simp_all
  then show ?thesis using dec_text [OF assms(1)] by (simp add: getbits_def)
qed

lemma getv4_run:
  "digits_ok 10 ds \<Longrightarrow> 0 \<le> val \<Longrightarrow> val * 10 ^ length ds + bval 10 ds \<le> 255 \<Longrightarrow> (n \<noteq> 0 \<longrightarrow> ds \<noteq> [] \<longrightarrow> val \<noteq> 0) \<Longrightarrow>
   (ds \<noteq> [] \<longrightarrow> tl ds \<noteq> [] \<longrightarrow> val * 10 + hd ds \<noteq> 0) \<Longrightarrow>
   getv4_loop (map digit_char ds @ rest) n val out =
     getv4_loop rest (n + length ds) (val * 10 ^ length ds + bval 10 ds) out"
proof (induction ds arbitrary: n val)
  case (Cons d ds)
  then have d: "0 \<le> d" "d < 10" by simp_all
  have le: "val * 10 + d \<le> 255" using bval_Cons_ge [OF Cons.prems(1,2)] Cons.prems(3) by linarith
  have e: "(val * 10 + d) * 10 ^ length ds + bval 10 ds = val * 10 ^ length (d # ds) + bval 10 (d # ds)"
    by (simp add: algebra_simps)
  have "getv4_loop (map digit_char ds @ rest) (Suc n) (val * 10 + d) out =
    getv4_loop rest (Suc n + length ds) ((val * 10 + d) * 10 ^ length ds + bval 10 ds) out"
  proof (rule Cons.IH)
    show "ds \<noteq> [] \<longrightarrow> tl ds \<noteq> [] \<longrightarrow> (val * 10 + d) * 10 + hd ds \<noteq> 0"
    proof (intro impI)
      assume "ds \<noteq> []"
      then have "0 < val * 10 + d" "0 \<le> hd ds" using Cons.prems d by (cases ds; auto)+
      then have "0 < (val * 10 + d) * 10 + hd ds" by (rule shifted_pos)
      then show "(val * 10 + d) * 10 + hd ds \<noteq> 0" by simp
    qed
  qed (use Cons.prems d e in auto)
  then show ?case using Cons.prems d le e by (auto simp: digit_char_props [OF d])
qed simp

lemma getv4_u:
  assumes "0 \<le> n" "n < 256"
  shows "\<exists>k. 0 < k \<and> getv4_loop (fmt_u n @ rest) 0 0 out = getv4_loop rest k n out"
proof -
  have "getv4_loop (map digit_char (base_digits 10 n) @ rest) 0 0 out =
    getv4_loop rest (0 + length (base_digits 10 n)) (0 * 10 ^ length (base_digits 10 n) + bval 10 (base_digits 10 n)) out"
    using dec_text [OF assms(1)] no_leading_zero [OF assms(1)] assms by (intro getv4_run) simp_all
  moreover have "0 < length (base_digits 10 n)" using dec_text(4) [OF assms(1)] by simp
  ultimately show ?thesis using dec_text(1,3) [OF assms(1)] by (intro exI [of _ "length (base_digits 10 n)"]) simp
qed

text \<open>What follows an address: nothing, or the prefix length.\<close>

definition bits_tail :: "int \<Rightarrow> string" where
  "bits_tail bits = (if bits = 128 then [] else ''/'' @ fmt_u bits)"

definition tail_bits :: "int \<Rightarrow> int" where
  "tail_bits bits = (if bits = 128 then - 1 else bits)"

lemma getv4_text:
  assumes "digits_ok 256 [a, b, c, d]" "0 \<le> bits" "bits \<le> 128"
  shows "getv4 (v4_text a b c d @ bits_tail bits) = Some ([a, b, c, d], tail_bits bits)"
proof -
  have step: "getv4_loop (fmt_u n @ ''.'' @ rest) 0 0 out = getv4_loop rest 0 0 (out @ [n])"
    if "0 \<le> n" "n < 256" "length out \<le> 3" for n rest out
    using getv4_u [OF that(1,2), of "''.'' @ rest" out] that(3) by auto
  have last: "getv4_loop (fmt_u n @ bits_tail bits) 0 0 out = Some (out @ [n], tail_bits bits)"
    if "0 \<le> n" "n < 256" "length out \<le> 3" for n out
    using getv4_u [OF that(1,2), of "bits_tail bits" out] that(3) getbits_u [OF assms(2,3)]
    by (auto simp: bits_tail_def tail_bits_def)
  show ?thesis using assms(1) step last by (simp add: getv4_def v4_text_def del: append_Cons)
qed

section \<open>Reading groups\<close>

text \<open>The state of the parser at the start of a token.\<close>

definition at_token :: "int list \<Rightarrow> nat option \<Rightarrow> string \<Rightarrow> v6_state" where
  "at_token out cp tx = \<lparr> v6_curtok = tx, v6_group = None, v6_ndigits = 0, v6_out = out,
     v6_colonp = cp, v6_bits = - 1 \<rparr>"

definition word_ok :: "int \<Rightarrow> bool" where
  "word_ok w \<longleftrightarrow> 0 \<le> w \<and> w < 65536"

lemma v6_hex_run:
  "digits_ok 16 ds \<Longrightarrow> v6_ndigits st + length ds \<le> 4 \<Longrightarrow> ds \<noteq> [] \<Longrightarrow>
   v6_loop (map hex_char ds @ rest) st =
     v6_loop rest (st \<lparr> v6_group := Some ((case v6_group st of None \<Rightarrow> 0 | Some v \<Rightarrow> v) * 16 ^ length ds + bval 16 ds),
       v6_ndigits := v6_ndigits st + length ds \<rparr>)"
proof (induction ds arbitrary: st)
  case (Cons d ds)
  then have d: "hex_value (hex_char d) = Some d" by (intro hex_char_props) auto
  define v where "v = (case v6_group st of None \<Rightarrow> 0 | Some v \<Rightarrow> v) * 16 + d"
  define st1 where "st1 = st \<lparr> v6_group := Some v, v6_ndigits := v6_ndigits st + 1 \<rparr>"
  have s: "v6_loop (map hex_char (d # ds) @ rest) st = v6_loop (map hex_char ds @ rest) st1"
    using Cons.prems by (simp add: d st1_def v_def)
  show ?case
  proof (cases "ds = []")
    case True
    then show ?thesis unfolding s by (simp add: st1_def v_def)
  next
    case False
    then show ?thesis
      unfolding s using Cons.prems by (subst Cons.IH) (auto simp: st1_def v_def algebra_simps)
  qed
qed simp

lemma fmt_x_word:
  assumes "word_ok w"
  shows "digits_ok 16 (base_digits 16 w)" "bval 16 (base_digits 16 w) = w" "base_digits 16 w \<noteq> []"
    "length (base_digits 16 w) \<le> 4" "length (fmt_x w) \<le> 4"
  using assms base_digits_props [of 16 w] base_digits_length [of 16 w 4]
  by (simp_all add: word_ok_def fmt_x_def)

lemma v6_word:
  assumes "word_ok w"
  shows "v6_loop (fmt_x w @ rest) (at_token out cp tx) =
    v6_loop rest ((at_token out cp tx) \<lparr> v6_group := Some w, v6_ndigits := length (fmt_x w) \<rparr>)"
  using v6_hex_run [of "base_digits 16 w" "at_token out cp tx" rest] fmt_x_word [OF assms]
  by (simp add: fmt_x_def at_token_def)

lemma v6_word_colon:
  assumes "word_ok w" "rest \<noteq> []" "length out + 2 \<le> 16"
  shows "v6_loop (fmt_x w @ CHR '':'' # rest) (at_token out cp tx) = v6_loop rest (at_token (out @ put_word w) cp rest)"
proof -
  have "hex_value CHR '':'' = None" by (simp add: hex_value_def)
  then show ?thesis using v6_word [OF assms(1), of "CHR '':'' # rest" out cp tx] assms(2,3)
    by (simp add: at_token_def)
qed

definition groups_text :: "int list \<Rightarrow> string" where
  "groups_text ws = concat (map (\<lambda>w. fmt_x w @ '':'') ws)"

lemma groups_text_Cons: "groups_text (w # ws) = fmt_x w @ CHR '':'' # groups_text ws"
  by (simp add: groups_text_def)

definition words_bytes :: "int list \<Rightarrow> int list" where
  "words_bytes ws = concat (map put_word ws)"

lemma words_bytes_simps [simp]:
  "words_bytes [] = []" "words_bytes (w # ws) = put_word w @ words_bytes ws"
  "words_bytes (xs @ ys) = words_bytes xs @ words_bytes ys" "length (words_bytes ws) = 2 * length ws"
  by (induction ws) (simp_all add: words_bytes_def put_word_def)

lemma v6_groups:
  "\<forall>w \<in> set ws. word_ok w \<Longrightarrow> rest \<noteq> [] \<Longrightarrow> length out + 2 * length ws \<le> 16 \<Longrightarrow>
   v6_loop (groups_text ws @ rest) (at_token out cp (groups_text ws @ rest)) =
     v6_loop rest (at_token (out @ words_bytes ws) cp rest)"
proof (induction ws arbitrary: out)
  case (Cons w ws)
  have "v6_loop (groups_text (w # ws) @ rest) (at_token out cp (groups_text (w # ws) @ rest)) =
    v6_loop (groups_text ws @ rest) (at_token (out @ put_word w) cp (groups_text ws @ rest))"
    using Cons.prems by (simp add: groups_text_Cons v6_word_colon)
  also have "\<dots> = v6_loop rest (at_token ((out @ put_word w) @ words_bytes ws) cp rest)"
    using Cons.prems by (intro Cons.IH) (auto simp: put_word_def)
  finally show ?case by simp
qed (simp add: groups_text_def)

text \<open>The end of the text after a group or directly after the double colon.\<close>

lemma v6_tail:
  assumes "0 \<le> bits" "bits \<le> 128"
  shows "v6_loop (bits_tail bits) st =
    Some (if bits = 128 then st else st \<lparr> v6_bits := bits \<rparr>)"
proof -
  have "hex_value CHR ''/'' = None" by (simp add: hex_value_def)
  then show ?thesis using getbits_u [OF assms] by (simp add: bits_tail_def)
qed

section \<open>Reading an address\<close>

definition finish_bytes :: "int list \<Rightarrow> nat option \<Rightarrow> int \<Rightarrow> (int list \<times> int) option" where
  "finish_bytes out cp bits =
    (case cp of
       None \<Rightarrow> if length out \<noteq> 16 then None else Some (out, bits)
     | Some k \<Rightarrow> if length out = 16 then None
         else Some (take k out @ replicate (16 - length out) 0 @ drop k out, bits))"

definition post_text :: "int list \<Rightarrow> string" where
  "post_text ws = (if ws = [] then [] else groups_text (butlast ws) @ fmt_x (last ws))"

lemma v6_post:
  assumes ws: "\<forall>w \<in> set ws. word_ok w" and len: "length out + 2 * length ws \<le> 16" and bits: "0 \<le> bits" "bits \<le> 128"
  shows "v6_loop (post_text ws @ bits_tail bits) (at_token out cp (post_text ws @ bits_tail bits)) \<bind> v6_finish
    = finish_bytes (out @ words_bytes ws) cp bits"
proof (cases "ws = []")
  case True
  then show ?thesis using v6_tail [OF bits] bits
    by (simp add: post_text_def v6_finish_def at_token_def finish_bytes_def split: option.split)
next
  case False
  define xs x where "xs = butlast ws" and "x = last ws"
  have w: "ws = xs @ [x]" using False by (simp add: xs_def x_def)
  then have ok: "\<forall>w \<in> set xs. word_ok w" "word_ok x" and l: "length out + 2 * length xs + 2 \<le> 16"
    using ws len by auto
  define rest where "rest = fmt_x x @ bits_tail bits"
  have "rest \<noteq> []" using fmt_x_word(3) [OF ok(2)] by (simp add: rest_def fmt_x_def)
  then have "v6_loop (post_text ws @ bits_tail bits) (at_token out cp (post_text ws @ bits_tail bits))
    = v6_loop rest (at_token (out @ words_bytes xs) cp rest)"
    using v6_groups [OF ok(1) \<open>rest \<noteq> []\<close>, of out cp] l by (simp add: post_text_def w rest_def)
  also have "\<dots> = Some (((at_token (out @ words_bytes xs) cp rest) \<lparr> v6_group := Some x, v6_ndigits := length (fmt_x x) \<rparr>)
      \<lparr> v6_bits := tail_bits bits \<rparr>)"
    using v6_word [OF ok(2), of "bits_tail bits" "out @ words_bytes xs" cp rest] v6_tail [OF bits]
    by (simp add: rest_def at_token_def tail_bits_def)
  finally show ?thesis using l bits
    by (simp add: v6_finish_def at_token_def finish_bytes_def tail_bits_def w put_word_def split: option.split)
qed

lemma hex_char_digit: "0 \<le> d \<Longrightarrow> d < 10 \<Longrightarrow> hex_char d = digit_char d"
  by (simp add: hex_char_def digit_char_def)

lemma v6_dotted:
  assumes ok: "digits_ok 256 [a, b, c, d]" and len: "length out + 4 \<le> 16" and bits: "0 \<le> bits" "bits \<le> 128"
  shows "v6_loop (v4_text a b c d @ bits_tail bits) (at_token out cp (v4_text a b c d @ bits_tail bits)) \<bind> v6_finish
    = finish_bytes (out @ [a, b, c, d]) cp bits"
proof -
  define tx where "tx = v4_text a b c d @ bits_tail bits"
  define ds where "ds = base_digits 10 a"
  have a: "0 \<le> a" "a < 256" using ok by simp_all
  have ds: "fmt_u a = map digit_char ds" "digits_ok 10 ds" "ds \<noteq> []" "length ds \<le> 3"
    using dec_text [OF a(1)] fmt_u_length [of a] a by (simp_all add: ds_def)
  then have hex: "fmt_u a = map hex_char ds" "digits_ok 16 ds"
    by (auto simp: digits_ok_def hex_char_digit)
  define st where "st = (at_token out cp tx) \<lparr> v6_group := Some (bval 16 ds), v6_ndigits := length ds \<rparr>"
  obtain rest where rest: "tx = fmt_u a @ CHR ''.'' # rest" by (auto simp: tx_def v4_text_def)
  have "v6_loop tx (at_token out cp tx) = v6_loop (CHR ''.'' # rest) st"
    unfolding rest hex(1) using v6_hex_run [OF hex(2), of "at_token out cp tx"] ds
    by (simp add: rest hex(1) st_def at_token_def del: v6_loop.simps)
  also have "\<dots> = Some (st \<lparr> v6_out := out @ [a, b, c, d], v6_group := None, v6_bits := tail_bits bits \<rparr>)"
  proof -
    have "hex_value CHR ''.'' = None" by (simp add: hex_value_def)
    moreover have "getv4 (v6_curtok st) = Some ([a, b, c, d], tail_bits bits)"
      using getv4_text [OF ok bits] by (simp add: st_def at_token_def tx_def)
    ultimately show ?thesis using len by (simp add: st_def at_token_def pad_def)
  qed
  finally show ?thesis unfolding tx_def [symmetric] using bits
    by (simp add: st_def v6_finish_def at_token_def finish_bytes_def tail_bits_def split: option.split)
qed

lemma v6_double_colon:
  assumes "\<forall>w \<in> set pre. word_ok w" "2 * length pre \<le> 16"
  shows "v6_loop (groups_text pre @ CHR '':'' # rest) (at_token [] None (groups_text pre @ CHR '':'' # rest)) =
    v6_loop rest (at_token (words_bytes pre) (Some (2 * length pre)) rest)"
proof -
  have "hex_value CHR '':'' = None" by (simp add: hex_value_def)
  then show ?thesis using v6_groups [OF assms(1), of "CHR '':'' # rest" "[]" None] assms(2)
    by (simp add: at_token_def)
qed

section \<open>The longest run\<close>

definition run_ok :: "int list \<Rightarrow> int \<Rightarrow> run \<Rightarrow> bool" where
  "run_ok ws n r \<longleftrightarrow> fst r = - 1 \<or>
    0 \<le> fst r \<and> 1 \<le> snd r \<and> fst r + snd r \<le> n \<and> (\<forall>k. fst r \<le> k \<longrightarrow> k < fst r + snd r \<longrightarrow> ws ! nat k = 0)"

lemma run_loop_ok:
  "run_ok (pre @ ws) (int (length pre)) best \<Longrightarrow> run_ok (pre @ ws) (int (length pre)) cur \<Longrightarrow>
   (fst cur \<noteq> - 1 \<longrightarrow> fst cur + snd cur = int (length pre)) \<Longrightarrow>
   run_ok (pre @ ws) (int (length (pre @ ws))) (run_loop ws (int (length pre)) best cur)"
proof (induction ws arbitrary: pre best cur)
  case Nil
  then show ?case by (simp add: better_def)
next
  case (Cons w ws)
  let ?i = "int (length pre)"
  have mono: "run_ok xs ?i r \<Longrightarrow> run_ok xs (?i + 1) r" for xs r by (auto simp: run_ok_def)
  have IH: "run_ok (pre @ w # ws) (int (length (pre @ w # ws))) (run_loop ws (?i + 1) b c)"
    if "run_ok (pre @ w # ws) (?i + 1) b" "run_ok (pre @ w # ws) (?i + 1) c"
      "fst c \<noteq> - 1 \<longrightarrow> fst c + snd c = ?i + 1" for b c
    using Cons.IH [of "pre @ [w]" b c] that by (simp add: add.commute)
  show ?case
  proof (cases "w = 0")
    case True
    define c where "c = (if fst cur = - 1 then (?i, 1) else (fst cur, snd cur + 1))"
    have "run_ok (pre @ w # ws) (?i + 1) c"
    proof (cases "fst cur = - 1")
      case c: True
      then show ?thesis using \<open>w = 0\<close> by (auto simp: c_def run_ok_def nth_append)
    next
      case c: False
      have "(pre @ w # ws) ! nat k = 0" if "fst cur \<le> k" "k < fst cur + snd cur + 1" for k
        using Cons.prems(2,3) c that \<open>w = 0\<close> by (cases "k = ?i") (auto simp: run_ok_def nth_append)
      then show ?thesis using Cons.prems(2,3) c by (auto simp: c_def run_ok_def)
    qed
    moreover have "fst c \<noteq> - 1 \<longrightarrow> fst c + snd c = ?i + 1" using Cons.prems(3) by (auto simp: c_def)
    ultimately show ?thesis using IH [OF mono [OF Cons.prems(1)]] True by (simp add: c_def)
  next
    case False
    have "run_ok (pre @ w # ws) (?i + 1) (better best cur)" if "fst cur \<noteq> - 1"
      using mono [OF Cons.prems(1)] mono [OF Cons.prems(2)] by (simp add: better_def)
    moreover have "run_ok (pre @ w # ws) (?i + 1) (- 1, x)" for x by (simp add: run_ok_def)
    ultimately show ?thesis
      using IH [OF mono [OF Cons.prems(1)] mono [OF Cons.prems(2)]] IH False by auto
  qed
qed

lemma best_run_ok:
  assumes "length ws = 8"
  shows "run_ok ws 8 (best_run ws) \<and> (fst (best_run ws) \<noteq> - 1 \<longrightarrow> 2 \<le> snd (best_run ws))"
proof -
  have "run_ok ws 8 (run_loop ws 0 (- 1, 0) (- 1, 0))"
    using run_loop_ok [of "[]" ws "(- 1, 0)" "(- 1, 0)"] assms by (simp add: run_ok_def)
  then show ?thesis by (auto simp: best_run_def Let_def run_ok_def)
qed

section \<open>The text of an address\<close>

definition dotted :: "run \<Rightarrow> int list \<Rightarrow> bool" where
  "dotted best ws \<longleftrightarrow> fst best = 0 \<and> (snd best = 6 \<or> snd best = 5 \<and> ws ! 5 = 65535)"

definition after_run :: "int list \<Rightarrow> int list \<Rightarrow> run \<Rightarrow> string" where
  "after_run src ws best =
    (if dotted best ws then groups_text (take (6 - nat (snd best)) (drop (nat (snd best)) ws)) @
       v4_text (src ! 12) (src ! 13) (src ! 14) (src ! 15)
     else post_text (drop (nat (fst best + snd best)) ws))"

lemma decoct_v4:
  assumes "digits_ok 256 [a, b, c, d]" "20 \<le> sz"
  shows "decoct_loop [a, b, c, d] sz = Some (v4_text a b c d)"
proof -
  have "length (fmt_u a) \<le> 3" "length (fmt_u b) \<le> 3" "length (fmt_u c) \<le> 3"
    using assms(1) by (auto intro!: fmt_u_length)
  then show ?thesis using assms(2) by (simp add: v4_text_def Let_def) arith
qed

text \<open>The loop prints one word per step; a list of eight words is unfolded into its elements.\<close>

lemma eight_words:
  assumes "length ws = 8"
  obtains w0 w1 w2 w3 w4 w5 w6 w7 where "ws = [w0, w1, w2, w3, w4, w5, w6, w7]"
proof -
  have "ws = [ws ! 0, ws ! 1, ws ! 2, ws ! 3, ws ! 4, ws ! 5, ws ! 6, ws ! 7]"
    using assms by (intro nth_equalityI) (auto simp: less_Suc_eq numeral_eq_Suc nth_Cons')
  then show thesis by (rule that)
qed

lemma v6_format_no_run:
  assumes "length ws = 8"
  shows "v6_format 8 src ws (- 1, l) 0 0 = Some (post_text ws)"
  using assms by (rule eight_words)
    (simp add: eval_nat_numeral Let_def post_text_def groups_text_def)

definition run_text :: "int list \<Rightarrow> int list \<Rightarrow> run \<Rightarrow> string" where
  "run_text src ws best = (if fst best = 0 then '':'' else []) @ groups_text (take (nat (fst best)) ws) @
     '':'' @ after_run src ws best"

lemma drop_12:
  assumes "bytes_ok 16 src"
  shows "drop 12 src = [src ! 12, src ! 13, src ! 14, src ! 15]"
    "digits_ok 256 [src ! 12, src ! 13, src ! 14, src ! 15]"
proof -
  show e: "drop 12 src = [src ! 12, src ! 13, src ! 14, src ! 15]"
    using assms by (intro nth_equalityI) (auto simp: bytes_ok_def less_Suc_eq numeral_eq_Suc nth_Cons')
  show "digits_ok 256 [src ! 12, src ! 13, src ! 14, src ! 15]"
    using assms digits_ok_drop [of 256 src 12] unfolding e by (simp add: bytes_ok_def)
qed

lemma v6_format_run0:
  assumes "bytes_ok 16 src" "length ws = 8" "2 \<le> l" "l \<le> 8"
  shows "v6_format 8 src ws (0, l) 0 0 =
    Some ('':'' @ (if l = 8 then [] else '':'') @ after_run src ws (0, l))"
proof -
  obtain w0 w1 w2 w3 w4 w5 w6 w7 where w: "ws = [w0, w1, w2, w3, w4, w5, w6, w7]" using assms(2) by (rule eight_words)
  have l: "l \<in> {2, 3, 4, 5, 6, 7, 8}" using assms(3,4) by auto
  have dec: "decoct_loop (drop 12 src) sz = Some (v4_text (src ! 12) (src ! 13) (src ! 14) (src ! 15))"
    if "20 \<le> sz" for sz
    unfolding drop_12(1) [OF assms(1)] by (rule decoct_v4 [OF drop_12(2) [OF assms(1)] that])
  have ff: "length (fmt_x 65535) \<le> 4" by (rule fmt_x_word) (simp add: word_ok_def)
  show ?thesis using l dec ff
    by (auto simp: w eval_nat_numeral Let_def tmp_size_def post_text_def groups_text_def after_run_def dotted_def)
qed

lemma v6_format_run:
  assumes "length ws = 8" "2 \<le> l" "1 \<le> b" "b + l \<le> 8"
  shows "v6_format 8 src ws (b, l) 0 0 =
    Some (groups_text (take (nat b) ws) @ (if b + l = 8 then [] else '':'') @ after_run src ws (b, l))"
proof -
  obtain w0 w1 w2 w3 w4 w5 w6 w7 where w: "ws = [w0, w1, w2, w3, w4, w5, w6, w7]" using assms(1) by (rule eight_words)
  have b: "b \<in> {1, 2, 3, 4, 5, 6}" using assms by auto
  have l: "l \<in> {2, 3, 4, 5, 6, 7}" using assms by auto
  show ?thesis using b l assms(4)
    by (elim insertE emptyE) (simp_all add: w eval_nat_numeral Let_def tmp_size_def post_text_def groups_text_def after_run_def dotted_def)
qed

section \<open>Words and bytes\<close>

lemma words_bytes_words_of:
  assumes "bytes_ok 16 a"
  shows "length (words_of a) = 8" "\<forall>w \<in> set (words_of a). word_ok w" "words_bytes (words_of a) = a"
proof -
  have a: "0 \<le> a ! k" "a ! k < 256" if "k < 16" for k
    using that assms by (auto simp: bytes_ok_def digits_ok_def)
  show "length (words_of a) = 8" by (simp add: words_of_def)
  have "word_ok (a ! (2 * i) * 256 + a ! (2 * i + 1))" if "i < 8" for i
    using a [of "2 * i"] a [of "2 * i + 1"] that by (simp add: word_ok_def)
  then show "\<forall>w \<in> set (words_of a). word_ok w" by (auto simp: words_of_def)
  have p: "put_word (a ! (2 * i) * 256 + a ! (2 * i + 1)) = [a ! (2 * i), a ! (2 * i + 1)]" if "i < 8" for i
    using a [of "2 * i"] a [of "2 * i + 1"] that by (simp add: put_word_def)
  have "words_bytes (words_of a) = concat (map (\<lambda>i. [a ! (2 * i), a ! (2 * i + 1)]) [0..<8])"
    unfolding words_bytes_def words_of_def map_map comp_def
    by (intro arg_cong [where f = concat] map_cong) (auto simp: p simp del: add_2_eq_Suc' Suc_eq_plus1 One_nat_def)
  also have "\<dots> = map ((!) a) [0..<16]" by (simp add: upt_rec numeral_eq_Suc)
  also have "\<dots> = a" using assms map_nth [of a] by (simp add: bytes_ok_def)
  finally show "words_bytes (words_of a) = a" .
qed

lemma words_bytes_take:
  "words_bytes (take k ws) = take (2 * k) (words_bytes ws)" "words_bytes (drop k ws) = drop (2 * k) (words_bytes ws)"
proof -
  have w: "words_bytes ws = words_bytes (take k ws) @ words_bytes (drop k ws)"
    using words_bytes_simps(3) [of "take k ws" "drop k ws"] by simp
  show "words_bytes (take k ws) = take (2 * k) (words_bytes ws)"
    unfolding w by (cases "k \<le> length ws") simp_all
  show "words_bytes (drop k ws) = drop (2 * k) (words_bytes ws)"
    unfolding w by (cases "k \<le> length ws") simp_all
qed

lemma words_bytes_zero: "words_bytes (replicate n 0) = replicate (2 * n) 0"
  by (induction n) (simp_all add: put_word_def)

lemma v6_after_run:
  assumes a: "bytes_ok 16 a" and bl: "0 \<le> b" "2 \<le> l" "b + l \<le> 8" and bits: "0 \<le> bits" "bits \<le> 128"
    and out: "length out = 2 * nat b"
  shows "v6_loop (after_run a (words_of a) (b, l) @ bits_tail bits)
      (at_token out cp (after_run a (words_of a) (b, l) @ bits_tail bits)) \<bind> v6_finish
    = finish_bytes (out @ words_bytes (drop (nat (b + l)) (words_of a))) cp bits"
proof -
  define ws where "ws = words_of a"
  note w = words_bytes_words_of [OF a, folded ws_def]
  have ok: "\<forall>w \<in> set (take i (drop j ws)). word_ok w" for i j
    using w(2) by (auto dest: in_set_takeD in_set_dropD)
  show ?thesis
  proof (cases "dotted (b, l) ws")
    case False
    have len: "length out + 2 * length (drop (nat (b + l)) ws) \<le> 16" using bl out w(1) by simp
    have "\<forall>w \<in> set (drop (nat (b + l)) ws). word_ok w" using w(2) by (auto dest: in_set_dropD)
    then show ?thesis
      unfolding ws_def [symmetric] using v6_post [OF _ len bits] False by (simp add: after_run_def)
  next
    case True
    define g where "g = take (6 - nat l) (drop (nat l) ws)"
    define rest where "rest = v4_text (a ! 12) (a ! 13) (a ! 14) (a ! 15) @ bits_tail bits"
    have b: "b = 0" "out = []" "nat l \<le> 6" "l \<le> 6" using True out by (auto simp: dotted_def)
    have g: "length g = 6 - nat l" using w(1) b by (simp add: g_def)
    have "rest \<noteq> []" using v4_text_chars(3) [OF drop_12(2) [OF a]] by (simp add: rest_def)
    then have "v6_loop (groups_text g @ rest) (at_token out cp (groups_text g @ rest)) =
      v6_loop rest (at_token (out @ words_bytes g) cp rest)"
      using b g bl by (intro v6_groups) (auto simp: ok [of "6 - nat l" "nat l", folded g_def])
    moreover have "v6_loop rest (at_token (out @ words_bytes g) cp rest) \<bind> v6_finish =
        finish_bytes ((out @ words_bytes g) @ drop 12 a) cp bits"
      unfolding rest_def drop_12(1) [OF a]
      using drop_12(2) [OF a] bits b g bl by (intro v6_dotted) auto
    moreover have "words_bytes g @ drop 12 a = words_bytes (drop (nat l) ws)"
    proof -
      have "drop (nat l) ws = g @ drop 6 ws"
        unfolding g_def using b(3) append_take_drop_id [of "6 - nat l" "drop (nat l) ws"] by simp
      then show ?thesis using words_bytes_take(2) [of 6 ws] w(3) by simp
    qed
    ultimately show ?thesis
      unfolding ws_def [symmetric] using True b by (simp add: after_run_def g_def rest_def)
  qed
qed

section \<open>The IPv6 round trip\<close>

lemma fmt_x_hd:
  assumes "word_ok w"
  shows "\<exists>c cs. fmt_x w = c # cs \<and> c \<noteq> CHR '':''"
proof -
  obtain d ds where d: "base_digits 16 w = d # ds" using fmt_x_word(3) [OF assms] by (cases "base_digits 16 w") auto
  then have "hex_value (hex_char d) = Some d" using fmt_x_word(1) [OF assms] by (intro hex_char_props) auto
  then have "hex_char d \<noteq> CHR '':''" by (auto simp: hex_value_def)
  then show ?thesis using d by (simp add: fmt_x_def)
qed

lemma groups_hd: "ws \<noteq> [] \<Longrightarrow> \<forall>w \<in> set ws. word_ok w \<Longrightarrow> \<exists>c cs. groups_text ws = c # cs \<and> c \<noteq> CHR '':''"
  using fmt_x_hd by (cases ws) (fastforce simp: groups_text_Cons)+

lemma post_hd: "ws \<noteq> [] \<Longrightarrow> \<forall>w \<in> set ws. word_ok w \<Longrightarrow> \<exists>c cs. post_text ws = c # cs \<and> c \<noteq> CHR '':''"
proof (cases "butlast ws = []")
  case True
  assume "ws \<noteq> []" "\<forall>w \<in> set ws. word_ok w"
  then show ?thesis using True fmt_x_hd [of "last ws"] by (simp add: post_text_def groups_text_def)
next
  case False
  assume "ws \<noteq> []" "\<forall>w \<in> set ws. word_ok w"
  moreover from this have "\<exists>c cs. groups_text (butlast ws) = c # cs \<and> c \<noteq> CHR '':''"
    by (intro groups_hd False) (auto dest: in_set_butlastD)
  ultimately show ?thesis by (auto simp: post_text_def)
qed

lemma v6_text_length:
  assumes "\<forall>w \<in> set ws. word_ok w"
  shows "length (groups_text ws) \<le> 5 * length ws" "length (post_text ws) \<le> 5 * length ws"
proof -
  have g: "length (groups_text ws) \<le> 5 * length ws" if "\<forall>w \<in> set ws. word_ok w" for ws
    using that
  proof (induction ws)
    case (Cons w ws)
    then show ?case using fmt_x_word(5) [of w] by (simp add: groups_text_Cons)
  qed (simp add: groups_text_def)
  show "length (groups_text ws) \<le> 5 * length ws" by (rule g [OF assms])
  show "length (post_text ws) \<le> 5 * length ws"
  proof (cases ws rule: rev_cases)
    case (snoc xs x)
    then show ?thesis using g [of xs] fmt_x_word(5) [of x] assms by (simp add: post_text_def)
  qed (simp add: post_text_def)
qed

lemma bits_tail_length: "0 \<le> bits \<Longrightarrow> bits \<le> 128 \<Longrightarrow> length (bits_tail bits) \<le> 4"
  using fmt_u_length [of bits] by (simp add: bits_tail_def)

lemma after_run_length:
  assumes a: "bytes_ok 16 a" and bl: "0 \<le> b" "2 \<le> l" "b + l \<le> 8"
  shows "length (after_run a (words_of a) (b, l)) \<le> 30"
proof -
  note w = words_bytes_words_of [OF a]
  have ok: "\<forall>w \<in> set (take i (drop j (words_of a))). word_ok w" "\<forall>w \<in> set (drop j (words_of a)). word_ok w" for i j
    using w(2) by (auto dest: in_set_takeD in_set_dropD)
  have g: "length (groups_text (take (6 - nat l) (drop (nat l) (words_of a)))) \<le> 5" if "dotted (b, l) (words_of a)"
  proof -
    have "5 \<le> nat l" using that by (auto simp: dotted_def)
    then show ?thesis using v6_text_length(1) [OF ok(1), of "6 - nat l" "nat l"] w(1) by simp
  qed
  have "length (fmt_u (a ! k)) \<le> 3" if "k < 16" for k
  proof (rule fmt_u_length)
    have "a ! k \<in> set a" using that a by (simp add: bytes_ok_def)
    then show "0 \<le> a ! k" "a ! k < 1000" using a by (auto simp: bytes_ok_def digits_ok_def)
  qed
  from this [of 12] this [of 13] this [of 14] this [of 15]
  have "length (v4_text (a ! 12) (a ! 13) (a ! 14) (a ! 15)) \<le> 15" by (simp add: v4_text_def)
  moreover have "length (post_text (drop (nat (b + l)) (words_of a))) \<le> 30"
    using v6_text_length(2) [OF ok(2), of "nat (b + l)"] w(1) bl by simp
  ultimately show ?thesis using g by (auto simp: after_run_def)
qed

text \<open>The text that is printed in front of the prefix length.\<close>

definition v6_text :: "int list \<Rightarrow> string" where
  "v6_text a = (let ws = words_of a; best = best_run ws in
     if fst best = - 1 then post_text ws else run_text a ws best)"

lemma best_run_cases:
  assumes "bytes_ok 16 a"
  obtains (none) l where "best_run (words_of a) = (- 1, l)"
  | (run) b l where "best_run (words_of a) = (b, l)" "0 \<le> b" "2 \<le> l" "b + l \<le> 8"
      "words_of a = take (nat b) (words_of a) @ replicate (nat l) 0 @ drop (nat (b + l)) (words_of a)"
proof -
  define ws where "ws = words_of a"
  obtain b l where bl: "best_run ws = (b, l)" by (cases "best_run ws")
  have len: "length ws = 8" using words_bytes_words_of(1) [OF assms] by (simp add: ws_def)
  note ok = best_run_ok [OF len, unfolded bl run_ok_def fst_conv snd_conv]
  show thesis
  proof (cases "b = - 1")
    case True
    then show thesis using none bl by (simp add: ws_def)
  next
    case False
    then have c: "0 \<le> b" "2 \<le> l" "b + l \<le> 8" and z: "\<And>k. b \<le> k \<Longrightarrow> k < b + l \<Longrightarrow> ws ! nat k = 0" using ok by auto
    have "take (nat l) (drop (nat b) ws) = replicate (nat l) 0"
    proof (rule nth_equalityI)
      fix i assume "i < length (take (nat l) (drop (nat b) ws))"
      then have "i < nat l" "nat b + i < length ws" by auto
      then show "take (nat l) (drop (nat b) ws) ! i = replicate (nat l) 0 ! i"
        using z [of "b + int i"] c by (simp add: nat_add_distrib)
    qed (use c len in \<open>simp add: nat_add_distrib\<close>)
    moreover have "ws = take (nat b) ws @ take (nat l) (drop (nat b) ws) @ drop (nat (b + l)) ws"
      using c by (metis append_take_drop_id drop_drop add.commute nat_add_distrib order_trans zero_le_numeral)
    ultimately show thesis using run bl c by (simp add: ws_def)
  qed
qed

lemma groups_text_Nil [simp]: "groups_text [] = []"
  by (simp add: groups_text_def)

lemma ntop_v6:
  assumes "bytes_ok 16 a" "0 \<le> bits" "bits \<le> 128"
  shows "inet_net_ntop_ipv6 a bits tmp_size = Some (v6_text a @ bits_tail bits)"
proof -
  note w = words_bytes_words_of [OF assms(1)] and t = bits_tail_length [OF assms(2,3)]
  have ntop: "inet_net_ntop_ipv6 a bits tmp_size =
      (case v6_format 8 a (words_of a) (b, l) 0 0 of None \<Rightarrow> None
       | Some t \<Rightarrow> let t = t @ (if b \<noteq> - 1 \<and> b + l = 8 then '':'' else []) @ bits_tail bits in
           if length t > 50 then None else Some t)" if "best_run (words_of a) = (b, l)" for b l
    using that assms(2,3) by (simp add: inet_net_ntop_ipv6_def tmp_size_def bits_tail_def Let_def split: option.split)
  from assms(1) show ?thesis
  proof (cases rule: best_run_cases)
    case (none l)
    then show ?thesis using v6_format_no_run [OF w(1)] v6_text_length(2) [OF w(2)] w(1) t
      by (simp add: ntop [OF none] v6_text_def)
  next
    case (run b l)
    let ?r = "run_text a (words_of a) (b, l)"
    have "v6_format 8 a (words_of a) (b, l) 0 0 = Some (if b + l = 8 then butlast ?r else ?r) \<and>
        (b + l = 8 \<longrightarrow> ?r = butlast ?r @ '':'')"
    proof -
      have e: "after_run a (words_of a) (b, l) = []" if "b + l = 8"
        using that w(1) by (auto simp: after_run_def dotted_def post_text_def)
      show ?thesis
        using run w(1) v6_format_run0 [OF assms(1) w(1), of l] v6_format_run [OF w(1), of l b a] e
        by (cases "b = 0") (auto simp: run_text_def butlast_append)
    qed
    moreover have "length ?r \<le> 46"
    proof -
      have "length (groups_text (take (nat b) (words_of a))) \<le> 5 * length (take (nat b) (words_of a))"
        by (rule v6_text_length) (use w(2) in \<open>auto dest: in_set_takeD\<close>)
      moreover have "length (after_run a (words_of a) (b, l)) \<le> 5 * nat (8 - (b + l)) \<or> b = 0"
      proof (rule disjCI)
        assume "b \<noteq> 0"
        moreover have "\<forall>w \<in> set (drop (nat (b + l)) (words_of a)). word_ok w" using w(2) by (auto dest: in_set_dropD)
        ultimately show "length (after_run a (words_of a) (b, l)) \<le> 5 * nat (8 - (b + l))"
          using v6_text_length(2) [of "drop (nat (b + l)) (words_of a)"] w(1) run by (simp add: after_run_def dotted_def nat_diff_distrib)
      qed
      ultimately show ?thesis
        using after_run_length [OF assms(1) run(2-4)] run(2-4) w(1) by (auto simp: run_text_def)
    qed
    ultimately show ?thesis using run(2,1) t
      by (auto simp: ntop [OF run(1)] v6_text_def Let_def)
  qed
qed

lemma pton_v6:
  assumes a: "bytes_ok 16 a" and bits: "0 \<le> bits" "bits \<le> 128"
  shows "inet_cidr_pton_ipv6 (v6_text a @ bits_tail bits) 16 = Some (a, bits)"
proof -
  define ws where "ws = words_of a"
  note w = words_bytes_words_of [OF a, folded ws_def]
  have start: "v6_start tx = at_token [] None tx" for tx by (simp add: v6_start_def at_token_def)
  from a show ?thesis
  proof (cases rule: best_run_cases)
    case (none l)
    obtain c cs where c: "post_text ws = c # cs" "c \<noteq> CHR '':''" using post_hd [OF _ w(2)] w(1) by (cases "ws = []") auto
    have "v6_loop (post_text ws @ bits_tail bits) (at_token [] None (post_text ws @ bits_tail bits)) \<bind> v6_finish = Some (a, bits)"
      using v6_post [OF w(2) _ bits, of "[]" None] w bits a by (simp add: finish_bytes_def bytes_ok_def)
    then show ?thesis using none c
      by (simp add: inet_cidr_pton_ipv6_def v6_text_def ws_def [symmetric] Let_def start del: v6_loop.simps)
  next
    case (run b l)
    define pre post where "pre = take (nat b) ws" and "post = drop (nat (b + l)) ws"
    define rest where "rest = after_run a ws (b, l) @ bits_tail bits"
    define src where "src = groups_text pre @ CHR '':'' # rest"
    have pre: "\<forall>w \<in> set pre. word_ok w" "length pre = nat b" using w(1,2) run by (auto simp: pre_def dest: in_set_takeD)
    have post: "length post = 8 - nat (b + l)" using w(1) by (simp add: post_def)
    have split: "ws = pre @ replicate (nat l) 0 @ post" using run(5) by (simp add: ws_def pre_def post_def)
    have "v6_loop src (at_token [] None src) \<bind> v6_finish = finish_bytes (words_bytes pre @ words_bytes post) (Some (2 * nat b)) bits"
      using v6_double_colon [OF pre(1), of rest] v6_after_run [OF a run(2-4) bits, of "words_bytes pre" "Some (2 * nat b)"] pre(2) run
      by (simp add: src_def rest_def ws_def [symmetric] post_def)
    also have "\<dots> = Some (words_bytes pre @ replicate (2 * nat l) 0 @ words_bytes post, bits)"
    proof -
      have "nat (b + l) = nat b + nat l" "nat b + nat l \<le> 8" "2 \<le> nat l" using run(2-4) by auto
      then show ?thesis using pre(2) post by (simp add: finish_bytes_def) arith
    qed
    also have "words_bytes pre @ replicate (2 * nat l) 0 @ words_bytes post = a"
      unfolding w(3) [symmetric] split by (simp add: words_bytes_zero)
    finally have r: "v6_loop src (at_token [] None src) \<bind> v6_finish = Some (a, bits)" .
    have tx: "v6_text a @ bits_tail bits = (if b = 0 then '':'' else []) @ src"
      using run by (simp add: v6_text_def run_text_def Let_def ws_def [symmetric] src_def pre_def rest_def)
    show ?thesis
    proof (cases "b = 0")
      case True
      then show ?thesis unfolding tx using r pre
        by (simp add: inet_cidr_pton_ipv6_def start src_def groups_text_def del: v6_loop.simps)
    next
      case False
      then obtain c cs where "src = c # cs" "c \<noteq> CHR '':''" 
        using groups_hd [OF _ pre(1)] pre(2) run(2) by (cases "pre = []") (auto simp: src_def)
      then show ?thesis unfolding tx using r False
        by (simp add: inet_cidr_pton_ipv6_def start del: v6_loop.simps)
    qed
  qed
qed

text \<open>
  C18: The text that \<open>inet_net_ntop_ipv6\<close> prints for an IPv6 address and a prefix length fits
  its buffer, and \<open>inet_cidr_pton_ipv6\<close> reads it back to the same sixteen bytes and the same
  length: with any run of zero words as a double colon, and with the last four bytes in
  dotted form.
\<close>

theorem ipv6_roundtrip:
  assumes "bytes_ok 16 a" "0 \<le> bits" "bits \<le> 128"
  shows "\<exists>t. inet_net_ntop_ipv6 a bits tmp_size = Some t \<and> inet_cidr_pton_ipv6 t 16 = Some (a, bits)"
  using ntop_v6 [OF assms] pton_v6 [OF assms] by blast

theorem ipv6_roundtrip_witness:
  "inet_net_ntop_ipv6 [0,0,0,0,0,0,0,0,0,0,255,255,192,168,1,5] 120 tmp_size = Some ''::ffff:192.168.1.5/120'' \<and>
   (\<exists>t. inet_net_ntop_ipv6 [0,0,0,0,0,0,0,0,0,0,255,255,192,168,1,5] 120 tmp_size = Some t \<and>
     inet_cidr_pton_ipv6 t 16 = Some ([0,0,0,0,0,0,0,0,0,0,255,255,192,168,1,5], 120))"
proof (rule conjI)
  show "inet_net_ntop_ipv6 [0,0,0,0,0,0,0,0,0,0,255,255,192,168,1,5] 120 tmp_size = Some ''::ffff:192.168.1.5/120''"
    by code_simp
qed (rule ipv6_roundtrip; simp add: bytes_ok_def)

lemma v6_text_colon:
  assumes "bytes_ok 16 a"
  shows "CHR '':'' \<in> set (v6_text a)"
  using assms
proof (cases rule: best_run_cases)
  case (none l)
  have "length (words_of a) = 8" by (rule words_bytes_words_of [OF assms])
  then show ?thesis by (rule eight_words) (use none in \<open>simp add: v6_text_def post_text_def groups_text_def\<close>)
qed (auto simp: v6_text_def run_text_def Let_def)

text \<open>
  Class \<open>inet\<close> prints every IPv6 address, but its constructor takes the text back only
  when the prefix length is at most 32: any longer one, so every host address, is refused as
  invalid syntax, because the limit \<open>(PGSQL_AF_INET ? 32 : 128)\<close> does not depend on the
  family.
\<close>

theorem inet_ipv6_limit:
  assumes "bytes_ok 16 a" "0 \<le> bits" "bits \<le> 128"
  shows "\<exists>t. inet_to_string \<lparr> na_family = Pq_net_family_inet6, na_bits = bits, na_ipaddr = a \<rparr> = Inr t \<and>
    inet_of_string t =
      (if bits \<le> 32 then Inr \<lparr> na_family = Pq_net_family_inet6, na_bits = bits, na_ipaddr = a \<rparr>
       else Inl (PqException ''invalid input syntax for type inet''))"
proof (intro exI conjI)
  let ?t = "v6_text a @ bits_tail bits"
  show "inet_to_string \<lparr> na_family = Pq_net_family_inet6, na_bits = bits, na_ipaddr = a \<rparr> = Inr ?t"
    using ntop_v6 [OF assms] by (simp add: inet_to_string_def inet_net_ntop_def)
  have "af_of ?t = Pq_net_family_inet6" using v6_text_colon [OF assms(1)] by (simp add: af_of_def)
  moreover have "inet_net_pton Pq_net_family_inet6 ?t None = Some (a, bits)"
    using pton_v6 [OF assms] by (simp add: inet_net_pton_def inet_net_pton_ipv6_def)
  moreover have "u8_bits (Some (a, bits)) = bits" using assms by (simp add: u8_bits_def)
  moreover have "pad 16 a = a" using assms(1) by (simp add: pad_def bytes_ok_def)
  ultimately show "inet_of_string ?t = (if bits \<le> 32 then Inr \<lparr> na_family = Pq_net_family_inet6, na_bits = bits, na_ipaddr = a \<rparr>
       else Inl (PqException ''invalid input syntax for type inet''))"
    using assms(2) by (simp add: inet_of_string_def Let_def)
qed

theorem inet_ipv6_limit_witness:
  "inet_of_string ''::1'' = Inl (PqException ''invalid input syntax for type inet'') \<and>
   (\<exists>t. inet_to_string \<lparr> na_family = Pq_net_family_inet6, na_bits = 128, na_ipaddr = replicate 15 0 @ [1] \<rparr> = Inr t \<and>
    inet_of_string t =
      (if (128::int) \<le> 32 then Inr \<lparr> na_family = Pq_net_family_inet6, na_bits = 128, na_ipaddr = replicate 15 0 @ [1] \<rparr>
       else Inl (PqException ''invalid input syntax for type inet'')))"
proof (rule conjI)
  show "inet_of_string ''::1'' = Inl (PqException ''invalid input syntax for type inet'')" by code_simp
qed (rule inet_ipv6_limit; simp add: bytes_ok_def)

end
