(* ===== verification/Net_Mac.thy ===== *)
theory Net_Mac
  imports Net_Addr
begin

text \<open>
  MAC addresses: classes \<open>macaddr\<close> and \<open>macaddr8\<close> of \<open>pg_type_net_def.h\<close> and
  \<open>pg_type_net_def.cpp\<close>, with the \<open>sscanf\<close> formats of the first and the hand-written parser
  of the second, and their order. An address is the list of its bytes in the order of the
  members.
\<close>

section \<open>The conversions of sscanf\<close>

text \<open>
  \<open>%x\<close> and \<open>%2x\<close> skip white space and take an optional sign, an optional \<open>0x\<close> and
  hexadecimal digits, all counted in the width, and store as \<open>strtoul\<close> does: saturating at
  64 bits, negated for a minus sign, cut to the 32 bits of the destination. An item without a
  digit is a matching failure (None). \<open>None\<close> as a width is no limit.
\<close>

datatype directive = Hex "nat option" | Lit char | Junk1

primrec hex_digits :: "string \<Rightarrow> int \<Rightarrow> int \<times> string" where
  "hex_digits [] val = (val, [])"
| "hex_digits (c # cs) val =
    (case hex_value c of None \<Rightarrow> (val, c # cs) | Some n \<Rightarrow> hex_digits cs (val * 16 + n))"

definition skip_space :: "string \<Rightarrow> string" where
  "skip_space src = dropWhile c_isspace src"

definition scan_hex :: "nat option \<Rightarrow> string \<Rightarrow> (int \<times> string) option" where
  "scan_hex width src =
    (let src = skip_space src;
         field = (case width of None \<Rightarrow> src | Some w \<Rightarrow> take w src);
         over = (case width of None \<Rightarrow> [] | Some w \<Rightarrow> drop w src);
         neg = (field \<noteq> [] \<and> hd field = CHR ''-'');
         field = (if field \<noteq> [] \<and> (hd field = CHR ''-'' \<or> hd field = CHR ''+'') then tl field else field);
         field = (if length field \<ge> 2 \<and> hd field = CHR ''0'' \<and> (field ! 1 = CHR ''x'' \<or> field ! 1 = CHR ''X'')
                  then drop 2 field else field) in
     if field = [] \<or> hex_value (hd field) = None then None
     else
       let (val, rest) = hex_digits field 0;
           val = (if val > 2 ^ 64 - 1 then 2 ^ 64 - 1 else if neg then - val else val) in
       Some (i32 val, rest @ over))"

text \<open>
  The number of conversions that were assigned, and the values of the hexadecimal ones in
  order. \<open>%1s\<close> is assigned when a character that is not white space follows.
\<close>

primrec sscanf :: "directive list \<Rightarrow> string \<Rightarrow> int list \<Rightarrow> nat \<times> int list" where
  "sscanf [] src vals = (length vals, vals)"
| "sscanf (f # fs) src vals =
    (case f of
       Hex w \<Rightarrow>
         (case scan_hex w src of
            None \<Rightarrow> (length vals, vals)
          | Some (v, rest) \<Rightarrow> sscanf fs rest (vals @ [v]))
     | Lit c \<Rightarrow> if src \<noteq> [] \<and> hd src = c then sscanf fs (tl src) vals else (length vals, vals)
     | Junk1 \<Rightarrow> if skip_space src = [] then (length vals, vals) else (Suc (length vals), vals))"

section \<open>macaddr\<close>

definition mac_formats :: "directive list list" where
  "mac_formats =
    (let x = Hex None; y = Hex (Some 2); c = Lit CHR '':''; m = Lit CHR ''-''; p = Lit CHR ''.'' in
     [[x, c, x, c, x, c, x, c, x, c, x, Junk1],
      [x, m, x, m, x, m, x, m, x, m, x, Junk1],
      [y, y, y, c, y, y, y, Junk1],
      [y, y, y, m, y, y, y, Junk1],
      [y, y, p, y, y, p, y, y, Junk1],
      [y, y, m, y, y, m, y, y, Junk1],
      [y, y, y, y, y, y, Junk1]])"

text \<open>The formats are tried until one assigns exactly six conversions.\<close>

primrec try_formats :: "directive list list \<Rightarrow> string \<Rightarrow> int list option" where
  "try_formats [] str = None"
| "try_formats (f # fs) str =
    (let (count, vals) = sscanf f str [] in if count = 6 then Some vals else try_formats fs str)"

definition macaddr_of_string :: "string \<Rightarrow> int list result" where
  "macaddr_of_string str =
    (case try_formats mac_formats str of
       None \<Rightarrow> Inl (PqException ''invalid input syntax for type macaddr'')
     | Some vals \<Rightarrow>
         if \<exists>v \<in> set vals. v < 0 \<or> v > 255
         then Inl (PqException (''invalid octet value in '' @ [CHR 0x22] @ ''macaddr'' @ [CHR 0x22]))
         else Inr vals)"

primrec colon_join :: "int list \<Rightarrow> string" where
  "colon_join [] = []"
| "colon_join (b # bs) = fmt_02x b @ (if bs = [] then [] else '':'' @ colon_join bs)"

text \<open>The format strings of both classes print every byte with \<open>%02x\<close>, colons between.\<close>

definition macaddr_to_string :: "int list \<Rightarrow> string" where
  "macaddr_to_string m = colon_join m"

definition macaddr_hibits :: "int list \<Rightarrow> int" where
  "macaddr_hibits m = m ! 0 * 2 ^ 16 + m ! 1 * 2 ^ 8 + m ! 2"

definition macaddr_lobits :: "int list \<Rightarrow> int" where
  "macaddr_lobits m = m ! 3 * 2 ^ 16 + m ! 4 * 2 ^ 8 + m ! 5"

definition macaddr_cmp_internal :: "int list \<Rightarrow> int list \<Rightarrow> int" where
  "macaddr_cmp_internal a1 a2 =
    (if macaddr_hibits a1 < macaddr_hibits a2 then - 1
     else if macaddr_hibits a1 > macaddr_hibits a2 then 1
     else if macaddr_lobits a1 < macaddr_lobits a2 then - 1
     else if macaddr_lobits a1 > macaddr_lobits a2 then 1
     else 0)"

section \<open>macaddr8\<close>

definition invalid_macaddr8 :: pq_error where
  "invalid_macaddr8 = PqException ''invalid input syntax for type macaddr8''"

text \<open>\<open>hex2_to_uchar\<close> looks both digits up in a table of the ASCII characters.\<close>

definition hex2_to_uchar :: "char \<Rightarrow> char \<Rightarrow> int result" where
  "hex2_to_uchar c1 c2 =
    (case (hex_value c1, hex_value c2) of
       (Some h, Some l) \<Rightarrow> Inr (h * 16 + l)
     | _ \<Rightarrow> Inl invalid_macaddr8)"

definition is_spacer :: "char \<Rightarrow> bool" where
  "is_spacer c \<longleftrightarrow> c = CHR '':'' \<or> c = CHR ''-'' \<or> c = CHR ''.''"

text \<open>
  The loop, which ends when fewer than two characters are left: a single character at the
  end is not looked at. The result is the list of bytes that were collected.
\<close>

fun mac8_loop :: "string \<Rightarrow> int list \<Rightarrow> char option \<Rightarrow> int list result" where
  "mac8_loop (c1 # c2 # ptr) bytes spacer =
    (if length bytes = 8 then Inl invalid_macaddr8
     else bind_result (hex2_to_uchar c1 c2) (\<lambda>b.
       let bytes = bytes @ [b] in
       if ptr \<noteq> [] \<and> is_spacer (hd ptr) \<and> spacer \<noteq> None \<and> spacer \<noteq> Some (hd ptr) then Inl invalid_macaddr8
       else
         let spaced = (ptr \<noteq> [] \<and> is_spacer (hd ptr));
             spacer = (if spaced then Some (hd ptr) else spacer);
             ptr = (if spaced then tl ptr else ptr) in
         if (length bytes = 6 \<or> length bytes = 8) \<and> ptr \<noteq> [] \<and> c_isspace (hd ptr) then
           if skip_space ptr \<noteq> [] then Inl invalid_macaddr8 else Inr bytes
         else mac8_loop ptr bytes spacer))"
| "mac8_loop ptr bytes spacer = Inr bytes"

definition macaddr8_of_string :: "string \<Rightarrow> int list result" where
  "macaddr8_of_string str =
    bind_result (mac8_loop (skip_space str) [] None) (\<lambda>bytes.
      if length bytes = 6 then Inr (take 3 bytes @ [255, 254] @ drop 3 bytes)
      else if length bytes \<noteq> 8 then Inl invalid_macaddr8
      else Inr bytes)"

definition macaddr8_to_string :: "int list \<Rightarrow> string" where
  "macaddr8_to_string m = colon_join m"

text \<open>
  The shift by 24 is made in \<open>int\<close>, so a first byte from 128 on gives a negative number that
  the conversion to \<open>unsigned long\<close> extends to 64 bits.
\<close>

definition word_bits :: "int \<Rightarrow> int \<Rightarrow> int \<Rightarrow> int \<Rightarrow> int" where
  "word_bits a b c d = i32 (a * 2 ^ 24 + b * 2 ^ 16 + c * 2 ^ 8 + d) mod 2 ^ 64"

definition macaddr8_hibits :: "int list \<Rightarrow> int" where
  "macaddr8_hibits m = word_bits (m ! 0) (m ! 1) (m ! 2) (m ! 3)"

definition macaddr8_lobits :: "int list \<Rightarrow> int" where
  "macaddr8_lobits m = word_bits (m ! 4) (m ! 5) (m ! 6) (m ! 7)"

definition macaddr8_cmp_internal :: "int list \<Rightarrow> int list \<Rightarrow> int" where
  "macaddr8_cmp_internal a1 a2 =
    (if macaddr8_hibits a1 < macaddr8_hibits a2 then - 1
     else if macaddr8_hibits a1 > macaddr8_hibits a2 then 1
     else if macaddr8_lobits a1 < macaddr8_lobits a2 then - 1
     else if macaddr8_lobits a1 > macaddr8_lobits a2 then 1
     else 0)"

section \<open>The operators\<close>

definition macaddr_eq :: "int list \<Rightarrow> int list \<Rightarrow> bool" where "macaddr_eq a b \<longleftrightarrow> macaddr_cmp_internal a b = 0"
definition macaddr_ne :: "int list \<Rightarrow> int list \<Rightarrow> bool" where "macaddr_ne a b \<longleftrightarrow> macaddr_cmp_internal a b \<noteq> 0"
definition macaddr_lt :: "int list \<Rightarrow> int list \<Rightarrow> bool" where "macaddr_lt a b \<longleftrightarrow> macaddr_cmp_internal a b < 0"
definition macaddr_gt :: "int list \<Rightarrow> int list \<Rightarrow> bool" where "macaddr_gt a b \<longleftrightarrow> macaddr_cmp_internal a b > 0"
definition macaddr_le :: "int list \<Rightarrow> int list \<Rightarrow> bool" where "macaddr_le a b \<longleftrightarrow> macaddr_cmp_internal a b \<le> 0"
definition macaddr_ge :: "int list \<Rightarrow> int list \<Rightarrow> bool" where "macaddr_ge a b \<longleftrightarrow> macaddr_cmp_internal a b \<ge> 0"

definition macaddr8_eq :: "int list \<Rightarrow> int list \<Rightarrow> bool" where "macaddr8_eq a b \<longleftrightarrow> macaddr8_cmp_internal a b = 0"
definition macaddr8_ne :: "int list \<Rightarrow> int list \<Rightarrow> bool" where "macaddr8_ne a b \<longleftrightarrow> macaddr8_cmp_internal a b \<noteq> 0"
definition macaddr8_lt :: "int list \<Rightarrow> int list \<Rightarrow> bool" where "macaddr8_lt a b \<longleftrightarrow> macaddr8_cmp_internal a b < 0"
definition macaddr8_gt :: "int list \<Rightarrow> int list \<Rightarrow> bool" where "macaddr8_gt a b \<longleftrightarrow> macaddr8_cmp_internal a b > 0"
definition macaddr8_le :: "int list \<Rightarrow> int list \<Rightarrow> bool" where "macaddr8_le a b \<longleftrightarrow> macaddr8_cmp_internal a b \<le> 0"
definition macaddr8_ge :: "int list \<Rightarrow> int list \<Rightarrow> bool" where "macaddr8_ge a b \<longleftrightarrow> macaddr8_cmp_internal a b \<ge> 0"

section \<open>The order\<close>

lemma sign_extend_mono:
  assumes "0 \<le> u" "u < 2 ^ 32" "0 \<le> v" "v < 2 ^ 32"
  shows "i32 u mod 2 ^ 64 < i32 v mod 2 ^ 64 \<longleftrightarrow> u < v"
proof -
  have "i32 w mod 2 ^ 64 = (if w < 2 ^ 31 then w else w + (2 ^ 64 - 2 ^ 32))" if "0 \<le> w" "w < 2 ^ 32" for w :: int
  proof (cases "w < 2 ^ 31")
    case True
    then show ?thesis using that by (simp add: i32_id)
  next
    case False
    have "(w + 2147483648) mod 4294967296 = (w - 2147483648) mod 4294967296"
      using mod_add_self2 [of "w - 2147483648" 4294967296] by (simp add: add.commute)
    also have "\<dots> = w - 2147483648" using that False by (intro mod_pos_pos_trivial) auto
    finally have "i32 w = w - 2 ^ 32" by (simp add: wrap_s_def)
    then have "i32 w mod 2 ^ 64 = (w - 2 ^ 32 + 2 ^ 64) mod 2 ^ 64" by (simp only: mod_add_self2)
    also have "\<dots> = w - 2 ^ 32 + 2 ^ 64" using that by (intro mod_pos_pos_trivial) auto
    finally show ?thesis using False by simp
  qed
  then show ?thesis using assms by auto
qed

lemma split_order:
  assumes "bytes_ok (2 * n) a" "bytes_ok (2 * n) b"
    and "f a < f b \<longleftrightarrow> bval 256 (take n a) < bval 256 (take n b)" "f b < f a \<longleftrightarrow> bval 256 (take n b) < bval 256 (take n a)"
    and "g a < g b \<longleftrightarrow> bval 256 (drop n a) < bval 256 (drop n b)" "g b < g a \<longleftrightarrow> bval 256 (drop n b) < bval 256 (drop n a)"
  shows "sign_order (if f a < f b then - 1 else if f b < f a then 1 else if g a < g b then - 1 else if g b < g a then 1 else 0) a b"
proof -
  have ok: "digits_ok 256 (take n a)" "digits_ok 256 (take n b)" "digits_ok 256 (drop n a)" "digits_ok 256 (drop n b)"
    and len: "length (take n a) = length (take n b)" "length (drop n a) = length (drop n b)"
    using assms(1,2) by (simp_all add: bytes_ok_def digits_ok_take digits_ok_drop)
  have s: "a < b \<longleftrightarrow> take n a < take n b \<or> take n a = take n b \<and> drop n a < drop n b"
    "b < a \<longleftrightarrow> take n b < take n a \<or> take n b = take n a \<and> drop n b < drop n a"
    using lex_append [OF len(1), of "drop n a" "drop n b"] lex_append [OF len(1) [symmetric], of "drop n b" "drop n a"] by simp_all
  note l = lex_bval [OF ok(1,2) len(1)] lex_bval [OF ok(2,1) len(1) [symmetric]] lex_bval [OF ok(3,4) len(2)] lex_bval [OF ok(4,3) len(2) [symmetric]]
  show ?thesis
    unfolding sign_order_def s assms(3-6) using l
    by (cases "take n a" "take n b" rule: linorder_cases; cases "drop n a" "drop n b" rule: linorder_cases) auto
qed

lemma mac_cmp_order:
  assumes "bytes_ok 6 a" "bytes_ok 6 b"
  shows "sign_order (macaddr_cmp_internal a b) a b"
proof -
  have hi: "macaddr_hibits m = bval 256 (take 3 m)" and lo: "macaddr_lobits m = bval 256 (drop 3 m)"
    if "bytes_ok 6 m" for m
  proof -
    have "take 3 m = [m ! 0, m ! 1, m ! 2]" "drop 3 m = [m ! 3, m ! 4, m ! 5]"
      using that by (intro nth_equalityI; auto simp: bytes_ok_def less_Suc_eq numeral_eq_Suc nth_Cons')+
    then show "macaddr_hibits m = bval 256 (take 3 m)" "macaddr_lobits m = bval 256 (drop 3 m)"
      by (simp_all add: macaddr_hibits_def macaddr_lobits_def)
  qed
  show ?thesis unfolding macaddr_cmp_internal_def
    by (rule split_order [of 3]) (use assms in \<open>simp_all add: hi lo\<close>)
qed

lemma word_bits_bval:
  assumes "digits_ok 256 [a, b, c, d]" "digits_ok 256 [a', b', c', d']"
  shows "word_bits a b c d < word_bits a' b' c' d' \<longleftrightarrow> bval 256 [a, b, c, d] < bval 256 [a', b', c', d']"
proof -
  have v: "w * 2 ^ 24 + x * 2 ^ 16 + y * 2 ^ 8 + z = bval 256 [w, x, y, z]" for w x y z :: int by simp
  have r: "0 \<le> bval 256 xs" "bval 256 xs < 2 ^ 32" if "digits_ok 256 xs" "length xs = 4" for xs
    using bval_nonneg [OF that(1)] bval_less [OF that(1)] that(2) by simp_all
  show ?thesis unfolding word_bits_def v using assms by (intro sign_extend_mono r) simp_all
qed

lemma mac8_cmp_order:
  assumes "bytes_ok 8 a" "bytes_ok 8 b"
  shows "sign_order (macaddr8_cmp_internal a b) a b"
proof -
  have t: "take 4 m = [m ! 0, m ! 1, m ! 2, m ! 3]" and d: "drop 4 m = [m ! 4, m ! 5, m ! 6, m ! 7]"
    if "bytes_ok 8 m" for m
    using that by (intro nth_equalityI; auto simp: bytes_ok_def less_Suc_eq numeral_eq_Suc nth_Cons')+
  have ok: "digits_ok 256 (take 4 m)" "digits_ok 256 (drop 4 m)" if "bytes_ok 8 m" for m
    using that by (simp_all add: bytes_ok_def digits_ok_take digits_ok_drop)
  have "macaddr8_hibits x < macaddr8_hibits y \<longleftrightarrow> bval 256 (take 4 x) < bval 256 (take 4 y)"
    "macaddr8_lobits x < macaddr8_lobits y \<longleftrightarrow> bval 256 (drop 4 x) < bval 256 (drop 4 y)"
    if "bytes_ok 8 x" "bytes_ok 8 y" for x y
    using ok [OF that(1)] ok [OF that(2)] unfolding macaddr8_hibits_def macaddr8_lobits_def t [OF that(1)] t [OF that(2)] d [OF that(1)] d [OF that(2)]
    by (auto simp only: word_bits_bval)
  then show ?thesis unfolding macaddr8_cmp_internal_def
    by (intro split_order [of 4]) (use assms in simp_all)
qed

interpretation mac_cmp: cmp_by_key "bytes_ok 6" macaddr_cmp_internal "\<lambda>m. m"
  using mac_cmp_order by unfold_locales (auto simp: sign_order_def)

interpretation mac8_cmp: cmp_by_key "bytes_ok 8" macaddr8_cmp_internal "\<lambda>m. m"
  using mac8_cmp_order by unfold_locales (auto simp: sign_order_def)

text \<open>
  The comparison operators of \<open>macaddr\<close> and \<open>macaddr8\<close> are the lexicographic order of
  the bytes, and equality is equality of all bytes. For \<open>macaddr8\<close> this includes addresses
  whose words have the top bit set, where the shift makes the compared number negative before
  it is converted.
\<close>

theorem mac_order:
  assumes "bytes_ok 6 a" "bytes_ok 6 b" "bytes_ok 8 c" "bytes_ok 8 d"
  shows "(macaddr_lt a b \<longleftrightarrow> a < b) \<and> (macaddr_le a b \<longleftrightarrow> a \<le> b) \<and> (macaddr_gt a b \<longleftrightarrow> b < a) \<and>
    (macaddr_ge a b \<longleftrightarrow> b \<le> a) \<and> (macaddr_eq a b \<longleftrightarrow> a = b) \<and> (macaddr_ne a b \<longleftrightarrow> a \<noteq> b) \<and>
    (macaddr8_lt c d \<longleftrightarrow> c < d) \<and> (macaddr8_le c d \<longleftrightarrow> c \<le> d) \<and> (macaddr8_gt c d \<longleftrightarrow> d < c) \<and>
    (macaddr8_ge c d \<longleftrightarrow> d \<le> c) \<and> (macaddr8_eq c d \<longleftrightarrow> c = d) \<and> (macaddr8_ne c d \<longleftrightarrow> c \<noteq> d)"
  using mac_cmp.cmp_neg [OF assms(1,2)] mac_cmp.cmp_pos [OF assms(1,2)] mac_cmp.cmp_zero [OF assms(1,2)]
    mac8_cmp.cmp_neg [OF assms(3,4)] mac8_cmp.cmp_pos [OF assms(3,4)] mac8_cmp.cmp_zero [OF assms(3,4)]
  by (simp add: macaddr_lt_def macaddr_le_def macaddr_gt_def macaddr_ge_def macaddr_eq_def macaddr_ne_def
      macaddr8_lt_def macaddr8_le_def macaddr8_gt_def macaddr8_ge_def macaddr8_eq_def macaddr8_ne_def not_less [symmetric])

theorem mac_order_witness:
  "macaddr_lt [0, 1, 2, 3, 4, 5] [0, 1, 2, 3, 5, 0] \<and> macaddr8_lt [127, 0, 0, 0, 0, 0, 0, 1] [128, 0, 0, 0, 0, 0, 0, 0]"
  using mac_order [of "[0, 1, 2, 3, 4, 5]" "[0, 1, 2, 3, 5, 0]" "[127, 0, 0, 0, 0, 0, 0, 1]" "[128, 0, 0, 0, 0, 0, 0, 0]"]
  by (simp add: bytes_ok_def)

section \<open>Texts\<close>

lemma hex_char_sep:
  assumes "0 \<le> d" "d < 16"
  shows "hex_char d \<noteq> CHR ''x''" "hex_char d \<noteq> CHR ''X''" "hex_char d \<noteq> CHR ''+''" "\<not> is_spacer (hex_char d)"
proof -
  have "hex_char d \<noteq> c" if "hex_value c = None" for c using hex_char_props(1) [OF assms] that by auto
  from this [of "CHR ''x''"] this [of "CHR ''X''"] this [of "CHR ''+''"] this [of "CHR '':''"] this [of "CHR ''.''"] this [of "CHR ''-''"]
  show "hex_char d \<noteq> CHR ''x''" "hex_char d \<noteq> CHR ''X''" "hex_char d \<noteq> CHR ''+''" "\<not> is_spacer (hex_char d)"
    by (simp_all add: hex_value_def is_spacer_def)
qed

lemma nibbles:
  fixes b :: int
  assumes "0 \<le> b" "b < 256"
  shows "0 \<le> b div 16" "b div 16 < 16" "0 \<le> b mod 16" "b mod 16 < 16" "b div 16 * 16 + b mod 16 = b"
  using assms by auto

lemma scan_hex_byte:
  assumes "0 \<le> b" "b < 256" "rest = [] \<or> hex_value (hd rest) = None"
  shows "scan_hex None (fmt_02x b @ rest) = Some (b, rest)"
proof -
  note n = nibbles [OF assms(1,2)]
  have rest: "hex_digits rest v = (v, rest)" for v using assms(3) by (cases rest) auto
  have "i32 b = b" using assms by (intro i32_id) auto
  then show ?thesis
    using n(5) rest assms(1,2) hex_char_props [OF n(1,2)] hex_char_props [OF n(3,4)] hex_char_sep [OF n(1,2)] hex_char_sep [OF n(3,4)]
    by (simp add: scan_hex_def fmt_02x_byte skip_space_def Let_def)
qed

lemma scan_hex_colon:
  assumes "0 \<le> b" "b < 256"
  shows "scan_hex None (fmt_02x b @ CHR '':'' # rest) = Some (b, CHR '':'' # rest)" "scan_hex None (fmt_02x b) = Some (b, [])"
  using scan_hex_byte [OF assms, of "CHR '':'' # rest"] scan_hex_byte [OF assms, of "[]"] by (simp_all add: hex_value_def)

lemma mac_text_read:
  assumes "digits_ok 256 [a, b, c, d, e, f]"
  shows "macaddr_of_string (macaddr_to_string [a, b, c, d, e, f]) = Inr [a, b, c, d, e, f]"
  using assms scan_hex_colon
  by (simp add: macaddr_of_string_def mac_formats_def macaddr_to_string_def skip_space_def Let_def)

lemma hex2_byte:
  assumes "0 \<le> b" "b < 256"
  shows "hex2_to_uchar (hex_char (b div 16)) (hex_char (b mod 16)) = Inr b"
  using nibbles [OF assms] hex_char_props(1) [of "b div 16"] hex_char_props(1) [of "b mod 16"]
  by (simp add: hex2_to_uchar_def)

lemma mac8_step:
  assumes "0 \<le> b" "b < 256" "length bytes < 8" "sp \<in> {None, Some CHR '':''}" "rest \<noteq> []" "\<not> c_isspace (hd rest)"
  shows "mac8_loop (fmt_02x b @ CHR '':'' # rest) bytes sp = mac8_loop rest (bytes @ [b]) (Some CHR '':'')"
  using assms by (auto simp: fmt_02x_byte hex2_byte is_spacer_def Let_def)

lemma mac8_run:
  "digits_ok 256 bs \<Longrightarrow> bs \<noteq> [] \<Longrightarrow> length bytes + length bs \<le> 8 \<Longrightarrow> sp \<in> {None, Some CHR '':''} \<Longrightarrow>
   mac8_loop (colon_join bs) bytes sp = Inr (bytes @ bs)"
proof (induction bs arbitrary: bytes sp)
  case (Cons b bs)
  then have b: "0 \<le> b" "b < 256" by simp_all
  show ?case
  proof (cases "bs = []")
    case True
    then show ?thesis using Cons.prems b by (simp add: fmt_02x_byte hex2_byte Let_def)
  next
    case False
    have "colon_join bs \<noteq> [] \<and> \<not> c_isspace (hd (colon_join bs))"
    proof -
      obtain x xs where x: "bs = x # xs" using False by (cases bs) auto
      then have "0 \<le> x" "x < 256" using Cons.prems(1) by simp_all
      then show ?thesis using hex_char_props(6) [of "x div 16"] nibbles [of x] by (simp add: x fmt_02x_byte)
    qed
    then have "mac8_loop (colon_join (b # bs)) bytes sp = mac8_loop (colon_join bs) (bytes @ [b]) (Some CHR '':'')"
      using mac8_step [OF b _ Cons.prems(4), of bytes "colon_join bs"] Cons.prems False by simp
    also have "\<dots> = Inr ((bytes @ [b]) @ bs)" using Cons.prems False by (intro Cons.IH) auto
    finally show ?thesis by simp
  qed
qed simp

lemma skip_space_mac:
  assumes "digits_ok 256 bs"
  shows "skip_space (colon_join bs) = colon_join bs"
proof (cases bs)
  case (Cons b xs)
  then have "0 \<le> b" "b < 256" using assms by simp_all
  then show ?thesis using hex_char_props(6) [of "b div 16"] nibbles [of b] Cons by (simp add: fmt_02x_byte skip_space_def)
qed (simp add: skip_space_def)

text \<open>
  MAC addresses survive the text form: what \<open>macaddr\<close> and \<open>macaddr8\<close> print their own
  constructors read back, and \<open>macaddr8\<close> reads the text of a six byte address as its EUI-64
  form, with \<open>ff:fe\<close> in the middle.
\<close>

theorem mac_roundtrip:
  assumes "bytes_ok 6 m" "bytes_ok 8 n"
  shows "macaddr_of_string (macaddr_to_string m) = Inr m \<and> macaddr8_of_string (macaddr8_to_string n) = Inr n \<and>
    macaddr8_of_string (macaddr_to_string m) = Inr (take 3 m @ [255, 254] @ drop 3 m)"
proof (intro conjI)
  have "m = [m ! 0, m ! 1, m ! 2, m ! 3, m ! 4, m ! 5]"
    using assms(1) by (intro nth_equalityI) (auto simp: bytes_ok_def less_Suc_eq numeral_eq_Suc nth_Cons')
  then show "macaddr_of_string (macaddr_to_string m) = Inr m"
    using mac_text_read [of "m ! 0" "m ! 1" "m ! 2" "m ! 3" "m ! 4" "m ! 5"] assms(1) by (simp add: bytes_ok_def)
  have loop: "mac8_loop (skip_space (colon_join bs)) [] None = Inr bs" if "digits_ok 256 bs" "length bs \<in> {6, 8}" for bs
    using mac8_run [OF that(1), of "[]" None] that(2) skip_space_mac [OF that(1)] by (cases "bs = []") auto
  show "macaddr8_of_string (macaddr8_to_string n) = Inr n"
    "macaddr8_of_string (macaddr_to_string m) = Inr (take 3 m @ [255, 254] @ drop 3 m)"
    using loop [of n] loop [of m] assms
    by (auto simp: macaddr8_of_string_def macaddr8_to_string_def macaddr_to_string_def bytes_ok_def)
qed

theorem mac_roundtrip_witness:
  "macaddr_to_string [8, 0, 43, 1, 2, 255] = ''08:00:2b:01:02:ff'' \<and>
   macaddr8_of_string (macaddr_to_string [8, 0, 43, 1, 2, 255]) = Inr [8, 0, 43, 255, 254, 1, 2, 255]"
proof
  show "macaddr_to_string [8, 0, 43, 1, 2, 255] = ''08:00:2b:01:02:ff''" by code_simp
  show "macaddr8_of_string (macaddr_to_string [8, 0, 43, 1, 2, 255]) = Inr [8, 0, 43, 255, 254, 1, 2, 255]"
    using mac_roundtrip [of "[8, 0, 43, 1, 2, 255]" "[0, 0, 0, 0, 0, 0, 0, 0]"] by (simp add: bytes_ok_def)
qed

end
