(* ===== verification/Sql_Split.thy ===== *)
theory Sql_Split
  imports Session C_Chars
begin

text \<open>
  Scripts of several queries: \<open>database_t::split_queries\<close> and \<open>database_t::exec_queries\<close> of
  \<open>database.cpp\<close>. The string functions of the libraries the code calls (\<open>md::trim\<close>,
  \<open>md::replace_substring_copy\<close>, \<open>istarts_with\<close> and \<open>iends_with\<close> of Boost) are arguments.
\<close>

section \<open>Splitting\<close>

record text_lib =
  tl_trim :: "string \<Rightarrow> string"
  tl_replace :: "string \<Rightarrow> string \<Rightarrow> string \<Rightarrow> string"
  tl_istarts_with :: "string \<Rightarrow> string \<Rightarrow> bool"
  tl_iends_with :: "string \<Rightarrow> string \<Rightarrow> bool"

record split_state =
  cur_qry :: string
  in_single_quote :: bool
  in_double_quote :: bool
  in_dollar_quote :: bool
  dollar_quote_string :: string
  in_comment :: bool
  in_copy_mode :: bool
  queries :: "string list"

abbreviation newline :: char where "newline \<equiv> CHR 0x0A"
abbreviation creturn :: char where "creturn \<equiv> CHR 0x0D"
abbreviation backslash :: char where "backslash \<equiv> CHR 0x5C"
abbreviation squote :: char where "squote \<equiv> CHR 0x27"
abbreviation dquote :: char where "dquote \<equiv> CHR 0x22"

definition split_init :: split_state where
  "split_init = \<lparr> cur_qry = [], in_single_quote = False, in_double_quote = False, in_dollar_quote = False,
     dollar_quote_string = [], in_comment = False, in_copy_mode = False, queries = [] \<rparr>"

definition add_text :: "string \<Rightarrow> split_state \<Rightarrow> split_state" where
  "add_text t st = st \<lparr> cur_qry := cur_qry st @ t \<rparr>"

text \<open>Whether a query is a \<open>COPY ... FROM STDIN\<close>.\<close>

definition copy_query :: "text_lib \<Rightarrow> string \<Rightarrow> bool" where
  "copy_query lib qry =
    (let cp_qry = tl_replace lib qry [newline] '' '' in
     tl_istarts_with lib cp_qry ''copy '' \<and> tl_iends_with lib cp_qry '' stdin'')"

text \<open>The last character of the script.\<close>

definition split_last :: "text_lib \<Rightarrow> char \<Rightarrow> split_state \<Rightarrow> split_state" where
  "split_last lib c st =
    (let qry = tl_trim lib (if c \<noteq> CHR '';'' then cur_qry st @ [c] else cur_qry st) in
     st \<lparr> cur_qry := qry, queries := (if qry = [] then queries st else queries st @ [qry]) \<rparr>)"

text \<open>The end of a query outside of quotes.\<close>

definition split_semicolon :: "text_lib \<Rightarrow> split_state \<Rightarrow> split_state" where
  "split_semicolon lib st =
    (let qry = tl_trim lib (cur_qry st) in
     st \<lparr> cur_qry := [], in_copy_mode := (in_copy_mode st \<or> qry \<noteq> [] \<and> copy_query lib qry),
        queries := (if qry = [] then queries st else queries st @ [qry]) \<rparr>)"

text \<open>
  The tag that opens a dollar quote: up to and including the next dollar sign, or to the end of
  the script.
\<close>

primrec dollar_tag :: "string \<Rightarrow> string" where
  "dollar_tag [] = []"
| "dollar_tag (c # cs) = (if c = CHR ''$'' then [c] else c # dollar_tag cs)"

text \<open>
  One turn of the loop at character \<open>c\<close> with \<open>rest\<close> behind it, which is not empty. The
  result is the new state and the number of further characters that are skipped.
\<close>

definition split_step :: "text_lib \<Rightarrow> char \<Rightarrow> string \<Rightarrow> split_state \<Rightarrow> split_state \<times> nat" where
  "split_step lib c rest st =
    (let next_char = hd rest in
     if in_comment st then (if c = newline then st \<lparr> in_comment := False \<rparr> else st, 0)
     else if in_single_quote st then
       if c = squote \<and> next_char \<noteq> squote then ((add_text [c] st) \<lparr> in_single_quote := False \<rparr>, 0)
       else if c = squote \<and> next_char = squote then (add_text [c, next_char] st, 1)
       else (add_text [c] st, 0)
     else if in_double_quote st then
       if c = dquote \<and> next_char \<noteq> dquote then ((add_text [c] st) \<lparr> in_double_quote := False \<rparr>, 0)
       else if c = dquote \<and> next_char = dquote then (add_text [c, next_char] st, 1)
       else (add_text [c] st, 0)
     else if in_dollar_quote st then
       (let dq = dollar_quote_string st in
        if c = CHR ''$'' \<and> dq = take (length dq) (c # rest)
        then ((add_text dq st) \<lparr> in_dollar_quote := False \<rparr>, length dq - 1)
        else (add_text [c] st, 0))
     else if in_copy_mode st then
       if (c = newline \<or> c = creturn) \<and> next_char = backslash \<and> tl rest \<noteq> [] \<and> hd (tl rest) = CHR ''.''
       then (st \<lparr> queries := queries st @ [tl_trim lib (cur_qry st)], cur_qry := [], in_copy_mode := False \<rparr>, 2)
       else (add_text [c] st, 0)
     else if c = CHR ''-'' \<and> next_char = CHR ''-'' then (st \<lparr> in_comment := True \<rparr>, 0)
     else if c = CHR ''$'' then
       (let dq = c # dollar_tag rest in
        ((add_text dq st) \<lparr> dollar_quote_string := dq, in_dollar_quote := True \<rparr>, length dq - 1))
     else if c = squote then ((add_text [c] st) \<lparr> in_single_quote := True \<rparr>, 0)
     else if c = dquote then ((add_text [c] st) \<lparr> in_double_quote := True \<rparr>, 0)
     else if c = CHR '';'' then (split_semicolon lib st, 0)
     else (add_text [c] st, 0))"

function split_loop :: "text_lib \<Rightarrow> string \<Rightarrow> split_state \<Rightarrow> split_state" where
  "split_loop lib [] st = st"
| "split_loop lib [c] st = split_last lib c st"
| "split_loop lib (c # d # rest) st =
    split_loop lib (drop (snd (split_step lib c (d # rest) st)) (d # rest)) (fst (split_step lib c (d # rest) st))"
  by pat_completeness auto

termination
  by (relation "measure (\<lambda>(lib, src, st). length src)") auto

definition split_queries :: "text_lib \<Rightarrow> string \<Rightarrow> string list" where
  "split_queries lib sql = queries (split_loop lib sql split_init)"

section \<open>Scripts\<close>

text \<open>
  The reference: a script is a list of items, each the tokens of a query followed by a
  semicolon and, for a \<open>COPY\<close>, the data up to the end mark.
\<close>

datatype sql_token = Plain char | Single string | Double string | Dollar string string | Comment string

primrec double_char :: "char \<Rightarrow> string \<Rightarrow> string" where
  "double_char q [] = []"
| "double_char q (c # cs) = (if c = q then [q, q] else [c]) @ double_char q cs"

definition dollar_mark :: "string \<Rightarrow> string" where
  "dollar_mark tag = ''$'' @ tag @ ''$''"

primrec token_text :: "sql_token \<Rightarrow> string" where
  "token_text (Plain c) = [c]"
| "token_text (Single s) = [squote] @ double_char squote s @ [squote]"
| "token_text (Double s) = [dquote] @ double_char dquote s @ [dquote]"
| "token_text (Dollar tag body) = dollar_mark tag @ body @ dollar_mark tag"
| "token_text (Comment s) = ''--'' @ s @ [newline]"

text \<open>What of a token reaches the server: comments are left out, with the end of their line.\<close>

definition token_query :: "sql_token \<Rightarrow> string" where
  "token_query t = (case t of Comment _ \<Rightarrow> [] | _ \<Rightarrow> token_text t)"

definition tokens_text :: "sql_token list \<Rightarrow> string" where
  "tokens_text ts = concat (map token_text ts)"

definition tokens_query :: "sql_token list \<Rightarrow> string" where
  "tokens_query ts = concat (map token_query ts)"

definition first_at :: "string \<Rightarrow> string \<Rightarrow> bool" where
  "first_at mrk body \<longleftrightarrow> (\<forall>i < length body. take (length mrk) (drop i (body @ mrk)) \<noteq> mrk)"

primrec token_ok :: "sql_token \<Rightarrow> bool" where
  "token_ok (Plain c) \<longleftrightarrow> c \<noteq> squote \<and> c \<noteq> dquote \<and> c \<noteq> CHR ''$'' \<and> c \<noteq> CHR '';''"
| "token_ok (Single s) \<longleftrightarrow> True"
| "token_ok (Double s) \<longleftrightarrow> True"
| "token_ok (Dollar tag body) \<longleftrightarrow> CHR ''$'' \<notin> set tag \<and> first_at (dollar_mark tag) body"
| "token_ok (Comment s) \<longleftrightarrow> newline \<notin> set s"

text \<open>
  Tokens that would be read as one when they stand side by side: two strings in the same
  quotes, and a minus sign in front of another.
\<close>

fun apart :: "sql_token \<Rightarrow> sql_token \<Rightarrow> bool" where
  "apart (Plain c) (Plain d) \<longleftrightarrow> \<not> (c = CHR ''-'' \<and> d = CHR ''-'')"
| "apart (Plain c) (Comment s) \<longleftrightarrow> c \<noteq> CHR ''-''"
| "apart (Single s) (Single t) \<longleftrightarrow> False"
| "apart (Double s) (Double t) \<longleftrightarrow> False"
| "apart t u \<longleftrightarrow> True"

fun tokens_ok :: "sql_token list \<Rightarrow> bool" where
  "tokens_ok (t # u # ts) \<longleftrightarrow> token_ok t \<and> apart t u \<and> tokens_ok (u # ts)"
| "tokens_ok [t] \<longleftrightarrow> token_ok t"
| "tokens_ok [] \<longleftrightarrow> True"

record script_item =
  si_tokens :: "sql_token list"
  si_data :: "string option"

definition end_mark :: string where "end_mark = [newline, backslash, CHR ''.'']"

definition item_text :: "script_item \<Rightarrow> string" where
  "item_text it = tokens_text (si_tokens it) @ '';'' @ (case si_data it of None \<Rightarrow> [] | Some d \<Rightarrow> d @ end_mark)"

definition copy_end :: "string \<Rightarrow> bool" where
  "copy_end s \<longleftrightarrow> length s \<ge> 3 \<and> (s ! 0 = newline \<or> s ! 0 = creturn) \<and> s ! 1 = backslash \<and> s ! 2 = CHR ''.''"

definition data_ok :: "string \<Rightarrow> bool" where
  "data_ok d \<longleftrightarrow> (\<forall>i < length d. \<not> copy_end (drop i (d @ end_mark)))"

text \<open>The queries of an item; the data of a \<open>COPY\<close> is one of them.\<close>

definition item_queries :: "text_lib \<Rightarrow> script_item \<Rightarrow> string list" where
  "item_queries lib it =
    (let qry = tl_trim lib (tokens_query (si_tokens it)) in
     (if qry = [] then [] else [qry]) @ (case si_data it of None \<Rightarrow> [] | Some d \<Rightarrow> [tl_trim lib d]))"

definition item_ok :: "text_lib \<Rightarrow> script_item \<Rightarrow> bool" where
  "item_ok lib it \<longleftrightarrow> tokens_ok (si_tokens it) \<and>
    (let qry = tl_trim lib (tokens_query (si_tokens it)) in
     case si_data it of None \<Rightarrow> qry = [] \<or> \<not> copy_query lib qry
     | Some d \<Rightarrow> qry \<noteq> [] \<and> copy_query lib qry \<and> data_ok d)"

definition neutral :: "split_state \<Rightarrow> bool" where
  "neutral st \<longleftrightarrow> \<not> in_single_quote st \<and> \<not> in_double_quote st \<and> \<not> in_dollar_quote st \<and>
     \<not> in_comment st \<and> \<not> in_copy_mode st"

section \<open>Reading tokens\<close>

lemma split_loop_step:
  "rest \<noteq> [] \<Longrightarrow> split_loop lib (c # rest) st =
    split_loop lib (drop (snd (split_step lib c rest st)) rest) (fst (split_step lib c rest st))"
  by (cases rest) simp_all

lemma add_text_simps [simp]:
  "in_single_quote (add_text t st) = in_single_quote st" "in_double_quote (add_text t st) = in_double_quote st"
  "in_dollar_quote (add_text t st) = in_dollar_quote st" "in_comment (add_text t st) = in_comment st"
  "in_copy_mode (add_text t st) = in_copy_mode st" "dollar_quote_string (add_text t st) = dollar_quote_string st"
  "cur_qry (add_text t st) = cur_qry st @ t" "queries (add_text t st) = queries st"
  "add_text u (add_text t st) = add_text (t @ u) st" "add_text [] st = st"
  by (simp_all add: add_text_def)

lemma keep_dollar [simp]: "(add_text t st) \<lparr> dollar_quote_string := dollar_quote_string st \<rparr> = add_text t st"
  by (simp add: add_text_def)

lemma split_single:
  "in_single_quote st \<Longrightarrow> \<not> in_comment st \<Longrightarrow> rest \<noteq> [] \<Longrightarrow> hd rest \<noteq> squote \<Longrightarrow>
   split_loop lib (double_char squote s @ squote # rest) st =
     split_loop lib rest ((add_text (double_char squote s @ [squote]) st) \<lparr> in_single_quote := False \<rparr>)"
  by (induction s arbitrary: st) (simp_all add: split_loop_step split_step_def Let_def)

lemma split_double:
  "in_double_quote st \<Longrightarrow> \<not> in_comment st \<Longrightarrow> \<not> in_single_quote st \<Longrightarrow> rest \<noteq> [] \<Longrightarrow> hd rest \<noteq> dquote \<Longrightarrow>
   split_loop lib (double_char dquote s @ dquote # rest) st =
     split_loop lib rest ((add_text (double_char dquote s @ [dquote]) st) \<lparr> in_double_quote := False \<rparr>)"
  by (induction s arbitrary: st) (simp_all add: split_loop_step split_step_def Let_def)

lemma split_comment:
  "in_comment st \<Longrightarrow> newline \<notin> set s \<Longrightarrow> rest \<noteq> [] \<Longrightarrow>
   split_loop lib (s @ newline # rest) st = split_loop lib rest (st \<lparr> in_comment := False \<rparr>)"
  by (induction s) (auto simp: split_loop_step split_step_def)

lemma first_at_Cons: "first_at mrk (c # body) \<longleftrightarrow> take (length mrk) (c # body @ mrk) \<noteq> mrk \<and> first_at mrk body"
  by (auto simp: first_at_def less_Suc_eq_0_disj)

lemma split_dollar:
  "in_dollar_quote st \<Longrightarrow> \<not> in_comment st \<Longrightarrow> \<not> in_single_quote st \<Longrightarrow> \<not> in_double_quote st \<Longrightarrow>
   dollar_quote_string st = dq \<Longrightarrow> 2 \<le> length dq \<Longrightarrow> hd dq = CHR ''$'' \<Longrightarrow> first_at dq body \<Longrightarrow>
   split_loop lib (body @ dq @ rest) st =
     split_loop lib rest ((add_text (body @ dq) st) \<lparr> in_dollar_quote := False \<rparr>)"
proof (induction body arbitrary: st)
  case Nil
  obtain m where m: "dq = CHR ''$'' # m" "m \<noteq> []" using Nil.prems(6,7) by (cases dq; cases "tl dq") auto
  then show ?case using Nil.prems by (simp add: split_loop_step split_step_def Let_def)
next
  case (Cons c body)
  have n: "take (length dq) (c # body @ dq @ rest) = take (length dq) (c # body @ dq)"
    using take_append [of "length dq" "c # body @ dq" rest] by simp
  then have ne: "dq \<noteq> take (length dq) (c # body @ dq @ rest)"
    unfolding n using Cons.prems(8) by (auto simp: first_at_Cons)
  define u where "u = body @ dq @ rest"
  have "u \<noteq> []" using Cons.prems(6) by (auto simp: u_def)
  moreover have "split_step lib c u st = (add_text [c] st, 0)"
    using Cons.prems ne [folded u_def] by (simp add: split_step_def Let_def)
  ultimately have "split_loop lib (c # u) st = split_loop lib u (add_text [c] st)"
    by (simp add: split_loop_step)
  then show ?case using Cons.IH [of "add_text [c] st"] Cons.prems by (simp add: first_at_Cons u_def)
qed

lemma reset_quotes:
  "\<not> in_single_quote st \<Longrightarrow>
     (add_text t ((add_text u st) \<lparr> in_single_quote := True \<rparr>)) \<lparr> in_single_quote := False \<rparr> = add_text (u @ t) st"
  "\<not> in_double_quote st \<Longrightarrow>
     (add_text t ((add_text u st) \<lparr> in_double_quote := True \<rparr>)) \<lparr> in_double_quote := False \<rparr> = add_text (u @ t) st"
  "\<not> in_dollar_quote st \<Longrightarrow>
     (add_text t ((add_text u st) \<lparr> dollar_quote_string := dq, in_dollar_quote := True \<rparr>)) \<lparr> in_dollar_quote := False \<rparr>
       = (add_text (u @ t) st) \<lparr> dollar_quote_string := dq \<rparr>"
  "\<not> in_comment st \<Longrightarrow> st \<lparr> in_comment := True, in_comment := False \<rparr> = st"
  by (cases st; simp add: add_text_def)+

lemma dollar_tag_mark: "CHR ''$'' \<notin> set tag \<Longrightarrow> dollar_tag (tag @ CHR ''$'' # rest) = tag @ ''$''"
  by (induction tag) auto

text \<open>A token is read as a whole and leaves the state as it was, with its text added.\<close>

lemma split_token:
  assumes ok: "token_ok t" and st: "neutral st" and rest: "rest \<noteq> []"
    and sep: "\<And>s. t = Single s \<Longrightarrow> hd rest \<noteq> squote" "\<And>s. t = Double s \<Longrightarrow> hd rest \<noteq> dquote"
      "t = Plain CHR ''-'' \<Longrightarrow> hd rest \<noteq> CHR ''-''"
  shows "\<exists>dq. split_loop lib (token_text t @ rest) st =
    split_loop lib rest ((add_text (token_query t) st) \<lparr> dollar_quote_string := dq \<rparr>)"
proof (cases t)
  case (Plain c)
  have "split_loop lib (token_text t @ rest) st = split_loop lib rest (add_text (token_query t) st)"
    using ok st rest sep(3) Plain by (auto simp: split_loop_step split_step_def neutral_def token_query_def)
  then show ?thesis by (intro exI [of _ "dollar_quote_string st"]) simp
next
  case (Single s)
  have "split_loop lib (token_text t @ rest) st =
      split_loop lib (double_char squote s @ squote # rest) ((add_text [squote] st) \<lparr> in_single_quote := True \<rparr>)"
    using st Single by (simp add: split_loop_step split_step_def neutral_def)
  also have "\<dots> = split_loop lib rest (add_text (token_query t) st)"
    using st rest sep(1) Single
    by (subst split_single) (simp_all add: neutral_def token_query_def reset_quotes)
  finally show ?thesis by (intro exI [of _ "dollar_quote_string st"]) simp
next
  case (Double s)
  have "split_loop lib (token_text t @ rest) st =
      split_loop lib (double_char dquote s @ dquote # rest) ((add_text [dquote] st) \<lparr> in_double_quote := True \<rparr>)"
    using st Double by (simp add: split_loop_step split_step_def neutral_def)
  also have "\<dots> = split_loop lib rest (add_text (token_query t) st)"
    using st rest sep(2) Double
    by (subst split_double) (simp_all add: neutral_def token_query_def reset_quotes)
  finally show ?thesis by (intro exI [of _ "dollar_quote_string st"]) simp
next
  case (Dollar tag body)
  have "split_loop lib (token_text t @ rest) st =
      split_loop lib (body @ dollar_mark tag @ rest) ((add_text (dollar_mark tag) st) \<lparr> dollar_quote_string := dollar_mark tag, in_dollar_quote := True \<rparr>)"
    using st ok Dollar dollar_tag_mark [of tag "body @ CHR ''$'' # tag @ CHR ''$'' # rest"]
    by (simp add: split_loop_step split_step_def neutral_def dollar_mark_def Let_def)
  also have "\<dots> = split_loop lib rest ((add_text (token_query t) st) \<lparr> dollar_quote_string := dollar_mark tag \<rparr>)"
    using st ok Dollar
    by (subst split_dollar) (simp_all add: neutral_def token_query_def reset_quotes, simp_all add: dollar_mark_def)
  finally show ?thesis by blast
next
  case (Comment s)
  have "split_loop lib (token_text t @ rest) st = split_loop lib (CHR ''-'' # s @ newline # rest) (st \<lparr> in_comment := True \<rparr>)"
    using st Comment by (simp add: split_loop_step split_step_def neutral_def)
  also have "\<dots> = split_loop lib (s @ newline # rest) (st \<lparr> in_comment := True \<rparr>)"
    by (simp add: split_loop_step split_step_def)
  also have "\<dots> = split_loop lib rest (add_text (token_query t) st)"
    using st ok rest Comment by (subst split_comment) (simp_all add: neutral_def token_query_def reset_quotes [simplified])
  finally show ?thesis by (intro exI [of _ "dollar_quote_string st"]) simp
qed

lemma token_text_nonempty [simp]: "token_text t \<noteq> []"
  by (cases t) (simp_all add: dollar_mark_def)

lemma apart_hd:
  assumes "apart t u" "token_ok u"
  shows "t = Single s \<Longrightarrow> hd (token_text u) \<noteq> squote" "t = Double s \<Longrightarrow> hd (token_text u) \<noteq> dquote"
    "t = Plain CHR ''-'' \<Longrightarrow> hd (token_text u) \<noteq> CHR ''-''"
  using assms by (cases u; auto simp: dollar_mark_def)+

lemma tokens_simps [simp]:
  "tokens_text [] = []" "tokens_text (t # ts) = token_text t @ tokens_text ts"
  "tokens_query [] = []" "tokens_query (t # ts) = token_query t @ tokens_query ts"
  by (simp_all add: tokens_text_def tokens_query_def)

lemma neutral_upd [simp]:
  "neutral (add_text t st) = neutral st" "neutral (st \<lparr> dollar_quote_string := dq \<rparr>) = neutral st"
  by (simp_all add: neutral_def)

lemma split_tokens:
  "tokens_ok ts \<Longrightarrow> neutral st \<Longrightarrow> rest \<noteq> [] \<Longrightarrow>
   hd rest \<noteq> squote \<Longrightarrow> hd rest \<noteq> dquote \<Longrightarrow> hd rest \<noteq> CHR ''-'' \<Longrightarrow>
   \<exists>dq. split_loop lib (tokens_text ts @ rest) st =
     split_loop lib rest ((add_text (tokens_query ts) st) \<lparr> dollar_quote_string := dq \<rparr>)"
proof (induction ts arbitrary: st rule: tokens_ok.induct)
  case (1 t u ts)
  have u: "token_ok u" using 1 by (cases ts) auto
  obtain dq where t: "split_loop lib (token_text t @ tokens_text (u # ts) @ rest) st =
      split_loop lib (tokens_text (u # ts) @ rest) ((add_text (token_query t) st) \<lparr> dollar_quote_string := dq \<rparr>)"
    using split_token [of t st "tokens_text (u # ts) @ rest" lib] 1(2,3) u apart_hd [of t u] by auto
  obtain dq' where "split_loop lib (tokens_text (u # ts) @ rest) ((add_text (token_query t) st) \<lparr> dollar_quote_string := dq \<rparr>) =
      split_loop lib rest ((add_text (tokens_query (u # ts)) ((add_text (token_query t) st) \<lparr> dollar_quote_string := dq \<rparr>))
        \<lparr> dollar_quote_string := dq' \<rparr>)"
    using 1(1) [of "(add_text (token_query t) st) \<lparr> dollar_quote_string := dq \<rparr>"] 1(2-) by fastforce
  then show ?case using t by (intro exI [of _ dq']) (simp add: add_text_def)
next
  case (2 t)
  then show ?case using split_token [of t st rest lib] by auto
next
  case 3
  show ?case using keep_dollar [of st "[]"] by (intro exI [of _ "dollar_quote_string st"]) simp
qed

lemma split_copy:
  "neutral (st \<lparr> in_copy_mode := False \<rparr>) \<Longrightarrow> in_copy_mode st \<Longrightarrow> data_ok d \<Longrightarrow>
   split_loop lib (d @ end_mark @ rest) st =
     split_loop lib rest (st \<lparr> queries := queries st @ [tl_trim lib (cur_qry st @ d)], cur_qry := [], in_copy_mode := False \<rparr>)"
proof (induction d arbitrary: st)
  case Nil
  then show ?case by (simp add: end_mark_def split_loop_step split_step_def neutral_def)
next
  case (Cons c d)
  have d: "data_ok d" "\<not> copy_end (c # d @ end_mark)"
    using Cons.prems(3) by (auto simp: data_ok_def less_Suc_eq_0_disj)
  obtain x y z where xyz: "d @ end_mark = x # y # z"
    by (cases d; cases "tl d") (auto simp: end_mark_def)
  have "\<not> ((c = newline \<or> c = creturn) \<and> x = backslash \<and> y = CHR ''.'')"
    using d(2) unfolding xyz by (simp add: copy_end_def)
  then have "split_step lib c (x # y # z @ rest) st = (add_text [c] st, 0)"
    using Cons.prems(1,2) by (auto simp: split_step_def neutral_def)
  then have "split_loop lib (c # (d @ end_mark) @ rest) st = split_loop lib ((d @ end_mark) @ rest) (add_text [c] st)"
    unfolding xyz by (simp add: split_loop_step)
  then show ?case using Cons.IH [of "add_text [c] st"] Cons.prems(1,2) d(1)
    by (simp add: neutral_def) (simp add: add_text_def)
qed

section \<open>Scripts are split as they are written\<close>

lemma split_item:
  assumes ok: "item_ok lib it" and st: "neutral st" "cur_qry st = []"
  shows "\<exists>st'. neutral st' \<and> cur_qry st' = [] \<and> queries st' = queries st @ item_queries lib it \<and>
    (rest \<noteq> [] \<longrightarrow> split_loop lib (item_text it @ rest) st = split_loop lib rest st') \<and>
    queries (split_loop lib (item_text it) st) = queries st'"
proof -
  define ts qry where "ts = si_tokens it" and "qry = tl_trim lib (tokens_query ts)"
  note defs = ts_def [symmetric] qry_def [symmetric]
  have ts: "tokens_ok ts" using ok by (simp add: item_ok_def ts_def)
  define st1 where "st1 dq = (add_text (tokens_query ts) st) \<lparr> dollar_quote_string := dq \<rparr>" for dq
  have st1: "neutral (st1 dq)" "tl_trim lib (cur_qry (st1 dq)) = qry" "queries (st1 dq) = queries st" for dq
    using st by (simp_all add: st1_def qry_def)
  have toks: "\<exists>dq. split_loop lib (tokens_text ts @ '';'' @ x) st = split_loop lib ('';'' @ x) (st1 dq)" for x
    using split_tokens [OF ts st(1), of "'';'' @ x" lib] by (simp add: st1_def)
  have semi: "split_loop lib ('';'' @ x) (st1 dq) = split_loop lib x (split_semicolon lib (st1 dq))" if "x \<noteq> []" for x dq
    using that st1(1) [of dq] by (simp add: split_loop_step split_step_def neutral_def)
  show ?thesis
  proof (cases "si_data it")
    case None
    then have nc: "qry = [] \<or> \<not> copy_query lib qry" using ok by (simp add: item_ok_def defs)
    have iq: "item_queries lib it = (if qry = [] then [] else [qry])" using None by (simp add: item_queries_def defs)
    have tx: "item_text it = tokens_text ts @ '';''" using None by (simp add: item_text_def defs)
    define st2 where "st2 dq = split_semicolon lib (st1 dq)" for dq
    have st2: "neutral (st2 dq) \<and> cur_qry (st2 dq) = [] \<and> queries (st2 dq) = queries st @ item_queries lib it" for dq
      using st1 [of dq] nc by (simp add: st2_def split_semicolon_def Let_def iq neutral_def)
    obtain dq where dq: "split_loop lib (tokens_text ts @ '';'' @ rest) st = split_loop lib ('';'' @ rest) (st1 dq)"
      using toks by blast
    obtain dq' where dq': "split_loop lib (tokens_text ts @ '';'') st = split_loop lib '';'' (st1 dq')"
      using toks [of "[]"] by auto
    have "queries (split_loop lib '';'' (st1 dq')) = queries st @ item_queries lib it"
      using st1 [of dq'] by (simp add: split_last_def Let_def iq)
    then show ?thesis using st2 [of dq] dq dq' semi [of rest dq] tx by (intro exI [of _ "st2 dq"]) (simp add: st2_def)
  next
    case (Some d)
    then have c: "qry \<noteq> []" "copy_query lib qry" "data_ok d" using ok by (simp_all add: item_ok_def defs)
    have iq: "item_queries lib it = [qry, tl_trim lib d]" using Some c by (simp add: item_queries_def defs)
    have tx: "item_text it @ x = tokens_text ts @ '';'' @ d @ end_mark @ x" for x using Some by (simp add: item_text_def defs)
    define st2 where "st2 dq = split_semicolon lib (st1 dq)" for dq
    define st3 where "st3 dq = (st2 dq) \<lparr> queries := queries (st2 dq) @ [tl_trim lib (cur_qry (st2 dq) @ d)], cur_qry := [], in_copy_mode := False \<rparr>" for dq
    have st2: "neutral ((st2 dq) \<lparr> in_copy_mode := False \<rparr>)" "in_copy_mode (st2 dq)" "queries (st2 dq) = queries st @ [qry]" "cur_qry (st2 dq) = []" for dq
      using st1 [of dq] c by (simp_all add: st2_def split_semicolon_def Let_def neutral_def)
    have "\<exists>dq. split_loop lib (item_text it @ x) st = split_loop lib x (st3 dq)" for x
    proof -
      obtain dq where "split_loop lib (tokens_text ts @ '';'' @ d @ end_mark @ x) st = split_loop lib ('';'' @ d @ end_mark @ x) (st1 dq)"
        using toks by blast
      also have "\<dots> = split_loop lib (d @ end_mark @ x) (st2 dq)"
        unfolding st2_def by (rule semi) (simp add: end_mark_def)
      also have "\<dots> = split_loop lib x (st3 dq)"
        unfolding st3_def by (rule split_copy) (use st2 c in simp_all)
      finally show ?thesis unfolding tx by blast
    qed
    moreover have "neutral (st3 dq) \<and> cur_qry (st3 dq) = [] \<and> queries (st3 dq) = queries st @ item_queries lib it" for dq
      using st2 [of dq] by (simp add: st3_def iq neutral_def)
    moreover from calculation(1) [of "[]"] obtain dq' where "split_loop lib (item_text it) st = st3 dq'" by auto
    ultimately show ?thesis by (metis (no_types, lifting))
  qed
qed

lemma item_text_nonempty [simp]: "item_text it \<noteq> []"
  by (simp add: item_text_def)

lemma split_items:
  "\<forall>it \<in> set its. item_ok lib it \<Longrightarrow> neutral st \<Longrightarrow> cur_qry st = [] \<Longrightarrow>
   queries (split_loop lib (concat (map item_text its)) st) = queries st @ concat (map (item_queries lib) its)"
proof (induction its arbitrary: st)
  case (Cons it its)
  define rest where "rest = concat (map item_text its)"
  obtain st' where st': "neutral st'" "cur_qry st' = []" "queries st' = queries st @ item_queries lib it"
    "rest \<noteq> [] \<longrightarrow> split_loop lib (item_text it @ rest) st = split_loop lib rest st'"
    "queries (split_loop lib (item_text it) st) = queries st'"
    using split_item [of lib it st rest] Cons.prems by auto
  show ?case
  proof (cases "its = []")
    case True
    then show ?thesis using st'(3,5) by simp
  next
    case False
    then have "rest \<noteq> []" by (cases its) (simp_all add: rest_def)
    then show ?thesis using Cons.IH [of st'] Cons.prems st' by (simp add: rest_def)
  qed
qed simp

text \<open>
  C4: \<open>split_queries\<close> splits a script into exactly the queries it is written from: semicolons,
  quotes and comment signs inside string literals, quoted names and dollar quoted bodies do not
  end a query, comments are left out, empty queries are dropped, and the data after a
  \<open>COPY ... FROM STDIN\<close> is one query of its own. Every query is terminated by a semicolon.
\<close>

theorem split_queries_correct:
  assumes "\<forall>it \<in> set its. item_ok lib it"
  shows "split_queries lib (concat (map item_text its)) = concat (map (item_queries lib) its)"
  using split_items [OF assms, of split_init] by (simp add: split_queries_def split_init_def neutral_def)

text \<open>
  The string functions, for examples: white space is removed at both ends, a character is
  replaced, and ends are compared without regard to the case of letters.
\<close>

definition lower :: "char \<Rightarrow> char" where
  "lower c = (let n = of_char c :: int in if 65 \<le> n \<and> n \<le> 90 then char_of (n + 32) else c)"

definition sample_lib :: text_lib where
  "sample_lib = \<lparr> tl_trim = (\<lambda>s. rev (dropWhile c_isspace (rev (dropWhile c_isspace s)))),
     tl_replace = (\<lambda>s a b. concat (map (\<lambda>c. if [c] = a then b else [c]) s)),
     tl_istarts_with = (\<lambda>s p. take (length p) (map lower s) = map lower p),
     tl_iends_with = (\<lambda>s p. take (length p) (rev (map lower s)) = rev (map lower p)) \<rparr>"

definition sample_items :: "script_item list" where
  "sample_items =
    [\<lparr> si_tokens = map Plain ''select '' @ [Single ''a;b'', Comment '' rest''], si_data = None \<rparr>,
     \<lparr> si_tokens = map Plain ''copy t from stdin'', si_data = Some ''1;2'' \<rparr>]"

theorem split_queries_correct_witness:
  "concat (map item_text sample_items) =
     ''select '' @ [squote] @ ''a;b'' @ [squote] @ ''-- rest'' @ [newline] @ '';copy t from stdin;1;2'' @ end_mark \<and>
   split_queries sample_lib (concat (map item_text sample_items)) =
     [''select '' @ [squote] @ ''a;b'' @ [squote], ''copy t from stdin'', ''1;2'']"
proof
  show "concat (map item_text sample_items) =
     ''select '' @ [squote] @ ''a;b'' @ [squote] @ ''-- rest'' @ [newline] @ '';copy t from stdin;1;2'' @ end_mark"
    by code_simp
  have "\<forall>it \<in> set sample_items. item_ok sample_lib it" by code_simp
  then have "split_queries sample_lib (concat (map item_text sample_items)) = concat (map (item_queries sample_lib) sample_items)"
    by (rule split_queries_correct)
  also have "\<dots> = [''select '' @ [squote] @ ''a;b'' @ [squote], ''copy t from stdin'', ''1;2'']" by code_simp
  finally show "split_queries sample_lib (concat (map item_text sample_items)) =
     [''select '' @ [squote] @ ''a;b'' @ [squote], ''copy t from stdin'', ''1;2'']" .
qed

section \<open>The end of a script\<close>

lemma split_items_rest:
  "\<forall>it \<in> set its. item_ok lib it \<Longrightarrow> neutral st \<Longrightarrow> cur_qry st = [] \<Longrightarrow> rest \<noteq> [] \<Longrightarrow>
   \<exists>st'. neutral st' \<and> cur_qry st' = [] \<and> queries st' = queries st @ concat (map (item_queries lib) its) \<and>
     split_loop lib (concat (map item_text its) @ rest) st = split_loop lib rest st'"
proof (induction its arbitrary: st)
  case (Cons it its)
  obtain st1 where st1: "neutral st1" "cur_qry st1 = []" "queries st1 = queries st @ item_queries lib it"
    "split_loop lib (item_text it @ concat (map item_text its) @ rest) st = split_loop lib (concat (map item_text its) @ rest) st1"
    using split_item [of lib it st "concat (map item_text its) @ rest"] Cons.prems by auto
  then show ?case using Cons.IH [of st1] Cons.prems by auto
qed auto

lemma split_comment_end:
  "in_comment st \<Longrightarrow> newline \<notin> set s \<Longrightarrow> split_loop lib (s @ [c]) st = split_last lib c st"
  by (induction s) (auto simp: split_loop_step split_step_def)

lemma split_dollar_end:
  assumes "token_ok (Dollar tag body)" "neutral st"
  shows "queries (split_loop lib (token_text (Dollar tag body)) st) = queries st"
proof -
  have "split_loop lib (token_text (Dollar tag body)) st =
      split_loop lib (body @ dollar_mark tag @ []) ((add_text (dollar_mark tag) st) \<lparr> dollar_quote_string := dollar_mark tag, in_dollar_quote := True \<rparr>)"
    using assms dollar_tag_mark [of tag "body @ CHR ''$'' # tag @ ''$''"]
    by (simp add: split_loop_step split_step_def neutral_def dollar_mark_def Let_def)
  also have "queries \<dots> = queries st"
    using assms by (subst split_dollar) (simp_all add: neutral_def, simp_all add: dollar_mark_def)
  finally show ?thesis .
qed

lemma tokens_ok_append:
  "tokens_ok (ts @ [t]) \<Longrightarrow> tokens_ok ts \<and> token_ok t \<and> (ts \<noteq> [] \<longrightarrow> apart (last ts) t)"
  by (induction ts rule: tokens_ok.induct) (auto split: if_splits)

lemma split_tokens_last:
  assumes "tokens_ok (ts @ [Plain c])" "c \<noteq> CHR ''-''" "neutral st" "cur_qry st = []"
  shows "c \<noteq> CHR '';'' \<and> (\<exists>st'. cur_qry st' = tokens_query ts \<and> queries st' = queries st \<and>
    split_loop lib (tokens_text (ts @ [Plain c])) st = split_loop lib [c] st')"
proof -
  have ok: "tokens_ok ts" "token_ok (Plain c)" using tokens_ok_append [OF assms(1)] by auto
  have tx: "tokens_text (ts @ [Plain c]) = tokens_text ts @ [c]" by (simp add: tokens_text_def)
  obtain dq where "split_loop lib (tokens_text ts @ [c]) st = split_loop lib [c] ((add_text (tokens_query ts) st) \<lparr> dollar_quote_string := dq \<rparr>)"
    using split_tokens [OF ok(1) assms(3), of "[c]" lib] ok(2) assms(2) by auto
  then show ?thesis unfolding tx using ok(2) assms(4)
    by (intro conjI exI [of _ "(add_text (tokens_query ts) st) \<lparr> dollar_quote_string := dq \<rparr>"]) simp_all
qed

text \<open>
  What \<open>split_queries\<close> does with text after the last semicolon of a script. A query that
  ends in a plain character is found. A query that ends with a dollar quoted body is lost: it
  is not among the queries. Of a comment that ends the script without a line feed, the last
  character becomes a query.
\<close>

theorem split_queries_tail:
  assumes its: "\<forall>it \<in> set its. item_ok lib it"
  shows "(tokens_ok (ts @ [Plain c]) \<longrightarrow> c \<noteq> CHR ''-'' \<longrightarrow>
      split_queries lib (concat (map item_text its) @ tokens_text (ts @ [Plain c])) =
        concat (map (item_queries lib) its) @
        (let qry = tl_trim lib (tokens_query (ts @ [Plain c])) in if qry = [] then [] else [qry])) \<and>
    (tokens_ok ts \<longrightarrow> token_ok (Dollar tag body) \<longrightarrow>
      split_queries lib (concat (map item_text its) @ tokens_text (ts @ [Dollar tag body])) =
        concat (map (item_queries lib) its)) \<and>
    (newline \<notin> set s \<longrightarrow>
      split_queries lib (concat (map item_text its) @ ''--'' @ s @ [c]) =
        concat (map (item_queries lib) its) @
        (let qry = tl_trim lib (if c = CHR '';'' then [] else [c]) in if qry = [] then [] else [qry]))"
proof (intro conjI impI)
  have rest: "\<exists>st. neutral st \<and> cur_qry st = [] \<and> queries st = concat (map (item_queries lib) its) \<and>
      split_queries lib (concat (map item_text its) @ r) = queries (split_loop lib r st)" if "r \<noteq> []" for r
    using split_items_rest [OF its, of split_init r] that by (auto simp: split_queries_def split_init_def neutral_def)
  have tok: "tokens_text (ts @ [t]) = tokens_text ts @ token_text t" "tokens_query (ts @ [t]) = tokens_query ts @ token_query t" for t
    by (simp_all add: tokens_text_def tokens_query_def)
  show "split_queries lib (concat (map item_text its) @ tokens_text (ts @ [Dollar tag body])) =
        concat (map (item_queries lib) its)" if d: "tokens_ok ts" "token_ok (Dollar tag body)"
  proof -
    obtain st where st: "neutral st" "queries st = concat (map (item_queries lib) its)"
      "split_queries lib (concat (map item_text its) @ tokens_text (ts @ [Dollar tag body])) =
         queries (split_loop lib (tokens_text (ts @ [Dollar tag body])) st)"
      using rest [of "tokens_text (ts @ [Dollar tag body])"] by (auto simp: tok simp del: token_text.simps)
    obtain dq where "split_loop lib (tokens_text (ts @ [Dollar tag body])) st =
        split_loop lib (token_text (Dollar tag body)) ((add_text (tokens_query ts) st) \<lparr> dollar_quote_string := dq \<rparr>)"
      using split_tokens [OF d(1) st(1), of "token_text (Dollar tag body)" lib] by (auto simp: tok dollar_mark_def)
    then show ?thesis
      using split_dollar_end [OF d(2), of "(add_text (tokens_query ts) st) \<lparr> dollar_quote_string := dq \<rparr>" lib] st by simp
  qed
  show "split_queries lib (concat (map item_text its) @ ''--'' @ s @ [c]) = concat (map (item_queries lib) its) @
        (let qry = tl_trim lib (if c = CHR '';'' then [] else [c]) in if qry = [] then [] else [qry])" if "newline \<notin> set s"
  proof -
    obtain st where st: "neutral st" "cur_qry st = []" "queries st = concat (map (item_queries lib) its)"
      "split_queries lib (concat (map item_text its) @ ''--'' @ s @ [c]) = queries (split_loop lib (''--'' @ s @ [c]) st)"
      using rest [of "''--'' @ s @ [c]"] by auto
    have "split_loop lib (''--'' @ s @ [c]) st = split_last lib c (st \<lparr> in_comment := True \<rparr>)"
      using st(1) that split_comment_end [of "st \<lparr> in_comment := True \<rparr>" s lib c]
      by (simp add: split_loop_step split_step_def neutral_def)
    then show ?thesis using st by (simp add: split_last_def Let_def)
  qed
  show "split_queries lib (concat (map item_text its) @ tokens_text (ts @ [Plain c])) =
        concat (map (item_queries lib) its) @
        (let qry = tl_trim lib (tokens_query (ts @ [Plain c])) in if qry = [] then [] else [qry])" if p: "tokens_ok (ts @ [Plain c])" "c \<noteq> CHR ''-''"
  proof -
    obtain st where st: "neutral st" "cur_qry st = []" "queries st = concat (map (item_queries lib) its)"
      "split_queries lib (concat (map item_text its) @ tokens_text (ts @ [Plain c])) =
         queries (split_loop lib (tokens_text (ts @ [Plain c])) st)"
      using rest [of "tokens_text (ts @ [Plain c])"] by (auto simp: tok)
    obtain st' where st': "cur_qry st' = tokens_query ts" "queries st' = queries st"
      "split_loop lib (tokens_text (ts @ [Plain c])) st = split_loop lib [c] st'"
      using split_tokens_last [OF p st(1,2)] by blast
    then show ?thesis using split_tokens_last [OF p st(1,2)] st st' by (simp add: split_last_def Let_def tok token_query_def)
  qed
qed

theorem split_queries_tail_witness:
  "split_queries sample_lib ''select 1; do $$x$$'' = [''select 1''] \<and>
   split_queries sample_lib ''select 1; do $$x$$;'' = [''select 1'', ''do $$x$$''] \<and>
   split_queries sample_lib ''select 1;--end'' = [''select 1'', ''d'']"
proof (intro conjI)
  let ?it = "\<lparr> si_tokens = map Plain ''select 1'', si_data = None \<rparr>"
  have ok: "\<forall>it \<in> set [?it]. item_ok sample_lib it" by code_simp
  have q: "concat (map (item_queries sample_lib) [?it]) = [''select 1'']" by code_simp
  have t: "concat (map item_text [?it]) = ''select 1;''" by code_simp
  note tail = split_queries_tail [OF ok, where ts = "map Plain '' do ''" and tag = "[]" and body = "''x''" and s = "''en''" and c = "CHR ''d''", unfolded q t]
  have 1: "tokens_ok (map Plain '' do '')" "token_ok (Dollar [] ''x'')" by code_simp+
  have 2: "tokens_text (map Plain '' do '' @ [Dollar [] ''x'']) = '' do $$x$$''" by code_simp
  show "split_queries sample_lib ''select 1; do $$x$$'' = [''select 1'']" using tail 1 unfolding 2 by simp
  have 3: "tl_trim sample_lib (if CHR ''d'' = CHR '';'' then [] else ''d'') = ''d''" by code_simp
  show "split_queries sample_lib ''select 1;--end'' = [''select 1'', ''d'']" using tail unfolding 3 by simp
  show "split_queries sample_lib ''select 1; do $$x$$;'' = [''select 1'', ''do $$x$$'']" by code_simp
qed

end
