(* ===== verification/Sql_Exec.thy ===== *)
theory Sql_Exec
  imports Sql_Split
begin

text \<open>
  Running the queries of a script: \<open>database_t::exec_queries\<close> and the evaluation of the
  status of a result (\<open>_process_execute_result\<close>) of \<open>database.cpp\<close>. What the server
  answers to the query at a position is an argument. The switch of the socket to blocking mode
  and back has no effect on the state that is modelled.
\<close>

section \<open>Answers of the server\<close>

text \<open>The codes of \<open>ExecStatusType\<close> of libpq.\<close>

definition PGRES_EMPTY_QUERY :: int where "PGRES_EMPTY_QUERY = 0"
definition PGRES_COMMAND_OK :: int where "PGRES_COMMAND_OK = 1"
definition PGRES_TUPLES_OK :: int where "PGRES_TUPLES_OK = 2"
definition PGRES_COPY_IN :: int where "PGRES_COPY_IN = 4"
definition PGRES_NONFATAL_ERROR :: int where "PGRES_NONFATAL_ERROR = 6"
definition PGRES_FATAL_ERROR :: int where "PGRES_FATAL_ERROR = 7"
definition PGRES_SINGLE_TUPLE :: int where "PGRES_SINGLE_TUPLE = 9"

lemmas status_defs = PGRES_EMPTY_QUERY_def PGRES_COMMAND_OK_def PGRES_TUPLES_OK_def PGRES_COPY_IN_def
  PGRES_NONFATAL_ERROR_def PGRES_FATAL_ERROR_def PGRES_SINGLE_TUPLE_def

text \<open>
  Status of \<open>PQexec\<close>, results of \<open>PQputCopyData\<close> and \<open>PQputCopyEnd\<close>, status of
  \<open>PQgetResult\<close>, and the text of the error.
\<close>

record answer =
  an_exec :: int
  an_put :: int
  an_end :: int
  an_get :: int
  an_message :: string

text \<open>\<open>(result_status & PGRES_COPY_IN) == PGRES_COPY_IN\<close>: the bit of value 4.\<close>

definition has_copy_bit :: "int \<Rightarrow> bool" where
  "has_copy_bit st \<longleftrightarrow> (st div PGRES_COPY_IN) mod 2 = 1"

definition query_done :: "int \<Rightarrow> bool" where
  "query_done st \<longleftrightarrow> st = PGRES_COMMAND_OK \<or> st = PGRES_TUPLES_OK \<or> st = PGRES_EMPTY_QUERY \<or> st = PGRES_NONFATAL_ERROR"

section \<open>Operations\<close>

datatype sent = Exec string | CopyData string | CopyEnd

text \<open>
  The loop over the queries from position \<open>i\<close> on: the result and what was sent.
  \<open>PQresStatus\<close> of libpq is the argument \<open>res_status\<close>.
\<close>

primrec exec_loop :: "(int \<Rightarrow> string) \<Rightarrow> text_lib \<Rightarrow> (nat \<Rightarrow> answer) \<Rightarrow> nat \<Rightarrow> string list \<Rightarrow> bool \<Rightarrow> unit result \<times> sent list" where
  "exec_loop res_status lib ans i [] copy_mode = (Inr (), [])"
| "exec_loop res_status lib ans i (qry # qs) copy_mode =
    (let a = ans i;
         finish = (\<lambda>tr st.
           if query_done st then map_prod id (append tr) (exec_loop res_status lib ans (Suc i) qs False)
           else (Inl (PqException (res_status st @ '': '' @ an_message a)), tr)) in
     if \<not> copy_mode then
       if has_copy_bit (an_exec a) \<and> copy_query lib qry
       then map_prod id (append [Exec qry]) (exec_loop res_status lib ans (Suc i) qs True)
       else finish [Exec qry] (an_exec a)
     else if an_put a = - 1 then
       (Inl (PqException (''PQputCopyData failed!'' @ [newline] @ an_message a)), [CopyData qry])
     else if an_end a = - 1 then
       (Inl (PqException (''PQputCopyEnd failed!'' @ [newline] @ an_message a)), [CopyData qry, CopyEnd])
     else finish [CopyData qry, CopyEnd] (an_get a))"

text \<open>
  \<open>_conn\<close> is used before \<open>begin\<close> would open it. A throw of the loop leaves the transaction as
  it is.
\<close>

definition exec_queries ::
  "(int \<Rightarrow> string) \<Rightarrow> env \<Rightarrow> int list \<Rightarrow> (int \<Rightarrow> string) \<Rightarrow> text_lib \<Rightarrow> (nat \<Rightarrow> answer) \<Rightarrow> nat \<Rightarrow> string \<Rightarrow> system \<Rightarrow>
   (unit result \<times> sent list \<times> system) option" where
  "exec_queries num_to_str e clk res_status lib ans d sql s =
    (case on_conn d (\<lambda>c. (Inr (), c)) s of
       (Inl err, s) \<Rightarrow> Some (Inl err, [], s)
     | (Inr _, s) \<Rightarrow>
         let local_trans = \<not> db_in_transaction d s in
         case (if local_trans then db_begin num_to_str e clk d s else Some (Inr (), s)) of
           None \<Rightarrow> None
         | Some (Inl err, s) \<Rightarrow> Some (Inl err, [], s)
         | Some (Inr _, s) \<Rightarrow>
             (case exec_loop res_status lib ans 0 (split_queries lib sql) False of
                (Inl err, tr) \<Rightarrow> Some (Inl err, tr, s)
              | (Inr _, tr) \<Rightarrow>
                  if local_trans then (case db_commit e d s of (r, s) \<Rightarrow> Some (r, tr, s))
                  else Some (Inr (), tr, s)))"

text \<open>
  The number of affected rows: \<open>atoi\<close> of the text of \<open>PQcmdTuples\<close> is the argument
  \<open>cmd_tuples\<close>.
\<close>

definition process_execute_result :: "nat \<Rightarrow> int \<Rightarrow> int \<Rightarrow> string \<Rightarrow> system \<Rightarrow> int result" where
  "process_execute_result d result_status cmd_tuples msg s =
    (if db_conn (sys_pool s) d = None then Inl (PqException ''connection is dead!'')
     else if result_status = PGRES_COMMAND_OK \<or> result_status = PGRES_SINGLE_TUPLE \<or> result_status = PGRES_TUPLES_OK
     then Inr cmd_tuples
     else if result_status = PGRES_EMPTY_QUERY \<or> result_status = PGRES_NONFATAL_ERROR then Inr 0
     else Inl (PqException msg))"

section \<open>What is sent\<close>

primrec sent_query :: "sent \<Rightarrow> string list" where
  "sent_query (Exec q) = [q]"
| "sent_query (CopyData q) = [q]"
| "sent_query CopyEnd = []"

definition sent_queries :: "sent list \<Rightarrow> string list" where
  "sent_queries tr = concat (map sent_query tr)"

lemma sent_queries_simps [simp]:
  "sent_queries [] = []" "sent_queries (x # tr) = sent_query x @ sent_queries tr"
  "sent_queries (tr @ tr') = sent_queries tr @ sent_queries tr'"
  by (simp_all add: sent_queries_def)

text \<open>
  What the answers mean, query by query: whether the query at a position is taken for the data of
  the one before it, what is sent for it, and the error it is reported with. A query fails by the
  status it ends with, unless it starts a copy: then the statuses with the bit of value 4 are not
  looked at, those of the errors among them.
\<close>

primrec copy_at :: "text_lib \<Rightarrow> (nat \<Rightarrow> answer) \<Rightarrow> string list \<Rightarrow> nat \<Rightarrow> bool" where
  "copy_at lib ans qs 0 = False"
| "copy_at lib ans qs (Suc k) = (\<not> copy_at lib ans qs k \<and> bit (an_exec (ans k)) 2 \<and> copy_query lib (qs ! k))"

definition sent_at :: "text_lib \<Rightarrow> (nat \<Rightarrow> answer) \<Rightarrow> string list \<Rightarrow> nat \<Rightarrow> sent list" where
  "sent_at lib ans qs k =
    (if \<not> copy_at lib ans qs k then [Exec (qs ! k)]
     else if an_put (ans k) = - 1 then [CopyData (qs ! k)] else [CopyData (qs ! k), CopyEnd])"

definition status_error :: "(int \<Rightarrow> string) \<Rightarrow> int \<Rightarrow> string \<Rightarrow> string option" where
  "status_error res_status st msg = (if st \<in> {0, 1, 2, 6} then None else Some (res_status st @ '': '' @ msg))"

definition error_at :: "(int \<Rightarrow> string) \<Rightarrow> text_lib \<Rightarrow> (nat \<Rightarrow> answer) \<Rightarrow> string list \<Rightarrow> nat \<Rightarrow> string option" where
  "error_at res_status lib ans qs k =
    (let a = ans k in
     if copy_at lib ans qs k then
       if an_put a = - 1 then Some (''PQputCopyData failed!'' @ [newline] @ an_message a)
       else if an_end a = - 1 then Some (''PQputCopyEnd failed!'' @ [newline] @ an_message a)
       else status_error res_status (an_get a) (an_message a)
     else if copy_at lib ans qs (Suc k) then None
     else status_error res_status (an_exec a) (an_message a))"

definition first_error :: "(int \<Rightarrow> string) \<Rightarrow> text_lib \<Rightarrow> (nat \<Rightarrow> answer) \<Rightarrow> string list \<Rightarrow> nat option" where
  "first_error res_status lib ans qs = find (\<lambda>k. error_at res_status lib ans qs k \<noteq> None) [0..<length qs]"

lemma copy_bit: "has_copy_bit st = bit st 2"
  by (simp add: has_copy_bit_def PGRES_COPY_IN_def bit_iff_odd odd_iff_mod_2_eq_one)

lemma query_done_status: "query_done st = (status_error res_status st msg = None)"
  "status_error res_status st msg = Some x \<Longrightarrow> x = res_status st @ '': '' @ msg"
  by (auto simp: query_done_def status_error_def status_defs split: if_splits)

lemma exec_loop_errors:
  assumes "i \<le> length qs"
  shows "exec_loop res_status lib ans i (drop i qs) (copy_at lib ans qs i) =
    (case find (\<lambda>k. error_at res_status lib ans qs k \<noteq> None) [i..<length qs] of
       None \<Rightarrow> (Inr (), concat (map (sent_at lib ans qs) [i..<length qs]))
     | Some k \<Rightarrow> (Inl (PqException (the (error_at res_status lib ans qs k))), concat (map (sent_at lib ans qs) [i..<Suc k])))"
  using assms
proof (induction "length qs - i" arbitrary: i)
  case (Suc n)
  then have i: "i < length qs" "[i..<length qs] = i # [Suc i..<length qs]" by (simp_all add: upt_conv_Cons)
  have later: "i < k" if "find P [Suc i..<length qs] = Some k" for P k using that by (auto simp: find_Some_iff)
  have up: "[i..<Suc k] = i # [Suc i..<Suc k]" if "i < k" for k using that by (simp add: upt_conv_Cons)
  have IH: "exec_loop res_status lib ans (Suc i) (drop (Suc i) qs) (copy_at lib ans qs (Suc i)) =
    (case find (\<lambda>k. error_at res_status lib ans qs k \<noteq> None) [Suc i..<length qs] of
       None \<Rightarrow> (Inr (), concat (map (sent_at lib ans qs) [Suc i..<length qs]))
     | Some k \<Rightarrow> (Inl (PqException (the (error_at res_status lib ans qs k))), concat (map (sent_at lib ans qs) [Suc i..<Suc k])))"
    using Suc.hyps(2) i(1) by (intro Suc.hyps(1)) simp_all
  let ?rest = "exec_loop res_status lib ans (Suc i) (drop (Suc i) qs) (copy_at lib ans qs (Suc i))"
  have step: "exec_loop res_status lib ans i (drop i qs) (copy_at lib ans qs i) =
    (case error_at res_status lib ans qs i of
       None \<Rightarrow> map_prod id (append (sent_at lib ans qs i)) ?rest
     | Some e \<Rightarrow> (Inl (PqException e), sent_at lib ans qs i))"
    using i(1)
    by (auto simp: Cons_nth_drop_Suc [symmetric] copy_bit query_done_status(1) [of _ res_status "an_message (ans i)"]
        error_at_def sent_at_def Let_def dest!: query_done_status(2) split: option.split)
  show ?case
  proof (cases "error_at res_status lib ans qs i")
    case None
    show ?thesis
    proof (cases "find (\<lambda>k. error_at res_status lib ans qs k \<noteq> None) [Suc i..<length qs]")
      case (Some k)
      then show ?thesis using None up [OF later [OF Some]] unfolding step IH i(2) by (simp del: upt_Suc)
    qed (use None in \<open>simp add: step IH i(2) del: copy_at.simps\<close>)
  next
    case (Some e)
    then show ?thesis unfolding step i(2) by simp
  qed
qed simp

lemma exec_loop_result:
  "exec_loop res_status lib ans 0 qs False =
    (case first_error res_status lib ans qs of
       None \<Rightarrow> (Inr (), concat (map (sent_at lib ans qs) [0..<length qs]))
     | Some k \<Rightarrow> (Inl (PqException (the (error_at res_status lib ans qs k))), concat (map (sent_at lib ans qs) [0..<Suc k])))"
  using exec_loop_errors [of 0 qs res_status lib ans] by (simp add: first_error_def)

lemma sent_queries_at: "sent_queries (concat (map (sent_at lib ans qs) ks)) = map ((!) qs) ks"
  by (induction ks) (auto simp: sent_at_def)

lemma on_conn_Inr:
  assumes "on_conn d f s = (Inr x, s')"
  shows "\<exists>p c. db_conn (sys_pool s) d = Some p \<and> conns (sys_pool s) p = Some c \<and> fst (f c) = Inr x \<and>
    db_conn (sys_pool s') d = Some p \<and> conn_at (sys_pool s') p = snd (f c)"
  using assms by (auto simp: on_conn_def upd_conn_def conn_at_def split: option.splits)

lemma on_conn_Inl:
  assumes "on_conn d f s = (Inl err, s')" "\<And>c. c_in_transaction (snd (f c)) = c_in_transaction c \<or> fst (f c) = Inr ()"
  shows "db_in_transaction d s' = db_in_transaction d s"
  using assms(1) assms(2)
  by (auto simp: on_conn_def upd_conn_def conn_at_def db_in_transaction_def in_transaction_def split: option.splits)
    (metis Inl_Inr_False)+

lemma begin_in_transaction:
  assumes "db_begin num_to_str e clk d s = Some (Inr x, s')"
  shows "db_in_transaction d s'"
proof -
  obtain s1 where "on_conn d (begin_transaction e) s1 = (Inr x, s')"
    using assms by (auto simp: db_begin_def split: option.splits prod.splits sum.splits)
  from on_conn_Inr [OF this] show ?thesis
    by (auto simp: db_in_transaction_def in_transaction_def begin_transaction_def split: if_splits prod.splits sum.splits)
qed

lemma commit_flag:
  "c_in_transaction (snd (commit_transaction e c)) = c_in_transaction c \<or> fst (commit_transaction e c) = Inr ()"
  "fst (commit_transaction e c) = Inr x \<Longrightarrow> \<not> c_in_transaction (snd (commit_transaction e c))"
  by (auto simp: commit_transaction_def end_transaction_def touch_def Let_def split: if_splits)

lemma drop_lock_flag: "db_in_transaction d (snd (drop_lock e k s)) = db_in_transaction d s"
  by (auto simp: drop_lock_def db_in_transaction_def in_transaction_def upd_conn_def conn_at_def
      connection_lock_dtor_def stop_work_def touch_def split: option.splits)

lemma reset_lock_flag: "db_in_transaction d (snd (reset_lock e d s)) = db_in_transaction d s"
proof (cases "db_lock s d")
  case (Some k)
  then show ?thesis using drop_lock_flag [of d e k "s \<lparr> db_lock := (db_lock s)(d := None) \<rparr>"]
    by (simp add: reset_lock_def) (simp add: db_in_transaction_def split: option.split)
qed (simp add: reset_lock_def)

lemma drop_lock_error: "fst (drop_lock e k s) = Inl err \<Longrightarrow> undefined_behaviour (Inl err :: unit result)"
  by (auto simp: drop_lock_def undefined_behaviour_def split: option.splits if_splits)

lemma commit_result:
  assumes "db_commit e d s = (r, s')"
  shows "r = Inr () \<Longrightarrow> \<not> db_in_transaction d s'"
    "r = Inl err \<Longrightarrow> \<not> undefined_behaviour r \<Longrightarrow> db_in_transaction d s' = db_in_transaction d s"
proof -
  obtain q s1 where q: "on_conn d (commit_transaction e) s = (q, s1)" by (cases "on_conn d (commit_transaction e) s")
  have ok: "\<not> db_in_transaction d s1 \<and> (r, s') = reset_lock e d s1" if "q = Inr x" for x
  proof -
    from that q have "on_conn d (commit_transaction e) s = (Inr x, s1)" by simp
    from on_conn_Inr [OF this] have "\<not> db_in_transaction d s1" using commit_flag(2) [of e _ x]
      by (auto simp: db_in_transaction_def in_transaction_def)
    then show ?thesis using assms q that by (simp add: db_commit_def db_end_def)
  qed
  have flag: "db_in_transaction d s' = db_in_transaction d s1" if "(r, s') = reset_lock e d s1"
    using reset_lock_flag [of d e s1] that by (metis snd_conv)
  show "\<not> db_in_transaction d s'" if "r = Inr ()"
    using assms q that ok flag by (cases q) (auto simp: db_commit_def db_end_def)
  show "db_in_transaction d s' = db_in_transaction d s" if r: "r = Inl err" "\<not> undefined_behaviour r"
  proof (cases q)
    case (Inl err')
    then show ?thesis using on_conn_Inl [OF _ commit_flag(1)] q assms by (auto simp: db_commit_def db_end_def)
  next
    case (Inr x)
    then have "reset_lock e d s1 = (Inl err, s')" using ok r by simp
    then have "undefined_behaviour (Inl err :: unit result)"
      using drop_lock_error by (auto simp: reset_lock_def split: option.splits) (metis fst_conv)
    then show ?thesis using r by simp
  qed
qed

text \<open>
  C20: \<open>exec_queries\<close> on a database outside a transaction, when it comes to send something and does not
  end in undefined behaviour (the end of a lock on a connection that is gone). It throws at the first query that fails, with that query as the last one sent and with its error,
  and neither commits nor rolls back: the database stays in the transaction it began. A query
  fails when its status is none of empty query, command, rows and non fatal error (codes 0, 1, 2
  and 6), and in copy mode also when the data or its end cannot be put; a COPY query with a status
  that has the bit of value 4 never fails, which lets the error statuses 5 and 7 pass. When no
  query fails all have been sent once each and in order, and \<open>exec_queries\<close> returns exactly when
  the transaction is committed.
\<close>

theorem exec_queries_outcome:
  assumes "exec_queries num_to_str e clk res_status lib ans d sql s = Some (r, tr, s')"
    and "\<not> db_in_transaction d s" "tr \<noteq> []" "\<not> undefined_behaviour r"
    and "qs = split_queries lib sql"
  shows "case first_error res_status lib ans qs of
      Some k \<Rightarrow> r = Inl (PqException (the (error_at res_status lib ans qs k))) \<and> db_in_transaction d s' \<and>
        tr = concat (map (sent_at lib ans qs) [0..<Suc k]) \<and> sent_queries tr = take (Suc k) qs
    | None \<Rightarrow> (r = Inr ()) = (\<not> db_in_transaction d s') \<and>
        tr = concat (map (sent_at lib ans qs) [0..<length qs]) \<and> sent_queries tr = qs"
proof -
  obtain s0 where s0: "on_conn d (\<lambda>c. (Inr (), c)) s = (Inr (), s0)"
    using assms(1,3) by (auto simp: exec_queries_def split: prod.splits sum.splits)
  then have nt: "\<not> db_in_transaction d s0"
    using on_conn_Inr [OF s0] assms(2) by (auto simp: db_in_transaction_def conn_at_def)
  obtain x s1 where b: "db_begin num_to_str e clk d s0 = Some (Inr x, s1)"
    using assms(1,3) s0 nt by (auto simp: exec_queries_def split: option.splits prod.splits sum.splits)
  have t: "db_in_transaction d s1" by (rule begin_in_transaction [OF b])
  have ex: "Some (r, tr, s') = (case exec_loop res_status lib ans 0 qs False of (Inl err, tr) \<Rightarrow> Some (Inl err, tr, s1)
      | (Inr _, tr) \<Rightarrow> (case db_commit e d s1 of (r, s) \<Rightarrow> Some (r, tr, s)))"
    using assms(1) s0 nt b unfolding assms(5) by (auto simp: exec_queries_def split: prod.splits sum.splits)
  show ?thesis
  proof (cases "first_error res_status lib ans qs")
    case None
    then have c: "db_commit e d s1 = (r, s')" "tr = concat (map (sent_at lib ans qs) [0..<length qs])"
      using ex by (auto simp: exec_loop_result split: prod.splits)
    moreover have "(r = Inr ()) = (\<not> db_in_transaction d s')"
      using commit_result [OF c(1)] assms(4) t by (cases r) auto
    ultimately show ?thesis using None sent_queries_at map_nth by simp
  next
    case (Some k)
    then have k: "k < length qs" by (auto simp: first_error_def find_Some_iff)
    from Some ex have c: "r = Inl (PqException (the (error_at res_status lib ans qs k)))" "s' = s1"
      "tr = concat (map (sent_at lib ans qs) [0..<Suc k])"
      by (simp_all only: exec_loop_result option.case prod.case sum.case option.inject prod.inject)
    moreover have "map ((!) qs) [0..<Suc k] = take (Suc k) qs" using k by (intro nth_equalityI) (auto simp del: upt_Suc)
    ultimately show ?thesis using Some t unfolding c(3) sent_queries_at by simp
  qed
qed

text \<open>
  A failed \<open>COPY ... FROM STDIN\<close>: the codes of the error statuses have the bit of
  \<open>PGRES_COPY_IN\<close>, so the error is not noticed at once. As the last query of a script it is
  not reported at all, while any other query that fails is.
\<close>

theorem failed_copy_ignored:
  assumes "copy_query lib qry" "\<forall>i < length qs. \<not> has_copy_bit (an_exec (ans i)) \<and> query_done (an_exec (ans i))"
    and "an_exec (ans (length qs)) = PGRES_FATAL_ERROR"
  shows "exec_loop res_status lib ans 0 (qs @ [qry]) False = (Inr (), map Exec (qs @ [qry]))"
proof -
  have "exec_loop res_status lib ans i (qs @ [qry]) False = (Inr (), map Exec (qs @ [qry]))"
    if "\<forall>k < length qs. \<not> has_copy_bit (an_exec (ans (i + k))) \<and> query_done (an_exec (ans (i + k)))"
      "an_exec (ans (i + length qs)) = PGRES_FATAL_ERROR" for i qs
    using that
  proof (induction qs arbitrary: i)
    case Nil
    then show ?case using assms(1) by (simp add: has_copy_bit_def status_defs)
  next
    case (Cons q qs)
    have "exec_loop res_status lib ans (Suc i) (qs @ [qry]) False = (Inr (), map Exec (qs @ [qry]))"
    proof (rule Cons.IH)
      show "\<forall>k < length qs. \<not> has_copy_bit (an_exec (ans (Suc i + k))) \<and> query_done (an_exec (ans (Suc i + k)))"
      proof (intro allI impI)
        fix k assume "k < length qs"
        then show "\<not> has_copy_bit (an_exec (ans (Suc i + k))) \<and> query_done (an_exec (ans (Suc i + k)))"
          using Cons.prems(1) by (auto dest!: spec [of _ "Suc k"])
      qed
    qed (use Cons.prems(2) in simp)
    moreover have "\<not> has_copy_bit (an_exec (ans i))" "query_done (an_exec (ans i))"
      using Cons.prems(1) by (auto dest!: spec [of _ 0])
    ultimately show ?case by (simp add: Let_def)
  qed
  from this [of qs 0] assms(2,3) show ?thesis by simp
qed

section \<open>Examples\<close>

definition answer_of :: "int \<Rightarrow> answer" where
  "answer_of st = \<lparr> an_exec = st, an_put = 1, an_end = 1, an_get = 1, an_message = ''failed'' \<rparr>"

text \<open>A database that has opened its connection and closed the lock on it.\<close>

definition opened_system :: system where
  "opened_system = the (run_ops any_conn sample_str sample_env [Open 0 5000, DropLock 0] (one_host 2))"

definition failing_script :: "(unit result \<times> sent list \<times> system) option" where
  "failing_script = exec_queries sample_str sample_env [1000] (\<lambda>_. ''ERROR'') sample_lib
     (\<lambda>i. answer_of (if i = 1 then PGRES_FATAL_ERROR else PGRES_COMMAND_OK)) 0 ''a;b;c;'' opened_system"

lemma failing_script_run:
  "failing_script \<noteq> None \<and> fst (the failing_script) = Inl (PqException ''ERROR: failed'') \<and>
   fst (snd (the failing_script)) = [Exec ''a'', Exec ''b''] \<and> \<not> db_in_transaction 0 opened_system"
proof -
  have q: "split_queries sample_lib ''a;b;c;'' = [''a'', ''b'', ''c'']" "\<not> copy_query sample_lib ''a''" "\<not> copy_query sample_lib ''b''"
    by code_simp+
  show ?thesis
    by (simp add: failing_script_def exec_queries_def opened_system_def run_defs q answer_of_def query_done_def
        db_in_transaction_def in_transaction_def db_begin_def reset_lock_def begin_transaction_def PQexec_def status_defs Let_def)
qed

theorem exec_queries_outcome_witness:
  "sent_queries (fst (snd (the failing_script))) = [''a'', ''b''] \<and> db_in_transaction 0 (snd (snd (the failing_script))) \<and>
   fst (the failing_script) = Inl (PqException ''ERROR: failed'')"
proof -
  obtain r tr s' where x: "failing_script = Some (r, tr, s')" using failing_script_run by (cases failing_script) auto
  then have c: "r = Inl (PqException ''ERROR: failed'')" "tr = [Exec ''a'', Exec ''b'']" "\<not> db_in_transaction 0 opened_system"
    using failing_script_run by (simp_all add: x)
  let ?ans = "\<lambda>i::nat. answer_of (if i = 1 then PGRES_FATAL_ERROR else PGRES_COMMAND_OK)"
  have k: "first_error (\<lambda>_. ''ERROR'') sample_lib ?ans (split_queries sample_lib ''a;b;c;'') = Some 1"
    "the (error_at (\<lambda>_. ''ERROR'') sample_lib ?ans (split_queries sample_lib ''a;b;c;'') 1) = ''ERROR: failed''"
    "take (Suc 1) (split_queries sample_lib ''a;b;c;'') = [''a'', ''b'']" by code_simp+
  have "tr \<noteq> []" "\<not> undefined_behaviour r" by (simp_all add: c undefined_behaviour_def)
  from exec_queries_outcome [OF x [unfolded failing_script_def] c(3) this refl]
  have "r = Inl (PqException ''ERROR: failed'') \<and> db_in_transaction 0 s' \<and> sent_queries tr = [''a'', ''b'']"
    unfolding k(1) option.case k(2,3) by blast
  then show ?thesis by (simp add: x)
qed

theorem failed_copy_ignored_witness:
  "exec_loop (\<lambda>_. ''ERROR'') sample_lib (\<lambda>_. answer_of PGRES_FATAL_ERROR) 0 [''copy t from stdin''] False
     = (Inr (), [Exec ''copy t from stdin'']) \<and>
   fst (exec_loop (\<lambda>_. ''ERROR'') sample_lib (\<lambda>_. answer_of PGRES_FATAL_ERROR) 0 [''select 1''] False) =
     Inl (PqException ''ERROR: failed'')"
proof
  have "copy_query sample_lib ''copy t from stdin''" by code_simp
  then show "exec_loop (\<lambda>_. ''ERROR'') sample_lib (\<lambda>_. answer_of PGRES_FATAL_ERROR) 0 [''copy t from stdin''] False
     = (Inr (), [Exec ''copy t from stdin''])"
    using failed_copy_ignored [of sample_lib "''copy t from stdin''" "[]" "\<lambda>_. answer_of PGRES_FATAL_ERROR"]
    by (simp add: answer_of_def)
  show "fst (exec_loop (\<lambda>_. ''ERROR'') sample_lib (\<lambda>_. answer_of PGRES_FATAL_ERROR) 0 [''select 1''] False) =
     Inl (PqException ''ERROR: failed'')" by code_simp
qed

end
