(* ===== verification/Wire.thy ===== *)
theory Wire
  imports Numeric_Text Net_Mac
begin

unbundle bit_operations_syntax

text \<open>
  The formats in which values travel to and from the server: \<open>swap2\<close>, \<open>swap4\<close> and
  \<open>swap8\<close> of \<open>utils.cpp\<close>, and of \<open>data_parameters.cpp\<close> the functions \<open>new_parameter\<close> and
  \<open>pgval_to_...\<close> for booleans, integers, money, oids, numerics, strings, network addresses
  and ranges.

  Memory is a list of bytes. A value that is read is what stands behind a pointer, up to the end
  of the buffer; reading past it is undefined behaviour. The byte order of the host is the
  argument \<open>le\<close> (True for little endian), \<open>md::str_to_num\<close> and \<open>md::iequals\<close> are
  arguments.
\<close>

section \<open>Byte order\<close>

primrec be_bytes :: "nat \<Rightarrow> int \<Rightarrow> int list" where
  "be_bytes 0 v = []"
| "be_bytes (Suc n) v = be_bytes n (v div 256) @ [v mod 256]"

text \<open>An integer of \<open>n\<close> bytes in the memory of the host.\<close>

definition host_bytes :: "bool \<Rightarrow> nat \<Rightarrow> int \<Rightarrow> int list" where
  "host_bytes le n v = (if le then rev (be_bytes n v) else be_bytes n v)"

definition host_int :: "bool \<Rightarrow> int list \<Rightarrow> int" where
  "host_int le bs = wrap_s (8 * length bs) (bval 256 (if le then rev bs else bs))"

text \<open>\<open>htons\<close> and \<open>htonl\<close>, and their inverses, reverse the bytes on a little endian host.\<close>

definition hton :: "bool \<Rightarrow> int list \<Rightarrow> int list" where
  "hton le bs = (if le then rev bs else bs)"

definition swap2 :: "bool \<Rightarrow> int list \<Rightarrow> int list" where
  "swap2 le inp = (if le then hton le inp else inp)"

definition swap4 :: "bool \<Rightarrow> int list \<Rightarrow> int list" where
  "swap4 le inp = (if le then hton le inp else inp)"

definition swap8 :: "bool \<Rightarrow> int list \<Rightarrow> int list" where
  "swap8 le inp = (if le then hton le (drop 4 inp) @ hton le (take 4 inp) else inp)"

text \<open>Writing a value with \<open>swapN(&value, out, true)\<close>.\<close>

definition put2 :: "bool \<Rightarrow> int \<Rightarrow> int list" where "put2 le v = swap2 le (host_bytes le 2 v)"
definition put4 :: "bool \<Rightarrow> int \<Rightarrow> int list" where "put4 le v = swap4 le (host_bytes le 4 v)"
definition put8 :: "bool \<Rightarrow> int \<Rightarrow> int list" where "put8 le v = swap8 le (host_bytes le 8 v)"

text \<open>Reading one with \<open>swapN(val, &value, false)\<close>.\<close>

definition overrun :: pq_error where "overrun = UndefinedBehaviour ''read past the value''"

definition get2 :: "bool \<Rightarrow> int list \<Rightarrow> int result" where
  "get2 le val = (if length val < 2 then Inl overrun else Inr (host_int le (swap2 le (take 2 val))))"

definition get4 :: "bool \<Rightarrow> int list \<Rightarrow> int result" where
  "get4 le val = (if length val < 4 then Inl overrun else Inr (host_int le (swap4 le (take 4 val))))"

definition get8 :: "bool \<Rightarrow> int list \<Rightarrow> int result" where
  "get8 le val = (if length val < 8 then Inl overrun else Inr (host_int le (swap8 le (take 8 val))))"

section \<open>Parameters\<close>

record param =
  pm_oid :: int
  pm_value :: "int list"
  pm_length :: int
  pm_format :: int

definition mk_param :: "int \<Rightarrow> int list \<Rightarrow> int \<Rightarrow> param" where
  "mk_param oid bytes fmt = \<lparr> pm_oid = oid, pm_value = bytes, pm_length = int (length bytes), pm_format = fmt \<rparr>"

record num_lib =
  str_to_num :: "nat \<Rightarrow> string \<Rightarrow> int"
  iequals :: "string \<Rightarrow> string \<Rightarrow> bool"

text \<open>\<open>std::string(val, len)\<close>\<close>

definition text_of :: "int list \<Rightarrow> int \<Rightarrow> string" where
  "text_of val len = map char_of (take (nat len) val)"

definition bytes_of :: "string \<Rightarrow> int list" where
  "bytes_of s = map of_char s"

subsection \<open>Booleans, strings and integers\<close>

definition new_bool :: "bool \<Rightarrow> param" where
  "new_bool v = mk_param 16 [if v then 1 else 0] 1"

definition pgval_to_bool :: "num_lib \<Rightarrow> int list \<Rightarrow> int \<Rightarrow> int \<Rightarrow> bool result" where
  "pgval_to_bool lib val len fmt =
    (if len = - 1 then Inr False
     else if fmt = 0 then
       (let str1 = text_of val len in
        Inr (iequals lib str1 ''true'' \<or> iequals lib str1 ''yes'' \<or> iequals lib str1 ''on'' \<or> iequals lib str1 ''1''))
     else if val = [] then Inl overrun else Inr (hd val \<noteq> 0))"

definition new_string :: "string \<Rightarrow> param" where
  "new_string s = mk_param 25 (bytes_of s @ [0]) 0"

definition pgval_to_string :: "int list \<Rightarrow> int \<Rightarrow> int \<Rightarrow> string" where
  "pgval_to_string val len fmt = (if len = - 1 then [] else text_of val len)"

definition new_int16 :: "bool \<Rightarrow> int \<Rightarrow> param" where "new_int16 le v = mk_param 21 (put2 le v) 1"
definition new_int32 :: "bool \<Rightarrow> int \<Rightarrow> param" where "new_int32 le v = mk_param 23 (put4 le v) 1"
definition new_int64 :: "bool \<Rightarrow> int \<Rightarrow> param" where "new_int64 le v = mk_param 20 (put8 le v) 1"

definition pgval_to_int16 :: "num_lib \<Rightarrow> bool \<Rightarrow> int list \<Rightarrow> int \<Rightarrow> int \<Rightarrow> int result" where
  "pgval_to_int16 lib le val len fmt =
    (if len = - 1 then Inr 0 else if fmt = 0 then Inr (str_to_num lib 16 (text_of val len)) else get2 le val)"

definition pgval_to_int32 :: "num_lib \<Rightarrow> bool \<Rightarrow> int list \<Rightarrow> int \<Rightarrow> int \<Rightarrow> int result" where
  "pgval_to_int32 lib le val len fmt =
    (if len = - 1 then Inr 0 else if fmt = 0 then Inr (str_to_num lib 32 (text_of val len)) else get4 le val)"

definition pgval_to_int64 :: "num_lib \<Rightarrow> bool \<Rightarrow> int list \<Rightarrow> int \<Rightarrow> int \<Rightarrow> int result" where
  "pgval_to_int64 lib le val len fmt =
    (if len = - 1 then Inr 0 else if fmt = 0 then Inr (str_to_num lib 64 (text_of val len)) else get8 le val)"

text \<open>Money is its 64-bit amount; an oid is an unsigned number of 32 bits.\<close>

definition new_money :: "bool \<Rightarrow> int \<Rightarrow> param" where "new_money le v = mk_param 790 (put8 le v) 1"

definition pgval_to_money :: "num_lib \<Rightarrow> bool \<Rightarrow> int list \<Rightarrow> int \<Rightarrow> int \<Rightarrow> int result" where
  "pgval_to_money lib le val len fmt =
    (if len = - 1 then Inr 0 else if fmt = 0 then Inr (str_to_num lib 64 (text_of val len)) else get8 le val)"

definition new_oid :: "bool \<Rightarrow> int \<Rightarrow> param" where "new_oid le v = mk_param 26 (put4 le v) 1"

definition pgval_to_oid :: "num_lib \<Rightarrow> bool \<Rightarrow> int list \<Rightarrow> int \<Rightarrow> int \<Rightarrow> int result" where
  "pgval_to_oid lib le val len fmt =
    (if len = - 1 then Inr 0 else if fmt = 0 then Inr (str_to_num lib 32 (text_of val len))
     else bind_result (get4 le val) (\<lambda>v. Inr (v mod 2 ^ 32)))"

subsection \<open>Numerics\<close>

definition numeric_bytes :: "bool \<Rightarrow> numeric \<Rightarrow> int list" where
  "numeric_bytes le v =
    hton le (host_bytes le 2 (ndigits v)) @ hton le (host_bytes le 2 (weight v)) @
    hton le (host_bytes le 2 (sign v)) @ hton le (host_bytes le 2 (dscale v)) @
    concat (map (\<lambda>d. hton le (host_bytes le 2 d)) (digits v))"

definition new_numeric :: "bool \<Rightarrow> numeric \<Rightarrow> param" where
  "new_numeric le v = mk_param 1700 (numeric_bytes le v) 1"

primrec get_words :: "bool \<Rightarrow> nat \<Rightarrow> int list \<Rightarrow> int list result" where
  "get_words le 0 s = Inr []"
| "get_words le (Suc n) s =
    bind_result (get2 le s) (\<lambda>d. bind_result (get_words le n (drop 2 s)) (\<lambda>ds. Inr (d # ds)))"

text \<open>A negative count of digits has no buffer.\<close>

definition pgval_to_numeric :: "bool \<Rightarrow> int list \<Rightarrow> int \<Rightarrow> int \<Rightarrow> numeric result" where
  "pgval_to_numeric le val len fmt =
    (if len = - 1 then Inr (numeric_of_string ''0'')
     else if fmt = 0 then Inr (numeric_of_string (text_of val len))
     else
       bind_result (get2 le val) (\<lambda>nd.
       bind_result (get2 le (drop 2 val)) (\<lambda>w.
       bind_result (get2 le (drop 4 val)) (\<lambda>sg.
       bind_result (get2 le (drop 6 val)) (\<lambda>ds.
         if nd < 0 then Inl (UndefinedBehaviour ''negative number of digits'')
         else bind_result (get_words le (nat nd) (drop 8 val)) (\<lambda>digs.
           Inr \<lparr> weight = w, sign = sg, dscale = ds, digits = digs \<rparr>))))))"

subsection \<open>Network addresses\<close>

text \<open>\<open>PGSQL_AF_INET\<close> is \<open>AF_INET\<close>, \<open>PGSQL_AF_INET6\<close> one more.\<close>

definition net_wire :: "int \<Rightarrow> netaddr \<Rightarrow> int list" where
  "net_wire is_cidr a =
    (let nb = (if na_family a = Pq_net_family_inet then 4 else 16) in
     [if na_family a = Pq_net_family_inet then AF_INET else AF_INET + 1, na_bits a, is_cidr, int nb] @
     take nb (na_ipaddr a))"

definition new_cidr :: "netaddr \<Rightarrow> param" where "new_cidr a = mk_param 650 (net_wire 1 a) 1"
definition new_inet :: "netaddr \<Rightarrow> param" where "new_inet a = mk_param 869 (net_wire 0 a) 1"

text \<open>The default constructor.\<close>

definition net_init :: netaddr where
  "net_init = \<lparr> na_family = Pq_net_family_none, na_bits = 0, na_ipaddr = replicate 16 0 \<rparr>"

definition c_str :: "string \<Rightarrow> string" where
  "c_str s = takeWhile (\<lambda>c. c \<noteq> CHR 0x00) s"

text \<open>
  The binary form: the third byte is not looked at, and the count of the fourth is not checked
  against the sixteen bytes of the destination (a \<open>char\<close> above 127 is converted to a huge
  number).
\<close>

definition net_unwire :: "int list \<Rightarrow> netaddr result" where
  "net_unwire val =
    (if length val < 4 then Inl overrun
     else
       let f = val ! 0; nb = val ! 3 in
       if f \<noteq> AF_INET \<and> f \<noteq> AF_INET + 1 then Inl (PqException ''Unsupported family type!'')
       else if nb > 16 then Inl (UndefinedBehaviour ''write past _ipaddr'')
       else if length val < 4 + nat nb then Inl overrun
       else Inr \<lparr> na_family = (if f = AF_INET then Pq_net_family_inet else Pq_net_family_inet6), na_bits = val ! 1,
              na_ipaddr = take (nat nb) (drop 4 val) @ replicate (16 - nat nb) 0 \<rparr>)"

definition pgval_to_cidr :: "int list \<Rightarrow> int \<Rightarrow> int \<Rightarrow> netaddr result" where
  "pgval_to_cidr val len fmt =
    (if len = - 1 then Inr net_init else if fmt = 0 then cidr_of_string (c_str (text_of val len)) else net_unwire val)"

definition pgval_to_inet :: "int list \<Rightarrow> int \<Rightarrow> int \<Rightarrow> netaddr result" where
  "pgval_to_inet val len fmt =
    (if len = - 1 then Inr net_init else if fmt = 0 then inet_of_string (c_str (text_of val len)) else net_unwire val)"

definition new_macaddr :: "int list \<Rightarrow> param" where "new_macaddr m = mk_param 829 m 1"
definition new_macaddr8 :: "int list \<Rightarrow> param" where "new_macaddr8 m = mk_param 774 m 1"

definition pgval_to_macaddr :: "int list \<Rightarrow> int \<Rightarrow> int \<Rightarrow> int list result" where
  "pgval_to_macaddr val len fmt =
    (if len = - 1 then Inr (replicate 6 0) else if fmt = 0 then macaddr_of_string (c_str (text_of val len))
     else if length val < 6 then Inl overrun else Inr (take 6 val))"

definition pgval_to_macaddr8 :: "int list \<Rightarrow> int \<Rightarrow> int \<Rightarrow> int list result" where
  "pgval_to_macaddr8 val len fmt =
    (if len = - 1 then Inr (replicate 8 0) else if fmt = 0 then macaddr8_of_string (c_str (text_of val len))
     else if length val < 8 then Inl overrun else Inr (take 8 val))"

subsection \<open>Ranges\<close>

record 'a range =
  r_flags :: int
  r_lb :: 'a
  r_ub :: 'a

text \<open>The bits \<open>empty\<close>, \<open>lb_null\<close>, \<open>lb_inf\<close> and \<open>empty\<close>, \<open>ub_null\<close>, \<open>ub_inf\<close>.\<close>

definition has_lbound :: "'a range \<Rightarrow> bool" where
  "has_lbound r \<longleftrightarrow> r_flags r AND (1 OR 32 OR 8) = 0"

definition has_ubound :: "'a range \<Rightarrow> bool" where
  "has_ubound r \<longleftrightarrow> r_flags r AND (1 OR 64 OR 16) = 0"

text \<open>
  The overloads of \<open>new_parameter\<close> for ranges write the flags as a byte, then each bound that
  is there with its length in front.
\<close>

definition range_bytes :: "bool \<Rightarrow> ('a \<Rightarrow> int list) \<Rightarrow> 'a range \<Rightarrow> int list" where
  "range_bytes le enc r =
    [r_flags r mod 256] @
    (if has_lbound r then put4 le (int (length (enc (r_lb r)))) @ enc (r_lb r) else []) @
    (if has_ubound r then put4 le (int (length (enc (r_ub r)))) @ enc (r_ub r) else [])"

definition new_int4range :: "bool \<Rightarrow> int range \<Rightarrow> param" where
  "new_int4range le r = mk_param 3904 (range_bytes le (put4 le) r) 1"

definition new_int8range :: "bool \<Rightarrow> int range \<Rightarrow> param" where
  "new_int8range le r = mk_param 3926 (range_bytes le (put8 le) r) 1"

definition new_numrange :: "bool \<Rightarrow> numeric range \<Rightarrow> param" where
  "new_numrange le r = mk_param 3906 (range_bytes le (numeric_bytes le) r) 1"

text \<open>What stands behind a pointer into the value.\<close>

definition val_at :: "int list \<Rightarrow> int \<Rightarrow> int list result" where
  "val_at val off = (if off < 0 \<or> off > int (length val) then Inl overrun else Inr (drop (nat off) val))"

text \<open>
  One bound: its length, then the value; the result has the position behind it. The flags are
  read as a signed \<open>char\<close>.
\<close>

definition get_bound :: "num_lib \<Rightarrow> bool \<Rightarrow> (int list \<Rightarrow> int \<Rightarrow> int \<Rightarrow> 'a result) \<Rightarrow> int \<Rightarrow> int list \<Rightarrow> int \<Rightarrow> ('a \<times> int) result" where
  "get_bound lib le dec fmt val off =
    bind_result (val_at val off) (\<lambda>p.
    bind_result (pgval_to_int32 lib le p 4 fmt) (\<lambda>l.
    bind_result (val_at val (off + 4)) (\<lambda>q.
    bind_result (dec q l fmt) (\<lambda>x. Inr (x, off + 4 + l)))))"

definition pgval_to_range :: "num_lib \<Rightarrow> bool \<Rightarrow> (int list \<Rightarrow> int \<Rightarrow> int \<Rightarrow> 'a result) \<Rightarrow> 'a \<Rightarrow> int list \<Rightarrow> int \<Rightarrow> 'a range result" where
  "pgval_to_range lib le dec dflt val fmt =
    (if val = [] then Inl overrun
     else
       let r = \<lparr> r_flags = wrap_s 8 (hd val), r_lb = dflt, r_ub = dflt \<rparr> in
       bind_result (if has_lbound r then get_bound lib le dec fmt val 1 else Inr (dflt, 1)) (\<lambda>(lb, off).
       bind_result (if has_ubound r then get_bound lib le dec fmt val off else Inr (dflt, off)) (\<lambda>(ub, off).
         Inr (r \<lparr> r_lb := lb, r_ub := ub \<rparr>))))"

definition pgval_to_int4range :: "num_lib \<Rightarrow> bool \<Rightarrow> int list \<Rightarrow> int \<Rightarrow> int range result" where
  "pgval_to_int4range lib le val fmt = pgval_to_range lib le (pgval_to_int32 lib le) 0 val fmt"

definition pgval_to_int8range :: "num_lib \<Rightarrow> bool \<Rightarrow> int list \<Rightarrow> int \<Rightarrow> int range result" where
  "pgval_to_int8range lib le val fmt = pgval_to_range lib le (pgval_to_int64 lib le) 0 val fmt"

definition pgval_to_numrange :: "num_lib \<Rightarrow> bool \<Rightarrow> int list \<Rightarrow> int \<Rightarrow> numeric range result" where
  "pgval_to_numrange lib le val fmt = pgval_to_range lib le (pgval_to_numeric le) numeric_init val fmt"

section \<open>Integers on the wire\<close>

lemma bval_be_bytes: "bval 256 (be_bytes n v) = v mod 256 ^ n"
proof (induction n arbitrary: v)
  case (Suc n)
  have "v mod 256 ^ Suc n = (v div 256 mod 256 ^ n) * 256 + v mod 256"
    using zmod_zmult2_eq [of "256 ^ n" v 256] by (simp add: mult.commute)
  then show ?case using Suc [of "v div 256"] by simp
qed simp

lemma be_bytes_props:
  "length (be_bytes n v) = n" "digits_ok 256 (be_bytes n v)" "bval 256 (be_bytes n v) = v mod 256 ^ n"
proof -
  show "length (be_bytes n v) = n" by (induction n arbitrary: v) simp_all
  show "digits_ok 256 (be_bytes n v)" by (induction n arbitrary: v) (simp_all add: digits_ok_def)
qed (rule bval_be_bytes)

lemma swap8_rev: "length bs = 8 \<Longrightarrow> swap8 True bs = rev bs"
  using append_take_drop_id [of 4 bs] by (simp add: swap8_def hton_def flip: rev_append)

text \<open>What is written does not depend on the byte order of the host.\<close>

lemma put_be [simp]:
  "put2 le v = be_bytes 2 v" "put4 le v = be_bytes 4 v" "put8 le v = be_bytes 8 v"
  "hton le (host_bytes le n v) = be_bytes n v"
  by (cases le; simp add: put2_def put4_def put8_def swap2_def swap4_def host_bytes_def hton_def swap8_rev be_bytes_props;
      simp add: swap8_def)+

lemma host_int_be:
  "0 < n \<Longrightarrow> host_int le (hton le (be_bytes n v)) = wrap_s (8 * n) v"
proof -
  assume n: "0 < n"
  have "host_int le (hton le (be_bytes n v)) = wrap_s (8 * n) (v mod 256 ^ n)"
    by (simp add: host_int_def hton_def be_bytes_props)
  also have "\<dots> = wrap_s (8 * n) v"
  proof -
    have "(256::int) ^ n = 2 ^ (8 * n)" by (simp add: power_mult)
    then show ?thesis by (simp add: wrap_s_def mod_add_left_eq)
  qed
  finally show ?thesis .
qed

lemma get_be [simp]:
  "get2 le (be_bytes 2 v @ rest) = Inr (wrap_s 16 v)"
  "get4 le (be_bytes 4 v @ rest) = Inr (wrap_s 32 v)"
  "get8 le (be_bytes 8 v @ rest) = Inr (wrap_s 64 v)"
proof -
  have sw: "swap2 le bs = hton le bs" "swap4 le bs = hton le bs" for bs
    by (simp_all add: swap2_def swap4_def hton_def)
  have sw8: "length bs = 8 \<Longrightarrow> swap8 le bs = hton le bs" for bs
    using swap8_rev [of bs] by (cases le) (simp_all add: swap8_def hton_def)
  show "get2 le (be_bytes 2 v @ rest) = Inr (wrap_s 16 v)"
    using host_int_be [of 2 le v] by (simp add: get2_def be_bytes_props sw)
  show "get4 le (be_bytes 4 v @ rest) = Inr (wrap_s 32 v)"
    using host_int_be [of 4 le v] by (simp add: get4_def be_bytes_props sw)
  show "get8 le (be_bytes 8 v @ rest) = Inr (wrap_s 64 v)"
    using host_int_be [of 8 le v] by (simp add: get8_def be_bytes_props sw8)
qed

lemma wrap_ids:
  "in_s 16 v \<Longrightarrow> wrap_s 16 v = v" "in_s 32 v \<Longrightarrow> wrap_s 32 v = v" "in_s 64 v \<Longrightarrow> wrap_s 64 v = v"
  by (simp_all add: wrap_s_id)

section \<open>Codecs\<close>

text \<open>
  The contract of a pair of functions for one type: the reader, given the length that was
  written, finds the value again whatever follows it in the buffer.
\<close>

locale wire_codec =
  fixes ok :: "'a \<Rightarrow> bool"
    and enc :: "'a \<Rightarrow> int list"
    and dec :: "int list \<Rightarrow> int \<Rightarrow> int \<Rightarrow> 'a result"
  assumes dec_enc: "ok v \<Longrightarrow> dec (enc v @ rest) (int (length (enc v))) 1 = Inr v"
    and enc_bytes: "ok v \<Longrightarrow> digits_ok 256 (enc v)"
    and enc_length: "ok v \<Longrightarrow> length (enc v) < 2 ^ 31"
begin

text \<open>Different values have different encodings, and none is the beginning of another of its length.\<close>

lemma enc_inj: "ok v \<Longrightarrow> ok w \<Longrightarrow> length (enc v) = length (enc w) \<Longrightarrow> enc v @ r = enc w @ r' \<Longrightarrow> v = w"
  using dec_enc [of v r] dec_enc [of w r'] by (metis Inr_inject)

lemma get_bound_enc:
  assumes "ok x" "off = int (length pre)"
  shows "get_bound lib le dec 1 (pre @ put4 le (int (length (enc x))) @ enc x @ rest) off =
    Inr (x, off + 4 + int (length (enc x)))"
proof -
  have l: "wrap_s 32 (int (length (enc x))) = int (length (enc x))"
    using enc_length [OF assms(1)] by (intro wrap_s_id) (simp_all add: in_s_def)
  have v: "val_at (pre @ put4 le (int (length (enc x))) @ enc x @ rest) off = Inr (put4 le (int (length (enc x))) @ enc x @ rest)"
    "val_at (pre @ put4 le (int (length (enc x))) @ enc x @ rest) (off + 4) = Inr (enc x @ rest)"
    using assms(2) by (simp_all add: val_at_def be_bytes_props nat_add_distrib)
  show ?thesis
    unfolding get_bound_def v using dec_enc [OF assms(1)] l by (simp add: pgval_to_int32_def)
qed

text \<open>
  A range keeps its flags, as a signed byte, and the bounds it has; a bound it does not have is
  the default afterwards.
\<close>

lemma range_enc:
  assumes "has_lbound r \<Longrightarrow> ok (r_lb r)" "has_ubound r \<Longrightarrow> ok (r_ub r)"
    and flags: "has_lbound \<lparr> r_flags = wrap_s 8 (r_flags r mod 256), r_lb = dflt, r_ub = dflt \<rparr> = has_lbound r"
      "has_ubound \<lparr> r_flags = wrap_s 8 (r_flags r mod 256), r_lb = dflt, r_ub = dflt \<rparr> = has_ubound r"
  shows "pgval_to_range lib le dec dflt (range_bytes le enc r) 1 =
    Inr \<lparr> r_flags = wrap_s 8 (r_flags r mod 256), r_lb = (if has_lbound r then r_lb r else dflt),
      r_ub = (if has_ubound r then r_ub r else dflt) \<rparr>"
proof -
  define fb where "fb = [r_flags r mod 256]"
  define lbb where "lbb = (if has_lbound r then put4 le (int (length (enc (r_lb r)))) @ enc (r_lb r) else [])"
  define ubb where "ubb = (if has_ubound r then put4 le (int (length (enc (r_ub r)))) @ enc (r_ub r) else [])"
  have e: "range_bytes le enc r = fb @ lbb @ ubb" by (simp add: range_bytes_def fb_def lbb_def ubb_def)
  have hd: "range_bytes le enc r \<noteq> []" "hd (range_bytes le enc r) = r_flags r mod 256"
    by (simp_all add: range_bytes_def)
  have lb: "(if has_lbound r then get_bound lib le dec 1 (fb @ lbb @ ubb) 1 else Inr (dflt, 1))
    = Inr (if has_lbound r then r_lb r else dflt, 1 + int (length lbb))"
    using get_bound_enc [of "r_lb r" 1 fb lib le ubb] assms(1) by (simp add: lbb_def fb_def be_bytes_props)
  have ub: "(if has_ubound r then get_bound lib le dec 1 (fb @ lbb @ ubb) (1 + int (length lbb)) else Inr (dflt, 1 + int (length lbb)))
    = Inr (if has_ubound r then r_ub r else dflt, 1 + int (length lbb) + int (length ubb))"
    using get_bound_enc [of "r_ub r" "1 + int (length lbb)" "fb @ lbb" lib le "[]"] assms(2)
    by (simp add: ubb_def fb_def be_bytes_props)
  show ?thesis
    unfolding pgval_to_range_def Let_def flags hd(2) unfolding e lb using ub
    by (cases "has_ubound r") (simp_all add: fb_def)
qed

end

text \<open>The tests of the bounds look at single bits, which the conversion to a signed byte keeps.\<close>

lemma and_small:
  assumes "x mod 256 = y mod 256" "0 \<le> m" "m < 256"
  shows "x AND m = y AND (m::int)"
proof -
  have m: "mask 8 AND m = m" using assms(2,3) by (simp add: take_bit_int_eq_self flip: take_bit_eq_mask and.commute)
  have "z AND m = (z mod 256) AND m" for z
  proof -
    have "z AND m = (z AND mask 8) AND m" unfolding and.assoc m ..
    also have "z AND mask 8 = z mod 256" by (simp add: take_bit_eq_mod flip: take_bit_eq_mask)
    finally show ?thesis .
  qed
  from this [of x] this [of y] assms(1) show ?thesis by simp
qed

lemma flags_byte:
  "has_lbound \<lparr> r_flags = wrap_s 8 (f mod 256), r_lb = x, r_ub = y \<rparr> = has_lbound \<lparr> r_flags = f, r_lb = a, r_ub = b \<rparr>"
  "has_ubound \<lparr> r_flags = wrap_s 8 (f mod 256), r_lb = x, r_ub = y \<rparr> = has_ubound \<lparr> r_flags = f, r_lb = a, r_ub = b \<rparr>"
proof -
  have w: "wrap_s 8 (f mod 256) mod 256 = f mod 256"
    by (simp add: wrap_s_def mod_diff_left_eq) 
  show "has_lbound \<lparr> r_flags = wrap_s 8 (f mod 256), r_lb = x, r_ub = y \<rparr> = has_lbound \<lparr> r_flags = f, r_lb = a, r_ub = b \<rparr>"
    using and_small [OF w, of 41] by (simp add: has_lbound_def)
  show "has_ubound \<lparr> r_flags = wrap_s 8 (f mod 256), r_lb = x, r_ub = y \<rparr> = has_ubound \<lparr> r_flags = f, r_lb = a, r_ub = b \<rparr>"
    using and_small [OF w, of 81] by (simp add: has_ubound_def)
qed

lemma flags_received:
  "has_lbound \<lparr> r_flags = wrap_s 8 (r_flags r mod 256), r_lb = x, r_ub = y \<rparr> = has_lbound r"
  "has_ubound \<lparr> r_flags = wrap_s 8 (r_flags r mod 256), r_lb = x, r_ub = y \<rparr> = has_ubound r"
  using flags_byte [of "r_flags r" x y "r_lb r" "r_ub r"] by (simp_all add: has_lbound_def has_ubound_def)

interpretation int4: wire_codec "in_s 32" "put4 le" "pgval_to_int32 lib le" for lib le
  by unfold_locales (simp_all add: pgval_to_int32_def be_bytes_props wrap_ids)

interpretation int8: wire_codec "in_s 64" "put8 le" "pgval_to_int64 lib le" for lib le
  by unfold_locales (simp_all add: pgval_to_int64_def be_bytes_props wrap_ids)

interpretation int2: wire_codec "in_s 16" "put2 le" "pgval_to_int16 lib le" for lib le
  by unfold_locales (simp_all add: pgval_to_int16_def be_bytes_props wrap_ids)

section \<open>Numerics on the wire\<close>

definition fits_wire :: "numeric \<Rightarrow> bool" where
  "fits_wire v \<longleftrightarrow> digits_ok NBASE (digits v) \<and> ndigits v < 2 ^ 15 \<and> in_s 16 (weight v) \<and>
     0 \<le> dscale v \<and> dscale v < 2 ^ 15"

lemma get_words_be:
  "digits_ok NBASE ds \<Longrightarrow> get_words le (length ds) (concat (map (be_bytes 2) ds) @ rest) = Inr ds"
proof (induction ds)
  case (Cons d ds)
  have "wrap_s 16 d = d" using Cons.prems by (intro i16_id) auto
  then show ?case using Cons by (simp add: be_bytes_props)
qed simp

lemma numeric_dec_enc:
  assumes "fits_wire v"
  shows "pgval_to_numeric le (numeric_bytes le v @ rest) len 1 =
    (if len = - 1 then Inr (numeric_of_string ''0'') else Inr (v \<lparr> sign := i16 (sign v) \<rparr>))"
proof -
  define body where "body = concat (map (be_bytes 2) (digits v)) @ rest"
  have e: "numeric_bytes le v @ rest = be_bytes 2 (ndigits v) @ be_bytes 2 (weight v) @ be_bytes 2 (sign v) @ be_bytes 2 (dscale v) @ body"
    by (simp add: numeric_bytes_def body_def)
  have d: "drop 2 (be_bytes 2 a @ x) = x" "drop 4 (be_bytes 2 a @ be_bytes 2 b @ x) = x"
    "drop 6 (be_bytes 2 a @ be_bytes 2 b @ be_bytes 2 c @ x) = x"
    "drop 8 (be_bytes 2 a @ be_bytes 2 b @ be_bytes 2 c @ be_bytes 2 f @ x) = x" for a b c f x
    by (simp_all add: be_bytes_props)
  have "i16 (ndigits v) = ndigits v" "i16 (dscale v) = dscale v" "i16 (weight v) = weight v"
    using assms by (simp_all add: fits_wire_def ndigits_def i16_id wrap_ids)
  moreover have "get_words le (nat (ndigits v)) body = Inr (digits v)"
    using get_words_be [of "digits v"] assms by (simp add: fits_wire_def ndigits_def body_def)
  ultimately show ?thesis
    unfolding pgval_to_numeric_def e d by (simp add: ndigits_def)
qed

lemma numeric_bytes_props:
  "length (numeric_bytes le v) = 8 + 2 * length (digits v)" "digits_ok 256 (numeric_bytes le v)"
proof -
  have "length (concat (map (be_bytes 2) ds)) = 2 * length ds" "digits_ok 256 (concat (map (be_bytes 2) ds))" for ds
    by (induction ds) (simp_all add: be_bytes_props)
  then show "length (numeric_bytes le v) = 8 + 2 * length (digits v)" "digits_ok 256 (numeric_bytes le v)"
    by (simp_all add: numeric_bytes_def be_bytes_props)
qed

definition num_wire_ok :: "numeric \<Rightarrow> bool" where
  "num_wire_ok v \<longleftrightarrow> fits_wire v \<and> (sign v = NUMERIC_POS \<or> sign v = NUMERIC_NEG)"

lemma num_wire_sign: "num_wire_ok v \<Longrightarrow> v \<lparr> sign := i16 (sign v) \<rparr> = v"
  by (auto simp: num_wire_ok_def i16_id)

interpretation num: wire_codec num_wire_ok "numeric_bytes le" "pgval_to_numeric le" for le
proof unfold_locales
  show "pgval_to_numeric le (numeric_bytes le v @ rest) (int (length (numeric_bytes le v))) 1 = Inr v" if "num_wire_ok v" for v rest
    using numeric_dec_enc [of v le rest] num_wire_sign [OF that] that by (simp add: num_wire_ok_def)
  show "digits_ok 256 (numeric_bytes le v)" if "num_wire_ok v" for v by (rule numeric_bytes_props)
  show "length (numeric_bytes le v) < 2 ^ 31" if "num_wire_ok v" for v
    using that by (simp add: numeric_bytes_props num_wire_ok_def fits_wire_def ndigits_def)
qed

text \<open>
  Integers, booleans, money and oids survive the way to the server and back, between hosts
  of any byte order: what is sent is the two's complement in network order, and it is read back
  to the same value.
\<close>

theorem wire_integers:
  assumes "in_s 16 a" "in_s 32 b" "in_s 64 c" "0 \<le> u" "u < 2 ^ 32"
  shows "pm_value (new_int32 le b) = be_bytes 4 b \<and>
    pgval_to_int16 lib le' (pm_value (new_int16 le a)) (pm_length (new_int16 le a)) 1 = Inr a \<and>
    pgval_to_int32 lib le' (pm_value (new_int32 le b)) (pm_length (new_int32 le b)) 1 = Inr b \<and>
    pgval_to_int64 lib le' (pm_value (new_int64 le c)) (pm_length (new_int64 le c)) 1 = Inr c \<and>
    pgval_to_money lib le' (pm_value (new_money le c)) (pm_length (new_money le c)) 1 = Inr c \<and>
    pgval_to_oid lib le' (pm_value (new_oid le u)) (pm_length (new_oid le u)) 1 = Inr u \<and>
    pgval_to_bool lib (pm_value (new_bool t)) (pm_length (new_bool t)) 1 = Inr t"
proof (intro conjI)
  note p = mk_param_def be_bytes_props
  show "pm_value (new_int32 le b) = be_bytes 4 b" by (simp add: new_int32_def p)
  show "pgval_to_int16 lib le' (pm_value (new_int16 le a)) (pm_length (new_int16 le a)) 1 = Inr a"
    using int2.dec_enc [where lib = lib and le = le' and rest = "[]", OF assms(1)] by (simp add: new_int16_def p)
  show "pgval_to_int32 lib le' (pm_value (new_int32 le b)) (pm_length (new_int32 le b)) 1 = Inr b"
    using int4.dec_enc [where lib = lib and le = le' and rest = "[]", OF assms(2)] by (simp add: new_int32_def p)
  show "pgval_to_int64 lib le' (pm_value (new_int64 le c)) (pm_length (new_int64 le c)) 1 = Inr c"
    using int8.dec_enc [where lib = lib and le = le' and rest = "[]", OF assms(3)] by (simp add: new_int64_def p)
  then show "pgval_to_money lib le' (pm_value (new_money le c)) (pm_length (new_money le c)) 1 = Inr c"
    by (simp add: new_money_def new_int64_def pgval_to_money_def pgval_to_int64_def p)
  have "wrap_s 32 u mod 2 ^ 32 = u" using assms(4,5) by (simp add: wrap_s_def mod_diff_left_eq)
  then show "pgval_to_oid lib le' (pm_value (new_oid le u)) (pm_length (new_oid le u)) 1 = Inr u"
    using get_be(2) [of le' u "[]"] by (simp add: new_oid_def pgval_to_oid_def p)
  show "pgval_to_bool lib (pm_value (new_bool t)) (pm_length (new_bool t)) 1 = Inr t"
    by (simp add: new_bool_def pgval_to_bool_def p)
qed

text \<open>
  A numeric survives the way to the server and back, field by field, when its digit count,
  weight and scale fit 16 bits and it is a number. A NaN does not: its sign code comes back as
  a negative number, so the value read is not a NaN any more.
\<close>

theorem wire_numeric:
  assumes "fits_wire v"
  shows "(sign v = NUMERIC_POS \<or> sign v = NUMERIC_NEG \<longrightarrow>
      pgval_to_numeric le' (pm_value (new_numeric le v)) (pm_length (new_numeric le v)) 1 = Inr v) \<and>
    (is_nan v \<longrightarrow> (\<exists>w. pgval_to_numeric le' (pm_value (new_numeric le v)) (pm_length (new_numeric le v)) 1 = Inr w \<and>
      sign w = - 16384 \<and> \<not> is_nan w))"
proof -
  have b: "numeric_bytes le v = numeric_bytes le' v" by (simp add: numeric_bytes_def)
  have r: "pgval_to_numeric le' (pm_value (new_numeric le v)) (pm_length (new_numeric le v)) 1 = Inr (v \<lparr> sign := i16 (sign v) \<rparr>)"
    using numeric_dec_enc [OF assms, of le' "[]"] by (simp add: new_numeric_def mk_param_def b)
  have nan: "i16 NUMERIC_NAN = - 16384" by (simp add: wrap_s_def)
  show ?thesis using num_wire_sign [of v] assms nan unfolding r by (auto simp: num_wire_ok_def is_nan_def)
qed

text \<open>
  Network and MAC addresses survive the way to the server and back: family, prefix length
  and all bytes of the address; the bytes of the buffer that an IPv4 address does not use come
  back as zero.
\<close>

theorem wire_net:
  assumes "net_ok a" "length m = 6" "length n = 8"
  shows "pgval_to_cidr (pm_value (new_cidr a)) (pm_length (new_cidr a)) 1 =
      Inr (a \<lparr> na_ipaddr := net_bytes a @ replicate (16 - net_size a) 0 \<rparr>) \<and>
    pgval_to_inet (pm_value (new_inet a)) (pm_length (new_inet a)) 1 =
      Inr (a \<lparr> na_ipaddr := net_bytes a @ replicate (16 - net_size a) 0 \<rparr>) \<and>
    pgval_to_macaddr (pm_value (new_macaddr m)) (pm_length (new_macaddr m)) 1 = Inr m \<and>
    pgval_to_macaddr8 (pm_value (new_macaddr8 n)) (pm_length (new_macaddr8 n)) 1 = Inr n"
proof (intro conjI)
  have u: "net_unwire (net_wire k a) = Inr (a \<lparr> na_ipaddr := net_bytes a @ replicate (16 - net_size a) 0 \<rparr>)" for k
    using assms(1) by (cases "na_family a") (simp_all add: net_unwire_def net_wire_def net_ok_def bytes_ok_def
        AF_INET_def net_bytes_def net_size_def Let_def)
  have l: "net_wire k a \<noteq> []" for k by (simp add: net_wire_def Let_def)
  show "pgval_to_cidr (pm_value (new_cidr a)) (pm_length (new_cidr a)) 1 =
      Inr (a \<lparr> na_ipaddr := net_bytes a @ replicate (16 - net_size a) 0 \<rparr>)"
    "pgval_to_inet (pm_value (new_inet a)) (pm_length (new_inet a)) 1 =
      Inr (a \<lparr> na_ipaddr := net_bytes a @ replicate (16 - net_size a) 0 \<rparr>)"
    using u by (simp_all add: new_cidr_def new_inet_def pgval_to_cidr_def pgval_to_inet_def mk_param_def)
  show "pgval_to_macaddr (pm_value (new_macaddr m)) (pm_length (new_macaddr m)) 1 = Inr m"
    "pgval_to_macaddr8 (pm_value (new_macaddr8 n)) (pm_length (new_macaddr8 n)) 1 = Inr n"
    using assms(2,3) by (simp_all add: new_macaddr_def new_macaddr8_def pgval_to_macaddr_def pgval_to_macaddr8_def mk_param_def)
qed

text \<open>What arrives of a range that was sent.\<close>

definition received :: "'a \<Rightarrow> 'a range \<Rightarrow> 'a range" where
  "received dflt r = \<lparr> r_flags = wrap_s 8 (r_flags r mod 256), r_lb = (if has_lbound r then r_lb r else dflt),
     r_ub = (if has_ubound r then r_ub r else dflt) \<rparr>"

lemma range_bytes_le: "(\<And>x. enc x = enc' x) \<Longrightarrow> range_bytes le enc r = range_bytes le' enc' r"
  by (simp add: range_bytes_def)

text \<open>
  Ranges of integers and of numerics survive the way to the server and back: the bounds a
  range has, and its flags. The flags are read as a signed character: they are the same when
  the bit of \<open>contain_empty\<close> is off, and the tests for bounds give the same answers always.
\<close>

theorem wire_range:
  assumes "\<forall>x \<in> {r_lb r, r_ub r}. in_s 32 x" "\<forall>x \<in> {r_lb q, r_ub q}. in_s 64 x" "\<forall>x \<in> {r_lb p, r_ub p}. num_wire_ok x"
  shows "pgval_to_int4range lib le' (pm_value (new_int4range le r)) 1 = Inr (received 0 r) \<and>
    pgval_to_int8range lib le' (pm_value (new_int8range le q)) 1 = Inr (received 0 q) \<and>
    pgval_to_numrange lib le' (pm_value (new_numrange le p)) 1 = Inr (received numeric_init p) \<and>
    has_lbound (received 0 r) = has_lbound r \<and> has_ubound (received 0 r) = has_ubound r \<and>
    (0 \<le> r_flags r \<and> r_flags r < 128 \<longrightarrow> r_flags (received 0 r) = r_flags r)"
proof (intro conjI)
  have e: "range_bytes le (put4 le) r = range_bytes le' (put4 le') r" "range_bytes le (put8 le) q = range_bytes le' (put8 le') q"
    "range_bytes le (numeric_bytes le) p = range_bytes le' (numeric_bytes le') p"
    by (rule range_bytes_le, simp add: numeric_bytes_def)+
  note n = new_int4range_def new_int8range_def new_numrange_def mk_param_def received_def
  show "pgval_to_int4range lib le' (pm_value (new_int4range le r)) 1 = Inr (received 0 r)"
    unfolding n pgval_to_int4range_def param.simps e
    by (rule int4.range_enc) (use assms(1) in \<open>simp_all add: flags_received\<close>)
  show "pgval_to_int8range lib le' (pm_value (new_int8range le q)) 1 = Inr (received 0 q)"
    unfolding n pgval_to_int8range_def param.simps e
    by (rule int8.range_enc) (use assms(2) in \<open>simp_all add: flags_received\<close>)
  show "pgval_to_numrange lib le' (pm_value (new_numrange le p)) 1 = Inr (received numeric_init p)"
    unfolding n pgval_to_numrange_def param.simps e
    by (rule num.range_enc) (use assms(3) in \<open>simp_all add: flags_received\<close>)
  show "has_lbound (received 0 r) = has_lbound r" "has_ubound (received 0 r) = has_ubound r"
    by (simp_all add: received_def flags_received)
  show "0 \<le> r_flags r \<and> r_flags r < 128 \<longrightarrow> r_flags (received 0 r) = r_flags r"
    by (auto simp: received_def wrap_s_id in_s_def)
qed

section \<open>Examples\<close>

definition sample_num_lib :: num_lib where
  "sample_num_lib = \<lparr> str_to_num = (\<lambda>_ _. 0), iequals = (\<lambda>a b. a = b) \<rparr>"

theorem wire_integers_witness:
  "pm_value (new_int32 True (- 2)) = [255, 255, 255, 254] \<and>
   pgval_to_int64 sample_num_lib False (pm_value (new_int64 True (- 9223372036854775808))) 8 1 = Inr (- 9223372036854775808)"
proof
  show "pm_value (new_int32 True (- 2)) = [255, 255, 255, 254]" by code_simp
  have "pm_length (new_int64 True (- 9223372036854775808)) = 8" by code_simp
  then show "pgval_to_int64 sample_num_lib False (pm_value (new_int64 True (- 9223372036854775808))) 8 1 = Inr (- 9223372036854775808)"
    using wire_integers [of 0 0 "- 9223372036854775808" 0 True sample_num_lib False True] by (simp add: in_s_def)
qed

definition sample_numeric :: numeric where
  "sample_numeric = \<lparr> weight = 0, sign = NUMERIC_NEG, dscale = 2, digits = [12, 5000] \<rparr>"

theorem wire_numeric_witness:
  "pgval_to_numeric False (pm_value (new_numeric True sample_numeric)) (pm_length (new_numeric True sample_numeric)) 1 = Inr sample_numeric \<and>
   (\<exists>w. pgval_to_numeric False (pm_value (new_numeric True numeric_nan)) (pm_length (new_numeric True numeric_nan)) 1 = Inr w \<and>
     sign w = - 16384 \<and> \<not> is_nan w)"
proof
  have "fits_wire sample_numeric" "fits_wire numeric_nan"
    by (simp_all add: fits_wire_def sample_numeric_def numeric_nan_def numeric_init_def ndigits_def in_s_def)
  from wire_numeric [OF this(1)] wire_numeric [OF this(2)]
  show "pgval_to_numeric False (pm_value (new_numeric True sample_numeric)) (pm_length (new_numeric True sample_numeric)) 1 = Inr sample_numeric"
    "\<exists>w. pgval_to_numeric False (pm_value (new_numeric True numeric_nan)) (pm_length (new_numeric True numeric_nan)) 1 = Inr w \<and>
     sign w = - 16384 \<and> \<not> is_nan w"
    by (simp_all add: sample_numeric_def numeric_nan_def is_nan_def)
qed

theorem wire_net_witness:
  "pm_value (new_inet (v4_addr 10 0 0 1 24)) = [2, 24, 0, 4, 10, 0, 0, 1] \<and>
   pgval_to_inet (pm_value (new_inet (v4_addr 10 0 0 1 24))) 8 1 = Inr (v4_addr 10 0 0 1 24)"
proof
  show "pm_value (new_inet (v4_addr 10 0 0 1 24)) = [2, 24, 0, 4, 10, 0, 0, 1]" by code_simp
  have "net_ok (v4_addr 10 0 0 1 24)" "pm_length (new_inet (v4_addr 10 0 0 1 24)) = 8"
    "(v4_addr 10 0 0 1 24) \<lparr> na_ipaddr := net_bytes (v4_addr 10 0 0 1 24) @ replicate (16 - net_size (v4_addr 10 0 0 1 24)) 0 \<rparr> = v4_addr 10 0 0 1 24"
    by code_simp+
  then show "pgval_to_inet (pm_value (new_inet (v4_addr 10 0 0 1 24))) 8 1 = Inr (v4_addr 10 0 0 1 24)"
    using wire_net [of "v4_addr 10 0 0 1 24" "replicate 6 0" "replicate 8 0"] by simp
qed

definition sample_range :: "int range" where
  "sample_range = \<lparr> r_flags = 2, r_lb = 1, r_ub = 10 \<rparr>"

theorem wire_range_witness:
  "pgval_to_int4range sample_num_lib False (pm_value (new_int4range True sample_range)) 1 = Inr sample_range"
proof -
  have r: "received 0 sample_range = sample_range" by code_simp
  have "pgval_to_int4range sample_num_lib False (pm_value (new_int4range True sample_range)) 1 = Inr (received 0 sample_range)"
    using wire_range [of sample_range sample_range "\<lparr> r_flags = 0, r_lb = sample_numeric, r_ub = sample_numeric \<rparr>" sample_num_lib False True]
    by (simp add: sample_range_def in_s_def num_wire_ok_def fits_wire_def sample_numeric_def ndigits_def)
  then show ?thesis by (simp only: r)
qed

end
