(* ===== verification/Conn_Task.thy ===== *)
theory Conn_Task
  imports Session
begin

text \<open>
  The tasks of a database on the event queue: \<open>connection_task_t\<close> and
  \<open>reader_connection_task\<close> of \<open>data_connection_pool.h\<close> with \<open>_connect\<close> of
  \<open>data_connection_pool.cpp\<close>. A task waits for a connection, or sends a command and waits
  for its results; the queue runs it again until it has completed.

  The queue and libevent are outside the repository: a turn of the queue is a call of
  \<open>run_task\<close>, and what libpq answers during it is an argument. Callbacks are recorded in the
  order of their calls and are taken not to throw.
\<close>

section \<open>State\<close>

datatype command_type = Cmd_none | Cmd_connect | Cmd_query | Cmd_prepare | Cmd_query_prepared | Cmd_cancel | Cmd_sent

text \<open>
  Calls of \<open>_cb\<close> with a result, by its number, with a null result, and with an error; calls of
  \<open>_lock_cb\<close> with a lock and with an error.
\<close>

datatype callback = CbResult nat | CbNull | CbError pq_error | LockOk nat | LockError pq_error

record task =
  t_cmd :: command_type
  t_sql :: string
  t_format :: int
  t_completed :: bool
  t_has_cb :: bool
  t_has_lock_cb :: bool
  t_ev :: bool
  t_calls :: "callback list"

text \<open>
  The answers of one turn: whether the command can be sent, whether libpq gives a cancel object
  and cancels, whether input can be consumed, whether the connection is still busy, whether the
  single row mode can be set, and the results that \<open>PQgetResult\<close> returns before null.
\<close>

record turn =
  tn_send_ok :: bool
  tn_get_cancel :: bool
  tn_cancel_ok :: bool
  tn_consume_ok :: bool
  tn_busy :: bool
  tn_single_row_ok :: bool
  tn_results :: "nat list"
  tn_message :: string

section \<open>Operations\<close>

definition task_init :: "bool \<Rightarrow> bool \<Rightarrow> task" where
  "task_init cb lock_cb = \<lparr> t_cmd = Cmd_none, t_sql = [], t_format = 0, t_completed = False,
     t_has_cb = cb, t_has_lock_cb = lock_cb, t_ev = False, t_calls = [] \<rparr>"

text \<open>The clock counts milliseconds, as in the theory of connections.\<close>

definition start_connect :: "env \<Rightarrow> string \<Rightarrow> int \<Rightarrow> task \<Rightarrow> task" where
  "start_connect e connection_string timeout_ms t =
    t \<lparr> t_cmd := Cmd_connect, t_sql := connection_string, t_format := now e + timeout_ms \<rparr>"

definition start_query :: "string \<Rightarrow> int \<Rightarrow> task \<Rightarrow> task" where
  "start_query sql format t = t \<lparr> t_cmd := Cmd_query, t_sql := sql, t_format := format \<rparr>"

definition start_prepare :: "string \<Rightarrow> task \<Rightarrow> task" where
  "start_prepare sql t = t \<lparr> t_cmd := Cmd_prepare, t_sql := sql \<rparr>"

definition start_query_prepared :: "int \<Rightarrow> task \<Rightarrow> task" where
  "start_query_prepared format t = t \<lparr> t_cmd := Cmd_query_prepared, t_format := format \<rparr>"

definition cancel :: "task \<Rightarrow> unit result \<times> task" where
  "cancel t =
    (if t_cmd t \<noteq> Cmd_sent \<or> t_completed t then (Inl (PqException ''No command in progress!''), t)
     else (Inr (), t \<lparr> t_cmd := Cmd_cancel \<rparr>))"

definition call_back :: "callback list \<Rightarrow> task \<Rightarrow> task" where
  "call_back cs t = t \<lparr> t_calls := t_calls t @ cs \<rparr>"

definition complete :: "callback list \<Rightarrow> task \<Rightarrow> task" where
  "complete cs t = call_back cs (t \<lparr> t_completed := True \<rparr>)"

text \<open>
  \<open>_connect\<close>: the error of a pool that has no connection to give is swallowed, and the task
  tries again on its next turn; any other one ends it. None stands for a clock that is read more
  often than there are readings; the first component is undefined behaviour or nothing.
\<close>

definition connect_failed :: "pq_error \<Rightarrow> task \<Rightarrow> system \<Rightarrow> unit result \<times> task \<times> system" where
  "connect_failed err t s =
    (case err of
       PoolAssignException m \<Rightarrow> (Inr (), t, s)
     | UndefinedBehaviour m \<Rightarrow> (Inl err, t, s)
     | PqException m \<Rightarrow> (Inr (), complete [LockError err] t, s))"

definition task_acquire ::
  "(int \<Rightarrow> string) \<Rightarrow> env \<Rightarrow> int list \<Rightarrow> nat \<Rightarrow> string \<Rightarrow> system \<Rightarrow> (unit result \<times> system) option" where
  "task_acquire num_to_str e clk d cs s =
    (if db_conn (sys_pool s) d = None then
       (case get_connection num_to_str e clk d cs 1 (sys_pool s) of
          None \<Rightarrow> None
        | Some (Inl err, P) \<Rightarrow> Some (Inl err, s \<lparr> sys_pool := P \<rparr>)
        | Some (Inr p, P) \<Rightarrow> Some (Inr (), s \<lparr> sys_pool := set_db_conn d (Some p) P \<rparr>))
     else Some (Inr (), s))"

text \<open>The body of the \<open>try\<close> block, up to the new lock.\<close>

definition open_and_lock :: "env \<Rightarrow> nat \<Rightarrow> system \<Rightarrow> nat result \<times> system" where
  "open_and_lock e d s =
    (case on_conn d (open_connection e) s of
       (Inl err, s) \<Rightarrow> (Inl err, s)
     | (Inr _, s) \<Rightarrow> make_lock e d s)"

definition task_open ::
  "(int \<Rightarrow> string) \<Rightarrow> env \<Rightarrow> int list \<Rightarrow> nat \<Rightarrow> string \<Rightarrow> system \<Rightarrow> (nat result \<times> system) option" where
  "task_open num_to_str e clk d cs s =
    (case task_acquire num_to_str e clk d cs s of
       None \<Rightarrow> None
     | Some (Inl err, s) \<Rightarrow> Some (Inl err, s)
     | Some (Inr _, s) \<Rightarrow>
         (case on_conn d (\<lambda>c. (Inr (), reserve e c)) s of
            (Inl err, s) \<Rightarrow> Some (Inl err, s)
          | (Inr _, s) \<Rightarrow>
              (case task_acquire num_to_str e clk d cs s of
                 None \<Rightarrow> None
               | Some (Inl err, s) \<Rightarrow> Some (Inl err, s)
               | Some (Inr _, s) \<Rightarrow> Some (open_and_lock e d s))))"

definition task_connect ::
  "(int \<Rightarrow> string) \<Rightarrow> env \<Rightarrow> int list \<Rightarrow> nat \<Rightarrow> task \<Rightarrow> system \<Rightarrow> (unit result \<times> task \<times> system) option" where
  "task_connect num_to_str e clk d t s =
    (if t_format t < now e then
       Some (Inr (), complete [LockError (PqException ''Connection request has time out!'')] t, s)
     else case task_open num_to_str e clk d (t_sql t) s of
       None \<Rightarrow> None
     | Some (Inl err, s) \<Rightarrow> Some (connect_failed err t s)
     | Some (Inr k, s) \<Rightarrow> Some (Inr (), complete [LockOk k] t, s))"

text \<open>
  \<open>conn()\<close> goes through \<open>_conn\<close> of the database at every call; a database whose connection was
  closed or stolen in the meantime has none.
\<close>

definition has_conn :: "nat \<Rightarrow> system \<Rightarrow> bool" where
  "has_conn d s =
    (case db_conn (sys_pool s) d of None \<Rightarrow> False | Some p \<Rightarrow> conns (sys_pool s) p \<noteq> None)"

abbreviation null_conn :: pq_error where
  "null_conn \<equiv> UndefinedBehaviour ''null connection''"

text \<open>\<open>_send_query\<close>, \<open>_send_prepare\<close> and \<open>_send_query_prepared\<close> differ in the call of libpq only.\<close>

definition send_command :: "turn \<Rightarrow> task \<Rightarrow> unit result \<times> task" where
  "send_command n t =
    (if tn_send_ok n then (Inr (), t \<lparr> t_ev := True \<rparr>) else (Inl (PqException (tn_message n)), t))"

definition cancel_command :: "turn \<Rightarrow> task \<Rightarrow> unit result \<times> task" where
  "cancel_command n t =
    (if tn_get_cancel n \<and> \<not> tn_cancel_ok n then (Inl (PqException (tn_message n)), t) else (Inr (), t))"

text \<open>The first turn of a command that is not a connect.\<close>

definition start_command :: "turn \<Rightarrow> task \<Rightarrow> unit result \<times> task" where
  "start_command n t =
    (case t_cmd t of
       Cmd_query \<Rightarrow> send_command n t
     | Cmd_prepare \<Rightarrow> send_command n t
     | Cmd_query_prepared \<Rightarrow> send_command n t
     | Cmd_cancel \<Rightarrow> cancel_command n t
     | _ \<Rightarrow> (Inr (), t))"

definition consume_data :: "turn \<Rightarrow> bool result" where
  "consume_data n =
    (if \<not> tn_consume_ok n then Inl (PqException ''Unable to consume input data'') else Inr (\<not> tn_busy n))"

text \<open>
  \<open>run_task\<close>: an exception of a command goes to \<open>_cb\<close> and leaves the rest as it is.
\<close>

definition run_command :: "turn \<Rightarrow> task \<Rightarrow> task" where
  "run_command n t =
    (if t_cmd t = Cmd_none then t
     else if t_cmd t \<noteq> Cmd_sent then
       (case start_command n t of
          (Inl err, t) \<Rightarrow> call_back [CbError err] t
        | (Inr _, t) \<Rightarrow> t \<lparr> t_cmd := Cmd_sent \<rparr>)
     else
       (case consume_data n of
          Inl err \<Rightarrow> call_back [CbError err] t
        | Inr idle \<Rightarrow> if \<not> idle then t else complete (map CbResult (tn_results n)) t))"

definition run_task ::
  "(int \<Rightarrow> string) \<Rightarrow> env \<Rightarrow> int list \<Rightarrow> turn \<Rightarrow> nat \<Rightarrow> task \<Rightarrow> system \<Rightarrow> (unit result \<times> task \<times> system) option" where
  "run_task num_to_str e clk n d t s =
    (if \<not> t_has_cb t \<and> \<not> t_has_lock_cb t then Some (Inr (), t, s)
     else if t_cmd t = Cmd_connect then task_connect num_to_str e clk d t s
     else if t_cmd t \<noteq> Cmd_none \<and> \<not> has_conn d s then Some (Inl null_conn, t, s)
     else Some (Inr (), run_command n t, s))"

definition requeue_front :: "task \<Rightarrow> bool" where
  "requeue_front t \<longleftrightarrow> \<not> t_completed t"

text \<open>
  \<open>run_now\<close>: all results are read and the last one is returned. A cancel is not sent; a
  connect goes on to read results from the connection of the database, which may be null.
\<close>

definition drain_now :: "nat \<Rightarrow> turn \<Rightarrow> task \<Rightarrow> system \<Rightarrow> nat option result \<times> task \<times> system" where
  "drain_now d n t s =
    (if \<not> has_conn d s then (Inl null_conn, t, s)
     else (Inr (if tn_results n = [] then None else Some (last (tn_results n))),
       t \<lparr> t_cmd := Cmd_sent, t_completed := True \<rparr>, s))"

definition run_now ::
  "(int \<Rightarrow> string) \<Rightarrow> env \<Rightarrow> int list \<Rightarrow> turn \<Rightarrow> nat \<Rightarrow> task \<Rightarrow> system \<Rightarrow>
     (nat option result \<times> task \<times> system) option" where
  "run_now num_to_str e clk n d t s =
    (let t = t \<lparr> t_ev := False \<rparr> in
     case t_cmd t of
       Cmd_none \<Rightarrow> Some (Inr None, t, s)
     | Cmd_sent \<Rightarrow> Some (drain_now d n t s)
     | Cmd_cancel \<Rightarrow> Some (drain_now d n t s)
     | Cmd_connect \<Rightarrow>
         (case task_connect num_to_str e clk d t s of
            None \<Rightarrow> None
          | Some (Inl err, t, s) \<Rightarrow> Some (Inl err, t, s)
          | Some (Inr _, t, s) \<Rightarrow> Some (drain_now d n t s))
     | _ \<Rightarrow>
         if \<not> has_conn d s then Some (Inl null_conn, t, s)
         else (case start_command n t of
            (Inl err, t) \<Rightarrow> Some (Inl err, t, s)
          | (Inr _, t) \<Rightarrow> Some (drain_now d n t s)))"

text \<open>
  The reader switches to single rows after sending and hands out one result per turn; the null
  result at the end completes it. It does not send a cancel either, and ignores a connect.
\<close>

definition reader_send :: "turn \<Rightarrow> task \<Rightarrow> unit result \<times> task" where
  "reader_send n t =
    (case t_cmd t of
       Cmd_query \<Rightarrow> send_command n t
     | Cmd_prepare \<Rightarrow> send_command n t
     | Cmd_query_prepared \<Rightarrow> send_command n t
     | _ \<Rightarrow> (Inr (), t))"

definition reader_start :: "turn \<Rightarrow> task \<Rightarrow> unit result \<times> task" where
  "reader_start n t =
    (case reader_send n t of
       (Inl err, t) \<Rightarrow> (Inl err, t)
     | (Inr _, t) \<Rightarrow>
         if \<not> tn_single_row_ok n then (Inl (PqException (tn_message n)), t)
         else (Inr (), t \<lparr> t_cmd := Cmd_sent \<rparr>))"

definition reader_take :: "turn \<Rightarrow> task \<Rightarrow> nat option \<times> task" where
  "reader_take n t =
    (case tn_results n of [] \<Rightarrow> (None, t \<lparr> t_completed := True \<rparr>) | r # rs \<Rightarrow> (Some r, t))"

definition reader_run_now :: "nat \<Rightarrow> turn \<Rightarrow> system \<Rightarrow> task \<Rightarrow> nat option result \<times> task" where
  "reader_run_now d n s t =
    (if t_cmd t = Cmd_none then (Inr None, t)
     else if \<not> has_conn d s then (Inl null_conn, t)
     else
       case (if t_cmd t = Cmd_sent then (Inr (), t) else reader_start n t) of
         (Inl err, t) \<Rightarrow> (Inl err, t)
       | (Inr _, t) \<Rightarrow> (let (r, t) = reader_take n t in (Inr r, t)))"

definition reader_run_task :: "nat \<Rightarrow> turn \<Rightarrow> system \<Rightarrow> task \<Rightarrow> unit result \<times> task" where
  "reader_run_task d n s t =
    (if t_cmd t = Cmd_none then (Inr (), t)
     else if t_cmd t = Cmd_cancel then (Inr (), t \<lparr> t_cmd := Cmd_sent \<rparr>)
     else if \<not> has_conn d s then (Inl null_conn, t)
     else if t_cmd t \<noteq> Cmd_sent then
       (case reader_start n t of
          (Inl err, t) \<Rightarrow> (Inr (), call_back [CbError err] t)
        | (Inr _, t) \<Rightarrow> (Inr (), t))
     else
       (case consume_data n of
          Inl err \<Rightarrow> (Inr (), call_back [CbError err] t)
        | Inr idle \<Rightarrow>
            if \<not> idle then (Inr (), t)
            else let (r, t) = reader_take n t in
              (Inr (), call_back [case r of None \<Rightarrow> CbNull | Some k \<Rightarrow> CbResult k] t)))"

section \<open>Runs\<close>

text \<open>
  The queue runs a task that asks to be queued again, one turn after the other. A turn has the
  answers of libpq, a clock reading of the pool and the answers to the task. None is a run in
  which undefined behaviour occurs.
\<close>

primrec run_turns ::
  "(int \<Rightarrow> string) \<Rightarrow> nat \<Rightarrow> (env \<times> int list \<times> turn) list \<Rightarrow> task \<Rightarrow> system \<Rightarrow> (task \<times> system) option" where
  "run_turns num_to_str d [] t s = Some (t, s)"
| "run_turns num_to_str d (x # xs) t s =
    (if \<not> requeue_front t then Some (t, s)
     else case x of (e, clk, n) \<Rightarrow>
       (case run_task num_to_str e clk n d t s of
          Some (Inr _, t, s) \<Rightarrow> run_turns num_to_str d xs t s
        | _ \<Rightarrow> None))"

text \<open>A task of database \<open>d\<close> among the calls of the rest of the program.\<close>

inductive task_step ::
  "(connection \<Rightarrow> bool) \<Rightarrow> (int \<Rightarrow> string) \<Rightarrow> nat \<Rightarrow> task \<times> system \<Rightarrow> task \<times> system \<Rightarrow> bool"
  for ok num_to_str d where
  turn: "requeue_front t \<Longrightarrow> run_task num_to_str e [c] n d t s = Some (Inr (), t', s') \<Longrightarrow> now e \<le> c \<Longrightarrow>
    may_steal ok e d s \<Longrightarrow> task_step ok num_to_str d (t, s) (t', s')"
| call: "sys_step ok num_to_str s s' \<Longrightarrow> task_step ok num_to_str d (t, s) (t, s')"

inductive_cases task_stepE: "task_step ok num_to_str d (t, s) (t', s')"

section \<open>Commands\<close>

lemmas command_defs = run_task_def run_command_def start_command_def send_command_def
  cancel_command_def consume_data_def requeue_front_def complete_def call_back_def

definition sends :: "task \<Rightarrow> bool" where
  "sends t \<longleftrightarrow> t_cmd t \<in> {Cmd_query, Cmd_prepare, Cmd_query_prepared} \<and> t_has_cb t \<and> \<not> t_completed t"

lemma run_task_send:
  assumes "sends t" "has_conn d s"
  shows "run_task num_to_str e clk n d t s = Some (Inr (),
    if tn_send_ok n then t \<lparr> t_cmd := Cmd_sent, t_ev := True \<rparr>
    else t \<lparr> t_calls := t_calls t @ [CbError (PqException (tn_message n))] \<rparr>, s)"
  using assms by (auto simp: sends_def command_defs)

lemma run_task_busy:
  assumes "t_cmd t = Cmd_sent" "has_conn d s" "tn_consume_ok n" "tn_busy n"
  shows "run_task num_to_str e clk n d t s = Some (Inr (), t, s)"
  using assms by (simp add: command_defs)

lemma run_task_idle:
  assumes "t_cmd t = Cmd_sent" "t_has_cb t" "has_conn d s" "tn_consume_ok n" "\<not> tn_busy n"
  shows "run_task num_to_str e clk n d t s =
    Some (Inr (), t \<lparr> t_completed := True, t_calls := t_calls t @ map CbResult (tn_results n) \<rparr>, s)"
  using assms by (simp add: command_defs)

lemma run_turns_done [simp]: "t_completed t \<Longrightarrow> run_turns num_to_str d xs t s = Some (t, s)"
  by (cases xs) (simp_all add: requeue_front_def)

lemma run_turns_wait:
  assumes "t_cmd t = Cmd_sent" "has_conn d s" "\<forall>(e, clk, n) \<in> set bs. tn_consume_ok n \<and> tn_busy n"
  shows "run_turns num_to_str d (bs @ xs) t s = run_turns num_to_str d xs t s"
  using assms by (induction bs) (cases xs; auto simp: run_task_busy requeue_front_def)+

text \<open>
  C30: A task with a command is sent on its first turn, waits as long as libpq is busy, and
  completes on the first turn on which libpq is not: then \<open>_cb\<close> has been called with exactly
  the results of the command, in order, and further turns change nothing.
\<close>

theorem command_completes:
  assumes "sends t" "has_conn d s" "tn_send_ok n0"
    and "\<forall>(e, clk, n) \<in> set bs. tn_consume_ok n \<and> tn_busy n"
    and "tn_consume_ok n1" "\<not> tn_busy n1"
  shows "run_turns num_to_str d ((e0, clk0, n0) # bs @ (e1, clk1, n1) # xs) t s =
    Some (t \<lparr> t_cmd := Cmd_sent, t_completed := True, t_ev := True,
      t_calls := t_calls t @ map CbResult (tn_results n1) \<rparr>, s)"
proof -
  let ?t = "t \<lparr> t_cmd := Cmd_sent, t_ev := True \<rparr>"
  have q: "requeue_front t" "requeue_front ?t" "t_has_cb ?t" "t_cmd ?t = Cmd_sent"
    using assms(1) by (simp_all add: sends_def requeue_front_def)
  have "run_turns num_to_str d ((e0, clk0, n0) # bs @ (e1, clk1, n1) # xs) t s =
      run_turns num_to_str d ((e1, clk1, n1) # xs) ?t s"
    using q assms(3) run_task_send [OF assms(1,2)] run_turns_wait [OF q(4) assms(2,4)] by simp
  also have "\<dots> = Some (?t \<lparr> t_completed := True, t_calls := t_calls ?t @ map CbResult (tn_results n1) \<rparr>, s)"
    using q(2) run_task_idle [OF q(4,3) assms(2,5,6)] by simp
  finally show ?thesis by simp
qed

text \<open>
  A command that libpq refuses to send is reported to \<open>_cb\<close> but not given up: the task
  stays in the queue, and every turn tries to send it and reports the error again.
\<close>

theorem refused_command_repeats:
  assumes "sends t" "has_conn d s" "\<not> tn_send_ok n"
  shows "run_turns num_to_str d (replicate k (e, clk, n)) t s =
    Some (t \<lparr> t_calls := t_calls t @ replicate k (CbError (PqException (tn_message n))) \<rparr>, s)"
  using assms(1)
proof (induction k arbitrary: t)
  case (Suc k)
  let ?t = "t \<lparr> t_calls := t_calls t @ [CbError (PqException (tn_message n))] \<rparr>"
  have "sends ?t" "requeue_front t" using Suc.prems by (simp_all add: sends_def requeue_front_def)
  then show ?case
    using Suc.IH [of ?t] run_task_send [OF Suc.prems assms(2)] assms(3) by simp
qed simp

section \<open>Connection requests\<close>

text \<open>The stages of \<open>_connect\<close>, for a task with the connection string of its database.\<close>

lemma task_acquire: "task_acquire num_to_str e clk d (db_string s d) s = acquire num_to_str e clk d 1 s"
  by (simp add: task_acquire_def acquire_def)

lemma acquire_rest: "acquire num_to_str e clk d tm s = Some (r, s') \<Longrightarrow> db_string s' = db_string s"
  by (auto simp: acquire_def split: if_splits option.splits sum.splits)

lemma on_conn_rest: "on_conn d f s = (r, s') \<Longrightarrow> db_string s' = db_string s"
  by (auto simp: on_conn_def split: option.splits)

lemma on_conn_held:
  "on_conn d f s = (Inr x, s') \<Longrightarrow> db_conn (sys_pool s') d = db_conn (sys_pool s) d \<and> db_conn (sys_pool s) d \<noteq> None"
  by (auto simp: on_conn_def split: option.splits)

lemma task_open_stages:
  assumes "task_open num_to_str e clk d (db_string s d) s = Some (r, s')"
  obtains (refused) err where "acquire num_to_str e clk d 1 s = Some (Inl err, s')" "r = Inl err"
  | (lost) s1 err where "acquire num_to_str e clk d 1 s = Some (Inr (), s1)"
      "on_conn d (\<lambda>c. (Inr (), reserve e c)) s1 = (Inl err, s')" "r = Inl err"
  | (held) s1 s2 where "acquire num_to_str e clk d 1 s = Some (Inr (), s1)"
      "on_conn d (\<lambda>c. (Inr (), reserve e c)) s1 = (Inr (), s2)" "open_and_lock e d s2 = (r, s')"
proof -
  obtain r1 s1 where a: "acquire num_to_str e clk d 1 s = Some (r1, s1)"
    using assms by (auto simp: task_open_def task_acquire split: option.splits)
  show ?thesis
  proof (cases r1)
    case (Inl err)
    then show ?thesis using refused assms a by (simp add: task_open_def task_acquire)
  next
    case (Inr u)
    obtain r2 s2 where b: "on_conn d (\<lambda>c. (Inr (), reserve e c)) s1 = (r2, s2)" by fastforce
    have c: "task_acquire num_to_str e clk d (db_string s d) s2 = Some (Inr (), s2)" if "r2 = Inr ()"
      using on_conn_held [of d "\<lambda>c. (Inr (), reserve e c)" s1 "()" s2] b that by (auto simp: task_acquire_def)
    show ?thesis
      using assms a b c Inr lost held by (cases r2) (auto simp: task_open_def task_acquire)
  qed
qed

lemma make_lock_rest: "make_lock e d s = (r, s') \<Longrightarrow> db_string s' = db_string s"
  using on_conn_rest [of d "connection_lock_ctor e" s]
  by (auto simp: make_lock_def split: prod.splits sum.splits)

lemma open_and_lock_rest: "open_and_lock e d s = (r, s') \<Longrightarrow> db_string s' = db_string s"
  using on_conn_rest [of d "open_connection e" s] make_lock_rest [of e d]
  by (auto simp: open_and_lock_def split: prod.splits sum.splits)

lemma task_open_rest:
  assumes "task_open num_to_str e clk d (db_string s d) s = Some (r, s')"
  shows "db_string s' = db_string s"
  using assms
  by (cases rule: task_open_stages) (simp_all add: acquire_rest on_conn_rest open_and_lock_rest)

lemma open_connection_open: "fst (open_connection e c) = Inr u \<Longrightarrow> c_conn (snd (open_connection e c))"
  by (auto simp: open_connection_def Let_def split: if_splits)

text \<open>A lock that is handed out refers to the connection of the database, open and at work.\<close>

lemma open_and_lock_ok:
  assumes "open_and_lock e d s = (Inr k, s')"
  shows "\<exists>p. db_conn (sys_pool s') d = Some p \<and> locks s' k = Some (p, 1) \<and>
    (\<exists>c. conns (sys_pool s') p = Some c \<and> c_conn c \<and> running c)"
  using assms
  by (auto simp: open_connection_open running_def conn_at_def open_and_lock_def make_lock_def on_conn_def connection_lock_ctor_def start_work_def
      touch_def upd_conn_def split: prod.splits sum.splits option.splits if_splits)

lemma task_open_ok:
  assumes "task_open num_to_str e clk d (db_string s d) s = Some (Inr k, s')"
  shows "\<exists>p. db_conn (sys_pool s') d = Some p \<and> locks s' k = Some (p, 1) \<and>
    (\<exists>c. conns (sys_pool s') p = Some c \<and> c_conn c \<and> running c)"
  using assms by (cases rule: task_open_stages) (auto dest!: open_and_lock_ok)

text \<open>The pool's invariants survive a connection request as they survive a call.\<close>

context sys_invariant
begin

lemma open_and_lock_J:
  assumes "J (sys_pool s)" "who d"
  shows "J (sys_pool (snd (open_and_lock e d s)))"
proof -
  obtain r s1 where s1: "on_conn d (open_connection e) s = (r, s1)" by fastforce
  have J1: "J (sys_pool s1)" using on_conn_work [OF assms open_connection.conn_work_axioms, of e] s1 by simp
  have "J (sys_pool (snd (make_lock e d s1)))"
    using on_conn_work [OF J1 assms(2) lock_ctor.conn_work_axioms, of e]
    by (auto simp: make_lock_def split: prod.splits sum.splits)
  then show ?thesis using s1 J1 by (simp add: open_and_lock_def split: sum.split)
qed

lemma task_open_J:
  assumes J: "J (sys_pool s)" and c: "now e \<le> c" and may: "may_steal ok e d s"
    and d: "who d" and op: "task_open num_to_str e [c] d (db_string s d) s = Some (r, s')"
  shows "J (sys_pool s')"
proof -
  have r: "J (sys_pool s2)" if "J (sys_pool s1)" "on_conn d (\<lambda>c. (Inr (), reserve e c)) s1 = (x, s2)" for s1 s2 x
    using on_conn_work [OF that(1) d, of "\<lambda>c. (Inr (), reserve e c)"] reserve.conn_work_axioms that(2) by simp
  show ?thesis
    using op
  proof (cases rule: task_open_stages)
    case refused
    then show ?thesis using acquire_J [OF J c may d] by simp
  next
    case lost
    then show ?thesis using acquire_J [OF J c may d] r by blast
  next
    case (held s1 s2)
    then show ?thesis using open_and_lock_J [OF r [OF acquire_J [OF J c may d held(1)] held(2)] d, of e] by simp
  qed
qed

lemma task_connect_J:
  assumes J: "J (sys_pool s)" and c: "now e \<le> c" and may: "may_steal ok e d s"
    and d: "who d" and sql: "t_sql t = db_string s d"
    and op: "task_connect num_to_str e [c] d t s = Some (r, t', s')"
  shows "J (sys_pool s')"
  using op sql J task_open_J [OF J c may d]
  by (auto simp: task_connect_def connect_failed_def split: if_splits option.splits sum.splits pq_error.splits)

end

text \<open>What a turn of a connection request does to the task.\<close>

lemma task_connect_cases:
  assumes "task_connect num_to_str e clk d t s = Some (Inr (), t', s')" "t_sql t = db_string s d"
  shows "db_string s' = db_string s \<and>
    (t' = t \<or> (\<exists>err. t' = complete [LockError err] t) \<or> (\<exists>k. t' = complete [LockOk k] t))"
  using assms task_open_rest [of num_to_str e clk d s]
  by (auto simp: task_connect_def connect_failed_def split: if_splits option.splits sum.splits pq_error.splits)

text \<open>No call changes the connection string of a database.\<close>

lemma drop_lock_rest: "drop_lock e k s = (r, s') \<Longrightarrow> db_string s' = db_string s"
  by (auto simp: drop_lock_def split: option.splits if_splits)

lemma drop_lock_snd_rest [simp]: "db_string (snd (drop_lock e k s)) = db_string s"
  by (rule drop_lock_rest [OF surjective_pairing])

lemma reset_lock_rest: "reset_lock e d s = (r, s') \<Longrightarrow> db_string s' = db_string s"
  by (auto simp: reset_lock_def dest: drop_lock_rest split: option.splits)

lemma lock_and_open_rest: "lock_and_open e d s = (r, s') \<Longrightarrow> db_string s' = db_string s"
  by (auto simp: lock_and_open_def split: prod.splits sum.splits
      dest!: make_lock_rest on_conn_rest)

lemma db_open_connection_rest:
  "db_open_connection num_to_str e clk d tm s = Some (r, s') \<Longrightarrow> db_string s' = db_string s"
  by (auto simp: db_open_connection_def copy_lock_def split: option.splits prod.splits sum.splits
      dest!: acquire_rest on_conn_rest lock_and_open_rest)

lemma db_begin_rest: "db_begin num_to_str e clk d s = Some (r, s') \<Longrightarrow> db_string s' = db_string s"
  by (auto simp: db_begin_def split: option.splits prod.splits sum.splits
      dest!: db_open_connection_rest reset_lock_rest on_conn_rest)

lemma db_end_rest: "db_end f e d s = (r, s') \<Longrightarrow> db_string s' = db_string s"
  by (auto simp: db_end_def split: prod.splits sum.splits dest!: on_conn_rest reset_lock_rest)

lemma db_close_rest: "db_close e d s = (r, s') \<Longrightarrow> db_string s' = db_string s"
  by (auto simp: db_close_def split: if_splits prod.splits sum.splits dest!: on_conn_rest)

lemma sys_exec_rest:
  assumes "sys_exec num_to_str e clk a s = Some (r, s')"
  shows "db_string s' = db_string s"
  using assms
  by (cases a) (auto simp: db_commit_def db_rollback_def db_set_savepoint_def db_release_savepoint_def
      db_rollback_savepoint_def
      dest: db_open_connection_rest db_begin_rest db_end_rest db_close_rest on_conn_rest drop_lock_rest)

text \<open>
  A request in the queue: \<open>_lock_cb\<close> has not been called while the task waits, and has been
  called once when it has completed.
\<close>

fun lock_call :: "callback \<Rightarrow> bool" where
  "lock_call (LockOk k) = True"
| "lock_call (LockError err) = True"
| "lock_call _ = False"

definition answered :: "task \<Rightarrow> bool" where
  "answered t \<longleftrightarrow> (if t_completed t then \<exists>x. t_calls t = [x] \<and> lock_call x else t_calls t = [])"

definition request :: "nat \<Rightarrow> int \<Rightarrow> task \<times> system \<Rightarrow> bool" where
  "request d m = (\<lambda>(t, s). t_cmd t = Cmd_connect \<and> t_has_lock_cb t \<and> t_sql t = db_string s d \<and> answered t \<and>
     pool_wf (sys_pool s) \<and> max_conn (sys_pool s) = m)"

lemma request_turn:
  assumes "request d m (t, s)" "requeue_front t" "run_task num_to_str e [c] n d t s = Some (Inr (), t', s')" "now e \<le> c"
  shows "request d m (t', s')"
proof -
  have op: "task_connect num_to_str e [c] d t s = Some (Inr (), t', s')" and sql: "t_sql t = db_string s d"
    using assms(1,3) by (simp_all add: request_def run_task_def)
  have may: "may_steal any_conn e d s" by (simp add: may_steal_def any_conn_def split: assignment.split)
  show ?thesis
    using assms(1,2) task_connect_cases [OF op sql] wf_inv.task_connect_J [OF _ assms(4) may TrueI sql op, of m]
    by (auto simp: request_def answered_def requeue_front_def complete_def call_back_def)
qed

interpretation request_run: step_invariant "request d m" "task_step any_conn num_to_str d" "request d m"
  for d m num_to_str
proof
  show "request d m y" if "request d m x" "task_step any_conn num_to_str d x y" for x y
    using that(2)
  proof cases
    case (turn t e c n s t' s')
    then show ?thesis using that(1) request_turn by simp
  next
    case (call s s' t)
    from call(3) obtain e c a r where a: "sys_exec num_to_str e [c] a s = Some (r, s')" "now e \<le> c"
        "allowed any_conn e a s" by cases
    then show ?thesis
      using that(1) call wf_inv.exec_J [OF _ a(1,2,3), of m] sys_exec_rest [OF a(1)] by (simp add: request_def)
  qed
qed simp

text \<open>
  C16: A connection request calls its callback at most once, whatever calls the rest of the
  program makes between its turns: not before it completes, and exactly once when it does, with
  a lock or an error. Its turns keep every pool within its bound.
\<close>

theorem request_answered_once:
  assumes "(sys_step any_conn num_to_str)\<^sup>*\<^sup>* (sys_init m strs) s0"
    and "(task_step any_conn num_to_str d)\<^sup>*\<^sup>*
      (start_connect e (strs d) timeout_ms (task_init False True), s0) (t, s)"
  shows "(if t_completed t then \<exists>x. t_calls t = [x] \<and> lock_call x else t_calls t = []) \<and>
    (\<forall>cs l. pools (sys_pool s) cs = Some l \<longrightarrow> int (length l) \<le> max 1 m)"
proof -
  have "db_string s0 = strs"
    using assms(1)
  proof (induction rule: rtranclp_induct)
    case (step y z)
    from step(2) show ?case by cases (use step(3) sys_exec_rest in metis)
  qed (simp add: sys_init_def)
  then have "request d m (start_connect e (strs d) timeout_ms (task_init False True), s0)"
    using wf_run.reachable_inv [of m "sys_init m strs", OF _ assms(1)]
    by (auto simp: request_def start_connect_def task_init_def answered_def init_of_def)
  from request_run.run_inv [OF assms(2) this] have "request d m (t, s)" .
  then show ?thesis by (auto simp: request_def answered_def dest: pool_wfD)
qed

lemma complete_eq [simp]: "complete xs t = complete ys t \<longleftrightarrow> xs = ys"
  by (cases t) (simp add: complete_def call_back_def)

lemma complete_neq: "\<not> t_completed t \<Longrightarrow> t \<noteq> complete xs t"
  by (cases t) (simp add: complete_def call_back_def)

text \<open>
  C29: A connection request ends: the first turn after its time limit completes it, whatever the
  state of the pool; when a turn gives it a lock before that, the lock refers to the connection
  its database holds, which is open and at work.
\<close>

theorem request_ends:
  assumes "t_cmd t = Cmd_connect" "t_has_lock_cb t" "t_sql t = db_string s d" "\<not> t_completed t"
  shows "(t_format t < now e \<longrightarrow> run_task num_to_str e clk n d t s = Some (Inr (),
      t \<lparr> t_completed := True, t_calls := t_calls t @ [LockError (PqException ''Connection request has time out!'')] \<rparr>, s)) \<and>
    (run_task num_to_str e clk n d t s = Some (Inr (), complete [LockOk k] t, s') \<longrightarrow>
      (\<exists>p. db_conn (sys_pool s') d = Some p \<and> locks s' k = Some (p, 1) \<and>
        (\<exists>c. conns (sys_pool s') p = Some c \<and> c_conn c \<and> running c)))"
proof (intro conjI impI)
  show "run_task num_to_str e clk n d t s = Some (Inr (), t \<lparr> t_completed := True,
      t_calls := t_calls t @ [LockError (PqException ''Connection request has time out!'')] \<rparr>, s)" if "t_format t < now e"
    using assms that by (simp add: run_task_def task_connect_def complete_def call_back_def)
  assume r: "run_task num_to_str e clk n d t s = Some (Inr (), complete [LockOk k] t, s')"
  from r have "task_open num_to_str e clk d (db_string s d) s = Some (Inr k, s')"
    using assms complete_neq [OF assms(4)]
    by (auto simp: run_task_def task_connect_def connect_failed_def
        split: if_splits option.splits sum.splits pq_error.splits)
  then show "\<exists>p. db_conn (sys_pool s') d = Some p \<and> locks s' k = Some (p, 1) \<and>
      (\<exists>c. conns (sys_pool s') p = Some c \<and> c_conn c \<and> running c)"
    by (rule task_open_ok)
qed

section \<open>Synchronous calls\<close>

text \<open>
  \<open>run_now\<close> on a connection request that has no connection yet and whose time is over goes on
  to read results through a null connection.
\<close>

theorem run_now_after_timeout:
  assumes "t_cmd t = Cmd_connect" "t_format t < now e" "db_conn (sys_pool s) d = None"
  shows "\<exists>t'. run_now num_to_str e clk n d t s = Some (Inl null_conn, t', s) \<and> t_completed t'"
  using assms by (simp add: run_now_def task_connect_def drain_now_def has_conn_def complete_def call_back_def)

section \<open>Witnesses\<close>

definition query_task :: task where
  "query_task = start_query ''select 1'' 1 (task_init True False)"

definition held_system :: system where
  "held_system = (sys_init 1 (\<lambda>_. [])) \<lparr> sys_pool :=
     \<lparr> conns = [0 \<mapsto> sample_conn 0 1], pools = [[] \<mapsto> [0]], db_conn = [0 \<mapsto> 0],
       next_conn = 1, last_stolen_conn_id = [], max_conn = 1 \<rparr> \<rparr>"

definition sent_turn :: turn where
  "sent_turn = \<lparr> tn_send_ok = True, tn_get_cancel = False, tn_cancel_ok = False, tn_consume_ok = True,
     tn_busy = True, tn_single_row_ok = True, tn_results = [], tn_message = [] \<rparr>"

definition result_turn :: turn where
  "result_turn = sent_turn \<lparr> tn_busy := False, tn_results := [3, 4] \<rparr>"

definition refused_turn :: turn where
  "refused_turn = sent_turn \<lparr> tn_send_ok := False, tn_message := ''no connection to the server'' \<rparr>"

lemma query_task_sends: "sends query_task" "has_conn 0 held_system"
  by (simp_all add: sends_def query_task_def start_query_def task_init_def has_conn_def held_system_def)

theorem command_completes_witness:
  "run_turns sample_str 0 [(sample_env, [], sent_turn), (sample_env, [], sent_turn), (sample_env, [], result_turn)]
     query_task held_system =
   Some (query_task \<lparr> t_cmd := Cmd_sent, t_completed := True, t_ev := True, t_calls := [CbResult 3, CbResult 4] \<rparr>,
     held_system)"
  using command_completes [OF query_task_sends, where ?n0.0 = sent_turn and ?n1.0 = result_turn
      and bs = "[(sample_env, [], sent_turn)]" and xs = "[]" and ?e0.0 = sample_env and ?e1.0 = sample_env
      and ?clk0.0 = "[]" and ?clk1.0 = "[]" and num_to_str = sample_str]
  by (simp add: result_turn_def sent_turn_def query_task_def start_query_def task_init_def)

theorem refused_command_repeats_witness:
  "run_turns sample_str 0 (replicate 2 (sample_env, [], refused_turn)) query_task held_system =
   Some (query_task \<lparr> t_calls := [CbError (PqException ''no connection to the server''),
     CbError (PqException ''no connection to the server'')] \<rparr>, held_system)"
  using refused_command_repeats [OF query_task_sends, where n = refused_turn and k = 2 and e = sample_env
      and clk = "[]" and num_to_str = sample_str]
  by (simp add: refused_turn_def sent_turn_def query_task_def start_query_def task_init_def numeral_2_eq_2)

definition request_task :: task where
  "request_task = start_connect sample_env ''host=db'' 5000 (task_init False True)"

lemma request_served:
  "map_option (\<lambda>(r, t, s). (r, t)) (run_task sample_str sample_env [1000] sent_turn 0 request_task (one_host 2))
   = Some (Inr (), complete [LockOk 0] request_task)"
  by (simp add: run_defs run_task_def task_connect_def task_open_def task_acquire_def open_and_lock_def request_task_def
      start_connect_def task_init_def)

lemma one_host_may_steal: "may_steal any_conn sample_env 0 (one_host 2)"
  by (simp add: may_steal_def any_conn_def split: assignment.split)

theorem request_answered_once_witness:
  "\<exists>(t :: task) s :: system. t_completed t \<and> (\<exists>x. t_calls t = [x] \<and> lock_call x) \<and>
     (\<forall>cs l. pools (sys_pool s) cs = Some l \<longrightarrow> int (length l) \<le> 2)"
proof -
  from request_served obtain s where s: "run_task sample_str sample_env [1000] sent_turn 0 request_task (one_host 2)
      = Some (Inr (), complete [LockOk 0] request_task, s)" by auto
  have "task_step any_conn sample_str 0 (request_task, one_host 2) (complete [LockOk 0] request_task, s)"
    by (rule task_step.turn [OF _ s _ one_host_may_steal])
      (simp_all add: requeue_front_def request_task_def start_connect_def task_init_def sample_env_def)
  then have "(task_step any_conn sample_str 0)\<^sup>*\<^sup>*
      (start_connect sample_env ((\<lambda>_. ''host=db'') (0 :: nat)) 5000 (task_init False True),
       sys_init 2 (\<lambda>_. ''host=db'')) (complete [LockOk 0] request_task, s)"
    by (simp add: request_task_def one_host_def r_into_rtranclp)
  from request_answered_once [OF rtranclp.rtrancl_refl this] show ?thesis
    by (intro exI [of _ "complete [LockOk 0] request_task"] exI [of _ s]) (auto simp: complete_def call_back_def)
qed

definition late_env :: env where
  "late_env = sample_env \<lparr> now := 7000 \<rparr>"

theorem request_ends_witness:
  "\<exists>s'. run_task sample_str sample_env [1000] sent_turn 0 request_task (one_host 2)
       = Some (Inr (), complete [LockOk 0] request_task, s') \<and> (\<exists>p. locks s' 0 = Some (p, 1)) \<and>
     run_task sample_str late_env [] sent_turn 0 request_task (one_host 2) = Some (Inr (),
       request_task \<lparr> t_completed := True, t_calls := [LockError (PqException ''Connection request has time out!'')] \<rparr>,
       one_host 2)"
proof -
  have t: "t_cmd request_task = Cmd_connect" "t_has_lock_cb request_task"
      "t_sql request_task = db_string (one_host 2) 0" "\<not> t_completed request_task"
      "t_format request_task < now late_env" "t_calls request_task = []"
    by (simp_all add: request_task_def start_connect_def task_init_def one_host_def sys_init_def late_env_def sample_env_def)
  from request_served obtain s where s: "run_task sample_str sample_env [1000] sent_turn 0 request_task (one_host 2)
      = Some (Inr (), complete [LockOk 0] request_task, s)" by auto
  then show ?thesis
    using request_ends [OF t(1-4), of sample_env sample_str "[1000]" sent_turn 0 s]
      request_ends [OF t(1-4), of late_env sample_str "[]" sent_turn 0 s] t(5,6) by auto
qed

end
