(* ===== verification/Geometry.thy ===== *)
theory Geometry
  imports Wire
begin

text \<open>
  The geometric types: classes \<open>point\<close>, \<open>line\<close>, \<open>lseg\<close>, \<open>box\<close>, \<open>path\<close>, \<open>polygon\<close> and
  \<open>circle\<close> of \<open>pg_type_geo_def.h\<close> and \<open>pg_type_geo_def.cpp\<close>, and their binary form in
  \<open>data_parameters.cpp\<close>.

  A \<open>double\<close> is its 64-bit pattern, read as a signed integer: this is what the casts to
  \<open>int64_t*\<close> see. The conversions between doubles and text (\<open>md::str_to_num\<close>,
  \<open>md::num_to_str\<close>) and \<open>md::trim\<close> belong to another library and are arguments.
\<close>

section \<open>Types\<close>

record geo_lib =
  str_to_double :: "string \<Rightarrow> int"
  double_to_str :: "int \<Rightarrow> string"
  md_trim :: "string \<Rightarrow> string"

record point =
  p_x :: int
  p_y :: int

record line =
  l_a :: int
  l_b :: int
  l_c :: int

record lseg =
  ls_a :: point
  ls_b :: point

record box =
  b_high :: point
  b_low :: point

record path =
  pa_closed :: bool
  pa_p :: "point list"

record polygon =
  po_boundbox :: box
  po_p :: "point list"

record circle =
  c_center :: point
  c_radius :: int

definition point_init :: point where "point_init = \<lparr> p_x = 0, p_y = 0 \<rparr>"
definition line_init :: line where "line_init = \<lparr> l_a = 0, l_b = 0, l_c = 0 \<rparr>"
definition lseg_init :: lseg where "lseg_init = \<lparr> ls_a = point_init, ls_b = point_init \<rparr>"
definition box_init :: box where "box_init = \<lparr> b_high = point_init, b_low = point_init \<rparr>"
definition polygon_init :: polygon where "polygon_init = \<lparr> po_boundbox = box_init, po_p = [] \<rparr>"

text \<open>The default constructors of paths and circles leave a member uninitialised, here an argument.\<close>

definition path_init :: "bool \<Rightarrow> path" where "path_init junk = \<lparr> pa_closed = junk, pa_p = [] \<rparr>"
definition circle_init :: "int \<Rightarrow> circle" where "circle_init junk = \<lparr> c_center = point_init, c_radius = junk \<rparr>"

section \<open>Text\<close>

text \<open>The characters that the scanners take for parts of numbers.\<close>

definition num_char :: "char \<Rightarrow> bool" where
  "num_char c \<longleftrightarrow> c_isdigit c \<or> c = CHR ''.'' \<or> c = CHR ''-''"

text \<open>
  The loops that collect numbers: a comma moves on to the next one, other characters are
  skipped, and what comes behind the last number is ignored.
\<close>

fun scan :: "string \<Rightarrow> nat \<Rightarrow> string list \<Rightarrow> string list" where
  "scan [] idx acc = acc"
| "scan (c # s) idx acc =
    (if num_char c then scan s idx (if idx < length acc then acc[idx := acc ! idx @ [c]] else acc)
     else if c = CHR '','' then scan s (idx + 1) acc
     else scan s idx acc)"

definition point_of_string :: "geo_lib \<Rightarrow> string \<Rightarrow> point result" where
  "point_of_string lib str =
    (let s = md_trim lib str; f = scan s 0 [[], []]; sx = f ! 0; sy = f ! 1 in
     if sx = [] \<or> sy = [] then Inl (PqException ''Invalid input for type point'')
     else Inr \<lparr> p_x = str_to_double lib sx, p_y = str_to_double lib sy \<rparr>)"

definition point_to_string :: "geo_lib \<Rightarrow> point \<Rightarrow> string" where
  "point_to_string lib p = ''('' @ double_to_str lib (p_x p) @ '','' @ double_to_str lib (p_y p) @ '')''"

text \<open>\<open>std::count\<close> and \<open>std::string::find\<close> of a character.\<close>

definition count_char :: "char \<Rightarrow> string \<Rightarrow> nat" where
  "count_char c s = length (filter (\<lambda>d. d = c) s)"

definition find_from :: "char \<Rightarrow> string \<Rightarrow> nat \<Rightarrow> nat option" where
  "find_from c s i = (let n = length (takeWhile (\<lambda>d. d \<noteq> c) (drop i s)) in
     if i + n < length s then Some (i + n) else None)"

text \<open>
  The second comma, at \<open>cp\<close>, separates the two points of a text. The constructors cut the first
  one with \<open>s.substr(0, s.size() - cp)\<close>.
\<close>

definition second_comma :: "string \<Rightarrow> nat" where
  "second_comma s = (case find_from CHR '','' s 0 of
     None \<Rightarrow> 0 | Some i \<Rightarrow> (case find_from CHR '','' s (i + 1) of None \<Rightarrow> 0 | Some j \<Rightarrow> j))"

definition two_points :: "geo_lib \<Rightarrow> string \<Rightarrow> (point \<times> point) result" where
  "two_points lib s =
    (let cp = second_comma s in
     bind_result (point_of_string lib (take (length s - cp) s)) (\<lambda>p.
     bind_result (point_of_string lib (drop (cp + 1) s)) (\<lambda>q. Inr (p, q))))"

definition lseg_of_string :: "geo_lib \<Rightarrow> string \<Rightarrow> lseg result" where
  "lseg_of_string lib str =
    (let s = md_trim lib str in
     if count_char CHR '','' s \<noteq> 3 then Inl (PqException ''Invalid input for type lseg'')
     else bind_result (two_points lib s) (\<lambda>(p, q). Inr \<lparr> ls_a = p, ls_b = q \<rparr>))"

definition lseg_to_string :: "geo_lib \<Rightarrow> lseg \<Rightarrow> string" where
  "lseg_to_string lib l = ''['' @ point_to_string lib (ls_a l) @ '','' @ point_to_string lib (ls_b l) @ '']''"

definition box_of_string :: "geo_lib \<Rightarrow> string \<Rightarrow> box result" where
  "box_of_string lib str =
    (let s = md_trim lib str in
     if count_char CHR '','' s \<noteq> 3 then Inl (PqException ''Invalid input for type box'')
     else bind_result (two_points lib s) (\<lambda>(p, q). Inr \<lparr> b_high = p, b_low = q \<rparr>))"

definition box_to_string :: "geo_lib \<Rightarrow> box \<Rightarrow> string" where
  "box_to_string lib b = point_to_string lib (b_high b) @ '','' @ point_to_string lib (b_low b)"

text \<open>
  The line through two points needs the arithmetic of doubles, which is the argument \<open>through\<close>
  (the constructor from two points).
\<close>

definition line_of_string :: "(point \<Rightarrow> point \<Rightarrow> line) \<Rightarrow> geo_lib \<Rightarrow> string \<Rightarrow> line result" where
  "line_of_string through lib str =
    (let s = md_trim lib str; cc = count_char CHR '','' s in
     if cc \<noteq> 1 \<and> cc \<noteq> 3 then Inl (PqException ''Invalid input for type line'')
     else if cc = 3 then bind_result (two_points lib s) (\<lambda>(p, q). Inr (through p q))
     else
       let f = scan s 0 [[], [], []]; sa = f ! 0; sb = f ! 1; sc = f ! 2 in
       if sa = [] \<or> sb = [] \<or> sc = [] then Inl (PqException ''Invalid input for type line'')
       else Inr \<lparr> l_a = str_to_double lib sa, l_b = str_to_double lib sb, l_c = str_to_double lib sc \<rparr>)"

definition line_to_string :: "geo_lib \<Rightarrow> line \<Rightarrow> string" where
  "line_to_string lib l = ''{'' @ double_to_str lib (l_a l) @ '','' @ double_to_str lib (l_b l) @ '','' @
     double_to_str lib (l_c l) @ ''}''"

text \<open>
  The points of paths and polygons: each turn of the loop takes the text up to the comma behind
  the next one. \<open>e\<close> is the variable \<open>end\<close>.
\<close>

lemma find_from_bound: "find_from c s i = Some j \<Longrightarrow> i \<le> j \<and> j < length s"
  by (auto simp: find_from_def Let_def split: if_splits)

function points_loop :: "geo_lib \<Rightarrow> string \<Rightarrow> nat \<Rightarrow> point list \<Rightarrow> point list result" where
  "points_loop lib s e acc =
    (case find_from CHR '','' s (e + 1) of
       None \<Rightarrow> Inr acc
     | Some e1 \<Rightarrow>
         let e2 = (case find_from CHR '','' s (e1 + 1) of None \<Rightarrow> length s | Some e2 \<Rightarrow> e2) in
         (case point_of_string lib (take (e2 - (e + 1)) (drop (e + 1) s)) of
            Inl err \<Rightarrow> Inl err
          | Inr p \<Rightarrow> if e2 = length s then Inr (acc @ [p]) else points_loop lib s e2 (acc @ [p])))"
  by pat_completeness auto
termination
  by (relation "measure (\<lambda>(lib, s, e, acc). length s - e)")
    (auto dest!: find_from_bound split: option.splits)

declare points_loop.simps [simp del]

definition path_of_string :: "geo_lib \<Rightarrow> string \<Rightarrow> path result" where
  "path_of_string lib str =
    (let s = md_trim lib str in
     if count_char CHR '','' s mod 2 = 0 then Inl (PqException ''Invalid input for type path'')
     else bind_result (points_loop lib s 0 []) (\<lambda>ps. Inr \<lparr> pa_closed = (hd s = CHR ''(''), pa_p = ps \<rparr>))"

text \<open>The loops of the conversions to text.\<close>

fun points_text :: "geo_lib \<Rightarrow> point list \<Rightarrow> string" where
  "points_text lib [] = []"
| "points_text lib [p] = point_to_string lib p"
| "points_text lib (p # ps) = point_to_string lib p @ '','' @ points_text lib ps"

definition path_to_string :: "geo_lib \<Rightarrow> path \<Rightarrow> string" where
  "path_to_string lib p =
    (if pa_closed p then ''('' else ''['') @ points_text lib (pa_p p) @ (if pa_closed p then '')'' else '']'')"

definition polygon_of_string :: "geo_lib \<Rightarrow> string \<Rightarrow> polygon result" where
  "polygon_of_string lib str =
    (let s = md_trim lib str in
     if count_char CHR '','' s mod 2 = 0 then Inl (PqException ''Invalid input for type polygon'')
     else bind_result (points_loop lib ('' '' @ s) 0 []) (\<lambda>ps. Inr \<lparr> po_boundbox = box_init, po_p = ps \<rparr>))"

definition polygon_to_string :: "geo_lib \<Rightarrow> polygon \<Rightarrow> string" where
  "polygon_to_string lib p = ''('' @ points_text lib (po_p p) @ '')''"

definition circle_of_string :: "geo_lib \<Rightarrow> string \<Rightarrow> circle result" where
  "circle_of_string lib str =
    (let s = md_trim lib str in
     if count_char CHR '','' s \<noteq> 2 then Inl (PqException ''Invalid input for type circle'')
     else
       let cp = second_comma s in
       bind_result (point_of_string lib (take (length s - cp) s)) (\<lambda>c.
         let sr = filter num_char (drop (cp + 1) s) in
         if sr = [] then Inl (PqException ''Invalid input for type circle'')
         else Inr \<lparr> c_center = c, c_radius = str_to_double lib sr \<rparr>))"

definition circle_to_string :: "geo_lib \<Rightarrow> circle \<Rightarrow> string" where
  "circle_to_string lib c = ''<'' @ point_to_string lib (c_center c) @ '','' @ double_to_str lib (c_radius c) @ ''>''"

section \<open>Binary form\<close>

definition new_double :: "bool \<Rightarrow> int \<Rightarrow> param" where "new_double le v = mk_param 701 (put8 le v) 1"

definition pgval_to_double :: "geo_lib \<Rightarrow> bool \<Rightarrow> int list \<Rightarrow> int \<Rightarrow> int \<Rightarrow> int result" where
  "pgval_to_double lib le val len fmt =
    (if len = - 1 then Inr 0 else if fmt = 0 then Inr (str_to_double lib (text_of val len)) else get8 le val)"

definition point_bytes :: "bool \<Rightarrow> point \<Rightarrow> int list" where
  "point_bytes le p = put8 le (p_x p) @ put8 le (p_y p)"

definition new_point :: "bool \<Rightarrow> point \<Rightarrow> param" where
  "new_point le p = mk_param 600 (point_bytes le p) 1"

definition new_line :: "bool \<Rightarrow> line \<Rightarrow> param" where
  "new_line le l = mk_param 628 (put8 le (l_a l) @ put8 le (l_b l) @ put8 le (l_c l)) 1"

definition new_lseg :: "bool \<Rightarrow> lseg \<Rightarrow> param" where
  "new_lseg le l = mk_param 601 (put8 le (p_x (ls_a l)) @ put8 le (p_y (ls_a l)) @
     put8 le (p_x (ls_b l)) @ put8 le (p_y (ls_b l))) 1"

definition new_box :: "bool \<Rightarrow> box \<Rightarrow> param" where
  "new_box le b = mk_param 603 (put8 le (p_x (b_high b)) @ put8 le (p_y (b_high b)) @
     put8 le (p_x (b_low b)) @ put8 le (p_y (b_low b))) 1"

definition new_path :: "bool \<Rightarrow> path \<Rightarrow> param" where
  "new_path le p =
    (let nb = i32 (int (length (pa_p p))) in
     mk_param 602 ([if pa_closed p then 1 else 0] @ put4 le nb @
       concat (map (point_bytes le) (take (nat nb) (pa_p p)))) 1)"

definition new_polygon :: "bool \<Rightarrow> polygon \<Rightarrow> param" where
  "new_polygon le p =
    (let nb = i32 (int (length (po_p p))) in
     mk_param 604 (put4 le nb @ concat (map (point_bytes le) (take (nat nb) (po_p p)))) 1)"

definition new_circle :: "bool \<Rightarrow> circle \<Rightarrow> param" where
  "new_circle le c = mk_param 718 (put8 le (p_x (c_center c)) @ put8 le (p_y (c_center c)) @ put8 le (c_radius c)) 1"

text \<open>Text results go through the constructors; the pieces of a binary value are read one by one.\<close>

definition pgval_to_point :: "geo_lib \<Rightarrow> bool \<Rightarrow> int list \<Rightarrow> int \<Rightarrow> int \<Rightarrow> point result" where
  "pgval_to_point lib le val len fmt =
    (if len = - 1 then Inr point_init
     else if fmt = 0 then point_of_string lib (c_str (text_of val len))
     else
       bind_result (pgval_to_double lib le val 8 fmt) (\<lambda>x.
       bind_result (pgval_to_double lib le (drop 8 val) 8 fmt) (\<lambda>y. Inr \<lparr> p_x = x, p_y = y \<rparr>)))"

definition pgval_to_line :: "(point \<Rightarrow> point \<Rightarrow> line) \<Rightarrow> geo_lib \<Rightarrow> bool \<Rightarrow> int list \<Rightarrow> int \<Rightarrow> int \<Rightarrow> line result" where
  "pgval_to_line through lib le val len fmt =
    (if len = - 1 then Inr line_init
     else if fmt = 0 then line_of_string through lib (c_str (text_of val len))
     else
       bind_result (pgval_to_double lib le val 8 fmt) (\<lambda>a.
       bind_result (pgval_to_double lib le (drop 8 val) 8 fmt) (\<lambda>b.
       bind_result (pgval_to_double lib le (drop 16 val) 8 fmt) (\<lambda>c. Inr \<lparr> l_a = a, l_b = b, l_c = c \<rparr>))))"

definition pgval_to_lseg :: "geo_lib \<Rightarrow> bool \<Rightarrow> int list \<Rightarrow> int \<Rightarrow> int \<Rightarrow> lseg result" where
  "pgval_to_lseg lib le val len fmt =
    (if len = - 1 then Inr lseg_init
     else if fmt = 0 then lseg_of_string lib (c_str (text_of val len))
     else
       bind_result (pgval_to_point lib le val 16 fmt) (\<lambda>a.
       bind_result (pgval_to_point lib le (drop 16 val) 16 fmt) (\<lambda>b. Inr \<lparr> ls_a = a, ls_b = b \<rparr>)))"

definition pgval_to_box :: "geo_lib \<Rightarrow> bool \<Rightarrow> int list \<Rightarrow> int \<Rightarrow> int \<Rightarrow> box result" where
  "pgval_to_box lib le val len fmt =
    (if len = - 1 then Inr box_init
     else if fmt = 0 then box_of_string lib (c_str (text_of val len))
     else
       bind_result (pgval_to_point lib le val 16 fmt) (\<lambda>h.
       bind_result (pgval_to_point lib le (drop 16 val) 16 fmt) (\<lambda>l. Inr \<lparr> b_high = h, b_low = l \<rparr>)))"

primrec get_points :: "geo_lib \<Rightarrow> bool \<Rightarrow> int \<Rightarrow> nat \<Rightarrow> int list \<Rightarrow> point list result" where
  "get_points lib le fmt 0 val = Inr []"
| "get_points lib le fmt (Suc n) val =
    bind_result (pgval_to_point lib le val 16 fmt) (\<lambda>p.
    bind_result (get_points lib le fmt n (drop 16 val)) (\<lambda>ps. Inr (p # ps)))"

definition pgval_to_path :: "bool \<Rightarrow> num_lib \<Rightarrow> geo_lib \<Rightarrow> bool \<Rightarrow> int list \<Rightarrow> int \<Rightarrow> int \<Rightarrow> path result" where
  "pgval_to_path junk nlib lib le val len fmt =
    (if len = - 1 then Inr (path_init junk)
     else if fmt = 0 then path_of_string lib (c_str (text_of val len))
     else if val = [] then Inl overrun
     else
       bind_result (pgval_to_int32 nlib le (drop 1 val) 4 fmt) (\<lambda>nb.
       bind_result (get_points lib le fmt (nat nb) (drop 5 val)) (\<lambda>ps. Inr \<lparr> pa_closed = (hd val = 1), pa_p = ps \<rparr>)))"

definition pgval_to_polygon :: "num_lib \<Rightarrow> geo_lib \<Rightarrow> bool \<Rightarrow> int list \<Rightarrow> int \<Rightarrow> int \<Rightarrow> polygon result" where
  "pgval_to_polygon nlib lib le val len fmt =
    (if len = - 1 then Inr polygon_init
     else if fmt = 0 then polygon_of_string lib (c_str (text_of val len))
     else
       bind_result (pgval_to_int32 nlib le val 4 fmt) (\<lambda>nb.
       bind_result (get_points lib le fmt (nat nb) (drop 4 val)) (\<lambda>ps. Inr \<lparr> po_boundbox = box_init, po_p = ps \<rparr>)))"

definition pgval_to_circle :: "int \<Rightarrow> geo_lib \<Rightarrow> bool \<Rightarrow> int list \<Rightarrow> int \<Rightarrow> int \<Rightarrow> circle result" where
  "pgval_to_circle junk lib le val len fmt =
    (if len = - 1 then Inr (circle_init junk)
     else if fmt = 0 then circle_of_string lib (c_str (text_of val len))
     else
       bind_result (pgval_to_point lib le val 16 fmt) (\<lambda>c.
       bind_result (pgval_to_double lib le (drop 16 val) 8 fmt) (\<lambda>r. Inr \<lparr> c_center = c, c_radius = r \<rparr>)))"

section \<open>Codecs\<close>

text \<open>Every binary form satisfies the contract of a codec.\<close>

definition point_ok :: "point \<Rightarrow> bool" where "point_ok p \<longleftrightarrow> in_s 64 (p_x p) \<and> in_s 64 (p_y p)"
definition line_ok :: "line \<Rightarrow> bool" where "line_ok l \<longleftrightarrow> in_s 64 (l_a l) \<and> in_s 64 (l_b l) \<and> in_s 64 (l_c l)"
definition lseg_ok :: "lseg \<Rightarrow> bool" where "lseg_ok l \<longleftrightarrow> point_ok (ls_a l) \<and> point_ok (ls_b l)"
definition box_ok :: "box \<Rightarrow> bool" where "box_ok b \<longleftrightarrow> point_ok (b_high b) \<and> point_ok (b_low b)"
definition points_ok :: "point list \<Rightarrow> bool" where
  "points_ok ps \<longleftrightarrow> (\<forall>p \<in> set ps. point_ok p) \<and> length ps < 2 ^ 26"
definition circle_ok :: "circle \<Rightarrow> bool" where "circle_ok c \<longleftrightarrow> point_ok (c_center c) \<and> in_s 64 (c_radius c)"

lemmas geo_wire_defs = pgval_to_double_def pgval_to_point_def pgval_to_line_def pgval_to_lseg_def pgval_to_box_def
  pgval_to_path_def pgval_to_polygon_def pgval_to_circle_def new_double_def new_point_def new_line_def new_lseg_def
  new_box_def new_path_def new_polygon_def new_circle_def point_bytes_def mk_param_def

lemma drop_be [simp]:
  "drop 4 (be_bytes 4 v @ rest) = rest" "drop 8 (be_bytes 8 v @ rest) = rest"
  "drop 16 (be_bytes 8 v @ be_bytes 8 w @ rest) = rest"
  by (simp_all add: be_bytes_props)

interpretation dbl: wire_codec "in_s 64" "\<lambda>v. pm_value (new_double le v)" "pgval_to_double lib le" for lib le
  by unfold_locales (simp_all add: geo_wire_defs be_bytes_props wrap_ids)

interpretation pnt: wire_codec point_ok "\<lambda>p. pm_value (new_point le p)" "pgval_to_point lib le" for lib le
  by unfold_locales (simp_all add: geo_wire_defs be_bytes_props wrap_ids point_ok_def)

lemma pgval_to_point_bytes [simp]: "point_ok p \<Longrightarrow> pgval_to_point lib le (point_bytes le' p @ rest) 16 1 = Inr p"
  using pnt.dec_enc [where lib = lib and le = le and rest = rest and v = p] by (simp add: geo_wire_defs be_bytes_props)

interpretation lin: wire_codec line_ok "\<lambda>l. pm_value (new_line le l)" "pgval_to_line through lib le" for through lib le
  by unfold_locales (simp_all add: geo_wire_defs be_bytes_props wrap_ids line_ok_def)

interpretation seg: wire_codec lseg_ok "\<lambda>l. pm_value (new_lseg le l)" "pgval_to_lseg lib le" for lib le
  by unfold_locales (simp_all add: geo_wire_defs be_bytes_props wrap_ids lseg_ok_def point_ok_def)

interpretation bx: wire_codec box_ok "\<lambda>b. pm_value (new_box le b)" "pgval_to_box lib le" for lib le
  by unfold_locales (simp_all add: geo_wire_defs be_bytes_props wrap_ids box_ok_def point_ok_def)

interpretation circ: wire_codec circle_ok "\<lambda>c. pm_value (new_circle le c)" "pgval_to_circle junk lib le" for junk lib le
  by unfold_locales (simp_all add: geo_wire_defs be_bytes_props wrap_ids circle_ok_def point_ok_def)

text \<open>Paths and polygons: a count, then the points.\<close>

lemma get_points_bytes:
  assumes "\<forall>p \<in> set ps. point_ok p"
  shows "get_points lib le 1 (length ps) (concat (map (point_bytes le') ps) @ rest) = Inr ps"
  using assms
proof (induction ps)
  case (Cons p ps)
  have "length (point_bytes le' p) = 16" by (simp add: point_bytes_def be_bytes_props)
  then show ?case using Cons by simp
qed simp

lemma points_bytes_props:
  "length (concat (map (point_bytes le) ps)) = 16 * length ps" "digits_ok 256 (concat (map (point_bytes le) ps))"
  by (induction ps) (simp_all add: point_bytes_def be_bytes_props)

lemma points_count: "points_ok ps \<Longrightarrow> i32 (int (length ps)) = int (length ps)"
  by (intro wrap_s_id) (simp_all add: points_ok_def in_s_def)

lemma points_wire:
  assumes "points_ok ps"
  shows "get4 le (be_bytes 4 (int (length ps)) @ rest) = Inr (int (length ps))"
    "get_points lib le 1 (length ps) (concat (map (point_bytes le') ps) @ rest) = Inr ps"
  using points_count [OF assms] get_points_bytes [of ps] assms by (simp_all add: points_ok_def)

lemma new_path_value: "points_ok (pa_p p) \<Longrightarrow>
    pm_value (new_path le p) = (if pa_closed p then 1 else 0) # be_bytes 4 (int (length (pa_p p))) @ concat (map (point_bytes le) (pa_p p))"
  by (simp add: new_path_def mk_param_def points_count Let_def)

lemma new_polygon_value: "points_ok (po_p p) \<Longrightarrow>
    pm_value (new_polygon le p) = be_bytes 4 (int (length (po_p p))) @ concat (map (point_bytes le) (po_p p))"
  by (simp add: new_polygon_def mk_param_def points_count Let_def)

interpretation pth: wire_codec "\<lambda>p. points_ok (pa_p p)" "\<lambda>p. pm_value (new_path le p)" "pgval_to_path junk nlib lib le"
  for junk nlib lib le
proof unfold_locales
  fix p :: path and rest
  assume ok: "points_ok (pa_p p)"
  show "pgval_to_path junk nlib lib le (pm_value (new_path le p) @ rest) (int (length (pm_value (new_path le p)))) 1 = Inr p"
    using points_wire [OF ok] be_bytes_props(1) [of 4]
    by (simp add: new_path_value [OF ok] pgval_to_path_def pgval_to_int32_def drop_Cons')
  show "digits_ok 256 (pm_value (new_path le p))"
    by (simp add: new_path_value [OF ok] points_bytes_props be_bytes_props)
  show "length (pm_value (new_path le p)) < 2 ^ 31"
    using ok unfolding new_path_value [OF ok] by (simp add: points_bytes_props be_bytes_props points_ok_def)
qed

text \<open>The bounding box of a polygon is not sent; a polygon without one is read back.\<close>

definition polygon_ok :: "polygon \<Rightarrow> bool" where
  "polygon_ok p \<longleftrightarrow> points_ok (po_p p) \<and> po_boundbox p = box_init"

interpretation pol: wire_codec polygon_ok "\<lambda>p. pm_value (new_polygon le p)" "pgval_to_polygon nlib lib le" for nlib lib le
proof unfold_locales
  fix p :: polygon and rest
  assume ok': "polygon_ok p"
  then have ok: "points_ok (po_p p)" by (simp add: polygon_ok_def)
  show "pgval_to_polygon nlib lib le (pm_value (new_polygon le p) @ rest) (int (length (pm_value (new_polygon le p)))) 1 = Inr p"
    using points_wire [OF ok] ok'
    by (simp add: new_polygon_value [OF ok] pgval_to_polygon_def pgval_to_int32_def polygon_ok_def be_bytes_props)
  show "digits_ok 256 (pm_value (new_polygon le p))"
    by (simp add: new_polygon_value [OF ok] points_bytes_props be_bytes_props)
  show "length (pm_value (new_polygon le p)) < 2 ^ 31"
    using ok unfolding new_polygon_value [OF ok] by (simp add: points_bytes_props be_bytes_props points_ok_def)
qed

text \<open>
  C31: Points, lines, segments, boxes, paths, polygons and circles survive the way to the server
  and back bit for bit, whatever the doubles in them are; the bounding box of a polygon is lost.
\<close>

theorem wire_geometry:
  assumes "point_ok p" "line_ok l" "lseg_ok s" "box_ok b" "points_ok (pa_p w)" "points_ok (po_p g)" "circle_ok c"
  shows "pgval_to_point lib le (pm_value (new_point le p)) (pm_length (new_point le p)) 1 = Inr p \<and>
    pgval_to_line through lib le (pm_value (new_line le l)) (pm_length (new_line le l)) 1 = Inr l \<and>
    pgval_to_lseg lib le (pm_value (new_lseg le s)) (pm_length (new_lseg le s)) 1 = Inr s \<and>
    pgval_to_box lib le (pm_value (new_box le b)) (pm_length (new_box le b)) 1 = Inr b \<and>
    pgval_to_path junk nlib lib le (pm_value (new_path le w)) (pm_length (new_path le w)) 1 = Inr w \<and>
    pgval_to_polygon nlib lib le (pm_value (new_polygon le g)) (pm_length (new_polygon le g)) 1
      = Inr (g \<lparr> po_boundbox := box_init \<rparr>) \<and>
    pgval_to_circle junk' lib le (pm_value (new_circle le c)) (pm_length (new_circle le c)) 1 = Inr c"
proof (intro conjI)
  have len: "pm_length (mk_param oid bs f) = int (length (pm_value (mk_param oid bs f)))" for oid bs f
    by (simp add: mk_param_def)
  note m = new_point_def new_line_def new_lseg_def new_box_def new_path_def new_polygon_def new_circle_def Let_def len
  show "pgval_to_point lib le (pm_value (new_point le p)) (pm_length (new_point le p)) 1 = Inr p"
    using pnt.dec_enc [where rest = "[]", OF assms(1)] by (simp add: m)
  show "pgval_to_line through lib le (pm_value (new_line le l)) (pm_length (new_line le l)) 1 = Inr l"
    using lin.dec_enc [where rest = "[]", OF assms(2)] by (simp add: m)
  show "pgval_to_lseg lib le (pm_value (new_lseg le s)) (pm_length (new_lseg le s)) 1 = Inr s"
    using seg.dec_enc [where rest = "[]", OF assms(3)] by (simp add: m)
  show "pgval_to_box lib le (pm_value (new_box le b)) (pm_length (new_box le b)) 1 = Inr b"
    using bx.dec_enc [where rest = "[]", OF assms(4)] by (simp add: m)
  show "pgval_to_path junk nlib lib le (pm_value (new_path le w)) (pm_length (new_path le w)) 1 = Inr w"
    using pth.dec_enc [where rest = "[]", OF assms(5)] by (simp add: m)
  have "polygon_ok (g \<lparr> po_boundbox := box_init \<rparr>)" using assms(6) by (simp add: polygon_ok_def)
  from pol.dec_enc [where rest = "[]", OF this]
  show "pgval_to_polygon nlib lib le (pm_value (new_polygon le g)) (pm_length (new_polygon le g)) 1
      = Inr (g \<lparr> po_boundbox := box_init \<rparr>)" by (simp add: m)
  show "pgval_to_circle junk' lib le (pm_value (new_circle le c)) (pm_length (new_circle le c)) 1 = Inr c"
    using circ.dec_enc [where rest = "[]", OF assms(7)] by (simp add: m)
qed

section \<open>Reading text\<close>

text \<open>
  What is relied on of the other library: text without spaces needs no trimming, and a number
  that is printed without exponent is read back.
\<close>

definition trims :: "geo_lib \<Rightarrow> bool" where
  "trims lib \<longleftrightarrow> (\<forall>s. (\<forall>c \<in> set s. \<not> c_isspace c) \<longrightarrow> md_trim lib s = s)"

lemma trims_id: "trims lib \<Longrightarrow> \<forall>c \<in> set s. \<not> c_isspace c \<Longrightarrow> md_trim lib s = s"
  unfolding trims_def by blast

definition shown :: "geo_lib \<Rightarrow> int \<Rightarrow> bool" where
  "shown lib v \<longleftrightarrow> double_to_str lib v \<noteq> [] \<and> (\<forall>c \<in> set (double_to_str lib v). num_char c) \<and>
     str_to_double lib (double_to_str lib v) = v"

definition shown_point :: "geo_lib \<Rightarrow> point \<Rightarrow> bool" where
  "shown_point lib p \<longleftrightarrow> shown lib (p_x p) \<and> shown lib (p_y p)"

definition junk :: "string \<Rightarrow> bool" where
  "junk s \<longleftrightarrow> (\<forall>c \<in> set s. \<not> num_char c \<and> c \<noteq> CHR '','' \<and> \<not> c_isspace c)"

lemma junk_simps [simp]: "junk []" "junk (c # s) \<longleftrightarrow> \<not> num_char c \<and> c \<noteq> CHR '','' \<and> \<not> c_isspace c \<and> junk s"
  "junk (s @ t) \<longleftrightarrow> junk s \<and> junk t"
  by (auto simp: junk_def)

lemma junk_chars:
  assumes "junk s"
  shows "filter (\<lambda>c. c = CHR '','') s = []" "\<forall>c \<in> set s. \<not> c_isspace c"
  using assms by (auto simp: junk_def filter_empty_conv)

lemma num_char_simps [simp]: "\<not> num_char CHR ''(''" "\<not> num_char CHR '')''" "\<not> num_char CHR ''[''" "\<not> num_char CHR '']''"
  "\<not> num_char CHR '',''" "\<not> num_char CHR ''<''" "\<not> num_char CHR ''>''" "\<not> num_char CHR '' ''"
  by (simp_all add: num_char_def c_isdigit_def)

lemma space_simps [simp]: "\<not> c_isspace CHR ''(''" "\<not> c_isspace CHR '')''" "\<not> c_isspace CHR ''[''" "\<not> c_isspace CHR '']''"
  "\<not> c_isspace CHR '',''" "\<not> c_isspace CHR ''<''" "\<not> c_isspace CHR ''>''"
  by (simp_all add: c_isspace_def)

lemma num_char_not: "num_char c \<Longrightarrow> c \<noteq> CHR '','' \<and> \<not> c_isspace c"
  by (auto simp: num_char_def c_isdigit_def c_isspace_def)

lemma scan_junk: "junk s \<Longrightarrow> scan (s @ r) i acc = scan r i acc"
  by (induction s) simp_all

lemma scan_num:
  "\<forall>c \<in> set t. num_char c \<Longrightarrow> i < length acc \<Longrightarrow> scan (t @ r) i acc = scan r i (acc[i := acc ! i @ t])"
  by (induction t arbitrary: acc) simp_all

lemma scan_over: "length acc \<le> i \<Longrightarrow> scan s i acc = acc"
  by (induction s arbitrary: i) simp_all

lemma scan_point:
  assumes "junk pre" "junk j" "\<forall>c \<in> set tx. num_char c" "\<forall>c \<in> set ty. num_char c" "rest = [] \<or> hd rest = CHR '',''"
  shows "scan (pre @ tx @ CHR '','' # ty @ j @ rest) 0 [[], []] = [tx, ty]"
  using assms scan_over [of "[tx, ty]"] scan_junk [of j "[]"] by (cases rest) (simp_all add: scan_junk scan_num)

lemma point_of_text:
  assumes "trims lib" "junk pre" "junk j" "shown_point lib p" "rest = [] \<or> hd rest = CHR '',''" "\<forall>c \<in> set rest. \<not> c_isspace c"
  shows "point_of_string lib (pre @ point_to_string lib p @ j @ rest) = Inr p"
proof -
  define tx ty where t: "tx = double_to_str lib (p_x p)" "ty = double_to_str lib (p_y p)"
  have n: "\<forall>c \<in> set tx. num_char c" "\<forall>c \<in> set ty. num_char c" "tx \<noteq> []" "ty \<noteq> []"
    "str_to_double lib tx = p_x p" "str_to_double lib ty = p_y p"
    using assms(4) by (simp_all add: t shown_point_def shown_def)
  have s: "pre @ point_to_string lib p @ j @ rest = (pre @ ''('') @ tx @ CHR '','' # ty @ ('')'' @ j) @ rest"
    by (simp add: point_to_string_def t)
  have "\<forall>c \<in> set tx \<union> set ty. \<not> c_isspace c" using n(1,2) num_char_not by blast
  moreover have "\<forall>c \<in> set pre \<union> set j. \<not> c_isspace c" using assms(2,3) by (auto simp: junk_def)
  ultimately have "\<forall>c \<in> set (pre @ point_to_string lib p @ j @ rest). \<not> c_isspace c"
    using assms(6) unfolding s by auto
  then have "md_trim lib (pre @ point_to_string lib p @ j @ rest) = pre @ point_to_string lib p @ j @ rest"
    by (rule trims_id [OF assms(1)])
  then show ?thesis
    using scan_point [of "pre @ ''(''" "'')'' @ j" tx ty rest] assms(2,3,5) n
    by (simp add: point_of_string_def Let_def s)
qed

lemma find_from_here:
  assumes "c \<notin> set b" "i = length a"
  shows "find_from c (a @ b @ c # d) i = Some (i + length b)"
proof -
  have "takeWhile (\<lambda>d. d \<noteq> c) (b @ c # d) = b" using assms(1) by (induction b) auto
  then show ?thesis using assms(2) by (simp add: find_from_def)
qed

lemma find_from_none:
  assumes "c \<notin> set b" "i = length a"
  shows "find_from c (a @ b) i = None"
proof -
  have "takeWhile (\<lambda>d. d \<noteq> c) b = b" using assms(1) by (induction b) auto
  then have "length (takeWhile (\<lambda>d. d \<noteq> c) b) = length b" by (rule arg_cong)
  then show ?thesis by (simp add: find_from_def assms(2))
qed

text \<open>The text of a point around its comma.\<close>

lemma point_text:
  assumes "shown_point lib p"
  shows "\<exists>u v. point_to_string lib p = u @ CHR '','' # v \<and> CHR '','' \<notin> set u \<and> CHR '','' \<notin> set v \<and>
    (\<forall>c \<in> set (u @ v). \<not> c_isspace c)"
proof (intro exI conjI)
  show "point_to_string lib p = (''('' @ double_to_str lib (p_x p)) @ CHR '','' # (double_to_str lib (p_y p) @ '')'')"
    by (simp add: point_to_string_def)
qed (use assms num_char_not in \<open>auto simp: shown_point_def shown_def\<close>)

lemma points_loop_last:
  assumes "find_from CHR '','' s (e + 1) = Some e1" "find_from CHR '','' s (e1 + 1) = None"
    "point_of_string lib (take (length s - (e + 1)) (drop (e + 1) s)) = Inr p"
  shows "points_loop lib s e acc = Inr (acc @ [p])"
  using assms by (subst points_loop.simps) simp

lemma points_loop_next:
  assumes "find_from CHR '','' s (e + 1) = Some e1" "find_from CHR '','' s (e1 + 1) = Some e2"
    "point_of_string lib (take (e2 - (e + 1)) (drop (e + 1) s)) = Inr p"
  shows "points_loop lib s e acc = points_loop lib s e2 (acc @ [p])"
proof -
  have "e2 \<noteq> length s" using find_from_bound [OF assms(2)] by simp
  then show ?thesis using assms by (subst points_loop.simps) simp
qed

text \<open>The loop over the points of a text: \<open>pre\<close> is what has been read, \<open>j\<close> an opening bracket.\<close>

lemma points_loop_text:
  assumes "trims lib" "ps \<noteq> []" "\<forall>p \<in> set ps. shown_point lib p" "junk j" "junk [c]" "length pre = e + 1"
  shows "points_loop lib (pre @ j @ points_text lib ps @ [c]) e acc = Inr (acc @ ps)"
  using assms
proof (induction ps arbitrary: pre j e acc rule: points_text.induct)
  case (2 lib p)
  obtain u v where p: "point_to_string lib p = u @ CHR '','' # v" "CHR '','' \<notin> set u" "CHR '','' \<notin> set v"
    using point_text [of lib p] 2 by auto
  let ?s = "pre @ j @ points_text lib [p] @ [c]"
  have s: "?s = pre @ (j @ u) @ CHR '','' # v @ [c]" using p(1) by simp
  have f1: "find_from CHR '','' ?s (e + 1) = Some (e + 1 + length (j @ u))"
    unfolding s using 2 p(2) by (intro find_from_here) (auto simp: junk_def)
  have s2: "?s = (pre @ j @ u @ [CHR '','']) @ (v @ [c])" using p(1) by simp
  have f2: "find_from CHR '','' ?s (e + 1 + length (j @ u) + 1) = None"
    unfolding s2 using 2 p(3) by (intro find_from_none) auto
  have "point_of_string lib (take (length ?s - (e + 1)) (drop (e + 1) ?s)) = Inr p"
    using point_of_text [OF 2(1,4) _ _ , of "[c]" p "[]"] 2 by simp
  then show ?case using points_loop_last [OF f1 f2] by simp
next
  case (3 lib p q qs)
  obtain u v where p: "point_to_string lib p = u @ CHR '','' # v" "CHR '','' \<notin> set u" "CHR '','' \<notin> set v"
    using point_text [of lib p] 3 by auto
  let ?r = "points_text lib (q # qs) @ [c]"
  let ?s = "pre @ j @ points_text lib (p # q # qs) @ [c]"
  have s: "?s = pre @ (j @ u) @ CHR '','' # v @ CHR '','' # ?r" using p(1) by simp
  have f1: "find_from CHR '','' ?s (e + 1) = Some (e + 1 + length (j @ u))"
    unfolding s using 3 p(2) by (intro find_from_here) (auto simp: junk_def)
  have s2: "?s = (pre @ j @ u @ [CHR '','']) @ v @ CHR '','' # ?r" using p(1) by simp
  have f2: "find_from CHR '','' ?s (e + 1 + length (j @ u) + 1) = Some (e + 1 + length (j @ u) + 1 + length v)"
    unfolding s2 using 3 p(3) by (intro find_from_here) auto
  define e2 where "e2 = e + 1 + length (j @ u) + 1 + length v"
  have sub: "take (e2 - (e + 1)) (drop (e + 1) ?s) = j @ point_to_string lib p"
    using 3(7) p(1) by (simp add: e2_def)
  have pt: "point_of_string lib (j @ point_to_string lib p) = Inr p"
    using point_of_text [OF 3(2,5), of "[]" p "[]"] 3 by simp
  have s3: "?s = (pre @ j @ point_to_string lib p @ [CHR '','']) @ [] @ ?r" by simp
  have ih: "points_loop lib ?s e2 (acc @ [p]) = Inr ((acc @ [p]) @ q # qs)"
    unfolding s3 using 3(2-) p(1) by (intro 3(1)) (auto simp: e2_def)
  have "points_loop lib ?s e acc = points_loop lib ?s e2 (acc @ [p])"
    by (rule points_loop_next [OF f1 f2 [folded e2_def]]) (simp only: sub pt)
  with ih show ?case by simp
qed simp

lemma points_text_commas:
  assumes "\<forall>p \<in> set ps. shown_point lib p"
  shows "count_char CHR '','' (points_text lib ps) = 2 * length ps - 1" "\<forall>c \<in> set (points_text lib ps). \<not> c_isspace c"
proof -
  have one: "count_char CHR '','' (point_to_string lib p) = 1 \<and> (\<forall>c \<in> set (point_to_string lib p). \<not> c_isspace c)"
    if sp: "shown_point lib p" for lib p
  proof -
    obtain u v where p: "point_to_string lib p = u @ CHR '','' # v" "CHR '','' \<notin> set u" "CHR '','' \<notin> set v"
        "\<forall>c \<in> set (u @ v). \<not> c_isspace c"
      using point_text [OF sp] by auto
    then show ?thesis by (auto simp: count_char_def filter_empty_conv)
  qed
  have "count_char CHR '','' (points_text lib ps) = 2 * length ps - 1 \<and> (\<forall>c \<in> set (points_text lib ps). \<not> c_isspace c)"
    using assms
  proof (induction ps rule: points_text.induct)
    case (2 lib p)
    then show ?case using one by simp
  next
    case (3 lib p q qs)
    then show ?case using one [of lib p] by (auto simp: count_char_def)
  qed (simp add: count_char_def)
  then show "count_char CHR '','' (points_text lib ps) = 2 * length ps - 1" "\<forall>c \<in> set (points_text lib ps). \<not> c_isspace c"
    by auto
qed

text \<open>
  Points, closed and open paths and polygons are read back from the text they are written
  as, when their numbers are printed without exponent; a path or polygon without points, whose
  text has no comma, is refused.
\<close>

theorem geometry_text:
  assumes "trims lib" "shown_point lib p" "\<forall>q \<in> set (pa_p w). shown_point lib q" "\<forall>q \<in> set (po_p g). shown_point lib q"
  shows "point_of_string lib (point_to_string lib p) = Inr p \<and>
    path_of_string lib (path_to_string lib w) =
      (if pa_p w = [] then Inl (PqException ''Invalid input for type path'') else Inr w) \<and>
    polygon_of_string lib (polygon_to_string lib g) =
      (if po_p g = [] then Inl (PqException ''Invalid input for type polygon'') else Inr (g \<lparr> po_boundbox := box_init \<rparr>))"
proof (intro conjI)
  show "point_of_string lib (point_to_string lib p) = Inr p"
    using point_of_text [OF assms(1), of "[]" "[]" p "[]"] assms(2) by simp
  have trim: "md_trim lib (a @ points_text lib ps @ b) = a @ points_text lib ps @ b"
    if "junk a" "junk b" "\<forall>q \<in> set ps. shown_point lib q" for a b ps
  proof (rule trims_id [OF assms(1)])
    show "\<forall>c \<in> set (a @ points_text lib ps @ b). \<not> c_isspace c"
      using points_text_commas(2) [OF that(3)] junk_chars [OF that(1)] junk_chars [OF that(2)] by auto
  qed
  have commas: "count_char CHR '','' (a @ points_text lib ps @ b) mod 2 = (if ps = [] then 0 else 1)"
    if "junk a" "junk b" "\<forall>q \<in> set ps. shown_point lib q" for a b ps
  proof -
    have "count_char CHR '','' (a @ points_text lib ps @ b) = 2 * length ps - 1"
      using points_text_commas(1) [OF that(3)] junk_chars [OF that(1)] junk_chars [OF that(2)] by (simp add: count_char_def)
    then show ?thesis by (cases ps) simp_all
  qed
  define x y where xy: "x = (if pa_closed w then ''('' else ''['')" "y = (if pa_closed w then CHR '')'' else CHR '']'')"
  have j: "junk x" "junk [y]" by (simp_all add: xy)
  have w: "path_to_string lib w = x @ points_text lib (pa_p w) @ [y]" by (simp add: path_to_string_def xy)
  have "points_loop lib (x @ [] @ points_text lib (pa_p w) @ [y]) 0 [] = Inr (pa_p w)" if "pa_p w \<noteq> []"
    using points_loop_text [OF assms(1) that assms(3) _ j(2), of "[]" x 0] by (simp add: xy)
  then show "path_of_string lib (path_to_string lib w) =
      (if pa_p w = [] then Inl (PqException ''Invalid input for type path'') else Inr w)"
    unfolding w using trim [OF j assms(3)] commas [OF j assms(3)]
    by (auto simp: path_of_string_def Let_def xy)
  have k: "junk ''(''" "junk '')''" by simp_all
  have "points_loop lib ('' '' @ ''('' @ points_text lib (po_p g) @ '')'') 0 [] = Inr (po_p g)" if "po_p g \<noteq> []"
    using points_loop_text [OF assms(1) that assms(4) k(1) k(2), of "'' ''" 0] by simp
  then show "polygon_of_string lib (polygon_to_string lib g) =
      (if po_p g = [] then Inl (PqException ''Invalid input for type polygon'') else Inr (g \<lparr> po_boundbox := box_init \<rparr>))"
    using trim [OF k assms(4)] commas [OF k assms(4)]
    by (auto simp: polygon_of_string_def polygon_to_string_def Let_def)
qed

section \<open>Text with two parts\<close>

text \<open>
  The first \<open>n\<close> characters of a text that begins with a point: all of \<open>x\<close> is there or nothing of
  \<open>y\<close>.
\<close>

lemma scan_no_comma: "CHR '','' \<notin> set s \<Longrightarrow> scan s 0 [u, v] ! Suc 0 = v"
  by (induction s arbitrary: u) auto

definition shown_y :: "geo_lib \<Rightarrow> nat \<Rightarrow> point \<Rightarrow> point result" where
  "shown_y lib k p = (if k = 0 then Inl (PqException ''Invalid input for type point'')
     else Inr (p \<lparr> p_y := str_to_double lib (take k (double_to_str lib (p_y p))) \<rparr>))"

lemma shown_y_all: "shown_point lib p \<Longrightarrow> length (double_to_str lib (p_y p)) \<le> k \<Longrightarrow> shown_y lib k p = Inr p"
  by (cases "double_to_str lib (p_y p)") (auto simp: shown_y_def shown_point_def shown_def)

lemma point_of_prefix:
  assumes "trims lib" "junk a" "shown_point lib p" "r = [] \<or> hd r = CHR '',''" "\<forall>c \<in> set r. \<not> c_isspace c"
  shows "point_of_string lib (take n (a @ point_to_string lib p @ r)) =
    shown_y lib (n - (length a + length (double_to_str lib (p_x p)) + 2)) p"
proof -
  define tx ty where t: "tx = double_to_str lib (p_x p)" "ty = double_to_str lib (p_y p)"
  have n: "\<forall>c \<in> set tx. num_char c" "\<forall>c \<in> set ty. num_char c" "tx \<noteq> []" "ty \<noteq> []"
    "str_to_double lib tx = p_x p" "str_to_double lib ty = p_y p"
    using assms(3) by (simp_all add: t shown_point_def shown_def)
  define h k where "h = a @ ''('' @ tx" and "k = n - (length a + length tx + 2)"
  have s: "a @ point_to_string lib p @ r = h @ CHR '','' # ty @ CHR '')'' # r"
    by (simp add: point_to_string_def t h_def)
  have "\<forall>c \<in> set tx \<union> set ty. \<not> c_isspace c" using n(1,2) num_char_not by blast
  then have "\<forall>c \<in> set (a @ point_to_string lib p @ r). \<not> c_isspace c"
    unfolding s using assms(5) junk_chars(2) [OF assms(2)] by (auto simp: h_def)
  then have trim: "md_trim lib (take n (a @ point_to_string lib p @ r)) = take n (a @ point_to_string lib p @ r)"
    by (intro trims_id [OF assms(1)]) (auto dest: in_set_takeD)
  have hc: "CHR '','' \<notin> set h" using assms(2) n(1) num_char_not by (auto simp: h_def junk_def)
  have lh: "length h = length a + length tx + 1" by (simp add: h_def)
  consider (short) "n \<le> length h" | (long) "length h < n" by linarith
  then have sc: "scan (take n (a @ point_to_string lib p @ r)) 0 [[], []] ! 1 = take k ty \<and>
      (0 < k \<longrightarrow> scan (take n (a @ point_to_string lib p @ r)) 0 [[], []] ! 0 = tx)"
  proof cases
    case short
    then have "k = 0" using lh by (simp add: k_def)
    moreover have "CHR '','' \<notin> set (take n (a @ point_to_string lib p @ r))"
      unfolding s using short hc by (auto dest: in_set_takeD)
    ultimately show ?thesis using scan_no_comma by simp
  next
    case long
    define j rest where jr: "j = (if length ty < k then '')'' else [])" "rest = take (k - length ty - 1) r"
    have "take (n - length h) (CHR '','' # ty @ CHR '')'' # r) = CHR '','' # take k ty @ j @ rest"
    proof -
      have "n - length h = Suc k" using long lh by (simp add: k_def)
      then show ?thesis by (auto simp: jr take_Cons')
    qed
    then have "take n (a @ point_to_string lib p @ r) = h @ CHR '','' # take k ty @ j @ rest"
      unfolding s using long by simp
    then have e: "take n (a @ point_to_string lib p @ r) = (a @ ''('') @ tx @ CHR '','' # take k ty @ j @ rest"
      by (simp add: h_def)
    have "rest = [] \<or> hd rest = CHR '',''" using assms(4) by (cases r) (auto simp: jr take_Cons')
    then have "scan ((a @ ''('') @ tx @ CHR '','' # take k ty @ j @ rest) 0 [[], []] = [tx, take k ty]"
      using assms(2) n(1,2) by (intro scan_point) (auto simp: jr dest: in_set_takeD)
    then show ?thesis unfolding e by simp
  qed
  show ?thesis
    unfolding point_of_string_def Let_def trim t [symmetric] k_def [symmetric]
    using sc n by (cases "k = 0") (simp_all add: shown_y_def t del: take_append)
qed

text \<open>A point, a comma and something without a comma before its own: where the second comma is.\<close>

lemma second_comma_at:
  assumes "junk a" "shown_point lib p"
  shows "second_comma (a @ point_to_string lib p @ CHR '','' # r) = length a + length (point_to_string lib p)"
proof -
  obtain u v where p: "point_to_string lib p = u @ CHR '','' # v" "CHR '','' \<notin> set u" "CHR '','' \<notin> set v"
    using point_text [OF assms(2)] by auto
  let ?s = "a @ point_to_string lib p @ CHR '','' # r"
  have s: "?s = [] @ (a @ u) @ CHR '','' # v @ CHR '','' # r" "?s = (a @ u @ [CHR '','']) @ v @ CHR '','' # r"
    using p(1) by simp_all
  have f1: "find_from CHR '','' ?s 0 = Some (0 + length (a @ u))"
    unfolding s(1) using assms(1) p(2) by (intro find_from_here) (auto simp: junk_def)
  have f2: "find_from CHR '','' ?s (length (a @ u) + 1) = Some (length (a @ u) + 1 + length v)"
    unfolding s(2) using p(3) by (intro find_from_here) simp_all
  show ?thesis using f1 f2 p(1) by (simp add: second_comma_def)
qed

lemma point_chars:
  assumes "shown_point lib p"
  shows "\<forall>c \<in> set (point_to_string lib p). \<not> c_isspace c" "filter (\<lambda>c. c = CHR '','') (point_to_string lib p) = '',''"
    "length (point_to_string lib p) = length (double_to_str lib (p_x p)) + length (double_to_str lib (p_y p)) + 3"
proof -
  have "\<forall>c \<in> set (double_to_str lib (p_x p)) \<union> set (double_to_str lib (p_y p)). \<not> c_isspace c \<and> c \<noteq> CHR '',''"
    using assms num_char_not by (auto simp: shown_point_def shown_def)
  then show "\<forall>c \<in> set (point_to_string lib p). \<not> c_isspace c" "filter (\<lambda>c. c = CHR '','') (point_to_string lib p) = '',''"
    by (auto simp: point_to_string_def filter_empty_conv)
qed (simp add: point_to_string_def)

lemma two_points_text:
  assumes "trims lib" "junk a" "junk b" "shown_point lib p" "shown_point lib q"
  shows "two_points lib (a @ point_to_string lib p @ CHR '','' # point_to_string lib q @ b) =
    bind_result (shown_y lib (length (point_to_string lib q) + 1 + length b - (length a + length (double_to_str lib (p_x p)) + 2)) p)
      (\<lambda>p. Inr (p, q))"
proof -
  let ?r = "CHR '','' # point_to_string lib q @ b"
  let ?s = "a @ point_to_string lib p @ ?r" and ?cp = "length a + length (point_to_string lib p)"
  have "point_of_string lib (take (length ?s - ?cp) ?s) =
      shown_y lib (length ?s - ?cp - (length a + length (double_to_str lib (p_x p)) + 2)) p"
    using point_chars(1) [OF assms(5)] junk_chars(2) [OF assms(3)]
    by (intro point_of_prefix [OF assms(1,2,4)]) auto
  moreover have "length ?s - ?cp = length (point_to_string lib q) + 1 + length b" by simp
  moreover have "point_of_string lib (drop (?cp + 1) ?s) = Inr q"
    using point_of_text [OF assms(1) _ assms(3,5), of "[]" "[]"] by simp
  ultimately show ?thesis
    using second_comma_at [OF assms(2,4)] unfolding two_points_def Let_def by simp
qed

text \<open>
  The constructors of boxes, segments and circles cut the first point of their text at a
  place that depends on the length of the second part: they read back only the first \<open>k\<close>
  characters of its \<open>y\<close>, and throw when \<open>k\<close> is zero. For boxes and segments \<open>k\<close> is the length of
  the second point less that of the first \<open>x\<close> and one, for circles the length of the radius less that
  of \<open>x\<close> and one.
\<close>

theorem two_part_text:
  assumes "trims lib" "shown_point lib p" "shown_point lib q" "shown lib r"
    and "x = length (double_to_str lib (p_x p))" "tq = length (point_to_string lib q)"
  shows "box_of_string lib (box_to_string lib \<lparr> b_high = p, b_low = q \<rparr>) =
      bind_result (shown_y lib (tq + 1 - (x + 2)) p) (\<lambda>p. Inr \<lparr> b_high = p, b_low = q \<rparr>) \<and>
    lseg_of_string lib (lseg_to_string lib \<lparr> ls_a = p, ls_b = q \<rparr>) =
      bind_result (shown_y lib (tq + 2 - (x + 3)) p) (\<lambda>p. Inr \<lparr> ls_a = p, ls_b = q \<rparr>) \<and>
    circle_of_string lib (circle_to_string lib \<lparr> c_center = p, c_radius = r \<rparr>) =
      bind_result (shown_y lib (length (double_to_str lib r) + 2 - (x + 3)) p) (\<lambda>p. Inr \<lparr> c_center = p, c_radius = r \<rparr>)"
proof (intro conjI)
  note chars = point_chars(1,2) [OF assms(2)] point_chars(1,2) [OF assms(3)]
  have r: "filter num_char (double_to_str lib r @ ''>'') = double_to_str lib r" "double_to_str lib r \<noteq> []"
      "str_to_double lib (double_to_str lib r) = r" "\<forall>c \<in> set (double_to_str lib r). \<not> c_isspace c \<and> c \<noteq> CHR '',''"
    using assms(4) num_char_not by (auto simp: shown_def)
  have bind: "bind_result (bind_result z (\<lambda>p. Inr (p, q))) (\<lambda>(p, q). Inr (f p q)) = bind_result z (\<lambda>p. Inr (f p q))"
    for z :: "point result" and f :: "point \<Rightarrow> point \<Rightarrow> 'z"
    by (cases z) simp_all
  have b: "box_to_string lib \<lparr> b_high = p, b_low = q \<rparr> = [] @ point_to_string lib p @ CHR '','' # point_to_string lib q @ []"
    by (simp add: box_to_string_def)
  have tb: "md_trim lib (box_to_string lib \<lparr> b_high = p, b_low = q \<rparr>) = box_to_string lib \<lparr> b_high = p, b_low = q \<rparr>"
    by (rule trims_id [OF assms(1)]) (use chars in \<open>auto simp: b\<close>)
  show "box_of_string lib (box_to_string lib \<lparr> b_high = p, b_low = q \<rparr>) =
      bind_result (shown_y lib (tq + 1 - (x + 2)) p) (\<lambda>p. Inr \<lparr> b_high = p, b_low = q \<rparr>)"
    unfolding box_of_string_def Let_def tb
    using chars two_points_text [OF assms(1) _ _ assms(2,3), of "[]" "[]"] assms(5,6) bind
    by (simp add: b count_char_def)
  have l: "lseg_to_string lib \<lparr> ls_a = p, ls_b = q \<rparr> = ''['' @ point_to_string lib p @ CHR '','' # point_to_string lib q @ '']''"
    by (simp add: lseg_to_string_def)
  have tl: "md_trim lib (lseg_to_string lib \<lparr> ls_a = p, ls_b = q \<rparr>) = lseg_to_string lib \<lparr> ls_a = p, ls_b = q \<rparr>"
    by (rule trims_id [OF assms(1)]) (use chars in \<open>auto simp: l\<close>)
  show "lseg_of_string lib (lseg_to_string lib \<lparr> ls_a = p, ls_b = q \<rparr>) =
      bind_result (shown_y lib (tq + 2 - (x + 3)) p) (\<lambda>p. Inr \<lparr> ls_a = p, ls_b = q \<rparr>)"
    unfolding lseg_of_string_def Let_def tl
    using chars two_points_text [OF assms(1) _ _ assms(2,3), of "''[''" "'']''"] assms(5,6) bind
    by (simp add: l count_char_def)
  let ?r = "CHR '','' # double_to_str lib r @ ''>''"
  have c: "circle_to_string lib \<lparr> c_center = p, c_radius = r \<rparr> = ''<'' @ point_to_string lib p @ ?r"
    by (simp add: circle_to_string_def)
  have tc: "md_trim lib (circle_to_string lib \<lparr> c_center = p, c_radius = r \<rparr>) = circle_to_string lib \<lparr> c_center = p, c_radius = r \<rparr>"
    by (rule trims_id [OF assms(1)]) (use chars r(4) in \<open>auto simp: c\<close>)
  have sp: "point_of_string lib (take n (''<'' @ point_to_string lib p @ ?r)) = shown_y lib (n - (1 + x + 2)) p" for n
    using point_of_prefix [OF assms(1) _ assms(2), of "''<''" ?r n] r(4) assms(5) by auto
  have cc: "count_char CHR '','' (circle_to_string lib \<lparr> c_center = p, c_radius = r \<rparr>) = 2"
    using chars(2) r(4) by (simp add: c count_char_def filter_empty_conv)
  have dr: "drop (second_comma (''<'' @ point_to_string lib p @ ?r) + 1) (''<'' @ point_to_string lib p @ ?r) = double_to_str lib r @ ''>''"
    using second_comma_at [OF _ assms(2), of "''<''" "double_to_str lib r @ ''>''"] by simp
  have n: "length (''<'' @ point_to_string lib p @ ?r) - second_comma (''<'' @ point_to_string lib p @ ?r) = length (double_to_str lib r) + 2"
    using second_comma_at [OF _ assms(2), of "''<''" "double_to_str lib r @ ''>''"] by simp
  show "circle_of_string lib (circle_to_string lib \<lparr> c_center = p, c_radius = r \<rparr>) =
      bind_result (shown_y lib (length (double_to_str lib r) + 2 - (x + 3)) p) (\<lambda>p. Inr \<lparr> c_center = p, c_radius = r \<rparr>)"
    unfolding circle_of_string_def Let_def tc cc unfolding c n sp dr r(1) using r(2,3) by (simp add: add.commute)
qed

text \<open>
  The text that a line is written as has two commas, and the constructor wants one or three;
  with one comma there is no third number, so only two points are accepted.
\<close>

lemma scan_one_comma:
  "count_char CHR '','' s + i \<le> 1 \<Longrightarrow> scan s i [u, v, w] ! 2 = w"
proof (induction s arbitrary: i u v)
  case (Cons c s)
  then show ?case by (cases i) (auto simp: count_char_def numeral_2_eq_2 split: if_splits)
qed simp

theorem line_text_refused:
  assumes "trims lib" "shown lib (l_a l)" "shown lib (l_b l)" "shown lib (l_c l)"
  shows "line_of_string through lib (line_to_string lib l) = Inl (PqException ''Invalid input for type line'') \<and>
    (count_char CHR '','' (md_trim lib s) \<noteq> 3 \<longrightarrow> line_of_string through lib s = Inl (PqException ''Invalid input for type line''))"
proof
  show r: "count_char CHR '','' (md_trim lib s) \<noteq> 3 \<longrightarrow> line_of_string through lib s = Inl (PqException ''Invalid input for type line'')" for s
    using scan_one_comma [of "md_trim lib s" 0 "[]" "[]" "[]"] by (auto simp: line_of_string_def Let_def)
  have nc: "\<forall>c \<in> set (double_to_str lib v). \<not> c_isspace c \<and> c \<noteq> CHR '',''" if "shown lib v" for v
    using that num_char_not by (auto simp: shown_def)
  have sp: "\<not> c_isspace CHR ''{''" "\<not> c_isspace CHR ''}''" by (simp_all add: c_isspace_def)
  have "md_trim lib (line_to_string lib l) = line_to_string lib l"
    by (rule trims_id [OF assms(1)])
      (use nc [OF assms(2)] nc [OF assms(3)] nc [OF assms(4)] sp in \<open>auto simp: line_to_string_def\<close>)
  moreover have "count_char CHR '','' (line_to_string lib l) = 2"
    using nc [OF assms(2)] nc [OF assms(3)] nc [OF assms(4)]
    by (simp add: line_to_string_def count_char_def filter_empty_conv [THEN iffD2])
  ultimately show "line_of_string through lib (line_to_string lib l) = Inl (PqException ''Invalid input for type line'')"
    using r [of "line_to_string lib l"] by simp
qed

section \<open>Arithmetic\<close>

text \<open>
  The operations on coordinates, over any arithmetic: the functions are what the code does with
  the operators of \<open>double\<close>, which round. They are read here in the rational numbers, that is
  for coordinates on which no operation rounds.
\<close>

type_synonym vec = "rat \<times> rat"

fun point_plus :: "vec \<Rightarrow> vec \<Rightarrow> vec" where "point_plus (ax, ay) (bx, by') = (ax + bx, ay + by')"
fun point_minus :: "vec \<Rightarrow> vec \<Rightarrow> vec" where "point_minus (ax, ay) (bx, by') = (ax - bx, ay - by')"
fun point_dot :: "vec \<Rightarrow> vec \<Rightarrow> rat" where "point_dot (ax, ay) (bx, by') = ax * bx + ay * by'"
fun point_cross :: "vec \<Rightarrow> vec \<Rightarrow> rat" where "point_cross (ax, ay) (bx, by') = ax * bx - ay * by'"
fun point_perpendicular :: "vec \<Rightarrow> vec" where "point_perpendicular (x, y) = (y, - x)"

fun point_cmp :: "vec \<Rightarrow> vec \<Rightarrow> int" where
  "point_cmp (ax, ay) (bx, by') =
    (if ax = bx \<and> ay = by' then 0
     else
       let av = ax * ax + ay * ay; bv = bx * bx + by' * by' in
       if av = bv then 0 else if av < bv then - 1 else 1)"

text \<open>None is a division by zero, after which the comparisons are between infinities and NaNs.\<close>

fun lseg_intersect :: "vec \<times> vec \<Rightarrow> vec \<times> vec \<Rightarrow> bool option" where
  "lseg_intersect (aa, ab) (ba, bb) =
    (let p = aa; r = point_minus ab aa; q = ba; s = point_minus bb ba; d = point_cross r s in
     if d = 0 then None
     else
       let t = point_cross (point_minus q p) s / d; u = point_cross (point_minus q p) r / d in
       Some ((0 \<le> t \<and> t \<le> 1) \<and> (0 \<le> u \<and> u \<le> 1)))"

fun lseg_get_intersect :: "vec \<times> vec \<Rightarrow> vec \<times> vec \<Rightarrow> vec option" where
  "lseg_get_intersect ((aax, aay), (abx, aby)) ((bax, bay), (bbx, bby)) =
    (let px = (aax * aby - aay * abx) * (bax - bbx) - (bax * bby - bay * bbx) * (aax - abx);
         py = (aax * aby - aay * abx) * (bay - bby) - (bax * bby - bay * bbx) * (aay - aby);
         denominator = (aax - abx) * (bay - bby) - (aay - aby) * (bax - bbx) in
     if denominator = 0 then None else Some (px / denominator, py / denominator))"

fun line_through :: "vec \<Rightarrow> vec \<Rightarrow> (rat \<times> rat \<times> rat) option" where
  "line_through (x1, y1) (x2, y2) =
    (if x2 - x1 = 0 then None
     else
       let m = (y2 - y1) / (x2 - x1); i = y1 - m * x1 in
       if - y1 = 0 then None else Some (m, ((m * x1) + i) / (- y1), i))"

fun point_from_x :: "rat \<times> rat \<times> rat \<Rightarrow> rat \<Rightarrow> vec option" where
  "point_from_x (a, b, c) x =
    (if a = 0 \<and> b = - 1 then Some (x, c) else if b = 0 then None else Some (x, (- (a * x) - c) / b))"

fun point_from_y :: "rat \<times> rat \<times> rat \<Rightarrow> rat \<Rightarrow> vec option" where
  "point_from_y (a, b, c) y =
    (if a = - 1 \<and> b = 0 then Some (c, y) else if a = 0 then None else Some ((- (b * y) - c) / a, y))"

text \<open>Points are ordered by their distance from the origin; points on one circle count as equal.\<close>

interpretation pt: cmp_by_key "\<lambda>_. True" point_cmp "\<lambda>(x, y). x * x + y * y"
  by unfold_locales (auto simp: Let_def split: if_splits)

lemma line_through_some:
  assumes "x1 \<noteq> x2" "y1 \<noteq> 0"
  shows "line_through (x1, y1) (x2, y2) = Some ((y2 - y1) / (x2 - x1), - 1, y1 - (y2 - y1) / (x2 - x1) * x1)"
  using assms by (simp add: Let_def)

lemma on_segment:
  fixes D :: rat
  assumes "D \<noteq> 0" "n = a * D + k * (b - a)"
  shows "n / D = a + k / D * (b - a)"
  using assms by (simp add: field_simps)

lemma get_intersect_on:
  assumes "lseg_get_intersect ((aax, aay), (abx, aby)) ((bax, bay), (bbx, bby)) = Some (px, py)"
  shows "(\<exists>t. px = aax + t * (abx - aax) \<and> py = aay + t * (aby - aay)) \<and>
    (\<exists>t. px = bax + t * (bbx - bax) \<and> py = bay + t * (bby - bay))"
proof -
  define D where "D = (aax - abx) * (bay - bby) - (aay - aby) * (bax - bbx)"
  define nx ny where n: "nx = (aax * aby - aay * abx) * (bax - bbx) - (bax * bby - bay * bbx) * (aax - abx)"
    "ny = (aax * aby - aay * abx) * (bay - bby) - (bax * bby - bay * bbx) * (aay - aby)"
  have D: "D \<noteq> 0" and p: "px = nx / D" "py = ny / D"
    using assms by (auto simp: Let_def D_def n split: if_splits)
  define t u where tu: "t = (aax - bax) * (bay - bby) - (aay - bay) * (bax - bbx)"
    "u = (aax - bax) * (aay - aby) - (aay - bay) * (aax - abx)"
  have a: "px = aax + t / D * (abx - aax)" "py = aay + t / D * (aby - aay)"
    unfolding p by (rule on_segment [OF D]; simp add: n D_def tu algebra_simps)+
  have b: "px = bax + u / D * (bbx - bax)" "py = bay + u / D * (bby - bay)"
    unfolding p by (rule on_segment [OF D]; simp add: n D_def tu algebra_simps)+
  from a b show ?thesis by blast
qed

lemma line_through_meets:
  assumes "x1 \<noteq> x2" "y1 \<noteq> 0" "line_through (x1, y1) (x2, y2) = Some l"
  shows "point_from_x l x1 = Some (x1, y1) \<and> point_from_x l x2 = Some (x2, y2)"
proof -
  define m where "m = (y2 - y1) / (x2 - x1)"
  have l: "l = (m, - 1, y1 - m * x1)" using assms line_through_some [OF assms(1,2), of y2] by (simp add: m_def)
  have "m * (x2 - x1) = y2 - y1" using assms(1) by (simp add: m_def)
  then show ?thesis by (auto simp: l algebra_simps)
qed

text \<open>
  In exact arithmetic the line through two points with different \<open>x\<close> is not computed when
  the first one lies on the axis, and otherwise \<open>point_from_x\<close> finds both points on it;
  \<open>get_intersect\<close> finds a point of both lines; but \<open>intersect\<close>, whose cross product is not one,
  denies that the diagonals of a square meet.
\<close>

theorem geometry_exact:
  assumes "x1 \<noteq> x2" "lseg_get_intersect ((aax, aay), (abx, aby)) ((bax, bay), (bbx, bby)) = Some (px, py)"
  shows "(y1 = 0 \<longrightarrow> line_through (x1, y1) (x2, y2) = None) \<and>
    (y1 \<noteq> 0 \<longrightarrow> (\<exists>l. line_through (x1, y1) (x2, y2) = Some l \<and>
       point_from_x l x1 = Some (x1, y1) \<and> point_from_x l x2 = Some (x2, y2))) \<and>
    (\<exists>t. px = aax + t * (abx - aax) \<and> py = aay + t * (aby - aay)) \<and>
    (\<exists>t. px = bax + t * (bbx - bax) \<and> py = bay + t * (bby - bay)) \<and>
    lseg_intersect ((0, 0), (2, 2)) ((0, 2), (2, 0)) = Some False"
proof (intro conjI impI)
  show "\<exists>l. line_through (x1, y1) (x2, y2) = Some l \<and> point_from_x l x1 = Some (x1, y1) \<and> point_from_x l x2 = Some (x2, y2)"
    if "y1 \<noteq> 0"
    using line_through_some [OF assms(1) that, of y2] line_through_meets [OF assms(1) that] by blast
  show "line_through (x1, y1) (x2, y2) = None" if "y1 = 0" using that assms(1) by simp
  show "lseg_intersect ((0, 0), (2, 2)) ((0, 2), (2, 0)) = Some False" by (simp add: Let_def)
qed (use get_intersect_on [OF assms(2)] in blast)+

section \<open>Witnesses\<close>

text \<open>A library that trims white space and shows three numbers.\<close>

definition sample_lib :: geo_lib where
  "sample_lib = \<lparr> str_to_double = (\<lambda>s. if s = ''-20.5'' then 2 else if s = ''7'' then 1 else 0),
     double_to_str = (\<lambda>v. if v = 2 then ''-20.5'' else if v = 1 then ''7'' else ''0''),
     md_trim = (\<lambda>s. rev (dropWhile c_isspace (rev (dropWhile c_isspace s)))) \<rparr>"

lemma dropWhile_none: "\<forall>c \<in> set s. \<not> c_isspace c \<Longrightarrow> dropWhile c_isspace s = s"
  by (cases s) simp_all

lemma sample_lib_trims: "trims sample_lib"
  by (simp add: trims_def sample_lib_def dropWhile_none)

lemma sample_lib_shown: "shown sample_lib 0" "shown sample_lib 1" "shown sample_lib 2"
  by (simp_all add: shown_def sample_lib_def num_char_def c_isdigit_def)

abbreviation pt_a :: point where "pt_a \<equiv> \<lparr> p_x = 1, p_y = 2 \<rparr>"
abbreviation pt_b :: point where "pt_b \<equiv> \<lparr> p_x = 0, p_y = 1 \<rparr>"

lemma sample_points_shown: "shown_point sample_lib pt_a" "shown_point sample_lib pt_b"
  by (simp_all add: shown_point_def sample_lib_shown)

theorem geometry_text_witness:
  "path_of_string sample_lib (path_to_string sample_lib \<lparr> pa_closed = True, pa_p = [pt_a, pt_b] \<rparr>) =
     Inr \<lparr> pa_closed = True, pa_p = [pt_a, pt_b] \<rparr> \<and>
   path_to_string sample_lib \<lparr> pa_closed = True, pa_p = [pt_a, pt_b] \<rparr> = ''((7,-20.5),(0,7))''"
proof
  show "path_of_string sample_lib (path_to_string sample_lib \<lparr> pa_closed = True, pa_p = [pt_a, pt_b] \<rparr>) =
     Inr \<lparr> pa_closed = True, pa_p = [pt_a, pt_b] \<rparr>"
    using geometry_text [OF sample_lib_trims sample_points_shown(1), of "\<lparr> pa_closed = True, pa_p = [pt_a, pt_b] \<rparr>"
        "\<lparr> po_boundbox = box_init, po_p = [pt_b] \<rparr>"] sample_points_shown by simp
qed (simp add: path_to_string_def point_to_string_def sample_lib_def)

theorem two_part_text_witness:
  "box_of_string sample_lib ''(7,-20.5),(0,7)'' = Inr \<lparr> b_high = \<lparr> p_x = 1, p_y = 0 \<rparr>, b_low = pt_b \<rparr> \<and>
   circle_of_string sample_lib ''<(7,-20.5),0>'' = Inl (PqException ''Invalid input for type point'')"
proof -
  have t: "box_to_string sample_lib \<lparr> b_high = pt_a, b_low = pt_b \<rparr> = ''(7,-20.5),(0,7)''"
      "circle_to_string sample_lib \<lparr> c_center = pt_a, c_radius = 0 \<rparr> = ''<(7,-20.5),0>''"
      "point_to_string sample_lib pt_b = ''(0,7)''" "double_to_str sample_lib 1 = ''7''" "double_to_str sample_lib 2 = ''-20.5''"
      "double_to_str sample_lib 0 = ''0''" "str_to_double sample_lib ''-20'' = 0"
    by (simp_all add: box_to_string_def circle_to_string_def point_to_string_def sample_lib_def)
  show ?thesis
    using two_part_text [OF sample_lib_trims sample_points_shown sample_lib_shown(1) refl refl, unfolded t]
    by (simp add: shown_y_def t)
qed

theorem line_text_refused_witness:
  "line_of_string (\<lambda>p q. line_init) sample_lib ''{0,7,-20.5}'' = Inl (PqException ''Invalid input for type line'')"
proof -
  have t: "line_to_string sample_lib \<lparr> l_a = 0, l_b = 1, l_c = 2 \<rparr> = ''{0,7,-20.5}''"
    by (simp add: line_to_string_def sample_lib_def)
  show ?thesis
    using line_text_refused [OF sample_lib_trims, of "\<lparr> l_a = 0, l_b = 1, l_c = 2 \<rparr>" "\<lambda>p q. line_init"] sample_lib_shown
    by (simp add: t)
qed

theorem wire_geometry_witness:
  "pgval_to_polygon \<lparr> str_to_num = (\<lambda>_ _. 0), iequals = (=) \<rparr> sample_lib True (pm_value (new_polygon True \<lparr> po_boundbox = \<lparr> b_high = pt_a, b_low = pt_b \<rparr>, po_p = [pt_a, pt_b] \<rparr>)) 36 1
   = Inr \<lparr> po_boundbox = box_init, po_p = [pt_a, pt_b] \<rparr>"
proof -
  let ?g = "\<lparr> po_boundbox = \<lparr> b_high = pt_a, b_low = pt_b \<rparr>, po_p = [pt_a, pt_b] \<rparr>"
  have s: "in_s 64 0" "in_s 64 1" "in_s 64 2" by (simp_all add: in_s_def)
  have "pm_length (new_polygon True ?g) = 36"
    by (simp add: new_polygon_def Let_def mk_param_def be_bytes_props points_bytes_props wrap_s_def point_bytes_def)
  moreover have ok: "point_ok pt_a" "line_ok \<lparr> l_a = 0, l_b = 1, l_c = 2 \<rparr>" "lseg_ok \<lparr> ls_a = pt_a, ls_b = pt_b \<rparr>"
      "box_ok \<lparr> b_high = pt_a, b_low = pt_b \<rparr>" "points_ok (pa_p \<lparr> pa_closed = True, pa_p = [pt_a, pt_b] \<rparr>)"
      "points_ok (po_p ?g)" "circle_ok \<lparr> c_center = pt_a, c_radius = 1 \<rparr>"
    by (simp_all add: point_ok_def line_ok_def lseg_ok_def box_ok_def points_ok_def circle_ok_def s)
  ultimately show ?thesis
    using wire_geometry [OF ok, of sample_lib True "\<lambda>p q. line_init" True "\<lparr> str_to_num = (\<lambda>_ _. 0), iequals = (=) \<rparr>" 0]
    by simp
qed

end
