(* ===== verification/Range.thy ===== *)
theory Range
  imports Wire
begin

unbundle bit_operations_syntax

text \<open>
  Ranges: the class template \<open>range\<close> of \<open>pg_type_range_def.h\<close> and \<open>pg_type_range_def.cpp\<close>
  with its flags, its bounds, its text form and its iterators. The record is the one of the
  binary form.

  The conversions of bounds from and to text and \<open>md::trim\<close> are arguments: they belong to
  other classes or libraries. Integer bounds have a width of \<open>w\<close> bits, and leaving it is
  undefined behaviour.
\<close>

section \<open>Flags\<close>

definition rf_none :: int where "rf_none = 0"
definition rf_empty :: int where "rf_empty = 1"
definition rf_lb_inc :: int where "rf_lb_inc = 2"
definition rf_ub_inc :: int where "rf_ub_inc = 4"
definition rf_lb_inf :: int where "rf_lb_inf = 8"
definition rf_ub_inf :: int where "rf_ub_inf = 16"
definition rf_lb_null :: int where "rf_lb_null = 32"
definition rf_ub_null :: int where "rf_ub_null = 64"
definition rf_contain_empty :: int where "rf_contain_empty = 128"

datatype range_inclusion = Inclusive | Exclusive

definition range_init :: "'a \<Rightarrow> 'a range" where
  "range_init dflt = \<lparr> r_flags = rf_none, r_lb = dflt, r_ub = dflt \<rparr>"

definition range_of :: "'a \<Rightarrow> 'a \<Rightarrow> 'a range" where
  "range_of lb ub = \<lparr> r_flags = rf_lb_inc, r_lb = lb, r_ub = ub \<rparr>"

definition is_empty :: "'a range \<Rightarrow> bool" where
  "is_empty r \<longleftrightarrow> r_flags r AND rf_empty \<noteq> 0"

definition is_or_contains_empty :: "'a range \<Rightarrow> bool" where
  "is_or_contains_empty r \<longleftrightarrow> r_flags r AND (rf_empty OR rf_contain_empty) \<noteq> 0"

definition lbound_inclusion :: "'a range \<Rightarrow> range_inclusion" where
  "lbound_inclusion r = (if r_flags r AND rf_lb_inc \<noteq> 0 then Inclusive else Exclusive)"

definition set_lbound_inclusion :: "range_inclusion \<Rightarrow> 'a range \<Rightarrow> 'a range" where
  "set_lbound_inclusion ri r =
    (let r = r \<lparr> r_flags := r_flags r AND NOT rf_lb_inc \<rparr> in
     if ri = Inclusive then r \<lparr> r_flags := r_flags r OR rf_lb_inc \<rparr> else r)"

definition ubound_inclusion :: "'a range \<Rightarrow> range_inclusion" where
  "ubound_inclusion r = (if r_flags r AND rf_ub_inc \<noteq> 0 then Inclusive else Exclusive)"

definition set_ubound_inclusion :: "range_inclusion \<Rightarrow> 'a range \<Rightarrow> 'a range" where
  "set_ubound_inclusion ri r =
    (let r = r \<lparr> r_flags := r_flags r AND NOT rf_ub_inc \<rparr> in
     if ri = Inclusive then r \<lparr> r_flags := r_flags r OR rf_ub_inc \<rparr> else r)"

text \<open>The setter of the flags stores what it is given.\<close>

definition set_flags :: "int \<Rightarrow> 'a range \<Rightarrow> 'a range" where
  "set_flags f r = r \<lparr> r_flags := f \<rparr>"

section \<open>Bounds\<close>

definition clear_lbound :: "'a range \<Rightarrow> 'a range" where
  "clear_lbound r =
    (if \<not> has_lbound r then r
     else
       let f = r_flags r AND NOT (rf_lb_inc OR rf_lb_null OR rf_empty OR rf_contain_empty);
           r = r \<lparr> r_flags := f OR rf_lb_inf \<rparr> in
       if \<not> has_ubound r then r \<lparr> r_flags := r_flags r OR rf_empty \<rparr>
       else r \<lparr> r_flags := r_flags r OR rf_contain_empty \<rparr>)"

definition clear_ubound :: "'a range \<Rightarrow> 'a range" where
  "clear_ubound r =
    (if \<not> has_ubound r then r
     else
       let f = r_flags r AND NOT (rf_ub_inc OR rf_ub_null OR rf_empty OR rf_contain_empty);
           r = r \<lparr> r_flags := f OR rf_ub_inf \<rparr> in
       if \<not> has_lbound r then r \<lparr> r_flags := r_flags r OR rf_empty \<rparr>
       else r \<lparr> r_flags := r_flags r OR rf_contain_empty \<rparr>)"

definition no_lbound :: pq_error where "no_lbound = PqException ''lbound is unbounded''"
definition no_ubound :: pq_error where "no_ubound = PqException ''ubound is unbounded''"

definition lbound :: "'a range \<Rightarrow> 'a result" where
  "lbound r = (if \<not> has_lbound r then Inl no_lbound else Inr (r_lb r))"

definition ubound :: "'a range \<Rightarrow> 'a result" where
  "ubound r = (if \<not> has_ubound r then Inl no_ubound else Inr (r_ub r))"

definition set_lbound :: "'a \<Rightarrow> range_inclusion \<Rightarrow> 'a range \<Rightarrow> 'a range" where
  "set_lbound v ri r =
    (if has_lbound r then r \<lparr> r_lb := v \<rparr>
     else
       let r = r \<lparr> r_flags := r_flags r AND NOT (rf_lb_inf OR rf_lb_null OR rf_empty OR rf_contain_empty) \<rparr>;
           r = (if ri = Inclusive then r \<lparr> r_flags := r_flags r OR rf_lb_inc \<rparr> else r);
           r = (if \<not> has_ubound r then r \<lparr> r_flags := r_flags r OR rf_contain_empty \<rparr> else r) in
       r \<lparr> r_lb := v \<rparr>)"

definition set_ubound :: "'a \<Rightarrow> range_inclusion \<Rightarrow> 'a range \<Rightarrow> 'a range" where
  "set_ubound v ri r =
    (if has_ubound r then r \<lparr> r_ub := v \<rparr>
     else
       let r = r \<lparr> r_flags := r_flags r AND NOT (rf_ub_inf OR rf_ub_null OR rf_empty OR rf_contain_empty) \<rparr>;
           r = (if ri = Inclusive then r \<lparr> r_flags := r_flags r OR rf_ub_inc \<rparr> else r);
           r = (if \<not> has_lbound r then r \<lparr> r_flags := r_flags r OR rf_contain_empty \<rparr> else r) in
       r \<lparr> r_ub := v \<rparr>)"

text \<open>The first and the last element of a range of integers.\<close>

definition checked :: "nat \<Rightarrow> int \<Rightarrow> int result" where
  "checked w v = (if in_s w v then Inr v else Inl (UndefinedBehaviour ''signed overflow''))"

definition lbound_abs :: "nat \<Rightarrow> int range \<Rightarrow> int result" where
  "lbound_abs w r =
    (if \<not> has_lbound r then Inl no_lbound
     else if lbound_inclusion r = Inclusive then Inr (r_lb r)
     else checked w (r_lb r + 1))"

definition ubound_abs :: "nat \<Rightarrow> int range \<Rightarrow> int result" where
  "ubound_abs w r =
    (if \<not> has_ubound r then Inl no_ubound
     else if ubound_inclusion r = Inclusive then Inr (r_ub r)
     else checked w (r_ub r - 1))"

section \<open>Iterators\<close>

text \<open>An iterator is the range it belongs to and its value.\<close>

definition iter_begin :: "nat \<Rightarrow> int range \<Rightarrow> int result" where
  "iter_begin w r = lbound_abs w r"

definition iter_end :: "nat \<Rightarrow> int range \<Rightarrow> int result" where
  "iter_end w r = bind_result (ubound_abs w r) (\<lambda>v. checked w (v + 1))"

definition iter_next :: "nat \<Rightarrow> int range \<Rightarrow> int \<Rightarrow> int result" where
  "iter_next w r v =
    (if has_ubound r then
       bind_result (ubound_abs w r) (\<lambda>u. bind_result (checked w (u + 1)) (\<lambda>e.
         if v = e then Inl (PqException ''Out of bounds iterator increment!'') else checked w (v + 1)))
     else checked w (v + 1))"

text \<open>
  A loop \<open>for(auto v : r)\<close>, which visits its values in this order; None when \<open>fuel\<close> turns are not
  enough.
\<close>

primrec iter_loop :: "nat \<Rightarrow> nat \<Rightarrow> int range \<Rightarrow> int \<Rightarrow> int \<Rightarrow> int list result option" where
  "iter_loop 0 w r v e = (if v = e then Some (Inr []) else None)"
| "iter_loop (Suc fuel) w r v e =
    (if v = e then Some (Inr [])
     else case iter_next w r v of
       Inl err \<Rightarrow> Some (Inl err)
     | Inr v' \<Rightarrow> map_option (\<lambda>x. bind_result x (\<lambda>vs. Inr (v # vs))) (iter_loop fuel w r v' e))"

definition range_values :: "nat \<Rightarrow> nat \<Rightarrow> int range \<Rightarrow> int list result option" where
  "range_values fuel w r =
    (case iter_begin w r of
       Inl err \<Rightarrow> Some (Inl err)
     | Inr b \<Rightarrow> (case iter_end w r of Inl err \<Rightarrow> Some (Inl err) | Inr e \<Rightarrow> iter_loop fuel w r b e))"

section \<open>Text\<close>

text \<open>\<open>parse\<close> returns the flags and the texts of the bounds.\<close>

definition bad_range :: pq_error where "bad_range = PqException ''Invalid input for range''"

definition range_parse :: "(string \<Rightarrow> string) \<Rightarrow> string \<Rightarrow> (int \<times> string \<times> string) result" where
  "range_parse trim inp =
    (if inp = ''empty'' then Inr (rf_empty, [], [])
     else if inp = [] \<or> (hd inp \<noteq> CHR ''['' \<and> hd inp \<noteq> CHR ''('') \<or> (last inp \<noteq> CHR '']'' \<and> last inp \<noteq> CHR '')'') then Inl bad_range
     else
       let f = (if hd inp = CHR ''['' then rf_none OR rf_lb_inc else rf_none);
           f = (if last inp = CHR '']'' then f OR rf_ub_inc else f);
           cp = length (takeWhile (\<lambda>c. c \<noteq> CHR '','') inp) in
       if cp = length inp then Inl bad_range
       else
         let v1 = trim (take (cp - 1) (drop 1 inp)); v2 = trim (drop (cp + 1) inp);
             f = (if v1 = [] then f OR rf_lb_inf else f);
             f = (if v2 = [] then f OR rf_ub_inf else f);
             f = (if v1 = [] \<or> v2 = [] then f OR rf_contain_empty else f) in
         Inr (f, v1, v2))"

definition range_format :: "int \<Rightarrow> string \<Rightarrow> string \<Rightarrow> string" where
  "range_format f sl su =
    (if f AND rf_empty \<noteq> 0 then ''empty''
     else (if f AND rf_lb_inc \<noteq> 0 then ''['' else ''('') @ sl @ '','' @ su @ (if f AND rf_ub_inc \<noteq> 0 then '']'' else '')''))"

text \<open>
  The constructors from text have no initialisers: \<open>junk\<close> is the range with what the members
  hold before. The upper bound of the integer ranges is converted from the text of the lower one.
\<close>

definition int_range_of_string :: "(string \<Rightarrow> string) \<Rightarrow> (string \<Rightarrow> int) \<Rightarrow> int range \<Rightarrow> string \<Rightarrow> int range result" where
  "int_range_of_string trim conv junk str =
    bind_result (range_parse trim (trim str)) (\<lambda>(f, v1, v2).
      if f AND rf_empty \<noteq> 0 then Inr (junk \<lparr> r_flags := f \<rparr>)
      else
        let r = (if v1 \<noteq> [] then junk \<lparr> r_lb := conv v1 \<rparr> else junk) in
        Inr (if v2 \<noteq> [] then r \<lparr> r_ub := conv v1 \<rparr> else r))"

definition num_range_of_string :: "(string \<Rightarrow> string) \<Rightarrow> (string \<Rightarrow> 'a) \<Rightarrow> 'a range \<Rightarrow> string \<Rightarrow> 'a range result" where
  "num_range_of_string trim conv junk str =
    bind_result (range_parse trim (trim str)) (\<lambda>(f, v1, v2).
      if f AND rf_empty \<noteq> 0 then Inr (junk \<lparr> r_flags := f \<rparr>)
      else
        let r = (if v1 \<noteq> [] then junk \<lparr> r_lb := conv v1 \<rparr> else junk) in
        Inr (if v2 \<noteq> [] then r \<lparr> r_ub := conv v2 \<rparr> else r))"

definition range_to_string :: "('a \<Rightarrow> string) \<Rightarrow> 'a range \<Rightarrow> string" where
  "range_to_string show r =
    range_format (r_flags r) (if has_lbound r then show (r_lb r) else []) (if has_ubound r then show (r_ub r) else [])"

section \<open>Flags as sets of bits\<close>

lemmas rf_defs = rf_none_def rf_empty_def rf_lb_inc_def rf_ub_inc_def rf_lb_inf_def rf_ub_inf_def rf_lb_null_def
  rf_ub_null_def rf_contain_empty_def

lemma rf_exp: "rf_empty = 2 ^ 0" "rf_lb_inc = 2 ^ 1" "rf_ub_inc = 2 ^ 2" "rf_lb_inf = 2 ^ 3" "rf_ub_inf = 2 ^ 4"
  "rf_lb_null = 2 ^ 5" "rf_ub_null = 2 ^ 6" "rf_contain_empty = 2 ^ 7"
  by (simp_all add: rf_defs)

lemma bit_rf [simp]: "bit rf_empty n \<longleftrightarrow> n = 0" "bit rf_lb_inc n \<longleftrightarrow> n = 1" "bit rf_ub_inc n \<longleftrightarrow> n = 2"
  "bit rf_lb_inf n \<longleftrightarrow> n = 3" "bit rf_ub_inf n \<longleftrightarrow> n = 4" "bit rf_lb_null n \<longleftrightarrow> n = 5" "bit rf_ub_null n \<longleftrightarrow> n = 6"
  "bit rf_contain_empty n \<longleftrightarrow> n = 7" "\<not> bit rf_none n"
  unfolding rf_exp rf_none_def by (simp_all only: bit_exp_iff bit_0_eq) auto

lemma and_rf: "f AND rf_empty = 0 \<longleftrightarrow> \<not> bit f 0" "f AND rf_lb_inc = 0 \<longleftrightarrow> \<not> bit f 1" "f AND rf_ub_inc = 0 \<longleftrightarrow> \<not> bit f 2"
  "f AND rf_lb_inf = 0 \<longleftrightarrow> \<not> bit f 3" "f AND rf_ub_inf = 0 \<longleftrightarrow> \<not> bit f 4" "f AND rf_lb_null = 0 \<longleftrightarrow> \<not> bit f 5"
  "f AND rf_ub_null = 0 \<longleftrightarrow> \<not> bit f 6" "f AND rf_contain_empty = 0 \<longleftrightarrow> \<not> bit f 7"
  unfolding rf_exp and_exp_eq_0_iff_not_bit by simp_all

lemma and_or_zero: "f AND (a OR b) = 0 \<longleftrightarrow> f AND a = 0 \<and> f AND b = (0::int)"
  unfolding bit.conj_disj_distrib by (rule or_eq_0_iff)

lemma has_lbound_bits: "has_lbound r \<longleftrightarrow> \<not> bit (r_flags r) 0 \<and> \<not> bit (r_flags r) 5 \<and> \<not> bit (r_flags r) 3"
proof -
  have "1 OR 32 OR 8 = rf_empty OR rf_lb_null OR rf_lb_inf" by (simp add: rf_defs)
  then show ?thesis by (simp only: has_lbound_def and_or_zero and_rf)
qed

lemma has_ubound_bits: "has_ubound r \<longleftrightarrow> \<not> bit (r_flags r) 0 \<and> \<not> bit (r_flags r) 6 \<and> \<not> bit (r_flags r) 4"
proof -
  have "1 OR 64 OR 16 = rf_empty OR rf_ub_null OR rf_ub_inf" by (simp add: rf_defs)
  then show ?thesis by (simp only: has_ubound_def and_or_zero and_rf)
qed

lemmas range_bits = has_lbound_bits has_ubound_bits is_empty_def lbound_inclusion_def ubound_inclusion_def and_rf
  bit_and_iff bit_or_iff bit_not_iff

text \<open>
  A value of the flags as the server sends them: one byte, and a bound at infinity is not
  inclusive.
\<close>

definition range_wf :: "'a range \<Rightarrow> bool" where
  "range_wf r \<longleftrightarrow> 0 \<le> r_flags r \<and> r_flags r < 256 \<and>
     (r_flags r AND rf_lb_inf \<noteq> 0 \<longrightarrow> r_flags r AND rf_lb_inc = 0) \<and>
     (r_flags r AND rf_ub_inf \<noteq> 0 \<longrightarrow> r_flags r AND rf_ub_inc = 0)"

lemma byte_bits: "0 \<le> f \<and> f < 256 \<longleftrightarrow> (\<forall>n \<ge> 8. \<not> bit (f::int) n)"
proof -
  have "0 \<le> f \<and> f < 256 \<longleftrightarrow> take_bit 8 f = f" by (simp add: take_bit_int_eq_self_iff)
  also have "\<dots> \<longleftrightarrow> (\<forall>n. n < 8 \<and> bit f n \<longleftrightarrow> bit f n)"
    unfolding bit_eq_iff [of "take_bit 8 f"] by (simp only: bit_take_bit_iff possible_bit_int simp_thms)
  also have "\<dots> \<longleftrightarrow> (\<forall>n \<ge> 8. \<not> bit f n)" by (meson not_le)
  finally show ?thesis .
qed

lemma range_wf_bits: "range_wf r \<longleftrightarrow> (\<forall>n \<ge> 8. \<not> bit (r_flags r) n) \<and>
    (bit (r_flags r) 3 \<longrightarrow> \<not> bit (r_flags r) 1) \<and> (bit (r_flags r) 4 \<longrightarrow> \<not> bit (r_flags r) 2)"
  unfolding range_wf_def conj_assoc [symmetric] byte_bits and_rf by auto

text \<open>
  C32: The flags of a range after its operations, when they were a byte in which a bound at
  infinity is not inclusive. Clearing and setting a bound keep this, and so do the constructors
  without text; a setter of an inclusion keeps it exactly when it does not make a bound at infinity
  inclusive, which it does not check. Setting a bound makes the range not empty; clearing a bound
  that is there makes it empty exactly when the other one is not there, and clearing a bound that
  is not there changes nothing. The setter of the flags, which stores any value, is left out.
\<close>

theorem range_flags_kept:
  assumes "range_wf r"
  shows "range_wf (clear_lbound r) \<and> range_wf (clear_ubound r) \<and> range_wf (set_lbound v li r) \<and> range_wf (set_ubound v ui r) \<and>
    range_wf (set_lbound_inclusion li r) = (li = Exclusive \<or> r_flags r AND rf_lb_inf = 0) \<and>
    range_wf (set_ubound_inclusion ui r) = (ui = Exclusive \<or> r_flags r AND rf_ub_inf = 0) \<and>
    range_wf (range_init x) \<and> range_wf (range_of x y) \<and>
    \<not> is_empty (set_lbound v li r) \<and> \<not> is_empty (set_ubound v ui r) \<and>
    (if has_lbound r then is_empty (clear_lbound r) = (\<not> has_ubound r) else clear_lbound r = r) \<and>
    (if has_ubound r then is_empty (clear_ubound r) = (\<not> has_lbound r) else clear_ubound r = r)"
proof (intro conjI)
  have n: "\<not> (8::nat) \<le> 7" "\<not> (8::nat) \<le> 4" by simp_all
  show "range_wf (clear_lbound r)" using assms by (auto simp: range_wf_bits clear_lbound_def range_bits Let_def)
  show "range_wf (clear_ubound r)" using assms by (auto simp: range_wf_bits clear_ubound_def range_bits Let_def)
  show "range_wf (set_lbound v li r)" using assms by (auto simp: range_wf_bits set_lbound_def range_bits Let_def)
  show "range_wf (set_ubound v ui r)" using assms by (auto simp: range_wf_bits set_ubound_def range_bits Let_def)
  show "range_wf (set_lbound_inclusion li r) = (li = Exclusive \<or> r_flags r AND rf_lb_inf = 0)"
    using assms by (cases li) (auto simp: range_wf_bits set_lbound_inclusion_def range_bits Let_def)
  show "range_wf (set_ubound_inclusion ui r) = (ui = Exclusive \<or> r_flags r AND rf_ub_inf = 0)"
    using assms by (cases ui) (auto simp: range_wf_bits set_ubound_inclusion_def range_bits Let_def)
  show "range_wf (range_init x)" "range_wf (range_of x y)" by (auto simp: range_wf_bits range_init_def range_of_def)
  show "\<not> is_empty (set_lbound v li r)" by (auto simp: set_lbound_def range_bits Let_def)
  show "\<not> is_empty (set_ubound v ui r)" by (auto simp: set_ubound_def range_bits Let_def)
  show "if has_lbound r then is_empty (clear_lbound r) = (\<not> has_ubound r) else clear_lbound r = r"
    by (auto simp: clear_lbound_def range_bits Let_def)
  show "if has_ubound r then is_empty (clear_ubound r) = (\<not> has_lbound r) else clear_ubound r = r"
    by (auto simp: clear_ubound_def range_bits Let_def)
qed

text \<open>
  Setting a lower bound gives the range this bound and keeps the upper one, but applies the
  requested inclusion only when there was no lower bound before. Clearing it keeps the upper
  bound if there is one; if there is none, the range without bounds is marked as empty.
\<close>

theorem range_bounds:
  shows "lbound (set_lbound v ri r) = Inr v \<and> r_ub (set_lbound v ri r) = r_ub r \<and>
    (\<not> is_empty r \<longrightarrow> has_ubound (set_lbound v ri r) = has_ubound r) \<and>
    lbound_inclusion (set_lbound v ri r) =
      (if has_lbound r \<or> ri = Exclusive then lbound_inclusion r else Inclusive) \<and>
    (has_lbound r \<longrightarrow> lbound (clear_lbound r) = Inl no_lbound \<and>
      (if has_ubound r then ubound (clear_lbound r) = Inr (r_ub r) \<and> \<not> is_empty (clear_lbound r)
       else is_empty (clear_lbound r)))"
proof (intro conjI impI)
  show "lbound (set_lbound v ri r) = Inr v" by (simp add: lbound_def set_lbound_def range_bits Let_def)
  show "r_ub (set_lbound v ri r) = r_ub r" by (simp add: set_lbound_def Let_def)
  show "has_ubound (set_lbound v ri r) = has_ubound r" if "\<not> is_empty r"
    using that by (simp add: set_lbound_def range_bits Let_def)
  show "lbound_inclusion (set_lbound v ri r) = (if has_lbound r \<or> ri = Exclusive then lbound_inclusion r else Inclusive)"
    by (cases ri) (simp_all add: set_lbound_def range_bits Let_def)
  show "lbound (clear_lbound r) = Inl no_lbound" if "has_lbound r"
    using that by (simp add: lbound_def clear_lbound_def range_bits Let_def)
  show "if has_ubound r then ubound (clear_lbound r) = Inr (r_ub r) \<and> \<not> is_empty (clear_lbound r) else is_empty (clear_lbound r)"
    if "has_lbound r"
    using that by (simp add: ubound_def clear_lbound_def range_bits Let_def)
qed

section \<open>Iteration\<close>

lemma checked_ok [simp]: "in_s w v \<Longrightarrow> checked w v = Inr v"
  by (simp add: checked_def)

lemma iter_next_inner:
  assumes "ubound_abs w r = Inr u" "in_s w (u + 1)" "v \<noteq> u + 1" "in_s w (v + 1)"
  shows "iter_next w r v = Inr (v + 1)"
proof -
  have "has_ubound r" using assms(1) by (simp add: ubound_abs_def split: if_splits)
  then show ?thesis using assms by (simp add: iter_next_def)
qed

lemma iter_loop_values:
  assumes "ubound_abs w r = Inr u" "in_s w (u + 1)"
  shows "in_s w v \<Longrightarrow> v + int n = u + 1 \<Longrightarrow> iter_loop n w r v (u + 1) = Some (Inr [v..u])"
proof (induction n arbitrary: v)
  case (Suc n)
  have v: "in_s w (v + 1)" using Suc.prems assms(2) by (auto simp: in_s_def)
  have "[v..u] = v # [v + 1..u]" using Suc.prems by (simp add: upto_rec1)
  then show ?case using Suc v iter_next_inner [OF assms, of v] by simp
qed simp

lemma iter_loop_stuck:
  assumes "ubound_abs w r = Inr u" "in_s w (u + 1)"
  shows "in_s w v \<Longrightarrow> u + 1 < v \<Longrightarrow> in_s w (v + int n) \<Longrightarrow> iter_loop n w r v (u + 1) = None"
proof (induction n arbitrary: v)
  case (Suc n)
  have v: "in_s w (v + 1)" using Suc.prems by (auto simp: in_s_def)
  have "in_s w (v + 1 + int n)" using Suc.prems(3) by (simp add: algebra_simps)
  then show ?case using Suc.IH [OF v] Suc.prems(2) iter_next_inner [OF assms _ v] by simp
qed simp

text \<open>The integers that a range contains.\<close>

definition in_range :: "int \<Rightarrow> int range \<Rightarrow> bool" where
  "in_range x r \<longleftrightarrow> (if lbound_inclusion r = Inclusive then r_lb r \<le> x else r_lb r < x) \<and>
     (if ubound_inclusion r = Inclusive then x \<le> r_ub r else x < r_ub r)"

lemma abs_bounds:
  assumes "lbound_abs w r = Inr l" "ubound_abs w r = Inr u"
  shows "in_range x r \<longleftrightarrow> l \<le> x \<and> x \<le> u"
  using assms by (auto simp: lbound_abs_def ubound_abs_def in_range_def checked_def split: if_splits)

text \<open>
  C33: Iterating over a range of integers that has both bounds, with the first element \<open>l\<close> and the
  last one \<open>u\<close> in their type and \<open>u + 1\<close> in it too. If \<open>l\<close> is at most \<open>u + 1\<close> it visits exactly
  the integers in the range, in order, and ends after as many turns. If \<open>l\<close> is greater, the range
  has no element and the iteration does not end before its value leaves the type.
\<close>

theorem range_iteration:
  assumes "lbound_abs w r = Inr l" "ubound_abs w r = Inr u" "in_s w l" "in_s w (u + 1)"
  shows "(l \<le> u + 1 \<longrightarrow> (\<exists>vs. range_values (nat (u + 1 - l)) w r = Some (Inr vs) \<and>
      sorted_wrt (<) vs \<and> set vs = {x. in_range x r})) \<and>
    (u + 1 < l \<longrightarrow> in_s w (l + int n) \<longrightarrow> {x. in_range x r} = {} \<and> range_values n w r = None)"
proof (intro conjI impI)
  have s: "range_values n w r = iter_loop n w r l (u + 1)" for n
    using assms by (simp add: range_values_def iter_begin_def iter_end_def)
  have m: "{x. in_range x r} = {l..u}" by (simp add: set_eq_iff abs_bounds [OF assms(1,2)])
  show "\<exists>vs. range_values (nat (u + 1 - l)) w r = Some (Inr vs) \<and> sorted_wrt (<) vs \<and> set vs = {x. in_range x r}"
    if "l \<le> u + 1"
    using iter_loop_values [OF assms(2,4,3), of "nat (u + 1 - l)"] that
    by (intro exI [of _ "[l..u]"]) (simp add: s m)
  show "{x. in_range x r} = {}" if "u + 1 < l" using m that by simp
  show "range_values n w r = None" if "u + 1 < l" "in_s w (l + int n)"
    using iter_loop_stuck [OF assms(2,4,3) that] by (simp add: s)
qed

section \<open>Reading text\<close>

definition plain :: "(string \<Rightarrow> string) \<Rightarrow> bool" where
  "plain trim \<longleftrightarrow> (\<forall>s. (\<forall>c \<in> set s. \<not> c_isspace c) \<longrightarrow> trim s = s)"

lemma plain_id: "plain trim \<Longrightarrow> \<forall>c \<in> set s. \<not> c_isspace c \<Longrightarrow> trim s = s"
  unfolding plain_def by blast

lemma range_format_text:
  assumes "\<not> bit f 0"
  shows "range_format f sl su = (if bit f 1 then CHR ''['' else CHR ''('') # sl @ CHR '','' # su @ [if bit f 2 then CHR '']'' else CHR '')'']"
  using assms by (simp add: range_format_def and_rf)

lemma range_parse_text:
  assumes "plain trim" "\<forall>c \<in> set sl. \<not> c_isspace c \<and> c \<noteq> CHR '',''" "\<forall>c \<in> set su. \<not> c_isspace c"
    and "x = CHR ''['' \<or> x = CHR ''(''" "y = CHR '']'' \<or> y = CHR '')''"
  shows "\<exists>f. range_parse trim (x # sl @ CHR '','' # su @ [y]) = Inr (f, sl, su @ [y]) \<and> \<not> bit f 0 \<and> \<not> bit f 4"
proof -
  let ?s = "x # sl @ CHR '','' # su @ [y]"
  have sp: "\<not> c_isspace y" using assms(5) by (auto simp: c_isspace_def)
  have tw: "takeWhile (\<lambda>c. c \<noteq> CHR '','') ?s = x # sl"
  proof -
    have "takeWhile (\<lambda>c. c \<noteq> CHR '','') (sl @ CHR '','' # su @ [y]) = sl"
      using assms(2) by (simp add: takeWhile_append2)
    then show ?thesis using assms(4) by auto
  qed
  have t: "trim sl = sl" "trim (su @ [y]) = su @ [y]"
    by (rule plain_id [OF assms(1)]; use assms(2,3) sp in auto)+
  have e: "?s \<noteq> ''empty''" using assms(4) by auto
  have "range_parse trim ?s = Inr (
      (if sl = [] then (\<lambda>f. f OR rf_lb_inf OR rf_contain_empty) else (\<lambda>f. f))
        ((if y = CHR '']'' then (\<lambda>f. f OR rf_ub_inc) else (\<lambda>f. f)) (if x = CHR ''['' then rf_none OR rf_lb_inc else rf_none)),
      sl, su @ [y])"
    using assms(4,5) e t plain_id [OF assms(1), of "[]"] unfolding range_parse_def tw Let_def
    by (elim disjE; cases "sl = []") (simp_all add: or.assoc)
  then show ?thesis by (auto simp: bit_or_iff)
qed

text \<open>
  A range that is read from the text it was written as loses its flags, which keep the value
  they had before; a range of integers gets its lower bound as its upper bound too, and a range
  of another type gets the closing bracket into the text of its upper bound. Only the text
  \<open>empty\<close> is read as it was written.
\<close>

theorem range_text:
  assumes "plain trim" "\<not> is_empty r" "has_lbound r" "has_ubound r"
    and "\<forall>c \<in> set (show (r_lb r)). \<not> c_isspace c \<and> c \<noteq> CHR '',''" "\<forall>c \<in> set (show (r_ub r)). \<not> c_isspace c"
    and "show (r_lb r) \<noteq> []"
  shows "int_range_of_string trim conv junk (range_to_string show r) =
      Inr (junk \<lparr> r_lb := conv (show (r_lb r)), r_ub := conv (show (r_lb r)) \<rparr>) \<and>
    num_range_of_string trim conv' junk' (range_to_string show r) =
      Inr (junk' \<lparr> r_lb := conv' (show (r_lb r)),
        r_ub := conv' (show (r_ub r) @ (if ubound_inclusion r = Inclusive then '']'' else '')'')) \<rparr>) \<and>
    int_range_of_string trim conv junk ''empty'' = Inr (junk \<lparr> r_flags := rf_empty \<rparr>)"
proof -
  define x y where xy: "x = (if bit (r_flags r) 1 then CHR ''['' else CHR ''('')" "y = (if bit (r_flags r) 2 then CHR '']'' else CHR '')'')"
  have s: "range_to_string show r = x # show (r_lb r) @ CHR '','' # show (r_ub r) @ [y]"
    using assms(2-4) by (simp add: range_to_string_def range_format_text xy is_empty_def and_rf)
  obtain f where f: "range_parse trim (range_to_string show r) = Inr (f, show (r_lb r), show (r_ub r) @ [y])" "\<not> bit f 0"
    using range_parse_text [OF assms(1,5,6), of x y] xy unfolding s by metis
  have "trim (range_to_string show r) = range_to_string show r"
    by (rule plain_id [OF assms(1)]) (use assms(5,6) in \<open>auto simp: s xy c_isspace_def\<close>)
  moreover have "trim ''empty'' = ''empty''" by (rule plain_id [OF assms(1)]) (simp add: c_isspace_def)
  moreover have "[y] = (if ubound_inclusion r = Inclusive then '']'' else '')'')"
    by (simp add: xy ubound_inclusion_def and_rf)
  ultimately show ?thesis
    using f assms(7) by (simp add: int_range_of_string_def num_range_of_string_def and_rf range_parse_def)
qed

section \<open>Witnesses\<close>

definition three_to_six :: "int range" where "three_to_six = range_of 3 6"
definition from_three :: "int range" where "from_three = clear_ubound three_to_six"

theorem range_flags_kept_witness:
  "range_wf (set_lbound_inclusion Exclusive three_to_six) \<and> \<not> range_wf (set_ubound_inclusion Inclusive from_three) \<and>
   is_empty (clear_lbound from_three)"
proof -
  have wf: "range_wf three_to_six" "range_wf from_three"
    by (simp_all add: from_three_def three_to_six_def clear_ubound_def range_of_def has_lbound_def has_ubound_def range_wf_def rf_defs Let_def)
  have b: "has_lbound from_three" "\<not> has_ubound from_three" "r_flags from_three AND rf_ub_inf \<noteq> 0"
    by (simp_all add: from_three_def three_to_six_def clear_ubound_def range_of_def has_lbound_def has_ubound_def rf_defs Let_def)
  show ?thesis
    using range_flags_kept [OF wf(1), where v = 0 and li = Exclusive and ui = Exclusive and x = "0::int" and y = 0]
      range_flags_kept [OF wf(2), where v = 0 and li = Exclusive and ui = Inclusive and x = "0::int" and y = 0] b
    by simp
qed

theorem range_bounds_witness:
  "is_empty (clear_lbound from_three) \<and> lbound (set_lbound 9 Exclusive from_three) = Inr 9 \<and>
   lbound_inclusion (set_lbound 9 Exclusive from_three) = Inclusive"
proof -
  have b: "has_lbound from_three" "\<not> has_ubound from_three" "lbound_inclusion from_three = Inclusive"
    by (simp_all add: from_three_def three_to_six_def clear_ubound_def range_of_def has_lbound_def has_ubound_def
        lbound_inclusion_def rf_defs Let_def)
  then show ?thesis using range_bounds [of 9 Exclusive from_three] by simp
qed

theorem range_iteration_witness:
  "\<exists>vs. range_values 3 32 three_to_six = Some (Inr vs) \<and> set vs = {x. in_range x three_to_six}"
proof -
  have b: "lbound_abs 32 three_to_six = Inr 3" "ubound_abs 32 three_to_six = Inr 5"
    by (simp_all add: three_to_six_def range_of_def lbound_abs_def ubound_abs_def has_lbound_def has_ubound_def
        lbound_inclusion_def ubound_inclusion_def rf_defs checked_def in_s_def)
  then show ?thesis using range_iteration [OF b, of 0] by (auto simp: in_s_def)
qed

text \<open>Numbers of one digit, with a trimming that removes white space.\<close>

definition show_digit :: "int \<Rightarrow> string" where "show_digit v = [digit_char v]"
definition read_digit :: "string \<Rightarrow> int" where "read_digit s = to_digit (hd s)"
definition trim_text :: "string \<Rightarrow> string" where
  "trim_text s = rev (dropWhile c_isspace (rev (dropWhile c_isspace s)))"

lemma trim_text_plain: "plain trim_text"
proof -
  have d: "dropWhile c_isspace s = s" if "\<forall>c \<in> set s. \<not> c_isspace c" for s using that by (cases s) simp_all
  show ?thesis by (simp add: plain_def trim_text_def d)
qed

theorem range_text_witness:
  "int_range_of_string trim_text read_digit \<lparr> r_flags = 85, r_lb = 0, r_ub = 0 \<rparr> ''[3,6)'' =
   Inr \<lparr> r_flags = 85, r_lb = 3, r_ub = 3 \<rparr>"
proof -
  have d: "show_digit 3 = ''3''" "show_digit 6 = ''6''" by (simp_all add: show_digit_def digit_char_def char_of_def)
  have r: "\<not> is_empty three_to_six" "has_lbound three_to_six" "has_ubound three_to_six"
      "r_lb three_to_six = 3" "r_ub three_to_six = 6" "range_to_string show_digit three_to_six = ''[3,6)''"
    by (simp_all add: three_to_six_def range_of_def has_lbound_def has_ubound_def is_empty_def rf_defs range_to_string_def
        range_format_def d)
  have c: "\<forall>c \<in> set (show_digit (r_lb three_to_six)). \<not> c_isspace c \<and> c \<noteq> CHR '',''"
      "\<forall>c \<in> set (show_digit (r_ub three_to_six)). \<not> c_isspace c" "show_digit (r_lb three_to_six) \<noteq> []"
    by (simp_all add: r d c_isspace_def)
  show ?thesis
    using range_text [OF trim_text_plain r(1-3) c, of read_digit "\<lparr> r_flags = 85, r_lb = 0, r_ub = 0 \<rparr>" read_digit
        "\<lparr> r_flags = 85, r_lb = 0, r_ub = 0 \<rparr>"]
    by (simp add: r d read_digit_def to_digit_def)
qed

end
