(* ===== verification/Times.thy ===== *)
theory Times
  imports Wire
begin

text \<open>
  Dates, times, timestamps and intervals: the classes of \<open>pg_type_date_def.h\<close> and
  \<open>pg_type_date_def.cpp\<close>, and their binary form in \<open>data_parameters.cpp\<close>.

  The date library the classes are built on is outside the repository. Its calendar and its
  time zones are arguments: \<open>ymd_of\<close> is the calendar date of a day that is counted from 1970,
  \<open>days_of\<close> the day of a date; what they are relied on to do is the locale \<open>calendar\<close>, which is
  interpreted on the Gregorian calendar below. Times are counted in microseconds.
\<close>

type_synonym ymd = "int \<times> int \<times> int"

record cal_lib =
  ymd_of :: "int \<Rightarrow> ymd"
  days_of :: "ymd \<Rightarrow> int"

definition DAY :: int where "DAY = 86400000000"
definition POSTGRES_EPOCH_JDATE :: int where "POSTGRES_EPOCH_JDATE = 10957"
definition POSTGRES_EPOCH_USEC :: int where "POSTGRES_EPOCH_USEC = 946684800000000"

definition add_years :: "int \<Rightarrow> ymd \<Rightarrow> ymd" where
  "add_years n = (\<lambda>(y, m, d). (y + n, m, d))"

definition year_zero :: pq_error where
  "year_zero = PqException ''Postgresql doesn't support year zero!''"

section \<open>Dates\<close>

record date =
  dt_d :: ymd
  dt_null :: bool

text \<open>The default constructors take the current time.\<close>

definition date_now :: "cal_lib \<Rightarrow> int \<Rightarrow> date" where
  "date_now cal now_us = \<lparr> dt_d = ymd_of cal (now_us div DAY), dt_null = False \<rparr>"

definition date_null :: "cal_lib \<Rightarrow> int \<Rightarrow> date" where
  "date_null cal now_us = (date_now cal now_us) \<lparr> dt_null := True \<rparr>"

text \<open>The server has no year zero: the year before 1 is written as \<open>-1\<close> in the class.\<close>

definition date_of :: "cal_lib \<Rightarrow> int \<Rightarrow> date" where
  "date_of cal val =
    (let d = ymd_of cal val in
     \<lparr> dt_d = (if fst d < 1 then add_years (- 1) d else d), dt_null = False \<rparr>)"

definition date_pgticks :: "cal_lib \<Rightarrow> date \<Rightarrow> int result" where
  "date_pgticks cal d =
    (if fst (dt_d d) = 0 then Inl year_zero
     else if fst (dt_d d) > 0 then Inr (days_of cal (dt_d d))
     else Inr (days_of cal (add_years 1 (dt_d d))))"

definition date_parse :: "cal_lib \<Rightarrow> int \<Rightarrow> string \<Rightarrow> date" where
  "date_parse cal now_us s = (if s = ''NULL'' then date_null cal now_us else date_now cal now_us)"

section \<open>Timestamps\<close>

record timestamp =
  tms_us :: int
  tms_null :: bool

definition timestamp_now :: "int \<Rightarrow> timestamp" where
  "timestamp_now now_us = \<lparr> tms_us = now_us, tms_null = False \<rparr>"

definition timestamp_null :: "int \<Rightarrow> timestamp" where
  "timestamp_null now_us = (timestamp_now now_us) \<lparr> tms_null := True \<rparr>"

text \<open>The alignment of years, shared by the timestamps with and without zone.\<close>

definition align_from_pg :: "cal_lib \<Rightarrow> int \<Rightarrow> int" where
  "align_from_pg cal us =
    (let day = us div DAY; ymd = ymd_of cal day in
     if fst ymd < 1 then days_of cal (add_years (- 1) ymd) * DAY + (us - day * DAY) else us)"

definition align_to_pg :: "cal_lib \<Rightarrow> int \<Rightarrow> int result" where
  "align_to_pg cal us =
    (let day = us div DAY; ymd = ymd_of cal day in
     if fst ymd = 0 then Inl year_zero
     else if fst ymd > 0 then Inr us
     else Inr (days_of cal (add_years 1 ymd) * DAY + (us - day * DAY)))"

definition timestamp_of :: "cal_lib \<Rightarrow> int \<Rightarrow> timestamp" where
  "timestamp_of cal pgticks = \<lparr> tms_us = align_from_pg cal pgticks, tms_null = False \<rparr>"

definition timestamp_pgticks :: "cal_lib \<Rightarrow> timestamp \<Rightarrow> int result" where
  "timestamp_pgticks cal ts = align_to_pg cal (tms_us ts)"

text \<open>
  A zoned time is its instant and its zone; \<open>local_to_sys\<close> of the library takes a local time of
  a zone to the instant.
\<close>

record timestamp_tz =
  tmz_us :: int
  tmz_zone :: string
  tmz_null :: bool

definition timestamp_tz_now :: "string \<Rightarrow> int \<Rightarrow> timestamp_tz" where
  "timestamp_tz_now current_zone now_us = \<lparr> tmz_us = now_us, tmz_zone = current_zone, tmz_null = False \<rparr>"

definition timestamp_tz_null :: "string \<Rightarrow> int \<Rightarrow> timestamp_tz" where
  "timestamp_tz_null current_zone now_us = (timestamp_tz_now current_zone now_us) \<lparr> tmz_null := True \<rparr>"

definition timestamp_tz_of :: "cal_lib \<Rightarrow> int \<Rightarrow> timestamp_tz" where
  "timestamp_tz_of cal pgticks = \<lparr> tmz_us = align_from_pg cal pgticks, tmz_zone = ''UTC'', tmz_null = False \<rparr>"

definition timestamp_tz_pgticks :: "cal_lib \<Rightarrow> timestamp_tz \<Rightarrow> int result" where
  "timestamp_tz_pgticks cal ts = align_to_pg cal (tmz_us ts)"

definition timestamp_from_tz :: "timestamp_tz \<Rightarrow> timestamp" where
  "timestamp_from_tz z = \<lparr> tms_us = tmz_us z, tms_null = tmz_null z \<rparr>"

text \<open>The assignment of an instant to a zoned time uses the zone UTC.\<close>

definition timestamp_tz_from :: "timestamp \<Rightarrow> timestamp_tz" where
  "timestamp_tz_from ts = \<lparr> tmz_us = tms_us ts, tmz_zone = ''UTC'', tmz_null = tms_null ts \<rparr>"

definition timestamp_as_zone ::
  "(string \<Rightarrow> int \<Rightarrow> int) \<Rightarrow> string \<Rightarrow> int \<Rightarrow> string \<Rightarrow> timestamp \<Rightarrow> timestamp_tz" where
  "timestamp_as_zone local_to_sys current_zone now_us zone ts =
    (if tms_null ts then timestamp_tz_null current_zone now_us
     else \<lparr> tmz_us = local_to_sys zone (tms_us ts), tmz_zone = zone, tmz_null = False \<rparr>)"

definition timestamp_make_zoned :: "string \<Rightarrow> int \<Rightarrow> string \<Rightarrow> timestamp \<Rightarrow> timestamp_tz" where
  "timestamp_make_zoned current_zone now_us zone ts =
    (if tms_null ts then timestamp_tz_null current_zone now_us
     else \<lparr> tmz_us = tms_us ts, tmz_zone = zone, tmz_null = False \<rparr>)"

definition timestamp_tz_as_zone ::
  "(string \<Rightarrow> int \<Rightarrow> int) \<Rightarrow> string \<Rightarrow> int \<Rightarrow> string \<Rightarrow> timestamp_tz \<Rightarrow> timestamp_tz" where
  "timestamp_tz_as_zone local_to_sys current_zone now_us zone z =
    (if tmz_null z then timestamp_tz_null current_zone now_us
     else \<lparr> tmz_us = local_to_sys zone (tmz_us z), tmz_zone = zone, tmz_null = False \<rparr>)"

definition timestamp_tz_make_zoned :: "string \<Rightarrow> int \<Rightarrow> string \<Rightarrow> timestamp_tz \<Rightarrow> timestamp_tz" where
  "timestamp_tz_make_zoned current_zone now_us zone z =
    (if tmz_null z then timestamp_tz_null current_zone now_us
     else \<lparr> tmz_us = tmz_us z, tmz_zone = zone, tmz_null = False \<rparr>)"

section \<open>Times of day\<close>

record time =
  tod_us :: int
  tod_null :: bool

definition time_now :: "int \<Rightarrow> time" where
  "time_now now_us = \<lparr> tod_us = now_us - now_us div DAY * DAY, tod_null = False \<rparr>"

definition time_null :: "int \<Rightarrow> time" where
  "time_null now_us = (time_now now_us) \<lparr> tod_null := True \<rparr>"

definition time_of :: "int \<Rightarrow> time" where
  "time_of pgticks = \<lparr> tod_us = pgticks - pgticks div DAY * DAY, tod_null = False \<rparr>"

definition time_pgticks :: "time \<Rightarrow> int" where
  "time_pgticks t = tod_us t"

record time_tz =
  todz_us :: int
  todz_zone :: string
  todz_null :: bool

definition time_tz_now :: "int \<Rightarrow> time_tz" where
  "time_tz_now now_us = \<lparr> todz_us = now_us, todz_zone = ''UTC'', todz_null = False \<rparr>"

definition time_tz_null :: "int \<Rightarrow> time_tz" where
  "time_tz_null now_us = (time_tz_now now_us) \<lparr> todz_null := True \<rparr>"

definition time_from_tz :: "time_tz \<Rightarrow> time" where
  "time_from_tz z = \<lparr> tod_us = todz_us z, tod_null = todz_null z \<rparr>"

definition time_tz_from :: "time \<Rightarrow> time_tz" where
  "time_tz_from t = \<lparr> todz_us = tod_us t, todz_zone = ''UTC'', todz_null = tod_null t \<rparr>"

definition time_as_zone :: "(string \<Rightarrow> int \<Rightarrow> int) \<Rightarrow> int \<Rightarrow> string \<Rightarrow> time \<Rightarrow> time_tz" where
  "time_as_zone local_to_sys now_us zone t =
    (if tod_null t then time_tz_null now_us
     else \<lparr> todz_us = local_to_sys zone (tod_us t), todz_zone = zone, todz_null = False \<rparr>)"

definition time_make_zoned :: "int \<Rightarrow> string \<Rightarrow> time \<Rightarrow> time_tz" where
  "time_make_zoned now_us zone t =
    (if tod_null t then time_tz_null now_us
     else \<lparr> todz_us = tod_us t, todz_zone = zone, todz_null = False \<rparr>)"

definition time_tz_as_zone :: "(string \<Rightarrow> int \<Rightarrow> int) \<Rightarrow> int \<Rightarrow> string \<Rightarrow> time_tz \<Rightarrow> time_tz" where
  "time_tz_as_zone local_to_sys now_us zone z =
    (if todz_null z then time_tz_null now_us
     else \<lparr> todz_us = local_to_sys zone (todz_us z), todz_zone = zone, todz_null = False \<rparr>)"

definition time_tz_make_zoned :: "int \<Rightarrow> string \<Rightarrow> time_tz \<Rightarrow> time_tz" where
  "time_tz_make_zoned now_us zone z =
    (if todz_null z then time_tz_null now_us
     else \<lparr> todz_us = todz_us z, todz_zone = zone, todz_null = False \<rparr>)"

section \<open>Text\<close>

text \<open>
  \<open>hhdate::format\<close> and \<open>hhdate::parse\<close> of the library are arguments: a format and a value give a
  text, a format and a text give a value, or nothing where the stream fails. A failed
  parse leaves the value that was there.
\<close>

definition date_iso_string :: "(string \<Rightarrow> ymd \<Rightarrow> string) \<Rightarrow> date \<Rightarrow> string" where
  "date_iso_string fmt d = (if dt_null d then ''NULL'' else fmt ''%F'' (dt_d d))"

definition timestamp_iso_string :: "(string \<Rightarrow> int \<Rightarrow> string) \<Rightarrow> timestamp \<Rightarrow> string" where
  "timestamp_iso_string fmt ts = (if tms_null ts then ''NULL'' else fmt ''%FT%T'' (tms_us ts))"

definition timestamp_parse :: "(string \<Rightarrow> string \<Rightarrow> int option) \<Rightarrow> int \<Rightarrow> string \<Rightarrow> timestamp" where
  "timestamp_parse prs now_us s =
    (if s = ''NULL'' then timestamp_null now_us
     else
       (case prs ''%FT%T'' s of
          Some t \<Rightarrow> (timestamp_now now_us) \<lparr> tms_us := t \<rparr>
        | None \<Rightarrow> (case prs ''%F %T'' s of
            Some t \<Rightarrow> (timestamp_now now_us) \<lparr> tms_us := t \<rparr>
          | None \<Rightarrow> timestamp_now now_us)))"

definition timestamp_tz_iso_string :: "(string \<Rightarrow> string \<Rightarrow> int \<Rightarrow> string) \<Rightarrow> timestamp_tz \<Rightarrow> string" where
  "timestamp_tz_iso_string fmt z = (if tmz_null z then ''NULL'' else fmt ''%FT%T%z'' (tmz_zone z) (tmz_us z))"

definition timestamp_tz_parse ::
  "(string \<Rightarrow> string \<Rightarrow> int option) \<Rightarrow> string \<Rightarrow> int \<Rightarrow> string \<Rightarrow> timestamp_tz result" where
  "timestamp_tz_parse prs current_zone now_us s =
    (if s = ''NULL'' then Inr (timestamp_tz_null current_zone now_us)
     else
       (case prs ''%FT%T%z'' s of
          Some t \<Rightarrow> Inr ((timestamp_tz_now current_zone now_us) \<lparr> tmz_us := t, tmz_zone := ''UTC'' \<rparr>)
        | None \<Rightarrow> (case prs ''%F %T %Z'' s of
            Some t \<Rightarrow> Inr ((timestamp_tz_now current_zone now_us) \<lparr> tmz_us := t, tmz_zone := ''UTC'' \<rparr>)
          | None \<Rightarrow> Inl (PqException (''Failed to parse zoned time: '' @ s)))))"

definition time_iso_string :: "(string \<Rightarrow> int \<Rightarrow> string) \<Rightarrow> time \<Rightarrow> string" where
  "time_iso_string fmt t = (if tod_null t then ''NULL'' else fmt ''%T'' (tod_us t))"

definition time_parse :: "(string \<Rightarrow> string \<Rightarrow> int option) \<Rightarrow> int \<Rightarrow> string \<Rightarrow> time" where
  "time_parse prs now_us s =
    (if s = ''NULL'' then time_null now_us
     else
       (case prs ''%T'' s of
          Some t \<Rightarrow> (time_now now_us) \<lparr> tod_us := t \<rparr>
        | None \<Rightarrow> time_now now_us))"

text \<open>A failed parse leaves the instant zero in the local variable of the code.\<close>

definition time_tz_iso_string :: "(string \<Rightarrow> string \<Rightarrow> int \<Rightarrow> string) \<Rightarrow> time_tz \<Rightarrow> string" where
  "time_tz_iso_string fmt z = (if todz_null z then ''NULL'' else fmt ''%T%z'' (todz_zone z) (todz_us z))"

definition time_tz_parse :: "(string \<Rightarrow> string \<Rightarrow> int option) \<Rightarrow> int \<Rightarrow> string \<Rightarrow> time_tz" where
  "time_tz_parse prs now_us s =
    (if s = ''NULL'' then time_tz_null now_us
     else (time_tz_now now_us) \<lparr> todz_us := (case prs ''%T%z'' s of Some t \<Rightarrow> t | None \<Rightarrow> 0), todz_zone := ''UTC'' \<rparr>)"

section \<open>Intervals\<close>

text \<open>
  The time of an interval is kept by the library as hours, minutes, seconds and microseconds:
  the argument \<open>hms\<close>. The method \<open>to_duration\<close> of the library gives the time back.
\<close>

record interval =
  iv_t :: int
  iv_d :: int
  iv_m :: int
  iv_null :: bool

definition interval_init :: interval where
  "interval_init = \<lparr> iv_t = 0, iv_d = 0, iv_m = 0, iv_null = False \<rparr>"

definition interval_of :: "int \<Rightarrow> int \<Rightarrow> int \<Rightarrow> interval" where
  "interval_of t d m = \<lparr> iv_t = t, iv_d = d, iv_m = m, iv_null = False \<rparr>"

definition interval_null :: interval where
  "interval_null = interval_init \<lparr> iv_null := True \<rparr>"

definition interval_pgticks :: "interval \<Rightarrow> int" where
  "interval_pgticks v = iv_t v"

definition interval_parse :: "string \<Rightarrow> interval" where
  "interval_parse s = (if s = ''NULL'' then interval_null else interval_init)"

text \<open>The output of an \<open>int\<close> to a stream; division and remainder truncate.\<close>

definition dec_text :: "int \<Rightarrow> string" where
  "dec_text n = (if n < 0 then ''-'' @ fmt_u (- n) else fmt_u n)"

definition interval_iso_string :: "(int \<Rightarrow> int \<times> int \<times> int \<times> int) \<Rightarrow> interval \<Rightarrow> string" where
  "interval_iso_string hms v =
    (if iv_null v then ''NULL''
     else
       let Y = iv_m v sdiv 12; M = iv_m v smod 12; D = iv_d v; (h, m, s, u) = hms (iv_t v);
           head = ''P'' @ dec_text Y @ ''Y'' @ dec_text M @ ''M'' @ dec_text D @ ''DT'' @ dec_text h @ ''H'' @ dec_text m @ ''M'' in
       if u = 0 then head @ dec_text s @ ''S'' else head @ dec_text s @ ''.'' @ dec_text u @ ''S'')"

section \<open>Binary form\<close>

text \<open>
  A null pointer is None. \<open>new_null_parameter\<close> has no value, its length is zero.
\<close>

definition new_null_parameter :: "int \<Rightarrow> param" where
  "new_null_parameter oid = mk_param oid [] 1"

text \<open>Sums and differences of 64 and 32 bits; an overflow is undefined behaviour.\<close>

definition add_s :: "nat \<Rightarrow> int \<Rightarrow> int \<Rightarrow> int result" where
  "add_s w a b = (if in_s w (a + b) then Inr (a + b) else Inl (UndefinedBehaviour ''signed overflow''))"

definition no_text :: "string \<Rightarrow> pq_error" where
  "no_text ty = PqException (''text result format not supported for '' @ ty @ ''!'')"

definition new_time :: "bool \<Rightarrow> time \<Rightarrow> param" where
  "new_time le v = (if tod_null v then new_null_parameter 1083 else mk_param 1083 (put8 le (time_pgticks v)) 1)"

definition new_time_tz :: "bool \<Rightarrow> time_tz \<Rightarrow> param" where
  "new_time_tz le v =
    (if todz_null v then new_null_parameter 1266
     else mk_param 1266 (put8 le (todz_us v - todz_us v div DAY * DAY) @ [0, 0, 0, 0]) 1)"

definition new_timestamp :: "cal_lib \<Rightarrow> bool \<Rightarrow> timestamp \<Rightarrow> param result" where
  "new_timestamp cal le v =
    (if tms_null v then Inr (new_null_parameter 1114)
     else bind_result (timestamp_pgticks cal v) (\<lambda>t.
       bind_result (add_s 64 t (- POSTGRES_EPOCH_USEC)) (\<lambda>x. Inr (mk_param 1114 (put8 le x) 1))))"

definition new_timestamp_tz :: "cal_lib \<Rightarrow> bool \<Rightarrow> timestamp_tz \<Rightarrow> param result" where
  "new_timestamp_tz cal le v =
    (if tmz_null v then Inr (new_null_parameter 1184)
     else bind_result (timestamp_tz_pgticks cal v) (\<lambda>t.
       bind_result (add_s 64 t (- POSTGRES_EPOCH_USEC)) (\<lambda>x. Inr (mk_param 1184 (put8 le x) 1))))"

definition new_date :: "cal_lib \<Rightarrow> bool \<Rightarrow> date \<Rightarrow> param result" where
  "new_date cal le v =
    (if dt_null v then Inr (new_null_parameter 1082)
     else bind_result (date_pgticks cal v) (\<lambda>t.
       bind_result (add_s 32 t (- POSTGRES_EPOCH_JDATE)) (\<lambda>x. Inr (mk_param 1082 (put4 le x) 1))))"

definition new_interval :: "bool \<Rightarrow> interval \<Rightarrow> param" where
  "new_interval le v =
    (if iv_null v then new_null_parameter 1186
     else mk_param 1186 (put8 le (iv_t v) @ put4 le (iv_d v) @ put4 le (iv_m v)) 1)"

definition pgval_to_time :: "bool \<Rightarrow> int \<Rightarrow> int list option \<Rightarrow> int \<Rightarrow> int \<Rightarrow> time result" where
  "pgval_to_time le now_us val len fmt =
    (case val of
       None \<Rightarrow> Inr (time_null now_us)
     | Some bs \<Rightarrow>
         if len = - 1 then Inr (time_of 0)
         else if fmt = 0 then Inl (no_text ''time'')
         else bind_result (get8 le bs) (\<lambda>t.
           bind_result (add_s 64 t POSTGRES_EPOCH_USEC) (\<lambda>x. Inr (time_of x))))"

text \<open>The zone that the server sends behind the time is not read.\<close>

definition pgval_to_time_tz :: "bool \<Rightarrow> int \<Rightarrow> int list option \<Rightarrow> int \<Rightarrow> int \<Rightarrow> time_tz result" where
  "pgval_to_time_tz le now_us val len fmt =
    (case val of
       None \<Rightarrow> Inr (time_tz_null now_us)
     | Some bs \<Rightarrow>
         if len = - 1 then Inr (time_tz_null now_us)
         else if fmt = 0 then Inl (no_text ''time with time zone'')
         else bind_result (get8 le bs) (\<lambda>t.
           bind_result (add_s 64 t (now_us div DAY * DAY)) (\<lambda>x.
             Inr \<lparr> todz_us = x, todz_zone = ''UTC'', todz_null = False \<rparr>)))"

definition pgval_to_timestamp :: "cal_lib \<Rightarrow> bool \<Rightarrow> int \<Rightarrow> int list option \<Rightarrow> int \<Rightarrow> int \<Rightarrow> timestamp result" where
  "pgval_to_timestamp cal le now_us val len fmt =
    (case val of
       None \<Rightarrow> Inr (timestamp_null now_us)
     | Some bs \<Rightarrow>
         if len = - 1 then Inr (timestamp_now now_us)
         else if fmt = 0 then Inl (no_text ''timetamp'')
         else bind_result (get8 le bs) (\<lambda>t.
           bind_result (add_s 64 t POSTGRES_EPOCH_USEC) (\<lambda>x. Inr (timestamp_of cal x))))"

definition pgval_to_timestamp_tz ::
  "cal_lib \<Rightarrow> bool \<Rightarrow> string \<Rightarrow> int \<Rightarrow> int list option \<Rightarrow> int \<Rightarrow> int \<Rightarrow> timestamp_tz result" where
  "pgval_to_timestamp_tz cal le current_zone now_us val len fmt =
    (case val of
       None \<Rightarrow> Inr (timestamp_tz_null current_zone now_us)
     | Some bs \<Rightarrow>
         if len = - 1 then Inr (timestamp_tz_now current_zone now_us)
         else if fmt = 0 then Inl (no_text ''timetamp with time zone'')
         else bind_result (get8 le bs) (\<lambda>t.
           bind_result (add_s 64 t POSTGRES_EPOCH_USEC) (\<lambda>x. Inr (timestamp_tz_of cal x))))"

definition pgval_to_date :: "cal_lib \<Rightarrow> bool \<Rightarrow> int \<Rightarrow> int list option \<Rightarrow> int \<Rightarrow> int \<Rightarrow> date result" where
  "pgval_to_date cal le now_us val len fmt =
    (case val of
       None \<Rightarrow> Inr (date_null cal now_us)
     | Some bs \<Rightarrow>
         if len = - 1 then Inr (date_now cal now_us)
         else if fmt = 0 then Inl (no_text ''date'')
         else bind_result (get4 le bs) (\<lambda>t.
           bind_result (add_s 32 t POSTGRES_EPOCH_JDATE) (\<lambda>x. Inr (date_of cal x))))"

definition pgval_to_interval :: "bool \<Rightarrow> int list option \<Rightarrow> int \<Rightarrow> int \<Rightarrow> interval result" where
  "pgval_to_interval le val len fmt =
    (case val of
       None \<Rightarrow> Inr interval_null
     | Some bs \<Rightarrow>
         if len = - 1 then Inr interval_init
         else if fmt = 0 then Inl (no_text ''interval'')
         else
           bind_result (get8 le bs) (\<lambda>t.
           bind_result (get4 le (drop 8 bs)) (\<lambda>d.
           bind_result (get4 le (drop 12 bs)) (\<lambda>m. Inr (interval_of t d m)))))"

text \<open>Ranges of timestamps and dates: the bounds that are there are sent as ticks.\<close>

definition bound_ticks :: "('a \<Rightarrow> int result) \<Rightarrow> bool \<Rightarrow> 'a \<Rightarrow> int result" where
  "bound_ticks ticks has v = (if has then ticks v else Inr 0)"

definition new_tick_range :: "int \<Rightarrow> (int \<Rightarrow> int list) \<Rightarrow> nat \<Rightarrow> int \<Rightarrow> ('a \<Rightarrow> int result) \<Rightarrow> bool \<Rightarrow> 'a range \<Rightarrow> param result" where
  "new_tick_range oid put w epoch ticks le r =
    bind_result (bound_ticks (\<lambda>v. bind_result (ticks v) (\<lambda>t. add_s w t (- epoch))) (has_lbound r) (r_lb r)) (\<lambda>l.
    bind_result (bound_ticks (\<lambda>v. bind_result (ticks v) (\<lambda>t. add_s w t (- epoch))) (has_ubound r) (r_ub r)) (\<lambda>u.
      Inr (mk_param oid (range_bytes le put \<lparr> r_flags = r_flags r, r_lb = l, r_ub = u \<rparr>) 1)))"

definition new_tsrange :: "cal_lib \<Rightarrow> bool \<Rightarrow> timestamp range \<Rightarrow> param result" where
  "new_tsrange cal le r = new_tick_range 3908 (put8 le) 64 POSTGRES_EPOCH_USEC (timestamp_pgticks cal) le r"

definition new_tstzrange :: "cal_lib \<Rightarrow> bool \<Rightarrow> timestamp_tz range \<Rightarrow> param result" where
  "new_tstzrange cal le r = new_tick_range 3910 (put8 le) 64 POSTGRES_EPOCH_USEC (timestamp_tz_pgticks cal) le r"

definition new_daterange :: "cal_lib \<Rightarrow> bool \<Rightarrow> date range \<Rightarrow> param result" where
  "new_daterange cal le r = new_tick_range 3912 (put4 le) 32 POSTGRES_EPOCH_JDATE (date_pgticks cal) le r"

definition pgval_to_tsrange :: "num_lib \<Rightarrow> cal_lib \<Rightarrow> bool \<Rightarrow> int \<Rightarrow> int list \<Rightarrow> int \<Rightarrow> timestamp range result" where
  "pgval_to_tsrange lib cal le now_us val fmt =
    pgval_to_range lib le (\<lambda>bs len f. pgval_to_timestamp cal le now_us (Some bs) len f) (timestamp_now now_us) val fmt"

definition pgval_to_tstzrange ::
  "num_lib \<Rightarrow> cal_lib \<Rightarrow> bool \<Rightarrow> string \<Rightarrow> int \<Rightarrow> int list \<Rightarrow> int \<Rightarrow> timestamp_tz range result" where
  "pgval_to_tstzrange lib cal le current_zone now_us val fmt =
    pgval_to_range lib le (\<lambda>bs len f. pgval_to_timestamp_tz cal le current_zone now_us (Some bs) len f)
      (timestamp_tz_now current_zone now_us) val fmt"

definition pgval_to_daterange :: "num_lib \<Rightarrow> cal_lib \<Rightarrow> bool \<Rightarrow> int \<Rightarrow> int list \<Rightarrow> int \<Rightarrow> date range result" where
  "pgval_to_daterange lib cal le now_us val fmt =
    pgval_to_range lib le (\<lambda>bs len f. pgval_to_date cal le now_us (Some bs) len f) (date_now cal now_us) val fmt"

section \<open>The calendar\<close>

text \<open>
  The documented behaviour of the calendar, in the years the library covers: dates and days
  correspond to each other, a date of February 29 in a common year is the day after February 28.
\<close>

definition leap :: "int \<Rightarrow> bool" where
  "leap y \<longleftrightarrow> y mod 4 = 0 \<and> (y mod 100 \<noteq> 0 \<or> y mod 400 = 0)"

definition month_days :: "int \<Rightarrow> int \<Rightarrow> int" where
  "month_days y m = (if m = 2 then if leap y then 29 else 28 else if m = 4 \<or> m = 6 \<or> m = 9 \<or> m = 11 then 30 else 31)"

definition valid_ymd :: "ymd \<Rightarrow> bool" where
  "valid_ymd = (\<lambda>(y, m, d). - 32767 \<le> y \<and> y \<le> 32767 \<and> 1 \<le> m \<and> m \<le> 12 \<and> 1 \<le> d \<and> d \<le> month_days y m)"

definition cal_day :: "int \<Rightarrow> bool" where
  "cal_day n \<longleftrightarrow> - 12687428 \<le> n \<and> n \<le> 11248737"

locale calendar =
  fixes cal :: cal_lib
  assumes ymd_valid: "cal_day n \<Longrightarrow> valid_ymd (ymd_of cal n)"
    and days_ymd: "cal_day n \<Longrightarrow> days_of cal (ymd_of cal n) = n"
    and ymd_days: "valid_ymd d \<Longrightarrow> ymd_of cal (days_of cal d) = d"
    and days_range: "valid_ymd d \<Longrightarrow> cal_day (days_of cal d)"
    and feb_29: "- 32767 \<le> y \<Longrightarrow> y \<le> 32767 \<Longrightarrow> days_of cal (y, 2, 29) = days_of cal (y, 2, 28) + 1"
    and march_1: "- 32767 \<le> y \<Longrightarrow> y \<le> 32767 \<Longrightarrow> days_of cal (y, 3, 1) = days_of cal (y, 2, 28) + (if leap y then 2 else 1)"
begin

text \<open>Away from the leap day, a date has a counterpart in the year before and after it.\<close>

lemma shift_valid:
  "valid_ymd (y, m, d) \<Longrightarrow> (m, d) \<noteq> (2, 29) \<Longrightarrow> - 32767 \<le> y + k \<Longrightarrow> y + k \<le> 32767 \<Longrightarrow> valid_ymd (y + k, m, d)"
  by (auto simp: valid_ymd_def month_days_def split: if_splits)

lemma date_ticks:
  assumes "cal_day n" "- 32766 \<le> fst (ymd_of cal n)"
  shows "date_pgticks cal (date_of cal n) = Inr n"
proof -
  obtain y m d where ymd: "ymd_of cal n = (y, m, d)" by (cases "ymd_of cal n") auto
  then show ?thesis
    using days_ymd [OF assms(1)] by (auto simp: date_pgticks_def date_of_def add_years_def Let_def)
qed

lemma day_split: "us = us div DAY * DAY + us mod DAY" "0 \<le> us mod DAY" "us mod DAY < DAY" for us
  by (simp_all add: DAY_def)

lemma day_of_sum: "0 \<le> r \<Longrightarrow> r < DAY \<Longrightarrow> (k * DAY + r) div DAY = k"
  by (simp add: DAY_def)

lemma align_ticks:
  assumes "cal_day (us div DAY)" "ymd_of cal (us div DAY) = (y, m, d)" "- 32766 \<le> y"
  shows "align_to_pg cal (align_from_pg cal us) = Inr (us + (if y < 1 \<and> m = 2 \<and> d = 29 then DAY else 0))"
proof (cases "y < 1")
  case False
  then have "align_from_pg cal us = us" using assms(2) by (simp add: align_from_pg_def)
  then show ?thesis using False assms(2) by (simp add: align_to_pg_def)
next
  case True
  define k r where kr: "k = us div DAY" "r = us - us div DAY * DAY"
  have r: "0 \<le> r" "r < DAY" "us = k * DAY + r" using day_split [of us] by (simp_all add: kr minus_div_mult_eq_mod)
  have v: "valid_ymd (y, m, d)" using ymd_valid [OF assms(1)] assms(2) by simp
  have k: "days_of cal (y, m, d) = k" using days_ymd [OF assms(1)] assms(2) by (simp add: kr)
  have fr: "align_from_pg cal us = days_of cal (y - 1, m, d) * DAY + r"
    using True assms(2) by (simp add: align_from_pg_def add_years_def Let_def kr)
  have fwd: "align_to_pg cal (days_of cal z * DAY + r) = Inr (days_of cal (add_years 1 z) * DAY + r)"
    if "valid_ymd z" "fst z < 0" for z
    using ymd_days [OF that(1)] that(2) day_of_sum [OF r(1,2), of "days_of cal z"]
    by (simp add: align_to_pg_def Let_def)
  show ?thesis
  proof (cases "m = 2 \<and> d = 29")
    case False
    then have "valid_ymd (y - 1, m, d)" using shift_valid [OF v, of "- 1"] True assms(3) by auto
    then show ?thesis unfolding fr using fwd [of "(y - 1, m, d)"] True False r(3) by (auto simp: k add_years_def)
  next
    case leap_day: True
    then have l: "leap y" using v by (auto simp: valid_ymd_def month_days_def split: if_splits)
    have "y mod 4 = 0" using l by (simp add: leap_def)
    then have "(y - 1) mod 4 = 3" by presburger
    then have "\<not> leap (y - 1)" by (simp add: leap_def)
    then have prev: "days_of cal (y - 1, m, d) = days_of cal (y - 1, 3, 1)"
      using feb_29 [of "y - 1"] march_1 [of "y - 1"] leap_day True assms(3) by simp
    have "days_of cal (y, 3, 1) = k + 1"
      using feb_29 [of y] march_1 [of y] l leap_day k True assms(3) by simp
    moreover have "valid_ymd (y - 1, 3, 1)" using True assms(3) by (simp add: valid_ymd_def month_days_def)
    ultimately show ?thesis
      unfolding fr prev using fwd [of "(y - 1, 3, 1)"] True leap_day r(3) by (simp add: add_years_def algebra_simps)
  qed
qed

end

section \<open>The Gregorian calendar\<close>

text \<open>
  Years are taken to begin in March: \<open>march_days y\<close> is the day on which the year that begins in
  March of \<open>y\<close> starts, and the months have a fixed position in it.
\<close>

definition march_days :: "int \<Rightarrow> int" where
  "march_days y = 365 * y + y div 4 - y div 100 + y div 400 - 719468"

definition greg_days :: "ymd \<Rightarrow> int" where
  "greg_days = (\<lambda>(y, m, d). let y' = (if m \<le> 2 then y - 1 else y); mp = (if m \<le> 2 then m + 9 else m - 3) in
     march_days y' + (153 * mp + 2) div 5 + d - 1)"

definition march_year :: "int \<Rightarrow> int" where
  "march_year n = (let e = 400 * (n + 719468) div 146097 in
     if n < march_days e then e - 1 else if march_days (e + 1) \<le> n then e + 1 else e)"

definition greg_ymd :: "int \<Rightarrow> ymd" where
  "greg_ymd n = (let y = march_year n; doy = n - march_days y; mp = (5 * doy + 2) div 153;
       d = doy - (153 * mp + 2) div 5 + 1; m = (if mp < 10 then mp + 3 else mp - 9) in
     (if m \<le> 2 then y + 1 else y, m, d))"

definition gregorian :: cal_lib where
  "gregorian = \<lparr> ymd_of = greg_ymd, days_of = greg_days \<rparr>"

lemma div_succ:
  assumes "0 < (k::int)"
  shows "(y + 1) div k = y div k + (if (y + 1) mod k = 0 then 1 else 0)"
proof (cases "y mod k + 1 = k")
  case True
  then have "y + 1 = k * (y div k) + k" using mult_div_mod_eq [of k y] by linarith
  then have e: "y + 1 = (y div k + 1) * k" by (simp only: distrib_left mult_1_right mult.commute [of _ k])
  show ?thesis unfolding e using assms by simp
next
  case False
  have e: "y + 1 = k * (y div k) + (y mod k + 1)" using mult_div_mod_eq [of k y] by simp
  have r: "0 \<le> y mod k + 1" "y mod k + 1 < k" using assms False pos_mod_bound [of k y] pos_mod_sign [of k y] by linarith+
  have "(y + 1) div k = y div k" "(y + 1) mod k = y mod k + 1"
    using int_div_pos_eq [OF e r] int_mod_pos_eq [OF e r] by auto
  then show ?thesis using pos_mod_sign [OF assms, of y] by simp
qed

lemma march_year_length: "march_days (y + 1) = march_days y + (if leap (y + 1) then 366 else 365)"
proof -
  have m: "4 dvd z" if "100 dvd z" for z :: int using that by (rule dvd_trans [rotated]) simp
  have n: "100 dvd z" if "400 dvd z" for z :: int using that by (rule dvd_trans [rotated]) simp
  have d: "(y + 1) div 4 = y div 4 + (if 4 dvd y + 1 then 1 else 0)" "(y + 1) div 100 = y div 100 + (if 100 dvd y + 1 then 1 else 0)"
    "(y + 1) div 400 = y div 400 + (if 400 dvd y + 1 then 1 else 0)"
    using div_succ [of 4 y] div_succ [of 100 y] div_succ [of 400 y] by (simp_all only: dvd_eq_mod_eq_0)
  show ?thesis
    unfolding march_days_def d leap_def dvd_eq_mod_eq_0 [symmetric]
    using m [of "y + 1"] n [of "y + 1"]
    by (cases "4 dvd y + 1"; cases "100 dvd y + 1"; cases "400 dvd y + 1"; simp only: if_True if_False simp_thms; simp)
qed

lemma march_days_mono: "a \<le> b \<Longrightarrow> march_days a \<le> march_days b"
proof (induction "nat (b - a)" arbitrary: b)
  case (Suc n)
  then have "march_days a \<le> march_days (b - 1)" by (intro Suc.hyps(1)) simp_all
  also have "\<dots> \<le> march_days b" using march_year_length [of "b - 1"] by (simp split: if_splits)
  finally show ?case .
qed simp

lemma march_year_unique:
  assumes "march_days a \<le> n" "n < march_days (a + 1)" "march_days b \<le> n" "n < march_days (b + 1)"
  shows "a = b"
proof (rule ccontr)
  assume "a \<noteq> b"
  then consider "a + 1 \<le> b" | "b + 1 \<le> a" by linarith
  then show False using assms march_days_mono [of "a + 1" b] march_days_mono [of "b + 1" a] by cases auto
qed

lemma march_days_approx:
  "146097 * y - 287787899 \<le> 400 * march_days y" "400 * march_days y \<le> 146097 * y - 287786804"
proof -
  define a b c where abc: "a = y div 4" "b = y div 100" "c = y div 400"
  have m: "0 \<le> y - 4 * a" "y - 4 * a < 4" "0 \<le> y - 100 * b" "y - 100 * b < 100" "0 \<le> y - 400 * c" "y - 400 * c < 400"
    unfolding abc by (simp_all add: minus_mult_div_eq_mod)
  have d: "400 * march_days y = 146000 * y + 400 * a - 400 * b + 400 * c - 287787200"
    by (simp add: march_days_def abc algebra_simps)
  from m show "146097 * y - 287787899 \<le> 400 * march_days y" unfolding d by linarith
  from m show "400 * march_days y \<le> 146097 * y - 287786804" unfolding d by linarith
qed

lemma march_year_ok: "march_days (march_year n) \<le> n" "n < march_days (march_year n + 1)"
proof -
  define e where "e = (400 * n + 287787200) div 146097"
  define r where "r = (400 * n + 287787200) mod 146097"
  have e: "400 * (n + 719468) div 146097 = e" by (simp add: e_def algebra_simps)
  have "146097 * e + r = 400 * n + 287787200" "0 \<le> r" "r < 146097" by (simp_all add: e_def r_def)
  note eqs = this march_days_approx(2) [of "e - 1"] march_days_approx(1) [of "e + 2"]
  from eqs have "400 * march_days (e - 1) \<le> 400 * n" by (simp add: algebra_simps)
  moreover from eqs have "400 * n < 400 * march_days (e + 2)" by (simp add: algebra_simps)
  ultimately show "march_days (march_year n) \<le> n" "n < march_days (march_year n + 1)"
    unfolding march_year_def Let_def e by (simp_all add: not_less not_le add.commute)
qed

text \<open>The days of a year that begins in March, one by one.\<close>

definition march_month :: "int \<Rightarrow> int" where
  "march_month mp = (if mp = 11 then 29 else if mp = 1 \<or> mp = 3 \<or> mp = 6 \<or> mp = 8 then 30 else 31)"

lemma doy_split: "\<forall>doy \<in> set [0..365]. let mp = (5 * doy + 2) div 153; d = doy - (153 * mp + 2) div 5 + 1 in
    0 \<le> mp \<and> mp \<le> 11 \<and> 1 \<le> d \<and> d \<le> march_month mp \<and> (mp = 11 \<and> d = 29 \<longrightarrow> doy = 365)"
  by code_simp

lemma doy_join: "\<forall>mp \<in> set [0..11]. \<forall>d \<in> set [1..march_month mp].
    let doy = (153 * mp + 2) div 5 + d - 1 in 0 \<le> doy \<and> doy \<le> 365 \<and> (5 * doy + 2) div 153 = mp \<and> (doy = 365 \<longrightarrow> mp = 11 \<and> d = 29)"
  by code_simp

lemma march_year_eq: "march_days y \<le> n \<Longrightarrow> n < march_days (y + 1) \<Longrightarrow> march_year n = y"
  using march_year_unique [OF march_year_ok, of y n] by simp

text \<open>A day as a March year, a month counted from March and a day of it, and back.\<close>

lemma greg_split:
  obtains y mp d where "greg_ymd n = (if 9 < mp then y + 1 else y, if mp < 10 then mp + 3 else mp - 9, d)"
    "n = march_days y + (153 * mp + 2) div 5 + d - 1" "0 \<le> mp" "mp \<le> 11" "1 \<le> d" "d \<le> march_month mp"
    "mp = 11 \<Longrightarrow> d = 29 \<Longrightarrow> leap (y + 1)"
proof -
  define y doy where yd: "y = march_year n" "doy = n - march_days y"
  define mp where mp: "mp = (5 * doy + 2) div 153"
  define d where d: "d = doy - (153 * mp + 2) div 5 + 1"
  have "0 \<le> doy" "doy < (if leap (y + 1) then 366 else 365)"
    using march_year_ok [of n] march_year_length [of y] by (simp_all add: yd split: if_splits)
  then have doy: "doy \<in> set [0..365]" "doy = 365 \<Longrightarrow> leap (y + 1)" by (auto split: if_splits)
  have b: "0 \<le> mp" "mp \<le> 11" "1 \<le> d" "d \<le> march_month mp" "mp = 11 \<and> d = 29 \<longrightarrow> doy = 365"
    using bspec [OF doy_split doy(1)] unfolding Let_def mp [symmetric] d [symmetric] by blast+
  have "greg_ymd n = (if 9 < mp then y + 1 else y, if mp < 10 then mp + 3 else mp - 9, d)"
    unfolding greg_ymd_def Let_def yd(1) [symmetric] yd(2) [symmetric] mp [symmetric] d [symmetric] using b(1,2) by auto
  moreover have "n = march_days y + (153 * mp + 2) div 5 + d - 1" by (simp add: d yd)
  ultimately show ?thesis using that b doy(2) by blast
qed

lemma greg_join:
  assumes "0 \<le> mp" "mp \<le> 11" "1 \<le> d" "d \<le> march_month mp" "mp = 11 \<Longrightarrow> d = 29 \<Longrightarrow> leap (y + 1)"
    and "n = march_days y + (153 * mp + 2) div 5 + d - 1"
  shows "greg_ymd n = (if 9 < mp then y + 1 else y, if mp < 10 then mp + 3 else mp - 9, d)"
proof -
  define doy where "doy = (153 * mp + 2) div 5 + d - 1"
  have b: "0 \<le> doy" "doy \<le> 365" "(5 * doy + 2) div 153 = mp" "doy = 365 \<longrightarrow> mp = 11 \<and> d = 29"
    using bspec [OF bspec [OF doy_join, of mp], of d] assms(1-4) unfolding Let_def doy_def [symmetric] by auto
  have n: "n = march_days y + doy" using assms(6) by (simp add: doy_def)
  have "march_year n = y"
  proof (rule march_year_eq)
    show "march_days y \<le> n" using n b(1) by simp
    show "n < march_days (y + 1)" using n b(2,4) assms(5) march_year_length [of y] by (cases "doy = 365") auto
  qed
  then have "n - march_days (march_year n) = doy" using n by simp
  then show ?thesis
    unfolding greg_ymd_def Let_def using \<open>march_year n = y\<close> b(3) assms(1,2) by (auto simp: doy_def)
qed

lemma greg_valid_days:
  "greg_ymd n = (y, m, d) \<Longrightarrow> greg_days (y, m, d) = n \<and> 1 \<le> m \<and> m \<le> 12 \<and> 1 \<le> d \<and> d \<le> month_days y m"
proof -
  assume g: "greg_ymd n = (y, m, d)"
  obtain z mp where s: "greg_ymd n = (if 9 < mp then z + 1 else z, if mp < 10 then mp + 3 else mp - 9, d)"
    "n = march_days z + (153 * mp + 2) div 5 + d - 1" "0 \<le> mp" "mp \<le> 11" "1 \<le> d" "d \<le> march_month mp"
    "mp = 11 \<Longrightarrow> d = 29 \<Longrightarrow> leap (z + 1)"
    using greg_split [of n] g by (metis prod.inject)
  have ym: "y = (if 9 < mp then z + 1 else z)" "m = (if mp < 10 then mp + 3 else mp - 9)" using g s(1) by simp_all
  have "greg_days (y, m, d) = n" using s(2-4) by (auto simp: ym greg_days_def)
  moreover have "d \<le> month_days y m"
    using s(3-7) by (cases "d = 29") (auto simp: ym march_month_def month_days_def split: if_splits)
  ultimately show ?thesis using s(3-5) by (auto simp: ym)
qed

lemma greg_ymd_days:
  assumes "1 \<le> m" "m \<le> 12" "1 \<le> d" "d \<le> month_days y m"
  shows "greg_ymd (greg_days (y, m, d)) = (y, m, d)"
proof -
  define mp z where mz: "mp = (if m \<le> 2 then m + 9 else m - 3)" "z = (if m \<le> 2 then y - 1 else y)"
  have "greg_ymd (greg_days (y, m, d)) = (if 9 < mp then z + 1 else z, if mp < 10 then mp + 3 else mp - 9, d)"
  proof (rule greg_join)
    show "d \<le> march_month mp" "mp = 11 \<Longrightarrow> d = 29 \<Longrightarrow> leap (z + 1)"
      using assms by (auto simp: mz march_month_def month_days_def split: if_splits)
    show "greg_days (y, m, d) = march_days z + (153 * mp + 2) div 5 + d - 1" by (simp add: greg_days_def mz Let_def)
  qed (use assms in \<open>auto simp: mz\<close>)
  then show ?thesis using assms by (auto simp: mz split: if_splits)
qed

lemma greg_days_mono: "valid_ymd (y, m, d) \<Longrightarrow> greg_days (- 32767, 1, 1) \<le> greg_days (y, m, d) \<and> greg_days (y, m, d) \<le> greg_days (32767, 12, 31)"
proof -
  assume v: "valid_ymd (y, m, d)"
  define mp z doy where mz: "mp = (if m \<le> 2 then m + 9 else m - 3)" "z = (if m \<le> 2 then y - 1 else y)"
    "doy = (153 * mp + 2) div 5 + d - 1"
  have b: "0 \<le> mp" "mp \<le> 11" "1 \<le> d" "d \<le> march_month mp" "- 32767 \<le> y" "y \<le> 32767"
    using v by (auto simp: mz valid_ymd_def march_month_def month_days_def split: if_splits)
  have doy: "0 \<le> doy" "doy \<le> 365"
    using bspec [OF bspec [OF doy_join, of mp], of d] b unfolding Let_def mz(3) [symmetric] by auto
  have g: "greg_days (y, m, d) = march_days z + doy" by (simp add: greg_days_def mz Let_def)
  have lo: "greg_days (- 32767, 1, 1) = march_days (- 32768) + 306" by (simp add: greg_days_def)
  have hi: "greg_days (32767, 12, 31) = march_days 32767 + 305" by (simp add: greg_days_def)
  show ?thesis
  proof
    have "306 \<le> doy" if "m \<le> 2" using that v doy b by (auto simp: mz valid_ymd_def)
    then show "greg_days (- 32767, 1, 1) \<le> greg_days (y, m, d)"
      using g lo b doy march_days_mono [of "- 32768" z] march_days_mono [of "- 32767" z] march_year_length [of "- 32768"]
      by (cases "m \<le> 2") (auto simp: mz(2) split: if_splits)
    have "doy \<le> 305" if "2 < m" using that v b by (auto simp: mz valid_ymd_def month_days_def split: if_splits)
    then show "greg_days (y, m, d) \<le> greg_days (32767, 12, 31)"
      using g hi b doy march_days_mono [of z 32767] march_days_mono [of z 32766] march_year_length [of 32766]
      by (cases "m \<le> 2") (auto simp: mz(2) split: if_splits)
  qed
qed

lemma greg_limits: "greg_days (- 32767, 1, 1) = - 12687428" "greg_days (32767, 12, 31) = 11248737"
  by (simp_all add: greg_days_def march_days_def)

lemma greg_year_range:
  assumes "cal_day n" "greg_ymd n = (y, m, d)"
  shows "- 32767 \<le> y \<and> y \<le> 32767"
proof -
  obtain z mp where s: "greg_ymd n = (if 9 < mp then z + 1 else z, if mp < 10 then mp + 3 else mp - 9, d)"
    "n = march_days z + (153 * mp + 2) div 5 + d - 1" "0 \<le> mp" "mp \<le> 11" "1 \<le> d" "d \<le> march_month mp"
    using greg_split [of n] assms(2) by (metis prod.inject)
  define doy where "doy = (153 * mp + 2) div 5 + d - 1"
  have doy: "0 \<le> doy" "doy \<le> 365"
    using bspec [OF bspec [OF doy_join, of mp], of d] s(3-6) unfolding Let_def doy_def [symmetric] by auto
  have early: "doy \<le> 305" if "mp \<le> 9" using that s(3-6) by (auto simp: doy_def march_month_def split: if_splits)
  have late: "306 \<le> doy" if "9 < mp" using that s(3-6) by (auto simp: doy_def)
  have n: "n = march_days z + doy" using s(2) by (simp add: doy_def)
  have y: "y = (if 9 < mp then z + 1 else z)" using s(1) assms(2) by simp
  have lo: "march_days (- 32768) + 306 \<le> n" and hi: "n \<le> march_days 32767 + 305"
    using assms(1) by (simp_all add: cal_day_def march_days_def)
  have "- 32768 \<le> z"
    using lo n doy march_days_mono [of z "- 32769"] march_year_length [of "- 32769"] by (cases "- 32768 \<le> z") (auto split: if_splits)
  moreover have "z \<noteq> - 32768" if "mp \<le> 9" using lo n early [OF that] by auto
  moreover have "z \<le> 32767"
    using hi n doy march_days_mono [of 32768 z] march_year_length [of 32767] by (cases "z \<le> 32767") (auto split: if_splits)
  moreover have "z \<noteq> 32767" if "9 < mp" using hi n late [OF that] by auto
  ultimately show ?thesis using y by (cases "9 < mp") auto
qed

interpretation greg: calendar gregorian
proof
  show "valid_ymd (ymd_of gregorian n)" if "cal_day n" for n
    using greg_valid_days [of n] greg_year_range [OF that] by (cases "greg_ymd n") (auto simp: gregorian_def valid_ymd_def)
  show "days_of gregorian (ymd_of gregorian n) = n" for n
    using greg_valid_days [of n] by (cases "greg_ymd n") (auto simp: gregorian_def)
  show "ymd_of gregorian (days_of gregorian d) = d" if "valid_ymd d" for d
    using that greg_ymd_days by (cases d) (auto simp: gregorian_def valid_ymd_def)
  show "cal_day (days_of gregorian d)" if "valid_ymd d" for d
    using that greg_days_mono greg_limits by (cases d) (auto simp: gregorian_def cal_day_def)
  show "days_of gregorian (y, 2, 29) = days_of gregorian (y, 2, 28) + 1" for y
    by (simp add: gregorian_def greg_days_def)
  show "days_of gregorian (y, 3, 1) = days_of gregorian (y, 2, 28) + (if leap y then 2 else 1)" for y
    using march_year_length [of "y - 1"] by (simp add: gregorian_def greg_days_def)
qed

section \<open>From the server and back\<close>

lemma cal_day_us:
  assumes "cal_day (us div DAY)"
  shows "in_s 64 us" "in_s 64 (us - POSTGRES_EPOCH_USEC)" "in_s 64 (us + DAY - POSTGRES_EPOCH_USEC)" "in_s 64 (us + DAY)"
proof -
  define k r where "k = us div DAY" "r = us mod DAY"
  have "us = k * DAY + r" "0 \<le> r" "r < DAY" "- 12687428 \<le> k" "k \<le> 11248737"
    using greg.day_split [of us] assms by (simp_all add: k_r_def cal_day_def)
  then show "in_s 64 us" "in_s 64 (us - POSTGRES_EPOCH_USEC)" "in_s 64 (us + DAY - POSTGRES_EPOCH_USEC)" "in_s 64 (us + DAY)"
    by (simp_all add: in_s_def DAY_def POSTGRES_EPOCH_USEC_def)
qed

lemma get_be_whole: "in_s 32 v \<Longrightarrow> get4 le (be_bytes 4 v) = Inr v" "in_s 64 v \<Longrightarrow> get8 le (be_bytes 8 v) = Inr v"
  using get_be(2,3) [of le v "[]"] by (simp_all add: wrap_ids)

text \<open>
  C34: A date of the years -32766 to 32767 (negative as the calendar library counts them) that the
  server sends is sent back as the same four bytes, although years before 1 are renumbered on the
  way. Those are the years of the calendar library; the dates of the server that lie outside of
  them, which go on to the year 5874897, are not covered. The date of the server at positive
  infinity is not read: the addition that moves it to the other epoch overflows, which is undefined
  behaviour.
\<close>

theorem wire_dates:
  assumes "calendar cal" "in_s 32 v" "cal_day (v + POSTGRES_EPOCH_JDATE)"
    and "- 32766 \<le> fst (ymd_of cal (v + POSTGRES_EPOCH_JDATE))"
  shows "(\<exists>d. pgval_to_date cal le now_us (Some (be_bytes 4 v)) 4 1 = Inr d \<and>
      new_date cal le d = Inr (mk_param 1082 (be_bytes 4 v) 1) \<and> fst (dt_d d) \<noteq> 0) \<and>
    pgval_to_date cal le now_us (Some (be_bytes 4 (2 ^ 31 - 1))) 4 1 = Inl (UndefinedBehaviour ''signed overflow'')"
proof
  let ?n = "v + POSTGRES_EPOCH_JDATE"
  have s: "in_s 32 ?n" using assms(3) by (simp add: cal_day_def in_s_def)
  have t: "date_pgticks cal (date_of cal ?n) = Inr ?n" using calendar.date_ticks [OF assms(1,3,4)] .
  have z: "fst (dt_d (date_of cal ?n)) \<noteq> 0"
    by (auto simp: date_of_def add_years_def Let_def split: prod.split)
  have "pgval_to_date cal le now_us (Some (be_bytes 4 v)) 4 1 = Inr (date_of cal ?n)"
    using s by (simp add: pgval_to_date_def get_be_whole assms(2) add_s_def)
  moreover have "new_date cal le (date_of cal ?n) = Inr (mk_param 1082 (be_bytes 4 v) 1)"
    using t assms(2) by (simp add: new_date_def add_s_def) (simp add: date_of_def Let_def)
  ultimately show "\<exists>d. pgval_to_date cal le now_us (Some (be_bytes 4 v)) 4 1 = Inr d \<and>
      new_date cal le d = Inr (mk_param 1082 (be_bytes 4 v) 1) \<and> fst (dt_d d) \<noteq> 0" using z by blast
  show "pgval_to_date cal le now_us (Some (be_bytes 4 (2 ^ 31 - 1))) 4 1 = Inl (UndefinedBehaviour ''signed overflow'')"
    using get_be_whole(1) [of "2 ^ 31 - 1"] by (simp add: pgval_to_date_def in_s_def add_s_def POSTGRES_EPOCH_JDATE_def)
qed

text \<open>
  A timestamp, with or without zone, that the server sends is sent back as the same instant,
  except on February 29 of a year before 1: the renumbering of the year moves it to March 1, and
  it is sent back a day late. A timestamp at infinity overflows.
\<close>

theorem wire_timestamps:
  assumes "calendar cal" "in_s 64 v" "cal_day ((v + POSTGRES_EPOCH_USEC) div DAY)"
    and "ymd_of cal ((v + POSTGRES_EPOCH_USEC) div DAY) = (y, m, d)" "- 32766 \<le> y"
    and "w = v + (if y < 1 \<and> m = 2 \<and> d = 29 then DAY else 0)"
  shows "(\<exists>ts. pgval_to_timestamp cal le now_us (Some (be_bytes 8 v)) 8 1 = Inr ts \<and>
      new_timestamp cal le ts = Inr (mk_param 1114 (be_bytes 8 w) 1)) \<and>
    (\<exists>ts. pgval_to_timestamp_tz cal le zone now_us (Some (be_bytes 8 v)) 8 1 = Inr ts \<and> tmz_zone ts = ''UTC'' \<and>
      new_timestamp_tz cal le ts = Inr (mk_param 1184 (be_bytes 8 w) 1)) \<and>
    pgval_to_timestamp cal le now_us (Some (be_bytes 8 (2 ^ 63 - 1))) 8 1 = Inl (UndefinedBehaviour ''signed overflow'')"
proof (intro conjI)
  let ?u = "v + POSTGRES_EPOCH_USEC"
  have s: "in_s 64 ?u" "in_s 64 w" using cal_day_us [OF assms(3)] assms(6) by simp_all
  have a: "align_to_pg cal (align_from_pg cal ?u) = Inr (w + POSTGRES_EPOCH_USEC)"
    using calendar.align_ticks [OF assms(1,3,4,5)] assms(6) by simp
  note defs = pgval_to_timestamp_def pgval_to_timestamp_tz_def new_timestamp_def new_timestamp_tz_def timestamp_of_def
    timestamp_tz_of_def timestamp_pgticks_def timestamp_tz_pgticks_def get_be_whole assms(2) add_s_def a s
  show "\<exists>ts. pgval_to_timestamp cal le now_us (Some (be_bytes 8 v)) 8 1 = Inr ts \<and>
      new_timestamp cal le ts = Inr (mk_param 1114 (be_bytes 8 w) 1)"
    by (rule exI [of _ "timestamp_of cal ?u"]) (simp add: defs)
  show "\<exists>ts. pgval_to_timestamp_tz cal le zone now_us (Some (be_bytes 8 v)) 8 1 = Inr ts \<and> tmz_zone ts = ''UTC'' \<and>
      new_timestamp_tz cal le ts = Inr (mk_param 1184 (be_bytes 8 w) 1)"
    by (rule exI [of _ "timestamp_tz_of cal ?u"]) (simp add: defs)
  show "pgval_to_timestamp cal le now_us (Some (be_bytes 8 (2 ^ 63 - 1))) 8 1 = Inl (UndefinedBehaviour ''signed overflow'')"
    using get_be_whole(2) [of "2 ^ 63 - 1"] by (simp add: pgval_to_timestamp_def in_s_def add_s_def POSTGRES_EPOCH_USEC_def)
qed

text \<open>
  A time of day and an interval are sent back as the server sent them. A time with zone is
  sent back without its zone: the four bytes behind the time are not read, and zero is sent.
\<close>

theorem wire_times:
  assumes "0 \<le> t" "t < DAY" "in_s 64 i" "in_s 32 d" "in_s 32 m" "in_s 64 (t + now_us div DAY * DAY)"
  shows "(\<exists>x. pgval_to_time le now_us (Some (be_bytes 8 t)) 8 1 = Inr x \<and> time_pgticks x = t \<and>
      new_time le x = mk_param 1083 (be_bytes 8 t) 1) \<and>
    (\<exists>x. pgval_to_interval le (Some (be_bytes 8 i @ be_bytes 4 d @ be_bytes 4 m)) 16 1 = Inr x \<and>
      new_interval le x = mk_param 1186 (be_bytes 8 i @ be_bytes 4 d @ be_bytes 4 m) 1) \<and>
    (\<exists>x. pgval_to_time_tz le now_us (Some (be_bytes 8 t @ be_bytes 4 zone)) 12 1 = Inr x \<and>
      new_time_tz le x = mk_param 1266 (be_bytes 8 t @ [0, 0, 0, 0]) 1)"
proof (intro conjI)
  have s: "in_s 64 t" "in_s 64 (t + POSTGRES_EPOCH_USEC)"
    using assms(1,2) by (simp_all add: in_s_def DAY_def POSTGRES_EPOCH_USEC_def)
  have e: "POSTGRES_EPOCH_USEC = 10957 * DAY" by (simp add: POSTGRES_EPOCH_USEC_def DAY_def)
  have d: "(t + k * DAY) div DAY = k" for k using greg.day_of_sum [OF assms(1,2), of k] by (simp add: add.commute)
  show "\<exists>x. pgval_to_time le now_us (Some (be_bytes 8 t)) 8 1 = Inr x \<and> time_pgticks x = t \<and>
      new_time le x = mk_param 1083 (be_bytes 8 t) 1"
    using s d [of 10957]
    by (intro exI [of _ "time_of (t + POSTGRES_EPOCH_USEC)"])
      (simp add: pgval_to_time_def get_be_whole add_s_def new_time_def time_of_def time_pgticks_def e)
  show "\<exists>x. pgval_to_interval le (Some (be_bytes 8 i @ be_bytes 4 d @ be_bytes 4 m)) 16 1 = Inr x \<and>
      new_interval le x = mk_param 1186 (be_bytes 8 i @ be_bytes 4 d @ be_bytes 4 m) 1"
    using get_be(2) [of le m "[]"] assms(3-5)
    by (intro exI [of _ "interval_of i d m"])
      (simp add: pgval_to_interval_def new_interval_def interval_of_def be_bytes_props wrap_ids)
  show "\<exists>x. pgval_to_time_tz le now_us (Some (be_bytes 8 t @ be_bytes 4 zone)) 12 1 = Inr x \<and>
      new_time_tz le x = mk_param 1266 (be_bytes 8 t @ [0, 0, 0, 0]) 1"
    using s d [of "now_us div DAY"] assms(6)
    by (intro exI [of _ "\<lparr> todz_us = t + now_us div DAY * DAY, todz_zone = ''UTC'', todz_null = False \<rparr>"])
      (simp add: pgval_to_time_tz_def new_time_tz_def add_s_def wrap_ids)
qed

text \<open>The microseconds of an interval are printed without leading zeros behind the point.\<close>

definition day_parts :: "int \<Rightarrow> int \<times> int \<times> int \<times> int" where
  "day_parts t = (t div 3600000000, t div 60000000 mod 60, t div 1000000 mod 60, t mod 1000000)"

theorem interval_text_padding:
  "interval_iso_string day_parts (interval_of 5000042 0 14) = ''P1Y2M0DT0H0M5.42S''"
  by code_simp

text \<open>Changing the zone of a timestamp keeps its instant; reading it in a zone keeps its local time.\<close>

theorem zones:
  assumes "\<And>z t. sys_to_local z (local_to_sys z t) = t" "\<not> tms_null ts"
  shows "tmz_us (timestamp_make_zoned cz now_us zone ts) = tms_us ts \<and>
    timestamp_from_tz (timestamp_make_zoned cz now_us zone ts) = ts \<and>
    sys_to_local zone (tmz_us (timestamp_as_zone local_to_sys cz now_us zone ts)) = tms_us ts"
  using assms by (simp add: timestamp_make_zoned_def timestamp_from_tz_def timestamp_as_zone_def)

section \<open>Witnesses\<close>

lemma greg_leap_day: "greg_ymd (- 719469) = (0, 2, 29)"
  by code_simp

theorem wire_dates_witness:
  "\<exists>d. pgval_to_date gregorian True 0 (Some (be_bytes 4 (- 730426))) 4 1 = Inr d \<and>
     new_date gregorian True d = Inr (mk_param 1082 (be_bytes 4 (- 730426)) 1)"
proof -
  have n: "- 730426 + POSTGRES_EPOCH_JDATE = - 719469" by (simp add: POSTGRES_EPOCH_JDATE_def)
  have "cal_day (- 719469)" "in_s 32 (- 730426)" "- 32766 \<le> fst (ymd_of gregorian (- 719469))"
    by (simp_all add: cal_day_def in_s_def gregorian_def greg_leap_day)
  then show ?thesis using wire_dates [OF greg.calendar_axioms, of "- 730426" True 0] unfolding n by blast
qed

theorem wire_timestamps_witness:
  "\<exists>ts. pgval_to_timestamp gregorian True 0 (Some (be_bytes 8 (- 730426 * DAY))) 8 1 = Inr ts \<and>
     new_timestamp gregorian True ts = Inr (mk_param 1114 (be_bytes 8 (- 730425 * DAY)) 1)"
proof -
  have n: "(- 730426 * DAY + POSTGRES_EPOCH_USEC) div DAY = - 719469" by (simp add: POSTGRES_EPOCH_USEC_def DAY_def)
  have "cal_day (- 719469)" "in_s 64 (- 730426 * DAY)" "ymd_of gregorian (- 719469) = (0, 2, 29)"
    "- 730425 * DAY = - 730426 * DAY + (if (0::int) < 1 \<and> (2::int) = 2 \<and> (29::int) = 29 then DAY else 0)"
    by (simp_all add: cal_day_def in_s_def gregorian_def greg_leap_day DAY_def)
  from wire_timestamps [OF greg.calendar_axioms this(2), unfolded n, OF this(1,3) _ this(4), of True 0 "''UTC''"]
  show ?thesis by auto
qed

theorem wire_times_witness:
  "\<exists>x. pgval_to_time_tz True 0 (Some (be_bytes 8 36000000000 @ be_bytes 4 (- 7200))) 12 1 = Inr x \<and>
     new_time_tz True x = mk_param 1266 (be_bytes 8 36000000000 @ [0, 0, 0, 0]) 1"
proof -
  have "0 \<le> (36000000000::int)" "36000000000 < DAY" "in_s 64 0" "in_s 32 0" "in_s 64 (36000000000 + 0 div DAY * DAY)"
    by (simp_all add: DAY_def in_s_def)
  from wire_times [OF this(1-4,4,5), of True "- 7200"] show ?thesis by blast
qed

text \<open>
  What the parsers promise of the date library: a text that a format printed is read by the same format.
\<close>

definition reads_back :: "(string \<Rightarrow> int \<Rightarrow> string) \<Rightarrow> (string \<Rightarrow> string \<Rightarrow> int option) \<Rightarrow> bool" where
  "reads_back fmt prs \<longleftrightarrow> (\<forall>f t. prs f (fmt f t) = Some t \<and> fmt f t \<noteq> ''NULL'')"

text \<open>
  The texts of timestamps, zoned timestamps and times are read back as the same instant, null
  included, a zoned timestamp as the same instant in UTC; a text that is not a timestamp gives the
  current time, and dates and intervals are not read at all: any text but NULL gives the
  current day and the empty interval.
\<close>

theorem time_texts:
  assumes "reads_back fmt prs" "reads_back (\<lambda>f. fmtz f (tmz_zone z)) prsz"
  shows "timestamp_parse prs now_us (timestamp_iso_string fmt ts) = (if tms_null ts then timestamp_null now_us else ts)
    \<and> timestamp_tz_parse prsz cz now_us (timestamp_tz_iso_string fmtz z)
      = Inr (if tmz_null z then timestamp_tz_null cz now_us else z \<lparr> tmz_zone := ''UTC'' \<rparr>)
    \<and> time_parse prs now_us (time_iso_string fmt t) = (if tod_null t then time_null now_us else t)
    \<and> (s \<noteq> ''NULL'' \<longrightarrow> date_parse cal now_us s = date_now cal now_us \<and> interval_parse s = interval_init
      \<and> (prs ''%FT%T'' s = None \<and> prs ''%F %T'' s = None \<longrightarrow> timestamp_parse prs now_us s = timestamp_now now_us)
      \<and> (prs ''%FT%T%z'' s = None \<and> prs ''%F %T %Z'' s = None \<longrightarrow> (\<exists>e. timestamp_tz_parse prs cz now_us s = Inl e)))"
  using assms by (auto simp: reads_back_def timestamp_parse_def timestamp_iso_string_def timestamp_tz_parse_def
    timestamp_tz_iso_string_def time_parse_def time_iso_string_def date_parse_def interval_parse_def
    timestamp_now_def timestamp_tz_now_def time_now_def)

text \<open>A format that prints the instant in the unary notation, and its reader.\<close>

definition unary_fmt :: "string \<Rightarrow> int \<Rightarrow> string" where
  "unary_fmt f t = f @ (if t < 0 then ''-'' else ''+'') @ replicate (nat \<bar>t\<bar>) CHR ''1''"

definition unary_prs :: "string \<Rightarrow> string \<Rightarrow> int option" where
  "unary_prs f s =
    (if take (length f) s \<noteq> f then None
     else (let r = drop (length f) s in
       if r = [] then None else if hd r = CHR ''-'' then Some (- int (length r - 1)) else Some (int (length r - 1))))"

lemma unary_reads: "reads_back unary_fmt unary_prs"
proof -
  have "unary_fmt f t \<noteq> ''NULL''" for f t
  proof -
    have "CHR ''-'' \<in> set (unary_fmt f t) \<or> CHR ''+'' \<in> set (unary_fmt f t)" by (simp add: unary_fmt_def)
    then show ?thesis by auto
  qed
  then show ?thesis by (auto simp: reads_back_def unary_fmt_def unary_prs_def)
qed

theorem time_texts_witness:
  "timestamp_parse unary_prs 7 (timestamp_iso_string unary_fmt \<lparr> tms_us = - 3, tms_null = False \<rparr>)
     = \<lparr> tms_us = - 3, tms_null = False \<rparr>
   \<and> date_parse gregorian 7 ''2020-01-01'' = date_now gregorian 7"
  using time_texts [where fmt = unary_fmt and prs = unary_prs and prsz = unary_prs and fmtz = "\<lambda>f z. unary_fmt f" and
    ts = "\<lparr> tms_us = - 3, tms_null = False \<rparr>" and now_us = 7 and s = "''2020-01-01''" and cal = gregorian, OF unary_reads unary_reads]
  by simp

end
