(* ===== verification/Cash.thy ===== *)
theory Cash
  imports Numeric_Ops Numeric_Int Numeric_Text
begin

text \<open>
  Money: class \<open>money\<close> of \<open>pg_type_cash_def.h\<close> and \<open>pg_type_cash_def.cpp\<close>, a 64-bit amount with a
  number of digits behind the point. The number of digits of the default locale is the argument
  \<open>fd\<close>; \<open>md::num_to_str\<close> and \<open>md::str_to_num\<close> are arguments. Integer arithmetic that leaves
  64 bits, and division by zero, are undefined behaviour. The powers of ten that the code takes
  from \<open>std::pow\<close> are exact wherever they fit 64 bits.
\<close>

section \<open>State\<close>

record money =
  m_val :: int
  m_frac :: int

definition s64 :: "int \<Rightarrow> int result" where
  "s64 v = (if in_s 64 v then Inr v else Inl (UndefinedBehaviour ''signed overflow''))"

definition cdiv :: "int \<Rightarrow> int \<Rightarrow> int result" where
  "cdiv a b = (if b = 0 then Inl (UndefinedBehaviour ''division by zero'') else s64 (a sdiv b))"

definition cmod :: "int \<Rightarrow> int \<Rightarrow> int result" where
  "cmod a b = bind_result (cdiv a b) (\<lambda>_. Inr (a smod b))"

definition pow10 :: "int \<Rightarrow> int result" where
  "pow10 n = (if n < 0 then Inr 0 else s64 (10 ^ nat n))"

definition get_pow :: "money \<Rightarrow> int result" where
  "get_pow m = pow10 (m_frac m)"

definition money_init :: "int \<Rightarrow> money" where
  "money_init fd = \<lparr> m_val = 0, m_frac = fd \<rparr>"

definition val_from_num :: "int \<Rightarrow> int \<Rightarrow> int result" where
  "val_from_num fd b = bind_result (pow10 fd) (\<lambda>m. s64 (b * m))"

definition money_of_int :: "int \<Rightarrow> int \<Rightarrow> money result" where
  "money_of_int fd b = bind_result (val_from_num fd b) (\<lambda>v. Inr \<lparr> m_val = v, m_frac = fd \<rparr>)"

section \<open>Operations\<close>

definition to_frac_digits :: "int \<Rightarrow> money \<Rightarrow> money result" where
  "to_frac_digits frac_digits m =
    (if frac_digits = m_frac m then Inr m
     else if frac_digits > m_frac m then
       bind_result (pow10 (frac_digits - m_frac m)) (\<lambda>p.
       bind_result (s64 (m_val m * p)) (\<lambda>v. Inr \<lparr> m_val = v, m_frac = frac_digits \<rparr>))
     else
       bind_result (pow10 (m_frac m - frac_digits)) (\<lambda>p.
       bind_result (cdiv (m_val m) p) (\<lambda>v. Inr \<lparr> m_val = v, m_frac = frac_digits \<rparr>)))"

text \<open>Whole part and digits behind the point.\<close>

definition money_decimal_parts_to :: "money \<Rightarrow> (int \<times> int) result" where
  "money_decimal_parts_to m =
    bind_result (get_pow m) (\<lambda>p.
    bind_result (cdiv (m_val m) p) (\<lambda>a.
    bind_result (s64 \<bar>m_val m\<bar>) (\<lambda>x.
    bind_result (cmod x p) (\<lambda>b. Inr (a, if m_val m < 0 then b * - 1 else b)))))"

definition money_decimal_texts :: "(int \<Rightarrow> string) \<Rightarrow> money \<Rightarrow> (bool \<times> string \<times> string) result" where
  "money_decimal_texts show m =
    bind_result (get_pow m) (\<lambda>p.
    bind_result (s64 \<bar>m_val m\<bar>) (\<lambda>x.
    bind_result (cdiv x p) (\<lambda>a.
    bind_result (cmod x p) (\<lambda>b. Inr (0 \<le> m_val m, show a, show b)))))"

definition money_eq :: "money \<Rightarrow> money \<Rightarrow> bool result" where
  "money_eq a b = bind_result (to_frac_digits (m_frac b) a) (\<lambda>t. Inr (m_val t = m_val b))"

definition money_less :: "money \<Rightarrow> money \<Rightarrow> bool result" where
  "money_less a b =
    (if m_frac a = m_frac b then Inr (m_val a < m_val b)
     else
       bind_result (money_decimal_parts_to a) (\<lambda>(aw, ad).
       bind_result (money_decimal_parts_to b) (\<lambda>(bw, bd). Inr (if aw = bw then ad < bd else aw < bw))))"

definition money_less_eq :: "money \<Rightarrow> money \<Rightarrow> bool result" where
  "money_less_eq a b =
    (if m_frac a = m_frac b then Inr (m_val a \<le> m_val b)
     else
       bind_result (money_decimal_parts_to a) (\<lambda>(aw, ad).
       bind_result (money_decimal_parts_to b) (\<lambda>(bw, bd). Inr (if aw = bw then ad \<le> bd else aw \<le> bw))))"

text \<open>The binary operators bring the left operand to the digits of the right one.\<close>

definition money_op :: "(money \<Rightarrow> money \<Rightarrow> int result) \<Rightarrow> money \<Rightarrow> money \<Rightarrow> money result" where
  "money_op f a b =
    bind_result (to_frac_digits (m_frac b) a) (\<lambda>r. bind_result (f r b) (\<lambda>v. Inr (r \<lparr> m_val := v \<rparr>)))"

definition money_plus :: "money \<Rightarrow> money \<Rightarrow> money result" where
  "money_plus = money_op (\<lambda>r b. s64 (m_val r + m_val b))"

definition money_minus :: "money \<Rightarrow> money \<Rightarrow> money result" where
  "money_minus = money_op (\<lambda>r b. s64 (m_val r - m_val b))"

definition money_times :: "money \<Rightarrow> money \<Rightarrow> money result" where
  "money_times = money_op (\<lambda>r b.
     bind_result (s64 (m_val r * m_val b)) (\<lambda>v. bind_result (get_pow r) (\<lambda>p. cdiv v p)))"

definition money_divide :: "money \<Rightarrow> money \<Rightarrow> money result" where
  "money_divide = money_op (\<lambda>r b.
     bind_result (cdiv (m_val r) (m_val b)) (\<lambda>v. bind_result (get_pow r) (\<lambda>p. s64 (v * p))))"

definition money_mod :: "money \<Rightarrow> money \<Rightarrow> money result" where
  "money_mod = money_op (\<lambda>r b. cmod (m_val r) (m_val b))"

text \<open>The assigning operators return to the digits of the left operand.\<close>

definition money_assign :: "(money \<Rightarrow> money \<Rightarrow> money result) \<Rightarrow> money \<Rightarrow> money \<Rightarrow> money result" where
  "money_assign op a b = bind_result (op a b) (\<lambda>r. to_frac_digits (m_frac a) r)"

text \<open>\<open>++\<close> and \<open>--\<close> add and subtract one unit of the default locale.\<close>

definition money_inc :: "int \<Rightarrow> money \<Rightarrow> money result" where
  "money_inc fd m = bind_result (val_from_num fd 1) (\<lambda>p. bind_result (s64 (m_val m + p)) (\<lambda>v. Inr (m \<lparr> m_val := v \<rparr>)))"

definition money_dec :: "int \<Rightarrow> money \<Rightarrow> money result" where
  "money_dec fd m = bind_result (val_from_num fd 1) (\<lambda>p. bind_result (s64 (m_val m - p)) (\<lambda>v. Inr (m \<lparr> m_val := v \<rparr>)))"

definition money_to_int64 :: "money \<Rightarrow> int result" where
  "money_to_int64 m = bind_result (get_pow m) (\<lambda>p. cdiv (m_val m) p)"

text \<open>The remainder is taken of the amount before the digits are adapted.\<close>

definition money_to_string :: "(int \<Rightarrow> string) \<Rightarrow> int \<Rightarrow> money \<Rightarrow> string result" where
  "money_to_string show frac_digits m =
    bind_result (to_frac_digits frac_digits m) (\<lambda>tm.
    bind_result (pow10 frac_digits) (\<lambda>p.
    bind_result (cdiv (m_val tm) p) (\<lambda>n.
    bind_result (cmod (m_val m) p) (\<lambda>r.
      let ds = show \<bar>r\<bar>;
          ds = (if int (length ds) < frac_digits then replicate (nat frac_digits - length ds) CHR ''0'' @ ds else ds) in
      Inr (show n @ ''.'' @ ds)))))"

definition money_to_numeric :: "(int \<Rightarrow> string) \<Rightarrow> int \<Rightarrow> money \<Rightarrow> numeric result" where
  "money_to_numeric show frac_digits m = bind_result (money_to_string show frac_digits m) (\<lambda>s. Inr (numeric_of_string s))"

definition money_from_numeric :: "(string \<Rightarrow> int) \<Rightarrow> int \<Rightarrow> numeric \<Rightarrow> money result" where
  "money_from_numeric conv frac_digits b =
    bind_result (pow10 frac_digits) (\<lambda>p.
    let bs = get_str_from_var b; dp = length (takeWhile (\<lambda>c. c \<noteq> CHR ''.'') bs) in
    if dp = length bs then
      bind_result (operator_int64 b) (\<lambda>v. bind_result (s64 (v * p)) (\<lambda>v. Inr \<lparr> m_val = v, m_frac = frac_digits \<rparr>))
    else
      let nbs = take dp bs; dbs = drop (dp + 1) bs;
          dbs = (if int (length dbs) > frac_digits then take (nat frac_digits) dbs
                 else dbs @ replicate (nat frac_digits - length dbs) CHR ''0'') in
      bind_result (s64 (conv nbs * p)) (\<lambda>v. bind_result (s64 (v + conv dbs)) (\<lambda>v. Inr \<lparr> m_val = v, m_frac = frac_digits \<rparr>)))"

section \<open>The amount\<close>

text \<open>The amount a value stands for.\<close>

definition cash :: "money \<Rightarrow> rat" where
  "cash m = of_int (m_val m) / 10 ^ nat (m_frac m)"

text \<open>An amount of 64 bits whose power of ten fits 64 bits.\<close>

definition money_ok :: "money \<Rightarrow> bool" where
  "money_ok m \<longleftrightarrow> in_s 64 (m_val m) \<and> 0 \<le> m_frac m \<and> m_frac m \<le> 18"

lemma s64_ok [simp]: "in_s 64 v \<Longrightarrow> s64 v = Inr v"
  by (simp add: s64_def)

lemma pow10_bound:
  assumes "0 \<le> n" "n \<le> 18"
  shows "in_s 64 (10 ^ nat n)" "pow10 n = Inr (10 ^ nat n)"
proof -
  have "(10 :: int) ^ nat n \<le> 10 ^ 18" using assms by (intro power_increasing) simp_all
  moreover have "- 9223372036854775808 \<le> (10 :: int) ^ nat n" by (rule order.trans [of _ 0]) simp_all
  ultimately show "in_s 64 (10 ^ nat n)" by (simp add: in_s_def)
  then show "pow10 n = Inr (10 ^ nat n)" using assms by (simp add: pow10_def)
qed

lemma sdiv_pos: "0 < b \<Longrightarrow> a sdiv b = (if a < 0 then - (- a div b) else a div b)" for a b :: int
  by (simp add: signed_divide_int_def sgn_if)

lemma sdiv_in_s: "0 < b \<Longrightarrow> in_s 64 a \<Longrightarrow> in_s 64 (a sdiv b)" for a b :: int
proof -
  assume b: "0 < b" and a: "in_s 64 a"
  have n: "x div b \<le> x \<and> 0 \<le> x div b" if "0 \<le> x" for x
    using that b zdiv_mono2 [of x 1 b] by (simp add: pos_imp_zdiv_nonneg_iff)
  show ?thesis using n [of a] n [of "- a"] a by (auto simp: sdiv_pos [OF b] in_s_def)
qed

lemma smod_pos: "0 < b \<Longrightarrow> a smod b = (if a < 0 then - (- a mod b) else a mod b)" for a b :: int
  by (simp add: signed_modulo_int_def sgn_if)

lemma cdiv_pos: "0 < b \<Longrightarrow> in_s 64 a \<Longrightarrow> cdiv a b = Inr (a sdiv b)"
  by (simp add: cdiv_def sdiv_in_s)

lemma cmod_pos: "0 < b \<Longrightarrow> in_s 64 a \<Longrightarrow> cmod a b = Inr (a smod b)"
  by (simp add: cmod_def cdiv_pos)

text \<open>Truncation of a quotient towards zero, as an integer.\<close>

definition truncq :: "rat \<Rightarrow> int" where
  "truncq x = (if x < 0 then - \<lfloor>\<bar>x\<bar>\<rfloor> else \<lfloor>\<bar>x\<bar>\<rfloor>)"

lemma truncq_quotient: "b \<noteq> 0 \<Longrightarrow> truncq (of_int a / of_int b) = a sdiv b"
proof -
  assume b: "b \<noteq> 0"
  have "\<bar>of_int a / of_int b :: rat\<bar> = of_int \<bar>a\<bar> / of_int \<bar>b\<bar>" by simp
  then have f: "\<lfloor>\<bar>of_int a / of_int b :: rat\<bar>\<rfloor> = \<bar>a\<bar> div \<bar>b\<bar>" by (simp only: floor_divide_of_int_eq)
  have "(of_int a / of_int b :: rat) < 0 \<longleftrightarrow> a < 0 \<and> 0 < b \<or> 0 < a \<and> b < 0"
    by (auto simp: divide_less_0_iff)
  then show ?thesis using b unfolding truncq_def f by (auto simp: signed_divide_int_def sgn_if)
qed

section \<open>Arithmetic\<close>

lemma money_op_same:
  "m_frac b = m_frac a \<Longrightarrow> money_op f a b = bind_result (f a b) (\<lambda>v. Inr (a \<lparr> m_val := v \<rparr>))"
  by (simp add: money_op_def to_frac_digits_def)

lemma in_s_factor: "in_s 64 (q * p) \<Longrightarrow> 0 < p \<Longrightarrow> in_s 64 q"
proof -
  assume s: "in_s 64 (q * p)" and p: "0 < p"
  have "q \<le> q * p" if "0 \<le> q" using mult_left_mono [of 1 p q] that p by linarith
  moreover have "q * p \<le> q" if "q \<le> 0" using mult_left_mono_neg [of 1 p q] that p by linarith
  ultimately show ?thesis using s unfolding in_s_def by (cases "0 \<le> q") linarith+
qed

lemma money_op_values:
  assumes a: "money_ok a" and f: "m_frac b = m_frac a" and p: "p = 10 ^ nat (m_frac a)"
  shows "in_s 64 (m_val a + m_val b) \<Longrightarrow> money_plus a b = Inr (a \<lparr> m_val := m_val a + m_val b \<rparr>)"
    and "in_s 64 (m_val a - m_val b) \<Longrightarrow> money_minus a b = Inr (a \<lparr> m_val := m_val a - m_val b \<rparr>)"
    and "in_s 64 (m_val a * m_val b) \<Longrightarrow> money_times a b = Inr (a \<lparr> m_val := (m_val a * m_val b) sdiv p \<rparr>)"
    and "m_val b \<noteq> 0 \<Longrightarrow> in_s 64 ((m_val a sdiv m_val b) * p) \<Longrightarrow>
      money_divide a b = Inr (a \<lparr> m_val := (m_val a sdiv m_val b) * p \<rparr>)"
    and "m_val b \<noteq> 0 \<Longrightarrow> in_s 64 (m_val a sdiv m_val b) \<Longrightarrow> money_mod a b = Inr (a \<lparr> m_val := m_val a smod m_val b \<rparr>)"
proof -
  have p0: "0 < p" by (simp add: p)
  have g: "get_pow a = Inr p" using a by (simp add: get_pow_def pow10_bound p money_ok_def)
  note op = money_op_same [OF f]
  show "in_s 64 (m_val a + m_val b) \<Longrightarrow> money_plus a b = Inr (a \<lparr> m_val := m_val a + m_val b \<rparr>)"
    "in_s 64 (m_val a - m_val b) \<Longrightarrow> money_minus a b = Inr (a \<lparr> m_val := m_val a - m_val b \<rparr>)"
    "in_s 64 (m_val a * m_val b) \<Longrightarrow> money_times a b = Inr (a \<lparr> m_val := (m_val a * m_val b) sdiv p \<rparr>)"
    using p0 by (simp_all add: money_plus_def money_minus_def money_times_def op g cdiv_pos)
  show "m_val b \<noteq> 0 \<Longrightarrow> in_s 64 (m_val a sdiv m_val b) \<Longrightarrow> money_mod a b = Inr (a \<lparr> m_val := m_val a smod m_val b \<rparr>)"
    by (simp add: money_mod_def op cmod_def cdiv_def)
  show "money_divide a b = Inr (a \<lparr> m_val := (m_val a sdiv m_val b) * p \<rparr>)"
    if "m_val b \<noteq> 0" and "in_s 64 ((m_val a sdiv m_val b) * p)"
    using that in_s_factor [OF that(2) p0] by (simp add: money_divide_def op cdiv_def g)
qed

text \<open>
  C35: as long as the intermediate results fit 64 bits, between amounts with the same number of digits, sums, differences and remainders are exact
  and a product is the exact product truncated to those digits; a quotient is truncated to
  a whole number, so that 7.50 divided by 2.00 is 3.00.
\<close>

theorem money_arithmetic:
  assumes "money_ok a" "money_ok b" "m_frac b = m_frac a"
  shows "(in_s 64 (m_val a + m_val b) \<longrightarrow> (\<exists>c. money_plus a b = Inr c \<and> m_frac c = m_frac a \<and> cash c = cash a + cash b))
    \<and> (in_s 64 (m_val a - m_val b) \<longrightarrow> (\<exists>c. money_minus a b = Inr c \<and> m_frac c = m_frac a \<and> cash c = cash a - cash b))
    \<and> (in_s 64 (m_val a * m_val b) \<longrightarrow> (\<exists>c. money_times a b = Inr c \<and> m_frac c = m_frac a
         \<and> cash c = of_int (truncq (cash a * cash b * 10 ^ nat (m_frac a))) / 10 ^ nat (m_frac a)))
    \<and> (m_val b \<noteq> 0 \<and> in_s 64 (truncq (cash a / cash b) * 10 ^ nat (m_frac a)) \<longrightarrow>
         (\<exists>c. money_divide a b = Inr c \<and> m_frac c = m_frac a \<and> cash c = of_int (truncq (cash a / cash b))))
    \<and> (m_val b \<noteq> 0 \<and> in_s 64 (truncq (cash a / cash b)) \<longrightarrow>
         (\<exists>c. money_mod a b = Inr c \<and> m_frac c = m_frac a \<and> cash c = cash a - of_int (truncq (cash a / cash b)) * cash b))
    \<and> money_divide \<lparr> m_val = 750, m_frac = 2 \<rparr> \<lparr> m_val = 200, m_frac = 2 \<rparr> = Inr \<lparr> m_val = 300, m_frac = 2 \<rparr>"
proof -
  define P :: int where "P = 10 ^ nat (m_frac a)"
  note v = money_op_values [OF assms(1,3) P_def]
  have P0: "P \<noteq> 0" by (simp add: P_def)
  have cd: "cash c = of_int (m_val c) / of_int P" if "m_frac c = m_frac a" for c using that by (simp add: cash_def P_def)
  note ca = cd [of a, simplified] and cb = cd [OF assms(3)]
  have cu: "cash (a \<lparr> m_val := x \<rparr>) = of_int x / of_int P" for x using cd [of "a \<lparr> m_val := x \<rparr>"] by simp
  have q: "truncq (cash a / cash b) = m_val a sdiv m_val b" if "m_val b \<noteq> 0"
    using truncq_quotient [OF that, of "m_val a"] P0 by (simp add: ca cb)
  have t: "truncq (cash a * cash b * of_int P) = (m_val a * m_val b) sdiv P"
    using truncq_quotient [OF P0, of "m_val a * m_val b"] P0 by (simp add: ca cb)
  have r: "m_val a smod m_val b = m_val a - (m_val a sdiv m_val b) * m_val b" by (simp add: minus_sdiv_mult_eq_smod)
  have cm: "cash (a \<lparr> m_val := m_val a smod m_val b \<rparr>) = cash a - of_int (m_val a sdiv m_val b) * cash b"
    by (simp add: cu ca cb r diff_divide_distrib)
  have p: "(10 :: rat) ^ nat (m_frac a) = of_int P" by (simp add: P_def)
  have "money_divide \<lparr> m_val = 750, m_frac = 2 \<rparr> \<lparr> m_val = 200, m_frac = 2 \<rparr> = Inr \<lparr> m_val = 300, m_frac = 2 \<rparr>"
    by code_simp
  moreover have "m_val b \<noteq> 0 \<and> in_s 64 (truncq (cash a / cash b) * P) \<longrightarrow>
         (\<exists>c. money_divide a b = Inr c \<and> m_frac c = m_frac a \<and> cash c = of_int (truncq (cash a / cash b)))"
    using v(4) P0 by (auto simp: q cu)
  moreover have "m_val b \<noteq> 0 \<and> in_s 64 (truncq (cash a / cash b)) \<longrightarrow>
         (\<exists>c. money_mod a b = Inr c \<and> m_frac c = m_frac a \<and> cash c = cash a - of_int (truncq (cash a / cash b)) * cash b)"
    using v(5) by (auto simp: q cm)
  moreover have "in_s 64 (m_val a * m_val b) \<longrightarrow> (\<exists>c. money_times a b = Inr c \<and> m_frac c = m_frac a
         \<and> cash c = of_int (truncq (cash a * cash b * of_int P)) / of_int P)"
    using v(3) unfolding t by (auto simp: cu)
  ultimately show ?thesis using v(1,2) unfolding p P_def [symmetric]
    by (simp add: cu ca cb add_divide_distrib diff_divide_distrib)
qed

theorem money_arithmetic_witness:
  "money_ok \<lparr> m_val = 1250, m_frac = 2 \<rparr> \<and> money_ok \<lparr> m_val = 300, m_frac = 2 \<rparr>
   \<and> (\<exists>c. money_plus \<lparr> m_val = 1250, m_frac = 2 \<rparr> \<lparr> m_val = 300, m_frac = 2 \<rparr> = Inr c \<and> cash c = 31 / 2)"
proof -
  have ok: "money_ok \<lparr> m_val = 1250, m_frac = 2 \<rparr>" "money_ok \<lparr> m_val = 300, m_frac = 2 \<rparr>"
    by (simp_all add: money_ok_def in_s_def)
  then show ?thesis using money_arithmetic [OF ok] by (auto simp: in_s_def cash_def)
qed

section \<open>Text and numeric\<close>

text \<open>The decimal text of an integer, and what \<open>md::num_to_str\<close> and \<open>md::str_to_num\<close> promise for 64 bits.\<close>

definition int_text :: "int \<Rightarrow> string" where
  "int_text n = sign_text (n < 0) @ map digit_char (base_digits 10 \<bar>n\<bar>)"

definition shows_ints :: "(int \<Rightarrow> string) \<Rightarrow> bool" where
  "shows_ints show \<longleftrightarrow> (\<forall>n. in_s 64 n \<longrightarrow> show n = int_text n)"

definition reads_ints :: "(string \<Rightarrow> int) \<Rightarrow> bool" where
  "reads_ints conv \<longleftrightarrow> (\<forall>neg ds. digits_ok 10 ds \<and> ds \<noteq> [] \<and> in_s 64 (if neg then - bval 10 ds else bval 10 ds)
     \<longrightarrow> conv (sign_text neg @ map digit_char ds) = (if neg then - bval 10 ds else bval 10 ds))"

definition decimals :: "nat \<Rightarrow> int \<Rightarrow> int list" where
  "decimals n k = replicate (n - length (base_digits 10 k)) 0 @ base_digits 10 k"

lemma decimals_props:
  assumes "0 \<le> k" "k < 10 ^ n" "0 < n"
  shows "digits_ok 10 (decimals n k)" "length (decimals n k) = n" "bval 10 (decimals n k) = k"
  using base_digits_props [of 10 k] base_digits_length [of 10 k n] assms by (simp_all add: decimals_def bval_append)

lemma smod_abs: "0 < p \<Longrightarrow> \<bar>v smod p\<bar> = \<bar>v\<bar> mod p" for v p :: int
  by (auto simp: smod_pos)

lemma sdiv_abs: "0 < p \<Longrightarrow> \<bar>v sdiv p\<bar> = \<bar>v\<bar> div p" for v p :: int
  by (auto simp: sdiv_pos pos_imp_zdiv_nonneg_iff)

lemma in_s_smod: "0 < p \<Longrightarrow> in_s 64 p \<Longrightarrow> in_s 64 (\<bar>v\<bar> mod p)"
  using pos_mod_bound [of p "\<bar>v\<bar>"] pos_mod_sign [of p "\<bar>v\<bar>"] unfolding in_s_def by linarith

lemma money_text:
  assumes m: "money_ok m" "0 < m_frac m" and sh: "shows_ints show" and P: "P = 10 ^ nat (m_frac m)"
  shows "money_to_string show (m_frac m) m = Inr (number_text (m_val m sdiv P < 0)
    (base_digits 10 (\<bar>m_val m\<bar> div P)) (Some (decimals (nat (m_frac m)) (\<bar>m_val m\<bar> mod P))) None)"
proof -
  have P0: "0 < P" by (simp add: P)
  have f: "0 \<le> m_frac m" "m_frac m \<le> 18" "in_s 64 (m_val m)" using m by (simp_all add: money_ok_def)
  have p: "pow10 (m_frac m) = Inr P" "in_s 64 P" using pow10_bound [OF f(1,2)] by (simp_all add: P)
  have s1: "show (m_val m sdiv P) = int_text (m_val m sdiv P)" using sh sdiv_in_s [OF P0 f(3)] by (simp add: shows_ints_def)
  have s2: "show (\<bar>m_val m\<bar> mod P) = map digit_char (base_digits 10 (\<bar>m_val m\<bar> mod P))"
    using sh in_s_smod [OF P0 p(2), of "m_val m"] P0 by (simp add: shows_ints_def int_text_def sign_text_def not_less)
  have n: "int (length ds) < m_frac m \<longleftrightarrow> length ds < nat (m_frac m)" for ds :: "int list" using f(1) by linarith
  show ?thesis
    using f P0 by (simp add: money_to_string_def to_frac_digits_def p cdiv_pos cmod_pos smod_abs s1 s2 int_text_def sdiv_abs
      number_text_def point_text_def exp_text_def decimals_def n map_replicate_const digit_char_def Let_def)
qed

lemma money_to_numeric_is:
  assumes m: "money_ok m" "0 < m_frac m" and sh: "shows_ints show" and P: "P = 10 ^ nat (m_frac m)"
  shows "\<exists>n. money_to_numeric show (m_frac m) m = Inr n
    \<and> num_is n (of_int (if m_val m \<le> - P then m_val m else \<bar>m_val m\<bar>) / of_int P) (m_frac m)"
proof -
  define v where "v = m_val m"
  have P0: "0 < P" by (simp add: P)
  have ip: "digits_ok 10 (base_digits 10 (\<bar>v\<bar> div P))" "base_digits 10 (\<bar>v\<bar> div P) \<noteq> []" "bval 10 (base_digits 10 (\<bar>v\<bar> div P)) = \<bar>v\<bar> div P"
    using base_digits_props [of 10 "\<bar>v\<bar> div P"] P0 by (simp_all add: pos_imp_zdiv_nonneg_iff)
  have fp: "digits_ok 10 (decimals (nat (m_frac m)) (\<bar>v\<bar> mod P))" "length (decimals (nat (m_frac m)) (\<bar>v\<bar> mod P)) = nat (m_frac m)"
    "bval 10 (decimals (nat (m_frac m)) (\<bar>v\<bar> mod P)) = \<bar>v\<bar> mod P"
    using decimals_props [of "\<bar>v\<bar> mod P" "nat (m_frac m)"] P0 m(2) by (simp_all add: P)
  have ng: "v sdiv P < 0 \<longleftrightarrow> v \<le> - P"
    using P0 le_div_iff [of P 1 "- v"] by (auto simp: sdiv_pos pos_imp_zdiv_nonneg_iff not_less)
  have pw: "(10 :: rat) powi (- m_frac m) = 1 / of_int P" using m(2) by (simp add: P power_int_def power_one_over)
  have "num_is (numeric_of_string ([] @ number_text (v sdiv P < 0) (base_digits 10 (\<bar>v\<bar> div P))
      (Some (decimals (nat (m_frac m)) (\<bar>v\<bar> mod P))) None @ []))
    ((if v sdiv P < 0 then -1 else 1) * (of_int \<bar>v\<bar> * 10 powi (- m_frac m))) (m_frac m)"
    using numeric_of_number [of _ "Some (decimals (nat (m_frac m)) (\<bar>v\<bar> mod P))" None "[]" "[]" "v sdiv P < 0", OF ip(1,2)] fp m(2)
    by (simp add: frac_of_def exp_ok_def exp_value_def bval_append ip(3) P [symmetric])
  then show ?thesis
    unfolding money_to_numeric_def money_text [OF m sh P] v_def [symmetric] ng pw using P0 by (auto split: if_splits)
qed

text \<open>The amount is read back from the digits that \<open>numeric\<close> prints; the sign only counts for the whole part.\<close>

lemma money_from_numeric_is:
  assumes n: "num_is n (of_int k / of_int P) f" and f: "0 < f" "f \<le> 18" and P: "P = 10 ^ nat f"
    and k: "in_s 64 k" and rd: "reads_ints conv"
  shows "money_from_numeric conv f n = Inr \<lparr> m_val = (if k < 0 then k + 2 * (\<bar>k\<bar> mod P) else k), m_frac = f \<rparr>"
proof -
  define w where "w = whole_digits n"
  define d where "d = take (nat f) (frac_groups n)"
  have P0: "0 < P" "in_s 64 P" using pow10_bound [of f] f by (simp_all add: P)
  have nv: "num_wf n" "numval n = of_int k / of_int P" "dscale n = f" using n by (simp_all add: num_is_def)
  have sg: "sign n = NUMERIC_NEG \<longleftrightarrow> k < 0"
    using num_lead_sign [OF num_wf_lead [OF nv(1)]] nv(2) P0(1) by (simp add: divide_less_0_iff)
  have "absval n = \<bar>numval n\<bar>" using absval_nonneg [OF num_wf_digits [OF nv(1)]] by (simp add: numval_def sgnval_def)
  then have av: "absval n * 10 powi f = of_int \<bar>k\<bar>" using P0(1) f by (simp add: nv(2) P power_int_def)
  note sv = shown_value [OF num_wf_digits [OF nv(1)]] and pg = printed_groups [OF num_wf_digits [OF nv(1)] refl]
  have fr: "shown_frac n = Some d" using nv(3) f by (simp add: shown_frac_def d_def)
  have d: "digits_ok 10 d" "length d = nat f" "bval 10 (w @ d) = \<bar>k\<bar>"
    using sv nv(3) f av floor_of_int [of "\<bar>k\<bar>", where 'a = rat] by (simp_all add: fr frac_of_def w_def)
  have "bval 10 d < P" "0 \<le> bval 10 d" using bval_less [OF d(1)] bval_nonneg [OF d(1)] by (simp_all add: d(2) P)
  then have wd: "bval 10 w = \<bar>k\<bar> div P" "bval 10 d = \<bar>k\<bar> mod P"
    using d(3) by (simp_all add: bval_append d(2) P [symmetric] flip: d(3))
  have w: "digits_ok 10 w" "w \<noteq> []" using pg by (simp_all add: w_def)
  have nd: "\<forall>c \<in> set (sign_text (k < 0) @ map digit_char w). c \<noteq> CHR ''.''"
    using w(1) digit_char_props(3) by (fastforce simp: sign_text_def digits_ok_def)
  have bs: "get_str_from_var n = (sign_text (k < 0) @ map digit_char w) @ CHR ''.'' # map digit_char d"
    by (simp add: get_str_shape sg fr w_def point_text_def)
  have dp: "length (takeWhile (\<lambda>c. c \<noteq> CHR ''.'') (get_str_from_var n)) = length (sign_text (k < 0) @ map digit_char w)"
    unfolding bs using nd by (subst takeWhile_append2) auto
  define q where "q = (if k < 0 then - (\<bar>k\<bar> div P) else \<bar>k\<bar> div P)"
  have qk: "q = k sdiv P" using P0(1) by (auto simp: q_def sdiv_pos)
  have qs: "in_s 64 q" using sdiv_in_s [OF P0(1) k] by (simp add: qk)
  have c1: "conv (sign_text (k < 0) @ map digit_char w) = q"
    using rd [unfolded reads_ints_def, rule_format, of w "k < 0"] w qs
    by (cases "k < 0") (simp_all add: q_def wd(1))
  have ds: "in_s 64 (\<bar>k\<bar> mod P)" by (rule in_s_smod [OF P0])
  have c2: "conv (map digit_char d) = \<bar>k\<bar> mod P"
  proof -
    have "d \<noteq> []" using d(2) f by auto
    then have "conv (sign_text False @ map digit_char d) = bval 10 d"
      using rd [unfolded reads_ints_def, rule_format, of d False] d(1) ds by (simp add: wd(2))
    then show ?thesis by (simp add: sign_text_def wd(2))
  qed
  define X D where "X = \<bar>k\<bar> div P * P" and "D = \<bar>k\<bar> mod P"
  have b: "X + D = \<bar>k\<bar>" "0 \<le> D" "0 \<le> X" using P0(1) by (simp_all add: X_def D_def pos_imp_zdiv_nonneg_iff)
  have qX: "q * P = (if k < 0 then - X else X)" by (simp add: q_def X_def)
  have i: "in_s 64 x \<longleftrightarrow> - 9223372036854775808 \<le> x \<and> x < 9223372036854775808" for x by (simp add: in_s_def)
  have s: "in_s 64 (q * P)" "in_s 64 (q * P + \<bar>k\<bar> mod P)"
    and r: "q * P + \<bar>k\<bar> mod P = (if k < 0 then k + 2 * (\<bar>k\<bar> mod P) else k)"
    using k b P0 pos_mod_bound [of P "\<bar>k\<bar>", folded D_def] unfolding i qX D_def [symmetric] by (auto split: if_splits)
  define T where "T = sign_text (k < 0) @ map digit_char w"
  have "money_from_numeric conv f n = Inr \<lparr> m_val = q * P + \<bar>k\<bar> mod P, m_frac = f \<rparr>"
    using P0 f d(2) s by (simp add: money_from_numeric_def pow10_bound dp [folded T_def] P [symmetric])
      (simp add: bs [folded T_def] c1 [folded T_def] c2 Let_def)
  then show ?thesis by (simp only: r)
qed

text \<open>
  Converting an amount to \<open>numeric\<close> keeps its value, and reading the number back gives the
  amount, except below zero: the sign of an amount between -1 and 0 is lost on the way out, and
  on the way back the decimals are added to the negative whole part, so that -1.25 becomes -0.75.
\<close>

theorem money_numeric:
  assumes "money_ok m" "0 < m_frac m" "shows_ints show" "reads_ints conv"
  shows "\<exists>n. money_to_numeric show (m_frac m) m = Inr n \<and> num_wf n \<and> dscale n = m_frac m
    \<and> numval n = (if - 1 < cash m \<and> cash m < 0 then - cash m else cash m)
    \<and> money_from_numeric conv (m_frac m) n = Inr (m \<lparr> m_val :=
        if m_val m \<le> - (10 ^ nat (m_frac m)) then m_val m + 2 * (\<bar>m_val m\<bar> mod 10 ^ nat (m_frac m)) else \<bar>m_val m\<bar> \<rparr>)"
proof -
  define P :: int where "P = 10 ^ nat (m_frac m)"
  define k where "k = (if m_val m \<le> - P then m_val m else \<bar>m_val m\<bar>)"
  have P0: "0 < P" "in_s 64 P" using pow10_bound [of "m_frac m"] assms(1) by (simp_all add: P_def money_ok_def)
  obtain n where n: "money_to_numeric show (m_frac m) m = Inr n" "num_is n (of_int k / of_int P) (m_frac m)"
    using money_to_numeric_is [OF assms(1-3) P_def] by (auto simp: k_def)
  have v: "cash m = of_int (m_val m) / of_int P" by (simp add: cash_def P_def)
  have l: "- 1 < cash m \<longleftrightarrow> - P < m_val m" "cash m < 0 \<longleftrightarrow> m_val m < 0"
    using P0(1) by (auto simp: v pos_less_divide_eq divide_less_0_iff simp flip: of_int_minus)
  have "of_int k / of_int P = (if - 1 < cash m \<and> cash m < 0 then - cash m else cash m)"
    unfolding l by (auto simp: v k_def)
  moreover have "in_s 64 k" using assms(1) P0 by (auto simp: k_def money_ok_def in_s_def)
  then have "money_from_numeric conv (m_frac m) n
      = Inr \<lparr> m_val = (if k < 0 then k + 2 * (\<bar>k\<bar> mod P) else k), m_frac = m_frac m \<rparr>"
    using assms by (intro money_from_numeric_is [OF n(2) _ _ P_def]) (simp_all add: money_ok_def)
  moreover have "(if k < 0 then k + 2 * (\<bar>k\<bar> mod P) else k) = (if m_val m \<le> - P then m_val m + 2 * (\<bar>m_val m\<bar> mod P) else \<bar>m_val m\<bar>)"
    using P0(1) by (auto simp: k_def)
  ultimately show ?thesis using n unfolding P_def [symmetric] by (auto simp: num_is_def)
qed

definition read_int :: "string \<Rightarrow> int" where
  "read_int s = (if s \<noteq> [] \<and> hd s = CHR ''-'' then - bval 10 (map to_digit (tl s)) else bval 10 (map to_digit s))"

lemma read_int_text:
  assumes d: "digits_ok 10 ds" "ds \<noteq> []"
  shows "read_int (sign_text neg @ map digit_char ds) = (if neg then - bval 10 ds else bval 10 ds)"
proof -
  have m: "map (to_digit \<circ> digit_char) ds = ds" using digit_run(3) [OF d(1), of "[]"] by simp
  have "digit_char (hd ds) \<noteq> CHR ''-''" using d by (cases ds) (auto simp: digit_char_props(4))
  then show ?thesis using d(2) m by (simp add: read_int_def sign_text_def hd_map)
qed

lemma reads_read_int: "reads_ints read_int"
  by (simp add: reads_ints_def read_int_text)

theorem money_numeric_witness:
  "money_ok \<lparr> m_val = - 125, m_frac = 2 \<rparr> \<and> shows_ints int_text \<and> reads_ints read_int
   \<and> (\<exists>n. money_to_numeric int_text 2 \<lparr> m_val = - 125, m_frac = 2 \<rparr> = Inr n \<and> numval n = - 5 / 4
        \<and> money_from_numeric read_int 2 n = Inr \<lparr> m_val = - 75, m_frac = 2 \<rparr>)"
proof -
  have ok: "money_ok \<lparr> m_val = - 125, m_frac = 2 \<rparr>" by (simp add: money_ok_def in_s_def)
  have sh: "shows_ints int_text" by (simp add: shows_ints_def)
  show ?thesis using money_numeric [OF ok _ sh reads_read_int] ok sh reads_read_int by (auto simp: cash_def)
qed

section \<open>Order\<close>

text \<open>
  Amounts are ordered by value when they have the same number of digits, and also with
  different digits as long as the whole parts differ; with equal whole parts the decimals are
  compared as integers whatever their scale, so that 0.500 is not below 0.60, and
  equality truncates the left operand to the digits of the right one, so that it is not
  symmetric.
\<close>

theorem money_order:
  assumes "money_ok a" "money_ok b" "in_s 64 (- m_val a)" "in_s 64 (- m_val b)"
  shows "(m_frac a = m_frac b \<longrightarrow> money_less a b = Inr (cash a < cash b) \<and> money_less_eq a b = Inr (cash a \<le> cash b)
           \<and> money_eq a b = Inr (cash a = cash b))
    \<and> (m_frac a < m_frac b \<and> in_s 64 (m_val a * 10 ^ nat (m_frac b - m_frac a)) \<longrightarrow> money_eq a b = Inr (cash a = cash b))
    \<and> (truncq (cash a) \<noteq> truncq (cash b) \<longrightarrow> money_less a b = Inr (cash a < cash b) \<and> money_less_eq a b = Inr (cash a \<le> cash b))
    \<and> money_less \<lparr> m_val = 500, m_frac = 3 \<rparr> \<lparr> m_val = 60, m_frac = 2 \<rparr> = Inr False
    \<and> money_eq \<lparr> m_val = 505, m_frac = 3 \<rparr> \<lparr> m_val = 50, m_frac = 2 \<rparr> = Inr True
    \<and> money_eq \<lparr> m_val = 50, m_frac = 2 \<rparr> \<lparr> m_val = 505, m_frac = 3 \<rparr> = Inr False"
proof -
  define P where "P = (\<lambda>m :: money. (10 :: int) ^ nat (m_frac m))"
  have P0: "0 < P m" for m by (simp add: P_def)
  have v: "cash m = of_int (m_val m) / of_int (P m)" for m by (simp add: cash_def P_def)
  have same: "(cash a < cash b \<longleftrightarrow> m_val a < m_val b) \<and> (cash a \<le> cash b \<longleftrightarrow> m_val a \<le> m_val b) \<and> (cash a = cash b \<longleftrightarrow> m_val a = m_val b)"
    if "m_frac a = m_frac b"
    using that P0 [of b] by (simp add: v P_def divide_less_cancel divide_le_cancel)
  have tq: "truncq (cash m) = m_val m sdiv P m" for m using truncq_quotient [of "P m" "m_val m"] P0 [of m] by (simp add: v)
  have dp: "money_decimal_parts_to m = Inr (truncq (cash m), if m_val m < 0 then - (\<bar>m_val m\<bar> mod P m) else \<bar>m_val m\<bar> mod P m)"
    if "money_ok m" "in_s 64 (- m_val m)" for m
  proof -
    have "in_s 64 \<bar>m_val m\<bar>" using that by (simp add: money_ok_def abs_if)
    then show ?thesis using that P0 [of m] pow10_bound [of "m_frac m"]
      by (simp add: money_decimal_parts_to_def get_pow_def money_ok_def tq cdiv_pos cmod_pos smod_nonneg P_def)
  qed
  have mono: "truncq x \<le> truncq y" if "x \<le> y" for x y
  proof (cases "x < 0 \<and> 0 \<le> y")
    case True
    have "truncq x = - \<lfloor>\<bar>x\<bar>\<rfloor>" "truncq y = \<lfloor>\<bar>y\<bar>\<rfloor>" using True unfolding truncq_def by simp_all
    moreover have "- \<lfloor>\<bar>x\<bar>\<rfloor> \<le> 0" "0 \<le> \<lfloor>\<bar>y\<bar>\<rfloor>" by simp_all
    ultimately show ?thesis by (metis order.trans)
  qed (use that floor_mono [of x y] floor_mono [of "- y" "- x"] in \<open>auto simp: truncq_def\<close>)
  have tl: "(cash a < cash b \<longleftrightarrow> truncq (cash a) < truncq (cash b)) \<and> (cash a \<le> cash b \<longleftrightarrow> truncq (cash a) \<le> truncq (cash b))"
    if "truncq (cash a) \<noteq> truncq (cash b)"
    using that mono [of "cash a" "cash b"] mono [of "cash b" "cash a"] by (metis linorder_not_le nle_le)
  have e: "m_frac a = m_frac b \<longrightarrow> money_eq a b = Inr (cash a = cash b)" using same by (simp add: money_eq_def to_frac_digits_def)
  have u: "money_eq a b = Inr (cash a = cash b)"
    if h: "m_frac a < m_frac b" "in_s 64 (m_val a * 10 ^ nat (m_frac b - m_frac a))"
  proof -
    define Q where "Q = (10 :: int) ^ nat (m_frac b - m_frac a)"
    have q: "pow10 (m_frac b - m_frac a) = Inr Q" using pow10_bound [of "m_frac b - m_frac a"] h assms(1,2) by (simp add: Q_def money_ok_def)
    have "nat (m_frac b) = nat (m_frac b - m_frac a) + nat (m_frac a)"
      using h(1) assms(1) unfolding money_ok_def by linarith
    then have pb: "P b = Q * P a" by (simp add: P_def Q_def power_add)
    have "cash a = of_int (m_val a * Q) / of_int (P b)" using P0 [of a] P0 [of b] unfolding v pb by (auto simp: Q_def)
    then have "cash a = cash b \<longleftrightarrow> m_val a * Q = m_val b" using P0 [of b] unfolding v [of b] by (simp flip: of_int_mult)
    then show ?thesis using h by (simp add: money_eq_def to_frac_digits_def q Q_def [symmetric])
  qed
  show ?thesis
    using same e u tl dp [OF assms(1,3)] dp [OF assms(2,4)]
    by (intro conjI) (auto simp: money_less_def money_less_eq_def, code_simp+)
qed

theorem money_order_witness:
  "money_less \<lparr> m_val = 500, m_frac = 2 \<rparr> \<lparr> m_val = 700, m_frac = 2 \<rparr> = Inr (cash \<lparr> m_val = 500, m_frac = 2 \<rparr> < cash \<lparr> m_val = 700, m_frac = 2 \<rparr>)"
  using money_order [of "\<lparr> m_val = 500, m_frac = 2 \<rparr>" "\<lparr> m_val = 700, m_frac = 2 \<rparr>"] by (simp add: money_ok_def in_s_def)

end
