(* ===== verification/Results.thy ===== *)
theory Results
  imports Conn_Task Sql_Exec
begin

text \<open>
  Results of queries: columns, values, rows and tables (\<open>data_column.h\<close>,
  \<open>data_columns_container.h\<close>, \<open>data_value.h\<close>, \<open>data_row.cpp\<close>, \<open>data_table.cpp\<close>), how a result
  of libpq becomes a table or a row (\<open>database.cpp\<close>), and the reader that hands out one row
  after another (\<open>data_reader.h\<close>).

  A result is its status, its columns and its fields, a field being the bytes of its value or
  none for null. The results that libpq has not returned yet are a list; a result is named by
  its number. \<open>md::lower_case_copy\<close> is an argument.
\<close>

section \<open>Data\<close>

record pgresult =
  rs_status :: int
  rs_cols :: "(int \<times> string \<times> int) list"
  rs_rows :: "int list option list list"

record column =
  col_oid :: int
  col_index :: nat
  col_name :: string
  col_fmt :: int

record data_value =
  dv_col :: column
  dv_value :: "int list option"
  dv_length :: int
  dv_ele_oid :: int
  dv_dim :: int

record data_row =
  row_cols :: "column list"
  row_values :: "data_value list"

record data_table =
  tb_cols :: "column list"
  tb_rows :: "data_row list"

section \<open>Columns and values\<close>

text \<open>The number of the first column with the lower case of a name, or \<open>-1\<close>.\<close>

fun find_col :: "nat \<Rightarrow> column list \<Rightarrow> string \<Rightarrow> int" where
  "find_col i [] tmp_name = - 1"
| "find_col i (c # cs) tmp_name = (if col_name c = tmp_name then int i else find_col (i + 1) cs tmp_name)"

definition get_col_index :: "(string \<Rightarrow> string) \<Rightarrow> column list \<Rightarrow> string \<Rightarrow> int" where
  "get_col_index lcase cols name = find_col 0 cols (lcase name)"

text \<open>An index outside of a vector is undefined behaviour.\<close>

definition vec_at :: "'a list \<Rightarrow> int \<Rightarrow> 'a result" where
  "vec_at xs i = (if 0 \<le> i \<and> i < int (length xs) then Inr (xs ! nat i) else Inl (UndefinedBehaviour ''vector index''))"

definition get_col :: "column list \<Rightarrow> int \<Rightarrow> column result" where
  "get_col cols idx = vec_at cols idx"

definition get_col_named :: "(string \<Rightarrow> string) \<Rightarrow> column list \<Rightarrow> string \<Rightarrow> column result" where
  "get_col_named lcase cols name = get_col cols (get_col_index lcase cols name)"

definition value_init :: "column \<Rightarrow> int list option \<Rightarrow> int \<Rightarrow> data_value" where
  "value_init col v len = \<lparr> dv_col = col, dv_value = v, dv_length = len, dv_ele_oid = - 1, dv_dim = - 1 \<rparr>"

definition value_is_null :: "data_value \<Rightarrow> bool" where
  "value_is_null v \<longleftrightarrow> dv_value v = None"

section \<open>Rows\<close>

text \<open>
  \<open>PQgetisnull\<close> and \<open>PQgetvalue\<close>: libpq reports a field that the result does not have as null.
\<close>

definition pq_field :: "pgresult \<Rightarrow> nat \<Rightarrow> nat \<Rightarrow> int list option" where
  "pq_field res row i =
    (if row < length (rs_rows res) \<and> i < length (rs_rows res ! row) then rs_rows res ! row ! i else None)"

definition row_init :: "column list \<Rightarrow> pgresult \<Rightarrow> nat \<Rightarrow> data_row" where
  "row_init cols res row_id =
    \<lparr> row_cols = cols,
      row_values = map (\<lambda>i.
        case pq_field res row_id i of
          None \<Rightarrow> value_init (cols ! i) None 0
        | Some bs \<Rightarrow> value_init (cols ! i) (Some bs) (int (length bs))) [0..<length cols] \<rparr>"

definition row_value :: "data_row \<Rightarrow> int \<Rightarrow> data_value result" where
  "row_value row i =
    (if i \<ge> int (length (row_cols row)) then Inl (PqException ''Invalid index.'') else vec_at (row_values row) i)"

definition row_value_named :: "(string \<Rightarrow> string) \<Rightarrow> data_row \<Rightarrow> string \<Rightarrow> data_value result" where
  "row_value_named lcase row name =
    (let index = get_col_index lcase (row_cols row) name in
     if index = - 1 then Inl (PqException (''Column name '' @ [CHR 0x22] @ name @ [CHR 0x22] @ '' is not valid.''))
     else vec_at (row_values row) index)"

definition row_is_null :: "(string \<Rightarrow> string) \<Rightarrow> data_row \<Rightarrow> string \<Rightarrow> bool result" where
  "row_is_null lcase row name = bind_result (row_value_named lcase row name) (\<lambda>v. Inr (value_is_null v))"

section \<open>Tables\<close>

definition table_init :: data_table where
  "table_init = \<lparr> tb_cols = [], tb_rows = [] \<rparr>"

definition table_value :: "data_table \<Rightarrow> int \<Rightarrow> int \<Rightarrow> data_value result" where
  "table_value t row_idx col_id = bind_result (vec_at (tb_rows t) row_idx) (\<lambda>r. row_value r col_id)"

definition table_value_named :: "(string \<Rightarrow> string) \<Rightarrow> data_table \<Rightarrow> int \<Rightarrow> string \<Rightarrow> data_value result" where
  "table_value_named lcase t row_idx name = bind_result (vec_at (tb_rows t) row_idx) (\<lambda>r. row_value_named lcase r name)"

definition result_cols :: "pgresult \<Rightarrow> column list" where
  "result_cols res =
    map (\<lambda>i. case rs_cols res ! i of (oid, name, fmt) \<Rightarrow>
      \<lparr> col_oid = oid, col_index = i, col_name = name, col_fmt = fmt \<rparr>) [0..<length (rs_cols res)]"

definition ok_status :: "int \<Rightarrow> bool" where
  "ok_status st \<longleftrightarrow> st = PGRES_COMMAND_OK \<or> st = PGRES_SINGLE_TUPLE \<or> st = PGRES_TUPLES_OK"

definition process_query_result :: "nat \<Rightarrow> pgresult \<Rightarrow> string \<Rightarrow> system \<Rightarrow> data_table result" where
  "process_query_result d res msg s =
    (if db_conn (sys_pool s) d = None then Inl (PqException ''connection is dead!'')
     else if \<not> ok_status (rs_status res) then Inl (PqException msg)
     else
       let cols = result_cols res in
       Inr \<lparr> tb_cols = cols, tb_rows = map (row_init cols res) [0..<length (rs_rows res)] \<rparr>)"

text \<open>None is the row of a null pointer.\<close>

definition process_query_single_result :: "nat \<Rightarrow> pgresult \<Rightarrow> string \<Rightarrow> system \<Rightarrow> data_row option result" where
  "process_query_single_result d res msg s =
    (if db_conn (sys_pool s) d = None then Inl (PqException ''connection is dead!'')
     else if \<not> ok_status (rs_status res) then Inl (PqException msg)
     else if rs_rows res = [] then Inr None
     else Inr (Some (row_init (result_cols res) res 0)))"

section \<open>The reader\<close>

record reader =
  rd_task :: task
  rd_table :: "data_table option"
  rd_closed :: bool

definition reader_init :: "task \<Rightarrow> reader" where
  "reader_init ct = \<lparr> rd_task = ct, rd_table = None, rd_closed = False \<rparr>"

definition reader_closed :: pq_error where
  "reader_closed = PqException ''The reader is closed!''"

text \<open>
  \<open>close\<close>: libpq is asked to cancel, a refusal is only logged, and the results that are left
  are read and dropped. The second component is the list of these results.
\<close>

definition reader_close :: "nat \<Rightarrow> system \<Rightarrow> reader \<times> nat list \<Rightarrow> unit result \<times> reader \<times> nat list" where
  "reader_close d s = (\<lambda>(rd, pend).
    if rd_closed rd then (Inr (), rd, pend)
    else if \<not> has_conn d s then (Inl null_conn, rd, pend)
    else (Inr (), rd \<lparr> rd_closed := True \<rparr>, []))"

definition init_table :: "pgresult \<Rightarrow> string \<Rightarrow> reader \<Rightarrow> unit result \<times> reader" where
  "init_table res msg rd =
    (case rd_table rd of
       Some t \<Rightarrow> (Inr (), rd \<lparr> rd_table := Some (t \<lparr> tb_rows := [] \<rparr>) \<rparr>)
     | None \<Rightarrow>
         if \<not> ok_status (rs_status res) then (Inl (PqException msg), rd)
         else (Inr (), rd \<lparr> rd_table := Some \<lparr> tb_cols = result_cols res, tb_rows = [] \<rparr> \<rparr>))"

text \<open>What \<open>next\<close> does with a result before it returns: the row is added to the table.\<close>

definition take_row :: "pgresult \<Rightarrow> string \<Rightarrow> reader \<Rightarrow> data_table result \<times> reader" where
  "take_row res msg rd =
    (case init_table res msg rd of
       (Inl err, rd) \<Rightarrow> (Inl err, rd)
     | (Inr _, rd) \<Rightarrow>
         if \<not> ok_status (rs_status res) then (Inl (PqException msg), rd)
         else
           (case rd_table rd of
              None \<Rightarrow> (Inl (UndefinedBehaviour ''null table''), rd)
            | Some t \<Rightarrow>
                let t = (if rs_rows res = [] then t else t \<lparr> tb_rows := tb_rows t @ [row_init (tb_cols t) res 0] \<rparr>) in
                (Inr t, rd \<lparr> rd_table := Some t \<rparr>)))"

definition reader_next ::
  "nat \<Rightarrow> turn \<Rightarrow> (nat \<Rightarrow> pgresult) \<Rightarrow> system \<Rightarrow> reader \<times> nat list \<Rightarrow> data_row option result \<times> reader \<times> nat list" where
  "reader_next d n res_of s = (\<lambda>(rd, pend).
    if rd_closed rd then (Inl reader_closed, rd, pend)
    else
      (case reader_run_now d (n \<lparr> tn_results := pend \<rparr>) s (rd_task rd) of
         (Inl err, t) \<Rightarrow> (Inl err, rd \<lparr> rd_task := t \<rparr>, pend)
       | (Inr None, t) \<Rightarrow> (Inr None, rd \<lparr> rd_task := t, rd_closed := True \<rparr>, pend)
       | (Inr (Some k), t) \<Rightarrow>
           (case take_row (res_of k) (tn_message n) (rd \<lparr> rd_task := t \<rparr>) of
              (Inl err, rd) \<Rightarrow> (Inl err, rd, tl pend)
            | (Inr tb, rd) \<Rightarrow>
                if tb_rows tb \<noteq> [] then (Inr (Some (hd (tb_rows tb))), rd, tl pend)
                else (Inr None, rd \<lparr> rd_closed := True \<rparr>, []))))"

text \<open>The usual loop over a reader: rows until there is none, or an error. None: out of fuel.\<close>

fun read_rows ::
  "nat \<Rightarrow> nat \<Rightarrow> turn \<Rightarrow> (nat \<Rightarrow> pgresult) \<Rightarrow> system \<Rightarrow> reader \<times> nat list \<Rightarrow>
   (data_row list \<times> pq_error option \<times> reader \<times> nat list) option" where
  "read_rows 0 d n res_of s st = None"
| "read_rows (Suc k) d n res_of s st =
    (case reader_next d n res_of s st of
       (Inl err, st) \<Rightarrow> Some ([], Some err, st)
     | (Inr None, st) \<Rightarrow> Some ([], None, st)
     | (Inr (Some row), st) \<Rightarrow>
         map_option (\<lambda>(rows, err, st). (row # rows, err, st)) (read_rows k d n res_of s st))"

text \<open>
  The callback that \<open>next(cb)\<close> gives to the task: the calls of the user's callback, in order, and
  whether the task keeps the callback.
\<close>

datatype row_call = RowError pq_error | RowCall "data_row option"

definition reader_callback ::
  "(nat \<Rightarrow> pgresult) \<Rightarrow> string \<Rightarrow> callback \<Rightarrow> reader \<Rightarrow> row_call list \<times> bool \<times> reader" where
  "reader_callback res_of msg c rd =
    (case c of
       CbError err \<Rightarrow> ([RowError err], False, rd)
     | CbResult k \<Rightarrow>
         if rd_closed rd then ([RowError reader_closed], False, rd)
         else
           (case take_row (res_of k) msg rd of
              (Inl err, rd) \<Rightarrow> ([RowError err], False, rd)
            | (Inr tb, rd) \<Rightarrow> ((if tb_rows tb \<noteq> [] then [RowCall (Some (hd (tb_rows tb)))] else []), True, rd))
     | _ \<Rightarrow> ([RowCall None], False, rd \<lparr> rd_closed := True \<rparr>))"

text \<open>The callbacks of a task that the event loop runs, one after another, while the task has its callback.\<close>

fun reader_events ::
  "(nat \<Rightarrow> pgresult) \<Rightarrow> string \<Rightarrow> callback list \<Rightarrow> reader \<Rightarrow> row_call list \<times> reader" where
  "reader_events res_of msg [] rd = ([], rd)"
| "reader_events res_of msg (c # cs) rd =
    (case reader_callback res_of msg c rd of
       (calls, keep, rd) \<Rightarrow>
         if keep then (case reader_events res_of msg cs rd of (later, rd) \<Rightarrow> (calls @ later, rd)) else (calls, rd))"

section \<open>Fields\<close>

lemma find_col_first:
  "find_col i cs nm = (case List.find (\<lambda>j. col_name (cs ! j) = nm) [0..<length cs] of None \<Rightarrow> - 1 | Some j \<Rightarrow> int (i + j))"
proof (induction cs arbitrary: i)
  case (Cons c cs)
  have u: "[0..<length (c # cs)] = 0 # map Suc [0..<length cs]" by (simp add: upt_conv_Cons map_Suc_upt del: upt_Suc)
  have f: "List.find P (map Suc xs) = map_option Suc (List.find (P \<circ> Suc) xs)" for P xs by (induction xs) auto
  show ?case unfolding u using Cons.IH [of "i + 1"] by (auto simp: f comp_def split: option.splits)
qed simp

text \<open>The first column with a name.\<close>

definition first_col :: "column list \<Rightarrow> string \<Rightarrow> nat option" where
  "first_col cs nm = List.find (\<lambda>j. col_name (cs ! j) = nm) [0..<length cs]"

lemma first_col_Some: "first_col cs nm = Some j \<Longrightarrow> j < length cs \<and> col_name (cs ! j) = nm"
  by (auto simp: first_col_def find_Some_iff)

lemma first_col_None: "first_col cs nm = None \<longleftrightarrow> nm \<notin> col_name ` set cs"
  by (fastforce simp: first_col_def find_None_iff in_set_conv_nth image_iff)

lemma get_col_index_first:
  "get_col_index lcase cs nm = (case first_col cs (lcase nm) of None \<Rightarrow> - 1 | Some j \<Rightarrow> int j)"
  by (simp add: get_col_index_def find_col_first first_col_def split: option.split)

definition field_value :: "column list \<Rightarrow> pgresult \<Rightarrow> nat \<Rightarrow> nat \<Rightarrow> data_value" where
  "field_value cols res row i =
    value_init (cols ! i) (pq_field res row i) (case pq_field res row i of None \<Rightarrow> 0 | Some bs \<Rightarrow> int (length bs))"

lemma row_init_values:
  "row_values (row_init cols res row) = map (field_value cols res row) [0..<length cols]" "row_cols (row_init cols res row) = cols"
  by (auto simp: row_init_def field_value_def split: option.splits)

lemma row_value_init:
  assumes "0 \<le> i"
  shows "row_value (row_init cols res row) i
    = (if i < int (length cols) then Inr (field_value cols res row (nat i)) else Inl (PqException ''Invalid index.''))"
  using assms by (simp add: row_value_def row_init_values vec_at_def nat_less_iff)

lemma row_value_named_init:
  "row_value_named lcase (row_init cols res row) nm
    = (case first_col cols (lcase nm) of
         None \<Rightarrow> Inl (PqException (''Column name '' @ [CHR 0x22] @ nm @ [CHR 0x22] @ '' is not valid.''))
       | Some j \<Rightarrow> Inr (field_value cols res row j))"
  by (auto simp: row_value_named_def row_init_values get_col_index_first vec_at_def split: option.splits dest: first_col_Some)

text \<open>
  A table that is made of a result gives for every row and every column exactly the field of
  the result, with its type and its name, by number and, through the lower case of a name, by
  name; a number behind the last column and a name without column throw, and a column whose own
  name has upper case letters is never found by name.
\<close>

theorem table_fields:
  assumes "process_query_result d res msg s = Inr tb" "row < length (rs_rows res)" "0 \<le> i" "\<And>x. lcase (lcase x) = lcase x"
  shows "length (tb_rows tb) = length (rs_rows res)
    \<and> (i < int (length (rs_cols res)) \<longrightarrow> (\<exists>v. table_value tb (int row) i = Inr v \<and> dv_value v = pq_field res row (nat i)
         \<and> (col_oid (dv_col v), col_name (dv_col v), col_fmt (dv_col v)) = rs_cols res ! nat i))
    \<and> (int (length (rs_cols res)) \<le> i \<longrightarrow> table_value tb (int row) i = Inl (PqException ''Invalid index.''))
    \<and> (case first_col (tb_cols tb) (lcase nm) of
         None \<Rightarrow> \<exists>e. table_value_named lcase tb (int row) nm = Inl (PqException e)
       | Some j \<Rightarrow> table_value_named lcase tb (int row) nm = table_value tb (int row) (int j))
    \<and> (\<forall>v. table_value_named lcase tb (int row) nm = Inr v \<longrightarrow> lcase (col_name (dv_col v)) = col_name (dv_col v))"
proof -
  define C where "C = result_cols res"
  have tb: "tb = \<lparr> tb_cols = C, tb_rows = map (row_init C res) [0..<length (rs_rows res)] \<rparr>"
    using assms(1) by (simp add: process_query_result_def C_def Let_def split: if_splits)
  have lc: "length C = length (rs_cols res)" by (simp add: C_def result_cols_def)
  have r: "vec_at (tb_rows tb) (int row) = Inr (row_init C res row)" using assms(2) by (simp add: tb vec_at_def)
  have v: "table_value tb (int row) k
      = (if k < int (length C) then Inr (field_value C res row (nat k)) else Inl (PqException ''Invalid index.''))" if "0 \<le> k" for k
    using that by (simp add: table_value_def r row_value_init)
  have nv: "table_value_named lcase tb (int row) nm = (case first_col C (lcase nm) of
         None \<Rightarrow> Inl (PqException (''Column name '' @ [CHR 0x22] @ nm @ [CHR 0x22] @ '' is not valid.''))
       | Some j \<Rightarrow> Inr (field_value C res row j))"
    by (simp add: table_value_named_def r row_value_named_init)
  have col: "(col_oid (C ! k), col_name (C ! k), col_fmt (C ! k)) = rs_cols res ! k" if "k < length (rs_cols res)" for k
    using that by (simp add: C_def result_cols_def split: prod.split)
  have "i < int (length (rs_cols res)) \<longrightarrow> (\<exists>v. table_value tb (int row) i = Inr v \<and> dv_value v = pq_field res row (nat i)
         \<and> (col_oid (dv_col v), col_name (dv_col v), col_fmt (dv_col v)) = rs_cols res ! nat i)"
    using v [OF assms(3)] assms(3) col [of "nat i"] by (simp add: lc field_value_def value_init_def nat_less_iff)
  moreover have "int (length (rs_cols res)) \<le> i \<longrightarrow> table_value tb (int row) i = Inl (PqException ''Invalid index.'')"
    using v [OF assms(3)] by (simp add: lc)
  moreover have "case first_col (tb_cols tb) (lcase nm) of
         None \<Rightarrow> \<exists>e. table_value_named lcase tb (int row) nm = Inl (PqException e)
       | Some j \<Rightarrow> table_value_named lcase tb (int row) nm = table_value tb (int row) (int j)"
  proof -
    have "tb_cols tb = C" by (simp add: tb)
    then show ?thesis using v [of "int j" for j] nv by (auto split: option.splits dest: first_col_Some)
  qed
  moreover have "\<forall>v. table_value_named lcase tb (int row) nm = Inr v \<longrightarrow> lcase (col_name (dv_col v)) = col_name (dv_col v)"
    using assms(4) by (auto simp: nv field_value_def value_init_def split: option.splits dest!: first_col_Some)
  ultimately show ?thesis by (simp add: tb)
qed

section \<open>Reading\<close>

text \<open>A reader between two rows.\<close>

definition reading :: "column list \<Rightarrow> reader \<Rightarrow> bool" where
  "reading C rd \<longleftrightarrow> \<not> rd_closed rd \<and> (t_cmd (rd_task rd) = Cmd_query \<or> t_cmd (rd_task rd) = Cmd_sent)
     \<and> (case rd_table rd of None \<Rightarrow> True | Some t \<Rightarrow> tb_cols t = C)"

lemma take_row_ok:
  assumes "reading C rd" "ok_status (rs_status res)" "result_cols res = C"
  shows "\<exists>rd'. take_row res msg rd = (Inr \<lparr> tb_cols = C, tb_rows = (if rs_rows res = [] then [] else [row_init C res 0]) \<rparr>, rd')
    \<and> reading C rd' \<and> rd_task rd' = rd_task rd"
  using assms by (cases "rd_table rd") (auto simp: take_row_def init_table_def reading_def Let_def)

lemma reader_run_now_sent:
  assumes "reading C rd" "has_conn d s" "tn_send_ok n" "tn_single_row_ok n"
  shows "\<exists>t. reader_run_now d (n \<lparr> tn_results := k # pend \<rparr>) s (rd_task rd) = (Inr (Some k), t) \<and> t_cmd t = Cmd_sent"
    and "\<exists>t. reader_run_now d (n \<lparr> tn_results := [] \<rparr>) s (rd_task rd) = (Inr None, t) \<and> t_cmd t = Cmd_sent"
  using assms by (auto simp: reading_def reader_run_now_def reader_start_def reader_send_def send_command_def reader_take_def)

lemma next_row:
  assumes "reading C rd" "has_conn d s" "tn_send_ok n" "tn_single_row_ok n" "ok_status (rs_status (res_of k))" "result_cols (res_of k) = C"
  shows "\<exists>rd'. reader_next d n res_of s (rd, k # pend) =
    (if rs_rows (res_of k) = [] then (Inr None, rd' \<lparr> rd_closed := True \<rparr>, []) else (Inr (Some (row_init C (res_of k) 0)), rd', pend))
    \<and> reading C rd'"
proof -
  obtain t where t: "reader_run_now d (n \<lparr> tn_results := k # pend \<rparr>) s (rd_task rd) = (Inr (Some k), t)" "t_cmd t = Cmd_sent"
    using reader_run_now_sent(1) [OF assms(1-4)] by blast
  have "reading C (rd \<lparr> rd_task := t \<rparr>)" using assms(1) t(2) by (simp add: reading_def)
  from take_row_ok [OF this assms(5,6), of "tn_message n"] show ?thesis
    using assms(1) t by (auto simp: reader_next_def reading_def)
qed

text \<open>The result that a query gives at once when the reader would get the results \<open>ks\<close>, one row each.\<close>

definition whole_result :: "(int \<times> string \<times> int) list \<Rightarrow> (nat \<Rightarrow> pgresult) \<Rightarrow> nat list \<Rightarrow> pgresult" where
  "whole_result cols res_of ks =
    \<lparr> rs_status = PGRES_TUPLES_OK, rs_cols = cols, rs_rows = map (\<lambda>k. hd (rs_rows (res_of k))) ks \<rparr>"

definition single_row :: "(int \<times> string \<times> int) list \<Rightarrow> pgresult \<Rightarrow> bool" where
  "single_row cols res \<longleftrightarrow> rs_status res = PGRES_SINGLE_TUPLE \<and> rs_cols res = cols \<and> length (rs_rows res) = 1"

lemma result_cols_cong: "rs_cols r = rs_cols r' \<Longrightarrow> result_cols r = result_cols r'"
  by (simp add: result_cols_def)

lemma whole_rows:
  assumes "\<forall>k \<in> set ks. single_row cols (res_of k)"
  shows "map (row_init C (whole_result cols res_of ks)) [0..<length ks] = map (\<lambda>k. row_init C (res_of k) 0) ks"
proof (rule nth_equalityI)
  fix i assume "i < length (map (row_init C (whole_result cols res_of ks)) [0..<length ks])"
  then have i: "i < length ks" by simp
  then have "length (rs_rows (res_of (ks ! i))) = 1" using assms by (auto simp: single_row_def)
  then obtain r where "rs_rows (res_of (ks ! i)) = [r]" by (auto simp: length_Suc_conv)
  then have "pq_field (whole_result cols res_of ks) i = pq_field (res_of (ks ! i)) 0"
    using i by (auto simp: pq_field_def whole_result_def)
  then show "map (row_init C (whole_result cols res_of ks)) [0..<length ks] ! i = map (\<lambda>k. row_init C (res_of k) 0) ks ! i"
    using i by (simp add: row_init_def)
qed simp

lemma read_rows_all:
  assumes "reading C rd" "has_conn d s" "tn_send_ok n" "tn_single_row_ok n" "C = result_cols (res_of e)"
    and "\<forall>k \<in> set ks. single_row (rs_cols (res_of e)) (res_of k)" "ok_status (rs_status (res_of e))" "rs_rows (res_of e) = []"
  shows "\<exists>rd'. read_rows (Suc (length ks)) d n res_of s (rd, ks @ [e]) = Some (map (\<lambda>k. row_init C (res_of k) 0) ks, None, rd', [])
    \<and> rd_closed rd'"
  using assms(1,6)
proof (induction ks arbitrary: rd)
  case Nil
  from next_row [where res_of = res_of and k = e and pend = "[]", OF Nil(1) assms(2-4,7) assms(5) [symmetric]] show ?case
    by (auto simp: assms(8))
next
  case (Cons k ks)
  have k: "single_row (rs_cols (res_of e)) (res_of k)" using Cons.prems by simp
  then have r: "rs_rows (res_of k) \<noteq> []" "ok_status (rs_status (res_of k))" "result_cols (res_of k) = C"
    using result_cols_cong [of "res_of k" "res_of e"] by (auto simp: single_row_def ok_status_def assms(5))
  obtain rd' where rd': "reader_next d n res_of s (rd, k # ks @ [e]) = (Inr (Some (row_init C (res_of k) 0)), rd', ks @ [e])" "reading C rd'"
    using next_row [where res_of = res_of and k = k and pend = "ks @ [e]", OF Cons.prems(1) assms(2-4) r(2,3)] r(1) by auto
  from Cons.IH [OF rd'(2)] Cons.prems(2) rd'(1) show ?case by auto
qed

lemma reader_events_all:
  assumes "reading C rd" "C = result_cols (res_of e)"
    and "\<forall>k \<in> set ks. single_row (rs_cols (res_of e)) (res_of k)" "ok_status (rs_status (res_of e))" "rs_rows (res_of e) = []"
  shows "\<exists>rd'. reader_events res_of msg (map CbResult (ks @ [e]) @ [CbNull]) rd
    = (map (\<lambda>k. RowCall (Some (row_init C (res_of k) 0))) ks @ [RowCall None], rd') \<and> rd_closed rd'"
  using assms(1,3)
proof (induction ks arbitrary: rd)
  case Nil
  then have "\<not> rd_closed rd" by (simp add: reading_def)
  with take_row_ok [OF Nil(1) assms(4) assms(2) [symmetric], of msg] show ?case by (auto simp: reader_callback_def assms(5))
next
  case (Cons k ks)
  have k: "single_row (rs_cols (res_of e)) (res_of k)" using Cons.prems by simp
  then have r: "rs_rows (res_of k) \<noteq> []" "ok_status (rs_status (res_of k))" "result_cols (res_of k) = C"
    using result_cols_cong [of "res_of k" "res_of e"] by (auto simp: single_row_def ok_status_def assms(2))
  obtain rd' where rd': "take_row (res_of k) msg rd = (Inr \<lparr> tb_cols = C, tb_rows = [row_init C (res_of k) 0] \<rparr>, rd')" "reading C rd'"
    using take_row_ok [OF Cons.prems(1) r(2,3), of msg] r(1) by auto
  have "\<not> rd_closed rd" using Cons.prems(1) by (simp add: reading_def)
  with Cons.IH [OF rd'(2)] Cons.prems(2) rd'(1) show ?case by (auto simp: reader_callback_def)
qed

text \<open>
  C14: reading row by row ends after one call more than there are rows and gives exactly the
  rows that the same query gives as a table, in the same order; then the reader is closed,
  no result is left, and another call throws. With callbacks the same rows are delivered, followed
  by one call without row.
\<close>

theorem reader_equals_query:
  assumes "t_cmd t = Cmd_query" "has_conn d s" "tn_send_ok n" "tn_single_row_ok n"
    and "\<forall>k \<in> set ks. single_row (rs_cols (res_of e)) (res_of k)" "rs_status (res_of e) = PGRES_TUPLES_OK" "rs_rows (res_of e) = []"
  shows "\<exists>tb rd rd'. process_query_result d (whole_result (rs_cols (res_of e)) res_of ks) msg s = Inr tb
    \<and> read_rows (Suc (length ks)) d n res_of s (reader_init t, ks @ [e]) = Some (tb_rows tb, None, rd, [])
    \<and> reader_next d n res_of s (rd, []) = (Inl reader_closed, rd, [])
    \<and> reader_events res_of msg (map CbResult (ks @ [e]) @ [CbNull]) (reader_init t)
      = (map (\<lambda>row. RowCall (Some row)) (tb_rows tb) @ [RowCall None], rd')"
proof -
  define C where "C = result_cols (res_of e)"
  have i: "reading C (reader_init t)" using assms(1) by (simp add: reading_def reader_init_def)
  have ok: "ok_status (rs_status (res_of e))" using assms(6) by (simp add: ok_status_def)
  have C: "result_cols (whole_result (rs_cols (res_of e)) res_of ks) = C"
    unfolding C_def by (rule result_cols_cong) (simp add: whole_result_def)
  have "db_conn (sys_pool s) d \<noteq> None" using assms(2) by (auto simp: has_conn_def split: option.splits)
  then have "process_query_result d (whole_result (rs_cols (res_of e)) res_of ks) msg s
      = Inr \<lparr> tb_cols = C, tb_rows = map (\<lambda>k. row_init C (res_of k) 0) ks \<rparr>"
    using whole_rows [OF assms(5), of C] by (simp add: process_query_result_def C Let_def)
      (simp add: whole_result_def ok_status_def)
  moreover from read_rows_all [OF i assms(2-4) C_def assms(5) ok assms(7)]
  obtain rd where "read_rows (Suc (length ks)) d n res_of s (reader_init t, ks @ [e]) = Some (map (\<lambda>k. row_init C (res_of k) 0) ks, None, rd, [])"
    "reader_next d n res_of s (rd, []) = (Inl reader_closed, rd, [])" by (auto simp: reader_next_def)
  moreover from reader_events_all [OF i C_def assms(5) ok assms(7), of msg]
  obtain rd' where "reader_events res_of msg (map CbResult (ks @ [e]) @ [CbNull]) (reader_init t)
    = (map (\<lambda>k. RowCall (Some (row_init C (res_of k) 0))) ks @ [RowCall None], rd')" by auto
  ultimately show ?thesis by (intro exI [of _ "\<lparr> tb_cols = C, tb_rows = map (\<lambda>k. row_init C (res_of k) 0) ks \<rparr>"]) auto
qed

text \<open>
  When a query fails after some rows, the reader delivers these rows and then throws the
  error once; it stays open, and the next call takes the end of the results for the end of the rows.
\<close>

theorem reader_failure:
  assumes "t_cmd t = Cmd_query" "has_conn d s" "tn_send_ok n" "tn_single_row_ok n"
    and "\<forall>k \<in> set ks. single_row cols (res_of k)" "\<not> ok_status (rs_status (res_of e))"
  shows "\<exists>rows rd. read_rows (Suc (length ks)) d n res_of s (reader_init t, ks @ [e]) = Some (rows, Some (PqException (tn_message n)), rd, [])
    \<and> length rows = length ks \<and> \<not> rd_closed rd \<and> (\<exists>rd'. reader_next d n res_of s (rd, []) = (Inr None, rd', []) \<and> rd_closed rd')"
proof -
  define C where "C = result_cols \<lparr> rs_status = 0, rs_cols = cols, rs_rows = [] \<rparr>"
  have "\<exists>rows rd'. read_rows (Suc (length ks)) d n res_of s (rd, ks @ [e]) = Some (rows, Some (PqException (tn_message n)), rd', [])
    \<and> length rows = length ks \<and> reading C rd'" if "reading C rd" for rd
    using that assms(5)
  proof (induction ks arbitrary: rd)
    case Nil
    obtain t' where t': "reader_run_now d (n \<lparr> tn_results := [e] \<rparr>) s (rd_task rd) = (Inr (Some e), t')" "t_cmd t' = Cmd_sent"
      using reader_run_now_sent(1) [OF Nil(1) assms(2-4)] by blast
    from Nil(1) t' assms(6) show ?case
      by (cases "rd_table rd") (auto simp: reader_next_def reading_def take_row_def init_table_def)
  next
    case (Cons k ks)
    have k: "single_row cols (res_of k)" using Cons.prems by simp
    then have "result_cols (res_of k) = C" unfolding C_def by (intro result_cols_cong) (simp add: single_row_def)
    moreover have "rs_rows (res_of k) \<noteq> []" "ok_status (rs_status (res_of k))" using k by (auto simp: single_row_def ok_status_def)
    ultimately obtain rd' where "reader_next d n res_of s (rd, k # ks @ [e]) = (Inr (Some (row_init C (res_of k) 0)), rd', ks @ [e])" "reading C rd'"
      using next_row [OF Cons.prems(1) assms(2-4), of res_of k "ks @ [e]"] by auto
    with Cons.IH Cons.prems(2) show ?case by fastforce
  qed
  moreover have "reading C (reader_init t)" using assms(1) by (simp add: reading_def reader_init_def)
  ultimately obtain rows rd where r: "read_rows (Suc (length ks)) d n res_of s (reader_init t, ks @ [e]) = Some (rows, Some (PqException (tn_message n)), rd, [])"
    "length rows = length ks" "reading C rd" by blast
  obtain t' where "reader_run_now d (n \<lparr> tn_results := [] \<rparr>) s (rd_task rd) = (Inr None, t')"
    using reader_run_now_sent(2) [OF r(3) assms(2-4)] by blast
  then have "\<exists>rd'. reader_next d n res_of s (rd, []) = (Inr None, rd', []) \<and> rd_closed rd'" "\<not> rd_closed rd"
    using r(3) by (auto simp: reader_next_def reading_def)
  with r show ?thesis by blast
qed

section \<open>Witnesses\<close>

definition two_cols :: "(int \<times> string \<times> int) list" where
  "two_cols = [(23, ''id'', 1), (25, ''Name'', 1)]"

definition sample_results :: "nat \<Rightarrow> pgresult" where
  "sample_results k =
    (if k = 0 then \<lparr> rs_status = 9, rs_cols = two_cols, rs_rows = [[Some [0, 0, 0, 7], None]] \<rparr>
     else if k = 1 then \<lparr> rs_status = 9, rs_cols = two_cols, rs_rows = [[Some [0, 0, 0, 8], Some [97]]] \<rparr>
     else if k = 2 then \<lparr> rs_status = 2, rs_cols = two_cols, rs_rows = [] \<rparr>
     else \<lparr> rs_status = 7, rs_cols = [], rs_rows = [] \<rparr>)"

lemma sample_rows: "\<forall>k \<in> set [0, 1]. single_row (rs_cols (sample_results 2)) (sample_results k)"
  by (simp add: single_row_def sample_results_def PGRES_SINGLE_TUPLE_def)

lemma held_conn: "has_conn 0 held_system"
  by code_simp

theorem reader_equals_query_witness:
  "\<exists>tb rd rd'. process_query_result 0 (whole_result two_cols sample_results [0, 1]) [] held_system = Inr tb
    \<and> read_rows 3 0 sent_turn sample_results held_system (reader_init query_task, [0, 1, 2]) = Some (tb_rows tb, None, rd, [])
    \<and> reader_next 0 sent_turn sample_results held_system (rd, []) = (Inl reader_closed, rd, [])
    \<and> reader_events sample_results [] [CbResult 0, CbResult 1, CbResult 2, CbNull] (reader_init query_task)
      = (map (\<lambda>row. RowCall (Some row)) (tb_rows tb) @ [RowCall None], rd')"
proof -
  have q: "t_cmd query_task = Cmd_query" "tn_send_ok sent_turn" "tn_single_row_ok sent_turn"
    "rs_status (sample_results 2) = PGRES_TUPLES_OK" "rs_rows (sample_results 2) = []" "rs_cols (sample_results 2) = two_cols"
    by (simp_all add: query_task_def start_query_def sent_turn_def sample_results_def PGRES_TUPLES_OK_def)
  show ?thesis using reader_equals_query [OF q(1) held_conn q(2,3) sample_rows q(4,5), of "[]"] by (simp add: q(6) numeral_3_eq_3)
qed

theorem reader_failure_witness:
  "\<exists>rows rd. read_rows 3 0 sent_turn sample_results held_system (reader_init query_task, [0, 1, 3]) = Some (rows, Some (PqException (tn_message sent_turn)), rd, [])
    \<and> length rows = 2 \<and> \<not> rd_closed rd"
proof -
  have q: "t_cmd query_task = Cmd_query" "tn_send_ok sent_turn" "tn_single_row_ok sent_turn" "\<not> ok_status (rs_status (sample_results 3))"
    by (simp_all add: query_task_def start_query_def sent_turn_def sample_results_def ok_status_def status_defs)
  show ?thesis using reader_failure [OF q(1) held_conn q(2,3) sample_rows q(4)] by (auto simp: numeral_3_eq_3)
qed

theorem table_fields_witness:
  "\<exists>tb. process_query_result 0 (sample_results 1) [] held_system = Inr tb \<and> length (tb_rows tb) = 1
    \<and> (\<exists>v. table_value tb 0 0 = Inr v \<and> dv_value v = Some [0, 0, 0, 8])
    \<and> (\<exists>e. table_value_named (\<lambda>x. if x = ''Name'' then ''name'' else x) tb 0 ''Name'' = Inl (PqException e))"
proof -
  define lc where "lc = (\<lambda>x. if x = ''Name'' then ''name'' else x)"
  have l: "\<And>x. lc (lc x) = lc x" by (simp add: lc_def)
  have "db_conn (sys_pool held_system) 0 \<noteq> None" by code_simp
  moreover have "ok_status (rs_status (sample_results 1))" by (simp add: sample_results_def ok_status_def status_defs)
  ultimately obtain tb where tb: "process_query_result 0 (sample_results 1) [] held_system = Inr tb" "tb_cols tb = result_cols (sample_results 1)"
    by (simp add: process_query_result_def Let_def)
  have r: "rs_rows (sample_results (Suc 0)) = [[Some [0, 0, 0, 8], Some [97]]]" "rs_cols (sample_results (Suc 0)) = two_cols"
    by (simp_all add: sample_results_def)
  have f: "first_col (tb_cols tb) (lc ''Name'') = None" unfolding tb(2) lc_def by code_simp
  show ?thesis
    using table_fields [OF tb(1) _ _ l, of 0 0 "''Name''"] tb(1) unfolding f lc_def [symmetric]
    by (auto simp: r two_cols_def pq_field_def)
qed

end
