(* ===== verification/Convert.thy ===== *)
theory Convert
  imports Times Geometry Range Cash
begin

text \<open>
  Reading a field of a result as a value of the program: the specialisations of
  \<open>val_from_pgparam\<close> in \<open>data_parameters.cpp\<close>, which choose by the type of the column, and the
  binary form of floats, byte strings, uuids and json.

  A field is what stands behind its pointer, None for a null pointer, which the readers of
  times look at and the others follow. Floats are bit patterns. The conversions between
  numbers and text, the json library, the clock and the library of dates are fields of the argument
  \<open>cl\<close>; a conversion of a float to an integer that does not fit is undefined, so it has a result.
  Its fields \<open>cv_junk_...\<close> stand for members that a constructor leaves uninitialised.
\<close>

record 'j conv_lib =
  cv_num :: num_lib
  cv_geo :: geo_lib
  cv_cal :: cal_lib
  cv_show :: "int \<Rightarrow> string"
  cv_show_f4 :: "int \<Rightarrow> string"
  cv_str_f4 :: "string \<Rightarrow> int"
  cv_f4_int :: "nat \<Rightarrow> int \<Rightarrow> int result"
  cv_f8_int :: "nat \<Rightarrow> int \<Rightarrow> int result"
  cv_int_f4 :: "int \<Rightarrow> int"
  cv_int_f8 :: "int \<Rightarrow> int"
  cv_f4_f8 :: "int \<Rightarrow> int"
  cv_f8_f4 :: "int \<Rightarrow> int"
  cv_now :: int
  cv_zone :: string
  cv_hms :: "int \<Rightarrow> int \<times> int \<times> int \<times> int"
  cv_fmt_date :: "string \<Rightarrow> ymd \<Rightarrow> string"
  cv_fmt :: "string \<Rightarrow> int \<Rightarrow> string"
  cv_fmt_zone :: "string \<Rightarrow> string \<Rightarrow> int \<Rightarrow> string"
  cv_prs :: "string \<Rightarrow> string \<Rightarrow> int option"
  cv_frac :: int
  cv_through :: "point \<Rightarrow> point \<Rightarrow> line"
  cv_json_parse :: "string \<Rightarrow> 'j result"
  cv_json_bool :: "bool \<Rightarrow> 'j"
  cv_json_text :: "string \<Rightarrow> 'j"
  cv_json_int :: "int \<Rightarrow> 'j"
  cv_json_f4 :: "int \<Rightarrow> 'j"
  cv_json_f8 :: "int \<Rightarrow> 'j"
  cv_json_dump :: "'j \<Rightarrow> string"
  cv_hex :: "int list \<Rightarrow> string"
  cv_junk_closed :: bool
  cv_junk_radius :: int
  cv_junk_range :: "int range"
  cv_junk_numrange :: "numeric range"
  cv_junk_tsrange :: "timestamp range"
  cv_junk_tstzrange :: "timestamp_tz range"
  cv_junk_daterange :: "date range"

section \<open>Types of columns\<close>

abbreviation BOOLOID :: int where "BOOLOID \<equiv> 16"
abbreviation BYTEAOID :: int where "BYTEAOID \<equiv> 17"
abbreviation INT8OID :: int where "INT8OID \<equiv> 20"
abbreviation INT2OID :: int where "INT2OID \<equiv> 21"
abbreviation INT4OID :: int where "INT4OID \<equiv> 23"
abbreviation TEXTOID :: int where "TEXTOID \<equiv> 25"
abbreviation OIDOID :: int where "OIDOID \<equiv> 26"
abbreviation JSONOID :: int where "JSONOID \<equiv> 114"
abbreviation POINTOID :: int where "POINTOID \<equiv> 600"
abbreviation LSEGOID :: int where "LSEGOID \<equiv> 601"
abbreviation PATHOID :: int where "PATHOID \<equiv> 602"
abbreviation BOXOID :: int where "BOXOID \<equiv> 603"
abbreviation POLYGONOID :: int where "POLYGONOID \<equiv> 604"
abbreviation LINEOID :: int where "LINEOID \<equiv> 628"
abbreviation CIDROID :: int where "CIDROID \<equiv> 650"
abbreviation FLOAT4OID :: int where "FLOAT4OID \<equiv> 700"
abbreviation FLOAT8OID :: int where "FLOAT8OID \<equiv> 701"
abbreviation CIRCLEOID :: int where "CIRCLEOID \<equiv> 718"
abbreviation MACADDR8OID :: int where "MACADDR8OID \<equiv> 774"
abbreviation CASHOID :: int where "CASHOID \<equiv> 790"
abbreviation MACADDROID :: int where "MACADDROID \<equiv> 829"
abbreviation INETOID :: int where "INETOID \<equiv> 869"
abbreviation BPCHAROID :: int where "BPCHAROID \<equiv> 1042"
abbreviation VARCHAROID :: int where "VARCHAROID \<equiv> 1043"
abbreviation DATEOID :: int where "DATEOID \<equiv> 1082"
abbreviation TIMEOID :: int where "TIMEOID \<equiv> 1083"
abbreviation TIMESTAMPOID :: int where "TIMESTAMPOID \<equiv> 1114"
abbreviation TIMESTAMPTZOID :: int where "TIMESTAMPTZOID \<equiv> 1184"
abbreviation INTERVALOID :: int where "INTERVALOID \<equiv> 1186"
abbreviation TIMETZOID :: int where "TIMETZOID \<equiv> 1266"
abbreviation NUMERICOID :: int where "NUMERICOID \<equiv> 1700"
abbreviation UUIDOID :: int where "UUIDOID \<equiv> 2950"
abbreviation JSONBOID :: int where "JSONBOID \<equiv> 3802"
abbreviation INT4RANGEOID :: int where "INT4RANGEOID \<equiv> 3904"
abbreviation NUMRANGEOID :: int where "NUMRANGEOID \<equiv> 3906"
abbreviation TSRANGEOID :: int where "TSRANGEOID \<equiv> 3908"
abbreviation TSTZRANGEOID :: int where "TSTZRANGEOID \<equiv> 3910"
abbreviation DATERANGEOID :: int where "DATERANGEOID \<equiv> 3912"
abbreviation INT8RANGEOID :: int where "INT8RANGEOID \<equiv> 3926"

definition unsupported :: pq_error where
  "unsupported = PqException ''Unsupported oid convertion.''"

definition bad_format :: pq_error where
  "bad_format = PqException ''Unsupported format!''"

definition rmap :: "('a \<Rightarrow> 'b) \<Rightarrow> 'a result \<Rightarrow> 'b result" where
  "rmap f r = bind_result r (\<lambda>x. Inr (f x))"

lemma rmap_simps [simp]: "rmap f (Inr x) = Inr (f x)" "rmap f (Inl e) = Inl e"
  by (simp_all add: rmap_def)

text \<open>What a pointer gives to a reader that does not look whether it is null.\<close>

definition field_bytes :: "int list option \<Rightarrow> int list" where
  "field_bytes val = (case val of None \<Rightarrow> [] | Some bs \<Rightarrow> bs)"

section \<open>Floats, byte strings, uuids and json\<close>

definition new_float :: "bool \<Rightarrow> int \<Rightarrow> param" where "new_float le v = mk_param FLOAT4OID (put4 le v) 1"

definition pgval_to_float :: "'j conv_lib \<Rightarrow> bool \<Rightarrow> int list \<Rightarrow> int \<Rightarrow> int \<Rightarrow> int result" where
  "pgval_to_float cl le val len fmt =
    (if len = - 1 then Inr 0 else if fmt = 0 then Inr (cv_str_f4 cl (text_of val len)) else get4 le val)"

text \<open>The conversions of floats to \<open>bool\<close>: everything but the two zeros is true.\<close>

definition f4_bool :: "int \<Rightarrow> bool" where "f4_bool v \<longleftrightarrow> v mod 2 ^ 31 \<noteq> 0"
definition f8_bool :: "int \<Rightarrow> bool" where "f8_bool v \<longleftrightarrow> v mod 2 ^ 63 \<noteq> 0"

text \<open>A byte string and a uuid are sent as text, with the zero byte of a C string.\<close>

definition new_bytea :: "'j conv_lib \<Rightarrow> int list \<Rightarrow> param" where
  "new_bytea cl bs = mk_param BYTEAOID (bytes_of (CHR 0x5C # CHR ''x'' # cv_hex cl (map (\<lambda>b. b mod 256) bs)) @ [0]) 0"

definition pgval_to_bytea :: "int list \<Rightarrow> int \<Rightarrow> int \<Rightarrow> int list result" where
  "pgval_to_bytea val len fmt =
    (if len = - 1 then Inr []
     else if fmt = 0 then Inl (PqException ''text result format not supported for bytea!'')
     else if int (length val) < len then Inl overrun
     else Inr (map (wrap_s 8) (take (nat len) val)))"

definition uuid_to_string :: "(int list \<Rightarrow> string) \<Rightarrow> int list \<Rightarrow> string" where
  "uuid_to_string hex u =
    hex (take 4 u) @ ''-'' @ hex (take 2 (drop 4 u)) @ ''-'' @ hex (take 2 (drop 6 u)) @ ''-'' @
    hex (take 2 (drop 8 u)) @ ''-'' @ hex (take 6 (drop 10 u))"

definition new_uuid :: "'j conv_lib \<Rightarrow> int list \<Rightarrow> param" where
  "new_uuid cl u = mk_param UUIDOID (bytes_of (uuid_to_string (cv_hex cl) u) @ [0]) 0"

definition uuid_init :: "int list" where "uuid_init = replicate 16 0"

definition pgval_to_uuid :: "int list \<Rightarrow> int \<Rightarrow> int \<Rightarrow> int list result" where
  "pgval_to_uuid val len fmt =
    (if len = - 1 then Inr uuid_init
     else if fmt = 0 then Inl (PqException ''text result format not supported for uuid!'')
     else if len \<noteq> 16 then Inl (PqException ''len is not valid for uuid type!'')
     else if length val < 16 then Inl overrun
     else Inr (take 16 val))"

fun uuid_less :: "int list \<Rightarrow> int list \<Rightarrow> bool" where
  "uuid_less (a # as) (b # bs) = (if a > b then False else if a < b then True else uuid_less as bs)"
| "uuid_less _ _ = False"

definition uuid_greater :: "int list \<Rightarrow> int list \<Rightarrow> bool" where
  "uuid_greater a b = (\<not> uuid_less a b)"

text \<open>The first byte of the binary form is the version.\<close>

definition new_json :: "'j conv_lib \<Rightarrow> 'j \<Rightarrow> param" where
  "new_json cl j = mk_param JSONBOID (1 # bytes_of (cv_json_dump cl j)) 1"

definition jsonb_text :: "string \<Rightarrow> string" where
  "jsonb_text s = (if s \<noteq> [] \<and> hd s = CHR 0x01 then tl s else s)"

definition money_read :: "'j conv_lib \<Rightarrow> bool \<Rightarrow> int list \<Rightarrow> int \<Rightarrow> int \<Rightarrow> money result" where
  "money_read cl le val len fmt =
    rmap (\<lambda>v. \<lparr> m_val = v, m_frac = cv_frac cl \<rparr>) (pgval_to_money (cv_num cl) le val len fmt)"

section \<open>Text of ranges\<close>

definition ts_text :: "'j conv_lib \<Rightarrow> timestamp \<Rightarrow> string" where "ts_text cl = timestamp_iso_string (cv_fmt cl)"
definition tstz_text :: "'j conv_lib \<Rightarrow> timestamp_tz \<Rightarrow> string" where "tstz_text cl = timestamp_tz_iso_string (cv_fmt_zone cl)"
definition date_text :: "'j conv_lib \<Rightarrow> date \<Rightarrow> string" where "date_text cl = date_iso_string (cv_fmt_date cl)"

section \<open>Reading a field\<close>

definition val_to_text :: "'j conv_lib \<Rightarrow> bool \<Rightarrow> int \<Rightarrow> int list option \<Rightarrow> int \<Rightarrow> int \<Rightarrow> string result" where
  "val_to_text cl le oid val len fmt =
    (let bs = field_bytes val; nl = cv_num cl; gl = cv_geo cl; cal = cv_cal cl; t = cv_now cl in
     if fmt = 0 then Inr (text_of bs len)
     else if oid = BOOLOID then rmap (\<lambda>b. if b then ''true'' else ''false'') (pgval_to_bool nl bs len fmt)
     else if oid = JSONBOID then Inr (jsonb_text (pgval_to_string bs len fmt))
     else if oid = JSONOID \<or> oid = VARCHAROID \<or> oid = BPCHAROID \<or> oid = TEXTOID then Inr (pgval_to_string bs len fmt)
     else if oid = INT2OID then rmap (cv_show cl) (pgval_to_int16 nl le bs len fmt)
     else if oid = INT4OID then rmap (cv_show cl) (pgval_to_int32 nl le bs len fmt)
     else if oid = INT8OID then rmap (cv_show cl) (pgval_to_int64 nl le bs len fmt)
     else if oid = FLOAT4OID then rmap (cv_show_f4 cl) (pgval_to_float cl le bs len fmt)
     else if oid = FLOAT8OID then rmap (double_to_str gl) (pgval_to_double gl le bs len fmt)
     else if oid = NUMERICOID then rmap get_str_from_var (pgval_to_numeric le bs len fmt)
     else if oid = TIMEOID then rmap (time_iso_string (cv_fmt cl)) (pgval_to_time le t val len fmt)
     else if oid = TIMETZOID then rmap (time_tz_iso_string (cv_fmt_zone cl)) (pgval_to_time_tz le t val len fmt)
     else if oid = TIMESTAMPOID then rmap (ts_text cl) (pgval_to_timestamp cal le t val len fmt)
     else if oid = TIMESTAMPTZOID then rmap (tstz_text cl) (pgval_to_timestamp_tz cal le (cv_zone cl) t val len fmt)
     else if oid = DATEOID then rmap (date_text cl) (pgval_to_date cal le t val len fmt)
     else if oid = INTERVALOID then rmap (interval_iso_string (cv_hms cl)) (pgval_to_interval le val len fmt)
     else if oid = CIDROID then bind_result (pgval_to_cidr bs len fmt) cidr_to_string
     else if oid = INETOID then bind_result (pgval_to_inet bs len fmt) inet_to_string
     else if oid = MACADDROID then rmap macaddr_to_string (pgval_to_macaddr bs len fmt)
     else if oid = MACADDR8OID then rmap macaddr8_to_string (pgval_to_macaddr8 bs len fmt)
     else if oid = POINTOID then rmap (point_to_string gl) (pgval_to_point gl le bs len fmt)
     else if oid = LINEOID then rmap (line_to_string gl) (pgval_to_line (cv_through cl) gl le bs len fmt)
     else if oid = LSEGOID then rmap (lseg_to_string gl) (pgval_to_lseg gl le bs len fmt)
     else if oid = BOXOID then rmap (box_to_string gl) (pgval_to_box gl le bs len fmt)
     else if oid = PATHOID then rmap (path_to_string gl) (pgval_to_path (cv_junk_closed cl) nl gl le bs len fmt)
     else if oid = POLYGONOID then rmap (polygon_to_string gl) (pgval_to_polygon nl gl le bs len fmt)
     else if oid = CIRCLEOID then rmap (circle_to_string gl) (pgval_to_circle (cv_junk_radius cl) gl le bs len fmt)
     else if oid = INT4RANGEOID then rmap (range_to_string (cv_show cl)) (pgval_to_int4range nl le bs fmt)
     else if oid = INT8RANGEOID then rmap (range_to_string (cv_show cl)) (pgval_to_int8range nl le bs fmt)
     else if oid = NUMRANGEOID then rmap (range_to_string get_str_from_var) (pgval_to_numrange nl le bs fmt)
     else if oid = TSRANGEOID then rmap (range_to_string (ts_text cl)) (pgval_to_tsrange nl cal le t bs fmt)
     else if oid = TSTZRANGEOID then rmap (range_to_string (tstz_text cl)) (pgval_to_tstzrange nl cal le (cv_zone cl) t bs fmt)
     else if oid = DATERANGEOID then rmap (range_to_string (date_text cl)) (pgval_to_daterange nl cal le t bs fmt)
     else Inl unsupported)"

definition val_to_bool :: "'j conv_lib \<Rightarrow> bool \<Rightarrow> int \<Rightarrow> int list option \<Rightarrow> int \<Rightarrow> int \<Rightarrow> bool result" where
  "val_to_bool cl le oid val len fmt =
    (let bs = field_bytes val; nl = cv_num cl in
     if fmt = 0 then Inr (str_to_num nl 32 (text_of bs len) \<noteq> 0)
     else if oid = BOOLOID then pgval_to_bool nl bs len fmt
     else if oid = TEXTOID then (let s = pgval_to_string bs len fmt in Inr (\<not> (s = ''false'' \<or> s = ''0'')))
     else if oid = INT2OID then rmap (\<lambda>v. v \<noteq> 0) (pgval_to_int16 nl le bs len fmt)
     else if oid = INT4OID then rmap (\<lambda>v. v \<noteq> 0) (pgval_to_int32 nl le bs len fmt)
     else if oid = INT8OID then rmap (\<lambda>v. v \<noteq> 0) (pgval_to_int64 nl le bs len fmt)
     else if oid = FLOAT4OID then rmap f4_bool (pgval_to_float cl le bs len fmt)
     else if oid = FLOAT8OID then rmap f8_bool (pgval_to_double (cv_geo cl) le bs len fmt)
     else if oid = NUMERICOID then rmap (\<lambda>s. s \<noteq> ''0'') (val_to_text cl le oid val len fmt)
     else Inl unsupported)"

text \<open>The integers of \<open>w\<close> bits: a value of a wider column is cut down, text is read by the library.\<close>

definition val_to_int16 :: "'j conv_lib \<Rightarrow> bool \<Rightarrow> int \<Rightarrow> int list option \<Rightarrow> int \<Rightarrow> int \<Rightarrow> int result" where
  "val_to_int16 cl le oid val len fmt =
    (let bs = field_bytes val; nl = cv_num cl in
     if fmt = 0 then Inr (str_to_num nl 16 (text_of bs len))
     else if oid = BOOLOID then rmap (\<lambda>b. if b then 1 else 0) (pgval_to_bool nl bs len fmt)
     else if oid = TEXTOID then Inr (str_to_num nl 16 (pgval_to_string bs len fmt))
     else if oid = INT2OID then pgval_to_int16 nl le bs len fmt
     else if oid = INT4OID then rmap i16 (pgval_to_int32 nl le bs len fmt)
     else if oid = INT8OID then rmap i16 (pgval_to_int64 nl le bs len fmt)
     else if oid = FLOAT4OID then bind_result (pgval_to_float cl le bs len fmt) (cv_f4_int cl 16)
     else if oid = FLOAT8OID then bind_result (pgval_to_double (cv_geo cl) le bs len fmt) (cv_f8_int cl 16)
     else if oid = NUMERICOID then rmap (str_to_num nl 16) (val_to_text cl le oid val len fmt)
     else Inl unsupported)"

text \<open>The milliseconds of a time with zone.\<close>

definition time_tz_ms :: "time_tz \<Rightarrow> int" where
  "time_tz_ms z = todz_us z div 1000"

definition val_to_int32 :: "'j conv_lib \<Rightarrow> bool \<Rightarrow> int \<Rightarrow> int list option \<Rightarrow> int \<Rightarrow> int \<Rightarrow> int result" where
  "val_to_int32 cl le oid val len fmt =
    (let bs = field_bytes val; nl = cv_num cl; cal = cv_cal cl; t = cv_now cl in
     if fmt = 0 then Inr (str_to_num nl 32 (text_of bs len))
     else if oid = BOOLOID then rmap (\<lambda>b. if b then 1 else 0) (pgval_to_bool nl bs len fmt)
     else if oid = TEXTOID then Inr (str_to_num nl 32 (pgval_to_string bs len fmt))
     else if oid = INT2OID then pgval_to_int16 nl le bs len fmt
     else if oid = INT4OID then pgval_to_int32 nl le bs len fmt
     else if oid = INT8OID then rmap i32 (pgval_to_int64 nl le bs len fmt)
     else if oid = FLOAT4OID then bind_result (pgval_to_float cl le bs len fmt) (cv_f4_int cl 32)
     else if oid = FLOAT8OID then bind_result (pgval_to_double (cv_geo cl) le bs len fmt) (cv_f8_int cl 32)
     else if oid = NUMERICOID then rmap (str_to_num nl 32) (val_to_text cl le oid val len fmt)
     else if oid = TIMEOID then rmap (\<lambda>x. i32 (time_pgticks x)) (pgval_to_time le t val len fmt)
     else if oid = TIMETZOID then rmap (\<lambda>x. i32 (time_tz_ms x)) (pgval_to_time_tz le t val len fmt)
     else if oid = TIMESTAMPOID then rmap i32 (bind_result (pgval_to_timestamp cal le t val len fmt) (timestamp_pgticks cal))
     else if oid = TIMESTAMPTZOID then
       rmap i32 (bind_result (pgval_to_timestamp_tz cal le (cv_zone cl) t val len fmt) (timestamp_tz_pgticks cal))
     else if oid = DATEOID then rmap i32 (bind_result (pgval_to_date cal le t val len fmt) (date_pgticks cal))
     else if oid = INTERVALOID then rmap (\<lambda>x. i32 (interval_pgticks x)) (pgval_to_interval le val len fmt)
     else Inl unsupported)"

text \<open>The text of a numeric is read as a number of 16 bits.\<close>

definition val_to_int64 :: "'j conv_lib \<Rightarrow> bool \<Rightarrow> int \<Rightarrow> int list option \<Rightarrow> int \<Rightarrow> int \<Rightarrow> int result" where
  "val_to_int64 cl le oid val len fmt =
    (let bs = field_bytes val; nl = cv_num cl; cal = cv_cal cl; t = cv_now cl in
     if fmt = 0 then Inr (str_to_num nl 64 (text_of bs len))
     else if oid = BOOLOID then rmap (\<lambda>b. if b then 1 else 0) (pgval_to_bool nl bs len fmt)
     else if oid = TEXTOID then Inr (str_to_num nl 64 (pgval_to_string bs len fmt))
     else if oid = INT2OID then pgval_to_int16 nl le bs len fmt
     else if oid = INT4OID then pgval_to_int32 nl le bs len fmt
     else if oid = INT8OID then pgval_to_int64 nl le bs len fmt
     else if oid = FLOAT4OID then bind_result (pgval_to_float cl le bs len fmt) (cv_f4_int cl 64)
     else if oid = FLOAT8OID then bind_result (pgval_to_double (cv_geo cl) le bs len fmt) (cv_f8_int cl 64)
     else if oid = NUMERICOID then rmap (str_to_num nl 16) (val_to_text cl le oid val len fmt)
     else if oid = TIMEOID then rmap time_pgticks (pgval_to_time le t val len fmt)
     else if oid = TIMETZOID then rmap time_tz_ms (pgval_to_time_tz le t val len fmt)
     else if oid = TIMESTAMPOID then bind_result (pgval_to_timestamp cal le t val len fmt) (timestamp_pgticks cal)
     else if oid = TIMESTAMPTZOID then
       bind_result (pgval_to_timestamp_tz cal le (cv_zone cl) t val len fmt) (timestamp_tz_pgticks cal)
     else if oid = DATEOID then bind_result (pgval_to_date cal le t val len fmt) (date_pgticks cal)
     else if oid = INTERVALOID then rmap interval_pgticks (pgval_to_interval le val len fmt)
     else Inl unsupported)"

definition val_to_float :: "'j conv_lib \<Rightarrow> bool \<Rightarrow> int \<Rightarrow> int list option \<Rightarrow> int \<Rightarrow> int \<Rightarrow> int result" where
  "val_to_float cl le oid val len fmt =
    (let bs = field_bytes val; nl = cv_num cl in
     if fmt = 0 then Inr (cv_str_f4 cl (text_of bs len))
     else if oid = BOOLOID then rmap (\<lambda>b. cv_int_f4 cl (if b then 1 else 0)) (pgval_to_bool nl bs len fmt)
     else if oid = TEXTOID then Inr (cv_str_f4 cl (pgval_to_string bs len fmt))
     else if oid = INT2OID then rmap (cv_int_f4 cl) (pgval_to_int16 nl le bs len fmt)
     else if oid = INT4OID then rmap (cv_int_f4 cl) (pgval_to_int32 nl le bs len fmt)
     else if oid = INT8OID then rmap (cv_int_f4 cl) (pgval_to_int64 nl le bs len fmt)
     else if oid = FLOAT4OID then pgval_to_float cl le bs len fmt
     else if oid = FLOAT8OID then rmap (cv_f8_f4 cl) (pgval_to_double (cv_geo cl) le bs len fmt)
     else if oid = NUMERICOID then rmap (cv_str_f4 cl) (val_to_text cl le oid val len fmt)
     else Inl unsupported)"

definition val_to_double :: "'j conv_lib \<Rightarrow> bool \<Rightarrow> int \<Rightarrow> int list option \<Rightarrow> int \<Rightarrow> int \<Rightarrow> int result" where
  "val_to_double cl le oid val len fmt =
    (let bs = field_bytes val; nl = cv_num cl; gl = cv_geo cl in
     if fmt = 0 then Inr (str_to_double gl (text_of bs len))
     else if oid = BOOLOID then rmap (\<lambda>b. cv_int_f8 cl (if b then 1 else 0)) (pgval_to_bool nl bs len fmt)
     else if oid = TEXTOID then Inr (str_to_double gl (pgval_to_string bs len fmt))
     else if oid = INT2OID then rmap (cv_int_f8 cl) (pgval_to_int16 nl le bs len fmt)
     else if oid = INT4OID then rmap (cv_int_f8 cl) (pgval_to_int32 nl le bs len fmt)
     else if oid = INT8OID then rmap (cv_int_f8 cl) (pgval_to_int64 nl le bs len fmt)
     else if oid = FLOAT4OID then rmap (cv_f4_f8 cl) (pgval_to_float cl le bs len fmt)
     else if oid = FLOAT8OID then pgval_to_double gl le bs len fmt
     else if oid = NUMERICOID then rmap (str_to_double gl) (val_to_text cl le oid val len fmt)
     else Inl unsupported)"

definition val_to_json :: "'j conv_lib \<Rightarrow> bool \<Rightarrow> int \<Rightarrow> int list option \<Rightarrow> int \<Rightarrow> int \<Rightarrow> 'j result" where
  "val_to_json cl le oid val len fmt =
    (let bs = field_bytes val; nl = cv_num cl; gl = cv_geo cl in
     if fmt = 0 then cv_json_parse cl (text_of bs len)
     else if oid = BOOLOID then rmap (cv_json_bool cl) (pgval_to_bool nl bs len fmt)
     else if oid = JSONBOID then cv_json_parse cl (jsonb_text (pgval_to_string bs len fmt))
     else if oid = JSONOID then cv_json_parse cl (pgval_to_string bs len fmt)
     else if oid = TEXTOID then Inr (cv_json_text cl (pgval_to_string bs len fmt))
     else if oid = INT2OID then rmap (cv_json_int cl) (pgval_to_int16 nl le bs len fmt)
     else if oid = INT4OID then rmap (cv_json_int cl) (pgval_to_int32 nl le bs len fmt)
     else if oid = INT8OID then rmap (cv_json_int cl) (pgval_to_int64 nl le bs len fmt)
     else if oid = FLOAT4OID then rmap (cv_json_f4 cl) (pgval_to_float cl le bs len fmt)
     else if oid = FLOAT8OID then rmap (cv_json_f8 cl) (pgval_to_double gl le bs len fmt)
     else if oid = CASHOID then
       rmap (cv_json_text cl) (bind_result (money_read cl le bs len fmt) (\<lambda>m. money_to_string (cv_show cl) (m_frac m) m))
     else if oid = NUMERICOID \<or> oid = TIMEOID \<or> oid = TIMETZOID \<or> oid = TIMESTAMPOID \<or> oid = TIMESTAMPTZOID
        \<or> oid = DATEOID \<or> oid = INTERVALOID \<or> oid = CIDROID \<or> oid = INETOID \<or> oid = MACADDROID \<or> oid = MACADDR8OID
        \<or> oid = POINTOID \<or> oid = LINEOID \<or> oid = LSEGOID \<or> oid = BOXOID \<or> oid = PATHOID \<or> oid = POLYGONOID
        \<or> oid = CIRCLEOID \<or> oid = INT4RANGEOID \<or> oid = INT8RANGEOID \<or> oid = NUMRANGEOID \<or> oid = TSRANGEOID
        \<or> oid = TSTZRANGEOID \<or> oid = DATERANGEOID
     then rmap (cv_json_text cl) (val_to_text cl le oid val len fmt)
     else Inl unsupported)"

definition val_to_numeric :: "'j conv_lib \<Rightarrow> bool \<Rightarrow> int \<Rightarrow> int list option \<Rightarrow> int \<Rightarrow> int \<Rightarrow> numeric result" where
  "val_to_numeric cl le oid val len fmt =
    (let bs = field_bytes val in
     if fmt = 0 then pgval_to_numeric le bs len fmt
     else if oid = NUMERICOID then pgval_to_numeric le bs len fmt
     else if oid = CASHOID then
       bind_result (money_read cl le bs len fmt) (\<lambda>m. money_to_numeric (cv_show cl) (m_frac m) m)
     else Inl unsupported)"

definition val_to_money :: "'j conv_lib \<Rightarrow> bool \<Rightarrow> int \<Rightarrow> int list option \<Rightarrow> int \<Rightarrow> int \<Rightarrow> money result" where
  "val_to_money cl le oid val len fmt =
    (let bs = field_bytes val in
     if fmt = 0 then money_read cl le bs len fmt
     else if oid = CASHOID then money_read cl le bs len fmt
     else if oid = NUMERICOID then
       bind_result (pgval_to_numeric le bs len fmt) (money_from_numeric (str_to_num (cv_num cl) 64) (cv_frac cl))
     else Inl unsupported)"

text \<open>The ticks that a column of numbers gives to the times.\<close>

definition val_to_ticks :: "'j conv_lib \<Rightarrow> bool \<Rightarrow> int \<Rightarrow> int list \<Rightarrow> int \<Rightarrow> int \<Rightarrow> int result" where
  "val_to_ticks cl le oid bs len fmt =
    (if oid = INT2OID then pgval_to_int16 (cv_num cl) le bs len fmt
     else if oid = INT4OID then pgval_to_int32 (cv_num cl) le bs len fmt
     else if oid = INT8OID then pgval_to_int64 (cv_num cl) le bs len fmt
     else if oid = FLOAT4OID then bind_result (pgval_to_float cl le bs len fmt) (cv_f4_int cl 64)
     else if oid = FLOAT8OID then bind_result (pgval_to_double (cv_geo cl) le bs len fmt) (cv_f8_int cl 64)
     else Inl unsupported)"

definition val_to_time :: "'j conv_lib \<Rightarrow> bool \<Rightarrow> int \<Rightarrow> int list option \<Rightarrow> int \<Rightarrow> int \<Rightarrow> time result" where
  "val_to_time cl le oid val len fmt =
    (let bs = field_bytes val in
     if fmt = 0 then Inr (time_parse (cv_prs cl) (cv_now cl) (text_of bs len))
     else if oid = TEXTOID then Inr (time_parse (cv_prs cl) (cv_now cl) (pgval_to_string bs len fmt))
     else if oid = TIMEOID then pgval_to_time le (cv_now cl) val len fmt
     else rmap time_of (val_to_ticks cl le oid bs len fmt))"

definition val_to_timestamp :: "'j conv_lib \<Rightarrow> bool \<Rightarrow> int \<Rightarrow> int list option \<Rightarrow> int \<Rightarrow> int \<Rightarrow> timestamp result" where
  "val_to_timestamp cl le oid val len fmt =
    (let bs = field_bytes val in
     if fmt = 0 then Inr (timestamp_parse (cv_prs cl) (cv_now cl) (text_of bs len))
     else if oid = TEXTOID then Inr (timestamp_parse (cv_prs cl) (cv_now cl) (pgval_to_string bs len fmt))
     else if oid = TIMESTAMPOID then pgval_to_timestamp (cv_cal cl) le (cv_now cl) val len fmt
     else if oid = TIMESTAMPTZOID then
       rmap timestamp_from_tz (pgval_to_timestamp_tz (cv_cal cl) le (cv_zone cl) (cv_now cl) val len fmt)
     else rmap (timestamp_of (cv_cal cl)) (val_to_ticks cl le oid bs len fmt))"

definition val_to_timestamp_tz :: "'j conv_lib \<Rightarrow> bool \<Rightarrow> int \<Rightarrow> int list option \<Rightarrow> int \<Rightarrow> int \<Rightarrow> timestamp_tz result" where
  "val_to_timestamp_tz cl le oid val len fmt =
    (let bs = field_bytes val in
     if fmt = 0 then timestamp_tz_parse (cv_prs cl) (cv_zone cl) (cv_now cl) (text_of bs len)
     else if oid = TEXTOID then timestamp_tz_parse (cv_prs cl) (cv_zone cl) (cv_now cl) (pgval_to_string bs len fmt)
     else if oid = TIMESTAMPOID then rmap timestamp_tz_from (pgval_to_timestamp (cv_cal cl) le (cv_now cl) val len fmt)
     else if oid = TIMESTAMPTZOID then pgval_to_timestamp_tz (cv_cal cl) le (cv_zone cl) (cv_now cl) val len fmt
     else rmap (timestamp_tz_of (cv_cal cl)) (val_to_ticks cl le oid bs len fmt))"

text \<open>The constructor of a date takes 32 bits.\<close>

definition val_to_date :: "'j conv_lib \<Rightarrow> bool \<Rightarrow> int \<Rightarrow> int list option \<Rightarrow> int \<Rightarrow> int \<Rightarrow> date result" where
  "val_to_date cl le oid val len fmt =
    (let bs = field_bytes val in
     if fmt = 0 then Inr (date_parse (cv_cal cl) (cv_now cl) (text_of bs len))
     else if oid = TEXTOID then Inr (date_parse (cv_cal cl) (cv_now cl) (pgval_to_string bs len fmt))
     else if oid = DATEOID then pgval_to_date (cv_cal cl) le (cv_now cl) val len fmt
     else rmap (\<lambda>v. date_of (cv_cal cl) (i32 v)) (val_to_ticks cl le oid bs len fmt))"

definition val_to_interval :: "'j conv_lib \<Rightarrow> bool \<Rightarrow> int \<Rightarrow> int list option \<Rightarrow> int \<Rightarrow> int \<Rightarrow> interval result" where
  "val_to_interval cl le oid val len fmt =
    (let bs = field_bytes val in
     if fmt = 0 then Inr (interval_parse (text_of bs len))
     else if oid = TEXTOID then Inr (interval_parse (pgval_to_string bs len fmt))
     else if oid = INTERVALOID then pgval_to_interval le val len fmt
     else rmap (\<lambda>v. interval_of v 0 0) (val_to_ticks cl le oid bs len fmt))"

text \<open>
  The types that are read from their own column only. In the text format the constructor from
  text is used, or the value is refused.
\<close>

definition val_own :: "int \<Rightarrow> 'a result \<Rightarrow> 'a result \<Rightarrow> int \<Rightarrow> int \<Rightarrow> 'a result" where
  "val_own own txt bin oid fmt = (if fmt = 0 then txt else if oid = own then bin else Inl unsupported)"

definition val_to_bytea :: "int \<Rightarrow> int list option \<Rightarrow> int \<Rightarrow> int \<Rightarrow> int list result" where
  "val_to_bytea oid val len fmt = val_own BYTEAOID (Inl bad_format) (pgval_to_bytea (field_bytes val) len fmt) oid fmt"

definition val_to_uuid :: "int \<Rightarrow> int list option \<Rightarrow> int \<Rightarrow> int \<Rightarrow> int list result" where
  "val_to_uuid oid val len fmt = val_own UUIDOID (Inl bad_format) (pgval_to_uuid (field_bytes val) len fmt) oid fmt"

definition val_to_oid :: "'j conv_lib \<Rightarrow> bool \<Rightarrow> int \<Rightarrow> int list option \<Rightarrow> int \<Rightarrow> int \<Rightarrow> int result" where
  "val_to_oid cl le oid val len fmt = val_own OIDOID (Inl bad_format) (pgval_to_oid (cv_num cl) le (field_bytes val) len fmt) oid fmt"

definition val_to_cidr :: "int \<Rightarrow> int list option \<Rightarrow> int \<Rightarrow> int \<Rightarrow> netaddr result" where
  "val_to_cidr oid val len fmt =
    val_own CIDROID (cidr_of_string (c_str (text_of (field_bytes val) len))) (pgval_to_cidr (field_bytes val) len fmt) oid fmt"

definition val_to_inet :: "int \<Rightarrow> int list option \<Rightarrow> int \<Rightarrow> int \<Rightarrow> netaddr result" where
  "val_to_inet oid val len fmt =
    val_own INETOID (inet_of_string (c_str (text_of (field_bytes val) len))) (pgval_to_inet (field_bytes val) len fmt) oid fmt"

definition val_to_macaddr :: "int \<Rightarrow> int list option \<Rightarrow> int \<Rightarrow> int \<Rightarrow> int list result" where
  "val_to_macaddr oid val len fmt =
    val_own MACADDROID (macaddr_of_string (c_str (text_of (field_bytes val) len))) (pgval_to_macaddr (field_bytes val) len fmt) oid fmt"

definition val_to_macaddr8 :: "int \<Rightarrow> int list option \<Rightarrow> int \<Rightarrow> int \<Rightarrow> int list result" where
  "val_to_macaddr8 oid val len fmt =
    val_own MACADDR8OID (macaddr8_of_string (c_str (text_of (field_bytes val) len))) (pgval_to_macaddr8 (field_bytes val) len fmt) oid fmt"

definition val_to_point :: "'j conv_lib \<Rightarrow> bool \<Rightarrow> int \<Rightarrow> int list option \<Rightarrow> int \<Rightarrow> int \<Rightarrow> point result" where
  "val_to_point cl le oid val len fmt =
    val_own POINTOID (point_of_string (cv_geo cl) (c_str (text_of (field_bytes val) len)))
      (pgval_to_point (cv_geo cl) le (field_bytes val) len fmt) oid fmt"

definition val_to_line :: "'j conv_lib \<Rightarrow> bool \<Rightarrow> int \<Rightarrow> int list option \<Rightarrow> int \<Rightarrow> int \<Rightarrow> line result" where
  "val_to_line cl le oid val len fmt =
    val_own LINEOID (line_of_string (cv_through cl) (cv_geo cl) (c_str (text_of (field_bytes val) len)))
      (pgval_to_line (cv_through cl) (cv_geo cl) le (field_bytes val) len fmt) oid fmt"

definition val_to_lseg :: "'j conv_lib \<Rightarrow> bool \<Rightarrow> int \<Rightarrow> int list option \<Rightarrow> int \<Rightarrow> int \<Rightarrow> lseg result" where
  "val_to_lseg cl le oid val len fmt =
    val_own LSEGOID (lseg_of_string (cv_geo cl) (c_str (text_of (field_bytes val) len)))
      (pgval_to_lseg (cv_geo cl) le (field_bytes val) len fmt) oid fmt"

definition val_to_box :: "'j conv_lib \<Rightarrow> bool \<Rightarrow> int \<Rightarrow> int list option \<Rightarrow> int \<Rightarrow> int \<Rightarrow> box result" where
  "val_to_box cl le oid val len fmt =
    val_own BOXOID (box_of_string (cv_geo cl) (c_str (text_of (field_bytes val) len)))
      (pgval_to_box (cv_geo cl) le (field_bytes val) len fmt) oid fmt"

definition val_to_path :: "'j conv_lib \<Rightarrow> bool \<Rightarrow> int \<Rightarrow> int list option \<Rightarrow> int \<Rightarrow> int \<Rightarrow> path result" where
  "val_to_path cl le oid val len fmt =
    val_own PATHOID (path_of_string (cv_geo cl) (c_str (text_of (field_bytes val) len)))
      (pgval_to_path (cv_junk_closed cl) (cv_num cl) (cv_geo cl) le (field_bytes val) len fmt) oid fmt"

definition val_to_polygon :: "'j conv_lib \<Rightarrow> bool \<Rightarrow> int \<Rightarrow> int list option \<Rightarrow> int \<Rightarrow> int \<Rightarrow> polygon result" where
  "val_to_polygon cl le oid val len fmt =
    val_own POLYGONOID (polygon_of_string (cv_geo cl) (c_str (text_of (field_bytes val) len)))
      (pgval_to_polygon (cv_num cl) (cv_geo cl) le (field_bytes val) len fmt) oid fmt"

definition val_to_circle :: "'j conv_lib \<Rightarrow> bool \<Rightarrow> int \<Rightarrow> int list option \<Rightarrow> int \<Rightarrow> int \<Rightarrow> circle result" where
  "val_to_circle cl le oid val len fmt =
    val_own CIRCLEOID (circle_of_string (cv_geo cl) (c_str (text_of (field_bytes val) len)))
      (pgval_to_circle (cv_junk_radius cl) (cv_geo cl) le (field_bytes val) len fmt) oid fmt"

definition val_to_int4range :: "'j conv_lib \<Rightarrow> bool \<Rightarrow> int \<Rightarrow> int list option \<Rightarrow> int \<Rightarrow> int \<Rightarrow> int range result" where
  "val_to_int4range cl le oid val len fmt =
    val_own INT4RANGEOID
      (int_range_of_string (md_trim (cv_geo cl)) (str_to_num (cv_num cl) 32) (cv_junk_range cl) (c_str (text_of (field_bytes val) len)))
      (pgval_to_int4range (cv_num cl) le (field_bytes val) fmt) oid fmt"

definition val_to_int8range :: "'j conv_lib \<Rightarrow> bool \<Rightarrow> int \<Rightarrow> int list option \<Rightarrow> int \<Rightarrow> int \<Rightarrow> int range result" where
  "val_to_int8range cl le oid val len fmt =
    val_own INT8RANGEOID
      (int_range_of_string (md_trim (cv_geo cl)) (str_to_num (cv_num cl) 64) (cv_junk_range cl) (c_str (text_of (field_bytes val) len)))
      (pgval_to_int8range (cv_num cl) le (field_bytes val) fmt) oid fmt"

definition val_to_numrange :: "'j conv_lib \<Rightarrow> bool \<Rightarrow> int \<Rightarrow> int list option \<Rightarrow> int \<Rightarrow> int \<Rightarrow> numeric range result" where
  "val_to_numrange cl le oid val len fmt =
    val_own NUMRANGEOID
      (num_range_of_string (md_trim (cv_geo cl)) numeric_of_string (cv_junk_numrange cl) (c_str (text_of (field_bytes val) len)))
      (pgval_to_numrange (cv_num cl) le (field_bytes val) fmt) oid fmt"

definition val_to_tsrange :: "'j conv_lib \<Rightarrow> bool \<Rightarrow> int \<Rightarrow> int list option \<Rightarrow> int \<Rightarrow> int \<Rightarrow> timestamp range result" where
  "val_to_tsrange cl le oid val len fmt =
    val_own TSRANGEOID
      (num_range_of_string (md_trim (cv_geo cl)) (timestamp_parse (cv_prs cl) (cv_now cl)) (cv_junk_tsrange cl)
        (c_str (text_of (field_bytes val) len)))
      (pgval_to_tsrange (cv_num cl) (cv_cal cl) le (cv_now cl) (field_bytes val) fmt) oid fmt"

definition val_to_daterange :: "'j conv_lib \<Rightarrow> bool \<Rightarrow> int \<Rightarrow> int list option \<Rightarrow> int \<Rightarrow> int \<Rightarrow> date range result" where
  "val_to_daterange cl le oid val len fmt =
    val_own DATERANGEOID
      (num_range_of_string (md_trim (cv_geo cl)) (date_parse (cv_cal cl) (cv_now cl)) (cv_junk_daterange cl)
        (c_str (text_of (field_bytes val) len)))
      (pgval_to_daterange (cv_num cl) (cv_cal cl) le (cv_now cl) (field_bytes val) fmt) oid fmt"

text \<open>A number is converted to a time first.\<close>

definition val_to_time_tz :: "'j conv_lib \<Rightarrow> bool \<Rightarrow> int \<Rightarrow> int list option \<Rightarrow> int \<Rightarrow> int \<Rightarrow> time_tz result" where
  "val_to_time_tz cl le oid val len fmt =
    (let bs = field_bytes val in
     if fmt = 0 then Inr (time_tz_parse (cv_prs cl) (cv_now cl) (text_of bs len))
     else if oid = TEXTOID then Inr (time_tz_parse (cv_prs cl) (cv_now cl) (pgval_to_string bs len fmt))
     else if oid = TIMETZOID then pgval_to_time_tz le (cv_now cl) val len fmt
     else rmap (\<lambda>v. time_tz_from (time_of v)) (val_to_ticks cl le oid bs len fmt))"

definition tstz_range_of_string ::
  "(string \<Rightarrow> string) \<Rightarrow> (string \<Rightarrow> timestamp_tz result) \<Rightarrow> timestamp_tz range \<Rightarrow> string \<Rightarrow> timestamp_tz range result" where
  "tstz_range_of_string trim conv old str =
    bind_result (range_parse trim (trim str)) (\<lambda>(f, v1, v2).
      if f AND rf_empty \<noteq> 0 then Inr (old \<lparr> r_flags := f \<rparr>)
      else
        bind_result (if v1 \<noteq> [] then rmap (\<lambda>x. old \<lparr> r_lb := x \<rparr>) (conv v1) else Inr old) (\<lambda>r.
        if v2 \<noteq> [] then rmap (\<lambda>x. r \<lparr> r_ub := x \<rparr>) (conv v2) else Inr r))"

definition val_to_tstzrange :: "'j conv_lib \<Rightarrow> bool \<Rightarrow> int \<Rightarrow> int list option \<Rightarrow> int \<Rightarrow> int \<Rightarrow> timestamp_tz range result" where
  "val_to_tstzrange cl le oid val len fmt =
    val_own TSTZRANGEOID
      (tstz_range_of_string (md_trim (cv_geo cl)) (timestamp_tz_parse (cv_prs cl) (cv_zone cl) (cv_now cl)) (cv_junk_tstzrange cl)
        (c_str (text_of (field_bytes val) len)))
      (pgval_to_tstzrange (cv_num cl) (cv_cal cl) le (cv_zone cl) (cv_now cl) (field_bytes val) fmt) oid fmt"

section \<open>Integers\<close>

lemma pgval_ints:
  assumes "in_s 16 a" "in_s 32 b" "in_s 64 c"
  shows "pgval_to_int16 nl le (be_bytes 2 a) 2 1 = Inr a" "pgval_to_int32 nl le (be_bytes 4 b) 4 1 = Inr b"
    "pgval_to_int64 nl le (be_bytes 8 c) 8 1 = Inr c"
  using int2.dec_enc [where lib = nl and le = le and rest = "[]", OF assms(1)] int4.dec_enc [where lib = nl and le = le and rest = "[]", OF assms(2)]
    int8.dec_enc [where lib = nl and le = le and rest = "[]", OF assms(3)]
  by (simp_all add: be_bytes_props)

lemma in_s_mono: "in_s 16 v \<Longrightarrow> in_s 32 v" "in_s 32 v \<Longrightarrow> in_s 64 v" "in_s 16 v \<Longrightarrow> in_s 64 v"
  by (simp_all add: in_s_def)

text \<open>
  A column of 16, 32 or 64 bit integers is read as an integer of any of these widths with its
  value where that fits, and cut down to the lower bits where it does not; read as a \<open>bool\<close> it
  is true unless it is zero.
\<close>

theorem integer_columns:
  assumes "in_s 16 a" "in_s 32 b" "in_s 64 c"
  shows "val_to_int16 cl le INT2OID (Some (be_bytes 2 a)) 2 1 = Inr a
    \<and> val_to_int32 cl le INT2OID (Some (be_bytes 2 a)) 2 1 = Inr a
    \<and> val_to_int64 cl le INT2OID (Some (be_bytes 2 a)) 2 1 = Inr a
    \<and> val_to_int16 cl le INT4OID (Some (be_bytes 4 b)) 4 1 = Inr (i16 b)
    \<and> val_to_int32 cl le INT4OID (Some (be_bytes 4 b)) 4 1 = Inr b
    \<and> val_to_int64 cl le INT4OID (Some (be_bytes 4 b)) 4 1 = Inr b
    \<and> val_to_int16 cl le INT8OID (Some (be_bytes 8 c)) 8 1 = Inr (i16 c)
    \<and> val_to_int32 cl le INT8OID (Some (be_bytes 8 c)) 8 1 = Inr (i32 c)
    \<and> val_to_int64 cl le INT8OID (Some (be_bytes 8 c)) 8 1 = Inr c
    \<and> (in_s 32 c \<longrightarrow> val_to_int32 cl le INT8OID (Some (be_bytes 8 c)) 8 1 = Inr c)
    \<and> (in_s 16 c \<longrightarrow> val_to_int16 cl le INT8OID (Some (be_bytes 8 c)) 8 1 = Inr c)
    \<and> val_to_bool cl le INT8OID (Some (be_bytes 8 c)) 8 1 = Inr (c \<noteq> 0)"
  using pgval_ints [OF assms]
  by (simp add: val_to_int16_def val_to_int32_def val_to_int64_def val_to_bool_def field_bytes_def wrap_s_id)

section \<open>Numerics\<close>

text \<open>What \<open>md::str_to_num\<close> promises for a number of \<open>w\<close> bits.\<close>

definition reads_width :: "num_lib \<Rightarrow> nat \<Rightarrow> bool" where
  "reads_width nl w \<longleftrightarrow> (\<forall>neg ds. digits_ok 10 ds \<and> ds \<noteq> [] \<and> in_s w (if neg then - bval 10 ds else bval 10 ds)
     \<longrightarrow> str_to_num nl w (sign_text neg @ map digit_char ds) = (if neg then - bval 10 ds else bval 10 ds))"

lemma numeric_int_text:
  assumes v: "num_wf v" "dscale v = 0" "numval v = of_int k"
  shows "\<exists>ds. get_str_from_var v = sign_text (k < 0) @ map digit_char ds \<and> digits_ok 10 ds \<and> ds \<noteq> [] \<and> bval 10 ds = \<bar>k\<bar>"
proof -
  have sg: "sign v = NUMERIC_NEG \<longleftrightarrow> k < 0" using num_lead_sign [OF num_wf_lead [OF v(1)]] v(3) by simp
  have "absval v = \<bar>numval v\<bar>" using absval_nonneg [OF num_wf_digits [OF v(1)]] by (simp add: numval_def sgnval_def)
  then have av: "absval v = of_int \<bar>k\<bar>" using v(3) by simp
  note pg = printed_groups [OF num_wf_digits [OF v(1)] refl] and sv = shown_value [OF num_wf_digits [OF v(1)]]
  have fr: "shown_frac v = None" using v(2) by (simp add: shown_frac_def)
  have "bval 10 (whole_digits v) = \<lfloor>of_int \<bar>k\<bar> :: rat\<rfloor>" using sv(3) v(2) by (simp add: fr frac_of_def av)
  then have "bval 10 (whole_digits v) = \<bar>k\<bar>" by (simp only: floor_of_int)
  then show ?thesis using pg by (intro exI [of _ "whole_digits v"]) (simp add: get_str_shape sg fr point_text_def)
qed

lemma numeric_decoded:
  assumes "fits_wire v" "num_wf v"
  shows "pgval_to_numeric le (numeric_bytes le v) (int (length (numeric_bytes le v))) 1 = Inr v"
proof -
  have "sign v = NUMERIC_POS \<or> sign v = NUMERIC_NEG" using assms(2) by (simp add: num_wf_def num_ok_def)
  then have "num_wire_ok v" using assms(1) by (simp add: num_wire_ok_def)
  then show ?thesis using num.dec_enc [where le = le and rest = "[]"] by simp
qed

text \<open>
  C36: a whole number in a column of numerics is read as an integer of 16 or 32 bits where it
  fits, and as a \<open>bool\<close>; but the reader of 64 bits passes its text to the conversion of 16
  bits, and a zero with decimals is read as true.
\<close>

theorem numeric_columns:
  assumes "num_wf v" "fits_wire v" "numval v = of_int k" "dscale v = 0"
    and "reads_width (cv_num cl) 16" "reads_width (cv_num cl) 32"
    and "num_wf z" "fits_wire z" "numval z = 0" "0 < dscale z"
  shows "(in_s 16 k \<longrightarrow> val_to_int16 cl le NUMERICOID (Some (numeric_bytes le v)) (int (length (numeric_bytes le v))) 1 = Inr k)
    \<and> (in_s 32 k \<longrightarrow> val_to_int32 cl le NUMERICOID (Some (numeric_bytes le v)) (int (length (numeric_bytes le v))) 1 = Inr k)
    \<and> val_to_int64 cl le NUMERICOID (Some (numeric_bytes le v)) (int (length (numeric_bytes le v))) 1
      = Inr (str_to_num (cv_num cl) 16 (get_str_from_var v))
    \<and> val_to_bool cl le NUMERICOID (Some (numeric_bytes le v)) (int (length (numeric_bytes le v))) 1 = Inr (k \<noteq> 0)
    \<and> val_to_bool cl le NUMERICOID (Some (numeric_bytes le z)) (int (length (numeric_bytes le z))) 1 = Inr True"
proof -
  have t: "val_to_text cl le NUMERICOID (Some (numeric_bytes le x)) (int (length (numeric_bytes le x))) 1 = Inr (get_str_from_var x)"
    if "num_wf x" "fits_wire x" for x
    using numeric_decoded [OF that(2,1)] by (simp add: val_to_text_def field_bytes_def)
  obtain ds where ds: "get_str_from_var v = sign_text (k < 0) @ map digit_char ds" "digits_ok 10 ds" "ds \<noteq> []" "bval 10 ds = \<bar>k\<bar>"
    using numeric_int_text [OF assms(1,4,3)] by blast
  have c: "str_to_num (cv_num cl) w (get_str_from_var v) = k" if "reads_width (cv_num cl) w" "in_s w k" for w
    using that(1) [unfolded reads_width_def, rule_format, of ds "k < 0"] ds that(2) by (cases "k < 0") simp_all
  have zero: "get_str_from_var v = ''0'' \<longleftrightarrow> k = 0"
  proof
    assume "k = 0"
    then have "absval v = 0" using assms(3) by (auto simp: numval_def sgnval_def split: if_splits)
    then have "digits v = []" using absval_pos [OF num_wf_ok [OF assms(1)] num_wf_nz [OF assms(1)]] by force
    then have "v = \<lparr> weight = 0, sign = 0, dscale = 0, digits = [] \<rparr>" using assms(1,4)
      by (cases v) (simp add: num_wf_def num_norm_def)
    moreover have "get_str_from_var \<lparr> weight = 0, sign = 0, dscale = 0, digits = [] \<rparr> = ''0''" by code_simp
    ultimately show "get_str_from_var v = ''0''" by simp
  next
    assume z: "get_str_from_var v = ''0''"
    obtain d es where "ds = d # es" using ds(3) by (cases ds) auto
    then show "k = 0" using z ds digit_char_props(2) [of d] by (cases "k < 0") (auto simp: sign_text_def to_digit_def)
  qed
  have "get_str_from_var z \<noteq> ''0''"
  proof
    assume a: "get_str_from_var z = ''0''"
    have "shown_frac z \<noteq> None" using assms(10) by (simp add: shown_frac_def)
    then have "CHR ''.'' \<in> set (get_str_from_var z)" by (auto simp: get_str_shape point_text_def)
    then show False by (simp add: a)
  qed
  then show ?thesis using t [OF assms(1,2)] t [OF assms(7,8)] c assms(5,6) zero
    by (simp add: val_to_int16_def val_to_int32_def val_to_int64_def val_to_bool_def)
qed

section \<open>Witnesses\<close>

definition zero_num :: numeric where
  "zero_num = \<lparr> weight = 0, sign = 0, dscale = 0, digits = [] \<rparr>"

definition sample_conv :: "unit conv_lib" where
  "sample_conv = \<lparr> cv_num = \<lparr> str_to_num = (\<lambda>_. read_int), iequals = (\<lambda>a b. a = b) \<rparr>, cv_geo = sample_lib, cv_cal = gregorian,
    cv_show = (\<lambda>_. []), cv_show_f4 = (\<lambda>_. []), cv_str_f4 = (\<lambda>_. 0), cv_f4_int = (\<lambda>_ v. Inr v), cv_f8_int = (\<lambda>_ v. Inr v),
    cv_int_f4 = (\<lambda>v. v), cv_int_f8 = (\<lambda>v. v), cv_f4_f8 = (\<lambda>v. v), cv_f8_f4 = (\<lambda>v. v), cv_now = 0, cv_zone = ''UTC'',
    cv_hms = (\<lambda>_. (0, 0, 0, 0)), cv_fmt_date = (\<lambda>_ _. []), cv_fmt = (\<lambda>_ _. []), cv_fmt_zone = (\<lambda>_ _ _. []), cv_prs = (\<lambda>_ _. None),
    cv_frac = 2, cv_through = (\<lambda>_ _. line_init), cv_json_parse = (\<lambda>_. Inr ()), cv_json_bool = (\<lambda>_. ()), cv_json_text = (\<lambda>_. ()),
    cv_json_int = (\<lambda>_. ()), cv_json_f4 = (\<lambda>_. ()), cv_json_f8 = (\<lambda>_. ()), cv_json_dump = (\<lambda>_. []), cv_hex = (\<lambda>_. []),
    cv_junk_closed = False, cv_junk_radius = 0, cv_junk_range = \<lparr> r_flags = 0, r_lb = 0, r_ub = 0 \<rparr>,
    cv_junk_numrange = \<lparr> r_flags = 0, r_lb = zero_num, r_ub = zero_num \<rparr>,
    cv_junk_tsrange = \<lparr> r_flags = 0, r_lb = timestamp_now 0, r_ub = timestamp_now 0 \<rparr>,
    cv_junk_tstzrange = \<lparr> r_flags = 0, r_lb = timestamp_tz_now ''UTC'' 0, r_ub = timestamp_tz_now ''UTC'' 0 \<rparr>,
    cv_junk_daterange = \<lparr> r_flags = 0, r_lb = \<lparr> dt_d = (1970, 1, 1), dt_null = False \<rparr>, r_ub = \<lparr> dt_d = (1970, 1, 1), dt_null = False \<rparr> \<rparr> \<rparr>"

lemma sample_conv_reads: "reads_width (cv_num sample_conv) w"
  by (simp add: reads_width_def sample_conv_def read_int_text)

theorem integer_columns_witness:
  "val_to_int64 sample_conv True INT2OID (Some (be_bytes 2 (- 5))) 2 1 = Inr (- 5)
    \<and> val_to_int16 sample_conv True INT8OID (Some (be_bytes 8 65543)) 8 1 = Inr (i16 65543)"
  using integer_columns [of "- 5" 70000 65543 sample_conv True] by (simp add: in_s_def)

definition thousand :: numeric where
  "thousand = \<lparr> weight = 0, sign = 0, dscale = 0, digits = [1000] \<rparr>"

definition zero_cents :: numeric where
  "zero_cents = \<lparr> weight = 0, sign = 0, dscale = 2, digits = [] \<rparr>"

lemma sample_nums:
  "num_wf thousand" "fits_wire thousand" "numval thousand = of_int 1000" "dscale thousand = 0"
  "num_wf zero_cents" "fits_wire zero_cents" "numval zero_cents = 0" "0 < dscale zero_cents"
  by (simp_all add: thousand_def zero_cents_def num_wf_def num_ok_def num_norm_def fits_wire_def in_s_def ndigits_def
      numval_def sgnval_def absval_def)

theorem numeric_columns_witness:
  "val_to_int16 sample_conv True NUMERICOID (Some (numeric_bytes True thousand)) (int (length (numeric_bytes True thousand))) 1 = Inr 1000
    \<and> val_to_bool sample_conv True NUMERICOID (Some (numeric_bytes True zero_cents)) (int (length (numeric_bytes True zero_cents))) 1 = Inr True"
  using numeric_columns [OF sample_nums(1-4) sample_conv_reads sample_conv_reads sample_nums(5-8), where le = True] by (simp add: in_s_def)

end
