(* ===== verification/Row_Values.thy ===== *)
theory Row_Values
  imports Results Convert
begin

text \<open>
  Values of a row as values of the program (\<open>data_value_t::as\<close> of \<open>data_value.h\<close>), and
  arrays: \<open>new_parameter_gen\<close> and \<open>pgval_to_array\<close> of \<open>data_parameters.h\<close>,
  \<open>get_array_oid_and_dim\<close> and the instances for every element type in \<open>data_parameters.cpp\<close>.

  The container \<open>md::jagged_vector\<close> is outside the repository; what is used of it are the sizes
  of its dimensions and its values in order.
\<close>

section \<open>Values\<close>

text \<open>\<open>as<T>()\<close> and the methods \<open>as_...\<close>, with the reader of the type as argument.\<close>

definition value_as :: "(int \<Rightarrow> int list option \<Rightarrow> int \<Rightarrow> int \<Rightarrow> 'a result) \<Rightarrow> data_value \<Rightarrow> 'a result" where
  "value_as conv v = conv (col_oid (dv_col v)) (dv_value v) (dv_length v) (col_fmt (dv_col v))"

definition row_as ::
  "(string \<Rightarrow> string) \<Rightarrow> (int \<Rightarrow> int list option \<Rightarrow> int \<Rightarrow> int \<Rightarrow> 'a result) \<Rightarrow> data_row \<Rightarrow> string \<Rightarrow> 'a result" where
  "row_as lcase conv row name = bind_result (row_value_named lcase row name) (value_as conv)"

definition table_as ::
  "(string \<Rightarrow> string) \<Rightarrow> (int \<Rightarrow> int list option \<Rightarrow> int \<Rightarrow> int \<Rightarrow> 'a result) \<Rightarrow> data_table \<Rightarrow> int \<Rightarrow> string \<Rightarrow> 'a result" where
  "table_as lcase conv tb row_idx name = bind_result (table_value_named lcase tb row_idx name) (value_as conv)"

text \<open>
  \<open>_process_query_value_result\<close>: the first field of the first row. The tests for an empty query and for an error that is
  not fatal stand behind the test that throws for them, and are left out. libpq reports the type 0 and the text format for a column that
  the result does not have; here the length of a null is \<open>-1\<close>.
\<close>

definition process_query_value_result ::
  "(int \<Rightarrow> int list option \<Rightarrow> int \<Rightarrow> int \<Rightarrow> 'a result) \<Rightarrow> nat \<Rightarrow> pgresult \<Rightarrow> string \<Rightarrow> system \<Rightarrow> 'a result" where
  "process_query_value_result conv d res msg s =
    (if db_conn (sys_pool s) d = None then Inl (PqException ''connection is dead!'')
     else if \<not> ok_status (rs_status res) then Inl (PqException msg)
     else
       let (oid, name, fmt) = (if rs_cols res = [] then (0, [], 0) else rs_cols res ! 0);
         val = pq_field res 0 0;
         len = (case val of None \<Rightarrow> - 1 | Some bs \<Rightarrow> int (length bs))
       in conv oid val len fmt)"

section \<open>Arrays\<close>

record 'a jagged =
  jv_dims :: "int list"
  jv_vals :: "'a list"

text \<open>The number of dimensions, a flag for nulls that is always zero, the element type, the dimensions with their lower bound.\<close>

definition array_header :: "bool \<Rightarrow> int \<Rightarrow> int list \<Rightarrow> int list" where
  "array_header le ele_oid dims =
    put4 le (int (length dims)) @ put4 le 0 @ put4 le ele_oid @ concat (map (\<lambda>d. put4 le d @ put4 le 1) dims)"

text \<open>Each element with its length in front; \<open>trail\<close> is the number of bytes left out at its end.\<close>

primrec array_elems :: "bool \<Rightarrow> int \<Rightarrow> ('a \<Rightarrow> param result) \<Rightarrow> 'a list \<Rightarrow> int list result" where
  "array_elems le trail new [] = Inr []"
| "array_elems le trail new (v # vs) =
    bind_result (new v) (\<lambda>p.
      let len = pm_length p - trail in
      rmap (\<lambda>bs. put4 le len @ take (nat len) (pm_value p) @ bs) (array_elems le trail new vs))"

definition new_parameter_gen :: "bool \<Rightarrow> ('a \<Rightarrow> param result) \<Rightarrow> int \<Rightarrow> int \<Rightarrow> 'a jagged \<Rightarrow> param result" where
  "new_parameter_gen le new ele_oid arr_oid jv =
    rmap (\<lambda>bs. mk_param arr_oid (array_header le ele_oid (jv_dims jv) @ bs) 1) (array_elems le 0 new (jv_vals jv))"

text \<open>The specialisation for strings leaves out the zero byte of every element.\<close>

definition new_parameter_gen_string :: "bool \<Rightarrow> int \<Rightarrow> int \<Rightarrow> string jagged \<Rightarrow> param result" where
  "new_parameter_gen_string le ele_oid arr_oid jv =
    rmap (\<lambda>bs. mk_param arr_oid (array_header le ele_oid (jv_dims jv) @ bs) 1)
      (array_elems le 1 (\<lambda>s. Inr (new_string s)) (jv_vals jv))"

definition s32 :: "int \<Rightarrow> int result" where
  "s32 v = (if in_s 32 v then Inr v else Inl (UndefinedBehaviour ''signed overflow''))"

primrec read_dims :: "bool \<Rightarrow> nat \<Rightarrow> int list \<Rightarrow> int \<Rightarrow> int \<Rightarrow> (int list \<times> int) result" where
  "read_dims le 0 val off ele_count = Inr ([], ele_count)"
| "read_dims le (Suc n) val off ele_count =
    bind_result (val_at val off) (\<lambda>p.
    bind_result (get4 le p) (\<lambda>dim_val.
    bind_result (s32 (ele_count * dim_val)) (\<lambda>ele_count.
      rmap (\<lambda>(ds, c). (dim_val # ds, c)) (read_dims le n val (off + 8) ele_count))))"

text \<open>The position moves on by the length of the element, which is \<open>-1\<close> for a null.\<close>

primrec read_elems :: "bool \<Rightarrow> (int list \<Rightarrow> int \<Rightarrow> 'a result) \<Rightarrow> nat \<Rightarrow> int list \<Rightarrow> int \<Rightarrow> 'a list result" where
  "read_elems le dec 0 val off = Inr []"
| "read_elems le dec (Suc n) val off =
    bind_result (val_at val off) (\<lambda>p.
    bind_result (get4 le p) (\<lambda>val_len.
    bind_result (val_at val (off + 4)) (\<lambda>q.
    bind_result (dec q val_len) (\<lambda>x.
      rmap (\<lambda>xs. x # xs) (read_elems le dec n val (off + 4 + val_len))))))"

definition pgval_to_array :: "bool \<Rightarrow> (int \<Rightarrow> int list option \<Rightarrow> int \<Rightarrow> int \<Rightarrow> 'a result) \<Rightarrow> int list \<Rightarrow> int \<Rightarrow> 'a jagged result" where
  "pgval_to_array le conv val fmt =
    (if fmt = 0 then Inl (PqException ''text format is not supported'')
     else
       bind_result (get4 le val) (\<lambda>svr_dim_count.
       if svr_dim_count < 0 then Inl (PqException ''vector::reserve'')
       else
         bind_result (val_at val 8) (\<lambda>p.
         bind_result (get4 le p) (\<lambda>ele_oid.
         bind_result (read_dims le (nat svr_dim_count) val 12 (if svr_dim_count > 0 then 1 else 0)) (\<lambda>(dims, ele_count).
         rmap (\<lambda>vs. \<lparr> jv_dims = dims, jv_vals = vs \<rparr>)
           (read_elems le (\<lambda>q l. conv ele_oid (Some q) l 1) (nat ele_count) val (12 + 8 * svr_dim_count)))))))"

definition get_array_oid_and_dim :: "bool \<Rightarrow> int list \<Rightarrow> int \<Rightarrow> (int \<times> int) result" where
  "get_array_oid_and_dim le val fmt =
    (if fmt = 0 then Inl (PqException ''Text format is not supported!'')
     else
       bind_result (get4 le val) (\<lambda>dim.
       bind_result (val_at val 8) (\<lambda>p.
       bind_result (get4 le p) (\<lambda>oid. Inr (oid, dim)))))"

text \<open>The element type and the number of dimensions of a value are read once and kept.\<close>

definition load_array_info :: "bool \<Rightarrow> data_value \<Rightarrow> data_value result" where
  "load_array_info le v =
    (if dv_ele_oid v \<noteq> - 1 \<and> dv_dim v \<noteq> - 1 then Inr v
     else rmap (\<lambda>(oid, dim). v \<lparr> dv_ele_oid := oid, dv_dim := dim \<rparr>)
       (get_array_oid_and_dim le (field_bytes (dv_value v)) (col_fmt (dv_col v))))"

definition get_array_ele_oid :: "bool \<Rightarrow> data_value \<Rightarrow> (int \<times> data_value) result" where
  "get_array_ele_oid le v = rmap (\<lambda>v. (dv_ele_oid v, v)) (load_array_info le v)"

definition get_array_dim :: "bool \<Rightarrow> data_value \<Rightarrow> (int \<times> data_value) result" where
  "get_array_dim le v = rmap (\<lambda>v. (dv_dim v, v)) (load_array_info le v)"

definition value_as_array :: "bool \<Rightarrow> (int \<Rightarrow> int list option \<Rightarrow> int \<Rightarrow> int \<Rightarrow> 'a result) \<Rightarrow> data_value \<Rightarrow> 'a jagged result" where
  "value_as_array le conv v = pgval_to_array le conv (field_bytes (dv_value v)) (col_fmt (dv_col v))"

text \<open>The types of columns that \<open>is_array\<close> lists, in its order.\<close>

definition is_array :: "data_value \<Rightarrow> bool" where
  "is_array v \<longleftrightarrow> col_oid (dv_col v) \<in> set
    [2951, 1263, 2211, 2287, 2277, 2776, 1007, 1009, 1021, 1000, 1005, 1016, 1022, 1231, 1115, 1185, 1183, 1270,
     199, 3807, 1001, 1187, 791, 1002, 1011, 1012, 1014, 1015, 1023, 1024, 1028, 651, 1041, 1040, 775, 1017, 629,
     1018, 1020, 1019, 1027, 719, 3905, 3927, 3907, 3909, 3911, 3913]"

text \<open>The element and array types that the instances of \<open>PQ_ASYNC_NEW_PARAMETER\<close> send.\<close>

definition array_types :: "(int \<times> int) list" where
  "array_types =
    [(25, 1009), (25, 1009), (21, 1005), (23, 1007), (20, 1016), (700, 1021), (701, 1022), (1700, 1231), (790, 791),
     (1083, 1183), (1266, 1270), (1114, 1115), (1184, 1185), (1082, 1182), (1186, 1187), (3802, 3807), (17, 1001),
     (2950, 2951), (26, 1028), (650, 651), (869, 1041), (829, 1040), (774, 775), (600, 1017), (628, 629), (601, 1018),
     (603, 1020), (602, 1019), (604, 1027), (718, 719)]"

text \<open>
  The types that have a null, with the type of the column: \<open>null\<close> and \<open>null_array\<close> make the same
  parameter.
\<close>

definition null_types :: "(string \<times> int) list" where
  "null_types =
    [(''bool'', BOOLOID), (''string'', TEXTOID), (''char*'', TEXTOID), (''string_view'', BOOLOID),
     (''int16_t'', INT2OID), (''int32_t'', INT4OID), (''int64_t'', INT8OID), (''float'', FLOAT4OID),
     (''double'', FLOAT8OID), (''time'', TIMEOID), (''time_tz'', TIMETZOID), (''timestamp'', TIMESTAMPOID),
     (''timestamp_tz'', TIMESTAMPTZOID), (''date'', DATEOID), (''interval'', INTERVALOID), (''numeric'', NUMERICOID),
     (''money'', CASHOID), (''json'', JSONBOID), (''vector<int8_t>'', BYTEAOID), (''uuid'', UUIDOID),
     (''oid'', OIDOID), (''cidr'', CIDROID), (''inet'', INETOID), (''macaddr'', MACADDROID),
     (''macaddr8'', MACADDR8OID), (''point'', POINTOID), (''lseg'', LSEGOID), (''line'', LINEOID),
     (''box'', BOXOID), (''path'', PATHOID), (''polygon'', POLYGONOID), (''circle'', CIRCLEOID),
     (''int4range'', INT4RANGEOID), (''int8range'', INT8RANGEOID), (''numrange'', NUMRANGEOID), (''tsrange'', TSRANGEOID),
     (''tstzrange'', TSTZRANGEOID), (''daterange'', DATERANGEOID)]"

definition null_of :: "string \<Rightarrow> param result" where
  "null_of ty = (case map_of null_types ty of Some oid \<Rightarrow> Inr (new_null_parameter oid) | None \<Rightarrow> Inl (PqException ''Unknown nullable type''))"

definition null_array :: "string \<Rightarrow> param result" where
  "null_array ty = (case map_of null_types ty of Some oid \<Rightarrow> Inr (new_null_parameter oid) | None \<Rightarrow> Inl (PqException ''Unknown nullable array type''))"

section \<open>Arrays survive\<close>

text \<open>The sizes of the dimensions, whose product is the number of values.\<close>

definition jagged_ok :: "'a jagged \<Rightarrow> bool" where
  "jagged_ok jv \<longleftrightarrow> (\<forall>d \<in> set (jv_dims jv). 0 < d) \<and> length (jv_dims jv) < 2 ^ 31 \<and>
    (if jv_dims jv = [] then jv_vals jv = [] else prod_list (jv_dims jv) = int (length (jv_vals jv))) \<and>
    length (jv_vals jv) < 2 ^ 31"

lemma prod_list_pos: "\<forall>d \<in> set ds. (0::int) < d \<Longrightarrow> 0 < prod_list ds"
  by (induction ds) simp_all

lemma val_at_append [simp]: "val_at (pre @ rest) (int (length pre)) = Inr rest"
  by (simp add: val_at_def)

lemma get4_be: "in_s 32 v \<Longrightarrow> get4 le (put4 le v @ rest) = Inr v"
  using wrap_s_id [of 32 v] by (simp add: be_bytes_props)

lemma read_dims_header:
  assumes "\<forall>d \<in> set ds. 0 < d" "0 < c" "c * prod_list ds < 2 ^ 31" "off = int (length pre)"
  shows "read_dims le (length ds) (pre @ concat (map (\<lambda>d. put4 le d @ put4 le 1) ds) @ rest) off c = Inr (ds, c * prod_list ds)"
  using assms
proof (induction ds arbitrary: pre off c)
  case (Cons d ds)
  let ?tl = "concat (map (\<lambda>d. put4 le d @ put4 le 1) ds) @ rest"
  have pos: "0 < d" "0 < prod_list ds" using Cons.prems(1) prod_list_pos [of ds] by simp_all
  have "c * d \<le> c * d * prod_list ds" using mult_left_mono [of 1 "prod_list ds" "c * d"] pos Cons.prems(2) by simp
  moreover have "c * d * prod_list ds < 2 ^ 31" using Cons.prems(3) by (simp add: mult.assoc)
  ultimately have cd: "0 < c * d" "c * d < 2 ^ 31" using pos Cons.prems(2) by (simp, linarith)
  have "d \<le> c * d" using mult_right_mono [of 1 c d] pos Cons.prems(2) by simp
  then have "d < 2 ^ 31" using cd(2) by linarith
  then have d: "get4 le (put4 le d @ put4 le 1 @ ?tl) = Inr d" using pos by (intro get4_be) (simp add: in_s_def)
  have "read_dims le (length ds) ((pre @ put4 le d @ put4 le 1) @ ?tl) (off + 8) (c * d) = Inr (ds, c * d * prod_list ds)"
    using Cons.prems cd by (intro Cons.IH) (simp_all add: be_bytes_props mult.assoc)
  then show ?case using d cd Cons.prems(4) by (simp add: s32_def in_s_def mult.assoc del: put_be)
qed simp

lemma read_elem:
  "off = int (length pre) \<Longrightarrow> read_elems le dec (Suc n) (pre @ be_bytes 4 l @ q) off
    = bind_result (dec q (wrap_s 32 l)) (\<lambda>x. rmap ((#) x) (read_elems le dec n (pre @ be_bytes 4 l @ q) (off + 4 + wrap_s 32 l)))"
  using val_at_append [of "pre @ be_bytes 4 l" q] by (simp add: be_bytes_props)

text \<open>What is left to read behind the header, whatever the flag for nulls is.\<close>

definition header_bytes :: "bool \<Rightarrow> int \<Rightarrow> int \<Rightarrow> int list \<Rightarrow> int list" where
  "header_bytes le flag oid ds =
    put4 le (int (length ds)) @ put4 le flag @ put4 le oid @ concat (map (\<lambda>d. put4 le d @ put4 le 1) ds)"

definition dims_count :: "int list \<Rightarrow> int" where
  "dims_count ds = (if ds = [] then 0 else prod_list ds)"

lemma header_length: "int (length (header_bytes le flag oid ds)) = 12 + 8 * int (length ds)"
proof -
  have "length (concat (map (\<lambda>d. put4 le d @ put4 le 1) ds)) = 8 * length ds" by (induction ds) (simp_all add: be_bytes_props)
  then show ?thesis by (simp add: header_bytes_def be_bytes_props)
qed

lemma pgval_to_array_header:
  assumes ds: "\<forall>d \<in> set ds. 0 < d" "length ds < 2 ^ 31" "dims_count ds < 2 ^ 31" "in_s 32 oid"
  shows "pgval_to_array le conv (header_bytes le flag oid ds @ els) 1
    = rmap (\<lambda>vs. \<lparr> jv_dims = ds, jv_vals = vs \<rparr>)
        (read_elems le (\<lambda>q l. conv oid (Some q) l 1) (nat (dims_count ds)) (header_bytes le flag oid ds @ els) (12 + 8 * int (length ds)))"
proof -
  define bs where "bs = header_bytes le flag oid ds @ els"
  let ?dm = "concat (map (\<lambda>d. put4 le d @ put4 le 1) ds)"
  let ?pre = "put4 le (int (length ds)) @ put4 le flag @ put4 le oid"
  have bs': "bs = ?pre @ ?dm @ els" by (simp add: bs_def header_bytes_def)
  have n: "get4 le bs = Inr (int (length ds))"
    using ds(2) by (simp add: bs' get4_be in_s_def del: put_be)
  have p: "val_at bs 8 = Inr (put4 le oid @ ?dm @ els)"
    using val_at_append [of "put4 le (int (length ds)) @ put4 le flag" "put4 le oid @ ?dm @ els"]
    by (simp add: bs' be_bytes_props)
  have d: "read_dims le (length ds) bs 12 (if 0 < length ds then 1 else 0) = Inr (ds, dims_count ds)"
    using ds(1,3) read_dims_header [of ds 1 12 ?pre le els] by (cases ds) (simp_all add: bs' dims_count_def be_bytes_props)
  show ?thesis
    unfolding bs_def [symmetric] using n p d get4_be [OF ds(4)] by (simp add: pgval_to_array_def del: put_be)
qed

text \<open>A value that is read from a table by name is what the reader of its type makes of the field.\<close>

lemma table_row:
  assumes "process_query_result d res msg s = Inr tb" "row < length (rs_rows res)"
  shows "vec_at (tb_rows tb) (int row) = Inr (row_init (result_cols res) res row)"
  using assms by (auto simp: process_query_result_def Let_def vec_at_def split: if_splits)

lemma table_as_field:
  assumes tb: "process_query_result d res msg s = Inr tb" "row < length (rs_rows res)"
    and col: "first_col (result_cols res) (lcase nm) = Some j" "rs_cols res ! j = (oid, cn, fmt)"
  shows "table_as lcase conv tb (int row) nm
    = conv oid (pq_field res row j) (case pq_field res row j of None \<Rightarrow> 0 | Some bs \<Rightarrow> int (length bs)) fmt"
proof -
  have "j < length (rs_cols res)" using first_col_Some [OF col(1)] by (simp add: result_cols_def)
  then have "col_oid (result_cols res ! j) = oid" "col_fmt (result_cols res ! j) = fmt" using col(2) by (simp_all add: result_cols_def)
  then show ?thesis
    by (simp add: table_as_def table_value_named_def table_row [OF tb] row_value_named_init col(1) value_as_def field_value_def value_init_def)
qed

text \<open>
  The contract of the types that can stand in an array: what \<open>new_parameter\<close> makes of a value
  is its encoding, less the bytes left out, and \<open>val_from_pgparam\<close> at the type of the elements
  decodes it.
\<close>

locale array_codec = wire_codec +
  fixes new :: "'a \<Rightarrow> param result"
    and conv :: "int \<Rightarrow> int list option \<Rightarrow> int \<Rightarrow> int \<Rightarrow> 'a result"
    and trail :: int
    and ele_oid :: int
  assumes new_enc: "ok v \<Longrightarrow> \<exists>p. new v = Inr p \<and> pm_length p - trail = int (length (enc v)) \<and> take (length (enc v)) (pm_value p) = enc v"
    and conv_dec: "conv ele_oid (Some bs) l 1 = dec bs l 1"
    and ele_oid: "in_s 32 ele_oid"
begin

lemma elems_sent:
  "list_all ok vs \<Longrightarrow> array_elems le trail new vs = Inr (concat (map (\<lambda>v. put4 le (int (length (enc v))) @ enc v) vs))"
proof (induction vs)
  case (Cons v vs)
  then obtain p where "new v = Inr p" "pm_length p - trail = int (length (enc v))" "take (length (enc v)) (pm_value p) = enc v"
    using new_enc [of v] by auto
  then show ?case using Cons by simp
qed simp

lemma elems_read:
  "list_all ok vs \<Longrightarrow> off = int (length pre) \<Longrightarrow>
    read_elems le (\<lambda>q l. conv ele_oid (Some q) l 1) (length vs)
      (pre @ concat (map (\<lambda>v. put4 le (int (length (enc v))) @ enc v) vs)) off = Inr vs"
proof (induction vs arbitrary: pre off)
  case (Cons v vs)
  let ?tl = "concat (map (\<lambda>v. put4 le (int (length (enc v))) @ enc v) vs)"
  have v: "ok v" "list_all ok vs" using Cons.prems(1) by simp_all
  have l: "get4 le (put4 le (int (length (enc v))) @ enc v @ ?tl) = Inr (int (length (enc v)))"
    using enc_length [OF v(1)] by (intro get4_be) (simp add: in_s_def)
  have q: "val_at (pre @ put4 le (int (length (enc v))) @ enc v @ ?tl) (off + 4) = Inr (enc v @ ?tl)"
    using Cons.prems(2) val_at_append [of "pre @ put4 le (int (length (enc v)))" "enc v @ ?tl"] by (simp add: be_bytes_props)
  have "read_elems le (\<lambda>q l. conv ele_oid (Some q) l 1) (length vs)
      ((pre @ put4 le (int (length (enc v))) @ enc v) @ ?tl) (off + 4 + int (length (enc v))) = Inr vs"
    using Cons.prems(2) v(2) by (intro Cons.IH) (simp_all add: be_bytes_props)
  then show ?case using l q Cons.prems(2) dec_enc [OF v(1)] by (simp add: conv_dec del: put_be)
qed simp

text \<open>An array is read back with its dimensions and values.\<close>

lemma array_back:
  assumes jv: "jagged_ok jv" "list_all ok (jv_vals jv)"
    and bs: "bs = array_header le ele_oid (jv_dims jv) @ concat (map (\<lambda>v. put4 le (int (length (enc v))) @ enc v) (jv_vals jv))"
  shows "pgval_to_array le conv bs 1 = Inr jv"
proof -
  let ?els = "concat (map (\<lambda>v. put4 le (int (length (enc v))) @ enc v) (jv_vals jv))"
  have bs': "bs = header_bytes le 0 ele_oid (jv_dims jv) @ ?els" by (simp add: bs header_bytes_def array_header_def)
  have c: "dims_count (jv_dims jv) = int (length (jv_vals jv))" using jv(1) by (simp add: jagged_ok_def dims_count_def split: if_splits)
  have "read_elems le (\<lambda>q l. conv ele_oid (Some q) l 1) (length (jv_vals jv)) bs (12 + 8 * int (length (jv_dims jv))) = Inr (jv_vals jv)"
    unfolding bs' by (rule elems_read [OF jv(2)]) (simp add: header_length)
  then show ?thesis
    using jv(1) ele_oid pgval_to_array_header [of "jv_dims jv" ele_oid le conv 0 ?els] by (simp add: jagged_ok_def c bs')
qed

text \<open>So is a value of a row that holds an encoding.\<close>

lemma value_back:
  assumes "dv_value v = Some (enc x)" "dv_length v = int (length (enc x))"
    and "col_oid (dv_col v) = ele_oid" "col_fmt (dv_col v) = 1" "ok x"
  shows "value_as conv v = Inr x"
  using dec_enc [OF assms(5), of "[]"] assms(1-4) by (simp add: value_as_def conv_dec)

lemma array_round:
  "jagged_ok jv \<Longrightarrow> list_all ok (jv_vals jv) \<Longrightarrow> trail = 0 \<Longrightarrow>
    bind_result (new_parameter_gen le new ele_oid arr_oid jv) (\<lambda>p. pgval_to_array le conv (pm_value p) (pm_format p)) = Inr jv"
  using array_back [OF _ _ refl] elems_sent by (simp add: new_parameter_gen_def mk_param_def)

end

interpretation arr2: array_codec "in_s 16" "put2 le" "pgval_to_int16 (cv_num cl) le" "\<lambda>v. Inr (new_int16 le v)" "val_to_int16 cl le" 0 INT2OID
  for cl le
  by unfold_locales (simp_all add: new_int16_def mk_param_def val_to_int16_def field_bytes_def in_s_def)

interpretation arr4: array_codec "in_s 32" "put4 le" "pgval_to_int32 (cv_num cl) le" "\<lambda>v. Inr (new_int32 le v)" "val_to_int32 cl le" 0 INT4OID
  for cl le
  by unfold_locales (simp_all add: new_int32_def mk_param_def val_to_int32_def field_bytes_def in_s_def)

interpretation arr8: array_codec "in_s 64" "put8 le" "pgval_to_int64 (cv_num cl) le" "\<lambda>v. Inr (new_int64 le v)" "val_to_int64 cl le" 0 INT8OID
  for cl le
  by unfold_locales (simp_all add: new_int64_def mk_param_def val_to_int64_def field_bytes_def in_s_def)

interpretation arrd: array_codec "in_s 64" "\<lambda>v. pm_value (new_double le v)" "pgval_to_double (cv_geo cl) le" "\<lambda>v. Inr (new_double le v)"
  "val_to_double cl le" 0 FLOAT8OID for cl le
  by unfold_locales (simp_all add: new_double_def mk_param_def val_to_double_def field_bytes_def in_s_def)

interpretation arrn: array_codec num_wire_ok "numeric_bytes le" "pgval_to_numeric le" "\<lambda>v. Inr (new_numeric le v)" "val_to_numeric cl le" 0 NUMERICOID
  for cl le
  by unfold_locales (simp_all add: new_numeric_def mk_param_def val_to_numeric_def field_bytes_def in_s_def)

definition money_wire_ok :: "'j conv_lib \<Rightarrow> money \<Rightarrow> bool" where
  "money_wire_ok cl m \<longleftrightarrow> in_s 64 (m_val m) \<and> m_frac m = cv_frac cl"

interpretation mny: wire_codec "money_wire_ok cl" "\<lambda>m. put8 le (m_val m)" "money_read cl le" for cl le
  by unfold_locales (auto simp: money_wire_ok_def money_read_def pgval_to_money_def be_bytes_props wrap_ids)

interpretation arrm: array_codec "money_wire_ok cl" "\<lambda>m. put8 le (m_val m)" "money_read cl le" "\<lambda>m. Inr (new_money le (m_val m))" "val_to_money cl le" 0 CASHOID
  for cl le
  by unfold_locales (simp_all add: new_money_def mk_param_def val_to_money_def field_bytes_def in_s_def)

interpretation arrp: array_codec point_ok "\<lambda>p. pm_value (new_point le p)" "pgval_to_point (cv_geo cl) le" "\<lambda>p. Inr (new_point le p)"
  "val_to_point cl le" 0 POINTOID for cl le
  by unfold_locales (simp_all add: new_point_def mk_param_def val_to_point_def val_own_def field_bytes_def in_s_def)

interpretation arrg: array_codec polygon_ok "\<lambda>p. pm_value (new_polygon le p)" "pgval_to_polygon (cv_num cl) (cv_geo cl) le" "\<lambda>p. Inr (new_polygon le p)"
  "val_to_polygon cl le" 0 POLYGONOID for cl le
  by unfold_locales (simp_all add: new_polygon_def Let_def mk_param_def val_to_polygon_def val_own_def field_bytes_def in_s_def)

interpretation arrl: array_codec line_ok "\<lambda>l. pm_value (new_line le l)" "pgval_to_line (cv_through cl) (cv_geo cl) le" "\<lambda>l. Inr (new_line le l)"
  "val_to_line cl le" 0 LINEOID for cl le
  by unfold_locales (simp_all add: new_line_def mk_param_def val_to_line_def val_own_def field_bytes_def in_s_def)

interpretation arrsg: array_codec lseg_ok "\<lambda>l. pm_value (new_lseg le l)" "pgval_to_lseg (cv_geo cl) le" "\<lambda>l. Inr (new_lseg le l)"
  "val_to_lseg cl le" 0 LSEGOID for cl le
  by unfold_locales (simp_all add: new_lseg_def mk_param_def val_to_lseg_def val_own_def field_bytes_def in_s_def)

interpretation arrbx: array_codec box_ok "\<lambda>b. pm_value (new_box le b)" "pgval_to_box (cv_geo cl) le" "\<lambda>b. Inr (new_box le b)"
  "val_to_box cl le" 0 BOXOID for cl le
  by unfold_locales (simp_all add: new_box_def mk_param_def val_to_box_def val_own_def field_bytes_def in_s_def)

interpretation arrpa: array_codec "\<lambda>p. points_ok (pa_p p)" "\<lambda>p. pm_value (new_path le p)"
  "pgval_to_path (cv_junk_closed cl) (cv_num cl) (cv_geo cl) le" "\<lambda>p. Inr (new_path le p)" "val_to_path cl le" 0 PATHOID for cl le
  by unfold_locales (simp_all add: new_path_def Let_def mk_param_def val_to_path_def val_own_def field_bytes_def in_s_def)

interpretation arrci: array_codec circle_ok "\<lambda>c. pm_value (new_circle le c)" "pgval_to_circle (cv_junk_radius cl) (cv_geo cl) le"
  "\<lambda>c. Inr (new_circle le c)" "val_to_circle cl le" 0 CIRCLEOID for cl le
  by unfold_locales (simp_all add: new_circle_def mk_param_def val_to_circle_def val_own_def field_bytes_def in_s_def)

interpretation flt: wire_codec "in_s 32" "put4 le" "pgval_to_float cl le" for cl le
  by unfold_locales (simp_all add: pgval_to_float_def be_bytes_props wrap_ids)

interpretation arrf: array_codec "in_s 32" "put4 le" "pgval_to_float cl le" "\<lambda>v. Inr (new_float le v)" "val_to_float cl le" 0 FLOAT4OID for cl le
  by unfold_locales (simp_all add: new_float_def mk_param_def val_to_float_def field_bytes_def in_s_def)

interpretation bl: wire_codec "\<lambda>_. True" "\<lambda>b. pm_value (new_bool b)" "pgval_to_bool lib" for lib
  by unfold_locales (simp_all add: new_bool_def mk_param_def pgval_to_bool_def digits_ok_def)

interpretation arrb: array_codec "\<lambda>_. True" "\<lambda>b. pm_value (new_bool b)" "pgval_to_bool (cv_num cl)" "\<lambda>b. Inr (new_bool b)" "val_to_bool cl le" 0 BOOLOID
  for cl le
  by unfold_locales (simp_all add: new_bool_def mk_param_def val_to_bool_def field_bytes_def in_s_def)

text \<open>The bytes of the buffer that an address does not use are zero in what is read.\<close>

definition net_wire_ok :: "netaddr \<Rightarrow> bool" where
  "net_wire_ok a \<longleftrightarrow> net_ok a \<and> na_ipaddr a = net_bytes a @ replicate (16 - net_size a) 0"

lemma net_wire_back:
  assumes "net_wire_ok a"
  shows "net_unwire (net_wire k a @ rest) = Inr a" "net_wire k a \<noteq> []" "length (net_wire k a) \<le> 20"
    "0 \<le> k \<Longrightarrow> k < 256 \<Longrightarrow> digits_ok 256 (net_wire k a)"
proof -
  have ok: "net_ok a" using assms unfolding net_wire_ok_def by (rule conjunct1)
  have l: "length (na_ipaddr a) = 16" "na_family a \<noteq> Pq_net_family_none" using ok by (simp_all add: net_ok_def bytes_ok_def)
  have e: "na_ipaddr a = take (net_size a) (na_ipaddr a) @ replicate (16 - net_size a) 0"
    using assms by (simp add: net_wire_ok_def net_bytes_def)
  have w: "net_wire k a = [if na_family a = Pq_net_family_inet then 2 else 3, na_bits a, k, int (net_size a)] @ take (net_size a) (na_ipaddr a)"
    by (simp add: net_wire_def net_size_def Let_def AF_INET_def)
  have s: "net_size a \<le> 16" by (simp add: net_size_def)
  show "net_wire k a \<noteq> []" "length (net_wire k a) \<le> 20" by (simp_all add: w net_size_def l(1))
  show "net_unwire (net_wire k a @ rest) = Inr a"
    unfolding w using s l e by (cases "na_family a") (simp_all add: net_unwire_def AF_INET_def Let_def net_size_def)
  have "\<forall>b \<in> set (take (net_size a) (na_ipaddr a)). 0 \<le> b \<and> b < 256"
    using ok by (auto simp: net_ok_def bytes_ok_def digits_ok_def dest: in_set_takeD)
  moreover have "0 \<le> na_bits a" "na_bits a < 256"
    using ok by (auto simp: net_ok_def max_bits_def split: if_splits)
  ultimately show "digits_ok 256 (net_wire k a)" if "0 \<le> k" "k < 256"
    using that by (auto simp: w digits_ok_def net_size_def)
qed

interpretation cid: wire_codec net_wire_ok "\<lambda>a. pm_value (new_cidr a)" pgval_to_cidr
proof
  fix a :: netaddr and rest :: "int list"
  assume ok: "net_wire_ok a"
  note b = net_wire_back [OF ok, of 1]
  show "pgval_to_cidr (pm_value (new_cidr a) @ rest) (int (length (pm_value (new_cidr a)))) 1 = Inr a" "digits_ok 256 (pm_value (new_cidr a))"
    "length (pm_value (new_cidr a)) < 2 ^ 31"
    using b by (simp_all add: new_cidr_def mk_param_def pgval_to_cidr_def)
qed

interpretation arrcd: array_codec net_wire_ok "\<lambda>a. pm_value (new_cidr a)" pgval_to_cidr "\<lambda>a. Inr (new_cidr a)" val_to_cidr 0 CIDROID
  by unfold_locales (simp_all add: new_cidr_def mk_param_def val_to_cidr_def val_own_def field_bytes_def in_s_def)

interpretation int: wire_codec net_wire_ok "\<lambda>a. pm_value (new_inet a)" pgval_to_inet
proof
  fix a :: netaddr and rest :: "int list"
  assume ok: "net_wire_ok a"
  note b = net_wire_back [OF ok, of 0]
  show "pgval_to_inet (pm_value (new_inet a) @ rest) (int (length (pm_value (new_inet a)))) 1 = Inr a" "digits_ok 256 (pm_value (new_inet a))"
    "length (pm_value (new_inet a)) < 2 ^ 31"
    using b by (simp_all add: new_inet_def mk_param_def pgval_to_inet_def)
qed

interpretation arrin: array_codec net_wire_ok "\<lambda>a. pm_value (new_inet a)" pgval_to_inet "\<lambda>a. Inr (new_inet a)" val_to_inet 0 INETOID
  by unfold_locales (simp_all add: new_inet_def mk_param_def val_to_inet_def val_own_def field_bytes_def in_s_def)

interpretation mac: wire_codec "bytes_ok 6" "\<lambda>m. pm_value (new_macaddr m)" pgval_to_macaddr
  by unfold_locales (simp_all add: new_macaddr_def mk_param_def pgval_to_macaddr_def bytes_ok_def digits_ok_def)

interpretation arrmc: array_codec "bytes_ok 6" "\<lambda>m. pm_value (new_macaddr m)" pgval_to_macaddr "\<lambda>m. Inr (new_macaddr m)" val_to_macaddr 0 MACADDROID
  by unfold_locales (simp_all add: new_macaddr_def mk_param_def val_to_macaddr_def val_own_def field_bytes_def in_s_def)

interpretation mac8: wire_codec "bytes_ok 8" "\<lambda>m. pm_value (new_macaddr8 m)" pgval_to_macaddr8
  by unfold_locales (simp_all add: new_macaddr8_def mk_param_def pgval_to_macaddr8_def bytes_ok_def digits_ok_def)

interpretation arrm8: array_codec "bytes_ok 8" "\<lambda>m. pm_value (new_macaddr8 m)" pgval_to_macaddr8 "\<lambda>m. Inr (new_macaddr8 m)" val_to_macaddr8 0 MACADDR8OID
  by unfold_locales (simp_all add: new_macaddr8_def mk_param_def val_to_macaddr8_def val_own_def field_bytes_def in_s_def)

definition string_ok :: "string \<Rightarrow> bool" where
  "string_ok s \<longleftrightarrow> length s < 2 ^ 31 - 1"

lemma of_char_byte: "0 \<le> (of_char c :: int)" "(of_char c :: int) < 256"
  using of_char_mod_256 [of c, where 'a = int] pos_mod_sign [of 256 "of_char c :: int"] pos_mod_bound [of 256 "of_char c :: int"]
  by simp_all

interpretation str: wire_codec string_ok bytes_of "\<lambda>val len fmt. Inr (pgval_to_string val len fmt)"
  by unfold_locales (auto simp: string_ok_def bytes_of_def pgval_to_string_def text_of_def digits_ok_def comp_def of_char_byte)

interpretation arrs: array_codec string_ok bytes_of "\<lambda>val len fmt. Inr (pgval_to_string val len fmt)" "\<lambda>s. Inr (new_string s)"
  "val_to_text cl le" 1 TEXTOID for cl le
  by unfold_locales (simp_all add: new_string_def mk_param_def val_to_text_def field_bytes_def in_s_def bytes_of_def)

lemma string_array_round:
  "jagged_ok jv \<Longrightarrow> list_all string_ok (jv_vals jv) \<Longrightarrow>
    bind_result (new_parameter_gen_string le TEXTOID arr_oid jv) (\<lambda>p. pgval_to_array le (val_to_text cl le) (pm_value p) (pm_format p)) = Inr jv"
  using arrs.array_back [OF _ _ refl] arrs.elems_sent by (simp add: new_parameter_gen_string_def mk_param_def)

text \<open>
  C15: arrays of nine types (integers of 16, 32 and 64 bits, doubles, numerics, money, points, polygons without bounding
  box, and \<open>std::string\<close>), of any number of dimensions that are not empty, survive the way to the server and back: what \<open>new_parameter\<close> makes of
  them is read by \<open>pgval_to_array\<close> as the same dimensions and the same values. Numerics are not NaN and fit the
  16 bits of their fields, and amounts have the digits that the library reads them with. It does not hold for all arrays: those of \<open>char*\<close> keep
  the zero byte of every element, and times with zone lose their zone.
\<close>

theorem array_round_trip:
  assumes "jagged_ok a2" "list_all (in_s 16) (jv_vals a2)" "jagged_ok a4" "list_all (in_s 32) (jv_vals a4)"
    and "jagged_ok a8" "list_all (in_s 64) (jv_vals a8)" "jagged_ok ad" "list_all (in_s 64) (jv_vals ad)"
    and "jagged_ok an" "list_all num_wire_ok (jv_vals an)" "jagged_ok am" "list_all (money_wire_ok cl) (jv_vals am)"
    and "jagged_ok ap" "list_all point_ok (jv_vals ap)" "jagged_ok ag" "list_all polygon_ok (jv_vals ag)"
    and "jagged_ok as" "list_all string_ok (jv_vals as)"
  shows "bind_result (new_parameter_gen le (\<lambda>v. Inr (new_int16 le v)) INT2OID 1005 a2)
      (\<lambda>p. pgval_to_array le (val_to_int16 cl le) (pm_value p) (pm_format p)) = Inr a2
    \<and> bind_result (new_parameter_gen le (\<lambda>v. Inr (new_int32 le v)) INT4OID 1007 a4)
      (\<lambda>p. pgval_to_array le (val_to_int32 cl le) (pm_value p) (pm_format p)) = Inr a4
    \<and> bind_result (new_parameter_gen le (\<lambda>v. Inr (new_int64 le v)) INT8OID 1016 a8)
      (\<lambda>p. pgval_to_array le (val_to_int64 cl le) (pm_value p) (pm_format p)) = Inr a8
    \<and> bind_result (new_parameter_gen le (\<lambda>v. Inr (new_double le v)) FLOAT8OID 1022 ad)
      (\<lambda>p. pgval_to_array le (val_to_double cl le) (pm_value p) (pm_format p)) = Inr ad
    \<and> bind_result (new_parameter_gen le (\<lambda>v. Inr (new_numeric le v)) NUMERICOID 1231 an)
      (\<lambda>p. pgval_to_array le (val_to_numeric cl le) (pm_value p) (pm_format p)) = Inr an
    \<and> bind_result (new_parameter_gen le (\<lambda>m. Inr (new_money le (m_val m))) CASHOID 791 am)
      (\<lambda>p. pgval_to_array le (val_to_money cl le) (pm_value p) (pm_format p)) = Inr am
    \<and> bind_result (new_parameter_gen le (\<lambda>v. Inr (new_point le v)) POINTOID 1017 ap)
      (\<lambda>p. pgval_to_array le (val_to_point cl le) (pm_value p) (pm_format p)) = Inr ap
    \<and> bind_result (new_parameter_gen le (\<lambda>v. Inr (new_polygon le v)) POLYGONOID 1027 ag)
      (\<lambda>p. pgval_to_array le (val_to_polygon cl le) (pm_value p) (pm_format p)) = Inr ag
    \<and> bind_result (new_parameter_gen_string le TEXTOID 1009 as)
      (\<lambda>p. pgval_to_array le (val_to_text cl le) (pm_value p) (pm_format p)) = Inr as"
  using arr2.array_round [OF assms(1,2) refl] arr4.array_round [OF assms(3,4) refl] arr8.array_round [OF assms(5,6) refl]
    arrd.array_round [OF assms(7,8) refl] arrn.array_round [OF assms(9,10) refl] arrm.array_round [OF assms(11,12) refl]
    arrp.array_round [OF assms(13,14) refl] arrg.array_round [OF assms(15,16) refl] string_array_round [OF assms(17,18)]
  by (intro conjI) assumption+

section \<open>Nulls\<close>

definition null_elem :: "int list" where "null_elem = be_bytes 4 (- 1)"

definition int4_array :: "int list list \<Rightarrow> int list" where
  "int4_array els = be_bytes 4 1 @ be_bytes 4 1 @ be_bytes 4 23 @ be_bytes 4 (int (length els)) @ be_bytes 4 1 @ concat els"

lemma be_bytes_4: "be_bytes 4 v = [v div 16777216 mod 256, v div 65536 mod 256, v div 256 mod 256, v mod 256]"
  by (simp add: numeral_eq_Suc div_mult2_eq [symmetric] zdiv_zmult2_eq [symmetric])

text \<open>The bytes of an array of two elements of which the first is null, as they are read from the end of the null on.\<close>

lemma mod_div_int: "0 < b \<Longrightarrow> 0 < c \<Longrightarrow> (a::int) mod (b * c) div b = a div b mod c"
  by (simp add: zmod_zmult2_eq)

lemma null_shift:
  "drop 3 null_elem @ be_bytes 4 4 @ be_bytes 4 v = be_bytes 4 (- 16777216) @ be_bytes 4 (67108864 + v div 256 mod 16777216) @ [v mod 256]"
proof -
  define w where "w = v div 256 mod 16777216"
  have w: "w mod 256 = v div 256 mod 256" "w div 256 mod 256 = v div 65536 mod 256" "w div 65536 = v div 16777216 mod 256"
    using mod_div_int [of 256 65536 "v div 256"] mod_div_int [of 65536 256 "v div 256"]
    by (simp_all add: w_def mod_mod_cancel flip: zdiv_zmult2_eq)
  have "67108864 + w = 262144 * 256 + w" "67108864 + w = 1024 * 65536 + w" "67108864 + w = 4 * 16777216 + w" by simp_all
  then have m: "(67108864 + w) mod 256 = w mod 256" "(67108864 + w) div 256 = 262144 + w div 256" "(67108864 + w) div 65536 = 1024 + w div 65536"
    "(67108864 + w) div 16777216 = 4 + w div 16777216"
    by (simp_all only: mod_mult_self3 div_mult_self3)
  have k: "(262144 + w div 256) mod 256 = w div 256 mod 256" "(1024 + w div 65536) mod 256 = w div 65536 mod 256"
    using mod_mult_self3 [of 1024 256 "w div 256"] mod_mult_self3 [of 4 256 "w div 65536"] by simp_all
  have "w div 16777216 = 0" by (simp add: w_def)
  then have z: "(4 + w div 16777216) mod 256 = 4" by simp
  have w3: "w div 65536 mod 256 = v div 16777216 mod 256" by (simp add: w(3))
  have "be_bytes 4 (67108864 + w) = [4, v div 16777216 mod 256, v div 65536 mod 256, v div 256 mod 256]"
    unfolding be_bytes_4 m k z w(1,2) w3 by (rule refl)
  moreover have "drop 3 null_elem @ be_bytes 4 4 = be_bytes 4 (- 16777216) @ [4]" by code_simp
  ultimately show ?thesis unfolding w_def [symmetric] by (simp add: be_bytes_4 [of v] flip: append_assoc)
qed

text \<open>
  An array that has a null before another element is not read: the position moves on by
  the length of the null, which is \<open>-1\<close>, so the next element is taken one byte too early. The
  array of a null and \<open>v\<close> is read as zero and the bytes of \<open>v\<close> behind the last byte of its length;
  where the null is the last element it is read as zero, and the others are right.
\<close>

theorem null_elements:
  assumes "in_s 32 v"
  shows "pgval_to_array le (val_to_int32 cl le) (int4_array [null_elem, be_bytes 4 4 @ be_bytes 4 v]) 1
      = Inr \<lparr> jv_dims = [2], jv_vals = [0, 67108864 + v div 256 mod 16777216] \<rparr>
    \<and> pgval_to_array le (val_to_int32 cl le) (int4_array [be_bytes 4 4 @ be_bytes 4 v, null_elem]) 1
      = Inr \<lparr> jv_dims = [2], jv_vals = [v, 0] \<rparr>"
proof -
  define w where "w = 67108864 + v div 256 mod 16777216"
  have "0 \<le> v div 256 mod 16777216" "v div 256 mod 16777216 < 16777216" by simp_all
  then have w: "wrap_s 32 w = w" "wrap_s 32 v = v" using assms unfolding w_def by (simp_all add: wrap_s_id in_s_def)
  define pre where "pre = header_bytes le 1 23 [2]"
  have pre: "int (length pre) = 20" "length null_elem = 4" by (simp_all add: pre_def header_length null_elem_def be_bytes_props)
  have hdr: "pgval_to_array le conv (pre @ els) 1
      = rmap (\<lambda>vs. \<lparr> jv_dims = [2], jv_vals = vs \<rparr>) (read_elems le (\<lambda>q l. conv 23 (Some q) l 1) 2 (pre @ els) 20)" for conv :: "int \<Rightarrow> int list option \<Rightarrow> int \<Rightarrow> int \<Rightarrow> int result" and els
    using pgval_to_array_header [of "[2]" 23 le conv 1 els] by (simp add: pre_def dims_count_def in_s_def)
  have c: "val_to_int32 cl le 23 (Some q) l 1 = pgval_to_int32 (cv_num cl) le q l 1" for q l by (simp add: val_to_int32_def field_bytes_def)
  have a: "int4_array els = pre @ concat els" if "length els = 2" for els using that by (simp add: int4_array_def pre_def header_bytes_def)
  have ws: "wrap_s 32 (- 16777216) = - 16777216" "wrap_s 32 (- 1) = - 1" "wrap_s 32 4 = 4" by (simp_all add: wrap_s_def)
  let ?dec = "\<lambda>q l. val_to_int32 cl le 23 (Some q) l 1"
  note step = read_elem [where le = le and dec = ?dec] and sets = c pgval_to_int32_def ws w pre be_bytes_props
  have "read_elems le ?dec 2 (pre @ null_elem @ be_bytes 4 4 @ be_bytes 4 v) 20 = Inr [0, w]"
  proof -
    have "pre @ null_elem @ be_bytes 4 4 @ be_bytes 4 v = (pre @ take 3 null_elem) @ be_bytes 4 (- 16777216) @ be_bytes 4 w @ [v mod 256]"
      unfolding w_def null_shift [symmetric] by (metis append.assoc append_take_drop_id)
    then have "read_elems le ?dec 1 (pre @ null_elem @ be_bytes 4 4 @ be_bytes 4 v) 23 = Inr [w]"
      using step [of 23 "pre @ take 3 null_elem" 0 "- 16777216" "be_bytes 4 w @ [v mod 256]"] by (simp add: sets del: read_elems.simps(2))
    then show ?thesis
      using step [of 20 pre 1 "- 1" "be_bytes 4 4 @ be_bytes 4 v"]
      by (simp add: sets null_elem_def [symmetric] numeral_2_eq_2 del: read_elems.simps(2))
  qed
  moreover have "read_elems le ?dec 2 (pre @ be_bytes 4 4 @ be_bytes 4 v @ null_elem) 20 = Inr [v, 0]"
    using step [of 20 pre 1 4 "be_bytes 4 v @ null_elem"] step [of 28 "pre @ be_bytes 4 4 @ be_bytes 4 v" 0 "- 1" "[]"]
    by (simp add: sets null_elem_def [symmetric] numeral_2_eq_2 del: read_elems.simps(2))
  ultimately show ?thesis by (simp add: a hdr w_def)
qed

text \<open>
  A null of a column is null in the row, a text is read as the empty string and a time as its
  null; but a number or a point of a null field is undefined: the reader follows the null
  pointer, because the length is zero and not the \<open>-1\<close> that it looks for.
\<close>

theorem null_fields:
  assumes "process_query_result d res msg s = Inr tb" "row < length (rs_rows res)"
    and "first_col (result_cols res) (lcase nm) = Some j" "rs_cols res ! j = (oid, cn, 1)" "pq_field res row j = None"
  shows "bind_result (vec_at (tb_rows tb) (int row)) (\<lambda>r. row_is_null lcase r nm) = Inr True
    \<and> (oid = TEXTOID \<longrightarrow> table_as lcase (val_to_text cl le) tb (int row) nm = Inr [])
    \<and> (oid = TIMEOID \<longrightarrow> table_as lcase (val_to_time cl le) tb (int row) nm = Inr (time_null (cv_now cl)))
    \<and> (oid = INTERVALOID \<longrightarrow> table_as lcase (val_to_interval cl le) tb (int row) nm = Inr interval_null)
    \<and> (oid = INT4OID \<longrightarrow> table_as lcase (val_to_int32 cl le) tb (int row) nm = Inl overrun)
    \<and> (oid = FLOAT8OID \<longrightarrow> table_as lcase (val_to_double cl le) tb (int row) nm = Inl overrun)
    \<and> (oid = NUMERICOID \<longrightarrow> table_as lcase (val_to_numeric cl le) tb (int row) nm = Inl overrun)
    \<and> (oid = POINTOID \<longrightarrow> table_as lcase (val_to_point cl le) tb (int row) nm = Inl overrun)"
proof -
  have "bind_result (vec_at (tb_rows tb) (int row)) (\<lambda>r. row_is_null lcase r nm) = Inr True"
    by (simp add: table_row [OF assms(1,2)] row_is_null_def row_value_named_init assms(3,5) field_value_def value_init_def value_is_null_def)
  moreover note f = table_as_field [where lcase = lcase and nm = nm, OF assms(1-4), unfolded assms(5)]
  have "oid = TEXTOID \<longrightarrow> table_as lcase (val_to_text cl le) tb (int row) nm = Inr []"
    by (simp add: f val_to_text_def field_bytes_def pgval_to_string_def text_of_def)
  moreover have "oid = TIMEOID \<longrightarrow> table_as lcase (val_to_time cl le) tb (int row) nm = Inr (time_null (cv_now cl))"
    "oid = INTERVALOID \<longrightarrow> table_as lcase (val_to_interval cl le) tb (int row) nm = Inr interval_null"
    by (simp_all add: f val_to_time_def val_to_interval_def pgval_to_time_def pgval_to_interval_def)
  moreover have "oid = INT4OID \<longrightarrow> table_as lcase (val_to_int32 cl le) tb (int row) nm = Inl overrun"
    "oid = FLOAT8OID \<longrightarrow> table_as lcase (val_to_double cl le) tb (int row) nm = Inl overrun"
    by (simp_all add: f val_to_int32_def val_to_double_def field_bytes_def pgval_to_int32_def pgval_to_double_def get4_def get8_def)
  moreover have "oid = NUMERICOID \<longrightarrow> table_as lcase (val_to_numeric cl le) tb (int row) nm = Inl overrun"
    "oid = POINTOID \<longrightarrow> table_as lcase (val_to_point cl le) tb (int row) nm = Inl overrun"
    by (simp_all add: f val_to_numeric_def val_to_point_def val_own_def field_bytes_def pgval_to_numeric_def pgval_to_point_def pgval_to_double_def get2_def get8_def)
  ultimately show ?thesis by blast
qed

text \<open>
  The values that are sent in binary form and read back as they were, with the parameter of each, and the reader
  of its type. Texts, byte strings, uuids and json are sent in another form than they are received; times with zone, timestamps, dates and
  ranges change on the way (\<open>Times\<close>, \<open>Wire\<close>).
\<close>

datatype sent =
    Sent_bool bool | Sent_int16 int | Sent_int32 int | Sent_int64 int | Sent_float int | Sent_double int
  | Sent_numeric numeric | Sent_money money | Sent_cidr netaddr | Sent_inet netaddr | Sent_macaddr "int list" | Sent_macaddr8 "int list"
  | Sent_point point | Sent_line line | Sent_lseg lseg | Sent_box box | Sent_path path | Sent_polygon polygon | Sent_circle circle

fun sent_param :: "bool \<Rightarrow> sent \<Rightarrow> param" where
  "sent_param le (Sent_bool b) = new_bool b"
| "sent_param le (Sent_int16 i) = new_int16 le i"
| "sent_param le (Sent_int32 i) = new_int32 le i"
| "sent_param le (Sent_int64 i) = new_int64 le i"
| "sent_param le (Sent_float x) = new_float le x"
| "sent_param le (Sent_double x) = new_double le x"
| "sent_param le (Sent_numeric n) = new_numeric le n"
| "sent_param le (Sent_money m) = new_money le (m_val m)"
| "sent_param le (Sent_cidr a) = new_cidr a"
| "sent_param le (Sent_inet a) = new_inet a"
| "sent_param le (Sent_macaddr m) = new_macaddr m"
| "sent_param le (Sent_macaddr8 m) = new_macaddr8 m"
| "sent_param le (Sent_point p) = new_point le p"
| "sent_param le (Sent_line l) = new_line le l"
| "sent_param le (Sent_lseg l) = new_lseg le l"
| "sent_param le (Sent_box b) = new_box le b"
| "sent_param le (Sent_path p) = new_path le p"
| "sent_param le (Sent_polygon p) = new_polygon le p"
| "sent_param le (Sent_circle c) = new_circle le c"

fun value_like :: "'j conv_lib \<Rightarrow> bool \<Rightarrow> sent \<Rightarrow> data_value \<Rightarrow> sent result" where
  "value_like cl le (Sent_bool _) v = rmap Sent_bool (value_as (val_to_bool cl le) v)"
| "value_like cl le (Sent_int16 _) v = rmap Sent_int16 (value_as (val_to_int16 cl le) v)"
| "value_like cl le (Sent_int32 _) v = rmap Sent_int32 (value_as (val_to_int32 cl le) v)"
| "value_like cl le (Sent_int64 _) v = rmap Sent_int64 (value_as (val_to_int64 cl le) v)"
| "value_like cl le (Sent_float _) v = rmap Sent_float (value_as (val_to_float cl le) v)"
| "value_like cl le (Sent_double _) v = rmap Sent_double (value_as (val_to_double cl le) v)"
| "value_like cl le (Sent_numeric _) v = rmap Sent_numeric (value_as (val_to_numeric cl le) v)"
| "value_like cl le (Sent_money _) v = rmap Sent_money (value_as (val_to_money cl le) v)"
| "value_like cl le (Sent_cidr _) v = rmap Sent_cidr (value_as val_to_cidr v)"
| "value_like cl le (Sent_inet _) v = rmap Sent_inet (value_as val_to_inet v)"
| "value_like cl le (Sent_macaddr _) v = rmap Sent_macaddr (value_as val_to_macaddr v)"
| "value_like cl le (Sent_macaddr8 _) v = rmap Sent_macaddr8 (value_as val_to_macaddr8 v)"
| "value_like cl le (Sent_point _) v = rmap Sent_point (value_as (val_to_point cl le) v)"
| "value_like cl le (Sent_line _) v = rmap Sent_line (value_as (val_to_line cl le) v)"
| "value_like cl le (Sent_lseg _) v = rmap Sent_lseg (value_as (val_to_lseg cl le) v)"
| "value_like cl le (Sent_box _) v = rmap Sent_box (value_as (val_to_box cl le) v)"
| "value_like cl le (Sent_path _) v = rmap Sent_path (value_as (val_to_path cl le) v)"
| "value_like cl le (Sent_polygon _) v = rmap Sent_polygon (value_as (val_to_polygon cl le) v)"
| "value_like cl le (Sent_circle _) v = rmap Sent_circle (value_as (val_to_circle cl le) v)"

text \<open>
  The values that have the width of their type: floats are bit patterns, a numeric fits the 16-bit fields of its binary form, money has the
  number of digits of the locale, a polygon no bounding box.
\<close>

fun sent_ok :: "'j conv_lib \<Rightarrow> sent \<Rightarrow> bool" where
  "sent_ok cl (Sent_bool b) = True"
| "sent_ok cl (Sent_int16 i) = in_s 16 i"
| "sent_ok cl (Sent_int32 i) = in_s 32 i"
| "sent_ok cl (Sent_int64 i) = in_s 64 i"
| "sent_ok cl (Sent_float x) = in_s 32 x"
| "sent_ok cl (Sent_double x) = in_s 64 x"
| "sent_ok cl (Sent_numeric n) = num_wire_ok n"
| "sent_ok cl (Sent_money m) = money_wire_ok cl m"
| "sent_ok cl (Sent_cidr a) = net_wire_ok a"
| "sent_ok cl (Sent_inet a) = net_wire_ok a"
| "sent_ok cl (Sent_macaddr m) = bytes_ok 6 m"
| "sent_ok cl (Sent_macaddr8 m) = bytes_ok 8 m"
| "sent_ok cl (Sent_point p) = point_ok p"
| "sent_ok cl (Sent_line l) = line_ok l"
| "sent_ok cl (Sent_lseg l) = lseg_ok l"
| "sent_ok cl (Sent_box b) = box_ok b"
| "sent_ok cl (Sent_path p) = points_ok (pa_p p)"
| "sent_ok cl (Sent_polygon p) = polygon_ok p"
| "sent_ok cl (Sent_circle c) = circle_ok c"

text \<open>A value of a row that holds what was sent, in a column of its type.\<close>

definition sent_value :: "bool \<Rightarrow> sent \<Rightarrow> data_value \<Rightarrow> bool" where
  "sent_value le x v \<longleftrightarrow> dv_value v = Some (pm_value (sent_param le x)) \<and> dv_length v = int (length (pm_value (sent_param le x)))
     \<and> col_oid (dv_col v) = pm_oid (sent_param le x) \<and> col_fmt (dv_col v) = 1"

lemma sent_oids [simp]:
  "pm_oid (new_bool b) = BOOLOID" "pm_oid (new_int16 le i) = INT2OID" "pm_oid (new_int32 le i) = INT4OID" "pm_oid (new_int64 le i) = INT8OID"
  "pm_oid (new_float le i) = FLOAT4OID" "pm_oid (new_double le i) = FLOAT8OID" "pm_oid (new_numeric le n) = NUMERICOID"
  "pm_oid (new_money le i) = CASHOID" "pm_oid (new_cidr a) = CIDROID" "pm_oid (new_inet a) = INETOID"
  "pm_oid (new_macaddr m) = MACADDROID" "pm_oid (new_macaddr8 m) = MACADDR8OID" "pm_oid (new_point le pt) = POINTOID"
  "pm_oid (new_line le l) = LINEOID" "pm_oid (new_lseg le ls) = LSEGOID" "pm_oid (new_box le bx) = BOXOID" "pm_oid (new_path le pa) = PATHOID"
  "pm_oid (new_polygon le po) = POLYGONOID" "pm_oid (new_circle le c) = CIRCLEOID"
  by (simp_all add: new_bool_def new_int16_def new_int32_def new_int64_def new_float_def new_double_def new_numeric_def new_money_def
      new_cidr_def new_inet_def new_macaddr_def new_macaddr8_def new_point_def new_line_def new_lseg_def new_box_def new_path_def
      new_polygon_def new_circle_def mk_param_def Let_def)

lemma sent_bytes:
  "pm_value (new_int16 le i) = put2 le i" "pm_value (new_int32 le i) = put4 le i" "pm_value (new_int64 le i) = put8 le i"
  "pm_value (new_float le i) = put4 le i" "pm_value (new_numeric le n) = numeric_bytes le n" "pm_value (new_money le i) = put8 le i"
  by (simp_all add: new_int16_def new_int32_def new_int64_def new_float_def new_numeric_def new_money_def mk_param_def)

lemmas values_back = arrb.value_back arr2.value_back arr4.value_back arr8.value_back arrf.value_back arrd.value_back arrn.value_back
  arrm.value_back arrcd.value_back arrin.value_back arrmc.value_back arrm8.value_back arrp.value_back arrl.value_back arrsg.value_back
  arrbx.value_back arrpa.value_back arrg.value_back arrci.value_back

lemma sent_value_back:
  assumes "sent_ok cl x" "sent_value le x v"
  shows "value_like cl le x v = Inr x"
  using assms by (cases x) (simp_all add: sent_value_def sent_bytes values_back [where v = v] del: put_be)

text \<open>
  C17: values of 19 types (the datatype \<open>sent\<close>: booleans, integers, floats, doubles, numerics, money, addresses, MAC addresses
  and geometric values) that are sent as a parameter and come back in a column of their type, in the row and under the name
  under which they are asked for, are read as the value that was sent. A numeric is not NaN and its weight, scale and
  number of digits fit 16 bits, an amount has the digits that the library reads amounts with, an address has zeros behind
  its bytes, and a polygon has no bounding box, which is not sent. Nothing is claimed for the other types: a time with zone
  loses its zone, for instance.
\<close>

theorem field_round_trip:
  assumes "process_query_result d res msg s = Inr tb" "row < length (rs_rows res)"
    and "first_col (result_cols res) (lcase nm) = Some j" "rs_cols res ! j = (pm_oid (sent_param le x), cn, 1)"
    and "pq_field res row j = Some (pm_value (sent_param le x))" "sent_ok cl x"
  shows "bind_result (table_value_named lcase tb (int row) nm) (value_like cl le x) = Inr x"
proof -
  have "j < length (rs_cols res)" using first_col_Some [OF assms(3)] by (simp add: result_cols_def)
  then have "sent_value le x (field_value (result_cols res) res row j)"
    using assms(4,5) by (simp add: sent_value_def field_value_def value_init_def result_cols_def)
  then show ?thesis
    using sent_value_back [OF assms(6)]
    by (simp add: table_value_named_def table_row [OF assms(1,2)] row_value_named_init assms(3))
qed

section \<open>Tables of types\<close>

text \<open>Every type of array that is sent is known to \<open>is_array\<close>, but for \<open>date[]\<close>.\<close>

lemma sent_arrays_known:
  "map snd (filter (\<lambda>(_, a). \<not> is_array (value_init \<lparr> col_oid = a, col_index = 0, col_name = [], col_fmt = 1 \<rparr> None 0)) array_types) = [1182]"
  by code_simp

text \<open>A null array is sent with the type of its elements, never with the type of an array; a null \<open>string_view\<close> is sent as a boolean.\<close>

lemma null_array_type:
  "null_array ty = Inr p \<Longrightarrow> null_of ty = Inr p \<and> pm_oid p \<notin> snd ` set array_types"
proof -
  assume "null_array ty = Inr p"
  then obtain oid where m: "map_of null_types ty = Some oid" "p = new_null_parameter oid"
    by (auto simp: null_array_def split: option.splits)
  have "list_all (\<lambda>(_, a). a \<notin> set (map snd array_types)) null_types" by code_simp
  then show ?thesis using m map_of_SomeD [OF m(1)] by (auto simp: list_all_iff null_of_def new_null_parameter_def mk_param_def)
qed

text \<open>A query for one value gives zero for a null, and for a result without rows.\<close>

lemma query_value_null:
  assumes "db_conn (sys_pool s) d \<noteq> None" "ok_status (rs_status res)" "rs_cols res \<noteq> []" "rs_cols res ! 0 = (INT4OID, cn, 1)" "pq_field res 0 0 = None"
  shows "process_query_value_result (val_to_int32 cl le) d res msg s = Inr 0"
  using assms by (simp add: process_query_value_result_def val_to_int32_def field_bytes_def pgval_to_int32_def)

section \<open>Witnesses\<close>

lemma simple_jagged: "0 < length vs \<Longrightarrow> length vs < 2 ^ 31 \<Longrightarrow> jagged_ok \<lparr> jv_dims = [int (length vs)], jv_vals = vs \<rparr>"
  by (simp add: jagged_ok_def)

lemma grid_jagged: "jagged_ok \<lparr> jv_dims = [2, 2], jv_vals = [1, - 2, 3, 70000 :: int] \<rparr>"
  by (simp add: jagged_ok_def)

lemma empty_jagged: "jagged_ok \<lparr> jv_dims = [], jv_vals = [] \<rparr>"
  by (simp add: jagged_ok_def)

theorem array_round_trip_witness:
  "bind_result (new_parameter_gen True (\<lambda>v. Inr (new_int32 True v)) INT4OID 1007 \<lparr> jv_dims = [2, 2], jv_vals = [1, - 2, 3, 70000] \<rparr>)
      (\<lambda>p. pgval_to_array True (val_to_int32 sample_conv True) (pm_value p) (pm_format p)) = Inr \<lparr> jv_dims = [2, 2], jv_vals = [1, - 2, 3, 70000] \<rparr>
    \<and> bind_result (new_parameter_gen_string True TEXTOID 1009 \<lparr> jv_dims = [2], jv_vals = [''a'', ''''] \<rparr>)
      (\<lambda>p. pgval_to_array True (val_to_text sample_conv True) (pm_value p) (pm_format p)) = Inr \<lparr> jv_dims = [2], jv_vals = [''a'', ''''] \<rparr>"
proof -
  have e: "list_all P (jv_vals \<lparr> jv_dims = [], jv_vals = [] \<rparr>)" for P by simp
  have i: "list_all (in_s 32) (jv_vals \<lparr> jv_dims = [2, 2], jv_vals = [1, - 2, 3, 70000] \<rparr>)" by (simp add: in_s_def)
  have t: "list_all string_ok (jv_vals \<lparr> jv_dims = [2], jv_vals = [''a'', ''''] \<rparr>)" by (simp add: string_ok_def)
  have j: "jagged_ok \<lparr> jv_dims = [2], jv_vals = [''a'', ''''] \<rparr>" using simple_jagged [of "[''a'', '''']"] by simp
  show ?thesis
    using array_round_trip [OF empty_jagged e grid_jagged i empty_jagged e empty_jagged e empty_jagged e empty_jagged e
        empty_jagged e empty_jagged e j t, where le = True and cl = sample_conv] by blast
qed

theorem null_elements_witness:
  "pgval_to_array True (val_to_int32 sample_conv True) (int4_array [null_elem, be_bytes 4 4 @ be_bytes 4 5]) 1
    = Inr \<lparr> jv_dims = [2], jv_vals = [0, 67108864] \<rparr>"
  using null_elements [of 5 True sample_conv] by (simp add: in_s_def)

definition sample_row :: "nat \<Rightarrow> pgresult" where
  "sample_row oid = \<lparr> rs_status = 2, rs_cols = [(int oid, ''id'', 1)], rs_rows = [[Some [0, 0, 0, 7]], [None]] \<rparr>"

definition sample_table :: "nat \<Rightarrow> data_table" where
  "sample_table oid = (let cols = result_cols (sample_row oid) in \<lparr> tb_cols = cols, tb_rows = map (row_init cols (sample_row oid)) [0..<2] \<rparr>)"

lemma sample_table_read:
  "process_query_result 0 (sample_row oid) [] held_system = Inr (sample_table oid)" "first_col (result_cols (sample_row oid)) ((\<lambda>x. x) ''id'') = Some 0"
  "rs_cols (sample_row oid) ! 0 = (int oid, ''id'', 1)"
proof -
  have "db_conn (sys_pool held_system) 0 \<noteq> None" by code_simp
  then show "process_query_result 0 (sample_row oid) [] held_system = Inr (sample_table oid)"
    by (simp add: process_query_result_def sample_table_def sample_row_def ok_status_def status_defs numeral_2_eq_2 Let_def)
qed (simp_all add: sample_row_def result_cols_def first_col_def)

theorem null_fields_witness:
  "table_as (\<lambda>x. x) (val_to_int32 sample_conv True) (sample_table 23) 1 ''id'' = Inl overrun
    \<and> table_as (\<lambda>x. x) (val_to_text sample_conv True) (sample_table 25) 1 ''id'' = Inr []"
  using null_fields [where lcase = "\<lambda>x. x" and nm = "''id''" and row = 1, OF sample_table_read(1) _ sample_table_read(2,3), of 23 sample_conv True]
    null_fields [where lcase = "\<lambda>x. x" and nm = "''id''" and row = 1, OF sample_table_read(1) _ sample_table_read(2,3), of 25 sample_conv True]
  by (simp add: sample_row_def pq_field_def)

theorem field_round_trip_witness:
  "bind_result (table_value_named (\<lambda>x. x) (sample_table 23) 0 ''id'') (value_like sample_conv True (Sent_int32 7)) = Inr (Sent_int32 7)"
proof -
  have b: "pq_field (sample_row 23) 0 0 = Some (pm_value (sent_param True (Sent_int32 7)))" by code_simp
  have "rs_cols (sample_row 23) ! 0 = (pm_oid (sent_param True (Sent_int32 7)), ''id'', 1)" "sent_ok sample_conv (Sent_int32 7)"
    "0 < length (rs_rows (sample_row 23))" by (simp_all add: sample_row_def in_s_def)
  from field_round_trip [where lcase = "\<lambda>x. x" and nm = "''id''" and row = 0, OF sample_table_read(1) this(3) sample_table_read(2) this(1) b this(2)]
  show ?thesis by simp
qed

end
