(* ===== verification/Params.thy ===== *)
theory Params
  imports Convert
begin

text \<open>
  The list of parameters of a query (\<open>parameters_t\<close> of \<open>data_parameters.h\<close>) with its memory.

  A list owns its parameters through pointers and, once it has been used, the four arrays that
  libpq reads. The memory is explicit: the live parameters and the live arrays by address. The
  four arrays are made, freed and passed on together, so one address stands for all of them; a
  row has the entries of the four at one position. The buffer of a value lives as long as its
  parameter, so the address of the parameter stands for both. To free what is not live, or to
  read it, is undefined behaviour. A value is given as the parameter that \<open>new_parameter\<close> makes of it.
\<close>

record heap =
  hp_params :: "nat \<rightharpoonup> param"
  hp_arrs :: "nat \<rightharpoonup> (int \<times> nat \<times> int \<times> int) list"
  hp_next :: nat

record parameters =
  ps_p :: "nat list"
  ps_arr :: "nat option"

definition double_free :: pq_error where "double_free = UndefinedBehaviour ''double free''"
definition dangling :: pq_error where "dangling = UndefinedBehaviour ''use after free''"
definition out_of_bound :: pq_error where "out_of_bound = PqException ''Index out of bound''"

definition alloc_param :: "param \<Rightarrow> heap \<Rightarrow> nat \<times> heap" where
  "alloc_param p h = (hp_next h, h \<lparr> hp_params := (hp_params h)(hp_next h \<mapsto> p), hp_next := hp_next h + 1 \<rparr>)"

definition alloc_arr :: "(int \<times> nat \<times> int \<times> int) list \<Rightarrow> heap \<Rightarrow> nat \<times> heap" where
  "alloc_arr rows h = (hp_next h, h \<lparr> hp_arrs := (hp_arrs h)(hp_next h \<mapsto> rows), hp_next := hp_next h + 1 \<rparr>)"

definition free_param :: "nat \<Rightarrow> heap \<Rightarrow> heap result" where
  "free_param a h = (if hp_params h a = None then Inl double_free else Inr (h \<lparr> hp_params := (hp_params h)(a := None) \<rparr>))"

definition free_arr :: "nat \<Rightarrow> heap \<Rightarrow> heap result" where
  "free_arr a h = (if hp_arrs h a = None then Inl double_free else Inr (h \<lparr> hp_arrs := (hp_arrs h)(a := None) \<rparr>))"

section \<open>Operations\<close>

definition params_new :: parameters where "params_new = \<lparr> ps_p = [], ps_arr = None \<rparr>"

primrec read_params :: "heap \<Rightarrow> nat list \<Rightarrow> param list result" where
  "read_params h [] = Inr []"
| "read_params h (a # as) =
    (case hp_params h a of None \<Rightarrow> Inl dangling | Some p \<Rightarrow> rmap (\<lambda>ps. p # ps) (read_params h as))"

definition param_rows :: "nat list \<Rightarrow> param list \<Rightarrow> (int \<times> nat \<times> int \<times> int) list" where
  "param_rows as ps = map (\<lambda>(a, p). (pm_oid p, a, pm_length p, pm_format p)) (zip as ps)"

text \<open>The arrays are made once; the test is on the pointer.\<close>

definition params_init :: "heap \<times> parameters \<Rightarrow> (heap \<times> parameters) result" where
  "params_init = (\<lambda>(h, ps).
    case ps_arr ps of
      Some _ \<Rightarrow> Inr (h, ps)
    | None \<Rightarrow>
        bind_result (read_params h (ps_p ps)) (\<lambda>vs.
          let (a, h) = alloc_arr (param_rows (ps_p ps) vs) h in Inr (h, ps \<lparr> ps_arr := Some a \<rparr>)))"

primrec free_params :: "nat list \<Rightarrow> heap \<Rightarrow> heap result" where
  "free_params [] h = Inr h"
| "free_params (a # as) h = bind_result (free_param a h) (free_params as)"

text \<open>The arrays are freed, and the pointer is kept.\<close>

definition cleanup :: "bool \<Rightarrow> heap \<times> parameters \<Rightarrow> (heap \<times> parameters) result" where
  "cleanup clean_params = (\<lambda>(h, ps).
    bind_result (case ps_arr ps of None \<Rightarrow> Inr h | Some a \<Rightarrow> free_arr a h) (\<lambda>h.
    bind_result (if clean_params then free_params (ps_p ps) h else Inr h) (\<lambda>h. Inr (h, ps))))"

definition push_param :: "param \<Rightarrow> heap \<times> parameters \<Rightarrow> (heap \<times> parameters) result" where
  "push_param p s =
    bind_result (cleanup False s) (\<lambda>(h, ps).
      let (a, h) = alloc_param p h in Inr (h, ps \<lparr> ps_p := ps_p ps @ [a] \<rparr>))"

primrec push_all :: "param list \<Rightarrow> heap \<times> parameters \<Rightarrow> (heap \<times> parameters) result" where
  "push_all [] s = Inr s"
| "push_all (p # ps) s = bind_result (push_param p s) (push_all ps)"

definition params_of :: "param list \<Rightarrow> heap \<Rightarrow> (heap \<times> parameters) result" where
  "params_of vs h = push_all vs (h, params_new)"

definition replace_at :: "nat \<Rightarrow> param \<Rightarrow> heap \<times> parameters \<Rightarrow> (heap \<times> parameters) result" where
  "replace_at pos p = (\<lambda>(h, ps).
    if pos \<ge> length (ps_p ps) then Inl out_of_bound
    else
      bind_result (cleanup False (h, ps)) (\<lambda>(h, ps).
      bind_result (free_param (ps_p ps ! pos) h) (\<lambda>h.
        let (a, h) = alloc_param p h in Inr (h, ps \<lparr> ps_p := (ps_p ps)[pos := a] \<rparr>))))"

text \<open>The parameter that is removed is not freed, and the arrays stay as they are.\<close>

definition remove_at :: "nat \<Rightarrow> heap \<times> parameters \<Rightarrow> (heap \<times> parameters) result" where
  "remove_at pos = (\<lambda>(h, ps).
    if pos \<ge> length (ps_p ps) then Inl out_of_bound
    else Inr (h, ps \<lparr> ps_p := take pos (ps_p ps) @ drop (pos + 1) (ps_p ps) \<rparr>))"

definition get_parameter :: "nat \<Rightarrow> heap \<times> parameters \<Rightarrow> nat result" where
  "get_parameter pos = (\<lambda>(h, ps). if pos \<ge> length (ps_p ps) then Inl out_of_bound else Inr (ps_p ps ! pos))"

text \<open>The copies are added behind the parameters that the list has.\<close>

primrec copy_from :: "nat list \<Rightarrow> heap \<times> parameters \<Rightarrow> (heap \<times> parameters) result" where
  "copy_from [] s = Inr s"
| "copy_from (b # bs) s =
    (case s of (h, ps) \<Rightarrow>
       case hp_params h b of
         None \<Rightarrow> Inl dangling
       | Some p \<Rightarrow> let (a, h) = alloc_param p h in copy_from bs (h, ps \<lparr> ps_p := ps_p ps @ [a] \<rparr>))"

definition copy_construct :: "parameters \<Rightarrow> heap \<Rightarrow> (heap \<times> parameters) result" where
  "copy_construct b h = copy_from (ps_p b) (h, params_new)"

definition copy_assign :: "parameters \<Rightarrow> heap \<times> parameters \<Rightarrow> (heap \<times> parameters) result" where
  "copy_assign b s = copy_from (ps_p b) s"

text \<open>A moved vector is empty, a moved pointer is not changed: the result has the new list and what is left of the old one.\<close>

definition move_construct :: "parameters \<Rightarrow> parameters \<times> parameters" where
  "move_construct b = (b, b \<lparr> ps_p := [] \<rparr>)"

definition move_assign :: "parameters \<Rightarrow> parameters \<Rightarrow> parameters \<times> parameters" where
  "move_assign b old = (old \<lparr> ps_p := ps_p b, ps_arr := ps_arr b \<rparr>, b \<lparr> ps_p := [] \<rparr>)"

definition params_destroy :: "heap \<times> parameters \<Rightarrow> heap result" where
  "params_destroy s = rmap fst (cleanup True s)"

text \<open>
  What libpq is given: \<open>size\<close>, and behind \<open>types\<close>, \<open>values\<close>, \<open>lengths\<close> and \<open>formats\<close>, each of which
  runs \<open>init\<close> first, as many entries.
\<close>

primrec read_values :: "heap \<Rightarrow> (int \<times> nat \<times> int \<times> int) list \<Rightarrow> param list result" where
  "read_values h [] = Inr []"
| "read_values h (r # rows) =
    (case r of (oid, a, len, fmt) \<Rightarrow>
       case hp_params h a of
         None \<Rightarrow> Inl dangling
       | Some p \<Rightarrow> rmap (\<lambda>ps. \<lparr> pm_oid = oid, pm_value = pm_value p, pm_length = len, pm_format = fmt \<rparr> # ps) (read_values h rows))"

definition send_args :: "heap \<times> parameters \<Rightarrow> (param list \<times> heap \<times> parameters) result" where
  "send_args s =
    bind_result (params_init s) (\<lambda>(h, ps).
      case ps_arr ps of
        None \<Rightarrow> Inl dangling
      | Some a \<Rightarrow>
          case hp_arrs h a of
            None \<Rightarrow> Inl dangling
          | Some rows \<Rightarrow>
              if length rows < length (ps_p ps) then Inl overrun
              else rmap (\<lambda>vs. (vs, h, ps)) (read_values h (take (length (ps_p ps)) rows)))"

section \<open>Ownership\<close>

text \<open>Addresses that have not been given out are not live.\<close>

definition heap_ok :: "heap \<Rightarrow> bool" where
  "heap_ok h \<longleftrightarrow> (\<forall>a \<ge> hp_next h. hp_params h a = None \<and> hp_arrs h a = None)"

text \<open>
  A list holds the values \<open>xs\<close> when its parameters are live, different and not part of the memory
  \<open>h0\<close> of the rest of the program, and its arrays, if it has any, are live and describe them.
\<close>

definition holds :: "heap \<Rightarrow> heap \<Rightarrow> parameters \<Rightarrow> param list \<Rightarrow> bool" where
  "holds h0 h ps xs \<longleftrightarrow> heap_ok h \<and> distinct (ps_p ps) \<and> map (hp_params h) (ps_p ps) = map Some xs \<and>
    (\<forall>a. hp_params h0 a = (if a \<in> set (ps_p ps) then None else hp_params h a)) \<and>
    (case ps_arr ps of
       None \<Rightarrow> hp_arrs h = hp_arrs h0
     | Some r \<Rightarrow> hp_arrs h0 r = None \<and> hp_arrs h = (hp_arrs h0)(r \<mapsto> param_rows (ps_p ps) xs))"

lemma holds_length: "holds h0 h ps xs \<Longrightarrow> length (ps_p ps) = length xs"
  unfolding holds_def using map_eq_imp_length_eq by blast

lemma holds_nth:
  assumes "holds h0 h ps xs" "i < length xs"
  shows "hp_params h (ps_p ps ! i) = Some (xs ! i)"
proof -
  have "map (hp_params h) (ps_p ps) ! i = map Some xs ! i" using assms(1) by (simp add: holds_def)
  then show ?thesis using assms(2) holds_length [OF assms(1)] by simp
qed

lemma read_params_live: "map (hp_params h) as = map Some xs \<Longrightarrow> read_params h as = Inr xs"
  by (induction as arbitrary: xs) auto

lemma holds_new: "heap_ok h \<Longrightarrow> holds h h params_new []"
  by (simp add: holds_def params_new_def)

lemma holds_fresh:
  assumes "holds h0 h ps xs" "hp_next h \<le> a"
  shows "a \<notin> set (ps_p ps)" "hp_params h a = None" "hp_arrs h a = None" "hp_params h0 a = None" "hp_arrs h0 a = None"
proof -
  show n: "hp_params h a = None" "hp_arrs h a = None" using assms by (simp_all add: holds_def heap_ok_def)
  show p: "a \<notin> set (ps_p ps)"
  proof
    assume "a \<in> set (ps_p ps)"
    then have "hp_params h a \<in> set (map (hp_params h) (ps_p ps))" by simp
    moreover have "map (hp_params h) (ps_p ps) = map Some xs" using assms(1) by (simp add: holds_def)
    ultimately have "hp_params h a \<in> set (map Some xs)" by (simp only:)
    then show False using n(1) by auto
  qed
  show "hp_params h0 a = None" using assms(1) n(1) p by (simp add: holds_def)
  show "hp_arrs h0 a = None" using assms(1) n(2) by (auto simp: holds_def split: option.splits if_splits)
qed

lemma holds_push:
  assumes h: "holds h0 h ps xs" "ps_arr ps = None"
  shows "\<exists>h' ps'. push_param p (h, ps) = Inr (h', ps') \<and> holds h0 h' ps' (xs @ [p]) \<and> ps_arr ps' = None"
proof -
  note fr = holds_fresh [OF h(1) order.refl]
  have m: "map ((hp_params h)(hp_next h \<mapsto> p)) (ps_p ps) = map (hp_params h) (ps_p ps)"
    using fr(1) by (intro map_cong) auto
  show ?thesis
    using h fr m by (auto simp: push_param_def cleanup_def alloc_param_def holds_def heap_ok_def)
qed

lemma holds_replace:
  assumes h: "holds h0 h ps xs" "ps_arr ps = None" and i: "i < length xs"
  shows "\<exists>h' ps'. replace_at i p (h, ps) = Inr (h', ps') \<and> holds h0 h' ps' (xs[i := p]) \<and> ps_arr ps' = None"
proof -
  let ?o = "ps_p ps ! i" and ?n = "hp_next h"
  note fr = holds_fresh [OF h(1) order.refl] and len = holds_length [OF h(1)]
  have d: "distinct (ps_p ps)" using h(1) by (simp add: holds_def)
  have io: "?o \<in> set (ps_p ps)" using i len by simp
  have m: "map ((hp_params h)(?o := None, ?n \<mapsto> p)) ((ps_p ps)[i := ?n]) = map Some (xs[i := p])"
  proof (rule nth_equalityI)
    fix j assume j: "j < length (map ((hp_params h)(?o := None, ?n \<mapsto> p)) ((ps_p ps)[i := ?n]))"
    then have l: "j < length (ps_p ps)" by simp
    then have "ps_p ps ! j \<noteq> ?n" using fr(1) nth_mem by metis
    moreover have "ps_p ps ! j \<noteq> ?o" if "j \<noteq> i" using d l i len that by (simp add: nth_eq_iff_index_eq)
    ultimately show "map ((hp_params h)(?o := None, ?n \<mapsto> p)) ((ps_p ps)[i := ?n]) ! j = map Some (xs[i := p]) ! j"
      using l len holds_nth [OF h(1)] i by (cases "j = i") (simp_all add: nth_list_update)
  qed (simp add: len)
  have st: "set ((ps_p ps)[i := ?n]) = insert ?n (set (ps_p ps) - {?o})" using d i len by (simp add: set_update_distinct)
  have dd: "distinct ((ps_p ps)[i := ?n])" using d fr(1) by (intro distinct_list_update) auto
  have live: "hp_params h ?o \<noteq> None" using holds_nth [OF h(1) i] by simp
  have own: "hp_params h0 a = (if a \<in> set ((ps_p ps)[i := ?n]) then None else ((hp_params h)(?o := None, ?n \<mapsto> p)) a)" for a
    using h(1) fr(4) io unfolding st by (auto simp: holds_def)
  let ?h = "h \<lparr> hp_params := (hp_params h)(?o := None, ?n \<mapsto> p), hp_next := ?n + 1 \<rparr>" and ?ps = "ps \<lparr> ps_p := (ps_p ps)[i := ?n] \<rparr>"
  have "heap_ok ?h" using h(1) by (auto simp: holds_def heap_ok_def)
  moreover have "hp_arrs h = hp_arrs h0" using h by (simp add: holds_def)
  ultimately have "holds h0 ?h ?ps (xs[i := p])"
    unfolding holds_def using dd m h(2) own by (intro conjI) simp_all
  moreover have "replace_at i p (h, ps) = Inr (?h, ?ps)"
    using h(2) live i len by (simp add: replace_at_def cleanup_def free_param_def alloc_param_def)
  ultimately show ?thesis using h(2) by simp
qed

lemma free_params_live:
  "distinct as \<Longrightarrow> \<forall>a \<in> set as. hp_params h a \<noteq> None \<Longrightarrow>
    free_params as h = Inr (h \<lparr> hp_params := hp_params h |` (- set as) \<rparr>)"
proof (induction as arbitrary: h)
  case (Cons a as)
  let ?h = "h \<lparr> hp_params := (hp_params h)(a := None) \<rparr>"
  have "\<forall>b \<in> set as. hp_params ?h b \<noteq> None" using Cons.prems by auto
  then have "free_params as ?h = Inr (?h \<lparr> hp_params := hp_params ?h |` (- set as) \<rparr>)"
    using Cons.prems(1) by (intro Cons.IH) simp_all
  moreover have "((hp_params h)(a := None)) |` (- set as) = hp_params h |` (- set (a # as))"
    by (auto simp: fun_eq_iff restrict_map_def)
  ultimately show ?case using Cons.prems(2) by (simp add: free_param_def)
qed (simp add: restrict_map_def)

lemma holds_live: "holds h0 h ps xs \<Longrightarrow> \<forall>a \<in> set (ps_p ps). hp_params h a \<noteq> None"
  using holds_nth holds_length by (metis in_set_conv_nth option.distinct(1))

text \<open>The parameters are freed once each; what is left is the memory of the rest of the program.\<close>

lemma holds_destroy:
  assumes "holds h0 h ps xs"
  shows "\<exists>h'. params_destroy (h, ps) = Inr h' \<and> hp_params h' = hp_params h0 \<and> hp_arrs h' = hp_arrs h0"
proof -
  have d: "distinct (ps_p ps)" using assms by (simp add: holds_def)
  have own: "hp_params h |` (- set (ps_p ps)) = hp_params h0" using assms by (simp add: holds_def fun_eq_iff restrict_map_def)
  have f: "free_params (ps_p ps) h1 = Inr (h1 \<lparr> hp_params := hp_params h0 \<rparr>)" if "hp_params h1 = hp_params h" for h1
    using free_params_live [OF d, of h1] holds_live [OF assms] that own by simp
  show ?thesis
  proof (cases "ps_arr ps")
    case None
    then show ?thesis using f [of h] assms by (simp add: params_destroy_def cleanup_def holds_def)
  next
    case (Some r)
    then have a: "hp_arrs h0 r = None" "hp_arrs h = (hp_arrs h0)(r \<mapsto> param_rows (ps_p ps) xs)" using assms by (simp_all add: holds_def)
    have "((hp_arrs h0)(r \<mapsto> param_rows (ps_p ps) xs))(r := None) = hp_arrs h0" using a(1) by (simp add: fun_eq_iff)
    then show ?thesis using Some f [of "h \<lparr> hp_arrs := hp_arrs h0 \<rparr>"] a by (simp add: params_destroy_def cleanup_def free_arr_def)
  qed
qed

lemma read_values_rows: "map (hp_params h) as = map Some xs \<Longrightarrow> read_values h (param_rows as xs) = Inr xs"
  by (induction as arbitrary: xs) (auto simp: param_rows_def)

text \<open>What is sent are the values, in order.\<close>

lemma holds_init:
  assumes "holds h0 h ps xs"
  shows "\<exists>h' ps'. params_init (h, ps) = Inr (h', ps') \<and> holds h0 h' ps' xs \<and> ps_p ps' = ps_p ps \<and> ps_arr ps' \<noteq> None"
proof (cases "ps_arr ps")
  case None
  note fr = holds_fresh [OF assms order.refl]
  have "map (hp_params h) (ps_p ps) = map Some xs" using assms by (simp add: holds_def)
  then show ?thesis
    using None assms fr by (auto simp: params_init_def read_params_live alloc_arr_def holds_def heap_ok_def)
next
  case (Some r)
  then show ?thesis using assms by (simp add: params_init_def)
qed

lemma holds_send:
  assumes "holds h0 h ps xs"
  shows "\<exists>h' ps'. send_args (h, ps) = Inr (xs, h', ps') \<and> holds h0 h' ps' xs \<and> ps_arr ps' \<noteq> None"
proof -
  from holds_init [OF assms] obtain h' ps' r where i: "params_init (h, ps) = Inr (h', ps')" "holds h0 h' ps' xs" "ps_arr ps' = Some r"
    by auto
  have "hp_arrs h' r = Some (param_rows (ps_p ps') xs)" "map (hp_params h') (ps_p ps') = map Some xs" using i(2,3) by (simp_all add: holds_def)
  moreover have "length (param_rows (ps_p ps') xs) = length (ps_p ps')" using holds_length [OF i(2)] by (simp add: param_rows_def)
  ultimately show ?thesis using i by (simp add: send_args_def read_values_rows)
qed

text \<open>
  A parameter that is removed is not freed: it becomes part of the memory that the list does not free.
\<close>

definition leaks :: "heap \<Rightarrow> nat list \<Rightarrow> param list \<Rightarrow> heap \<Rightarrow> bool" where
  "leaks h as rs h' \<longleftrightarrow> length as = length rs \<and> distinct as \<and> (\<forall>a \<in> set as. hp_params h a = None) \<and>
     hp_params h' = (hp_params h)(as [\<mapsto>] rs) \<and> hp_arrs h' = hp_arrs h"

lemma leaks_refl: "leaks h [] [] h"
  by (simp add: leaks_def)

lemma leaks_dom: "leaks h as rs h' \<Longrightarrow> dom (hp_params h') = dom (hp_params h) \<union> set as"
  by (simp add: leaks_def Un_commute)

lemma leaks_trans:
  assumes "leaks h1 as rs h2" "leaks h2 bs ts h3"
  shows "leaks h1 (as @ bs) (rs @ ts) h3"
proof -
  have "set bs \<inter> dom (hp_params h2) = {}" using assms(2) by (auto simp: leaks_def)
  moreover have "m(as [\<mapsto>] rs, bs [\<mapsto>] ts) = m(as @ bs [\<mapsto>] rs @ ts)" for m :: "nat \<rightharpoonup> param"
    using assms by (simp add: leaks_def map_upds_def)
  ultimately show ?thesis using assms leaks_dom [OF assms(1)] by (auto simp: leaks_def)
qed

lemma nth_notin_others: "distinct xs \<Longrightarrow> i < length xs \<Longrightarrow> set (take i xs @ drop (Suc i) xs) = set xs - {xs ! i}"
  by (subst (3) id_take_nth_drop [of i xs], simp, subst (asm) id_take_nth_drop [of i xs], auto)

lemma holds_remove:
  assumes h: "holds h0 h ps xs" "ps_arr ps = None" and i: "i < length xs"
  shows "\<exists>ps' a h1. remove_at i (h, ps) = Inr (h, ps') \<and> leaks h0 [a] [xs ! i] h1
    \<and> holds h1 h ps' (take i xs @ drop (i + 1) xs) \<and> ps_arr ps' = None"
proof -
  let ?a = "ps_p ps ! i" and ?as = "take i (ps_p ps) @ drop (Suc i) (ps_p ps)"
  let ?h = "h0 \<lparr> hp_params := (hp_params h0)(?a \<mapsto> xs ! i) \<rparr>"
  have len: "i < length (ps_p ps)" and d: "distinct (ps_p ps)" and m: "map (hp_params h) (ps_p ps) = map Some xs"
    using i holds_length [OF h(1)] h(1) by (simp_all add: holds_def)
  have a: "?a \<in> set (ps_p ps)" "hp_params h ?a = Some (xs ! i)" using len holds_nth [OF h(1) i] by simp_all
  have "distinct ?as" using d by (auto dest: set_take_disj_set_drop_if_distinct [of _ i "Suc i"])
  moreover have "map (hp_params h) ?as = map Some (take i xs @ drop (Suc i) xs)" using m by (simp flip: take_map drop_map)
  moreover have "hp_params ?h b = (if b \<in> set ?as then None else hp_params h b)" for b
    using h(1) a unfolding nth_notin_others [OF d len] by (auto simp: holds_def)
  ultimately have "holds ?h h (ps \<lparr> ps_p := ?as \<rparr>) (take i xs @ drop (i + 1) xs)" using h by (simp add: holds_def)
  moreover have "leaks h0 [?a] [xs ! i] ?h" using h(1) a(1) by (simp add: leaks_def holds_def)
  ultimately show ?thesis using len h(2) by (auto simp: remove_at_def)
qed

section \<open>The list against its specification\<close>

text \<open>
  The operations of a program on one list, and what they do to a list of values: what is sent, what is
  removed, and the new list.
\<close>

datatype params_op = Push param | Replace nat param | Remove nat | Send

fun run_params_op :: "params_op \<Rightarrow> heap \<times> parameters \<Rightarrow> (param list list \<times> heap \<times> parameters) result" where
  "run_params_op (Push p) s = rmap (\<lambda>s. ([], s)) (push_param p s)"
| "run_params_op (Replace i p) s = rmap (\<lambda>s. ([], s)) (replace_at i p s)"
| "run_params_op (Remove i) s = rmap (\<lambda>s. ([], s)) (remove_at i s)"
| "run_params_op Send s = rmap (\<lambda>(vs, s). ([vs], s)) (send_args s)"

primrec run_params_ops :: "params_op list \<Rightarrow> heap \<times> parameters \<Rightarrow> (param list list \<times> heap \<times> parameters) result" where
  "run_params_ops [] s = Inr ([], s)"
| "run_params_ops (x # ops) s = bind_result (run_params_op x s) (\<lambda>(out, s). rmap (\<lambda>(outs, s). (out @ outs, s)) (run_params_ops ops s))"

fun spec_op :: "params_op \<Rightarrow> param list \<Rightarrow> (param list list \<times> param list \<times> param list) result" where
  "spec_op (Push p) xs = Inr ([], [], xs @ [p])"
| "spec_op (Replace i p) xs = (if i < length xs then Inr ([], [], xs[i := p]) else Inl out_of_bound)"
| "spec_op (Remove i) xs = (if i < length xs then Inr ([], [xs ! i], take i xs @ drop (i + 1) xs) else Inl out_of_bound)"
| "spec_op Send xs = Inr ([xs], [], xs)"

primrec spec_ops :: "params_op list \<Rightarrow> param list \<Rightarrow> (param list list \<times> param list \<times> param list) result" where
  "spec_ops [] xs = Inr ([], [], xs)"
| "spec_ops (x # ops) xs =
    bind_result (spec_op x xs) (\<lambda>(out, rs, xs). rmap (\<lambda>(outs, rss, xs). (out @ outs, rs @ rss, xs)) (spec_ops ops xs))"

text \<open>Nothing changes the list once it has been sent.\<close>

definition sends_last :: "params_op list \<Rightarrow> bool" where
  "sends_last ops \<longleftrightarrow> (\<forall>x \<in> set (dropWhile (\<lambda>x. x \<noteq> Send) ops). x = Send)"

lemma sends_last_simps [simp]:
  "sends_last []" "sends_last (Push p # ops) = sends_last ops" "sends_last (Replace i p # ops) = sends_last ops"
  "sends_last (Remove i # ops) = sends_last ops" "sends_last (Send # ops) = (set ops \<subseteq> {Send})"
  by (auto simp: sends_last_def)

lemma only_sends: "set ops \<subseteq> {Send} \<Longrightarrow> sends_last ops"
  by (cases ops) auto

lemma run_op_refines:
  assumes "holds h0 h ps xs" "x \<noteq> Send \<Longrightarrow> ps_arr ps = None"
  shows "case spec_op x xs of
      Inl e \<Rightarrow> run_params_op x (h, ps) = Inl e
    | Inr (out, rs, ys) \<Rightarrow> \<exists>h' ps' as h1. run_params_op x (h, ps) = Inr (out, h', ps') \<and> leaks h0 as rs h1 \<and> holds h1 h' ps' ys
        \<and> (x \<noteq> Send \<longrightarrow> ps_arr ps' = None)"
proof (cases x)
  case (Push p)
  then show ?thesis using holds_push [OF assms(1), of p] assms(2) leaks_refl [of h0] by fastforce
next
  case (Replace i p)
  then show ?thesis using holds_replace [OF assms(1), of i p] assms(2) holds_length [OF assms(1)] leaks_refl [of h0]
    by (cases "i < length xs") (fastforce simp: replace_at_def)+
next
  case (Remove i)
  then show ?thesis using holds_remove [OF assms(1), of i] assms(2) holds_length [OF assms(1)]
    by (cases "i < length xs") (fastforce simp: remove_at_def)+
next
  case Send
  then show ?thesis using holds_send [OF assms(1)] leaks_refl [of h0] by fastforce
qed

lemma run_ops_refines:
  assumes "holds h0 h ps xs" "sends_last ops" "ps_arr ps \<noteq> None \<Longrightarrow> set ops \<subseteq> {Send}"
  shows "case spec_ops ops xs of
      Inl e \<Rightarrow> run_params_ops ops (h, ps) = Inl e
    | Inr (outs, rs, ys) \<Rightarrow> \<exists>h' ps' as h1. run_params_ops ops (h, ps) = Inr (outs, h', ps') \<and> leaks h0 as rs h1 \<and> holds h1 h' ps' ys"
  using assms
proof (induction ops arbitrary: h0 h ps xs)
  case Nil
  then show ?case using leaks_refl [of h0] by auto
next
  case (Cons x ops)
  have x: "x \<noteq> Send \<Longrightarrow> ps_arr ps = None" using Cons.prems(3) by (cases "ps_arr ps") auto
  note r = run_op_refines [of h0 h ps xs x, OF Cons.prems(1) x]
  show ?case
  proof (cases "spec_op x xs")
    case (Inr oy)
    then obtain out rs ys where o1: "spec_op x xs = Inr (out, rs, ys)" by (cases oy) auto
    then obtain h' ps' as h1 where o2: "run_params_op x (h, ps) = Inr (out, h', ps')" "leaks h0 as rs h1" "holds h1 h' ps' ys"
        "x \<noteq> Send \<longrightarrow> ps_arr ps' = None"
      using r by auto
    have "sends_last ops" "x = Send \<Longrightarrow> set ops \<subseteq> {Send}" using Cons.prems(2) by (cases x; auto intro: only_sends)+
    then have c: "case spec_ops ops ys of Inl e \<Rightarrow> run_params_ops ops (h', ps') = Inl e
        | Inr (outs, rs, zs) \<Rightarrow> \<exists>h'' ps'' as h2. run_params_ops ops (h', ps') = Inr (outs, h'', ps'') \<and> leaks h1 as rs h2 \<and> holds h2 h'' ps'' zs"
      using o2 by (intro Cons.IH) auto
    show ?thesis
    proof (cases "spec_ops ops ys")
      case (Inr oz)
      obtain outs rss zs where oz: "spec_ops ops ys = Inr (outs, rss, zs)" using Inr by (cases oz) auto
      with c obtain h'' ps'' bs h2 where z: "run_params_ops ops (h', ps') = Inr (outs, h'', ps'')" "leaks h1 bs rss h2" "holds h2 h'' ps'' zs"
        by auto
      show ?thesis using o1 o2(1) oz z leaks_trans [OF o2(2) z(2)] by auto
    qed (use o1 o2(1) c in simp)
  qed (use r in simp)
qed

text \<open>
  C11: a program that builds a list of parameters with \<open>push_back\<close>, changes it with \<open>push_back\<close>, \<open>replace\<close> and
  \<open>remove_at\<close>, and then sends it any number of times sees a list of values: every time exactly the values
  are sent, in order, an index that is out of range throws, no memory is read or freed that is not live, and the
  destructor frees all that the list has allocated and nothing else, except for the parameters that were
  removed, each of which stays allocated.
\<close>

theorem params_refine:
  assumes "heap_ok h" "sends_last ops"
  shows "case spec_ops ops [] of
      Inl e \<Rightarrow> run_params_ops ops (h, params_new) = Inl e
    | Inr (outs, removed, xs) \<Rightarrow> \<exists>s h' as. run_params_ops ops (h, params_new) = Inr (outs, s) \<and> params_destroy s = Inr h'
        \<and> length as = length removed \<and> distinct as \<and> (\<forall>a \<in> set as. hp_params h a = None)
        \<and> hp_params h' = (hp_params h)(as [\<mapsto>] removed) \<and> hp_arrs h' = hp_arrs h"
proof -
  have r: "case spec_ops ops [] of Inl e \<Rightarrow> run_params_ops ops (h, params_new) = Inl e
    | Inr (outs, rs, xs) \<Rightarrow> \<exists>h' ps' as h1. run_params_ops ops (h, params_new) = Inr (outs, h', ps') \<and> leaks h as rs h1 \<and> holds h1 h' ps' xs"
    using run_ops_refines [OF holds_new [OF assms(1)] assms(2)] by (simp add: params_new_def)
  show ?thesis
  proof (cases "spec_ops ops []")
    case (Inr oy)
    then obtain outs rs xs where o: "spec_ops ops [] = Inr (outs, rs, xs)" by (cases oy) auto
    with r obtain h' ps' as h1 where x: "run_params_ops ops (h, params_new) = Inr (outs, h', ps')" "leaks h as rs h1" "holds h1 h' ps' xs"
      by auto
    obtain h2 where "params_destroy (h', ps') = Inr h2" "hp_params h2 = hp_params h1" "hp_arrs h2 = hp_arrs h1"
      using holds_destroy [OF x(3)] by blast
    then show ?thesis using o x(1,2) by (auto simp: leaks_def)
  qed (use r in simp)
qed

section \<open>Use after sending\<close>

text \<open>The four arrays are freed and their pointers kept.\<close>

definition stale :: "heap \<times> parameters \<Rightarrow> bool" where
  "stale = (\<lambda>(h, ps). \<exists>r. ps_arr ps = Some r \<and> hp_arrs h r = None)"

lemma stale_ends:
  assumes "stale s"
  shows "send_args s = Inl dangling \<and> params_destroy s = Inl double_free \<and> push_param p s = Inl double_free"
  using assms
  by (auto simp: stale_def send_args_def params_init_def params_destroy_def push_param_def cleanup_def free_arr_def)

text \<open>
  C37: a list that is not empty and is changed with \<open>push_back\<close> or \<open>replace\<close> after it has been sent is broken: the change itself goes well, but
  the arrays it frees stay in use, so to send the list again reads freed memory, and another
  change or the destructor frees it a second time.
\<close>

theorem changed_after_send:
  assumes "holds h0 h ps xs" "send_args (h, ps) = Inr (vs, s)" "i < length xs"
  shows "vs = xs
    \<and> (\<exists>s1. push_param p s = Inr s1 \<and> send_args s1 = Inl dangling \<and> params_destroy s1 = Inl double_free \<and> push_param q s1 = Inl double_free)
    \<and> (\<exists>s2. replace_at i p s = Inr s2 \<and> send_args s2 = Inl dangling \<and> params_destroy s2 = Inl double_free \<and> push_param q s2 = Inl double_free)"
proof -
  from holds_send [OF assms(1)] assms(2) obtain h' ps' r where s: "s = (h', ps')" "vs = xs" "holds h0 h' ps' xs" "ps_arr ps' = Some r" by auto
  then have r: "hp_arrs h' r \<noteq> None" by (simp add: holds_def)
  have "\<exists>s1. push_param p s = Inr s1 \<and> stale s1"
    using r s by (simp add: push_param_def cleanup_def free_arr_def alloc_param_def stale_def)
  moreover have "hp_params h' (ps_p ps' ! i) \<noteq> None" "i < length (ps_p ps')"
    using holds_nth [OF s(3) assms(3)] holds_length [OF s(3)] assms(3) by simp_all
  then have "\<exists>s2. replace_at i p s = Inr s2 \<and> stale s2"
    using r s by (simp add: replace_at_def cleanup_def free_arr_def free_param_def alloc_param_def stale_def)
  ultimately show ?thesis using s(2) stale_ends by blast
qed

lemma read_values_take: "read_values h rows = Inr xs \<Longrightarrow> read_values h (take n rows) = Inr (take n xs)"
proof (induction rows arbitrary: n xs)
  case (Cons r rows)
  then show ?case by (cases n; cases "read_values h rows") (auto split: prod.splits option.splits)
qed simp

text \<open>
  A list from which a parameter is removed after it has been sent keeps its arrays, which still have the values
  from before: the next time the last value is missing, whichever was removed.
\<close>

theorem removed_after_send:
  assumes "holds h0 h ps xs" "send_args (h, ps) = Inr (vs, s)" "i < length xs"
  shows "\<exists>s1. remove_at i s = Inr s1 \<and> send_args s1 = Inr (butlast xs, s1)"
proof -
  from holds_send [OF assms(1)] assms(2) obtain h' ps' r where s: "s = (h', ps')" "holds h0 h' ps' xs" "ps_arr ps' = Some r" by auto
  let ?as = "take i (ps_p ps') @ drop (Suc i) (ps_p ps')"
  have len: "length (ps_p ps') = length xs" using holds_length [OF s(2)] .
  have rows: "hp_arrs h' r = Some (param_rows (ps_p ps') xs)" "map (hp_params h') (ps_p ps') = map Some xs" using s(2,3) by (simp_all add: holds_def)
  have "read_values h' (take (length ?as) (param_rows (ps_p ps') xs)) = Inr (butlast xs)"
    using read_values_take [OF read_values_rows [OF rows(2)], of "length ?as"] len assms(3) by (simp add: butlast_conv_take min_def)
  moreover have "length ?as \<le> length (param_rows (ps_p ps') xs)" using len assms(3) by (simp add: param_rows_def)
  ultimately show ?thesis using s rows len assms(3) by (auto simp: remove_at_def send_args_def params_init_def)
qed

section \<open>Copies and moves\<close>

lemma holds_copy:
  assumes "holds h0 h ps xs" "ps_arr ps = None" "map (hp_params h) bs = map Some ys"
  shows "\<exists>h' ps'. copy_from bs (h, ps) = Inr (h', ps') \<and> holds h0 h' ps' (xs @ ys) \<and> ps_arr ps' = None"
  using assms
proof (induction bs arbitrary: h ps xs ys)
  case (Cons b bs)
  then obtain y zs where ys: "ys = y # zs" "hp_params h b = Some y" "map (hp_params h) bs = map Some zs" by (cases ys) auto
  from holds_push [OF Cons.prems(1,2), of y] obtain h1 ps1
    where p: "push_param y (h, ps) = Inr (h1, ps1)" "holds h0 h1 ps1 (xs @ [y])" "ps_arr ps1 = None" by blast
  have h1: "h1 = snd (alloc_param y h)" "ps1 = ps \<lparr> ps_p := ps_p ps @ [hp_next h] \<rparr>"
    using p(1) Cons.prems(2) by (simp_all add: push_param_def cleanup_def alloc_param_def)
  have "hp_params h (hp_next h) = None" using holds_fresh(2) [OF Cons.prems(1) order.refl] .
  then have "hp_next h \<notin> set bs" using ys(3) by (metis map_eq_conv in_set_conv_nth length_map nth_map option.distinct(1))
  then have "map (hp_params h1) bs = map (hp_params h) bs" by (intro map_cong) (auto simp: h1 alloc_param_def)
  then have "map (hp_params h1) bs = map Some zs" using ys(3) by (simp only:)
  from Cons.IH [OF p(2,3) this] show ?case using ys h1 by (simp add: alloc_param_def)
qed simp

lemma copy_shape:
  "\<forall>b \<in> set bs. hp_params h b \<noteq> None \<Longrightarrow>
    \<exists>h' ps'. copy_from bs (h, ps) = Inr (h', ps') \<and> ps_arr ps' = ps_arr ps \<and> hp_arrs h' = hp_arrs h
      \<and> length (ps_p ps') = length (ps_p ps) + length bs"
proof (induction bs arbitrary: h ps)
  case (Cons b bs)
  then obtain y where y: "hp_params h b = Some y" by auto
  let ?h = "h \<lparr> hp_params := (hp_params h)(hp_next h \<mapsto> y), hp_next := hp_next h + 1 \<rparr>" and ?ps = "ps \<lparr> ps_p := ps_p ps @ [hp_next h] \<rparr>"
  have "\<forall>b \<in> set bs. hp_params ?h b \<noteq> None" using Cons.prems by simp
  from Cons.IH [OF this, of ?ps] show ?case using y by (auto simp: alloc_param_def)
qed simp

text \<open>
  A copy of a list is independent of it: it is sent with the same values, and its destructor leaves
  the memory as it was. But the assignment of a list adds the values to those that are there, and
  once the target has been sent the arrays are too short for it; and a list that is moved after it
  has been sent shares its arrays with the one it is moved to, so the second destructor frees them again.
\<close>

theorem copies_and_moves:
  assumes "holds h0 h b xs" "holds h1 h ps ys" "xs \<noteq> []" "move_construct b = (c, rest)"
  shows "(\<exists>s s' h'. copy_construct b h = Inr s \<and> send_args s = Inr (xs, s') \<and> params_destroy s' = Inr h'
      \<and> hp_params h' = hp_params h \<and> hp_arrs h' = hp_arrs h)
    \<and> (ps_arr ps = None \<longrightarrow> (\<exists>s s'. copy_assign b (h, ps) = Inr s \<and> send_args s = Inr (ys @ xs, s')))
    \<and> (ps_arr ps \<noteq> None \<longrightarrow> (\<exists>s. copy_assign b (h, ps) = Inr s \<and> send_args s = Inl overrun))
    \<and> (\<exists>h'. params_destroy (h, c) = Inr h' \<and> params_destroy (h', rest) = (if ps_arr b = None then Inr h' else Inl double_free))"
proof -
  have b: "map (hp_params h) (ps_p b) = map Some xs" using assms(1) by (simp add: holds_def)
  have ok: "heap_ok h" using assms(1) by (simp add: holds_def)
  have new: "ps_arr params_new = None" by (simp add: params_new_def)
  have "\<exists>s s' h'. copy_construct b h = Inr s \<and> send_args s = Inr (xs, s') \<and> params_destroy s' = Inr h'
      \<and> hp_params h' = hp_params h \<and> hp_arrs h' = hp_arrs h"
  proof -
    obtain h2 c2 where c: "copy_construct b h = Inr (h2, c2)" "holds h h2 c2 xs"
      using holds_copy [OF holds_new [OF ok] new b] unfolding copy_construct_def by auto
    obtain h3 c3 where s: "send_args (h2, c2) = Inr (xs, h3, c3)" "holds h h3 c3 xs" using holds_send [OF c(2)] by blast
    show ?thesis using c(1) s(1) holds_destroy [OF s(2)] by blast
  qed
  moreover have "\<exists>s s'. copy_assign b (h, ps) = Inr s \<and> send_args s = Inr (ys @ xs, s')" if n: "ps_arr ps = None"
  proof -
    obtain h2 p2 where c: "copy_assign b (h, ps) = Inr (h2, p2)" "holds h1 h2 p2 (ys @ xs)"
      using holds_copy [OF assms(2) n b] unfolding copy_assign_def by blast
    show ?thesis using c(1) holds_send [OF c(2)] by blast
  qed
  moreover have "\<exists>s. copy_assign b (h, ps) = Inr s \<and> send_args s = Inl overrun" if sent: "ps_arr ps \<noteq> None"
  proof -
    obtain r where r: "ps_arr ps = Some r" "hp_arrs h r = Some (param_rows (ps_p ps) ys)" using sent assms(2) by (auto simp: holds_def)
    moreover have "length (param_rows (ps_p ps) ys) = length ys" using holds_length [OF assms(2)] by (simp add: param_rows_def)
    moreover have "0 < length (ps_p b)" using assms(3) holds_length [OF assms(1)] by simp
    ultimately show ?thesis
      using copy_shape [OF holds_live [OF assms(1)], of ps] holds_length [OF assms(2)]
      unfolding copy_assign_def by (fastforce simp: send_args_def params_init_def)
  qed
  moreover have "\<exists>h'. params_destroy (h, c) = Inr h' \<and> params_destroy (h', rest) = (if ps_arr b = None then Inr h' else Inl double_free)"
  proof -
    have c: "c = b" "rest = b \<lparr> ps_p := [] \<rparr>" using assms(4) by (auto simp: move_construct_def)
    obtain h' where h': "params_destroy (h, c) = Inr h'" "hp_arrs h' = hp_arrs h0" using holds_destroy [OF assms(1)] c by blast
    show ?thesis
    proof (cases "ps_arr b")
      case None
      then show ?thesis using h' by (simp add: c params_destroy_def cleanup_def)
    next
      case (Some r)
      then have "hp_arrs h' r = None" using assms(1) h'(2) by (simp add: holds_def)
      then show ?thesis using Some h' by (simp add: c params_destroy_def cleanup_def free_arr_def)
    qed
  qed
  ultimately show ?thesis by blast
qed

section \<open>Witnesses\<close>

definition empty_heap :: heap where
  "empty_heap = \<lparr> hp_params = (\<lambda>_. None), hp_arrs = (\<lambda>_. None), hp_next = 0 \<rparr>"

definition five :: param where "five = new_int32 True 5"
definition nine :: param where "nine = new_int64 True 9"

lemma empty_heap_ok: "heap_ok empty_heap"
  by (simp add: heap_ok_def empty_heap_def)

theorem params_refine_witness:
  "\<exists>s h' a. run_params_ops [Push five, Push five, Replace 0 nine, Push nine, Remove 1, Send, Send] (empty_heap, params_new)
      = Inr ([[nine, nine], [nine, nine]], s)
    \<and> params_destroy s = Inr h' \<and> hp_params h' = [a \<mapsto> five] \<and> hp_arrs h' = hp_arrs empty_heap"
proof -
  let ?ops = "[Push five, Push five, Replace 0 nine, Push nine, Remove 1, Send, Send]"
  have s: "spec_ops ?ops [] = Inr ([[nine, nine], [nine, nine]], [five], [nine, nine])" by simp
  have "sends_last ?ops" by simp
  from params_refine [OF empty_heap_ok this] obtain s h' as where x: "run_params_ops ?ops (empty_heap, params_new) = Inr ([[nine, nine], [nine, nine]], s)"
      "params_destroy s = Inr h'" "length as = 1" "hp_params h' = (hp_params empty_heap)(as [\<mapsto>] [five])" "hp_arrs h' = hp_arrs empty_heap"
    unfolding s by auto
  moreover from x(3) obtain a where "as = [a]" by (auto simp: length_Suc_conv)
  ultimately show ?thesis by (auto simp: empty_heap_def)
qed

lemma five_list: "\<exists>h ps. push_param five (empty_heap, params_new) = Inr (h, ps) \<and> holds empty_heap h ps [five] \<and> ps_arr ps = None"
  using holds_push [OF holds_new [OF empty_heap_ok], of five] by (simp add: params_new_def)

theorem changed_after_send_witness:
  "\<exists>h ps s s1. push_param five (empty_heap, params_new) = Inr (h, ps) \<and> send_args (h, ps) = Inr ([five], s)
    \<and> push_param nine s = Inr s1 \<and> send_args s1 = Inl dangling \<and> params_destroy s1 = Inl double_free"
proof -
  obtain h ps where l: "push_param five (empty_heap, params_new) = Inr (h, ps)" "holds empty_heap h ps [five]" using five_list by blast
  obtain s where s: "send_args (h, ps) = Inr ([five], s)" using holds_send [OF l(2)] by auto
  have "0 < length [five]" by simp
  from changed_after_send [OF l(2) s this, of nine nine] l(1) s show ?thesis by blast
qed

theorem copies_and_moves_witness:
  "\<exists>h ps s s' h'. push_param five (empty_heap, params_new) = Inr (h, ps) \<and> copy_assign ps (h, ps) = Inr s \<and> send_args s = Inr ([five, five], s')
    \<and> params_destroy (h, ps) = Inr h'"
proof -
  obtain h ps where l: "push_param five (empty_heap, params_new) = Inr (h, ps)" "holds empty_heap h ps [five]" "ps_arr ps = None" using five_list by blast
  have m: "move_construct ps = (ps, ps \<lparr> ps_p := [] \<rparr>)" by (simp add: move_construct_def)
  show ?thesis using copies_and_moves [OF l(2) l(2) _ m] l(1,3) by auto
qed

end
