(* ===== verification/Async_Calls.thy ===== *)
theory Async_Calls
  imports Prelude "HOL-Library.Multiset"
begin

text \<open>
  The asynchronous calls of a database (\<open>database.h\<close>) and of a prepared statement
  (\<open>data_prepared.h\<close>): statements, transactions and savepoints, each with a callback.

  The strand of a database is a list of items, of which the first one has the turn; what libpq and the
  pool answer on a turn is an argument. The closures of the code are data: \<open>open_cont\<close> is what
  is given to \<open>open_connection\<close>, \<open>after\<close> what is given to \<open>execute\<close>. A callback of the program is
  a number, and its calls are recorded with their error, None for success. A lock is an object with a number and the
  connection it refers to; it is alive as long as \<open>_lock\<close> or an item holds it, and its destructor marks the
  connection as idle, whoever else has a lock on it.

  The calls of the API that a callback makes are events that follow its turn (a call from the callback
  of a commit still sees the lock, which is released after it); that a callback throws, and that a prepared
  statement keeps its lock, is not modelled: the connection is then idle in the model before it is in the program.
\<close>

datatype command = Query string | Prepare string string | Run_prepared string

datatype "after" = Report nat | After_begin nat | After_end nat | After_savepoint nat

datatype open_cont =
    Send_command bool command "after"
  | Begin_tx nat
  | Dealloc "string option" nat

text \<open>A command has its lock and whether it was sent; a bound call of the strand has the lock as its argument.\<close>

datatype item =
    Bound_error nat string
  | Bound_lock nat open_cont
  | Open open_cont
  | Command nat bool command "after"

text \<open>
  The connection of the database, the flag \<open>is_in_transaction\<close> and the state \<open>_running\<close> of every
  connection (0 idle, 1 at work, 2 reserved), and the locks that are alive. The last fields are the trace: the
  callbacks that were called and the commands that were sent, with the connection they were sent on.
\<close>

record astate =
  a_lock :: "nat option"
  a_locks :: "(nat \<times> nat) list"
  a_next :: nat
  a_conn :: "nat option"
  a_flags :: "nat \<Rightarrow> bool"
  a_running :: "nat \<Rightarrow> nat"
  a_queue :: "item list"
  a_calls :: "(nat \<times> string option) list"
  a_sent :: "(nat \<times> command) list"
  a_crashed :: bool

definition a_init :: astate where
  "a_init = \<lparr> a_lock = None, a_locks = [], a_next = 0, a_conn = None, a_flags = (\<lambda>_. False), a_running = (\<lambda>_. 0),
     a_queue = [], a_calls = [], a_sent = [], a_crashed = False \<rparr>"

section \<open>Calls\<close>

definition push_back :: "item \<Rightarrow> astate \<Rightarrow> astate" where
  "push_back x st = st \<lparr> a_queue := a_queue st @ [x] \<rparr>"

definition push_front :: "item \<Rightarrow> astate \<Rightarrow> astate" where
  "push_front x st = st \<lparr> a_queue := x # a_queue st \<rparr>"

definition tx_in_progress :: "astate \<Rightarrow> bool" where
  "tx_in_progress st = (case a_conn st of None \<Rightarrow> False | Some c \<Rightarrow> a_flags st c)"

definition open_connection_async :: "open_cont \<Rightarrow> astate \<Rightarrow> astate" where
  "open_connection_async k st = (case a_lock st of Some l \<Rightarrow> push_back (Bound_lock l k) st | None \<Rightarrow> push_back (Open k) st)"

text \<open>
  The overload with the values of the parameters puts its command before the others, the one with
  a list of parameters, like the calls of a prepared statement, behind them.
\<close>

definition execute_args :: "string \<Rightarrow> after \<Rightarrow> astate \<Rightarrow> astate" where
  "execute_args sql k = open_connection_async (Send_command True (Query sql) k)"

definition execute_params :: "string \<Rightarrow> after \<Rightarrow> astate \<Rightarrow> astate" where
  "execute_params sql k = open_connection_async (Send_command False (Query sql) k)"

definition begin_async :: "nat \<Rightarrow> astate \<Rightarrow> astate" where
  "begin_async cb st =
    (if tx_in_progress st then push_back (Bound_error cb ''Already in a transaction!'') st
     else open_connection_async (Begin_tx cb) st)"

definition in_tx_only :: "string \<Rightarrow> (nat \<Rightarrow> after) \<Rightarrow> nat \<Rightarrow> astate \<Rightarrow> astate" where
  "in_tx_only sql k cb st =
    (if \<not> tx_in_progress st then push_back (Bound_error cb ''Not in a transaction!'') st
     else execute_args sql (k cb) st)"

definition commit_async :: "nat \<Rightarrow> astate \<Rightarrow> astate" where
  "commit_async = in_tx_only ''COMMIT'' After_end"

definition rollback_async :: "nat \<Rightarrow> astate \<Rightarrow> astate" where
  "rollback_async = in_tx_only ''ROLLBACK'' After_end"

definition set_savepoint_async :: "string \<Rightarrow> nat \<Rightarrow> astate \<Rightarrow> astate" where
  "set_savepoint_async name = in_tx_only (''SAVEPOINT '' @ name) After_savepoint"

definition release_savepoint_async :: "string \<Rightarrow> nat \<Rightarrow> astate \<Rightarrow> astate" where
  "release_savepoint_async name = in_tx_only (''RELEASE SAVEPOINT '' @ name) After_savepoint"

definition rollback_savepoint_async :: "string \<Rightarrow> nat \<Rightarrow> astate \<Rightarrow> astate" where
  "rollback_savepoint_async name = in_tx_only (''ROLLBACK TO SAVEPOINT '' @ name) After_savepoint"

definition prepare_async :: "string \<Rightarrow> string \<Rightarrow> nat \<Rightarrow> astate \<Rightarrow> astate" where
  "prepare_async name sql cb = open_connection_async (Send_command False (Prepare name sql) (Report cb))"

definition execute_prepared :: "string \<Rightarrow> nat \<Rightarrow> astate \<Rightarrow> astate" where
  "execute_prepared name cb = open_connection_async (Send_command False (Run_prepared name) (Report cb))"

text \<open>\<open>es_name\<close> is what \<open>PQescapeIdentifier\<close> makes of the name.\<close>

definition deallocate_async :: "string option \<Rightarrow> nat \<Rightarrow> astate \<Rightarrow> astate" where
  "deallocate_async es_name cb = open_connection_async (Dealloc es_name cb)"

section \<open>Turns\<close>

definition call_cb :: "nat \<Rightarrow> string option \<Rightarrow> astate \<Rightarrow> astate" where
  "call_cb cb e st = st \<lparr> a_calls := a_calls st @ [(cb, e)] \<rparr>"

definition set_flag :: "bool \<Rightarrow> astate \<Rightarrow> astate" where
  "set_flag b st = (case a_conn st of None \<Rightarrow> st \<lparr> a_crashed := True \<rparr> | Some c \<Rightarrow> st \<lparr> a_flags := (a_flags st)(c := b) \<rparr>)"

text \<open>The callbacks of \<open>execute\<close>: what the program gave, or what a transaction does with the outcome.\<close>

fun on_result :: "string option \<Rightarrow> after \<Rightarrow> astate \<Rightarrow> astate" where
  "on_result e (Report cb) st = call_cb cb e st"
| "on_result (Some e) (After_begin cb) st = call_cb cb (Some e) (st \<lparr> a_lock := None \<rparr>)"
| "on_result None (After_begin cb) st = call_cb cb None (set_flag True st)"
| "on_result (Some e) (After_end cb) st = call_cb cb (Some e) (st \<lparr> a_lock := None \<rparr>)"
| "on_result None (After_end cb) st = (call_cb cb None (set_flag False st)) \<lparr> a_lock := None \<rparr>"
| "on_result e (After_savepoint cb) st = call_cb cb e st"

text \<open>
  The callbacks of \<open>open_connection\<close>, with the lock that they get; a null name is reported, and then
  followed. A null connection is followed as well: the item that does so is left where it is.
\<close>

definition crash_at :: "item \<Rightarrow> astate \<Rightarrow> astate" where
  "crash_at x st = (push_front x st) \<lparr> a_crashed := True \<rparr>"

fun on_open :: "string option \<Rightarrow> nat \<Rightarrow> open_cont \<Rightarrow> astate \<Rightarrow> astate" where
  "on_open (Some e) l (Send_command front c k) st = on_result (Some e) k st"
| "on_open None l (Send_command front c k) st =
    (if front then push_front (Command l False c k) st else push_back (Command l False c k) st)"
| "on_open (Some e) l (Begin_tx cb) st = call_cb cb (Some e) st"
| "on_open None l (Begin_tx cb) st = execute_args ''BEGIN'' (After_begin cb) (st \<lparr> a_lock := Some l \<rparr>)"
| "on_open (Some e) l (Dealloc es_name cb) st = call_cb cb (Some e) st"
| "on_open None l (Dealloc es_name cb) st =
    (if a_conn st = None then crash_at (Bound_lock l (Dealloc es_name cb)) st
     else case es_name of
         None \<Rightarrow> (call_cb cb (Some ''Deallocate prepared invalid name!'') st) \<lparr> a_crashed := True \<rparr>
       | Some es_name \<Rightarrow> execute_args (''DEALLOCATE PREPARE '' @ es_name) (Report cb) st)"

text \<open>
  What a turn meets: the answer of the pool to a request (none yet, an error, a connection that cannot be opened, an open
  connection; a database that has a connection keeps it), whether the connection is found broken by it, the error with which libpq refuses to send a command or to
  read its answer, and the results of a command, None while libpq is busy.
\<close>

datatype conn_reply = Not_yet | No_connection string | Not_opened nat string | Connected nat

record answer =
  an_conn :: conn_reply
  an_broken :: bool
  an_refused :: "string option"
  an_results :: "string option list option"

text \<open>
  \<open>_connect\<close>: the connection is reserved, opened and locked. One that is found broken is closed first, which
  ends its transaction.
\<close>

definition own_conn :: "bool \<Rightarrow> nat \<Rightarrow> astate \<Rightarrow> astate" where
  "own_conn broken c st = (let d = (case a_conn st of None \<Rightarrow> c | Some d \<Rightarrow> d) in
     st \<lparr> a_conn := Some d, a_running := (a_running st)(d := 2),
          a_flags := (if broken then (a_flags st)(d := False) else a_flags st) \<rparr>)"

definition new_lock :: "astate \<Rightarrow> astate" where
  "new_lock st = (case a_conn st of None \<Rightarrow> st
     | Some d \<Rightarrow> st \<lparr> a_locks := (a_next st, d) # a_locks st, a_next := a_next st + 1, a_running := (a_running st)(d := 1) \<rparr>)"

definition connect_turn :: "bool \<Rightarrow> conn_reply \<Rightarrow> open_cont \<Rightarrow> astate \<Rightarrow> astate" where
  "connect_turn broken r k st =
    (case r of
       Not_yet \<Rightarrow> push_front (Open k) st
     | No_connection e \<Rightarrow> on_open (Some e) 0 k st
     | Not_opened c e \<Rightarrow> on_open (Some e) 0 k (own_conn broken c st)
     | Connected c \<Rightarrow> on_open None (a_next st) k (new_lock (own_conn broken c st)))"

text \<open>
  \<open>run_task\<close> of a command: an exception of libpq is reported and the command stays in front, to be tried
  again on the next turn; it is sent on one turn and waits on others; when libpq is not busy it completes, and
  calls its callback for each result.
\<close>

definition command_turn :: "answer \<Rightarrow> nat \<Rightarrow> bool \<Rightarrow> command \<Rightarrow> after \<Rightarrow> astate \<Rightarrow> astate" where
  "command_turn ans l sent c k st =
    (case a_conn st of
       None \<Rightarrow> crash_at (Command l sent c k) st
     | Some d \<Rightarrow>
        (case an_refused ans of
           Some e \<Rightarrow> push_front (Command l sent c k) (on_result (Some e) k st)
         | None \<Rightarrow>
            if \<not> sent then push_front (Command l True c k) (st \<lparr> a_sent := a_sent st @ [(d, c)] \<rparr>)
            else case an_results ans of
                None \<Rightarrow> push_front (Command l True c k) st
              | Some rs \<Rightarrow> fold (\<lambda>r. on_result r k) rs st))"

fun run_item :: "answer \<Rightarrow> item \<Rightarrow> astate \<Rightarrow> astate" where
  "run_item ans (Bound_error cb e) st = call_cb cb (Some e) st"
| "run_item ans (Bound_lock l k) st = on_open None l k st"
| "run_item ans (Open k) st = connect_turn (an_broken ans) (an_conn ans) k st"
| "run_item ans (Command l sent c k) st = command_turn ans l sent c k st"

text \<open>At the end of a turn the locks that nothing holds are destroyed, which marks their connections as idle.\<close>

fun item_locks :: "item \<Rightarrow> nat list" where
  "item_locks (Bound_lock l k) = [l]"
| "item_locks (Command l sent c k) = [l]"
| "item_locks x = []"

definition held_locks :: "astate \<Rightarrow> nat list" where
  "held_locks st = (case a_lock st of None \<Rightarrow> [] | Some l \<Rightarrow> [l]) @ concat (map item_locks (a_queue st))"

definition drop_locks :: "astate \<Rightarrow> astate" where
  "drop_locks st = (let dead = filter (\<lambda>(l, c). l \<notin> set (held_locks st)) (a_locks st) in
     st \<lparr> a_locks := filter (\<lambda>(l, c). l \<in> set (held_locks st)) (a_locks st),
          a_running := (\<lambda>c. if c \<in> set (map snd dead) then 0 else a_running st c) \<rparr>)"

definition run_turn :: "answer \<Rightarrow> astate \<Rightarrow> astate" where
  "run_turn ans st =
    (if a_crashed st then st
     else case a_queue st of [] \<Rightarrow> st | x # xs \<Rightarrow> drop_locks (run_item ans x (st \<lparr> a_queue := xs \<rparr>)))"

section \<open>Events\<close>

datatype call =
    Execute string nat | Execute_params string nat | Begin nat | Commit nat | Rollback nat
  | Set_savepoint string nat | Release_savepoint string nat | Rollback_savepoint string nat
  | Prepare_statement string string nat | Execute_prepared string nat | Deallocate "string option" nat

fun api :: "call \<Rightarrow> astate \<Rightarrow> astate" where
  "api (Execute sql cb) = execute_args sql (Report cb)"
| "api (Execute_params sql cb) = execute_params sql (Report cb)"
| "api (Begin cb) = begin_async cb"
| "api (Commit cb) = commit_async cb"
| "api (Rollback cb) = rollback_async cb"
| "api (Set_savepoint name cb) = set_savepoint_async name cb"
| "api (Release_savepoint name cb) = release_savepoint_async name cb"
| "api (Rollback_savepoint name cb) = rollback_savepoint_async name cb"
| "api (Prepare_statement name sql cb) = prepare_async name sql cb"
| "api (Execute_prepared name cb) = execute_prepared name cb"
| "api (Deallocate es_name cb) = deallocate_async es_name cb"

text \<open>
  \<open>can_be_stolen\<close>: the pool takes the connection away for another database when it is idle and not marked as
  in a transaction.
\<close>

definition can_be_taken :: "nat \<Rightarrow> astate \<Rightarrow> bool" where
  "can_be_taken c st \<longleftrightarrow> \<not> a_flags st c \<and> a_running st c = 0"

definition lose_conn :: "astate \<Rightarrow> astate" where
  "lose_conn st = (case a_conn st of None \<Rightarrow> st | Some c \<Rightarrow> if can_be_taken c st then st \<lparr> a_conn := None \<rparr> else st)"

datatype event = Call call | Turn answer | Lost

fun event_step :: "event \<Rightarrow> astate \<Rightarrow> astate" where
  "event_step (Call c) st = api c st"
| "event_step (Turn ans) st = run_turn ans st"
| "event_step Lost st = lose_conn st"

definition run_events :: "event list \<Rightarrow> astate \<Rightarrow> astate" where
  "run_events evs st = fold event_step evs st"

section \<open>Callbacks are called once\<close>

fun cb_after :: "after \<Rightarrow> nat" where
  "cb_after (Report cb) = cb"
| "cb_after (After_begin cb) = cb"
| "cb_after (After_end cb) = cb"
| "cb_after (After_savepoint cb) = cb"

fun cb_cont :: "open_cont \<Rightarrow> nat" where
  "cb_cont (Send_command front c k) = cb_after k"
| "cb_cont (Begin_tx cb) = cb"
| "cb_cont (Dealloc es_name cb) = cb"

fun cb_item :: "item \<Rightarrow> nat" where
  "cb_item (Bound_error cb e) = cb"
| "cb_item (Bound_lock l k) = cb_cont k"
| "cb_item (Open k) = cb_cont k"
| "cb_item (Command l sent c k) = cb_after k"



definition owed :: "astate \<Rightarrow> nat multiset" where
  "owed st = mset (map fst (a_calls st)) + mset (map cb_item (a_queue st))"

lemmas call_defs = execute_args_def execute_params_def begin_async_def in_tx_only_def commit_async_def
  rollback_async_def set_savepoint_async_def release_savepoint_async_def rollback_savepoint_async_def prepare_async_def
  execute_prepared_def deallocate_async_def

lemma set_flag_fields [simp]:
  "a_queue (set_flag b st) = a_queue st" "a_calls (set_flag b st) = a_calls st" "a_sent (set_flag b st) = a_sent st"
  "a_lock (set_flag b st) = a_lock st" "a_conn (set_flag b st) = a_conn st"
  by (simp_all add: set_flag_def split: option.split)

lemma own_conn_fields [simp]:
  "a_queue (own_conn b c st) = a_queue st" "a_calls (own_conn b c st) = a_calls st" "a_sent (own_conn b c st) = a_sent st"
  "a_lock (own_conn b c st) = a_lock st" "a_crashed (own_conn b c st) = a_crashed st" "a_flags (own_conn False c st) = a_flags st"
  "a_next (own_conn b c st) = a_next st" "a_conn (own_conn b c st) = Some (case a_conn st of None \<Rightarrow> c | Some d \<Rightarrow> d)"
  by (simp_all add: own_conn_def Let_def)


lemma new_lock_fields [simp]:
  "a_queue (new_lock st) = a_queue st" "a_calls (new_lock st) = a_calls st" "a_sent (new_lock st) = a_sent st"
  "a_lock (new_lock st) = a_lock st" "a_crashed (new_lock st) = a_crashed st" "a_flags (new_lock st) = a_flags st"
  "a_conn (new_lock st) = a_conn st"
  by (simp_all add: new_lock_def split: option.split)

lemma drop_locks_fields [simp]:
  "a_queue (drop_locks st) = a_queue st" "a_calls (drop_locks st) = a_calls st" "a_sent (drop_locks st) = a_sent st"
  "a_lock (drop_locks st) = a_lock st" "a_crashed (drop_locks st) = a_crashed st" "a_flags (drop_locks st) = a_flags st"
  "a_conn (drop_locks st) = a_conn st"
  by (simp_all add: drop_locks_def Let_def)

lemma lose_conn_fields [simp]:
  "a_queue (lose_conn st) = a_queue st" "a_calls (lose_conn st) = a_calls st" "a_sent (lose_conn st) = a_sent st"
  "a_lock (lose_conn st) = a_lock st" "a_crashed (lose_conn st) = a_crashed st" "a_flags (lose_conn st) = a_flags st"
  by (simp_all add: lose_conn_def split: option.split)







lemma owed_fields [simp]:
  "owed (own_conn b c st) = owed st" "owed (new_lock st) = owed st" "owed (drop_locks st) = owed st" "owed (lose_conn st) = owed st"
  "owed (st \<lparr> a_sent := cs \<rparr>) = owed st" "owed (st \<lparr> a_lock := l \<rparr>) = owed st" "owed (st \<lparr> a_crashed := b \<rparr>) = owed st"
  "owed (call_cb cb e st) = add_mset cb (owed st)"
  by (simp_all add: owed_def call_cb_def)

lemma owed_push [simp]: "owed (push_front x st) = add_mset (cb_item x) (owed st)" "owed (push_back x st) = add_mset (cb_item x) (owed st)"
  "owed (crash_at x st) = add_mset (cb_item x) (owed st)"
  by (simp_all add: owed_def push_front_def push_back_def crash_at_def)












section \<open>The strand runs empty\<close>

text \<open>The turns that an item still takes.\<close>

fun work_cont :: "open_cont \<Rightarrow> nat" where
  "work_cont (Send_command front c k) = 3"
| "work_cont (Begin_tx cb) = 4"
| "work_cont (Dealloc es_name cb) = 4"

fun work_item :: "item \<Rightarrow> nat" where
  "work_item (Bound_error cb e) = 1"
| "work_item (Bound_lock l k) = work_cont k"
| "work_item (Open k) = work_cont k"
| "work_item (Command l sent c k) = (if sent then 1 else 2)"

definition work :: "astate \<Rightarrow> nat" where
  "work st = sum_list (map work_item (a_queue st))"



lemma work_fields [simp]:
  "work (own_conn b c st) = work st" "work (new_lock st) = work st" "work (drop_locks st) = work st" "work (lose_conn st) = work st"
  "work (st \<lparr> a_sent := cs \<rparr>) = work st" "work (st \<lparr> a_lock := l \<rparr>) = work st" "work (call_cb cb e st) = work st"
  by (simp_all add: work_def call_cb_def)

lemma work_push [simp]: "work (push_front x st) = work_item x + work st" "work (push_back x st) = work_item x + work st"
  by (simp_all add: work_def push_front_def push_back_def)

lemma work_result [simp]: "work (on_result e k st) = work st"
  by (induction e k st rule: on_result.induct) (simp_all add: work_def call_cb_def)



















lemma conn_result [simp]: "a_conn (on_result e k st) = a_conn st"
  by (induction e k st rule: on_result.induct) (simp_all add: call_cb_def)









section \<open>Transactions\<close>




text \<open>Only these two commands have the callback that ends a transaction.\<close>

fun end_cont :: "command \<Rightarrow> after \<Rightarrow> bool" where
  "end_cont c (After_end cb) = (c = Query ''COMMIT'' \<or> c = Query ''ROLLBACK'')"
| "end_cont c _ = True"

fun end_open :: "open_cont \<Rightarrow> bool" where
  "end_open (Send_command front c k) = end_cont c k"
| "end_open _ = True"

fun end_item :: "item \<Rightarrow> bool" where
  "end_item (Bound_lock l k) = end_open k"
| "end_item (Open k) = end_open k"
| "end_item (Command l sent c k) = end_cont c k"
| "end_item _ = True"

definition ends_named :: "astate \<Rightarrow> bool" where
  "ends_named st \<longleftrightarrow> list_all end_item (a_queue st)"

lemma named_push [simp]: "ends_named (push_front x st) \<longleftrightarrow> end_item x \<and> ends_named st" "ends_named (push_back x st) \<longleftrightarrow> end_item x \<and> ends_named st"
  "ends_named (crash_at x st) \<longleftrightarrow> end_item x \<and> ends_named st"
  by (auto simp: ends_named_def push_front_def push_back_def crash_at_def)

lemma named_fields [simp]: "ends_named (own_conn b c st) = ends_named st" "ends_named (new_lock st) = ends_named st"
  "ends_named (drop_locks st) = ends_named st" "ends_named (lose_conn st) = ends_named st" "ends_named (call_cb cb e st) = ends_named st"
  "ends_named (st \<lparr> a_sent := cs \<rparr>) = ends_named st" "ends_named (st \<lparr> a_lock := l \<rparr>) = ends_named st" "ends_named (st \<lparr> a_crashed := b \<rparr>) = ends_named st"
  "ends_named (set_flag b st) = ends_named st"
  by (simp_all add: ends_named_def call_cb_def)

lemma named_connection [simp]: "ends_named (open_connection_async k st) \<longleftrightarrow> end_open k \<and> ends_named st"
  by (simp add: open_connection_async_def split: option.split)


lemma named_result [simp]: "ends_named (on_result e k st) = ends_named st"
  by (induction e k st rule: on_result.induct) simp_all

lemma named_results [simp]: "ends_named (fold (\<lambda>r. on_result r k) rs st) = ends_named st"
  by (induction rs arbitrary: st) simp_all



text \<open>A transaction on a connection, and what an event keeps of it.\<close>

definition in_tx :: "nat \<Rightarrow> astate \<Rightarrow> bool" where
  "in_tx c st \<longleftrightarrow> a_conn st = Some c \<and> a_flags st c"




lemma in_tx_fields [simp]: "in_tx c (push_front x st) = in_tx c st" "in_tx c (push_back x st) = in_tx c st" "in_tx c (crash_at x st) = in_tx c st"
  "in_tx c (drop_locks st) = in_tx c st" "in_tx c (new_lock st) = in_tx c st" "in_tx c (call_cb cb e st) = in_tx c st"
  "in_tx c (st \<lparr> a_lock := l \<rparr>) = in_tx c st" "in_tx c (st \<lparr> a_crashed := b \<rparr>) = in_tx c st" "in_tx c (st \<lparr> a_sent := cs \<rparr>) = in_tx c st"
  "in_tx c (st \<lparr> a_queue := xs \<rparr>) = in_tx c st" "in_tx c (open_connection_async k st) = in_tx c st"
  by (simp_all add: in_tx_def push_front_def push_back_def crash_at_def call_cb_def open_connection_async_def split: option.split)

lemma sent_fields [simp]: "a_sent (push_front x st) = a_sent st" "a_sent (push_back x st) = a_sent st" "a_sent (crash_at x st) = a_sent st"
  "a_sent (call_cb cb e st) = a_sent st" "a_sent (open_connection_async k st) = a_sent st"
  by (simp_all add: push_front_def push_back_def crash_at_def call_cb_def open_connection_async_def split: option.split)

lemma in_tx_own [simp]: "in_tx c st \<Longrightarrow> in_tx c (own_conn False d st)"
  by (simp add: in_tx_def)



lemma sent_result [simp]: "a_sent (on_result e k st) = a_sent st"
  by (induction e k st rule: on_result.induct) simp_all

lemma sent_results [simp]: "a_sent (fold (\<lambda>r. on_result r k) rs st) = a_sent st"
  by (induction rs arbitrary: st) simp_all






text \<open>A connection that is marked is the one of the database.\<close>

definition marked_own :: "astate \<Rightarrow> bool" where
  "marked_own st \<longleftrightarrow> (\<forall>c. a_flags st c \<longrightarrow> a_conn st = Some c)"



lemma marked_fields [simp]: "marked_own (push_front x st) = marked_own st" "marked_own (push_back x st) = marked_own st"
  "marked_own (crash_at x st) = marked_own st" "marked_own (drop_locks st) = marked_own st" "marked_own (new_lock st) = marked_own st"
  "marked_own (call_cb cb e st) = marked_own st" "marked_own (st \<lparr> a_lock := l \<rparr>) = marked_own st"
  "marked_own (st \<lparr> a_crashed := b \<rparr>) = marked_own st" "marked_own (st \<lparr> a_sent := cs \<rparr>) = marked_own st"
  "marked_own (st \<lparr> a_queue := xs \<rparr>) = marked_own st" "marked_own (open_connection_async k st) = marked_own st"
  by (simp_all add: marked_own_def push_front_def push_back_def crash_at_def call_cb_def open_connection_async_def split: option.split)







text \<open>An answer with which every item goes on: a connection is open, nothing is refused, a command succeeds.\<close>

definition served :: "nat \<Rightarrow> answer" where
  "served c = \<lparr> an_conn = Connected c, an_broken = False, an_refused = None, an_results = Some [None] \<rparr>"

definition overlapping :: "event list" where
  "overlapping = [Call (Begin 1), Turn (served 7), Call (Begin 2)] @ replicate 3 (Turn (served 7)) @ [Call (Commit 3)] @ replicate 8 (Turn (served 7))"

text \<open>
  Two starts of a transaction may overlap, as the test whether one is in progress sees only those
  that have completed. All callbacks report success, but the commit of the first transaction releases
  the lock that the second has just taken.
\<close>

theorem overlapping_begins:
  "a_calls (run_events overlapping a_init) = [(1, None), (3, None), (2, None)]
    \<and> a_sent (run_events overlapping a_init) = [(7, Query ''BEGIN''), (7, Query ''COMMIT''), (7, Query ''BEGIN'')]
    \<and> tx_in_progress (run_events overlapping a_init) \<and> a_lock (run_events overlapping a_init) = None"
  by code_simp

text \<open>
  The lock of a database need not be on the connection of its transaction: a statement that is called
  between the start and its \<open>BEGIN\<close> gets a lock of its own, whose end marks the connection as idle; the pool may then
  take the connection, and \<open>BEGIN\<close> is sent on another one.
\<close>

definition begin_moved :: "event list" where
  "begin_moved = [Call (Begin 1), Call (Execute ''a'' 2), Call (Execute ''b'' 3)] @ replicate 4 (Turn (served 7)) @ [Lost]
     @ replicate 6 (Turn (served 8))"

theorem begin_on_other_connection:
  "a_sent (run_events begin_moved a_init) = [(7, Query ''a''), (8, Query ''b''), (8, Query ''BEGIN'')]
    \<and> a_calls (run_events begin_moved a_init) = [(2, None), (3, None), (1, None)]
    \<and> a_conn (run_events begin_moved a_init) = Some 8
    \<and> a_lock (run_events begin_moved a_init) = Some 0 \<and> a_locks (run_events begin_moved a_init) = [(0, 7)]"
  by code_simp

text \<open>
  A lock does not keep the connection for a command that waits: when the command before it ends, its lock marks the
  connection as idle, the pool may take it away, and the next turn of the command follows a null pointer.
\<close>

definition command_robbed :: "event list" where
  "command_robbed = [Call (Execute_params ''a'' 1), Call (Execute_params ''b'' 2)] @ replicate 4 (Turn (served 7)) @ [Lost]"

theorem command_loses_connection:
  "a_queue (run_events command_robbed a_init) = [Command 1 False (Query ''b'') (Report 2)]
    \<and> a_locks (run_events command_robbed a_init) = [(1, 7)] \<and> a_conn (run_events command_robbed a_init) = None
    \<and> \<not> a_crashed (run_events command_robbed a_init) \<and> a_crashed (run_events (command_robbed @ [Turn (served 7)]) a_init)"
  by code_simp

text \<open>
  C38: when the server fails the commit or the rollback of a transaction, its error is reported and the lock is
  released, but the connection stays marked as in a transaction: the next start is refused, and the pool cannot take the
  connection back.
\<close>

theorem failed_end:
  assumes "a_conn st = Some d" "a_flags st d" "a_lock st = Some l" "a_queue st = []" "\<not> a_crashed st"
    and "an_refused ans2 = None" "an_refused ans3 = None" "an_results ans3 = Some [Some e]"
    and "(c, sql) = (Commit cb, ''COMMIT'') \<or> (c, sql) = (Rollback cb, ''ROLLBACK'')"
  shows "\<exists>st'. run_events [Call c, Turn ans1, Turn ans2, Turn ans3] st = st'
    \<and> a_sent st' = a_sent st @ [(d, Query sql)] \<and> a_calls st' = a_calls st @ [(cb, Some e)]
    \<and> a_conn st' = Some d \<and> a_flags st' d \<and> a_lock st' = None \<and> \<not> a_crashed st'
    \<and> a_queue (api (Begin cb') st') = [Bound_error cb' ''Already in a transaction!''] \<and> event_step Lost st' = st'"
proof -
  define st1 where "st1 = event_step (Call c) st"
  have s1: "a_conn st1 = Some d" "a_flags st1 d" "a_queue st1 = [Bound_lock l (Send_command True (Query sql) (After_end cb))]"
    "\<not> a_crashed st1" "a_sent st1 = a_sent st" "a_calls st1 = a_calls st"
    using assms by (auto simp: st1_def in_tx_only_def commit_async_def rollback_async_def tx_in_progress_def execute_args_def
        open_connection_async_def push_back_def)
  define st2 where "st2 = run_turn ans1 st1"
  have s2: "a_conn st2 = Some d" "a_flags st2 d" "a_queue st2 = [Command l False (Query sql) (After_end cb)]"
    "\<not> a_crashed st2" "a_sent st2 = a_sent st" "a_calls st2 = a_calls st"
    using s1 by (simp_all add: st2_def run_turn_def push_front_def)
  define st3 where "st3 = run_turn ans2 st2"
  have s3: "a_conn st3 = Some d" "a_flags st3 d" "a_queue st3 = [Command l True (Query sql) (After_end cb)]"
    "\<not> a_crashed st3" "a_sent st3 = a_sent st @ [(d, Query sql)]" "a_calls st3 = a_calls st"
    using s2 assms(6) by (simp_all add: st3_def run_turn_def command_turn_def push_front_def)
  define st4 where "st4 = run_turn ans3 st3"
  have s4: "a_conn st4 = Some d" "a_flags st4 d" "a_queue st4 = []" "a_lock st4 = None"
    "\<not> a_crashed st4" "a_sent st4 = a_sent st @ [(d, Query sql)]" "a_calls st4 = a_calls st @ [(cb, Some e)]"
    using s3 assms(7,8) by (simp_all add: st4_def run_turn_def command_turn_def call_cb_def)
  have "run_events [Call c, Turn ans1, Turn ans2, Turn ans3] st = st4"
    by (simp add: run_events_def st4_def st3_def st2_def st1_def)
  moreover have "event_step Lost st4 = st4" using s4 by (simp add: lose_conn_def can_be_taken_def)
  moreover have "a_queue (api (Begin cb') st4) = [Bound_error cb' ''Already in a transaction!'']"
    using s4 by (simp add: begin_async_def tx_in_progress_def push_back_def)
  ultimately show ?thesis using s4 by blast
qed

section \<open>Order\<close>

text \<open>An item that opens the connection for a statement of the program, by the lock if there is one.\<close>

definition opens :: "nat option \<Rightarrow> bool \<Rightarrow> string \<times> nat \<Rightarrow> item" where
  "opens lock front = (\<lambda>(sql, cb). let k = Send_command front (Query sql) (Report cb) in
     case lock of Some l \<Rightarrow> Bound_lock l k | None \<Rightarrow> Open k)"

definition ready :: "astate \<Rightarrow> bool" where
  "ready st \<longleftrightarrow> \<not> a_crashed st \<and> (a_lock st \<noteq> None \<longrightarrow> a_conn st \<noteq> None)"

definition waits :: "item \<Rightarrow> string \<times> nat \<Rightarrow> bool" where
  "waits x s \<longleftrightarrow> (\<exists>l. x = Command l False (Query (fst s)) (Report (snd s)))"

lemma calls_queue:
  "fold api (map (\<lambda>(sql, cb). Execute sql cb) ss) st = st \<lparr> a_queue := a_queue st @ map (opens (a_lock st) True) ss \<rparr>"
  "fold api (map (\<lambda>(sql, cb). Execute_params sql cb) ss) st = st \<lparr> a_queue := a_queue st @ map (opens (a_lock st) False) ss \<rparr>"
  by (induction ss arbitrary: st) (auto simp: open_connection_async_def push_back_def call_defs opens_def split: option.split)

lemma turn_opens:
  assumes "ready st" "a_queue st = opens (a_lock st) front s # xs"
  shows "\<exists>st' x. run_turn (served c) st = st' \<and> ready st' \<and> a_conn st' \<noteq> None \<and> a_lock st' = a_lock st \<and> waits x s
    \<and> a_queue st' = (if front then x # xs else xs @ [x]) \<and> a_sent st' = a_sent st \<and> a_calls st' = a_calls st"
  using assms by (cases s; cases "a_lock st")
    (auto simp: run_turn_def ready_def opens_def waits_def served_def connect_turn_def push_front_def push_back_def)

lemma turns_command:
  assumes "ready st" "a_conn st \<noteq> None" "a_queue st = x # xs" "waits x s"
  shows "\<exists>st'. run_turn (served c) (run_turn (served c) st) = st' \<and> ready st' \<and> a_conn st' \<noteq> None \<and> a_lock st' = a_lock st \<and> a_queue st' = xs
    \<and> map snd (a_sent st') = map snd (a_sent st) @ [Query (fst s)] \<and> a_calls st' = a_calls st @ [(snd s, None)]"
  using assms by (auto simp: run_turn_def ready_def waits_def served_def command_turn_def push_front_def call_cb_def)

lemma turns_commands:
  "ready st \<Longrightarrow> ss = [] \<or> a_conn st \<noteq> None \<Longrightarrow> list_all2 waits (a_queue st) ss \<Longrightarrow>
    map snd (a_sent (fold run_turn (replicate (2 * length ss) (served c)) st)) = map snd (a_sent st) @ map (\<lambda>(sql, cb). Query sql) ss
    \<and> a_calls (fold run_turn (replicate (2 * length ss) (served c)) st) = a_calls st @ map (\<lambda>(sql, cb). (cb, None)) ss"
proof (induction ss arbitrary: st)
  case (Cons s ss)
  then obtain x xs where q: "a_queue st = x # xs" "waits x s" "list_all2 waits xs ss" by (auto simp: list_all2_Cons2)
  obtain st' where st': "run_turn (served c) (run_turn (served c) st) = st'" "ready st'" "a_conn st' \<noteq> None" "a_queue st' = xs"
    "map snd (a_sent st') = map snd (a_sent st) @ [Query (fst s)]" "a_calls st' = a_calls st @ [(snd s, None)]"
    using turns_command [OF Cons.prems(1) _ q(1,2), of c] Cons.prems(2) by auto
  then show ?case using Cons.IH [OF st'(2), of] q(3) by (cases s) simp
qed simp

lemma turns_front:
  "ready st \<Longrightarrow> a_queue st = map (opens (a_lock st) True) ss \<Longrightarrow>
    map snd (a_sent (fold run_turn (replicate (3 * length ss) (served c)) st)) = map snd (a_sent st) @ map (\<lambda>(sql, cb). Query sql) ss
    \<and> a_calls (fold run_turn (replicate (3 * length ss) (served c)) st) = a_calls st @ map (\<lambda>(sql, cb). (cb, None)) ss"
proof (induction ss arbitrary: st)
  case (Cons s ss)
  obtain st1 x where s1: "run_turn (served c) st = st1" "ready st1" "a_conn st1 \<noteq> None" "a_lock st1 = a_lock st" "waits x s"
    "a_queue st1 = x # map (opens (a_lock st) True) ss" "a_sent st1 = a_sent st" "a_calls st1 = a_calls st"
    using turn_opens [OF Cons.prems(1), of True s "map (opens (a_lock st) True) ss" c] Cons.prems(2) by auto
  obtain st2 where s2: "run_turn (served c) (run_turn (served c) st1) = st2" "ready st2" "a_lock st2 = a_lock st"
    "a_queue st2 = map (opens (a_lock st) True) ss" "map snd (a_sent st2) = map snd (a_sent st) @ [Query (fst s)]"
    "a_calls st2 = a_calls st @ [(snd s, None)]"
    using turns_command [OF s1(2,3,6,5), of c] s1 by auto
  have "replicate (3 * length (s # ss)) (served c) = [served c, served c, served c] @ replicate (3 * length ss) (served c)"
    by (simp add: numeral_eq_Suc)
  then show ?case using Cons.IH [OF s2(2)] s1(1) s2 by (cases s) simp
qed simp

lemma turns_back:
  "ready st \<Longrightarrow> a_queue st = map (opens (a_lock st) False) ss @ ys \<Longrightarrow> list_all2 waits ys ts \<Longrightarrow> ts = [] \<or> a_conn st \<noteq> None \<Longrightarrow>
    \<exists>st'. fold run_turn (replicate (length ss) (served c)) st = st' \<and> ready st' \<and> list_all2 waits (a_queue st') (ts @ ss)
      \<and> (ts @ ss = [] \<or> a_conn st' \<noteq> None) \<and> a_sent st' = a_sent st \<and> a_calls st' = a_calls st"
proof (induction ss arbitrary: st ys ts)
  case (Cons s ss)
  obtain st1 x where s1: "run_turn (served c) st = st1" "ready st1" "a_conn st1 \<noteq> None" "a_lock st1 = a_lock st" "waits x s"
    "a_queue st1 = map (opens (a_lock st) False) ss @ ys @ [x]" "a_sent st1 = a_sent st" "a_calls st1 = a_calls st"
    using turn_opens [OF Cons.prems(1), of False s "map (opens (a_lock st) False) ss @ ys" c] Cons.prems(2) by auto
  have "list_all2 waits (ys @ [x]) (ts @ [s])" using Cons.prems(3) s1(5) by (simp add: list_all2_appendI)
  then show ?case using Cons.IH [OF s1(2), of "ys @ [x]" "ts @ [s]"] s1 by auto
qed simp

text \<open>
  Statements that are executed in the same way are sent, and answered, in the order of their calls. But
  a call with a list of parameters puts its command behind the others and a call with values before them,
  so of two calls the second may be sent first.
\<close>

theorem send_order:
  assumes "ready st" "a_queue st = []"
  shows "map snd (a_sent (fold run_turn (replicate (3 * length ss) (served c)) (fold api (map (\<lambda>(sql, cb). Execute sql cb) ss) st)))
      = map snd (a_sent st) @ map (\<lambda>(sql, cb). Query sql) ss
    \<and> a_calls (fold run_turn (replicate (3 * length ss) (served c)) (fold api (map (\<lambda>(sql, cb). Execute sql cb) ss) st))
      = a_calls st @ map (\<lambda>(sql, cb). (cb, None)) ss
    \<and> map snd (a_sent (fold run_turn (replicate (3 * length ss) (served c)) (fold api (map (\<lambda>(sql, cb). Execute_params sql cb) ss) st)))
      = map snd (a_sent st) @ map (\<lambda>(sql, cb). Query sql) ss
    \<and> map snd (a_sent (run_events ([Call (Execute_params ''a'' 1), Call (Execute ''b'' 2)] @ replicate 6 (Turn (served 7))) a_init)) = [Query ''b'', Query ''a'']"
proof -
  define st1 where "st1 = st \<lparr> a_queue := map (opens (a_lock st) True) ss \<rparr>"
  define st2 where "st2 = st \<lparr> a_queue := map (opens (a_lock st) False) ss \<rparr>"
  have "ready st1" "a_queue st1 = map (opens (a_lock st1) True) ss" using assms(1) by (simp_all add: st1_def ready_def)
  note f = turns_front [OF this]
  have r2: "ready st2" "a_queue st2 = map (opens (a_lock st2) False) ss @ []" using assms(1) by (simp_all add: st2_def ready_def)
  from turns_back [OF r2, of "[]" c] obtain st3 where s3: "fold run_turn (replicate (length ss) (served c)) st2 = st3" "ready st3"
    "list_all2 waits (a_queue st3) ss" "ss = [] \<or> a_conn st3 \<noteq> None" "a_sent st3 = a_sent st" by (auto simp: st2_def)
  have "replicate (3 * length ss) (served c) = replicate (length ss) (served c) @ replicate (2 * length ss) (served c)"
    by (simp flip: replicate_add)
  then have b: "map snd (a_sent (fold run_turn (replicate (3 * length ss) (served c)) st2)) = map snd (a_sent st) @ map (\<lambda>(sql, cb). Query sql) ss"
    using turns_commands [OF s3(2,4,3), of c] s3(1,5) by simp
  have "map snd (a_sent (run_events ([Call (Execute_params ''a'' 1), Call (Execute ''b'' 2)] @ replicate 6 (Turn (served 7))) a_init)) = [Query ''b'', Query ''a'']"
    by code_simp
  with f b show ?thesis using assms(2) by (simp add: calls_queue st1_def st2_def)
qed

section \<open>Witnesses\<close>




definition in_tx_events :: "event list" where
  "in_tx_events = Call (Begin 1) # replicate 4 (Turn (served 7))"


theorem failed_end_witness:
  "\<exists>st'. run_events [Call (Commit 2), Turn (served 7), Turn (served 7), Turn (served 7 \<lparr> an_results := Some [Some ''broken''] \<rparr>)]
      (run_events in_tx_events a_init) = st'
    \<and> a_calls st' = [(1, None), (2, Some ''broken'')] \<and> a_flags st' 7 \<and> a_lock st' = None"
proof -
  have "a_conn (run_events in_tx_events a_init) = Some 7" "a_flags (run_events in_tx_events a_init) 7"
    "a_lock (run_events in_tx_events a_init) = Some 0" "a_queue (run_events in_tx_events a_init) = []"
    "\<not> a_crashed (run_events in_tx_events a_init)" "a_calls (run_events in_tx_events a_init) = [(1, None)]" by code_simp+
  then show ?thesis using failed_end [of "run_events in_tx_events a_init" 7 0 "served 7" "served 7 \<lparr> an_results := Some [Some ''broken''] \<rparr>"
        "''broken''" "Commit 2" "''COMMIT''" 2 "served 7"] by (auto simp: served_def)
qed

theorem send_order_witness:
  "map snd (a_sent (fold run_turn (replicate 6 (served 7)) (fold api (map (\<lambda>(sql, cb). Execute sql cb) [(''a'', 1), (''b'', 2)]) a_init))) = [Query ''a'', Query ''b'']"
proof -
  have "ready a_init" "a_queue a_init = []" "a_sent a_init = []" by (simp_all add: ready_def a_init_def)
  then show ?thesis using send_order [of a_init "[(''a'', 1), (''b'', 2)]" 7] by simp
qed

end
