(* ===== verification/Large_Object.thy ===== *)
theory Large_Object
  imports Session
begin

text \<open>
  Large objects: class \<open>data_large_object_t\<close> of \<open>data_large_object.h\<close> and
  \<open>data_large_object.cpp\<close>, with \<open>create_lo\<close> and \<open>get_lo\<close> of \<open>database.cpp\<close>. An object is
  opened in a transaction of its own on the connection of its database and is read and written
  there until it is closed. What the functions of libpq for large objects answer is an argument.
\<close>

section \<open>State\<close>

definition INV_WRITE :: int where "INV_WRITE = 0x00020000"
definition INV_READ :: int where "INV_READ = 0x00040000"

datatype lo_mode = ModeRead | ModeWrite

fun lo_mode_val :: "lo_mode \<Rightarrow> int" where
  "lo_mode_val ModeRead = INV_READ"
| "lo_mode_val ModeWrite = INV_WRITE"

datatype lo_whence = SeekStart | SeekCur | SeekEnd

fun lo_whence_val :: "lo_whence \<Rightarrow> int" where
  "lo_whence_val SeekStart = 0"
| "lo_whence_val SeekCur = 1"
| "lo_whence_val SeekEnd = 2"

record large_object =
  lo_db :: nat
  lo_oid :: int
  lo_opened_read :: bool
  lo_opened_write :: bool
  lo_fd :: int

definition large_object_init :: "nat \<Rightarrow> int \<Rightarrow> large_object" where
  "large_object_init d i = \<lparr> lo_db = d, lo_oid = i, lo_opened_read = False, lo_opened_write = False, lo_fd = - 1 \<rparr>"

definition lo_opened :: "large_object \<Rightarrow> bool" where
  "lo_opened lo \<longleftrightarrow> lo_opened_read lo \<or> lo_opened_write lo"

text \<open>
  What the calls of libpq return; \<open>la_error\<close> is \<open>PQerrorMessage\<close> directly after the call,
  \<open>la_after\<close> what it is after a \<open>ROLLBACK\<close> that succeeded in between.
\<close>

record lo_answers =
  la_open :: "int \<Rightarrow> int \<Rightarrow> int"
  la_read :: "int \<Rightarrow> int \<Rightarrow> int \<times> string"
  la_write :: "int \<Rightarrow> string \<Rightarrow> int \<Rightarrow> int"
  la_tell :: "int \<Rightarrow> int"
  la_lseek :: "int \<Rightarrow> int \<Rightarrow> int \<Rightarrow> int"
  la_truncate :: "int \<Rightarrow> int \<Rightarrow> int"
  la_close :: "int \<Rightarrow> int"
  la_creat :: int
  la_error :: string
  la_after :: string

section \<open>Operations\<close>

text \<open>The end of the \<open>connection_lock_t\<close> on the stack, whatever the outcome \<open>r\<close> of the call is.\<close>

definition unlock :: "env \<Rightarrow> nat \<Rightarrow> 'a result \<Rightarrow> system \<Rightarrow> 'a result \<times> system" where
  "unlock e k r s = (case drop_lock e k s of (Inl err, s) \<Rightarrow> (Inl err, s) | (Inr _, s) \<Rightarrow> (r, s))"

text \<open>A call of libpq under a lock on the stack; its outcome is \<open>r\<close>.\<close>

definition locked_call :: "env \<Rightarrow> nat \<Rightarrow> 'a result \<Rightarrow> system \<Rightarrow> 'a result \<times> system" where
  "locked_call e d r s =
    (case make_lock e d s of (Inl err, s) \<Rightarrow> (Inl err, s) | (Inr k, s) \<Rightarrow> unlock e k r s)"

definition lo_answer :: "lo_answers \<Rightarrow> int \<Rightarrow> 'a \<Rightarrow> 'a result" where
  "lo_answer a r v = (if r = - 1 then Inl (PqException (la_error a)) else Inr v)"

text \<open>\<open>_db->open_connection();\<close> with the lock it returns dropped at once.\<close>

definition open_and_drop ::
  "(int \<Rightarrow> string) \<Rightarrow> env \<Rightarrow> int list \<Rightarrow> nat \<Rightarrow> system \<Rightarrow> (unit result \<times> system) option" where
  "open_and_drop num_to_str e clk d s =
    (case db_open_connection num_to_str e clk d PQ_ASYNC_DEFAULT_TIMEOUT_MS s of
       None \<Rightarrow> None
     | Some (Inl err, s) \<Rightarrow> Some (Inl err, s)
     | Some (Inr k, s) \<Rightarrow> Some (drop_lock e k s))"

text \<open>
  \<open>open\<close> once the lock \<open>k\<close> is held. The error message is read after the rollback; when
  \<open>lo_open\<close> or the rollback fails, the flags stay as they are.
\<close>

definition lo_open_locked ::
  "(int \<Rightarrow> string) \<Rightarrow> env \<Rightarrow> lo_answers \<Rightarrow> int list \<Rightarrow> lo_mode \<Rightarrow> nat \<Rightarrow> large_object \<Rightarrow> system \<Rightarrow>
   (unit result \<times> large_object \<times> system) option" where
  "lo_open_locked num_to_str e a clk m k lo s =
    (case db_begin num_to_str e clk (lo_db lo) s of
       None \<Rightarrow> None
     | Some (Inl err, s) \<Rightarrow> (case unlock e k (Inl err) s of (r, s) \<Rightarrow> Some (r, lo, s))
     | Some (Inr _, s) \<Rightarrow>
         let fd = la_open a (lo_oid lo) (lo_mode_val m); lo = lo \<lparr> lo_fd := fd \<rparr> in
         if fd = - 1 then
           (case db_rollback e (lo_db lo) s of
              (r1, s) \<Rightarrow>
                (case unlock e k (case r1 of Inl err \<Rightarrow> Inl err | Inr _ \<Rightarrow> Inl (PqException (la_after a))) s of
                   (r, s) \<Rightarrow> Some (r, lo, s)))
         else
           (case unlock e k (Inr ()) s of
              (r, s) \<Rightarrow> Some (r, lo \<lparr> lo_opened_read := (and (lo_mode_val m) INV_READ \<noteq> 0),
                  lo_opened_write := (and (lo_mode_val m) INV_WRITE \<noteq> 0) \<rparr>, s)))"

definition lo_open ::
  "(int \<Rightarrow> string) \<Rightarrow> env \<Rightarrow> lo_answers \<Rightarrow> int list \<Rightarrow> lo_mode \<Rightarrow> large_object \<Rightarrow> system \<Rightarrow>
   (unit result \<times> large_object \<times> system) option" where
  "lo_open num_to_str e a clk m lo s =
    (if lo_opened lo then Some (Inl (PqException ''Alreaddy opened!''), lo, s)
     else
       (case open_and_drop num_to_str e clk (lo_db lo) s of
          None \<Rightarrow> None
        | Some (Inl err, s) \<Rightarrow> Some (Inl err, lo, s)
        | Some (Inr _, s) \<Rightarrow>
            (case make_lock e (lo_db lo) s of
               (Inl err, s) \<Rightarrow> Some (Inl err, lo, s)
             | (Inr k, s) \<Rightarrow> lo_open_locked num_to_str e a clk m k lo s)))"

definition lo_closed_error :: "string \<Rightarrow> pq_error" where
  "lo_closed_error what = PqException (''Unable to '' @ what @ '' when large object is closed!'')"

text \<open>The bytes that \<open>lo_read\<close> left in the buffer, with their number.\<close>

definition lo_read :: "env \<Rightarrow> lo_answers \<Rightarrow> int \<Rightarrow> large_object \<Rightarrow> system \<Rightarrow> (int \<times> string) result \<times> system" where
  "lo_read e a len lo s =
    (if \<not> lo_opened lo then (Inl (lo_closed_error ''read''), s)
     else locked_call e (lo_db lo) (let (r, buf) = la_read a (lo_fd lo) len in lo_answer a r (r, buf)) s)"

definition lo_write :: "env \<Rightarrow> lo_answers \<Rightarrow> string \<Rightarrow> int \<Rightarrow> large_object \<Rightarrow> system \<Rightarrow> int result \<times> system" where
  "lo_write e a buf len lo s =
    (if \<not> lo_opened lo then (Inl (lo_closed_error ''write''), s)
     else locked_call e (lo_db lo) (let r = la_write a (lo_fd lo) buf len in lo_answer a r r) s)"

definition lo_tell :: "env \<Rightarrow> lo_answers \<Rightarrow> large_object \<Rightarrow> system \<Rightarrow> int result \<times> system" where
  "lo_tell e a lo s =
    (if \<not> lo_opened lo then (Inl (lo_closed_error ''tell''), s)
     else locked_call e (lo_db lo) (let r = la_tell a (lo_fd lo) in lo_answer a r r) s)"

definition lo_seek :: "env \<Rightarrow> lo_answers \<Rightarrow> int \<Rightarrow> lo_whence \<Rightarrow> large_object \<Rightarrow> system \<Rightarrow> int result \<times> system" where
  "lo_seek e a offset w lo s =
    (if \<not> lo_opened lo then (Inl (lo_closed_error ''seek''), s)
     else locked_call e (lo_db lo)
       (let r = la_lseek a (lo_fd lo) offset (lo_whence_val w) in lo_answer a r r) s)"

definition lo_resize :: "env \<Rightarrow> lo_answers \<Rightarrow> int \<Rightarrow> large_object \<Rightarrow> system \<Rightarrow> unit result \<times> system" where
  "lo_resize e a new_size lo s =
    (if \<not> lo_opened lo then (Inl (lo_closed_error ''resize''), s)
     else locked_call e (lo_db lo) (lo_answer a (la_truncate a (lo_fd lo) new_size) ()) s)"

text \<open>The object counts as closed before the result of \<open>lo_close\<close> is looked at.\<close>

definition lo_close :: "env \<Rightarrow> lo_answers \<Rightarrow> large_object \<Rightarrow> system \<Rightarrow> unit result \<times> large_object \<times> system" where
  "lo_close e a lo s =
    (if \<not> lo_opened lo then (Inr (), lo, s)
     else
       (case make_lock e (lo_db lo) s of
          (Inl err, s) \<Rightarrow> (Inl err, lo, s)
        | (Inr k, s) \<Rightarrow>
            let r = la_close a (lo_fd lo);
                lo = lo \<lparr> lo_fd := - 1, lo_opened_read := False, lo_opened_write := False \<rparr>;
                (r1, s) = (if r = - 1 then db_rollback e (lo_db lo) s else db_commit e (lo_db lo) s);
                r1 = (if r = - 1 \<and> r1 = Inr () then Inl (PqException (la_after a)) else r1);
                (r2, s) = unlock e k r1 s
            in (r2, lo, s)))"

text \<open>The result of \<open>lo_unlink\<close> is not looked at.\<close>

definition lo_unlink ::
  "(int \<Rightarrow> string) \<Rightarrow> env \<Rightarrow> int list \<Rightarrow> large_object \<Rightarrow> system \<Rightarrow> (unit result \<times> system) option" where
  "lo_unlink num_to_str e clk lo s =
    (if lo_opened lo then Some (Inl (PqException ''Large object must be closed to be delete!''), s)
     else
       (case open_and_drop num_to_str e clk (lo_db lo) s of
          None \<Rightarrow> None
        | Some (Inl err, s) \<Rightarrow> Some (Inl err, s)
        | Some (Inr _, s) \<Rightarrow> Some (locked_call e (lo_db lo) (Inr ()) s)))"

definition get_lo :: "nat \<Rightarrow> int \<Rightarrow> large_object" where
  "get_lo d i = large_object_init d i"

text \<open>\<open>lo_create\<close> answers 0 when it fails; that is taken as the number of the new object.\<close>

definition create_lo ::
  "(int \<Rightarrow> string) \<Rightarrow> env \<Rightarrow> lo_answers \<Rightarrow> int list \<Rightarrow> nat \<Rightarrow> system \<Rightarrow> (large_object result \<times> system) option" where
  "create_lo num_to_str e a clk d s =
    (case open_and_drop num_to_str e clk d s of
       None \<Rightarrow> None
     | Some (Inl err, s) \<Rightarrow> Some (Inl err, s)
     | Some (Inr _, s) \<Rightarrow> Some (locked_call e d (Inr (get_lo d (la_creat a))) s))"

section \<open>Runs\<close>

text \<open>The calls on an object and what they return.\<close>

datatype lo_op =
    LoOpen lo_mode
  | LoRead int
  | LoWrite string int
  | LoTell
  | LoSeek int lo_whence
  | LoResize int
  | LoClose
  | LoUnlink

datatype lo_value = LoVoid | LoNumber int | LoBytes "int \<times> string"

fun lo_exec ::
  "(int \<Rightarrow> string) \<Rightarrow> env \<Rightarrow> lo_answers \<Rightarrow> int list \<Rightarrow> lo_op \<Rightarrow> large_object \<times> system \<Rightarrow>
   (lo_value result \<times> large_object \<times> system) option" where
  "lo_exec num_to_str e a clk (LoOpen m) (lo, s) =
    map_option (\<lambda>(r, lo, s). (map_sum id (\<lambda>_. LoVoid) r, lo, s)) (lo_open num_to_str e a clk m lo s)"
| "lo_exec num_to_str e a clk (LoRead len) (lo, s) =
    (case lo_read e a len lo s of (r, s) \<Rightarrow> Some (map_sum id LoBytes r, lo, s))"
| "lo_exec num_to_str e a clk (LoWrite buf len) (lo, s) =
    (case lo_write e a buf len lo s of (r, s) \<Rightarrow> Some (map_sum id LoNumber r, lo, s))"
| "lo_exec num_to_str e a clk LoTell (lo, s) =
    (case lo_tell e a lo s of (r, s) \<Rightarrow> Some (map_sum id LoNumber r, lo, s))"
| "lo_exec num_to_str e a clk (LoSeek offset w) (lo, s) =
    (case lo_seek e a offset w lo s of (r, s) \<Rightarrow> Some (map_sum id LoNumber r, lo, s))"
| "lo_exec num_to_str e a clk (LoResize n) (lo, s) =
    (case lo_resize e a n lo s of (r, s) \<Rightarrow> Some (map_sum id (\<lambda>_. LoVoid) r, lo, s))"
| "lo_exec num_to_str e a clk LoClose (lo, s) =
    (case lo_close e a lo s of (r, lo, s) \<Rightarrow> Some (map_sum id (\<lambda>_. LoVoid) r, lo, s))"
| "lo_exec num_to_str e a clk LoUnlink (lo, s) =
    map_option (\<lambda>(r, s). (map_sum id (\<lambda>_. LoVoid) r, lo, s)) (lo_unlink num_to_str e clk lo s)"

text \<open>
  A run of one object and of the databases of the program: a step is a call on the object or a
  call on a database. While the object is open the program leaves its database to it.
\<close>

inductive lo_step ::
  "(int \<Rightarrow> string) \<Rightarrow> large_object \<times> system \<Rightarrow> large_object \<times> system \<Rightarrow> bool"
  for num_to_str where
  object: "lo_exec num_to_str e a [t] op (lo, s) = Some (r, lo', s') \<Longrightarrow> now e \<le> t \<Longrightarrow>
    \<not> undefined_behaviour r \<Longrightarrow> may_steal has_owner e (lo_db lo) s \<Longrightarrow>
    lo_step num_to_str (lo, s) (lo', s')"
| other: "sys_exec num_to_str e [t] op s = Some (r, s') \<Longrightarrow> now e \<le> t \<Longrightarrow>
    \<not> undefined_behaviour r \<Longrightarrow> allowed has_owner e op s \<Longrightarrow>
    (lo_opened lo \<Longrightarrow> made_by (\<lambda>d. d \<noteq> lo_db lo) op) \<Longrightarrow>
    lo_step num_to_str (lo, s) (lo, s')"

section \<open>The pool during the calls on an object\<close>

context sys_invariant begin

lemma make_lock_J:
  assumes "J (sys_pool s)" "who d"
  shows "J (sys_pool (snd (make_lock e d s)))"
  using on_conn_work [OF assms lock_ctor.conn_work_axioms, of e]
  by (auto simp: make_lock_def split: prod.splits sum.splits)

lemma unlock_J: "unlock e k r s = (r', s') \<Longrightarrow> J (sys_pool s) \<Longrightarrow> J (sys_pool s')"
  using drop_lock_J [of s e k] by (auto simp: unlock_def split: prod.splits sum.splits)

lemma locked_call_J:
  assumes "locked_call e d r s = (r', s')" "J (sys_pool s)" "who d"
  shows "J (sys_pool s')"
proof -
  obtain r1 s1 where s1: "make_lock e d s = (r1, s1)" by fastforce
  then have "J (sys_pool s1)" using make_lock_J [OF assms(2,3), of e] by simp
  then show ?thesis using s1 assms(1) unlock_J by (auto simp: locked_call_def split: sum.splits)
qed

text \<open>A database that has its connection asks the pool for nothing.\<close>

lemma db_begin_conn_J:
  assumes J: "J (sys_pool s)" and d: "who d" and c: "db_conn (sys_pool s) d \<noteq> None"
    and op: "db_begin num_to_str e clk d s = Some (r, s')"
  shows "J (sys_pool s')"
proof -
  have acq: "acquire num_to_str e clk d timeout_ms s1 = Some (Inr (), s1)"
    if "db_conn (sys_pool s1) d \<noteq> None" for s1 timeout_ms
    using that by (auto simp: acquire_def)
  have c1: "db_conn (sys_pool (snd (on_conn d f s))) d \<noteq> None" for f :: "connection \<Rightarrow> unit result \<times> connection"
    using c by (auto simp: on_conn_def split: option.splits)
  obtain r2 s2 where s2: "on_conn d (\<lambda>c. (Inr (), reserve e c)) s = (r2, s2)" by fastforce
  have J2: "J (sys_pool s2)"
    using on_conn_work [OF J d, of "\<lambda>c. (Inr (), reserve e c)"] reserve.conn_work_axioms s2 by simp
  from op obtain r1 s1 where
    s1: "db_open_connection num_to_str e clk d PQ_ASYNC_DEFAULT_TIMEOUT_MS s = Some (r1, s1)"
    by (auto simp: db_begin_def split: option.splits)
  then have J1: "J (sys_pool s1)"
    using acq [OF c] acq [of s2] c1 [of "\<lambda>c. (Inr (), reserve e c)"] s2 J J2 lock_and_open_J [OF J2 d, of e]
    by (auto simp: db_open_connection_def copy_lock_def split: option.splits sum.splits)
  obtain r3 s3 where s3: "reset_lock e d s1 = (r3, s3)" by fastforce
  have J3: "J (sys_pool s3)" using reset_lock_J [OF J1, of e d] s3 by simp
  have "J (sys_pool s')"
    if "on_conn d (begin_transaction e) (s3 \<lparr> db_lock := (db_lock s3)(d \<mapsto> k) \<rparr>) = (r, s')" for k
    using on_conn_work [OF _ d begin_transaction.conn_work_axioms,
        of "s3 \<lparr> db_lock := (db_lock s3)(d \<mapsto> k) \<rparr>" e] J3 that by simp
  then show ?thesis
    using op s1 s3 J1 J3 by (auto simp: db_begin_def split: sum.splits)
qed

lemma open_and_drop_J:
  assumes "J (sys_pool s)" "now e \<le> t" "may_steal ok e d s" "who d"
    and op: "open_and_drop num_to_str e [t] d s = Some (r, s')"
  shows "J (sys_pool s')"
proof -
  from op obtain r1 s1 where
    s1: "db_open_connection num_to_str e [t] d PQ_ASYNC_DEFAULT_TIMEOUT_MS s = Some (r1, s1)"
    by (auto simp: open_and_drop_def split: option.splits)
  then have "J (sys_pool s1)" using db_open_connection_J [OF assms(1-4)] by blast
  then have "J (sys_pool (snd (drop_lock e k s1)))" for k by (rule drop_lock_J)
  then show ?thesis using op s1 \<open>J (sys_pool s1)\<close>
    by (auto simp: open_and_drop_def split: sum.splits) (metis snd_conv)
qed

lemma commit_J: "J (sys_pool s) \<Longrightarrow> who d \<Longrightarrow> J (sys_pool (snd (db_commit e d s)))"
  using db_end_J [OF _ _ end_transaction.conn_work_axioms, of s d "''COMMIT''" e e]
  by (simp add: db_commit_def commit_transaction_def)

lemma rollback_J: "J (sys_pool s) \<Longrightarrow> who d \<Longrightarrow> J (sys_pool (snd (db_rollback e d s)))"
  using db_end_J [OF _ _ end_transaction.conn_work_axioms, of s d "''ROLLBACK''" e e]
  by (simp add: db_rollback_def rollback_transaction_def)

lemma lo_close_J:
  assumes J: "J (sys_pool s)" and d: "who (lo_db lo)" and op: "lo_close e a lo s = (r, lo', s')"
  shows "J (sys_pool s')"
proof -
  obtain r1 s1 where s1: "make_lock e (lo_db lo) s = (r1, s1)" by fastforce
  then have J1: "J (sys_pool s1)" using make_lock_J [OF J d, of e] by simp
  obtain r2 s2 where s2: "(if la_close a (lo_fd lo) = - 1 then db_rollback e (lo_db lo) s1 else db_commit e (lo_db lo) s1) = (r2, s2)"
    by fastforce
  then have J2: "J (sys_pool s2)" using commit_J [OF J1 d, of e] rollback_J [OF J1 d, of e] by (auto split: if_splits)
  show ?thesis
    using op s1 J J1 s2 unlock_J [OF _ J2]
    by (auto simp: lo_close_def Let_def split: if_splits sum.splits prod.splits)
qed

lemma lo_open_locked_J:
  assumes J: "J (sys_pool s)" and d: "who (lo_db lo)" and c: "db_conn (sys_pool s) (lo_db lo) \<noteq> None"
    and op: "lo_open_locked num_to_str e a clk m k lo s = Some (r, lo', s')"
  shows "J (sys_pool s')"
proof -
  from op obtain r1 s1 where s1: "db_begin num_to_str e clk (lo_db lo) s = Some (r1, s1)"
    by (auto simp: lo_open_locked_def split: option.splits)
  have J1: "J (sys_pool s1)" using db_begin_conn_J [OF J d c s1] .
  obtain r2 s2 where s2: "db_rollback e (lo_db lo) s1 = (r2, s2)" by fastforce
  have J2: "J (sys_pool s2)" using rollback_J [OF J1 d, of e] s2 by simp
  show ?thesis
    using op s1 s2 unlock_J [OF _ J1] unlock_J [OF _ J2]
    by (auto simp: lo_open_locked_def Let_def split: sum.splits if_splits prod.splits)
qed

end

lemma make_lock_conn: "make_lock e d s = (Inr k, s') \<Longrightarrow> db_conn (sys_pool s') d \<noteq> None \<and> db_conn (sys_pool s) d \<noteq> None"
  by (auto simp: make_lock_def on_conn_def split: option.splits sum.splits prod.splits)

context sys_invariant begin

lemma lo_exec_J:
  assumes J: "J (sys_pool s)" and d: "who (lo_db lo)" and t: "now e \<le> t" and may: "may_steal ok e (lo_db lo) s"
    and op: "lo_exec num_to_str e a [t] op (lo, s) = Some (r, lo', s')"
  shows "J (sys_pool s')"
proof -
  show ?thesis
  proof (cases op)
    case (LoOpen m)
    show ?thesis
    proof (cases "lo_opened lo")
      case False
      with op LoOpen obtain r1 s1 where s1: "open_and_drop num_to_str e [t] (lo_db lo) s = Some (r1, s1)"
        by (auto simp: lo_open_def split: option.splits)
      have J1: "J (sys_pool s1)" using open_and_drop_J [OF J t may d s1] .
      obtain r2 s2 where s2: "make_lock e (lo_db lo) s1 = (r2, s2)" by fastforce
      have J2: "J (sys_pool s2)" using make_lock_J [OF J1 d, of e] s2 by simp
      show ?thesis
        using op LoOpen False s1 s2 J1 J2 lo_open_locked_J [OF J2 d] make_lock_conn
        by (auto simp: lo_open_def split: sum.splits)
    qed (use op LoOpen J in \<open>auto simp: lo_open_def\<close>)
  next
    case LoClose
    then show ?thesis using op lo_close_J [OF J d] by (auto split: prod.splits)
  next
    case LoUnlink
    show ?thesis
    proof (cases "lo_opened lo")
      case False
      with op LoUnlink obtain r1 s1 where s1: "open_and_drop num_to_str e [t] (lo_db lo) s = Some (r1, s1)"
        by (auto simp: lo_unlink_def split: option.splits)
      have J1: "J (sys_pool s1)" using open_and_drop_J [OF J t may d s1] .
      show ?thesis
        using op LoUnlink False s1 J1 locked_call_J [OF _ J1 d] by (auto simp: lo_unlink_def split: sum.splits)
    qed (use op LoUnlink J in \<open>auto simp: lo_unlink_def\<close>)
  qed (use op J locked_call_J [OF _ J d] in
       \<open>auto simp: lo_read_def lo_write_def lo_tell_def lo_seek_def lo_resize_def split: prod.splits if_splits\<close>)
qed

end

section \<open>An open object has its transaction\<close>

lemma tx_pool: "sys_pool s' = sys_pool s \<Longrightarrow> db_in_transaction d s' = db_in_transaction d s"
  by (simp add: db_in_transaction_def split: option.split)

lemma tx_upd:
  assumes "sys_pool s' = upd_conn p f (sys_pool s)" "\<And>c. c_in_transaction (f c) = c_in_transaction c"
  shows "db_in_transaction d s' = db_in_transaction d s"
  using assms by (auto simp: db_in_transaction_def in_transaction_def conn_at_def upd_conn_def split: option.splits)

lemma tx_same:
  assumes "sys_pool s' = sys_pool s \<or> (\<exists>p. sys_pool s' = upd_conn p f (sys_pool s))"
    and "\<And>c. c_in_transaction (f c) = c_in_transaction c"
  shows "db_in_transaction d s' = db_in_transaction d s"
  using assms(1)
proof
  assume "sys_pool s' = sys_pool s"
  then show ?thesis by (rule tx_pool)
next
  assume "\<exists>p. sys_pool s' = upd_conn p f (sys_pool s)"
  then show ?thesis using tx_upd [OF _ assms(2)] by blast
qed

lemma tx_drop_lock: "db_in_transaction d (snd (drop_lock e k s)) = db_in_transaction d s"
proof -
  have "sys_pool (snd (drop_lock e k s)) = sys_pool s
      \<or> (\<exists>p. sys_pool (snd (drop_lock e k s)) = upd_conn p (connection_lock_dtor e) (sys_pool s))"
    by (auto simp: drop_lock_def split: option.split)
  then show ?thesis by (rule tx_same) (simp add: connection_lock_dtor_def stop_work_def touch_def)
qed

lemma tx_unlock: "unlock e k r s = (r', s') \<Longrightarrow> db_in_transaction d s' = db_in_transaction d s"
  using tx_drop_lock [of d e k s] by (cases "drop_lock e k s") (auto simp: unlock_def split: sum.splits)

lemma tx_make_lock:
  assumes "make_lock e d s = (r, s')"
  shows "db_in_transaction d' s' = db_in_transaction d' s"
proof -
  have "sys_pool s' = sys_pool s \<or> (\<exists>p. sys_pool s' = upd_conn p (\<lambda>c. snd (connection_lock_ctor e c)) (sys_pool s))"
    using assms by (auto simp: make_lock_def on_conn_def split: option.splits sum.splits prod.splits)
  then show ?thesis by (rule tx_same) (simp add: connection_lock_ctor_def start_work_def touch_def)
qed

lemma tx_locked_call: "locked_call e d r s = (r', s') \<Longrightarrow> db_in_transaction d' s' = db_in_transaction d' s"
  using tx_make_lock [of e d s] tx_unlock by (fastforce simp: locked_call_def split: prod.splits sum.splits)

lemma tx_begin:
  assumes "db_begin num_to_str e clk d s = Some (Inr (), s')"
  shows "db_in_transaction d s'"
proof -
  from assms obtain s1 where "on_conn d (begin_transaction e) s1 = (Inr (), s')"
    by (auto simp: db_begin_def split: option.splits sum.splits prod.splits)
  then show ?thesis
    by (auto simp: on_conn_def begin_transaction_def db_in_transaction_def in_transaction_def conn_at_def upd_conn_def
        split: option.splits sum.splits prod.splits if_splits)
qed

definition lo_inv :: "large_object \<times> system \<Rightarrow> bool" where
  "lo_inv = (\<lambda>(lo, s). owned (sys_pool s) \<and> (lo_opened lo \<longleftrightarrow> lo_fd lo \<noteq> - 1) \<and>
     (lo_opened lo \<longrightarrow> db_in_transaction (lo_db lo) s))"

lemma mode_flag: "and (lo_mode_val m) INV_READ \<noteq> 0 \<or> and (lo_mode_val m) INV_WRITE \<noteq> 0"
  by (cases m) (simp_all add: INV_READ_def INV_WRITE_def)

lemma lo_open_object:
  assumes "lo_open num_to_str e a clk m lo s = Some (r, lo', s')" "\<not> lo_opened lo" "lo_fd lo = - 1"
  shows "lo_db lo' = lo_db lo \<and> (lo_opened lo' \<longleftrightarrow> lo_fd lo' \<noteq> - 1)
    \<and> (lo_opened lo' \<longrightarrow> db_in_transaction (lo_db lo) s') \<and> (r = Inr () \<longrightarrow> lo_opened lo')"
proof -
  have lk: "lo_db lo' = lo_db lo \<and> (lo_opened lo' \<longleftrightarrow> lo_fd lo' \<noteq> - 1)
      \<and> (lo_opened lo' \<longrightarrow> db_in_transaction (lo_db lo) s') \<and> (r = Inr () \<longrightarrow> lo_opened lo')"
    if "lo_open_locked num_to_str e a clk m k lo s1 = Some (r, lo', s')" for k s1
  proof -
    from that obtain r2 s2 where s2: "db_begin num_to_str e clk (lo_db lo) s1 = Some (r2, s2)"
      by (auto simp: lo_open_locked_def split: option.splits)
    have bad: "r' \<noteq> Inr ()" if "unlock e k (Inl err) s3 = (r', s4)" for r' :: "unit result" and err s3 s4
      using that by (auto simp: unlock_def split: sum.splits prod.splits)
    show ?thesis
      using that s2 assms(2,3) tx_begin [of num_to_str e clk "lo_db lo" s1 s2] tx_unlock [of e k _ s2] mode_flag [of m]
      by (auto simp: lo_open_locked_def Let_def lo_opened_def split: sum.splits if_splits prod.splits dest: bad)
  qed
  have "lo' = lo \<and> r \<noteq> Inr () \<or> (\<exists>k s1. lo_open_locked num_to_str e a clk m k lo s1 = Some (r, lo', s'))"
    using assms(1,2) by (auto simp: lo_open_def split: option.splits sum.splits prod.splits)
  then show ?thesis using lk assms(2,3) by blast
qed

lemma lo_exec_closed:
  assumes "lo_exec num_to_str e a clk op (lo, s) = Some (r, lo', s')" "\<not> lo_opened lo" "\<And>m. op \<noteq> LoOpen m"
  shows "lo' = lo"
  using assms
  by (cases op) (auto simp: lo_read_def lo_write_def lo_tell_def lo_seek_def lo_resize_def lo_close_def split: prod.splits)

lemma lo_exec_opened:
  assumes "lo_exec num_to_str e a clk op (lo, s) = Some (r, lo', s')" "lo_opened lo"
  shows "lo_db lo' = lo_db lo \<and> (lo' = lo \<and> db_in_transaction (lo_db lo) s' = db_in_transaction (lo_db lo) s
    \<or> \<not> lo_opened lo' \<and> lo_fd lo' = - 1)"
proof (cases op)
  case LoClose
  then show ?thesis using assms tx_make_lock [of e "lo_db lo" s]
    by (auto simp: lo_close_def lo_opened_def Let_def split: sum.splits if_splits prod.splits)
qed (use assms in \<open>auto simp: lo_open_def lo_read_def lo_write_def lo_tell_def lo_seek_def lo_resize_def
      lo_unlink_def tx_locked_call split: prod.splits\<close>)

lemma lo_step_inv:
  assumes "lo_inv x" "lo_step num_to_str x y"
  shows "lo_inv y"
  using assms(2)
proof cases
  case (object e a t op lo s r lo' s')
  have J: "owned (sys_pool s')"
    using own_inv.lo_exec_J [OF _ _ object(4,6,3)] assms(1) object(1) by (simp add: lo_inv_def)
  have o: "lo_opened lo \<longleftrightarrow> lo_fd lo \<noteq> - 1" "lo_opened lo \<Longrightarrow> db_in_transaction (lo_db lo) s"
    using assms(1) object(1) by (auto simp: lo_inv_def)
  show ?thesis
  proof (cases "lo_opened lo")
    case True
    then show ?thesis using lo_exec_opened [OF object(3)] o J object(2) by (auto simp: lo_inv_def)
  next
    case False
    then show ?thesis
      using lo_exec_closed [OF object(3)] lo_open_object [of num_to_str e a "[t]" _ lo s _ lo' s'] object(3) o J object(2)
      by (cases op) (auto simp: lo_inv_def)
  qed
next
  case (other e t op s r s' lo)
  have I: "owned (sys_pool s)" "lo_opened lo \<longleftrightarrow> lo_fd lo \<noteq> - 1" "lo_opened lo \<Longrightarrow> db_in_transaction (lo_db lo) s"
    using assms(1) other(1) by (auto simp: lo_inv_def)
  have J: "owned (sys_pool s')" using own_inv.exec_J [OF I(1) other(3,4,6)] by simp
  have "db_in_transaction (lo_db lo) s'" if o: "lo_opened lo"
  proof -
    from I(3) [OF o] obtain p where p: "db_conn (sys_pool s) (lo_db lo) = Some p" "c_in_transaction (conn_at (sys_pool s) p)"
      by (auto simp: db_in_transaction_def in_transaction_def split: option.splits)
    then have "in_tx (lo_db lo) p (sys_pool s)" using I(1) by (simp add: in_tx_def)
    then have "in_tx (lo_db lo) p (sys_pool s')" using tx_inv.exec_J [OF _ other(3,4,6)] other(7) [OF o] by blast
    then show ?thesis by (simp add: in_tx_def db_in_transaction_def in_transaction_def)
  qed
  then show ?thesis using I(2) J other(2) by (simp add: lo_inv_def)
qed

definition lo_start :: "int \<Rightarrow> large_object \<times> system \<Rightarrow> bool" where
  "lo_start m x \<longleftrightarrow> (\<exists>d i strs. x = (large_object_init d i, sys_init m strs))"

interpretation lo_run: step_invariant "lo_start m" "lo_step num_to_str" lo_inv for m num_to_str
proof
  show "lo_inv x" if "lo_start m x" for x
    using that owned_init by (auto simp: lo_start_def lo_inv_def large_object_init_def lo_opened_def)
  show "lo_inv y" if "lo_inv x" "lo_step num_to_str x y" for x y using that by (rule lo_step_inv)
qed

text \<open>
  C8: An open large object lives in a transaction of its database, as long as the program makes, while the object is
  open, calls only on the object itself and on other databases, and the pool steals only connections with a recorded owner:
  the database holds a connection that is in a transaction, is reserved for it and is held by no other database. An
  object has a descriptor exactly while it is open.
\<close>

theorem open_object_in_transaction:
  assumes "(lo_step num_to_str)\<^sup>*\<^sup>* (large_object_init d i, sys_init m strs) (lo, s)"
  shows "(lo_opened lo \<longleftrightarrow> lo_fd lo \<noteq> - 1) \<and>
    (lo_opened lo \<longrightarrow> (\<exists>p c. db_conn (sys_pool s) (lo_db lo) = Some p \<and> conns (sys_pool s) p = Some c \<and>
       c_in_transaction c \<and> c_res c = 1 \<and> (\<forall>d'. db_conn (sys_pool s) d' = Some p \<longrightarrow> d' = lo_db lo)))"
proof -
  have "lo_start m (large_object_init d i, sys_init m strs)" by (auto simp: lo_start_def)
  then have I: "lo_inv (lo, s)" using assms by (rule lo_run.reachable_inv)
  then have P: "owned (sys_pool s)" by (simp add: lo_inv_def)
  have "\<exists>p c. db_conn (sys_pool s) (lo_db lo) = Some p \<and> conns (sys_pool s) p = Some c \<and>
      c_in_transaction c \<and> c_res c = 1 \<and> (\<forall>d'. db_conn (sys_pool s) d' = Some p \<longrightarrow> d' = lo_db lo)" if "lo_opened lo"
  proof -
    from I that obtain p where p: "db_conn (sys_pool s) (lo_db lo) = Some p" "c_in_transaction (conn_at (sys_pool s) p)"
      by (auto simp: lo_inv_def db_in_transaction_def in_transaction_def split: option.splits)
    from ownedD(2) [OF P p(1)] obtain c where c: "conns (sys_pool s) p = Some c" "c_res c = 1" by blast
    moreover have "d' = lo_db lo" if "db_conn (sys_pool s) d' = Some p" for d' by (rule ownedD(3) [OF P that p(1)])
    moreover have "c_in_transaction c" using p(2) c(1) by (simp add: conn_at_def)
    ultimately show ?thesis using p(1) by blast
  qed
  then show ?thesis using I by (simp add: lo_inv_def)
qed

section \<open>A whole session with an object\<close>

text \<open>What a call that needs an open object should give: the answer of libpq for the descriptor.\<close>

fun lo_reply :: "lo_answers \<Rightarrow> int \<Rightarrow> lo_op \<Rightarrow> lo_value result" where
  "lo_reply a fd (LoRead len) = lo_answer a (fst (la_read a fd len)) (LoBytes (la_read a fd len))"
| "lo_reply a fd (LoWrite buf len) = lo_answer a (la_write a fd buf len) (LoNumber (la_write a fd buf len))"
| "lo_reply a fd LoTell = lo_answer a (la_tell a fd) (LoNumber (la_tell a fd))"
| "lo_reply a fd (LoSeek offset w) =
    lo_answer a (la_lseek a fd offset (lo_whence_val w)) (LoNumber (la_lseek a fd offset (lo_whence_val w)))"
| "lo_reply a fd (LoResize n) = lo_answer a (la_truncate a fd n) LoVoid"
| "lo_reply a fd _ = Inr LoVoid"

fun lo_io :: "lo_op \<Rightarrow> bool" where
  "lo_io (LoOpen m) = False"
| "lo_io LoClose = False"
| "lo_io LoUnlink = False"
| "lo_io _ = True"

fun lo_calls ::
  "(int \<Rightarrow> string) \<Rightarrow> (env \<times> lo_answers \<times> lo_op) list \<Rightarrow> large_object \<times> system \<Rightarrow>
   (lo_value result list \<times> large_object \<times> system) option" where
  "lo_calls num_to_str [] x = Some ([], x)"
| "lo_calls num_to_str ((e, a, op) # cs) x =
    (case lo_exec num_to_str e a [now e] op x of
       None \<Rightarrow> None
     | Some (r, x) \<Rightarrow> map_option (\<lambda>(rs, x). (r # rs, x)) (lo_calls num_to_str cs x))"

text \<open>
  Database \<open>d\<close> is in a transaction on an idle connection \<open>p\<close> and keeps the only copy of lock \<open>k\<close>.
\<close>

definition lo_ready :: "nat \<Rightarrow> nat \<Rightarrow> nat \<Rightarrow> system \<Rightarrow> bool" where
  "lo_ready d k p s \<longleftrightarrow> db_conn (sys_pool s) d = Some p \<and> db_lock s d = Some k \<and> locks s k = Some (p, 1) \<and>
     k < next_lock s \<and>
     (\<exists>c. conns (sys_pool s) p = Some c \<and> c_conn c \<and> c_in_transaction c \<and> c_running c = 0)"

lemmas lo_defs = locked_call_def unlock_def make_lock_def drop_lock_def on_conn_def upd_conn_def
  conn_at_def conn_defs

lemma locked_call_ready:
  assumes "lo_ready d k p s"
  shows "\<exists>s'. locked_call e d r s = (r, s') \<and> lo_ready d k p s'"
  using assms by (auto simp: lo_ready_def lo_defs)

lemma lo_io_ready:
  assumes "lo_ready (lo_db lo) k p s" "lo_opened lo" "lo_io op"
  shows "\<exists>s'. lo_exec num_to_str e a clk op (lo, s) = Some (lo_reply a (lo_fd lo) op, lo, s') \<and> lo_ready (lo_db lo) k p s'"
proof -
  have b: "\<exists>s'. locked_call e (lo_db lo) r s = (r, s') \<and> lo_ready (lo_db lo) k p s'" for r :: "(int \<times> string) result"
    by (rule locked_call_ready [OF assms(1)])
  have n: "\<exists>s'. locked_call e (lo_db lo) r s = (r, s') \<and> lo_ready (lo_db lo) k p s'" for r :: "int result"
    by (rule locked_call_ready [OF assms(1)])
  have u: "\<exists>s'. locked_call e (lo_db lo) r s = (r, s') \<and> lo_ready (lo_db lo) k p s'" for r :: "unit result"
    by (rule locked_call_ready [OF assms(1)])
  have m: "map_sum id f (lo_answer a i v) = lo_answer a i (f v)" for f :: "'b \<Rightarrow> lo_value" and i v
    by (simp add: lo_answer_def)
  show ?thesis
  proof (cases op)
    case (LoRead len)
    obtain i buf where r: "la_read a (lo_fd lo) len = (i, buf)" by fastforce
    then show ?thesis using LoRead assms(2) b [of "lo_answer a i (i, buf)"] by (auto simp: lo_read_def m)
  next
    case (LoWrite buf len)
    then show ?thesis using assms(2) n [of "lo_answer a (la_write a (lo_fd lo) buf len) (la_write a (lo_fd lo) buf len)"]
      by (auto simp: lo_write_def m Let_def)
  next
    case LoTell
    then show ?thesis using assms(2) n [of "lo_answer a (la_tell a (lo_fd lo)) (la_tell a (lo_fd lo))"]
      by (auto simp: lo_tell_def m Let_def)
  next
    case (LoSeek offset w)
    let ?r = "la_lseek a (lo_fd lo) offset (lo_whence_val w)"
    show ?thesis using LoSeek assms(2) n [of "lo_answer a ?r ?r"] by (auto simp: lo_seek_def m Let_def)
  next
    case (LoResize i)
    then show ?thesis using assms(2) u [of "lo_answer a (la_truncate a (lo_fd lo) i) ()"]
      by (auto simp: lo_resize_def m)
  qed (use assms(3) in simp_all)
qed

lemma lo_calls_ready:
  assumes "lo_ready (lo_db lo) k p s" "lo_opened lo" "\<forall>(e, a, op) \<in> set cs. lo_io op"
  shows "\<exists>s'. lo_calls num_to_str cs (lo, s) = Some (map (\<lambda>(e, a, op). lo_reply a (lo_fd lo) op) cs, lo, s')
    \<and> lo_ready (lo_db lo) k p s'"
  using assms(1,3)
proof (induction cs arbitrary: s)
  case (Cons x cs)
  obtain e a op where x: "x = (e, a, op)" by (cases x)
  obtain s1 where s1: "lo_exec num_to_str e a [now e] op (lo, s) = Some (lo_reply a (lo_fd lo) op, lo, s1)"
    "lo_ready (lo_db lo) k p s1"
    using lo_io_ready [OF Cons.prems(1) assms(2)] Cons.prems(2) x by force
  show ?case using Cons.IH [OF s1(2)] Cons.prems(2) s1(1) x by auto
qed simp

definition idle_conn :: "nat \<Rightarrow> nat \<Rightarrow> system \<Rightarrow> bool" where
  "idle_conn d p s \<longleftrightarrow> db_lock s d = None \<and> db_conn (sys_pool s) d = Some p \<and>
     (\<exists>c. conns (sys_pool s) p = Some c \<and> c_conn c \<and> \<not> c_in_transaction c)"

lemma lo_open_ready:
  assumes "idle_conn (lo_db lo) p s" "PQstatus_ok e" "PQexec_ok e ''BEGIN''"
    and "\<not> lo_opened lo" "la_open a (lo_oid lo) (lo_mode_val m) \<noteq> - 1"
  shows "\<exists>lo' s' k. lo_open num_to_str e a clk m lo s = Some (Inr (), lo', s') \<and> lo_ready (lo_db lo) k p s'
    \<and> lo_db lo' = lo_db lo \<and> lo_fd lo' = la_open a (lo_oid lo) (lo_mode_val m)
    \<and> lo_opened_read lo' = (m = ModeRead) \<and> lo_opened_write lo' = (m = ModeWrite)"
proof -
  have m: "(and (lo_mode_val m) INV_READ \<noteq> 0) = (m = ModeRead)" "(and (lo_mode_val m) INV_WRITE \<noteq> 0) = (m = ModeWrite)"
    by (cases m; simp add: INV_READ_def INV_WRITE_def)+
  obtain c where c: "db_lock s (lo_db lo) = None" "db_conn (sys_pool s) (lo_db lo) = Some p"
    "conns (sys_pool s) p = Some c" "c_conn c" "\<not> c_in_transaction c"
    using assms(1) by (auto simp: idle_conn_def)
  show ?thesis
    using c assms(2-5)
    by (simp add: lo_open_def open_and_drop_def db_open_connection_def acquire_def lock_and_open_def
        lo_open_locked_def db_begin_def reset_lock_def PQexec_def lo_ready_def m lo_defs)
qed

lemma lo_close_ready:
  assumes "lo_ready (lo_db lo) k p s" "lo_opened lo" "la_close a (lo_fd lo) \<noteq> - 1" "PQexec_ok e ''COMMIT''"
  shows "\<exists>s'. lo_close e a lo s = (Inr (), lo \<lparr> lo_fd := - 1, lo_opened_read := False, lo_opened_write := False \<rparr>, s')
    \<and> idle_conn (lo_db lo) p s' \<and> can_be_stolen (conn_at (sys_pool s') p)"
  using assms
  by (auto simp: lo_ready_def lo_close_def db_commit_def db_end_def reset_lock_def PQexec_def idle_conn_def
      can_be_stolen_def conn_at_def lo_defs)

text \<open>
  C22: A session with a large object: on a database whose connection is open and outside a
  transaction, when libpq can begin a transaction and open the object, \<open>open\<close> succeeds; every
  call that follows gives exactly what libpq answers for the descriptor, an answer of \<open>-1\<close> being
  thrown as an error; and \<open>close\<close>, when libpq can close and commit, leaves the object closed and
  the connection open, outside a transaction and idle. None of the locks these calls take on the
  connection gets into the way of another.
\<close>

theorem large_object_session:
  assumes "idle_conn (lo_db lo) p s" "PQstatus_ok e" "PQexec_ok e ''BEGIN''" "\<not> lo_opened lo"
    and "fd = la_open a (lo_oid lo) (lo_mode_val m)" "fd \<noteq> - 1"
    and "\<forall>(e, a, op) \<in> set cs. lo_io op"
    and "la_close a' fd \<noteq> - 1" "PQexec_ok e' ''COMMIT''"
  shows "\<exists>lo1 s1 s2 lo3 s3. lo_open num_to_str e a clk m lo s = Some (Inr (), lo1, s1)
    \<and> db_in_transaction (lo_db lo) s1
    \<and> lo_calls num_to_str cs (lo1, s1) = Some (map (\<lambda>(e, a, op). lo_reply a fd op) cs, lo1, s2)
    \<and> lo_close e' a' lo1 s2 = (Inr (), lo3, s3) \<and> \<not> lo_opened lo3
    \<and> idle_conn (lo_db lo) p s3 \<and> can_be_stolen (conn_at (sys_pool s3) p)"
proof -
  obtain lo1 s1 k where o: "lo_open num_to_str e a clk m lo s = Some (Inr (), lo1, s1)" "lo_ready (lo_db lo) k p s1"
    "lo_db lo1 = lo_db lo" "lo_fd lo1 = fd" "lo_opened_read lo1 = (m = ModeRead)" "lo_opened_write lo1 = (m = ModeWrite)"
    using lo_open_ready [OF assms(1-4)] assms(5,6) by metis
  have op: "lo_opened lo1" using o(5,6) by (cases m) (simp_all add: lo_opened_def)
  have tx: "db_in_transaction (lo_db lo) s1"
    using o(2) by (auto simp: lo_ready_def db_in_transaction_def in_transaction_def conn_at_def)
  obtain s2 where c: "lo_calls num_to_str cs (lo1, s1) = Some (map (\<lambda>(e, a, op). lo_reply a fd op) cs, lo1, s2)"
    "lo_ready (lo_db lo1) k p s2"
    using lo_calls_ready [OF _ op assms(7), of k p s1 num_to_str] o(2-4) by auto
  show ?thesis
    using o(1,3,4) tx c(1) lo_close_ready [OF c(2) op, of a' e'] assms(8,9)
    by (fastforce simp: lo_opened_def)
qed


section \<open>What goes wrong\<close>

definition already_locked :: pq_error where
  "already_locked = PqException ''unable to lock the connection because it's already locked''"

lemma lock_and_open_locked:
  assumes "lock_and_open e d s = (Inr k, s')"
    and "\<And>p c. db_conn (sys_pool s) d = Some p \<Longrightarrow> conns (sys_pool s) p = Some c \<Longrightarrow> c_running c = 2"
  shows "db_lock s' = db_lock s \<and> (\<exists>p c. db_conn (sys_pool s') d = Some p \<and> conns (sys_pool s') p = Some c \<and>
    c_running c = 1 \<and> locks s' k = Some (p, 1))"
proof -
  obtain s1 where s1: "make_lock e d s = (Inr k, s1)"
    and s': "on_conn d (open_connection e) s1 = (Inr (), s')"
    using assms(1) by (auto simp: lock_and_open_def split: prod.splits sum.splits)
  have "db_lock s1 = db_lock s \<and> (\<exists>p c. db_conn (sys_pool s1) d = Some p \<and> conns (sys_pool s1) p = Some c \<and>
    c_running c = 1 \<and> locks s1 k = Some (p, 1))"
    using s1 assms(2)
    by (auto simp: make_lock_def on_conn_def connection_lock_ctor_def start_work_def touch_def upd_conn_def conn_at_def
        split: option.splits sum.splits prod.splits if_splits)
  then show ?thesis
    using s' by (auto simp: on_conn_def upd_conn_def conn_at_def open_connection_def close_connection_def touch_def Let_def
        split: option.splits if_splits)
qed

lemma open_locked:
  assumes "db_open_connection num_to_str e clk d timeout_ms s = Some (Inr k, s')" "db_lock s d = None"
  shows "db_lock s' d = None \<and> (\<exists>p c. db_conn (sys_pool s') d = Some p \<and> conns (sys_pool s') p = Some c \<and>
    c_running c = 1 \<and> locks s' k = Some (p, 1))"
proof -
  have on: "db_lock (snd (on_conn d f s0)) = db_lock s0" for f :: "connection \<Rightarrow> unit result \<times> connection" and s0
    by (auto simp: on_conn_def split: option.split)
  have acq: "db_lock s1 = db_lock s0" if "acquire num_to_str e clk d timeout_ms s0 = Some (r, s1)" for s0 s1 r
    using that by (auto simp: acquire_def split: option.splits sum.splits prod.splits if_splits)
  from assms obtain s1 s2 s3 where "acquire num_to_str e clk d timeout_ms s = Some (Inr (), s1)"
    "on_conn d (\<lambda>c. (Inr (), reserve e c)) s1 = (Inr (), s2)"
    "acquire num_to_str e clk d timeout_ms s2 = Some (Inr (), s3)" "lock_and_open e d s3 = (Inr k, s')"
    by (auto simp: db_open_connection_def split: option.splits sum.splits prod.splits)
  note s = this
  have r: "db_conn (sys_pool s2) d \<noteq> None"
    "db_conn (sys_pool s2) d = Some p \<Longrightarrow> conns (sys_pool s2) p = Some c \<Longrightarrow> c_running c = 2" for p c
    using s(2) by (auto simp: on_conn_def reserve_def touch_def upd_conn_def split: option.splits)
  then have "s3 = s2" using s(3) by (auto simp: acquire_def)
  then show ?thesis
    using acq [OF s(1)] on [of "\<lambda>c. (Inr (), reserve e c)" s1] s(2) lock_and_open_locked [OF s(4)] r(2) assms(2) by auto
qed

lemma begin_locked:
  assumes "db_begin num_to_str e clk d s = Some (Inr (), s')" "db_lock s d = None"
  shows "\<exists>k p c. db_lock s' d = Some k \<and> db_conn (sys_pool s') d = Some p \<and> conns (sys_pool s') p = Some c \<and>
    c_running c = 1 \<and> locks s' k = Some (p, 1)"
proof -
  obtain k s1 where s1: "db_open_connection num_to_str e clk d PQ_ASYNC_DEFAULT_TIMEOUT_MS s = Some (Inr k, s1)"
    and s': "on_conn d (begin_transaction e) (s1 \<lparr> db_lock := (db_lock s1)(d \<mapsto> k) \<rparr>) = (Inr (), s')"
    using assms open_locked [of num_to_str e clk d PQ_ASYNC_DEFAULT_TIMEOUT_MS s]
    by (auto simp: db_begin_def reset_lock_def split: option.splits sum.splits prod.splits)
  then show ?thesis
    using open_locked [OF s1 assms(2)]
    by (auto simp: on_conn_def upd_conn_def conn_at_def begin_transaction_def open_connection_def close_connection_def
        touch_def Let_def split: option.splits if_splits sum.splits prod.splits)
qed

text \<open>
  C39: A large object cannot be used inside a transaction of the program: after a successful
  \<open>begin\<close> on its database, \<open>open\<close> throws because the connection is locked by the
  transaction itself, and leaves the object and the system as they were.
\<close>

theorem open_in_transaction_fails:
  assumes "db_begin num_to_str e clk (lo_db lo) s = Some (Inr (), s1)" "db_lock s (lo_db lo) = None" "\<not> lo_opened lo"
  shows "lo_open num_to_str e' a clk' m lo s1 = Some (Inl already_locked, lo, s1)"
proof -
  obtain k p c where k: "db_lock s1 (lo_db lo) = Some k" "db_conn (sys_pool s1) (lo_db lo) = Some p"
    "conns (sys_pool s1) p = Some c" "c_running c = 1" "locks s1 k = Some (p, 1)"
    using begin_locked [OF assms(1,2)] by blast
  have "(locks s1)(k \<mapsto> (p, Suc 0)) = locks s1" using k(5) by auto
  then have "snd (drop_lock e' k (copy_lock k s1)) = s1 \<and> fst (drop_lock e' k (copy_lock k s1)) = Inr ()"
    using k by (simp add: drop_lock_def copy_lock_def)
  then have "open_and_drop num_to_str e' clk' (lo_db lo) s1 = Some (Inr (), s1)"
    using k by (auto simp: open_and_drop_def db_open_connection_def prod_eq_iff)
  moreover have "make_lock e' (lo_db lo) s1 = (Inl already_locked, s1)"
  proof -
    have "upd_conn p (\<lambda>c. c) (sys_pool s1) = sys_pool s1" using k by (simp add: upd_conn_def conn_at_def fun_upd_idem)
    then show ?thesis
      using k by (simp add: make_lock_def on_conn_def connection_lock_ctor_def conn_at_def already_locked_def upd_conn_def)
  qed
  ultimately show ?thesis using assms(3) by (simp add: lo_open_def)
qed

text \<open>
  The reason why an object could not be opened is lost: the message is read after the rollback,
  which clears it.
\<close>

theorem open_error_lost:
  assumes "idle_conn (lo_db lo) p s" "PQstatus_ok e" "PQexec_ok e ''BEGIN''" "PQexec_ok e ''ROLLBACK''"
    and "\<not> lo_opened lo" "la_open a (lo_oid lo) (lo_mode_val m) = - 1"
  shows "\<exists>lo' s'. lo_open num_to_str e a clk m lo s = Some (Inl (PqException (la_after a)), lo', s')
    \<and> \<not> lo_opened lo' \<and> idle_conn (lo_db lo) p s'"
proof -
  obtain c where c: "db_lock s (lo_db lo) = None" "db_conn (sys_pool s) (lo_db lo) = Some p"
    "conns (sys_pool s) p = Some c" "c_conn c" "\<not> c_in_transaction c"
    using assms(1) by (auto simp: idle_conn_def)
  show ?thesis
    using c assms(2-6)
    by (simp add: lo_open_def open_and_drop_def db_open_connection_def acquire_def lock_and_open_def lo_opened_def
        lo_open_locked_def db_begin_def db_rollback_def db_end_def reset_lock_def PQexec_def idle_conn_def lo_defs)
qed


section \<open>Examples\<close>

definition sample_answers :: lo_answers where
  "sample_answers = \<lparr> la_open = (\<lambda>oid m. 3), la_read = (\<lambda>fd len. (2, ''ab'')), la_write = (\<lambda>fd buf len. len),
     la_tell = (\<lambda>fd. 2), la_lseek = (\<lambda>fd i w. i), la_truncate = (\<lambda>fd n. 0), la_close = (\<lambda>fd. 0), la_creat = 7,
     la_error = ''failed'', la_after = [] \<rparr>"

definition idle_system :: system where
  "idle_system = \<lparr> sys_pool = \<lparr> conns = [0 \<mapsto> open_sample \<lparr> c_in_transaction := False, c_running := 0 \<rparr>], pools = Map.empty,
       db_conn = [0 \<mapsto> 0], next_conn = 1, last_stolen_conn_id = [], max_conn = 1 \<rparr>,
     db_string = (\<lambda>_. ''host=db''), db_lock = Map.empty, locks = Map.empty, next_lock = 0 \<rparr>"

lemma idle_sample: "idle_conn 0 0 idle_system"
  by (simp add: idle_conn_def idle_system_def open_sample_def)

lemma lo_open_run:
  "map_option (\<lambda>(r, lo, s). (r, lo_opened lo))
     (lo_exec sample_str sample_env sample_answers [1000] (LoOpen ModeWrite) (large_object_init 0 7, one_host 2))
   = Some (Inr LoVoid, True)"
  by (simp add: lo_open_def open_and_drop_def lo_open_locked_def db_begin_def reset_lock_def unlock_def PQexec_def
      large_object_init_def lo_opened_def sample_answers_def INV_WRITE_def run_defs)

theorem open_object_in_transaction_witness:
  "\<exists>s :: system. \<exists>p c. db_conn (sys_pool s) 0 = Some p \<and> conns (sys_pool s) p = Some c \<and> c_in_transaction c \<and> c_res c = 1"
proof -
  have may: "may_steal has_owner sample_env 0 (one_host 2)"
    by (simp add: may_steal_def one_host_def sys_init_def policy_def cleaned_def pool_list_def run_defs)
  obtain r lo s where x: "lo_exec sample_str sample_env sample_answers [1000] (LoOpen ModeWrite) (large_object_init 0 7, one_host 2)
      = Some (r, lo, s)" "r = Inr LoVoid" "lo_opened lo"
    using lo_open_run by auto
  have db: "lo_db lo = 0"
    using x(1) lo_open_object [of sample_str sample_env sample_answers "[1000]" ModeWrite "large_object_init 0 7" "one_host 2" _ lo s]
    by (auto simp: large_object_init_def lo_opened_def)
  have "lo_step sample_str (large_object_init 0 7, one_host 2) (lo, s)"
    using x may by (intro lo_step.object [OF x(1)]) (simp_all add: sample_env_def undefined_behaviour_def large_object_init_def)
  then have "(lo_step sample_str)\<^sup>*\<^sup>* (large_object_init 0 7, sys_init 2 (\<lambda>_. ''host=db'')) (lo, s)"
    by (simp add: one_host_def r_into_rtranclp)
  from open_object_in_transaction [OF this] show ?thesis using x(3) db by auto
qed

theorem large_object_session_witness:
  "\<exists>lo s lo' s'. lo_calls sample_str
       [(sample_env, sample_answers, LoWrite ''xy'' 2), (failing_env, sample_answers, LoRead 2)] (lo, s)
     = Some ([Inr (LoNumber 2), Inr (LoBytes (2, ''ab''))], lo', s')"
proof -
  have "\<exists>lo1 s1 s2 lo3 s3. lo_open sample_str sample_env sample_answers [] ModeRead (large_object_init 0 7) idle_system
        = Some (Inr (), lo1, s1)
      \<and> db_in_transaction (lo_db (large_object_init 0 7)) s1
      \<and> lo_calls sample_str [(sample_env, sample_answers, LoWrite ''xy'' 2), (failing_env, sample_answers, LoRead 2)] (lo1, s1)
        = Some (map (\<lambda>(e, a, op). lo_reply a 3 op)
            [(sample_env, sample_answers, LoWrite ''xy'' 2), (failing_env, sample_answers, LoRead 2)], lo1, s2)
      \<and> lo_close sample_env sample_answers lo1 s2 = (Inr (), lo3, s3) \<and> \<not> lo_opened lo3
      \<and> idle_conn (lo_db (large_object_init 0 7)) 0 s3 \<and> can_be_stolen (conn_at (sys_pool s3) 0)"
    by (rule large_object_session)
      (simp_all add: large_object_init_def idle_sample lo_opened_def sample_env_def sample_answers_def)
  then show ?thesis by (auto simp: lo_answer_def sample_answers_def)
qed

theorem open_in_transaction_fails_witness:
  "\<exists>s1. db_in_transaction 0 s1 \<and>
     lo_open sample_str sample_env sample_answers [] ModeRead (large_object_init 0 7) s1
       = Some (Inl already_locked, large_object_init 0 7, s1)"
proof -
  have "map_option fst (db_begin sample_str sample_env [] 0 idle_system) = Some (Inr ())"
    by (simp add: idle_system_def open_sample_def sample_env_def db_begin_def db_open_connection_def acquire_def
        lock_and_open_def reset_lock_def PQexec_def lo_defs)
  then obtain s1 where s1: "db_begin sample_str sample_env [] (lo_db (large_object_init 0 7)) idle_system = Some (Inr (), s1)"
    by (auto simp: large_object_init_def)
  have "db_lock idle_system (lo_db (large_object_init 0 7)) = None" "\<not> lo_opened (large_object_init 0 7)"
    by (simp_all add: idle_system_def lo_opened_def large_object_init_def)
  then show ?thesis
    using open_in_transaction_fails [OF s1] tx_begin [OF s1] by (auto simp: large_object_init_def)
qed

theorem open_error_lost_witness:
  "\<exists>s'. (case lo_open sample_str sample_env (sample_answers \<lparr> la_open := \<lambda>oid m. - 1 \<rparr>) [] ModeRead (large_object_init 0 7)
       idle_system of Some (r, lo, s) \<Rightarrow> r = Inl (PqException []) \<and> s = s' | None \<Rightarrow> False)"
proof -
  have "\<exists>lo' s'. lo_open sample_str sample_env (sample_answers \<lparr> la_open := \<lambda>oid m. - 1 \<rparr>) [] ModeRead (large_object_init 0 7)
      idle_system = Some (Inl (PqException (la_after (sample_answers \<lparr> la_open := \<lambda>oid m. - 1 \<rparr>))), lo', s')
      \<and> \<not> lo_opened lo' \<and> idle_conn (lo_db (large_object_init 0 7)) 0 s'"
    by (rule open_error_lost) (simp_all add: large_object_init_def idle_sample lo_opened_def sample_env_def)
  then show ?thesis by (auto simp: sample_answers_def)
qed

end
