(* ===== verification/Row_Json.thy ===== *)
theory Row_Json
  imports Row_Values
begin

text \<open>
  Rows and tables as json: \<open>to_json\<close> of \<open>data_row.cpp\<close> and \<open>data_table.cpp\<close>.

  The json library is outside the repository: what it makes of nulls, texts, numbers and lists
  are fields of the arguments \<open>jl\<close> and \<open>cl\<close>. A value of a class that converts to a
  \<open>std::string\<close> is stored as its text, as that library documents; a vector of bytes is stored
  as the list of its numbers. \<open>jl_bounds\<close> gives, for the sizes of the dimensions of a
  \<open>md::jagged_vector\<close>, where the values of a dimension begin and end. The text that
  \<open>to_json_string\<close> makes of the json value is the library's.
\<close>

section \<open>Values\<close>

record 'j json_lib =
  jl_null :: 'j
  jl_array :: "'j list \<Rightarrow> 'j"
  jl_object :: "(string \<rightharpoonup> 'j) \<Rightarrow> 'j"
  jl_bounds :: "int list \<Rightarrow> nat \<Rightarrow> nat \<times> nat"

abbreviation BOOLARRAYOID :: int where "BOOLARRAYOID \<equiv> 1000"
abbreviation TEXTARRAYOID :: int where "TEXTARRAYOID \<equiv> 1009"
abbreviation INT2ARRAYOID :: int where "INT2ARRAYOID \<equiv> 1005"
abbreviation INT4ARRAYOID :: int where "INT4ARRAYOID \<equiv> 1007"
abbreviation INT8ARRAYOID :: int where "INT8ARRAYOID \<equiv> 1016"
abbreviation NUMERICARRAYOID :: int where "NUMERICARRAYOID \<equiv> 1231"
abbreviation MONEYARRAYOID :: int where "MONEYARRAYOID \<equiv> 791"
abbreviation FLOAT4ARRAYOID :: int where "FLOAT4ARRAYOID \<equiv> 1021"
abbreviation FLOAT8ARRAYOID :: int where "FLOAT8ARRAYOID \<equiv> 1022"
abbreviation TIMEARRAYOID :: int where "TIMEARRAYOID \<equiv> 1183"
abbreviation TIMETZARRAYOID :: int where "TIMETZARRAYOID \<equiv> 1270"
abbreviation TIMESTAMPARRAYOID :: int where "TIMESTAMPARRAYOID \<equiv> 1115"
abbreviation TIMESTAMPTZARRAYOID :: int where "TIMESTAMPTZARRAYOID \<equiv> 1185"
abbreviation DATEARRAYOID :: int where "DATEARRAYOID \<equiv> 1182"
abbreviation INTERVALARRAYOID :: int where "INTERVALARRAYOID \<equiv> 1187"
abbreviation JSONARRAYOID :: int where "JSONARRAYOID \<equiv> 199"
abbreviation JSONBARRAYOID :: int where "JSONBARRAYOID \<equiv> 3807"
abbreviation BYTEAARRAYOID :: int where "BYTEAARRAYOID \<equiv> 1001"
abbreviation UUIDARRAYOID :: int where "UUIDARRAYOID \<equiv> 2951"
abbreviation OIDARRAYOID :: int where "OIDARRAYOID \<equiv> 1028"
abbreviation CIDARRAYOID :: int where "CIDARRAYOID \<equiv> 1012"
abbreviation CIDRARRAYOID :: int where "CIDRARRAYOID \<equiv> 651"
abbreviation INETARRAYOID :: int where "INETARRAYOID \<equiv> 1041"
abbreviation MACADDRARRAYOID :: int where "MACADDRARRAYOID \<equiv> 1040"
abbreviation MACADDR8ARRAYOID :: int where "MACADDR8ARRAYOID \<equiv> 775"
abbreviation POINTARRAYOID :: int where "POINTARRAYOID \<equiv> 1017"
abbreviation LINEARRAYOID :: int where "LINEARRAYOID \<equiv> 629"
abbreviation LSEGARRAYOID :: int where "LSEGARRAYOID \<equiv> 1018"
abbreviation BOXARRAYOID :: int where "BOXARRAYOID \<equiv> 1020"
abbreviation PATHARRAYOID :: int where "PATHARRAYOID \<equiv> 1019"
abbreviation POLYGONARRAYOID :: int where "POLYGONARRAYOID \<equiv> 1027"
abbreviation CIRCLEARRAYOID :: int where "CIRCLEARRAYOID \<equiv> 719"
abbreviation INT4RANGEARRAYOID :: int where "INT4RANGEARRAYOID \<equiv> 3905"
abbreviation INT8RANGEARRAYOID :: int where "INT8RANGEARRAYOID \<equiv> 3927"
abbreviation NUMRANGEARRAYOID :: int where "NUMRANGEARRAYOID \<equiv> 3907"
abbreviation TSRANGEARRAYOID :: int where "TSRANGEARRAYOID \<equiv> 3909"
abbreviation TSTZRANGEARRAYOID :: int where "TSTZRANGEARRAYOID \<equiv> 3911"
abbreviation DATERANGEARRAYOID :: int where "DATERANGEARRAYOID \<equiv> 3913"

primrec map_result :: "('a \<Rightarrow> 'b result) \<Rightarrow> 'a list \<Rightarrow> 'b list result" where
  "map_result f [] = Inr []"
| "map_result f (x # xs) = bind_result (f x) (\<lambda>y. rmap (\<lambda>ys. y # ys) (map_result f xs))"

text \<open>\<open>_PQ_ASYNC_ARRAY_TO_JSON\<close>: the lists of all dimensions, and for a single one just this list.\<close>

definition array_part :: "'j json_lib \<Rightarrow> 'a jagged \<Rightarrow> nat \<Rightarrow> 'a list" where
  "array_part jl jv d = (let (b, e) = jl_bounds jl (jv_dims jv) d in take (e - b) (drop b (jv_vals jv)))"

definition array_to_json :: "'j json_lib \<Rightarrow> ('a \<Rightarrow> 'j result) \<Rightarrow> 'a jagged \<Rightarrow> 'j result" where
  "array_to_json jl f jv =
    bind_result (map_result (\<lambda>d. rmap (jl_array jl) (map_result f (array_part jl jv d))) [0..<length (jv_dims jv)]) (\<lambda>rows.
      Inr (if length (jv_dims jv) = 1 then hd rows else jl_array jl rows))"

text \<open>
  \<open>_PQ_ASYNC_TO_JSON\<close>: the two cases of a type and of its arrays, with the readers of both and
  what is stored of a value.
\<close>

definition json_case ::
  "'j json_lib \<Rightarrow> bool \<Rightarrow> data_value \<Rightarrow> int \<Rightarrow> (int \<Rightarrow> int list option \<Rightarrow> int \<Rightarrow> int \<Rightarrow> 'a result) \<Rightarrow> ('a \<Rightarrow> 'j result) \<Rightarrow>
   int \<Rightarrow> (int \<Rightarrow> int list option \<Rightarrow> int \<Rightarrow> int \<Rightarrow> 'b result) \<Rightarrow> ('b \<Rightarrow> 'j result) \<Rightarrow> (int \<times> 'j result) list" where
  "json_case jl le v oid conv f arr_oid arr_conv g =
    [(oid, bind_result (value_as conv v) f), (arr_oid, bind_result (value_as_array le arr_conv v) (array_to_json jl g))]"

text \<open>The cases in their order, in two parts; those of the numeric ranges read arrays of numerics.\<close>

definition json_cases_1 :: "'j conv_lib \<Rightarrow> 'j json_lib \<Rightarrow> bool \<Rightarrow> data_value \<Rightarrow> (int \<times> 'j result) list" where
  "json_cases_1 cl jl le v =
    (let jb = (\<lambda>x. Inr (cv_json_bool cl x)); jt = (\<lambda>x. Inr (cv_json_text cl x)); ji = (\<lambda>x. Inr (cv_json_int cl x));
         j4 = (\<lambda>x. Inr (cv_json_f4 cl x)); j8 = (\<lambda>x. Inr (cv_json_f8 cl x));
         jn = (\<lambda>x. jt (get_str_from_var x));
         jm = (\<lambda>m. rmap (cv_json_text cl) (money_to_string (cv_show cl) (m_frac m) m));
         jy = (\<lambda>bs. Inr (jl_array jl (map (cv_json_int cl) bs)))
     in json_case jl le v BOOLOID (val_to_bool cl le) jb BOOLARRAYOID (val_to_bool cl le) jb
      @ json_case jl le v TEXTOID (val_to_text cl le) jt TEXTARRAYOID (val_to_text cl le) jt
      @ json_case jl le v INT2OID (val_to_int16 cl le) ji INT2ARRAYOID (val_to_int16 cl le) ji
      @ json_case jl le v INT4OID (val_to_int32 cl le) ji INT4ARRAYOID (val_to_int32 cl le) ji
      @ json_case jl le v INT8OID (val_to_int64 cl le) ji INT8ARRAYOID (val_to_int64 cl le) ji
      @ json_case jl le v NUMERICOID (val_to_numeric cl le) jn NUMERICARRAYOID (val_to_numeric cl le) jn
      @ json_case jl le v CASHOID (val_to_money cl le) jm MONEYARRAYOID (val_to_money cl le) jm
      @ json_case jl le v FLOAT4OID (val_to_float cl le) j4 FLOAT4ARRAYOID (val_to_float cl le) j4
      @ json_case jl le v FLOAT8OID (val_to_double cl le) j8 FLOAT8ARRAYOID (val_to_double cl le) j8
      @ json_case jl le v TIMEOID (val_to_time cl le) (\<lambda>x. jt (time_iso_string (cv_fmt cl) x))
          TIMEARRAYOID (val_to_time cl le) (\<lambda>x. jt (time_iso_string (cv_fmt cl) x))
      @ json_case jl le v TIMETZOID (val_to_time_tz cl le) (\<lambda>x. jt (time_tz_iso_string (cv_fmt_zone cl) x))
          TIMETZARRAYOID (val_to_time_tz cl le) (\<lambda>x. jt (time_tz_iso_string (cv_fmt_zone cl) x))
      @ json_case jl le v TIMESTAMPOID (val_to_timestamp cl le) (\<lambda>x. jt (ts_text cl x))
          TIMESTAMPARRAYOID (val_to_timestamp cl le) (\<lambda>x. jt (ts_text cl x))
      @ json_case jl le v TIMESTAMPTZOID (val_to_timestamp_tz cl le) (\<lambda>x. jt (tstz_text cl x))
          TIMESTAMPTZARRAYOID (val_to_timestamp_tz cl le) (\<lambda>x. jt (tstz_text cl x))
      @ json_case jl le v DATEOID (val_to_date cl le) (\<lambda>x. jt (date_text cl x))
          DATEARRAYOID (val_to_date cl le) (\<lambda>x. jt (date_text cl x))
      @ json_case jl le v INTERVALOID (val_to_interval cl le) (\<lambda>x. jt (interval_iso_string (cv_hms cl) x))
          INTERVALARRAYOID (val_to_interval cl le) (\<lambda>x. jt (interval_iso_string (cv_hms cl) x))
      @ json_case jl le v JSONOID (val_to_json cl le) Inr JSONARRAYOID (val_to_json cl le) Inr
      @ json_case jl le v JSONBOID (val_to_json cl le) Inr JSONBARRAYOID (val_to_json cl le) Inr
      @ json_case jl le v BYTEAOID val_to_bytea jy BYTEAARRAYOID val_to_bytea jy)"

definition json_cases_2 :: "'j conv_lib \<Rightarrow> 'j json_lib \<Rightarrow> bool \<Rightarrow> data_value \<Rightarrow> (int \<times> 'j result) list" where
  "json_cases_2 cl jl le v =
    (let gl = cv_geo cl; jt = (\<lambda>x. Inr (cv_json_text cl x)); ji = (\<lambda>x. Inr (cv_json_int cl x));
         jr = (\<lambda>r. rmap (cv_json_text cl) r)
     in json_case jl le v UUIDOID val_to_uuid (\<lambda>x. jt (uuid_to_string (cv_hex cl) x))
          UUIDARRAYOID val_to_uuid (\<lambda>x. jt (uuid_to_string (cv_hex cl) x))
      @ json_case jl le v OIDOID (val_to_oid cl le) (\<lambda>x. jt (cv_show cl x)) OIDARRAYOID (val_to_oid cl le) ji
      @ json_case jl le v CIDROID val_to_cidr (\<lambda>x. jr (cidr_to_string x)) CIDARRAYOID val_to_cidr (\<lambda>x. jr (cidr_to_string x))
      @ json_case jl le v INETOID val_to_inet (\<lambda>x. jr (inet_to_string x)) INETARRAYOID val_to_inet (\<lambda>x. jr (inet_to_string x))
      @ json_case jl le v MACADDROID val_to_macaddr (\<lambda>x. jt (macaddr_to_string x))
          MACADDRARRAYOID val_to_macaddr (\<lambda>x. jt (macaddr_to_string x))
      @ json_case jl le v MACADDR8OID val_to_macaddr8 (\<lambda>x. jt (macaddr8_to_string x))
          MACADDR8ARRAYOID val_to_macaddr8 (\<lambda>x. jt (macaddr8_to_string x))
      @ json_case jl le v POINTOID (val_to_point cl le) (\<lambda>x. jt (point_to_string gl x))
          POINTARRAYOID (val_to_point cl le) (\<lambda>x. jt (point_to_string gl x))
      @ json_case jl le v LINEOID (val_to_line cl le) (\<lambda>x. jt (line_to_string gl x))
          LINEARRAYOID (val_to_line cl le) (\<lambda>x. jt (line_to_string gl x))
      @ json_case jl le v LSEGOID (val_to_lseg cl le) (\<lambda>x. jt (lseg_to_string gl x))
          LSEGARRAYOID (val_to_lseg cl le) (\<lambda>x. jt (lseg_to_string gl x))
      @ json_case jl le v BOXOID (val_to_box cl le) (\<lambda>x. jt (box_to_string gl x))
          BOXARRAYOID (val_to_box cl le) (\<lambda>x. jt (box_to_string gl x))
      @ json_case jl le v PATHOID (val_to_path cl le) (\<lambda>x. jt (path_to_string gl x))
          PATHARRAYOID (val_to_path cl le) (\<lambda>x. jt (path_to_string gl x))
      @ json_case jl le v POLYGONOID (val_to_polygon cl le) (\<lambda>x. jt (polygon_to_string gl x))
          POLYGONARRAYOID (val_to_polygon cl le) (\<lambda>x. jt (polygon_to_string gl x))
      @ json_case jl le v CIRCLEOID (val_to_circle cl le) (\<lambda>x. jt (circle_to_string gl x))
          CIRCLEARRAYOID (val_to_circle cl le) (\<lambda>x. jt (circle_to_string gl x))
      @ json_case jl le v INT4RANGEOID (val_to_int4range cl le) (\<lambda>x. jt (range_to_string (cv_show cl) x))
          INT4RANGEARRAYOID (val_to_int4range cl le) (\<lambda>x. jt (range_to_string (cv_show cl) x))
      @ json_case jl le v INT8RANGEOID (val_to_int8range cl le) (\<lambda>x. jt (range_to_string (cv_show cl) x))
          INT8RANGEARRAYOID (val_to_int8range cl le) (\<lambda>x. jt (range_to_string (cv_show cl) x))
      @ json_case jl le v NUMRANGEOID (val_to_numrange cl le) (\<lambda>x. jt (range_to_string get_str_from_var x))
          NUMRANGEARRAYOID (val_to_numeric cl le) (\<lambda>x. jt (get_str_from_var x))
      @ json_case jl le v TSRANGEOID (val_to_tsrange cl le) (\<lambda>x. jt (range_to_string (ts_text cl) x))
          TSRANGEARRAYOID (val_to_tsrange cl le) (\<lambda>x. jt (range_to_string (ts_text cl) x))
      @ json_case jl le v TSTZRANGEOID (val_to_tstzrange cl le) (\<lambda>x. jt (range_to_string (tstz_text cl) x))
          TSTZRANGEARRAYOID (val_to_tstzrange cl le) (\<lambda>x. jt (range_to_string (tstz_text cl) x))
      @ json_case jl le v DATERANGEOID (val_to_daterange cl le) (\<lambda>x. jt (range_to_string (date_text cl) x))
          DATERANGEARRAYOID (val_to_daterange cl le) (\<lambda>x. jt (range_to_string (date_text cl) x)))"

text \<open>What \<open>to_json\<close> of a row stores for a value; a type without case is read as text.\<close>

definition value_to_json :: "'j conv_lib \<Rightarrow> 'j json_lib \<Rightarrow> bool \<Rightarrow> data_value \<Rightarrow> 'j result" where
  "value_to_json cl jl le v =
    (if value_is_null v then Inr (jl_null jl)
     else
       (case map_of (json_cases_1 cl jl le v @ json_cases_2 cl jl le v) (col_oid (dv_col v)) of
          Some r \<Rightarrow> r
        | None \<Rightarrow> rmap (cv_json_text cl) (value_as (val_to_text cl le) v)))"

section \<open>Rows and tables\<close>

text \<open>The object is filled in place; a throw leaves what is stored so far.\<close>

primrec values_to_json ::
  "'j conv_lib \<Rightarrow> 'j json_lib \<Rightarrow> bool \<Rightarrow> data_value list \<Rightarrow> (string \<rightharpoonup> 'j) \<Rightarrow> unit result \<times> (string \<rightharpoonup> 'j)" where
  "values_to_json cl jl le [] obj = (Inr (), obj)"
| "values_to_json cl jl le (v # vs) obj =
    (case value_to_json cl jl le v of
       Inl err \<Rightarrow> (Inl err, obj)
     | Inr j \<Rightarrow> values_to_json cl jl le vs (obj(col_name (dv_col v) \<mapsto> j)))"

definition row_to_json ::
  "'j conv_lib \<Rightarrow> 'j json_lib \<Rightarrow> bool \<Rightarrow> data_row \<Rightarrow> (string \<rightharpoonup> 'j) \<Rightarrow> unit result \<times> (string \<rightharpoonup> 'j)" where
  "row_to_json cl jl le row obj = values_to_json cl jl le (row_values row) obj"

primrec rows_to_json ::
  "'j conv_lib \<Rightarrow> 'j json_lib \<Rightarrow> bool \<Rightarrow> data_row list \<Rightarrow> 'j list \<Rightarrow> unit result \<times> 'j list" where
  "rows_to_json cl jl le [] rows = (Inr (), rows)"
| "rows_to_json cl jl le (r # rs) rows =
    (case row_to_json cl jl le r Map.empty of
       (Inl err, _) \<Rightarrow> (Inl err, rows)
     | (Inr _, obj) \<Rightarrow> rows_to_json cl jl le rs (rows @ [jl_object jl obj]))"

definition table_to_json :: "'j conv_lib \<Rightarrow> 'j json_lib \<Rightarrow> bool \<Rightarrow> data_table \<Rightarrow> 'j list \<Rightarrow> unit result \<times> 'j list" where
  "table_to_json cl jl le tb rows = rows_to_json cl jl le (tb_rows tb) rows"

section \<open>The object of a row\<close>

text \<open>The last value of a name in a list, and what the object should be.\<close>

definition last_named :: "data_value list \<Rightarrow> string \<Rightarrow> data_value option" where
  "last_named vs name = List.find (\<lambda>v. col_name (dv_col v) = name) (rev vs)"

definition json_object ::
  "'j conv_lib \<Rightarrow> 'j json_lib \<Rightarrow> bool \<Rightarrow> data_value list \<Rightarrow> (string \<rightharpoonup> 'j) \<Rightarrow> (string \<rightharpoonup> 'j)" where
  "json_object cl jl le vs obj name =
    (case last_named vs name of
       None \<Rightarrow> obj name
     | Some v \<Rightarrow> (case value_to_json cl jl le v of Inl e \<Rightarrow> None | Inr j \<Rightarrow> Some j))"

lemma last_named_Cons:
  "last_named (v # vs) name = (case last_named vs name of
     Some w \<Rightarrow> Some w | None \<Rightarrow> if col_name (dv_col v) = name then Some v else None)"
proof -
  have "List.find P (xs @ [v]) = (case List.find P xs of Some w \<Rightarrow> Some w | None \<Rightarrow> if P v then Some v else None)" for P xs
    by (induction xs) auto
  then show ?thesis by (simp add: last_named_def)
qed

lemma last_named_set: "last_named vs name = Some v \<Longrightarrow> v \<in> set vs \<and> col_name (dv_col v) = name"
proof -
  assume "last_named vs name = Some v"
  then obtain i where i: "i < length (rev vs)" "col_name (dv_col (rev vs ! i)) = name" "v = rev vs ! i"
    by (auto simp: last_named_def find_Some_iff)
  from nth_mem [OF i(1)] show ?thesis using i(2,3) by simp
qed

lemma json_object_Cons:
  "value_to_json cl jl le v = Inr j \<Longrightarrow>
    json_object cl jl le vs (obj(col_name (dv_col v) \<mapsto> j)) = json_object cl jl le (v # vs) obj"
  by (rule ext) (simp add: json_object_def last_named_Cons split: option.split)

lemma values_to_json_ok:
  "values_to_json cl jl le vs obj = (Inr (), obj') \<longleftrightarrow>
    (\<forall>v \<in> set vs. \<exists>j. value_to_json cl jl le v = Inr j) \<and> obj' = json_object cl jl le vs obj"
proof (induction vs arbitrary: obj)
  case Nil
  have "json_object cl jl le [] obj = obj" by (rule ext) (simp add: json_object_def last_named_def)
  then show ?case by auto
next
  case (Cons v vs)
  show ?case
  proof (cases "value_to_json cl jl le v")
    case (Inr j)
    have "values_to_json cl jl le (v # vs) obj = (Inr (), obj') \<longleftrightarrow>
        (\<forall>v \<in> set vs. \<exists>j. value_to_json cl jl le v = Inr j) \<and> obj' = json_object cl jl le (v # vs) obj"
      using Cons.IH [of "obj(col_name (dv_col v) \<mapsto> j)"] Inr by (simp only: json_object_Cons [OF Inr] values_to_json.simps sum.case)
    then show ?thesis using Inr by simp
  qed simp
qed

lemma values_to_json_error:
  "values_to_json cl jl le vs obj = (Inl e, obj') \<Longrightarrow>
    \<exists>pre v post. vs = pre @ v # post \<and> value_to_json cl jl le v = Inl e \<and> (\<forall>w \<in> set pre. \<exists>j. value_to_json cl jl le w = Inr j)
      \<and> obj' = json_object cl jl le pre obj"
proof (induction vs arbitrary: obj)
  case (Cons v vs)
  show ?case
  proof (cases "value_to_json cl jl le v")
    case (Inl err)
    have "json_object cl jl le [] obj = obj" by (rule ext) (simp add: json_object_def last_named_def)
    then have "v # vs = [] @ v # vs \<and> value_to_json cl jl le v = Inl e \<and> (\<forall>w \<in> set []. \<exists>j. value_to_json cl jl le w = Inr j)
      \<and> obj' = json_object cl jl le [] obj" using Cons.prems Inl by simp
    then show ?thesis by blast
  next
    case (Inr j)
    then have "values_to_json cl jl le vs (obj(col_name (dv_col v) \<mapsto> j)) = (Inl e, obj')" using Cons.prems by simp
    from Cons.IH [OF this] obtain pre w post where p: "vs = pre @ w # post" "value_to_json cl jl le w = Inl e"
      "\<forall>x \<in> set pre. \<exists>j. value_to_json cl jl le x = Inr j" "obj' = json_object cl jl le pre (obj(col_name (dv_col v) \<mapsto> j))" by blast
    then have "v # vs = (v # pre) @ w # post \<and> value_to_json cl jl le w = Inl e \<and> (\<forall>x \<in> set (v # pre). \<exists>j. value_to_json cl jl le x = Inr j)
      \<and> obj' = json_object cl jl le (v # pre) obj" using Inr json_object_Cons [OF Inr] by auto
    then show ?thesis by blast
  qed
qed simp

text \<open>
  The json object of a row: \<open>to_json\<close> returns normally exactly when every value can be
  converted, and then stores for each name the value of the last column with it and leaves the
  other members alone; otherwise it throws what the first value that cannot be converted throws,
  with the values before it stored.
\<close>

theorem row_json_object:
  "(row_to_json cl jl le row obj = (Inr (), obj') \<longleftrightarrow>
      (\<forall>v \<in> set (row_values row). \<exists>j. value_to_json cl jl le v = Inr j) \<and> obj' = json_object cl jl le (row_values row) obj) \<and>
    (row_to_json cl jl le row obj = (Inl e, obj') \<longrightarrow>
      (\<exists>pre v post. row_values row = pre @ v # post \<and> value_to_json cl jl le v = Inl e \<and>
        obj' = json_object cl jl le pre obj))"
  unfolding row_to_json_def values_to_json_ok using values_to_json_error [of cl jl le "row_values row" obj e obj'] by blast

lemma rows_to_json_ok:
  "rows_to_json cl jl le rs js = (Inr (), js') \<Longrightarrow>
    js' = js @ map (\<lambda>r. jl_object jl (json_object cl jl le (row_values r) Map.empty)) rs
    \<and> (\<forall>r \<in> set rs. \<forall>v \<in> set (row_values r). \<exists>j. value_to_json cl jl le v = Inr j)"
proof (induction rs arbitrary: js)
  case (Cons r rs)
  obtain x obj where x: "row_to_json cl jl le r Map.empty = (x, obj)" by fastforce
  with Cons.prems have u: "x = Inr ()" by (auto split: sum.splits)
  from x u values_to_json_ok [of cl jl le "row_values r" Map.empty obj]
  have o: "\<forall>v \<in> set (row_values r). \<exists>j. value_to_json cl jl le v = Inr j" "obj = json_object cl jl le (row_values r) Map.empty"
    by (simp_all add: row_to_json_def)
  from Cons.prems x u have "rows_to_json cl jl le rs (js @ [jl_object jl obj]) = (Inr (), js')" by simp
  from Cons.IH [OF this] o show ?case by simp
qed simp

section \<open>From a result of the server to json\<close>

lemmas json_cases_defs = json_cases_1_def json_cases_2_def json_case_def Let_def

text \<open>The cases of the types that follow.\<close>

lemma value_to_json_cases:
  assumes "dv_value v \<noteq> None"
  shows "col_oid (dv_col v) = INT4ARRAYOID \<Longrightarrow> value_to_json cl jl le v =
      bind_result (value_as_array le (val_to_int32 cl le) v) (array_to_json jl (\<lambda>x. Inr (cv_json_int cl x)))"
    and "col_oid (dv_col v) = NUMRANGEARRAYOID \<Longrightarrow> value_to_json cl jl le v =
      bind_result (value_as_array le (val_to_numeric cl le) v) (array_to_json jl (\<lambda>x. Inr (cv_json_text cl (get_str_from_var x))))"
    and "col_oid (dv_col v) = CIDRARRAYOID \<Longrightarrow>
      value_to_json cl jl le v = rmap (cv_json_text cl) (value_as (val_to_text cl le) v)"
  using assms by (simp_all add: value_to_json_def value_is_null_def json_cases_defs rmap_def del: not_None_eq)

lemma map_result_Inr [simp]: "map_result (\<lambda>x. Inr (f x)) xs = Inr (map f xs)"
  by (induction xs) simp_all

text \<open>An array of one dimension is the list of its values, for bounds that say so.\<close>

lemma array_to_json_flat:
  assumes "jl_bounds jl [int (length vs)] 0 = (0, length vs)"
  shows "array_to_json jl (\<lambda>x. Inr (f x)) \<lparr> jv_dims = [int (length vs)], jv_vals = vs \<rparr> = Inr (jl_array jl (map f vs))"
  using assms by (simp add: array_to_json_def array_part_def)

text \<open>The last column of a name in a row made of a result.\<close>

lemma last_named_row:
  assumes "j < length (rs_cols res)" "\<And>k. j < k \<Longrightarrow> k < length (rs_cols res) \<Longrightarrow> fst (snd (rs_cols res ! k)) \<noteq> cn"
    and "rs_cols res ! j = (oid, cn, fmt)"
  shows "last_named (row_values (row_init (result_cols res) res row)) cn = Some (field_value (result_cols res) res row j)"
proof -
  let ?C = "result_cols res" let ?f = "field_value ?C res row"
  have n: "col_name (dv_col (?f k)) = fst (snd (rs_cols res ! k))" if "k < length (rs_cols res)" for k
    using that by (simp add: field_value_def value_init_def result_cols_def split: prod.split)
  have l: "length ?C = length (rs_cols res)" by (simp add: result_cols_def)
  have late: "last_named (map ?f ks) cn = None" if "\<forall>k \<in> set ks. j < k \<and> k < length (rs_cols res)" for ks
    using that n assms(2) by (auto simp: last_named_def find_None_iff)
  have split: "[0..<length ?C] = [0..<j] @ j # [Suc j..<length ?C]"
    using assms(1) upt_add_eq_append [of 0 j "length ?C - j"] by (simp add: l upt_conv_Cons)
  have "last_named (map ?f ([0..<j] @ j # [Suc j..<length ?C])) cn = Some (?f j)"
  proof (induction "[0..<j]" rule: rev_induct)
    case Nil
    then show ?case using late [of "[Suc j..<length ?C]"] n [OF assms(1)] assms(3) by (simp add: last_named_Cons l)
  next
    case (snoc x xs)
    have "last_named (xs @ v # vs) cn = Some w" if "last_named (v # vs) cn = Some w" for xs v vs w
      using that by (induction xs) (simp_all add: last_named_Cons split: option.split)
    then show ?case using late [of "[Suc j..<length ?C]"] n [OF assms(1)] assms(3) by (simp add: last_named_Cons l)
  qed
  then show ?thesis by (simp only: row_init_values split)
qed

text \<open>What the json of a value that was sent should be: a boolean, a number, or the text of the value.\<close>

fun sent_json :: "'j conv_lib \<Rightarrow> sent \<Rightarrow> 'j result" where
  "sent_json cl (Sent_bool b) = Inr (cv_json_bool cl b)"
| "sent_json cl (Sent_int16 i) = Inr (cv_json_int cl i)"
| "sent_json cl (Sent_int32 i) = Inr (cv_json_int cl i)"
| "sent_json cl (Sent_int64 i) = Inr (cv_json_int cl i)"
| "sent_json cl (Sent_float x) = Inr (cv_json_f4 cl x)"
| "sent_json cl (Sent_double x) = Inr (cv_json_f8 cl x)"
| "sent_json cl (Sent_numeric n) = Inr (cv_json_text cl (get_str_from_var n))"
| "sent_json cl (Sent_money m) = rmap (cv_json_text cl) (money_to_string (cv_show cl) (m_frac m) m)"
| "sent_json cl (Sent_cidr a) = rmap (cv_json_text cl) (cidr_to_string a)"
| "sent_json cl (Sent_inet a) = rmap (cv_json_text cl) (inet_to_string a)"
| "sent_json cl (Sent_macaddr m) = Inr (cv_json_text cl (macaddr_to_string m))"
| "sent_json cl (Sent_macaddr8 m) = Inr (cv_json_text cl (macaddr8_to_string m))"
| "sent_json cl (Sent_point p) = Inr (cv_json_text cl (point_to_string (cv_geo cl) p))"
| "sent_json cl (Sent_line l) = Inr (cv_json_text cl (line_to_string (cv_geo cl) l))"
| "sent_json cl (Sent_lseg l) = Inr (cv_json_text cl (lseg_to_string (cv_geo cl) l))"
| "sent_json cl (Sent_box b) = Inr (cv_json_text cl (box_to_string (cv_geo cl) b))"
| "sent_json cl (Sent_path p) = Inr (cv_json_text cl (path_to_string (cv_geo cl) p))"
| "sent_json cl (Sent_polygon p) = Inr (cv_json_text cl (polygon_to_string (cv_geo cl) p))"
| "sent_json cl (Sent_circle c) = Inr (cv_json_text cl (circle_to_string (cv_geo cl) c))"

lemma rmap_Inr: "rmap f r = Inr y \<longleftrightarrow> (\<exists>x. r = Inr x \<and> y = f x)"
  by (cases r) auto

lemma sent_to_json:
  assumes ok: "sent_ok cl x" and v: "sent_value le x v"
  shows "value_to_json cl jl le v = sent_json cl x"
proof -
  have n: "dv_value v \<noteq> None" and o: "col_oid (dv_col v) = pm_oid (sent_param le x)" using v by (auto simp: sent_value_def)
  have b: "value_like cl le x v = Inr x" using sent_value_back [OF ok v] .
  show ?thesis
    by (cases x) (use n o b in \<open>simp_all add: value_to_json_def value_is_null_def json_cases_defs rmap_Inr del: not_None_eq\<close>)
qed

text \<open>
  C13: From a result of the server to json: when the table of a result is converted, there is one
  object for each row, and its member for the last column of a name is null for a null; the boolean, the number or the
  text of the value for a boolean, an integer, a float, a double, a numeric, an amount of money, an address, a MAC address or a geometric
  value that was sent as a parameter and comes back in a column of its type; and the list of the numbers for an
  array of 32-bit integers of one dimension that was sent. Nothing is claimed for the other types: arrays of \<open>cidr\<close> and of numeric ranges make
  the conversion throw.
\<close>

theorem json_of_sent:
  assumes tb: "process_query_result d res msg s = Inr tb" and js: "table_to_json cl jl le tb [] = (Inr (), js)"
    and row: "row < length (rs_rows res)" and col: "j < length (rs_cols res)" "rs_cols res ! j = (oid, cn, 1)"
    and last: "\<forall>k. j < k \<and> k < length (rs_cols res) \<longrightarrow> fst (snd (rs_cols res ! k)) \<noteq> cn"
    and ok: "sent_ok cl x"
    and vs: "list_all (in_s 32) vs" "vs \<noteq> []" "length vs < 2 ^ 31" "jl_bounds jl [int (length vs)] 0 = (0, length vs)"
  shows "length js = length (rs_rows res) \<and> (\<exists>obj. js ! row = jl_object jl obj
    \<and> (pq_field res row j = None \<longrightarrow> obj cn = Some (jl_null jl))
    \<and> (oid = pm_oid (sent_param le x) \<and> pq_field res row j = Some (pm_value (sent_param le x)) \<longrightarrow>
        (\<exists>y. sent_json cl x = Inr y \<and> obj cn = Some y))
    \<and> (oid = INT4ARRAYOID \<and> rmap (\<lambda>p. Some (pm_value p)) (new_parameter_gen le (\<lambda>v. Inr (new_int32 le v)) INT4OID INT4ARRAYOID
          \<lparr> jv_dims = [int (length vs)], jv_vals = vs \<rparr>) = Inr (pq_field res row j) \<longrightarrow>
        obj cn = Some (jl_array jl (map (cv_json_int cl) vs))))"
proof -
  let ?C = "result_cols res"
  let ?row = "row_init ?C res row" and ?v = "field_value ?C res row j"
  let ?obj = "json_object cl jl le (row_values ?row) Map.empty"
  have rows: "tb_rows tb = map (row_init ?C res) [0..<length (rs_rows res)]"
    using tb by (auto simp: process_query_result_def Let_def split: if_splits)
  have rj: "js = map (\<lambda>r. jl_object jl (json_object cl jl le (row_values r) Map.empty)) (tb_rows tb)"
    "\<forall>r \<in> set (tb_rows tb). \<forall>v \<in> set (row_values r). \<exists>y. value_to_json cl jl le v = Inr y"
    using rows_to_json_ok [of cl jl le "tb_rows tb" "[]" js] js by (simp_all add: table_to_json_def)
  have row_j: "length js = length (rs_rows res)" "js ! row = jl_object jl ?obj" using row by (simp_all add: rj rows)
  have v: "last_named (row_values ?row) cn = Some ?v" using last_named_row [OF col(1) _ col(2)] last by blast
  have o: "?obj cn = Some y" if "value_to_json cl jl le ?v = Inr y" for y
    using that v by (simp add: json_object_def)
  have c: "col_oid (dv_col ?v) = oid" "col_fmt (dv_col ?v) = 1" "dv_value ?v = pq_field res row j"
    using col by (simp_all add: field_value_def value_init_def result_cols_def)
  have f1: "?obj cn = Some (jl_null jl)" if "pq_field res row j = None"
    using that c by (intro o) (simp add: value_to_json_def value_is_null_def)
  have f2: "\<exists>y. sent_json cl x = Inr y \<and> ?obj cn = Some y"
    if "oid = pm_oid (sent_param le x)" "pq_field res row j = Some (pm_value (sent_param le x))"
  proof -
    have "sent_value le x ?v" using that c by (simp add: sent_value_def) (simp add: field_value_def value_init_def)
    then have "value_to_json cl jl le ?v = sent_json cl x" by (rule sent_to_json [OF ok])
    moreover have "?row \<in> set (tb_rows tb)" using row by (simp add: rows)
    then obtain y where "value_to_json cl jl le ?v = Inr y" using rj(2) last_named_set [OF v] by blast
    ultimately show ?thesis using o by metis
  qed
  have f3: "?obj cn = Some (jl_array jl (map (cv_json_int cl) vs))"
    if "oid = INT4ARRAYOID" and f: "rmap (\<lambda>p. Some (pm_value p)) (new_parameter_gen le (\<lambda>v. Inr (new_int32 le v)) INT4OID INT4ARRAYOID
          \<lparr> jv_dims = [int (length vs)], jv_vals = vs \<rparr>) = Inr (pq_field res row j)"
  proof -
    let ?jv = "\<lparr> jv_dims = [int (length vs)], jv_vals = vs \<rparr>"
    obtain p where p: "new_parameter_gen le (\<lambda>v. Inr (new_int32 le v)) INT4OID INT4ARRAYOID ?jv = Inr p" "pq_field res row j = Some (pm_value p)"
      using f by (cases "new_parameter_gen le (\<lambda>v. Inr (new_int32 le v)) INT4OID INT4ARRAYOID ?jv") auto
    then have "pm_format p = 1" by (auto simp: new_parameter_gen_def rmap_def mk_param_def bind_result_def split: sum.splits)
    moreover have "jagged_ok ?jv" using vs by (intro simple_jagged) simp_all
    ultimately have "pm_format p = 1" "bind_result (new_parameter_gen le (\<lambda>v. Inr (new_int32 le v)) INT4OID INT4ARRAYOID ?jv)
        (\<lambda>p. pgval_to_array le (val_to_int32 cl le) (pm_value p) (pm_format p)) = Inr ?jv"
      using vs(1) by (simp, intro arr4.array_round) simp_all
    then have "pgval_to_array le (val_to_int32 cl le) (pm_value p) 1 = Inr ?jv" using p(1) by simp
    then have a: "value_as_array le (val_to_int32 cl le) ?v = Inr ?jv" using c p(2) by (simp add: value_as_array_def field_bytes_def)
    have nn: "dv_value ?v \<noteq> None" using c p(2) by simp
    show ?thesis
      using a value_to_json_cases(1) [OF nn, of cl jl le] that(1) c array_to_json_flat [where jl = jl and f = "cv_json_int cl", OF vs(4)] by (intro o) simp
  qed
  show ?thesis
  proof (intro conjI exI [of _ ?obj] impI)
    show "length js = length (rs_rows res)" by (rule row_j(1))
    show "js ! row = jl_object jl ?obj" by (rule row_j(2))
  qed (erule f1, (elim conjE, rule f2 f3, assumption, assumption)+)
qed

section \<open>Arrays that cannot be converted\<close>

lemma read_elems_error:
  assumes "\<And>q l. \<exists>e. dec q l = Inl e" "0 < n"
  shows "\<exists>e. read_elems le dec n val off = Inl e"
proof -
  obtain m where n: "n = Suc m" using assms(2) by (cases n) auto
  show ?thesis
    using assms(1) by (auto simp: n bind_result_def rmap_def split: sum.splits) (metis sum.distinct(1))
qed

text \<open>
  A row with an array of numeric ranges or of \<open>cidr\<close> addresses cannot be converted: the case
  of the first reads its elements as numerics, and the case of the second stands under the type
  \<open>cid[]\<close>, so that the array is read as a text. Every such array that is sent in binary form and
  has an element makes \<open>to_json\<close> throw.
\<close>

theorem arrays_not_converted:
  assumes "row_values row = pre @ v # post" "dv_value v = Some (header_bytes le flag ele_oid ds @ els)"
    and "col_fmt (dv_col v) = 1" "\<forall>d \<in> set ds. 0 < d" "ds \<noteq> []" "prod_list ds < 2 ^ 31" "length ds < 2 ^ 31"
    and "(col_oid (dv_col v), ele_oid) \<in> {(NUMRANGEARRAYOID, NUMRANGEOID), (CIDRARRAYOID, CIDROID)}"
  shows "\<exists>e. fst (row_to_json cl jl le row obj) = Inl e"
proof -
  have "\<exists>e. value_to_json cl jl le v = Inl e"
  proof (cases "col_oid (dv_col v) = CIDRARRAYOID")
    case True
    then have "value_to_json cl jl le v = rmap (cv_json_text cl) (value_as (val_to_text cl le) v)"
      using value_to_json_cases(3) [of v cl jl le] assms(2) by simp
    then show ?thesis using True assms(3) by (simp add: value_as_def val_to_text_def Let_def)
  next
    case False
    then have o: "col_oid (dv_col v) = NUMRANGEARRAYOID" "ele_oid = NUMRANGEOID" using assms(8) by auto
    have pos: "0 < prod_list ds" using prod_list_pos [OF assms(4)] .
    have "\<exists>e. val_to_numeric cl le NUMRANGEOID (Some q) l 1 = Inl e" for q l by (simp add: val_to_numeric_def Let_def)
    then have "\<exists>e. read_elems le (\<lambda>q l. val_to_numeric cl le NUMRANGEOID (Some q) l 1) (nat (dims_count ds))
        (header_bytes le flag NUMRANGEOID ds @ els) (12 + 8 * int (length ds)) = Inl e"
      using pos assms(5) by (intro read_elems_error) (simp_all add: dims_count_def)
    then have "\<exists>e. value_as_array le (val_to_numeric cl le) v = Inl e"
      using pgval_to_array_header [OF assms(4,7), of NUMRANGEOID le "val_to_numeric cl le" flag els] assms(2,3,5,6) o(2)
      by (auto simp: value_as_array_def field_bytes_def dims_count_def in_s_def)
    then show ?thesis using value_to_json_cases(2) [of v cl jl le] o(1) assms(2) by auto
  qed
  then obtain e where e: "value_to_json cl jl le v = Inl e" by blast
  have "fst (row_to_json cl jl le row obj) \<noteq> Inr ()"
  proof
    assume "fst (row_to_json cl jl le row obj) = Inr ()"
    then have "values_to_json cl jl le (row_values row) obj = (Inr (), snd (row_to_json cl jl le row obj))"
      by (simp add: row_to_json_def prod_eq_iff)
    then have "\<exists>j. value_to_json cl jl le v = Inr j" using values_to_json_ok assms(1) by (metis in_set_conv_decomp)
    then show False using e by simp
  qed
  then show ?thesis by (cases "fst (row_to_json cl jl le row obj)") auto
qed

section \<open>Witnesses\<close>

definition sample_jl :: "unit json_lib" where
  "sample_jl = \<lparr> jl_null = (), jl_array = (\<lambda>_. ()), jl_object = (\<lambda>_. ()), jl_bounds = (\<lambda>ds d. (0, nat (prod_list ds))) \<rparr>"

definition null_value :: data_value where
  "null_value = value_init \<lparr> col_oid = 23, col_index = 0, col_name = ''a'', col_fmt = 1 \<rparr> None 0"

theorem row_json_object_witness:
  "row_to_json sample_conv sample_jl True \<lparr> row_cols = [], row_values = [null_value] \<rparr> Map.empty = (Inr (), [''a'' \<mapsto> ()])"
proof -
  have "json_object sample_conv sample_jl True [null_value] Map.empty = [''a'' \<mapsto> ()]"
    by (rule ext) (simp add: json_object_def last_named_def null_value_def value_init_def value_to_json_def value_is_null_def)
  then show ?thesis
    using row_json_object [of sample_conv sample_jl True "\<lparr> row_cols = [], row_values = [null_value] \<rparr>" Map.empty "[''a'' \<mapsto> ()]"]
    by (simp add: null_value_def value_to_json_def value_is_null_def value_init_def)
qed

text \<open>A small library of json values for the example, with a row of a point and a null.\<close>

datatype sample_json = J_null | J_bool bool | J_num int | J_text string | J_list "sample_json list" | J_object "string \<Rightarrow> sample_json option"

definition sample_json_lib :: "sample_json json_lib" where
  "sample_json_lib = \<lparr> jl_null = J_null, jl_array = J_list, jl_object = J_object, jl_bounds = (\<lambda>ds d. (0, nat (prod_list ds))) \<rparr>"

definition json_conv :: "sample_json conv_lib" where
  "json_conv = \<lparr> cv_num = cv_num sample_conv, cv_geo = cv_geo sample_conv, cv_cal = cv_cal sample_conv,
    cv_show = cv_show sample_conv, cv_show_f4 = cv_show_f4 sample_conv, cv_str_f4 = cv_str_f4 sample_conv, cv_f4_int = cv_f4_int sample_conv,
    cv_f8_int = cv_f8_int sample_conv, cv_int_f4 = cv_int_f4 sample_conv, cv_int_f8 = cv_int_f8 sample_conv, cv_f4_f8 = cv_f4_f8 sample_conv,
    cv_f8_f4 = cv_f8_f4 sample_conv, cv_now = cv_now sample_conv, cv_zone = cv_zone sample_conv,
    cv_hms = cv_hms sample_conv, cv_fmt_date = cv_fmt_date sample_conv, cv_fmt = cv_fmt sample_conv, cv_fmt_zone = cv_fmt_zone sample_conv,
    cv_prs = cv_prs sample_conv, cv_frac = 2, cv_through = cv_through sample_conv,
    cv_json_parse = (\<lambda>s. Inr (J_text s)), cv_json_bool = J_bool, cv_json_text = J_text, cv_json_int = J_num, cv_json_f4 = J_num, cv_json_f8 = J_num,
    cv_json_dump = (\<lambda>_. []), cv_hex = cv_hex sample_conv, cv_junk_closed = False, cv_junk_radius = 0,
    cv_junk_range = cv_junk_range sample_conv, cv_junk_numrange = cv_junk_numrange sample_conv, cv_junk_tsrange = cv_junk_tsrange sample_conv,
    cv_junk_tstzrange = cv_junk_tstzrange sample_conv, cv_junk_daterange = cv_junk_daterange sample_conv \<rparr>"

definition mac_result :: pgresult where
  "mac_result = \<lparr> rs_status = 2, rs_cols = [(829, ''id'', 1), (829, ''mac'', 1)], rs_rows = [[None, Some [8, 0, 43, 1, 2, 3]]] \<rparr>"

definition mac_table :: data_table where
  "mac_table = (let cols = result_cols mac_result in \<lparr> tb_cols = cols, tb_rows = [row_init cols mac_result 0] \<rparr>)"

lemma mac_table_read: "process_query_result 0 mac_result [] held_system = Inr mac_table"
proof -
  have "db_conn (sys_pool held_system) 0 \<noteq> None" by code_simp
  then show ?thesis by (simp add: process_query_result_def mac_table_def mac_result_def ok_status_def status_defs Let_def)
qed

lemma mac_table_values: "tb_rows mac_table = [row_init (result_cols mac_result) mac_result 0]"
  "row_values (row_init (result_cols mac_result) mac_result 0)
    = [field_value (result_cols mac_result) mac_result 0 0, field_value (result_cols mac_result) mac_result 0 1]"
  by (simp_all add: mac_table_def Let_def row_init_values) (simp add: mac_result_def result_cols_def)

theorem json_of_sent_witness:
  "\<exists>js obj. table_to_json json_conv sample_json_lib True mac_table [] = (Inr (), js) \<and> length js = 1 \<and> js ! 0 = J_object obj
    \<and> obj ''mac'' = Some (J_text (macaddr_to_string [8, 0, 43, 1, 2, 3]))"
proof -
  let ?x = "Sent_macaddr [8, 0, 43, 1, 2, 3]" and ?f = "field_value (result_cols mac_result) mac_result 0"
  have x: "sent_ok json_conv ?x" "pm_value (sent_param True ?x) = [8, 0, 43, 1, 2, 3]"
    by (simp_all add: bytes_ok_def digits_ok_def new_macaddr_def mk_param_def)
  have f: "pq_field mac_result 0 1 = Some [8, 0, 43, 1, 2, 3]" by (simp add: mac_result_def pq_field_def)
  have "col_oid (result_cols mac_result ! 1) = pm_oid (sent_param True ?x)" "col_fmt (result_cols mac_result ! 1) = 1"
    by (simp_all add: mac_result_def result_cols_def new_macaddr_def mk_param_def)
  then have "sent_value True ?x (?f 1)" by (simp add: sent_value_def x(2) f field_value_def value_init_def del: sent_param.simps One_nat_def)
  then have v1: "value_to_json json_conv sample_json_lib True (?f 1) = sent_json json_conv ?x" by (rule sent_to_json [OF x(1)])
  have v0: "value_to_json json_conv sample_json_lib True (?f 0) = Inr J_null"
    by (simp add: value_to_json_def value_is_null_def field_value_def value_init_def mac_result_def pq_field_def sample_json_lib_def)
  obtain js where js: "table_to_json json_conv sample_json_lib True mac_table [] = (Inr (), js)"
    using v0 v1 by (simp add: table_to_json_def mac_table_values row_to_json_def)
  have p: "0 < length (rs_rows mac_result)" "1 < length (rs_cols mac_result)" "rs_cols mac_result ! 1 = (829, ''mac'', 1)"
    "\<forall>k. 1 < k \<and> k < length (rs_cols mac_result) \<longrightarrow> fst (snd (rs_cols mac_result ! k)) \<noteq> ''mac''" by (auto simp: mac_result_def)
  have q: "list_all (in_s 32) [5]" "[5 :: int] \<noteq> []" "length [5 :: int] < 2 ^ 31" "jl_bounds sample_json_lib [int (length [5 :: int])] 0 = (0, length [5 :: int])"
    by (simp_all add: in_s_def sample_json_lib_def)
  from json_of_sent [OF mac_table_read js p x(1) q] obtain obj where o: "length js = length (rs_rows mac_result)" "js ! 0 = jl_object sample_json_lib obj"
    "829 = pm_oid (sent_param True ?x) \<and> pq_field mac_result 0 1 = Some (pm_value (sent_param True ?x)) \<longrightarrow>
      (\<exists>y. sent_json json_conv ?x = Inr y \<and> obj ''mac'' = Some y)" by blast
  moreover from o(3) have "obj ''mac'' = Some (J_text (macaddr_to_string [8, 0, 43, 1, 2, 3]))" using f x(2) by (simp add: json_conv_def)
  ultimately show ?thesis using js by (auto simp: mac_result_def sample_json_lib_def)
qed

theorem arrays_not_converted_witness:
  "\<exists>e. fst (row_to_json sample_conv sample_jl True
     \<lparr> row_cols = [], row_values = [value_init \<lparr> col_oid = 651, col_index = 0, col_name = ''a'', col_fmt = 1 \<rparr>
        (Some (header_bytes True 0 650 [1] @ [])) 0] \<rparr> Map.empty) = Inl e"
  by (rule arrays_not_converted [where pre = "[]" and post = "[]" and flag = 0 and ele_oid = 650 and ds = "[1]" and els = "[]"
        and v = "value_init \<lparr> col_oid = 651, col_index = 0, col_name = ''a'', col_fmt = 1 \<rparr> (Some (header_bytes True 0 650 [1] @ [])) 0"])
    (simp_all add: value_init_def)

end
