(* ===== verification/Durations.thy ===== *)
theory Durations
  imports Times Cash Numeric_Fast
begin

text \<open>
  Durations: class \<open>duration\<close> of \<open>pg_type_duration_def.h\<close> and \<open>pg_type_duration_def.cpp\<close>.

  The arithmetic of \<open>long double\<close>, the conversions between numbers and text, \<open>md::trim\<close> and
  \<open>md::lower_case_copy\<close> are fields of the argument \<open>dl\<close>. The regular expression is modelled by a
  matcher, and the language it stands for is stated apart. The stream operators are not modelled.

  The properties rest on laws that every binary floating point format with at least 53 bits keeps:
  the result of a product or a quotient is rounded. They are shown to hold for \<open>round_double\<close>.
\<close>

section \<open>Numbers\<close>

record 'd dur_lib =
  dl_of_rat :: "rat \<Rightarrow> 'd"
  dl_mul :: "'d \<Rightarrow> 'd \<Rightarrow> 'd"
  dl_div :: "'d \<Rightarrow> 'd \<Rightarrow> 'd"
  dl_abs :: "'d \<Rightarrow> 'd"
  dl_round :: "'d \<Rightarrow> 'd"
  dl_floor :: "'d \<Rightarrow> int"
  dl_ge :: "'d \<Rightarrow> 'd \<Rightarrow> bool"
  dl_of_str :: "string \<Rightarrow> 'd result"
  dl_to_str :: "'d \<Rightarrow> string"
  dl_trim :: "string \<Rightarrow> string"
  dl_lcase :: "string \<Rightarrow> string"

definition ms_s :: "'d dur_lib \<Rightarrow> 'd" where "ms_s dl = dl_of_rat dl 1000"
definition ms_m :: "'d dur_lib \<Rightarrow> 'd" where "ms_m dl = dl_mul dl (ms_s dl) (dl_of_rat dl 60)"
definition ms_h :: "'d dur_lib \<Rightarrow> 'd" where "ms_h dl = dl_mul dl (ms_m dl) (dl_of_rat dl 60)"
definition ms_d :: "'d dur_lib \<Rightarrow> 'd" where "ms_d dl = dl_mul dl (ms_h dl) (dl_of_rat dl 24)"
definition ms_w :: "'d dur_lib \<Rightarrow> 'd" where "ms_w dl = dl_mul dl (ms_d dl) (dl_of_rat dl 7)"
definition ms_y :: "'d dur_lib \<Rightarrow> 'd" where "ms_y dl = dl_mul dl (ms_d dl) (dl_of_rat dl (36525 / 100))"

section \<open>The regular expression\<close>

definition ascii_lower :: "string \<Rightarrow> string" where
  "ascii_lower s = map (\<lambda>c. let v = of_char c :: int in if 65 \<le> v \<and> v \<le> 90 then char_of (v + 32) else c) s"

text \<open>The alternatives of the second group, with those that \<open>s?\<close> stands for.\<close>

definition unit_names :: "string list" where
  "unit_names =
    [''milliseconds'', ''millisecond'', ''msecs'', ''msec'', ''ms'', ''seconds'', ''second'', ''secs'', ''sec'', ''s'',
     ''minutes'', ''minute'', ''mins'', ''min'', ''m'', ''hours'', ''hour'', ''hrs'', ''hr'', ''h'', ''days'', ''day'', ''d'',
     ''weeks'', ''week'', ''w'', ''years'', ''year'', ''yrs'', ''yr'', ''y'']"

definition all_digits :: "string \<Rightarrow> bool" where
  "all_digits s \<longleftrightarrow> list_all c_isdigit s"

text \<open>The first group as it is written: digits, a sign, a digit, a point and digits, all but the last optional.\<close>

definition num_lang :: "string \<Rightarrow> bool" where
  "num_lang n \<longleftrightarrow> (\<exists>ds1 m d1 p ds2. n = ds1 @ m @ d1 @ p @ ds2 \<and> all_digits ds1 \<and> m \<in> {[], ''-''} \<and>
     all_digits d1 \<and> length d1 \<le> 1 \<and> p \<in> {[], ''.''} \<and> all_digits ds2 \<and> ds2 \<noteq> [])"

text \<open>A text matches with groups \<open>n\<close> and \<open>u\<close>; a second group that takes no part is empty.\<close>

definition duration_lang :: "string \<Rightarrow> string \<Rightarrow> string \<Rightarrow> bool" where
  "duration_lang s n u \<longleftrightarrow> (\<exists>k. s = n @ replicate k (CHR '' '') @ u) \<and> num_lang n \<and>
     (u = [] \<or> ascii_lower u \<in> set unit_names)"

text \<open>The matcher.\<close>

definition num_rest :: "string \<Rightarrow> bool" where
  "num_rest r =
    (let b = dropWhile c_isdigit r in
     if b = [] then r \<noteq> []
     else length (takeWhile c_isdigit r) \<le> 1 \<and> hd b = CHR ''.'' \<and> tl b \<noteq> [] \<and> all_digits (tl b))"

definition num_match :: "string \<Rightarrow> bool" where
  "num_match n =
    (let r = dropWhile c_isdigit n in
     if r = [] then n \<noteq> []
     else if hd r = CHR ''-'' then num_rest (tl r)
     else hd r = CHR ''.'' \<and> tl r \<noteq> [] \<and> all_digits (tl r))"

definition num_char :: "char \<Rightarrow> bool" where
  "num_char c \<longleftrightarrow> c_isdigit c \<or> c = CHR ''-'' \<or> c = CHR ''.''"

definition duration_match :: "string \<Rightarrow> (string \<times> string) option" where
  "duration_match s =
    (let n = takeWhile num_char s; u = dropWhile (\<lambda>c. c = CHR '' '') (dropWhile num_char s) in
     if num_match n \<and> (u = [] \<or> ascii_lower u \<in> set unit_names) then Some (n, u) else None)"

section \<open>Operations\<close>

text \<open>The tests of the unit, in their order.\<close>

definition scale_unit :: "'d dur_lib \<Rightarrow> string \<Rightarrow> 'd \<Rightarrow> 'd result" where
  "scale_unit dl t n =
    (if t \<in> {''years'', ''year'', ''yrs'', ''yr'', ''y''} then Inr (dl_mul dl n (ms_y dl))
     else if t \<in> {''weeks'', ''week'', ''w''} then Inr (dl_mul dl n (ms_w dl))
     else if t \<in> {''days'', ''day'', ''d''} then Inr (dl_mul dl n (ms_d dl))
     else if t \<in> {''hours'', ''hour'', ''hrs'', ''hr'', ''h''} then Inr (dl_mul dl n (ms_h dl))
     else if t \<in> {''minutes'', ''minute'', ''mins'', ''min'', ''m''} then Inr (dl_mul dl n (ms_m dl))
     else if t \<in> {''seconds'', ''second'', ''secs'', ''sec'', ''s''} then Inr (dl_mul dl n (ms_s dl))
     else if t \<in> {''milliseconds'', ''millisecond'', ''msecs'', ''msec'', ''ms''} then Inr n
     else Inl (PqException ''Invalid duration type''))"

definition text_to_duration :: "'d dur_lib \<Rightarrow> string \<Rightarrow> 'd result" where
  "text_to_duration dl val =
    (case duration_match (dl_trim dl val) of
       None \<Rightarrow> Inl (PqException ''Invalid duration string'')
     | Some (n_str, type_str) \<Rightarrow>
         let t = dl_lcase dl type_str in bind_result (dl_of_str dl n_str) (scale_unit dl t))"

definition plural :: "'d dur_lib \<Rightarrow> 'd \<Rightarrow> 'd \<Rightarrow> 'd \<Rightarrow> string \<Rightarrow> string" where
  "plural dl ms_val ms_abs n name =
    dl_to_str dl (dl_round dl (dl_div dl ms_val n)) @ '' '' @ name @
    (if dl_ge dl ms_abs (dl_mul dl n (dl_of_rat dl (3 / 2))) then ''s'' else [])"

definition short_part :: "'d dur_lib \<Rightarrow> 'd \<Rightarrow> 'd \<Rightarrow> string \<Rightarrow> string" where
  "short_part dl ms n name = dl_to_str dl (dl_round dl (dl_div dl ms n)) @ name"

definition to_short_string :: "'d dur_lib \<Rightarrow> 'd \<Rightarrow> string" where
  "to_short_string dl ms =
    (let ms_abs = dl_abs dl ms in
     if dl_ge dl ms_abs (ms_d dl) then short_part dl ms (ms_d dl) ''d''
     else if dl_ge dl ms_abs (ms_h dl) then short_part dl ms (ms_h dl) ''h''
     else if dl_ge dl ms_abs (ms_m dl) then short_part dl ms (ms_m dl) ''m''
     else if dl_ge dl ms_abs (ms_s dl) then short_part dl ms (ms_s dl) ''s''
     else dl_to_str dl ms @ ''ms'')"

definition to_long_string :: "'d dur_lib \<Rightarrow> 'd \<Rightarrow> string" where
  "to_long_string dl ms =
    (let ms_abs = dl_abs dl ms in
     if dl_ge dl ms_abs (ms_d dl) then plural dl ms ms_abs (ms_d dl) ''day''
     else if dl_ge dl ms_abs (ms_h dl) then plural dl ms ms_abs (ms_h dl) ''hour''
     else if dl_ge dl ms_abs (ms_m dl) then plural dl ms ms_abs (ms_m dl) ''minute''
     else if dl_ge dl ms_abs (ms_s dl) then plural dl ms ms_abs (ms_s dl) ''second''
     else dl_to_str dl ms @ '' ms'')"

definition from_seconds :: "'d dur_lib \<Rightarrow> int \<Rightarrow> 'd" where
  "from_seconds dl seconds = dl_mul dl (dl_of_rat dl (of_int seconds)) (dl_of_rat dl 1000)"

text \<open>A number of microseconds that does not fit is undefined behaviour of the cast.\<close>

definition duration_to_interval :: "'d dur_lib \<Rightarrow> 'd \<Rightarrow> interval result" where
  "duration_to_interval dl ms =
    (let us = dl_floor dl (dl_mul dl ms (dl_of_rat dl 1000)) in
     if in_s 64 us then Inr \<lparr> iv_t = us, iv_d = 0, iv_m = 0, iv_null = False \<rparr>
     else Inl (UndefinedBehaviour ''float to integer''))"

section \<open>The matcher accepts the language of the expression\<close>

lemma sign_chars [simp]: "\<not> c_isdigit (CHR ''-'')" "\<not> c_isdigit (CHR ''.'')" "\<not> num_char (CHR '' '')"
  by (simp_all add: c_isdigit_def num_char_def)

lemma drop_digits: "all_digits ds \<Longrightarrow> dropWhile c_isdigit (ds @ r) = dropWhile c_isdigit r"
  by (induction ds) (simp_all add: all_digits_def)

lemma take_digits: "all_digits ds \<Longrightarrow> takeWhile c_isdigit (ds @ r) = ds @ takeWhile c_isdigit r"
  by (induction ds) (simp_all add: all_digits_def)

lemma drop_all_digits: "all_digits ds \<Longrightarrow> dropWhile c_isdigit ds = []"
  using drop_digits [of ds "[]"] by simp

lemma split_digits: "takeWhile c_isdigit r @ dropWhile c_isdigit r = r" "all_digits (takeWhile c_isdigit r)"
  by simp (auto simp: all_digits_def list_all_iff dest: set_takeWhileD)

lemma all_digits_append [simp]: "all_digits (a @ b) \<longleftrightarrow> all_digits a \<and> all_digits b" "all_digits []"
  by (simp_all add: all_digits_def)

lemma num_rest_lang:
  "num_rest r \<longleftrightarrow> (\<exists>d1 p ds2. r = d1 @ p @ ds2 \<and> all_digits d1 \<and> length d1 \<le> 1 \<and> p \<in> {[], ''.''} \<and> all_digits ds2 \<and> ds2 \<noteq> [])"
proof
  assume n: "num_rest r"
  let ?a = "takeWhile c_isdigit r" and ?b = "dropWhile c_isdigit r"
  show "\<exists>d1 p ds2. r = d1 @ p @ ds2 \<and> all_digits d1 \<and> length d1 \<le> 1 \<and> p \<in> {[], ''.''} \<and> all_digits ds2 \<and> ds2 \<noteq> []"
  proof (cases "?b = []")
    case True
    then have "r = [] @ [] @ r \<and> all_digits r" by (simp add: all_digits_def list_all_iff)
    then show ?thesis using n True by (intro exI [of _ "[]"] exI [of _ r]) (simp add: num_rest_def)
  next
    case False
    then obtain t where "?b = CHR ''.'' # t" using n by (cases ?b) (simp_all add: num_rest_def Let_def)
    then have "r = ?a @ ''.'' @ tl ?b" using split_digits(1) [of r] by simp
    moreover have "all_digits ?a \<and> length ?a \<le> 1 \<and> all_digits (tl ?b) \<and> tl ?b \<noteq> []"
      using n False split_digits(2) [of r] by (simp add: num_rest_def Let_def del: dropWhile_eq_Nil_conv)
    ultimately show ?thesis by blast
  qed
next
  assume "\<exists>d1 p ds2. r = d1 @ p @ ds2 \<and> all_digits d1 \<and> length d1 \<le> 1 \<and> p \<in> {[], ''.''} \<and> all_digits ds2 \<and> ds2 \<noteq> []"
  then show "num_rest r"
    by (auto simp: num_rest_def drop_digits take_digits drop_all_digits Let_def simp del: dropWhile_eq_Nil_conv)
qed

lemma num_match_lang: "num_match n = num_lang n"
proof
  assume m: "num_match n"
  let ?a = "takeWhile c_isdigit n" and ?r = "dropWhile c_isdigit n"
  show "num_lang n"
  proof (cases "?r = []")
    case True
    then have "all_digits n" by (simp add: all_digits_def list_all_iff)
    then show ?thesis using m True unfolding num_lang_def
      by (intro exI [of _ "[]"] exI [of _ n]) (simp add: num_match_def)
  next
    case False
    then obtain c t where r: "?r = c # t" by (cases ?r) auto
    have n: "n = ?a @ c # t" using split_digits(1) [of n] unfolding r by (rule sym)
    show ?thesis
    proof (cases "c = CHR ''-''")
      case True
      then have "num_rest t" using m r by (simp add: num_match_def)
      then obtain d1 p ds2 where d: "t = d1 @ p @ ds2" "all_digits d1" "length d1 \<le> 1" "p \<in> {[], ''.''}" "all_digits ds2" "ds2 \<noteq> []"
        unfolding num_rest_lang by blast
      have "n = ?a @ ''-'' @ d1 @ p @ ds2" using n d(1) True by simp
      then show ?thesis unfolding num_lang_def using d split_digits(2) [of n] by blast
    next
      case False
      then have t: "c = CHR ''.''" "t \<noteq> []" "all_digits t" using m r by (simp_all add: num_match_def)
      then have "n = ?a @ [] @ [] @ ''.'' @ t" using n by simp
      then show ?thesis unfolding num_lang_def using t split_digits(2) [of n]
        by (intro exI [of _ ?a] exI [of _ "[]"] exI [of _ "''.''"] exI [of _ t]) simp
    qed
  qed
next
  assume "num_lang n"
  then obtain ds1 m d1 p ds2 where n: "n = ds1 @ m @ d1 @ p @ ds2" "all_digits ds1" "m \<in> {[], ''-''}" "all_digits d1"
    "length d1 \<le> 1" "p \<in> {[], ''.''}" "all_digits ds2" "ds2 \<noteq> []" unfolding num_lang_def by blast
  show "num_match n"
  proof (cases "m = []")
    case True
    then show ?thesis using n by (auto simp: num_match_def drop_digits drop_all_digits Let_def simp del: dropWhile_eq_Nil_conv)
  next
    case False
    then have m: "m = ''-''" using n(3) by simp
    have "num_rest (d1 @ p @ ds2)" unfolding num_rest_lang using n(4-8) by blast
    then show ?thesis using n(1,2) m by (simp add: num_match_def drop_digits)
  qed
qed

lemma num_lang_chars: "num_lang n \<Longrightarrow> list_all num_char n"
  by (auto simp: num_lang_def all_digits_def list_all_iff num_char_def)

lemma unit_start: "ascii_lower u \<in> set unit_names \<Longrightarrow> u \<noteq> [] \<and> \<not> num_char (hd u) \<and> hd u \<noteq> CHR '' ''"
proof -
  assume u: "ascii_lower u \<in> set unit_names"
  then obtain c t where ct: "u = c # t" by (cases u) (auto simp: ascii_lower_def unit_names_def)
  have names: "list_all (\<lambda>x. x \<noteq> [] \<and> \<not> num_char (hd x) \<and> hd x \<noteq> CHR '' '') unit_names" by code_simp
  have "hd (ascii_lower u) = c" if "num_char c \<or> c = CHR '' ''"
    using that by (auto simp: ascii_lower_def ct num_char_def c_isdigit_def Let_def)
  with names u show ?thesis by (auto simp: list_all_iff ct)
qed

lemma take_num: "list_all num_char n \<Longrightarrow> r = [] \<or> \<not> num_char (hd r) \<Longrightarrow> takeWhile num_char (n @ r) = n \<and> dropWhile num_char (n @ r) = r"
  by (induction n) (cases r; simp)+

lemma drop_blanks: "u = [] \<or> hd u \<noteq> CHR '' '' \<Longrightarrow> dropWhile (\<lambda>c. c = CHR '' '') (replicate k (CHR '' '') @ u) = u"
  by (induction k) (cases u; simp)+

lemma duration_match_iff: "duration_match s = Some (n, u) \<longleftrightarrow> duration_lang s n u"
proof
  assume m: "duration_match s = Some (n, u)"
  let ?r = "dropWhile num_char s"
  have n: "n = takeWhile num_char s" "u = dropWhile (\<lambda>c. c = CHR '' '') ?r" "num_match n" "u = [] \<or> ascii_lower u \<in> set unit_names"
    using m unfolding duration_match_def Let_def by (simp_all split: if_split_asm del: dropWhile_eq_Nil_conv)
  have "?r = takeWhile (\<lambda>c. c = CHR '' '') ?r @ u" unfolding n(2) by simp
  moreover have "takeWhile (\<lambda>c. c = CHR '' '') ?r = replicate (length (takeWhile (\<lambda>c. c = CHR '' '') ?r)) (CHR '' '')"
    by (rule replicate_length_same [symmetric]) (auto dest: set_takeWhileD)
  ultimately have "s = n @ replicate (length (takeWhile (\<lambda>c. c = CHR '' '') ?r)) (CHR '' '') @ u"
    using n(1) by (metis takeWhile_dropWhile_id)
  then show "duration_lang s n u" unfolding duration_lang_def using n(3,4) num_match_lang by blast
next
  assume l: "duration_lang s n u"
  then obtain k where s: "s = n @ replicate k (CHR '' '') @ u" and n: "num_lang n" "u = [] \<or> ascii_lower u \<in> set unit_names"
    unfolding duration_lang_def by blast
  have u: "u = [] \<or> \<not> num_char (hd u) \<and> hd u \<noteq> CHR '' ''" using n(2) unit_start by blast
  then have "replicate k (CHR '' '') @ u = [] \<or> \<not> num_char (hd (replicate k (CHR '' '') @ u))" by (cases k) auto
  then have "takeWhile num_char s = n \<and> dropWhile num_char s = replicate k (CHR '' '') @ u"
    unfolding s by (rule take_num [OF num_lang_chars [OF n(1)]])
  then show "duration_match s = Some (n, u)" using drop_blanks [of u k] u n num_match_lang by (auto simp: duration_match_def Let_def)
qed

section \<open>Floating point numbers\<close>

text \<open>
  \<open>nv\<close> gives the value of a number, and None for an infinity or what is not a number. A product
  or a quotient far from the limits of the type is rounded with a relative error of at most
  \<open>2 ^ - 53\<close>, and whole results up to \<open>2 ^ 53\<close> are exact; so are the literals of the source,
  absolute values, rounding to a whole number and comparisons. \<open>lower_case_copy\<close> is only asked
  about ASCII texts.
\<close>

definition round_away :: "rat \<Rightarrow> rat" where
  "round_away x = (if x < 0 then - of_int \<lfloor>1 / 2 - x\<rfloor> else of_int \<lfloor>x + 1 / 2\<rfloor>)"

definition normal_num :: "rat \<Rightarrow> bool" where
  "normal_num a \<longleftrightarrow> a = 0 \<or> 1 / 2 ^ 1000 \<le> \<bar>a\<bar> \<and> \<bar>a\<bar> \<le> 2 ^ 1000"

definition rounded :: "rat \<Rightarrow> rat \<Rightarrow> bool" where
  "rounded c a \<longleftrightarrow> \<bar>c - a\<bar> \<le> \<bar>a\<bar> / 2 ^ 53 \<and> (a \<in> \<int> \<and> \<bar>a\<bar> \<le> 2 ^ 53 \<longrightarrow> c = a)"

definition ascii_text :: "string \<Rightarrow> bool" where
  "ascii_text s \<longleftrightarrow> list_all (\<lambda>c. of_char c < (128 :: int)) s"

definition float_lib :: "'d dur_lib \<Rightarrow> ('d \<Rightarrow> rat option) \<Rightarrow> bool" where
  "float_lib dl nv \<longleftrightarrow>
     (\<forall>a \<in> {1000, 60, 24, 7, 36525 / 100, 3 / 2}. nv (dl_of_rat dl a) = Some a) \<and>
     (\<forall>x y a b. nv x = Some a \<longrightarrow> nv y = Some b \<longrightarrow>
        (normal_num (a * b) \<longrightarrow> (\<exists>c. nv (dl_mul dl x y) = Some c \<and> rounded c (a * b))) \<and>
        (b \<noteq> 0 \<longrightarrow> normal_num (a / b) \<longrightarrow> (\<exists>c. nv (dl_div dl x y) = Some c \<and> rounded c (a / b))) \<and>
        dl_ge dl x y = (b \<le> a)) \<and>
     (\<forall>x a. nv x = Some a \<longrightarrow> nv (dl_abs dl x) = Some \<bar>a\<bar> \<and> nv (dl_round dl x) = Some (round_away a)) \<and>
     (\<forall>s. ascii_text s \<longrightarrow> dl_lcase dl s = ascii_lower s)"

lemma float_mul:
  assumes "float_lib dl nv" "nv x = Some a" "nv y = Some b" "normal_num (a * b)"
  shows "\<exists>c. nv (dl_mul dl x y) = Some c \<and> rounded c (a * b)"
  using assms unfolding float_lib_def by blast

lemma float_div:
  assumes "float_lib dl nv" "nv x = Some a" "nv y = Some b" "b \<noteq> 0" "normal_num (a / b)"
  shows "\<exists>c. nv (dl_div dl x y) = Some c \<and> rounded c (a / b)"
  using assms unfolding float_lib_def by blast

lemma float_ge: "float_lib dl nv \<Longrightarrow> nv x = Some a \<Longrightarrow> nv y = Some b \<Longrightarrow> dl_ge dl x y = (b \<le> a)"
  unfolding float_lib_def by blast

lemma float_abs_round:
  "float_lib dl nv \<Longrightarrow> nv x = Some a \<Longrightarrow> nv (dl_abs dl x) = Some \<bar>a\<bar>"
  "float_lib dl nv \<Longrightarrow> nv x = Some a \<Longrightarrow> nv (dl_round dl x) = Some (round_away a)"
  unfolding float_lib_def by blast+

lemma float_literal: "float_lib dl nv \<Longrightarrow> a \<in> {1000, 60, 24, 7, 36525 / 100, 3 / 2} \<Longrightarrow> nv (dl_of_rat dl a) = Some a"
  unfolding float_lib_def by blast

lemma float_whole:
  assumes "float_lib dl nv" "nv x = Some a" "nv y = Some b" "a * b = of_int k" "1 \<le> k" "k \<le> 2 ^ 53"
  shows "nv (dl_mul dl x y) = Some (of_int k)"
proof -
  have k: "(1 :: rat) \<le> of_int k" "(of_int k :: rat) \<le> of_int (2 ^ 53)" using assms(5,6) by (simp_all only: of_int_1_le_iff of_int_le_iff)
  then have "1 / 2 ^ 1000 \<le> (of_int k :: rat)" "(of_int k :: rat) \<le> 2 ^ 1000" by simp_all
  then have "normal_num (a * b)" unfolding assms(4) normal_num_def using k(1) by simp
  from float_mul [OF assms(1-3) this] obtain c where c: "nv (dl_mul dl x y) = Some c" "rounded c (of_int k)"
    unfolding assms(4) by blast
  have "\<bar>of_int k :: rat\<bar> \<le> 2 ^ 53" using k by simp
  then have "c = of_int k" using c(2) by (simp add: rounded_def)
  then show ?thesis using c(1) by simp
qed

text \<open>The units are exact.\<close>

lemma float_units:
  assumes L: "float_lib dl nv"
  shows "nv (ms_s dl) = Some 1000" "nv (ms_m dl) = Some 60000" "nv (ms_h dl) = Some 3600000" "nv (ms_d dl) = Some 86400000"
    "nv (ms_w dl) = Some 604800000" "nv (ms_y dl) = Some 31557600000"
proof -
  show s: "nv (ms_s dl) = Some 1000" unfolding ms_s_def by (rule float_literal [OF L]) simp
  have l: "nv (dl_of_rat dl 60) = Some 60" "nv (dl_of_rat dl 24) = Some 24" "nv (dl_of_rat dl 7) = Some 7"
    "nv (dl_of_rat dl (36525 / 100)) = Some (36525 / 100)" by (rule float_literal [OF L], simp)+
  show m: "nv (ms_m dl) = Some 60000" using float_whole [OF L s l(1), of 60000] by (simp add: ms_m_def)
  show h: "nv (ms_h dl) = Some 3600000" using float_whole [OF L m l(1), of 3600000] by (simp add: ms_h_def)
  show d: "nv (ms_d dl) = Some 86400000" using float_whole [OF L h l(2), of 86400000] by (simp add: ms_d_def)
  show "nv (ms_w dl) = Some 604800000" using float_whole [OF L d l(3), of 604800000] by (simp add: ms_w_def)
  show "nv (ms_y dl) = Some 31557600000" using float_whole [OF L d l(4), of 31557600000] by (simp add: ms_y_def)
qed

text \<open>The milliseconds of the unit that a name stands for.\<close>

definition unit_table :: "(string \<times> rat) list" where
  "unit_table =
    map (\<lambda>u. (u, 1)) [''milliseconds'', ''millisecond'', ''msecs'', ''msec'', ''ms''] @
    map (\<lambda>u. (u, 1000)) [''seconds'', ''second'', ''secs'', ''sec'', ''s''] @
    map (\<lambda>u. (u, 60000)) [''minutes'', ''minute'', ''mins'', ''min'', ''m''] @
    map (\<lambda>u. (u, 3600000)) [''hours'', ''hour'', ''hrs'', ''hr'', ''h''] @
    map (\<lambda>u. (u, 86400000)) [''days'', ''day'', ''d''] @
    map (\<lambda>u. (u, 604800000)) [''weeks'', ''week'', ''w''] @
    map (\<lambda>u. (u, 31557600000)) [''years'', ''year'', ''yrs'', ''yr'', ''y'']"

text \<open>\<open>w\<close> is \<open>v\<close> times the milliseconds \<open>f\<close> of a unit, up to the rounding of one product.\<close>

definition scaled :: "('d \<Rightarrow> rat option) \<Rightarrow> 'd \<Rightarrow> rat \<Rightarrow> 'd \<Rightarrow> bool" where
  "scaled nv v f w \<longleftrightarrow> (f = 1 \<longrightarrow> w = v) \<and>
     (\<forall>a. nv v = Some a \<and> normal_num (a * f) \<longrightarrow> (\<exists>c. nv w = Some c \<and> \<bar>c - a * f\<bar> \<le> \<bar>a * f\<bar> / 2 ^ 53))"

lemma scaled_mul: "float_lib dl nv \<Longrightarrow> nv y = Some f \<Longrightarrow> f \<noteq> 1 \<Longrightarrow> scaled nv v f (dl_mul dl v y)"
  unfolding scaled_def using float_mul [of dl nv v _ y f] by (auto simp: rounded_def)

lemma scaled_one: "scaled nv v 1 v"
  by (simp add: scaled_def)

lemma scale_unit_table:
  assumes "float_lib dl nv"
  shows "case map_of unit_table t of
      Some f \<Rightarrow> \<exists>w. scale_unit dl t v = Inr w \<and> scaled nv v f w
    | None \<Rightarrow> scale_unit dl t v = Inl (PqException ''Invalid duration type'')"
proof -
  have s: "scaled nv v 1000 (dl_mul dl v (ms_s dl))" "scaled nv v 60000 (dl_mul dl v (ms_m dl))"
    "scaled nv v 3600000 (dl_mul dl v (ms_h dl))" "scaled nv v 86400000 (dl_mul dl v (ms_d dl))"
    "scaled nv v 604800000 (dl_mul dl v (ms_w dl))" "scaled nv v 31557600000 (dl_mul dl v (ms_y dl))"
    by (rule scaled_mul [OF assms]; simp add: float_units [OF assms])+
  show ?thesis by (simp add: scale_unit_def unit_table_def s scaled_one)
qed

lemma units_known: "(map_of unit_table t \<noteq> None) = (t \<in> set unit_names)"
  by (simp add: unit_table_def unit_names_def map_of_eq_None_iff del: not_None_eq)

lemma unit_ascii: "ascii_lower u \<in> set unit_names \<Longrightarrow> ascii_text u"
proof -
  assume u: "ascii_lower u \<in> set unit_names"
  have "list_all ascii_text unit_names" by code_simp
  then have "ascii_text (ascii_lower u)" using u by (simp add: list_all_iff)
  then show ?thesis by (auto simp: ascii_text_def ascii_lower_def list_all_iff Let_def split: if_splits)
qed

text \<open>
  C23: Reading a duration: a text is accepted exactly when it is, without blanks around it, in the
  language of the regular expression, which takes it apart in one way only. The first group is
  read as a number by the library, whose error is passed on; the result is this number for
  milliseconds, and its product with the milliseconds of the unit that the second group names in
  any case, with a relative error of at most \<open>2 ^ - 53\<close>, for the others. A number without unit is
  always refused, although the expression lets it pass. The arithmetic is assumed to round as
  floating point numbers of at least 53 bits do.
\<close>

theorem duration_of_text:
  assumes "float_lib dl nv"
  shows "(\<forall>n u. duration_lang (dl_trim dl val) n u \<longrightarrow>
      (\<forall>n' u'. duration_lang (dl_trim dl val) n' u' \<longrightarrow> n' = n \<and> u' = u) \<and>
      (map_of unit_table (ascii_lower u) = None) = (u = []) \<and>
      (case dl_of_str dl n of
         Inl err \<Rightarrow> text_to_duration dl val = Inl err
       | Inr v \<Rightarrow> (case map_of unit_table (ascii_lower u) of
           None \<Rightarrow> text_to_duration dl val = Inl (PqException ''Invalid duration type'')
         | Some f \<Rightarrow> \<exists>w. text_to_duration dl val = Inr w \<and> scaled nv v f w))) \<and>
    ((\<nexists>n u. duration_lang (dl_trim dl val) n u) \<longrightarrow> text_to_duration dl val = Inl (PqException ''Invalid duration string''))"
proof (intro conjI allI impI)
  fix n u assume l: "duration_lang (dl_trim dl val) n u"
  then have m: "duration_match (dl_trim dl val) = Some (n, u)" by (simp add: duration_match_iff)
  show "n' = n" "u' = u" if "duration_lang (dl_trim dl val) n' u'" for n' u'
    using m that by (simp_all add: duration_match_iff [symmetric])
  have e: "map_of unit_table (ascii_lower []) = None" by (simp add: ascii_lower_def unit_table_def)
  have u: "u = [] \<or> ascii_lower u \<in> set unit_names" using l by (simp add: duration_lang_def)
  then show "(map_of unit_table (ascii_lower u) = None) = (u = [])" using e units_known [of "ascii_lower u"] by metis
  have "ascii_text u" using u unit_ascii by (auto simp: ascii_text_def)
  then have lc: "dl_lcase dl u = ascii_lower u" using assms by (simp add: float_lib_def)
  show "case dl_of_str dl n of
         Inl err \<Rightarrow> text_to_duration dl val = Inl err
       | Inr v \<Rightarrow> (case map_of unit_table (ascii_lower u) of
           None \<Rightarrow> text_to_duration dl val = Inl (PqException ''Invalid duration type'')
         | Some f \<Rightarrow> \<exists>w. text_to_duration dl val = Inr w \<and> scaled nv v f w)"
  proof (cases "dl_of_str dl n")
    case (Inr v)
    then have t: "text_to_duration dl val = scale_unit dl (ascii_lower u) v" by (simp add: text_to_duration_def m lc)
    show ?thesis unfolding Inr t sum.case by (rule scale_unit_table [OF assms])
  qed (simp add: text_to_duration_def m)
next
  assume n: "\<nexists>n u. duration_lang (dl_trim dl val) n u"
  then have "duration_match (dl_trim dl val) = None" using duration_match_iff by (cases "duration_match (dl_trim dl val)") auto
  then show "text_to_duration dl val = Inl (PqException ''Invalid duration string'')" by (simp add: text_to_duration_def)
qed

text \<open>Printing keeps a duration up to half of the unit it is printed in.\<close>

lemma round_away_near: "\<exists>k. round_away y = of_int k \<and> \<bar>of_int k - y\<bar> \<le> 1 / 2"
proof (cases "y < 0")
  case True
  have "of_int \<lfloor>1 / 2 - y\<rfloor> \<le> 1 / 2 - y" "1 / 2 - y < of_int \<lfloor>1 / 2 - y\<rfloor> + 1" by linarith+
  then have "\<bar>of_int (- \<lfloor>1 / 2 - y\<rfloor>) - y\<bar> \<le> 1 / 2" unfolding of_int_minus by linarith
  moreover have "round_away y = of_int (- \<lfloor>1 / 2 - y\<rfloor>)" using True by (simp add: round_away_def)
  ultimately show ?thesis by blast
next
  case False
  have "of_int \<lfloor>y + 1 / 2\<rfloor> \<le> y + 1 / 2" "y + 1 / 2 < of_int \<lfloor>y + 1 / 2\<rfloor> + 1" by linarith+
  then have "\<bar>of_int \<lfloor>y + 1 / 2\<rfloor> - y\<bar> \<le> 1 / 2" by linarith
  moreover have "round_away y = of_int \<lfloor>y + 1 / 2\<rfloor>" using False by (simp add: round_away_def)
  ultimately show ?thesis by blast
qed

lemma short_part_near:
  assumes L: "float_lib dl nv" and x: "nv x = Some a" "nv y = Some f" "1 \<le> f" "f \<le> \<bar>a\<bar>" "\<bar>a\<bar> \<le> 2 ^ 1000"
  shows "\<exists>n k. short_part dl x y name = dl_to_str dl n @ name \<and> nv n = Some (of_int k) \<and>
    \<bar>of_int k * f - a\<bar> \<le> f / 2 + \<bar>a\<bar> / 2 ^ 53"
proof -
  have q: "1 \<le> \<bar>a / f\<bar>" "\<bar>a / f\<bar> \<le> \<bar>a\<bar>" using x(3,4) by (simp_all add: abs_divide divide_le_eq mult_le_cancel_left1)
  have "(1 :: rat) / 2 ^ 1000 \<le> 1" by simp
  then have "normal_num (a / f)" unfolding normal_num_def using q x(5) by linarith
  moreover have "f \<noteq> 0" using x(3) by simp
  ultimately obtain c where c: "nv (dl_div dl x y) = Some c" "\<bar>c - a / f\<bar> \<le> \<bar>a / f\<bar> / 2 ^ 53"
    using float_div [OF L x(1,2)] by (auto simp: rounded_def)
  obtain k where k: "round_away c = of_int k" "\<bar>of_int k - c\<bar> \<le> 1 / 2" using round_away_near by blast
  have "\<bar>of_int k - a / f\<bar> \<le> 1 / 2 + \<bar>a / f\<bar> / 2 ^ 53" using k(2) c(2) by linarith
  then have "\<bar>of_int k - a / f\<bar> * f \<le> (1 / 2 + \<bar>a / f\<bar> / 2 ^ 53) * f" using x(3) by (intro mult_right_mono) simp_all
  moreover have "\<bar>of_int k - a / f\<bar> * f = \<bar>of_int k * f - a\<bar>"
  proof -
    have "(of_int k - a / f) * f = of_int k * f - a" using x(3) by (simp add: left_diff_distrib)
    then show ?thesis using x(3) by (metis abs_mult abs_of_nonneg order_trans zero_le_one)
  qed
  moreover have "(1 / 2 + \<bar>a / f\<bar> / 2 ^ 53) * f = f / 2 + \<bar>a\<bar> / 2 ^ 53"
    using x(3) by (simp add: abs_divide distrib_right)
  ultimately have "\<bar>of_int k * f - a\<bar> \<le> f / 2 + \<bar>a\<bar> / 2 ^ 53" by simp
  moreover have "nv (dl_round dl (dl_div dl x y)) = Some (of_int k)" using float_abs_round(2) [OF L c(1)] k(1) by simp
  ultimately show ?thesis unfolding short_part_def by blast
qed

text \<open>
  A duration of a second or more, in either direction, is printed in the short form as a whole
  number of the largest unit that is not longer, up to the day, and this number differs from the
  duration by half a unit at most and the rounding of the division.
\<close>

theorem short_string_near:
  assumes L: "float_lib dl nv" and x: "nv x = Some a" "1000 \<le> \<bar>a\<bar>" "\<bar>a\<bar> \<le> 2 ^ 1000"
  shows "\<exists>(f, name) \<in> {(1000, ''s''), (60000, ''m''), (3600000, ''h''), (86400000, ''d'')}. \<exists>n k.
    f \<le> \<bar>a\<bar> \<and> (\<forall>g \<in> {60000, 3600000, 86400000}. f < g \<longrightarrow> \<bar>a\<bar> < g) \<and>
    to_short_string dl x = dl_to_str dl n @ name \<and> nv n = Some (of_int k) \<and> \<bar>of_int k * f - a\<bar> \<le> f / 2 + \<bar>a\<bar> / 2 ^ 53"
proof -
  note u = float_units [OF L]
  note ge = float_ge [OF L float_abs_round(1) [OF L x(1)]]
  have p: "f \<le> \<bar>a\<bar> \<Longrightarrow> 1 \<le> f \<Longrightarrow> nv y = Some f \<Longrightarrow> \<exists>n k. short_part dl x y name = dl_to_str dl n @ name \<and>
    nv n = Some (of_int k) \<and> \<bar>of_int k * f - a\<bar> \<le> f / 2 + \<bar>a\<bar> / 2 ^ 53" for f y name
    using short_part_near [OF L x(1) _ _ _ x(3)] by blast
  consider "86400000 \<le> \<bar>a\<bar>" | "3600000 \<le> \<bar>a\<bar>" "\<bar>a\<bar> < 86400000" | "60000 \<le> \<bar>a\<bar>" "\<bar>a\<bar> < 3600000" | "\<bar>a\<bar> < 60000" by linarith
  then show ?thesis
  proof cases
    case 1
    then have "to_short_string dl x = short_part dl x (ms_d dl) ''d''" by (simp add: to_short_string_def ge [OF u(4)])
    then show ?thesis using p [OF 1 _ u(4), of "''d''"] 1 by simp
  next
    case 2
    then have "to_short_string dl x = short_part dl x (ms_h dl) ''h''" by (simp add: to_short_string_def ge [OF u(4)] ge [OF u(3)])
    then show ?thesis using p [OF 2(1) _ u(3), of "''h''"] 2 by simp
  next
    case 3
    then have "to_short_string dl x = short_part dl x (ms_m dl) ''m''"
      by (simp add: to_short_string_def ge [OF u(4)] ge [OF u(3)] ge [OF u(2)])
    then show ?thesis using p [OF 3(1) _ u(2), of "''m''"] 3 by simp
  next
    case 4
    then have "to_short_string dl x = short_part dl x (ms_s dl) ''s''"
      using x(2) by (simp add: to_short_string_def ge [OF u(4)] ge [OF u(3)] ge [OF u(2)] ge [OF u(1)])
    then show ?thesis using p [OF x(2) _ u(1), of "''s''"] 4 x(2) by simp
  qed
qed

section \<open>Witnesses\<close>

text \<open>Numbers that are rounded to 53 bits.\<close>

lemma round_double_whole:
  assumes "\<bar>k\<bar> \<le> 2 ^ 53"
  shows "round_double (of_int k) = of_int k"
proof (cases "k = 0")
  case False
  let ?e = "ilog2 \<bar>of_int k\<bar>" and ?x = "of_int k :: rat"
  define u :: rat where "u = 2 powi (?e - 52)"
  have k: "1 \<le> \<bar>k\<bar>" using False by simp
  have b: "2 powi ?e \<le> \<bar>?x\<bar>" "\<bar>?x\<bar> < 2 powi (?e + 1)" using ilog2_bounds [of "\<bar>?x\<bar>"] False by simp_all
  have "\<exists>m. ?x / u = of_int m"
  proof (cases "?e \<le> 52")
    case True
    then have "u = 1 / 2 ^ nat (52 - ?e)" by (simp add: u_def power_int_def field_simps)
    then have "?x / u = of_int (k * 2 ^ nat (52 - ?e))" by simp
    then show ?thesis by blast
  next
    case False
    have h: "\<bar>?x\<bar> \<le> 2 ^ 53" using assms by (metis of_int_abs of_int_le_iff of_int_numeral of_int_power)
    have "(2 :: rat) powi ?e \<le> 2 powi 53" using b(1) h by simp
    then have "?e \<le> 53" using power_int_strict_increasing [of 53 ?e "2 :: rat"] by (meson not_le one_less_numeral_iff semiring_norm(76))
    then have e: "?e = 53" using False by simp
    then have "\<bar>?x\<bar> = 2 ^ 53" using b(1) h by simp
    then have "\<bar>k\<bar> = 2 ^ 53" by (metis of_int_abs of_int_eq_iff of_int_numeral of_int_power)
    then have "k = 2 ^ 53 \<or> k = - (2 ^ 53)" by linarith
    then have "?x / u = of_int (2 ^ 52) \<or> ?x / u = of_int (- (2 ^ 52))" by (auto simp: u_def e)
    then show ?thesis by blast
  qed
  then obtain m where m: "?x / u = of_int m" by blast
  have "round_double ?x = of_int (round_even (?x / u)) * u" using False by (simp add: round_double_def u_def Let_def)
  also have "\<dots> = of_int m * u" unfolding m by (simp add: round_even_def)
  also have "\<dots> = ?x" using m [symmetric] by (simp add: u_def)
  finally show ?thesis .
qed (simp add: round_double_def)

definition sample_dur :: "rat dur_lib" where
  "sample_dur = \<lparr> dl_of_rat = (\<lambda>x. x), dl_mul = (\<lambda>x y. round_double (x * y)), dl_div = (\<lambda>x y. round_double (x / y)),
     dl_abs = abs, dl_round = round_away, dl_floor = floor, dl_ge = (\<ge>),
     dl_of_str = (\<lambda>s. Inr (of_int (read_int s))), dl_to_str = (\<lambda>x. int_text \<lfloor>x\<rfloor>), dl_trim = (\<lambda>s. s), dl_lcase = ascii_lower \<rparr>"

lemma rounded_double: "rounded (round_double a) a"
proof -
  have "round_double a = a" if i: "a \<in> \<int>" "\<bar>a\<bar> \<le> 2 ^ 53"
  proof -
    obtain k where a: "a = of_int k" using i(1) by (auto elim: Ints_cases)
    then have "\<bar>k\<bar> \<le> 2 ^ 53" using i(2) by (metis of_int_abs of_int_le_iff of_int_numeral of_int_power)
    then show ?thesis unfolding a by (rule round_double_whole)
  qed
  then show ?thesis using round_double_error [of a] by (simp add: rounded_def)
qed

lemma sample_dur_float: "float_lib sample_dur Some"
  by (simp add: float_lib_def sample_dur_def rounded_double)

theorem duration_of_text_witness:
  "\<exists>w. text_to_duration sample_dur ''7 Weeks'' = Inr w \<and> \<bar>w - 4233600000\<bar> \<le> 4233600000 / 2 ^ 53"
proof -
  have l: "duration_lang (dl_trim sample_dur ''7 Weeks'') ''7'' ''Weeks''"
    unfolding duration_match_iff [symmetric] sample_dur_def by code_simp
  have u: "map_of unit_table (ascii_lower ''Weeks'') = Some 604800000" by code_simp
  have "read_int ''7'' = 7" by code_simp
  then have n: "dl_of_str sample_dur ''7'' = Inr 7" by (simp add: sample_dur_def)
  have "case dl_of_str sample_dur ''7'' of
         Inl err \<Rightarrow> text_to_duration sample_dur ''7 Weeks'' = Inl err
       | Inr v \<Rightarrow> (case map_of unit_table (ascii_lower ''Weeks'') of
           None \<Rightarrow> text_to_duration sample_dur ''7 Weeks'' = Inl (PqException ''Invalid duration type'')
         | Some f \<Rightarrow> \<exists>w. text_to_duration sample_dur ''7 Weeks'' = Inr w \<and> scaled Some v f w)"
    using duration_of_text [OF sample_dur_float, of "''7 Weeks''"] l by blast
  then have "\<exists>w. text_to_duration sample_dur ''7 Weeks'' = Inr w \<and> scaled Some 7 604800000 w"
    unfolding u n sum.case option.case .
  then obtain w where "text_to_duration sample_dur ''7 Weeks'' = Inr w" "scaled Some 7 604800000 w" by blast
  moreover have "normal_num (7 * 604800000)" by (simp add: normal_num_def)
  ultimately show ?thesis by (auto simp: scaled_def)
qed

theorem short_string_near_witness:
  "\<exists>k. to_short_string sample_dur (- 90061000) = dl_to_str sample_dur (of_int k) @ ''d'' \<and>
     \<bar>of_int k * 86400000 + 90061000\<bar> \<le> (43300000 :: rat)"
  using short_string_near [OF sample_dur_float refl, of "- 90061000"] by auto

end
