(* ===== verification/Sync_Calls.thy ===== *)
theory Sync_Calls
  imports Large_Object Row_Values
begin

text \<open>
  The synchronous calls of a database (\<open>execute\<close>, \<open>query\<close>, \<open>query_single\<close>, \<open>query_value\<close>,
  \<open>query_reader\<close>, \<open>prepare\<close>, \<open>deallocate_prepared\<close> of \<open>database.h\<close> and
  \<open>_process_send_prepare_result\<close> of \<open>database.cpp\<close>) and prepared statements: class
  \<open>data_prepared_t\<close> of \<open>data_prepared.h\<close>. A call composes the lock on the connection (theory
  Session), a task that runs at once (Conn_Task) and the evaluation of its result (Results and
  Row_Values). \<open>res_of\<close> gives the result of libpq that a number stands for, \<open>tuples\<close> the number
  that \<open>PQcmdTuples\<close> shows for it. \<open>wait_for_sync\<close> meets an empty queue, as in Session; the
  overloads of a call differ in how the parameters are collected (theory Params).
\<close>

section \<open>Calls\<close>

definition PG_BIN_FORMAT :: int where "PG_BIN_FORMAT = 1"

text \<open>The status of a null result is a fatal error.\<close>

definition null_result :: pgresult where
  "null_result = \<lparr> rs_status = PGRES_FATAL_ERROR, rs_cols = [], rs_rows = [] \<rparr>"

definition result_of :: "(nat \<Rightarrow> pgresult) \<Rightarrow> nat option \<Rightarrow> pgresult" where
  "result_of res_of r = (case r of None \<Rightarrow> null_result | Some k \<Rightarrow> res_of k)"

text \<open>
  \<open>_PQ_ASYNC_SEND_QRY_BODY_SYNC\<close> and \<open>_PQ_ASYNC_SEND_QRY_PREP_BODY_SYNC\<close>: the lock lives until
  the result has been processed, and ends with a throw too.
\<close>

definition sync_call ::
  "(int \<Rightarrow> string) \<Rightarrow> env \<Rightarrow> int list \<Rightarrow> turn \<Rightarrow> nat \<Rightarrow> (task \<Rightarrow> task) \<Rightarrow> (nat option \<Rightarrow> system \<Rightarrow> 'a result) \<Rightarrow> system \<Rightarrow>
   ('a result \<times> system) option" where
  "sync_call num_to_str e clk n d start proc s =
    (case db_open_connection num_to_str e clk d PQ_ASYNC_DEFAULT_TIMEOUT_MS s of
       None \<Rightarrow> None
     | Some (Inl err, s) \<Rightarrow> Some (Inl err, s)
     | Some (Inr k, s) \<Rightarrow>
         (case run_now num_to_str e clk n d (start (task_init False False)) s of
            None \<Rightarrow> None
          | Some (r, t, s) \<Rightarrow> Some (unlock e k (bind_result r (\<lambda>r. proc r s)) s)))"

definition execute_proc ::
  "(nat \<Rightarrow> pgresult) \<Rightarrow> (pgresult \<Rightarrow> int) \<Rightarrow> turn \<Rightarrow> nat \<Rightarrow> nat option \<Rightarrow> system \<Rightarrow> int result" where
  "execute_proc res_of tuples n d r s =
    process_execute_result d (rs_status (result_of res_of r)) (tuples (result_of res_of r)) (tn_message n) s"

definition query_proc :: "(nat \<Rightarrow> pgresult) \<Rightarrow> turn \<Rightarrow> nat \<Rightarrow> nat option \<Rightarrow> system \<Rightarrow> data_table result" where
  "query_proc res_of n d r s = process_query_result d (result_of res_of r) (tn_message n) s"

definition query_single_proc :: "(nat \<Rightarrow> pgresult) \<Rightarrow> turn \<Rightarrow> nat \<Rightarrow> nat option \<Rightarrow> system \<Rightarrow> data_row option result" where
  "query_single_proc res_of n d r s = process_query_single_result d (result_of res_of r) (tn_message n) s"

definition query_value_proc ::
  "(int \<Rightarrow> int list option \<Rightarrow> int \<Rightarrow> int \<Rightarrow> 'a result) \<Rightarrow> (nat \<Rightarrow> pgresult) \<Rightarrow> turn \<Rightarrow> nat \<Rightarrow> nat option \<Rightarrow> system \<Rightarrow> 'a result" where
  "query_value_proc conv res_of n d r s = process_query_value_result conv d (result_of res_of r) (tn_message n) s"

definition db_execute ::
  "(int \<Rightarrow> string) \<Rightarrow> env \<Rightarrow> int list \<Rightarrow> turn \<Rightarrow> (nat \<Rightarrow> pgresult) \<Rightarrow> (pgresult \<Rightarrow> int) \<Rightarrow> nat \<Rightarrow> string \<Rightarrow> system \<Rightarrow>
   (int result \<times> system) option" where
  "db_execute num_to_str e clk n res_of tuples d sql =
    sync_call num_to_str e clk n d (start_query sql PG_BIN_FORMAT) (execute_proc res_of tuples n d)"

definition db_query ::
  "(int \<Rightarrow> string) \<Rightarrow> env \<Rightarrow> int list \<Rightarrow> turn \<Rightarrow> (nat \<Rightarrow> pgresult) \<Rightarrow> nat \<Rightarrow> string \<Rightarrow> system \<Rightarrow>
   (data_table result \<times> system) option" where
  "db_query num_to_str e clk n res_of d sql =
    sync_call num_to_str e clk n d (start_query sql PG_BIN_FORMAT) (query_proc res_of n d)"

definition db_query_single ::
  "(int \<Rightarrow> string) \<Rightarrow> env \<Rightarrow> int list \<Rightarrow> turn \<Rightarrow> (nat \<Rightarrow> pgresult) \<Rightarrow> nat \<Rightarrow> string \<Rightarrow> system \<Rightarrow>
   (data_row option result \<times> system) option" where
  "db_query_single num_to_str e clk n res_of d sql =
    sync_call num_to_str e clk n d (start_query sql PG_BIN_FORMAT) (query_single_proc res_of n d)"

definition db_query_value ::
  "(int \<Rightarrow> string) \<Rightarrow> env \<Rightarrow> int list \<Rightarrow> turn \<Rightarrow> (nat \<Rightarrow> pgresult) \<Rightarrow> (int \<Rightarrow> int list option \<Rightarrow> int \<Rightarrow> int \<Rightarrow> 'a result) \<Rightarrow> nat \<Rightarrow>
   string \<Rightarrow> system \<Rightarrow> ('a result \<times> system) option" where
  "db_query_value num_to_str e clk n res_of conv d sql =
    sync_call num_to_str e clk n d (start_query sql PG_BIN_FORMAT) (query_value_proc conv res_of n d)"

text \<open>\<open>query_reader\<close>: nothing is sent yet; the reader keeps the lock with its task.\<close>

definition sync_reader ::
  "(int \<Rightarrow> string) \<Rightarrow> env \<Rightarrow> int list \<Rightarrow> nat \<Rightarrow> (task \<Rightarrow> task) \<Rightarrow> system \<Rightarrow> ((reader \<times> nat) result \<times> system) option" where
  "sync_reader num_to_str e clk d start s =
    (case db_open_connection num_to_str e clk d PQ_ASYNC_DEFAULT_TIMEOUT_MS s of
       None \<Rightarrow> None
     | Some (Inl err, s) \<Rightarrow> Some (Inl err, s)
     | Some (Inr k, s) \<Rightarrow> Some (Inr (reader_init (start (task_init False False)), k), s))"

definition db_query_reader ::
  "(int \<Rightarrow> string) \<Rightarrow> env \<Rightarrow> int list \<Rightarrow> nat \<Rightarrow> string \<Rightarrow> system \<Rightarrow> ((reader \<times> nat) result \<times> system) option" where
  "db_query_reader num_to_str e clk d sql = sync_reader num_to_str e clk d (start_query sql PG_BIN_FORMAT)"

section \<open>Prepared statements\<close>

record prepared =
  pr_db :: nat
  pr_name :: string
  pr_auto_deallocate :: bool
  pr_lock :: nat

definition new_prepared :: "nat \<Rightarrow> string \<Rightarrow> bool \<Rightarrow> nat \<Rightarrow> prepared" where
  "new_prepared d name auto k = \<lparr> pr_db = d, pr_name = name, pr_auto_deallocate = auto, pr_lock = k \<rparr>"

definition process_send_prepare_result ::
  "nat \<Rightarrow> string \<Rightarrow> bool \<Rightarrow> nat \<Rightarrow> pgresult \<Rightarrow> string \<Rightarrow> system \<Rightarrow> prepared result" where
  "process_send_prepare_result d name auto k res msg s =
    (if db_conn (sys_pool s) d = None then Inl (PqException ''connection is dead!'')
     else if rs_status res \<noteq> PGRES_COMMAND_OK then Inl (PqException msg)
     else Inr (new_prepared d name auto k))"

definition exists_sql :: string where
  "exists_sql = ''select exists(select 1 from pg_prepared_statements where name = $1)''"

text \<open>
  \<open>prepare\<close>: the question whether the name is known has the turn \<open>n1\<close>, the command the turn
  \<open>n2\<close>. The lock goes into the new object, and ends with a throw.
\<close>

definition db_prepare ::
  "(int \<Rightarrow> string) \<Rightarrow> env \<Rightarrow> int list \<Rightarrow> turn \<Rightarrow> turn \<Rightarrow> (nat \<Rightarrow> pgresult) \<Rightarrow> (int \<Rightarrow> int list option \<Rightarrow> int \<Rightarrow> int \<Rightarrow> bool result) \<Rightarrow>
   nat \<Rightarrow> string \<Rightarrow> string \<Rightarrow> bool \<Rightarrow> system \<Rightarrow> (prepared result \<times> system) option" where
  "db_prepare num_to_str e clk n1 n2 res_of to_bool d name sql auto s =
    (case db_open_connection num_to_str e clk d PQ_ASYNC_DEFAULT_TIMEOUT_MS s of
       None \<Rightarrow> None
     | Some (Inl err, s) \<Rightarrow> Some (Inl err, s)
     | Some (Inr k, s) \<Rightarrow>
         (case db_query_value num_to_str e clk n1 res_of to_bool d exists_sql s of
            None \<Rightarrow> None
          | Some (Inl err, s) \<Rightarrow> Some (unlock e k (Inl err) s)
          | Some (Inr True, s) \<Rightarrow> Some (Inr (new_prepared d name auto k), s)
          | Some (Inr False, s) \<Rightarrow>
              (case run_now num_to_str e clk n2 d (start_prepare sql (task_init False False)) s of
                 None \<Rightarrow> None
               | Some (r, t, s) \<Rightarrow>
                   (case bind_result r (\<lambda>r. process_send_prepare_result d name auto k (result_of res_of r) (tn_message n2) s) of
                      Inl err \<Rightarrow> Some (unlock e k (Inl err) s)
                    | Inr pr \<Rightarrow> Some (Inr pr, s)))))"

text \<open>The overload without types does not pass on whether the statement is to be deleted.\<close>

definition db_prepare_untyped ::
  "(int \<Rightarrow> string) \<Rightarrow> env \<Rightarrow> int list \<Rightarrow> turn \<Rightarrow> turn \<Rightarrow> (nat \<Rightarrow> pgresult) \<Rightarrow> (int \<Rightarrow> int list option \<Rightarrow> int \<Rightarrow> int \<Rightarrow> bool result) \<Rightarrow>
   nat \<Rightarrow> string \<Rightarrow> string \<Rightarrow> bool \<Rightarrow> system \<Rightarrow> (prepared result \<times> system) option" where
  "db_prepare_untyped num_to_str e clk n1 n2 res_of to_bool d name sql auto_deallocate =
    db_prepare num_to_str e clk n1 n2 res_of to_bool d name sql False"

definition prepared_execute ::
  "(int \<Rightarrow> string) \<Rightarrow> env \<Rightarrow> int list \<Rightarrow> turn \<Rightarrow> (nat \<Rightarrow> pgresult) \<Rightarrow> (pgresult \<Rightarrow> int) \<Rightarrow> prepared \<Rightarrow> system \<Rightarrow>
   (int result \<times> system) option" where
  "prepared_execute num_to_str e clk n res_of tuples pr =
    sync_call num_to_str e clk n (pr_db pr) (start_query_prepared PG_BIN_FORMAT) (execute_proc res_of tuples n (pr_db pr))"

definition prepared_query ::
  "(int \<Rightarrow> string) \<Rightarrow> env \<Rightarrow> int list \<Rightarrow> turn \<Rightarrow> (nat \<Rightarrow> pgresult) \<Rightarrow> prepared \<Rightarrow> system \<Rightarrow> (data_table result \<times> system) option" where
  "prepared_query num_to_str e clk n res_of pr =
    sync_call num_to_str e clk n (pr_db pr) (start_query_prepared PG_BIN_FORMAT) (query_proc res_of n (pr_db pr))"

definition prepared_query_single ::
  "(int \<Rightarrow> string) \<Rightarrow> env \<Rightarrow> int list \<Rightarrow> turn \<Rightarrow> (nat \<Rightarrow> pgresult) \<Rightarrow> prepared \<Rightarrow> system \<Rightarrow>
   (data_row option result \<times> system) option" where
  "prepared_query_single num_to_str e clk n res_of pr =
    sync_call num_to_str e clk n (pr_db pr) (start_query_prepared PG_BIN_FORMAT) (query_single_proc res_of n (pr_db pr))"

definition prepared_query_value ::
  "(int \<Rightarrow> string) \<Rightarrow> env \<Rightarrow> int list \<Rightarrow> turn \<Rightarrow> (nat \<Rightarrow> pgresult) \<Rightarrow> (int \<Rightarrow> int list option \<Rightarrow> int \<Rightarrow> int \<Rightarrow> 'a result) \<Rightarrow> prepared \<Rightarrow>
   system \<Rightarrow> ('a result \<times> system) option" where
  "prepared_query_value num_to_str e clk n res_of conv pr =
    sync_call num_to_str e clk n (pr_db pr) (start_query_prepared PG_BIN_FORMAT) (query_value_proc conv res_of n (pr_db pr))"

definition prepared_query_reader ::
  "(int \<Rightarrow> string) \<Rightarrow> env \<Rightarrow> int list \<Rightarrow> prepared \<Rightarrow> system \<Rightarrow> ((reader \<times> nat) result \<times> system) option" where
  "prepared_query_reader num_to_str e clk pr = sync_reader num_to_str e clk (pr_db pr) (start_query_prepared PG_BIN_FORMAT)"

text \<open>\<open>escape\<close> is \<open>PQescapeIdentifier\<close>, None a null pointer; the first lock ends before the command is sent.\<close>

definition deallocate_prepared ::
  "(int \<Rightarrow> string) \<Rightarrow> env \<Rightarrow> int list \<Rightarrow> turn \<Rightarrow> (nat \<Rightarrow> pgresult) \<Rightarrow> (pgresult \<Rightarrow> int) \<Rightarrow> (string \<Rightarrow> string option) \<Rightarrow> nat \<Rightarrow> string \<Rightarrow>
   system \<Rightarrow> (unit result \<times> system) option" where
  "deallocate_prepared num_to_str e clk n res_of tuples escape d name s =
    (case db_open_connection num_to_str e clk d PQ_ASYNC_DEFAULT_TIMEOUT_MS s of
       None \<Rightarrow> None
     | Some (Inl err, s) \<Rightarrow> Some (Inl err, s)
     | Some (Inr k, s) \<Rightarrow>
         if \<not> has_conn d s then Some (unlock e k (Inl null_conn) s)
         else
           (case escape (take 255 name) of
              None \<Rightarrow> Some (unlock e k (Inl (PqException ''Deallocate prepared invalid name!'')) s)
            | Some es_name \<Rightarrow>
                (case drop_lock e k s of
                   (Inl err, s) \<Rightarrow> Some (Inl err, s)
                 | (Inr _, s) \<Rightarrow>
                     map_option (\<lambda>(r, s). (map_sum id (\<lambda>_. ()) r, s))
                       (db_execute num_to_str e clk n res_of tuples d (''DEALLOCATE PREPARE '' @ es_name) s))))"

text \<open>
  The destructor. A throw of \<open>deallocate_prepared\<close> leaves the destructor, which ends the program;
  that is its result here.
\<close>

definition prepared_dtor ::
  "(int \<Rightarrow> string) \<Rightarrow> env \<Rightarrow> int list \<Rightarrow> turn \<Rightarrow> (nat \<Rightarrow> pgresult) \<Rightarrow> (pgresult \<Rightarrow> int) \<Rightarrow> (string \<Rightarrow> string option) \<Rightarrow> prepared \<Rightarrow>
   system \<Rightarrow> (unit result \<times> system) option" where
  "prepared_dtor num_to_str e clk n res_of tuples escape pr s =
    (case (if pr_auto_deallocate pr then deallocate_prepared num_to_str e clk n res_of tuples escape (pr_db pr) (pr_name pr) s
           else Some (Inr (), s)) of
       None \<Rightarrow> None
     | Some (Inl err, s) \<Rightarrow> Some (Inl err, s)
     | Some (Inr _, s) \<Rightarrow> Some (drop_lock e (pr_lock pr) s))"

section \<open>What a call answers\<close>

definition last_result :: "turn \<Rightarrow> nat option" where
  "last_result n = (if tn_results n = [] then None else Some (last (tn_results n)))"

text \<open>The evaluation of the last result, or the error of a command that could not be sent.\<close>

definition sync_answer :: "turn \<Rightarrow> (nat option \<Rightarrow> system \<Rightarrow> 'a result) \<Rightarrow> system \<Rightarrow> 'a result" where
  "sync_answer n proc s = (if tn_send_ok n then proc (last_result n) s else Inl (PqException (tn_message n)))"

text \<open>What is left of a call: no lock, and the connection of the database open, idle and outside a transaction.\<close>

definition given_back :: "nat \<Rightarrow> nat \<Rightarrow> system \<Rightarrow> system \<Rightarrow> bool" where
  "given_back d p s s' \<longleftrightarrow> idle_conn d p s' \<and> can_be_stolen (conn_at (sys_pool s') p) \<and>
     (\<forall>k. locks s' k = (if next_lock s \<le> k \<and> k < next_lock s' then None else locks s k))"

text \<open>The evaluations look at the connection of the database only.\<close>

definition same_conn :: "nat \<Rightarrow> system \<Rightarrow> system \<Rightarrow> bool" where
  "same_conn d s s' \<longleftrightarrow> (db_conn (sys_pool s') d = None) = (db_conn (sys_pool s) d = None)"

definition conn_only :: "nat \<Rightarrow> (nat option \<Rightarrow> system \<Rightarrow> 'a result) \<Rightarrow> bool" where
  "conn_only d proc \<longleftrightarrow> (\<forall>r s s'. same_conn d s s' \<longrightarrow> proc r s' = proc r s)"

lemma procs_conn_only [simp]:
  "conn_only d (execute_proc res_of tuples n d)" "conn_only d (query_proc res_of n d)"
  "conn_only d (query_single_proc res_of n d)" "conn_only d (query_value_proc conv res_of n d)"
  by (simp_all add: conn_only_def same_conn_def execute_proc_def query_proc_def query_single_proc_def query_value_proc_def
      process_execute_result_def process_query_result_def process_query_single_result_def process_query_value_result_def)

definition is_command :: "(task \<Rightarrow> task) \<Rightarrow> bool" where
  "is_command start \<longleftrightarrow> t_cmd (start (task_init False False)) \<in> {Cmd_query, Cmd_prepare, Cmd_query_prepared}"

lemma commands [simp]:
  "is_command (start_query sql fmt)" "is_command (start_prepare sql)" "is_command (start_query_prepared fmt)"
  by (simp_all add: is_command_def start_query_def start_prepare_def start_query_prepared_def)

lemma run_now_command:
  assumes "is_command start" "has_conn d s"
  shows "\<exists>t. run_now num_to_str e clk n d (start (task_init False False)) s
    = Some (if tn_send_ok n then Inr (last_result n) else Inl (PqException (tn_message n)), t, s)"
  using assms
  by (auto simp: is_command_def run_now_def start_command_def send_command_def drain_now_def last_result_def)

text \<open>A lock on the connection of a database that is not in a transaction of its own.\<close>

definition held :: "nat \<Rightarrow> nat \<Rightarrow> nat \<Rightarrow> system \<Rightarrow> bool" where
  "held d p k s \<longleftrightarrow> idle_conn d p s \<and> locks s k = Some (p, 1) \<and> k < next_lock s"

lemma open_idle:
  assumes "idle_conn d p s" "PQstatus_ok e"
  shows "\<exists>s'. db_open_connection num_to_str e clk d tm s = Some (Inr (next_lock s), s') \<and> held d p (next_lock s) s' \<and>
    next_lock s' = Suc (next_lock s) \<and> locks s' = (locks s)(next_lock s \<mapsto> (p, 1)) \<and> same_conn d s s'"
  using assms
  by (auto simp: idle_conn_def held_def same_conn_def db_open_connection_def acquire_def lock_and_open_def lo_defs)

lemma held_has_conn: "held d p k s \<Longrightarrow> has_conn d s"
  by (auto simp: held_def idle_conn_def has_conn_def)

lemma unlock_held:
  assumes "held d p k s"
  shows "\<exists>s'. unlock e k r s = (r, s') \<and> idle_conn d p s' \<and> can_be_stolen (conn_at (sys_pool s') p) \<and>
    next_lock s' = next_lock s \<and> locks s' = (locks s)(k := None) \<and> same_conn d s s'"
  using assms by (auto simp: held_def idle_conn_def same_conn_def can_be_stolen_def lo_defs)

lemma sync_call_idle:
  assumes "idle_conn d p s" "PQstatus_ok e" "is_command start"
    and "conn_only d proc"
  shows "\<exists>s'. sync_call num_to_str e clk n d start proc s = Some (sync_answer n proc s, s') \<and> given_back d p s s' \<and>
    next_lock s' = Suc (next_lock s) \<and> same_conn d s s'"
proof -
  obtain s1 where s1: "db_open_connection num_to_str e clk d PQ_ASYNC_DEFAULT_TIMEOUT_MS s = Some (Inr (next_lock s), s1)"
    "held d p (next_lock s) s1" "next_lock s1 = Suc (next_lock s)" "locks s1 = (locks s)(next_lock s \<mapsto> (p, 1))" "same_conn d s s1"
    using open_idle [OF assms(1,2), of num_to_str clk PQ_ASYNC_DEFAULT_TIMEOUT_MS] by blast
  obtain t where t: "run_now num_to_str e clk n d (start (task_init False False)) s1
      = Some (if tn_send_ok n then Inr (last_result n) else Inl (PqException (tn_message n)), t, s1)"
    using run_now_command [OF assms(3) held_has_conn [OF s1(2)]] by blast
  obtain s2 where s2: "unlock e (next_lock s) (sync_answer n proc s) s1 = (sync_answer n proc s, s2)" "idle_conn d p s2"
    "can_be_stolen (conn_at (sys_pool s2) p)" "next_lock s2 = next_lock s1" "locks s2 = (locks s1)(next_lock s := None)" "same_conn d s1 s2"
    using unlock_held [OF s1(2)] by blast
  have r: "bind_result (if tn_send_ok n then Inr (last_result n) else Inl (PqException (tn_message n))) (\<lambda>r. proc r s1)
      = sync_answer n proc s"
    using assms(4) s1(5) by (simp add: sync_answer_def conn_only_def)
  have "given_back d p s s2" using s2 s1(3,4) by (auto simp: given_back_def)
  moreover have "same_conn d s s2" using s1(5) s2(6) by (simp add: same_conn_def)
  ultimately show ?thesis using s1(1,3) t r s2(1,4) by (simp add: sync_call_def)
qed

lemma sync_call_back:
  assumes "idle_conn d p s" "PQstatus_ok e" "is_command start" "conn_only d proc"
  shows "\<exists>s'. sync_call num_to_str e clk n d start proc s = Some (sync_answer n proc s, s') \<and> given_back d p s s'"
  using sync_call_idle [OF assms] by blast

text \<open>
  C12: The synchronous calls of a database and of its prepared statements: on an open connection
  outside a transaction each gives the evaluation of the last result of its command, or throws
  what libpq reports when the command cannot be sent, the same for a prepared statement as for a
  query; and each leaves the connection open and idle, with no lock more than before.
\<close>

theorem sync_queries:
  assumes "idle_conn d p s" "PQstatus_ok e" "pr_db pr = d"
  shows "\<exists>s1 s2 s3 s4. list_all (given_back d p s) [s1, s2, s3, s4] \<and>
    db_execute num_to_str e clk n res_of tuples d sql s = Some (sync_answer n (execute_proc res_of tuples n d) s, s1) \<and>
    prepared_execute num_to_str e clk n res_of tuples pr s = Some (sync_answer n (execute_proc res_of tuples n d) s, s1) \<and>
    db_query num_to_str e clk n res_of d sql s = Some (sync_answer n (query_proc res_of n d) s, s2) \<and>
    prepared_query num_to_str e clk n res_of pr s = Some (sync_answer n (query_proc res_of n d) s, s2) \<and>
    db_query_single num_to_str e clk n res_of d sql s = Some (sync_answer n (query_single_proc res_of n d) s, s3) \<and>
    prepared_query_single num_to_str e clk n res_of pr s = Some (sync_answer n (query_single_proc res_of n d) s, s3) \<and>
    db_query_value num_to_str e clk n res_of conv d sql s = Some (sync_answer n (query_value_proc conv res_of n d) s, s4) \<and>
    prepared_query_value num_to_str e clk n res_of conv pr s = Some (sync_answer n (query_value_proc conv res_of n d) s, s4)"
proof -
  have eq: "sync_call num_to_str e clk n d start proc s = sync_call num_to_str e clk n d start' proc s"
    if "is_command start" "is_command start'" for start start' and proc :: "nat option \<Rightarrow> system \<Rightarrow> 'b result"
  proof -
    note ab = that
    obtain s1 where s1: "db_open_connection num_to_str e clk d PQ_ASYNC_DEFAULT_TIMEOUT_MS s = Some (Inr (next_lock s), s1)" "has_conn d s1"
      using open_idle [OF assms(1,2), of num_to_str clk PQ_ASYNC_DEFAULT_TIMEOUT_MS] held_has_conn by blast
    obtain t t' where "run_now num_to_str e clk n d (start (task_init False False)) s1
        = Some (if tn_send_ok n then Inr (last_result n) else Inl (PqException (tn_message n)), t, s1)"
      "run_now num_to_str e clk n d (start' (task_init False False)) s1
        = Some (if tn_send_ok n then Inr (last_result n) else Inl (PqException (tn_message n)), t', s1)"
      using run_now_command [OF ab(1) s1(2)] run_now_command [OF ab(2) s1(2)] by blast
    then show ?thesis using s1(1) by (simp add: sync_call_def)
  qed
  let ?q = "start_query sql PG_BIN_FORMAT" and ?p = "start_query_prepared PG_BIN_FORMAT"
  have e: "sync_call num_to_str e clk n d ?p (execute_proc res_of tuples n d) s = sync_call num_to_str e clk n d ?q (execute_proc res_of tuples n d) s"
    "sync_call num_to_str e clk n d ?p (query_proc res_of n d) s = sync_call num_to_str e clk n d ?q (query_proc res_of n d) s"
    "sync_call num_to_str e clk n d ?p (query_single_proc res_of n d) s = sync_call num_to_str e clk n d ?q (query_single_proc res_of n d) s"
    "sync_call num_to_str e clk n d ?p (query_value_proc conv res_of n d) s = sync_call num_to_str e clk n d ?q (query_value_proc conv res_of n d) s"
    by (rule eq; simp)+
  have c: "\<exists>s'. sync_call num_to_str e clk n d ?q (execute_proc res_of tuples n d) s = Some (sync_answer n (execute_proc res_of tuples n d) s, s') \<and> given_back d p s s'"
    "\<exists>s'. sync_call num_to_str e clk n d ?q (query_proc res_of n d) s = Some (sync_answer n (query_proc res_of n d) s, s') \<and> given_back d p s s'"
    "\<exists>s'. sync_call num_to_str e clk n d ?q (query_single_proc res_of n d) s = Some (sync_answer n (query_single_proc res_of n d) s, s') \<and> given_back d p s s'"
    "\<exists>s'. sync_call num_to_str e clk n d ?q (query_value_proc conv res_of n d) s = Some (sync_answer n (query_value_proc conv res_of n d) s, s') \<and> given_back d p s s'"
    by (rule sync_call_back [OF assms(1,2)]; simp)+
  show ?thesis
    using c unfolding db_execute_def db_query_def db_query_single_def db_query_value_def prepared_execute_def
        prepared_query_def prepared_query_single_def prepared_query_value_def assms(3) e by auto
qed

text \<open>A call inside a transaction of the database leaves everything as it was.\<close>

lemma sync_call_tx:
  assumes "db_lock s d = Some k" "locks s k = Some (q, m)" "1 \<le> m" "has_conn d s" "is_command start" "conn_only d proc"
  shows "sync_call num_to_str e clk n d start proc s = Some (sync_answer n proc s, s)"
proof -
  have hc: "has_conn d (copy_lock k s)" using assms(4) by (auto simp: has_conn_def copy_lock_def split: option.splits)
  have cp: "copy_lock k s = s \<lparr> locks := (locks s)(k \<mapsto> (q, Suc m)) \<rparr>" using assms(2) by (simp add: copy_lock_def)
  have "(locks s)(k \<mapsto> (q, m)) = locks s" using assms(2) by auto
  then have "drop_lock e k (copy_lock k s) = (Inr (), s)" using assms(3) by (simp add: drop_lock_def cp)
  moreover obtain t where "run_now num_to_str e clk n d (start (task_init False False)) (copy_lock k s)
      = Some (if tn_send_ok n then Inr (last_result n) else Inl (PqException (tn_message n)), t, copy_lock k s)"
    using run_now_command [OF assms(5) hc] by blast
  moreover have "same_conn d s (copy_lock k s)" by (simp add: same_conn_def copy_lock_def)
  then have "proc (last_result n) (copy_lock k s) = proc (last_result n) s" using assms(6) unfolding conn_only_def by blast
  ultimately show ?thesis
    using assms(1) by (cases "tn_send_ok n") (simp_all add: sync_call_def db_open_connection_def unlock_def sync_answer_def)
qed

section \<open>Prepared statements\<close>

text \<open>What \<open>prepare\<close> should give: an object if the server knows the name or takes the command.\<close>

definition prepare_answer ::
  "turn \<Rightarrow> turn \<Rightarrow> (nat \<Rightarrow> pgresult) \<Rightarrow> (int \<Rightarrow> int list option \<Rightarrow> int \<Rightarrow> int \<Rightarrow> bool result) \<Rightarrow> nat \<Rightarrow> system \<Rightarrow> unit result" where
  "prepare_answer n1 n2 res_of to_bool d s =
    bind_result (sync_answer n1 (query_value_proc to_bool res_of n1 d) s) (\<lambda>known.
      if known then Inr ()
      else if \<not> tn_send_ok n2 then Inl (PqException (tn_message n2))
      else if rs_status (result_of res_of (last_result n2)) = PGRES_COMMAND_OK then Inr ()
      else Inl (PqException (tn_message n2)))"

text \<open>
  C21: \<open>prepare\<close> on an open connection outside a transaction asks the server for the name, sends
  the command only when the name is not known, and throws the error of the first of the two that
  fails, with its lock given back. When it succeeds the new object keeps a lock on the connection,
  but the connection counts as idle, so that the pool may give it to another database: the
  question has reserved the connection again, and the end of its own lock has marked it idle.
\<close>

theorem prepare_outcome:
  assumes "idle_conn d p s" "PQstatus_ok e"
  shows "case prepare_answer n1 n2 res_of to_bool d s of
      Inl err \<Rightarrow> \<exists>s'. db_prepare num_to_str e clk n1 n2 res_of to_bool d name sql auto s = Some (Inl err, s') \<and> given_back d p s s'
    | Inr _ \<Rightarrow> \<exists>pr s'. db_prepare num_to_str e clk n1 n2 res_of to_bool d name sql auto s = Some (Inr pr, s') \<and>
        pr_db pr = d \<and> pr_name pr = name \<and> pr_auto_deallocate pr = auto \<and> locks s' (pr_lock pr) = Some (p, 1) \<and>
        db_conn (sys_pool s') d = Some p \<and> can_be_stolen (conn_at (sys_pool s') p)"
proof -
  let ?q = "query_value_proc to_bool res_of n1 d" and ?k = "next_lock s"
  obtain s1 where s1: "db_open_connection num_to_str e clk d PQ_ASYNC_DEFAULT_TIMEOUT_MS s = Some (Inr ?k, s1)" "held d p ?k s1"
    "next_lock s1 = Suc ?k" "locks s1 = (locks s)(?k \<mapsto> (p, 1))" "same_conn d s s1"
    using open_idle [OF assms, of num_to_str clk PQ_ASYNC_DEFAULT_TIMEOUT_MS] by blast
  have i1: "idle_conn d p s1" using s1(2) by (simp add: held_def)
  obtain s2 where s2: "sync_call num_to_str e clk n1 d (start_query exists_sql PG_BIN_FORMAT) ?q s1 = Some (sync_answer n1 ?q s1, s2)"
    "given_back d p s1 s2" "next_lock s2 = Suc (next_lock s1)" "same_conn d s1 s2"
    using sync_call_idle [OF i1 assms(2) commands(1) procs_conn_only(4)] by blast
  have a: "sync_answer n1 ?q s1 = sync_answer n1 ?q s"
    using s1(5) procs_conn_only(4) [of d to_bool res_of n1] by (simp add: sync_answer_def conn_only_def)
  have q: "db_query_value num_to_str e clk n1 res_of to_bool d exists_sql s1 = Some (sync_answer n1 ?q s, s2)"
    using s2(1) a by (simp add: db_query_value_def)
  have h2: "held d p ?k s2" "can_be_stolen (conn_at (sys_pool s2) p)" "db_conn (sys_pool s2) d = Some p"
    "\<And>x. locks s2 x = (if x = ?k then Some (p, 1) else if x = Suc ?k then None else locks s x)"
    using s2(2,3) s1(3,4) by (auto simp: held_def given_back_def idle_conn_def)
  have gb: "\<exists>s'. unlock e ?k r s2 = (r, s') \<and> given_back d p s s'" for r :: "prepared result"
  proof -
    obtain s3 where "unlock e ?k r s2 = (r, s3)" "idle_conn d p s3" "can_be_stolen (conn_at (sys_pool s3) p)"
      "next_lock s3 = next_lock s2" "locks s3 = (locks s2)(?k := None)" using unlock_held [OF h2(1), of e r] by blast
    then show ?thesis using h2(4) s2(3) s1(3) by (auto simp: given_back_def)
  qed
  obtain t where t: "run_now num_to_str e clk n2 d (start_prepare sql (task_init False False)) s2
      = Some (if tn_send_ok n2 then Inr (last_result n2) else Inl (PqException (tn_message n2)), t, s2)"
    using run_now_command [OF commands(2) held_has_conn [OF h2(1)]] by blast
  have k: "locks s2 ?k = Some (p, 1)" using h2(4) by simp
  show ?thesis
  proof (cases "sync_answer n1 ?q s")
    case (Inl err)
    then show ?thesis using s1(1) q gb [of "Inl err"] by (auto simp: prepare_answer_def db_prepare_def)
  next
    case (Inr known)
    show ?thesis
    proof (cases known)
      case True
      then show ?thesis using Inr s1(1) q k h2(2,3) by (simp add: prepare_answer_def db_prepare_def new_prepared_def)
    next
      case False
      then show ?thesis using Inr s1(1) q t k h2(2,3) gb [of "Inl (PqException (tn_message n2))"]
        by (auto simp: prepare_answer_def db_prepare_def new_prepared_def process_send_prepare_result_def)
    qed
  qed
qed

text \<open>
  A statement that deletes itself ends the program when the command fails, for instance because
  the connection was given to another database in between; one that does not gives its lock back.
\<close>

theorem prepared_end:
  assumes "idle_conn (pr_db pr) p s" "PQstatus_ok e" "locks s (pr_lock pr) = Some (p, 1)" "pr_lock pr < next_lock s"
    and "escape (take 255 (pr_name pr)) = Some es"
  shows "\<exists>s'. prepared_dtor num_to_str e clk n res_of tuples escape pr s =
    Some (if pr_auto_deallocate pr then map_sum id (\<lambda>_. ()) (sync_answer n (execute_proc res_of tuples n (pr_db pr)) s) else Inr (), s')"
proof -
  let ?d = "pr_db pr" and ?proc = "execute_proc res_of tuples n (pr_db pr)"
  have h: "held ?d p (pr_lock pr) s" using assms(1,3,4) by (simp add: held_def)
  obtain s0 where s0: "drop_lock e (pr_lock pr) s = (Inr (), s0)"
    using unlock_held [OF h, of e "Inr () :: unit result"] by (cases "drop_lock e (pr_lock pr) s") (auto simp: unlock_def split: sum.splits)
  show ?thesis
  proof (cases "pr_auto_deallocate pr")
    case True
    obtain s1 where s1: "db_open_connection num_to_str e clk ?d PQ_ASYNC_DEFAULT_TIMEOUT_MS s = Some (Inr (next_lock s), s1)"
      "held ?d p (next_lock s) s1" "next_lock s1 = Suc (next_lock s)" "locks s1 = (locks s)(next_lock s \<mapsto> (p, 1))" "same_conn ?d s s1"
      using open_idle [OF assms(1,2), of num_to_str clk PQ_ASYNC_DEFAULT_TIMEOUT_MS] by blast
    obtain s2 where s2: "drop_lock e (next_lock s) s1 = (Inr (), s2)" "idle_conn ?d p s2" "next_lock s2 = next_lock s1"
      "locks s2 = (locks s1)(next_lock s := None)" "same_conn ?d s1 s2"
      using unlock_held [OF s1(2), of e "Inr () :: unit result"] by (cases "drop_lock e (next_lock s) s1") (auto simp: unlock_def split: sum.splits)
    obtain s3 where s3: "sync_call num_to_str e clk n ?d (start_query (''DEALLOCATE PREPARE '' @ es) PG_BIN_FORMAT) ?proc s2
        = Some (sync_answer n ?proc s2, s3)" "given_back ?d p s2 s3"
      using sync_call_back [OF s2(2) assms(2) commands(1) procs_conn_only(1)] by blast
    have "same_conn ?d s s2" using s1(5) s2(5) by (simp add: same_conn_def)
    then have "?proc r s2 = ?proc r s" for r using procs_conn_only(1) unfolding conn_only_def by blast
    then have a: "sync_answer n ?proc s2 = sync_answer n ?proc s" by (simp add: sync_answer_def)
    have dealloc: "deallocate_prepared num_to_str e clk n res_of tuples escape ?d (pr_name pr) s
        = Some (map_sum id (\<lambda>_. ()) (sync_answer n ?proc s), s3)"
      using s1(1) held_has_conn [OF s1(2)] assms(5) s2(1) s3(1) a by (simp add: deallocate_prepared_def db_execute_def)
    have "locks s3 (pr_lock pr) = Some (p, 1)" "pr_lock pr \<noteq> next_lock s"
      using s3(2) s2(3,4) s1(3,4) assms(3,4) by (auto simp: given_back_def)
    moreover have "conns (sys_pool s3) p \<noteq> None" using s3(2) by (auto simp: given_back_def idle_conn_def)
    ultimately obtain s4 where "drop_lock e (pr_lock pr) s3 = (Inr (), s4)" by (auto simp: drop_lock_def)
    then show ?thesis using True dealloc by (cases "sync_answer n ?proc s") (simp_all add: prepared_dtor_def)
  qed (use s0 in \<open>simp add: prepared_dtor_def\<close>)
qed

section \<open>Witnesses\<close>

definition sample_turn :: turn where
  "sample_turn = \<lparr> tn_send_ok = True, tn_get_cancel = True, tn_cancel_ok = True, tn_consume_ok = True, tn_busy = False,
     tn_single_row_ok = True, tn_results = [0], tn_message = ''refused'' \<rparr>"

definition sample_prepared :: prepared where
  "sample_prepared = new_prepared 0 ''p'' True 0"

definition ok_result :: pgresult where
  "ok_result = \<lparr> rs_status = PGRES_COMMAND_OK, rs_cols = [], rs_rows = [] \<rparr>"

theorem sync_queries_witness:
  "\<exists>s'. prepared_execute sample_str sample_env [] sample_turn (\<lambda>_. ok_result) (\<lambda>_. 3) sample_prepared idle_system = Some (Inr 3, s')
     \<and> given_back 0 0 idle_system s'"
proof -
  have e: "PQstatus_ok sample_env" "pr_db sample_prepared = 0" by (simp_all add: sample_env_def sample_prepared_def new_prepared_def)
  have a: "sync_answer sample_turn (execute_proc (\<lambda>_. ok_result) (\<lambda>_. 3) sample_turn 0) idle_system = Inr 3"
    by (simp add: sync_answer_def sample_turn_def execute_proc_def last_result_def result_of_def ok_result_def
        process_execute_result_def idle_system_def)
  show ?thesis
    using sync_queries [OF idle_sample e, where n = sample_turn and res_of = "\<lambda>_. ok_result" and tuples = "\<lambda>_. 3" and num_to_str = sample_str
        and clk = "[]" and sql = "[]" and conv = "\<lambda>_ _ _ _. Inr ()"] a by auto
qed

theorem prepare_outcome_witness:
  "\<exists>pr s'. db_prepare sample_str sample_env [] sample_turn sample_turn (\<lambda>_. ok_result) (\<lambda>_ _ _ _. Inr False) 0 ''p'' ''select 1'' False
     idle_system = Some (Inr pr, s') \<and> locks s' (pr_lock pr) = Some (0, 1) \<and> can_be_stolen (conn_at (sys_pool s') 0)"
proof -
  have e: "PQstatus_ok sample_env" by (simp add: sample_env_def)
  have a: "prepare_answer sample_turn sample_turn (\<lambda>_. ok_result) (\<lambda>_ _ _ _. Inr False) 0 idle_system = Inr ()"
    by (simp add: prepare_answer_def sync_answer_def sample_turn_def query_value_proc_def last_result_def result_of_def ok_result_def
        process_query_value_result_def idle_system_def ok_status_def)
  show ?thesis
    using prepare_outcome [OF idle_sample e, where ?n1.0 = sample_turn and ?n2.0 = sample_turn and res_of = "\<lambda>_. ok_result" and to_bool = "\<lambda>_ _ _ _. Inr False"
        and num_to_str = sample_str and clk = "[]" and name = "''p''" and sql = "''select 1''" and auto = False] a by fastforce
qed

definition held_statement :: system where
  "held_statement = idle_system \<lparr> locks := [0 \<mapsto> (0, 1)], next_lock := 1 \<rparr>"

theorem prepared_end_witness:
  "\<exists>s' msg. prepared_dtor sample_str sample_env [] (sample_turn \<lparr> tn_send_ok := False \<rparr>) (\<lambda>_. ok_result) (\<lambda>_. 0) Some sample_prepared
     held_statement = Some (Inl (PqException msg), s')"
proof -
  have i: "idle_conn (pr_db sample_prepared) 0 held_statement"
    using idle_sample by (simp add: sample_prepared_def new_prepared_def held_statement_def idle_conn_def)
  have x: "PQstatus_ok sample_env" "locks held_statement (pr_lock sample_prepared) = Some (0, 1)" "pr_lock sample_prepared < next_lock held_statement"
    "Some (take 255 (pr_name sample_prepared)) = Some ''p''"
    by (simp_all add: sample_env_def held_statement_def sample_prepared_def new_prepared_def)
  show ?thesis
    using prepared_end [where escape = Some, OF i x, where n = "sample_turn \<lparr> tn_send_ok := False \<rparr>" and res_of = "\<lambda>_. ok_result" and tuples = "\<lambda>_. 0"
        and num_to_str = sample_str and clk = "[]"]
    by (auto simp: sample_prepared_def new_prepared_def sync_answer_def)
qed

end
