(* ===== verification/Spec2Isabelle.thy ===== *)
theory Spec2Isabelle
  imports Prelude Numeric_Core Numeric_Arith Numeric_Int Numeric_Text Numeric_Div Numeric_Ops Numeric_Fast
    Connection Pool Session C_Chars Net_Addr Net_V6 Net_Mac
    Sql_Split Sql_Exec Wire Conn_Task Geometry Range Times Cash Results Convert Row_Values Params Async_Calls
    Large_Object Row_Json Durations Sync_Calls
begin

text \<open>
  A verification development for pq-async, a C++ client library for PostgreSQL on top of libpq.

  The program. A \<open>database_t\<close> (\<open>database.h\<close>, \<open>database.cpp\<close>) runs queries,
  transactions and scripts on a \<open>connection\<close>, which a \<open>connection_pool\<close>
  (\<open>data_connection_pool.h\<close>, \<open>data_connection_pool.cpp\<close>) hands out; connection locks keep
  others from stealing it. Values travel in C++ classes for the types of the server: exact
  decimal numbers (\<open>pg_type_numeric_def.cpp\<close>), network and MAC addresses
  (\<open>pg_type_net_def.cpp\<close>), dates, ranges and others.

  The theories.

  \<^item> \<open>Prelude\<close>: errors as values, C integers with their wrap-around, numbers in positional
    notation, the locales \<open>cmp_by_key\<close> (a three-way comparison that agrees with a key) and
    \<open>step_invariant\<close> (invariants of step relations). \<open>C_Chars\<close>: the part of the C library
    that the text conversions use.

  \<^item> \<open>Numeric_Core\<close>, \<open>Numeric_Arith\<close>, \<open>Numeric_Div\<close>, \<open>Numeric_Ops\<close>,
    \<open>Numeric_Int\<close>, \<open>Numeric_Text\<close>: class \<open>numeric\<close>. The record \<open>numeric\<close> has the members
    of the class with the digit buffer as the list of its digits. Every loop of the arithmetic is
    a recursive function over the same cells; the accumulators of \<open>mul_var\<close> and the checks of
    the integer conversions keep their width. The lemmas give each operation the rational
    number it computes: rounding, truncation, comparison, exact addition and subtraction, the
    product with its error bound, division after Knuth for every divisor, remainder, ceiling and
    floor, integers of 64 bits both ways, and the text form both ways.

  \<^item> \<open>Numeric_Fast\<close>: \<open>div_var_fast\<close>, the approximate division with digits estimated in
    \<open>double\<close> arithmetic. The rounding of a \<open>double\<close> is defined; the locale \<open>double_arith\<close> states its
    relative error, from which follow the bounds of the 32-bit cells and the accuracy of the quotient.

  \<^item> \<open>Connection\<close>, \<open>Pool\<close>, \<open>Session\<close>: connections, the pool and databases that share it.
    What libpq answers and what the clock shows during a call are arguments (record \<open>env\<close>, a
    list of clock readings). The pool is an explicit store, in which connections, their owners
    and the databases point at each other. \<open>get_connection\<close> refines the assignment policy
    \<open>assign\<close>; \<open>Session\<close> runs the calls of any number of databases as the steps of a
    relation and proves the invariants of its reachable states through the locale
    \<open>sys_invariant\<close>: the pools stay bounded and well-formed, a transaction is not disturbed and
    connections are not shared while only connections with an owner are stolen; and it shows runs in which
    the pool breaks its promise.

  \<^item> \<open>Net_Addr\<close>, \<open>Net_V6\<close>, \<open>Net_Mac\<close>: classes \<open>cidr\<close>, \<open>inet\<close>, \<open>macaddr\<close> and
    \<open>macaddr8\<close>: parsers, printers, the check of a mask and the orders, with the round trips
    through the text form for both families and both kinds of MAC address.

  \<^item> \<open>Sql_Split\<close>, \<open>Sql_Exec\<close>: scripts. \<open>split_queries\<close> is proved against scripts that
    are written from tokens; \<open>exec_queries\<close> combines it with the sessions.

  \<^item> \<open>Wire\<close>: the formats of values (\<open>utils.cpp\<close>, \<open>data_parameters.cpp\<close>): writers and
    readers for booleans, strings, integers, money, oids, numerics, addresses and ranges over
    lists of bytes, for hosts of either byte order. The locale \<open>wire_codec\<close> states what a
    writer and a reader promise each other; ranges and arrays rest on it, and it is interpreted for
    all the types below that keep it.

  \<^item> \<open>Geometry\<close>, \<open>Range\<close>, \<open>Times\<close>, \<open>Cash\<close>: the classes for geometric types
    (\<open>pg_type_geo_def\<close>), ranges (\<open>pg_type_range_def\<close>), dates and times
    (\<open>pg_type_date_def\<close>) and amounts of money (\<open>pg_type_cash_def\<close>), with their texts and
    binary forms. Doubles are bit patterns on the wire and exact numbers in the arithmetic of points. The
    calendar is an argument with the laws of the locale \<open>calendar\<close>, interpreted by the proleptic
    Gregorian calendar.

  \<^item> \<open>Conn_Task\<close>: the tasks of a connection (\<open>connection_task_t\<close>,
    \<open>reader_connection_task\<close>). A turn of the event loop is a call of \<open>run_task\<close> with what
    libpq answers during it. A request for a connection is answered once and ends with its time limit; a
    command completes on the first turn on which libpq is not busy.

  \<^item> \<open>Async_Calls\<close>: the calls with a callback of \<open>database.h\<close> and \<open>data_prepared.h\<close> on the
    strand of one database. The closures of the code are data (\<open>open_cont\<close>, \<open>after\<close>), a task is an
    item of the strand, and a turn of the strand is one \<open>run_task\<close> of the item in front with what it
    meets. Locks are objects with a connection each; the end of any lock marks its connection as
    idle, and the pool may take an idle connection without a transaction. Every call is answered
    once, and once more for each turn on which libpq refuses its command, which then stays in front
    (\<open>Conn_Task.refused_command_repeats\<close>). A connection that is marked as in a transaction stays the
    one of the database, whatever happens to the locks; runs show where the locks fail.

  \<^item> \<open>Params\<close>: lists of parameters (\<open>parameters_t\<close>) with an explicit memory. \<open>holds\<close>
    relates a list in memory to a list of values; the operations refine those of lists as long
    as nothing changes after the list was sent, and what they leave allocated in the end are exactly
    the parameters that \<open>remove_at\<close> took out.

  \<^item> \<open>Results\<close>, \<open>Convert\<close>, \<open>Row_Values\<close>: tables, rows and readers made of results of
    libpq (\<open>data_table.cpp\<close>, \<open>data_row.cpp\<close>, \<open>data_reader.h\<close>, \<open>database.cpp\<close>); the
    conversions of \<open>val_from_pgparam\<close> from the type of a column to a type of the program; values of
    rows and arrays, which are read through the locale \<open>array_codec\<close>. A row that is read alone is the row of
    the table. The datatype \<open>sent\<close> has the types of values (19 of them) that are read back from the
    table they return in as they were sent; the others lose something, as arrays of \<open>char*\<close> do.

  \<^item> \<open>Row_Json\<close>: rows and tables as json. The json library is an argument; of the values of columns
    that share a name the last one is kept, and a value of \<open>sent\<close> that returns in a table has the json that
    its type is given.

  \<^item> \<open>Large_Object\<close>: class \<open>data_large_object\<close> (\<open>data_large_object.cpp\<close>). What libpq answers is an
    argument; the calls are composed with the locks and the transactions of \<open>Session\<close>. An open object
    has a transaction in the reachable states, and cannot be opened inside one of the program.

  \<^item> \<open>Sync_Calls\<close>: the synchronous calls of \<open>database.h\<close> and class \<open>data_prepared_t\<close>
    (\<open>data_prepared.h\<close>): the lock of \<open>Session\<close>, a task of \<open>Conn_Task\<close> and the evaluation of
    \<open>Results\<close> in one call, and a statement from \<open>prepare\<close> to its destructor.

  \<^item> \<open>Durations\<close>: texts of durations (\<open>pg_type_duration_def.cpp\<close>). The regular expression is a
    language beside a matcher that runs. The numbers are an argument with the laws of rounded
    floating point arithmetic (\<open>float_lib\<close>), which \<open>round_double\<close> keeps.

  Bounds and fuel. All functions are total. The loops are structural or have a measure; the
  waiting loop of the pool consumes the list of clock readings and returns None when it runs
  out of them, and \<open>get_connection_refines\<close> shows that one reading is enough. The loop of a caller over a
  reader (\<open>read_rows\<close>) has fuel, of which one more than the rows is enough; the strand of a
  database needs at most four answered turns for each waiting item. Capacities of
  buffers are those of the code (50 bytes for an address, the digits of a number are checked
  against the allocation in \<open>Numeric_Text\<close>). Where the code reads behind a value, follows a null
  pointer, frees twice, or overflows a signed integer in dates and times, money, the bounds of ranges
  and the sizes of arrays, the model has the error \<open>UndefinedBehaviour\<close>. The weight and the display
  scale of a \<open>numeric\<close> are \<open>int\<close> in the code and unbounded in the model: their overflow is not
  modelled.

  Calls are atomic: the mutex of the pool is held during a call, and interleavings are sequences
  of calls. Functions of other libraries (\<open>md::trim\<close>, \<open>md::num_to_str\<close>, Boost, libpq, the date
  and the json library, conversions between floats and text) are arguments.

  Not modelled: the square root, exponential, logarithm and power of \<open>numeric\<close>, which no operator of the
  class calls, and its conversions from and to \<open>double\<close>; magnitudes and normals of
  points; the formats with a locale of dates and money, which only call other libraries; the
  generation of uuids; logging; callbacks that throw.
\<close>

end
